(* ===== verification/Prelude.thy ===== *)
theory Prelude
  imports Main "HOL-Library.AList" "HOL-Library.Word" "HOL-Library.List_Lexorder"
    "HOL-Library.Sublist"
begin

text \<open>
  The vocabulary the component theories share: strings, clocks, the standard library's hash
  map, results and polls, and the generic facts about machines that are run over a list of
  operations.

  Strings. A Rust \<open>String\<close> is a sequence of Unicode scalar values, kept here as the list of
  their code points (\<open>ustring\<close>); \<open>lit\<close> turns an ASCII literal into one. Comparing code point
  lists lexicographically is comparing the UTF-8 bytes, which is what \<open>Ord for str\<close> does.

  Time. A wall-clock \<open>DateTime\<close> is a number of nanoseconds (\<open>int\<close>), a monotonic \<open>Instant\<close> a
  natural number of nanoseconds.
\<close>

named_theorems component_simps "unfolding rules of the modelled operations"

section \<open>Strings\<close>

type_synonym ustring = "nat list"

definition lit :: "string \<Rightarrow> ustring" where
  "lit s = map of_char s"

lemma lit_inject [simp]: "lit s = lit t \<longleftrightarrow> s = t"
  unfolding lit_def by (rule inj_map_eq_map) (simp add: inj_on_def)

lemma lit_Nil [simp]: "lit [] = []" "lit s = [] \<longleftrightarrow> s = []"
  by (simp_all add: lit_def)

lemma length_lit [simp]: "length (lit s) = length s"
  by (simp add: lit_def)

section \<open>Bytes, words and clocks\<close>

type_synonym byte = "8 word"
type_synonym u32 = "32 word"
type_synonym u64 = "64 word"
type_synonym datetime = int
type_synonym instant = nat

definition nanos_per_sec :: nat where
  "nanos_per_sec = 10 ^ 9"

definition dur_secs :: "int \<Rightarrow> int" where
  "dur_secs n = n * 10 ^ 9"

definition dur_minutes :: "int \<Rightarrow> int" where
  "dur_minutes n = dur_secs (n * 60)"

definition dur_hours :: "int \<Rightarrow> int" where
  "dur_hours n = dur_secs (n * 3600)"

definition dur_days :: "int \<Rightarrow> int" where
  "dur_days n = dur_secs (n * 86400)"

lemmas dur_defs = dur_secs_def dur_minutes_def dur_hours_def dur_days_def

text \<open>\<open>usize\<close> on the 64-bit targets the program is released for.\<close>

definition usize_max :: nat where
  "usize_max = 2 ^ 64 - 1"

definition saturating_add_usize :: "nat \<Rightarrow> nat \<Rightarrow> nat" where
  "saturating_add_usize a b = min (a + b) usize_max"

section \<open>Results and polls\<close>

datatype 'a poll = Pending | Ready 'a

fun bind_result :: "'e + 'a \<Rightarrow> ('a \<Rightarrow> 'e + 'b) \<Rightarrow> 'e + 'b" where
  "bind_result (Inl e) f = Inl e"
| "bind_result (Inr a) f = f a"

lemma bind_result_Inr: "bind_result r f = Inr b \<longleftrightarrow> (\<exists>a. r = Inr a \<and> f a = Inr b)"
  by (cases r) auto

section \<open>The hash map of the standard library\<close>

text \<open>
  A \<open>HashMap\<close> is a list of entries with distinct keys; the list order stands for the iteration
  order, which the standard library leaves open, so what is proved for every list holds for
  every iteration order.
\<close>

type_synonym ('k, 'v) hmap = "('k \<times> 'v) list"

definition hm_wf :: "('k, 'v) hmap \<Rightarrow> bool" where
  "hm_wf m \<longleftrightarrow> distinct (map fst m)"

definition hm_get :: "('k, 'v) hmap \<Rightarrow> 'k \<Rightarrow> 'v option" where
  "hm_get m k = map_of m k"

definition hm_contains :: "('k, 'v) hmap \<Rightarrow> 'k \<Rightarrow> bool" where
  "hm_contains m k \<longleftrightarrow> map_of m k \<noteq> None"

definition hm_insert :: "'k \<Rightarrow> 'v \<Rightarrow> ('k, 'v) hmap \<Rightarrow> ('k, 'v) hmap" where
  "hm_insert k v m = AList.update k v m"

definition hm_remove :: "'k \<Rightarrow> ('k, 'v) hmap \<Rightarrow> ('k, 'v) hmap" where
  "hm_remove k m = filter (\<lambda>e. fst e \<noteq> k) m"

definition hm_retain :: "('k \<Rightarrow> 'v \<Rightarrow> bool) \<Rightarrow> ('k, 'v) hmap \<Rightarrow> ('k, 'v) hmap" where
  "hm_retain P m = filter (\<lambda>e. P (fst e) (snd e)) m"

lemma hm_wf_Nil [simp]: "hm_wf []"
  by (simp add: hm_wf_def)

lemma hm_wf_insert [simp]: "hm_wf m \<Longrightarrow> hm_wf (hm_insert k v m)"
  by (simp add: hm_wf_def hm_insert_def distinct_update)

lemma distinct_map_filter: "distinct (map f xs) \<Longrightarrow> distinct (map f (filter P xs))"
  by (induction xs) auto

lemma hm_wf_remove [simp]: "hm_wf m \<Longrightarrow> hm_wf (hm_remove k m)"
  by (simp add: hm_wf_def hm_remove_def distinct_map_filter)

lemma hm_wf_retain [simp]: "hm_wf m \<Longrightarrow> hm_wf (hm_retain P m)"
  by (simp add: hm_wf_def hm_retain_def distinct_map_filter)

lemma hm_get_Nil [simp]: "hm_get [] k = None"
  by (simp add: hm_get_def)

lemma hm_get_insert [simp]: "hm_get (hm_insert k v m) k' = (if k' = k then Some v else hm_get m k')"
  by (simp add: hm_get_def hm_insert_def update_conv')

lemma hm_get_remove [simp]: "hm_get (hm_remove k m) k' = (if k' = k then None else hm_get m k')"
  by (induction m) (auto simp: hm_get_def hm_remove_def)

lemma hm_contains_get: "hm_contains m k \<longleftrightarrow> hm_get m k \<noteq> None"
  by (simp add: hm_contains_def hm_get_def)

lemma hm_get_mem: "hm_get m k = Some v \<Longrightarrow> (k, v) \<in> set m"
  by (simp add: hm_get_def map_of_SomeD)

lemma hm_get_wf: "hm_wf m \<Longrightarrow> hm_get m k = Some v \<longleftrightarrow> (k, v) \<in> set m"
  by (auto simp: hm_wf_def hm_get_def intro: map_of_SomeD)

lemma hm_get_None: "hm_get m k = None \<longleftrightarrow> k \<notin> fst ` set m"
  by (simp add: hm_get_def map_of_eq_None_iff)

lemma hm_get_retain:
  "hm_wf m \<Longrightarrow> hm_get (hm_retain P m) k =
     (case hm_get m k of None \<Rightarrow> None | Some v \<Rightarrow> if P k v then Some v else None)"
  by (induction m) (auto simp: hm_wf_def hm_get_def hm_retain_def map_of_eq_None_iff
      split: option.splits)

lemma hm_remove_id: "hm_get m k = None \<Longrightarrow> hm_remove k m = m"
  by (auto simp: hm_get_None hm_remove_def image_iff intro!: filter_True)

lemma length_hm_retain: "length (hm_retain P m) \<le> length m"
  by (simp add: hm_retain_def)

lemma length_hm_remove: "length (hm_remove k m) \<le> length m"
  by (simp add: hm_remove_def)

lemma length_hm_insert:
  "length (hm_insert k v m) = (if hm_get m k = None then Suc (length m) else length m)"
  by (induction m) (auto simp: hm_insert_def hm_get_def)

lemma hm_insert_new: "k \<notin> fst ` set m \<Longrightarrow> hm_insert k v m = m @ [(k, v)]"
  by (induction m) (auto simp: hm_insert_def)

lemma length_hm_remove_mem:
  "hm_wf m \<Longrightarrow> length (hm_remove k m) = (if hm_get m k = None then length m else length m - 1)"
proof (induction m)
  case Nil
  then show ?case by (simp add: hm_remove_def)
next
  case (Cons e m)
  have wf: "hm_wf m" and notin: "hm_get m (fst e) = None"
    using Cons.prems by (auto simp: hm_wf_def hm_get_None)
  show ?case
  proof (cases "fst e = k")
    case True
    then show ?thesis
      using hm_remove_id [OF notin] by (cases e) (simp add: hm_remove_def hm_get_def)
  next
    case False
    then show ?thesis
      using Cons.IH [OF wf] by (cases e; cases m) (auto simp: hm_remove_def hm_get_def)
  qed
qed

text \<open>What the components rely on, as a contract: the interface of a finite keyed store.\<close>

locale keyed_store =
  fixes wf :: "'m \<Rightarrow> bool"
    and get :: "'m \<Rightarrow> 'k \<Rightarrow> 'v option"
    and insert :: "'k \<Rightarrow> 'v \<Rightarrow> 'm \<Rightarrow> 'm"
    and remove :: "'k \<Rightarrow> 'm \<Rightarrow> 'm"
    and size :: "'m \<Rightarrow> nat"
  assumes wf_insert: "wf m \<Longrightarrow> wf (insert k v m)"
    and wf_remove: "wf m \<Longrightarrow> wf (remove k m)"
    and get_insert: "wf m \<Longrightarrow> get (insert k v m) k' = (if k' = k then Some v else get m k')"
    and get_remove: "wf m \<Longrightarrow> get (remove k m) k' = (if k' = k then None else get m k')"
    and size_insert: "wf m \<Longrightarrow> size (insert k v m) = (if get m k = None then Suc (size m) else size m)"
begin

lemma remove_once: "wf m \<Longrightarrow> get (remove k (insert k v m)) k = None"
  by (simp add: get_remove wf_insert)

lemma insert_bounded:
  "wf m \<Longrightarrow> size m < n \<Longrightarrow> size (insert k v m) \<le> n"
  by (simp add: size_insert)

lemma other_untouched:
  "wf m \<Longrightarrow> k' \<noteq> k \<Longrightarrow> get (insert k v m) k' = get m k' \<and> get (remove k m) k' = get m k'"
  by (simp add: get_insert get_remove)

end

interpretation hm: keyed_store hm_wf hm_get hm_insert hm_remove length
  by unfold_locales (simp_all add: length_hm_insert)

section \<open>Machines run over a list of operations\<close>

text \<open>
  A component with state is a step function that takes the state and one operation and gives
  the next state and what the operation put out. \<open>run_machine\<close> runs it over a list.
\<close>

fun run_machine :: "('s \<Rightarrow> 'e \<Rightarrow> 's \<times> 'o) \<Rightarrow> 's \<Rightarrow> 'e list \<Rightarrow> 's \<times> 'o list" where
  "run_machine step s [] = (s, [])"
| "run_machine step s (e # es) =
     (let (s1, o1) = step s e; (s2, os) = run_machine step s1 es in (s2, o1 # os))"

lemma run_machine_Cons [simp]:
  "fst (run_machine step s (e # es)) = fst (run_machine step (fst (step s e)) es)"
  "snd (run_machine step s (e # es)) =
     snd (step s e) # snd (run_machine step (fst (step s e)) es)"
  by (simp_all add: split_def Let_def)

lemma run_machine_append:
  "run_machine step s (xs @ ys) =
     (let (s1, o1) = run_machine step s xs; (s2, o2) = run_machine step s1 ys in (s2, o1 @ o2))"
  by (induction xs arbitrary: s) (simp_all add: split_def Let_def)

lemma length_run_machine: "length (snd (run_machine step s es)) = length es"
  by (induction es arbitrary: s) (simp_all del: run_machine.simps(2))

declare run_machine.simps(2) [simp del]

text \<open>Every operation keeps the invariant, so every run does.\<close>

locale machine =
  fixes step :: "'s \<Rightarrow> 'e \<Rightarrow> 's \<times> 'o"
    and inv :: "'s \<Rightarrow> bool"
  assumes step_inv: "inv s \<Longrightarrow> inv (fst (step s e))"
begin

lemma run_inv: "inv s \<Longrightarrow> inv (fst (run_machine step s es))"
  by (induction es arbitrary: s) (simp_all add: step_inv)

end

text \<open>A budget: what the outputs spend is covered by the state's potential and the gains.\<close>

locale budget_machine = machine +
  fixes spend :: "'c \<Rightarrow> nat"
    and potential :: "'a \<Rightarrow> nat"
    and gain :: "'b \<Rightarrow> nat"
  assumes step_budget:
    "inv s \<Longrightarrow> spend (snd (step s e)) + potential (fst (step s e)) \<le> potential s + gain e"
begin

lemma run_budget:
  "inv s \<Longrightarrow> sum_list (map spend (snd (run_machine step s es)))
      + potential (fst (run_machine step s es)) \<le> potential s + sum_list (map gain es)"
proof (induction es arbitrary: s)
  case Nil
  then show ?case by simp
next
  case (Cons e es)
  show ?case
    using step_budget [OF Cons.prems, of e] Cons.IH [OF step_inv [OF Cons.prems, of e]]
    by simp
qed

end

text \<open>
  A pipe: what comes out is what went in, in order; once the machine is dead nothing moves, and
  dying may lose what was still inside.
\<close>

locale pipe_machine = machine +
  fixes content :: "'a \<Rightarrow> 'd list"
    and taken :: "'c \<Rightarrow> 'd list"
    and given :: "'c \<Rightarrow> 'd list"
    and dead :: "'a \<Rightarrow> bool"
  assumes alive: "inv s \<Longrightarrow> \<not> dead (fst (step s e)) \<Longrightarrow>
      given (snd (step s e)) @ content (fst (step s e)) = content s @ taken (snd (step s e))"
    and dying: "inv s \<Longrightarrow> dead (fst (step s e)) \<Longrightarrow>
      given (snd (step s e)) = [] \<and> taken (snd (step s e)) = []"
    and stays_dead: "inv s \<Longrightarrow> dead s \<Longrightarrow> dead (fst (step s e))"
begin

lemma run_dead:
  "inv s \<Longrightarrow> dead s \<Longrightarrow> concat (map given (snd (run_machine step s es))) = [] \<and>
     concat (map taken (snd (run_machine step s es))) = [] \<and> dead (fst (run_machine step s es))"
proof (induction es arbitrary: s)
  case Nil
  then show ?case by simp
next
  case (Cons e es)
  have "dead (fst (step s e))" using Cons.prems by (rule stays_dead)
  with Cons.IH [OF step_inv [OF Cons.prems(1), of e]] dying [OF Cons.prems(1), of e]
  show ?case by simp
qed

lemma run_pipe:
  "inv s \<Longrightarrow>
     (\<not> dead (fst (run_machine step s es)) \<longrightarrow>
        concat (map given (snd (run_machine step s es))) @ content (fst (run_machine step s es))
          = content s @ concat (map taken (snd (run_machine step s es)))) \<and>
     prefix (concat (map given (snd (run_machine step s es))))
       (content s @ concat (map taken (snd (run_machine step s es))))"
proof (induction es arbitrary: s)
  case Nil
  then show ?case by simp
next
  case (Cons e es)
  let ?s1 = "fst (step s e)" and ?o1 = "snd (step s e)"
  let ?gs = "concat (map given (snd (run_machine step ?s1 es)))"
    and ?ts = "concat (map taken (snd (run_machine step ?s1 es)))"
  have i: "inv ?s1" using Cons.prems by (rule step_inv)
  show ?case
  proof (cases "dead ?s1")
    case True
    then show ?thesis
      using run_dead [OF i True, of es] dying [OF Cons.prems True]
      by (simp del: concat_eq_Nil_conv)
  next
    case False
    have one: "given ?o1 @ content ?s1 @ ys = content s @ taken ?o1 @ ys" for ys
      using alive [OF Cons.prems False] by (metis append.assoc)
    have "prefix (given ?o1 @ ?gs) (given ?o1 @ content ?s1 @ ?ts)"
      using Cons.IH [OF i] by simp
    then show ?thesis
      using Cons.IH [OF i] one by simp
  qed
qed

end

section \<open>Lists\<close>

lemma sum_list_filter_le: "sum_list (map f (filter P xs)) \<le> sum_list (map f (xs :: 'a list) :: nat list)"
  by (induction xs) auto

lemma length_filter_mono:
  "(\<And>x. x \<in> set xs \<Longrightarrow> P x \<Longrightarrow> Q x) \<Longrightarrow> length (filter P xs) \<le> length (filter Q xs)"
  by (induction xs) auto

lemma dropWhile_filter_sorted:
  "sorted xs \<Longrightarrow> dropWhile (\<lambda>x. x \<le> (c::'a::linorder)) xs = filter (\<lambda>x. c < x) xs"
proof (induction xs)
  case Nil
  then show ?case by simp
next
  case (Cons x xs)
  show ?case
  proof (cases "x \<le> c")
    case True
    with Cons show ?thesis by simp
  next
    case False
    with Cons.prems have "\<forall>y\<in>set (x # xs). c < y" by auto
    then have "filter (\<lambda>x. c < x) (x # xs) = x # xs" by (intro filter_True) auto
    with False show ?thesis by simp
  qed
qed

lemma find_Some_iff2: "find P xs = Some x \<Longrightarrow> x \<in> set xs \<and> P x"
  by (induction xs) (auto split: if_splits)

text \<open>The index of the first element that satisfies a predicate (\<open>Iterator::position\<close>).\<close>

fun position :: "('a \<Rightarrow> bool) \<Rightarrow> 'a list \<Rightarrow> nat option" where
  "position P [] = None"
| "position P (x # xs) = (if P x then Some 0 else map_option Suc (position P xs))"

lemma position_Some: "position P xs = Some i \<Longrightarrow> i < length xs \<and> P (xs ! i)"
  by (induction xs arbitrary: i) (auto split: if_splits)

lemma position_first: "position P xs = Some i \<Longrightarrow> j < i \<Longrightarrow> \<not> P (xs ! j)"
proof (induction xs arbitrary: i j)
  case Nil
  then show ?case by simp
next
  case (Cons x xs)
  then show ?case by (cases j) (auto split: if_splits)
qed

lemma position_None: "position P xs = None \<longleftrightarrow> (\<forall>x\<in>set xs. \<not> P x)"
  by (induction xs) auto

text \<open>\<open>Vec::remove\<close> at an index in range.\<close>

definition remove_at :: "nat \<Rightarrow> 'a list \<Rightarrow> 'a list" where
  "remove_at i xs = take i xs @ drop (Suc i) xs"

lemma length_remove_at: "i < length xs \<Longrightarrow> length (remove_at i xs) = length xs - 1"
  by (simp add: remove_at_def)

lemma set_remove_at: "set (remove_at i xs) \<subseteq> set xs"
  by (auto simp: remove_at_def dest: in_set_takeD in_set_dropD)

lemma mset_remove_at_filter:
  "i < length xs \<Longrightarrow>
     length (filter P xs) = length (filter P (remove_at i xs)) + (if P (xs ! i) then 1 else 0)"
  by (subst (1) id_take_nth_drop [of i xs]) (auto simp: remove_at_def)

lemma distinct_remove_at: "distinct (map f xs) \<Longrightarrow> distinct (map f (remove_at i xs))"
proof -
  assume d: "distinct (map f xs)"
  have "distinct (take i (map f xs) @ drop i (map f xs))" using d by simp
  moreover have "set (drop (Suc i) (map f xs)) \<subseteq> set (drop i (map f xs))"
    by (rule set_drop_subset_set_drop) simp
  ultimately have "distinct (take i (map f xs) @ drop (Suc i) (map f xs))"
    using d by (auto simp del: append_take_drop_id)
  then show ?thesis by (simp add: remove_at_def take_map drop_map)
qed

end
