(* ===== verification/Tunnel_Frames.thy ===== *)
theory Tunnel_Frames
  imports Prelude
begin

text \<open>
  The control frames of the v2 tunnel (\<open>crates/net/src/tunnel/v2/frames.rs\<close>) and their debug
  rendering, which must not print the relay's directory token or a pin grant. The JSON form is
  serde's; a text message on the wire is carried here as the frame it encodes.
\<close>

type_synonym uuid = "byte list"

record wire_hosts =
  wh_ui :: ustring
  wh_workbench :: ustring
  wh_instance :: ustring

record agent_info =
  ai_name :: ustring
  ai_display_name :: ustring
  a2a_enabled :: bool
  a2a_private :: bool

record instance_summary =
  is_slug :: ustring
  is_display_name :: ustring
  is_active :: bool
  is_connected :: bool

datatype v2frame =
    Connected ustring ustring u64 wire_hosts ustring ustring
      \<comment> \<open>user, instance, keepalive_interval_secs, hosts, directory_url, a2a_token\<close>
  | Ping
  | Pong
  | AgentsUpdate "agent_info list"
  | StreamOpen uuid ustring ustring \<comment> \<open>stream_id, host, peer_ip\<close>
  | StreamClose uuid "ustring option"
  | StreamCredit uuid u64
  | ChallengeClaim "ustring list"
  | ChallengeRelease "ustring list"
  | ChallengeGranted "ustring list"
  | ChallengeBusy "ustring list"
  | InstancesUpdate "instance_summary list"
  | ActivateInstance ustring
  | PinGrantRequest ustring
  | PinGrant ustring ustring \<comment> \<open>purpose, grant\<close>
  | PinGrantError ustring ustring \<comment> \<open>purpose, reason\<close>

section \<open>The debug rendering\<close>

text \<open>
  What \<open>Debug\<close> writes: a name, and for a struct its fields, each a label and the value handed
  to the formatter.
\<close>

datatype debug_value =
    DStr ustring
  | DNum nat
  | DUuid uuid
  | DOptStr "ustring option"
  | DStrs "ustring list"
  | DHosts wire_hosts
  | DInstances "instance_summary list"

datatype debug_tree = DebugStruct string "(string \<times> debug_value) list" | DebugName string

definition redacted :: debug_value where
  "redacted = DStr (lit ''<redacted>'')"

fun debug_frame :: "v2frame \<Rightarrow> debug_tree" where
  "debug_frame (Connected user inst ka hosts url tok) =
     DebugStruct ''Connected''
       [(''user'', DStr user), (''instance'', DStr inst),
        (''keepalive_interval_secs'', DNum (unat ka)), (''hosts'', DHosts hosts),
        (''directory_url'', DStr url), (''a2a_token'', redacted)]"
| "debug_frame (PinGrant purpose grant) =
     DebugStruct ''PinGrant'' [(''purpose'', DStr purpose), (''grant'', redacted)]"
| "debug_frame Ping = DebugName ''Ping''"
| "debug_frame Pong = DebugName ''Pong''"
| "debug_frame (AgentsUpdate agents) =
     DebugStruct ''AgentsUpdate'' [(''agents'', DNum (length agents))]"
| "debug_frame (StreamOpen sid host peer) =
     DebugStruct ''StreamOpen''
       [(''stream_id'', DUuid sid), (''host'', DStr host), (''peer_ip'', DStr peer)]"
| "debug_frame (StreamClose sid reason) =
     DebugStruct ''StreamClose'' [(''stream_id'', DUuid sid), (''reason'', DOptStr reason)]"
| "debug_frame (StreamCredit sid bytes) =
     DebugStruct ''StreamCredit'' [(''stream_id'', DUuid sid), (''bytes'', DNum (unat bytes))]"
| "debug_frame (ChallengeClaim names) =
     DebugStruct ''ChallengeClaim'' [(''names'', DStrs names)]"
| "debug_frame (ChallengeRelease names) =
     DebugStruct ''ChallengeRelease'' [(''names'', DStrs names)]"
| "debug_frame (ChallengeGranted names) =
     DebugStruct ''ChallengeGranted'' [(''names'', DStrs names)]"
| "debug_frame (ChallengeBusy names) =
     DebugStruct ''ChallengeBusy'' [(''names'', DStrs names)]"
| "debug_frame (InstancesUpdate instances) =
     DebugStruct ''InstancesUpdate'' [(''instances'', DInstances instances)]"
| "debug_frame (ActivateInstance slug) =
     DebugStruct ''ActivateInstance'' [(''slug'', DStr slug)]"
| "debug_frame (PinGrantRequest purpose) =
     DebugStruct ''PinGrantRequest'' [(''purpose'', DStr purpose)]"
| "debug_frame (PinGrantError purpose reason) =
     DebugStruct ''PinGrantError'' [(''purpose'', DStr purpose), (''reason'', DStr reason)]"

text \<open>The same frame with other secrets in it.\<close>

fun with_secrets :: "ustring \<Rightarrow> ustring \<Rightarrow> v2frame \<Rightarrow> v2frame" where
  "with_secrets tok grant (Connected user inst ka hosts url _) =
     Connected user inst ka hosts url tok"
| "with_secrets tok grant (PinGrant purpose _) = PinGrant purpose grant"
| "with_secrets tok grant frame = frame"

lemma debug_frame_with_secrets: "debug_frame (with_secrets t g f) = debug_frame f"
  by (cases f) simp_all

text \<open>
  The rendering loses the secrets and the agent list, and nothing else of a control frame: two
  frames that print the same differ at most there.
\<close>

lemma debug_frame_inj:
  "debug_frame f = debug_frame g \<Longrightarrow> \<forall>as. f \<noteq> AgentsUpdate as \<Longrightarrow>
     with_secrets [] [] f = with_secrets [] [] g"
  by (cases f; cases g) (auto simp: word_unat_eq_iff [symmetric])

text \<open>The debug rendering of a frame does not depend on the relay's A2A token or on a pin
  grant, so neither can reach a log through it; and it hides nothing else of a frame: two frames
  that print alike differ at most in those secrets, agent lists apart (only their length is
  printed).\<close>

theorem frame_debug_hides_only_secrets:
  "debug_frame (with_secrets tok grant f) = debug_frame f \<and>
   (debug_frame f = debug_frame g \<longrightarrow> (\<nexists>as. f = AgentsUpdate as) \<longrightarrow>
      with_secrets [] [] f = with_secrets [] [] g)"
  using debug_frame_with_secrets debug_frame_inj by blast

lemma frame_debug_hides_only_secrets_witness:
  "with_secrets [] [] (PinGrant [1] [2]) = with_secrets [] [] (PinGrant [1] [3])"
  using frame_debug_hides_only_secrets [of "[]" "[]" "PinGrant [1] [2]" "PinGrant [1] [3]"] by simp

end
