(* ===== verification/Tunnel_Stream.thy ===== *)
theory Tunnel_Stream
  imports Tunnel_Frames
begin

text \<open>
  One proxied connection of the v2 tunnel (\<open>crates/net/src/tunnel/v2/stream.rs\<close>): the state
  behind \<open>StreamShared\<close>'s lock, the operations of the websocket reader on it, and the polls of
  its \<open>TunnelIo\<close> handle. A waker is kept as the fact that one is registered; a poll that returns
  \<open>Pending\<close> registers it. What an operation does to the outside world is put out as a list of
  \<open>stream_out\<close>. What tokio decides (whether the ordered queue has room, is closed, or takes an
  item) is an argument of the polls.
\<close>

definition WINDOW :: nat where "WINDOW = 256 * 1024"
definition MAX_CHUNK :: nat where "MAX_CHUNK = 64 * 1024"
definition MAX_STREAMS :: nat where "MAX_STREAMS = 256"
definition IDLE_LIMIT :: nat where "IDLE_LIMIT = 10 * 60 * nanos_per_sec"
definition CREDIT_BATCH :: nat where "CREDIT_BATCH = 32 * 1024"
definition ORDERED_QUEUE :: nat where "ORDERED_QUEUE = 64"

datatype push_error = WindowExceeded | TooLarge

record inner =
  queue :: "byte list list"
  front_offset :: nat
  unacked_in :: nat
  read_uncredited :: nat
  relay_closed :: bool
  reset_reason :: "ustring option"
  close_settled :: bool
  send_credit :: nat
  read_waker :: bool
  write_waker :: bool
  last_activity :: instant

definition new_inner :: "instant \<Rightarrow> inner" where
  "new_inner now = \<lparr>queue = [], front_offset = 0, unacked_in = 0, read_uncredited = 0,
     relay_closed = False, reset_reason = None, close_settled = False, send_credit = WINDOW,
     read_waker = False, write_waker = False, last_activity = now\<rparr>"

text \<open>What an operation puts out besides its result.\<close>

datatype stream_out =
    Queued "byte list" \<comment> \<open>inbound data was accepted\<close>
  | Refused push_error
  | Read "byte list" \<comment> \<open>bytes handed to the consumer\<close>
  | Control v2frame \<comment> \<open>a frame on the control queue\<close>
  | Data "byte list" \<comment> \<open>a binary message on the ordered queue\<close>
  | OrderedFrame v2frame \<comment> \<open>a frame on the ordered queue\<close>
  | LostFrame v2frame \<comment> \<open>a frame whose queue was gone\<close>
  | WakeReader
  | WakeWriter

datatype io_error = ConnectionReset ustring | BrokenPipe | InvalidData

section \<open>The websocket reader's side\<close>

definition wake_reader :: "inner \<Rightarrow> stream_out list" where
  "wake_reader s = (if read_waker s then [WakeReader] else [])"

definition wake_writer :: "inner \<Rightarrow> stream_out list" where
  "wake_writer s = (if write_waker s then [WakeWriter] else [])"

definition push_data ::
    "instant \<Rightarrow> byte list \<Rightarrow> inner \<Rightarrow> (push_error + unit) \<times> inner \<times> stream_out list" where
  "push_data now payload s =
     (if length payload > MAX_CHUNK then (Inl TooLarge, s, [Refused TooLarge])
      else if relay_closed s \<or> reset_reason s \<noteq> None then (Inr (), s, [])
      else if payload = [] then (Inr (), s, [])
      else if unacked_in s + length payload > WINDOW
        then (Inl WindowExceeded, s, [Refused WindowExceeded])
      else (Inr (), s\<lparr>unacked_in := unacked_in s + length payload,
                      queue := queue s @ [payload],
                      last_activity := now, read_waker := False\<rparr>,
            Queued payload # wake_reader s))"

definition add_credit :: "u64 \<Rightarrow> inner \<Rightarrow> inner \<times> stream_out list" where
  "add_credit bytes s =
     (s\<lparr>send_credit := min (saturating_add_usize (send_credit s) (unat bytes)) WINDOW,
        write_waker := False\<rparr>,
      wake_writer s)"

definition relay_closes :: "inner \<Rightarrow> inner \<times> stream_out list" where
  "relay_closes s =
     (s\<lparr>relay_closed := True, close_settled := True, read_waker := False, write_waker := False\<rparr>,
      wake_reader s @ wake_writer s)"

definition reset :: "uuid \<Rightarrow> ustring \<Rightarrow> bool \<Rightarrow> inner \<Rightarrow> inner \<times> stream_out list" where
  "reset sid reason tell_relay s =
     (s\<lparr>reset_reason := (case reset_reason s of None \<Rightarrow> Some reason | Some r \<Rightarrow> Some r),
        close_settled := True, queue := [], read_waker := False, write_waker := False\<rparr>,
      (if tell_relay \<and> \<not> close_settled s then [Control (StreamClose sid (Some reason))] else [])
        @ wake_reader s @ wake_writer s)"

definition idle_for :: "instant \<Rightarrow> inner \<Rightarrow> nat" where
  "idle_for now s = now - last_activity s"

section \<open>The consumer's side\<close>

text \<open>\<open>poll_read\<close> into a buffer with room for \<open>n\<close> bytes; EOF is an empty read.\<close>

definition return_credit :: "uuid \<Rightarrow> inner \<Rightarrow> inner \<times> stream_out list" where
  "return_credit sid s =
     (if read_uncredited s \<ge> CREDIT_BATCH \<or> queue s = []
      then (s\<lparr>read_uncredited := 0, unacked_in := unacked_in s - read_uncredited s\<rparr>,
            if relay_closed s then []
            else [Control (StreamCredit sid (of_nat (read_uncredited s)))])
      else (s, []))"

definition poll_read ::
    "uuid \<Rightarrow> instant \<Rightarrow> nat \<Rightarrow> inner \<Rightarrow>
       (io_error + byte list) poll \<times> inner \<times> stream_out list" where
  "poll_read sid now n s =
     (case reset_reason s of
        Some reason \<Rightarrow> (Ready (Inl (ConnectionReset reason)), s, [])
      | None \<Rightarrow>
         if n = 0 then (Ready (Inr []), s, [])
         else (case queue s of
            front # rest \<Rightarrow>
              let offset = front_offset s;
                  available = drop offset front;
                  tk = min (length available) n;
                  s1 = (if offset + tk \<ge> length front then s\<lparr>queue := rest, front_offset := 0\<rparr>
                        else s\<lparr>front_offset := offset + tk\<rparr>);
                  s2 = s1\<lparr>read_uncredited := read_uncredited s1 + tk, last_activity := now\<rparr>;
                  (s3, outs) = return_credit sid s2
              in (Ready (Inr (take tk available)), s3, Read (take tk available) # outs)
          | [] \<Rightarrow>
              if relay_closed s \<or> close_settled s then (Ready (Inr []), s, [])
              else (Pending, s\<lparr>read_waker := True\<rparr>, [])))"

text \<open>What \<open>PollSender::poll_reserve\<close> on the ordered queue answers.\<close>

datatype reserve = Reserve_Pending | Reserve_Closed | Reserve_Ready

definition poll_write ::
    "uuid \<Rightarrow> instant \<Rightarrow> byte list \<Rightarrow> reserve \<Rightarrow> bool \<Rightarrow> inner \<Rightarrow>
       (io_error + nat) poll \<times> inner \<times> stream_out list" where
  "poll_write sid now data rsv send_ok s =
     (case reset_reason s of
        Some reason \<Rightarrow> (Ready (Inl (ConnectionReset reason)), s, [])
      | None \<Rightarrow>
         if close_settled s then (Ready (Inl BrokenPipe), s, [])
         else if data = [] then (Ready (Inr 0), s, [])
         else if send_credit s = 0 then (Pending, s\<lparr>write_waker := True\<rparr>, [])
         else (case rsv of
            Reserve_Pending \<Rightarrow> (Pending, s, [])
          | Reserve_Closed \<Rightarrow> (Ready (Inl BrokenPipe), s, [])
          | Reserve_Ready \<Rightarrow>
              let tk = min (min (length data) (send_credit s)) MAX_CHUNK
              in if \<not> send_ok then (Ready (Inl BrokenPipe), s, [])
                 else (Ready (Inr tk),
                       s\<lparr>send_credit := send_credit s - tk, last_activity := now\<rparr>,
                       [Data (sid @ take tk data)])))"

definition poll_shutdown ::
    "uuid \<Rightarrow> reserve \<Rightarrow> bool \<Rightarrow> inner \<Rightarrow> (io_error + unit) poll \<times> inner \<times> stream_out list" where
  "poll_shutdown sid rsv send_ok s =
     (if close_settled s then (Ready (Inr ()), s, [])
      else (case rsv of
         Reserve_Pending \<Rightarrow> (Pending, s, [])
       | Reserve_Closed \<Rightarrow> (Ready (Inl BrokenPipe), s\<lparr>close_settled := True\<rparr>, [])
       | Reserve_Ready \<Rightarrow>
           (Ready (if send_ok then Inr () else Inl BrokenPipe),
            s\<lparr>close_settled := True, read_waker := False\<rparr>,
            (if send_ok then OrderedFrame (StreamClose sid None)
             else LostFrame (StreamClose sid None)) # wake_reader s)))"

text \<open>
  Dropping the handle. \<open>Try_Full\<close> with a runtime waits for room in a task of its own; without one
  the close is lost.
\<close>

datatype try_send = Try_Ok | Try_Full bool | Try_Closed

definition drop_io :: "uuid \<Rightarrow> try_send \<Rightarrow> inner \<Rightarrow> inner \<times> stream_out list" where
  "drop_io sid ts s =
     (s\<lparr>close_settled := True\<rparr>,
      if close_settled s then []
      else [if ts = Try_Ok \<or> ts = Try_Full True then OrderedFrame (StreamClose sid None)
            else LostFrame (StreamClose sid None)])"

section \<open>One stream as a machine\<close>

datatype stream_op =
    PushData instant "byte list"
  | AddCredit u64
  | RelayCloses
  | Reset ustring bool
  | PollRead instant nat
  | PollWrite instant "byte list" reserve bool
  | PollShutdown reserve bool
  | DropIo try_send

fun stream_step :: "uuid \<Rightarrow> inner \<Rightarrow> stream_op \<Rightarrow> inner \<times> stream_out list" where
  "stream_step sid s (PushData now payload) = snd (push_data now payload s)"
| "stream_step sid s (AddCredit bytes) = add_credit bytes s"
| "stream_step sid s RelayCloses = relay_closes s"
| "stream_step sid s (Reset reason tell) = reset sid reason tell s"
| "stream_step sid s (PollRead now n) = snd (poll_read sid now n s)"
| "stream_step sid s (PollWrite now data rsv ok) = snd (poll_write sid now data rsv ok s)"
| "stream_step sid s (PollShutdown rsv ok) = snd (poll_shutdown sid rsv ok s)"
| "stream_step sid s (DropIo ts) = drop_io sid ts s"

abbreviation stream_run :: "uuid \<Rightarrow> inner \<Rightarrow> stream_op list \<Rightarrow> inner \<times> stream_out list list" where
  "stream_run sid \<equiv> run_machine (stream_step sid)"

lemmas [component_simps] = push_data_def add_credit_def relay_closes_def reset_def
  return_credit_def poll_read_def poll_write_def poll_shutdown_def drop_io_def
  wake_reader_def wake_writer_def

section \<open>The flow-control invariant\<close>

text \<open>
  \<open>unread\<close> is what the consumer has still to read. While the stream is not reset, the bytes the
  relay may not send again yet are the unread ones and the ones read but not yet credited.
\<close>

definition unread :: "inner \<Rightarrow> byte list" where
  "unread s = (if reset_reason s = None then drop (front_offset s) (concat (queue s)) else [])"

definition front_ok :: "inner \<Rightarrow> bool" where
  "front_ok s \<longleftrightarrow> (case queue s of [] \<Rightarrow> front_offset s = 0 | f # _ \<Rightarrow> front_offset s < length f)"

definition stream_inv :: "inner \<Rightarrow> bool" where
  "stream_inv s \<longleftrightarrow>
     send_credit s \<le> WINDOW \<and> unacked_in s \<le> WINDOW \<and>
     (\<forall>c\<in>set (queue s). c \<noteq> [] \<and> length c \<le> MAX_CHUNK) \<and>
     (reset_reason s \<noteq> None \<longrightarrow> queue s = [] \<and> close_settled s) \<and>
     (relay_closed s \<longrightarrow> close_settled s) \<and>
     (reset_reason s = None \<longrightarrow>
        front_ok s \<and> unacked_in s = length (unread s) + read_uncredited s \<and>
        read_uncredited s < CREDIT_BATCH \<and> (queue s = [] \<longrightarrow> read_uncredited s = 0))"

lemma length_unread:
  "reset_reason s = None \<Longrightarrow> length (unread s) = length (concat (queue s)) - front_offset s"
  by (simp add: unread_def)

text \<open>The fields neither \<open>unread\<close> nor \<open>front_ok\<close> looks at.\<close>

lemma unread_frame [simp]:
  "unread (s\<lparr>unacked_in := x0\<rparr>) = unread s"
  "unread (s\<lparr>read_uncredited := x1\<rparr>) = unread s"
  "unread (s\<lparr>relay_closed := x2\<rparr>) = unread s"
  "unread (s\<lparr>close_settled := x3\<rparr>) = unread s"
  "unread (s\<lparr>send_credit := x4\<rparr>) = unread s"
  "unread (s\<lparr>read_waker := x5\<rparr>) = unread s"
  "unread (s\<lparr>write_waker := x6\<rparr>) = unread s"
  "unread (s\<lparr>last_activity := x7\<rparr>) = unread s"
  by (simp_all add: unread_def)

lemma front_ok_frame [simp]:
  "front_ok (s\<lparr>unacked_in := x0\<rparr>) = front_ok s"
  "front_ok (s\<lparr>read_uncredited := x1\<rparr>) = front_ok s"
  "front_ok (s\<lparr>relay_closed := x2\<rparr>) = front_ok s"
  "front_ok (s\<lparr>close_settled := x3\<rparr>) = front_ok s"
  "front_ok (s\<lparr>send_credit := x4\<rparr>) = front_ok s"
  "front_ok (s\<lparr>read_waker := x5\<rparr>) = front_ok s"
  "front_ok (s\<lparr>write_waker := x6\<rparr>) = front_ok s"
  "front_ok (s\<lparr>last_activity := x7\<rparr>) = front_ok s"
  "front_ok (s\<lparr>reset_reason := x8\<rparr>) = front_ok s"
  by (simp_all add: front_ok_def split: list.split)

lemma stream_inv_new: "stream_inv (new_inner now)"
  by (simp add: stream_inv_def new_inner_def unread_def front_ok_def CREDIT_BATCH_def)

lemma stream_inv_frame [simp]:
  "stream_inv (s\<lparr>read_waker := x\<rparr>) = stream_inv s"
  "stream_inv (s\<lparr>write_waker := x\<rparr>) = stream_inv s"
  "stream_inv (s\<lparr>last_activity := t\<rparr>) = stream_inv s"
  by (simp_all add: stream_inv_def)

lemma stream_inv_spend: "stream_inv s \<Longrightarrow> stream_inv (s\<lparr>send_credit := send_credit s - n\<rparr>)"
  unfolding stream_inv_def by (elim conjE) (intro conjI; simp)

text \<open>Taking bytes off the front chunk, before any credit is returned.\<close>

definition take_front :: "nat \<Rightarrow> inner \<Rightarrow> inner" where
  "take_front n s =
     (case queue s of [] \<Rightarrow> s
      | front # rest \<Rightarrow>
          let tk = min (length front - front_offset s) n
          in if front_offset s + tk \<ge> length front
             then s\<lparr>queue := rest, front_offset := 0, read_uncredited := read_uncredited s + tk\<rparr>
             else s\<lparr>front_offset := front_offset s + tk, read_uncredited := read_uncredited s + tk\<rparr>)"

lemma poll_read_data:
  assumes "reset_reason s = None" "n > 0" "queue s = front # rest"
  shows "poll_read sid now n s =
    (let bytes = take n (drop (front_offset s) front);
         (s', outs) = return_credit sid (take_front n s\<lparr>last_activity := now\<rparr>)
     in (Ready (Inr bytes), s', Read bytes # outs))"
  using assms by (auto simp: poll_read_def take_front_def Let_def min_def split: prod.splits)


lemma take_front_frame [simp]:
  "reset_reason (take_front n s) = reset_reason s" "relay_closed (take_front n s) = relay_closed s"
  "close_settled (take_front n s) = close_settled s" "send_credit (take_front n s) = send_credit s"
  "unacked_in (take_front n s) = unacked_in s" "read_waker (take_front n s) = read_waker s"
  "write_waker (take_front n s) = write_waker s"
  by (auto simp: take_front_def Let_def split: list.splits)

lemma take_front_unread:
  assumes "reset_reason s = None" "queue s = front # rest" "front_ok s"
  shows "take n (drop (front_offset s) front) @ unread (take_front n s) = unread s"
  using assms
  by (auto simp: unread_def take_front_def front_ok_def Let_def min_def
      append_eq_append_conv_if take_drop add.commute)

lemma take_front_ok:
  assumes "front_ok s" "\<forall>c\<in>set (queue s). c \<noteq> []"
  shows "front_ok (take_front n s)" "set (queue (take_front n s)) \<subseteq> set (queue s)"
  using assms by (auto simp: front_ok_def take_front_def Let_def min_def split: list.splits)

lemma take_front_uncredited:
  assumes "queue s = front # rest"
  shows "read_uncredited (take_front n s) =
     read_uncredited s + length (take n (drop (front_offset s) front))"
  using assms by (auto simp: take_front_def Let_def min_def)

text \<open>Returning credit moves bytes from the uncredited account back into the window.\<close>

lemma return_credit_inv:
  assumes "send_credit s \<le> WINDOW" "unacked_in s \<le> WINDOW"
    "\<forall>c\<in>set (queue s). c \<noteq> [] \<and> length c \<le> MAX_CHUNK" "reset_reason s = None"
    "relay_closed s \<longrightarrow> close_settled s" "front_ok s"
    "unacked_in s = length (unread s) + read_uncredited s"
  shows "stream_inv (fst (return_credit sid s))"
proof (cases "read_uncredited s \<ge> CREDIT_BATCH \<or> queue s = []")
  case True
  then have "fst (return_credit sid s) =
      s\<lparr>read_uncredited := 0, unacked_in := unacked_in s - read_uncredited s\<rparr>"
    by (simp add: return_credit_def)
  with assms show ?thesis by (simp add: stream_inv_def CREDIT_BATCH_def)
next
  case False
  then have "fst (return_credit sid s) = s" by (simp add: return_credit_def)
  with assms False show ?thesis by (simp add: stream_inv_def)
qed

lemma poll_read_idle:
  assumes "reset_reason s \<noteq> None \<or> n = 0 \<or> queue s = []"
  shows "snd (poll_read sid now n s) \<in> {(s, []), (s\<lparr>read_waker := True\<rparr>, [])}"
proof -
  consider r where "reset_reason s = Some r" | "reset_reason s = None" "n = 0"
    | "reset_reason s = None" "n \<noteq> 0" "queue s = []"
    using assms by (cases "reset_reason s") auto
  then show ?thesis by cases (simp_all add: poll_read_def)
qed

lemma poll_read_inv:
  assumes "stream_inv s"
  shows "stream_inv (fst (snd (poll_read sid now n s)))"
proof (cases "reset_reason s = None \<and> n > 0 \<and> queue s \<noteq> []")
  case False
  then have "snd (poll_read sid now n s) \<in> {(s, []), (s\<lparr>read_waker := True\<rparr>, [])}"
    by (intro poll_read_idle) auto
  with assms show ?thesis by auto
next
  case True
  then obtain front rest where q: "queue s = front # rest" by (cases "queue s") auto
  let ?t = "take_front n s\<lparr>last_activity := now\<rparr>"
  have ok: "front_ok s" "\<forall>c\<in>set (queue s). c \<noteq> []"
    using assms True by (auto simp: stream_inv_def)
  have u: "length (unread s) =
      length (take n (drop (front_offset s) front)) + length (unread (take_front n s))"
    using take_front_unread [OF _ q ok(1), of n] True by (metis length_append)
  have "stream_inv (fst (return_credit sid ?t))"
  proof (rule return_credit_inv)
    show "front_ok ?t" using take_front_ok [OF ok, of n] by simp
    show "\<forall>c\<in>set (queue ?t). c \<noteq> [] \<and> length c \<le> MAX_CHUNK"
      using take_front_ok(2) [OF ok, of n] assms by (auto simp: stream_inv_def)
    show "unacked_in ?t = length (unread ?t) + read_uncredited ?t"
      using u assms True by (simp add: stream_inv_def take_front_uncredited [OF q])
  qed (use assms True in \<open>auto simp: stream_inv_def\<close>)
  with True q show ?thesis
    by (auto simp: poll_read_data Let_def split: prod.splits)
qed

lemma enqueue_ok:
  assumes "front_ok s" "payload \<noteq> []"
  shows "front_ok (s\<lparr>queue := queue s @ [payload]\<rparr>)"
    "reset_reason s = None \<Longrightarrow> unread (s\<lparr>queue := queue s @ [payload]\<rparr>) = unread s @ payload"
  using assms by (auto simp: front_ok_def unread_def split: list.splits)

lemma push_data_cases:
  obtains "snd (push_data now payload s) = (s, [])"
  | e where "snd (push_data now payload s) = (s, [Refused e])"
  | "payload \<noteq> []" "length payload \<le> MAX_CHUNK" "reset_reason s = None" "\<not> relay_closed s"
    "unacked_in s + length payload \<le> WINDOW"
    "snd (push_data now payload s) =
       (s\<lparr>queue := queue s @ [payload]\<rparr>\<lparr>unacked_in := unacked_in s + length payload,
          last_activity := now, read_waker := False\<rparr>, Queued payload # wake_reader s)"
proof -
  consider "length payload > MAX_CHUNK"
    | "length payload \<le> MAX_CHUNK" "relay_closed s \<or> reset_reason s \<noteq> None"
    | "length payload \<le> MAX_CHUNK" "\<not> relay_closed s" "reset_reason s = None" "payload = []"
    | "length payload \<le> MAX_CHUNK" "\<not> relay_closed s" "reset_reason s = None" "payload \<noteq> []"
      "unacked_in s + length payload > WINDOW"
    | "length payload \<le> MAX_CHUNK" "\<not> relay_closed s" "reset_reason s = None" "payload \<noteq> []"
      "unacked_in s + length payload \<le> WINDOW"
    by fastforce
  then show ?thesis
    by cases (rule that; simp add: push_data_def; fail)+
qed

lemma push_data_inv:
  assumes "stream_inv s"
  shows "stream_inv (fst (snd (push_data now payload s)))"
proof (cases rule: push_data_cases [of now payload s])
  case 3
  have ok: "front_ok s" using assms 3 by (simp add: stream_inv_def)
  show ?thesis
    using assms 3 enqueue_ok [OF ok 3(1)] by (simp add: stream_inv_def ball_Un)
qed (use assms in simp_all)

lemma poll_write_cases:
  "snd (poll_write sid now data rsv ok s) \<in> {(s, []), (s\<lparr>write_waker := True\<rparr>, [])} \<or>
   (\<exists>tk. tk = min (min (length data) (send_credit s)) MAX_CHUNK \<and> tk > 0 \<and>
      reset_reason s = None \<and> \<not> close_settled s \<and>
      poll_write sid now data rsv ok s =
        (Ready (Inr tk), s\<lparr>send_credit := send_credit s - tk, last_activity := now\<rparr>,
         [Data (sid @ take tk data)]))"
  by (cases "reset_reason s"; cases "close_settled s"; cases "data = []";
      cases "send_credit s = 0"; cases rsv)
    (auto simp: poll_write_def Let_def MAX_CHUNK_def)

lemma poll_write_inv:
  "stream_inv s \<Longrightarrow> stream_inv (fst (snd (poll_write sid now data rsv ok s)))"
  using poll_write_cases [of sid now data rsv ok s] by (auto simp: stream_inv_spend)

lemma stream_step_inv: "stream_inv s \<Longrightarrow> stream_inv (fst (stream_step sid s op))"
proof (cases op)
  case (PushData now payload)
  then show "stream_inv s \<Longrightarrow> ?thesis" by (simp add: push_data_inv)
next
  case (PollRead now n)
  then show "stream_inv s \<Longrightarrow> ?thesis" by (simp add: poll_read_inv)
next
  case (PollWrite now data rsv ok)
  then show "stream_inv s \<Longrightarrow> ?thesis" by (simp add: poll_write_inv)
qed (auto simp: add_credit_def relay_closes_def reset_def poll_shutdown_def drop_io_def
      stream_inv_def split: option.splits reserve.splits)

interpretation stream: machine "stream_step sid" stream_inv
  by unfold_locales (rule stream_step_inv)


section \<open>What the consumer reads is what the relay sent\<close>

fun taken_bytes :: "stream_out \<Rightarrow> byte list" where
  "taken_bytes (Queued p) = p"
| "taken_bytes _ = []"

fun read_bytes :: "stream_out \<Rightarrow> byte list" where
  "read_bytes (Read p) = p"
| "read_bytes _ = []"

definition taken_in :: "stream_out list \<Rightarrow> byte list" where
  "taken_in outs = concat (map taken_bytes outs)"

definition read_in :: "stream_out list \<Rightarrow> byte list" where
  "read_in outs = concat (map read_bytes outs)"

definition stream_dead :: "inner \<Rightarrow> bool" where
  "stream_dead s \<longleftrightarrow> reset_reason s \<noteq> None"

lemma wakes_carry_nothing [simp]:
  "concat (map taken_bytes (wake_reader s)) = []" "concat (map read_bytes (wake_reader s)) = []"
  "concat (map taken_bytes (wake_writer s)) = []" "concat (map read_bytes (wake_writer s)) = []"
  "x \<in> set (wake_reader s) \<Longrightarrow> taken_bytes x = []" "x \<in> set (wake_reader s) \<Longrightarrow> read_bytes x = []"
  by (auto simp: wake_reader_def wake_writer_def split: if_splits)

lemma credit_carries_nothing [simp]:
  "concat (map taken_bytes (snd (return_credit sid s))) = []"
  "concat (map read_bytes (snd (return_credit sid s))) = []"
  by (simp_all add: return_credit_def)

lemma return_credit_frame [simp]:
  "unread (fst (return_credit sid s)) = unread s"
  "reset_reason (fst (return_credit sid s)) = reset_reason s"
  "relay_closed (fst (return_credit sid s)) = relay_closed s"
  "close_settled (fst (return_credit sid s)) = close_settled s"
  "queue (fst (return_credit sid s)) = queue s"
  "send_credit (fst (return_credit sid s)) = send_credit s"
  "read_waker (fst (return_credit sid s)) = read_waker s"
  by (simp_all add: return_credit_def)

text \<open>A read that hands out data, in one equation.\<close>

lemma poll_read_step:
  assumes "reset_reason s = None" "n > 0" "queue s = front # rest"
  shows "stream_step sid s (PollRead now n) =
    (fst (return_credit sid (take_front n s\<lparr>last_activity := now\<rparr>)),
     Read (take n (drop (front_offset s) front))
       # snd (return_credit sid (take_front n s\<lparr>last_activity := now\<rparr>)))"
  using poll_read_data [OF assms] by (simp add: Let_def split_def)

lemma poll_read_pipe:
  fixes sid now n
  assumes "stream_inv s"
  defines "st \<equiv> stream_step sid s (PollRead now n)"
  shows "read_in (snd st) @ unread (fst st) = unread s @ taken_in (snd st)"
    and "reset_reason (fst st) = reset_reason s"
proof -
  consider "reset_reason s \<noteq> None \<or> n = 0 \<or> queue s = []"
    | front rest where "reset_reason s = None" "n > 0" "queue s = front # rest"
    by (cases "queue s") auto
  then have "read_in (snd st) @ unread (fst st) = unread s @ taken_in (snd st)
      \<and> reset_reason (fst st) = reset_reason s"
  proof cases
    case 1
    then show ?thesis
      using poll_read_idle [of s n sid now] by (auto simp: st_def read_in_def taken_in_def)
  next
    case 2
    then have "front_ok s" using assms by (simp add: stream_inv_def)
    then show ?thesis
      using poll_read_step [OF 2, of sid now] take_front_unread [OF 2(1,3), of n]
      by (simp add: st_def read_in_def taken_in_def)
  qed
  then show "read_in (snd st) @ unread (fst st) = unread s @ taken_in (snd st)"
    and "reset_reason (fst st) = reset_reason s" by auto
qed

lemma push_data_pipe:
  fixes sid now payload
  assumes "stream_inv s"
  defines "st \<equiv> stream_step sid s (PushData now payload)"
  shows "read_in (snd st) @ unread (fst st) = unread s @ taken_in (snd st)"
    and "reset_reason (fst st) = reset_reason s"
    and "reset_reason s \<noteq> None \<Longrightarrow> taken_in (snd st) = []"
proof -
  have "front_ok s" if "reset_reason s = None" using assms that by (simp add: stream_inv_def)
  then show "read_in (snd st) @ unread (fst st) = unread s @ taken_in (snd st)"
    by (cases rule: push_data_cases [of now payload s])
      (simp_all add: st_def read_in_def taken_in_def enqueue_ok)
  show "reset_reason (fst st) = reset_reason s" "reset_reason s \<noteq> None \<Longrightarrow> taken_in (snd st) = []"
    by (cases rule: push_data_cases [of now payload s]; simp add: st_def taken_in_def)+
qed

lemma poll_write_pipe:
  fixes sid now data rsv ok s
  defines "st \<equiv> stream_step sid s (PollWrite now data rsv ok)"
  shows "read_in (snd st) = []" "taken_in (snd st) = []" "unread (fst st) = unread s"
    and "reset_reason (fst st) = reset_reason s"
  using poll_write_cases [of sid now data rsv ok s]
  by (auto simp: st_def read_in_def taken_in_def)

lemma add_credit_frame [simp]:
  "unread (fst (add_credit bytes s)) = unread s"
  "reset_reason (fst (add_credit bytes s)) = reset_reason s"
  "read_in (snd (add_credit bytes s)) = []" "taken_in (snd (add_credit bytes s)) = []"
  by (simp_all add: add_credit_def read_in_def taken_in_def)

lemma relay_closes_frame [simp]:
  "unread (fst (relay_closes s)) = unread s"
  "reset_reason (fst (relay_closes s)) = reset_reason s"
  "read_in (snd (relay_closes s)) = []" "taken_in (snd (relay_closes s)) = []"
  by (simp_all add: relay_closes_def read_in_def taken_in_def)

lemma reset_frame [simp]:
  "\<exists>r. reset_reason (fst (reset sid reason tell s)) = Some r"
  "read_in (snd (reset sid reason tell s)) = []" "taken_in (snd (reset sid reason tell s)) = []"
  by (simp_all add: reset_def read_in_def taken_in_def split: option.split)

lemma poll_shutdown_frame [simp]:
  "unread (fst (snd (poll_shutdown sid rsv ok s))) = unread s"
  "reset_reason (fst (snd (poll_shutdown sid rsv ok s))) = reset_reason s"
  "read_in (snd (snd (poll_shutdown sid rsv ok s))) = []"
  "taken_in (snd (snd (poll_shutdown sid rsv ok s))) = []"
  by (simp_all add: poll_shutdown_def read_in_def taken_in_def split: reserve.split)

lemma drop_io_frame [simp]:
  "unread (fst (drop_io sid ts s)) = unread s"
  "reset_reason (fst (drop_io sid ts s)) = reset_reason s"
  "read_in (snd (drop_io sid ts s)) = []" "taken_in (snd (drop_io sid ts s)) = []"
  by (simp_all add: drop_io_def read_in_def taken_in_def)

lemmas pipe_facts = poll_read_pipe push_data_pipe poll_write_pipe

lemma stream_alive:
  assumes "stream_inv s" "\<not> stream_dead (fst (stream_step sid s op))"
  shows "read_in (snd (stream_step sid s op)) @ unread (fst (stream_step sid s op))
    = unread s @ taken_in (snd (stream_step sid s op))"
proof (cases op)
  case (PushData now payload)
  then show ?thesis using push_data_pipe(1) [OF assms(1)] by simp
next
  case (PollRead now n)
  then show ?thesis using poll_read_pipe(1) [OF assms(1)] by simp
next
  case (PollWrite now data rsv ok)
  then show ?thesis using poll_write_pipe(1-3) [of sid s now data rsv ok] by simp
next
  case (Reset reason tell)
  then show ?thesis using assms(2) reset_frame(1) [of sid reason tell s]
    by (simp add: stream_dead_def)
qed simp_all

lemma stream_reset_mono:
  assumes "stream_inv s"
  shows "reset_reason (fst (stream_step sid s op)) = reset_reason s \<or> (\<exists>r t. op = Reset r t)"
proof (cases op)
  case (PushData now payload)
  then show ?thesis using push_data_pipe(2) [OF assms] by blast
next
  case (PollRead now n)
  then show ?thesis using poll_read_pipe(2) [OF assms] by blast
next
  case (PollWrite now data rsv ok)
  then show ?thesis using poll_write_pipe(4) [of sid s now data rsv ok] by blast
qed simp_all

lemma stream_dead_silent:
  assumes "stream_inv s" "stream_dead (fst (stream_step sid s op))"
  shows "read_in (snd (stream_step sid s op)) = [] \<and> taken_in (snd (stream_step sid s op)) = []"
proof (cases "\<exists>r t. op = Reset r t")
  case True
  then show ?thesis by auto
next
  case False
  then have dead: "reset_reason s \<noteq> None"
    using stream_reset_mono [OF assms(1), of sid op] assms(2) by (auto simp: stream_dead_def)
  show ?thesis
  proof (cases op)
    case (PushData now payload)
    have "queue s = []" using assms(1) dead by (simp add: stream_inv_def)
    then show ?thesis using dead PushData
      by (cases rule: push_data_cases [of now payload s]) (simp_all add: read_in_def taken_in_def)
  next
    case (PollRead now n)
    then show ?thesis
      using poll_read_idle [of s n sid now] dead by (auto simp: read_in_def taken_in_def)
  next
    case (PollWrite now data rsv ok)
    then show ?thesis using poll_write_pipe(1,2) [of sid s now data rsv ok] by simp
  qed simp_all
qed

interpretation stream_in: pipe_machine "stream_step sid" stream_inv unread taken_in read_in stream_dead
proof unfold_locales
  fix s op assume inv: "stream_inv s"
  show "stream_dead s \<Longrightarrow> stream_dead (fst (stream_step sid s op))"
    using stream_reset_mono [OF inv, of sid op] by (auto simp: stream_dead_def)
qed (simp_all add: stream_alive stream_dead_silent)


text \<open>
  The consumer reads exactly the accepted bytes in order: what it has read followed by what it
  can still read is what was accepted, as long as the stream is not reset, and what it has read
  is always a prefix of it.
\<close>

abbreviation all_read :: "stream_out list list \<Rightarrow> byte list" where
  "all_read outs \<equiv> concat (map read_in outs)"

abbreviation all_taken :: "stream_out list list \<Rightarrow> byte list" where
  "all_taken outs \<equiv> concat (map taken_in outs)"

section \<open>Credit returned to the relay\<close>

fun credit_of :: "stream_out \<Rightarrow> nat" where
  "credit_of (Control (StreamCredit sid n)) = unat n"
| "credit_of _ = 0"

definition credit_in :: "stream_out list \<Rightarrow> nat" where
  "credit_in outs = sum_list (map credit_of outs)"

definition units :: "nat \<Rightarrow> unit list" where
  "units n = replicate n ()"

lemma units_append [simp]: "units a @ units b = units (a + b)" "units 0 = []"
  "units a = units b \<longleftrightarrow> a = b" "length (units a) = a" "units a = [] \<longleftrightarrow> a = 0"
  "prefix (units a) (units b) \<longleftrightarrow> a \<le> b"
  by (auto simp: units_def replicate_add prefix_def dest: arg_cong [where f = length])
    (metis le_add_diff_inverse replicate_add)

lemma concat_units: "concat (map (\<lambda>x. units (f x)) xs) = units (sum_list (map f xs))"
  by (induction xs) simp_all

definition credit_closed :: "inner \<Rightarrow> bool" where
  "credit_closed s \<longleftrightarrow> reset_reason s \<noteq> None \<or> relay_closed s"

lemma wake_credit [simp]: "sum_list (map credit_of (wake_reader s)) = 0"
  "sum_list (map credit_of (wake_writer s)) = 0" "x \<in> set (wake_reader s) \<Longrightarrow> credit_of x = 0"
  by (auto simp: wake_reader_def wake_writer_def split: if_splits)

lemma unat_credit: "n \<le> WINDOW \<Longrightarrow> unat (of_nat n :: u64) = n"
  by (simp add: WINDOW_def unat_of_nat)

lemma return_credit_account:
  assumes "read_uncredited s \<le> unacked_in s" "unacked_in s \<le> WINDOW"
  shows "\<not> relay_closed s \<Longrightarrow>
      credit_in (snd (return_credit sid s)) + unacked_in (fst (return_credit sid s)) = unacked_in s"
    "relay_closed s \<Longrightarrow> credit_in (snd (return_credit sid s)) = 0"
  using assms by (simp_all add: return_credit_def credit_in_def unat_credit)

lemma poll_read_account:
  fixes sid now n
  assumes "stream_inv s"
  defines "st \<equiv> stream_step sid s (PollRead now n)"
  shows "\<not> credit_closed s \<Longrightarrow> credit_in (snd st) + unacked_in (fst st) = unacked_in s"
    and "credit_closed s \<Longrightarrow> credit_in (snd st) = 0"
    and "credit_closed (fst st) = credit_closed s"
proof -
  consider "reset_reason s \<noteq> None \<or> n = 0 \<or> queue s = []"
    | front rest where "reset_reason s = None" "n > 0" "queue s = front # rest"
    by (cases "queue s") auto
  then have "(\<not> credit_closed s \<longrightarrow> credit_in (snd st) + unacked_in (fst st) = unacked_in s) \<and>
      (credit_closed s \<longrightarrow> credit_in (snd st) = 0) \<and> credit_closed (fst st) = credit_closed s"
  proof cases
    case 1
    then show ?thesis
      using poll_read_idle [of s n sid now]
      by (auto simp: st_def credit_in_def credit_closed_def)
  next
    case 2
    let ?t = "take_front n s\<lparr>last_activity := now\<rparr>"
    have ok: "front_ok s" "unacked_in s = length (unread s) + read_uncredited s"
      "unacked_in s \<le> WINDOW" using assms 2 by (simp_all add: stream_inv_def)
    have "read_uncredited ?t \<le> unacked_in ?t"
      using take_front_unread [OF 2(1,3) ok(1), of n, THEN arg_cong [where f = length]] ok(2)
      by (simp add: take_front_uncredited [OF 2(3)])
    from return_credit_account [OF this, of sid] ok(3) show ?thesis
      using poll_read_step [OF 2, of sid now] 2(1)
      by (simp add: st_def credit_closed_def credit_in_def)
  qed
  then show "\<not> credit_closed s \<Longrightarrow> credit_in (snd st) + unacked_in (fst st) = unacked_in s"
    and "credit_closed s \<Longrightarrow> credit_in (snd st) = 0"
    and "credit_closed (fst st) = credit_closed s" by auto
qed

lemma push_data_account:
  fixes sid now payload s
  defines "st \<equiv> stream_step sid s (PushData now payload)"
  shows "unacked_in (fst st) = unacked_in s + length (taken_in (snd st))"
    and "credit_in (snd st) = 0" and "credit_closed (fst st) = credit_closed s"
    and "credit_closed s \<Longrightarrow> taken_in (snd st) = []"
  by (cases rule: push_data_cases [of now payload s];
      simp add: st_def taken_in_def credit_in_def credit_closed_def)+

lemma poll_write_account:
  fixes sid now data rsv ok s
  defines "st \<equiv> stream_step sid s (PollWrite now data rsv ok)"
  shows "unacked_in (fst st) = unacked_in s" "credit_in (snd st) = 0"
    "credit_closed (fst st) = credit_closed s"
  using poll_write_cases [of sid now data rsv ok s]
  by (auto simp: st_def credit_in_def credit_closed_def)

text \<open>The remaining operations return no credit, and open no stream that was closed to credit.\<close>

lemma quiet_account [simp]:
  "credit_in (snd (add_credit b s)) = 0" "unacked_in (fst (add_credit b s)) = unacked_in s"
  "credit_closed (fst (add_credit b s)) = credit_closed s"
  "credit_in (snd (relay_closes s)) = 0" "credit_closed (fst (relay_closes s))"
  "credit_in (snd (reset sid reason tell s)) = 0" "credit_closed (fst (reset sid reason tell s))"
  "credit_in (snd (drop_io sid ts s)) = 0" "unacked_in (fst (drop_io sid ts s)) = unacked_in s"
  "credit_closed (fst (drop_io sid ts s)) = credit_closed s"
  by (simp_all add: add_credit_def relay_closes_def reset_def drop_io_def credit_in_def
      credit_closed_def split: option.split)

lemma quiet_shutdown [simp]:
  "credit_in (snd (snd (poll_shutdown sid rsv ok s))) = 0"
  "unacked_in (fst (snd (poll_shutdown sid rsv ok s))) = unacked_in s"
  "credit_closed (fst (snd (poll_shutdown sid rsv ok s))) = credit_closed s"
  by (simp_all add: poll_shutdown_def credit_in_def credit_closed_def split: reserve.split)

lemma poll_read_takes_nothing: "taken_in (snd (stream_step sid s (PollRead now n))) = []"
proof -
  consider "reset_reason s \<noteq> None \<or> n = 0 \<or> queue s = []"
    | front rest where "reset_reason s = None" "n > 0" "queue s = front # rest"
    by (cases "queue s") auto
  then show ?thesis
  proof cases
    case 1
    then show ?thesis using poll_read_idle [of s n sid now] by (auto simp: taken_in_def)
  next
    case 2
    then show ?thesis using poll_read_step [OF 2, of sid now] by (simp add: taken_in_def)
  qed
qed

lemma credit_alive:
  assumes "stream_inv s" "\<not> credit_closed (fst (stream_step sid s op))"
  shows "credit_in (snd (stream_step sid s op)) + unacked_in (fst (stream_step sid s op))
    = unacked_in s + length (taken_in (snd (stream_step sid s op)))"
proof (cases op)
  case (PushData now payload)
  then show ?thesis using push_data_account(1,2) [where sid = sid and s = s and now = now and payload = payload] by simp
next
  case (PollRead now n)
  then show ?thesis
    using assms(2) poll_read_account [OF assms(1), of sid now n]
      poll_read_takes_nothing [of sid s now n] by simp
next
  case (PollWrite now data rsv ok)
  then show ?thesis
    using poll_write_account [where sid = sid and s = s and now = now and data = data and rsv = rsv and ok = ok] poll_write_pipe(2) [where sid = sid and s = s and now = now and data = data and rsv = rsv and ok = ok]
    by simp
qed (use assms(2) in simp_all)


lemma credit_closed_mono:
  assumes "stream_inv s" "credit_closed s"
  shows "credit_closed (fst (stream_step sid s op))"
proof (cases op)
  case (PushData now payload)
  then show ?thesis using push_data_account(3) [where sid = sid and s = s and now = now and payload = payload] assms(2) by simp
next
  case (PollRead now n)
  then show ?thesis using poll_read_account(3) [OF assms(1), of sid now n] assms(2) by simp
next
  case (PollWrite now data rsv ok)
  then show ?thesis using poll_write_account(3) [where sid = sid and s = s and now = now and data = data and rsv = rsv and ok = ok] assms(2) by simp
qed (use assms(2) in simp_all)

lemma credit_closed_silent:
  assumes "stream_inv s" "credit_closed (fst (stream_step sid s op))"
  shows "credit_in (snd (stream_step sid s op)) = 0 \<and> taken_in (snd (stream_step sid s op)) = []"
proof (cases op)
  case (PushData now payload)
  then show ?thesis using push_data_account(2-4) [where sid = sid and s = s and now = now and payload = payload] assms(2) by simp
next
  case (PollRead now n)
  then show ?thesis
    using poll_read_account(2,3) [OF assms(1), of sid now n] assms(2)
      poll_read_takes_nothing [of sid s now n] by simp
next
  case (PollWrite now data rsv ok)
  then show ?thesis
    using poll_write_account(2) [where sid = sid and s = s and now = now and data = data and rsv = rsv and ok = ok] poll_write_pipe(2) [where sid = sid and s = s and now = now and data = data and rsv = rsv and ok = ok]
    by simp
qed simp_all

interpretation stream_credit: pipe_machine "stream_step sid" stream_inv
  "\<lambda>s. units (unacked_in s)" "\<lambda>outs. units (length (taken_in outs))" "\<lambda>outs. units (credit_in outs)"
  credit_closed
  by unfold_locales (simp_all add: credit_alive credit_closed_silent credit_closed_mono)

section \<open>The send side and the closes\<close>

fun data_of :: "uuid \<Rightarrow> stream_out \<Rightarrow> byte list" where
  "data_of sid (Data m) = drop (length sid) m"
| "data_of sid _ = []"

definition sent_in :: "uuid \<Rightarrow> stream_out list \<Rightarrow> byte list" where
  "sent_in sid outs = concat (map (data_of sid) outs)"

fun granted :: "stream_op \<Rightarrow> nat" where
  "granted (AddCredit bytes) = unat bytes"
| "granted _ = 0"

fun is_close :: "stream_out \<Rightarrow> bool" where
  "is_close (Control (StreamClose sid r)) = True"
| "is_close (OrderedFrame (StreamClose sid r)) = True"
| "is_close (LostFrame (StreamClose sid r)) = True"
| "is_close _ = False"

definition closes_in :: "stream_out list \<Rightarrow> nat" where
  "closes_in outs = length (filter is_close outs)"

lemma wake_quiet [simp]:
  "filter is_close (wake_reader s) = []" "filter is_close (wake_writer s) = []"
  "concat (map (data_of sid) (wake_reader s)) = []"
  "concat (map (data_of sid) (wake_writer s)) = []"
  by (simp_all add: wake_reader_def wake_writer_def)

lemma return_credit_quiet [simp]:
  "filter is_close (snd (return_credit sid s)) = []"
  "concat (map (data_of sid') (snd (return_credit sid s))) = []"
  by (simp_all add: return_credit_def)

lemma poll_read_quiet:
  fixes sid now n s
  defines "st \<equiv> snd (poll_read sid now n s)"
  shows "closes_in (snd st) = 0" "sent_in sid' (snd st) = []"
    "close_settled (fst st) = close_settled s" "send_credit (fst st) = send_credit s"
proof -
  consider "reset_reason s \<noteq> None \<or> n = 0 \<or> queue s = []"
    | front rest where "reset_reason s = None" "n > 0" "queue s = front # rest"
    by (cases "queue s") auto
  then have "closes_in (snd st) = 0 \<and> sent_in sid' (snd st) = [] \<and>
      close_settled (fst st) = close_settled s \<and> send_credit (fst st) = send_credit s"
  proof cases
    case 1
    then show ?thesis
      using poll_read_idle [of s n sid now] by (auto simp: st_def closes_in_def sent_in_def)
  next
    case 2
    then show ?thesis
      using poll_read_step [OF 2, of sid now] by (simp add: st_def closes_in_def sent_in_def)
  qed
  then show "closes_in (snd st) = 0" "sent_in sid' (snd st) = []"
    "close_settled (fst st) = close_settled s" "send_credit (fst st) = send_credit s" by auto
qed

lemma push_data_quiet:
  fixes now payload s
  defines "st \<equiv> snd (push_data now payload s)"
  shows "closes_in (snd st) = 0" "sent_in sid (snd st) = []"
    "close_settled (fst st) = close_settled s" "send_credit (fst st) = send_credit s"
  by (cases rule: push_data_cases [of now payload s];
      simp add: st_def closes_in_def sent_in_def)+

text \<open>One \<open>stream_close\<close> at most: settling the close spends the only one there is.\<close>

definition close_budget :: "inner \<Rightarrow> nat" where
  "close_budget s = (if close_settled s then 0 else 1)"

lemma stream_close_budget:
  "closes_in (snd (stream_step sid s op)) + close_budget (fst (stream_step sid s op)) \<le> close_budget s"
proof (cases op)
  case (PollWrite now data rsv ok)
  then show ?thesis
    using poll_write_cases [of sid now data rsv ok s]
    by (auto simp: closes_in_def close_budget_def)
next
  case (PushData now payload)
  then show ?thesis by (simp add: push_data_quiet close_budget_def)
next
  case (PollRead now n)
  then show ?thesis by (simp add: poll_read_quiet close_budget_def)
qed (simp_all add: poll_read_quiet push_data_quiet close_budget_def add_credit_def relay_closes_def
      reset_def poll_shutdown_def drop_io_def closes_in_def split: reserve.split)

interpretation stream_close: budget_machine "stream_step sid" stream_inv closes_in close_budget "\<lambda>_. 0"
  by unfold_locales (simp add: stream_close_budget)

text \<open>What is sent is covered by the window and the credit the relay granted.\<close>

lemma stream_send_budget:
  "length (sent_in sid (snd (stream_step sid s op))) + send_credit (fst (stream_step sid s op))
     \<le> send_credit s + granted op"
proof (cases op)
  case (PollWrite now data rsv ok)
  then show ?thesis
    using poll_write_cases [of sid now data rsv ok s] by (auto simp: sent_in_def)
next
  case (PushData now payload)
  then show ?thesis by (simp add: push_data_quiet)
next
  case (PollRead now n)
  then show ?thesis by (simp add: poll_read_quiet)
qed (simp_all add: poll_read_quiet push_data_quiet add_credit_def relay_closes_def
      reset_def poll_shutdown_def drop_io_def sent_in_def saturating_add_usize_def
      split: reserve.split)

interpretation stream_send: budget_machine "stream_step sid" stream_inv "\<lambda>outs. length (sent_in sid outs)"
    send_credit granted
  by unfold_locales (simp add: stream_send_budget)

section \<open>No reader is left waiting for something that is there\<close>

text \<open>A registered read waker means a read would wait: there is nothing to read and no end of file.\<close>

definition reader_waits :: "inner \<Rightarrow> bool" where
  "reader_waits s \<longleftrightarrow> read_waker s \<longrightarrow>
     queue s = [] \<and> \<not> relay_closed s \<and> \<not> close_settled s \<and> reset_reason s = None"

text \<open>
  Dropping the handle leaves nobody to wake. A shutdown that finds the ordered queue closed
  settles the close without taking the waker.
\<close>

fun leaves_reader :: "stream_op \<Rightarrow> bool" where
  "leaves_reader (PollShutdown Reserve_Closed ok) = True"
| "leaves_reader (DropIo ts) = True"
| "leaves_reader _ = False"

lemma poll_read_waits:
  assumes "reader_waits s"
  shows "reader_waits (fst (snd (poll_read sid now n s)))"
proof -
  consider r where "reset_reason s = Some r" | "reset_reason s = None" "n = 0"
    | "reset_reason s = None" "n > 0" "queue s = []"
    | front rest where "reset_reason s = None" "n > 0" "queue s = front # rest"
    by (cases "queue s"; cases "reset_reason s") auto
  then show ?thesis
  proof cases
    case 4
    then show ?thesis
      using assms poll_read_step [OF 4, of sid now] by (simp add: reader_waits_def)
  qed (use assms in \<open>simp_all add: poll_read_def reader_waits_def\<close>)
qed

lemma push_data_waits: "reader_waits s \<Longrightarrow> reader_waits (fst (snd (push_data now payload s)))"
  by (cases rule: push_data_cases [of now payload s]) (simp_all add: reader_waits_def)

lemma stream_step_waits:
  assumes "reader_waits s" "\<not> leaves_reader op"
  shows "reader_waits (fst (stream_step sid s op))"
proof (cases op)
  case (PollWrite now data rsv ok)
  then show ?thesis
    using poll_write_cases [of sid now data rsv ok s] assms(1) by (auto simp: reader_waits_def)
next
  case (PollShutdown rsv ok)
  then show ?thesis
    using assms by (cases rsv) (auto simp: poll_shutdown_def reader_waits_def)
next
  case (PushData now payload)
  then show ?thesis using assms by (simp add: push_data_waits)
next
  case (PollRead now n)
  then show ?thesis using assms by (simp add: poll_read_waits)
qed (use assms in \<open>simp_all add: add_credit_def relay_closes_def reset_def reader_waits_def\<close>)

lemma stream_run_waits:
  "reader_waits s \<Longrightarrow> list_all (Not \<circ> leaves_reader) ops \<Longrightarrow>
     reader_waits (fst (stream_run sid s ops))"
  by (induction ops arbitrary: s) (simp_all add: stream_step_waits)

lemma waiting_read_is_pending:
  assumes "reader_waits s" "read_waker s" "n > 0"
  shows "fst (poll_read sid now n s) = Pending"
  using assms by (simp add: reader_waits_def poll_read_def)

lemma reader_waits_new: "reader_waits (new_inner t)"
  by (simp add: reader_waits_def new_inner_def)


section \<open>Properties\<close>

text \<open>Over every sequence of operations on a fresh stream, in any order, the bytes the relay
  may not send again yet never exceed the 256 KiB window, no queued chunk is empty or larger than
  64 KiB, the send credit never exceeds the window however much the relay grants, and while the
  stream is not reset the window account is exact: what is outstanding is what the consumer has
  still to read plus less than one credit batch it has read.\<close>

theorem stream_flow_control:
  fixes sid now ops
  defines "s \<equiv> fst (stream_run sid (new_inner now) ops)"
  shows "unacked_in s \<le> WINDOW \<and> send_credit s \<le> WINDOW \<and>
    list_all (\<lambda>c. 0 < length c \<and> length c \<le> MAX_CHUNK) (queue s) \<and>
    (reset_reason s = None \<longrightarrow>
       unacked_in s = length (unread s) + read_uncredited s \<and> read_uncredited s < CREDIT_BATCH)"
proof -
  have "stream_inv s" unfolding s_def by (rule stream.run_inv [OF stream_inv_new])
  then show ?thesis by (simp add: stream_inv_def list_all_iff)
qed

text \<open>A run used by the witnesses: two chunks arrive, a part of them is read.\<close>

definition sample_ops :: "stream_op list" where
  "sample_ops = [PushData 1 [1, 2, 3], PollRead 2 2, PushData 3 [4]]"

lemma sample_run:
  "stream_run sid (new_inner 0) sample_ops =
     (\<lparr>queue = [[1, 2, 3], [4]], front_offset = 2, unacked_in = 4, read_uncredited = 2,
        relay_closed = False, reset_reason = None, close_settled = False, send_credit = WINDOW,
        read_waker = False, write_waker = False, last_activity = 3\<rparr>,
      [[Queued [1, 2, 3]], [Read [1, 2]], [Queued [4]]])"
  by (simp add: sample_ops_def run_machine.simps(2) new_inner_def component_simps WINDOW_def
      MAX_CHUNK_def CREDIT_BATCH_def)

lemma stream_flow_control_witness:
  "unacked_in (fst (stream_run [] (new_inner 0) sample_ops)) = 2 + 2"
  using stream_flow_control [of "[]" 0 sample_ops] by (simp add: sample_run unread_def)

text \<open>C28: Whatever the interleaving of the relay's and the consumer's operations, the bytes the
  consumer has read are a prefix of the bytes accepted from the relay, in order and without gaps
  or duplicates, and unless the stream was reset nothing is lost: what was read followed by what
  is still readable is exactly what was accepted.\<close>

theorem stream_is_fifo:
  fixes sid now ops
  defines "r \<equiv> stream_run sid (new_inner now) ops"
  shows "prefix (all_read (snd r)) (all_taken (snd r)) \<and>
    (reset_reason (fst r) = None \<longrightarrow> all_read (snd r) @ unread (fst r) = all_taken (snd r))"
  using stream_in.run_pipe [OF stream_inv_new, of sid now ops]
  by (simp add: r_def stream_dead_def) (simp add: unread_def new_inner_def)

lemma stream_is_fifo_witness:
  "all_read (snd (stream_run [] (new_inner 0) sample_ops)) = [1, 2] \<and> prefix [1, 2 :: byte] [1, 2, 3, 4]"
  using stream_is_fifo [of "[]" 0 sample_ops] by (simp add: sample_run read_in_def taken_in_def)

text \<open>A relay that keeps to the protocol is never refused: if the data accepted so far and the
  new payload together stay within the initial window plus all the credit returned to it, and the
  payload is at most 64 KiB, the payload is taken.\<close>

theorem honest_relay_never_refused:
  fixes sid t ops now payload
  defines "r \<equiv> stream_run sid (new_inner t) ops"
  assumes "length payload \<le> MAX_CHUNK"
    and "length (all_taken (snd r)) + length payload
           \<le> WINDOW + sum_list (map credit_in (snd r))"
  shows "fst (push_data now payload (fst r)) = Inr ()"
proof (cases "credit_closed (fst r)")
  case True
  then show ?thesis using assms(2) by (auto simp: push_data_def credit_closed_def)
next
  case False
  have "sum_list (map credit_in (snd r)) + unacked_in (fst r) = length (all_taken (snd r))"
    using stream_credit.run_pipe [OF stream_inv_new, of sid t ops] False
    by (simp add: r_def concat_units length_concat comp_def) (simp add: new_inner_def)
  with assms(2,3) show ?thesis by (simp add: push_data_def)
qed

lemma honest_relay_never_refused_witness:
  "fst (push_data 5 [9] (fst (stream_run [] (new_inner 0) sample_ops))) = Inr ()"
  by (rule honest_relay_never_refused)
    (simp_all add: sample_run taken_in_def MAX_CHUNK_def WINDOW_def)

text \<open>At most one \<open>stream_close\<close> is ever sent for a stream, whichever of a reset, a shutdown
  and dropping the handle come, in whatever order and however often; after the relay's own close
  none is sent.\<close>

theorem stream_closes_once:
  "sum_list (map closes_in (snd (stream_run sid (new_inner now) ops))) \<le> 1 \<and>
   (\<forall>s. stream_inv s \<longrightarrow> sum_list (map closes_in (snd (stream_run sid s (RelayCloses # ops)))) = 0)"
proof -
  have "sum_list (map closes_in (snd (stream_run sid s (RelayCloses # ops)))) = 0"
    if "stream_inv s" for s
    using stream_close.run_budget [OF stream_step_inv [OF that, of sid RelayCloses], of sid ops]
    by (simp add: close_budget_def relay_closes_def closes_in_def)
  then show ?thesis
    using stream_close.run_budget [OF stream_inv_new, of sid now ops]
    by (simp add: close_budget_def new_inner_def)
qed

lemma stream_closes_once_witness:
  "sum_list (map closes_in (snd (stream_run [] (new_inner 3) [RelayCloses, DropIo Try_Ok]))) = 0"
  using stream_closes_once [of "[]" 3 "[DropIo Try_Ok]"] stream_inv_new [of 3] by blast

text \<open>A stream never sends the relay more data than the initial window plus the credit the
  relay granted, and what is left of the send credit is covered by the same account.\<close>

theorem stream_sends_within_credit:
  "sum_list (map (\<lambda>outs. length (sent_in sid outs)) (snd (stream_run sid (new_inner now) ops)))
     + send_credit (fst (stream_run sid (new_inner now) ops))
   \<le> WINDOW + sum_list (map granted ops)"
  using stream_send.run_budget [OF stream_inv_new, of sid now ops]
  by (simp add: new_inner_def)

text \<open>No read is left asleep while there is something for it: as long as the handle was not
  dropped and no shutdown found the outbound queue closed, a read waker that is registered means
  that a read would still have to wait. Data, the relay's close, a reset and a shutdown all take
  and wake it.\<close>

theorem no_lost_read_wakeup:
  fixes sid t ops now n
  defines "s \<equiv> fst (stream_run sid (new_inner t) ops)"
  assumes "list_all (Not \<circ> leaves_reader) ops" "read_waker s" "n > 0"
  shows "fst (poll_read sid now n s) = Pending"
  using assms stream_run_waits [OF reader_waits_new] waiting_read_is_pending by blast

lemma no_lost_read_wakeup_witness:
  "fst (poll_read [] 2 8 (fst (stream_run [] (new_inner 0) [PollRead 1 8]))) = Pending"
  by (rule no_lost_read_wakeup) (simp_all add: new_inner_def poll_read_def)

text \<open>The exception is real. A shutdown that finds the outbound queue closed settles the close,
  so that a read would now see the end of the stream, but it neither takes nor wakes the waker a
  pending read has registered; since the stream also leaves the table, the reset of
  \<open>close_all\<close> does not reach that read either.\<close>

theorem failed_shutdown_strands_reader:
  fixes sid t now ok
  defines "s \<equiv> fst (stream_step sid (new_inner t) (PollRead now 1))"
  shows "fst (poll_read sid now 1 (new_inner t)) = Pending \<and>
    snd (poll_shutdown sid Reserve_Closed ok s) = (s\<lparr>close_settled := True\<rparr>, []) \<and>
    read_waker (s\<lparr>close_settled := True\<rparr>) \<and>
    fst (poll_read sid now 1 (s\<lparr>close_settled := True\<rparr>)) = Ready (Inr []) \<and>
    (\<forall>rest. WakeReader \<in> set (snd (stream_step sid s (PollShutdown Reserve_Ready rest))))"
  by (simp add: s_def poll_read_def poll_shutdown_def new_inner_def wake_reader_def)

end
