(* ===== verification/Rust_Text.thy ===== *)
theory Rust_Text
  imports Prelude
begin

text \<open>
  The operations of \<open>char\<close> and \<open>str\<close> the components use, on code point lists: ASCII classes and
  case, Unicode white space and control characters (the complete lists), splitting, trimming and
  stripping.
\<close>

section \<open>ASCII\<close>

definition ch :: "char \<Rightarrow> nat" where
  "ch c = of_char c"

definition is_ascii_digit :: "nat \<Rightarrow> bool" where
  "is_ascii_digit c \<longleftrightarrow> 48 \<le> c \<and> c \<le> 57"

definition is_ascii_upper :: "nat \<Rightarrow> bool" where
  "is_ascii_upper c \<longleftrightarrow> 65 \<le> c \<and> c \<le> 90"

definition ascii_lower_char :: "nat \<Rightarrow> nat" where
  "ascii_lower_char c = (if is_ascii_upper c then c + 32 else c)"

definition to_ascii_lowercase :: "ustring \<Rightarrow> ustring" where
  "to_ascii_lowercase s = map ascii_lower_char s"

text \<open>\<open>str::split_once\<close> and \<open>str::rsplit_once\<close> with a character.\<close>

fun split_once :: "nat \<Rightarrow> ustring \<Rightarrow> (ustring \<times> ustring) option" where
  "split_once c [] = None"
| "split_once c (x # xs) =
     (if x = c then Some ([], xs)
      else map_option (\<lambda>(a, b). (x # a, b)) (split_once c xs))"

definition rsplit_once :: "nat \<Rightarrow> ustring \<Rightarrow> (ustring \<times> ustring) option" where
  "rsplit_once c s = map_option (\<lambda>(a, b). (rev b, rev a)) (split_once c (rev s))"

definition strip_suffix_char :: "nat \<Rightarrow> ustring \<Rightarrow> ustring option" where
  "strip_suffix_char c s = (if s \<noteq> [] \<and> last s = c then Some (butlast s) else None)"

lemma split_once_None: "split_once c s = None \<longleftrightarrow> c \<notin> set s"
  by (induction s) auto

lemma split_once_Some: "split_once c s = Some (a, b) \<longleftrightarrow> s = a @ c # b \<and> c \<notin> set a"
proof (induction s arbitrary: a b)
  case Nil
  then show ?case by simp
next
  case (Cons x xs)
  then show ?case by (cases a) auto
qed

lemma rsplit_once_None: "rsplit_once c s = None \<longleftrightarrow> c \<notin> set s"
  by (simp add: rsplit_once_def split_once_None)

lemma rsplit_once_Some: "rsplit_once c s = Some (a, b) \<longleftrightarrow> s = a @ c # b \<and> c \<notin> set b"
proof -
  have "rsplit_once c s = Some (a, b) \<longleftrightarrow> split_once c (rev s) = Some (rev b, rev a)"
    by (auto simp: rsplit_once_def)
  also have "\<dots> \<longleftrightarrow> rev s = rev b @ c # rev a \<and> c \<notin> set b"
    by (simp add: split_once_Some)
  also have "rev s = rev b @ c # rev a \<longleftrightarrow> s = a @ c # b"
    by (simp add: rev_swap)
  finally show ?thesis .
qed

lemma ascii_lower_idem [simp]: "ascii_lower_char (ascii_lower_char c) = ascii_lower_char c"
  by (auto simp: ascii_lower_char_def is_ascii_upper_def)

lemma lower_append [simp]:
  "to_ascii_lowercase (s @ t) = to_ascii_lowercase s @ to_ascii_lowercase t"
  "to_ascii_lowercase [] = []" "length (to_ascii_lowercase s) = length s"
  by (simp_all add: to_ascii_lowercase_def)

text \<open>Lowercasing neither makes nor removes a character outside the letters.\<close>

lemma ascii_lower_char_eq: "c < 65 \<or> 122 < c \<Longrightarrow> ascii_lower_char d = c \<longleftrightarrow> d = c"
  by (cases "is_ascii_upper d") (auto simp: ascii_lower_char_def is_ascii_upper_def)

lemma lower_mem_iff:
  assumes "c < 65 \<or> 122 < c"
  shows "c \<in> set (to_ascii_lowercase s) \<longleftrightarrow> c \<in> set s"
proof -
  have "c \<in> ascii_lower_char ` set s \<longleftrightarrow> (\<exists>d\<in>set s. ascii_lower_char d = c)" by auto
  then show ?thesis by (simp add: to_ascii_lowercase_def ascii_lower_char_eq [OF assms])
qed

lemma lower_last:
  assumes "s \<noteq> []" "c < 65 \<or> 122 < c" "last s = c"
  shows "last (to_ascii_lowercase s) = c"
  using assms ascii_lower_char_eq by (simp add: to_ascii_lowercase_def last_map)

section \<open>Unicode classes\<close>

text \<open>The general category \<open>Cc\<close>, and the property \<open>White_Space\<close>.\<close>

definition is_control :: "nat \<Rightarrow> bool" where
  "is_control c \<longleftrightarrow> c \<le> 31 \<or> 127 \<le> c \<and> c \<le> 159"

definition is_whitespace :: "nat \<Rightarrow> bool" where
  "is_whitespace c \<longleftrightarrow> 9 \<le> c \<and> c \<le> 13 \<or> c = 32 \<or> c = 133 \<or> c = 160 \<or> c = 5760 \<or>
     8192 \<le> c \<and> c \<le> 8202 \<or> c = 8232 \<or> c = 8233 \<or> c = 8239 \<or> c = 8287 \<or> c = 12288"

definition is_ascii_lower :: "nat \<Rightarrow> bool" where
  "is_ascii_lower c \<longleftrightarrow> 97 \<le> c \<and> c \<le> 122"

definition ascii_upper_char :: "nat \<Rightarrow> nat" where
  "ascii_upper_char c = (if is_ascii_lower c then c - 32 else c)"

section \<open>Trimming and splitting\<close>

definition trim_start :: "ustring \<Rightarrow> ustring" where
  "trim_start s = dropWhile is_whitespace s"

definition trim_end :: "ustring \<Rightarrow> ustring" where
  "trim_end s = rev (dropWhile is_whitespace (rev s))"

definition trim :: "ustring \<Rightarrow> ustring" where
  "trim s = trim_end (trim_start s)"

definition trim_end_char :: "nat \<Rightarrow> ustring \<Rightarrow> ustring" where
  "trim_end_char c s = rev (dropWhile (\<lambda>x. x = c) (rev s))"

text \<open>\<open>str::split\<close> with a character: always one piece more than there are separators.\<close>

fun split_on :: "nat \<Rightarrow> ustring \<Rightarrow> ustring list" where
  "split_on c [] = [[]]"
| "split_on c (x # xs) =
     (if x = c then [] # split_on c xs
      else (case split_on c xs of p # ps \<Rightarrow> (x # p) # ps | [] \<Rightarrow> [[x]]))"

definition starts_with :: "ustring \<Rightarrow> ustring \<Rightarrow> bool" where
  "starts_with p s \<longleftrightarrow> take (length p) s = p"

definition ends_with :: "ustring \<Rightarrow> ustring \<Rightarrow> bool" where
  "ends_with p s \<longleftrightarrow> starts_with (rev p) (rev s)"

definition strip_prefix :: "ustring \<Rightarrow> ustring \<Rightarrow> ustring option" where
  "strip_prefix p s = (if starts_with p s then Some (drop (length p) s) else None)"

definition strip_suffix :: "ustring \<Rightarrow> ustring \<Rightarrow> ustring option" where
  "strip_suffix p s = (if ends_with p s then Some (take (length s - length p) s) else None)"

fun contains_str :: "ustring \<Rightarrow> ustring \<Rightarrow> bool" where
  "contains_str p [] \<longleftrightarrow> p = []"
| "contains_str p (x # xs) \<longleftrightarrow> starts_with p (x # xs) \<or> contains_str p xs"

definition eq_ignore_ascii_case :: "ustring \<Rightarrow> ustring \<Rightarrow> bool" where
  "eq_ignore_ascii_case a b \<longleftrightarrow> to_ascii_lowercase a = to_ascii_lowercase b"

definition concat_with :: "ustring \<Rightarrow> ustring list \<Rightarrow> ustring" where
  "concat_with sep ps = (case ps of [] \<Rightarrow> [] | p # rest \<Rightarrow> p @ concat (map (\<lambda>q. sep @ q) rest))"

lemma split_on_nonempty [simp]: "split_on c s \<noteq> []"
  by (induction s) (auto split: list.split)

lemma set_dropWhile_subset: "set (dropWhile P xs) \<subseteq> set xs"
  by (auto dest: set_dropWhileD)

lemma set_trim: "set (trim s) \<subseteq> set s"
  using set_dropWhile_subset [of is_whitespace "rev (dropWhile is_whitespace s)"]
    set_dropWhile_subset [of is_whitespace s]
  by (auto simp: trim_def trim_end_def trim_start_def)

lemma length_trim: "length (trim s) \<le> length s"
  using length_dropWhile_le [of is_whitespace "rev (dropWhile is_whitespace s)"]
    length_dropWhile_le [of is_whitespace s]
  by (simp add: trim_def trim_end_def trim_start_def)

text \<open>A trimmed string has no white space at either end, and trimming it again changes nothing.\<close>

definition trimmed :: "ustring \<Rightarrow> bool" where
  "trimmed s \<longleftrightarrow> s = [] \<or> \<not> is_whitespace (hd s) \<and> \<not> is_whitespace (last s)"

lemma dropWhile_hd: "dropWhile P xs \<noteq> [] \<Longrightarrow> \<not> P (hd (dropWhile P xs))"
  by (rule hd_dropWhile)

lemma trim_end_last: "trim_end s \<noteq> [] \<Longrightarrow> \<not> is_whitespace (last (trim_end s))"
  using hd_dropWhile [of is_whitespace "rev s"] by (auto simp: trim_end_def last_rev)

lemma trim_end_prefix: "\<exists>t. s = trim_end s @ t"
proof -
  have "rev s = takeWhile is_whitespace (rev s) @ dropWhile is_whitespace (rev s)" by simp
  then have "s = rev (dropWhile is_whitespace (rev s)) @ rev (takeWhile is_whitespace (rev s))"
    by (metis rev_append rev_rev_ident)
  then show ?thesis unfolding trim_end_def by blast
qed

lemma trimmed_trim: "trimmed (trim s)"
proof (cases "trim s = []")
  case True
  then show ?thesis by (simp add: trimmed_def)
next
  case False
  obtain t where t: "trim_start s = trim s @ t" using trim_end_prefix by (auto simp: trim_def)
  then have "hd (trim s) = hd (trim_start s)" "trim_start s \<noteq> []" using False by auto
  then have "\<not> is_whitespace (hd (trim s))"
    using hd_dropWhile [of is_whitespace s] by (simp add: trim_start_def)
  then show ?thesis using False trim_end_last [of "trim_start s"] by (simp add: trimmed_def trim_def)
qed

lemma dropWhile_head: "xs = [] \<or> \<not> P (hd xs) \<Longrightarrow> dropWhile P xs = xs"
  by (cases xs) auto

lemma trim_trimmed: "trimmed s \<Longrightarrow> trim s = s"
  by (cases "s = []") (auto simp: trimmed_def trim_def trim_start_def trim_end_def
      dropWhile_head hd_rev)

end
