(* ===== verification/Hostnames.thy ===== *)
theory Hostnames
  imports Rust_Text
begin

text \<open>
  The three host names of an instance and how a request's host is recognised
  (\<open>crates/net/src/remote_access/types.rs\<close>).
\<close>

section \<open>Host names\<close>

datatype host_kind = Ui | Workbench | Instance

record hostnames =
  ui :: ustring
  workbench :: ustring
  inst :: ustring

definition colon :: nat where "colon = 58"
definition dot :: nat where "dot = 46"

definition derive :: "ustring \<Rightarrow> ustring \<Rightarrow> ustring \<Rightarrow> hostnames" where
  "derive user slug base =
     \<lparr>ui = user @ [dot] @ base,
      workbench = user @ [dot] @ lit ''workbench'' @ [dot] @ base,
      inst = slug @ [dot] @ user @ [dot] @ base\<rparr>"

definition all_names :: "hostnames \<Rightarrow> ustring list" where
  "all_names h = [ui h, workbench h, inst h]"

definition normalize_host :: "ustring \<Rightarrow> ustring" where
  "normalize_host host =
     (let without_port =
        (case rsplit_once colon host of
           Some (name, port) \<Rightarrow> if list_all is_ascii_digit port \<and> colon \<notin> set name then name else host
         | None \<Rightarrow> host)
      in to_ascii_lowercase
           (case strip_suffix_char dot without_port of Some s \<Rightarrow> s | None \<Rightarrow> without_port))"

definition kind_of :: "hostnames \<Rightarrow> ustring \<Rightarrow> host_kind option" where
  "kind_of h host =
     (let host' = normalize_host host
      in if host' = ui h then Some Ui
         else if host' = workbench h then Some Workbench
         else if host' = inst h then Some Instance
         else None)"

text \<open>A DNS label as the user and slug are: not empty, no dot.\<close>

definition label :: "ustring \<Rightarrow> bool" where
  "label s \<longleftrightarrow> s \<noteq> [] \<and> dot \<notin> set s"

lemma label_split: "dot \<notin> set a \<Longrightarrow> dot \<notin> set b \<Longrightarrow> a @ dot # x = b @ dot # y \<longleftrightarrow> a = b \<and> x = y"
proof (induction a arbitrary: b)
  case Nil
  then show ?case by (cases b) auto
next
  case (Cons c a)
  then show ?case by (cases b) auto
qed

lemma normalize_plain:
  assumes "colon \<notin> set s" "s = [] \<or> last s \<noteq> dot"
  shows "normalize_host (s @ [dot]) = to_ascii_lowercase s"
    "normalize_host s = to_ascii_lowercase s"
proof -
  have none: "rsplit_once colon s = None" "rsplit_once colon (s @ [dot]) = None"
    using assms(1) by (auto simp: rsplit_once_None colon_def dot_def)
  show "normalize_host (s @ [dot]) = to_ascii_lowercase s"
    by (simp add: normalize_host_def none strip_suffix_char_def)
  show "normalize_host s = to_ascii_lowercase s"
    using assms(2) by (auto simp: normalize_host_def none strip_suffix_char_def)
qed

lemma normalize_port:
  assumes "colon \<notin> set s" "list_all is_ascii_digit port"
  shows "normalize_host (s @ colon # port) = normalize_host s"
proof -
  have "colon \<notin> set port" using assms(2) by (auto simp: list_all_iff is_ascii_digit_def colon_def)
  then have "rsplit_once colon (s @ colon # port) = Some (s, port)"
    by (simp add: rsplit_once_Some)
  moreover have "rsplit_once colon s = None" using assms(1) by (simp add: rsplit_once_None)
  ultimately show ?thesis using assms by (simp add: normalize_host_def)
qed

text \<open>However a request spells one of an instance's names (in any case, with or without the
  trailing dot of an absolute name, with or without a port), the name is recognised: a host
  resolves to the same kind as the plain lower-case name it spells.\<close>

theorem kind_of_any_spelling:
  assumes "colon \<notin> set s" "s = [] \<or> last s \<noteq> dot" "list_all is_ascii_digit port"
    "name = to_ascii_lowercase s" "tail \<in> {[], [dot]} \<times> {[], colon # port}"
  shows "kind_of h (s @ fst tail @ snd tail) = kind_of h name"
proof -
  have c: "colon \<notin> set name" "colon \<notin> set (s @ fst tail)"
    using assms(1,4,5) by (auto simp: lower_mem_iff colon_def dot_def)
  have n: "name = [] \<or> last name \<noteq> dot"
  proof (cases "s = []")
    case True
    then show ?thesis using assms(4) by simp
  next
    case False
    then have "last name = ascii_lower_char (last s)"
      using assms(4) by (simp add: to_ascii_lowercase_def last_map)
    then show ?thesis
      using assms(2) False by (auto simp: ascii_lower_char_def is_ascii_upper_def dot_def)
  qed
  have "normalize_host (s @ fst tail @ snd tail) = normalize_host (s @ fst tail)"
    using normalize_port [OF c(2) assms(3)] assms(5) by auto
  also have "\<dots> = to_ascii_lowercase s"
    using normalize_plain [OF assms(1,2)] assms(5) by auto
  also have "\<dots> = normalize_host name"
    using normalize_plain(2) [OF c(1) n] assms(4) by (simp add: to_ascii_lowercase_def)
  finally show ?thesis by (simp add: kind_of_def)
qed

lemma kind_of_any_spelling_witness:
  "kind_of (derive (lit ''bear'') (lit ''laptop'') (lit ''x.com'')) (lit ''BEAR.x.com.:443'')
    = Some Ui"
proof -
  have "kind_of (derive (lit ''bear'') (lit ''laptop'') (lit ''x.com''))
      (lit ''BEAR.x.com'' @ fst ([dot], colon # lit ''443'') @ snd ([dot], colon # lit ''443''))
    = kind_of (derive (lit ''bear'') (lit ''laptop'') (lit ''x.com'')) (lit ''bear.x.com'')"
    by (rule kind_of_any_spelling [where port = "lit ''443''"])
      (simp_all add: lit_def colon_def dot_def is_ascii_digit_def to_ascii_lowercase_def
        ascii_lower_char_def is_ascii_upper_def)
  then show ?thesis
    by (simp add: lit_def colon_def dot_def derive_def kind_of_def normalize_host_def
        rsplit_once_def strip_suffix_char_def to_ascii_lowercase_def ascii_lower_char_def
        is_ascii_upper_def)
qed

text \<open>The three names derived for a user and a slug are pairwise different, so that a host
  never names two surfaces at once, except for the user and slug both called \<open>workbench\<close>, whose
  instance name is the workbench name (and is then served as the workbench).\<close>

theorem derived_names_distinct:
  assumes "label user" "label slug"
  shows "distinct (all_names (derive user slug base)) \<longleftrightarrow>
    \<not> (user = lit ''workbench'' \<and> slug = lit ''workbench'')"
proof -
  have w: "dot \<notin> set (lit ''workbench'')" by (simp add: lit_def dot_def)
  have "user @ dot # base \<noteq> user @ dot # lit ''workbench'' @ dot # base"
    by (auto dest: arg_cong [where f = length])
  moreover have "user @ dot # base \<noteq> slug @ dot # user @ dot # base"
    by (auto dest: arg_cong [where f = length])
  moreover have "user @ dot # lit ''workbench'' @ dot # base = slug @ dot # user @ dot # base
      \<longleftrightarrow> user = slug \<and> lit ''workbench'' = user"
    using assms w by (simp add: label_def label_split)
  ultimately show ?thesis
    by (auto simp: all_names_def derive_def)
qed

lemma derived_names_distinct_witness:
  "distinct (all_names (derive (lit ''bear'') (lit ''laptop'') (lit ''x'')))"
  using derived_names_distinct [of "lit ''bear''" "lit ''laptop''" "lit ''x''"]
  by (simp add: label_def) (simp add: lit_def dot_def)

end
