(* ===== verification/Tunnel_Link.thy ===== *)
theory Tunnel_Link
  imports Tunnel_Frames Hostnames
begin

text \<open>
  The handler's request channel to the relay (\<open>crates/net/src/tunnel/v2/link.rs\<close>): pin grants and
  challenge claims waiting for an answer.

  Every request is a future that waits on a one-shot channel with a timeout, so it acts in three
  steps that other tasks may come between: it registers itself, it is answered (or its sender is
  dropped) or its timer runs out, and after a timeout it takes the lock once more to forget its
  registration. Grant requests are numbered here in the order they register, which names their
  one-shot channels.
\<close>

datatype claim_error = Busy | Timeout | Closed

datatype claim_reply = Granted | ClaimBusy

record pending_claim =
  pc_id :: nat
  pc_names :: "ustring set"

record pending =
  closed :: bool
  next_id :: nat
  grants :: "(ustring, nat) hmap" \<comment> \<open>purpose to the channel of its request\<close>
  claims :: "pending_claim list"

text \<open>The pending table together with the requests that still wait on their channels.\<close>

record link = pending +
  requests :: nat \<comment> \<open>grant requests so far\<close>
  grant_waiters :: "nat list"
  claim_waiters :: "nat list"

definition new_link :: link where
  "new_link = \<lparr>closed = False, next_id = 0, grants = [], claims = [], requests = 0,
     grant_waiters = [], claim_waiters = []\<rparr>"

datatype link_out =
    Sent v2frame \<comment> \<open>on the control queue\<close>
  | GrantDone nat "ustring + ustring" \<comment> \<open>what request number n returned\<close>
  | GrantRefused "ustring + ustring" \<comment> \<open>a request that returned without registering\<close>
  | ClaimDone nat "claim_error + unit"
  | ClaimRefused "claim_error + unit"

definition TUNNEL_LOST :: ustring where
  "TUNNEL_LOST = lit ''the connection to the relay was lost''"

section \<open>Channels\<close>

text \<open>A value sent, or the sender dropped: the request returns if it still waits.\<close>

definition complete_grant :: "nat \<Rightarrow> ustring + ustring \<Rightarrow> link \<Rightarrow> link \<times> link_out list" where
  "complete_grant r res l =
     (if r \<in> set (grant_waiters l)
      then (l\<lparr>grant_waiters := removeAll r (grant_waiters l)\<rparr>, [GrantDone r res]) else (l, []))"

definition complete_claim :: "nat \<Rightarrow> claim_error + unit \<Rightarrow> link \<Rightarrow> link \<times> link_out list" where
  "complete_claim c res l =
     (if c \<in> set (claim_waiters l)
      then (l\<lparr>claim_waiters := removeAll c (claim_waiters l)\<rparr>, [ClaimDone c res]) else (l, []))"

definition drop_grant_sender :: "nat \<Rightarrow> link \<Rightarrow> link \<times> link_out list" where
  "drop_grant_sender r = complete_grant r (Inl TUNNEL_LOST)"

definition drop_claim_sender :: "nat \<Rightarrow> link \<Rightarrow> link \<times> link_out list" where
  "drop_claim_sender c = complete_claim c (Inl Closed)"

section \<open>The relay's side\<close>

definition resolve_grant :: "ustring \<Rightarrow> ustring + ustring \<Rightarrow> link \<Rightarrow> link \<times> link_out list" where
  "resolve_grant purpose result l =
     (case hm_get (grants l) purpose of
        None \<Rightarrow> (l, [])
      | Some r \<Rightarrow> complete_grant r result (l\<lparr>grants := hm_remove purpose (grants l)\<rparr>))"

definition normal_names :: "ustring list \<Rightarrow> ustring set" where
  "normal_names names = set (map normalize_host names)"

definition resolve_claim :: "ustring list \<Rightarrow> bool \<Rightarrow> link \<Rightarrow> link \<times> link_out list" where
  "resolve_claim names granted l =
     (case position (\<lambda>c. pc_names c = normal_names names) (claims l) of
        None \<Rightarrow> (l, [])
      | Some i \<Rightarrow> complete_claim (pc_id (claims l ! i)) (if granted then Inr () else Inl Busy)
                    (l\<lparr>claims := remove_at i (claims l)\<rparr>))"

definition close :: "link \<Rightarrow> link \<times> link_out list" where
  "close l =
     (l\<lparr>closed := True, grants := [], claims := [],
        grant_waiters := filter (\<lambda>r. r \<notin> snd ` set (grants l)) (grant_waiters l),
        claim_waiters := filter (\<lambda>c. c \<notin> pc_id ` set (claims l)) (claim_waiters l)\<rparr>,
      map (\<lambda>r. GrantDone r (Inl TUNNEL_LOST))
          (filter (\<lambda>r. r \<in> snd ` set (grants l)) (grant_waiters l)) @
      map (\<lambda>c. ClaimDone c (Inl Closed))
          (filter (\<lambda>c. c \<in> pc_id ` set (claims l)) (claim_waiters l)))"

section \<open>The handler's side\<close>

definition request_grant :: "ustring \<Rightarrow> link \<Rightarrow> link \<times> link_out list" where
  "request_grant purpose l =
     (if closed l then (l, [GrantRefused (Inl TUNNEL_LOST)])
      else if hm_contains (grants l) purpose
        then (l, [GrantRefused (Inl (lit ''a '' @ purpose @
                lit '' grant request is already waiting for the relay''))])
      else (l\<lparr>grants := hm_insert purpose (requests l) (grants l),
              requests := Suc (requests l),
              grant_waiters := grant_waiters l @ [requests l]\<rparr>,
            [Sent (PinGrantRequest purpose)]))"

text \<open>The timer of a waiting grant request: the channel is given up before the lock is taken.\<close>

definition grant_timeout :: "nat \<Rightarrow> link \<Rightarrow> link \<times> link_out list" where
  "grant_timeout r =
     complete_grant r (Inl (lit ''the relay did not answer the grant request in time''))"

definition grant_forget :: "ustring \<Rightarrow> link \<Rightarrow> link \<times> link_out list" where
  "grant_forget purpose l =
     (case hm_get (grants l) purpose of
        None \<Rightarrow> (l, [])
      | Some r \<Rightarrow> drop_grant_sender r (l\<lparr>grants := hm_remove purpose (grants l)\<rparr>))"

definition claim_challenge :: "ustring list \<Rightarrow> link \<Rightarrow> link \<times> link_out list" where
  "claim_challenge names l =
     (if closed l then (l, [ClaimRefused (Inl Closed)])
      else let i = Suc (next_id l)
           in (l\<lparr>next_id := i,
                 claims := claims l @ [\<lparr>pc_id = i, pc_names = normal_names names\<rparr>],
                 claim_waiters := claim_waiters l @ [i]\<rparr>,
               [Sent (ChallengeClaim names)]))"

definition claim_timeout :: "nat \<Rightarrow> link \<Rightarrow> link \<times> link_out list" where
  "claim_timeout c = complete_claim c (Inl Timeout)"

text \<open>\<open>retain(|c| c.id != id)\<close>; the senders it drops belong to the claim that forgets.\<close>

definition claim_forget :: "nat \<Rightarrow> link \<Rightarrow> link \<times> link_out list" where
  "claim_forget c l =
     drop_claim_sender c (l\<lparr>claims := filter (\<lambda>p. pc_id p \<noteq> c) (claims l)\<rparr>)"

definition release_challenge :: "ustring list \<Rightarrow> link \<Rightarrow> link \<times> link_out list" where
  "release_challenge names l = (l, if closed l then [] else [Sent (ChallengeRelease names)])"

definition activate_instance :: "ustring \<Rightarrow> link \<Rightarrow> link \<times> link_out list" where
  "activate_instance slug l = (l, if closed l then [] else [Sent (ActivateInstance slug)])"

section \<open>The link as a machine\<close>

datatype link_op =
    RequestGrant ustring
  | GrantAnswer ustring "ustring + ustring"
  | GrantTimeout nat
  | GrantForget ustring
  | ClaimChallenge "ustring list"
  | ClaimAnswer "ustring list" bool
  | ClaimTimeout nat
  | ClaimForget nat
  | CloseLink
  | ReleaseChallenge "ustring list"
  | Activate ustring

fun link_step :: "link \<Rightarrow> link_op \<Rightarrow> link \<times> link_out list" where
  "link_step l (RequestGrant p) = request_grant p l"
| "link_step l (GrantAnswer p res) = resolve_grant p res l"
| "link_step l (GrantTimeout r) = grant_timeout r l"
| "link_step l (GrantForget p) = grant_forget p l"
| "link_step l (ClaimChallenge names) = claim_challenge names l"
| "link_step l (ClaimAnswer names g) = resolve_claim names g l"
| "link_step l (ClaimTimeout c) = claim_timeout c l"
| "link_step l (ClaimForget c) = claim_forget c l"
| "link_step l CloseLink = close l"
| "link_step l (ReleaseChallenge names) = release_challenge names l"
| "link_step l (Activate slug) = activate_instance slug l"

abbreviation link_run :: "link \<Rightarrow> link_op list \<Rightarrow> link \<times> link_out list list" where
  "link_run \<equiv> run_machine link_step"

section \<open>The invariant\<close>

text \<open>
  Every waiting request is registered, so that an answer or the end of the tunnel reaches it; each
  registration is for one request; a closed link has none.
\<close>

definition link_inv :: "link \<Rightarrow> bool" where
  "link_inv l \<longleftrightarrow>
     hm_wf (grants l) \<and> distinct (map snd (grants l)) \<and> distinct (grant_waiters l) \<and>
     set (grant_waiters l) \<subseteq> snd ` set (grants l) \<and> (\<forall>r\<in>snd ` set (grants l). r < requests l) \<and>
     distinct (map pc_id (claims l)) \<and> distinct (claim_waiters l) \<and>
     set (claim_waiters l) \<subseteq> pc_id ` set (claims l) \<and> (\<forall>c\<in>pc_id ` set (claims l). c \<le> next_id l) \<and>
     (closed l \<longrightarrow> grants l = [] \<and> claims l = [])"

lemma link_inv_new: "link_inv new_link"
  by (simp add: link_inv_def new_link_def)

lemma complete_grant_frame [simp]:
  "grants (fst (complete_grant r res l)) = grants l" "claims (fst (complete_grant r res l)) = claims l"
  "closed (fst (complete_grant r res l)) = closed l" "requests (fst (complete_grant r res l)) = requests l"
  "next_id (fst (complete_grant r res l)) = next_id l"
  "claim_waiters (fst (complete_grant r res l)) = claim_waiters l"
  "grant_waiters (fst (complete_grant r res l)) = removeAll r (grant_waiters l)"
  by (auto simp: complete_grant_def)

lemma complete_claim_frame [simp]:
  "grants (fst (complete_claim c res l)) = grants l" "claims (fst (complete_claim c res l)) = claims l"
  "closed (fst (complete_claim c res l)) = closed l" "requests (fst (complete_claim c res l)) = requests l"
  "next_id (fst (complete_claim c res l)) = next_id l"
  "grant_waiters (fst (complete_claim c res l)) = grant_waiters l"
  "claim_waiters (fst (complete_claim c res l)) = removeAll c (claim_waiters l)"
  by (auto simp: complete_claim_def)

declare distinct_removeAll [simp]

text \<open>Taking a registration out of the table keeps everybody else's.\<close>

lemma grants_without:
  assumes "hm_wf m" "distinct (map snd m)" "hm_get m p = Some r"
  shows "snd ` set (hm_remove p m) = snd ` set m - {r}" "distinct (map snd (hm_remove p m))"
proof -
  have pr: "(p, r) \<in> set m" using assms(3) by (rule hm_get_mem)
  have same: "k = p \<longleftrightarrow> v = r" if "(k, v) \<in> set m" for k v
  proof
    assume "k = p"
    then show "v = r" using hm_get_wf [OF assms(1)] that pr by (metis option.inject)
  next
    assume "v = r"
    then show "k = p"
      using assms(2) that pr by (metis distinct_map inj_onD prod.inject snd_conv)
  qed
  show "snd ` set (hm_remove p m) = snd ` set m - {r}"
    using same by (force simp: hm_remove_def)
  show "distinct (map snd (hm_remove p m))"
    unfolding hm_remove_def by (rule distinct_map_filter [OF assms(2)])
qed

lemma claims_without:
  assumes "distinct (map pc_id cs)" "i < length cs"
  shows "pc_id ` set (remove_at i cs) = pc_id ` set cs - {pc_id (cs ! i)}"
proof -
  have e: "cs = take i cs @ cs ! i # drop (Suc i) cs" using assms(2) by (rule id_take_nth_drop)
  have s: "set cs = insert (cs ! i) (set (take i cs) \<union> set (drop (Suc i) cs))"
    by (subst (1) e) (simp only: set_append list.set Un_insert_right)
  have "distinct (map pc_id (take i cs) @ pc_id (cs ! i) # map pc_id (drop (Suc i) cs))"
    using assms(1) e by (metis list.simps(9) map_append)
  then show ?thesis unfolding s remove_at_def by (auto, (metis imageI)+)
qed

lemma grant_removed_inv:
  assumes "link_inv l" "hm_get (grants l) p = Some r"
  shows "link_inv (fst (complete_grant r res (l\<lparr>grants := hm_remove p (grants l)\<rparr>)))"
proof -
  note i = assms(1) [unfolded link_inv_def]
  have g: "snd ` set (hm_remove p (grants l)) = snd ` set (grants l) - {r}"
      "distinct (map snd (hm_remove p (grants l)))"
    using grants_without [OF _ _ assms(2)] i by auto
  have "grants l \<noteq> []" using assms(2) by auto
  with i g show ?thesis by (auto simp: link_inv_def)
qed

lemma claim_removed_inv:
  assumes "link_inv l" "i < length (claims l)"
  shows "link_inv (fst (complete_claim (pc_id (claims l ! i)) res
    (l\<lparr>claims := remove_at i (claims l)\<rparr>)))"
proof -
  note inv = assms(1) [unfolded link_inv_def]
  have "pc_id ` set (remove_at i (claims l)) = pc_id ` set (claims l) - {pc_id (claims l ! i)}"
    using inv assms(2) by (intro claims_without) auto
  moreover have "distinct (map pc_id (remove_at i (claims l)))"
    using inv by (intro distinct_remove_at) auto
  moreover have "claims l \<noteq> []" using assms(2) by auto
  ultimately show ?thesis using inv by (auto simp: link_inv_def)
qed

lemma completed_inv:
  "link_inv l \<Longrightarrow> link_inv (fst (complete_grant r res l))"
  "link_inv l \<Longrightarrow> link_inv (fst (complete_claim c cres l))"
  by (auto simp: link_inv_def)

lemma close_inv: "link_inv l \<Longrightarrow> link_inv (fst (close l))"
  by (auto simp: link_inv_def close_def)

text \<open>The next number of a request is not in use.\<close>

lemma fresh_waiters:
  assumes "link_inv l"
  shows "requests l \<notin> set (grant_waiters l)" "Suc (next_id l) \<notin> set (claim_waiters l)"
    "Suc (next_id l) \<notin> pc_id ` set (claims l)"
  using assms by (force simp: link_inv_def)+

lemma request_grant_inv: "link_inv l \<Longrightarrow> link_inv (fst (request_grant p l))"
proof -
  assume i: "link_inv l"
  show ?thesis
  proof (cases "closed l \<or> hm_contains (grants l) p")
    case True
    then show ?thesis using i by (auto simp: request_grant_def)
  next
    case False
    then have n: "p \<notin> fst ` set (grants l)" by (simp add: hm_contains_get hm_get_None)
    then have "hm_insert p (requests l) (grants l) = grants l @ [(p, requests l)]"
      by (simp add: hm_insert_new)
    with i False n fresh_waiters [OF i] show ?thesis
      by (auto simp: request_grant_def link_inv_def hm_wf_def)
  qed
qed

lemma claim_challenge_inv: "link_inv l \<Longrightarrow> link_inv (fst (claim_challenge names l))"
proof -
  assume i: "link_inv l"
  then show ?thesis
    using fresh_waiters [OF i] by (auto simp: claim_challenge_def link_inv_def Let_def)
qed

lemma claim_forget_inv: "link_inv l \<Longrightarrow> link_inv (fst (claim_forget c l))"
  by (auto simp: claim_forget_def drop_claim_sender_def link_inv_def intro: distinct_map_filter)

lemma link_step_inv: "link_inv l \<Longrightarrow> link_inv (fst (link_step l op))"
proof (cases op)
  case (GrantAnswer p res)
  then show "link_inv l \<Longrightarrow> ?thesis"
    by (simp add: resolve_grant_def grant_removed_inv split: option.split)
next
  case (GrantForget p)
  then show "link_inv l \<Longrightarrow> ?thesis"
    by (simp add: grant_forget_def drop_grant_sender_def grant_removed_inv split: option.split)
next
  case (ClaimAnswer names g)
  then show "link_inv l \<Longrightarrow> ?thesis"
    by (simp add: resolve_claim_def claim_removed_inv position_Some split: option.split)
qed (simp_all add: request_grant_inv grant_timeout_def claim_challenge_inv claim_timeout_def
    completed_inv claim_forget_inv close_inv release_challenge_def activate_instance_def)

interpretation link: machine link_step link_inv
  by unfold_locales (rule link_step_inv)


section \<open>Every request returns once\<close>

fun is_done :: "nat \<Rightarrow> link_out \<Rightarrow> bool" where
  "is_done r (GrantDone r' res) \<longleftrightarrow> r' = r"
| "is_done r _ \<longleftrightarrow> False"

fun is_claim_done :: "nat \<Rightarrow> link_out \<Rightarrow> bool" where
  "is_claim_done c (ClaimDone c' res) \<longleftrightarrow> c' = c"
| "is_claim_done c _ \<longleftrightarrow> False"

definition returns_of :: "nat \<Rightarrow> link_out list \<Rightarrow> nat" where
  "returns_of r outs = length (filter (is_done r) outs)"

definition claim_returns_of :: "nat \<Rightarrow> link_out list \<Rightarrow> nat" where
  "claim_returns_of c outs = length (filter (is_claim_done c) outs)"

text \<open>A request may return once more while it waits or has not been made.\<close>

definition may_return :: "nat \<Rightarrow> link \<Rightarrow> nat" where
  "may_return r l = (if r \<in> set (grant_waiters l) \<or> requests l \<le> r then 1 else 0)"

definition may_claim_return :: "nat \<Rightarrow> link \<Rightarrow> nat" where
  "may_claim_return c l = (if c \<in> set (claim_waiters l) \<or> next_id l < c then 1 else 0)"

lemma filter_done_map [simp]:
  "filter (is_done r) (map (\<lambda>x. GrantDone x res) xs) = map (\<lambda>x. GrantDone x res) (filter (\<lambda>x. x = r) xs)"
  "filter (is_done r) (map (\<lambda>x. ClaimDone x cres) xs) = []"
  "filter (is_claim_done c) (map (\<lambda>x. ClaimDone x cres) xs)
     = map (\<lambda>x. ClaimDone x cres) (filter (\<lambda>x. x = c) xs)"
  "filter (is_claim_done c) (map (\<lambda>x. GrantDone x res) xs) = []"
  by (induction xs) auto

lemma distinct_filter_eq:
  "distinct xs \<Longrightarrow> length (filter (\<lambda>x. P x \<and> x = r) xs) = (if r \<in> set xs \<and> P r then 1 else 0)"
  by (induction xs) auto

lemma complete_grant_returns:
  "returns_of r (snd (complete_grant r' res l)) = (if r = r' \<and> r \<in> set (grant_waiters l) then 1 else 0)"
  "claim_returns_of c (snd (complete_grant r' res l)) = 0"
  by (simp_all add: complete_grant_def returns_of_def claim_returns_of_def)

lemma complete_claim_returns:
  "claim_returns_of c (snd (complete_claim c' res l)) = (if c = c' \<and> c \<in> set (claim_waiters l) then 1 else 0)"
  "returns_of r (snd (complete_claim c' res l)) = 0"
  by (simp_all add: complete_claim_def returns_of_def claim_returns_of_def)

lemmas returns_simps = complete_grant_returns complete_claim_returns

lemma waiters_numbered:
  assumes "link_inv l"
  shows "r \<in> set (grant_waiters l) \<Longrightarrow> r < requests l" "c \<in> set (claim_waiters l) \<Longrightarrow> c \<le> next_id l"
  using assms by (force simp: link_inv_def)+

lemma close_frame [simp]:
  "requests (fst (close l)) = requests l" "next_id (fst (close l)) = next_id l"
  by (simp_all add: close_def)

lemma close_returns:
  assumes "link_inv l"
  shows "returns_of r (snd (close l)) = (if r \<in> set (grant_waiters l) then 1 else 0)"
    "claim_returns_of c (snd (close l)) = (if c \<in> set (claim_waiters l) then 1 else 0)"
    "grant_waiters (fst (close l)) = []" "claim_waiters (fst (close l)) = []"
proof -
  have i: "distinct (grant_waiters l)" "distinct (claim_waiters l)"
    "set (grant_waiters l) \<subseteq> snd ` set (grants l)" "set (claim_waiters l) \<subseteq> pc_id ` set (claims l)"
    using assms by (auto simp: link_inv_def)
  show "returns_of r (snd (close l)) = (if r \<in> set (grant_waiters l) then 1 else 0)"
    using i(3) distinct_filter_eq [OF i(1), of "\<lambda>x. x \<in> snd ` set (grants l)" r]
    by (auto simp: returns_of_def close_def)
  show "claim_returns_of c (snd (close l)) = (if c \<in> set (claim_waiters l) then 1 else 0)"
    using i(4) distinct_filter_eq [OF i(2), of "\<lambda>x. x \<in> pc_id ` set (claims l)" c]
    by (auto simp: claim_returns_of_def close_def)
  show "grant_waiters (fst (close l)) = []" "claim_waiters (fst (close l)) = []"
    using i(3,4) by (auto simp: close_def filter_empty_conv)
qed

lemma link_returns_budget:
  assumes "link_inv l"
  shows "returns_of r (snd (link_step l op)) + may_return r (fst (link_step l op)) \<le> may_return r l"
proof -
  note w = waiters_numbered(1) [OF assms, of r]
  show ?thesis
  proof (cases op)
    case CloseLink
    then show ?thesis
      using close_returns(1,3) [OF assms] w by (auto simp: may_return_def)
  qed (use w in \<open>auto simp: may_return_def returns_simps resolve_grant_def resolve_claim_def
      request_grant_def grant_timeout_def grant_forget_def drop_grant_sender_def
      claim_challenge_def claim_timeout_def claim_forget_def drop_claim_sender_def
      release_challenge_def activate_instance_def Let_def returns_of_def [of r "[]"]
      returns_of_def [of r "[x]" for x] split: option.split\<close>)
qed

lemma claim_returns_budget:
  assumes "link_inv l"
  shows "claim_returns_of c (snd (link_step l op)) + may_claim_return c (fst (link_step l op))
    \<le> may_claim_return c l"
proof -
  note w = waiters_numbered(2) [OF assms, of c]
  show ?thesis
  proof (cases op)
    case CloseLink
    then show ?thesis
      using close_returns(2,4) [OF assms] w by (auto simp: may_claim_return_def)
  qed (use w in \<open>auto simp: may_claim_return_def returns_simps resolve_grant_def resolve_claim_def
      request_grant_def grant_timeout_def grant_forget_def drop_grant_sender_def
      claim_challenge_def claim_timeout_def claim_forget_def drop_claim_sender_def
      release_challenge_def activate_instance_def Let_def claim_returns_of_def [of c "[]"]
      claim_returns_of_def [of c "[x]" for x] split: option.split\<close>)
qed

interpretation grant_returns: budget_machine link_step link_inv "returns_of r" "may_return r" "\<lambda>_. 0"
  by unfold_locales (simp add: link_returns_budget)

interpretation claim_returns: budget_machine link_step link_inv "claim_returns_of c" "may_claim_return c"
    "\<lambda>_. 0"
  by unfold_locales (simp add: claim_returns_budget)

section \<open>A closed link\<close>

fun is_sent :: "link_out \<Rightarrow> bool" where
  "is_sent (Sent f) \<longleftrightarrow> True"
| "is_sent _ \<longleftrightarrow> False"

definition link_dead :: "link \<Rightarrow> bool" where
  "link_dead l \<longleftrightarrow> closed l \<and> grants l = [] \<and> claims l = [] \<and> grant_waiters l = [] \<and> claim_waiters l = []"

lemma close_dead: "link_inv l \<Longrightarrow> link_dead (fst (close l))"
  using close_returns(3,4) [of l] by (simp add: link_dead_def) (simp add: close_def)

lemma dead_step:
  "link_dead l \<Longrightarrow> fst (link_step l op) = l \<and> list_all (Not \<circ> is_sent) (snd (link_step l op))"
  by (cases op) (auto simp: link_dead_def resolve_grant_def resolve_claim_def request_grant_def
      grant_timeout_def grant_forget_def claim_challenge_def claim_timeout_def claim_forget_def
      drop_claim_sender_def complete_grant_def complete_claim_def close_def
      release_challenge_def activate_instance_def)

lemma dead_run:
  "link_dead l \<Longrightarrow> fst (link_run l ops) = l \<and> list_all (list_all (Not \<circ> is_sent)) (snd (link_run l ops))"
  by (induction ops) (simp_all add: dead_step)

section \<open>Properties\<close>

text \<open>Whatever order requests, answers, timeouts and the end of the tunnel come in, every pin
  grant request and every challenge claim returns to its caller at most once.\<close>

theorem requests_return_once:
  "sum_list (map (returns_of r) (snd (link_run new_link ops))) \<le> 1 \<and>
   sum_list (map (claim_returns_of c) (snd (link_run new_link ops))) \<le> 1"
proof -
  have "may_return r new_link \<le> 1" "may_claim_return c new_link \<le> 1"
    "(\<Sum>_\<leftarrow>ops. 0) = (0 :: nat)"
    by (simp_all add: may_return_def may_claim_return_def)
  then show ?thesis
    using grant_returns.run_budget [OF link_inv_new, of r ops]
      claim_returns.run_budget [OF link_inv_new, of c ops] by (intro conjI) linarith+
qed

text \<open>When the tunnel ends nobody is left waiting: every request and claim that still waits
  returns at that moment, and from then on, whatever is asked, nothing is registered and nothing is
  sent to the relay.\<close>

theorem close_fails_every_waiter:
  fixes ops later
  defines "l \<equiv> fst (link_run new_link ops)"
  shows "(\<forall>r\<in>set (grant_waiters l). returns_of r (snd (link_step l CloseLink)) = 1) \<and>
    (\<forall>c\<in>set (claim_waiters l). claim_returns_of c (snd (link_step l CloseLink)) = 1) \<and>
    fst (link_run (fst (link_step l CloseLink)) later) = fst (link_step l CloseLink) \<and>
    link_dead (fst (link_step l CloseLink)) \<and>
    list_all (list_all (Not \<circ> is_sent)) (snd (link_run (fst (link_step l CloseLink)) later))"
proof -
  have i: "link_inv l" unfolding l_def by (rule link.run_inv [OF link_inv_new])
  show ?thesis
    using close_returns(1,2) [OF i] close_dead [OF i] dead_run [OF close_dead [OF i], of later]
    by simp
qed

definition sample_link_ops :: "link_op list" where
  "sample_link_ops = [RequestGrant (lit ''enroll''), ClaimChallenge [lit ''a'']]"

lemma sample_link_run:
  "fst (link_run new_link sample_link_ops) =
     \<lparr>closed = False, next_id = 1, grants = [(lit ''enroll'', 0)],
      claims = [\<lparr>pc_id = 1, pc_names = normal_names [lit ''a'']\<rparr>], requests = 1,
      grant_waiters = [0], claim_waiters = [1]\<rparr>"
  by (simp add: sample_link_ops_def new_link_def request_grant_def claim_challenge_def Let_def
      hm_contains_def hm_insert_def)

lemma close_fails_every_waiter_witness:
  "returns_of 0 (snd (link_step (fst (link_run new_link sample_link_ops)) CloseLink)) = 1"
  using close_fails_every_waiter [of sample_link_ops "[]"] by (simp add: sample_link_run)

text \<open>A challenge answer reaches the right claim: it completes a claim only if the claim's
  names, compared as host names whatever their case, port or trailing dot, are the names of the
  answer, it is the earliest such claim, and a waiting one is always found.\<close>

theorem claim_answer_reaches_its_claim:
  fixes ops names granted
  defines "l \<equiv> fst (link_run new_link ops)"
  shows "(snd (resolve_claim names granted l) = [] \<or>
      (\<exists>i < length (claims l). pc_names (claims l ! i) = normal_names names \<and>
         (\<forall>j < i. pc_names (claims l ! j) \<noteq> normal_names names) \<and>
         snd (resolve_claim names granted l)
           = [ClaimDone (pc_id (claims l ! i)) (if granted then Inr () else Inl Busy)])) \<and>
    (\<forall>c\<in>set (claim_waiters l). \<exists>p\<in>set (claims l). pc_id p = c \<and>
      position (\<lambda>c. pc_names c = pc_names p) (claims l) \<noteq> None)"
proof
  have i: "link_inv l" unfolding l_def by (rule link.run_inv [OF link_inv_new])
  show "snd (resolve_claim names granted l) = [] \<or>
      (\<exists>i < length (claims l). pc_names (claims l ! i) = normal_names names \<and>
         (\<forall>j < i. pc_names (claims l ! j) \<noteq> normal_names names) \<and>
         snd (resolve_claim names granted l)
           = [ClaimDone (pc_id (claims l ! i)) (if granted then Inr () else Inl Busy)])"
  proof (cases "position (\<lambda>c. pc_names c = normal_names names) (claims l)")
    case None
    then show ?thesis by (simp add: resolve_claim_def)
  next
    case (Some k)
    have k: "k < length (claims l)" "pc_names (claims l ! k) = normal_names names"
      using position_Some [OF Some] by auto
    moreover have "\<forall>j < k. pc_names (claims l ! j) \<noteq> normal_names names"
      using position_first [OF Some] by blast
    ultimately show ?thesis
      using Some by (auto simp: resolve_claim_def complete_claim_def intro!: exI [where x = k])
  qed
  have "position (\<lambda>c. pc_names c = pc_names p) (claims l) \<noteq> None" if "p \<in> set (claims l)" for p
    using that by (auto simp: position_None)
  moreover have "set (claim_waiters l) \<subseteq> pc_id ` set (claims l)"
    using i by (simp add: link_inv_def)
  ultimately show "\<forall>c\<in>set (claim_waiters l). \<exists>p\<in>set (claims l). pc_id p = c \<and>
      position (\<lambda>c. pc_names c = pc_names p) (claims l) \<noteq> None" by blast
qed

lemma claim_answer_reaches_its_claim_witness:
  "\<exists>p\<in>set (claims (fst (link_run new_link sample_link_ops))). pc_id p = 1"
  using claim_answer_reaches_its_claim [of "[]" True sample_link_ops] by (simp add: sample_link_run)

text \<open>A grant request can be failed by the timeout of an earlier one. A timed-out request
  forgets whatever is registered under its purpose, not its own registration: when the relay
  answers between the timer and that last step and the next request for the purpose registers,
  it is that live request which is removed, and it returns \<open>the connection to the relay was
  lost\<close> although the tunnel is up and the relay never answered it. Challenge claims, which are
  forgotten by their number, do not have this.\<close>

theorem stale_timeout_fails_next_request:
  "let r = link_run new_link [RequestGrant p, GrantTimeout 0, GrantAnswer p res, RequestGrant p,
       GrantForget p]
   in last (snd r) = [GrantDone 1 (Inl TUNNEL_LOST)] \<and> \<not> closed (fst r) \<and>
      (\<forall>l c c'. c' \<noteq> c \<longrightarrow> claim_returns_of c' (snd (claim_forget c l)) = 0)"
  by (simp add: new_link_def request_grant_def grant_timeout_def resolve_grant_def
      grant_forget_def drop_grant_sender_def complete_grant_def hm_contains_get hm_insert_def
      hm_remove_def hm_get_def claim_forget_def drop_claim_sender_def complete_claim_returns)

lemma stale_timeout_fails_next_request_witness:
  "claim_returns_of 2 (snd (claim_forget 1 new_link)) = 0"
  using stale_timeout_fails_next_request [of "[]" "Inl []"] by (simp add: Let_def)

end
