(* ===== verification/Tunnel_Session.thy ===== *)
theory Tunnel_Session
  imports Tunnel_Stream Tunnel_Link
begin

text \<open>
  The live streams of a tunnel and the session that drives them
  (\<open>crates/net/src/tunnel/v2/stream.rs\<close>, \<open>StreamTable\<close>; \<open>session.rs\<close>; the types of \<open>mod.rs\<close>).

  A stream is shared between the table and its handle, so streams live in a list of cells; the
  table maps an id to the number of its cell, and a handle is the number of its cell. The
  branches of the session's \<open>select!\<close> are the events of a machine, each with its guard; what the
  consumers of the streams and the callers of the link do comes between them as further events.
\<close>

section \<open>The stream table\<close>

datatype open_error = TooManyStreams | TableClosed | Duplicate

record stream_table =
  cells :: "(uuid \<times> inner) list"
  streams :: "(uuid, nat) hmap"
  table_closed :: bool

datatype tunnel_status =
    Disconnected
  | Connecting
  | RefusedToken
  | ConnectedTo ustring "ustring option" "ustring option" "ustring option" "ustring option"
      \<comment> \<open>user_id, origin, workbench_origin, instance, instance_origin\<close>

datatype session_out =
    Out v2frame \<comment> \<open>a frame of the session on the control queue\<close>
  | OutClose \<comment> \<open>the websocket close on the control queue\<close>
  | CellOut nat stream_out
  | LinkOut link_out
  | OnStream ustring ustring nat \<comment> \<open>host, peer and the handle given to the handler\<close>
  | OnInstances "instance_summary list"
  | OnDisconnected
  | Published tunnel_status

definition table_open :: "instant \<Rightarrow> uuid \<Rightarrow> 'a stream_table_scheme \<Rightarrow> (open_error + nat) \<times> 'a stream_table_scheme"
where
  "table_open now sid t =
     (if table_closed t then (Inl TableClosed, t)
      else if hm_contains (streams t) sid then (Inl Duplicate, t)
      else if length (streams t) \<ge> MAX_STREAMS then (Inl TooManyStreams, t)
      else (Inr (length (cells t)),
            t\<lparr>cells := cells t @ [(sid, new_inner now)],
              streams := hm_insert sid (length (cells t)) (streams t)\<rparr>))"

definition table_get :: "uuid \<Rightarrow> 'a stream_table_scheme \<Rightarrow> nat option" where
  "table_get sid t = hm_get (streams t) sid"

definition table_remove :: "uuid \<Rightarrow> 'a stream_table_scheme \<Rightarrow> 'a stream_table_scheme" where
  "table_remove sid t = t\<lparr>streams := hm_remove sid (streams t)\<rparr>"

text \<open>An operation on one stream through its shared cell.\<close>

definition on_cell :: "nat \<Rightarrow> stream_op \<Rightarrow> 'a stream_table_scheme \<Rightarrow> 'a stream_table_scheme \<times> session_out list"
where
  "on_cell c op t =
     (if c < length (cells t)
      then let (sid, s) = cells t ! c; (s', outs) = stream_step sid s op
           in (t\<lparr>cells := (cells t)[c := (sid, s')]\<rparr>, map (CellOut c) outs)
      else (t, []))"

fun on_cells :: "nat list \<Rightarrow> stream_op \<Rightarrow> 'a stream_table_scheme \<Rightarrow> 'a stream_table_scheme \<times> session_out list"
where
  "on_cells [] op t = (t, [])"
| "on_cells (c # cs) op t =
     (let (t1, o1) = on_cell c op t; (t2, o2) = on_cells cs op t1 in (t2, o1 @ o2))"

definition close_all :: "'a stream_table_scheme \<Rightarrow> 'a stream_table_scheme \<times> session_out list" where
  "close_all t =
     on_cells (map snd (streams t)) (Reset (lit ''the relay connection ended'') False)
       (t\<lparr>table_closed := True, streams := []\<rparr>)"

definition idle_streams :: "instant \<Rightarrow> 'a stream_table_scheme \<Rightarrow> (uuid \<times> nat) list" where
  "idle_streams now t = filter (\<lambda>(sid, c). idle_for now (snd (cells t ! c)) \<ge> IDLE_LIMIT) (streams t)"

fun close_idle :: "(uuid \<times> nat) list \<Rightarrow> 'a stream_table_scheme \<Rightarrow> 'a stream_table_scheme \<times> session_out list"
where
  "close_idle [] t = (t, [])"
| "close_idle ((sid, c) # rest) t =
     (let (t1, o1) = on_cell c (Reset (lit ''idle'') True) (table_remove sid t);
          (t2, o2) = close_idle rest t1
      in (t2, o1 @ o2))"

definition sweep_idle :: "instant \<Rightarrow> 'a stream_table_scheme \<Rightarrow> 'a stream_table_scheme \<times> session_out list"
where
  "sweep_idle now t = close_idle (idle_streams now t) t"

text \<open>
  The consumer's operations on a handle. Shutting down (unless it has to wait) and dropping also
  take the stream's id out of the table.
\<close>

definition leaves_table :: "stream_op \<Rightarrow> inner \<Rightarrow> bool" where
  "leaves_table op s =
     (case op of
        PollShutdown rsv ok \<Rightarrow> close_settled s \<or> rsv \<noteq> Reserve_Pending
      | DropIo ts \<Rightarrow> True
      | _ \<Rightarrow> False)"

definition consumer_op :: "stream_op \<Rightarrow> bool" where
  "consumer_op op =
     (case op of PollRead _ _ \<Rightarrow> True | PollWrite _ _ _ _ \<Rightarrow> True | PollShutdown _ _ \<Rightarrow> True
               | DropIo _ \<Rightarrow> True | _ \<Rightarrow> False)"

definition consumer :: "nat \<Rightarrow> stream_op \<Rightarrow> 'a stream_table_scheme \<Rightarrow> 'a stream_table_scheme \<times> session_out list"
where
  "consumer c op t =
     (if consumer_op op \<and> c < length (cells t)
      then let (sid, s) = cells t ! c; (t1, outs) = on_cell c op t
           in (if leaves_table op s then table_remove sid t1 else t1, outs)
      else (t, []))"

section \<open>The session\<close>

datatype session_end =
    EndShutdown
  | EndRefused
  | EndLost ustring bool \<comment> \<open>reason, accepted\<close>
  | Panicked

datatype verdict =
    Accept ustring ustring "ustring option" "ustring option" "ustring option"
      \<comment> \<open>user, instance, ui_origin, workbench_origin, instance_origin\<close>
  | Refuse ustring

datatype ws_message =
    TextMsg "v2frame option" \<comment> \<open>None: not a frame\<close>
  | BinaryMsg "byte list"
  | CloseMsg
  | OtherMsg

datatype read_result = Message ws_message | ReadError ustring | ReadEnd

record session = stream_table +
  lnk :: link
  accepted :: bool
  verdict_done :: bool
  agents_open :: bool
  agents :: "agent_info list" \<comment> \<open>the watched agent list\<close>
  agents_unseen :: bool
  agents_dropped :: bool
  last_frame :: instant
  keepalive_timeout :: nat
  session_end :: "session_end option"

text \<open>
  The keepalive timeout: \<open>keepalive_interval_secs.max(1) * 3\<close> on \<open>u64\<close>, with the wrap of a release
  build; \<open>Instant + Duration\<close> panics when the seconds leave the range of \<open>i64\<close>.
\<close>

definition keepalive_secs :: "u64 \<Rightarrow> u64" where
  "keepalive_secs k = max k 1 * 3"

definition keepalive_overflows :: "u64 \<Rightarrow> bool" where
  "keepalive_overflows k \<longleftrightarrow> unat (max k 1) * 3 \<ge> 2 ^ 64"

definition instant_add :: "instant \<Rightarrow> nat \<Rightarrow> instant option" where
  "instant_add t d = (if (t + d) div nanos_per_sec < 2 ^ 63 then Some (t + d) else None)"

text \<open>The top of the loop computes the keepalive deadline before it waits.\<close>

definition loop_top :: "session \<Rightarrow> session" where
  "loop_top s =
     (if session_end s = None \<and> instant_add (last_frame s) (keepalive_timeout s) = None
      then s\<lparr>session_end := Some Panicked\<rparr> else s)"

definition new_session :: "instant \<Rightarrow> u64 \<Rightarrow> agent_info list \<Rightarrow> session" where
  "new_session now keepalive as = loop_top
     \<lparr>cells = [], streams = [], table_closed = False, lnk = new_link, accepted = False,
      verdict_done = False, agents_open = True, agents = as, agents_unseen = False,
      agents_dropped = False, last_frame = now,
      keepalive_timeout = unat (keepalive_secs keepalive) * nanos_per_sec,
      session_end = None\<rparr>"

section \<open>The handshake\<close>

definition no_connected :: ustring where
  "no_connected = lit ''the relay closed the connection before sending connected''"

fun wait_for_connected :: "read_result list \<Rightarrow> (ustring + v2frame) option" where
  "wait_for_connected [] = None" \<comment> \<open>still waiting\<close>
| "wait_for_connected (Message (TextMsg (Some (Connected user slug ka hosts url tok))) # _) =
     Some (Inr (Connected user slug ka hosts url tok))"
| "wait_for_connected (Message CloseMsg # _) = Some (Inl no_connected)"
| "wait_for_connected (Message _ # rest) = wait_for_connected rest"
| "wait_for_connected (ReadError e # _) =
     Some (Inl (lit ''websocket error during the handshake: '' @ e))"
| "wait_for_connected (ReadEnd # _) = Some (Inl no_connected)"

section \<open>Frames\<close>

definition reject :: "uuid \<Rightarrow> string \<Rightarrow> session_out" where
  "reject sid reason = Out (StreamClose sid (Some (lit reason)))"

definition open_stream :: "instant \<Rightarrow> uuid \<Rightarrow> ustring \<Rightarrow> ustring \<Rightarrow> session \<Rightarrow> session \<times> session_out list"
where
  "open_stream now sid host peer s =
     (if \<not> accepted s then (s, [reject sid ''instance not ready''])
      else (case table_open now sid s of
          (Inr c, s') \<Rightarrow> (s', [OnStream host peer c])
        | (Inl TooManyStreams, s') \<Rightarrow> (s', [reject sid ''too many streams''])
        | (Inl Duplicate, s') \<Rightarrow> (s', [])
        | (Inl TableClosed, s') \<Rightarrow> (s', [reject sid ''tunnel closing''])))"

definition on_link :: "(link \<Rightarrow> link \<times> link_out list) \<Rightarrow> session \<Rightarrow> session \<times> session_out list" where
  "on_link f s = (let (l, outs) = f (lnk s) in (s\<lparr>lnk := l\<rparr>, map LinkOut outs))"

fun handle_frame :: "instant \<Rightarrow> v2frame \<Rightarrow> session \<Rightarrow> session \<times> session_out list" where
  "handle_frame now Ping s = (s, [Out Pong])"
| "handle_frame now Pong s = (s, [])"
| "handle_frame now (StreamOpen sid host peer) s = open_stream now sid host peer s"
| "handle_frame now (StreamClose sid reason) s =
     (case table_get sid s of Some c \<Rightarrow> on_cell c RelayCloses s | None \<Rightarrow> (s, []))"
| "handle_frame now (StreamCredit sid bytes) s =
     (case table_get sid s of
        Some c \<Rightarrow> on_cell c (AddCredit bytes) s
      | None \<Rightarrow> (s, [reject sid ''unknown stream'']))"
| "handle_frame now (ChallengeGranted names) s = on_link (resolve_claim names True) s"
| "handle_frame now (ChallengeBusy names) s = on_link (resolve_claim names False) s"
| "handle_frame now (PinGrant purpose grant) s = on_link (resolve_grant purpose (Inr grant)) s"
| "handle_frame now (PinGrantError purpose reason) s = on_link (resolve_grant purpose (Inl reason)) s"
| "handle_frame now (InstancesUpdate instances) s = (s, [OnInstances instances])"
| "handle_frame now _ s = (s, [])"

definition protocol_error :: "push_error \<Rightarrow> ustring" where
  "protocol_error e =
     (case e of WindowExceeded \<Rightarrow> lit ''send window exceeded''
              | TooLarge \<Rightarrow> lit ''data message over 64 KiB'')"

definition handle_data :: "instant \<Rightarrow> byte list \<Rightarrow> session \<Rightarrow> session \<times> session_out list" where
  "handle_data now data s =
     (if length data < 16 then (s, [])
      else let sid = take 16 data; payload = drop 16 data
           in (case table_get sid s of
                None \<Rightarrow> (s, [reject sid ''unknown stream''])
              | Some c \<Rightarrow>
                  let (s1, o1) = on_cell c (PushData now payload) s
                  in (case fst (push_data now payload (snd (cells s ! c))) of
                        Inr _ \<Rightarrow> (s1, o1)
                      | Inl e \<Rightarrow>
                          let (s2, o2) = on_cell c (Reset (protocol_error e) True) (table_remove sid s1)
                          in (s2, o1 @ o2))))"

text \<open>One websocket message; a reason ends the session.\<close>

fun handle :: "instant \<Rightarrow> ws_message \<Rightarrow> session \<Rightarrow> (session \<times> session_out list) \<times> ustring option" where
  "handle now (TextMsg (Some f)) s = (handle_frame now f s, None)"
| "handle now (TextMsg None) s = ((s, []), None)"
| "handle now (BinaryMsg data) s = (handle_data now data s, None)"
| "handle now CloseMsg s = ((s, []), Some (lit ''relay sent close frame''))"
| "handle now OtherMsg s = ((s, []), None)"

section \<open>The loop\<close>

definition send_agents_update :: "session \<Rightarrow> session \<times> session_out list" where
  "send_agents_update s = (s\<lparr>agents_unseen := False\<rparr>, [Out (AgentsUpdate (agents s))])"

definition wind_down :: "session_end \<Rightarrow> session \<Rightarrow> session \<times> session_out list" where
  "wind_down e s =
     (let (s1, o1) = on_link close s; (s2, o2) = close_all s1
      in (s2, o1 @ o2 @
            (if e = EndShutdown \<or> e = EndRefused then [OutClose, Published Disconnected] else [])))"

definition end_session :: "session_end \<Rightarrow> session \<times> session_out list \<Rightarrow> session \<times> session_out list" where
  "end_session e r =
     (let (s1, o1) = wind_down e (fst r)
      in (s1\<lparr>session_end := Some e\<rparr>, snd r @ o1 @ [OnDisconnected]))"

definition decide :: "verdict \<Rightarrow> session \<Rightarrow> session \<times> session_out list" where
  "decide v s =
     (case v of
        Accept user slug uo wo io \<Rightarrow>
          let (s1, o1) = send_agents_update (s\<lparr>verdict_done := True, accepted := True\<rparr>)
          in (s1, Published (ConnectedTo user uo wo (Some slug) io) # o1)
      | Refuse reason \<Rightarrow> end_session EndRefused (s\<lparr>verdict_done := True\<rparr>, []))"

datatype session_event =
    Incoming instant read_result
  | VerdictReady verdict
  | AgentsChanged
  | ShutdownAsked
  | KeepaliveFires instant
  | SweepFires instant
  | WriterEnded
  | Consumer nat stream_op
  | LinkCall link_op
  | PublishAgents "agent_info list"
  | DropAgents

text \<open>What a caller of the link may do; the other operations are the relay's or the session's.\<close>

definition link_call :: "link_op \<Rightarrow> bool" where
  "link_call op =
     (case op of GrantAnswer _ _ \<Rightarrow> False | ClaimAnswer _ _ \<Rightarrow> False | CloseLink \<Rightarrow> False | _ \<Rightarrow> True)"

fun outside_step :: "session_event \<Rightarrow> session \<Rightarrow> session \<times> session_out list" where
  "outside_step (Consumer c op) s = consumer c op s"
| "outside_step (LinkCall op) s =
     (if link_call op then on_link (\<lambda>l. link_step l op) s else (s, []))"
| "outside_step (PublishAgents as) s =
     (if agents_dropped s then (s, []) else (s\<lparr>agents := as, agents_unseen := True\<rparr>, []))"
| "outside_step DropAgents s = (s\<lparr>agents_dropped := True\<rparr>, [])"
| "outside_step _ s = (s, [])"

fun loop_step :: "session_event \<Rightarrow> session \<Rightarrow> session \<times> session_out list" where
  "loop_step (Incoming now (Message m)) s =
     (case handle now m (s\<lparr>last_frame := now\<rparr>) of
        (r, None) \<Rightarrow> r
      | (r, Some reason) \<Rightarrow> end_session (EndLost reason (accepted (fst r))) r)"
| "loop_step (Incoming now (ReadError e)) s =
     end_session (EndLost (lit ''websocket error: '' @ e) (accepted s)) (s, [])"
| "loop_step (Incoming now ReadEnd) s =
     end_session (EndLost (lit ''websocket stream ended'') (accepted s)) (s, [])"
| "loop_step (VerdictReady v) s = (if verdict_done s then (s, []) else decide v s)"
| "loop_step AgentsChanged s =
     (if accepted s \<and> agents_open s
      then if agents_unseen s then send_agents_update s
           else if agents_dropped s then (s\<lparr>agents_open := False\<rparr>, []) else (s, [])
      else (s, []))"
| "loop_step ShutdownAsked s = end_session EndShutdown (s, [])"
| "loop_step (KeepaliveFires now) s =
     (if now \<ge> last_frame s + keepalive_timeout s
      then end_session (EndLost (lit ''keepalive timeout'') (accepted s)) (s, []) else (s, []))"
| "loop_step (SweepFires now) s = sweep_idle now s"
| "loop_step WriterEnded s =
     end_session (EndLost (lit ''websocket write failed'') (accepted s)) (s, [])"
| "loop_step e s = outside_step e s"

definition session_step :: "session \<Rightarrow> session_event \<Rightarrow> session \<times> session_out list" where
  "session_step s e =
     (if session_end s = None then (let (s1, outs) = loop_step e s in (loop_top s1, outs))
      else outside_step e s)"

abbreviation session_run :: "session \<Rightarrow> session_event list \<Rightarrow> session \<times> session_out list list" where
  "session_run \<equiv> run_machine session_step"


section \<open>What the table operations touch\<close>

definition cell_update :: "nat \<Rightarrow> stream_op \<Rightarrow> (uuid \<times> inner) list \<Rightarrow> (uuid \<times> inner) list" where
  "cell_update c op cs =
     (if c < length cs then cs[c := (fst (cs ! c), fst (stream_step (fst (cs ! c)) (snd (cs ! c)) op))]
      else cs)"

lemma fst_on_cell: "fst (on_cell c op t) = t\<lparr>cells := cell_update c op (cells t)\<rparr>"
  by (simp add: on_cell_def cell_update_def split_def Let_def)

lemma snd_on_cell:
  "snd (on_cell c op t) = (if c < length (cells t)
     then map (CellOut c) (snd (stream_step (fst (cells t ! c)) (snd (cells t ! c)) op)) else [])"
  by (simp add: on_cell_def split_def Let_def)

lemma fst_on_cells: "fst (on_cells cs op t) = t\<lparr>cells := fold (\<lambda>c. cell_update c op) cs (cells t)\<rparr>"
  by (induction cs arbitrary: t) (simp_all add: split_def Let_def fst_on_cell)

lemma fst_close_all:
  "fst (close_all t) = t\<lparr>table_closed := True, streams := [],
     cells := fold (\<lambda>c. cell_update c (Reset (lit ''the relay connection ended'') False))
       (map snd (streams t)) (cells t)\<rparr>"
  by (simp add: close_all_def fst_on_cells)

lemma fst_close_idle:
  "fst (close_idle xs t) = t\<lparr>streams := fold hm_remove (map fst xs) (streams t),
     cells := fold (\<lambda>c. cell_update c (Reset (lit ''idle'') True)) (map snd xs) (cells t)\<rparr>"
  by (induction xs arbitrary: t) (auto simp: split_def Let_def fst_on_cell table_remove_def)

lemma fst_consumer:
  "fst (consumer c op t) \<in> {t, fst (on_cell c op t), table_remove (fst (cells t ! c)) (fst (on_cell c op t))}"
  by (auto simp: consumer_def split_def Let_def)

section \<open>Reachable streams\<close>

text \<open>What a stream can become: the state of \<open>StreamShared\<close> after any operations on it.\<close>

inductive stream_reach :: "uuid \<Rightarrow> inner \<Rightarrow> bool" for sid where
  fresh: "stream_reach sid (new_inner now)"
| step: "stream_reach sid s \<Longrightarrow> stream_reach sid (fst (stream_step sid s op))"

lemma stream_reach_inv: "stream_reach sid s \<Longrightarrow> stream_inv s"
  by (induction rule: stream_reach.induct) (simp_all add: stream_inv_new stream_step_inv)

lemma run_machine_snoc: "fst (run_machine st s (es @ [e])) = fst (st (fst (run_machine st s es)) e)"
  by (induction es arbitrary: s) simp_all

lemma stream_reach_run: "stream_reach sid s \<Longrightarrow> \<exists>now ops. s = fst (stream_run sid (new_inner now) ops)"
proof (induction rule: stream_reach.induct)
  case (fresh now)
  have "new_inner now = fst (stream_run sid (new_inner now) [])" by simp
  then show ?case by blast
next
  case (step s op)
  then obtain now ops where "s = fst (stream_run sid (new_inner now) ops)" by blast
  then have "fst (stream_step sid s op) = fst (stream_run sid (new_inner now) (ops @ [op]))"
    by (simp add: run_machine_snoc)
  then show ?case by blast
qed

section \<open>The invariant of the table\<close>

definition cells_ok :: "(uuid \<times> inner) list \<Rightarrow> bool" where
  "cells_ok cs \<longleftrightarrow> (\<forall>(sid, s)\<in>set cs. stream_reach sid s)"

definition entries_ok :: "(uuid, nat) hmap \<Rightarrow> (uuid \<times> inner) list \<Rightarrow> bool" where
  "entries_ok m cs \<longleftrightarrow> hm_wf m \<and> distinct (map snd m) \<and> length m \<le> MAX_STREAMS \<and>
     (\<forall>(sid, c)\<in>set m. c < length cs \<and> fst (cs ! c) = sid)"

definition table_inv :: "'a stream_table_scheme \<Rightarrow> bool" where
  "table_inv t \<longleftrightarrow> cells_ok (cells t) \<and> entries_ok (streams t) (cells t) \<and>
     (table_closed t \<longrightarrow> streams t = [])"

lemma cell_update_same [simp]:
  "length (cell_update c op cs) = length cs" "i < length cs \<Longrightarrow> fst (cell_update c op cs ! i) = fst (cs ! i)"
  by (auto simp: cell_update_def nth_list_update)

lemma cell_update_ok: "cells_ok cs \<Longrightarrow> cells_ok (cell_update c op cs)"
  unfolding cells_ok_def cell_update_def
  by (auto dest!: set_update_subset_insert [THEN subsetD]
      intro!: stream_reach.step [where s = "snd (cs ! c)"])

lemma fold_cell_update_same [simp]:
  "length (fold (\<lambda>c. cell_update c op) xs cs) = length cs"
  "i < length cs \<Longrightarrow> fst (fold (\<lambda>c. cell_update c op) xs cs ! i) = fst (cs ! i)"
  by (induction xs arbitrary: cs) simp_all

lemma fold_cell_update_ok: "cells_ok cs \<Longrightarrow> cells_ok (fold (\<lambda>c. cell_update c op) xs cs)"
  by (induction xs arbitrary: cs) (simp_all add: cell_update_ok)

lemma entries_ok_cells:
  "entries_ok m cs \<Longrightarrow> length cs' = length cs \<Longrightarrow> \<forall>i < length cs. fst (cs' ! i) = fst (cs ! i) \<Longrightarrow>
     entries_ok m cs'"
  by (auto simp: entries_ok_def)

lemma entries_ok_remove: "entries_ok m cs \<Longrightarrow> entries_ok (hm_remove sid m) cs"
  using length_hm_remove [of sid m] le_trans [of "length (hm_remove sid m)" "length m" MAX_STREAMS]
  by (auto simp: entries_ok_def distinct_map_filter hm_remove_def hm_wf_def)

lemma entries_ok_removes: "entries_ok m cs \<Longrightarrow> entries_ok (fold hm_remove sids m) cs"
  by (induction sids arbitrary: m) (simp_all add: entries_ok_remove)

lemma fold_hm_remove_Nil [simp]: "fold hm_remove sids [] = []"
  by (induction sids) (simp_all add: hm_remove_def)

lemma table_inv_cells:
  "table_inv t \<Longrightarrow> cells_ok cs' \<Longrightarrow> length cs' = length (cells t) \<Longrightarrow>
     \<forall>i < length (cells t). fst (cs' ! i) = fst (cells t ! i) \<Longrightarrow> table_inv (t\<lparr>cells := cs'\<rparr>)"
  using entries_ok_cells [of "streams t" "cells t" cs'] by (simp add: table_inv_def)

lemma on_cell_inv: "table_inv t \<Longrightarrow> table_inv (fst (on_cell c op t))"
  unfolding fst_on_cell
  by (rule table_inv_cells) (simp_all add: table_inv_def cell_update_ok)

lemma table_remove_inv: "table_inv t \<Longrightarrow> table_inv (table_remove sid t)"
  by (auto simp: table_inv_def table_remove_def entries_ok_remove) (simp add: hm_remove_def)

lemma close_all_inv: "table_inv t \<Longrightarrow> table_inv (fst (close_all t))"
  by (simp add: table_inv_def fst_close_all fold_cell_update_ok entries_ok_def)

lemma sweep_idle_inv: "table_inv t \<Longrightarrow> table_inv (fst (sweep_idle now t))"
  using entries_ok_removes entries_ok_cells
  by (auto simp: table_inv_def sweep_idle_def fst_close_idle fold_cell_update_ok)

lemma consumer_inv: "table_inv t \<Longrightarrow> table_inv (fst (consumer c op t))"
  by (auto simp: consumer_def split_def Let_def intro: on_cell_inv table_remove_inv)

lemma table_open_inv: "table_inv t \<Longrightarrow> table_inv (snd (table_open now sid t))"
proof -
  assume t: "table_inv t"
  show ?thesis
  proof (cases "table_closed t \<or> hm_contains (streams t) sid \<or> length (streams t) \<ge> MAX_STREAMS")
    case True
    then show ?thesis using t by (auto simp: table_open_def)
  next
    case False
    then have n: "sid \<notin> fst ` set (streams t)" by (simp add: hm_contains_get hm_get_None)
    have below: "c < length (cells t)" if "c \<in> snd ` set (streams t)" for c
      using t that by (auto simp: table_inv_def entries_ok_def)
    have "entries_ok (streams t @ [(sid, length (cells t))]) (cells t @ [(sid, new_inner now)])"
      using t n False below
      by (auto simp: table_inv_def entries_ok_def hm_wf_def nth_append)
    moreover have "cells_ok (cells t @ [(sid, new_inner now)])"
      using t by (auto simp: table_inv_def cells_ok_def stream_reach.fresh)
    ultimately show ?thesis
      using False by (simp add: table_open_def hm_insert_new [OF n] table_inv_def)
  qed
qed


section \<open>The invariant of the session\<close>

text \<open>The table operations leave the rest of the session alone.\<close>

definition same_session :: "session \<Rightarrow> session \<Rightarrow> bool" where
  "same_session s t \<longleftrightarrow> lnk t = lnk s \<and> accepted t = accepted s \<and> session_end t = session_end s \<and>
     last_frame t = last_frame s \<and> keepalive_timeout t = keepalive_timeout s \<and>
     verdict_done t = verdict_done s"

lemma same_session_refl [simp]: "same_session s s"
  by (simp add: same_session_def)

lemma table_ops_same [simp]:
  "same_session s (fst (on_cell c op s))" "same_session s (fst (close_all s))"
  "same_session s (fst (sweep_idle now s))" "same_session s (table_remove sid s)"
  "same_session s (snd (table_open now sid s))"
  by (simp_all add: same_session_def fst_on_cell fst_close_all sweep_idle_def fst_close_idle
      table_remove_def table_open_def)

lemma same_session_trans: "same_session s t \<Longrightarrow> same_session t u \<Longrightarrow> same_session s u"
  by (simp add: same_session_def)

lemma consumer_same [simp]: "same_session s (fst (consumer c op s))"
  using fst_consumer [of c op s] same_session_trans [OF table_ops_same(1) table_ops_same(4)]
  by auto

lemmas same_sessionD = same_session_def [THEN iffD1]

definition session_inv :: "session \<Rightarrow> bool" where
  "session_inv s \<longleftrightarrow> table_inv s \<and> link_inv (lnk s) \<and>
     (\<forall>e. session_end s = Some e \<longrightarrow> e \<noteq> Panicked \<longrightarrow> table_closed s \<and> link_dead (lnk s))"

text \<open>A session that still runs, whatever its end will be.\<close>

definition core_inv :: "session \<Rightarrow> bool" where
  "core_inv s \<longleftrightarrow> table_inv s \<and> link_inv (lnk s)"

lemma core_inv_same: "core_inv s \<Longrightarrow> same_session s t \<Longrightarrow> table_inv t \<Longrightarrow> core_inv t"
  by (simp add: core_inv_def same_session_def)

lemma on_link_fst [simp]: "fst (on_link f s) = s\<lparr>lnk := fst (f (lnk s))\<rparr>"
  by (simp add: on_link_def split_def Let_def)

lemma table_inv_fields [simp]:
  "table_inv (s\<lparr>lnk := l\<rparr>) = table_inv s" "table_inv (s\<lparr>accepted := b\<rparr>) = table_inv s"
  "table_inv (s\<lparr>verdict_done := b\<rparr>) = table_inv s" "table_inv (s\<lparr>agents_open := b\<rparr>) = table_inv s"
  "table_inv (s\<lparr>agents := as\<rparr>) = table_inv s" "table_inv (s\<lparr>agents_unseen := b\<rparr>) = table_inv s"
  "table_inv (s\<lparr>agents_dropped := b\<rparr>) = table_inv s" "table_inv (s\<lparr>last_frame := n\<rparr>) = table_inv s"
  "table_inv (s\<lparr>session_end := e\<rparr>) = table_inv s"
  by (simp_all add: table_inv_def)

lemma on_link_core: "core_inv s \<Longrightarrow> (\<And>l. link_inv l \<Longrightarrow> link_inv (fst (f l))) \<Longrightarrow> core_inv (fst (on_link f s))"
  by (simp add: core_inv_def)

lemma resolve_link_inv:
  "link_inv l \<Longrightarrow> link_inv (fst (resolve_grant p r l))" "link_inv l \<Longrightarrow> link_inv (fst (resolve_claim ns g l))"
  using link_step_inv [of l "GrantAnswer p r"] link_step_inv [of l "ClaimAnswer ns g"] by simp_all

lemma on_cell_core: "core_inv s \<Longrightarrow> core_inv (fst (on_cell c op s))"
  by (rule core_inv_same [of s]) (simp_all add: core_inv_def on_cell_inv)

lemma table_remove_core: "core_inv s \<Longrightarrow> core_inv (table_remove sid s)"
  by (rule core_inv_same [of s]) (simp_all add: core_inv_def table_remove_inv)

text \<open>The fields neither invariant looks at.\<close>

lemma core_inv_fields [simp]:
  "core_inv (s\<lparr>accepted := b\<rparr>) = core_inv s" "core_inv (s\<lparr>verdict_done := b\<rparr>) = core_inv s"
  "core_inv (s\<lparr>agents_open := b\<rparr>) = core_inv s" "core_inv (s\<lparr>agents := as\<rparr>) = core_inv s"
  "core_inv (s\<lparr>agents_unseen := b\<rparr>) = core_inv s" "core_inv (s\<lparr>agents_dropped := b\<rparr>) = core_inv s"
  "core_inv (s\<lparr>last_frame := n\<rparr>) = core_inv s" "core_inv (s\<lparr>session_end := e\<rparr>) = core_inv s"
  by (simp_all add: core_inv_def)

lemma session_inv_fields [simp]:
  "session_inv (s\<lparr>accepted := b\<rparr>) = session_inv s" "session_inv (s\<lparr>verdict_done := b\<rparr>) = session_inv s"
  "session_inv (s\<lparr>agents_open := b\<rparr>) = session_inv s" "session_inv (s\<lparr>agents := as\<rparr>) = session_inv s"
  "session_inv (s\<lparr>agents_unseen := b\<rparr>) = session_inv s"
  "session_inv (s\<lparr>agents_dropped := b\<rparr>) = session_inv s"
  "session_inv (s\<lparr>last_frame := n\<rparr>) = session_inv s"
  by (simp_all add: session_inv_def)

lemma open_stream_core:
  assumes "core_inv s"
  shows "core_inv (fst (open_stream now sid host peer s))"
    "session_end (fst (open_stream now sid host peer s)) = session_end s"
proof -
  have *: "fst (open_stream now sid host peer s) \<in> {s, snd (table_open now sid s)}"
    by (auto simp: open_stream_def split: prod.splits sum.splits open_error.splits)
  moreover have "core_inv (snd (table_open now sid s))"
    by (rule core_inv_same [OF assms]) (use assms in \<open>simp_all add: core_inv_def table_open_inv\<close>)
  moreover have "session_end (snd (table_open now sid s)) = session_end s"
    using table_ops_same(5) [of s now sid] by (simp add: same_session_def)
  ultimately show "core_inv (fst (open_stream now sid host peer s))"
    "session_end (fst (open_stream now sid host peer s)) = session_end s"
    using assms by auto
qed

lemma handle_frame_core:
  "core_inv s \<Longrightarrow> core_inv (fst (handle_frame now f s))"
  by (cases f) (simp_all add: open_stream_core on_cell_core on_link_core resolve_link_inv
      del: on_link_fst split: option.split)

lemma on_cell_end [simp]: "session_end (fst (on_cell c op s)) = session_end s"
  by (simp add: fst_on_cell)

lemma handle_frame_end:
  "core_inv s \<Longrightarrow> session_end (fst (handle_frame now f s)) = session_end s"
  by (cases f) (simp_all add: open_stream_core split: option.split)

lemma table_remove_end [simp]: "session_end (table_remove sid s) = session_end s"
  by (simp add: table_remove_def)

text \<open>What one data message does.\<close>

lemma handle_data_cases:
  obtains "handle_data now data s = (s, [])" "length data < 16"
  | "handle_data now data s = (s, [reject (take 16 data) ''unknown stream''])"
    "16 \<le> length data" "table_get (take 16 data) s = None"
  | c where "16 \<le> length data" "table_get (take 16 data) s = Some c"
    "fst (push_data now (drop 16 data) (snd (cells s ! c))) = Inr ()"
    "handle_data now data s = on_cell c (PushData now (drop 16 data)) s"
  | c e s1 o1 where "16 \<le> length data" "table_get (take 16 data) s = Some c"
    "fst (push_data now (drop 16 data) (snd (cells s ! c))) = Inl e"
    "on_cell c (PushData now (drop 16 data)) s = (s1, o1)"
    "handle_data now data s =
       (let (s2, o2) = on_cell c (Reset (protocol_error e) True) (table_remove (take 16 data) s1)
        in (s2, o1 @ o2))"
proof -
  consider "length data < 16" | "16 \<le> length data" "table_get (take 16 data) s = None"
    | c where "16 \<le> length data" "table_get (take 16 data) s = Some c"
    by fastforce
  then show ?thesis
  proof cases
    case 1
    then show ?thesis using that(1) by (simp add: handle_data_def)
  next
    case 2
    then show ?thesis using that(2) by (simp add: handle_data_def)
  next
    case (3 c)
    obtain s1 o1 where p: "on_cell c (PushData now (drop 16 data)) s = (s1, o1)" by fastforce
    show ?thesis
    proof (cases "fst (push_data now (drop 16 data) (snd (cells s ! c)))")
      case (Inl e)
      then show ?thesis using 3 p that(4) [of c e s1 o1] by (simp add: handle_data_def Let_def)
    next
      case (Inr u)
      then have "handle_data now data s = on_cell c (PushData now (drop 16 data)) s"
        using 3 p by (simp add: handle_data_def Let_def)
      then show ?thesis using 3 Inr that(3) [of c] by simp
    qed
  qed
qed

lemma handle_data_core:
  assumes "core_inv s"
  shows "core_inv (fst (handle_data now data s)) \<and> session_end (fst (handle_data now data s)) = session_end s"
proof (cases rule: handle_data_cases [of now data s])
  case (4 c e s1 o1)
  have "core_inv s1" "session_end s1 = session_end s"
    using on_cell_core [OF assms, of c "PushData now (drop 16 data)"]
      on_cell_end [of c "PushData now (drop 16 data)" s] 4(4) by auto
  then show ?thesis
    using 4(5) on_cell_core [OF table_remove_core, of s1] by (simp add: split_def Let_def)
qed (use assms in \<open>simp_all add: on_cell_core\<close>)

lemma handle_core:
  "core_inv s \<Longrightarrow> core_inv (fst (fst (handle now m s)))"
  "core_inv s \<Longrightarrow> session_end (fst (fst (handle now m s))) = session_end s"
  by (cases "(now, m, s)" rule: handle.cases;
      simp add: handle_frame_core handle_frame_end handle_data_core)+

text \<open>Every way the loop ends leaves a closed table and a closed link.\<close>

lemma end_session_inv:
  assumes "core_inv (fst r)"
  shows "session_inv (fst (end_session e r))"
proof -
  have "table_inv (fst (close_all (fst (on_link close (fst r)))))"
    using assms by (intro close_all_inv) (simp add: core_inv_def)
  moreover have "lnk (fst (close_all (fst (on_link close (fst r))))) = fst (close (lnk (fst r)))"
    by (simp add: fst_close_all)
  moreover have "table_closed (fst (close_all (fst (on_link close (fst r)))))"
    by (simp add: fst_close_all)
  ultimately show ?thesis
    using assms close_inv close_dead
    by (simp add: end_session_def wind_down_def session_inv_def core_inv_def split_def Let_def
        del: on_link_fst)
qed

lemma session_inv_running: "session_end s = None \<Longrightarrow> session_inv s = core_inv s"
  by (simp add: session_inv_def core_inv_def)

lemma link_call_dead: "link_dead l \<Longrightarrow> link_dead (fst (link_step l op))"
  using dead_step by simp

lemma outside_step_inv:
  assumes "session_inv s"
  shows "session_inv (fst (outside_step e s))" "session_end (fst (outside_step e s)) = session_end s"
proof -
  have c: "table_inv (fst (consumer c op s))" "same_session s (fst (consumer c op s))"
    "table_closed (fst (consumer c op s)) = table_closed s" for c op
    using assms fst_consumer [of c op s]
    by (auto simp: session_inv_def consumer_inv fst_on_cell table_remove_def)
  have cons: "session_inv (fst (consumer c op s))" for c op
    using c [of c op] assms by (simp add: session_inv_def same_session_def)
  have linked: "session_inv (s\<lparr>lnk := fst (link_step (lnk s) op)\<rparr>)" for op
    using assms by (simp add: session_inv_def link_step_inv link_call_dead)
  show "session_inv (fst (outside_step e s))"
    using assms by (cases "(e, s)" rule: outside_step.cases) (simp_all add: cons linked)
  show "session_end (fst (outside_step e s)) = session_end s"
    using c(2) by (cases "(e, s)" rule: outside_step.cases) (auto simp: same_session_def)
qed

lemma decide_inv: "core_inv s \<Longrightarrow> session_end s = None \<Longrightarrow> session_inv (fst (decide v s))"
  by (cases v)
    (simp_all add: decide_def send_agents_update_def end_session_inv session_inv_running)

lemma loop_step_inv:
  assumes "session_inv s" "session_end s = None"
  shows "session_inv (fst (loop_step e s))"
proof -
  have core: "core_inv s" using assms by (simp add: session_inv_running)
  note ends = end_session_inv [of "(s, [])", simplified, OF core]
  show ?thesis
  proof (cases "(e, s)" rule: loop_step.cases)
    case (1 now m s')
    let ?s0 = "s\<lparr>last_frame := now\<rparr>"
    have c0: "core_inv ?s0" using core by (simp add: core_inv_def)
    have r: "core_inv (fst (fst (handle now m ?s0)))" "session_end (fst (fst (handle now m ?s0))) = None"
      using handle_core [OF c0] assms(2) by simp_all
    show ?thesis
      using 1 r by (simp add: split_def end_session_inv session_inv_running split: option.split prod.split)
  next
    case (8 now s')
    have "core_inv (fst (sweep_idle now s))"
      by (rule core_inv_same [OF core]) (use core in \<open>simp_all add: core_inv_def sweep_idle_inv\<close>)
    moreover have "session_end (fst (sweep_idle now s)) = None"
      using table_ops_same(3) [of s now] assms(2) by (simp add: same_session_def)
    ultimately show ?thesis using 8 by (simp add: session_inv_running)
  qed (use assms core ends in
      \<open>simp_all add: decide_inv send_agents_update_def outside_step_inv(1) del: outside_step.simps\<close>)
qed

lemma loop_top_inv: "session_inv s \<Longrightarrow> session_inv (loop_top s)"
  by (simp add: loop_top_def session_inv_def)

lemma session_step_inv: "session_inv s \<Longrightarrow> session_inv (fst (session_step s e))"
  by (simp add: session_step_def split_def Let_def loop_step_inv loop_top_inv outside_step_inv)

lemma session_inv_new: "session_inv (new_session now ka as)"
  unfolding new_session_def
  by (rule loop_top_inv)
    (simp add: session_inv_def table_inv_def cells_ok_def entries_ok_def link_inv_new)

interpretation session: machine session_step session_inv
  by unfold_locales (rule session_step_inv)


section \<open>Nothing is served before the relay is accepted\<close>

fun serves :: "session_out \<Rightarrow> bool" where
  "serves (OnStream host peer c) \<longleftrightarrow> True"
| "serves (Out (AgentsUpdate as)) \<longleftrightarrow> True"
| "serves _ \<longleftrightarrow> False"

fun accepts :: "session_event \<Rightarrow> bool" where
  "accepts (VerdictReady (Accept user slug uo wo io)) \<longleftrightarrow> True"
| "accepts _ \<longleftrightarrow> False"

definition quiet :: "session_out list \<Rightarrow> bool" where
  "quiet outs \<longleftrightarrow> list_all (Not \<circ> serves) outs"

lemma quiet_simps [simp]:
  "quiet []" "quiet (x # xs) \<longleftrightarrow> \<not> serves x \<and> quiet xs" "quiet (xs @ ys) \<longleftrightarrow> quiet xs \<and> quiet ys"
  "quiet (map (CellOut c) us)" "quiet (map LinkOut vs)"
  by (auto simp: quiet_def list_all_iff)

lemma quiet_ops [simp]:
  "quiet (snd (on_cell c op t))" "quiet (snd (on_cells cs op t))" "quiet (snd (close_all t))"
  "quiet (snd (close_idle xs t))" "quiet (snd (sweep_idle now t))" "quiet (snd (consumer c op t))"
  "quiet (snd (on_link f s))" "\<not> serves (reject sid reason)"
proof -
  show 1: "quiet (snd (on_cell c op t))" for c op and t :: "'x stream_table_scheme"
    by (simp add: snd_on_cell)
  show 2: "quiet (snd (on_cells cs op t))" for cs op and t :: "'x stream_table_scheme"
    by (induction cs arbitrary: t) (simp_all add: split_def Let_def 1)
  show "quiet (snd (close_all t))" by (simp add: close_all_def 2)
  show 3: "quiet (snd (close_idle xs t))" for xs and t :: "'x stream_table_scheme"
    by (induction xs arbitrary: t) (auto simp: split_def Let_def 1)
  show "quiet (snd (sweep_idle now t))" by (simp add: sweep_idle_def 3)
  show "quiet (snd (consumer c op t))" by (simp add: consumer_def split_def Let_def 1)
qed (simp_all add: on_link_def reject_def split_def Let_def)

lemma quiet_wind_down [simp]: "quiet (snd (wind_down e s))"
  by (simp add: wind_down_def split_def Let_def)

lemma quiet_end [simp]: "quiet (snd (end_session e r)) = quiet (snd r)"
  by (simp add: end_session_def split_def Let_def)

lemma accepted_end [simp]: "accepted (fst (end_session e r)) = accepted (fst r)"
  by (simp add: end_session_def wind_down_def split_def Let_def fst_close_all)

lemma accepted_ops [simp]:
  fixes s :: session
  shows "accepted (fst (on_cell c op s)) = accepted s" "accepted (fst (sweep_idle now s)) = accepted s"
  "accepted (table_remove sid s) = accepted s" "accepted (fst (consumer c op s)) = accepted s"
  using table_ops_same [of s] consumer_same [of s] by (simp_all add: same_session_def)

lemma unaccepted_frame:
  "\<not> accepted s \<Longrightarrow> \<not> accepted (fst (handle_frame now f s)) \<and> quiet (snd (handle_frame now f s))"
  by (cases f) (simp_all add: open_stream_def split: option.split)

lemma unaccepted_data:
  "\<not> accepted s \<Longrightarrow> \<not> accepted (fst (handle_data now d s)) \<and> quiet (snd (handle_data now d s))"
proof (cases rule: handle_data_cases [of now d s])
  case (4 c e s1 o1)
  then show "\<not> accepted s \<Longrightarrow> ?thesis"
    using quiet_ops(1) [of c "PushData now (drop 16 d)" s]
      accepted_ops(1) [of c "PushData now (drop 16 d)" s] by (simp add: split_def Let_def)
qed simp_all

lemma unaccepted_handle:
  "\<not> accepted s \<Longrightarrow>
     \<not> accepted (fst (fst (handle now m s))) \<and> quiet (snd (fst (handle now m s)))"
  by (cases "(now, m, s)" rule: handle.cases) (simp_all add: unaccepted_frame unaccepted_data)

lemma unaccepted_outside:
  "\<not> accepted s \<Longrightarrow> \<not> accepted (fst (outside_step e s)) \<and> quiet (snd (outside_step e s))"
  by (cases "(e, s)" rule: outside_step.cases) simp_all

lemma unaccepted_loop:
  assumes "\<not> accepted s" "\<not> accepts e"
  shows "\<not> accepted (fst (loop_step e s)) \<and> quiet (snd (loop_step e s))"
proof (cases "(e, s)" rule: loop_step.cases)
  case (1 now m s')
  then show ?thesis
    using unaccepted_handle [of "s\<lparr>last_frame := now\<rparr>" now m] assms
    by (simp add: split_def split: option.split)
next
  case (4 v s')
  then show ?thesis using assms by (cases v) (simp_all add: decide_def)
qed (use assms unaccepted_outside in \<open>simp_all del: outside_step.simps\<close>)

lemma loop_top_accepted [simp]: "accepted (loop_top s) = accepted s"
  by (simp add: loop_top_def)

lemma unaccepted_step:
  "\<not> accepted s \<Longrightarrow> \<not> accepts e \<Longrightarrow>
     \<not> accepted (fst (session_step s e)) \<and> quiet (snd (session_step s e))"
  using unaccepted_loop [of s e] unaccepted_outside [of s e]
  by (simp add: session_step_def split_def Let_def)

lemma unaccepted_run:
  "\<not> accepted s \<Longrightarrow> list_all (Not \<circ> accepts) es \<Longrightarrow> list_all quiet (snd (session_run s es))"
  by (induction es arbitrary: s) (simp_all add: unaccepted_step)

section \<open>The end of the session\<close>

lemma reset_keeps:
  "i < length cs \<Longrightarrow> reset_reason (snd (cs ! i)) \<noteq> None \<or> i = c \<Longrightarrow>
     reset_reason (snd (cell_update c (Reset r tell) cs ! i)) \<noteq> None"
  by (auto simp: cell_update_def nth_list_update reset_def split: option.split)

lemma resets_all:
  "i < length cs \<Longrightarrow> reset_reason (snd (cs ! i)) \<noteq> None \<or> i \<in> set xs \<Longrightarrow>
     reset_reason (snd (fold (\<lambda>c. cell_update c (Reset r tell)) xs cs ! i)) \<noteq> None"
proof (induction xs arbitrary: cs)
  case Nil
  then show ?case by simp
next
  case (Cons x xs)
  have "reset_reason (snd (cell_update x (Reset r tell) cs ! i)) \<noteq> None \<or> i \<in> set xs"
    using reset_keeps [OF Cons.prems(1), of x r tell] Cons.prems(2) by auto
  then show ?case using Cons.IH [of "cell_update x (Reset r tell) cs"] Cons.prems(1) by simp
qed

lemma end_session_resets:
  assumes "table_inv (fst r)" "(sid, c) \<in> set (streams (fst r))"
  shows "reset_reason (snd (cells (fst (end_session e r)) ! c)) \<noteq> None"
proof -
  have "c < length (cells (fst r))" "c \<in> set (map snd (streams (fst r)))"
    using assms by (force simp: table_inv_def entries_ok_def)+
  then show ?thesis
    using resets_all by (simp add: end_session_def wind_down_def split_def Let_def fst_close_all)
qed

definition disconnects :: "session_out list \<Rightarrow> nat" where
  "disconnects outs = length (filter (\<lambda>x. x = OnDisconnected) outs)"

definition running :: "session \<Rightarrow> nat" where
  "running s = (if session_end s = None then 1 else 0)"

lemma disconnects_simps [simp]:
  "disconnects [] = 0" "disconnects (x # xs) = (if x = OnDisconnected then 1 else 0) + disconnects xs"
  "disconnects (xs @ ys) = disconnects xs + disconnects ys"
  "disconnects (map (CellOut c) us) = 0" "disconnects (map LinkOut vs) = 0"
  by (simp_all add: disconnects_def filter_empty_conv)

lemma disconnects_ops [simp]:
  "disconnects (snd (on_cell c op t)) = 0" "disconnects (snd (on_cells cs op t)) = 0"
  "disconnects (snd (close_all t)) = 0"
  "disconnects (snd (close_idle xs t)) = 0" "disconnects (snd (sweep_idle now t)) = 0"
  "disconnects (snd (consumer c op t)) = 0" "disconnects (snd (on_link f s)) = 0"
  "reject sid reason \<noteq> OnDisconnected"
proof -
  show 1: "disconnects (snd (on_cell c op t)) = 0" for c op and t :: "'x stream_table_scheme"
    by (simp add: snd_on_cell)
  show 2: "disconnects (snd (on_cells cs op t)) = 0" for cs op and t :: "'x stream_table_scheme"
    by (induction cs arbitrary: t) (simp_all add: split_def Let_def 1)
  show "disconnects (snd (close_all t)) = 0" by (simp add: close_all_def 2)
  show 3: "disconnects (snd (close_idle xs t)) = 0" for xs and t :: "'x stream_table_scheme"
    by (induction xs arbitrary: t) (auto simp: split_def Let_def 1)
  show "disconnects (snd (sweep_idle now t)) = 0" by (simp add: sweep_idle_def 3)
  show "disconnects (snd (consumer c op t)) = 0" by (simp add: consumer_def split_def Let_def 1)
qed (simp_all add: on_link_def reject_def split_def Let_def)

lemma disconnects_frame [simp]: "disconnects (snd (handle_frame now f s)) = 0"
  by (cases f) (auto simp: open_stream_def split: option.split prod.split sum.split open_error.split)

lemma disconnects_data [simp]: "disconnects (snd (handle_data now d s)) = 0"
proof (cases rule: handle_data_cases [of now d s])
  case (4 c e s1 o1)
  then show ?thesis
    using disconnects_ops(1) [of c "PushData now (drop 16 d)" s] by (simp add: split_def Let_def)
qed simp_all

lemma disconnects_handle [simp]: "disconnects (snd (fst (handle now m s))) = 0"
  by (cases "(now, m, s)" rule: handle.cases) simp_all

lemma end_session_facts [simp]:
  "disconnects (snd (end_session e r)) = Suc (disconnects (snd r))"
  "session_end (fst (end_session e r)) = Some e"
  by (simp_all add: end_session_def wind_down_def split_def Let_def)

lemma disconnects_outside: "disconnects (snd (outside_step e s)) = 0"
  by (cases "(e, s)" rule: outside_step.cases) simp_all

lemma disconnects_loop: "disconnects (snd (loop_step e s)) + running (fst (loop_step e s)) \<le> 1"
proof (cases "(e, s)" rule: loop_step.cases)
  case (1 now m s')
  then show ?thesis by (simp add: split_def running_def split: option.split)
next
  case (4 v s')
  then show ?thesis
    by (cases v) (simp_all add: decide_def send_agents_update_def running_def)
qed (simp_all add: running_def disconnects_outside send_agents_update_def del: outside_step.simps)

lemma disconnects_step:
  "session_inv s \<Longrightarrow> disconnects (snd (session_step s e)) + running (fst (session_step s e)) \<le> running s"
proof (cases "session_end s = None")
  case True
  have "running (loop_top t) \<le> running t" for t by (simp add: running_def loop_top_def)
  then have "disconnects (snd (loop_step e s)) + running (loop_top (fst (loop_step e s))) \<le> 1"
    using disconnects_loop [of e s] by (meson add_left_mono le_trans)
  then show ?thesis
    using True by (simp add: session_step_def split_def Let_def) (simp add: running_def)
next
  case False
  assume "session_inv s"
  moreover have "session_step s e = outside_step e s"
    using False unfolding session_step_def by (rule if_not_P)
  ultimately show ?thesis
    using False outside_step_inv(2) [of s e] by (simp add: disconnects_outside running_def)
qed

interpretation session_once: budget_machine session_step session_inv disconnects running "\<lambda>_. 0"
  by unfold_locales (simp add: disconnects_step)


section \<open>Properties\<close>

definition buffered :: "session \<Rightarrow> nat" where
  "buffered s = (\<Sum>(sid, c)\<leftarrow>streams s. length (unread (snd (cells s ! c))))"

lemma unread_bounded: "stream_inv s \<Longrightarrow> length (unread s) \<le> WINDOW"
  by (cases "reset_reason s") (auto simp: stream_inv_def unread_def)

lemma entry_reach:
  assumes "session_inv s" "(sid, c) \<in> set (streams s)"
  shows "c < length (cells s)" "fst (cells s ! c) = sid" "stream_reach sid (snd (cells s ! c))"
proof -
  show c: "c < length (cells s)" "fst (cells s ! c) = sid"
    using assms by (auto simp: session_inv_def table_inv_def entries_ok_def)
  then have "cells s ! c \<in> set (cells s)" by simp
  moreover have "cells_ok (cells s)" using assms by (simp add: session_inv_def table_inv_def)
  ultimately show "stream_reach sid (snd (cells s ! c))"
    using c(2) by (auto simp: cells_ok_def split: prod.splits)
qed

lemma buffered_bound:
  assumes "session_inv s"
  shows "buffered s \<le> length (streams s) * WINDOW"
proof -
  have "(\<Sum>(sid, c)\<leftarrow>streams s. length (unread (snd (cells s ! c)))) \<le> (\<Sum>e\<leftarrow>streams s. WINDOW)"
    using entry_reach(3) [OF assms] by (intro sum_list_mono) (auto intro: unread_bounded stream_reach_inv)
  then show ?thesis by (simp add: buffered_def sum_list_triv)
qed

text \<open>C29: Whatever the relay, the handler and the consumers do, in any order, a tunnel carries at
  most 256 streams under distinct ids, each id leads to the cell of that stream, every one of them
  is in a state a stream alone can reach (so what is proved of one stream holds for every stream
  of a session), and the data buffered for all of them together is at most 256 windows, 64 MiB.\<close>

theorem session_streams_bounded:
  fixes now ka as es
  defines "s \<equiv> fst (session_run (new_session now ka as) es)"
  shows "length (streams s) \<le> MAX_STREAMS \<and> distinct (map fst (streams s)) \<and>
    list_all (\<lambda>(sid, c). c < length (cells s) \<and> fst (cells s ! c) = sid \<and>
      (\<exists>t ops. snd (cells s ! c) = fst (stream_run sid (new_inner t) ops))) (streams s) \<and>
    buffered s \<le> 64 * 1024 * 1024"
proof -
  have i: "session_inv s" unfolding s_def by (rule session.run_inv [OF session_inv_new])
  then have len: "length (streams s) \<le> MAX_STREAMS" "distinct (map fst (streams s))"
    by (simp_all add: session_inv_def table_inv_def entries_ok_def hm_wf_def)
  have "length (streams s) * WINDOW \<le> MAX_STREAMS * WINDOW" using len(1) by (rule mult_right_mono) simp
  then have "buffered s \<le> 64 * 1024 * 1024"
    using buffered_bound [OF i] by (simp add: MAX_STREAMS_def WINDOW_def)
  moreover have "list_all (\<lambda>(sid, c). c < length (cells s) \<and> fst (cells s ! c) = sid \<and>
      (\<exists>t ops. snd (cells s ! c) = fst (stream_run sid (new_inner t) ops))) (streams s)"
    using entry_reach [OF i] stream_reach_run by (fastforce simp: list_all_iff)
  ultimately show ?thesis using len by blast
qed

text \<open>C30: Until the handler has accepted the relay, no browser stream reaches it and the agent list
  is not sent, whatever the relay sends and however often it tries.\<close>

theorem nothing_served_before_acceptance:
  assumes "list_all (Not \<circ> accepts) es"
  shows "list_all (list_all (Not \<circ> serves)) (snd (session_run (new_session now ka as) es))"
proof -
  have "\<not> accepted (new_session now ka as)" by (simp add: new_session_def)
  from unaccepted_run [OF this assms] show ?thesis
    by (simp add: quiet_def list_all_iff)
qed

lemma nothing_served_before_acceptance_witness:
  "list_all (list_all (Not \<circ> serves)) (snd (session_run (new_session 0 30 [])
     [Incoming 1 (Message (TextMsg (Some (StreamOpen [1] [] [])))), Incoming 2 ReadEnd]))"
  by (rule nothing_served_before_acceptance) simp

lemma handle_ends:
  assumes "handle now m s = (r, Some reason)"
  shows "r = (s, []) \<and> m = CloseMsg"
  using assms by (cases "(now, m, s)" rule: handle.cases) auto

lemma outside_running:
  "session_inv s \<Longrightarrow> session_end s = None \<Longrightarrow> session_end (fst (outside_step e s)) = None"
  using outside_step_inv(2) by simp

text \<open>A step that ends the session ends it from the state before it, its table included.\<close>

lemma ending_step:
  assumes "session_inv s" "session_end s = None" "session_end (fst (loop_step e s)) \<noteq> None"
  obtains k r where "loop_step e s = end_session k r" "streams (fst r) = streams s"
    "table_inv (fst r)" "disconnects (snd r) = 0"
proof -
  have t: "table_inv s" "core_inv s" using assms(1) by (simp_all add: session_inv_def core_inv_def)
  show ?thesis
  proof (cases "(e, s)" rule: loop_step.cases)
    case (1 now m s')
    let ?s0 = "s\<lparr>last_frame := now\<rparr>"
    obtain r reason where h: "handle now m ?s0 = (r, reason)" by fastforce
    have "session_end (fst r) = None"
      using handle_core(2) [of ?s0 now m] t(2) assms(2) h by simp
    then have "reason \<noteq> None" using 1 h assms(3) by (cases reason) auto
    then obtain x where x: "handle now m ?s0 = (r, Some x)" using h by auto
    then have "r = (?s0, [])" using handle_ends by blast
    with 1 x t show ?thesis by (intro that [of "EndLost x (accepted (fst r))" r]) simp_all
  next
    case (4 v s')
    show ?thesis
    proof (cases "verdict_done s")
      case True
      then show ?thesis using 4 assms by simp
    next
      case False
      then obtain reason where "v = Refuse reason"
        using 4 assms by (cases v) (auto simp: decide_def send_agents_update_def)
      with 4 False t show ?thesis
        by (intro that [of EndRefused "(s\<lparr>verdict_done := True\<rparr>, [])"]) (simp_all add: decide_def)
    qed
  next
    case (7 now s')
    then show ?thesis using assms(2,3) t
      by (intro that [of "EndLost (lit ''keepalive timeout'') (accepted s)" "(s, [])"])
        (simp_all split: if_splits)
  next
    case (8 now s')
    then show ?thesis using assms(2,3) table_ops_same(3) [of s now] by (simp add: same_session_def)
  qed (use t assms outside_running [OF assms(1,2)] that [of _ "(s, [])"] in
      \<open>simp_all add: send_agents_update_def del: outside_step.simps split: if_splits\<close>)
qed

text \<open>However a session ends, short of a panic, it leaves nothing behind: the table is empty and
  refuses new streams, the link is closed with no request waiting, every stream that was live has
  been reset, so that its consumer's reads and writes fail instead of hanging, and the handler is
  told exactly once over the whole session.\<close>

theorem session_end_releases_everything:
  fixes now ka as es e
  defines "s \<equiv> fst (session_run (new_session now ka as) es)"
  defines "s' \<equiv> fst (session_step s e)"
  shows "sum_list (map disconnects (snd (session_run (new_session now ka as) es))) \<le> 1 \<and>
    (session_end s = None \<longrightarrow> session_end s' \<notin> {None, Some Panicked} \<longrightarrow>
      table_closed s' \<and> streams s' = [] \<and> link_dead (lnk s') \<and>
      disconnects (snd (session_step s e)) = 1 \<and>
      list_all (\<lambda>(sid, c). reset_reason (snd (cells s' ! c)) \<noteq> None) (streams s))"
proof -
  have i: "session_inv s" unfolding s_def by (rule session.run_inv [OF session_inv_new])
  have i': "session_inv s'" unfolding s'_def by (rule session_step_inv [OF i])
  have once: "sum_list (map disconnects (snd (session_run (new_session now ka as) es))) \<le> 1"
  proof -
    have "running (new_session now ka as) \<le> 1" "(\<Sum>_\<leftarrow>es. 0) = (0 :: nat)"
      by (simp_all add: running_def)
    then show ?thesis
      using session_once.run_budget [OF session_inv_new, of now ka as es] by linarith
  qed
  have released: "table_closed s' \<and> streams s' = [] \<and> link_dead (lnk s') \<and>
      disconnects (snd (session_step s e)) = 1 \<and>
      list_all (\<lambda>(sid, c). reset_reason (snd (cells s' ! c)) \<noteq> None) (streams s)"
    if go: "session_end s = None" and fin: "session_end s' \<notin> {None, Some Panicked}"
  proof -
    have shut: "table_closed s'" "link_dead (lnk s')"
      using i' fin by (auto simp: session_inv_def)
    have "streams s' = []" using i' shut by (simp add: session_inv_def table_inv_def)
    moreover have st: "session_step s e = (loop_top (fst (loop_step e s)), snd (loop_step e s))"
      using go by (simp add: session_step_def split_def Let_def)
    have lt: "session_end (fst (loop_step e s)) = session_end s'"
      "cells s' = cells (fst (loop_step e s))"
      using fin unfolding s'_def st by (auto simp: loop_top_def split: if_splits)
    obtain k r where k: "loop_step e s = end_session k r" "streams (fst r) = streams s"
        "table_inv (fst r)" "disconnects (snd r) = 0"
      using ending_step [OF i go] fin lt(1) by (metis insertCI)
    have "disconnects (snd (session_step s e)) = 1"
      using st k by simp
    moreover have "list_all (\<lambda>(sid, c). reset_reason (snd (cells s' ! c)) \<noteq> None) (streams s)"
      using end_session_resets [OF k(3)] k(1,2) lt(2) by (auto simp: list_all_iff)
    ultimately show ?thesis using shut by blast
  qed
  show ?thesis using once released by blast
qed

lemma session_end_releases_everything_witness:
  "table_closed (fst (session_step (new_session 0 30 []) ShutdownAsked)) \<and>
   streams (fst (session_step (new_session 0 30 []) ShutdownAsked)) = []"
proof -
  have n: "session_end (new_session 0 30 []) = None"
    by (simp add: new_session_def loop_top_def instant_add_def keepalive_secs_def
        nanos_per_sec_def max_def word_le_nat_alt)
  have "session_end (fst (session_step (new_session 0 30 []) ShutdownAsked)) = Some EndShutdown"
    using n by (simp add: session_step_def split_def Let_def loop_top_def)
  then show ?thesis
    using session_end_releases_everything [of 0 30 "[]" "[]" ShutdownAsked] n by simp
qed

text \<open>Streams do not interfere: what a data message does to its stream is what it does to that
  stream alone, no other stream changes (its reader's stall or flood is its own), and data for an
  id that is not live changes nothing at all.\<close>

theorem data_touches_one_stream:
  "case table_get (take 16 data) s of
     None \<Rightarrow> fst (handle_data now data s) = s
   | Some c \<Rightarrow>
       (\<forall>c'. c' \<noteq> c \<longrightarrow> cells (fst (handle_data now data s)) ! c' = cells s ! c') \<and>
       (\<forall>sid. sid \<noteq> take 16 data \<longrightarrow> table_get sid (fst (handle_data now data s)) = table_get sid s) \<and>
       (16 \<le> length data \<longrightarrow> fst (push_data now (drop 16 data) (snd (cells s ! c))) = Inr () \<longrightarrow>
          handle_data now data s = on_cell c (PushData now (drop 16 data)) s)"
proof (cases rule: handle_data_cases [of now data s])
  case 1
  then show ?thesis by (simp split: option.split)
next
  case 2
  then show ?thesis by simp
next
  case (3 c)
  then show ?thesis
    by (simp add: fst_on_cell cell_update_def table_get_def)
next
  case (4 c e s1 o1)
  have "s1 = s\<lparr>cells := cell_update c (PushData now (drop 16 data)) (cells s)\<rparr>"
    using fst_on_cell [of c "PushData now (drop 16 data)" s] 4(4) by simp
  with 4 show ?thesis
    by (simp add: split_def Let_def fst_on_cell cell_update_def table_get_def table_remove_def)
qed

lemma data_touches_one_stream_witness:
  "handle_data 3 (replicate 16 0 @ [7]) (snd (table_open 0 (replicate 16 0) (new_session 0 30 [])))
   = on_cell 0 (PushData 3 [7]) (snd (table_open 0 (replicate 16 0) (new_session 0 30 [])))"
proof -
  let ?s = "snd (table_open 0 (replicate 16 0) (new_session 0 30 []))"
  have s: "table_get (replicate 16 0) ?s = Some 0" "snd (cells ?s ! 0) = new_inner 0"
    by (simp_all add: table_open_def table_get_def new_session_def loop_top_def MAX_STREAMS_def
        hm_contains_get)
  then have "fst (push_data 3 [7] (snd (cells ?s ! 0))) = Inr ()"
    by (simp add: new_inner_def push_data_def MAX_CHUNK_def WINDOW_def)
  then show ?thesis
    using data_touches_one_stream [where data = "replicate 16 0 @ [7]" and s = ?s and now = 3] s(1)
    by simp
qed

text \<open>The keepalive timeout is three times the announced interval (one second at least) exactly
  when the multiplication does not overflow. The interval is the relay's and is not checked: an
  announced interval of 6148914691236517206 seconds wraps to a timeout of two seconds, and one of
  \<open>2 ^ 62\<close> seconds makes the first deadline leave the clock's range, so that the session panics
  before it reads anything and neither closes its table nor tells the handler.\<close>

theorem keepalive_interval_unchecked:
  "(\<not> keepalive_overflows k \<longrightarrow> unat (keepalive_secs k) = 3 * max (unat k) 1) \<and>
   keepalive_secs 6148914691236517206 = 2 \<and>
   session_end (new_session now (2 ^ 62) as) = Some Panicked \<and>
   disconnects (snd (session_step (new_session now (2 ^ 62) as) e)) = 0"
proof -
  have m: "unat (max k 1) = max (unat k) 1"
    by (simp add: max_def word_le_nat_alt)
  have "unat (keepalive_secs k) = 3 * max (unat k) 1" if "\<not> keepalive_overflows k"
    using that by (simp add: keepalive_overflows_def keepalive_secs_def unat_word_ariths m mult.commute)
  moreover have "max 6148914691236517206 1 = (6148914691236517206 :: u64)"
    by (simp add: max_def word_le_nat_alt)
  then have "keepalive_secs 6148914691236517206 = 2" by (simp add: keepalive_secs_def)
  moreover have "max (2 ^ 62) 1 = (2 ^ 62 :: u64)" by (simp add: max_def word_le_nat_alt)
  then have big: "unat (keepalive_secs (2 ^ 62)) = 3 * 2 ^ 62" by (simp add: keepalive_secs_def)
  have "(3 :: nat) * 2 ^ 62 \<le> (now + 3 * 2 ^ 62 * nanos_per_sec) div nanos_per_sec"
    by (simp add: nanos_per_sec_def)
  then have "instant_add now (unat (keepalive_secs (2 ^ 62)) * nanos_per_sec) = None"
    unfolding instant_add_def big by simp
  then have p: "session_end (new_session now (2 ^ 62) as) = Some Panicked"
    unfolding new_session_def loop_top_def by simp
  moreover have "disconnects (snd (session_step (new_session now (2 ^ 62) as) e)) = 0"
    using p disconnects_step [OF session_inv_new, of now "2 ^ 62" as e] by (simp add: running_def)
  ultimately show ?thesis by blast
qed

lemma keepalive_interval_unchecked_witness: "unat (keepalive_secs 30) = 90"
proof -
  have "\<not> keepalive_overflows 30"
    by (simp add: keepalive_overflows_def max_def word_le_nat_alt)
  then show ?thesis using keepalive_interval_unchecked [of 30 0 "[]" ShutdownAsked] by simp
qed

end
