(* ===== verification/Tunnel_Connection.thy ===== *)
theory Tunnel_Connection
  imports Tunnel_Session
begin

text \<open>
  The two ends of a session's life: the writer task that drains the outbound queues
  (\<open>write_loop\<close> in \<open>crates/net/src/tunnel/v2/session.rs\<close>, \<open>Outbox\<close> in \<open>stream.rs\<close>), and the loop
  that keeps the tunnel connected (\<open>crates/net/src/tunnel/connection.rs\<close>).
\<close>

section \<open>The outbound queues and their writer\<close>

datatype ws_out = FrameOut v2frame | DataOut "byte list" | CloseOut

record outbox =
  ordered :: "ws_out list"
  control :: "ws_out list"
  writer_open :: bool

definition new_outbox :: outbox where
  "new_outbox = \<lparr>ordered = [], control = [], writer_open = True\<rparr>"

datatype outbox_op =
    SendControl ws_out
  | SendOrdered ws_out
  | WriterTurn bool \<comment> \<open>whether the websocket takes the message\<close>

datatype outbox_out = AcceptedOrdered ws_out | WroteControl ws_out | WroteOrdered ws_out | WriterStopped

text \<open>The unbounded queue always takes a message while the writer lives; a refusal is only logged.\<close>

definition send_control :: "ws_out \<Rightarrow> outbox \<Rightarrow> outbox \<times> outbox_out list" where
  "send_control m b = (if writer_open b then b\<lparr>control := control b @ [m]\<rparr> else b, [])"

text \<open>The bounded queue takes a message when it has room.\<close>

definition send_ordered :: "ws_out \<Rightarrow> outbox \<Rightarrow> outbox \<times> outbox_out list" where
  "send_ordered m b =
     (if writer_open b \<and> length (ordered b) < ORDERED_QUEUE
      then (b\<lparr>ordered := ordered b @ [m]\<rparr>, [AcceptedOrdered m]) else (b, []))"

text \<open>One turn of the writer: control frames first; a failed write or a close stops it.\<close>

definition write_turn :: "bool \<Rightarrow> outbox \<Rightarrow> outbox \<times> outbox_out list" where
  "write_turn ok b =
     (if \<not> writer_open b then (b, [])
      else (case (control b, ordered b) of
          (m # rest, _) \<Rightarrow>
            if \<not> ok then (b\<lparr>writer_open := False\<rparr>, [WriterStopped])
            else if m = CloseOut
              then (b\<lparr>control := rest, writer_open := False\<rparr>, [WroteControl m, WriterStopped])
            else (b\<lparr>control := rest\<rparr>, [WroteControl m])
        | ([], m # rest) \<Rightarrow>
            if \<not> ok then (b\<lparr>writer_open := False\<rparr>, [WriterStopped])
            else if m = CloseOut
              then (b\<lparr>ordered := rest, writer_open := False\<rparr>, [WroteOrdered m, WriterStopped])
            else (b\<lparr>ordered := rest\<rparr>, [WroteOrdered m])
        | ([], []) \<Rightarrow> (b, [])))"

fun outbox_step :: "outbox \<Rightarrow> outbox_op \<Rightarrow> outbox \<times> outbox_out list" where
  "outbox_step b (SendControl m) = send_control m b"
| "outbox_step b (SendOrdered m) = send_ordered m b"
| "outbox_step b (WriterTurn ok) = write_turn ok b"

fun ordered_in :: "outbox_out \<Rightarrow> ws_out list" where
  "ordered_in (AcceptedOrdered m) = [m]"
| "ordered_in _ = []"

fun ordered_out :: "outbox_out \<Rightarrow> ws_out list" where
  "ordered_out (WroteOrdered m) = [m]"
| "ordered_out _ = []"

text \<open>A stream puts only data and closes of streams on the ordered queue, never the websocket close.\<close>

definition outbox_inv :: "outbox \<Rightarrow> bool" where
  "outbox_inv b \<longleftrightarrow> length (ordered b) \<le> ORDERED_QUEUE"

text \<open>The ordered queue as a pipe; once the writer has stopped nothing moves any more.\<close>

definition stopped :: "outbox \<Rightarrow> bool" where
  "stopped b \<longleftrightarrow> \<not> writer_open b"

lemma outbox_step_inv: "outbox_inv b \<Longrightarrow> outbox_inv (fst (outbox_step b op))"
  by (cases op) (auto simp: outbox_inv_def send_control_def send_ordered_def write_turn_def
      split: list.split)

interpretation outbox_machine: machine outbox_step outbox_inv
  by unfold_locales (rule outbox_step_inv)

abbreviation outbox_run :: "outbox \<Rightarrow> outbox_op list \<Rightarrow> outbox \<times> outbox_out list list" where
  "outbox_run \<equiv> run_machine outbox_step"

definition put_in :: "outbox_out list \<Rightarrow> ws_out list" where
  "put_in outs = concat (map ordered_in outs)"

definition put_out :: "outbox_out list \<Rightarrow> ws_out list" where
  "put_out outs = concat (map ordered_out outs)"

lemma ordered_step:
  "put_out (snd (outbox_step b op)) @ ordered (fst (outbox_step b op))
     = ordered b @ put_in (snd (outbox_step b op))"
  by (cases op) (auto simp: send_control_def send_ordered_def write_turn_def put_in_def put_out_def
      split: list.split)

lemma stopped_step: "stopped b \<Longrightarrow> outbox_step b op = (b, [])"
  by (cases op) (simp_all add: stopped_def send_control_def send_ordered_def write_turn_def)

interpretation outbox_pipe: pipe_machine outbox_step outbox_inv ordered put_in put_out "\<lambda>_. False"
  by unfold_locales (simp_all add: ordered_step)

text \<open>What a tunnel's streams put on the ordered queue is written to the websocket in the order
  it was put, without loss or duplication, however control frames overtake it: what was written
  followed by what is still queued is what was accepted. A stream's close therefore follows its
  data. The queue never holds more than 64 messages, and after a websocket close or a failed
  write nothing is written any more.\<close>

theorem ordered_queue_is_fifo:
  fixes ops later
  defines "r \<equiv> outbox_run new_outbox ops"
  shows "concat (map put_out (snd r)) @ ordered (fst r) = concat (map put_in (snd r)) \<and>
    length (ordered (fst r)) \<le> ORDERED_QUEUE \<and>
    (stopped (fst r) \<longrightarrow> concat (snd (outbox_run (fst r) later)) = [])"
proof -
  have i: "outbox_inv new_outbox" by (simp add: outbox_inv_def new_outbox_def)
  have "concat (snd (outbox_run b later)) = []" if "stopped b" for b
    using that by (induction later) (simp_all add: stopped_step)
  then show ?thesis
    using outbox_pipe.run_pipe [OF i, of ops] outbox_machine.run_inv [OF i, of ops]
    by (simp add: r_def outbox_inv_def) (simp add: new_outbox_def)
qed

lemma ordered_queue_is_fifo_witness:
  "concat (snd (outbox_run (fst (outbox_run new_outbox [SendControl CloseOut, WriterTurn True]))
     [SendOrdered (DataOut [1]), WriterTurn True])) = []"
proof -
  have "stopped (fst (outbox_run new_outbox [SendControl CloseOut, WriterTurn True]))"
    by (simp add: stopped_def new_outbox_def send_control_def write_turn_def)
  then show ?thesis
    using ordered_queue_is_fifo [of "[SendControl CloseOut, WriterTurn True]"
        "[SendOrdered (DataOut [1]), WriterTurn True]"] by blast
qed

text \<open>Control frames first: while one is queued, no ordered message is written.\<close>

lemma control_first: "control b \<noteq> [] \<Longrightarrow> put_out (snd (write_turn ok b)) = []"
  by (cases "control b") (auto simp: write_turn_def put_out_def)

section \<open>Keeping the tunnel connected\<close>

definition MIN_BACKOFF :: nat where "MIN_BACKOFF = 1 * nanos_per_sec"
definition MAX_BACKOFF :: nat where "MAX_BACKOFF = 60 * nanos_per_sec"

text \<open>\<open>jitter\<close> stands for multiplying by a random factor between 0.5 and 1.5.\<close>

definition next_backoff :: "(nat \<Rightarrow> nat) \<Rightarrow> nat \<Rightarrow> nat" where
  "next_backoff jitter current = jitter (min (2 * current) MAX_BACKOFF)"

definition is_jitter :: "(nat \<Rightarrow> nat) \<Rightarrow> bool" where
  "is_jitter jitter \<longleftrightarrow> (\<forall>d. d \<le> 2 * jitter d \<and> 2 * jitter d \<le> 3 * d)"

datatype step = Done | Reconnect | Wait "nat option"

datatype connect_outcome =
    BadUrl
  | BadRequest
  | Unsupported
  | Unauthorized
  | ConnectFailed
  | SessionRan session_end tunnel_status \<comment> \<open>how the session ended, and the status it left\<close>

text \<open>One attempt: what the loop does next, the status published, whether the handler is told that
  the relay offers no tunnel.\<close>

fun attempt :: "connect_outcome \<Rightarrow> tunnel_status \<Rightarrow> step \<times> tunnel_status \<times> bool" where
  "attempt BadUrl st = (Wait (Some MAX_BACKOFF), Disconnected, False)"
| "attempt BadRequest st = (Wait None, st, False)"
| "attempt Unsupported st = (Wait None, Disconnected, True)"
| "attempt Unauthorized st = (Wait (Some MAX_BACKOFF), RefusedToken, False)"
| "attempt ConnectFailed st = (Wait None, st, False)"
| "attempt (SessionRan EndShutdown st') st = (Done, st', False)"
| "attempt (SessionRan EndRefused st') st = (Wait (Some MAX_BACKOFF), Disconnected, False)"
| "attempt (SessionRan (EndLost reason acc) st') st = (if acc then Reconnect else Wait None, st', False)"
| "attempt (SessionRan Panicked st') st = (Done, st', False)" \<comment> \<open>the task is gone\<close>

record client =
  backoff :: nat
  first_attempt :: bool
  status :: tunnel_status
  finished :: bool

definition new_client :: "tunnel_status \<Rightarrow> client" where
  "new_client st = \<lparr>backoff = MIN_BACKOFF, first_attempt = True, status = st, finished = False\<rparr>"

text \<open>
  One round of \<open>start_tunnel\<close>: the shutdown flag as the round finds it, the outcome of the attempt
  and the jitter of its backoff. It puts out the time waited before the next round, if any.
\<close>

definition before_attempt :: "client \<Rightarrow> tunnel_status" where
  "before_attempt c =
     (if \<not> first_attempt c \<and> status c = RefusedToken then RefusedToken else Connecting)"

definition client_step :: "client \<Rightarrow> bool \<times> connect_outcome \<times> (nat \<Rightarrow> nat) \<Rightarrow> client \<times> nat option" where
  "client_step c e =
     (case e of (shutdown, outcome, jitter) \<Rightarrow>
        if finished c then (c, None)
        else if shutdown then (c\<lparr>status := Disconnected, finished := True\<rparr>, None)
        else (case attempt outcome (before_attempt c) of (st, new_status, _) \<Rightarrow>
          let c1 = c\<lparr>first_attempt := False, status := new_status\<rparr>
          in (case st of
                Done \<Rightarrow> (c1\<lparr>finished := True\<rparr>, None)
              | Reconnect \<Rightarrow> (c1\<lparr>backoff := MIN_BACKOFF\<rparr>, None)
              | Wait w \<Rightarrow>
                  (c1\<lparr>backoff := next_backoff jitter (backoff c)\<rparr>,
                   Some (case w of Some d \<Rightarrow> d | None \<Rightarrow> backoff c)))))"

definition client_inv :: "client \<Rightarrow> bool" where
  "client_inv c \<longleftrightarrow> MIN_BACKOFF \<le> backoff c \<and> backoff c \<le> 90 * nanos_per_sec"

lemma next_backoff_bounds:
  assumes "is_jitter jitter" "MIN_BACKOFF \<le> b"
  shows "MIN_BACKOFF \<le> next_backoff jitter b" "next_backoff jitter b \<le> 90 * nanos_per_sec"
proof -
  let ?d = "min (2 * b) MAX_BACKOFF"
  have d: "2 * MIN_BACKOFF \<le> ?d" "?d \<le> 60 * nanos_per_sec"
    using assms(2) by (simp_all add: MIN_BACKOFF_def MAX_BACKOFF_def)
  have j: "?d \<le> 2 * jitter ?d" "2 * jitter ?d \<le> 3 * ?d" using assms(1) by (auto simp: is_jitter_def)
  show "MIN_BACKOFF \<le> next_backoff jitter b" unfolding next_backoff_def using d(1) j(1) by linarith
  show "next_backoff jitter b \<le> 90 * nanos_per_sec" unfolding next_backoff_def using d(2) j(2) by linarith
qed

lemma client_step_inv:
  "client_inv c \<Longrightarrow> is_jitter (snd (snd e)) \<Longrightarrow> client_inv (fst (client_step c e))"
  using next_backoff_bounds [of "snd (snd e)" "backoff c"]
  by (auto simp: client_inv_def client_step_def Let_def MIN_BACKOFF_def
      split: prod.splits step.splits)

lemma client_step_wait:
  "client_inv c \<Longrightarrow> snd (client_step c e) = Some w \<Longrightarrow> MIN_BACKOFF \<le> w \<and> w \<le> 90 * nanos_per_sec"
  by (cases e; cases "fst (snd e)" rule: attempt.cases [of "(x, y)" for x y])
    (auto simp: client_step_def client_inv_def Let_def MIN_BACKOFF_def MAX_BACKOFF_def
      split: prod.splits step.splits if_splits option.splits)

lemma client_run_inv:
  "client_inv c \<Longrightarrow> list_all (\<lambda>e. is_jitter (snd (snd e))) es \<Longrightarrow>
     client_inv (fst (run_machine client_step c es)) \<and>
     (\<forall>w. Some w \<in> set (snd (run_machine client_step c es)) \<longrightarrow>
        MIN_BACKOFF \<le> w \<and> w \<le> 90 * nanos_per_sec)"
proof (induction es arbitrary: c)
  case Nil
  then show ?case by simp
next
  case (Cons e es)
  have "client_inv (fst (client_step c e))" using Cons.prems by (intro client_step_inv) simp_all
  with Cons.IH [of "fst (client_step c e)"] Cons.prems client_step_wait [OF Cons.prems(1)]
  show ?case by (auto simp: eq_commute)
qed


text \<open>Whatever the relay answers round after round, the tunnel waits between one second and a
  minute and a half before the next attempt, or not at all after a session the handler had
  accepted; a refused token always waits the full minute and stays the published status while the
  next attempt runs; and only a shutdown (or a panic) ends the loop.\<close>

theorem reconnect_waits_bounded:
  fixes st es shutdown outcome jitter
  defines "c \<equiv> fst (run_machine client_step (new_client st) es)"
  assumes "list_all (\<lambda>e. is_jitter (snd (snd e))) es"
  shows "(\<forall>w\<in>set (snd (run_machine client_step (new_client st) es)).
      w = None \<or> (\<exists>d. w = Some d \<and> nanos_per_sec \<le> d \<and> d \<le> 90 * nanos_per_sec)) \<and>
    (let (c', w) = client_step c (False, outcome, jitter) in
       (\<not> finished c \<longrightarrow> finished c' \<longrightarrow> (\<exists>e st'. outcome = SessionRan e st' \<and> e \<in> {EndShutdown, Panicked})) \<and>
       (\<not> finished c \<longrightarrow> outcome = Unauthorized \<longrightarrow>
          w = Some MAX_BACKOFF \<and> before_attempt c' = RefusedToken))"
proof
  have i: "client_inv (new_client st)"
    by (simp add: client_inv_def new_client_def MIN_BACKOFF_def)
  show "\<forall>w\<in>set (snd (run_machine client_step (new_client st) es)).
      w = None \<or> (\<exists>d. w = Some d \<and> nanos_per_sec \<le> d \<and> d \<le> 90 * nanos_per_sec)"
    using client_run_inv [OF i assms(2)] by (auto simp: MIN_BACKOFF_def) (metis not_None_eq)
  show "let (c', w) = client_step c (False, outcome, jitter) in
       (\<not> finished c \<longrightarrow> finished c' \<longrightarrow> (\<exists>e st'. outcome = SessionRan e st' \<and> e \<in> {EndShutdown, Panicked})) \<and>
       (\<not> finished c \<longrightarrow> outcome = Unauthorized \<longrightarrow>
          w = Some MAX_BACKOFF \<and> before_attempt c' = RefusedToken)"
    by (cases "(outcome, before_attempt c)" rule: attempt.cases)
      (auto simp: client_step_def Let_def before_attempt_def)
qed

lemma reconnect_waits_bounded_witness:
  "snd (client_step (fst (run_machine client_step (new_client Disconnected)
      [(False, ConnectFailed, id)])) (False, Unauthorized, id)) = Some MAX_BACKOFF"
proof -
  have "list_all (\<lambda>e :: bool \<times> connect_outcome \<times> (nat \<Rightarrow> nat). is_jitter (snd (snd e)))
      [(False, ConnectFailed, id)]"
    by (simp add: is_jitter_def)
  from reconnect_waits_bounded [OF this, of Disconnected Unauthorized id] show ?thesis
    by (simp add: split_def Let_def)
      (simp add: client_step_def new_client_def before_attempt_def)
qed

end
