(* ===== verification/Pairing_Limits.thy ===== *)
theory Pairing_Limits
  imports Prelude
begin

text \<open>
  The sliding-window limits on the pairing routes a stranger can reach
  (\<open>crates/net/src/pairing/limits.rs\<close>): the limiter as the code keeps it, a specification that
  decides over the whole history of allowed attempts, and the simulation between the two.
\<close>

definition PER_PEER_LIMIT :: nat where "PER_PEER_LIMIT = 10"
definition PER_INSTANCE_LIMIT :: nat where "PER_INSTANCE_LIMIT = 60"
definition WINDOW_SECS :: int where "WINDOW_SECS = 60"
definition UNKNOWN_PEER :: ustring where "UNKNOWN_PEER = lit ''unknown''"

datatype limit_hit = PeerLimit | InstanceLimit

record limiter =
  peers :: "(ustring, datetime list) hmap"
  all_hits :: "datetime list"

definition new_limiter :: limiter where
  "new_limiter = \<lparr>peers = [], all_hits = []\<rparr>"

definition prune :: "datetime \<Rightarrow> datetime list \<Rightarrow> datetime list" where
  "prune cutoff hits = dropWhile (\<lambda>at. at \<le> cutoff) hits"

text \<open>\<open>peers.retain\<close>, whose closure prunes each list before it decides.\<close>

definition retain_pruned :: "datetime \<Rightarrow> (ustring, datetime list) hmap \<Rightarrow> (ustring, datetime list) hmap" where
  "retain_pruned cutoff m = filter (\<lambda>(k, hits). hits \<noteq> []) (map (\<lambda>(k, hits). (k, prune cutoff hits)) m)"

definition peer_key :: "ustring option \<Rightarrow> ustring" where
  "peer_key peer = (case peer of Some p \<Rightarrow> p | None \<Rightarrow> UNKNOWN_PEER)"

definition window_start :: "datetime \<Rightarrow> datetime" where
  "window_start now = now - dur_secs WINDOW_SECS"

definition check :: "ustring option \<Rightarrow> datetime \<Rightarrow> limiter \<Rightarrow> (limit_hit + unit) \<times> limiter" where
  "check peer now l =
     (let cutoff = window_start now;
          all = prune cutoff (all_hits l);
          m = retain_pruned cutoff (peers l);
          l1 = \<lparr>peers = m, all_hits = all\<rparr>
      in if length all \<ge> PER_INSTANCE_LIMIT then (Inl InstanceLimit, l1)
         else
           let key = peer_key peer;
               hits = (case hm_get m key of Some h \<Rightarrow> h | None \<Rightarrow> []);
               m' = (if hm_contains m key then m else hm_insert key [] m)
           in if length hits \<ge> PER_PEER_LIMIT then (Inl PeerLimit, l1\<lparr>peers := m'\<rparr>)
              else (Inr (), \<lparr>peers = hm_insert key (hits @ [now]) m', all_hits = all @ [now]\<rparr>))"

section \<open>The specification\<close>

text \<open>The history of allowed attempts, oldest first, and the decision over the last minute of it.\<close>

type_synonym history = "(ustring \<times> datetime) list"

definition recent :: "datetime \<Rightarrow> history \<Rightarrow> history" where
  "recent now h = filter (\<lambda>e. window_start now < snd e) h"

definition of_peer :: "ustring \<Rightarrow> history \<Rightarrow> history" where
  "of_peer p h = filter (\<lambda>e. fst e = p) h"

definition spec_check :: "ustring option \<Rightarrow> datetime \<Rightarrow> history \<Rightarrow> (limit_hit + unit) \<times> history" where
  "spec_check peer now h =
     (if length (recent now h) \<ge> PER_INSTANCE_LIMIT then (Inl InstanceLimit, h)
      else if length (of_peer (peer_key peer) (recent now h)) \<ge> PER_PEER_LIMIT then (Inl PeerLimit, h)
      else (Inr (), h @ [(peer_key peer, now)]))"

fun attempts :: "('s \<Rightarrow> ustring option \<times> datetime \<Rightarrow> 'r \<times> 's) \<Rightarrow> 's \<Rightarrow> (ustring option \<times> datetime) list \<Rightarrow> 'r list"
where
  "attempts f s [] = []"
| "attempts f s (a # as) = fst (f s a) # attempts f (snd (f s a)) as"

section \<open>The simulation\<close>

definition sorted_times :: "history \<Rightarrow> bool" where
  "sorted_times h \<longleftrightarrow> sorted (map snd h)"

definition hits_of :: "datetime \<Rightarrow> history \<Rightarrow> ustring \<Rightarrow> datetime list option" where
  "hits_of now h p =
     (let hs = map snd (of_peer p (recent now h)) in if hs = [] then None else Some hs)"

text \<open>The limiter after a check at \<open>now\<close> keeps exactly the last minute of the history.\<close>

definition keeps :: "datetime \<Rightarrow> history \<Rightarrow> limiter \<Rightarrow> bool" where
  "keeps now h l \<longleftrightarrow>
     hm_wf (peers l) \<and> all_hits l = map snd (recent now h) \<and> hm_get (peers l) = hits_of now h \<and>
     sorted_times h \<and> (\<forall>e\<in>set h. snd e \<le> now)"

lemma keeps_new: "keeps now [] new_limiter"
  by (auto simp: keeps_def new_limiter_def recent_def hits_of_def of_peer_def sorted_times_def
      fun_eq_iff)

lemma sorted_recent: "sorted_times h \<Longrightarrow> sorted_times (recent now h)"
  by (simp add: sorted_times_def recent_def sorted_filter)

lemma sorted_of_peer: "sorted_times h \<Longrightarrow> sorted_times (of_peer p h)"
  by (simp add: sorted_times_def of_peer_def sorted_filter)

lemma prune_recent:
  assumes "sorted_times h" "now \<le> now'"
  shows "prune (window_start now') (map snd (recent now h)) = map snd (recent now' h)"
proof -
  have s: "sorted (map snd (recent now h))" using sorted_recent [OF assms(1)] by (simp add: sorted_times_def)
  have "filter (\<lambda>x. window_start now' < x) (map snd (recent now h))
      = map snd (filter (\<lambda>e. window_start now' < snd e) (recent now h))"
    by (simp add: filter_map comp_def)
  also have "filter (\<lambda>e. window_start now' < snd e) (recent now h) = recent now' h"
    using assms(2) by (auto simp: recent_def window_start_def intro!: filter_cong)
  finally show ?thesis
    by (simp add: prune_def dropWhile_filter_sorted [OF s])
qed

lemma of_peer_recent: "of_peer p (recent now h) = recent now (of_peer p h)"
  by (simp add: of_peer_def recent_def conj_commute)

lemma hm_get_map_filter:
  "hm_wf m \<Longrightarrow> hm_get (filter (\<lambda>(k, v). v \<noteq> []) (map (\<lambda>(k, v). (k, f v)) m)) p =
     (case hm_get m p of None \<Rightarrow> None | Some v \<Rightarrow> if f v = [] then None else Some (f v))"
proof (induction m)
  case Nil
  then show ?case by (simp add: hm_get_def)
next
  case (Cons e m)
  obtain k v where e: "e = (k, v)" by fastforce
  have wf: "hm_wf m" and notin: "hm_get m k = None"
    using Cons.prems by (auto simp: hm_wf_def hm_get_None e)
  have none: "hm_get (filter (\<lambda>(k, v). v \<noteq> []) (map (\<lambda>(k, v). (k, f v)) m)) k = None"
    using notin by (force simp: hm_get_None)
  show ?case
    using Cons.IH [OF wf] notin none by (auto simp: e hm_get_def)
qed

lemma retain_pruned_wf: "hm_wf m \<Longrightarrow> hm_wf (retain_pruned c m)"
  by (auto simp: hm_wf_def retain_pruned_def comp_def split_def distinct_map_filter)

text \<open>The pruning of a check, before it decides.\<close>

lemma keeps_pruned:
  assumes "keeps now h l" "now \<le> now'"
  shows "keeps now' h \<lparr>peers = retain_pruned (window_start now') (peers l),
    all_hits = prune (window_start now') (all_hits l)\<rparr>"
proof -
  have k: "hm_wf (peers l)" "all_hits l = map snd (recent now h)" "hm_get (peers l) = hits_of now h"
    "sorted_times h" "\<forall>e\<in>set h. snd e \<le> now" using assms(1) by (simp_all add: keeps_def)
  have "hm_get (retain_pruned (window_start now') (peers l)) p = hits_of now' h p" for p
  proof -
    have "prune (window_start now') (map snd (of_peer p (recent now h))) = map snd (of_peer p (recent now' h))"
      using prune_recent [OF sorted_of_peer [OF k(4)] assms(2)] by (simp add: of_peer_recent)
    then show ?thesis
      unfolding retain_pruned_def hm_get_map_filter [OF k(1)] k(3)
      by (auto simp: hits_of_def Let_def prune_def)
  qed
  then show ?thesis
    using k assms(2) prune_recent [OF k(4) assms(2)]
    by (auto simp: keeps_def retain_pruned_wf)
qed

lemma keeps_allowed:
  assumes "keeps now h l" "hs = (case hm_get (peers l) p of Some x \<Rightarrow> x | None \<Rightarrow> [])"
  shows "keeps now (h @ [(p, now)])
    \<lparr>peers = hm_insert p (hs @ [now]) (if hm_contains (peers l) p then peers l else hm_insert p [] (peers l)),
     all_hits = all_hits l @ [now]\<rparr>"
proof -
  have k: "hm_wf (peers l)" "all_hits l = map snd (recent now h)" "hm_get (peers l) = hits_of now h"
    "sorted_times h" "\<forall>e\<in>set h. snd e \<le> now" using assms(1) by (simp_all add: keeps_def)
  have "window_start now < now" by (simp add: window_start_def WINDOW_SECS_def dur_defs)
  then have r: "recent now (h @ [(p, now)]) = recent now h @ [(p, now)]" by (simp add: recent_def)
  have o: "of_peer q (xs @ [(p, now)]) = of_peer q xs @ (if q = p then [(p, now)] else [])" for q xs
    by (simp add: of_peer_def)
  have hs: "hs = map snd (of_peer p (recent now h))"
    using assms(2) k(3) by (simp add: hits_of_def Let_def split: if_splits)
  show ?thesis
    using k r o hs
    by (auto simp: keeps_def hits_of_def Let_def fun_eq_iff sorted_times_def sorted_append)
qed

lemma keeps_entry:
  assumes "keeps now h l" "length (case hm_get (peers l) p of Some x \<Rightarrow> x | None \<Rightarrow> []) \<ge> PER_PEER_LIMIT"
  shows "hm_contains (peers l) p"
  using assms(2) by (simp add: hm_contains_get PER_PEER_LIMIT_def split: option.splits)

lemma check_simulates:
  assumes "keeps t h l" "t \<le> now"
  shows "fst (check peer now l) = fst (spec_check peer now h)"
    and "keeps now (snd (spec_check peer now h)) (snd (check peer now l))"
proof -
  let ?l = "\<lparr>peers = retain_pruned (window_start now) (peers l),
    all_hits = prune (window_start now) (all_hits l)\<rparr>"
  have k: "keeps now h ?l" by (rule keeps_pruned [OF assms])
  then have all: "all_hits ?l = map snd (recent now h)" and get: "hm_get (peers ?l) = hits_of now h"
    by (simp_all add: keeps_def)
  let ?key = "peer_key peer"
  let ?hs = "case hm_get (peers ?l) ?key of Some x \<Rightarrow> x | None \<Rightarrow> []"
  have len: "length ?hs = length (of_peer ?key (recent now h))"
    unfolding get by (simp add: hits_of_def Let_def)
  have lall: "length (prune (window_start now) (all_hits l)) = length (recent now h)"
    using arg_cong [OF all, of length] by simp
  consider "length (recent now h) \<ge> PER_INSTANCE_LIMIT"
    | "length (recent now h) < PER_INSTANCE_LIMIT" "length ?hs \<ge> PER_PEER_LIMIT"
    | "length (recent now h) < PER_INSTANCE_LIMIT" "length ?hs < PER_PEER_LIMIT" by linarith
  then have "fst (check peer now l) = fst (spec_check peer now h) \<and>
    keeps now (snd (spec_check peer now h)) (snd (check peer now l))"
  proof cases
    case 1
    then show ?thesis using k lall by (simp add: check_def spec_check_def Let_def)
  next
    case 2
    have "hm_contains (peers ?l) ?key" by (rule keeps_entry [OF k 2(2)])
    with 2 k lall len show ?thesis by (simp add: check_def spec_check_def Let_def)
  next
    case 3
    then have "check peer now l = (Inr (),
        \<lparr>peers = hm_insert ?key (?hs @ [now])
            (if hm_contains (peers ?l) ?key then peers ?l else hm_insert ?key [] (peers ?l)),
         all_hits = all_hits ?l @ [now]\<rparr>)"
      using lall by (simp add: check_def Let_def)
    moreover have "spec_check peer now h = (Inr (), h @ [(?key, now)])"
      using 3 len by (simp add: spec_check_def)
    ultimately show ?thesis using keeps_allowed [OF k refl, of ?key] by simp
  qed
  then show "fst (check peer now l) = fst (spec_check peer now h)"
    and "keeps now (snd (spec_check peer now h)) (snd (check peer now l))" by auto
qed

text \<open>A clock that does not run backwards.\<close>

definition in_order :: "(ustring option \<times> datetime) list \<Rightarrow> bool" where
  "in_order as \<longleftrightarrow> sorted (map snd as)"

lemma attempts_simulate:
  "keeps t h l \<Longrightarrow> in_order as \<Longrightarrow> (\<And>a. a \<in> set as \<Longrightarrow> t \<le> snd a) \<Longrightarrow>
     attempts (\<lambda>l (peer, now). check peer now l) l as =
     attempts (\<lambda>h (peer, now). spec_check peer now h) h as"
proof (induction as arbitrary: t h l)
  case Nil
  then show ?case by simp
next
  case (Cons a as)
  obtain peer now where a: "a = (peer, now)" by fastforce
  have "t \<le> now" using Cons.prems(3) [of a] a by simp
  note sim = check_simulates [OF Cons.prems(1) this, of peer]
  have "attempts (\<lambda>l (peer, now). check peer now l) (snd (check peer now l)) as =
     attempts (\<lambda>h (peer, now). spec_check peer now h) (snd (spec_check peer now h)) as"
    using Cons.prems(2) a by (intro Cons.IH [OF sim(2)]) (auto simp: in_order_def)
  with sim(1) show ?case by (simp add: a)
qed

section \<open>What the specification promises\<close>

fun history_of :: "history \<Rightarrow> (ustring option \<times> datetime) list \<Rightarrow> history" where
  "history_of h [] = h"
| "history_of h ((peer, now) # as) = history_of (snd (spec_check peer now h)) as"

definition within :: "datetime \<Rightarrow> history \<Rightarrow> history" where
  "within start h = filter (\<lambda>e. start < snd e \<and> snd e \<le> start + dur_secs WINDOW_SECS) h"

definition limited :: "history \<Rightarrow> bool" where
  "limited h \<longleftrightarrow> (\<forall>start. length (within start h) \<le> PER_INSTANCE_LIMIT \<and>
     (\<forall>p. length (of_peer p (within start h)) \<le> PER_PEER_LIMIT))"

lemma within_new:
  assumes "\<forall>e\<in>set h. snd e \<le> now" "start < now" "now \<le> start + dur_secs WINDOW_SECS"
  shows "length (filter P (within start h)) \<le> length (filter P (recent now h))"
proof -
  have "filter P (within start h) = filter (\<lambda>e. (start < snd e \<and> snd e \<le> start + dur_secs WINDOW_SECS) \<and> P e) h"
    by (simp add: within_def conj_commute)
  also have "length \<dots> \<le> length (filter (\<lambda>e. window_start now < snd e \<and> P e) h)"
    using assms by (intro length_filter_mono) (auto simp: window_start_def)
  also have "filter (\<lambda>e. window_start now < snd e \<and> P e) h = filter P (recent now h)"
    by (simp add: recent_def conj_commute)
  finally show ?thesis .
qed

lemma limited_step:
  assumes "limited h" "\<forall>e\<in>set h. snd e \<le> now"
  shows "limited (snd (spec_check peer now h))"
proof (cases "fst (spec_check peer now h)")
  case (Inl e)
  then show ?thesis using assms by (simp add: spec_check_def split: if_splits)
next
  case (Inr u)
  then have ok: "length (recent now h) < PER_INSTANCE_LIMIT"
      "length (of_peer (peer_key peer) (recent now h)) < PER_PEER_LIMIT"
    and new: "snd (spec_check peer now h) = h @ [(peer_key peer, now)]"
    by (auto simp: spec_check_def split: if_splits)
  show ?thesis
    unfolding new limited_def
  proof (intro allI conjI)
    fix start p
    have old: "length (within start h) \<le> PER_INSTANCE_LIMIT" "length (of_peer p (within start h)) \<le> PER_PEER_LIMIT"
      using assms(1) by (auto simp: limited_def)
    show "length (within start (h @ [(peer_key peer, now)])) \<le> PER_INSTANCE_LIMIT"
    proof (cases "start < now \<and> now \<le> start + dur_secs WINDOW_SECS")
      case True
      then show ?thesis using within_new [OF assms(2), of start "\<lambda>_. True"] ok(1)
        by (simp add: within_def)
    next
      case False
      then show ?thesis using old(1) by (auto simp: within_def)
    qed
    show "length (of_peer p (within start (h @ [(peer_key peer, now)]))) \<le> PER_PEER_LIMIT"
    proof (cases "start < now \<and> now \<le> start + dur_secs WINDOW_SECS \<and> p = peer_key peer")
      case True
      then show ?thesis using within_new [OF assms(2), of start "\<lambda>e. fst e = p"] ok(2)
        by (simp add: within_def of_peer_def)
    next
      case False
      then show ?thesis using old(2) by (auto simp: within_def of_peer_def)
    qed
  qed
qed

lemma limited_history:
  "limited h \<Longrightarrow> in_order as \<Longrightarrow> (\<And>e a. e \<in> set h \<Longrightarrow> a \<in> set as \<Longrightarrow> snd e \<le> snd a) \<Longrightarrow>
     limited (history_of h as)"
proof (induction as arbitrary: h)
  case Nil
  then show ?case by simp
next
  case (Cons a as)
  obtain peer now where a: "a = (peer, now)" by fastforce
  have sub: "set (snd (spec_check peer now h)) \<subseteq> insert (peer_key peer, now) (set h)"
    by (auto simp: spec_check_def)
  have "limited (snd (spec_check peer now h))"
    using Cons.prems(3) [of _ a] by (intro limited_step [OF Cons.prems(1)]) (simp add: a)
  moreover have "in_order as" using Cons.prems(2) by (simp add: in_order_def a)
  moreover have "snd e \<le> snd b" if "e \<in> set (snd (spec_check peer now h))" "b \<in> set as" for e b
    using that sub Cons.prems(2) Cons.prems(3) [of e b] by (auto simp: in_order_def a)
  ultimately show ?case using Cons.IH by (simp add: a)
qed

section \<open>Properties\<close>

text \<open>C40: The limiter, which forgets what it no longer needs and prunes as it goes, answers every
  attempt exactly as a limiter that kept the whole history of allowed attempts and counted its
  last minute would, for every sequence of attempts on a clock that does not run backwards. And
  that history never holds more than 60 allowed attempts, or 10 of one peer, in any window of 60
  seconds, wherever the window starts.\<close>

theorem limiter_counts_exactly:
  assumes "in_order as"
  shows "attempts (\<lambda>l (peer, now). check peer now l) new_limiter as
      = attempts (\<lambda>h (peer, now). spec_check peer now h) [] as \<and>
    limited (history_of [] as)"
proof
  have "keeps (Min (insert 0 (snd ` set as))) [] new_limiter" by (rule keeps_new)
  then show "attempts (\<lambda>l (peer, now). check peer now l) new_limiter as
      = attempts (\<lambda>h (peer, now). spec_check peer now h) [] as"
    using assms by (rule attempts_simulate) simp
  show "limited (history_of [] as)"
    using assms by (intro limited_history) (simp_all add: limited_def within_def of_peer_def)
qed

lemma limiter_counts_exactly_witness:
  "attempts (\<lambda>l (peer, now). check peer now l) new_limiter [(None, 5), (Some [1], 5)] =
     attempts (\<lambda>h (peer, now). spec_check peer now h) [] [(None, 5), (Some [1], 5)]"
  using limiter_counts_exactly [of "[(None, 5), (Some [1], 5)]"] by (simp add: in_order_def)

text \<open>A refused attempt adds nothing: the memory of a limiter is what it allowed in a minute.\<close>

lemma limiter_memory:
  assumes "keeps now h l" "limited h"
  shows "length (all_hits l) \<le> PER_INSTANCE_LIMIT"
proof -
  have "recent now h = within (window_start now) h"
    using assms(1) by (auto simp: keeps_def recent_def within_def window_start_def intro!: filter_cong)
  then show ?thesis using assms by (simp add: keeps_def limited_def)
qed

end
