(* ===== verification/Pairing_State.thy ===== *)
theory Pairing_State
  imports Pairing_Limits Rust_Text
begin

text \<open>
  The pairing state and every rule that changes it (\<open>crates/net/src/pairing/state.rs\<close>,
  \<open>secrets.rs\<close>, the data of \<open>store.rs\<close>).

  SHA-256 is the parameter \<open>hash\<close> (lowercase hex of the digest); random values come in as
  arguments, \<open>None\<close> when the operating system's source failed. The texts shown to the person are
  left out of the errors; the kind of error is kept.
\<close>

definition PAIR_TOKEN_TTL_SECS :: int where "PAIR_TOKEN_TTL_SECS = 600"
definition HANDOFF_TTL_SECS :: int where "HANDOFF_TTL_SECS = 60"
definition REQUEST_TTL_SECS :: int where "REQUEST_TTL_SECS = 600"
definition MAX_PENDING_REQUESTS :: nat where "MAX_PENDING_REQUESTS = 10"
definition DEVICE_LIFETIME_DAYS :: int where "DEVICE_LIFETIME_DAYS = 400"
definition COOKIE_REFRESH_AFTER_HOURS :: int where "COOKIE_REFRESH_AFTER_HOURS = 24"
definition FLUSH_AFTER_MINUTES :: int where "FLUSH_AFTER_MINUTES = 10"
definition MAX_WORKBENCH_CREDENTIALS :: nat where "MAX_WORKBENCH_CREDENTIALS = 8"
definition MAX_OUTSTANDING_TOKENS :: nat where "MAX_OUTSTANDING_TOKENS = 50"
definition MAX_DEVICE_NAME_CHARS :: nat where "MAX_DEVICE_NAME_CHARS = 64"
definition DEFAULT_DEVICE_NAME :: ustring where "DEFAULT_DEVICE_NAME = lit ''Unnamed device''"
definition RECOVERY_CODE_COUNT :: nat where "RECOVERY_CODE_COUNT = 10"
definition RECOVERY_CODE_LEN :: nat where "RECOVERY_CODE_LEN = 16"
definition PAIRING_CODE_LEN :: nat where "PAIRING_CODE_LEN = 6"

datatype pairing_error = Rejected | RateLimited | Invalid | NotReady | Storage | RandomFailed

datatype surface = UiHost | WorkbenchHost

record identity =
  slug :: "ustring option"
  ui_origin :: "ustring option"
  workbench_origin :: "ustring option"

record stored_device =
  dev_id :: ustring
  dev_name :: ustring
  created_at :: datetime
  last_seen :: datetime
  refreshed_at :: "datetime option"
  ui_hash :: "ustring option"
  workbench_hashes :: "ustring list"

record issued =
  secret :: ustring
  device_id :: ustring
  device_name :: ustring

record auth_hit =
  hit_id :: ustring
  hit_name :: ustring
  refresh :: bool

record handoff =
  handoff_device :: ustring
  handoff_expires :: datetime

datatype decision = Waiting | Approved | Denied

record pending_request =
  public_id :: ustring
  secret_hash :: ustring
  code :: ustring
  request_name :: ustring
  requested_at :: datetime
  expires_at :: datetime
  decision :: decision

datatype poll_outcome = StillPending | ApprovedWith issued | WasDenied | Expired

record pstate =
  pidentity :: identity
  devices :: "stored_device list"
  recovery_generated :: "datetime option"
  recovery_hashes :: "ustring list"
  pair_tokens :: "(ustring, datetime) hmap"
  handoffs :: "(ustring, handoff) hmap"
  requests :: "pending_request list"
  plimiter :: limiter
  dirty_since :: "datetime option"

section \<open>Codes\<close>

definition base32_alphabet :: ustring where
  "base32_alphabet = lit ''ABCDEFGHIJKLMNOPQRSTUVWXYZ234567''"

text \<open>One chunk of random bytes added to the code, up to its length.\<close>

fun base32_fill :: "nat \<Rightarrow> byte list \<Rightarrow> ustring \<Rightarrow> ustring" where
  "base32_fill len [] c = c"
| "base32_fill len (b # bs) c =
     (if length c = len then c
      else if unat b < 224 then base32_fill len bs (c @ [base32_alphabet ! (unat b mod 32)])
      else base32_fill len bs c)"

text \<open>
  The loop over chunks of 32 random bytes: the chunks the random source will give, \<open>None\<close> where it
  fails. \<open>None\<close> as the result: the list ran out before the code was full.
\<close>

fun base32_code :: "nat \<Rightarrow> byte list option list \<Rightarrow> ustring \<Rightarrow> (pairing_error + ustring) option" where
  "base32_code len chunks c =
     (if length c \<ge> len then Some (Inr c)
      else (case chunks of
          [] \<Rightarrow> None
        | None # _ \<Rightarrow> Some (Inl RandomFailed)
        | Some bytes # rest \<Rightarrow> base32_code len rest (base32_fill len bytes c)))"

definition dash :: nat where "dash = 45"

definition normalize_recovery_code :: "ustring \<Rightarrow> ustring" where
  "normalize_recovery_code typed = map ascii_upper_char (filter (\<lambda>c. \<not> is_whitespace c \<and> c \<noteq> dash) typed)"

fun chunks4 :: "ustring \<Rightarrow> ustring list" where
  "chunks4 s = (if s = [] then [] else take 4 s # chunks4 (drop 4 s))"

declare chunks4.simps [simp del]

definition group_recovery_code :: "ustring \<Rightarrow> ustring" where
  "group_recovery_code c = concat_with [dash] (chunks4 c)"

text \<open>Both hashes are hashed again before they are compared.\<close>

definition hashes_equal :: "(ustring \<Rightarrow> ustring) \<Rightarrow> ustring \<Rightarrow> ustring \<Rightarrow> bool" where
  "hashes_equal hash a b \<longleftrightarrow> hash a = hash b"

section \<open>Device names\<close>

definition clean_device_name :: "ustring \<Rightarrow> ustring" where
  "clean_device_name raw =
     (let cleaned = trim (take MAX_DEVICE_NAME_CHARS (trim (filter (\<lambda>c. \<not> is_control c) raw)))
      in if cleaned = [] then DEFAULT_DEVICE_NAME else cleaned)"

section \<open>Tokens\<close>

text \<open>\<open>Iterator::min_by_key\<close>: the first of the entries with the least key.\<close>

fun min_entry :: "('v \<Rightarrow> int) \<Rightarrow> ('k \<times> 'v) list \<Rightarrow> ('k \<times> 'v) option" where
  "min_entry f [] = None"
| "min_entry f (e # es) =
     (case min_entry f es of
        None \<Rightarrow> Some e
      | Some m \<Rightarrow> if f (snd m) < f (snd e) then Some m else Some e)"

lemma min_entry_Some: "min_entry f m = Some e \<Longrightarrow> e \<in> set m"
  by (induction m arbitrary: e) (auto split: option.splits if_splits)

lemma min_entry_None: "min_entry f m = None \<longleftrightarrow> m = []"
  by (cases m) (auto split: option.splits)

lemma min_entry_least: "min_entry f m = Some e \<Longrightarrow> x \<in> set m \<Longrightarrow> f (snd e) \<le> f (snd x)"
proof (induction m arbitrary: e x)
  case Nil
  then show ?case by simp
next
  case (Cons y m)
  show ?case
  proof (cases "min_entry f m")
    case None
    then show ?thesis using Cons.prems by (simp add: min_entry_None)
  next
    case (Some z)
    then have "\<forall>x\<in>set m. f (snd z) \<le> f (snd x)" using Cons.IH by blast
    then show ?thesis using Cons.prems Some by (auto split: if_splits)
  qed
qed

lemma length_remove_entry: "(k, v) \<in> set m \<Longrightarrow> length (hm_remove k m) < length m"
  by (induction m) (auto simp: hm_remove_def less_Suc_eq_le)

text \<open>\<open>while map.len() >= max\<close>: drop the entry that expires soonest.\<close>

function drop_oldest :: "('v \<Rightarrow> int) \<Rightarrow> nat \<Rightarrow> ('k, 'v) hmap \<Rightarrow> ('k, 'v) hmap" where
  "drop_oldest expiry mx m =
     (if length m < mx then m
      else (case min_entry expiry m of
          None \<Rightarrow> m
        | Some (k, _) \<Rightarrow> drop_oldest expiry mx (hm_remove k m)))"
  by pat_completeness auto
termination
  by (relation "measure (\<lambda>(expiry, mx, m). length m)")
    (auto dest!: min_entry_Some length_remove_entry)

declare drop_oldest.simps [simp del]

definition add_token :: "('v \<Rightarrow> datetime) \<Rightarrow> ustring \<Rightarrow> 'v \<Rightarrow> datetime \<Rightarrow> (ustring, 'v) hmap \<Rightarrow> (ustring, 'v) hmap"
where
  "add_token expiry token v now m =
     hm_insert token v (drop_oldest expiry MAX_OUTSTANDING_TOKENS (hm_retain (\<lambda>_ x. expiry x > now) m))"

definition take_token :: "('v \<Rightarrow> datetime) \<Rightarrow> ustring \<Rightarrow> datetime \<Rightarrow> (ustring, 'v) hmap \<Rightarrow> 'v option \<times> (ustring, 'v) hmap"
where
  "take_token expiry token now m =
     (case hm_get m token of
        Some v \<Rightarrow> if expiry v > now then Some v else None
      | None \<Rightarrow> None, hm_remove token m)"

definition add_pair_token :: "ustring \<Rightarrow> datetime \<Rightarrow> pstate \<Rightarrow> pstate" where
  "add_pair_token token_hash now s =
     s\<lparr>pair_tokens := add_token id token_hash (now + dur_secs PAIR_TOKEN_TTL_SECS) now (pair_tokens s)\<rparr>"

definition take_pair_token :: "ustring \<Rightarrow> datetime \<Rightarrow> pstate \<Rightarrow> (pairing_error + unit) \<times> pstate" where
  "take_pair_token token_hash now s =
     (let (v, m) = take_token id token_hash now (pair_tokens s)
      in (case v of Some _ \<Rightarrow> Inr () | None \<Rightarrow> Inl Rejected, s\<lparr>pair_tokens := m\<rparr>))"

definition add_handoff :: "ustring \<Rightarrow> ustring \<Rightarrow> datetime \<Rightarrow> pstate \<Rightarrow> pstate" where
  "add_handoff token_hash device now s =
     s\<lparr>handoffs := add_token handoff_expires token_hash
        \<lparr>handoff_device = device, handoff_expires = now + dur_secs HANDOFF_TTL_SECS\<rparr> now (handoffs s)\<rparr>"

definition take_handoff :: "ustring \<Rightarrow> datetime \<Rightarrow> pstate \<Rightarrow> (pairing_error + ustring) \<times> pstate" where
  "take_handoff token_hash now s =
     (let (v, m) = take_token handoff_expires token_hash now (handoffs s)
      in (case v of Some h \<Rightarrow> Inr (handoff_device h) | None \<Rightarrow> Inl Rejected, s\<lparr>handoffs := m\<rparr>))"

section \<open>Recovery codes\<close>

text \<open>\<open>codes\<close>: the ten codes the generator gave, or a failure of the random source.\<close>

definition replace_recovery_codes ::
    "(ustring \<Rightarrow> ustring) \<Rightarrow> ustring list option \<Rightarrow> datetime \<Rightarrow> pstate \<Rightarrow> (pairing_error + ustring list) \<times> pstate"
where
  "replace_recovery_codes hash codes now s =
     (case codes of
        None \<Rightarrow> (Inl RandomFailed, s)
      | Some cs \<Rightarrow> (Inr (map group_recovery_code cs),
          s\<lparr>recovery_hashes := map hash cs, recovery_generated := Some now\<rparr>))"

text \<open>The loop over all stored hashes keeps the last that matches.\<close>

fun last_match :: "('a \<Rightarrow> bool) \<Rightarrow> 'a list \<Rightarrow> nat option" where
  "last_match P [] = None"
| "last_match P (x # xs) =
     (case last_match P xs of Some i \<Rightarrow> Some (Suc i) | None \<Rightarrow> if P x then Some 0 else None)"

definition take_recovery_code ::
    "(ustring \<Rightarrow> ustring) \<Rightarrow> ustring \<Rightarrow> pstate \<Rightarrow> (pairing_error + unit) \<times> pstate" where
  "take_recovery_code hash typed s =
     (let normalized = normalize_recovery_code typed
      in if length normalized \<noteq> RECOVERY_CODE_LEN then (Inl Rejected, s)
         else (case last_match (\<lambda>h. hashes_equal hash h (hash normalized)) (recovery_hashes s) of
             Some i \<Rightarrow> (Inr (), s\<lparr>recovery_hashes := remove_at i (recovery_hashes s)\<rparr>)
           | None \<Rightarrow> (Inl Rejected, s)))"

section \<open>Devices\<close>

definition add_device ::
    "(ustring \<Rightarrow> ustring) \<Rightarrow> ustring \<Rightarrow> ustring option \<Rightarrow> ustring option \<Rightarrow> datetime \<Rightarrow> pstate \<Rightarrow>
       (pairing_error + issued) \<times> pstate" where
  "add_device hash name sec ident now s =
     (case (sec, ident) of
        (Some sc, Some i) \<Rightarrow>
          let nm = clean_device_name name
          in (Inr \<lparr>secret = sc, device_id = i, device_name = nm\<rparr>,
              s\<lparr>devices := devices s @
                 [\<lparr>dev_id = i, dev_name = nm, created_at = now, last_seen = now,
                   refreshed_at = Some now, ui_hash = Some (hash sc), workbench_hashes = []\<rparr>]\<rparr>)
      | _ \<Rightarrow> (Inl RandomFailed, s))"

definition push_workbench_hash :: "ustring \<Rightarrow> ustring list \<Rightarrow> ustring list" where
  "push_workbench_hash h hs =
     (let hs' = hs @ [h] in if length hs' > MAX_WORKBENCH_CREDENTIALS then tl hs' else hs')"

definition add_workbench_credential ::
    "(ustring \<Rightarrow> ustring) \<Rightarrow> ustring \<Rightarrow> ustring option \<Rightarrow> ustring option \<Rightarrow> datetime \<Rightarrow> pstate \<Rightarrow>
       (pairing_error + issued) \<times> pstate" where
  "add_workbench_credential hash dev existing sec now s =
     (case position (\<lambda>d. dev_id d = dev) (devices s) of
        None \<Rightarrow> (Inl Rejected, s)
      | Some i \<Rightarrow>
          let d = devices s ! i;
              give = (\<lambda>sc hs. (Inr \<lparr>secret = sc, device_id = dev_id d, device_name = dev_name d\<rparr>,
                s\<lparr>devices := (devices s)[i := d\<lparr>workbench_hashes := hs, last_seen := now,
                                              refreshed_at := Some now\<rparr>]\<rparr>));
              keep = (case existing of Some held \<Rightarrow> hash held \<in> set (workbench_hashes d) | None \<Rightarrow> False)
          in if keep then give (the existing) (workbench_hashes d)
             else (case sec of
                 None \<Rightarrow> (Inl RandomFailed, s)
               | Some sc \<Rightarrow> give sc (push_workbench_hash (hash sc) (workbench_hashes d))))"

definition holds_credential :: "(ustring \<Rightarrow> ustring) \<Rightarrow> surface \<Rightarrow> ustring \<Rightarrow> stored_device \<Rightarrow> bool" where
  "holds_credential hash surface wanted d =
     (case surface of
        UiHost \<Rightarrow> (case ui_hash d of Some h \<Rightarrow> hashes_equal hash h wanted | None \<Rightarrow> False)
      | WorkbenchHost \<Rightarrow> list_ex (\<lambda>h. hashes_equal hash h wanted) (workbench_hashes d))"

definition authenticate ::
    "(ustring \<Rightarrow> ustring) \<Rightarrow> surface \<Rightarrow> ustring \<Rightarrow> datetime \<Rightarrow> pstate \<Rightarrow> auth_hit option \<times> pstate" where
  "authenticate hash surface cookie_secret now s =
     (case position (holds_credential hash surface (hash cookie_secret)) (devices s) of
        None \<Rightarrow> (None, s)
      | Some i \<Rightarrow>
          let d = devices s ! i
          in if now - last_seen d > dur_days DEVICE_LIFETIME_DAYS then (None, s)
             else
               let rf = now - (case refreshed_at d of Some r \<Rightarrow> r | None \<Rightarrow> created_at d)
                          > dur_hours COOKIE_REFRESH_AFTER_HOURS;
                   moved = now - last_seen d > dur_minutes 1;
                   d1 = (if moved then d\<lparr>last_seen := now\<rparr> else d);
                   d2 = (if rf then d1\<lparr>refreshed_at := Some now\<rparr> else d1)
               in (Some \<lparr>hit_id = dev_id d, hit_name = dev_name d, refresh = rf\<rparr>,
                   s\<lparr>devices := (devices s)[i := d2],
                     dirty_since := (if (moved \<or> rf) \<and> dirty_since s = None then Some now
                                     else dirty_since s)\<rparr>))"

definition flush_due :: "datetime \<Rightarrow> pstate \<Rightarrow> bool" where
  "flush_due now s =
     (case dirty_since s of Some since \<Rightarrow> now - since \<ge> dur_minutes FLUSH_AFTER_MINUTES | None \<Rightarrow> False)"

definition mark_saved :: "pstate \<Rightarrow> pstate" where
  "mark_saved s = s\<lparr>dirty_since := None\<rparr>"

definition revoke :: "ustring \<Rightarrow> pstate \<Rightarrow> bool \<times> pstate" where
  "revoke dev s =
     (let ds = filter (\<lambda>d. dev_id d \<noteq> dev) (devices s)
      in (length ds \<noteq> length (devices s),
          s\<lparr>devices := ds, handoffs := hm_retain (\<lambda>_ h. handoff_device h \<noteq> dev) (handoffs s)\<rparr>))"

section \<open>Pairing requests\<close>

definition purge_requests :: "datetime \<Rightarrow> pstate \<Rightarrow> pstate" where
  "purge_requests now s = s\<lparr>requests := filter (\<lambda>r. expires_at r > now) (requests s)\<rparr>"

definition add_request ::
    "ustring \<Rightarrow> ustring \<Rightarrow> ustring option \<Rightarrow> ustring option \<Rightarrow> datetime \<Rightarrow> pstate \<Rightarrow>
       (pairing_error + ustring \<times> ustring) \<times> pstate" where
  "add_request shash name pub cd now s0 =
     (let s = purge_requests now s0
      in if length (requests s) \<ge> MAX_PENDING_REQUESTS then (Inl RateLimited, s)
         else (case (pub, cd) of
             (Some p, Some c) \<Rightarrow>
               (Inr (p, c), s\<lparr>requests := requests s @
                  [\<lparr>public_id = p, secret_hash = shash, code = c, request_name = name,
                    requested_at = now, expires_at = now + dur_secs REQUEST_TTL_SECS,
                    decision = Waiting\<rparr>]\<rparr>)
           | _ \<Rightarrow> (Inl RandomFailed, s)))"

definition pending_views :: "datetime \<Rightarrow> pstate \<Rightarrow> (ustring \<times> ustring \<times> ustring \<times> datetime \<times> datetime) list \<times> pstate"
where
  "pending_views now s0 =
     (let s = purge_requests now s0
      in (map (\<lambda>r. (public_id r, code r, request_name r, requested_at r, expires_at r))
            (filter (\<lambda>r. decision r = Waiting) (requests s)), s))"

definition decide_request :: "ustring \<Rightarrow> bool \<Rightarrow> datetime \<Rightarrow> pstate \<Rightarrow> (pairing_error + unit) \<times> pstate" where
  "decide_request pub approve now s0 =
     (let s = purge_requests now s0
      in (case position (\<lambda>r. public_id r = pub \<and> decision r = Waiting) (requests s) of
            None \<Rightarrow> (Inl Rejected, s)
          | Some i \<Rightarrow>
              (Inr (), s\<lparr>requests := (requests s)[i := (requests s ! i)
                 \<lparr>decision := if approve then Approved else Denied\<rparr>]\<rparr>)))"

definition poll_request ::
    "(ustring \<Rightarrow> ustring) \<Rightarrow> ustring \<Rightarrow> ustring option \<Rightarrow> ustring option \<Rightarrow> datetime \<Rightarrow> pstate \<Rightarrow>
       (pairing_error + poll_outcome) \<times> pstate" where
  "poll_request hash shash sec ident now s0 =
     (let s = purge_requests now s0
      in (case position (\<lambda>r. hashes_equal hash (secret_hash r) shash) (requests s) of
            None \<Rightarrow> (Inr Expired, s)
          | Some i \<Rightarrow>
              let r = requests s ! i; s1 = s\<lparr>requests := remove_at i (requests s)\<rparr>
              in (case decision r of
                    Waiting \<Rightarrow> (Inr StillPending, s)
                  | Denied \<Rightarrow> (Inr WasDenied, s1)
                  | Approved \<Rightarrow>
                      (case add_device hash (request_name r) sec ident now s1 of
                         (Inr iss, s2) \<Rightarrow> (Inr (ApprovedWith iss), s2)
                       | (Inl e, s2) \<Rightarrow> (Inl e, s2)))))"

definition check_limit :: "ustring option \<Rightarrow> datetime \<Rightarrow> pstate \<Rightarrow> (pairing_error + unit) \<times> pstate" where
  "check_limit peer now s =
     (let (r, l) = check peer now (plimiter s)
      in (case r of Inr _ \<Rightarrow> Inr () | Inl _ \<Rightarrow> Inl RateLimited, s\<lparr>plimiter := l\<rparr>))"


section \<open>Tokens that work once\<close>

lemma drop_oldest_wf: "hm_wf m \<Longrightarrow> hm_wf (drop_oldest f mx m)"
  by (induction f mx m rule: drop_oldest.induct)
    (subst drop_oldest.simps, auto split: option.split)

lemma drop_oldest_sub: "hm_get (drop_oldest f mx m) k = Some v \<Longrightarrow> hm_get m k = Some v"
proof (induction f mx m rule: drop_oldest.induct)
  case (1 f mx m)
  show ?case
  proof (cases "length m < mx \<or> min_entry f m = None")
    case True
    then have "drop_oldest f mx m = m" by (subst drop_oldest.simps) auto
    then show ?thesis using "1.prems" by simp
  next
    case False
    then obtain j w where e: "min_entry f m = Some (j, w)" by fastforce
    with False "1.prems" have "hm_get (drop_oldest f mx (hm_remove j m)) k = Some v"
      by (subst (asm) drop_oldest.simps) simp
    with "1.IH" [OF _ e refl] False have "hm_get (hm_remove j m) k = Some v" by simp
    then show ?thesis by (simp split: if_splits)
  qed
qed

lemma drop_oldest_length: "0 < mx \<Longrightarrow> length (drop_oldest f mx m) < mx"
proof (induction f mx m rule: drop_oldest.induct)
  case (1 f mx m)
  show ?case
  proof (cases "length m < mx")
    case True
    then show ?thesis by (subst drop_oldest.simps) simp
  next
    case False
    then obtain j w where e: "min_entry f m = Some (j, w)"
      using "1.prems" by (cases "min_entry f m") (auto simp: min_entry_None)
    with 1 False show ?thesis by (subst drop_oldest.simps) simp
  qed
qed

text \<open>What is dropped expires no later than anything kept.\<close>

lemma drop_oldest_soonest:
  "hm_wf m \<Longrightarrow> hm_get (drop_oldest f mx m) k = Some v \<Longrightarrow> hm_get m k' = Some v' \<Longrightarrow>
     hm_get (drop_oldest f mx m) k' = None \<Longrightarrow> f v' \<le> f v"
proof (induction f mx m rule: drop_oldest.induct)
  case (1 f mx m)
  show ?case
  proof (cases "length m < mx \<or> min_entry f m = None")
    case True
    then have "drop_oldest f mx m = m" by (subst drop_oldest.simps) auto
    then show ?thesis using "1.prems" by simp
  next
    case False
    then obtain j w where e: "min_entry f m = Some (j, w)" by fastforce
    then have step: "drop_oldest f mx m = drop_oldest f mx (hm_remove j m)"
      using False by (subst drop_oldest.simps) simp
    have kv: "hm_get m k = Some v" using "1.prems"(2) by (rule drop_oldest_sub)
    show ?thesis
    proof (cases "k' = j")
      case True
      then have "v' = w"
        using hm_get_wf [OF "1.prems"(1)] min_entry_Some [OF e] "1.prems"(3) by (metis option.inject)
      then show ?thesis using min_entry_least [OF e hm_get_mem [OF kv]] by simp
    next
      case ne: False
      have "f v' \<le> f v"
        by (rule "1.IH" [OF _ e refl]) (use False ne "1.prems" step in simp_all)
      then show ?thesis .
    qed
  qed
qed

datatype ('k, 'v) token_op = MintToken 'k 'v datetime | SpendToken 'k datetime

fun token_step ::
    "('k \<Rightarrow> 'v \<Rightarrow> datetime \<Rightarrow> 'm \<Rightarrow> 'm) \<Rightarrow> ('k \<Rightarrow> datetime \<Rightarrow> 'm \<Rightarrow> 'v option \<times> 'm) \<Rightarrow>
       'm \<Rightarrow> ('k, 'v) token_op \<Rightarrow> 'm \<times> ('k \<times> 'v) list" where
  "token_step add tk m (MintToken k v now) = (add k v now m, [])"
| "token_step add tk m (SpendToken k now) =
     (let (r, m') = tk k now m in (m', case r of Some v \<Rightarrow> [(k, v)] | None \<Rightarrow> []))"

definition spent :: "'k \<Rightarrow> ('k \<times> 'v) list \<Rightarrow> nat" where
  "spent k outs = length (filter (\<lambda>x. fst x = k) outs)"

fun minted :: "'k \<Rightarrow> ('k, 'v) token_op \<Rightarrow> nat" where
  "minted k (MintToken k' v now) = (if k' = k then 1 else 0)"
| "minted k (SpendToken k' now) = 0"

text \<open>What the flows rely on: a store of tokens that are spent by taking them.\<close>

locale single_use_store =
  fixes wf :: "'m \<Rightarrow> bool"
    and held :: "'m \<Rightarrow> 'k \<Rightarrow> 'v option"
    and deadline :: "'v \<Rightarrow> datetime"
    and add :: "'k \<Rightarrow> 'v \<Rightarrow> datetime \<Rightarrow> 'm \<Rightarrow> 'm"
    and tk :: "'k \<Rightarrow> datetime \<Rightarrow> 'm \<Rightarrow> 'v option \<times> 'm"
  assumes wf_add: "wf m \<Longrightarrow> wf (add k v now m)"
    and wf_take: "wf m \<Longrightarrow> wf (snd (tk k now m))"
    and take_gives: "wf m \<Longrightarrow> fst (tk k now m) = Some v \<longleftrightarrow> held m k = Some v \<and> now < deadline v"
    and take_spends: "wf m \<Longrightarrow> held (snd (tk k now m)) k' = (if k' = k then None else held m k')"
    and add_other: "wf m \<Longrightarrow> k' \<noteq> k \<Longrightarrow> held (add k v now m) k' = Some w \<Longrightarrow> held m k' = Some w"
begin

lemma step_spends:
  assumes "wf m"
  shows "spent k (snd (token_step add tk m e)) + (if held (fst (token_step add tk m e)) k = None then 0 else 1)
    \<le> (if held m k = None then 0 else 1) + minted k e"
proof (cases e)
  case (MintToken k' v now)
  show ?thesis
  proof (cases "k' = k")
    case True
    then show ?thesis using MintToken by (simp add: spent_def)
  next
    case False
    have "held m k \<noteq> None" if "held (add k' v now m) k \<noteq> None"
      using that add_other [OF assms, of k k' v now] False by auto
    then show ?thesis using MintToken False by (auto simp: spent_def)
  qed
next
  case (SpendToken k' now)
  then show ?thesis
    using take_gives [OF assms, of k' now] take_spends [OF assms, of k' now k]
    by (auto simp: spent_def split_def Let_def split: option.split)
qed

sublocale spending: budget_machine "token_step add tk" wf "spent k"
    "\<lambda>m. if held m k = None then 0 else 1" "minted k" for k
proof unfold_locales
  fix m e assume "wf m"
  then show "wf (fst (token_step add tk m e))"
    using wf_add wf_take by (cases e) (auto simp: split_def Let_def)
qed (use step_spends in blast)

lemma spent_at_most_minted:
  assumes "wf m" "held m k = None"
  shows "sum_list (map (spent k) (snd (run_machine (token_step add tk) m ops)))
    \<le> sum_list (map (minted k) ops)"
  using spending.run_budget [OF assms(1), of k ops] assms(2) by simp

end

lemma add_token_wf: "hm_wf m \<Longrightarrow> hm_wf (add_token expiry token v now m)"
  by (simp add: add_token_def drop_oldest_wf)

lemma take_token_facts:
  "fst (take_token expiry k now m) = Some v \<longleftrightarrow> hm_get m k = Some v \<and> now < expiry v"
  "hm_get (snd (take_token expiry k now m)) k' = (if k' = k then None else hm_get m k')"
  by (auto simp: take_token_def split: option.splits)

lemma add_token_other:
  assumes "hm_wf m" "k' \<noteq> k" "hm_get (add_token expiry k v now m) k' = Some w"
  shows "hm_get m k' = Some w"
proof -
  have "hm_get (drop_oldest expiry MAX_OUTSTANDING_TOKENS (hm_retain (\<lambda>_ x. expiry x > now) m)) k' = Some w"
    using assms(2,3) by (simp add: add_token_def)
  then have "hm_get (hm_retain (\<lambda>_ x. expiry x > now) m) k' = Some w" by (rule drop_oldest_sub)
  then show ?thesis by (simp add: hm_get_retain [OF assms(1)] split: option.splits if_splits)
qed

lemma add_token_length: "length (add_token expiry k v now m) \<le> MAX_OUTSTANDING_TOKENS"
  using drop_oldest_length [of MAX_OUTSTANDING_TOKENS expiry "hm_retain (\<lambda>_ x. expiry x > now) m"]
  by (simp add: add_token_def length_hm_insert MAX_OUTSTANDING_TOKENS_def)

lemma add_token_new: "hm_get (add_token expiry k v now m) k = Some v"
  by (simp add: add_token_def)

text \<open>The table of first-device tokens, and the table of workbench handoffs.\<close>

interpretation tokens: single_use_store hm_wf hm_get expiry "add_token expiry" "take_token expiry"
  for expiry
proof unfold_locales
  fix m :: "(ustring, 'a) hmap" and k k' v w now
  assume wf: "hm_wf m"
  show "hm_wf (add_token expiry k v now m)" by (rule add_token_wf [OF wf])
  show "hm_wf (snd (take_token expiry k now m))" using wf by (simp add: take_token_def)
  show "(fst (take_token expiry k now m) = Some v) \<longleftrightarrow> (hm_get m k = Some v \<and> now < expiry v)"
    by (rule take_token_facts(1))
  show "hm_get (snd (take_token expiry k now m)) k' = (if k' = k then None else hm_get m k')"
    by (rule take_token_facts(2))
  show "hm_get m k' = Some w" if "k' \<noteq> k" "hm_get (add_token expiry k v now m) k' = Some w"
    by (rule add_token_other [OF wf that])
qed

interpretation pair_token_table: single_use_store hm_wf hm_get id "add_token id" "take_token id"
  by (rule tokens.single_use_store_axioms)

interpretation handoff_table: single_use_store hm_wf hm_get handoff_expires
    "add_token handoff_expires" "take_token handoff_expires"
  by (rule tokens.single_use_store_axioms)

section \<open>Device names and codes\<close>

lemma trim_neq_Nil: "trimmed s \<Longrightarrow> s \<noteq> [] \<Longrightarrow> trim s \<noteq> []"
  by (simp add: trim_trimmed)

lemma clean_device_name_ok:
  "0 < length (clean_device_name raw) \<and> length (clean_device_name raw) \<le> MAX_DEVICE_NAME_CHARS \<and>
   trimmed (clean_device_name raw) \<and> list_all (\<lambda>c. \<not> is_control c) (clean_device_name raw)"
proof -
  let ?f = "filter (\<lambda>c. \<not> is_control c) raw"
  let ?c = "trim (take MAX_DEVICE_NAME_CHARS (trim ?f))"
  have len: "length ?c \<le> MAX_DEVICE_NAME_CHARS"
    using length_trim [of "take MAX_DEVICE_NAME_CHARS (trim ?f)"] by simp
  have "set ?c \<subseteq> set ?f"
    using set_trim [of "take MAX_DEVICE_NAME_CHARS (trim ?f)"] set_trim [of ?f]
      set_take_subset [of MAX_DEVICE_NAME_CHARS "trim ?f"] by blast
  then have "list_all (\<lambda>c. \<not> is_control c) ?c" by (auto simp: list_all_iff)
  moreover have "trimmed ?c" by (rule trimmed_trim)
  moreover have "trimmed DEFAULT_DEVICE_NAME" "list_all (\<lambda>c. \<not> is_control c) DEFAULT_DEVICE_NAME"
    "length DEFAULT_DEVICE_NAME \<le> MAX_DEVICE_NAME_CHARS" "DEFAULT_DEVICE_NAME \<noteq> []"
    by (simp_all add: DEFAULT_DEVICE_NAME_def MAX_DEVICE_NAME_CHARS_def trimmed_def lit_def
        is_control_def is_whitespace_def)
  ultimately show ?thesis using len by (simp add: clean_device_name_def Let_def)
qed

text \<open>A clean name stays as it is.\<close>

lemma clean_device_name_id:
  assumes "trimmed s" "s \<noteq> []" "length s \<le> MAX_DEVICE_NAME_CHARS" "list_all (\<lambda>c. \<not> is_control c) s"
  shows "clean_device_name s = s"
proof -
  have "filter (\<lambda>c. \<not> is_control c) s = s" using assms(4) by (simp add: list_all_iff)
  then show ?thesis using assms by (simp add: clean_device_name_def Let_def trim_trimmed)
qed

text \<open>Every character of a code is equally likely: of the bytes taken, seven map to each.\<close>

lemma base32_even:
  assumes "i < 32"
  shows "card {b. b < 32 * n \<and> b mod 32 = (i :: nat)} = n"
proof -
  have "{b. b < 32 * n \<and> b mod 32 = i} = (\<lambda>q. 32 * q + i) ` {..<n}"
  proof (intro set_eqI iffI)
    fix b assume "b \<in> {b. b < 32 * n \<and> b mod 32 = i}"
    then have "b = 32 * (b div 32) + i" "b div 32 < n" by auto
    then show "b \<in> (\<lambda>q. 32 * q + i) ` {..<n}" by blast
  next
    fix b assume "b \<in> (\<lambda>q. 32 * q + i) ` {..<n}"
    then obtain q where "q < n" "b = 32 * q + i" by blast
    with assms show "b \<in> {b. b < 32 * n \<and> b mod 32 = i}" by simp
  qed
  then show ?thesis by (simp add: card_image inj_on_def)
qed

lemma alphabet_codes: "base32_alphabet = [65..<91] @ [50..<56]"
  by (simp add: base32_alphabet_def lit_def upt_conv_Cons)

lemma alphabet_char: "c \<in> set base32_alphabet \<Longrightarrow> \<not> is_whitespace c \<and> c \<noteq> dash \<and> ascii_upper_char c = c"
proof -
  assume "c \<in> set base32_alphabet"
  then have "65 \<le> c \<and> c < 91 \<or> 50 \<le> c \<and> c < 56" by (auto simp: alphabet_codes)
  then show ?thesis
    unfolding is_whitespace_def dash_def ascii_upper_char_def is_ascii_lower_def by presburger
qed

lemma normalize_code: "set c \<subseteq> set base32_alphabet \<Longrightarrow> normalize_recovery_code c = c"
  by (induction c) (auto simp: normalize_recovery_code_def alphabet_char)

lemma normalize_append [simp]:
  "normalize_recovery_code (a @ b) = normalize_recovery_code a @ normalize_recovery_code b"
  "normalize_recovery_code [] = []"
  "normalize_recovery_code (dash # a) = normalize_recovery_code a"
  by (simp_all add: normalize_recovery_code_def)

lemma concat_chunks4: "concat (chunks4 s) = s"
  by (induction s rule: chunks4.induct) (subst chunks4.simps, simp)

lemma normalize_concat: "normalize_recovery_code (concat xs) = concat (map normalize_recovery_code xs)"
  by (induction xs) simp_all

lemma normalize_grouped: "normalize_recovery_code (group_recovery_code c) = normalize_recovery_code c"
proof -
  have "normalize_recovery_code (concat_with [dash] ps) = normalize_recovery_code (concat ps)" for ps
    by (cases ps) (simp_all add: concat_with_def normalize_concat comp_def)
  then show ?thesis by (simp add: group_recovery_code_def concat_chunks4)
qed

lemma base32_fill_alphabet:
  "set c \<subseteq> set base32_alphabet \<Longrightarrow> set (base32_fill len bs c) \<subseteq> set base32_alphabet"
proof (induction len bs c rule: base32_fill.induct)
  case (2 len b bs c)
  have "base32_alphabet ! (unat b mod 32) \<in> set base32_alphabet"
    by (rule nth_mem) (simp add: base32_alphabet_def)
  with 2 show ?case by simp
qed simp

lemma base32_fill_length: "length c \<le> len \<Longrightarrow> length (base32_fill len bs c) \<le> len"
  by (induction len bs c rule: base32_fill.induct) auto

lemma base32_code_ok:
  "base32_code len chunks c = Some (Inr r) \<Longrightarrow> length c \<le> len \<Longrightarrow> set c \<subseteq> set base32_alphabet \<Longrightarrow>
     length r = len \<and> set r \<subseteq> set base32_alphabet"
proof (induction chunks arbitrary: c)
  case Nil
  then show ?case by (auto split: if_splits)
next
  case (Cons x rest)
  show ?case
  proof (cases "length c \<ge> len")
    case True
    then show ?thesis using Cons.prems by auto
  next
    case False
    then obtain bytes where x: "x = Some bytes"
      using Cons.prems(1) by (cases x) auto
    have "base32_code len rest (base32_fill len bytes c) = Some (Inr r)"
      using Cons.prems(1) False x by (subst (asm) base32_code.simps) simp
    then show ?thesis
      using Cons.IH base32_fill_length [OF Cons.prems(2)] base32_fill_alphabet [OF Cons.prems(3)]
      by blast
  qed
qed


section \<open>Properties\<close>

text \<open>A pairing link or a handoff works at most once: over any sequence of minting and redeeming,
  a token is honoured at most as often as it was minted, only before its deadline, and the store
  never holds more than 50; making room drops only tokens that expire no later than every token
  it keeps.\<close>

theorem tokens_work_once:
  "sum_list (map (spent k) (snd (run_machine (token_step (add_token e) (take_token e)) [] ops)))
      \<le> sum_list (map (minted k) ops) \<and>
   (fst (take_token e k now m) = Some v \<longrightarrow> now < e v \<and> hm_get (snd (take_token e k now m)) k = None) \<and>
   length (add_token e k v now m) \<le> MAX_OUTSTANDING_TOKENS \<and>
   (hm_wf m \<longrightarrow> hm_get (drop_oldest e n m) k' = Some v' \<longrightarrow> hm_get m j = Some w \<longrightarrow>
      hm_get (drop_oldest e n m) j = None \<longrightarrow> e w \<le> e v')"
proof (intro conjI impI)
  show "sum_list (map (spent k) (snd (run_machine (token_step (add_token e) (take_token e)) [] ops)))
      \<le> sum_list (map (minted k) ops)"
    using tokens.spent_at_most_minted [of "[]" k e ops] by simp
  show "now < e v" if "fst (take_token e k now m) = Some v"
    using that by (simp add: take_token_facts(1))
  show "hm_get (snd (take_token e k now m)) k = None" by (simp add: take_token_facts(2))
  show "length (add_token e k v now m) \<le> MAX_OUTSTANDING_TOKENS" by (rule add_token_length)
  show "e w \<le> e v'" if "hm_wf m" "hm_get (drop_oldest e n m) k' = Some v'" "hm_get m j = Some w"
    "hm_get (drop_oldest e n m) j = None"
    using that by (rule drop_oldest_soonest)
qed

lemma tokens_work_once_witness:
  "snd (run_machine (token_step (add_token id) (take_token id)) []
     [MintToken [1] 9 3, SpendToken [1] 4, SpendToken [1] 5]) = [[], [([1], 9)], []] \<and>
   (4 :: int) < id 9"
proof
  show "snd (run_machine (token_step (add_token id) (take_token id)) []
     [MintToken [1] 9 3, SpendToken [1] 4, SpendToken [1] 5]) = [[], [([1], 9)], []]"
    by (simp add: add_token_def take_token_def hm_retain_def drop_oldest.simps hm_insert_def
        hm_remove_def hm_get_def MAX_OUTSTANDING_TOKENS_def)
  have "fst (take_token id [1] 4 [([1], 9)]) = Some 9" by (simp add: take_token_def hm_get_def)
  then show "(4 :: int) < id 9"
    using tokens_work_once [where k = "[1]" and e = id and now = 4 and m = "[([1], 9)]" and v = 9]
    by blast
qed

text \<open>The name a device is listed under is never empty, at most 64 characters, without control
  characters and without white space at either end, whatever was typed; and a name that is already
  so is kept as it is.\<close>

theorem device_names_are_clean:
  "0 < length (clean_device_name raw) \<and> length (clean_device_name raw) \<le> 64 \<and>
   trimmed (clean_device_name raw) \<and> list_all (\<lambda>c. \<not> is_control c) (clean_device_name raw) \<and>
   clean_device_name (clean_device_name raw) = clean_device_name raw"
  using clean_device_name_ok [of raw] clean_device_name_id [of "clean_device_name raw"]
  by (simp add: MAX_DEVICE_NAME_CHARS_def)

end
