(* ===== verification/Pairing_Service.thy ===== *)
theory Pairing_Service
  imports Pairing_State
begin

text \<open>
  The pairing service (\<open>crates/net/src/pairing/service.rs\<close>), the device cookie (\<open>cookies.rs\<close>), the
  cross-site rule (\<open>remote.rs\<close>) and the gate in front of the routers (\<open>gate.rs\<close>).

  Every flow is composed of the state's operations under one lock; \<open>saved\<close> is whether the file could
  be written. \<open>norm\<close> stands for the URL crate's normalisation of an announced origin.
\<close>

section \<open>Cookies\<close>

definition NAME_PREFIX :: ustring where "NAME_PREFIX = lit ''__Host-residuum_device_''"
definition FALLBACK_SLUG :: ustring where "FALLBACK_SLUG = lit ''default''"
definition MAX_SLUG_LEN :: nat where "MAX_SLUG_LEN = 24"

definition is_valid_slug :: "ustring \<Rightarrow> bool" where
  "is_valid_slug s \<longleftrightarrow> s \<noteq> [] \<and> length s \<le> MAX_SLUG_LEN \<and>
     list_all (\<lambda>b. is_ascii_lower b \<or> is_ascii_digit b \<or> b = dash) s \<and> hd s \<noteq> dash \<and> last s \<noteq> dash"

definition cookie_name :: "ustring option \<Rightarrow> ustring" where
  "cookie_name sl = NAME_PREFIX @ (case sl of Some s \<Rightarrow> s | None \<Rightarrow> FALLBACK_SLUG)"

definition equals_sign :: nat where "equals_sign = 61"
definition semicolon :: nat where "semicolon = 59"

definition cookie_header :: "ustring list \<Rightarrow> ustring option" where
  "cookie_header fs = (if fs = [] then None else Some (concat_with (lit ''; '') fs))"

definition cookie_pair :: "ustring \<Rightarrow> ustring \<Rightarrow> ustring option" where
  "cookie_pair name pair =
     (case split_once equals_sign (trim pair) of
        Some (key, value) \<Rightarrow> if key = name \<and> value \<noteq> [] then Some value else None
      | None \<Rightarrow> None)"

fun find_map :: "('a \<Rightarrow> 'b option) \<Rightarrow> 'a list \<Rightarrow> 'b option" where
  "find_map f [] = None"
| "find_map f (x # xs) = (case f x of Some y \<Rightarrow> Some y | None \<Rightarrow> find_map f xs)"

definition find_cookie :: "ustring \<Rightarrow> ustring \<Rightarrow> ustring option" where
  "find_cookie header name = find_map (cookie_pair name) (split_on semicolon header)"

section \<open>Flows\<close>

type_synonym 'a flow = "pstate \<Rightarrow> (pairing_error + 'a) \<times> pstate"

definition andthen :: "'a flow \<Rightarrow> ('a \<Rightarrow> 'b flow) \<Rightarrow> 'b flow" where
  "andthen m f s = (case m s of (Inl e, s1) \<Rightarrow> (Inl e, s1) | (Inr a, s1) \<Rightarrow> f a s1)"

definition give :: "'a \<Rightarrow> 'a flow" where
  "give a s = (Inr a, s)"

definition from_rng :: "'a option \<Rightarrow> 'a flow" where
  "from_rng r s = (case r of Some a \<Rightarrow> (Inr a, s) | None \<Rightarrow> (Inl RandomFailed, s))"

record remote_context =
  peer_ip :: "ustring option"
  remote_origin :: "ustring option"

definition limit :: "remote_context option \<Rightarrow> datetime \<Rightarrow> unit flow" where
  "limit remote now s = (case remote of None \<Rightarrow> (Inr (), s) | Some r \<Rightarrow> check_limit (peer_ip r) now s)"

text \<open>The snapshot is taken, and counted as saved, before the file is written.\<close>

definition save :: "bool \<Rightarrow> unit flow" where
  "save saved s = (if saved then Inr () else Inl Storage, mark_saved s)"

record minted_pair_token =
  minted_token :: ustring
  minted_origin :: ustring
  new_recovery_codes :: "ustring list option"

definition mint_pair_token ::
    "(ustring \<Rightarrow> ustring) \<Rightarrow> datetime \<Rightarrow> ustring option \<Rightarrow> ustring list option \<Rightarrow> bool \<Rightarrow> minted_pair_token flow"
where
  "mint_pair_token hash now token codes saved =
     andthen (from_rng token) (\<lambda>tok.
     andthen (\<lambda>s. (case ui_origin (pidentity s) of Some u \<Rightarrow> Inr u | None \<Rightarrow> Inl NotReady, s)) (\<lambda>origin.
     andthen (\<lambda>s. if recovery_generated s = None
                   then (case replace_recovery_codes hash codes now s of
                           (Inl e, s1) \<Rightarrow> (Inl e, s1) | (Inr cs, s1) \<Rightarrow> (Inr (Some cs), s1))
                   else (Inr None, s)) (\<lambda>cs.
     andthen (\<lambda>s. (Inr (), add_pair_token (hash tok) now s)) (\<lambda>_.
     andthen (save saved) (\<lambda>_.
       give \<lparr>minted_token = tok, minted_origin = origin, new_recovery_codes = cs\<rparr>)))))"

definition regenerate_recovery_codes ::
    "(ustring \<Rightarrow> ustring) \<Rightarrow> datetime \<Rightarrow> ustring list option \<Rightarrow> bool \<Rightarrow> ustring list flow" where
  "regenerate_recovery_codes hash now codes saved =
     andthen (replace_recovery_codes hash codes now) (\<lambda>cs. andthen (save saved) (\<lambda>_. give cs))"

definition redeem_token ::
    "(ustring \<Rightarrow> ustring) \<Rightarrow> remote_context option \<Rightarrow> datetime \<Rightarrow> ustring \<Rightarrow> ustring \<Rightarrow>
       ustring option \<Rightarrow> ustring option \<Rightarrow> bool \<Rightarrow> issued flow" where
  "redeem_token hash remote now token name sec ident saved =
     andthen (limit remote now) (\<lambda>_.
     andthen (take_pair_token (hash token) now) (\<lambda>_.
     andthen (add_device hash name sec ident now) (\<lambda>iss.
     andthen (save saved) (\<lambda>_. give iss))))"

definition redeem_recovery ::
    "(ustring \<Rightarrow> ustring) \<Rightarrow> remote_context option \<Rightarrow> datetime \<Rightarrow> ustring \<Rightarrow> ustring \<Rightarrow>
       ustring option \<Rightarrow> ustring option \<Rightarrow> bool \<Rightarrow> issued flow" where
  "redeem_recovery hash remote now typed name sec ident saved =
     andthen (limit remote now) (\<lambda>_.
     andthen (take_recovery_code hash typed) (\<lambda>_.
     andthen (add_device hash name sec ident now) (\<lambda>iss.
     andthen (save saved) (\<lambda>_. give iss))))"

definition create_request ::
    "(ustring \<Rightarrow> ustring) \<Rightarrow> remote_context option \<Rightarrow> datetime \<Rightarrow> ustring \<Rightarrow> ustring option \<Rightarrow>
       ustring option \<Rightarrow> ustring option \<Rightarrow> (ustring \<times> ustring) flow" where
  "create_request hash remote now name request_id pub cd =
     andthen (limit remote now) (\<lambda>_.
     andthen (from_rng request_id) (\<lambda>rid.
     andthen (add_request (hash rid) (clean_device_name name) pub cd now) (\<lambda>(_, c).
       give (rid, c))))"

definition service_poll ::
    "(ustring \<Rightarrow> ustring) \<Rightarrow> datetime \<Rightarrow> ustring \<Rightarrow> ustring option \<Rightarrow> ustring option \<Rightarrow> bool \<Rightarrow> poll_outcome flow"
where
  "service_poll hash now request_id sec ident saved =
     andthen (poll_request hash (hash request_id) sec ident now) (\<lambda>outcome.
       (case outcome of
          ApprovedWith iss \<Rightarrow> andthen (save saved) (\<lambda>_. give outcome)
        | _ \<Rightarrow> give outcome))"

definition mint_handoff ::
    "(ustring \<Rightarrow> ustring) \<Rightarrow> datetime \<Rightarrow> ustring \<Rightarrow> ustring option \<Rightarrow> ustring flow" where
  "mint_handoff hash now dev token =
     andthen (from_rng token) (\<lambda>tok.
     andthen (\<lambda>s. (Inr (), add_handoff (hash tok) dev now s)) (\<lambda>_. give tok))"

definition redeem_handoff ::
    "(ustring \<Rightarrow> ustring) \<Rightarrow> remote_context option \<Rightarrow> datetime \<Rightarrow> ustring \<Rightarrow> ustring option \<Rightarrow>
       ustring option \<Rightarrow> bool \<Rightarrow> issued flow" where
  "redeem_handoff hash remote now token held sec saved =
     andthen (limit remote now) (\<lambda>_.
     andthen (take_handoff (hash token) now) (\<lambda>dev.
     andthen (add_workbench_credential hash dev held sec now) (\<lambda>iss.
     andthen (save saved) (\<lambda>_. give iss))))"

definition service_revoke :: "ustring \<Rightarrow> bool \<Rightarrow> unit flow" where
  "service_revoke dev saved =
     andthen (\<lambda>s. let (found, s1) = revoke dev s in (if found then Inr () else Inl Rejected, s1)) (\<lambda>_.
       save saved)"

text \<open>Authenticating a request by its cookies; a due flush that fails is only logged.\<close>

definition service_authenticate ::
    "(ustring \<Rightarrow> ustring) \<Rightarrow> surface \<Rightarrow> ustring option \<Rightarrow> datetime \<Rightarrow> pstate \<Rightarrow>
       (auth_hit \<times> ustring) option \<times> pstate" where
  "service_authenticate hash surface header now s =
     (case header of
        None \<Rightarrow> (None, s)
      | Some h \<Rightarrow>
          (case find_cookie h (cookie_name (slug (pidentity s))) of
             None \<Rightarrow> (None, s)
           | Some sec \<Rightarrow>
               (case authenticate hash surface sec now s of
                  (None, s1) \<Rightarrow> (None, s1)
                | (Some hit, s1) \<Rightarrow>
                    (Some (hit, sec), if flush_due now s1 then mark_saved s1 else s1))))"

definition keep_or :: "('a \<Rightarrow> 'b option) \<Rightarrow> 'a option \<Rightarrow> 'b option \<Rightarrow> 'b option" where
  "keep_or f announced current =
     (case announced of
        None \<Rightarrow> current
      | Some a \<Rightarrow> (case f a of Some b \<Rightarrow> Some b | None \<Rightarrow> current))"

definition apply_identity :: "(ustring \<Rightarrow> ustring option) \<Rightarrow> identity \<Rightarrow> bool \<Rightarrow> unit flow" where
  "apply_identity norm announced saved s =
     (let cur = pidentity s;
          new = \<lparr>slug = keep_or (\<lambda>x. if is_valid_slug x then Some x else None) (slug announced) (slug cur),
                 ui_origin = keep_or norm (ui_origin announced) (ui_origin cur),
                 workbench_origin = keep_or norm (workbench_origin announced) (workbench_origin cur)\<rparr>
      in if new \<noteq> cur then save saved (s\<lparr>pidentity := new\<rparr>) else (Inr (), s))"

section \<open>The service as a machine\<close>

record service =
  pst :: pstate
  identity_is_local :: bool

definition update_identity :: "(ustring \<Rightarrow> ustring option) \<Rightarrow> identity \<Rightarrow> bool \<Rightarrow> service \<Rightarrow> service" where
  "update_identity norm announced saved v =
     (if identity_is_local v then v else v\<lparr>pst := snd (apply_identity norm announced saved (pst v))\<rparr>)"

definition set_local_identity :: "(ustring \<Rightarrow> ustring option) \<Rightarrow> identity \<Rightarrow> bool \<Rightarrow> service \<Rightarrow> service" where
  "set_local_identity norm ident saved v =
     v\<lparr>identity_is_local := True, pst := snd (apply_identity norm ident saved (pst v))\<rparr>"

datatype pairing_op =
    MintPairToken datetime "ustring option" "ustring list option" bool
  | RegenerateCodes datetime "ustring list option" bool
  | RedeemToken "remote_context option" datetime ustring ustring "ustring option" "ustring option" bool
  | RedeemRecovery "remote_context option" datetime ustring ustring "ustring option" "ustring option" bool
  | CreateRequest "remote_context option" datetime ustring "ustring option" "ustring option" "ustring option"
  | PollRequest datetime ustring "ustring option" "ustring option" bool
  | ListPending datetime
  | DecideRequest datetime ustring bool
  | MintHandoff datetime ustring "ustring option"
  | RedeemHandoff "remote_context option" datetime ustring "ustring option" "ustring option" bool
  | Revoke ustring bool
  | Authenticate surface "ustring option" datetime
  | UpdateIdentity identity bool
  | SetLocalIdentity identity bool

datatype pairing_out =
    HitBy auth_hit
  | PolledOut ustring "pairing_error + poll_outcome" \<comment> \<open>the request id polled, and the answer\<close>

definition on_state :: "'a flow \<Rightarrow> service \<Rightarrow> service \<times> pairing_out list" where
  "on_state f v = (v\<lparr>pst := snd (f (pst v))\<rparr>, [])"

fun pairing_step ::
    "(ustring \<Rightarrow> ustring) \<Rightarrow> (ustring \<Rightarrow> ustring option) \<Rightarrow> service \<Rightarrow> pairing_op \<Rightarrow> service \<times> pairing_out list"
where
  "pairing_step hash norm v (MintPairToken now token codes saved) =
     on_state (mint_pair_token hash now token codes saved) v"
| "pairing_step hash norm v (RegenerateCodes now codes saved) =
     on_state (regenerate_recovery_codes hash now codes saved) v"
| "pairing_step hash norm v (RedeemToken remote now token name sec ident saved) =
     on_state (redeem_token hash remote now token name sec ident saved) v"
| "pairing_step hash norm v (RedeemRecovery remote now typed name sec ident saved) =
     on_state (redeem_recovery hash remote now typed name sec ident saved) v"
| "pairing_step hash norm v (CreateRequest remote now name rid pub cd) =
     on_state (create_request hash remote now name rid pub cd) v"
| "pairing_step hash norm v (PollRequest now rid sec ident saved) =
     (let (r, s) = service_poll hash now rid sec ident saved (pst v)
      in (v\<lparr>pst := s\<rparr>, [PolledOut rid r]))"
| "pairing_step hash norm v (ListPending now) = (v\<lparr>pst := snd (pending_views now (pst v))\<rparr>, [])"
| "pairing_step hash norm v (DecideRequest now pub approve) = on_state (decide_request pub approve now) v"
| "pairing_step hash norm v (MintHandoff now dev token) = on_state (mint_handoff hash now dev token) v"
| "pairing_step hash norm v (RedeemHandoff remote now token held sec saved) =
     on_state (redeem_handoff hash remote now token held sec saved) v"
| "pairing_step hash norm v (Revoke dev saved) = on_state (service_revoke dev saved) v"
| "pairing_step hash norm v (Authenticate surface header now) =
     (let (r, s) = service_authenticate hash surface header now (pst v)
      in (v\<lparr>pst := s\<rparr>, case r of Some (hit, _) \<Rightarrow> [HitBy hit] | None \<Rightarrow> []))"
| "pairing_step hash norm v (UpdateIdentity ident saved) = (update_identity norm ident saved v, [])"
| "pairing_step hash norm v (SetLocalIdentity ident saved) = (set_local_identity norm ident saved v, [])"

section \<open>The gate\<close>

datatype http_method = GET | HEAD | OPTIONS | POST | OtherMethod ustring

record request =
  remote :: "remote_context option"
  from_artifacts :: bool \<comment> \<open>the workbench listener's mark\<close>
  req_method :: http_method
  path :: ustring
  upgrade :: "ustring option"
  sec_fetch_site :: "ustring option"
  sec_fetch_mode :: "ustring option"
  sec_fetch_dest :: "ustring option"
  accept :: "ustring option"
  origin :: "ustring option"
  cookies :: "ustring list"

definition is_state_changing :: "request \<Rightarrow> bool" where
  "is_state_changing r \<longleftrightarrow>
     (case upgrade r of Some v \<Rightarrow> eq_ignore_ascii_case v (lit ''websocket'') | None \<Rightarrow> False) \<or>
     req_method r \<notin> {GET, HEAD, OPTIONS}"

definition slash :: nat where "slash = 47"

definition origins_equal :: "ustring \<Rightarrow> ustring \<Rightarrow> bool" where
  "origins_equal a b \<longleftrightarrow>
     eq_ignore_ascii_case (trim_end_char slash (trim a)) (trim_end_char slash (trim b))"

definition passes_cross_site_rule :: "request \<Rightarrow> ustring option \<Rightarrow> bool" where
  "passes_cross_site_rule r own \<longleftrightarrow>
     \<not> is_state_changing r \<or>
     (case sec_fetch_site r of
        Some site \<Rightarrow> eq_ignore_ascii_case site (lit ''same-origin'') \<or> eq_ignore_ascii_case site (lit ''none'')
      | None \<Rightarrow>
          (case (origin r, own) of
             (Some a, Some b) \<Rightarrow> origins_equal a b
           | _ \<Rightarrow> False))"

definition header_is :: "ustring option \<Rightarrow> string list \<Rightarrow> bool" where
  "header_is value wanted =
     (case value of Some v \<Rightarrow> list_ex (\<lambda>w. eq_ignore_ascii_case v (lit w)) wanted | None \<Rightarrow> False)"

definition is_navigation :: "request \<Rightarrow> bool" where
  "is_navigation r \<longleftrightarrow> req_method r \<in> {GET, HEAD} \<and> \<not> is_state_changing r \<and>
     (header_is (sec_fetch_mode r) [''navigate''] \<or>
      header_is (sec_fetch_dest r) [''document'', ''iframe'', ''frame''] \<or>
      (case accept r of Some a \<Rightarrow> contains_str (lit ''text/html'') a | None \<Rightarrow> False))"

definition PAIRING_PAGE_PATH :: ustring where "PAIRING_PAGE_PATH = lit ''/pair''"
definition HANDOFF_PAGE_PATH :: ustring where "HANDOFF_PAGE_PATH = lit ''/_handoff''"
definition STATE_PATH :: ustring where "STATE_PATH = lit ''/api/hub/pairing/state''"
definition HANDOFF_API_PATH :: ustring where "HANDOFF_API_PATH = lit ''/api/hub/pairing/handoff''"

definition PRE_AUTH_POSTS :: "ustring list" where
  "PRE_AUTH_POSTS = [lit ''/api/hub/pairing/requests'', lit ''/api/hub/pairing/requests/poll'',
     lit ''/api/hub/pairing/recovery'', lit ''/api/hub/pairing/redeem'']"

definition is_pairing_page_asset :: "ustring \<Rightarrow> bool" where
  "is_pairing_page_asset p \<longleftrightarrow> \<not> contains_str (lit ''..'') p \<and>
     (p = PAIRING_PAGE_PATH \<or> starts_with (lit ''/assets/'') p \<or> starts_with (lit ''/icons/'') p \<or>
      p = lit ''/favicon.svg'' \<or> p = lit ''/manifest.webmanifest'')"

definition is_pre_auth :: "surface \<Rightarrow> http_method \<Rightarrow> ustring \<Rightarrow> bool" where
  "is_pre_auth surf m p \<longleftrightarrow>
     (case surf of
        UiHost \<Rightarrow> m \<in> {GET, HEAD} \<and> is_pairing_page_asset p \<or> m = GET \<and> p = STATE_PATH \<or>
                  m = POST \<and> p \<in> set PRE_AUTH_POSTS
      | WorkbenchHost \<Rightarrow> m \<in> {GET, HEAD} \<and> p = HANDOFF_PAGE_PATH \<or> m = POST \<and> p = HANDOFF_API_PATH)"

definition origin_of :: "surface \<Rightarrow> pstate \<Rightarrow> ustring option" where
  "origin_of surf s =
     (case surf of UiHost \<Rightarrow> ui_origin (pidentity s) | WorkbenchHost \<Rightarrow> workbench_origin (pidentity s))"

datatype gate_result =
    PassedUngated \<comment> \<open>local, or gated already by the workbench listener\<close>
  | PassedPreAuth
  | PassedAs auth_hit
  | CrossSite
  | ToPairingPage
  | WorkbenchLanding
  | Unauthorized

definition unauthorized :: "surface \<Rightarrow> request \<Rightarrow> gate_result" where
  "unauthorized surf r =
     (if is_navigation r then (case surf of UiHost \<Rightarrow> ToPairingPage | WorkbenchHost \<Rightarrow> WorkbenchLanding)
      else Unauthorized)"

definition device_gate ::
    "(ustring \<Rightarrow> ustring) \<Rightarrow> surface \<Rightarrow> datetime \<Rightarrow> request \<Rightarrow> pstate \<Rightarrow> gate_result \<times> pstate" where
  "device_gate hash surf now r s =
     (case remote r of
        None \<Rightarrow> (PassedUngated, s)
      | Some ctx \<Rightarrow>
          if surf = UiHost \<and> from_artifacts r then (PassedUngated, s)
          else
            let own = (case remote_origin ctx of Some u \<Rightarrow> Some u | None \<Rightarrow> origin_of surf s)
            in if \<not> passes_cross_site_rule r own then (CrossSite, s)
               else if is_pre_auth surf (req_method r) (path r) then (PassedPreAuth, s)
               else (case service_authenticate hash surf (cookie_header (cookies r)) now s of
                   (None, s1) \<Rightarrow> (unauthorized surf r, s1)
                 | (Some (hit, _), s1) \<Rightarrow> (PassedAs hit, s1)))"


section \<open>Flows that keep an invariant\<close>

definition keeping :: "(pstate \<Rightarrow> bool) \<Rightarrow> 'a flow \<Rightarrow> bool" where
  "keeping P f \<longleftrightarrow> (\<forall>s. P s \<longrightarrow> P (snd (f s)))"

lemma keepingD: "keeping P f \<Longrightarrow> P s \<Longrightarrow> P (snd (f s))"
  by (simp add: keeping_def)

lemma keeping_andthen: "keeping P m \<Longrightarrow> (\<And>a. keeping P (f a)) \<Longrightarrow> keeping P (andthen m f)"
  unfolding keeping_def andthen_def by (force split: prod.split sum.split)

lemma keeping_simple [intro]: "keeping P (give a)" "keeping P (from_rng r)"
  by (auto simp: keeping_def give_def from_rng_def split: option.split)

text \<open>The sizes the code promises, and well-formed tables.\<close>

definition pairing_inv :: "pstate \<Rightarrow> bool" where
  "pairing_inv s \<longleftrightarrow>
     hm_wf (pair_tokens s) \<and> length (pair_tokens s) \<le> MAX_OUTSTANDING_TOKENS \<and>
     hm_wf (handoffs s) \<and> length (handoffs s) \<le> MAX_OUTSTANDING_TOKENS \<and>
     length (requests s) \<le> MAX_PENDING_REQUESTS \<and>
     list_all (\<lambda>d. length (workbench_hashes d) \<le> MAX_WORKBENCH_CREDENTIALS) (devices s)"

lemma pairing_inv_fields [simp]:
  "pairing_inv (s\<lparr>pidentity := x\<rparr>) = pairing_inv s" "pairing_inv (s\<lparr>plimiter := l\<rparr>) = pairing_inv s"
  "pairing_inv (s\<lparr>dirty_since := d\<rparr>) = pairing_inv s"
  "pairing_inv (s\<lparr>recovery_hashes := hs\<rparr>) = pairing_inv s"
  "pairing_inv (s\<lparr>recovery_hashes := hs, recovery_generated := g\<rparr>) = pairing_inv s"
  by (simp_all add: pairing_inv_def)

lemma purge_inv: "pairing_inv s \<Longrightarrow> pairing_inv (purge_requests now s)"
  unfolding pairing_inv_def purge_requests_def
  by (elim conjE, intro conjI) (simp_all add: le_trans [OF length_filter_le])

lemma add_device_inv: "pairing_inv s \<Longrightarrow> pairing_inv (snd (add_device hash name sec ident now s))"
  by (auto simp: add_device_def pairing_inv_def Let_def split: option.split)

lemma requests_inv: "pairing_inv s \<Longrightarrow> length rs \<le> length (requests s) \<Longrightarrow> pairing_inv (s\<lparr>requests := rs\<rparr>)"
  by (simp add: pairing_inv_def)

lemma devices_update_inv:
  assumes "pairing_inv s" "length (workbench_hashes d) \<le> MAX_WORKBENCH_CREDENTIALS"
  shows "pairing_inv (s\<lparr>devices := (devices s)[i := d]\<rparr>)"
proof -
  have "set ((devices s)[i := d]) \<subseteq> insert d (set (devices s))" by (rule set_update_subset_insert)
  then show ?thesis using assms by (auto simp: pairing_inv_def list_all_iff)
qed

lemma push_workbench_length:
  "length hs \<le> MAX_WORKBENCH_CREDENTIALS \<Longrightarrow>
     length (push_workbench_hash h hs) \<le> MAX_WORKBENCH_CREDENTIALS"
  by (auto simp: push_workbench_hash_def Let_def)

lemma device_workbench:
  "pairing_inv s \<Longrightarrow> i < length (devices s) \<Longrightarrow>
     length (workbench_hashes (devices s ! i)) \<le> MAX_WORKBENCH_CREDENTIALS"
  by (simp add: pairing_inv_def list_all_length)

lemma add_workbench_inv:
  assumes "pairing_inv s"
  shows "pairing_inv (snd (add_workbench_credential hash dev held sec now s))"
proof (cases "position (\<lambda>d. dev_id d = dev) (devices s)")
  case None
  then show ?thesis using assms by (simp add: add_workbench_credential_def)
next
  case (Some i)
  then have "length (workbench_hashes (devices s ! i)) \<le> MAX_WORKBENCH_CREDENTIALS"
    using position_Some device_workbench [OF assms] by blast
  then show ?thesis
    using Some assms
    by (auto simp: add_workbench_credential_def Let_def devices_update_inv push_workbench_length
        split: option.split)
qed

lemma authenticate_inv:
  assumes "pairing_inv s"
  shows "pairing_inv (snd (authenticate hash surf sec now s))"
proof (cases "position (holds_credential hash surf (hash sec)) (devices s)")
  case None
  then show ?thesis using assms by (simp add: authenticate_def)
next
  case (Some i)
  then have "length (workbench_hashes (devices s ! i)) \<le> MAX_WORKBENCH_CREDENTIALS"
    using position_Some device_workbench [OF assms] by blast
  then show ?thesis
    using Some assms by (simp add: authenticate_def Let_def devices_update_inv)
qed

lemma poll_inv: "pairing_inv s \<Longrightarrow> pairing_inv (snd (poll_request hash h sec ident now s))"
proof -
  assume "pairing_inv s"
  then have p: "pairing_inv (purge_requests now s)" by (rule purge_inv)
  let ?s = "purge_requests now s"
  show ?thesis
  proof (cases "position (\<lambda>r. hashes_equal hash (secret_hash r) h) (requests ?s)")
    case None
    then show ?thesis using p by (simp add: poll_request_def Let_def)
  next
    case (Some i)
    have "pairing_inv (?s\<lparr>requests := remove_at i (requests ?s)\<rparr>)"
      using p position_Some [OF Some] by (intro requests_inv) (simp_all add: length_remove_at)
    with Some p add_device_inv [OF this] show ?thesis
      by (simp add: poll_request_def Let_def split: decision.split prod.split sum.split) (metis snd_conv)
  qed
qed

lemma keeping_inv [intro]:
  "keeping pairing_inv (limit rctx now)" "keeping pairing_inv (save saved)"
  "keeping pairing_inv (take_pair_token h now)" "keeping pairing_inv (take_handoff h now)"
  "keeping pairing_inv (\<lambda>s. (Inr (), add_pair_token h now s))"
  "keeping pairing_inv (\<lambda>s. (Inr (), add_handoff h dev now s))"
  "keeping pairing_inv (take_recovery_code hash typed)"
  "keeping pairing_inv (replace_recovery_codes hash codes now)"
  "keeping pairing_inv (add_device hash name sec ident now)"
  "keeping pairing_inv (add_workbench_credential hash dev held sec now)"
  "keeping pairing_inv (poll_request hash h sec ident now)"
proof -
  show "keeping pairing_inv (limit rctx now)"
    by (auto simp: keeping_def limit_def check_limit_def split_def Let_def split: option.split)
  show "keeping pairing_inv (save saved)" by (simp add: keeping_def save_def mark_saved_def)
  show "keeping pairing_inv (take_pair_token h now)" "keeping pairing_inv (take_handoff h now)"
    by (auto simp: keeping_def take_pair_token_def take_handoff_def take_token_def Let_def
        pairing_inv_def intro: le_trans [OF length_hm_remove])
  show "keeping pairing_inv (\<lambda>s. (Inr (), add_pair_token h now s))"
    "keeping pairing_inv (\<lambda>s. (Inr (), add_handoff h dev now s))"
    by (simp_all add: keeping_def add_pair_token_def add_handoff_def pairing_inv_def add_token_wf
        add_token_length)
  show "keeping pairing_inv (take_recovery_code hash typed)"
    by (simp add: keeping_def take_recovery_code_def Let_def split: option.split)
  show "keeping pairing_inv (replace_recovery_codes hash codes now)"
    by (simp add: keeping_def replace_recovery_codes_def split: option.split)
qed (auto simp: keeping_def add_device_inv add_workbench_inv poll_inv)

lemma add_request_inv: "keeping pairing_inv (add_request h name pub cd now)"
  unfolding keeping_def
proof (intro allI impI)
  fix s assume "pairing_inv s"
  then have p: "pairing_inv (purge_requests now s)" by (rule purge_inv)
  then show "pairing_inv (snd (add_request h name pub cd now s))"
    by (auto simp: add_request_def Let_def split: option.split)
      (simp add: pairing_inv_def MAX_PENDING_REQUESTS_def)
qed

lemma decide_request_inv: "keeping pairing_inv (decide_request pub approve now)"
  unfolding keeping_def
proof (intro allI impI)
  fix s assume "pairing_inv s"
  then have "pairing_inv (purge_requests now s)" by (rule purge_inv)
  then show "pairing_inv (snd (decide_request pub approve now s))"
    by (auto simp: decide_request_def Let_def requests_inv split: option.split)
qed

lemma revoke_inv: "pairing_inv s \<Longrightarrow> pairing_inv (snd (revoke dev s))"
  by (auto simp: revoke_def Let_def pairing_inv_def list_all_iff
      intro: le_trans [OF length_hm_retain])

lemma flows_inv:
  "keeping pairing_inv (mint_pair_token hash now token codes saved)"
  "keeping pairing_inv (regenerate_recovery_codes hash now codes saved)"
  "keeping pairing_inv (redeem_token hash rctx now tok name sec ident saved)"
  "keeping pairing_inv (redeem_recovery hash rctx now typed name sec ident saved)"
  "keeping pairing_inv (create_request hash rctx now name rid pub cd)"
  "keeping pairing_inv (service_poll hash now rid' sec ident saved)"
  "keeping pairing_inv (mint_handoff hash now dev token)"
  "keeping pairing_inv (redeem_handoff hash rctx now tok held sec saved)"
  "keeping pairing_inv (service_revoke dev saved)"
proof -
  have codes: "keeping pairing_inv (\<lambda>s. if recovery_generated s = None
        then (case replace_recovery_codes hash codes now s of
                (Inl e, s1) \<Rightarrow> (Inl e, s1) | (Inr cs, s1) \<Rightarrow> (Inr (Some cs), s1))
        else (Inr None, s))"
    using keeping_inv(8) [of hash codes now]
    by (force simp: keeping_def split: prod.split sum.split)
  have origin: "keeping pairing_inv (\<lambda>s. (case ui_origin (pidentity s) of Some u \<Rightarrow> Inr u
      | None \<Rightarrow> Inl NotReady, s))" by (simp add: keeping_def)
  show "keeping pairing_inv (mint_pair_token hash now token codes saved)"
    unfolding mint_pair_token_def by (intro keeping_andthen codes origin keeping_simple keeping_inv)
  show "keeping pairing_inv (service_poll hash now rid' sec ident saved)"
    unfolding service_poll_def
    by (rule keeping_andthen) (auto intro!: keeping_andthen split: poll_outcome.split)
  show "keeping pairing_inv (create_request hash rctx now name rid pub cd)"
    unfolding create_request_def
    by (intro keeping_andthen keeping_inv keeping_simple add_request_inv) (auto split: prod.split)
  have "keeping pairing_inv (\<lambda>s. let (found, s1) = revoke dev s in
      (if found then Inr () else Inl Rejected, s1))"
    using revoke_inv by (simp add: keeping_def split_def Let_def)
  then show "keeping pairing_inv (service_revoke dev saved)"
    unfolding service_revoke_def by (intro keeping_andthen keeping_inv)
qed (unfold regenerate_recovery_codes_def redeem_token_def redeem_recovery_def mint_handoff_def
    redeem_handoff_def, (intro keeping_andthen keeping_inv keeping_simple)+)

lemma service_authenticate_inv:
  "pairing_inv s \<Longrightarrow> pairing_inv (snd (service_authenticate hash surf header now s))"
proof -
  assume i: "pairing_inv s"
  note a = authenticate_inv [OF i, of hash surf _ now]
  show ?thesis
    using i a by (auto simp: service_authenticate_def mark_saved_def split: option.split prod.split)
      (metis snd_conv)+
qed

lemma apply_identity_inv: "pairing_inv s \<Longrightarrow> pairing_inv (snd (apply_identity norm a saved s))"
  using keeping_inv(2) [of saved] by (simp add: apply_identity_def Let_def keeping_def)

lemma pairing_step_inv: "pairing_inv (pst v) \<Longrightarrow> pairing_inv (pst (fst (pairing_step hash norm v op)))"
  by (cases op) (simp_all add: on_state_def keepingD [OF flows_inv(1)] keepingD [OF flows_inv(2)]
      keepingD [OF flows_inv(3)] keepingD [OF flows_inv(4)] keepingD [OF flows_inv(5)]
      keepingD [OF flows_inv(6)] keepingD [OF flows_inv(7)] keepingD [OF flows_inv(8)]
      keepingD [OF flows_inv(9)] keepingD [OF decide_request_inv] service_authenticate_inv
      pending_views_def purge_inv update_identity_def set_local_identity_def apply_identity_inv
      split_def Let_def)

interpretation pairing: machine "pairing_step hash norm" "\<lambda>v. pairing_inv (pst v)" for hash norm
  by unfold_locales (rule pairing_step_inv)


section \<open>Devices are paid for\<close>

text \<open>
  What can still turn into a device: unspent first-device tokens, unused recovery codes and
  approved requests nobody has polled yet.
\<close>

definition outstanding :: "pstate \<Rightarrow> nat" where
  "outstanding s = length (pair_tokens s) + length (recovery_hashes s) +
     length (filter (\<lambda>r. decision r = Approved) (requests s))"

definition authority :: "pstate \<Rightarrow> nat" where
  "authority s = length (devices s) + outstanding s"

text \<open>What an operation of the machine's owner authorises.\<close>

fun authorises :: "pairing_op \<Rightarrow> nat" where
  "authorises (MintPairToken now token codes saved) = 1 + (case codes of Some cs \<Rightarrow> length cs | None \<Rightarrow> 0)"
| "authorises (RegenerateCodes now codes saved) = (case codes of Some cs \<Rightarrow> length cs | None \<Rightarrow> 0)"
| "authorises (DecideRequest now pub approve) = (if approve then 1 else 0)"
| "authorises _ = 0"

definition gains :: "'a flow \<Rightarrow> nat \<Rightarrow> bool" where
  "gains f n \<longleftrightarrow> (\<forall>s. pairing_inv s \<longrightarrow> authority (snd (f s)) \<le> authority s + n)"

definition pays :: "'a flow \<Rightarrow> bool" where
  "pays f \<longleftrightarrow> (\<forall>s. pairing_inv s \<longrightarrow> (case fst (f s) of
     Inl e \<Rightarrow> authority (snd (f s)) \<le> authority s
   | Inr a \<Rightarrow> authority (snd (f s)) + 1 \<le> authority s))"

lemma gains_andthen:
  assumes "keeping pairing_inv m" "gains m a" "\<And>x. gains (f x) b"
  shows "gains (andthen m f) (a + b)"
  unfolding gains_def
proof (intro allI impI)
  fix s assume s: "pairing_inv s"
  have m: "authority (snd (m s)) \<le> authority s + a" using assms(2) s by (simp add: gains_def)
  show "authority (snd (andthen m f s)) \<le> authority s + (a + b)"
  proof (cases "fst (m s)")
    case (Inl e)
    then show ?thesis using m by (cases "m s") (simp add: andthen_def)
  next
    case (Inr x)
    have "authority (snd (f x (snd (m s)))) \<le> authority (snd (m s)) + b"
      using assms(3) keepingD [OF assms(1) s] by (simp add: gains_def)
    then show ?thesis using Inr m by (cases "m s") (simp add: andthen_def)
  qed
qed

lemma gains_zero:
  assumes "keeping pairing_inv m" "gains m 0" "\<And>x. gains (f x) n"
  shows "gains (andthen m f) n"
  using gains_andthen [OF assms] by simp

lemma pays_andthen:
  assumes "keeping pairing_inv m" "pays m" "\<And>x. gains (f x) 1"
  shows "gains (andthen m f) 0"
  unfolding gains_def
proof (intro allI impI)
  fix s assume s: "pairing_inv s"
  have p: "case fst (m s) of Inl e \<Rightarrow> authority (snd (m s)) \<le> authority s
      | Inr a \<Rightarrow> authority (snd (m s)) + 1 \<le> authority s"
    using assms(2) s by (simp add: pays_def)
  show "authority (snd (andthen m f s)) \<le> authority s + 0"
  proof (cases "fst (m s)")
    case (Inl e)
    then show ?thesis using p by (cases "m s") (simp add: andthen_def)
  next
    case (Inr x)
    have "authority (snd (f x (snd (m s)))) \<le> authority (snd (m s)) + 1"
      using assms(3) keepingD [OF assms(1) s] by (simp add: gains_def)
    then show ?thesis using Inr p by (cases "m s") (simp add: andthen_def)
  qed
qed

lemma authority_fields [simp]:
  "authority (s\<lparr>pidentity := x\<rparr>) = authority s" "authority (s\<lparr>plimiter := l\<rparr>) = authority s"
  "authority (s\<lparr>dirty_since := d\<rparr>) = authority s" "authority (s\<lparr>handoffs := hs\<rparr>) = authority s"
  "authority (s\<lparr>devices := (devices s)[i := dv]\<rparr>) = authority s"
  "authority (s\<lparr>devices := (devices s)[i := dv], dirty_since := d\<rparr>) = authority s"
  by (simp_all add: authority_def outstanding_def)

lemma length_drop_oldest: "length (drop_oldest f mx m) \<le> length m"
proof (induction f mx m rule: drop_oldest.induct)
  case (1 f mx m)
  show ?case
  proof (cases "length m < mx \<or> min_entry f m = None")
    case True
    then have "drop_oldest f mx m = m" by (subst drop_oldest.simps) auto
    then show ?thesis by simp
  next
    case False
    then obtain j w where e: "min_entry f m = Some (j, w)" by fastforce
    then have "length (drop_oldest f mx (hm_remove j m)) \<le> length (hm_remove j m)"
      using "1.IH" [OF _ e refl] False by simp
    also have "\<dots> \<le> length m" by (rule length_hm_remove)
    finally show ?thesis using e False by (subst drop_oldest.simps) simp
  qed
qed

lemma length_add_token: "length (add_token f k v now m) \<le> Suc (length m)"
  using length_drop_oldest [of f MAX_OUTSTANDING_TOKENS "hm_retain (\<lambda>_ x. f x > now) m"]
    length_hm_retain [of "\<lambda>_ x. f x > now" m]
  by (simp add: add_token_def length_hm_insert)

lemma length_filter_update:
  "i < length xs \<Longrightarrow> length (filter P (xs[i := y])) \<le> length (filter P xs) + (if P y then 1 else 0)"
proof (induction xs arbitrary: i)
  case Nil
  then show ?case by simp
next
  case (Cons x xs)
  then show ?case by (cases i) auto
qed

lemma purge_authority: "authority (purge_requests now s) \<le> authority s"
proof -
  have "length (filter (\<lambda>r. decision r = Approved) (filter (\<lambda>r. expires_at r > now) (requests s)))
    \<le> length (filter (\<lambda>r. decision r = Approved) (requests s))"
    by (auto intro: length_filter_mono)
  then show ?thesis by (simp add: authority_def outstanding_def purge_requests_def)
qed

lemma add_device_gains: "gains (add_device hash name sec ident now) 1"
  by (auto simp: gains_def add_device_def authority_def outstanding_def Let_def split: option.split)

lemma take_pair_token_pays: "pays (take_pair_token h now)"
  unfolding pays_def
proof (intro allI impI)
  fix s assume s: "pairing_inv s"
  then have "hm_wf (pair_tokens s)" by (simp add: pairing_inv_def)
  note len = length_hm_remove_mem [OF this, of h]
  have le: "length (hm_remove h (pair_tokens s)) \<le> length (pair_tokens s)" by (rule length_hm_remove)
  have "hm_get (pair_tokens s) h \<noteq> None \<Longrightarrow> pair_tokens s \<noteq> []" by auto
  with len le show "case fst (take_pair_token h now s) of
      Inl e \<Rightarrow> authority (snd (take_pair_token h now s)) \<le> authority s
    | Inr a \<Rightarrow> authority (snd (take_pair_token h now s)) + 1 \<le> authority s"
    by (auto simp: take_pair_token_def take_token_def Let_def authority_def outstanding_def
        split: option.splits sum.splits)
qed

lemma last_match_Some: "last_match P xs = Some i \<Longrightarrow> i < length xs \<and> P (xs ! i)"
  by (induction xs arbitrary: i) (auto split: option.splits if_splits)

lemma last_match_None: "last_match P xs = None \<longleftrightarrow> (\<forall>x\<in>set xs. \<not> P x)"
  by (induction xs) (auto split: option.splits)

lemma take_recovery_pays: "pays (take_recovery_code hash typed)"
  unfolding pays_def
  by (auto simp: take_recovery_code_def Let_def authority_def outstanding_def length_remove_at
      split: option.splits dest!: last_match_Some)

lemma replace_codes_gains:
  "gains (replace_recovery_codes hash codes now) (case codes of Some cs \<Rightarrow> length cs | None \<Rightarrow> 0)"
  by (auto simp: gains_def replace_recovery_codes_def authority_def outstanding_def split: option.split)

lemma gains_simple:
  "gains (give a) n" "gains (from_rng r) n" "gains (save saved) n" "gains (limit rctx now) n"
  "gains (take_handoff h now) n" "gains (\<lambda>s. (Inr (), add_handoff h dev now s)) n"
  "gains (add_workbench_credential hash dev held sec now) n"
  by (auto simp: gains_def give_def from_rng_def save_def mark_saved_def limit_def check_limit_def
      take_handoff_def add_handoff_def add_workbench_credential_def Let_def split_def
      split: option.split)

lemma add_pair_token_gains: "gains (\<lambda>s. (Inr (), add_pair_token h now s)) 1"
  by (simp add: gains_def add_pair_token_def authority_def outstanding_def length_add_token)

lemma poll_gains: "gains (poll_request hash h sec ident now) 0"
  unfolding gains_def
proof (intro allI impI)
  fix s0 assume "pairing_inv s0"
  then have inv: "pairing_inv (purge_requests now s0)" by (rule purge_inv)
  let ?s = "purge_requests now s0"
  have base: "authority ?s \<le> authority s0" by (rule purge_authority)
  show "authority (snd (poll_request hash h sec ident now s0)) \<le> authority s0 + 0"
  proof (cases "position (\<lambda>r. hashes_equal hash (secret_hash r) h) (requests ?s)")
    case None
    then show ?thesis using base by (simp add: poll_request_def Let_def)
  next
    case (Some i)
    then have i: "i < length (requests ?s)" using position_Some by blast
    let ?s1 = "?s\<lparr>requests := remove_at i (requests ?s)\<rparr>"
    have rm: "authority ?s1 + (if decision (requests ?s ! i) = Approved then 1 else 0) = authority ?s"
      using mset_remove_at_filter [OF i, of "\<lambda>r. decision r = Approved"]
      by (simp add: authority_def outstanding_def)
    have inv1: "pairing_inv ?s1" using inv i by (intro requests_inv) (simp_all add: length_remove_at)
    have add: "authority (snd (add_device hash (request_name (requests ?s ! i)) sec ident now ?s1))
        \<le> authority ?s1 + 1"
      using add_device_gains inv1 by (simp add: gains_def)
    show ?thesis
    proof (cases "decision (requests ?s ! i)")
      case Waiting
      then show ?thesis using Some base by (simp add: poll_request_def Let_def)
    next
      case Denied
      then show ?thesis using Some base rm by (simp add: poll_request_def Let_def)
    next
      case Approved
      then have "snd (poll_request hash h sec ident now s0) =
          snd (add_device hash (request_name (requests ?s ! i)) sec ident now ?s1)"
        using Some by (simp add: poll_request_def Let_def split: prod.split sum.split)
      then show ?thesis using add rm base Approved by simp
    qed
  qed
qed

lemma add_request_gains: "gains (add_request h name pub cd now) 0"
  unfolding gains_def
proof (intro allI impI)
  fix s assume "pairing_inv s"
  show "authority (snd (add_request h name pub cd now s)) \<le> authority s + 0"
    using purge_authority [of now s]
    by (auto simp: add_request_def Let_def authority_def outstanding_def split: option.split)
qed

lemma decide_gains: "gains (decide_request pub approve now) (if approve then 1 else 0)"
  unfolding gains_def
proof (intro allI impI)
  fix s0 assume "pairing_inv s0"
  let ?s = "purge_requests now s0"
  show "authority (snd (decide_request pub approve now s0)) \<le> authority s0 + (if approve then 1 else 0)"
  proof (cases "position (\<lambda>r. public_id r = pub \<and> decision r = Waiting) (requests ?s)")
    case None
    then show ?thesis using purge_authority [of now s0] by (simp add: decide_request_def Let_def)
  next
    case (Some i)
    then have "i < length (requests ?s)" using position_Some by blast
    from length_filter_update [OF this, of "\<lambda>r. decision r = Approved"
        "(requests ?s ! i)\<lparr>decision := if approve then Approved else Denied\<rparr>"]
    show ?thesis
      using Some purge_authority [of now s0]
      by (auto simp: decide_request_def Let_def authority_def outstanding_def split: if_splits)
  qed
qed

lemma revoke_authority: "authority (snd (revoke dev s)) \<le> authority s"
  by (simp add: revoke_def Let_def authority_def outstanding_def)

lemma flows_gain:
  "gains (mint_pair_token hash now token codes saved)
     (1 + (case codes of Some cs \<Rightarrow> length cs | None \<Rightarrow> 0))"
  "gains (regenerate_recovery_codes hash now codes saved) (case codes of Some cs \<Rightarrow> length cs | None \<Rightarrow> 0)"
  "gains (redeem_token hash rctx now tok name sec ident saved) 0"
  "gains (redeem_recovery hash rctx now typed name sec ident saved) 0"
  "gains (create_request hash rctx now name rid pub cd) 0"
  "gains (service_poll hash now rid' sec ident saved) 0"
  "gains (mint_handoff hash now dev token) 0"
  "gains (redeem_handoff hash rctx now tok held sec saved) 0"
  "gains (service_revoke dev saved) 0"
proof -
  let ?codes = "\<lambda>s. if recovery_generated s = None
        then (case replace_recovery_codes hash codes now s of
                (Inl e, s1) \<Rightarrow> (Inl e, s1) | (Inr cs, s1) \<Rightarrow> (Inr (Some cs), s1))
        else (Inr None, s)"
  let ?n = "case codes of Some cs \<Rightarrow> length cs | None \<Rightarrow> 0"
  have snd_codes: "snd (?codes s) = (if recovery_generated s = None
      then snd (replace_recovery_codes hash codes now s) else s)" for s
    by (simp split: prod.split sum.split)
  have ck: "keeping pairing_inv ?codes"
    using keeping_inv(8) [of hash codes now] snd_codes by (simp add: keeping_def)
  have cg: "gains ?codes ?n"
    using replace_codes_gains [of hash codes now] snd_codes by (simp add: gains_def)
  have ok: "keeping pairing_inv (\<lambda>s. (case ui_origin (pidentity s) of Some u \<Rightarrow> Inr u
      | None \<Rightarrow> Inl NotReady, s))" "gains (\<lambda>s. (case ui_origin (pidentity s) of Some u \<Rightarrow> Inr u
      | None \<Rightarrow> Inl NotReady, s)) 0" by (simp_all add: keeping_def gains_def)
  have tail: "gains (andthen (\<lambda>s. (Inr (), add_pair_token (hash tok) now s)) (\<lambda>_.
      andthen (save saved) (\<lambda>_. give x))) 1" for tok and x :: minted_pair_token
    using gains_andthen [OF keeping_inv(5) add_pair_token_gains, of "\<lambda>_. andthen (save saved) (\<lambda>_. give x)" 0]
    by (simp add: gains_zero gains_simple keeping_inv)
  have mid: "gains (andthen ?codes (\<lambda>cs. andthen (\<lambda>s. (Inr (), add_pair_token (hash tok) now s)) (\<lambda>_.
      andthen (save saved) (\<lambda>_. give (g cs))))) (?n + 1)" for tok and g :: "_ \<Rightarrow> minted_pair_token"
    by (rule gains_andthen [OF ck cg tail])
  show "gains (mint_pair_token hash now token codes saved) (1 + ?n)"
    unfolding mint_pair_token_def
    by (intro gains_zero [OF keeping_simple(2) gains_simple(2)] gains_zero [OF ok])
      (use mid in \<open>simp add: add.commute\<close>)
  show "gains (regenerate_recovery_codes hash now codes saved) ?n"
    unfolding regenerate_recovery_codes_def
    using gains_andthen [OF keeping_inv(8) replace_codes_gains,
        of "\<lambda>cs. andthen (save saved) (\<lambda>_. give cs)" 0 hash codes now]
    by (simp add: gains_zero gains_simple keeping_inv)
  have pay: "gains (andthen (add_device hash name sec ident now) (\<lambda>iss. andthen (save saved) (\<lambda>_. give iss))) 1"
    using gains_andthen [OF keeping_inv(9) add_device_gains,
        of "\<lambda>iss. andthen (save saved) (\<lambda>_. give iss)" 0]
    by (simp add: gains_zero gains_simple keeping_inv)
  show "gains (redeem_token hash rctx now tok name sec ident saved) 0"
    unfolding redeem_token_def
    by (intro gains_zero [OF keeping_inv(1) gains_simple(4)] pays_andthen [OF keeping_inv(3)]
        take_pair_token_pays pay)
  show "gains (redeem_recovery hash rctx now typed name sec ident saved) 0"
    unfolding redeem_recovery_def
    by (intro gains_zero [OF keeping_inv(1) gains_simple(4)] pays_andthen [OF keeping_inv(7)]
        take_recovery_pays pay)
  show "gains (create_request hash rctx now name rid pub cd) 0"
    unfolding create_request_def
    by (intro gains_zero keeping_inv keeping_simple gains_simple add_request_inv add_request_gains)
      (auto simp: gains_simple split: prod.split)
  show "gains (service_poll hash now rid' sec ident saved) 0"
    unfolding service_poll_def
    by (intro gains_zero keeping_inv poll_gains)
      (auto intro!: gains_zero keeping_inv gains_simple split: poll_outcome.split)
  show "gains (service_revoke dev saved) 0"
    unfolding service_revoke_def
    by (intro gains_zero gains_simple)
      (simp_all add: keeping_def gains_def split_def Let_def revoke_inv revoke_authority)
qed (unfold mint_handoff_def redeem_handoff_def,
    (intro gains_zero keeping_inv keeping_simple gains_simple)+)


lemma service_authenticate_authority:
  "authority (snd (service_authenticate hash surf header now s)) = authority s"
proof -
  have a: "authority (snd (authenticate hash surf sec now s)) = authority s" for sec
    by (simp add: authenticate_def Let_def split: option.split)
  have b: "authority s1 = authority s" if "authenticate hash surf sec now s = (r, s1)" for sec r s1
    using a [of sec] that by simp
  show ?thesis
    by (auto simp: service_authenticate_def mark_saved_def b split: option.split prod.split)
qed

lemma apply_identity_authority: "authority (snd (apply_identity norm a saved s)) = authority s"
  by (simp add: apply_identity_def Let_def save_def mark_saved_def)

lemmas flows_gain_le = flows_gain [unfolded gains_def, rule_format]

lemma pairing_step_authority:
  assumes "pairing_inv (pst v)"
  shows "authority (pst (fst (pairing_step hash norm v op))) \<le> authority (pst v) + authorises op"
proof (cases op)
  case (DecideRequest now pub approve)
  then show ?thesis using decide_gains assms by (simp add: on_state_def gains_def)
next
  case (ListPending now)
  then show ?thesis by (simp add: pending_views_def purge_authority Let_def)
qed (use flows_gain_le [OF assms] in \<open>simp_all add: on_state_def split_def Let_def
      service_authenticate_authority update_identity_def set_local_identity_def
      apply_identity_authority del: One_nat_def\<close>)

interpretation pairing_authority: budget_machine "pairing_step hash norm" "\<lambda>v. pairing_inv (pst v)"
    "\<lambda>_. 0" "\<lambda>v. authority (pst v)" authorises for hash norm
  by unfold_locales (simp add: pairing_step_authority)

section \<open>Who is in the list of devices\<close>

definition ids :: "pstate \<Rightarrow> ustring list" where
  "ids s = map dev_id (devices s)"

text \<open>The id a flow may give a new device.\<close>

fun new_id :: "pairing_op \<Rightarrow> ustring option" where
  "new_id (RedeemToken rctx now token name sec ident saved) = ident"
| "new_id (RedeemRecovery rctx now typed name sec ident saved) = ident"
| "new_id (PollRequest now rid sec ident saved) = ident"
| "new_id _ = None"

definition adds :: "'a flow \<Rightarrow> ustring option \<Rightarrow> bool" where
  "adds f i \<longleftrightarrow> (\<forall>s. ids (snd (f s)) = ids s \<or> (\<exists>x. i = Some x \<and> ids (snd (f s)) = ids s @ [x]))"

lemma adds_first:
  assumes "adds m None" "\<And>a. adds (f a) i"
  shows "adds (andthen m f) i"
  unfolding adds_def
proof
  fix s
  have m: "ids (snd (m s)) = ids s" using assms(1) by (simp add: adds_def)
  show "ids (snd (andthen m f s)) = ids s \<or> (\<exists>x. i = Some x \<and> ids (snd (andthen m f s)) = ids s @ [x])"
  proof (cases "m s")
    case (Pair r s1)
    have "ids (snd (f b s1)) = ids s1 \<or> (\<exists>x. i = Some x \<and> ids (snd (f b s1)) = ids s1 @ [x])" for b
      using assms(2) by (simp add: adds_def)
    then show ?thesis using Pair m by (cases r) (simp_all add: andthen_def)
  qed
qed

lemma adds_second:
  assumes "adds m i" "\<And>a. adds (f a) None"
  shows "adds (andthen m f) i"
  unfolding adds_def
proof
  fix s
  have f: "ids (snd (f a t)) = ids t" for a t using assms(2) by (simp add: adds_def)
  have m: "ids (snd (m s)) = ids s \<or> (\<exists>x. i = Some x \<and> ids (snd (m s)) = ids s @ [x])"
    using assms(1) by (simp add: adds_def)
  show "ids (snd (andthen m f s)) = ids s \<or> (\<exists>x. i = Some x \<and> ids (snd (andthen m f s)) = ids s @ [x])"
  proof (cases "m s")
    case (Pair r s1)
    then show ?thesis using m f by (cases r) (simp_all add: andthen_def)
  qed
qed

lemma ids_fields [simp]:
  "ids (s\<lparr>pidentity := x\<rparr>) = ids s" "ids (s\<lparr>plimiter := l\<rparr>) = ids s" "ids (s\<lparr>dirty_since := d\<rparr>) = ids s"
  "ids (s\<lparr>handoffs := hs\<rparr>) = ids s" "ids (s\<lparr>pair_tokens := pt\<rparr>) = ids s"
  "ids (s\<lparr>requests := rs\<rparr>) = ids s" "ids (s\<lparr>recovery_hashes := rh\<rparr>) = ids s"
  "ids (s\<lparr>recovery_hashes := rh, recovery_generated := g\<rparr>) = ids s"
  "ids (purge_requests now s) = ids s"
  by (simp_all add: ids_def purge_requests_def)

lemma adds_simple:
  "adds (give a) None" "adds (from_rng r) None" "adds (save saved) None" "adds (limit rctx now) None"
  "adds (take_pair_token h now) None" "adds (take_handoff h now) None"
  "adds (take_recovery_code hash typed) None" "adds (replace_recovery_codes hash codes now) None"
  "adds (\<lambda>s. (Inr (), add_pair_token h now s)) None" "adds (\<lambda>s. (Inr (), add_handoff h dev now s)) None"
  "adds (\<lambda>s. (case ui_origin (pidentity s) of Some u \<Rightarrow> Inr u | None \<Rightarrow> Inl NotReady, s)) None"
  "adds (decide_request pub approve now) None" "adds (add_request h name pub' cd now) None"
  "adds (add_device hash name sec ident now) ident"
  by (auto simp: adds_def give_def from_rng_def save_def mark_saved_def limit_def check_limit_def
      take_pair_token_def take_handoff_def take_recovery_code_def replace_recovery_codes_def
      add_pair_token_def add_handoff_def decide_request_def add_request_def add_device_def
      Let_def split_def ids_def purge_requests_def split: option.split)

lemma adds_workbench: "adds (add_workbench_credential hash dev held sec now) None"
  by (auto simp: adds_def add_workbench_credential_def Let_def ids_def map_update
      list_update_same_conv [THEN iffD2] dest!: position_Some split: option.split)

lemma adds_poll: "adds (poll_request hash h sec ident now) ident"
  by (auto simp: adds_def poll_request_def Let_def add_device_def split: option.split decision.split)
    (auto simp: ids_def purge_requests_def)

lemma adds_codes:
  "adds (\<lambda>s. if recovery_generated s = None
        then (case replace_recovery_codes hash codes now s of
                (Inl e, s1) \<Rightarrow> (Inl e, s1) | (Inr cs, s1) \<Rightarrow> (Inr (Some cs), s1))
        else (Inr None, s)) None"
  by (auto simp: adds_def replace_recovery_codes_def split: option.split)

lemma flows_add:
  "adds (mint_pair_token hash now token codes saved) None"
  "adds (regenerate_recovery_codes hash now codes saved) None"
  "adds (redeem_token hash rctx now tok name sec ident saved) ident"
  "adds (redeem_recovery hash rctx now typed name sec ident saved) ident"
  "adds (create_request hash rctx now name rid pub cd) None"
  "adds (service_poll hash now rid' sec ident saved) ident"
  "adds (mint_handoff hash now dev token) None"
  "adds (redeem_handoff hash rctx now tok held sec saved) None"
proof -
  show "adds (mint_pair_token hash now token codes saved) None"
    unfolding mint_pair_token_def by (intro adds_first adds_simple adds_codes)
  have tail: "adds (andthen (save saved) (\<lambda>_. give x)) None" for x :: 'x
    by (intro adds_first adds_simple)
  show "adds (redeem_token hash rctx now tok name sec ident saved) ident"
    unfolding redeem_token_def by (intro adds_first adds_simple adds_second [OF adds_simple(14) tail])
  show "adds (redeem_recovery hash rctx now typed name sec ident saved) ident"
    unfolding redeem_recovery_def by (intro adds_first adds_simple adds_second [OF adds_simple(14) tail])
  show "adds (service_poll hash now rid' sec ident saved) ident"
    unfolding service_poll_def
    by (rule adds_second [OF adds_poll]) (auto intro: tail adds_simple split: poll_outcome.split)
  show "adds (create_request hash rctx now name rid pub cd) None"
    unfolding create_request_def
    by (intro adds_first adds_simple) (auto intro: adds_simple split: prod.split)
qed (unfold regenerate_recovery_codes_def mint_handoff_def redeem_handoff_def,
    (intro adds_first adds_simple adds_workbench)+)

lemma service_authenticate_ids: "ids (snd (service_authenticate hash surf header now s)) = ids s"
proof -
  have a: "ids (snd (authenticate hash surf sec now s)) = ids s" for sec
    by (auto simp: authenticate_def Let_def ids_def map_update list_update_same_conv [THEN iffD2]
        dest!: position_Some split: option.split)
  have b: "ids s1 = ids s" if "authenticate hash surf sec now s = (r, s1)" for sec r s1
    using a [of sec] that by simp
  show ?thesis
    by (auto simp: service_authenticate_def mark_saved_def b split: option.split prod.split)
qed

lemma revoke_ids: "ids (snd (service_revoke dev saved s)) = filter (\<lambda>i. i \<noteq> dev) (ids s)"
proof -
  have "ids (snd (revoke dev s)) = filter (\<lambda>i. i \<noteq> dev) (ids s)"
    by (simp add: revoke_def Let_def ids_def filter_map comp_def)
  then show ?thesis
    by (simp add: service_revoke_def andthen_def save_def mark_saved_def split_def Let_def)
qed

lemma pairing_step_ids:
  "ids (pst (fst (pairing_step hash norm v op))) = ids (pst v) \<or>
   (\<exists>i. new_id op = Some i \<and> ids (pst (fst (pairing_step hash norm v op))) = ids (pst v) @ [i]) \<or>
   (\<exists>dev saved. op = Revoke dev saved \<and>
      ids (pst (fst (pairing_step hash norm v op))) = filter (\<lambda>i. i \<noteq> dev) (ids (pst v)))"
proof (cases op)
  case (Revoke dev saved)
  then show ?thesis by (simp add: on_state_def revoke_ids)
next
  case (DecideRequest now pub approve)
  then show ?thesis using adds_simple(12) by (simp add: on_state_def adds_def)
next
  case (UpdateIdentity i saved)
  then show ?thesis
    by (simp add: update_identity_def apply_identity_def Let_def save_def mark_saved_def)
next
  case (SetLocalIdentity i saved)
  then show ?thesis
    by (simp add: set_local_identity_def apply_identity_def Let_def save_def mark_saved_def)
qed (use flows_add [unfolded adds_def, rule_format] in
    \<open>simp_all add: on_state_def pending_views_def split_def Let_def service_authenticate_ids\<close>)


section \<open>Properties\<close>

abbreviation pairing_run where
  "pairing_run hash norm \<equiv> run_machine (pairing_step hash norm)"

definition new_service :: "identity \<Rightarrow> stored_device list \<Rightarrow> datetime option \<Rightarrow> ustring list \<Rightarrow> service" where
  "new_service ident ds gen hashes =
     \<lparr>pst = \<lparr>pidentity = ident, devices = ds, recovery_generated = gen, recovery_hashes = hashes,
             pair_tokens = [], handoffs = [], requests = [], plimiter = new_limiter,
             dirty_since = None\<rparr>,
      identity_is_local = False\<rparr>"

definition empty_service :: service where
  "empty_service = new_service \<lparr>slug = None, ui_origin = None, workbench_origin = None\<rparr> [] None []"

lemma empty_service_inv: "pairing_inv (pst empty_service)"
  by (simp add: empty_service_def new_service_def pairing_inv_def)

text \<open>From a fresh install, whatever requests arrive in whatever order, the pairing state stays
  bounded: at most 50 outstanding pairing tokens, 50 handoffs, 10 waiting requests, and 8 workbench
  credentials for each device.\<close>

theorem pairing_state_bounded:
  fixes hash norm ops
  defines "s \<equiv> pst (fst (pairing_run hash norm empty_service ops))"
  shows "length (pair_tokens s) \<le> 50 \<and> length (handoffs s) \<le> 50 \<and> length (requests s) \<le> 10 \<and>
    list_all (\<lambda>d. length (workbench_hashes d) \<le> 8) (devices s)"
proof -
  have "pairing_inv s" unfolding s_def by (rule pairing.run_inv [OF empty_service_inv])
  then show ?thesis
    by (simp add: pairing_inv_def MAX_OUTSTANDING_TOKENS_def MAX_PENDING_REQUESTS_def
        MAX_WORKBENCH_CREDENTIALS_def)
qed



lemma hit_in_ids:
  assumes "service_authenticate hash surf header now s = (Some (hit, sec), s1)"
  shows "hit_id hit \<in> set (ids s)"
proof -
  obtain s2 where "authenticate hash surf sec now s = (Some hit, s2)"
    using assms by (auto simp: service_authenticate_def split: option.splits prod.splits)
  then obtain i where i: "position (holds_credential hash surf (hash sec)) (devices s) = Some i"
      "hit_id hit = dev_id (devices s ! i)"
    by (auto simp: authenticate_def Let_def split: option.splits if_splits)
  then show ?thesis using position_Some [OF i(1)] by (simp add: ids_def)
qed

lemma no_hit:
  assumes "dev \<notin> set (ids (pst v))" "HitBy hit \<in> set (snd (pairing_step hash norm v e))"
  shows "hit_id hit \<noteq> dev"
proof (cases e)
  case (Authenticate surf header now)
  obtain r s1 where r: "service_authenticate hash surf header now (pst v) = (r, s1)" by fastforce
  with assms(2) Authenticate obtain sec where "r = Some (hit, sec)"
    by (auto split: option.splits)
  with r assms(1) show ?thesis using hit_in_ids by auto
qed (use assms(2) in \<open>auto simp: on_state_def split_def Let_def\<close>)

text \<open>C27: A revoked device is locked out at once and for good: after the revocation, whether or not the
  file could be saved, no request authenticates as that device, on either host, however it goes on,
  until a new device is given its id.\<close>

theorem revoked_device_locked_out:
  assumes "list_all (\<lambda>op. new_id op \<noteq> Some dev) ops"
    and "HitBy hit \<in> set (concat (snd (pairing_run hash norm
           (fst (pairing_step hash norm v (Revoke dev saved))) ops)))"
  shows "hit_id hit \<noteq> dev"
proof -
  have "hit_id hit \<noteq> dev" if "dev \<notin> set (ids (pst w))" "list_all (\<lambda>op. new_id op \<noteq> Some dev) ops"
      "HitBy hit \<in> set (concat (snd (pairing_run hash norm w ops)))" for w
    using that
  proof (induction ops arbitrary: w)
    case Nil
    then show ?case by simp
  next
    case (Cons e es)
    have "dev \<notin> set (ids (pst (fst (pairing_step hash norm w e))))"
      using pairing_step_ids [of hash norm w e] Cons.prems(1,2) by auto
    with Cons.IH [of "fst (pairing_step hash norm w e)"] Cons.prems
      no_hit [OF Cons.prems(1), where hit = hit and e = e and hash = hash and norm = norm]
    show ?case by auto
  qed
  moreover have "dev \<notin> set (ids (pst (fst (pairing_step hash norm v (Revoke dev saved)))))"
    by (simp add: on_state_def revoke_ids)
  ultimately show ?thesis using assms by blast
qed

definition paired_service :: "service" where
  "paired_service = new_service \<lparr>slug = None, ui_origin = None, workbench_origin = None\<rparr>
     [\<lparr>dev_id = [1], dev_name = [2], created_at = 0, last_seen = 0, refreshed_at = Some 0,
       ui_hash = Some [9], workbench_hashes = []\<rparr>,
      \<lparr>dev_id = [3], dev_name = [4], created_at = 0, last_seen = 0, refreshed_at = Some 0,
       ui_hash = Some [7], workbench_hashes = []\<rparr>] None []"

lemma revoked_device_locked_out_witness:
  "hit_id \<lparr>hit_id = [3], hit_name = [4], refresh = False\<rparr> \<noteq> [1 :: nat]"
proof (rule revoked_device_locked_out [where hash = id and norm = Some and v = paired_service and saved = True])
  let ?ops = "[Authenticate UiHost (Some (cookie_name None @ equals_sign # [7])) 5]"
  show "list_all (\<lambda>op. new_id op \<noteq> Some [1]) ?ops" by simp
  show "HitBy \<lparr>hit_id = [3], hit_name = [4], refresh = False\<rparr> \<in> set (concat (snd (pairing_run id Some
      (fst (pairing_step id Some paired_service (Revoke [1] True))) ?ops)))"
    by (simp add: paired_service_def new_service_def on_state_def service_revoke_def andthen_def
        revoke_def save_def mark_saved_def service_authenticate_def find_cookie_def cookie_name_def
        NAME_PREFIX_def FALLBACK_SLUG_def lit_def equals_sign_def semicolon_def cookie_pair_def
        trim_def trim_start_def trim_end_def is_whitespace_def authenticate_def
        holds_credential_def hashes_equal_def dur_defs DEVICE_LIFETIME_DAYS_def
        COOKIE_REFRESH_AFTER_HOURS_def flush_due_def hm_retain_def)
qed


definition sample_request :: request where
  "sample_request = \<lparr>remote = Some \<lparr>peer_ip = None, remote_origin = None\<rparr>, from_artifacts = False,
     req_method = POST, path = STATE_PATH, upgrade = None, sec_fetch_site = Some (lit ''same-origin''),
     sec_fetch_mode = None, sec_fetch_dest = None, accept = None, origin = None,
     cookies = [cookie_name None @ equals_sign # [7]]\<rparr>"


definition usable_codes :: "(ustring \<Rightarrow> ustring) \<Rightarrow> ustring list \<Rightarrow> bool" where
  "usable_codes hash cs \<longleftrightarrow> distinct (map (\<lambda>c. hash (hash c)) cs) \<and>
     list_all (\<lambda>c. length c = RECOVERY_CODE_LEN \<and> set c \<subseteq> set base32_alphabet) cs"

lemma matched_code:
  assumes "distinct (map f xs)" "i < length xs"
  shows "last_match (\<lambda>x. f x = f (xs ! i)) xs = Some i"
proof (cases "last_match (\<lambda>x. f x = f (xs ! i)) xs")
  case None
  then show ?thesis using assms(2) by (auto simp: last_match_None)
next
  case (Some j)
  then have "j < length xs" "f (xs ! j) = f (xs ! i)" using last_match_Some by blast+
  then have "j = i" using assms by (metis distinct_map inj_onD nth_eq_iff_index_eq nth_mem)
  then show ?thesis using Some by simp
qed

lemma take_known_code:
  assumes "distinct (map hash hs)" "i < length hs" "hs ! i = hash (normalize_recovery_code typed)"
    "length (normalize_recovery_code typed) = RECOVERY_CODE_LEN" "recovery_hashes s = hs"
  shows "take_recovery_code hash typed s = (Inr (), s\<lparr>recovery_hashes := remove_at i hs\<rparr>)"
proof -
  have "last_match (\<lambda>h. hashes_equal hash h (hash (normalize_recovery_code typed))) hs = Some i"
    using matched_code [OF assms(1,2)] assms(3) by (simp add: hashes_equal_def)
  then show ?thesis using assms(4,5) by (simp add: take_recovery_code_def Let_def)
qed

lemma take_unknown_code:
  assumes "hash (hash (normalize_recovery_code typed)) \<notin> hash ` set (recovery_hashes s)"
  shows "take_recovery_code hash typed s = (Inl Rejected, s)"
proof -
  have "last_match (\<lambda>h. hashes_equal hash h (hash (normalize_recovery_code typed))) (recovery_hashes s) = None"
    using assms by (auto simp: last_match_None hashes_equal_def) (metis rev_image_eqI)
  then show ?thesis by (simp add: take_recovery_code_def Let_def)
qed

lemma remove_at_distinct:
  assumes "distinct (map f xs)" "i < length xs"
  shows "f (xs ! i) \<notin> f ` set (remove_at i xs)" "j < length xs \<Longrightarrow> j \<noteq> i \<Longrightarrow> xs ! j \<in> set (remove_at i xs)"
proof -
  have e: "xs = take i xs @ xs ! i # drop (Suc i) xs" using assms(2) by (rule id_take_nth_drop)
  have "distinct (map f (take i xs) @ f (xs ! i) # map f (drop (Suc i) xs))"
    using assms(1) e by (metis list.simps(9) map_append)
  then show "f (xs ! i) \<notin> f ` set (remove_at i xs)"
    by (auto simp: remove_at_def simp del: map_append)
  assume j: "j < length xs" "j \<noteq> i"
  have "set xs = insert (xs ! i) (set (remove_at i xs))"
    unfolding remove_at_def by (subst (1) e) (simp only: set_append list.set Un_insert_right)
  moreover have "xs ! j \<noteq> xs ! i"
    using assms j by (metis distinct_map nth_eq_iff_index_eq)
  ultimately show "xs ! j \<in> set (remove_at i xs)" using j(1) nth_mem by fastforce
qed

text \<open>A recovery code works in whatever form it was shown or is typed (grouped, spaced, in lower
  case), exactly once, and using it leaves every other code usable. The codes are ten strings of
  the alphabet with different hashes, as generated.\<close>

theorem recovery_code_works_once:
  fixes hash cs now s i
  defines "s1 \<equiv> snd (replace_recovery_codes hash (Some cs) now s)"
  defines "taken \<equiv> take_recovery_code hash"
  assumes "usable_codes hash cs" "i < length cs" "normalize_recovery_code typed = cs ! i"
    and "j < length cs" "j \<noteq> i"
  shows "normalize_recovery_code (group_recovery_code (cs ! i)) = cs ! i \<and>
    fst (taken typed s1) = Inr () \<and>
    fst (taken typed (snd (taken typed s1))) = Inl Rejected \<and>
    fst (taken (group_recovery_code (cs ! j)) (snd (taken typed s1))) = Inr ()"
proof -
  let ?hs = "map hash cs"
  have d: "distinct (map hash ?hs)" using assms(3) by (simp add: usable_codes_def comp_def)
  have code: "length (cs ! k) = RECOVERY_CODE_LEN" "set (cs ! k) \<subseteq> set base32_alphabet"
    if "k < length cs" for k
    using assms(3) that by (auto simp: usable_codes_def list_all_length)
  have norm: "normalize_recovery_code (group_recovery_code (cs ! k)) = cs ! k" if "k < length cs" for k
    using code(2) [OF that] by (simp add: normalize_grouped normalize_code)
  have s1: "recovery_hashes s1 = ?hs" by (simp add: s1_def replace_recovery_codes_def)
  let ?s2 = "s1\<lparr>recovery_hashes := remove_at i ?hs\<rparr>"
  have one: "taken typed s1 = (Inr (), ?s2)"
    unfolding taken_def
    by (rule take_known_code [OF d]) (use assms(4,5) code s1 in simp_all)
  have gone: "hash (?hs ! i) \<notin> hash ` set (remove_at i ?hs)"
    using remove_at_distinct(1) [OF d] assms(4) by simp
  then have two: "taken typed ?s2 = (Inl Rejected, ?s2)"
    unfolding taken_def using assms(4,5) by (intro take_unknown_code) simp
  have "?hs ! j \<in> set (remove_at i ?hs)"
    using remove_at_distinct(2) [OF d, of i j] assms(4,6,7) by simp
  then obtain k where k: "k < length (remove_at i ?hs)" "remove_at i ?hs ! k = hash (cs ! j)"
    using assms(6) by (auto simp: in_set_conv_nth)
  have "taken (group_recovery_code (cs ! j)) ?s2
      = (Inr (), ?s2\<lparr>recovery_hashes := remove_at k (remove_at i ?hs)\<rparr>)"
    unfolding taken_def
    by (rule take_known_code [OF distinct_remove_at [OF d] k(1)])
      (use k(2) norm [OF assms(6)] code(1) [OF assms(6)] in simp_all)
  then show ?thesis using one two norm [OF assms(4)] by simp
qed

lemma recovery_code_works_once_witness:
  "fst (take_recovery_code id (map (\<lambda>c. c + 32) (replicate 16 66))
     (snd (replace_recovery_codes id (Some [replicate 16 65, replicate 16 66]) 0 (pst empty_service))))
   = Inr ()"
proof -
  have u: "usable_codes id [replicate 16 65, replicate 16 66]"
    by (simp add: usable_codes_def RECOVERY_CODE_LEN_def alphabet_codes)
  have n: "normalize_recovery_code (map (\<lambda>c. c + 32) (replicate 16 66)) = [replicate 16 65, replicate 16 66] ! 1"
    by (simp add: normalize_recovery_code_def is_whitespace_def dash_def ascii_upper_char_def
        is_ascii_lower_def)
  from recovery_code_works_once [OF u _ n, of 0 0 "pst empty_service"] show ?thesis by simp
qed

text \<open>Polling a pairing request hands out a credential only for a request that was approved and has
  not expired, and it spends the request: the request is gone afterwards, so the same poll finds
  another request with that secret or reports it expired. Only approving changes a waiting request
  into an approved one.\<close>

theorem poll_issues_only_after_approval:
  assumes "fst (poll_request hash h sec ident now s) = Inr (ApprovedWith iss)"
  shows "\<exists>r\<in>set (requests s). decision r = Approved \<and> now < expires_at r \<and>
      hash (secret_hash r) = hash h \<and> device_name iss = clean_device_name (request_name r) \<and>
      (length (filter (\<lambda>r. hash (secret_hash r) = hash h) (requests s)) = 1 \<longrightarrow>
         fst (poll_request hash h sec' ident' now (snd (poll_request hash h sec ident now s))) = Inr Expired)"
proof -
  let ?s = "purge_requests now s" and ?m = "\<lambda>r. hashes_equal hash (secret_hash r) h"
  obtain i where i: "position ?m (requests ?s) = Some i"
    using assms by (auto simp: poll_request_def Let_def split: option.splits)
  let ?r = "requests ?s ! i"
  have r: "i < length (requests ?s)" "hash (secret_hash ?r) = hash h"
    using position_Some [OF i] by (auto simp: hashes_equal_def)
  have dec: "decision ?r = Approved"
    using assms i by (auto simp: poll_request_def Let_def split: decision.splits)
  have mem: "?r \<in> set (requests s)" "now < expires_at ?r"
    using nth_mem [OF r(1)] by (auto simp: purge_requests_def)
  obtain sc idn where rnd: "sec = Some sc" "ident = Some idn"
    using assms i dec by (auto simp: poll_request_def Let_def add_device_def split: option.splits)
  have out: "device_name iss = clean_device_name (request_name ?r)"
    using assms i dec rnd by (auto simp: poll_request_def Let_def add_device_def)
  have after: "requests (snd (poll_request hash h sec ident now s)) = remove_at i (requests ?s)"
    using i dec rnd by (simp add: poll_request_def Let_def add_device_def)
  have "fst (poll_request hash h sec' ident' now (snd (poll_request hash h sec ident now s))) = Inr Expired"
    if one: "length (filter (\<lambda>r. hash (secret_hash r) = hash h) (requests s)) = 1"
  proof -
    have "length (filter ?m (requests ?s)) \<le> length (filter ?m (requests s))"
      unfolding purge_requests_def by (auto intro: length_filter_mono)
    then have "length (filter ?m (remove_at i (requests ?s))) = 0"
      using mset_remove_at_filter [OF r(1), of ?m] position_Some [OF i] one
      by (simp add: hashes_equal_def)
    then have "position ?m (remove_at i (requests ?s)) = None"
      by (simp add: position_None filter_empty_conv)
    then have "position ?m (filter (\<lambda>r. now < expires_at r) (remove_at i (requests ?s))) = None"
      by (auto simp: position_None)
    then show ?thesis by (simp add: poll_request_def [of _ _ sec'] Let_def purge_requests_def [of _ "snd _"] after)
  qed
  with mem dec r(2) out show ?thesis by blast
qed

lemma poll_issues_only_after_approval_witness:
  "\<exists>r\<in>set (requests (pst (fst (pairing_run id Some empty_service
     [CreateRequest None 0 [80] (Some [1]) (Some [2]) (Some [3]), DecideRequest 1 [2] True])))).
     decision r = Approved \<and> secret_hash r = [1]"
proof -
  let ?s = "pst (fst (pairing_run id Some empty_service
     [CreateRequest None 0 [80] (Some [1]) (Some [2]) (Some [3]), DecideRequest 1 [2] True]))"
  have s: "requests ?s = [\<lparr>public_id = [2], secret_hash = [1], code = [3], request_name = [80],
      requested_at = 0, expires_at = dur_secs 600, decision = Approved\<rparr>]"
    by (simp add: empty_service_def new_service_def on_state_def create_request_def andthen_def
        limit_def from_rng_def give_def add_request_def purge_requests_def MAX_PENDING_REQUESTS_def
        clean_device_name_def MAX_DEVICE_NAME_CHARS_def trim_def trim_start_def trim_end_def
        is_whitespace_def is_control_def REQUEST_TTL_SECS_def decide_request_def dur_defs)
  have issues: "\<exists>iss. fst (poll_request id [1] (Some [5]) (Some [6]) 2 st) = Inr (ApprovedWith iss)"
    if "requests st = [\<lparr>public_id = [2], secret_hash = [1], code = [3], request_name = [80],
      requested_at = 0, expires_at = dur_secs 600, decision = Approved\<rparr>]" for st
    using that by (simp add: poll_request_def purge_requests_def dur_defs hashes_equal_def
        add_device_def Let_def)
  then obtain iss where "fst (poll_request id [1] (Some [5]) (Some [6]) 2 ?s) = Inr (ApprovedWith iss)"
    using s by blast
  from poll_issues_only_after_approval [OF this] show ?thesis by auto
qed

end
