(* ===== verification/Rust_Numbers.thy ===== *)
theory Rust_Numbers
  imports Rust_Text
begin

text \<open>
  Numbers as text: \<open>Display\<close> of an unsigned integer, and \<open>str::parse\<close> for \<open>i64\<close>, \<open>u32\<close> and \<open>u64\<close>
  (an optional sign, at least one digit, only digits, and a value that fits the type).
\<close>

fun show_nat :: "nat \<Rightarrow> ustring" where
  "show_nat n = (if n < 10 then [48 + n] else show_nat (n div 10) @ [48 + n mod 10])"

declare show_nat.simps [simp del]

definition digits_value :: "ustring \<Rightarrow> nat" where
  "digits_value ds = foldl (\<lambda>acc d. acc * 10 + (d - 48)) 0 ds"

definition all_digits :: "ustring \<Rightarrow> bool" where
  "all_digits ds \<longleftrightarrow> ds \<noteq> [] \<and> list_all is_ascii_digit ds"

definition parse_unsigned :: "nat \<Rightarrow> ustring \<Rightarrow> nat option" where
  "parse_unsigned mx s =
     (let ds = (case s of c # rest \<Rightarrow> if c = 43 then rest else s | [] \<Rightarrow> s)
      in if all_digits ds \<and> digits_value ds \<le> mx then Some (digits_value ds) else None)"

definition parse_u32 :: "ustring \<Rightarrow> nat option" where
  "parse_u32 = parse_unsigned (2 ^ 32 - 1)"

definition parse_u64 :: "ustring \<Rightarrow> nat option" where
  "parse_u64 = parse_unsigned (2 ^ 64 - 1)"

definition parse_i64 :: "ustring \<Rightarrow> int option" where
  "parse_i64 s =
     (case s of
        c # rest \<Rightarrow>
          if c = 45 then
            (if all_digits rest \<and> digits_value rest \<le> 2 ^ 63 then Some (- int (digits_value rest)) else None)
          else map_option int (parse_unsigned (2 ^ 63 - 1) s)
      | [] \<Rightarrow> None)"

lemma digits_value_snoc: "digits_value (ds @ [d]) = digits_value ds * 10 + (d - 48)"
  by (simp add: digits_value_def)

lemma show_nat_digits: "all_digits (show_nat n)"
proof (induction n rule: show_nat.induct)
  case (1 n)
  show ?case
  proof (cases "n < 10")
    case True
    then show ?thesis by (subst show_nat.simps) (simp add: all_digits_def is_ascii_digit_def)
  next
    case False
    with 1 have "all_digits (show_nat (n div 10))" by simp
    moreover have "n mod 10 < 10" by simp
    ultimately show ?thesis using False
      by (subst show_nat.simps) (simp add: all_digits_def is_ascii_digit_def)
  qed
qed

lemma show_nat_value: "digits_value (show_nat n) = n"
proof (induction n rule: show_nat.induct)
  case (1 n)
  show ?case
  proof (cases "n < 10")
    case True
    then show ?thesis by (subst show_nat.simps) (simp add: digits_value_def)
  next
    case False
    with 1 have "digits_value (show_nat (n div 10)) = n div 10" by simp
    with False show ?thesis by (subst show_nat.simps) (simp add: digits_value_snoc)
  qed
qed

lemma digits_head: "all_digits (c # rest) \<Longrightarrow> c \<noteq> 43 \<and> c \<noteq> 45"
  by (auto simp: all_digits_def is_ascii_digit_def)

lemma show_nat_Cons: "\<exists>c rest. show_nat n = c # rest \<and> c \<noteq> 43 \<and> c \<noteq> 45"
  using show_nat_digits [of n] digits_head by (cases "show_nat n") (auto simp: all_digits_def)

lemma parse_unsigned_show: "n \<le> mx \<Longrightarrow> parse_unsigned mx (show_nat n) = Some n"
proof -
  assume le: "n \<le> mx"
  obtain c rest where s: "show_nat n = c # rest" "c \<noteq> 43" "c \<noteq> 45" using show_nat_Cons by blast
  show ?thesis using le show_nat_digits [of n] show_nat_value [of n] s
    by (simp add: parse_unsigned_def Let_def)
qed

lemma parse_i64_show: "n < 2 ^ 63 \<Longrightarrow> parse_i64 (show_nat n) = Some (int n)"
proof -
  assume le: "n < 2 ^ 63"
  obtain c rest where s: "show_nat n = c # rest" "c \<noteq> 43" "c \<noteq> 45" using show_nat_Cons by blast
  show ?thesis using le parse_unsigned_show [of n "2 ^ 63 - 1"] s by (simp add: parse_i64_def)
qed

lemma parse_unsigned_bound: "parse_unsigned mx s = Some n \<Longrightarrow> n \<le> mx"
  by (auto simp: parse_unsigned_def Let_def split: if_splits)

lemma parse_i64_bound: "parse_i64 s = Some v \<Longrightarrow> - (2 ^ 63) \<le> v \<and> v < 2 ^ 63"
proof -
  assume p: "parse_i64 s = Some v"
  show ?thesis
  proof (cases "\<exists>rest. s = 45 # rest")
    case True
    then obtain rest where s: "s = 45 # rest" by blast
    with p have "v = - int (digits_value rest)" "digits_value rest \<le> 2 ^ 63"
      by (auto simp: parse_i64_def split: if_splits)
    then show ?thesis by simp
  next
    case False
    with p obtain n where n: "parse_unsigned (2 ^ 63 - 1) s = Some n" "v = int n"
      by (auto simp: parse_i64_def split: list.splits if_splits)
    from parse_unsigned_bound [OF n(1)] n(2) show ?thesis by simp
  qed
qed

end
