(* ===== verification/Pulse_Types.thy ===== *)
theory Pulse_Types
  imports Rust_Numbers
begin

text \<open>
  Pulse definitions (\<open>crates/proactivity/src/pulse/types.rs\<close>) and the model selector they use
  (\<open>crates/config/src/types.rs\<close>): the parsers for schedules and active hours, the checks a pulse
  must pass to be loaded, and the loading of \<open>HEARTBEAT.yml\<close>, which degrades instead of stopping
  every pulse.

  Reading the file and the YAML parser are outside the sources: what they give is the datatype
  \<open>heartbeat_file\<close>. An entry of the list is the pulse it deserialises to, or the problem
  \<open>deserialize_pulse_entry\<close> reports. Times are local times in nanoseconds since an epoch at
  midnight, without leap seconds. chrono's \<open>Duration\<close> constructors panic outside its range;
  the range is the argument \<open>fits\<close>, and a panic is a result of its own.
\<close>

definition quoted :: "ustring \<Rightarrow> ustring" where
  "quoted s = [39] @ s @ [39]"

definition em_dash :: ustring where "em_dash = [32, 8212, 32]"
definition newline :: ustring where "newline = [10]"

section \<open>Model selectors\<close>

datatype model_tier = Small | Medium | Large

datatype model_selector = Tier model_tier | Explicit ustring

fun show_tier :: "model_tier \<Rightarrow> ustring" where
  "show_tier Small = lit ''small''"
| "show_tier Medium = lit ''medium''"
| "show_tier Large = lit ''large''"

definition parse_tier :: "ustring \<Rightarrow> (ustring + model_tier)" where
  "parse_tier s =
     (if s = lit ''small'' then Inr Small
      else if s = lit ''medium'' then Inr Medium
      else if s = lit ''large'' then Inr Large
      else Inl (lit ''invalid model tier '' @ quoted s @ lit '': must be small, medium, or large''))"

fun show_selector :: "model_selector \<Rightarrow> ustring" where
  "show_selector (Tier t) = show_tier t"
| "show_selector (Explicit i) = i"

definition looks_like_model_id :: "ustring \<Rightarrow> bool" where
  "looks_like_model_id s =
     (case split_once 47 s of
        Some (prov, model) \<Rightarrow> prov \<noteq> [] \<and> model \<noteq> [] \<and> \<not> list_ex is_whitespace s
      | None \<Rightarrow> False)"

definition parse_selector :: "ustring \<Rightarrow> (ustring + model_selector)" where
  "parse_selector s =
     (case parse_tier s of
        Inr t \<Rightarrow> Inr (Tier t)
      | Inl _ \<Rightarrow>
          if looks_like_model_id s then Inr (Explicit s)
          else Inl (lit ''invalid model '' @ quoted s @
            lit '': use a tier (small, medium, or large) or a model id in provider/model form, such as anthropic/claude-haiku-4-5''))"

text \<open>\<open>ModelCatalog::check\<close>; resolving an explicit id against the providers is an argument.\<close>

definition catalog_check :: "(ustring \<Rightarrow> ustring + unit) \<Rightarrow> model_selector \<Rightarrow> (ustring + unit)" where
  "catalog_check resolve sel =
     (case sel of
        Tier _ \<Rightarrow> Inr ()
      | Explicit i \<Rightarrow>
          (case resolve i of
             Inr _ \<Rightarrow> Inr ()
           | Inl e \<Rightarrow> Inl (lit ''model '' @ quoted i @ lit '' can't be used: '' @ e)))"

section \<open>Pulses\<close>

record pulse_task =
  task_name :: ustring
  prompt :: ustring
  script :: "ustring option"
  script_only :: bool
  script_timeout_secs :: "u64 option"
  script_max_output_kb :: "u64 option"

record pulse_def =
  pulse_name :: ustring
  enabled :: bool
  schedule :: ustring
  active_hours :: "ustring option"
  pulse_agent :: "ustring option"
  model_sel :: "model_selector option"
  context_from :: "ustring option"
  include_identity :: "bool option"
  tasks :: "pulse_task list"

datatype problem_kind = RemovedOption | Malformed | IgnoredSetting

record problem =
  problem_name :: ustring
  message :: ustring
  problem_kind :: problem_kind

definition DEFAULT_SCRIPT_TIMEOUT_SECS :: u64 where "DEFAULT_SCRIPT_TIMEOUT_SECS = 60"
definition DEFAULT_SCRIPT_MAX_OUTPUT_KB :: u64 where "DEFAULT_SCRIPT_MAX_OUTPUT_KB = 64"

definition script_timeout :: "pulse_task \<Rightarrow> u64" where
  "script_timeout t =
     (case script_timeout_secs t of Some n \<Rightarrow> n | None \<Rightarrow> DEFAULT_SCRIPT_TIMEOUT_SECS)"

text \<open>\<open>saturating_mul\<close>, then \<open>usize::try_from\<close>, which keeps every \<open>u64\<close>.\<close>

definition script_max_output_bytes :: "pulse_task \<Rightarrow> nat" where
  "script_max_output_bytes t =
     (let kb = (case script_max_output_kb t of Some n \<Rightarrow> n | None \<Rightarrow> DEFAULT_SCRIPT_MAX_OUTPUT_KB)
      in min (unat kb * 1024) (2 ^ 64 - 1))"

definition has_scripts :: "pulse_def \<Rightarrow> bool" where
  "has_scripts p = list_ex (\<lambda>t. script t \<noteq> None) (tasks p)"

definition is_script_only :: "pulse_def \<Rightarrow> bool" where
  "is_script_only p \<longleftrightarrow> tasks p \<noteq> [] \<and> list_all script_only (tasks p)"

section \<open>Checks at load\<close>

definition validate_pulse :: "pulse_def \<Rightarrow> (ustring + unit)" where
  "validate_pulse p =
     (if pulse_agent p = Some (lit ''main'') then
        Inl (lit ''pulse '' @ quoted (pulse_name p) @ lit '' uses agent: '' @ [34] @ lit ''main'' @ [34] @
          lit '', which is no longer supported'' @ em_dash @
          lit ''every session fork already carries the main agent's identity and memory snapshot, so remove the `agent: main` line (or set it to a skill name to give the session a role)'')
      else if include_identity p \<noteq> None then
        Inl (lit ''pulse '' @ quoted (pulse_name p) @ lit '' sets include_identity, which has been removed'' @
          em_dash @
          lit ''every session fork already carries SOUL.md and AGENTS.md, so remove the `include_identity` line'')
      else Inr ())"

definition blank :: "ustring \<Rightarrow> bool" where
  "blank s \<longleftrightarrow> trim s = []"

definition task_label :: "pulse_def \<Rightarrow> pulse_task \<Rightarrow> ustring" where
  "task_label p t = lit ''pulse '' @ quoted (pulse_name p) @ lit '' task '' @ quoted (task_name t)"

definition validate_task :: "pulse_def \<Rightarrow> pulse_task \<Rightarrow> (ustring + unit)" where
  "validate_task p t =
     (let label = task_label p t in
      case (case script t of
              Some s \<Rightarrow>
                if blank s then
                  Some (label @ lit '' has an empty `script`'' @ em_dash @ lit ''give it a command to run or remove the line'')
                else None
            | None \<Rightarrow>
                if script_only t then
                  Some (label @ lit '' sets `script_only` but has no `script`'' @ em_dash @
                    lit ''add the command to run, or remove `script_only` to have the session do this task'')
                else if blank (prompt t) then
                  Some (label @ lit '' has no `prompt`'' @ em_dash @ lit ''say what the session should do for it'')
                else None) of
        Some m \<Rightarrow> Inl m
      | None \<Rightarrow>
          if script_timeout_secs t = Some 0 then
            Inl (label @ lit '' sets `script_timeout_secs: 0`'' @ em_dash @
              lit ''use a number of seconds above zero, or remove it for the default of '' @
              show_nat (unat DEFAULT_SCRIPT_TIMEOUT_SECS))
          else if script_max_output_kb t = Some 0 then
            Inl (label @ lit '' sets `script_max_output_kb: 0`'' @ em_dash @
              lit ''use a size above zero, or remove it for the default of '' @
              show_nat (unat DEFAULT_SCRIPT_MAX_OUTPUT_KB))
          else Inr ())"

fun validate_each :: "pulse_def \<Rightarrow> pulse_task list \<Rightarrow> (ustring + unit)" where
  "validate_each p [] = Inr ()"
| "validate_each p (t # ts) = bind_result (validate_task p t) (\<lambda>_. validate_each p ts)"

definition validate_pulse_tasks :: "pulse_def \<Rightarrow> (ustring + unit)" where
  "validate_pulse_tasks p =
     bind_result (validate_each p (tasks p)) (\<lambda>_.
       let n = length (filter script_only (tasks p)) in
       if 0 < n \<and> n < length (tasks p) then
         Inl (lit ''pulse '' @ quoted (pulse_name p) @
           lit '' mixes `script_only` tasks with tasks that run a session'' @ em_dash @
           lit ''a pulse either runs a session or delivers its scripts' output directly, so move the `script_only` tasks into a pulse of their own'')
       else Inr ())"

definition invalid_reason :: "pulse_def \<Rightarrow> (ustring \<times> problem_kind) option" where
  "invalid_reason p =
     (case validate_pulse p of
        Inl m \<Rightarrow> Some (m, RemovedOption)
      | Inr _ \<Rightarrow>
          (case validate_pulse_tasks p of Inl m \<Rightarrow> Some (m, Malformed) | Inr _ \<Rightarrow> None))"

fun reject_invalid_pulses :: "pulse_def list \<Rightarrow> pulse_def list \<times> problem list" where
  "reject_invalid_pulses [] = ([], [])"
| "reject_invalid_pulses (p # ps) =
     (let (kept, problems) = reject_invalid_pulses ps in
      case invalid_reason p of
        None \<Rightarrow> (p # kept, problems)
      | Some (m, k) \<Rightarrow>
          (kept, \<lparr>problem_name = pulse_name p, message = m, problem_kind = k\<rparr> # problems))"

definition duplicate_problem :: "pulse_def \<Rightarrow> problem" where
  "duplicate_problem p =
     \<lparr>problem_name = pulse_name p,
       message = lit ''pulse '' @ quoted (pulse_name p) @
         lit '' is defined more than once in HEARTBEAT.yml; only the first definition is used, the later one is ignored'',
       problem_kind = Malformed\<rparr>"

fun dedupe_from :: "ustring list \<Rightarrow> pulse_def list \<Rightarrow> pulse_def list \<times> problem list" where
  "dedupe_from seen [] = ([], [])"
| "dedupe_from seen (p # ps) =
     (if pulse_name p \<in> set seen then
        let (kept, problems) = dedupe_from seen ps in (kept, duplicate_problem p # problems)
      else
        let (kept, problems) = dedupe_from (pulse_name p # seen) ps in (p # kept, problems))"

definition dedupe_pulse_names :: "pulse_def list \<Rightarrow> pulse_def list \<times> problem list" where
  "dedupe_pulse_names ps = dedupe_from [] ps"

definition ignored_list :: "pulse_def \<Rightarrow> ustring list" where
  "ignored_list p =
     (if pulse_agent p \<noteq> None then [lit ''`agent`''] else []) @
     (if model_sel p \<noteq> None then [lit ''`model_tier`''] else []) @
     (if context_from p \<noteq> None then [lit ''`context_from`''] else []) @
     map (\<lambda>t. lit ''the `prompt` of task '' @ quoted (task_name t)) (filter (\<lambda>t. \<not> blank (prompt t)) (tasks p))"

definition ignored_settings :: "pulse_def \<Rightarrow> ustring option" where
  "ignored_settings p =
     (if \<not> is_script_only p then None
      else
        let ign = ignored_list p; one = (length ign = 1) in
        if ign = [] then None
        else Some (lit ''pulse '' @ quoted (pulse_name p) @
          lit '' is script-only (every task sets `script_only`), so it runs no session and '' @
          concat_with (lit '', '') ign @ lit '' '' @ (if one then lit ''has'' else lit ''have'') @
          lit '' no effect'' @ em_dash @ lit ''remove '' @ (if one then lit ''it'' else lit ''them'') @
          lit '', or remove `script_only` to have a session use '' @ (if one then lit ''it'' else lit ''them'')))"

fun ignored_settings_problems :: "pulse_def list \<Rightarrow> problem list" where
  "ignored_settings_problems [] = []"
| "ignored_settings_problems (p # ps) =
     (case ignored_settings p of
        Some m \<Rightarrow> \<lparr>problem_name = pulse_name p, message = m, problem_kind = IgnoredSetting\<rparr> # ignored_settings_problems ps
      | None \<Rightarrow> ignored_settings_problems ps)"

definition MIGRATION_GUIDE_URL :: ustring where
  "MIGRATION_GUIDE_URL = lit ''https://github.com/Grizzly-Endeavors/residuum/blob/main/docs/guides/migrating-to-agent-sessions.md''"
definition HEARTBEATS_REFERENCE_URL :: ustring where
  "HEARTBEATS_REFERENCE_URL = lit ''https://github.com/Grizzly-Endeavors/residuum/blob/main/docs/systems-usage/heartbeats.md''"

definition listed :: "problem list \<Rightarrow> ustring" where
  "listed ps = concat_with newline (map (\<lambda>p. lit ''- '' @ message p) ps)"

definition heartbeat_problems_notice :: "problem list \<Rightarrow> ustring" where
  "heartbeat_problems_notice ps =
     (let ign = filter (\<lambda>p. problem_kind p = IgnoredSetting) ps;
          bad = filter (\<lambda>p. problem_kind p \<noteq> IgnoredSetting) ps
      in concat_with newline
           ((if bad \<noteq> [] then
               [lit ''HEARTBEAT.yml: '' @ show_nat (length bad) @ lit '' problem'' @
                (if length bad = 1 then [] else lit ''s'') @
                lit '' found and will not run until fixed:'' @ newline @ listed bad] else []) @
            (if ign \<noteq> [] then
               [lit ''HEARTBEAT.yml: settings with no effect (these pulses still run):'' @ newline @ listed ign]
             else []) @
            [if list_ex (\<lambda>p. problem_kind p = RemovedOption) ps
             then lit ''See '' @ MIGRATION_GUIDE_URL @ lit '' for how to update them.''
             else lit ''See '' @ HEARTBEATS_REFERENCE_URL @ lit '' for the HEARTBEAT.yml format.'']))"

section \<open>Schedules and active hours\<close>

datatype 'a parsed = Panics | Malformed_text ustring | Parsed 'a

definition unit_nanos :: "ustring \<Rightarrow> int option" where
  "unit_nanos u =
     (if u = lit ''s'' then Some (dur_secs 1)
      else if u = lit ''m'' then Some (dur_minutes 1)
      else if u = lit ''h'' then Some (dur_hours 1)
      else if u = lit ''d'' then Some (dur_days 1)
      else None)"

definition parse_schedule_duration :: "(int \<Rightarrow> bool) \<Rightarrow> ustring \<Rightarrow> int parsed" where
  "parse_schedule_duration fits s =
     (if s = [] then Malformed_text (lit ''schedule duration cannot be empty'')
      else case parse_i64 (butlast s) of
        None \<Rightarrow> Malformed_text (lit ''invalid schedule duration '' @ quoted s @
                  lit '': expected number followed by s/m/h/d'')
      | Some v \<Rightarrow>
          if v \<le> 0 then
            Malformed_text (lit ''schedule duration must be positive, got '' @ quoted s)
          else (case unit_nanos [last s] of
             Some u \<Rightarrow> if fits (v * u) then Parsed (v * u) else Panics
           | None \<Rightarrow> Malformed_text (lit ''unknown duration unit '' @ quoted [last s] @ lit '' in '' @ quoted s @
                       lit '': expected s, m, h, or d'')))"

definition from_hms :: "nat \<Rightarrow> nat \<Rightarrow> int option" where
  "from_hms h m = (if h < 24 \<and> m < 60 then Some (dur_secs (int h * 3600 + int m * 60)) else None)"

definition parse_naive_time :: "ustring \<Rightarrow> ustring \<Rightarrow> (ustring + int)" where
  "parse_naive_time t ctx =
     (case split_once 58 t of
        None \<Rightarrow> Inl (lit ''invalid time '' @ quoted t @ lit '' in active_hours '' @ quoted ctx @ lit '': expected HH:MM'')
      | Some (hs, ms) \<Rightarrow>
          (case parse_u32 hs of
             None \<Rightarrow> Inl (lit ''invalid hour '' @ quoted hs @ lit '' in active_hours '' @ quoted ctx)
           | Some h \<Rightarrow>
               (case parse_u32 ms of
                  None \<Rightarrow> Inl (lit ''invalid minute '' @ quoted ms @ lit '' in active_hours '' @ quoted ctx)
                | Some m \<Rightarrow>
                    (case from_hms h m of
                       Some tm \<Rightarrow> Inr tm
                     | None \<Rightarrow> Inl (lit ''out-of-range time '' @ quoted t @ lit '' in active_hours '' @ quoted ctx)))))"

definition parse_active_hours :: "ustring \<Rightarrow> (ustring + int \<times> int)" where
  "parse_active_hours s =
     (case split_once 45 s of
        None \<Rightarrow> Inl (lit ''invalid active_hours '' @ quoted s @ lit '': expected '' @ quoted (lit ''HH:MM-HH:MM''))
      | Some (a, b) \<Rightarrow>
          bind_result (parse_naive_time a s) (\<lambda>start.
          bind_result (parse_naive_time b s) (\<lambda>stop. Inr (start, stop))))"

definition day_nanos :: int where "day_nanos = dur_days 1"

definition time_of_day :: "datetime \<Rightarrow> int" where
  "time_of_day t = t mod day_nanos"

definition is_within_active_hours :: "datetime \<Rightarrow> int \<Rightarrow> int \<Rightarrow> bool" where
  "is_within_active_hours now start stop =
     (let t = time_of_day now in
      if start \<le> stop then start \<le> t \<and> t < stop else start \<le> t \<or> t < stop)"

section \<open>Loading\<close>

text \<open>What reading and parsing the file gives. A missing or null \<open>pulses\<close> key is an empty list.\<close>

datatype heartbeat_file =
    FileMissing
  | FileUnreadable
  | SyntaxError ustring
  | NotAList ustring
  | Entries "(problem + pulse_def) list"

definition syntax_problem :: "ustring \<Rightarrow> problem" where
  "syntax_problem m =
     \<lparr>problem_name = lit ''HEARTBEAT.yml'',
       message = lit ''HEARTBEAT.yml has a syntax error and could not be parsed: '' @ m @
         lit ''; keeping the last working set of pulses running until this is fixed'',
       problem_kind = Malformed\<rparr>"

definition not_a_list_problem :: "ustring \<Rightarrow> problem" where
  "not_a_list_problem k =
     \<lparr>problem_name = lit ''HEARTBEAT.yml'',
       message = lit ''HEARTBEAT.yml's top-level '' @ quoted (lit ''pulses'') @ lit '' key must be a list, found '' @ k @
         lit '' instead; keeping the last working set of pulses running until this is fixed'',
       problem_kind = Malformed\<rparr>"

fun split_entries :: "(problem + pulse_def) list \<Rightarrow> pulse_def list \<times> problem list" where
  "split_entries [] = ([], [])"
| "split_entries (Inr p # es) = (let (ps, problems) = split_entries es in (p # ps, problems))"
| "split_entries (Inl e # es) = (let (ps, problems) = split_entries es in (ps, e # problems))"

text \<open>
  The pulses to run (none when there is no file), the recorded syntax error and the problems.
\<close>

definition load_heartbeat ::
    "heartbeat_file \<Rightarrow> ustring option \<Rightarrow> pulse_def list \<Rightarrow> pulse_def list option \<times> ustring option \<times> problem list"
where
  "load_heartbeat file parse_error last_good =
     (case file of
        FileMissing \<Rightarrow> (None, None, [])
      | FileUnreadable \<Rightarrow> (None, parse_error, [])
      | SyntaxError m \<Rightarrow> (Some last_good, Some m, [syntax_problem m])
      | NotAList k \<Rightarrow> (Some last_good, None, [not_a_list_problem k])
      | Entries es \<Rightarrow>
          (let (ps, p1) = split_entries es;
               (ps, p2) = dedupe_pulse_names ps;
               (ps, p3) = reject_invalid_pulses ps
           in (Some ps, None, p1 @ p2 @ p3 @ ignored_settings_problems ps)))"

section \<open>Model selectors round trip\<close>

definition valid_selector :: "model_selector \<Rightarrow> bool" where
  "valid_selector m = (case m of Tier _ \<Rightarrow> True | Explicit i \<Rightarrow> looks_like_model_id i)"

lemma parse_tier_show: "parse_tier (show_tier t) = Inr t"
  by (cases t) (simp_all add: parse_tier_def)

lemma parse_tier_slash: "47 \<in> set s \<Longrightarrow> parse_tier s = Inl (lit ''invalid model tier '' @ quoted s @ lit '': must be small, medium, or large'')"
  by (auto simp: parse_tier_def lit_def)

lemma looks_like_slash: "looks_like_model_id s \<Longrightarrow> 47 \<in> set s"
  by (auto simp: looks_like_model_id_def split_once_Some split: option.splits)

lemma parse_tier_Inr: "parse_tier s = Inr t \<Longrightarrow> s = show_tier t"
  by (auto simp: parse_tier_def split: if_splits)

lemma parse_selector_Inr:
  assumes "parse_selector s = Inr m"
  obtains t where "m = Tier t" "s = show_tier t" | "m = Explicit s" "looks_like_model_id s"
  using assms parse_tier_Inr [of s] by (auto simp: parse_selector_def split: sum.splits if_splits)

text \<open>A model selector and its text are the same thing: whatever parses is written back
  exactly as it was, and every tier and every well-formed model id is read back as itself, so no
  id is mistaken for a tier and a stored selector survives a restart.\<close>

theorem selector_roundtrip:
  "(parse_selector s = Inr m \<longrightarrow> show_selector m = s \<and> valid_selector m) \<and>
   (valid_selector m \<longrightarrow> parse_selector (show_selector m) = Inr m)"
proof (intro conjI impI)
  assume "parse_selector s = Inr m"
  then show "show_selector m = s" "valid_selector m"
    by (auto elim: parse_selector_Inr simp: valid_selector_def)
next
  assume v: "valid_selector m"
  show "parse_selector (show_selector m) = Inr m"
  proof (cases m)
    case (Tier t)
    then show ?thesis by (simp add: parse_selector_def parse_tier_show)
  next
    case (Explicit i)
    then have "looks_like_model_id i" using v by (simp add: valid_selector_def)
    then show ?thesis using Explicit
      by (simp add: parse_selector_def parse_tier_slash [OF looks_like_slash])
  qed
qed

lemma selector_roundtrip_witness:
  "parse_selector (lit ''a/b'') = Inr (Explicit (lit ''a/b''))"
proof -
  have "valid_selector (Explicit (lit ''a/b''))"
    by (simp add: valid_selector_def looks_like_model_id_def lit_def is_whitespace_def)
  then show ?thesis using selector_roundtrip [of "lit ''a/b''" "Explicit (lit ''a/b'')"] by simp
qed

section \<open>Schedules\<close>

lemma parse_schedule_Parsed:
  assumes "parse_schedule_duration fits s = Parsed d"
  obtains v u where "parse_i64 (butlast s) = Some v" "0 < v" "unit_nanos [last s] = Some u"
    "d = v * u" "fits d"
  using assms by (auto simp: parse_schedule_duration_def split: if_splits option.splits)

lemma unit_nanos_pos: "unit_nanos u = Some n \<Longrightarrow> dur_secs 1 \<le> n \<and> n \<le> dur_days 1"
  by (auto simp: unit_nanos_def dur_defs split: if_splits)

lemma parse_schedule_pos: "parse_schedule_duration fits s = Parsed d \<Longrightarrow> dur_secs 1 \<le> d"
proof (erule parse_schedule_Parsed)
  fix v u
  assume a: "0 < v" "unit_nanos [last s] = Some u" "d = v * u"
  from unit_nanos_pos [OF a(2)] have u: "dur_secs 1 \<le> u" by simp
  then have "1 * u \<le> v * u" using a(1) by (intro mult_right_mono) (auto simp: dur_defs)
  with u show "dur_secs 1 \<le> d" using a(3) by simp
qed

text \<open>A schedule \<open>n\<close> followed by \<open>s\<close>, \<open>m\<close>, \<open>h\<close> or \<open>d\<close> is read as that many of the unit when the
  length is one chrono can represent, and a schedule that is read is at least a second. Outside
  chrono's range the parser does not return the error it documents: it panics.\<close>

theorem schedule_parse_exact:
  "(0 < n \<and> n < 2 ^ 63 \<and> unit_nanos [u] = Some k \<longrightarrow>
      parse_schedule_duration fits (show_nat n @ [u]) =
        (if fits (int n * k) then Parsed (int n * k) else Panics)) \<and>
   (parse_schedule_duration fits s = Parsed d \<longrightarrow> dur_secs 1 \<le> d \<and> fits d)"
proof (intro conjI impI)
  assume "0 < n \<and> n < 2 ^ 63 \<and> unit_nanos [u] = Some k"
  then show "parse_schedule_duration fits (show_nat n @ [u]) =
      (if fits (int n * k) then Parsed (int n * k) else Panics)"
    using parse_i64_show [of n] by (simp add: parse_schedule_duration_def)
next
  assume p: "parse_schedule_duration fits s = Parsed d"
  then show "dur_secs 1 \<le> d" by (rule parse_schedule_pos)
  from p show "fits d" by (rule parse_schedule_Parsed)
qed

lemma schedule_parse_exact_witness:
  "parse_schedule_duration (\<lambda>d. d \<le> 9223372036854775807 * 10 ^ 6) (show_nat 30 @ [109])
     = Parsed (30 * 60 * 10 ^ 9) \<and>
   parse_schedule_duration (\<lambda>d. d \<le> 9223372036854775807 * 10 ^ 6) (show_nat (10 ^ 17) @ [115]) = Panics"
proof -
  have u: "unit_nanos [109] = Some (dur_minutes 1)" "unit_nanos [115] = Some (dur_secs 1)"
    by (simp_all add: unit_nanos_def lit_def)
  show ?thesis
    using schedule_parse_exact [of 30 109 "dur_minutes 1" "\<lambda>d. d \<le> 9223372036854775807 * 10 ^ 6" "[]" 0] u(1)
      schedule_parse_exact [of "10 ^ 17" 115 "dur_secs 1" "\<lambda>d. d \<le> 9223372036854775807 * 10 ^ 6" "[]" 0] u(2)
    by (simp add: dur_defs)
qed

section \<open>Active hours\<close>

lemma time_of_day_range: "0 \<le> time_of_day t \<and> time_of_day t < day_nanos"
  by (simp add: time_of_day_def day_nanos_def dur_defs)

lemma from_hms_Some: "from_hms h m = Some tm \<Longrightarrow> 0 \<le> tm \<and> tm < day_nanos"
  by (auto simp: from_hms_def day_nanos_def dur_defs split: if_splits)

lemma parse_naive_time_range: "parse_naive_time t ctx = Inr tm \<Longrightarrow> 0 \<le> tm \<and> tm < day_nanos"
  by (auto simp: parse_naive_time_def split: option.splits dest: from_hms_Some)

lemma parse_active_hours_range:
  "parse_active_hours s = Inr (a, b) \<Longrightarrow> 0 \<le> a \<and> a < day_nanos \<and> 0 \<le> b \<and> b < day_nanos"
  by (auto simp: parse_active_hours_def bind_result_Inr split: option.splits
      dest!: parse_naive_time_range)

definition clock_text :: "nat \<Rightarrow> nat \<Rightarrow> ustring" where
  "clock_text h m = show_nat h @ [58] @ show_nat m"

lemma show_nat_no: "c < 48 \<or> 57 < c \<Longrightarrow> c \<notin> set (show_nat n)"
  using show_nat_digits [of n] by (auto simp: all_digits_def list_all_iff is_ascii_digit_def)

lemma parse_clock_text:
  assumes "h < 24" "m < 60"
  shows "parse_naive_time (clock_text h m) ctx = Inr (dur_secs (int h * 3600 + int m * 60))"
proof -
  have "split_once 58 (clock_text h m) = Some (show_nat h, show_nat m)"
    using show_nat_no [of 58 h] by (simp add: split_once_Some clock_text_def)
  moreover have "parse_u32 (show_nat h) = Some h" "parse_u32 (show_nat m) = Some m"
    using assms by (simp_all add: parse_u32_def parse_unsigned_show)
  ultimately show ?thesis using assms by (simp add: parse_naive_time_def from_hms_def)
qed

text \<open>A window written as two times of day is read as those times; it opens at the first,
  closes at the second and repeats every day. A window and the one with the times swapped share
  no moment and leave none out, also when one of them runs over midnight; a window that ends when
  it starts never opens.\<close>

theorem active_hours_windows:
  "(h1 < 24 \<and> m1 < 60 \<and> h2 < 24 \<and> m2 < 60 \<longrightarrow>
     parse_active_hours (clock_text h1 m1 @ [45] @ clock_text h2 m2) =
       Inr (dur_secs (int h1 * 3600 + int m1 * 60), dur_secs (int h2 * 3600 + int m2 * 60))) \<and>
   (if a = b then \<not> is_within_active_hours now a b
      else (is_within_active_hours now a b \<longleftrightarrow> \<not> is_within_active_hours now b a) \<and>
        (time_of_day now = a \<longrightarrow> is_within_active_hours now a b) \<and>
        (time_of_day now = b \<longrightarrow> \<not> is_within_active_hours now a b)) \<and>
   is_within_active_hours (now + k * day_nanos) a b = is_within_active_hours now a b"
proof (intro conjI impI)
  assume b: "h1 < 24 \<and> m1 < 60 \<and> h2 < 24 \<and> m2 < 60"
  have "45 \<notin> set (clock_text h1 m1)"
    using show_nat_no [of 45] by (simp add: clock_text_def)
  then have "split_once 45 (clock_text h1 m1 @ [45] @ clock_text h2 m2)
      = Some (clock_text h1 m1, clock_text h2 m2)"
    by (simp add: split_once_Some)
  then show "parse_active_hours (clock_text h1 m1 @ [45] @ clock_text h2 m2) =
      Inr (dur_secs (int h1 * 3600 + int m1 * 60), dur_secs (int h2 * 3600 + int m2 * 60))"
    using b by (simp add: parse_active_hours_def parse_clock_text)
next
  show "if a = b then \<not> is_within_active_hours now a b
      else (is_within_active_hours now a b \<longleftrightarrow> \<not> is_within_active_hours now b a) \<and>
        (time_of_day now = a \<longrightarrow> is_within_active_hours now a b) \<and>
        (time_of_day now = b \<longrightarrow> \<not> is_within_active_hours now a b)"
    by (auto simp: is_within_active_hours_def Let_def)
next
  show "is_within_active_hours (now + k * day_nanos) a b = is_within_active_hours now a b"
    by (simp add: is_within_active_hours_def time_of_day_def)
qed

lemma active_hours_windows_witness:
  "parse_active_hours (clock_text 22 0 @ [45] @ clock_text 6 0) = Inr (dur_hours 22, dur_hours 6) \<and>
   is_within_active_hours (dur_hours 23) (dur_hours 22) (dur_hours 6) =
     (\<not> is_within_active_hours (dur_hours 23) (dur_hours 6) (dur_hours 22))"
proof -
  have p: "parse_active_hours (clock_text 22 0 @ [45] @ clock_text 6 0) = Inr (dur_hours 22, dur_hours 6)"
    using active_hours_windows [of 22 0 6 0 0 0 0 0] by (simp add: dur_defs)
  then show ?thesis
    using active_hours_windows [of 22 0 6 0 "dur_hours 22" "dur_hours 6" "dur_hours 23" 0]
    by (simp add: dur_defs)
qed

section \<open>What is loaded\<close>

text \<open>What the two checks amount to.\<close>

definition runnable_task :: "pulse_task \<Rightarrow> bool" where
  "runnable_task t \<longleftrightarrow>
     (case script t of Some s \<Rightarrow> \<not> blank s | None \<Rightarrow> \<not> script_only t \<and> \<not> blank (prompt t)) \<and>
     script_timeout_secs t \<noteq> Some 0 \<and> script_max_output_kb t \<noteq> Some 0"

definition loadable :: "pulse_def \<Rightarrow> bool" where
  "loadable p \<longleftrightarrow> pulse_agent p \<noteq> Some (lit ''main'') \<and> include_identity p = None \<and>
     list_all runnable_task (tasks p) \<and> (list_all script_only (tasks p) \<or> list_all (\<lambda>t. \<not> script_only t) (tasks p))"

lemma validate_task_ok: "validate_task p t = Inr u \<longleftrightarrow> runnable_task t"
  by (auto simp: validate_task_def runnable_task_def Let_def split: option.splits)

lemma validate_each_ok: "validate_each p ts = Inr u \<longleftrightarrow> list_all runnable_task ts"
  by (induction ts) (auto simp: bind_result_Inr validate_task_ok)

lemma filter_length_extremes:
  "\<not> (0 < length (filter P xs) \<and> length (filter P xs) < length xs) \<longleftrightarrow>
     list_all P xs \<or> list_all (\<lambda>x. \<not> P x) xs"
proof -
  have "length (filter P xs) < length xs \<longleftrightarrow> \<not> list_all P xs"
    using length_filter_le [of P xs]
    by (auto simp: list_all_iff length_filter_less dest: less_imp_neq)
      (metis filter_True less_irrefl)
  then show ?thesis by (auto simp: list_all_iff filter_empty_conv)
qed

lemma validate_pulse_tasks_ok:
  "validate_pulse_tasks p = Inr u \<longleftrightarrow> list_all runnable_task (tasks p) \<and>
     (list_all script_only (tasks p) \<or> list_all (\<lambda>t. \<not> script_only t) (tasks p))"
  using filter_length_extremes [of script_only "tasks p"]
  by (auto simp: validate_pulse_tasks_def bind_result_Inr validate_each_ok Let_def)

lemma invalid_reason_None: "invalid_reason p = None \<longleftrightarrow> loadable p"
proof -
  have "validate_pulse p = Inr () \<longleftrightarrow> pulse_agent p \<noteq> Some (lit ''main'') \<and> include_identity p = None"
    by (auto simp: validate_pulse_def)
  then show ?thesis using validate_pulse_tasks_ok [of p "()"]
    by (auto simp: invalid_reason_def loadable_def split: sum.splits)
qed

lemma invalid_reason_kind: "invalid_reason p = Some (m, k) \<Longrightarrow> k \<noteq> IgnoredSetting"
  by (auto simp: invalid_reason_def split: sum.splits)

definition blocking :: "problem list \<Rightarrow> problem list" where
  "blocking ps = filter (\<lambda>p. problem_kind p \<noteq> IgnoredSetting) ps"

lemma blocking_append [simp]: "blocking (a @ b) = blocking a @ blocking b" "blocking [] = []"
  by (simp_all add: blocking_def)

lemma reject_facts:
  assumes "reject_invalid_pulses ps = (kept, problems)"
  shows "kept = filter loadable ps" "length kept + length problems = length ps" "blocking problems = problems"
    "map problem_name problems = map pulse_name (filter (\<lambda>p. \<not> loadable p) ps)"
proof -
  have "kept = filter loadable ps \<and> length kept + length problems = length ps \<and>
    blocking problems = problems \<and>
    map problem_name problems = map pulse_name (filter (\<lambda>p. \<not> loadable p) ps)"
    using assms
  proof (induction ps arbitrary: kept problems)
    case Nil
    then show ?case by simp
  next
    case (Cons p ps)
    obtain k q where kq: "reject_invalid_pulses ps = (k, q)" by fastforce
    note ih = Cons.IH [OF kq]
    show ?case
    proof (cases "invalid_reason p")
      case None
      with kq Cons.prems ih invalid_reason_None [of p] show ?thesis by auto
    next
      case (Some r)
      then obtain m j where mj: "invalid_reason p = Some (m, j)" by (cases r) simp
      with kq Cons.prems ih invalid_reason_None [of p] invalid_reason_kind [OF mj] show ?thesis
        by (auto simp: blocking_def)
    qed
  qed
  then show "kept = filter loadable ps" "length kept + length problems = length ps" "blocking problems = problems"
    "map problem_name problems = map pulse_name (filter (\<lambda>p. \<not> loadable p) ps)" by blast+
qed

lemma dedupe_facts:
  assumes "dedupe_from seen ps = (kept, problems)"
  shows "distinct (map pulse_name kept)" "set (map pulse_name kept) \<inter> set seen = {}"
    "length kept + length problems = length ps" "blocking problems = problems" "set kept \<subseteq> set ps"
    "set seen \<union> set (map pulse_name kept) = set seen \<union> set (map pulse_name ps)"
proof -
  have "distinct (map pulse_name kept) \<and> set (map pulse_name kept) \<inter> set seen = {} \<and>
    length kept + length problems = length ps \<and> blocking problems = problems \<and> set kept \<subseteq> set ps \<and>
    set seen \<union> set (map pulse_name kept) = set seen \<union> set (map pulse_name ps)"
    using assms
  proof (induction seen ps arbitrary: kept problems rule: dedupe_from.induct)
    case (1 seen)
    then show ?case by simp
  next
    case (2 seen p ps)
    show ?case
    proof (cases "pulse_name p \<in> set seen")
      case True
      obtain k q where kq: "dedupe_from seen ps = (k, q)" by fastforce
      with 2(1) [OF True kq] "2.prems" True show ?thesis
        by (auto simp: blocking_def duplicate_problem_def)
    next
      case False
      obtain k q where kq: "dedupe_from (pulse_name p # seen) ps = (k, q)" by fastforce
      note ih = 2(2) [OF False kq]
      have o: "kept = p # k" "problems = q" using "2.prems" kq False by auto
      show ?thesis unfolding o using ih False by (auto simp: disjoint_iff)
    qed
  qed
  then show "distinct (map pulse_name kept)" "set (map pulse_name kept) \<inter> set seen = {}"
    "length kept + length problems = length ps" "blocking problems = problems" "set kept \<subseteq> set ps"
    "set seen \<union> set (map pulse_name kept) = set seen \<union> set (map pulse_name ps)" by blast+
qed

lemma split_entries_facts:
  "split_entries es = (ps, problems) \<Longrightarrow>
     length ps + length problems = length es \<and> set ps = {p. Inr p \<in> set es} \<and> set problems = {e. Inl e \<in> set es}"
  by (induction es arbitrary: ps problems rule: split_entries.induct) (auto split: prod.splits)

lemma ignored_not_blocking [simp]: "blocking (ignored_settings_problems ps) = []"
  by (induction ps) (auto simp: blocking_def split: option.splits)

text \<open>Loading keeps going past what is wrong: the pulses that load have different names and
  nothing wrong with them, every entry that does not load has exactly one problem reported for
  it, and when the file as a whole cannot be used the pulses that ran before go on running.\<close>

theorem loading_reports_every_entry:
  assumes "load_heartbeat f err good = (Some ps, err', problems)"
    and "\<forall>e es. f = Entries es \<longrightarrow> Inl e \<in> set es \<longrightarrow> problem_kind e = Malformed"
  shows "(case f of
      Entries es \<Rightarrow> distinct (map pulse_name ps) \<and> list_all loadable ps \<and> (\<forall>p\<in>set ps. Inr p \<in> set es) \<and>
        length ps + length (blocking problems) = length es
    | _ \<Rightarrow> ps = good \<and> length (blocking problems) = 1)"
proof (cases f)
  case (Entries es)
  obtain ps0 p1 where s: "split_entries es = (ps0, p1)" by fastforce
  obtain ps1 p2 where d: "dedupe_from [] ps0 = (ps1, p2)" by fastforce
  obtain ps2 p3 where r: "reject_invalid_pulses ps1 = (ps2, p3)" by fastforce
  have out: "ps = ps2" "problems = p1 @ p2 @ p3 @ ignored_settings_problems ps2"
    using assms(1) Entries s d r by (auto simp: load_heartbeat_def dedupe_pulse_names_def)
  note sf = split_entries_facts [OF s] and df = dedupe_facts [OF d] and rf = reject_facts [OF r]
  have b1: "blocking p1 = p1"
    using assms(2) Entries sf by (auto simp: blocking_def filter_id_conv)
  have "distinct (map pulse_name ps2)" using df(1) rf(1) by (simp add: distinct_map_filter)
  moreover have "list_all loadable ps2" using rf(1) by (simp add: list_all_iff)
  moreover have "\<forall>p\<in>set ps2. Inr p \<in> set es" using rf(1) df(5) sf by auto
  moreover have "length ps2 + length (blocking problems) = length es"
    using sf df(3,4) rf(2,3) b1 by (simp add: out(2))
  ultimately show ?thesis using Entries out(1) by simp
qed (use assms(1) in \<open>auto simp: load_heartbeat_def blocking_def syntax_problem_def not_a_list_problem_def\<close>)

definition sample_task :: pulse_task where
  "sample_task = \<lparr>task_name = [1], prompt = [65], script = None, script_only = False,
     script_timeout_secs = None, script_max_output_kb = None\<rparr>"

definition sample_pulse :: "ustring \<Rightarrow> pulse_def" where
  "sample_pulse n = \<lparr>pulse_name = n, enabled = True, schedule = lit ''30m'', active_hours = None,
     pulse_agent = None, model_sel = None, context_from = None, include_identity = None,
     tasks = [sample_task]\<rparr>"

lemma loading_reports_every_entry_witness:
  "length (blocking (snd (snd (load_heartbeat
     (Entries [Inr (sample_pulse [1]), Inr (sample_pulse [1])]) None [])))) = 1"
proof -
  let ?f = "Entries [Inr (sample_pulse [1]), Inr (sample_pulse [1])]"
  have l: "loadable (sample_pulse [1])"
    by (simp add: loadable_def sample_pulse_def sample_task_def runnable_task_def blank_def trim_def
        trim_start_def trim_end_def is_whitespace_def)
  have n: "pulse_name (sample_pulse [1]) = [1]" by (simp add: sample_pulse_def)
  obtain ps err' problems where o: "load_heartbeat ?f None [] = (Some ps, err', problems)" "length ps = 1"
    using l n by (auto simp: load_heartbeat_def dedupe_pulse_names_def invalid_reason_None [symmetric])
  from loading_reports_every_entry [OF o(1)] o(2) show ?thesis using o(1) by simp
qed

end
