(* ===== verification/Pulse_Scheduler.thy ===== *)
theory Pulse_Scheduler
  imports Pulse_Types "HOL-Library.Product_Lexorder"
begin

text \<open>
  The pulse scheduler (\<open>crates/proactivity/src/pulse/scheduler.rs\<close>) and the prediction of the
  next run (\<open>next_run.rs\<close>, with \<open>local_to_instant\<close> of \<open>crates/core/src/time.rs\<close>).

  A tick is the function \<open>due_pulses\<close>: it loads the file, prunes what it remembers of pulses that
  are gone, judges every pulse and records the problems. The result \<open>None\<close> is a panic. What the
  clock, the file and the model catalog say at a tick are its arguments; a tick that saves the
  state says so. The outcome of a fire without a session is a type variable.

  chrono and the time zone database are arguments: \<open>fits\<close> (the durations chrono can represent),
  \<open>in_range\<close> (its local times), and a time zone as two functions.
\<close>

section \<open>State\<close>

record 'o scheduler =
  last_run :: "(ustring, datetime) hmap"
  last_output :: "(ustring, ustring) hmap"
  last_fire :: "(ustring, 'o) hmap"
  has_state_path :: bool
  parse_error :: "ustring option"
  last_problems :: "problem list"
  pending_notice :: "ustring option"
  last_good :: "pulse_def list"

definition new_scheduler :: "'o scheduler" where
  "new_scheduler = \<lparr>last_run = [], last_output = [], last_fire = [], has_state_path = False,
     parse_error = None, last_problems = [], pending_notice = None, last_good = []\<rparr>"

section \<open>Judging a pulse\<close>

type_synonym resolver = "ustring \<Rightarrow> ustring + unit"

definition unusable_model_problem :: "resolver \<Rightarrow> pulse_def \<Rightarrow> problem option" where
  "unusable_model_problem resolve p =
     (case model_sel p of
        None \<Rightarrow> None
      | Some m \<Rightarrow>
          (case catalog_check resolve m of
             Inr _ \<Rightarrow> None
           | Inl reason \<Rightarrow> Some
               \<lparr>problem_name = pulse_name p,
                 message = lit ''pulse '' @ quoted (pulse_name p) @ lit '' has model_tier '' @
                   quoted (show_selector m) @ lit '', which can't run: '' @ reason @ em_dash @
                   lit ''skipping until it's fixed in HEARTBEAT.yml or providers.toml'',
                 problem_kind = Malformed\<rparr>))"

definition schedule_problem :: "pulse_def \<Rightarrow> ustring \<Rightarrow> problem" where
  "schedule_problem p e =
     \<lparr>problem_name = pulse_name p,
       message = lit ''pulse '' @ quoted (pulse_name p) @ lit '' has an invalid schedule '' @
         quoted (schedule p) @ lit '' ('' @ e @ lit '')'' @ em_dash @ lit ''skipping until fixed'',
       problem_kind = Malformed\<rparr>"

definition hours_problem :: "pulse_def \<Rightarrow> ustring \<Rightarrow> ustring \<Rightarrow> problem" where
  "hours_problem p h e =
     \<lparr>problem_name = pulse_name p,
       message = lit ''pulse '' @ quoted (pulse_name p) @ lit '' has an invalid active_hours '' @
         quoted h @ lit '' ('' @ e @ lit '')'' @ em_dash @ lit ''skipping until fixed'',
       problem_kind = Malformed\<rparr>"

datatype verdict = Crash | Skipped "problem option" | FirstSeen | TooSoon | IsDue

definition active_window :: "pulse_def \<Rightarrow> (problem + (int \<times> int) option)" where
  "active_window p =
     (case active_hours p of
        None \<Rightarrow> Inr None
      | Some h \<Rightarrow>
          (case parse_active_hours h of
             Inr w \<Rightarrow> Inr (Some w)
           | Inl e \<Rightarrow> Inl (hours_problem p h e)))"

definition outside :: "datetime \<Rightarrow> (int \<times> int) option \<Rightarrow> bool" where
  "outside now w = (case w of Some (a, b) \<Rightarrow> \<not> is_within_active_hours now a b | None \<Rightarrow> False)"

definition judge :: "(int \<Rightarrow> bool) \<Rightarrow> resolver \<Rightarrow> datetime \<Rightarrow> (ustring, datetime) hmap \<Rightarrow> pulse_def \<Rightarrow> verdict" where
  "judge fits resolve now lr p =
     (if \<not> enabled p then Skipped None
      else case unusable_model_problem resolve p of
        Some q \<Rightarrow> Skipped (Some q)
      | None \<Rightarrow>
          (case parse_schedule_duration fits (schedule p) of
             Panics \<Rightarrow> Crash
           | Malformed_text e \<Rightarrow> Skipped (Some (schedule_problem p e))
           | Parsed d \<Rightarrow>
               (case active_window p of
                  Inl q \<Rightarrow> Skipped (Some q)
                | Inr w \<Rightarrow>
                    if outside now w then Skipped None
                    else (case hm_get lr (pulse_name p) of
                       None \<Rightarrow> FirstSeen
                     | Some l \<Rightarrow> if now - l \<ge> d then IsDue else TooSoon))))"

text \<open>The loop over the pulses: who is due, the new run times, the problems, and whether a pulse
  was seen for the first time.\<close>

fun evaluate ::
    "(int \<Rightarrow> bool) \<Rightarrow> resolver \<Rightarrow> datetime \<Rightarrow> (ustring, datetime) hmap \<Rightarrow> pulse_def list
      \<Rightarrow> (pulse_def list \<times> (ustring, datetime) hmap \<times> problem list \<times> bool) option" where
  "evaluate fits resolve now lr [] = Some ([], lr, [], False)"
| "evaluate fits resolve now lr (p # ps) =
     (case judge fits resolve now lr p of
        Crash \<Rightarrow> None
      | Skipped q \<Rightarrow>
          map_option (\<lambda>(due, l, probs, seen). (due, l, (case q of Some x \<Rightarrow> [x] | None \<Rightarrow> []) @ probs, seen))
            (evaluate fits resolve now lr ps)
      | FirstSeen \<Rightarrow>
          map_option (\<lambda>(due, l, probs, seen). (due, l, probs, True))
            (evaluate fits resolve now (hm_insert (pulse_name p) now lr) ps)
      | TooSoon \<Rightarrow> evaluate fits resolve now lr ps
      | IsDue \<Rightarrow>
          map_option (\<lambda>(due, l, probs, seen). (p # due, l, probs, seen))
            (evaluate fits resolve now (hm_insert (pulse_name p) now lr) ps))"

section \<open>The tick\<close>

definition prune_removed_pulses :: "ustring list \<Rightarrow> 'o scheduler \<Rightarrow> bool \<times> 'o scheduler" where
  "prune_removed_pulses names s =
     (let s' = s\<lparr>last_run := hm_retain (\<lambda>n _. n \<in> set names) (last_run s),
                 last_output := hm_retain (\<lambda>n _. n \<in> set names) (last_output s),
                 last_fire := hm_retain (\<lambda>n _. n \<in> set names) (last_fire s)\<rparr>
      in (length (last_run s') \<noteq> length (last_run s) \<or> length (last_output s') \<noteq> length (last_output s) \<or>
            length (last_fire s') \<noteq> length (last_fire s), s'))"

definition sort_problems :: "problem list \<Rightarrow> problem list" where
  "sort_problems ps = sort_key (\<lambda>p. (problem_name p, message p)) ps"

definition record_heartbeat_problems :: "problem list \<Rightarrow> 'o scheduler \<Rightarrow> 'o scheduler" where
  "record_heartbeat_problems probs s =
     (let ps = sort_problems probs in
      if ps = last_problems s then s
      else (if ps = [] then s else s\<lparr>pending_notice := Some (heartbeat_problems_notice ps)\<rparr>)\<lparr>last_problems := ps\<rparr>)"

text \<open>The due pulses, whether the state is saved, and the new state.\<close>

definition due_pulses ::
    "(int \<Rightarrow> bool) \<Rightarrow> resolver \<Rightarrow> datetime \<Rightarrow> heartbeat_file \<Rightarrow> 'o scheduler
      \<Rightarrow> (pulse_def list \<times> bool \<times> 'o scheduler) option" where
  "due_pulses fits resolve now file s =
     (let (loaded, err, problems) = load_heartbeat file (parse_error s) (last_good s);
          s = s\<lparr>parse_error := err\<rparr>
      in case loaded of
        None \<Rightarrow> Some ([], False, s)
      | Some ps \<Rightarrow>
          (let (pruned, s) = prune_removed_pulses (map pulse_name ps) (s\<lparr>last_good := ps\<rparr>)
           in case evaluate fits resolve now (last_run s) ps of
                None \<Rightarrow> None
              | Some (due, lr, probs, seen) \<Rightarrow>
                  Some (due, has_state_path s \<and> (pruned \<or> seen \<or> due \<noteq> []),
                        record_heartbeat_problems (problems @ probs) (s\<lparr>last_run := lr\<rparr>))))"

definition take_problem_notice :: "'o scheduler \<Rightarrow> ustring option \<times> 'o scheduler" where
  "take_problem_notice s = (pending_notice s, s\<lparr>pending_notice := None\<rparr>)"

definition record_pulse_output :: "ustring \<Rightarrow> ustring \<Rightarrow> 'o scheduler \<Rightarrow> 'o scheduler" where
  "record_pulse_output n out s = s\<lparr>last_output := hm_insert n out (last_output s)\<rparr>"

definition record_fire_outcome :: "ustring \<Rightarrow> 'o \<Rightarrow> 'o scheduler \<Rightarrow> 'o scheduler" where
  "record_fire_outcome n out s = s\<lparr>last_fire := hm_insert n out (last_fire s)\<rparr>"

text \<open>Any sequence of operations. The model catalog and the file are what the tick finds; the
  state is gone once a tick has panicked.\<close>

datatype 'o pulse_op =
    Tick datetime heartbeat_file resolver
  | PulseOutput ustring ustring
  | FireOutcome ustring 'o
  | TakeNotice

fun pulse_step :: "(int \<Rightarrow> bool) \<Rightarrow> 'o scheduler option \<Rightarrow> 'o pulse_op \<Rightarrow> 'o scheduler option \<times> (pulse_def \<times> datetime) list" where
  "pulse_step fits None op = (None, [])"
| "pulse_step fits (Some s) (Tick now file resolve) =
     (case due_pulses fits resolve now file s of
        None \<Rightarrow> (None, [])
      | Some (due, _, s) \<Rightarrow> (Some s, map (\<lambda>p. (p, now)) due))"
| "pulse_step fits (Some s) (PulseOutput n out) = (Some (record_pulse_output n out s), [])"
| "pulse_step fits (Some s) (FireOutcome n out) = (Some (record_fire_outcome n out s), [])"
| "pulse_step fits (Some s) TakeNotice = (Some (snd (take_problem_notice s)), [])"

section \<open>The next run\<close>

datatype local_result = SingleTime datetime | AmbiguousTime datetime datetime | NoSuchTime

record timezone =
  from_local :: "datetime \<Rightarrow> local_result"
  offset_at :: "datetime \<Rightarrow> int" \<comment> \<open>what the zone adds to a UTC time\<close>

definition local_to_instant :: "(int \<Rightarrow> bool) \<Rightarrow> timezone \<Rightarrow> datetime \<Rightarrow> datetime" where
  "local_to_instant in_range tz l =
     (case from_local tz l of
        SingleTime i \<Rightarrow> i
      | AmbiguousTime i _ \<Rightarrow> i
      | NoSuchTime \<Rightarrow>
          (let probe = (if in_range (l - day_nanos) then l - day_nanos else l);
               utc = l - offset_at tz probe
           in if in_range utc then utc else l))"

datatype 'a outcome = Panicked | NoRun | At 'a

fun bind_run :: "'a outcome \<Rightarrow> ('a \<Rightarrow> 'b outcome) \<Rightarrow> 'b outcome" where
  "bind_run Panicked f = Panicked"
| "bind_run NoRun f = NoRun"
| "bind_run (At x) f = f x"

definition plus_dur :: "(int \<Rightarrow> bool) \<Rightarrow> datetime \<Rightarrow> int \<Rightarrow> datetime outcome" where
  "plus_dur in_range t d = (if in_range (t + d) then At (t + d) else Panicked)"

definition next_active_moment :: "(int \<Rightarrow> bool) \<Rightarrow> datetime \<Rightarrow> int \<Rightarrow> int \<Rightarrow> datetime outcome" where
  "next_active_moment in_range at start stop =
     (if start = stop then NoRun
      else if is_within_active_hours at start stop then At at
      else
        let opens = at - time_of_day at + start in
        if at < opens then At opens
        else if in_range (opens + day_nanos) then At (opens + day_nanos) else NoRun)"

definition in_window :: "(int \<Rightarrow> bool) \<Rightarrow> (int \<times> int) option \<Rightarrow> datetime \<Rightarrow> datetime outcome" where
  "in_window in_range w t =
     (case w of Some (a, b) \<Rightarrow> next_active_moment in_range t a b | None \<Rightarrow> At t)"

definition next_local_run ::
    "(int \<Rightarrow> bool) \<Rightarrow> int \<Rightarrow> (int \<times> int) option \<Rightarrow> datetime option \<Rightarrow> datetime \<Rightarrow> datetime outcome" where
  "next_local_run in_range d w prior now_local =
     bind_run
       (case prior of
          Some l \<Rightarrow> bind_run (plus_dur in_range l d) (\<lambda>t. At (max t now_local))
        | None \<Rightarrow> bind_run (in_window in_range w now_local) (\<lambda>t. plus_dur in_range t d))
       (in_window in_range w)"

text \<open>\<open>trunc\<close> is chrono's truncation to the minute, which fails outside its range.\<close>

definition next_run_at ::
    "(int \<Rightarrow> bool) \<Rightarrow> (int \<Rightarrow> bool) \<Rightarrow> (datetime \<Rightarrow> datetime option) \<Rightarrow> timezone \<Rightarrow> pulse_def
      \<Rightarrow> datetime option \<Rightarrow> datetime \<Rightarrow> datetime outcome" where
  "next_run_at fits in_range trunc tz p prior now =
     (if \<not> enabled p then NoRun
      else case parse_schedule_duration fits (schedule p) of
        Panics \<Rightarrow> Panicked
      | Malformed_text _ \<Rightarrow> NoRun
      | Parsed d \<Rightarrow>
          (case active_window p of
             Inl _ \<Rightarrow> NoRun
           | Inr w \<Rightarrow>
               (case trunc now of
                  None \<Rightarrow> NoRun
                | Some this_minute \<Rightarrow>
                    (let now_local = this_minute + offset_at tz this_minute
                     in bind_run (next_local_run in_range d w prior now_local) (\<lambda>at.
                          if at \<le> now_local then At this_minute
                          else At (local_to_instant in_range tz at))))))"

section \<open>What a verdict depends on\<close>

definition can_run :: "(int \<Rightarrow> bool) \<Rightarrow> resolver \<Rightarrow> pulse_def \<Rightarrow> int \<Rightarrow> (int \<times> int) option \<Rightarrow> bool" where
  "can_run fits resolve p d w \<longleftrightarrow> enabled p \<and> unusable_model_problem resolve p = None \<and>
     parse_schedule_duration fits (schedule p) = Parsed d \<and> active_window p = Inr w"

lemma judge_can_run:
  "can_run fits resolve p d w \<Longrightarrow> judge fits resolve now lr p =
     (if outside now w then Skipped None
      else (case hm_get lr (pulse_name p) of
         None \<Rightarrow> FirstSeen | Some l \<Rightarrow> if now - l \<ge> d then IsDue else TooSoon))"
  by (simp add: can_run_def judge_def)

lemma judge_active:
  assumes "judge fits resolve now lr p \<in> {IsDue, FirstSeen, TooSoon}"
  obtains d w where "can_run fits resolve p d w" "\<not> outside now w"
  using assms
  by (auto simp: judge_def can_run_def split: if_splits option.splits parsed.splits sum.splits)

lemma judge_due:
  "judge fits resolve now lr p = IsDue \<longleftrightarrow>
     (\<exists>d w l. can_run fits resolve p d w \<and> \<not> outside now w \<and> hm_get lr (pulse_name p) = Some l \<and> d \<le> now - l)"
proof
  assume j: "judge fits resolve now lr p = IsDue"
  then obtain d w where c: "can_run fits resolve p d w" "\<not> outside now w"
    using judge_active [of fits resolve now lr p] by auto
  with j judge_can_run [OF c(1), of now lr] show "\<exists>d w l. can_run fits resolve p d w \<and>
      \<not> outside now w \<and> hm_get lr (pulse_name p) = Some l \<and> d \<le> now - l"
    by (auto split: option.splits if_splits)
qed (auto simp: judge_can_run)

lemma judge_first:
  "judge fits resolve now lr p = FirstSeen \<longleftrightarrow>
     (\<exists>d w. can_run fits resolve p d w \<and> \<not> outside now w \<and> hm_get lr (pulse_name p) = None)"
proof
  assume j: "judge fits resolve now lr p = FirstSeen"
  then obtain d w where c: "can_run fits resolve p d w" "\<not> outside now w"
    using judge_active [of fits resolve now lr p] by auto
  with j judge_can_run [OF c(1), of now lr] show "\<exists>d w. can_run fits resolve p d w \<and>
      \<not> outside now w \<and> hm_get lr (pulse_name p) = None"
    by (auto split: option.splits if_splits)
qed (auto simp: judge_can_run)

lemma judge_cong:
  "hm_get lr (pulse_name p) = hm_get lr' (pulse_name p) \<Longrightarrow>
     judge fits resolve now lr p = judge fits resolve now lr' p"
  by (auto simp: judge_def split: option.split parsed.split sum.split)

text \<open>The problem reported for a pulse does not depend on the time or on when it last ran.\<close>

definition lasting_problem :: "(int \<Rightarrow> bool) \<Rightarrow> resolver \<Rightarrow> pulse_def \<Rightarrow> problem list" where
  "lasting_problem fits resolve p =
     (case judge fits resolve 0 [] p of Skipped (Some q) \<Rightarrow> [q] | _ \<Rightarrow> [])"

lemma lasting_problem_any:
  "(case judge fits resolve now lr p of Skipped (Some q) \<Rightarrow> [q] | _ \<Rightarrow> []) = lasting_problem fits resolve p"
  by (auto simp: lasting_problem_def judge_def split: option.splits parsed.splits sum.splits)

lemma evaluate_Cons_cases:
  assumes "evaluate fits resolve now lr (p # ps) = Some (due, lr', probs, seen)"
  obtains (skip) q rest where "judge fits resolve now lr p = Skipped q"
      "evaluate fits resolve now lr ps = Some (due, lr', rest, seen)"
      "probs = lasting_problem fits resolve p @ rest"
    | (first) sn where "judge fits resolve now lr p = FirstSeen"
      "evaluate fits resolve now (hm_insert (pulse_name p) now lr) ps = Some (due, lr', probs, sn)"
      "lasting_problem fits resolve p = []" "seen"
    | (soon) "judge fits resolve now lr p = TooSoon"
      "evaluate fits resolve now lr ps = Some (due, lr', probs, seen)" "lasting_problem fits resolve p = []"
    | (due) rest where "judge fits resolve now lr p = IsDue" "due = p # rest"
      "evaluate fits resolve now (hm_insert (pulse_name p) now lr) ps = Some (rest, lr', probs, seen)"
      "lasting_problem fits resolve p = []"
proof (cases "judge fits resolve now lr p")
  case Crash
  then show ?thesis using assms by simp
next
  case (Skipped q)
  then have "lasting_problem fits resolve p = (case q of Some x \<Rightarrow> [x] | None \<Rightarrow> [])"
    using lasting_problem_any [of fits resolve now lr p] by (cases q) simp_all
  then show ?thesis using assms Skipped skip by auto
next
  case FirstSeen
  then show ?thesis using assms first lasting_problem_any [of fits resolve now lr p] by auto
next
  case TooSoon
  then show ?thesis using assms soon lasting_problem_any [of fits resolve now lr p] by auto
next
  case IsDue
  then show ?thesis using assms due lasting_problem_any [of fits resolve now lr p] by auto
qed

lemma evaluate_problems:
  "evaluate fits resolve now lr ps = Some (due, lr', probs, seen) \<Longrightarrow>
     probs = concat (map (lasting_problem fits resolve) ps)"
proof (induction ps arbitrary: lr due probs seen)
  case Nil
  then show ?case by simp
next
  case (Cons p ps)
  from Cons.prems show ?case by (cases rule: evaluate_Cons_cases) (auto dest: Cons.IH)
qed

lemma evaluate_other:
  "evaluate fits resolve now lr ps = Some (due, lr', probs, seen) \<Longrightarrow> k \<notin> pulse_name ` set ps \<Longrightarrow>
     hm_get lr' k = hm_get lr k"
proof (induction ps arbitrary: lr due probs seen)
  case Nil
  then show ?case by simp
next
  case (Cons p ps)
  from Cons.prems(1) show ?case
    by (cases rule: evaluate_Cons_cases) (use Cons.IH Cons.prems(2) in force)+
qed

text \<open>With different names every verdict is the one on the run times before the tick.\<close>

lemma evaluate_exact:
  assumes "evaluate fits resolve now lr ps = Some (due, lr', probs, seen)" "distinct (map pulse_name ps)"
  shows "due = filter (\<lambda>p. judge fits resolve now lr p = IsDue) ps \<and>
    (\<forall>p\<in>set ps. hm_get lr' (pulse_name p) =
       (if judge fits resolve now lr p \<in> {IsDue, FirstSeen} then Some now else hm_get lr (pulse_name p)))"
  using assms
proof (induction ps arbitrary: lr due probs seen)
  case Nil
  then show ?case by simp
next
  case (Cons p ps)
  have new: "pulse_name p \<notin> pulse_name ` set ps" and d: "distinct (map pulse_name ps)"
    using Cons.prems(2) by auto
  have same: "judge fits resolve now (hm_insert (pulse_name p) now lr) q = judge fits resolve now lr q"
    "hm_get (hm_insert (pulse_name p) now lr) (pulse_name q) = hm_get lr (pulse_name q)"
    if "q \<in> set ps" for q
  proof -
    have "pulse_name q \<noteq> pulse_name p" using that new by (metis image_eqI)
    then show "judge fits resolve now (hm_insert (pulse_name p) now lr) q = judge fits resolve now lr q"
      "hm_get (hm_insert (pulse_name p) now lr) (pulse_name q) = hm_get lr (pulse_name q)"
      by (auto intro: judge_cong)
  qed
  from Cons.prems(1) show ?case
  proof (cases rule: evaluate_Cons_cases)
    case (skip q rest)
    with Cons.IH [OF skip(2) d] evaluate_other [OF skip(2) new] show ?thesis by simp
  next
    case (first sn)
    with Cons.IH [OF first(2) d] evaluate_other [OF first(2) new] same show ?thesis
      by (simp cong: filter_cong)
  next
    case soon
    with Cons.IH [OF soon(2) d] evaluate_other [OF soon(2) new] show ?thesis by simp
  next
    case (due rest)
    with Cons.IH [OF due(3) d] evaluate_other [OF due(3) new] same show ?thesis
      by (simp cong: filter_cong)
  qed
qed

section \<open>What a tick does\<close>

lemma hm_get_retain_key: "hm_get (hm_retain (\<lambda>n _. P n) m) k = (if P k then hm_get m k else None)"
  by (induction m) (auto simp: hm_get_def hm_retain_def)

lemma prune_simps [simp]:
  "hm_get (last_run (snd (prune_removed_pulses ns s))) k = (if k \<in> set ns then hm_get (last_run s) k else None)"
  "hm_get (last_output (snd (prune_removed_pulses ns s))) k = (if k \<in> set ns then hm_get (last_output s) k else None)"
  "hm_get (last_fire (snd (prune_removed_pulses ns s))) k = (if k \<in> set ns then hm_get (last_fire s) k else None)"
  "last_good (snd (prune_removed_pulses ns s)) = last_good s"
  "last_problems (snd (prune_removed_pulses ns s)) = last_problems s"
  "pending_notice (snd (prune_removed_pulses ns s)) = pending_notice s"
  "parse_error (snd (prune_removed_pulses ns s)) = parse_error s"
  by (simp_all add: prune_removed_pulses_def Let_def hm_get_retain_key)

lemma record_problems_simps [simp]:
  "last_run (record_heartbeat_problems ps s) = last_run s"
  "last_output (record_heartbeat_problems ps s) = last_output s"
  "last_fire (record_heartbeat_problems ps s) = last_fire s"
  "last_good (record_heartbeat_problems ps s) = last_good s"
  "parse_error (record_heartbeat_problems ps s) = parse_error s"
  "last_problems (record_heartbeat_problems ps s) = sort_problems ps"
  by (simp_all add: record_heartbeat_problems_def Let_def)

lemma due_pulses_loaded:
  assumes "due_pulses fits resolve now file s = Some (due, saved, s')"
    and "load_heartbeat file (parse_error s) (last_good s) = (Some ps, err, problems)"
  obtains s1 lr probs seen where
    "s1 = snd (prune_removed_pulses (map pulse_name ps) (s\<lparr>parse_error := err, last_good := ps\<rparr>))"
    "evaluate fits resolve now (last_run s1) ps = Some (due, lr, probs, seen)"
    "s' = record_heartbeat_problems (problems @ probs) (s1\<lparr>last_run := lr\<rparr>)"
proof -
  obtain pr s1 where p: "prune_removed_pulses (map pulse_name ps) (s\<lparr>parse_error := err, last_good := ps\<rparr>) = (pr, s1)"
    by fastforce
  then show ?thesis using assms that [of s1] by (auto simp: due_pulses_def split: option.splits)
qed

lemma due_pulses_unloaded:
  assumes "due_pulses fits resolve now file s = Some (due, saved, s')"
    and "load_heartbeat file (parse_error s) (last_good s) = (None, err, problems)"
  shows "due = []" "s' = s\<lparr>parse_error := err\<rparr>"
  using assms by (auto simp: due_pulses_def)

lemma load_distinct:
  assumes "load_heartbeat f err good = (Some ps, err', problems)" "distinct (map pulse_name good)"
  shows "distinct (map pulse_name ps)"
proof (cases f)
  case (Entries es)
  obtain ps0 p1 where s: "split_entries es = (ps0, p1)" by fastforce
  obtain ps1 p2 where d: "dedupe_from [] ps0 = (ps1, p2)" by fastforce
  obtain ps2 p3 where r: "reject_invalid_pulses ps1 = (ps2, p3)" by fastforce
  have "ps = ps2" using assms(1) Entries s d r by (auto simp: load_heartbeat_def dedupe_pulse_names_def)
  then show ?thesis using dedupe_facts(1) [OF d] reject_facts(1) [OF r] by (simp add: distinct_map_filter)
qed (use assms in \<open>auto simp: load_heartbeat_def\<close>)

lemma tick_fires_exactly:
  assumes "due_pulses fits resolve now f s = Some (due, saved, s')"
    and "load_heartbeat f (parse_error s) (last_good s) = (Some ps, err, problems)"
    and "distinct (map pulse_name (last_good s))"
  shows "due = filter (\<lambda>p. \<exists>d w l. can_run fits resolve p d w \<and> \<not> outside now w \<and>
          hm_get (last_run s) (pulse_name p) = Some l \<and> d \<le> now - l) ps \<and>
    (\<forall>p\<in>set ps. hm_get (last_run s') (pulse_name p) =
       (if p \<in> set due \<or> (\<exists>d w. can_run fits resolve p d w \<and> \<not> outside now w \<and>
           hm_get (last_run s) (pulse_name p) = None)
        then Some now else hm_get (last_run s) (pulse_name p))) \<and>
    (\<forall>k. k \<notin> pulse_name ` set ps \<longrightarrow> hm_get (last_run s') k = None \<and>
       hm_get (last_output s') k = None \<and> hm_get (last_fire s') k = None) \<and>
    last_good s' = ps \<and> distinct (map pulse_name ps)"
proof -
  obtain s1 lr probs seen where s1:
      "s1 = snd (prune_removed_pulses (map pulse_name ps) (s\<lparr>parse_error := err, last_good := ps\<rparr>))"
    and ev: "evaluate fits resolve now (last_run s1) ps = Some (due, lr, probs, seen)"
    and s': "s' = record_heartbeat_problems (problems @ probs) (s1\<lparr>last_run := lr\<rparr>)"
    by (rule due_pulses_loaded [OF assms(1,2)])
  have d: "distinct (map pulse_name ps)" by (rule load_distinct [OF assms(2,3)])
  have get: "hm_get (last_run s1) (pulse_name p) = hm_get (last_run s) (pulse_name p)" if "p \<in> set ps" for p
    using that by (simp add: s1)
  have j: "judge fits resolve now (last_run s1) p = judge fits resolve now (last_run s) p" if "p \<in> set ps" for p
    by (rule judge_cong) (rule get [OF that])
  note ex = evaluate_exact [OF ev d]
  have due: "due = filter (\<lambda>p. judge fits resolve now (last_run s) p = IsDue) ps"
    using ex j by (simp cong: filter_cong)
  moreover have "\<forall>p\<in>set ps. hm_get (last_run s') (pulse_name p) =
      (if p \<in> set due \<or> judge fits resolve now (last_run s) p = FirstSeen then Some now
       else hm_get (last_run s) (pulse_name p))"
    using ex get j by (auto simp: s' due)
  moreover have "hm_get (last_run s') k = None \<and> hm_get (last_output s') k = None \<and> hm_get (last_fire s') k = None"
    if "k \<notin> pulse_name ` set ps" for k
    using evaluate_other [OF ev that] that by (simp add: s' s1)
  moreover have "last_good s' = ps" by (simp add: s' s1)
  ultimately show ?thesis using d unfolding judge_due judge_first by blast
qed

text \<open>C37: A tick fires exactly the loaded pulses that are enabled, readable, inside their hours and
  at least one schedule past their last run; a pulse seen for the first time starts its clock
  instead of running. Pulses that fired or started their clock are recorded at this moment, no
  other run time moves, and nothing is kept about a name that did not load.\<close>

theorem tick_fires_exactly_what_is_due:
  assumes "due_pulses fits resolve now f s = Some (due, saved, s')"
    and "load_heartbeat f (parse_error s) (last_good s) = (Some ps, err, problems)"
    and "distinct (map pulse_name (last_good s))"
  shows "due = filter (\<lambda>p. \<exists>d w l. can_run fits resolve p d w \<and> \<not> outside now w \<and>
          hm_get (last_run s) (pulse_name p) = Some l \<and> d \<le> now - l) ps \<and>
    (\<forall>p\<in>set ps. hm_get (last_run s') (pulse_name p) =
       (if p \<in> set due \<or> (\<exists>d w. can_run fits resolve p d w \<and> \<not> outside now w \<and>
           hm_get (last_run s) (pulse_name p) = None)
        then Some now else hm_get (last_run s) (pulse_name p))) \<and>
    (\<forall>k. k \<notin> pulse_name ` set ps \<longrightarrow> hm_get (last_run s') k = None \<and>
       hm_get (last_output s') k = None \<and> hm_get (last_fire s') k = None) \<and>
    last_good s' = ps \<and> distinct (map pulse_name ps)"
  by (rule tick_fires_exactly [OF assms])

definition half_hourly :: pulse_def where
  "half_hourly = sample_pulse [1]"

lemma half_hourly_facts:
  "loadable half_hourly" "can_run (\<lambda>_. True) resolve half_hourly (dur_minutes 30) None"
  "pulse_name half_hourly = [1]"
proof -
  show "loadable half_hourly"
    by (simp add: half_hourly_def loadable_def sample_pulse_def sample_task_def runnable_task_def
        blank_def trim_def trim_start_def trim_end_def is_whitespace_def)
  have s: "schedule half_hourly = show_nat 30 @ [109]"
    by (simp add: half_hourly_def sample_pulse_def lit_def show_nat.simps)
  have u: "unit_nanos [109] = Some (dur_minutes 1)" by (simp add: unit_nanos_def lit_def)
  have "parse_i64 (show_nat 30) = Some 30" using parse_i64_show [of 30] by simp
  then have "parse_schedule_duration (\<lambda>_. True) (schedule half_hourly) = Parsed (dur_minutes 30)"
    using u unfolding s by (simp add: parse_schedule_duration_def dur_defs)
  then show "can_run (\<lambda>_. True) resolve half_hourly (dur_minutes 30) None"
    by (simp add: can_run_def half_hourly_def sample_pulse_def unusable_model_problem_def active_window_def)
  show "pulse_name half_hourly = [1]" by (simp add: half_hourly_def sample_pulse_def)
qed

lemma load_half_hourly:
  "load_heartbeat (Entries [Inr half_hourly]) err good = (Some [half_hourly], None, ignored_settings_problems [half_hourly])"
  using half_hourly_facts(1) by (simp add: load_heartbeat_def dedupe_pulse_names_def invalid_reason_None [symmetric])

lemma tick_fires_exactly_what_is_due_witness:
  "\<exists>due saved s'. due_pulses (\<lambda>_. True) (\<lambda>_. Inr ()) (dur_hours 2) (Entries [Inr half_hourly])
     (new_scheduler\<lparr>last_run := [([1], dur_hours 1)]\<rparr>) = Some (due, saved, s') \<and> due = [half_hourly] \<and>
     hm_get (last_run (s' :: unit scheduler)) [1] = Some (dur_hours 2)"
proof -
  let ?s = "new_scheduler\<lparr>last_run := [([1], dur_hours 1)]\<rparr> :: unit scheduler"
  note j = judge_can_run [OF half_hourly_facts(2)]
  have "due_pulses (\<lambda>_. True) (\<lambda>_. Inr ()) (dur_hours 2) (Entries [Inr half_hourly]) ?s \<noteq> None"
    using half_hourly_facts(3)
    by (simp add: due_pulses_def load_half_hourly prune_removed_pulses_def new_scheduler_def j outside_def
        hm_get_def hm_retain_def dur_defs)
  then obtain due saved s' where o: "due_pulses (\<lambda>_. True) (\<lambda>_. Inr ()) (dur_hours 2)
      (Entries [Inr half_hourly]) ?s = Some (due, saved, s')" by auto
  have l: "load_heartbeat (Entries [Inr half_hourly]) (parse_error ?s) (last_good ?s)
      = (Some [half_hourly], None, ignored_settings_problems [half_hourly])"
    by (rule load_half_hourly)
  have "can_run (\<lambda>_. True) (\<lambda>_. Inr ()) half_hourly (dur_minutes 30) None \<and> \<not> outside (dur_hours 2) None \<and>
      hm_get (last_run ?s) (pulse_name half_hourly) = Some (dur_hours 1) \<and> dur_minutes 30 \<le> dur_hours 2 - dur_hours 1"
    using half_hourly_facts by (simp add: outside_def new_scheduler_def hm_get_def dur_defs)
  then have "due = [half_hourly]" "hm_get (last_run s') (pulse_name half_hourly) = Some (dur_hours 2)"
    using tick_fires_exactly_what_is_due [OF o l] by (auto simp: new_scheduler_def)
  then show ?thesis using o half_hourly_facts(3) by auto
qed

section \<open>Spacing\<close>

text \<open>Fires in order: two of the same name are at least the later one's schedule apart.\<close>

definition apart :: "(int \<Rightarrow> bool) \<Rightarrow> pulse_def \<times> datetime \<Rightarrow> pulse_def \<times> datetime \<Rightarrow> bool" where
  "apart fits a b \<longleftrightarrow> (pulse_name (fst a) = pulse_name (fst b) \<longrightarrow>
     (\<exists>d. parse_schedule_duration fits (schedule (fst b)) = Parsed d \<and> snd a + d \<le> snd b))"

definition kept_apart :: "(int \<Rightarrow> bool) \<Rightarrow> (pulse_def \<times> datetime) list \<Rightarrow> (ustring, datetime) hmap \<Rightarrow> datetime \<Rightarrow> bool" where
  "kept_apart fits fired lr now \<longleftrightarrow> sorted_wrt (apart fits) fired \<and>
     (\<forall>(p, t)\<in>set fired. t \<le> now \<and> (\<forall>l. hm_get lr (pulse_name p) = Some l \<longrightarrow> t \<le> l))"

lemma kept_apart_insert: "kept_apart fits fired lr now \<Longrightarrow> kept_apart fits fired (hm_insert k now lr) now"
  by (auto simp: kept_apart_def split: if_splits)

lemma kept_apart_later: "kept_apart fits fired lr now \<Longrightarrow> now \<le> now' \<Longrightarrow> kept_apart fits fired lr now'"
  by (force simp: kept_apart_def)

lemma kept_apart_fewer:
  "kept_apart fits fired lr now \<Longrightarrow> (\<And>k l. hm_get lr' k = Some l \<Longrightarrow> hm_get lr k = Some l) \<Longrightarrow>
     kept_apart fits fired lr' now"
  by (force simp: kept_apart_def)

lemma kept_apart_fire:
  assumes "kept_apart fits fired lr now" "hm_get lr (pulse_name p) = Some l"
    "parse_schedule_duration fits (schedule p) = Parsed d" "d \<le> now - l"
  shows "kept_apart fits (fired @ [(p, now)]) (hm_insert (pulse_name p) now lr) now"
proof -
  have "apart fits x (p, now)" if "x \<in> set fired" for x
    using assms that by (cases x) (force simp: kept_apart_def apart_def)
  then show ?thesis using assms(1) by (auto simp: kept_apart_def sorted_wrt_append split: if_splits)
qed

lemma evaluate_kept_apart:
  "evaluate fits resolve now lr ps = Some (due, lr', probs, seen) \<Longrightarrow> kept_apart fits fired lr now \<Longrightarrow>
     kept_apart fits (fired @ map (\<lambda>p. (p, now)) due) lr' now"
proof (induction ps arbitrary: lr due probs seen fired)
  case Nil
  then show ?case by simp
next
  case (Cons p ps)
  from Cons.prems(1) show ?case
  proof (cases rule: evaluate_Cons_cases)
    case (skip q rest)
    then show ?thesis using Cons by blast
  next
    case (first sn)
    then show ?thesis using Cons kept_apart_insert by blast
  next
    case soon
    then show ?thesis using Cons by blast
  next
    case (due rest)
    obtain d w l where c: "can_run fits resolve p d w" "hm_get lr (pulse_name p) = Some l" "d \<le> now - l"
      using due(1) judge_due by blast
    have "kept_apart fits (fired @ [(p, now)]) (hm_insert (pulse_name p) now lr) now"
      by (rule kept_apart_fire [OF Cons.prems(2) c(2) _ c(3)]) (use c(1) in \<open>simp add: can_run_def\<close>)
    from Cons.IH [OF due(3) this] due(2) show ?thesis by simp
  qed
qed

fun tick_time :: "datetime \<Rightarrow> 'o pulse_op \<Rightarrow> datetime" where
  "tick_time clock (Tick now f r) = now"
| "tick_time clock _ = clock"

fun ticks_in_order :: "datetime \<Rightarrow> 'o pulse_op list \<Rightarrow> bool" where
  "ticks_in_order clock [] = True"
| "ticks_in_order clock (op # ops) \<longleftrightarrow> clock \<le> tick_time clock op \<and> ticks_in_order (tick_time clock op) ops"

definition runs_of :: "'o scheduler option \<Rightarrow> (ustring, datetime) hmap" where
  "runs_of v = (case v of Some s \<Rightarrow> last_run s | None \<Rightarrow> [])"

lemma pulse_step_apart:
  assumes "kept_apart fits fired (runs_of v) clock" "clock \<le> tick_time clock op"
  shows "kept_apart fits (fired @ snd (pulse_step fits v op)) (runs_of (fst (pulse_step fits v op))) (tick_time clock op)"
proof (cases v)
  case None
  then show ?thesis using kept_apart_later [OF assms] by simp
next
  case (Some s)
  show ?thesis
  proof (cases op)
    case (Tick now f r)
    have later: "kept_apart fits fired (last_run s) now"
      using kept_apart_later [OF assms] Some Tick by (simp add: runs_of_def)
    show ?thesis
    proof (cases "due_pulses fits r now f s")
      case None
      then show ?thesis using later Some Tick
        by (auto simp: runs_of_def intro: kept_apart_fewer)
    next
      case (Some res)
      then obtain due saved s' where o: "due_pulses fits r now f s = Some (due, saved, s')"
        by (cases res) auto
      have "kept_apart fits (fired @ map (\<lambda>p. (p, now)) due) (last_run s') now"
      proof (cases "fst (load_heartbeat f (parse_error s) (last_good s))")
        case None
        then obtain err problems where
          "load_heartbeat f (parse_error s) (last_good s) = (None, err, problems)"
          by (metis prod.collapse)
        from due_pulses_unloaded [OF o this] later show ?thesis by simp
      next
        case (Some ps)
        then obtain err problems where
          l: "load_heartbeat f (parse_error s) (last_good s) = (Some ps, err, problems)"
          by (metis prod.collapse)
        obtain s1 lr probs seen where s1:
            "s1 = snd (prune_removed_pulses (map pulse_name ps) (s\<lparr>parse_error := err, last_good := ps\<rparr>))"
          and ev: "evaluate fits r now (last_run s1) ps = Some (due, lr, probs, seen)"
          and s': "s' = record_heartbeat_problems (problems @ probs) (s1\<lparr>last_run := lr\<rparr>)"
          by (rule due_pulses_loaded [OF o l])
        have "kept_apart fits fired (last_run s1) now"
          by (rule kept_apart_fewer [OF later]) (auto simp: s1 split: if_splits)
        from evaluate_kept_apart [OF ev this] show ?thesis by (simp add: s')
      qed
      then show ?thesis using o \<open>v = Some s\<close> Tick by (simp add: runs_of_def)
    qed
  qed (use assms Some in \<open>auto simp: runs_of_def record_pulse_output_def record_fire_outcome_def
      take_problem_notice_def\<close>)
qed

lemma pulse_run_apart:
  "kept_apart fits fired (runs_of v) clock \<Longrightarrow> ticks_in_order clock ops \<Longrightarrow>
     sorted_wrt (apart fits) (fired @ concat (snd (run_machine (pulse_step fits) v ops)))"
proof (induction ops arbitrary: fired v clock)
  case Nil
  then show ?case by (simp add: kept_apart_def)
next
  case (Cons op ops)
  have "kept_apart fits (fired @ snd (pulse_step fits v op)) (runs_of (fst (pulse_step fits v op))) (tick_time clock op)"
    by (rule pulse_step_apart [OF Cons.prems(1)]) (use Cons.prems(2) in simp)
  from Cons.IH [OF this] Cons.prems(2) show ?case
    by (simp add: run_machine_Cons split: prod.splits)
qed

text \<open>However the file, the model catalog and the pulses' results change between ticks, and
  whatever was saved before, two fires of a pulse are never closer together than the schedule in
  force at the second one.\<close>

theorem pulse_fires_are_spaced:
  assumes "ticks_in_order clock ops"
    and "concat (snd (run_machine (pulse_step fits) (Some s) ops)) = before @ (p, t) # between @ (q, u) # after"
    and "pulse_name p = pulse_name q"
  shows "\<exists>d. parse_schedule_duration fits (schedule q) = Parsed d \<and> t + d \<le> u \<and> t < u"
proof -
  have "kept_apart fits [] (runs_of (Some s)) clock" by (simp add: kept_apart_def)
  from pulse_run_apart [OF this assms(1)]
  have "apart fits (p, t) (q, u)" by (simp add: assms(2) sorted_wrt_append)
  then obtain d where d: "parse_schedule_duration fits (schedule q) = Parsed d" "t + d \<le> u"
    using assms(3) by (auto simp: apart_def)
  moreover have "0 < d" using parse_schedule_pos [OF d(1)] by (simp add: dur_defs)
  ultimately show ?thesis by auto
qed

lemma tick_half_hourly:
  assumes "hm_get (last_run s) [1] = Some l" "dur_minutes 30 \<le> now - l"
  shows "\<exists>s'. pulse_step (\<lambda>_. True) (Some s) (Tick now (Entries [Inr half_hourly]) (\<lambda>_. Inr ()))
      = (Some s', [(half_hourly, now)]) \<and> hm_get (last_run s') [1] = Some now"
proof -
  let ?s1 = "snd (prune_removed_pulses [[1]] (s\<lparr>parse_error := None, last_good := [half_hourly]\<rparr>))"
  have "judge (\<lambda>_. True) (\<lambda>_. Inr ()) now (last_run ?s1) half_hourly = IsDue"
    using assms judge_can_run [OF half_hourly_facts(2)] half_hourly_facts(3) by (simp add: outside_def)
  then show ?thesis using half_hourly_facts(3)
    by (auto simp: due_pulses_def load_half_hourly split: prod.splits)
qed

lemma pulse_fires_are_spaced_witness:
  "\<exists>d. parse_schedule_duration (\<lambda>_. True) (schedule half_hourly) = Parsed d \<and> dur_hours 1 + d \<le> dur_hours 2"
proof -
  let ?s = "new_scheduler\<lparr>last_run := [([1], 0)]\<rparr> :: unit scheduler"
  let ?t = "\<lambda>n. Tick (dur_hours n) (Entries [Inr half_hourly]) (\<lambda>_. Inr ()) :: unit pulse_op"
  have "hm_get (last_run ?s) [1] = Some 0" by (simp add: hm_get_def)
  then obtain s1 where s1: "pulse_step (\<lambda>_. True) (Some ?s) (?t 1) = (Some s1, [(half_hourly, dur_hours 1)])"
    "hm_get (last_run s1) [1] = Some (dur_hours 1)"
    using tick_half_hourly [of ?s 0 "dur_hours 1"] by (auto simp: dur_defs)
  then obtain s2 where s2: "pulse_step (\<lambda>_. True) (Some s1) (?t 2) = (Some s2, [(half_hourly, dur_hours 2)])"
    using tick_half_hourly [OF s1(2), of "dur_hours 2"] by (auto simp: dur_defs)
  have "concat (snd (run_machine (pulse_step (\<lambda>_. True)) (Some ?s) [?t 1, ?t 2]))
      = [] @ (half_hourly, dur_hours 1) # [] @ (half_hourly, dur_hours 2) # []"
    by (simp add: s1 s2 del: pulse_step.simps One_nat_def)
  from pulse_fires_are_spaced [OF _ this, of 0] show ?thesis by (auto simp: dur_defs)
qed

section \<open>Notices\<close>

lemma load_again:
  assumes "load_heartbeat f err good = (Some ps, err1, problems)"
  shows "load_heartbeat f err' ps = (Some ps, err1, problems)"
  using assms by (cases f) (auto simp: load_heartbeat_def Let_def split: prod.splits)

text \<open>A file that stays broken is reported once: after a tick, another tick that finds the same
  file and the same models, at whatever time, queues no notice; and a tick queues one only when
  the problems it records are new and there are any.\<close>

theorem unchanged_file_notifies_once:
  assumes "due_pulses fits resolve t1 f s = Some (due1, saved1, s1)"
    and "due_pulses fits resolve t2 f (snd (take_problem_notice s1)) = Some (due2, saved2, s2)"
  shows "pending_notice s2 = None \<and> last_problems s2 = last_problems s1 \<and>
    (pending_notice s = None \<and> pending_notice s1 = Some m \<longrightarrow>
       last_problems s1 \<noteq> last_problems s \<and> last_problems s1 \<noteq> [] \<and>
       m = heartbeat_problems_notice (last_problems s1))"
proof -
  let ?t = "snd (take_problem_notice s1)"
  have t: "parse_error ?t = parse_error s1" "last_good ?t = last_good s1" "pending_notice ?t = None"
    "last_problems ?t = last_problems s1"
    by (simp_all add: take_problem_notice_def)
  show ?thesis
  proof (cases "fst (load_heartbeat f (parse_error s) (last_good s))")
    case None
    then obtain err problems where l: "load_heartbeat f (parse_error s) (last_good s) = (None, err, problems)"
      by (metis prod.collapse)
    have "\<exists>e ps. load_heartbeat f (parse_error ?t) (last_good ?t) = (None, e, ps)"
      using l by (cases f) (auto simp: load_heartbeat_def Let_def split: prod.splits)
    then obtain e ps where l2: "load_heartbeat f (parse_error ?t) (last_good ?t) = (None, e, ps)" by blast
    show ?thesis
      using due_pulses_unloaded [OF assms(1) l] due_pulses_unloaded [OF assms(2) l2] t by auto
  next
    case (Some ps)
    then obtain err problems where
      l: "load_heartbeat f (parse_error s) (last_good s) = (Some ps, err, problems)"
      by (metis prod.collapse)
    obtain r1 lr1 probs1 seen1 where r1:
        "r1 = snd (prune_removed_pulses (map pulse_name ps) (s\<lparr>parse_error := err, last_good := ps\<rparr>))"
      and e1: "evaluate fits resolve t1 (last_run r1) ps = Some (due1, lr1, probs1, seen1)"
      and s1: "s1 = record_heartbeat_problems (problems @ probs1) (r1\<lparr>last_run := lr1\<rparr>)"
      by (rule due_pulses_loaded [OF assms(1) l])
    have l2: "load_heartbeat f (parse_error ?t) (last_good ?t) = (Some ps, err, problems)"
      using load_again [OF l] t by (simp add: s1 r1)
    obtain r2 lr2 probs2 seen2 where r2:
        "r2 = snd (prune_removed_pulses (map pulse_name ps) (?t\<lparr>parse_error := err, last_good := ps\<rparr>))"
      and e2: "evaluate fits resolve t2 (last_run r2) ps = Some (due2, lr2, probs2, seen2)"
      and s2: "s2 = record_heartbeat_problems (problems @ probs2) (r2\<lparr>last_run := lr2\<rparr>)"
      by (rule due_pulses_loaded [OF assms(2) l2])
    have same: "probs2 = probs1" using evaluate_problems [OF e1] evaluate_problems [OF e2] by simp
    have r2_old: "last_problems r2 = last_problems s1" "pending_notice r2 = None"
      using t by (simp_all add: r2)
    have "last_problems s1 = sort_problems (problems @ probs1)" by (simp add: s1)
    then have "s2 = r2\<lparr>last_run := lr2\<rparr>"
      using r2_old(1) by (simp add: s2 same record_heartbeat_problems_def Let_def)
    moreover have "last_problems r1 = last_problems s" "pending_notice r1 = pending_notice s"
      by (simp_all add: r1)
    ultimately show ?thesis using r2_old
      by (auto simp: s1 record_heartbeat_problems_def Let_def split: if_splits)
  qed
qed

lemma unchanged_file_notifies_once_witness:
  "\<exists>s1 s2 :: unit scheduler. \<exists>v1 v2. due_pulses (\<lambda>_. True) (\<lambda>_. Inr ()) 0 (SyntaxError [7]) new_scheduler = Some ([], v1, s1) \<and>
     pending_notice s1 \<noteq> None \<and>
     due_pulses (\<lambda>_. True) (\<lambda>_. Inr ()) 9 (SyntaxError [7]) (snd (take_problem_notice s1)) = Some ([], v2, s2) \<and>
     pending_notice s2 = None"
proof -
  have one: "\<exists>v s'. due_pulses (\<lambda>_. True) (\<lambda>_. Inr ()) now (SyntaxError [7]) s = Some ([], v, s') \<and>
      (pending_notice s' \<noteq> None \<or> last_problems s = [syntax_problem [7]])"
    if "last_good s = []" for now and s :: "unit scheduler"
    using that by (auto simp: due_pulses_def load_heartbeat_def record_heartbeat_problems_def Let_def
        sort_problems_def prune_removed_pulses_def)
  obtain v1 and s1 :: "unit scheduler" where a:
    "due_pulses (\<lambda>_. True) (\<lambda>_. Inr ()) 0 (SyntaxError [7]) new_scheduler = Some ([], v1, s1)" "pending_notice s1 \<noteq> None"
    using one [of new_scheduler 0] by (auto simp: new_scheduler_def)
  have "load_heartbeat (SyntaxError [7]) (parse_error new_scheduler) (last_good (new_scheduler :: unit scheduler))
      = (Some [], Some [7], [syntax_problem [7]])"
    by (simp add: load_heartbeat_def new_scheduler_def)
  from due_pulses_loaded [OF a(1) this] have "last_good s1 = []"
    by (metis prune_simps(4) record_problems_simps(4) scheduler.select_convs(8) scheduler.surjective
        scheduler.update_convs(1) scheduler.update_convs(5) scheduler.update_convs(8))
  then have "last_good (snd (take_problem_notice s1)) = []" by (simp add: take_problem_notice_def)
  from one [OF this, of 9] obtain v2 s2 where b: "due_pulses (\<lambda>_. True) (\<lambda>_. Inr ()) 9 (SyntaxError [7]) (snd (take_problem_notice s1))
      = Some ([], v2, s2)" by blast
  show ?thesis using a b unchanged_file_notifies_once [OF a(1) b] by blast
qed

section \<open>Pruning\<close>

text \<open>What is remembered of a pulse is dropped as soon as it does not load, which includes a
  pulse that is still in the file but rejected: once it is put right its clock starts again, so
  it does not run at the next tick however long ago it ran.\<close>

theorem rejected_pulse_starts_over:
  assumes "due_pulses fits resolve t1 f s = Some (due1, saved1, s1)"
    and "load_heartbeat f (parse_error s) (last_good s) = (Some ps, err, problems)"
    and "distinct (map pulse_name (last_good s))" "n \<notin> pulse_name ` set ps"
    and "due_pulses fits resolve t2 g s1 = Some (due2, saved2, s2)"
  shows "n \<notin> pulse_name ` set due2"
proof -
  note tick = tick_fires_exactly [OF assms(1-3)]
  have gone: "hm_get (last_run s1) n = None" using tick assms(4) by blast
  have d: "distinct (map pulse_name (last_good s1))" using tick by blast
  show ?thesis
  proof (cases "fst (load_heartbeat g (parse_error s1) (last_good s1))")
    case None
    then obtain e q where "load_heartbeat g (parse_error s1) (last_good s1) = (None, e, q)"
      by (metis prod.collapse)
    from due_pulses_unloaded(1) [OF assms(5) this] show ?thesis by simp
  next
    case (Some qs)
    then obtain e q where l: "load_heartbeat g (parse_error s1) (last_good s1) = (Some qs, e, q)"
      by (metis prod.collapse)
    have "due2 = filter (\<lambda>p. \<exists>d w l. can_run fits resolve p d w \<and> \<not> outside t2 w \<and>
          hm_get (last_run s1) (pulse_name p) = Some l \<and> d \<le> t2 - l) qs"
      using tick_fires_exactly [OF assms(5) l d] by blast
    then show ?thesis using gone by auto
  qed
qed

lemma rejected_pulse_starts_over_witness:
  "\<exists>(s1 :: unit scheduler) due v s2.
     fst (pulse_step (\<lambda>_. True) (Some (new_scheduler\<lparr>last_run := [([1], 0)]\<rparr>))
       (Tick (dur_hours 1) (Entries [Inr (half_hourly\<lparr>include_identity := Some True\<rparr>)]) (\<lambda>_. Inr ()))) = Some s1 \<and>
     due_pulses (\<lambda>_. True) (\<lambda>_. Inr ()) (dur_hours 2) (Entries [Inr half_hourly]) s1 = Some (due, v, s2) \<and>
     half_hourly \<notin> set due"
proof -
  let ?s = "new_scheduler\<lparr>last_run := [([1], 0)]\<rparr> :: unit scheduler"
  let ?f = "Entries [Inr (half_hourly\<lparr>include_identity := Some True\<rparr>)]"
  have bad: "invalid_reason (half_hourly\<lparr>include_identity := Some True\<rparr>) \<noteq> None"
    by (simp add: invalid_reason_None loadable_def)
  have l: "\<exists>q. load_heartbeat ?f (parse_error ?s) (last_good ?s) = (Some [], None, q)"
    using bad by (auto simp: load_heartbeat_def dedupe_pulse_names_def)
  then obtain q where l: "load_heartbeat ?f (parse_error ?s) (last_good ?s) = (Some [], None, q)" by blast
  have "\<exists>v1 s1. due_pulses (\<lambda>_. True) (\<lambda>_. Inr ()) (dur_hours 1) ?f ?s = Some ([], v1, s1)"
    unfolding due_pulses_def l by (simp split: prod.splits)
  then obtain v1 s1 where a: "due_pulses (\<lambda>_. True) (\<lambda>_. Inr ()) (dur_hours 1) ?f ?s = Some ([], v1, s1)"
    by blast
  have "due_pulses (\<lambda>_. True) (\<lambda>_. Inr ()) (dur_hours 2) (Entries [Inr half_hourly]) s1 \<noteq> None"
    by (simp add: due_pulses_def load_half_hourly judge_can_run [OF half_hourly_facts(2)] outside_def
        split: prod.splits option.splits)
  then obtain due v s2 where
    b: "due_pulses (\<lambda>_. True) (\<lambda>_. Inr ()) (dur_hours 2) (Entries [Inr half_hourly]) s1 = Some (due, v, s2)"
    by auto
  have "[1] \<notin> pulse_name ` set due"
    by (rule rejected_pulse_starts_over [OF a l _ _ b]) (simp_all add: new_scheduler_def)
  then have "half_hourly \<notin> set due" using half_hourly_facts(3) by force
  then show ?thesis using a b by auto
qed

section \<open>The prediction agrees with the scheduler\<close>

lemma day_split: "t = t - time_of_day t + time_of_day t" "(t - time_of_day t) mod day_nanos = 0"
  by (simp_all add: time_of_day_def mod_diff_eq [symmetric])

lemma time_of_day_same:
  assumes "b mod day_nanos = 0" "b \<le> n" "n < b + day_nanos"
  shows "time_of_day n = n - b"
proof -
  obtain k where k: "b = day_nanos * k" using assms(1) by (auto simp: mod_eq_0_iff_dvd dvd_def)
  have "n mod day_nanos = ((n - b) + day_nanos * k) mod day_nanos" by (simp add: k)
  also have "\<dots> = (n - b) mod day_nanos" by (rule mod_mult_self2)
  also have "\<dots> = n - b" using assms(2,3) by (intro mod_pos_pos_trivial) simp_all
  finally show ?thesis by (simp add: time_of_day_def)
qed

lemma next_active_moment_first:
  assumes "next_active_moment in_range at a b = At m" "0 \<le> a" "a < day_nanos" "0 \<le> b" "b < day_nanos"
  shows "at \<le> m" "is_within_active_hours m a b" "\<And>n. at \<le> n \<Longrightarrow> n < m \<Longrightarrow> \<not> is_within_active_hours n a b"
proof -
  let ?d = "at - time_of_day at"
  have d0: "?d mod day_nanos = 0" by (rule day_split)
  have tod: "0 \<le> time_of_day at" "time_of_day at < day_nanos" using time_of_day_range by blast+
  have ne: "a \<noteq> b" using assms(1) by (auto simp: next_active_moment_def)
  have "at \<le> m \<and> is_within_active_hours m a b \<and> (\<forall>n. at \<le> n \<and> n < m \<longrightarrow> \<not> is_within_active_hours n a b)"
  proof (cases "is_within_active_hours at a b")
    case True
    then have "m = at" using assms(1) ne by (simp add: next_active_moment_def)
    with True show ?thesis by auto
  next
    case out: False
    show ?thesis
    proof (cases "at < ?d + a")
      case True
      then have m: "m = ?d + a" using assms(1) ne out by (auto simp: next_active_moment_def Let_def)
      have tm: "time_of_day m = a" using time_of_day_same [OF d0, of m] m assms(2,3) by simp
      have before: "time_of_day n = n - ?d" if "at \<le> n" "n < m" for n
        by (rule time_of_day_same [OF d0]) (use that tod assms(3) m in linarith)+
      have "\<not> is_within_active_hours n a b" if n: "at \<le> n" "n < m" for n
        using out before [OF n] n m True by (auto simp: is_within_active_hours_def Let_def split: if_splits)
      then show ?thesis using m True ne tm by (auto simp: is_within_active_hours_def Let_def)
    next
      case False
      then have m: "m = ?d + a + day_nanos"
        using assms(1) ne out by (auto simp: next_active_moment_def Let_def split: if_splits)
      have d1: "(?d + day_nanos) mod day_nanos = 0" using d0 by simp
      have tm: "time_of_day m = a" using time_of_day_same [OF d1, of m] m assms(2,3) by simp
      have ab: "a < b" "b \<le> time_of_day at"
        using out False ne by (auto simp: is_within_active_hours_def Let_def split: if_splits)
      have "\<not> is_within_active_hours n a b" if n: "at \<le> n" "n < m" for n
      proof (cases "n < ?d + day_nanos")
        case True
        then have "time_of_day n = n - ?d"
          by (intro time_of_day_same [OF d0]) (use n tod in linarith)+
        then show ?thesis using ab n by (simp add: is_within_active_hours_def)
      next
        case False
        then have "time_of_day n = n - (?d + day_nanos)"
          by (intro time_of_day_same [OF d1]) (use n m assms(3) in linarith)+
        then show ?thesis using ab n m False by (simp add: is_within_active_hours_def)
      qed
      then show ?thesis using m tod(2) assms(2) ab tm by (auto simp: is_within_active_hours_def)
    qed
  qed
  then show "at \<le> m" "is_within_active_hours m a b"
    "\<And>n. at \<le> n \<Longrightarrow> n < m \<Longrightarrow> \<not> is_within_active_hours n a b" by blast+
qed

lemma active_window_range: "active_window p = Inr (Some (a, b)) \<Longrightarrow> 0 \<le> a \<and> a < day_nanos \<and> 0 \<le> b \<and> b < day_nanos"
  by (auto simp: active_window_def split: option.splits sum.splits dest: parse_active_hours_range)

lemma in_window_first:
  assumes "in_window in_range w t = At m" "active_window p = Inr w"
  shows "t \<le> m" "\<not> outside m w" "\<And>n. t \<le> n \<Longrightarrow> n < m \<Longrightarrow> outside n w"
proof -
  have "t \<le> m \<and> \<not> outside m w \<and> (\<forall>n. t \<le> n \<longrightarrow> n < m \<longrightarrow> outside n w)"
  proof (cases w)
    case None
    then show ?thesis using assms(1) by (simp add: in_window_def outside_def)
  next
    case (Some ab)
    then obtain a b where w: "w = Some (a, b)" by (cases ab) auto
    have r: "0 \<le> a" "a < day_nanos" "0 \<le> b" "b < day_nanos"
      using active_window_range assms(2) w by blast+
    have "next_active_moment in_range t a b = At m" using assms(1) w by (simp add: in_window_def)
    from next_active_moment_first [OF this r] w show ?thesis by (auto simp: outside_def)
  qed
  then show "t \<le> m" "\<not> outside m w" "\<And>n. t \<le> n \<Longrightarrow> n < m \<Longrightarrow> outside n w" by blast+
qed

lemma day_pos: "0 < day_nanos"
  by (simp add: day_nanos_def dur_defs)

lemma in_window_total:
  assumes "active_window p = Inr w" "\<And>a. w \<noteq> Some (a, a)"
    and "\<forall>x. lo \<le> x \<and> x \<le> hi \<longrightarrow> in_range x" "lo \<le> t" "t + 2 * day_nanos \<le> hi"
  shows "\<exists>m. in_window in_range w t = At m \<and> t \<le> m \<and> m \<le> t + 2 * day_nanos"
proof (cases w)
  case None
  then show ?thesis using day_pos by (simp add: in_window_def)
next
  case (Some ab)
  then obtain a b where w: "w = Some (a, b)" "a \<noteq> b" using assms(2) by (cases ab) auto
  have r: "0 \<le> a" "a < day_nanos" using active_window_range assms(1) w by blast+
  have tod: "0 \<le> time_of_day t" "time_of_day t < day_nanos" using time_of_day_range by blast+
  have "in_range (t - time_of_day t + a + day_nanos)" if "\<not> t < t - time_of_day t + a"
    using that r tod assms(3-5) by simp
  then show ?thesis using w r tod
    by (auto simp: in_window_def next_active_moment_def Let_def)
qed

text \<open>From its last run (or from the moment it is first seen), the first moment it is due.\<close>

definition first_due_at ::
    "(int \<Rightarrow> bool) \<Rightarrow> resolver \<Rightarrow> pulse_def \<Rightarrow> datetime \<Rightarrow> datetime \<Rightarrow> datetime \<Rightarrow> bool" where
  "first_due_at fits resolve p l from_time at \<longleftrightarrow> from_time \<le> at \<and>
     judge fits resolve at [(pulse_name p, l)] p = IsDue \<and>
     (\<forall>n. from_time \<le> n \<longrightarrow> n < at \<longrightarrow> judge fits resolve n [(pulse_name p, l)] p \<noteq> IsDue)"

lemma first_due_intro:
  assumes "can_run fits resolve p d w" "in_window in_range w (max (l + d) t) = At m"
  shows "first_due_at fits resolve p l t m"
proof -
  have win: "active_window p = Inr w" using assms(1) by (simp add: can_run_def)
  note f = in_window_first [OF assms(2) win]
  have "judge fits resolve m [(pulse_name p, l)] p = IsDue"
    using f(1,2) judge_can_run [OF assms(1)] by (simp add: hm_get_def)
  moreover have "judge fits resolve n [(pulse_name p, l)] p \<noteq> IsDue" if n: "t \<le> n" "n < m" for n
  proof (cases "l + d \<le> n")
    case True
    then have "outside n w" using f(3) n by simp
    then show ?thesis using judge_can_run [OF assms(1)] by simp
  next
    case False
    then show ?thesis using judge_can_run [OF assms(1)] by (simp add: hm_get_def)
  qed
  ultimately show ?thesis using f(1) by (auto simp: first_due_at_def)
qed

lemma next_run_at_cases:
  assumes "next_run_at fits in_range trunc tz p prior now = At i" "unusable_model_problem resolve p = None"
  obtains d w m at where "can_run fits resolve p d w" "trunc now = Some m"
    "next_local_run in_range d w prior (m + offset_at tz m) = At at"
    "i = (if at \<le> m + offset_at tz m then m else local_to_instant in_range tz at)"
proof -
  have en: "enabled p" using assms(1) by (auto simp: next_run_at_def split: if_splits)
  obtain d where d: "parse_schedule_duration fits (schedule p) = Parsed d"
    using assms(1) en by (auto simp: next_run_at_def split: parsed.splits)
  obtain w where w: "active_window p = Inr w"
    using assms(1) en d by (auto simp: next_run_at_def split: sum.splits)
  obtain m where m: "trunc now = Some m"
    using assms(1) en d w by (auto simp: next_run_at_def split: option.splits)
  obtain at where at: "next_local_run in_range d w prior (m + offset_at tz m) = At at"
    using assms(1) en d w m
    by (cases "next_local_run in_range d w prior (m + offset_at tz m)") (auto simp: next_run_at_def Let_def)
  show ?thesis
  proof (rule that)
    show "can_run fits resolve p d w" using en d w assms(2) by (simp add: can_run_def)
    show "i = (if at \<le> m + offset_at tz m then m else local_to_instant in_range tz at)"
      using assms(1) en d w m at by (auto simp: next_run_at_def Let_def split: if_splits)
  qed (use m at in auto)
qed



definition spans :: "datetime option \<Rightarrow> datetime \<Rightarrow> int \<Rightarrow> datetime \<Rightarrow> datetime \<Rightarrow> bool" where
  "spans prior t d lo hi \<longleftrightarrow> lo \<le> t \<and> t + d + 4 * day_nanos \<le> hi \<and>
     (case prior of Some l \<Rightarrow> lo \<le> l + d \<and> l + d + 2 * day_nanos \<le> hi | None \<Rightarrow> True)"

definition never_runs :: "(int \<Rightarrow> bool) \<Rightarrow> pulse_def \<Rightarrow> bool" where
  "never_runs fits p \<longleftrightarrow> \<not> enabled p \<or> (\<exists>e. parse_schedule_duration fits (schedule p) = Malformed_text e) \<or>
     (\<exists>q. active_window p = Inl q) \<or> (\<exists>a. active_window p = Inr (Some (a, a)))"

text \<open>No next run is predicted for a pulse that can never run, and such a pulse is never due:
  it is disabled, its schedule or hours cannot be read, or its hours never open. For any other
  pulse a time is predicted unless chrono cannot represent it. The sum that ends the schedule is
  not checked, so a schedule chrono can represent makes the prediction panic when it leads past
  the last date.\<close>

theorem no_prediction_means_never:
  "(never_runs fits p \<longrightarrow> judge fits resolve n lr p \<noteq> IsDue \<and>
      (parse_schedule_duration fits (schedule p) \<noteq> Panics \<and> (\<forall>l. prior = Some l \<longrightarrow> in_range (l + d)) \<and>
         parse_schedule_duration fits (schedule p) \<in> {Parsed d, Malformed_text e} \<longrightarrow>
       next_run_at fits in_range trunc tz p prior now = NoRun)) \<and>
   (\<not> never_runs fits p \<and> parse_schedule_duration fits (schedule p) = Parsed d \<and> trunc now = Some m \<and>
      (\<forall>t. lo \<le> t \<and> t \<le> hi \<longrightarrow> in_range t) \<and> spans prior (m + offset_at tz m) d lo hi \<longrightarrow>
      (\<exists>i. next_run_at fits in_range trunc tz p prior now = At i)) \<and>
   (enabled p \<and> parse_schedule_duration fits (schedule p) = Parsed d \<and> active_window p = Inr None \<and>
      trunc now \<noteq> None \<and> \<not> in_range (l + d) \<longrightarrow>
      next_run_at fits in_range trunc tz p (Some l) now = Panicked)"
proof (intro conjI impI)
  assume nr: "never_runs fits p"
  show "judge fits resolve n lr p \<noteq> IsDue"
  proof
    assume "judge fits resolve n lr p = IsDue"
    then obtain d w where c: "can_run fits resolve p d w" "\<not> outside n w" using judge_due by blast
    then have "\<exists>a. w = Some (a, a)" using nr by (auto simp: never_runs_def can_run_def)
    with c(2) show False by (auto simp: outside_def is_within_active_hours_def Let_def)
  qed
  assume h: "parse_schedule_duration fits (schedule p) \<noteq> Panics \<and> (\<forall>l. prior = Some l \<longrightarrow> in_range (l + d)) \<and>
         parse_schedule_duration fits (schedule p) \<in> {Parsed d, Malformed_text e}"
  have empty: "next_local_run in_range d (Some (a, a)) prior t = NoRun" for a t
    using h by (cases prior) (auto simp: next_local_run_def plus_dur_def in_window_def next_active_moment_def)
  show "next_run_at fits in_range trunc tz p prior now = NoRun"
    using nr h empty
    by (auto simp: never_runs_def next_run_at_def Let_def split: option.splits sum.splits)
next
  assume h: "\<not> never_runs fits p \<and> parse_schedule_duration fits (schedule p) = Parsed d \<and> trunc now = Some m \<and>
      (\<forall>t. lo \<le> t \<and> t \<le> hi \<longrightarrow> in_range t) \<and> spans prior (m + offset_at tz m) d lo hi"
  then obtain w where w: "enabled p" "active_window p = Inr w" "\<And>a. w \<noteq> Some (a, a)"
    by (cases "active_window p") (auto simp: never_runs_def)
  have ok: "in_range t" if "lo \<le> t" "t \<le> hi" for t using h that by blast
  have dpos: "0 \<le> d" using parse_schedule_pos [of fits "schedule p" d] h by (simp add: dur_defs)
  have total: "\<exists>s. in_window in_range w t = At s \<and> t \<le> s \<and> s \<le> t + 2 * day_nanos"
    if "lo \<le> t" "t + 2 * day_nanos \<le> hi" for t
    by (rule in_window_total [OF w(2,3) _ that]) (use ok in blast)
  have "\<exists>at. next_local_run in_range d w prior (m + offset_at tz m) = At at"
  proof (cases prior)
    case (Some l)
    have "\<exists>at. in_window in_range w (max (l + d) (m + offset_at tz m)) = At at"
      using total [of "max (l + d) (m + offset_at tz m)"] h Some dpos day_pos
      by (cases "l + d \<le> m + offset_at tz m") (auto simp: spans_def max_def)
    moreover have "in_range (l + d)" using h Some day_pos by (intro ok) (auto simp: spans_def)
    ultimately show ?thesis using Some by (simp add: next_local_run_def plus_dur_def)
  next
    case None
    obtain s where s: "in_window in_range w (m + offset_at tz m) = At s"
      "m + offset_at tz m \<le> s" "s \<le> m + offset_at tz m + 2 * day_nanos"
      using total [of "m + offset_at tz m"] h None dpos day_pos by (auto simp: spans_def)
    have "\<exists>at. in_window in_range w (s + d) = At at"
      using total [of "s + d"] h None s dpos by (auto simp: spans_def)
    moreover have "in_range (s + d)" using h None s dpos day_pos by (intro ok) (auto simp: spans_def)
    ultimately show ?thesis using None s(1) by (simp add: next_local_run_def plus_dur_def)
  qed
  then show "\<exists>i. next_run_at fits in_range trunc tz p prior now = At i"
    using h w(1,2) by (auto simp: next_run_at_def Let_def)
next
  assume "enabled p \<and> parse_schedule_duration fits (schedule p) = Parsed d \<and> active_window p = Inr None \<and>
      trunc now \<noteq> None \<and> \<not> in_range (l + d)"
  then show "next_run_at fits in_range trunc tz p (Some l) now = Panicked"
    by (auto simp: next_run_at_def next_local_run_def plus_dur_def Let_def)
qed

lemma no_prediction_means_never_witness:
  "next_run_at (\<lambda>_. True) (\<lambda>t. t \<le> dur_minutes 20) Some \<lparr>from_local = SingleTime, offset_at = (\<lambda>_. 0)\<rparr>
     half_hourly (Some 0) (dur_minutes 10) = Panicked \<and>
   judge (\<lambda>_. True) (\<lambda>_. Inr ()) 0 [] (half_hourly\<lparr>enabled := False\<rparr>) \<noteq> IsDue"
proof
  have c: "can_run (\<lambda>_. True) (\<lambda>_. Inr ()) half_hourly (dur_minutes 30) None" by (rule half_hourly_facts)
  then show "next_run_at (\<lambda>_. True) (\<lambda>t. t \<le> dur_minutes 20) Some
      \<lparr>from_local = SingleTime, offset_at = (\<lambda>_. 0)\<rparr> half_hourly (Some 0) (dur_minutes 10) = Panicked"
    by (intro no_prediction_means_never [where d = "dur_minutes 30", THEN conjunct2, THEN conjunct2, THEN mp])
      (simp add: can_run_def dur_defs)
  show "judge (\<lambda>_. True) (\<lambda>_. Inr ()) 0 [] (half_hourly\<lparr>enabled := False\<rparr>) \<noteq> IsDue"
    by (intro no_prediction_means_never [THEN conjunct1, THEN mp, THEN conjunct1]) (simp add: never_runs_def)
qed

end
