(* ===== verification/Stream_Decoding.thy ===== *)
theory Stream_Decoding
  imports Rust_Text
begin

text \<open>
  Reading a model's streamed reply (\<open>crates/inference/src/stream.rs\<close> and \<open>reply.rs\<close>): bytes into
  lines and server-sent events, inline \<open><think>\<close> reasoning out of the text, and the sink that can
  be told to start over.

  A body arrives in chunks whose boundaries mean nothing; what each decoder delivers is shown not
  to depend on them. Decoding a line's bytes as UTF-8, with replacement characters, is the
  standard library's \<open>from_utf8_lossy\<close>, here the argument \<open>dec\<close>. The tags of the splitter are
  ASCII, so its byte lengths are character lengths.
\<close>

section \<open>Lines\<close>

record line_buffer =
  lb_pending :: "byte list"
  after_cr :: bool

definition new_line_buffer :: line_buffer where
  "new_line_buffer = \<lparr>lb_pending = [], after_cr = False\<rparr>"

definition push_byte :: "(byte list \<Rightarrow> ustring) \<Rightarrow> byte \<Rightarrow> line_buffer \<Rightarrow> ustring list \<times> line_buffer" where
  "push_byte dec b l =
     (if after_cr l \<and> b = 10 then ([], l\<lparr>after_cr := False\<rparr>)
      else if b = 10 then ([dec (lb_pending l)], l\<lparr>lb_pending := [], after_cr := False\<rparr>)
      else if b = 13 then ([dec (lb_pending l)], l\<lparr>lb_pending := [], after_cr := True\<rparr>)
      else ([], l\<lparr>lb_pending := lb_pending l @ [b], after_cr := False\<rparr>))"

fun push_bytes :: "(byte list \<Rightarrow> ustring) \<Rightarrow> byte list \<Rightarrow> line_buffer \<Rightarrow> ustring list \<times> line_buffer" where
  "push_bytes dec [] l = ([], l)"
| "push_bytes dec (b # bs) l =
     (let (o1, l1) = push_byte dec b l; (o2, l2) = push_bytes dec bs l1 in (o1 @ o2, l2))"

definition finish_line :: "(byte list \<Rightarrow> ustring) \<Rightarrow> line_buffer \<Rightarrow> ustring option \<times> line_buffer" where
  "finish_line dec l =
     (if lb_pending l = [] then (None, l) else (Some (dec (lb_pending l)), l\<lparr>lb_pending := []\<rparr>))"

section \<open>Server-sent events\<close>

record sse_event =
  event_name :: "ustring option"
  event_data :: ustring

record sse_decoder =
  sse_lines :: line_buffer
  sse_name :: "ustring option"
  sse_data :: "ustring list"

definition new_sse_decoder :: sse_decoder where
  "new_sse_decoder = \<lparr>sse_lines = new_line_buffer, sse_name = None, sse_data = []\<rparr>"

definition dispatch :: "sse_decoder \<Rightarrow> sse_event option \<times> sse_decoder" where
  "dispatch d =
     (let n = sse_name d; d = d\<lparr>sse_name := None\<rparr> in
      if sse_data d = [] then (None, d)
      else (Some \<lparr>event_name = n, event_data = concat_with [10] (sse_data d)\<rparr>, d\<lparr>sse_data := []\<rparr>))"

definition accept_line :: "ustring \<Rightarrow> sse_decoder \<Rightarrow> sse_event option \<times> sse_decoder" where
  "accept_line line d =
     (if line = [] then dispatch d
      else if starts_with [58] line then (None, d)
      else
        let (field, value) = (case split_once 58 line of Some fv \<Rightarrow> fv | None \<Rightarrow> (line, []));
            value = (case strip_prefix [32] value of Some v \<Rightarrow> v | None \<Rightarrow> value)
        in (None,
            if field = lit ''event'' then d\<lparr>sse_name := Some value\<rparr>
            else if field = lit ''data'' then d\<lparr>sse_data := sse_data d @ [value]\<rparr>
            else d))"

fun accept_lines :: "ustring list \<Rightarrow> sse_decoder \<Rightarrow> sse_event list \<times> sse_decoder" where
  "accept_lines [] d = ([], d)"
| "accept_lines (l # ls) d =
     (let (e, d1) = accept_line l d; (es, d2) = accept_lines ls d1
      in ((case e of Some x \<Rightarrow> [x] | None \<Rightarrow> []) @ es, d2))"

definition sse_push :: "(byte list \<Rightarrow> ustring) \<Rightarrow> byte list \<Rightarrow> sse_decoder \<Rightarrow> sse_event list \<times> sse_decoder" where
  "sse_push dec bs d =
     (let (ls, l) = push_bytes dec bs (sse_lines d) in accept_lines ls (d\<lparr>sse_lines := l\<rparr>))"

definition sse_finish :: "(byte list \<Rightarrow> ustring) \<Rightarrow> sse_decoder \<Rightarrow> sse_event option \<times> sse_decoder" where
  "sse_finish dec d =
     (let (line, l) = finish_line dec (sse_lines d);
          d = d\<lparr>sse_lines := l\<rparr>;
          (completed, d) = (case line of Some x \<Rightarrow> accept_line x d | None \<Rightarrow> (None, d))
      in case completed of Some e \<Rightarrow> (Some e, d) | None \<Rightarrow> dispatch d)"

text \<open>Reading a body to its end. Its chunks arrive one by one, and reading one may fail; the
  consumer is told of each event and answers whether to keep reading.\<close>

datatype stream_flow = Continue | Done

fun hand_over :: "('a \<Rightarrow> 's \<Rightarrow> ('err + stream_flow) \<times> 's) \<Rightarrow> 'a list \<Rightarrow> 's \<Rightarrow> ('err + stream_flow) \<times> 's" where
  "hand_over on [] s = (Inr Continue, s)"
| "hand_over on (x # xs) s =
     (case on x s of
        (Inl e, s) \<Rightarrow> (Inl e, s)
      | (Inr Done, s) \<Rightarrow> (Inr Done, s)
      | (Inr Continue, s) \<Rightarrow> hand_over on xs s)"

definition hand_over_rest :: "('a \<Rightarrow> 's \<Rightarrow> ('err + stream_flow) \<times> 's) \<Rightarrow> 'a option \<Rightarrow> 's \<Rightarrow> ('err + unit) \<times> 's" where
  "hand_over_rest on x s =
     (case x of
        Some x \<Rightarrow> (case on x s of (Inl e, s) \<Rightarrow> (Inl e, s) | (Inr _, s) \<Rightarrow> (Inr (), s))
      | None \<Rightarrow> (Inr (), s))"

fun sse_body :: "(byte list \<Rightarrow> ustring) \<Rightarrow> (sse_event \<Rightarrow> 's \<Rightarrow> ('err + stream_flow) \<times> 's) \<Rightarrow>
    ('err + byte list) list \<Rightarrow> sse_decoder \<Rightarrow> 's \<Rightarrow> ('err + unit) \<times> 's" where
  "sse_body dec on [] d s = hand_over_rest on (fst (sse_finish dec d)) s"
| "sse_body dec on (Inl e # cs) d s = (Inl e, s)"
| "sse_body dec on (Inr c # cs) d s =
     (let (es, d) = sse_push dec c d in
      case hand_over on es s of
        (Inl e, s) \<Rightarrow> (Inl e, s)
      | (Inr Done, s) \<Rightarrow> (Inr (), s)
      | (Inr Continue, s) \<Rightarrow> sse_body dec on cs d s)"

definition read_sse :: "(byte list \<Rightarrow> ustring) \<Rightarrow> (sse_event \<Rightarrow> 's \<Rightarrow> ('err + stream_flow) \<times> 's) \<Rightarrow>
    ('err + byte list) list \<Rightarrow> 's \<Rightarrow> ('err + unit) \<times> 's" where
  "read_sse dec on body s = sse_body dec on body new_sse_decoder s"

definition blank_line :: "ustring \<Rightarrow> bool" where
  "blank_line l \<longleftrightarrow> trim l = []"

fun ndjson_body :: "(byte list \<Rightarrow> ustring) \<Rightarrow> (ustring \<Rightarrow> 's \<Rightarrow> ('err + stream_flow) \<times> 's) \<Rightarrow>
    ('err + byte list) list \<Rightarrow> line_buffer \<Rightarrow> 's \<Rightarrow> ('err + unit) \<times> 's" where
  "ndjson_body dec on [] l s =
     hand_over_rest on
       (case fst (finish_line dec l) of Some x \<Rightarrow> if blank_line x then None else Some x | None \<Rightarrow> None) s"
| "ndjson_body dec on (Inl e # cs) l s = (Inl e, s)"
| "ndjson_body dec on (Inr c # cs) l s =
     (let (ls, l) = push_bytes dec c l in
      case hand_over on (filter (\<lambda>x. \<not> blank_line x) ls) s of
        (Inl e, s) \<Rightarrow> (Inl e, s)
      | (Inr Done, s) \<Rightarrow> (Inr (), s)
      | (Inr Continue, s) \<Rightarrow> ndjson_body dec on cs l s)"

definition read_ndjson :: "(byte list \<Rightarrow> ustring) \<Rightarrow> (ustring \<Rightarrow> 's \<Rightarrow> ('err + stream_flow) \<times> 's) \<Rightarrow>
    ('err + byte list) list \<Rightarrow> 's \<Rightarrow> ('err + unit) \<times> 's" where
  "read_ndjson dec on body s = ndjson_body dec on body new_line_buffer s"

text \<open>All the lines and events of a body, for a consumer that never stops.\<close>

fun sse_chunks :: "(byte list \<Rightarrow> ustring) \<Rightarrow> byte list list \<Rightarrow> sse_decoder \<Rightarrow> sse_event list" where
  "sse_chunks dec [] d = (case fst (sse_finish dec d) of Some e \<Rightarrow> [e] | None \<Rightarrow> [])"
| "sse_chunks dec (c # cs) d = (let (es, d1) = sse_push dec c d in es @ sse_chunks dec cs d1)"

definition sse_events :: "(byte list \<Rightarrow> ustring) \<Rightarrow> byte list list \<Rightarrow> sse_event list" where
  "sse_events dec cs = sse_chunks dec cs new_sse_decoder"

fun line_chunks :: "(byte list \<Rightarrow> ustring) \<Rightarrow> byte list list \<Rightarrow> line_buffer \<Rightarrow> ustring list" where
  "line_chunks dec [] l = (case fst (finish_line dec l) of Some x \<Rightarrow> [x] | None \<Rightarrow> [])"
| "line_chunks dec (c # cs) l = (let (ls, l1) = push_bytes dec c l in ls @ line_chunks dec cs l1)"

definition settle :: "('err + stream_flow) \<times> 's \<Rightarrow> ('err + unit) \<times> 's" where
  "settle r = (case r of (Inl e, s) \<Rightarrow> (Inl e, s) | (Inr _, s) \<Rightarrow> (Inr (), s))"

lemma hand_over_append:
  "hand_over on (a @ b) s =
     (case hand_over on a s of (Inr Continue, s) \<Rightarrow> hand_over on b s | r \<Rightarrow> r)"
  by (induction a arbitrary: s) (auto split: sum.splits stream_flow.splits prod.splits)

lemma settle_hand_over:
  "settle (hand_over on (xs @ ys) s) =
     (case hand_over on xs s of
        (Inl e, s) \<Rightarrow> (Inl e, s)
      | (Inr Done, s) \<Rightarrow> (Inr (), s)
      | (Inr Continue, s) \<Rightarrow> settle (hand_over on ys s))"
  by (auto simp: hand_over_append settle_def split: sum.splits stream_flow.splits prod.splits)

lemma hand_over_rest_settle:
  "hand_over_rest on x s = settle (hand_over on (case x of Some e \<Rightarrow> [e] | None \<Rightarrow> []) s)"
  by (auto simp: hand_over_rest_def settle_def split: option.splits sum.splits stream_flow.splits prod.splits)

lemma sse_body_settle:
  "sse_body dec on (map Inr cs) d s = settle (hand_over on (sse_chunks dec cs d) s)"
proof (induction cs arbitrary: d s)
  case (Cons c cs)
  obtain es d1 where p: "sse_push dec c d = (es, d1)" by fastforce
  show ?case by (simp add: p settle_hand_over Cons.IH split: prod.splits sum.splits stream_flow.splits)
qed (simp add: hand_over_rest_settle)

lemma ndjson_body_settle:
  "ndjson_body dec on (map Inr cs) l s = settle (hand_over on (filter (\<lambda>x. \<not> blank_line x) (line_chunks dec cs l)) s)"
proof (induction cs arbitrary: l s)
  case Nil
  then show ?case by (cases "fst (finish_line dec l)") (simp_all add: hand_over_rest_settle)
next
  case (Cons c cs)
  obtain ls l1 where p: "push_bytes dec c l = (ls, l1)" by fastforce
  show ?case by (simp add: p settle_hand_over Cons.IH split: prod.splits sum.splits stream_flow.splits)
qed

section \<open>Inline reasoning\<close>

datatype piece = TextPiece ustring | ThinkingPiece ustring

record splitter =
  inside :: bool
  held :: ustring
  emitted_text :: bool
  trim_leading :: bool

definition new_splitter :: splitter where
  "new_splitter = \<lparr>inside = False, held = [], emitted_text = False, trim_leading = False\<rparr>"

definition OPEN_TAG :: ustring where "OPEN_TAG = lit ''<think>''"
definition CLOSE_TAG :: ustring where "CLOSE_TAG = lit ''</think>''"

text \<open>\<open>str::split_once\<close> with a string: around its first occurrence.\<close>

fun split_once_str :: "ustring \<Rightarrow> ustring \<Rightarrow> (ustring \<times> ustring) option" where
  "split_once_str p [] = (if p = [] then Some ([], []) else None)"
| "split_once_str p (x # xs) =
     (if starts_with p (x # xs) then Some ([], drop (length p) (x # xs))
      else map_option (\<lambda>(a, b). (x # a, b)) (split_once_str p xs))"

definition partial_tag_len :: "ustring \<Rightarrow> ustring \<Rightarrow> nat" where
  "partial_tag_len s tag =
     (case find (\<lambda>n. ends_with (take n tag) s) (rev [1..<length tag]) of Some n \<Rightarrow> n | None \<Rightarrow> 0)"

definition emit :: "ustring \<Rightarrow> splitter \<Rightarrow> piece list \<times> splitter" where
  "emit t st =
     (if inside st then (if t = [] then [] else [ThinkingPiece t], st)
      else
        let t1 = (if trim_leading st then trim_start t else t);
            st1 = (if trim_leading st \<and> t1 \<noteq> [] then st\<lparr>trim_leading := False\<rparr> else st)
        in if t1 = [] then ([], st1)
           else ([TextPiece t1], if trim t1 \<noteq> [] then st1\<lparr>emitted_text := True\<rparr> else st1))"

definition tag_of :: "splitter \<Rightarrow> ustring" where
  "tag_of st = (if inside st then CLOSE_TAG else OPEN_TAG)"

lemma split_once_str_Some: "split_once_str p s = Some (a, b) \<Longrightarrow> s = a @ p @ b"
proof (induction s arbitrary: a)
  case Nil
  then show ?case by (auto split: if_splits)
next
  case (Cons x xs)
  show ?case
  proof (cases "starts_with p (x # xs)")
    case True
    then have "p @ drop (length p) (x # xs) = x # xs"
      unfolding starts_with_def by (metis append_take_drop_id)
    then show ?thesis using Cons.prems True by simp
  next
    case False
    then obtain a' where "split_once_str p xs = Some (a', b)" "a = x # a'"
      using Cons.prems by auto
    then show ?thesis using Cons.IH by simp
  qed
qed

lemma emit_keeps: "held (snd (emit t st)) = held st" "inside (snd (emit t st)) = inside st"
  by (auto simp: emit_def Let_def)

function push_loop :: "splitter \<Rightarrow> piece list \<times> splitter" where
  "push_loop st =
     (case split_once_str (tag_of st) (held st) of
        Some (before, after) \<Rightarrow>
          (let (o1, st1) = emit before st;
               st2 = st1\<lparr>held := after,
                 trim_leading := (if inside st1 then \<not> emitted_text st1 else trim_leading st1),
                 inside := \<not> inside st1\<rparr>;
               (o2, st3) = push_loop st2
           in (o1 @ o2, st3))
      | None \<Rightarrow>
          (let n = length (held st) - partial_tag_len (held st) (tag_of st);
               settled = take n (held st); partial = drop n (held st);
               (o1, st1) = emit settled st
           in (o1, st1\<lparr>held := partial\<rparr>)))"
  by pat_completeness auto

termination push_loop
proof (relation "measure (\<lambda>st. length (held st))", goal_cases)
  case (2 st bt before after oq st1 st2)
  then show ?case using split_once_str_Some [of "tag_of st" "held st" before after]
    by (auto simp: tag_of_def OPEN_TAG_def CLOSE_TAG_def)
qed simp

declare push_loop.simps [simp del]

definition splitter_push :: "ustring \<Rightarrow> splitter \<Rightarrow> piece list \<times> splitter" where
  "splitter_push p st = push_loop (st\<lparr>held := held st @ p\<rparr>)"

definition splitter_finish :: "splitter \<Rightarrow> piece list \<times> splitter" where
  "splitter_finish st = emit (held st) (st\<lparr>held := []\<rparr>)"

section \<open>The sink\<close>

datatype stream_delta = TextDelta ustring | ThinkingDelta ustring | Restart

definition tracked_push :: "stream_delta \<Rightarrow> bool \<Rightarrow> stream_delta list \<times> bool" where
  "tracked_push d holds_partial =
     (case d of
        Restart \<Rightarrow> ([d], False)
      | TextDelta t \<Rightarrow> if t = [] then ([], holds_partial) else ([d], True)
      | ThinkingDelta t \<Rightarrow> if t = [] then ([], holds_partial) else ([d], True))"

definition restart_if_needed :: "bool \<Rightarrow> stream_delta list \<times> bool" where
  "restart_if_needed holds_partial = (if holds_partial then ([Restart], False) else ([], False))"

section \<open>Assembling a reply\<close>

datatype reply_part = ReasoningPart ustring | ContentPart ustring

record assembler =
  asm_splitter :: splitter
  asm_content :: ustring
  asm_thinking :: ustring
  asm_pushed :: "stream_delta list" \<comment> \<open>what went to the sink\<close>

definition new_assembler :: assembler where
  "new_assembler = \<lparr>asm_splitter = new_splitter, asm_content = [], asm_thinking = [], asm_pushed = []\<rparr>"

fun take_piece :: "piece \<Rightarrow> assembler \<Rightarrow> assembler" where
  "take_piece (TextPiece t) a = a\<lparr>asm_content := asm_content a @ t, asm_pushed := asm_pushed a @ [TextDelta t]\<rparr>"
| "take_piece (ThinkingPiece t) a = a\<lparr>asm_thinking := asm_thinking a @ t, asm_pushed := asm_pushed a @ [ThinkingDelta t]\<rparr>"

fun add_part :: "reply_part \<Rightarrow> assembler \<Rightarrow> assembler" where
  "add_part (ReasoningPart t) a = take_piece (ThinkingPiece t) a"
| "add_part (ContentPart t) a =
     (let (ps, st) = splitter_push t (asm_splitter a) in fold take_piece ps (a\<lparr>asm_splitter := st\<rparr>))"

text \<open>The text of the reply, its reasoning (none when blank), and what was streamed.\<close>

definition finish_reply :: "assembler \<Rightarrow> ustring \<times> ustring option \<times> stream_delta list" where
  "finish_reply a =
     (let (ps, st) = splitter_finish (asm_splitter a);
          a = fold take_piece ps (a\<lparr>asm_splitter := st\<rparr>);
          t = trim (asm_thinking a)
      in (asm_content a, if t = [] then None else Some t, asm_pushed a))"

definition assemble :: "reply_part list \<Rightarrow> ustring \<times> ustring option \<times> stream_delta list" where
  "assemble parts = finish_reply (fold add_part parts new_assembler)"

section \<open>Lines do not depend on chunks\<close>

lemma push_bytes_append:
  "push_bytes dec (a @ b) l =
     (let (o1, l1) = push_bytes dec a l; (o2, l2) = push_bytes dec b l1 in (o1 @ o2, l2))"
  by (induction a arbitrary: l) (auto simp: Let_def split: prod.splits)

lemma line_chunks_concat: "line_chunks dec cs l = line_chunks dec [concat cs] l"
  by (induction cs arbitrary: l) (auto simp: push_bytes_append Let_def split: prod.splits)

text \<open>The lines of a whole body: a line ends at \<open>\n\<close>, \<open>\r\<close> or \<open>\r\n\<close>.\<close>

fun text_lines :: "byte list \<Rightarrow> byte list \<Rightarrow> byte list list" where
  "text_lines cur [] = (if cur = [] then [] else [cur])"
| "text_lines cur (b # bs) =
     (if b = 10 then cur # text_lines [] bs
      else if b = 13 then
        cur # (case bs of c # rest \<Rightarrow> if c = 10 then text_lines [] rest else text_lines [] bs | [] \<Rightarrow> [])
      else text_lines (cur @ [b]) bs)"

lemma text_lines_after_cr:
  "(case bs of c # rest \<Rightarrow> if c = 10 then text_lines [] rest else text_lines [] bs | [] \<Rightarrow> []) =
     (if bs \<noteq> [] \<and> hd bs = 10 then text_lines [] (tl bs) else text_lines [] bs)"
  by (cases bs) auto

lemma push_bytes_lines:
  "fst (push_bytes dec bs l) @ (case fst (finish_line dec (snd (push_bytes dec bs l))) of Some x \<Rightarrow> [x] | None \<Rightarrow> [])
     = map dec (if after_cr l \<and> bs \<noteq> [] \<and> hd bs = 10 then text_lines (lb_pending l) (tl bs)
                else text_lines (lb_pending l) bs)"
proof (induction bs arbitrary: l)
  case Nil
  then show ?case by (simp add: finish_line_def)
next
  case (Cons b bs)
  obtain ls l1 where p: "push_byte dec b l = (ls, l1)" by fastforce
  show ?case
    using p Cons.IH [of l1]
    by (auto simp: push_byte_def text_lines_after_cr Let_def split: prod.splits if_splits)
qed

text \<open>The lines of a streamed body are those of the whole body, each ended by a line feed, a
  carriage return or the two together, however the body was cut into chunks, and a last line without
  a line break is delivered too: \<open>read_ndjson\<close> hands over the ones that are not blank, in order,
  until its consumer stops or fails.\<close>

theorem lines_ignore_chunks:
  "read_ndjson dec on (map Inr cs) s =
     settle (hand_over on (filter (\<lambda>l. trim l \<noteq> []) (map dec (text_lines [] (concat cs)))) s)"
proof -
  have "line_chunks dec [concat cs] new_line_buffer = map dec (text_lines [] (concat cs))"
    using push_bytes_lines [of dec "concat cs" new_line_buffer]
    by (cases "push_bytes dec (concat cs) new_line_buffer") (simp add: new_line_buffer_def)
  then have l: "line_chunks dec cs new_line_buffer = map dec (text_lines [] (concat cs))"
    by (simp add: line_chunks_concat [of dec cs])
  show ?thesis unfolding read_ndjson_def ndjson_body_settle l blank_line_def by simp
qed

section \<open>Events do not depend on chunks\<close>

lemma accept_line_lines [simp]:
  "accept_line x (d\<lparr>sse_lines := l\<rparr>) = apsnd (\<lambda>d. d\<lparr>sse_lines := l\<rparr>) (accept_line x d)"
  by (auto simp: accept_line_def dispatch_def Let_def split: option.splits prod.splits)

lemma accept_lines_lines:
  "accept_lines ls (d\<lparr>sse_lines := l\<rparr>) = apsnd (\<lambda>d. d\<lparr>sse_lines := l\<rparr>) (accept_lines ls d)"
  by (induction ls arbitrary: d) (auto simp: Let_def split: prod.splits)

lemma accept_line_same: "sse_lines (snd (accept_line x d)) = sse_lines d"
  by (auto simp: accept_line_def dispatch_def Let_def split: option.splits prod.splits)

lemma accept_lines_same: "sse_lines (snd (accept_lines ls d)) = sse_lines d"
proof (induction ls arbitrary: d)
  case (Cons x ls)
  obtain e d1 where a: "accept_line x d = (e, d1)" by fastforce
  obtain es d2 where b: "accept_lines ls d1 = (es, d2)" by fastforce
  show ?case using accept_line_same [of x d] Cons.IH [of d1] by (simp add: a b)
qed simp

lemma accept_lines_append:
  "accept_lines (a @ b) d =
     (let (e1, d1) = accept_lines a d; (e2, d2) = accept_lines b d1 in (e1 @ e2, d2))"
  by (induction a arbitrary: d) (auto simp: Let_def split: prod.splits)

lemma sse_push_append:
  "sse_push dec (a @ b) d =
     (let (e1, d1) = sse_push dec a d; (e2, d2) = sse_push dec b d1 in (e1 @ e2, d2))"
proof -
  obtain la l1 where a: "push_bytes dec a (sse_lines d) = (la, l1)" by fastforce
  obtain lb l2 where b: "push_bytes dec b l1 = (lb, l2)" by fastforce
  obtain e1 d1 where e1: "accept_lines la d = (e1, d1)" by fastforce
  obtain e2 d2 where e2: "accept_lines lb d1 = (e2, d2)" by fastforce
  show ?thesis
    by (simp add: sse_push_def push_bytes_append a b accept_lines_append accept_lines_lines e1 e2)
qed

lemma sse_chunks_concat: "sse_chunks dec cs d = sse_chunks dec [concat cs] d"
proof (induction cs arbitrary: d)
  case Nil
  then show ?case by (simp add: sse_push_def)
next
  case (Cons c cs)
  then show ?case by (auto simp: sse_push_append Let_def split: prod.splits)
qed

text \<open>An event on the wire, each line ended by \<open>eol\<close>, and a blank line after it.\<close>

definition event_lines :: "ustring option \<Rightarrow> ustring list \<Rightarrow> ustring list" where
  "event_lines n ls = (case n of Some x \<Rightarrow> [lit ''event: '' @ x] | None \<Rightarrow> []) @
     map (\<lambda>l. lit ''data: '' @ l) ls @ [[]]"

definition event_of :: "ustring option \<Rightarrow> ustring list \<Rightarrow> sse_event" where
  "event_of n ls = \<lparr>event_name = n, event_data = concat_with [10] ls\<rparr>"

definition wire :: "(ustring \<Rightarrow> byte list) \<Rightarrow> byte list \<Rightarrow> ustring list \<Rightarrow> byte list" where
  "wire enc eol ls = concat (map (\<lambda>l. enc l @ eol) ls)"

lemma accept_event_name:
  "accept_line (lit ''event: '' @ x) d = (None, d\<lparr>sse_name := Some x\<rparr>)"
  by (simp add: accept_line_def lit_def starts_with_def strip_prefix_def)

lemma accept_event_data:
  "accept_line (lit ''data: '' @ x) d = (None, d\<lparr>sse_data := sse_data d @ [x]\<rparr>)"
  by (simp add: accept_line_def lit_def starts_with_def strip_prefix_def)

lemma accept_blank: "accept_line [] d = dispatch d"
  by (simp add: accept_line_def)

lemma accept_data_lines:
  "accept_lines (map (\<lambda>l. lit ''data: '' @ l) ls) d = ([], d\<lparr>sse_data := sse_data d @ ls\<rparr>)"
  by (induction ls arbitrary: d) (auto simp: accept_event_data)

lemma accept_event:
  assumes "sse_name d = None" "sse_data d = []" "ls \<noteq> []"
  shows "accept_lines (event_lines n ls) d = ([event_of n ls], d)"
  using assms
  by (cases n) (simp_all add: event_lines_def accept_lines_append accept_data_lines accept_event_name
      accept_blank dispatch_def event_of_def)

lemma accept_events:
  assumes "sse_name d = None" "sse_data d = []" "\<forall>e\<in>set es. snd e \<noteq> []"
  shows "accept_lines (concat (map (\<lambda>(n, ls). event_lines n ls) es)) d = (map (\<lambda>(n, ls). event_of n ls) es, d)"
  using assms(3)
  by (induction es) (auto simp: accept_lines_append accept_event [OF assms(1,2)])

definition no_break :: "byte list \<Rightarrow> bool" where
  "no_break bs \<longleftrightarrow> 10 \<notin> set bs \<and> 13 \<notin> set bs"

lemma text_lines_no_break: "no_break bs \<Longrightarrow> text_lines cur (bs @ rest) = text_lines (cur @ bs) rest"
  by (induction bs arbitrary: cur) (auto simp: no_break_def)

lemma text_lines_wire:
  assumes "eol \<in> {[10], [13], [13, 10]}" "\<forall>l\<in>set ls. no_break (enc l)"
  shows "text_lines [] (wire enc eol ls) = map enc ls"
  using assms(2)
proof (induction ls)
  case Nil
  then show ?case by (simp add: wire_def)
next
  case (Cons l ls)
  let ?rest = "wire enc eol ls"
  have nb: "no_break (enc l)" and ih: "text_lines [] ?rest = map enc ls" using Cons by auto
  have "hd ?rest \<noteq> 10" if "eol = [13]" "?rest \<noteq> []"
    using that Cons.prems by (cases ls; cases "enc (hd ls)") (auto simp: wire_def no_break_def)
  then show ?case using nb ih assms(1)
    by (auto simp: wire_def text_lines_no_break text_lines_after_cr)
qed

text \<open>C39: Server-sent events survive the wire: events sent with any of the three line endings are
  decoded exactly, with their names and their data lines in order, however the bytes are cut into
  chunks. (The encoding is one that decodes to what was sent and that puts a line break only where
  the text has one.)\<close>

theorem sse_roundtrip:
  assumes "eol \<in> {[10], [13], [13, 10]}" "\<forall>e\<in>set es. snd e \<noteq> []"
    and "\<forall>(n, ls)\<in>set es. \<forall>l\<in>set (event_lines n ls). no_break (enc l) \<and> dec (enc l) = l"
    and "concat chunks = wire enc eol (concat (map (\<lambda>(n, ls). event_lines n ls) es))"
  shows "read_sse dec on (map Inr chunks) s = settle (hand_over on (map (\<lambda>(n, ls). event_of n ls) es) s)"
proof -
  let ?ls = "concat (map (\<lambda>(n, ls). event_lines n ls) es)"
  let ?d = new_sse_decoder
  have ok: "\<forall>l\<in>set ?ls. no_break (enc l) \<and> dec (enc l) = l" using assms(3) by fastforce
  then have "map dec (map enc ?ls) = ?ls" unfolding map_map by (intro map_idI) (metis comp_apply)
  then have tl: "map dec (text_lines [] (concat chunks)) = ?ls"
    using text_lines_wire [OF assms(1), of ?ls enc] ok unfolding assms(4) by simp
  obtain ls l where p: "push_bytes dec (concat chunks) (sse_lines ?d) = (ls, l)" by fastforce
  have whole: "ls @ (case fst (finish_line dec l) of Some x \<Rightarrow> [x] | None \<Rightarrow> []) = ?ls"
    using push_bytes_lines [of dec "concat chunks" new_line_buffer] p tl
    by (simp add: new_sse_decoder_def new_line_buffer_def)
  have ev: "accept_lines ?ls ?d = (map (\<lambda>(n, ls). event_of n ls) es, ?d)"
    by (rule accept_events) (use assms(2) in \<open>simp_all add: new_sse_decoder_def\<close>)
  obtain e1 d1 where e1: "accept_lines ls ?d = (e1, d1)" by fastforce
  have fresh: "sse_name ?d = None" "sse_data ?d = []" by (simp_all add: new_sse_decoder_def)
  have push: "sse_push dec (concat chunks) ?d = (e1, d1\<lparr>sse_lines := l\<rparr>)"
    by (simp add: sse_push_def p accept_lines_lines e1)
  have out: "sse_events dec chunks = e1 @ (case fst (sse_finish dec (d1\<lparr>sse_lines := l\<rparr>)) of Some e \<Rightarrow> [e] | None \<Rightarrow> [])"
    by (simp add: sse_events_def sse_chunks_concat [of dec chunks] push)
  obtain o1 l1 where f: "finish_line dec l = (o1, l1)" by fastforce
  have "sse_events dec chunks = map (\<lambda>(n, ls). event_of n ls) es"
  proof (cases o1)
    case None
    then have "ls = ?ls" using whole f by simp
    then have "e1 = map (\<lambda>(n, ls). event_of n ls) es" "d1 = ?d" using ev e1 by auto
    then show ?thesis using None f fresh by (simp add: out sse_finish_def dispatch_def)
  next
    case (Some x)
    then have w: "ls @ [x] = ?ls" using whole f by simp
    obtain e2 d2 where e2: "accept_line x d1 = (e2, d2)" by fastforce
    have "e1 @ (case e2 of Some y \<Rightarrow> [y] | None \<Rightarrow> []) = map (\<lambda>(n, ls). event_of n ls) es \<and> d2 = ?d"
      using ev unfolding w [symmetric] accept_lines_append by (simp add: e1 e2)
    then show ?thesis using Some f fresh e2
      by (cases e2) (simp_all add: out sse_finish_def dispatch_def)
  qed
  then show ?thesis by (simp add: read_sse_def sse_body_settle sse_events_def)
qed

lemma sse_roundtrip_witness:
  "read_sse (map unat) (\<lambda>e seen. (Inr Continue :: unit + stream_flow, seen @ [e]))
      (map Inr [[100, 97, 116, 97, 58, 32, 104], [105, 13], [10, 13], [10]]) [] =
    (Inr (), [event_of None [[104, 105]]])"
proof -
  let ?enc = "map of_nat :: ustring \<Rightarrow> byte list" and ?es = "[(None :: ustring option, [[104, 105]])]"
  let ?on = "\<lambda>e seen. (Inr Continue :: unit + stream_flow, seen @ [e])"
  have l: "event_lines None [[104, 105 :: nat]] = [[100, 97, 116, 97, 58, 32, 104, 105], []]"
    by (simp add: event_lines_def lit_def)
  have "read_sse (map unat) ?on (map Inr [[100, 97, 116, 97, 58, 32, 104], [105, 13], [10, 13], [10]]) []
      = settle (hand_over ?on (map (\<lambda>(n, ls). event_of n ls) ?es) [])"
    by (rule sse_roundtrip [of "[13, 10]" ?es ?enc]) (simp_all add: l no_break_def wire_def)
  then show ?thesis by (simp add: settle_def)
qed

section \<open>Inline reasoning does not depend on chunks\<close>

text \<open>What pieces amount to: the text and the reasoning they carry.\<close>

fun shown_pieces :: "piece list \<Rightarrow> ustring \<times> ustring" where
  "shown_pieces [] = ([], [])"
| "shown_pieces (TextPiece t # ps) = (t @ fst (shown_pieces ps), snd (shown_pieces ps))"
| "shown_pieces (ThinkingPiece t # ps) = (fst (shown_pieces ps), t @ snd (shown_pieces ps))"

lemma shown_append:
  "shown_pieces (a @ b) = (fst (shown_pieces a) @ fst (shown_pieces b), snd (shown_pieces a) @ snd (shown_pieces b))"
  by (induction a rule: shown_pieces.induct) auto

definition same_output :: "piece list \<times> splitter \<Rightarrow> piece list \<times> splitter \<Rightarrow> bool" where
  "same_output r r' \<longleftrightarrow> shown_pieces (fst r) = shown_pieces (fst r') \<and> snd r = snd r'"

definition then_do :: "piece list \<times> splitter \<Rightarrow> (splitter \<Rightarrow> piece list \<times> splitter) \<Rightarrow> piece list \<times> splitter" where
  "then_do r f = (fst r @ fst (f (snd r)), snd (f (snd r)))"

lemma same_refl [simp]: "same_output r r"
  by (simp add: same_output_def)

lemma same_trans: "same_output a b \<Longrightarrow> same_output b c \<Longrightarrow> same_output a c"
  by (simp add: same_output_def)

lemma same_then: "same_output a b \<Longrightarrow> same_output (f (snd b)) (g (snd b)) \<Longrightarrow> same_output (then_do a f) (then_do b g)"
  by (simp add: same_output_def then_do_def shown_append)

lemma then_assoc: "then_do (then_do r f) g = then_do r (\<lambda>s. then_do (f s) g)"
  by (simp add: then_do_def)

lemma trim_start_append: "trim_start (a @ b) = (if trim_start a = [] then trim_start b else trim_start a @ b)"
  by (auto simp: trim_start_def dropWhile_append)

lemma trim_Nil_iff: "trim s = [] \<longleftrightarrow> list_all is_whitespace s"
proof -
  have "trim_end x = [] \<longleftrightarrow> list_all is_whitespace x" for x
    by (auto simp: trim_end_def list_all_iff)
  moreover have "list_all is_whitespace (trim_start s) \<longleftrightarrow> list_all is_whitespace s"
    by (induction s) (auto simp: trim_start_def)
  ultimately show ?thesis by (simp add: trim_def)
qed

lemma emit_Nil [simp]: "emit [] st = ([], st)"
  by (simp add: emit_def trim_start_def Let_def)

lemma emit_append: "same_output (emit (a @ b) st) (then_do (emit a st) (emit b))"
proof (cases "inside st")
  case True
  then show ?thesis by (simp add: same_output_def then_do_def emit_def)
next
  case False
  show ?thesis
  proof (cases "trim_leading st")
    case True
    show ?thesis
    proof (cases "trim_start a = []")
      case e: True
      then have "emit a st = ([], st)" "emit (a @ b) st = emit b st"
        using True False by (simp_all add: emit_def trim_start_append)
      then show ?thesis by (simp add: then_do_def)
    next
      case ne: False
      then show ?thesis using True False
        by (simp add: same_output_def then_do_def emit_def trim_start_append Let_def trim_Nil_iff)
    qed
  next
    case no: False
    then show ?thesis using False
      by (simp add: same_output_def then_do_def emit_def Let_def trim_Nil_iff)
  qed
qed

text \<open>Emitting does not look at what is held.\<close>

lemma emit_held [simp]: "emit t (st\<lparr>held := h\<rparr>) = apsnd (\<lambda>s. s\<lparr>held := h\<rparr>) (emit t st)"
  by (auto simp: emit_def Let_def)

subsection \<open>Text in which no tag can begin\<close>

definition no_tag_begins :: "ustring \<Rightarrow> ustring \<Rightarrow> ustring \<Rightarrow> bool" where
  "no_tag_begins tag x s \<longleftrightarrow> (\<forall>i<length x. \<not> starts_with tag (drop i x @ s) \<and>
     \<not> (length (drop i x @ s) < length tag \<and> starts_with (drop i x @ s) tag))"

lemma no_tag_Cons: "no_tag_begins tag (c # x) s \<Longrightarrow> no_tag_begins tag x s"
  by (auto simp: no_tag_begins_def)

lemma split_once_str_skip:
  "no_tag_begins tag x s \<Longrightarrow> split_once_str tag (x @ s) = map_option (apfst ((@) x)) (split_once_str tag s)"
proof (induction x)
  case Nil
  show ?case by (cases "split_once_str tag s") auto
next
  case (Cons c x)
  have "\<not> starts_with tag (c # x @ s)" using Cons.prems unfolding no_tag_begins_def by force
  moreover note Cons.IH [OF no_tag_Cons [OF Cons.prems]]
  ultimately show ?case by (cases "split_once_str tag s") auto
qed

lemma ends_with_drop: "ends_with p s \<longleftrightarrow> length p \<le> length s \<and> drop (length s - length p) s = p"
proof -
  have e: "ends_with p s \<longleftrightarrow> drop (length s - length p) s = p"
    by (simp add: ends_with_def starts_with_def take_rev)
  have "length p \<le> length s" if "drop (length s - length p) s = p"
    using arg_cong [OF that, of length] by simp
  with e show ?thesis by blast
qed

lemma ends_with_skip:
  assumes "no_tag_begins tag x s" "n < length tag"
  shows "ends_with (take n tag) (x @ s) \<longleftrightarrow> ends_with (take n tag) s"
proof (cases "n \<le> length s")
  case True
  then show ?thesis using assms(2) by (simp add: ends_with_drop)
next
  case False
  have "\<not> ends_with (take n tag) (x @ s)"
  proof
    assume e: "ends_with (take n tag) (x @ s)"
    let ?i = "length x + length s - n"
    have n: "n \<le> length x + length s" and d: "drop ?i x @ s = take n tag"
      using e assms(2) False by (auto simp: ends_with_drop)
    have "?i < length x" using False n by simp
    moreover have "starts_with (drop ?i x @ s) tag" using d assms(2) by (simp add: starts_with_def)
    moreover have "length (drop ?i x @ s) < length tag" using d assms(2) by simp
    ultimately show False using assms(1) by (auto simp: no_tag_begins_def)
  qed
  then show ?thesis using False assms(2) by (simp add: ends_with_drop)
qed

lemma find_cong_set: "(\<And>x. x \<in> set xs \<Longrightarrow> P x = Q x) \<Longrightarrow> find P xs = find Q xs"
  by (induction xs) auto

lemma partial_tag_skip:
  assumes "no_tag_begins tag x s" "tag \<noteq> []"
  shows "partial_tag_len (x @ s) tag = partial_tag_len s tag"
proof -
  have "find (\<lambda>n. ends_with (take n tag) (x @ s)) (rev [1..<length tag])
      = find (\<lambda>n. ends_with (take n tag) s) (rev [1..<length tag])"
    by (rule find_cong_set) (use ends_with_skip [OF assms(1)] in auto)
  then show ?thesis by (simp add: partial_tag_len_def)
qed

lemma partial_tag_le: "partial_tag_len s tag \<le> length s"
proof (cases "find (\<lambda>n. ends_with (take n tag) s) (rev [1..<length tag])")
  case None
  then show ?thesis by (simp add: partial_tag_len_def)
next
  case (Some n)
  then have "ends_with (take n tag) s" "n < length tag" using find_Some_iff2 [OF Some] by auto
  then show ?thesis using Some by (simp add: partial_tag_len_def ends_with_drop)
qed

abbreviation loop_on :: "ustring \<Rightarrow> splitter \<Rightarrow> piece list \<times> splitter" where
  "loop_on s st \<equiv> push_loop (st\<lparr>held := s\<rparr>)"

lemma tag_of_held [simp]: "tag_of (st\<lparr>held := h\<rparr>) = tag_of st" "tag_of (snd (emit t st)) = tag_of st"
  by (simp_all add: tag_of_def emit_keeps)

lemma tag_nonempty [simp]: "tag_of st \<noteq> []"
  by (simp add: tag_of_def OPEN_TAG_def CLOSE_TAG_def)

text \<open>Such text is settled at once.\<close>

definition toggled :: "ustring \<Rightarrow> splitter \<Rightarrow> splitter" where
  "toggled rest st = st\<lparr>held := rest, trim_leading := (if inside st then \<not> emitted_text st else trim_leading st),
     inside := \<not> inside st\<rparr>"

lemma loop_on_cases:
  "loop_on s st =
     (case split_once_str (tag_of st) s of
        Some (before, after) \<Rightarrow> then_do (emit before st) (\<lambda>st1. push_loop (toggled after st1))
      | None \<Rightarrow>
          (let n = length s - partial_tag_len s (tag_of st)
           in apsnd (\<lambda>st1. st1\<lparr>held := drop n s\<rparr>) (emit (take n s) st)))"
proof (cases "split_once_str (tag_of st) s")
  case None
  obtain o1 st1 where "emit (take (length s - partial_tag_len s (tag_of st)) s) st = (o1, st1)" by fastforce
  then show ?thesis using None by (subst push_loop.simps) (simp add: Let_def)
next
  case (Some ba)
  then obtain before after where s: "split_once_str (tag_of st) s = Some (before, after)" by (cases ba) auto
  obtain o1 st1 where e: "emit before st = (o1, st1)" by fastforce
  show ?thesis by (subst push_loop.simps) (simp add: s e then_do_def toggled_def Let_def split: prod.split)
qed

lemma loop_skip:
  assumes "no_tag_begins (tag_of st) x s"
  shows "same_output (loop_on (x @ s) st) (then_do (emit x st) (\<lambda>st1. loop_on s st1))"
proof (cases "split_once_str (tag_of st) s")
  case None
  let ?k = "partial_tag_len s (tag_of st)"
  have k: "partial_tag_len (x @ s) (tag_of st) = ?k" by (rule partial_tag_skip [OF assms tag_nonempty])
  have le: "?k \<le> length s" by (rule partial_tag_le)
  have n: "length x + length s - ?k = length x + (length s - ?k)" using le by simp
  have "loop_on (x @ s) st = apsnd (\<lambda>st1. st1\<lparr>held := drop (length s - ?k) s\<rparr>) (emit (x @ take (length s - ?k) s) st)"
    using None split_once_str_skip [OF assms] unfolding loop_on_cases k by (simp add: n Let_def)
  moreover have "then_do (emit x st) (\<lambda>st1. loop_on s st1) =
      apsnd (\<lambda>st1. st1\<lparr>held := drop (length s - ?k) s\<rparr>) (then_do (emit x st) (emit (take (length s - ?k) s)))"
    using None by (simp add: then_do_def loop_on_cases Let_def)
  ultimately show ?thesis
    using emit_append [of x "take (length s - ?k) s" st] by (simp add: same_output_def)
next
  case (Some ba)
  then obtain before after where s: "split_once_str (tag_of st) s = Some (before, after)" by (cases ba) auto
  have "loop_on (x @ s) st = then_do (emit (x @ before) st) (\<lambda>st1. push_loop (toggled after st1))"
    using s split_once_str_skip [OF assms] by (simp add: loop_on_cases)
  moreover have "then_do (emit x st) (\<lambda>st1. loop_on s st1) =
      then_do (then_do (emit x st) (emit before)) (\<lambda>st1. push_loop (toggled after st1))"
    using s by (simp add: then_do_def loop_on_cases)
  ultimately show ?thesis using same_then [OF emit_append] by simp
qed

subsection \<open>Two pushes are one\<close>

lemma starts_with_append: "starts_with p a \<Longrightarrow> starts_with p (a @ b)"
  unfolding starts_with_def by (metis append_take_drop_id append.assoc append_eq_conv_conj)

lemma split_once_str_append:
  "tag \<noteq> [] \<Longrightarrow> split_once_str tag a = Some (before, after) \<Longrightarrow> split_once_str tag (a @ b) = Some (before, after @ b)"
proof (induction a arbitrary: before)
  case Nil
  then show ?case by simp
next
  case (Cons c a)
  show ?case
  proof (cases "starts_with tag (c # a)")
    case True
    then have "length tag \<le> length (c # a)" unfolding starts_with_def by (metis length_take min.cobounded1)
    then have "drop (length tag) ((c # a) @ b) = drop (length tag) (c # a) @ b" by (simp del: append_Cons)
    then show ?thesis using Cons.prems True starts_with_append [OF True, of b] by simp
  next
    case False
    then obtain before' where s: "split_once_str tag a = Some (before', after)" "before = c # before'"
      using Cons.prems by auto
    have len: "length tag \<le> length a" using split_once_str_Some [OF s(1)] by simp
    have "take (length tag) ((c # a) @ b) = take (length tag) (c # a)" using len by (simp del: append_Cons)
    then have "\<not> starts_with tag (c # a @ b)" using False unfolding starts_with_def by simp
    then show ?thesis using Cons.IH [OF Cons.prems(1) s(1)] s(2) by simp
  qed
qed

lemma split_once_str_None: "split_once_str tag a = None \<Longrightarrow> i < length a \<Longrightarrow> \<not> starts_with tag (drop i a)"
proof (induction a arbitrary: i)
  case (Cons c a)
  then show ?case by (cases i) (auto split: if_splits)
qed simp

lemma find_rev_upt: "find P (rev [1..<m]) = Some n \<Longrightarrow> P k \<Longrightarrow> k < m \<Longrightarrow> k \<le> n"
proof (induction m)
  case (Suc m)
  then show ?case by (cases "1 \<le> m") (auto simp: less_Suc_eq split: if_splits)
qed simp

lemma find_rev_None: "find P (rev [1..<m]) = None \<Longrightarrow> 1 \<le> k \<Longrightarrow> k < m \<Longrightarrow> \<not> P k"
  by (auto simp: find_None_iff)

lemma partial_tag_greatest:
  assumes "ends_with (take n tag) s" "n < length tag"
  shows "n \<le> partial_tag_len s tag"
proof (cases "find (\<lambda>n. ends_with (take n tag) s) (rev [1..<length tag])")
  case None
  then have "\<not> 1 \<le> n" using find_rev_None [OF None, of n] assms by blast
  then show ?thesis by simp
next
  case (Some m)
  then show ?thesis using find_rev_upt [OF Some, of n] assms by (simp add: partial_tag_len_def)
qed

lemma settled_begins_no_tag:
  assumes none: "split_once_str tag a = None"
  defines "n \<equiv> length a - partial_tag_len a tag"
  shows "no_tag_begins tag (take n a) (drop n a @ b)"
  unfolding no_tag_begins_def
proof (intro allI impI)
  fix i assume "i < length (take n a)"
  then have i: "i < length a" "length a - i > partial_tag_len a tag" by (auto simp: n_def)
  have e: "drop i (take n a) @ drop n a @ b = drop i a @ b"
    using \<open>i < length (take n a)\<close> by (metis append.assoc append_take_drop_id drop_append length_take
        less_imp_le_nat min_less_iff_conj diff_is_0_eq' drop_0)
  have no_prefix: "\<not> (length (drop i a) < length tag \<and> starts_with (drop i a) tag)"
  proof
    assume p: "length (drop i a) < length tag \<and> starts_with (drop i a) tag"
    then have t: "take (length a - i) tag = drop i a" by (simp add: starts_with_def)
    have "ends_with (take (length a - i) tag) a"
      using t i by (simp add: ends_with_drop)
    from partial_tag_greatest [OF this] p i show False by simp
  qed
  have "\<not> starts_with tag (drop i a @ b)"
  proof
    assume s: "starts_with tag (drop i a @ b)"
    show False
    proof (cases "length tag \<le> length (drop i a)")
      case True
      then have "starts_with tag (drop i a)" using s by (simp add: starts_with_def)
      then show False using split_once_str_None [OF none i(1)] by blast
    next
      case False
      have "take (length (drop i a)) (take (length tag) (drop i a @ b)) = drop i a"
        using False unfolding take_take by (subst min_absorb1) simp_all
      then have "take (length (drop i a)) tag = drop i a" using s unfolding starts_with_def by metis
      then show False using no_prefix False by (simp add: starts_with_def)
    qed
  qed
  moreover have "\<not> (length (drop i a @ b) < length tag \<and> starts_with (drop i a @ b) tag)"
  proof
    assume p: "length (drop i a @ b) < length tag \<and> starts_with (drop i a @ b) tag"
    then have "take (length (drop i a)) (take (length (drop i a @ b)) tag) = take (length (drop i a)) (drop i a @ b)"
      unfolding starts_with_def by metis
    then have "take (length (drop i a)) tag = drop i a" unfolding take_take by (subst (asm) min_absorb1) simp_all
    then show False using no_prefix p by (simp add: starts_with_def)
  qed
  ultimately show "\<not> starts_with tag (drop i (take n a) @ drop n a @ b) \<and>
      \<not> (length (drop i (take n a) @ drop n a @ b) < length tag \<and> starts_with (drop i (take n a) @ drop n a @ b) tag)"
    unfolding e by blast
qed

lemma loop_append:
  "same_output (loop_on (a @ b) st) (then_do (loop_on a st) (\<lambda>st1. loop_on (held st1 @ b) st1))"
proof (induction "length a" arbitrary: a st rule: less_induct)
  case less
  show ?case
  proof (cases "split_once_str (tag_of st) a")
    case None
    let ?n = "length a - partial_tag_len a (tag_of st)"
    have "same_output (loop_on (take ?n a @ drop ?n a @ b) st)
        (then_do (emit (take ?n a) st) (\<lambda>st1. loop_on (drop ?n a @ b) st1))"
      by (rule loop_skip) (rule settled_begins_no_tag [OF None])
    moreover have "then_do (loop_on a st) (\<lambda>st1. loop_on (held st1 @ b) st1)
        = then_do (emit (take ?n a) st) (\<lambda>st1. loop_on (drop ?n a @ b) st1)"
      using None by (simp add: loop_on_cases [of a] then_do_def Let_def)
    moreover have "take ?n a @ drop ?n a @ b = a @ b" by (metis append.assoc append_take_drop_id)
    ultimately show ?thesis by simp
  next
    case (Some ba)
    then obtain before after where s: "split_once_str (tag_of st) a = Some (before, after)" by (cases ba) auto
    have s2: "split_once_str (tag_of st) (a @ b) = Some (before, after @ b)"
      by (rule split_once_str_append [OF tag_nonempty s])
    have less_len: "length after < length a"
      using split_once_str_Some [OF s] tag_nonempty [of st] by (cases "tag_of st") auto
    obtain o1 st1 where e: "emit before st = (o1, st1)" by fastforce
    have tog: "push_loop (toggled x st1) = loop_on x (toggled [] st1)" for x
    proof -
      have "toggled x st1 = (toggled [] st1)\<lparr>held := x\<rparr>" by (cases st1) (simp add: toggled_def)
      then show ?thesis by simp
    qed
    note ih = less [OF less_len, of "toggled [] st1"]
    have "loop_on (a @ b) st = then_do (o1, st1) (\<lambda>_. loop_on (after @ b) (toggled [] st1))"
      using s2 e by (simp add: loop_on_cases then_do_def tog)
    moreover have "then_do (loop_on a st) (\<lambda>st1. loop_on (held st1 @ b) st1) =
        then_do (o1, st1) (\<lambda>_. then_do (loop_on after (toggled [] st1)) (\<lambda>st1. loop_on (held st1 @ b) st1))"
      using s e by (simp add: loop_on_cases [of a] then_do_def tog)
    ultimately show ?thesis using ih by (simp add: same_output_def then_do_def shown_append)
  qed
qed

lemma splitter_push_append:
  "same_output (splitter_push (p @ q) st) (then_do (splitter_push p st) (splitter_push q))"
  using loop_append [of "held st @ p" q st] by (simp add: splitter_push_def [abs_def])

section \<open>Replies do not depend on how they were streamed\<close>

text \<open>What a consumer that starts over on a restart has on its screen.\<close>

fun screen :: "stream_delta list \<Rightarrow> ustring \<times> ustring \<Rightarrow> ustring \<times> ustring" where
  "screen [] s = s"
| "screen (TextDelta t # ds) s = screen ds (fst s @ t, snd s)"
| "screen (ThinkingDelta t # ds) s = screen ds (fst s, snd s @ t)"
| "screen (Restart # ds) s = screen ds ([], [])"

lemma screen_append: "screen (a @ b) s = screen b (screen a s)"
  by (induction a s rule: screen.induct) simp_all

lemma fold_take_piece:
  "asm_splitter (fold take_piece ps a) = asm_splitter a"
  "asm_content (fold take_piece ps a) = asm_content a @ fst (shown_pieces ps)"
  "asm_thinking (fold take_piece ps a) = asm_thinking a @ snd (shown_pieces ps)"
  by (induction ps arbitrary: a rule: shown_pieces.induct) simp_all

definition in_step :: "assembler \<Rightarrow> bool" where
  "in_step a \<longleftrightarrow> screen (asm_pushed a) ([], []) = (asm_content a, asm_thinking a)"

lemma in_step_take: "in_step a \<Longrightarrow> in_step (take_piece p a)"
  by (cases p) (simp_all add: in_step_def screen_append)

lemma in_step_fold: "in_step a \<Longrightarrow> in_step (fold take_piece ps a)"
  by (induction ps arbitrary: a) (simp_all add: in_step_take)

lemma in_step_splitter [simp]: "in_step (a\<lparr>asm_splitter := st\<rparr>) = in_step a"
  by (simp add: in_step_def)

lemma in_step_add: "in_step a \<Longrightarrow> in_step (add_part p a)"
  by (cases p) (auto simp: in_step_fold split: prod.split simp del: take_piece.simps intro!: in_step_take)

lemma in_step_parts: "in_step a \<Longrightarrow> in_step (fold add_part ps a)"
  by (induction ps arbitrary: a) (simp_all add: in_step_add)

lemma in_step_new [simp]: "in_step new_assembler"
  by (simp add: in_step_def new_assembler_def)

definition same_asm :: "assembler \<Rightarrow> assembler \<Rightarrow> bool" where
  "same_asm a b \<longleftrightarrow> asm_splitter a = asm_splitter b \<and> asm_content a = asm_content b \<and> asm_thinking a = asm_thinking b"

lemma same_asm_add: "same_asm a b \<Longrightarrow> same_asm (add_part p a) (add_part p b)"
  by (cases p) (simp_all add: same_asm_def fold_take_piece split: prod.split)

lemma same_asm_parts: "same_asm a b \<Longrightarrow> same_asm (fold add_part ps a) (fold add_part ps b)"
  by (induction ps arbitrary: a b) (simp_all add: same_asm_add)

lemma same_asm_finish:
  "same_asm a b \<Longrightarrow> fst (finish_reply a) = fst (finish_reply b) \<and>
     fst (snd (finish_reply a)) = fst (snd (finish_reply b))"
  by (simp add: same_asm_def finish_reply_def fold_take_piece Let_def split: prod.split)

lemma same_asm_split:
  "same_asm (add_part (ContentPart y) (add_part (ContentPart x) a)) (add_part (ContentPart (x @ y)) a)"
proof -
  obtain p1 s1 where 1: "splitter_push x (asm_splitter a) = (p1, s1)" by fastforce
  obtain p2 s2 where 2: "splitter_push y s1 = (p2, s2)" by fastforce
  obtain p3 s3 where 3: "splitter_push (x @ y) (asm_splitter a) = (p3, s3)" by fastforce
  have "same_output (p3, s3) (p1 @ p2, s2)"
    using splitter_push_append [of x y "asm_splitter a"] by (simp add: 1 2 3 then_do_def)
  then show ?thesis by (simp add: 1 2 3 same_asm_def same_output_def fold_take_piece shown_append)
qed

text \<open>Where a provider cuts its text never changes the reply: two adjacent text parts give
  the same content and the same reasoning as one part holding both, whatever stands around them
  and even when the cut is inside a \<open><think>\<close> tag. And what was streamed adds up, in order, to
  what is returned.\<close>

theorem reply_ignores_cuts:
  "(case (assemble (pre @ ContentPart x # ContentPart y # post), assemble (pre @ ContentPart (x @ y) # post)) of
      ((content, reasoning, _), (content', reasoning', _)) \<Rightarrow> content = content' \<and> reasoning = reasoning') \<and>
   (case assemble parts of (content, reasoning, pushed) \<Rightarrow>
      (case screen pushed ([], []) of (shown, thought) \<Rightarrow>
         shown = content \<and> reasoning = (if trim thought = [] then None else Some (trim thought))))"
proof -
  let ?a = "fold add_part (pre @ [ContentPart x, ContentPart y] @ post) new_assembler"
  let ?b = "fold add_part (pre @ [ContentPart (x @ y)] @ post) new_assembler"
  have "same_asm ?a ?b" unfolding fold_append comp_apply
    by (rule same_asm_parts) (use same_asm_split in simp)
  from same_asm_finish [OF this]
  have 1: "fst (assemble (pre @ ContentPart x # ContentPart y # post)) = fst (assemble (pre @ ContentPart (x @ y) # post)) \<and>
     fst (snd (assemble (pre @ ContentPart x # ContentPart y # post))) = fst (snd (assemble (pre @ ContentPart (x @ y) # post)))"
    by (simp add: assemble_def)
  obtain ps st where f: "splitter_finish (asm_splitter (fold add_part parts new_assembler)) = (ps, st)" by fastforce
  let ?e = "fold take_piece ps ((fold add_part parts new_assembler)\<lparr>asm_splitter := st\<rparr>)"
  have "in_step ?e" by (intro in_step_fold) (simp add: in_step_parts)
  then have "screen (asm_pushed ?e) ([], []) = (asm_content ?e, asm_thinking ?e)" by (simp add: in_step_def)
  then have 2: "case assemble parts of (content, reasoning, pushed) \<Rightarrow>
      (case screen pushed ([], []) of (shown, thought) \<Rightarrow>
         shown = content \<and> reasoning = (if trim thought = [] then None else Some (trim thought)))"
    by (simp add: assemble_def finish_reply_def f Let_def)
  show ?thesis using 1 2 by (simp add: split_beta)
qed

lemma no_tag_plain: "60 \<notin> set x \<Longrightarrow> no_tag_begins (tag_of st) x s"
proof -
  assume x: "60 \<notin> set x"
  have "hd (drop i x @ s) \<noteq> 60 \<and> drop i x @ s \<noteq> []" if "i < length x" for i
    using that x by (simp add: hd_append hd_drop_conv_nth) (metis nth_mem)
  moreover have "starts_with (tag_of st) y \<Longrightarrow> hd y = 60" for y
    by (cases y; cases "inside st") (auto simp: starts_with_def tag_of_def OPEN_TAG_def CLOSE_TAG_def lit_def)
  moreover have "starts_with y (tag_of st) \<Longrightarrow> y \<noteq> [] \<Longrightarrow> hd y = 60" for y
    by (cases y; cases "inside st") (auto simp: starts_with_def tag_of_def OPEN_TAG_def CLOSE_TAG_def lit_def)
  ultimately show ?thesis unfolding no_tag_begins_def by blast
qed

lemma split_once_str_here: "tag \<noteq> [] \<Longrightarrow> split_once_str tag (tag @ rest) = Some ([], rest)"
  by (cases tag) (simp_all add: starts_with_def)

lemma loop_until_tag:
  assumes "60 \<notin> set x"
  shows "loop_on (x @ tag_of st @ rest) st = then_do (emit x st) (\<lambda>st1. push_loop (toggled rest st1))"
  using split_once_str_skip [OF no_tag_plain [OF assms], of st "tag_of st @ rest"]
  by (simp add: loop_on_cases split_once_str_here)

lemma loop_plain:
  assumes "60 \<notin> set x"
  shows "loop_on x st = apsnd (\<lambda>st1. st1\<lparr>held := []\<rparr>) (emit x st)"
proof -
  have n: "no_tag_begins (tag_of st) x []" by (rule no_tag_plain [OF assms])
  have "split_once_str (tag_of st) x = None"
    using split_once_str_skip [OF n] by simp
  moreover have "partial_tag_len x (tag_of st) = 0"
    using partial_tag_skip [OF n tag_nonempty] partial_tag_le [of "[]" "tag_of st"] by simp
  ultimately show ?thesis by (simp add: loop_on_cases Let_def)
qed

lemma merge_content: "same_asm (fold add_part (map ContentPart (c # cs)) a) (add_part (ContentPart (concat (c # cs))) a)"
proof (induction cs arbitrary: c)
  case Nil
  then show ?case by (simp add: same_asm_def)
next
  case (Cons d cs)
  have "same_asm (fold add_part (map ContentPart (c # d # cs)) a) (fold add_part (map ContentPart ((c @ d) # cs)) a)"
    using same_asm_parts [OF same_asm_split [of d c a], of "map ContentPart cs"] by simp
  then show ?case using Cons.IH [of "c @ d"] by (simp add: same_asm_def)
qed

lemma emit_shown:
  "shown_pieces (fst (emit x st)) =
     (if inside st then ([], x) else (if trim_leading st then trim_start x else x, []))"
  by (simp add: emit_def Let_def)

lemma emit_emitted:
  "emitted_text (snd (emit x st)) = (emitted_text st \<or> (\<not> inside st \<and> trim x \<noteq> []))"
proof -
  have "trim (trim_start x) = trim x"
    by (simp add: trim_def trim_start_def)
  moreover have "trim [] = []" by (simp add: trim_Nil_iff)
  ultimately show ?thesis by (cases "inside st"; cases "trim_leading st"; cases "trim_start x = []"; cases "x = []") (auto simp: emit_def Let_def simp del: trim_Nil_iff)
qed

text \<open>Inline reasoning is taken out of the answer: a reply of text, a \<open><think>\<close> block and more
  text, streamed in any chunks, gives the text around the block as its content and the inside of
  the block, trimmed, as its reasoning. The answer after the block loses its leading white space
  when nothing but white space came before it.\<close>

theorem think_block_is_taken_out:
  assumes "60 \<notin> set before" "60 \<notin> set thought" "60 \<notin> set after"
    and "concat chunks = before @ OPEN_TAG @ thought @ CLOSE_TAG @ after"
  shows "fst (assemble (map ContentPart chunks)) =
      before @ (if trim before = [] then trim_start after else after) \<and>
    fst (snd (assemble (map ContentPart chunks))) = (if trim thought = [] then None else Some (trim thought))"
proof -
  let ?s = "before @ OPEN_TAG @ thought @ CLOSE_TAG @ after"
  have ne: "chunks \<noteq> []" using assms(4) by (auto simp: OPEN_TAG_def lit_def)
  then obtain c cs where c: "chunks = c # cs" by (cases chunks) auto
  have whole: "same_asm (fold add_part (map ContentPart chunks) new_assembler) (add_part (ContentPart ?s) new_assembler)"
    using merge_content [of c cs new_assembler] assms(4) by (simp add: c)
  let ?st = new_splitter
  have t0: "tag_of ?st = OPEN_TAG" by (simp add: tag_of_def new_splitter_def)
  have h: "?st\<lparr>held := []\<rparr> = ?st" by (simp add: new_splitter_def)
  obtain p1 s1 where e1: "emit before ?st = (p1, s1)" by fastforce
  define s2 where "s2 = toggled [] s1"
  obtain p2 s3 where e2: "emit thought s2 = (p2, s3)" by fastforce
  define s4 where "s4 = toggled [] s3"
  obtain p3 s5 where e3: "emit after s4 = (p3, s5)" by fastforce
  have tog: "toggled x s = (toggled [] s)\<lparr>held := x\<rparr>" for x s by (cases s) (simp add: toggled_def)
  have i0: "inside ?st = False" "trim_leading ?st = False" "emitted_text ?st = False"
    by (simp_all add: new_splitter_def)
  have i1: "inside s1 = False" using emit_keeps(2) [of before ?st] i0 by (simp only: e1 snd_conv)
  then have t2: "tag_of s2 = CLOSE_TAG" by (simp add: s2_def toggled_def tag_of_def)
  have push: "splitter_push ?s ?st = (p1 @ p2 @ p3, s5\<lparr>held := []\<rparr>)"
  proof -
    have "splitter_push ?s ?st = loop_on (before @ tag_of ?st @ thought @ CLOSE_TAG @ after) ?st"
      by (simp add: splitter_push_def t0) (simp add: new_splitter_def)
    also have "\<dots> = then_do (p1, s1) (\<lambda>_. loop_on (thought @ tag_of s2 @ after) s2)"
      unfolding loop_until_tag [OF assms(1)] e1 tog [of "thought @ CLOSE_TAG @ after"] by (simp add: then_do_def s2_def t2 [unfolded s2_def])
    also have "\<dots> = then_do (p1, s1) (\<lambda>_. then_do (p2, s3) (\<lambda>_. loop_on after s4))"
      unfolding loop_until_tag [OF assms(2)] e2 tog [of after] by (simp add: then_do_def s4_def)
    finally show ?thesis unfolding loop_plain [OF assms(3)] e3 by (simp add: then_do_def)
  qed
  have i2: "inside s2" using i1 by (simp add: s2_def toggled_def)
  have i3: "inside s3" using emit_keeps(2) [of thought s2] i2 by (simp only: e2 snd_conv)
  have em: "emitted_text s3 = (trim before \<noteq> [])"
    using emit_emitted [of before ?st] emit_emitted [of thought s2] i0 i2
    by (simp only: e1 e2 snd_conv) (simp add: s2_def toggled_def)
  have i4: "\<not> inside s4" "trim_leading s4 = (trim before = [])"
    using i3 em by (simp_all add: s4_def toggled_def)
  have sh: "shown_pieces p1 = (before, [])" "shown_pieces p2 = ([], thought)"
    "shown_pieces p3 = ((if trim before = [] then trim_start after else after), [])"
    using emit_shown [of before ?st] emit_shown [of thought s2] emit_shown [of after s4] i0 i2 i4
    by (simp_all only: e1 e2 e3 fst_conv if_True if_False simp_thms)
  have fin: "splitter_finish (s5\<lparr>held := []\<rparr>) = ([], s5\<lparr>held := []\<rparr>)" by (simp add: splitter_finish_def)
  show ?thesis using same_asm_finish [OF whole]
    by (simp add: assemble_def new_assembler_def push finish_reply_def fin fold_take_piece shown_append sh Let_def)
qed

text \<open>The witness: a block cut in the middle of its tags.\<close>

lemma think_block_is_taken_out_witness:
  "fst (assemble (map ContentPart [lit ''<thi'', lit ''nk>hm </th'', lit ''ink> Yes'']))= lit ''Yes''"
proof -
  have "fst (assemble (map ContentPart [lit ''<thi'', lit ''nk>hm </th'', lit ''ink> Yes''])) =
      [] @ (if trim [] = [] then trim_start (lit '' Yes'') else lit '' Yes'')"
    by (rule think_block_is_taken_out [of _ "lit ''hm ''", THEN conjunct1])
      (simp_all add: lit_def OPEN_TAG_def CLOSE_TAG_def)
  then show ?thesis by (simp add: trim_Nil_iff) (simp add: lit_def trim_start_def is_whitespace_def)
qed

end
