(* ===== verification/Inference_Types.thy ===== *)
theory Inference_Types
  imports Stream_Decoding
begin

text \<open>
  The vocabulary of model requests and responses (\<open>crates/inference/src/types.rs\<close>, \<open>tool.rs\<close> and the
  rest of \<open>reply.rs\<close>): messages, reasoning blocks and who may replay them, token usage, and the record
  of what each attempt spent.

  Text is a list of code points. A JSON value is the library's \<open>serde_json::Value\<close>, its numbers as
  their text.
\<close>

section \<open>Data\<close>

datatype json =
    JNull
  | JBool bool
  | JNumber ustring
  | JString ustring
  | JArray "json list"
  | JObject "(ustring \<times> json) list"

datatype role = SystemRole | UserRole | AssistantRole | ToolRole

definition role_str :: "role \<Rightarrow> ustring" where
  "role_str r = (case r of
     SystemRole \<Rightarrow> lit ''system'' | UserRole \<Rightarrow> lit ''user'' | AssistantRole \<Rightarrow> lit ''assistant''
   | ToolRole \<Rightarrow> lit ''tool'')"

record image_data =
  media_type :: ustring
  image_base64 :: ustring

record message_attachment =
  item_id :: ustring
  filename :: ustring
  attachment_size :: nat
  content_type :: ustring
  attachment_path :: ustring

record message_sender =
  sender_name :: ustring
  sender_id :: ustring
  sender_interface :: ustring
  sender_location :: "ustring option"

record agent_sender =
  agent_address :: ustring
  agent_category :: ustring
  agent_run_id :: "ustring option"

record tool_call =
  call_id :: ustring
  call_name :: ustring
  call_arguments :: json
  call_server :: "ustring option"

datatype provider_api = AnthropicApi | GeminiApi | OpenAiCompatibleApi | OllamaApi

record thinking_origin =
  origin_provider :: provider_api
  origin_model :: ustring

record thinking_block =
  tb_text :: ustring
  tb_signature :: "ustring option"
  tb_redacted :: "ustring option"
  tb_part :: "ustring option"
  tb_origin :: "thinking_origin option"
  tb_binding :: "ustring option"

definition text_block :: "ustring \<Rightarrow> thinking_block" where
  "text_block t = \<lparr>tb_text = t, tb_signature = None, tb_redacted = None, tb_part = None,
     tb_origin = None, tb_binding = None\<rparr>"

record message =
  msg_role :: role
  msg_content :: ustring
  msg_tool_calls :: "tool_call list option"
  msg_tool_call_id :: "ustring option"
  msg_images :: "image_data list"
  msg_attachments :: "message_attachment list"
  msg_sender :: "message_sender option"
  msg_agent_sender :: "agent_sender option"
  msg_thinking :: "thinking_block list"
  msg_id :: "ustring option"
  msg_context :: bool
  msg_cache_boundary :: "nat option"
  msg_status_line :: "ustring option"

section \<open>Messages\<close>

definition plain_message :: "role \<Rightarrow> ustring \<Rightarrow> message" where
  "plain_message r content = \<lparr>msg_role = r, msg_content = content, msg_tool_calls = None,
     msg_tool_call_id = None, msg_images = [], msg_attachments = [], msg_sender = None,
     msg_agent_sender = None, msg_thinking = [], msg_id = None, msg_context = False,
     msg_cache_boundary = None, msg_status_line = None\<rparr>"

definition user_message :: "ustring \<Rightarrow> message" where
  "user_message content = plain_message UserRole content"

definition user_with_images :: "ustring \<Rightarrow> image_data list \<Rightarrow> message" where
  "user_with_images content images = (plain_message UserRole content)\<lparr>msg_images := images\<rparr>"

definition system_message :: "ustring \<Rightarrow> message" where
  "system_message content = plain_message SystemRole content"

text \<open>Offsets into text are in bytes, of its UTF-8 encoding.\<close>

definition utf8_len_char :: "nat \<Rightarrow> nat" where
  "utf8_len_char c = (if c < 128 then 1 else if c < 2048 then 2 else if c < 65536 then 3 else 4)"

definition utf8_len :: "ustring \<Rightarrow> nat" where
  "utf8_len s = sum_list (map utf8_len_char s)"

definition system_with_cache_boundary :: "ustring \<Rightarrow> ustring \<Rightarrow> message" where
  "system_with_cache_boundary front rest =
     (system_message (front @ rest))\<lparr>msg_cache_boundary := Some (utf8_len front)\<rparr>"

definition assistant_message :: "ustring \<Rightarrow> tool_call list option \<Rightarrow> message" where
  "assistant_message content calls = (plain_message AssistantRole content)\<lparr>msg_tool_calls := calls\<rparr>"

definition tool_message :: "ustring \<Rightarrow> ustring \<Rightarrow> message" where
  "tool_message content i = (plain_message ToolRole content)\<lparr>msg_tool_call_id := Some i\<rparr>"

definition tool_with_images :: "ustring \<Rightarrow> ustring \<Rightarrow> image_data list \<Rightarrow> message" where
  "tool_with_images content i images =
     (plain_message ToolRole content)\<lparr>msg_tool_call_id := Some i, msg_images := images\<rparr>"

definition show_sender :: "message_sender \<Rightarrow> ustring" where
  "show_sender s = sender_name s @ lit '' via '' @ sender_interface s @
     (case sender_location s of Some l \<Rightarrow> lit '' ('' @ l @ lit '')'' | None \<Rightarrow> [])"

definition attributed_content :: "message \<Rightarrow> ustring" where
  "attributed_content m =
     (case msg_sender m of
        Some s \<Rightarrow> lit ''[From: '' @ show_sender s @ lit '']'' @ [10] @ msg_content m
      | None \<Rightarrow> msg_content m)"

section \<open>Reasoning\<close>

datatype replay_scope = SameProvider | SameModel

definition produced_at_scope :: "thinking_origin \<Rightarrow> replay_scope \<Rightarrow> thinking_block \<Rightarrow> bool" where
  "produced_at_scope reader scope b =
     (case tb_origin b of
        Some o1 \<Rightarrow> origin_provider o1 = origin_provider reader \<and>
          (scope = SameProvider \<or> origin_model o1 = origin_model reader)
      | None \<Rightarrow> False)"

definition blocks_produced_at :: "thinking_block list \<Rightarrow> thinking_origin \<Rightarrow> replay_scope \<Rightarrow> thinking_block list" where
  "blocks_produced_at thinking reader scope = filter (produced_at_scope reader scope) thinking"

definition plain_reasoning :: "thinking_block list \<Rightarrow> thinking_origin \<Rightarrow> ustring option" where
  "plain_reasoning thinking reader =
     (let texts = filter (\<lambda>t. t \<noteq> []) (map tb_text (blocks_produced_at thinking reader SameProvider))
      in if texts = [] then None else Some (concat_with [10, 10] texts))"

fun rposition :: "('a \<Rightarrow> bool) \<Rightarrow> 'a list \<Rightarrow> nat option" where
  "rposition P [] = None"
| "rposition P (x # xs) =
     (case rposition P xs of Some i \<Rightarrow> Some (Suc i) | None \<Rightarrow> if P x then Some 0 else None)"

definition is_final_reply :: "message \<Rightarrow> bool" where
  "is_final_reply m \<longleftrightarrow> msg_role m = AssistantRole \<and>
     (case msg_tool_calls m of None \<Rightarrow> True | Some cs \<Rightarrow> cs = [])"

definition current_exchange_start :: "message list \<Rightarrow> nat" where
  "current_exchange_start ms = (case rposition is_final_reply ms of Some i \<Rightarrow> i + 1 | None \<Rightarrow> 0)"

definition readable_thinking :: "thinking_block list \<Rightarrow> ustring list" where
  "readable_thinking bs = filter (\<lambda>t. trim t \<noteq> []) (map tb_text bs)"

definition joined_thinking_text :: "thinking_block list \<Rightarrow> ustring option" where
  "joined_thinking_text bs =
     (let parts = readable_thinking bs in if parts = [] then None else Some (concat_with [10, 10] parts))"

definition without_replay_data :: "message \<Rightarrow> message" where
  "without_replay_data m = m\<lparr>msg_thinking := map text_block (readable_thinking (msg_thinking m))\<rparr>"

text \<open>\<open>strip_code_fences\<close>: the inside of a fenced reply.\<close>

definition strip_code_fences :: "ustring \<Rightarrow> ustring" where
  "strip_code_fences s =
     (case (case strip_prefix (lit ''```json'') s of Some i \<Rightarrow> Some i | None \<Rightarrow> strip_prefix (lit ''```'') s) of
        None \<Rightarrow> s
      | Some inner \<Rightarrow> (case strip_suffix (lit ''```'') inner of Some x \<Rightarrow> trim x | None \<Rightarrow> s))"

section \<open>Images\<close>

definition sniff_image_media_type :: "byte list \<Rightarrow> ustring option" where
  "sniff_image_media_type bs =
     (let sw = (\<lambda>p. take (length p) bs = p) in
      if sw [0x89, 0x50, 0x4E, 0x47] then Some (lit ''image/png'')
      else if sw [0xFF, 0xD8, 0xFF] then Some (lit ''image/jpeg'')
      else if sw [0x47, 0x49, 0x46, 0x38] then Some (lit ''image/gif'')
      else if sw [0x52, 0x49, 0x46, 0x46] \<and> 12 \<le> length bs \<and> take 4 (drop 8 bs) = [0x57, 0x45, 0x42, 0x50]
        then Some (lit ''image/webp'')
      else None)"

definition sniff_image_media_type_base64 :: "ustring \<Rightarrow> ustring option" where
  "sniff_image_media_type_base64 d =
     (if starts_with (lit ''iVBOR'') d then Some (lit ''image/png'')
      else if starts_with (lit ''/9j/'') d then Some (lit ''image/jpeg'')
      else if starts_with (lit ''R0lGO'') d then Some (lit ''image/gif'')
      else if starts_with (lit ''UklGR'') d \<and> take 5 (drop 11 d) = lit ''XRUJQ'' then Some (lit ''image/webp'')
      else None)"

definition request_media_type :: "image_data \<Rightarrow> ustring" where
  "request_media_type i =
     (case sniff_image_media_type_base64 (image_base64 i) of Some t \<Rightarrow> t | None \<Rightarrow> media_type i)"

section \<open>Usage\<close>

definition u32_max :: nat where "u32_max = 2 ^ 32 - 1"

definition saturating_add_u32 :: "nat \<Rightarrow> nat \<Rightarrow> nat" where
  "saturating_add_u32 a b = min u32_max (a + b)"

record usage =
  uncached_input_tokens :: "nat option"
  cache_read_tokens :: "nat option"
  cache_write_tokens :: "nat option"
  cache_write_long_tokens :: "nat option"
  output_tokens :: "nat option"
  reasoning_tokens :: "nat option"

definition reported :: "nat option list \<Rightarrow> nat list" where
  "reported xs = concat (map (\<lambda>x. case x of Some n \<Rightarrow> [n] | None \<Rightarrow> []) xs)"

definition total_input_tokens :: "usage \<Rightarrow> nat option" where
  "total_input_tokens u =
     (case reported [uncached_input_tokens u, cache_read_tokens u, cache_write_tokens u] of
        [] \<Rightarrow> None
      | n # ns \<Rightarrow> Some (foldl saturating_add_u32 n ns))"

definition uncached_from_inclusive_prompt :: "nat option \<Rightarrow> nat option \<Rightarrow> nat option \<Rightarrow> nat option" where
  "uncached_from_inclusive_prompt prompt cr cw =
     map_option (\<lambda>p. p - (case cr of Some n \<Rightarrow> n | None \<Rightarrow> 0) - (case cw of Some n \<Rightarrow> n | None \<Rightarrow> 0)) prompt"

datatype attempt_outcome = Succeeded | Failed

record attempt_usage =
  at_provider :: ustring
  at_model :: ustring
  at_outcome :: attempt_outcome
  at_usage :: "usage option"

datatype stop_reason = EndTurn | ToolUse | MaxTokens | ContentFilter | StopSequence | OtherReason ustring

record images_omitted =
  omitted_model :: ustring
  omitted_count :: nat
  omitted_learned :: bool

record inference_response =
  resp_content :: ustring
  resp_tool_calls :: "tool_call list"
  resp_usage :: "usage option"
  resp_thinking :: "thinking_block list"
  resp_stop_reason :: "stop_reason option"
  resp_images_omitted :: "images_omitted option"
  resp_thinking_dropped :: nat
  resp_attempts :: "attempt_usage list"

definition new_response :: "ustring \<Rightarrow> tool_call list \<Rightarrow> inference_response" where
  "new_response content calls = \<lparr>resp_content = content, resp_tool_calls = calls, resp_usage = None,
     resp_thinking = [], resp_stop_reason = None, resp_images_omitted = None, resp_thinking_dropped = 0,
     resp_attempts = []\<rparr>"

definition answered_by :: "inference_response \<Rightarrow> attempt_usage option" where
  "answered_by r = (if resp_attempts r = [] then None else Some (List.last (resp_attempts r)))"

definition produced_at :: "thinking_origin \<Rightarrow> inference_response \<Rightarrow> inference_response" where
  "produced_at o1 r = r\<lparr>resp_thinking := map (\<lambda>b. b\<lparr>tb_origin := Some o1\<rparr>) (resp_thinking r)\<rparr>"

definition was_truncated :: "inference_response \<Rightarrow> bool" where
  "was_truncated r \<longleftrightarrow> resp_stop_reason r = Some MaxTokens"

section \<open>Reasoning goes back only to who produced it\<close>

lemma readable_text_block: "readable_thinking (map text_block ts) = filter (\<lambda>t. trim t \<noteq> []) ts"
  by (simp add: readable_thinking_def text_block_def comp_def)

text \<open>A provider replays exactly the reasoning it is entitled to: blocks its own API returned
  (and, for signed reasoning, its own model), in order, and never a block without an origin. What the
  failover chain stamps on a reply is what its provider may replay and no other provider may, and an
  archived message replays nothing anywhere while reading the same.\<close>

theorem reasoning_goes_home:
  "blocks_produced_at thinking reader scope =
     filter (\<lambda>b. \<exists>o1. tb_origin b = Some o1 \<and> origin_provider o1 = origin_provider reader \<and>
       (scope = SameModel \<longrightarrow> origin_model o1 = origin_model reader)) thinking \<and>
   blocks_produced_at (resp_thinking (produced_at reader r)) reader scope = resp_thinking (produced_at reader r) \<and>
   (origin_provider other = origin_provider reader \<or>
     blocks_produced_at (resp_thinking (produced_at other r)) reader scope = []) \<and>
   blocks_produced_at (msg_thinking (without_replay_data m)) reader scope = [] \<and>
   readable_thinking (msg_thinking (without_replay_data m)) = readable_thinking (msg_thinking m) \<and>
   attributed_content (without_replay_data m) = attributed_content m"
proof (intro conjI)
  have "produced_at_scope reader scope b \<longleftrightarrow>
      (\<exists>o1. tb_origin b = Some o1 \<and> origin_provider o1 = origin_provider reader \<and>
        (scope = SameModel \<longrightarrow> origin_model o1 = origin_model reader))" for b
    by (cases scope; cases "tb_origin b") (auto simp: produced_at_scope_def)
  then have "produced_at_scope reader scope = (\<lambda>b. \<exists>o1. tb_origin b = Some o1 \<and>
      origin_provider o1 = origin_provider reader \<and> (scope = SameModel \<longrightarrow> origin_model o1 = origin_model reader))"
    by (intro ext)
  then show "blocks_produced_at thinking reader scope =
     filter (\<lambda>b. \<exists>o1. tb_origin b = Some o1 \<and> origin_provider o1 = origin_provider reader \<and>
       (scope = SameModel \<longrightarrow> origin_model o1 = origin_model reader)) thinking"
    unfolding blocks_produced_at_def by simp
  show "readable_thinking (msg_thinking (without_replay_data m)) = readable_thinking (msg_thinking m)"
    by (simp add: without_replay_data_def readable_text_block) (simp add: readable_thinking_def)
  show "attributed_content (without_replay_data m) = attributed_content m"
    by (cases "msg_sender m") (simp_all add: attributed_content_def without_replay_data_def)
qed (auto simp: blocks_produced_at_def produced_at_scope_def produced_at_def without_replay_data_def
    text_block_def filter_empty_conv)

section \<open>Image types read from base64\<close>

text \<open>The standard base64 alphabet and encoding, the form image data is stored in.\<close>

definition b64_char :: "nat \<Rightarrow> nat" where
  "b64_char n = (if n < 26 then 65 + n else if n < 52 then 97 + (n - 26) else if n < 62 then 48 + (n - 52)
     else if n = 62 then 43 else 47)"

fun base64 :: "byte list \<Rightarrow> ustring" where
  "base64 [] = []"
| "base64 [a] = [b64_char (unat a div 4), b64_char (unat a mod 4 * 16), 61, 61]"
| "base64 [a, b] = [b64_char (unat a div 4), b64_char (unat a mod 4 * 16 + unat b div 16),
     b64_char (unat b mod 16 * 4), 61]"
| "base64 (a # b # c # rest) =
     [b64_char (unat a div 4), b64_char (unat a mod 4 * 16 + unat b div 16),
      b64_char (unat b mod 16 * 4 + unat c div 64), b64_char (unat c mod 64)] @ base64 rest"

lemma base64_head: "\<exists>rest'. base64 (a # rest) = b64_char (unat a div 4) # rest'"
  by (cases rest; cases "tl rest") auto

lemma prefix_split: "take (length p) bs = p \<Longrightarrow> \<exists>rest. bs = p @ rest"
  by (metis append_take_drop_id)

lemma base64_magic:
  "base64 (0x89 # 0x50 # 0x4E # rest) = [105, 86, 66, 79] @ base64 rest"
  "base64 (0xFF # 0xD8 # 0xFF # rest) = [47, 57, 106, 47] @ base64 rest"
  "base64 (0x47 # 0x49 # 0x46 # rest) = [82, 48, 108, 71] @ base64 rest"
  "base64 (0x52 # 0x49 # 0x46 # rest) = [85, 107, 108, 71] @ base64 rest"
  by (simp_all add: b64_char_def)

lemma base64_fourth:
  "\<exists>r. base64 (0x47 # rest) = 82 # r" "\<exists>r. base64 (0x38 # rest) = 79 # r" "\<exists>r. base64 (0x46 # rest) = 82 # r"
  using base64_head [of "0x47" rest] base64_head [of "0x38" rest] base64_head [of "0x46" rest]
  by (simp_all add: b64_char_def)

text \<open>Reading an image's type from its base64 text agrees with reading it from its bytes: every
  image that is one of the four known formats is recognised as that format without decoding it, so
  the label sent to a provider is right whatever label was stored.\<close>

theorem image_type_read_from_base64:
  assumes "sniff_image_media_type bs = Some t"
  shows "sniff_image_media_type_base64 (base64 bs) = Some t \<and>
    request_media_type \<lparr>media_type = label, image_base64 = base64 bs\<rparr> = t"
proof -
  have main: "sniff_image_media_type_base64 (base64 bs) = Some t"
  proof -
    consider
        (png) "take (length ([0x89, 0x50, 0x4E, 0x47] :: byte list)) bs = [0x89, 0x50, 0x4E, 0x47]" "t = lit ''image/png''"
      | (jpeg) "take (length ([0xFF, 0xD8, 0xFF] :: byte list)) bs = [0xFF, 0xD8, 0xFF]" "t = lit ''image/jpeg''"
      | (gif) "take (length ([0x47, 0x49, 0x46, 0x38] :: byte list)) bs = [0x47, 0x49, 0x46, 0x38]" "t = lit ''image/gif''"
      | (webp) "take (length ([0x52, 0x49, 0x46, 0x46] :: byte list)) bs = [0x52, 0x49, 0x46, 0x46]" "12 \<le> length bs" "take 4 (drop 8 bs) = [0x57, 0x45, 0x42, 0x50]"
          "t = lit ''image/webp''"
      using assms unfolding sniff_image_media_type_def Let_def
      by (simp only: option.inject split: if_split_asm) blast+
    then show ?thesis
    proof cases
      case png
      then obtain rest where b: "bs = [0x89, 0x50, 0x4E, 0x47] @ rest"
        using prefix_split [OF png(1)] by blast
      obtain r where "base64 (0x47 # rest) = 82 # r" using base64_fourth(1) by blast
      then show ?thesis
        by (simp add: b png base64_magic sniff_image_media_type_base64_def starts_with_def lit_def del: base64.simps)
    next
      case jpeg
      then obtain rest where b: "bs = [0xFF, 0xD8, 0xFF] @ rest"
        using prefix_split [OF jpeg(1)] by blast
      show ?thesis
        by (simp add: b jpeg base64_magic sniff_image_media_type_base64_def starts_with_def lit_def del: base64.simps)
    next
      case gif
      then obtain rest where b: "bs = [0x47, 0x49, 0x46, 0x38] @ rest"
        using prefix_split [OF gif(1)] by blast
      obtain r where "base64 (0x38 # rest) = 79 # r" using base64_fourth(2) by blast
      then show ?thesis
        by (simp add: b gif base64_magic sniff_image_media_type_base64_def starts_with_def lit_def del: base64.simps)
    next
      case webp
      then obtain r1 where b: "bs = [0x52, 0x49, 0x46, 0x46] @ r1"
        using prefix_split [OF webp(1)] by blast
      have "8 \<le> length r1" using webp b by simp
      then obtain x1 x2 x3 x4 r2 where x: "r1 = x1 # x2 # x3 # x4 # r2"
        by (metis Suc_le_length_iff numeral_eq_Suc pred_numeral_simps BitM.simps)
      have "take (length ([0x57, 0x45, 0x42, 0x50] :: byte list)) r2 = [0x57, 0x45, 0x42, 0x50]"
        using webp b x by (simp add: eval_nat_numeral)
      then obtain rest where r: "r2 = [0x57, 0x45, 0x42, 0x50] @ rest"
        using prefix_split by blast
      show ?thesis
        by (simp add: b x r webp sniff_image_media_type_base64_def starts_with_def lit_def b64_char_def)
    qed
  qed
  then show ?thesis by (simp add: request_media_type_def)
qed

lemma image_type_read_from_base64_witness:
  "request_media_type \<lparr>media_type = lit ''image/jpeg'', image_base64 = base64 [0x47, 0x49, 0x46, 0x38, 0x39, 0x61]\<rparr>
     = lit ''image/gif''"
  by (rule image_type_read_from_base64 [THEN conjunct2]) (simp add: sniff_image_media_type_def)

section \<open>Usage adds up\<close>

text \<open>The input counts of a provider whose prompt count includes the cached part add up again:
  the uncached rest, the cache reads and the cache writes make the whole prompt, as long as the
  cached part is part of it, and never less than the prompt otherwise; the total never exceeds
  what 32 bits hold, and is missing only when nothing was reported.\<close>

theorem prompt_parts_add_up:
  assumes "prompt \<le> u32_max" "\<forall>n. cr = Some n \<longrightarrow> n \<le> u32_max" "\<forall>n. cw = Some n \<longrightarrow> n \<le> u32_max"
    and "uncached_input_tokens u = uncached_from_inclusive_prompt (Some prompt) cr cw"
    and "cache_read_tokens u = cr" "cache_write_tokens u = cw"
  defines "cached \<equiv> (case cr of Some n \<Rightarrow> n | None \<Rightarrow> 0) + (case cw of Some n \<Rightarrow> n | None \<Rightarrow> 0)"
  shows "total_input_tokens u = Some (min u32_max (max prompt cached)) \<and>
    (total_input_tokens w = None \<longleftrightarrow>
      uncached_input_tokens w = None \<and> cache_read_tokens w = None \<and> cache_write_tokens w = None)"
proof (rule conjI)
  show "total_input_tokens u = Some (min u32_max (max prompt cached))"
    using assms(1-6) unfolding cached_def
    by (cases cr; cases cw)
      (auto simp: total_input_tokens_def reported_def uncached_from_inclusive_prompt_def saturating_add_u32_def)
  show "total_input_tokens w = None \<longleftrightarrow>
      uncached_input_tokens w = None \<and> cache_read_tokens w = None \<and> cache_write_tokens w = None"
    by (cases "uncached_input_tokens w"; cases "cache_read_tokens w"; cases "cache_write_tokens w")
      (simp_all add: total_input_tokens_def reported_def)
qed

end
