(* ===== verification/Inference_Errors.thy ===== *)
theory Inference_Errors
  imports Inference_Types Rust_Numbers
begin

text \<open>
  Errors of model calls (\<open>crates/inference/src/error.rs\<close>): the error with the attempts it carries,
  whether it is worth a retry, what kind of failure it is, and the sentence the user reads.

  A \<open>reqwest::Error\<close> is its display text. \<open>str::to_lowercase\<close> is Unicode's table, here the argument
  \<open>lower\<close>; only its value on ASCII text is used (\<open>lower_ascii\<close>).
\<close>

section \<open>The error\<close>

datatype inference_error =
    RequestError ustring
  | ParseError ustring
  | ApiError ustring
  | Timeout nat
  | Stalled nat
  | StreamInterrupted ustring
  | Attempted inference_error "attempt_usage list"

fun show_error :: "inference_error \<Rightarrow> ustring" where
  "show_error (RequestError e) = lit ''HTTP request failed: '' @ e"
| "show_error (ParseError m) = lit ''failed to parse response: '' @ m"
| "show_error (ApiError m) = lit ''API error: '' @ m"
| "show_error (Timeout s) = lit ''request timed out after '' @ show_nat s @ lit '' seconds''"
| "show_error (Stalled s) = lit ''the model stopped responding for '' @ show_nat s @ lit ''s''"
| "show_error (StreamInterrupted m) = lit ''the response stream was interrupted: '' @ m"
| "show_error (Attempted e ats) = show_error e"

text \<open>The cause of an error: the HTTP library's own error, for a request that failed.\<close>

fun error_source :: "inference_error \<Rightarrow> ustring option" where
  "error_source (RequestError e) = Some e"
| "error_source (Attempted e ats) = error_source e"
| "error_source (ParseError m) = None"
| "error_source (ApiError m) = None"
| "error_source (Timeout s) = None"
| "error_source (Stalled s) = None"
| "error_source (StreamInterrupted m) = None"

definition underlying :: "inference_error \<Rightarrow> inference_error" where
  "underlying e = (case e of Attempted error ats \<Rightarrow> error | bare \<Rightarrow> bare)"

definition error_attempts :: "inference_error \<Rightarrow> attempt_usage list" where
  "error_attempts e = (case e of Attempted error ats \<Rightarrow> ats | bare \<Rightarrow> [])"

definition into_parts :: "inference_error \<Rightarrow> inference_error \<times> attempt_usage list" where
  "into_parts e = (case e of Attempted error ats \<Rightarrow> (error, ats) | bare \<Rightarrow> (bare, []))"

definition error_after_attempts :: "inference_error \<Rightarrow> attempt_usage list \<Rightarrow> inference_error" where
  "error_after_attempts e earlier =
     (let (error, own) = into_parts e;
          earlier = earlier @ own
      in if earlier = [] then error else Attempted error earlier)"

section \<open>Statuses in error messages\<close>

definition lower_ascii :: "(ustring \<Rightarrow> ustring) \<Rightarrow> bool" where
  "lower_ascii lower \<longleftrightarrow> (\<forall>s. list_all (\<lambda>c. c < 128) s \<longrightarrow> lower s = to_ascii_lowercase s)"

text \<open>The first three bytes as three digits; a character that is no digit has a byte that is none.\<close>

definition leading_status :: "ustring \<Rightarrow> nat option" where
  "leading_status t =
     (if length t < 3 then None
      else if 3 < length t \<and> is_ascii_digit (t ! 3) then None
      else if \<not> list_all is_ascii_digit (take 3 t) then None
      else let s = digits_value (take 3 t) in if 100 \<le> s \<and> s < 600 then Some s else None)"

definition http_status :: "ustring \<Rightarrow> nat option" where
  "http_status low =
     (case leading_status low of
        Some s \<Rightarrow> Some s
      | None \<Rightarrow>
          (case split_once_str (lit ''error '') low of
             Some (_, after) \<Rightarrow> leading_status after
           | None \<Rightarrow> None))"

definition has_server_error_type :: "ustring \<Rightarrow> bool" where
  "has_server_error_type low \<longleftrightarrow> contains_str (lit ''api_error'') low \<or> contains_str (lit ''server_error'') low"

definition any_of :: "string list \<Rightarrow> ustring \<Rightarrow> bool" where
  "any_of ws low \<longleftrightarrow> list_ex (\<lambda>w. contains_str (lit w) low) ws"

section \<open>Retryable\<close>

definition api_retryable :: "ustring \<Rightarrow> bool" where
  "api_retryable low =
     (case http_status low of
        Some s \<Rightarrow> s \<in> {408, 429, 498} \<or> 500 \<le> s
      | None \<Rightarrow> any_of [''rate'', ''limit'', ''overload'', ''capacity''] low \<or> has_server_error_type low)"

definition is_retryable :: "(ustring \<Rightarrow> ustring) \<Rightarrow> inference_error \<Rightarrow> bool" where
  "is_retryable lower e =
     (case underlying e of
        RequestError m \<Rightarrow> True
      | Timeout s \<Rightarrow> True
      | Stalled s \<Rightarrow> True
      | StreamInterrupted m \<Rightarrow> True
      | ParseError m \<Rightarrow> False
      | Attempted e' ats \<Rightarrow> False
      | ApiError m \<Rightarrow> api_retryable (lower m))"

section \<open>What went wrong\<close>

datatype failure_category =
    AuthFailed | ToolsWithThinkingUnsupported | RateLimited | ContextTooLong | ModelNotFound
  | ProviderOutage | NetworkUnreachable | ConnectionLost | TimedOut | Unclassified

definition TOOLS_WITH_REASONING_EFFORT_REJECTION :: string where
  "TOOLS_WITH_REASONING_EFFORT_REJECTION = ''function tools with reasoning_effort are not supported''"

definition from_api_message :: "(ustring \<Rightarrow> ustring) \<Rightarrow> ustring \<Rightarrow> failure_category" where
  "from_api_message lower m =
     (let low = lower m;
          status = http_status low;
          has_status = (\<lambda>codes. case status of Some s \<Rightarrow> s \<in> codes | None \<Rightarrow> False)
      in
      if has_status {401, 403} \<or>
         any_of [''invalid api key'', ''invalid x-api-key'', ''authentication_error'', ''authentication failed'',
           ''incorrect api key''] low then AuthFailed
      else if contains_str (lit TOOLS_WITH_REASONING_EFFORT_REJECTION) low then ToolsWithThinkingUnsupported
      else if has_status {429} \<or> any_of [''rate_limit'', ''rate limit'', ''quota''] low then RateLimited
      else if any_of [''context_length_exceeded'', ''maximum context length'', ''context window'',
           ''too many tokens'', ''prompt is too long''] low then ContextTooLong
      else if any_of [''model_not_found'', ''no such model'', ''does not exist''] low \<or>
         (contains_str (lit ''model'') low \<and> contains_str (lit ''not found'') low) then ModelNotFound
      else if has_status {500, 502, 503, 504} \<or> has_server_error_type low \<or>
         any_of [''overloaded_error'', ''overload'', ''capacity'', ''internal server error'', ''bad gateway'',
           ''service unavailable''] low then ProviderOutage
      else Unclassified)"

definition category :: "(ustring \<Rightarrow> ustring) \<Rightarrow> inference_error \<Rightarrow> failure_category" where
  "category lower e =
     (case underlying e of
        Timeout s \<Rightarrow> TimedOut
      | Stalled s \<Rightarrow> TimedOut
      | StreamInterrupted m \<Rightarrow> ConnectionLost
      | RequestError m \<Rightarrow> NetworkUnreachable
      | ParseError m \<Rightarrow> Unclassified
      | Attempted e' ats \<Rightarrow> Unclassified
      | ApiError m \<Rightarrow> from_api_message lower m)"

definition category_phrase :: "failure_category \<Rightarrow> ustring" where
  "category_phrase c = lit (case c of
     AuthFailed \<Rightarrow> ''an authentication failure''
   | ToolsWithThinkingUnsupported \<Rightarrow> ''the model not taking tools with thinking on''
   | RateLimited \<Rightarrow> ''rate limiting''
   | ContextTooLong \<Rightarrow> ''the conversation exceeding the model's context limit''
   | ModelNotFound \<Rightarrow> ''the configured model being unavailable''
   | ProviderOutage \<Rightarrow> ''a server error at the provider''
   | NetworkUnreachable \<Rightarrow> ''a network problem''
   | ConnectionLost \<Rightarrow> ''a dropped connection''
   | TimedOut \<Rightarrow> ''a timeout''
   | Unclassified \<Rightarrow> ''an error talking to the AI provider'')"

definition cause_phrase :: "(ustring \<Rightarrow> ustring) \<Rightarrow> inference_error \<Rightarrow> ustring" where
  "cause_phrase lower e = category_phrase (category lower e)"

text \<open>The characters outside ASCII in the sentences: a right arrow and a long dash.\<close>

definition settings_model :: ustring where
  "settings_model = lit ''Settings '' @ [8594] @ lit '' Model''"

definition slow_provider :: ustring where
  "slow_provider = lit ''Try again '' @ [8212] @
     lit '' if it keeps happening, the provider may be slow or overloaded.''"

definition category_message :: "failure_category \<Rightarrow> inference_error \<Rightarrow> ustring" where
  "category_message c e = (case c of
     AuthFailed \<Rightarrow> lit ''Residuum couldn't authenticate with the AI provider. Check that the API key in ''
       @ settings_model @ lit '' is correct and hasn't expired.''
   | ToolsWithThinkingUnsupported \<Rightarrow> lit ''This model can't use tools while thinking is on, through the API Residuum uses for it. Turn thinking off for this model in ''
       @ settings_model @ lit '', or choose another model.''
   | RateLimited \<Rightarrow> lit ''The AI provider is rate-limiting requests right now. Wait a moment and try again, or check your usage limits with the provider.''
   | ContextTooLong \<Rightarrow> lit ''The conversation is too long for the model's context window. Start a new conversation or shorten this one, then try again.''
   | ModelNotFound \<Rightarrow> lit ''The configured model isn't available from the provider. Check the model name in ''
       @ settings_model @ lit ''.''
   | ProviderOutage \<Rightarrow> lit ''The AI provider is having problems on its end. Try again shortly.''
   | NetworkUnreachable \<Rightarrow> lit ''Residuum couldn't reach the AI provider. Check your internet connection and try again.''
   | ConnectionLost \<Rightarrow> lit ''The connection to the AI provider dropped before the answer finished. Try again.''
   | TimedOut \<Rightarrow> (case e of
       Timeout s \<Rightarrow> lit ''The request to the AI provider timed out after '' @ show_nat s @ lit '' seconds. '' @ slow_provider
     | Stalled s \<Rightarrow> lit ''The AI provider stopped responding for '' @ show_nat s
         @ lit '' seconds before it finished its answer. '' @ slow_provider
     | _ \<Rightarrow> lit ''The request to the AI provider timed out. '' @ slow_provider)
   | Unclassified \<Rightarrow> lit ''Something went wrong talking to the AI provider. Try again; if it keeps happening, check Residuum's logs for details.'')"

definition error_user_message :: "(ustring \<Rightarrow> ustring) \<Rightarrow> inference_error \<Rightarrow> ustring" where
  "error_user_message lower e = category_message (category lower e) (underlying e)"

definition IMAGE_INPUT_REJECTIONS :: "ustring list" where
  "IMAGE_INPUT_REJECTIONS =
     [lit ''messages.content.type is invalid'',
      lit ''image_url is only supported by certain models'',
      lit ''unknown variant '' @ [96] @ lit ''image_url'' @ [96]]"

definition rejects_image_input :: "(ustring \<Rightarrow> ustring) \<Rightarrow> inference_error \<Rightarrow> bool" where
  "rejects_image_input lower e =
     (case underlying e of
        ApiError m \<Rightarrow> list_ex (\<lambda>r. contains_str r (lower m)) IMAGE_INPUT_REJECTIONS
      | _ \<Rightarrow> False)"

text \<open>\<open>describe_turn_failure\<close>: an error chain of anyhow, outermost first, each link its text and the
  model error it is, if it is one.\<close>

record failure_description =
  failure_message :: ustring
  failure_details :: ustring

definition describe_turn_failure :: "(ustring \<Rightarrow> ustring) \<Rightarrow> (ustring \<times> inference_error option) list \<Rightarrow> failure_description" where
  "describe_turn_failure lower chain =
     \<lparr>failure_message =
        (case List.find (\<lambda>(_, e). e \<noteq> None) chain of
           Some (_, Some e) \<Rightarrow> error_user_message lower e
         | _ \<Rightarrow> lit ''Something went wrong while the agent was working. Try again; if it keeps happening, check Residuum's logs for details.''),
      failure_details = concat_with (lit '': '') (map fst chain)\<rparr>"

section \<open>Attempts do not change what an error is\<close>

text \<open>Errors as the code builds them: a record of attempts is never nested and never empty.\<close>

fun flat_error :: "inference_error \<Rightarrow> bool" where
  "flat_error (Attempted (Attempted e b) a) = False"
| "flat_error (Attempted e a) = (a \<noteq> [])"
| "flat_error e = True"

lemma into_parts_eq: "into_parts e = (underlying e, error_attempts e)"
  by (simp add: into_parts_def underlying_def error_attempts_def split: inference_error.split)

lemma underlying_bare: "flat_error e \<Longrightarrow> underlying (underlying e) = underlying e \<and> error_attempts (underlying e) = []"
  by (cases e rule: flat_error.cases) (simp_all add: underlying_def error_attempts_def)

lemma after_attempts_underlying [simp]: "flat_error e \<Longrightarrow> underlying (error_after_attempts e es) = underlying e"
  using underlying_bare [of e]
  by (simp add: error_after_attempts_def into_parts_eq Let_def) (simp add: underlying_def)

lemma after_attempts_ledger [simp]:
  "flat_error e \<Longrightarrow> error_attempts (error_after_attempts e es) = es @ error_attempts e"
  using underlying_bare [of e]
  by (simp add: error_after_attempts_def into_parts_eq Let_def) (simp add: error_attempts_def)

lemma after_attempts_flat [simp]: "flat_error e \<Longrightarrow> flat_error (error_after_attempts e es)"
proof -
  assume f: "flat_error e"
  have "flat_error (underlying e) \<and> (\<forall>a. a \<noteq> [] \<longrightarrow> flat_error (Attempted (underlying e) a))"
    using f by (cases e rule: flat_error.cases) (simp_all add: underlying_def)
  then show ?thesis by (simp add: error_after_attempts_def into_parts_eq Let_def)
qed

lemma show_underlying: "flat_error e \<Longrightarrow> show_error (underlying e) = show_error e \<and> error_source (underlying e) = error_source e"
  by (cases e rule: flat_error.cases) (simp_all add: underlying_def)

lemma show_by_underlying: "flat_error e \<Longrightarrow> flat_error e' \<Longrightarrow> underlying e = underlying e' \<Longrightarrow>
    show_error e = show_error e' \<and> error_source e = error_source e'"
  using show_underlying by metis

lemma after_attempts_Nil: "flat_error e \<Longrightarrow> error_after_attempts e [] = e"
  by (cases e rule: flat_error.cases) (simp_all add: error_after_attempts_def into_parts_def)

lemma after_attempts_append:
  "flat_error e \<Longrightarrow> error_after_attempts (error_after_attempts e b) a = error_after_attempts e (a @ b)"
  by (cases e rule: flat_error.cases; cases b; cases a) (simp_all add: error_after_attempts_def into_parts_def)

text \<open>Recording attempts on an error changes nothing but the record: it reads the same, has the
  same cause, is retried or not, blamed, explained and taken for an image rejection as before, never
  nests, and lists the new attempts ahead of those it already had.\<close>

theorem recording_keeps_the_error:
  assumes "flat_error e"
  shows "error_attempts (error_after_attempts e es) = es @ error_attempts e \<and>
    flat_error (error_after_attempts e es) \<and>
    show_error (error_after_attempts e es) = show_error e \<and>
    error_source (error_after_attempts e es) = error_source e \<and>
    is_retryable lower (error_after_attempts e es) = is_retryable lower e \<and>
    cause_phrase lower (error_after_attempts e es) = cause_phrase lower e \<and>
    error_user_message lower (error_after_attempts e es) = error_user_message lower e \<and>
    rejects_image_input lower (error_after_attempts e es) = rejects_image_input lower e"
  using show_by_underlying [OF after_attempts_flat [OF assms] assms] assms
  by (simp add: is_retryable_def cause_phrase_def category_def error_user_message_def rejects_image_input_def)

lemma recording_keeps_the_error_witness:
  "show_error (error_after_attempts (Timeout 5) [\<lparr>at_provider = [], at_model = [], at_outcome = Failed, at_usage = None\<rparr>])
     = show_error (Timeout 5)"
  using recording_keeps_the_error [of "Timeout 5"] by simp

section \<open>Classification\<close>

lemma leading_status_digits:
  assumes "100 \<le> s" "s < 600" "rest = [] \<or> \<not> is_ascii_digit (hd rest)" "length (show_nat s) = 3"
  shows "leading_status (show_nat s @ rest) = Some s"
  using assms show_nat_digits [of s] show_nat_value [of s]
  by (cases rest) (auto simp: leading_status_def all_digits_def nth_append)

lemma length_show_status: "100 \<le> s \<Longrightarrow> s < 1000 \<Longrightarrow> length (show_nat s) = 3"
proof -
  assume s: "100 \<le> s" "s < 1000"
  have "length (show_nat (s div 10 div 10)) = 1" using s by (subst show_nat.simps) simp
  then have "length (show_nat (s div 10)) = 2" using s by (subst show_nat.simps) simp
  then show ?thesis using s by (subst show_nat.simps) simp
qed

lemma lower_digits: "all_digits ds \<Longrightarrow> to_ascii_lowercase ds = ds"
proof -
  assume "all_digits ds"
  then have "\<forall>c\<in>set ds. ascii_lower_char c = c"
    by (auto simp: all_digits_def list_all_iff is_ascii_digit_def ascii_lower_char_def is_ascii_upper_def)
  then show ?thesis unfolding to_ascii_lowercase_def by (simp add: map_idI)
qed

lemma lower_digit_iff [simp]: "is_ascii_digit (ascii_lower_char c) = is_ascii_digit c"
  by (auto simp: is_ascii_digit_def ascii_lower_char_def is_ascii_upper_def)

definition names_status :: "nat \<Rightarrow> ustring \<Rightarrow> bool" where
  "names_status s m \<longleftrightarrow> (\<exists>rest. m = show_nat s @ rest \<and> (rest = [] \<or> \<not> is_ascii_digit (hd rest)) \<and>
     list_all (\<lambda>c. c < 128) rest)"

lemma names_status_http:
  assumes "names_status s m" "100 \<le> s" "s < 600" "lower_ascii lower"
  shows "http_status (lower m) = Some s"
proof -
  obtain rest where m: "m = show_nat s @ rest" "rest = [] \<or> \<not> is_ascii_digit (hd rest)" "list_all (\<lambda>c. c < 128) rest"
    using assms(1) by (auto simp: names_status_def)
  have d: "all_digits (show_nat s)" by (rule show_nat_digits)
  then have "list_all (\<lambda>c. c < 128) m" using m(1,3) by (auto simp: all_digits_def is_ascii_digit_def list_all_iff)
  then have l: "lower m = show_nat s @ to_ascii_lowercase rest"
    using assms(4) m(1) lower_digits [OF d] by (simp add: lower_ascii_def)
  have "to_ascii_lowercase rest = [] \<or> \<not> is_ascii_digit (hd (to_ascii_lowercase rest))"
    using m(2) by (cases rest) (simp_all add: to_ascii_lowercase_def)
  then show ?thesis
    using leading_status_digits [OF assms(2,3) _ length_show_status] assms(2,3) by (simp add: http_status_def l)
qed

text \<open>A provider's error whose message starts with an HTTP status is judged by that status alone:
  it is retried exactly on a timeout (408), a rate limit (429), Groq's capacity refusal (498) or a
  server error; 401 and 403 are authentication failures. A message without a status is judged by its
  words, where any word that contains \<open>rate\<close>, such as ``generate'', counts as rate limiting for the retry
  though not for what the user is told.\<close>

theorem status_decides_retry:
  assumes "lower_ascii lower" "100 \<le> s" "s < 600" "names_status s m"
  shows "is_retryable lower (ApiError m) = (s \<in> {408, 429, 498} \<or> 500 \<le> s) \<and>
    (s \<in> {401, 403} \<longrightarrow> category lower (ApiError m) = AuthFailed) \<and>
    is_retryable lower (ApiError (lit ''cannot generate text'')) \<and>
    category lower (ApiError (lit ''cannot generate text'')) = Unclassified"
proof (intro conjI impI)
  have h: "http_status (lower m) = Some s" using names_status_http assms by blast
  then show "is_retryable lower (ApiError m) = (s \<in> {408, 429, 498} \<or> 500 \<le> s)"
    by (simp add: is_retryable_def underlying_def api_retryable_def)
  show "category lower (ApiError m) = AuthFailed" if "s \<in> {401, 403}"
    using h that by (simp add: category_def underlying_def from_api_message_def Let_def)
  have l: "lower (lit ''cannot generate text'') = lit ''cannot generate text''"
    using assms(1) by (simp add: lower_ascii_def lit_def to_ascii_lowercase_def ascii_lower_char_def is_ascii_upper_def)
  show "is_retryable lower (ApiError (lit ''cannot generate text''))"
    by (simp add: is_retryable_def underlying_def l api_retryable_def) (simp add: http_status_def leading_status_def
        lit_def is_ascii_digit_def any_of_def starts_with_def)
  show "category lower (ApiError (lit ''cannot generate text'')) = Unclassified"
    by (simp add: category_def underlying_def l from_api_message_def) (simp add: http_status_def leading_status_def
        lit_def is_ascii_digit_def any_of_def starts_with_def has_server_error_type_def TOOLS_WITH_REASONING_EFFORT_REJECTION_def)
qed

lemma status_decides_retry_witness:
  "is_retryable to_ascii_lowercase (ApiError (lit ''503 Unavailable''))"
proof -
  have "show_nat 503 = lit ''503''" by (simp add: show_nat.simps lit_def)
  then have "names_status 503 (lit ''503 Unavailable'')"
    unfolding names_status_def by (intro exI [of _ "lit '' Unavailable''"]) (simp add: lit_def is_ascii_digit_def)
  moreover have "lower_ascii to_ascii_lowercase" by (simp add: lower_ascii_def)
  ultimately show ?thesis using status_decides_retry [of to_ascii_lowercase 503 "lit ''503 Unavailable''"] by simp
qed

definition no_digits :: "ustring \<Rightarrow> bool" where
  "no_digits s \<longleftrightarrow> list_all (\<lambda>c. \<not> is_ascii_digit c) s"

lemma category_message_digits: "c \<noteq> TimedOut \<Longrightarrow> no_digits (category_message c e)"
  by (cases c) (simp_all add: category_message_def no_digits_def settings_model_def lit_def is_ascii_digit_def)

lemma from_api_not_timed_out: "from_api_message lower m \<noteq> TimedOut"
  by (simp add: from_api_message_def Let_def)

text \<open>The sentence a user reads about a failed call never carries a status code or anything of
  the provider's own text: it is fixed by the kind of failure, without a digit in it, unless the call
  timed out, when it names the seconds.\<close>

theorem user_message_hides_codes:
  assumes "\<forall>s. underlying e \<noteq> Timeout s \<and> underlying e \<noteq> Stalled s"
  shows "no_digits (error_user_message lower e) \<and>
    (category lower e' = category lower e \<longrightarrow> error_user_message lower e' = error_user_message lower e)"
proof -
  have c: "category lower e \<noteq> TimedOut"
    using assms from_api_not_timed_out by (cases "underlying e") (auto simp: category_def)
  then have "category_message (category lower e) x = category_message (category lower e) y" for x y
    by (cases "category lower e") (simp_all add: category_message_def)
  then show ?thesis using category_message_digits [OF c] by (simp add: error_user_message_def)
qed

lemma user_message_hides_codes_witness:
  "no_digits (error_user_message to_ascii_lowercase (ApiError (lit ''500 broken'')))"
  by (rule user_message_hides_codes [THEN conjunct1]) (simp add: underlying_def)

end
