(* ===== verification/Inference_Attempts.thy ===== *)
theory Inference_Attempts
  imports Inference_Errors
begin

text \<open>
  Recording every request a call sends (\<open>crates/inference/src/attempt.rs\<close>) and sending it again after
  a passing failure (\<open>retry.rs\<close>).

  The trait \<open>ListsAttempts\<close> is the locale \<open>lists_attempts\<close>, and \<open>ledger\<close> where the result keeps what
  it is given; its instances are interpretations. The operation that is retried is a function from
  the number of the call to its outcome. Delays are whole milliseconds; multiplying by the backoff
  factor and the random jitter are floating-point, here the arguments \<open>scale\<close> and \<open>jit\<close>.
\<close>

section \<open>Results that list attempts\<close>

locale lists_attempts =
  fixes after :: "'t \<Rightarrow> attempt_usage list \<Rightarrow> 't"
    and ok :: "'t \<Rightarrow> bool"
  assumes after_none: "ok x \<Longrightarrow> after x [] = x"
    and after_twice: "ok x \<Longrightarrow> after (after x b) a = after x (a @ b)"
    and after_ok: "ok x \<Longrightarrow> ok (after x es)"

locale ledger = lists_attempts +
  fixes own :: "'a \<Rightarrow> attempt_usage list"
  assumes own_after: "ok x \<Longrightarrow> own (after x es) = es @ own x"

definition response_after :: "inference_response \<Rightarrow> attempt_usage list \<Rightarrow> inference_response" where
  "response_after r earlier = r\<lparr>resp_attempts := earlier @ resp_attempts r\<rparr>"

text \<open>Embedding vectors are 32-bit floats, here of any type.\<close>

record 'f embedding_response =
  embeddings :: "'f list list"
  dimensions :: nat

definition embedding_after :: "'f embedding_response \<Rightarrow> attempt_usage list \<Rightarrow> 'f embedding_response" where
  "embedding_after r earlier = r"

definition result_after :: "('t \<Rightarrow> attempt_usage list \<Rightarrow> 't) \<Rightarrow>
    inference_error + 't \<Rightarrow> attempt_usage list \<Rightarrow> inference_error + 't" where
  "result_after after r earlier =
     (case r of Inr v \<Rightarrow> Inr (after v earlier) | Inl e \<Rightarrow> Inl (error_after_attempts e earlier))"

definition result_ok :: "('t \<Rightarrow> bool) \<Rightarrow> inference_error + 't \<Rightarrow> bool" where
  "result_ok ok r = (case r of Inr v \<Rightarrow> ok v | Inl e \<Rightarrow> flat_error e)"

definition result_own :: "('t \<Rightarrow> attempt_usage list) \<Rightarrow> inference_error + 't \<Rightarrow> attempt_usage list" where
  "result_own own r = (case r of Inr v \<Rightarrow> own v | Inl e \<Rightarrow> error_attempts e)"

interpretation responses: ledger response_after "\<lambda>_. True" resp_attempts
  by unfold_locales (simp_all add: response_after_def)

interpretation failures: ledger error_after_attempts flat_error error_attempts
  by unfold_locales (simp_all add: after_attempts_Nil after_attempts_append)

interpretation embedded: lists_attempts embedding_after "\<lambda>_. True"
  by unfold_locales (simp_all add: embedding_after_def)

context lists_attempts begin

lemma result_lists: "lists_attempts (result_after after) (result_ok ok)"
  by unfold_locales
    (auto simp: result_after_def result_ok_def after_none after_twice after_ok
      failures.after_none failures.after_twice split: sum.splits)

end

context ledger begin

lemma result_ledger: "ledger (result_after after) (result_ok ok) (result_own own)"
proof (intro ledger.intro ledger_axioms.intro)
  show "lists_attempts (result_after after) (result_ok ok)" by (rule result_lists)
  show "result_own own (result_after after x es) = es @ result_own own x" if "result_ok ok x" for x es
    using that by (auto simp: result_after_def result_ok_def result_own_def own_after split: sum.splits)
qed

end

interpretation response_results: ledger "result_after response_after" "result_ok (\<lambda>_. True)"
    "result_own resp_attempts"
  by (rule responses.result_ledger)

interpretation embedding_results: lists_attempts "result_after embedding_after" "result_ok (\<lambda>_. True)"
  by (rule embedded.result_lists)

text \<open>One request: its outcome with the usage reported before a failure.\<close>

record failed_request =
  fr_error :: inference_error
  fr_usage :: "usage option"

definition request_failed :: "inference_error \<Rightarrow> failed_request" where
  "request_failed e = \<lparr>fr_error = e, fr_usage = None\<rparr>"

definition request_spent :: "inference_error \<Rightarrow> usage option \<Rightarrow> failed_request" where
  "request_spent e u = \<lparr>fr_error = e, fr_usage = u\<rparr>"

definition record_attempt :: "ustring \<Rightarrow> ustring \<Rightarrow> failed_request + inference_response \<Rightarrow>
    inference_error + inference_response" where
  "record_attempt provider model r =
     (let attempt = (\<lambda>outcome u. \<lparr>at_provider = provider, at_model = model, at_outcome = outcome, at_usage = u\<rparr>)
      in case r of
        Inr response \<Rightarrow> Inr (response\<lparr>resp_attempts := [attempt Succeeded (resp_usage response)]\<rparr>)
      | Inl failed \<Rightarrow> Inl (error_after_attempts (fr_error failed) [attempt Failed (fr_usage failed)]))"

section \<open>Retry\<close>

record retry_config =
  max_retries :: nat
  initial_delay :: nat
  max_delay :: nat

text \<open>The loop: its result, and the time slept before each further call.\<close>

function retry_loop :: "('t \<Rightarrow> attempt_usage list \<Rightarrow> 't) \<Rightarrow> (ustring \<Rightarrow> ustring) \<Rightarrow> (nat \<Rightarrow> nat) \<Rightarrow>
    (nat \<Rightarrow> nat \<Rightarrow> nat) \<Rightarrow> retry_config \<Rightarrow> (nat \<Rightarrow> inference_error + 't) \<Rightarrow>
    nat \<Rightarrow> nat \<Rightarrow> attempt_usage list \<Rightarrow> (inference_error + 't) \<times> nat list" where
  "retry_loop after lower scale jit cfg operation attempts delay spent =
     (case operation attempts of
        Inr result \<Rightarrow> (Inr (after result spent), [])
      | Inl e \<Rightarrow>
          (let (e, tried) = into_parts e;
               spent = spent @ tried
           in if \<not> is_retryable lower e then (Inl (error_after_attempts e spent), [])
              else if max_retries cfg \<le> attempts then (Inl (error_after_attempts e spent), [])
              else
                let (r, waits) = retry_loop after lower scale jit cfg operation (attempts + 1)
                      (min (scale delay) (max_delay cfg)) spent
                in (r, jit attempts delay # waits)))"
  by pat_completeness auto

termination retry_loop
  by (relation "measure (\<lambda>(_, _, _, _, cfg, _, attempts, _, _). max_retries cfg - attempts)") auto

declare retry_loop.simps [simp del]

definition with_retry :: "('t \<Rightarrow> attempt_usage list \<Rightarrow> 't) \<Rightarrow> (ustring \<Rightarrow> ustring) \<Rightarrow> (nat \<Rightarrow> nat) \<Rightarrow>
    (nat \<Rightarrow> nat \<Rightarrow> nat) \<Rightarrow> retry_config \<Rightarrow> (nat \<Rightarrow> inference_error + 't) \<Rightarrow> (inference_error + 't) \<times> nat list" where
  "with_retry after lower scale jit cfg operation =
     retry_loop after lower scale jit cfg operation 0 (initial_delay cfg) []"

text \<open>What it comes to: the calls go on up to the first one that succeeds or fails for good, or the
  last that is allowed.\<close>

definition gives_up :: "(ustring \<Rightarrow> ustring) \<Rightarrow> retry_config \<Rightarrow> (nat \<Rightarrow> inference_error + 't) \<Rightarrow> nat \<Rightarrow> bool" where
  "gives_up lower cfg operation k \<longleftrightarrow> max_retries cfg \<le> k \<or>
     (case operation k of Inr r \<Rightarrow> True | Inl e \<Rightarrow> \<not> is_retryable lower (underlying e))"

definition tried_before :: "(nat \<Rightarrow> inference_error + 't) \<Rightarrow> nat \<Rightarrow> nat \<Rightarrow> attempt_usage list" where
  "tried_before operation i k =
     concat (map (\<lambda>j. case operation j of Inl e \<Rightarrow> error_attempts e | Inr r \<Rightarrow> []) [i..<k])"

fun delay_after :: "(nat \<Rightarrow> nat) \<Rightarrow> retry_config \<Rightarrow> nat \<Rightarrow> nat \<Rightarrow> nat" where
  "delay_after scale cfg 0 d = d"
| "delay_after scale cfg (Suc n) d = delay_after scale cfg n (min (scale d) (max_delay cfg))"

lemma tried_before_step: "i < k \<Longrightarrow> tried_before operation i k =
    (case operation i of Inl e \<Rightarrow> error_attempts e | Inr r \<Rightarrow> []) @ tried_before operation (Suc i) k"
  by (simp add: tried_before_def upt_conv_Cons)

lemma error_after_underlying: "error_after_attempts (underlying e) (es @ error_attempts e) = error_after_attempts e es"
  if "flat_error e"
  using underlying_bare [OF that] that
  by (cases e rule: flat_error.cases) (simp_all add: error_after_attempts_def into_parts_eq Let_def underlying_def error_attempts_def)

lemma retry_loop_unroll:
  assumes "\<And>j e. operation j = Inl e \<Longrightarrow> flat_error e"
    and "i \<le> k" "gives_up lower cfg operation k" "\<And>j. i \<le> j \<Longrightarrow> j < k \<Longrightarrow> \<not> gives_up lower cfg operation j"
  shows "retry_loop after lower scale jit cfg operation i d spent =
    (result_after after (operation k) (spent @ tried_before operation i k),
     map (\<lambda>j. jit j (delay_after scale cfg (j - i) d)) [i..<k])"
  using assms(2,4)
proof (induction "k - i" arbitrary: i d spent)
  case 0
  then have k: "i = k" by simp
  show ?case
  proof (cases "operation k")
    case (Inl e)
    have "flat_error e" using assms(1) Inl by blast
    then show ?thesis using assms(3) Inl error_after_underlying [of e spent] k
      by (subst retry_loop.simps)
        (auto simp: into_parts_eq result_after_def tried_before_def gives_up_def Let_def)
  next
    case (Inr r)
    then show ?thesis by (subst retry_loop.simps) (simp add: k result_after_def tried_before_def)
  qed
next
  case (Suc n)
  then have lt: "i < k" by simp
  then have "\<not> gives_up lower cfg operation i" using Suc.prems by simp
  then obtain e where e: "operation i = Inl e" "is_retryable lower (underlying e)" "\<not> max_retries cfg \<le> i"
    by (auto simp: gives_up_def split: sum.splits)
  have ih: "retry_loop after lower scale jit cfg operation (Suc i) (min (scale d) (max_delay cfg)) (spent @ error_attempts e) =
      (result_after after (operation k) ((spent @ error_attempts e) @ tried_before operation (Suc i) k),
       map (\<lambda>j. jit j (delay_after scale cfg (j - Suc i) (min (scale d) (max_delay cfg)))) [Suc i..<k])"
    using Suc.hyps Suc.prems lt by simp
  have "map (\<lambda>j. jit j (delay_after scale cfg (j - i) d)) [i..<k] =
      jit i d # map (\<lambda>j. jit j (delay_after scale cfg (j - Suc i) (min (scale d) (max_delay cfg)))) [Suc i..<k]"
    using lt by (auto simp: upt_conv_Cons Suc_diff_Suc [symmetric])
  then show ?case using e ih tried_before_step [OF lt, of operation]
    by (subst retry_loop.simps) (simp add: into_parts_eq Let_def)
qed

definition final_call :: "(ustring \<Rightarrow> ustring) \<Rightarrow> retry_config \<Rightarrow> (nat \<Rightarrow> inference_error + 't) \<Rightarrow> nat" where
  "final_call lower cfg operation =
     (case List.find (gives_up lower cfg operation) [0..<max_retries cfg] of Some k \<Rightarrow> k | None \<Rightarrow> max_retries cfg)"

lemma find_upt_None: "List.find P [a..<b] = None \<Longrightarrow> a \<le> j \<Longrightarrow> j < b \<Longrightarrow> \<not> P j"
  by (auto simp: find_None_iff)

lemma find_upt_Some:
  assumes "List.find P [0..<b] = Some k"
  shows "k < b \<and> P k \<and> (\<forall>j<k. \<not> P j)"
proof -
  obtain i where i: "i < b" "P ([0..<b] ! i)" "k = [0..<b] ! i" "\<forall>j<i. \<not> P ([0..<b] ! j)"
    using assms by (auto simp: find_Some_iff)
  then have "k = i" by simp
  then show ?thesis using i by auto
qed

lemma final_call: "final_call lower cfg operation \<le> max_retries cfg"
  "gives_up lower cfg operation (final_call lower cfg operation)"
  "j < final_call lower cfg operation \<Longrightarrow> \<not> gives_up lower cfg operation j"
proof -
  show "final_call lower cfg operation \<le> max_retries cfg"
    using find_upt_Some by (fastforce simp: final_call_def split: option.split)
  show "gives_up lower cfg operation (final_call lower cfg operation)"
    using find_upt_Some by (force simp: final_call_def gives_up_def split: option.split)
  show "\<not> gives_up lower cfg operation j" if "j < final_call lower cfg operation"
    using that find_upt_Some [of "gives_up lower cfg operation" "max_retries cfg"]
      find_upt_None [of "gives_up lower cfg operation" 0 "max_retries cfg" j]
    by (auto simp: final_call_def split: option.splits)
qed

lemma with_retry_outcome:
  assumes "\<And>j e. operation j = Inl e \<Longrightarrow> flat_error e"
  shows "with_retry after lower scale jit cfg operation =
    (result_after after (operation (final_call lower cfg operation)) (tried_before operation 0 (final_call lower cfg operation)),
     map (\<lambda>j. jit j (delay_after scale cfg j (initial_delay cfg))) [0..<final_call lower cfg operation])"
  using retry_loop_unroll [of operation 0 "final_call lower cfg operation" lower cfg after scale jit "initial_delay cfg" "[]"]
    final_call [where lower = lower and cfg = cfg and operation = operation] assms
  by (simp add: with_retry_def)

text \<open>C34: Retrying stops exactly where it should: the calls run up to the first that succeeds or
  fails for good, at most \<open>max_retries\<close> after the first one; its outcome is the last call's, with the
  attempts of the calls before it recorded ahead of its own; and there is one wait between two calls.\<close>

theorem retry_stops_where_it_should:
  fixes operation :: "nat \<Rightarrow> inference_error + 't"
    and after :: "'t \<Rightarrow> attempt_usage list \<Rightarrow> 't" and lower scale jit cfg
  assumes "\<And>j e. operation j = Inl e \<Longrightarrow> flat_error e"
  defines "k \<equiv> length (snd (with_retry after lower scale jit cfg operation))"
  shows "k \<le> max_retries cfg \<and>
    (\<forall>j<k. \<exists>e. operation j = Inl e \<and> is_retryable lower e) \<and>
    (k = max_retries cfg \<or> (case operation k of Inr r \<Rightarrow> True | Inl e \<Rightarrow> \<not> is_retryable lower e)) \<and>
    fst (with_retry after lower scale jit cfg operation) = result_after after (operation k) (tried_before operation 0 k)"
proof -
  have k: "k = final_call lower cfg operation"
    by (simp add: k_def with_retry_outcome [where operation = operation, OF assms(1)])
  have r: "is_retryable lower (underlying e) = is_retryable lower e" if "operation j = Inl e" for j e
    using assms(1) [OF that] underlying_bare [of e] by (simp add: is_retryable_def)
  have g: "gives_up lower cfg operation j \<longleftrightarrow> max_retries cfg \<le> j \<or>
      (case operation j of Inr r \<Rightarrow> True | Inl e \<Rightarrow> \<not> is_retryable lower e)" for j
    using r [of j] by (simp add: gives_up_def split: sum.split)
  have "\<forall>j<k. \<exists>e. operation j = Inl e \<and> is_retryable lower e"
    using final_call(3) [where lower = lower and cfg = cfg and operation = operation] unfolding k g by (fastforce split: sum.splits)
  then show ?thesis
    using final_call(1,2) [of lower cfg operation] with_retry_outcome [where operation = operation and after = after and lower = lower
        and scale = scale and jit = jit and cfg = cfg, OF assms(1)]
    unfolding k g by auto
qed

lemma retry_stops_where_it_should_witness:
  "length (snd (with_retry response_after id id (\<lambda>_ d. d) \<lparr>max_retries = 2, initial_delay = 5, max_delay = 9\<rparr>
     (\<lambda>_. Inl (Timeout 3)))) \<le> 2"
  using retry_stops_where_it_should [of "\<lambda>_. Inl (Timeout 3)" response_after id id "\<lambda>_ d. d"
      "\<lparr>max_retries = 2, initial_delay = 5, max_delay = 9\<rparr>"] by simp

context ledger begin

lemma retry_lists_all:
  assumes "\<And>j. result_ok ok (operation j)"
  shows "result_own own (fst (with_retry after lower scale jit cfg operation)) =
    concat (map (\<lambda>j. result_own own (operation j)) [0..<Suc (length (snd (with_retry after lower scale jit cfg operation)))])"
proof -
  have flat: "flat_error e" if "operation j = Inl e" for j e
    using assms [of j] that by (simp add: result_ok_def)
  let ?k = "final_call lower cfg operation"
  have "\<exists>e. operation j = Inl e" if "j < ?k" for j
    using final_call(3) [OF that] by (auto simp: gives_up_def split: sum.splits)
  then have "tried_before operation 0 ?k = concat (map (\<lambda>j. result_own own (operation j)) [0..<?k])"
    unfolding tried_before_def by (intro arg_cong [where f = concat] map_cong) (force simp: result_own_def split: sum.splits)+
  moreover have "result_own own (result_after after (operation ?k) es) = es @ result_own own (operation ?k)" for es
    using assms [of ?k] by (auto simp: result_own_def result_after_def result_ok_def own_after split: sum.splits)
  ultimately show ?thesis by (simp add: with_retry_outcome [OF flat])
qed

end

context lists_attempts begin

lemma retry_plain:
  assumes "\<And>j. result_ok ok (operation j)" "\<And>j e. operation j = Inl e \<Longrightarrow> error_attempts e = []"
  shows "fst (with_retry after lower scale jit cfg operation) =
    operation (length (snd (with_retry after lower scale jit cfg operation)))"
proof -
  have flat: "flat_error e" if "operation j = Inl e" for j e
    using assms(1) [of j] that by (simp add: result_ok_def)
  let ?k = "final_call lower cfg operation"
  have "tried_before operation 0 ?k = []"
    using assms(2) by (auto simp: tried_before_def split: sum.splits)
  moreover have "result_after after (operation ?k) [] = operation ?k"
    using lists_attempts.after_none [OF result_lists assms(1)] by blast
  ultimately show ?thesis by (simp add: with_retry_outcome [OF flat])
qed

end

text \<open>What a retried model call spent is never lost: its result, a response or an error, lists the
  attempts of every call made, in order; an embedding call, which records none, returns what its last
  call returned.\<close>

theorem retried_call_lists_every_attempt:
  assumes "\<And>j e. operation j = Inl e \<Longrightarrow> flat_error e" "\<And>j e. vectors j = Inl e \<Longrightarrow> flat_error e \<and> error_attempts e = []"
  shows "result_own resp_attempts (fst (with_retry response_after lower scale jit cfg operation)) =
      concat (map (\<lambda>j. result_own resp_attempts (operation j))
        [0..<Suc (length (snd (with_retry response_after lower scale jit cfg operation)))]) \<and>
    fst (with_retry embedding_after lower scale jit cfg vectors) =
      vectors (length (snd (with_retry embedding_after lower scale jit cfg vectors)))"
proof (rule conjI)
  show "result_own resp_attempts (fst (with_retry response_after lower scale jit cfg operation)) =
      concat (map (\<lambda>j. result_own resp_attempts (operation j))
        [0..<Suc (length (snd (with_retry response_after lower scale jit cfg operation)))])"
    by (rule responses.retry_lists_all) (use assms(1) in \<open>auto simp: result_ok_def split: sum.split\<close>)
  show "fst (with_retry embedding_after lower scale jit cfg vectors) =
      vectors (length (snd (with_retry embedding_after lower scale jit cfg vectors)))"
    by (rule embedded.retry_plain) (use assms(2) in \<open>auto simp: result_ok_def split: sum.split\<close>)
qed

lemma retried_call_lists_every_attempt_witness:
  "result_own resp_attempts (fst (with_retry response_after id id (\<lambda>_ d. d) \<lparr>max_retries = 0, initial_delay = 5, max_delay = 9\<rparr>
     (\<lambda>_. Inr (new_response [] [])))) = [] \<and>
   fst (with_retry embedding_after id id (\<lambda>_ d. d) \<lparr>max_retries = 0, initial_delay = 5, max_delay = 9\<rparr>
     (\<lambda>_. Inr \<lparr>embeddings = [[1 :: nat]], dimensions = 1\<rparr>)) = Inr \<lparr>embeddings = [[1]], dimensions = 1\<rparr>"
  using retried_call_lists_every_attempt [of "\<lambda>_. Inr (new_response [] [])" "\<lambda>_. Inr \<lparr>embeddings = [[1 :: nat]], dimensions = 1\<rparr>"
      id id "\<lambda>_ d. d" "\<lparr>max_retries = 0, initial_delay = 5, max_delay = 9\<rparr>"]
  by (simp add: result_own_def new_response_def concat_map_singleton)

lemma delay_after_le: "0 < j \<Longrightarrow> delay_after scale cfg j d \<le> max_delay cfg"
  by (induction j arbitrary: d) (case_tac j; simp)+

text \<open>The waits between the calls of a retry: with a jitter of at most a quarter either way the first
  is within a quarter of the initial delay and every later one at most a quarter above the maximum
  delay. The maximum itself is no bound: it does not apply to the first wait at all, and the jitter
  comes on top of it.\<close>

theorem retry_waits_bounded:
  assumes "\<And>j e. operation j = Inl e \<Longrightarrow> flat_error e" "\<And>j d. 4 * jit j d \<le> 5 * d"
    and "i < length (snd (with_retry after lower scale jit cfg operation))"
  shows "4 * snd (with_retry after lower scale jit cfg operation) ! i \<le>
      5 * (if i = 0 then initial_delay cfg else max_delay cfg) \<and>
    snd (with_retry response_after lower' (\<lambda>d. 2 * d) (\<lambda>_ d. d + d div 4)
       \<lparr>max_retries = 2, initial_delay = 4000, max_delay = 1000\<rparr> (\<lambda>_. Inl (Timeout 3))) = [5000, 1250]"
proof (intro conjI)
  have n: "snd (with_retry after lower scale jit cfg operation) ! i = jit i (delay_after scale cfg i (initial_delay cfg))"
    using assms(3) by (simp add: with_retry_outcome [where operation = operation, OF assms(1)])
  show "4 * snd (with_retry after lower scale jit cfg operation) ! i \<le>
      5 * (if i = 0 then initial_delay cfg else max_delay cfg)"
    unfolding n using assms(2) [of i "delay_after scale cfg i (initial_delay cfg)"]
      delay_after_le [of i scale cfg "initial_delay cfg"] by (cases "i = 0") auto
  show "snd (with_retry response_after lower' (\<lambda>d. 2 * d) (\<lambda>_ d. d + d div 4)
       \<lparr>max_retries = 2, initial_delay = 4000, max_delay = 1000\<rparr> (\<lambda>_. Inl (Timeout 3))) = [5000, 1250]"
    unfolding with_retry_def
    by (subst retry_loop.simps, subst retry_loop.simps, subst retry_loop.simps)
      (simp add: into_parts_def is_retryable_def underlying_def Let_def)
qed

lemma retry_waits_bounded_witness:
  "4 * snd (with_retry response_after id (\<lambda>d. 2 * d) (\<lambda>_ d. d)
     \<lparr>max_retries = 1, initial_delay = 4, max_delay = 9\<rparr> (\<lambda>_. Inl (Timeout 3))) ! 0 \<le> 20"
proof -
  let ?c = "\<lparr>max_retries = 1, initial_delay = 4, max_delay = 9\<rparr>" and ?f = "\<lambda>_. Inl (Timeout 3)"
  have "length (snd (with_retry response_after id (\<lambda>d. 2 * d) (\<lambda>_ d. d) ?c ?f)) = 1"
    unfolding with_retry_def by (subst retry_loop.simps, subst retry_loop.simps)
      (simp add: into_parts_def is_retryable_def underlying_def Let_def)
  then show ?thesis
    using retry_waits_bounded [of ?f "\<lambda>_ d. d" 0 response_after id "\<lambda>d. 2 * d" ?c] by simp
qed

end
