(* ===== verification/Inference_Failover.thy ===== *)
theory Inference_Failover
  imports Inference_Attempts
begin

text \<open>
  Which provider answers (\<open>crates/inference/src/failover.rs\<close>), how images are kept from a model that
  cannot take them (\<open>image_input.rs\<close>), and what the consumer of a stream sees of it (\<open>TrackedSink\<close> in
  \<open>stream.rs\<close>).

  A provider is what it does: the deltas it pushes and how it ends, for the request it is given. No
  sink is a provider that pushes nothing. The index of the active provider is shared between chains
  of one role, so a call reads it twice: when it starts and when it answers.
\<close>

section \<open>The tracked sink\<close>

fun tracked_all :: "stream_delta list \<Rightarrow> bool \<Rightarrow> stream_delta list \<times> bool" where
  "tracked_all [] partial = ([], partial)"
| "tracked_all (d # ds) partial =
     (let (o1, partial) = tracked_push d partial; (o2, partial) = tracked_all ds partial in (o1 @ o2, partial))"

section \<open>Keeping images away\<close>

datatype image_input = ImagesAccepted | TextOnly | Undeclared

definition IMAGE_PLACEHOLDER :: ustring where
  "IMAGE_PLACEHOLDER = lit ''(image omitted: this model can't view images)''"

definition TOOL_IMAGE_PLACEHOLDER :: ustring where
  "TOOL_IMAGE_PLACEHOLDER = lit ''(tool image omitted: this model can't view images)''"

definition strip_message :: "message \<Rightarrow> message" where
  "strip_message m =
     (if msg_images m = [] then m
      else
        let placeholder = (if msg_role m = ToolRole then TOOL_IMAGE_PLACEHOLDER else IMAGE_PLACEHOLDER)
        in m\<lparr>msg_images := [],
             msg_content := (if msg_content m = [] then placeholder else msg_content m @ [10] @ placeholder)\<rparr>)"

definition strip_images :: "message list \<Rightarrow> (message list \<times> nat) option" where
  "strip_images ms =
     (let omitted = sum_list (map (\<lambda>m. length (msg_images m)) ms)
      in if omitted = 0 then None else Some (map strip_message ms, omitted))"

record image_guard =
  guard_declared :: image_input
  guard_key :: ustring
  guard_model :: ustring

definition new_guard :: "image_input \<Rightarrow> ustring \<Rightarrow> ustring \<Rightarrow> image_guard" where
  "new_guard declared url model =
     \<lparr>guard_declared = declared, guard_key = url @ [10] @ model, guard_model = model\<rparr>"

definition strip_up_front :: "image_guard \<Rightarrow> ustring set \<Rightarrow> bool option" where
  "strip_up_front g learned =
     (case guard_declared g of
        TextOnly \<Rightarrow> Some False
      | ImagesAccepted \<Rightarrow> None
      | Undeclared \<Rightarrow> if guard_key g \<in> learned then Some True else None)"

definition guard_takes_images :: "image_guard \<Rightarrow> ustring set \<Rightarrow> bool" where
  "guard_takes_images g learned \<longleftrightarrow> strip_up_front g learned = None"

definition stripped_up_front :: "image_guard \<Rightarrow> ustring set \<Rightarrow> message list \<Rightarrow> ((message list \<times> nat) \<times> bool) option" where
  "stripped_up_front g learned ms =
     (case strip_up_front g learned of
        None \<Rightarrow> None
      | Some l \<Rightarrow> map_option (\<lambda>s. (s, l)) (strip_images ms))"

definition report_omitted :: "image_guard \<Rightarrow> nat \<Rightarrow> bool \<Rightarrow> inference_error + inference_response \<Rightarrow>
    inference_error + inference_response" where
  "report_omitted g n l r =
     (case r of
        Inl e \<Rightarrow> Inl e
      | Inr resp \<Rightarrow> Inr (resp\<lparr>resp_images_omitted :=
          Some \<lparr>omitted_model = guard_model g, omitted_count = n, omitted_learned = l\<rparr>\<rparr>))"

text \<open>A guarded call: the requests sent, what was pushed, the result, and whether the model is now
  remembered as text-only. \<open>send k\<close> is the inner provider at its \<open>k\<close>-th request.\<close>

record guard_outcome =
  go_requests :: "message list list"
  go_pushed :: "stream_delta list"
  go_result :: "inference_error + inference_response"
  go_learns :: bool

definition guard_run :: "(ustring \<Rightarrow> ustring) \<Rightarrow> image_guard \<Rightarrow> ustring set \<Rightarrow>
    (nat \<Rightarrow> message list \<Rightarrow> stream_delta list \<times> (inference_error + inference_response)) \<Rightarrow>
    message list \<Rightarrow> bool \<Rightarrow> guard_outcome" where
  "guard_run lower g learned send ms image_fallback =
     (case stripped_up_front g learned ms of
        Some ((stripped, n), l) \<Rightarrow>
          (let (ds, r) = send 0 stripped
           in \<lparr>go_requests = [stripped], go_pushed = fst (tracked_all ds False),
               go_result = report_omitted g n l r, go_learns = False\<rparr>)
      | None \<Rightarrow>
          (let (ds, r) = send 0 ms;
               (pushed, partial) = tracked_all ds False;
               once = \<lparr>go_requests = [ms], go_pushed = pushed, go_result = r, go_learns = False\<rparr>
           in case r of
             Inr response \<Rightarrow> once
           | Inl err \<Rightarrow>
               if guard_declared g \<noteq> Undeclared \<or> \<not> rejects_image_input lower err then once
               else (case strip_images ms of
                 None \<Rightarrow> once
               | Some (stripped, n) \<Rightarrow>
                   if image_fallback then once\<lparr>go_learns := True\<rparr>
                   else
                     let (pushed2, partial) = restart_if_needed partial;
                         (ds, r2) = send 1 stripped;
                         (pushed3, partial) = tracked_all ds partial;
                         r3 = result_after response_after (report_omitted g n True r2) (error_attempts err)
                     in \<lparr>go_requests = [ms, stripped], go_pushed = pushed @ pushed2 @ pushed3,
                         go_result = r3, go_learns = (case r3 of Inr response \<Rightarrow> True | Inl e \<Rightarrow> False)\<rparr>)))"

section \<open>The failover chain\<close>

record hop =
  hop_name :: ustring
  hop_takes_images :: bool
  hop_complete :: "bool \<Rightarrow> stream_delta list \<times> (inference_error + inference_response)"

definition attempt_order :: "message list \<Rightarrow> hop list \<Rightarrow> (nat \<times> bool) list" where
  "attempt_order ms hops =
     (let has_images = list_ex (\<lambda>m. msg_images m \<noteq> []) ms;
          takes = map (\<lambda>h. has_images \<and> hop_takes_images h) hops
      in case rposition id takes of
        None \<Rightarrow> map (\<lambda>i. (i, False)) [0..<length hops]
      | Some last_taking \<Rightarrow>
          map (\<lambda>i. (i, i < last_taking)) (filter (\<lambda>i. takes ! i) [0..<length hops]) @
          map (\<lambda>i. (i, False)) (filter (\<lambda>i. \<not> takes ! i) [0..<length hops]))"

text \<open>\<open>notice_on_transition\<close>: the notice, if any, and the provider that is active now.\<close>

definition transition_notice :: "ustring \<Rightarrow> nat \<Rightarrow> ustring \<Rightarrow> ustring option \<Rightarrow> ustring" where
  "transition_notice role_name idx name reason =
     (if idx = 0 then
        lit ''The '' @ role_name @ lit '' is back online; switched back to '' @ name @ lit ''.''
      else
        lit ''The '' @ role_name @ lit '' is unavailable ('' @
        (case reason of Some r \<Rightarrow> r | None \<Rightarrow> lit ''an error'') @ lit ''); switched to '' @ name @
        lit '' until it recovers.'')"

definition notice_on_transition :: "ustring option \<Rightarrow> nat \<Rightarrow> ustring \<Rightarrow> ustring option \<Rightarrow> nat \<Rightarrow> ustring list \<times> nat" where
  "notice_on_transition notices idx name reason previous =
     (if previous = idx then ([], idx)
      else (case notices of
        None \<Rightarrow> ([], idx)
      | Some role_name \<Rightarrow> ([transition_notice role_name idx name reason], idx)))"

record chain_outcome =
  co_result :: "inference_error + inference_response"
  co_pushed :: "stream_delta list"
  co_notices :: "ustring list"
  co_active :: nat

definition NO_PROVIDERS :: inference_error where
  "NO_PROVIDERS = ApiError (lit ''no providers configured in failover chain'')"

text \<open>The loop over the order. \<open>active0\<close> is the active provider as the call starts, \<open>active1\<close> as it
  answers.\<close>

fun try_hops :: "(ustring \<Rightarrow> ustring) \<Rightarrow> ustring option \<Rightarrow> hop list \<Rightarrow> nat \<Rightarrow> nat \<Rightarrow> (nat \<times> bool) list \<Rightarrow>
    bool list \<Rightarrow> ustring option \<Rightarrow> inference_error option \<Rightarrow> attempt_usage list \<Rightarrow> bool \<Rightarrow> chain_outcome" where
  "try_hops lower notices hops active0 active1 [] failed cause last_error spent partial =
     \<lparr>co_result = Inl (error_after_attempts
        (case last_error of Some e \<Rightarrow> e | None \<Rightarrow> NO_PROVIDERS) spent),
      co_pushed = [], co_notices = [], co_active = active1\<rparr>"
| "try_hops lower notices hops active0 active1 ((idx, image_fallback) # order) failed cause last_error spent partial =
     (if length hops \<le> idx then
        try_hops lower notices hops active0 active1 order failed cause last_error spent partial
      else
        let h = hops ! idx;
            (ds, attempt) = hop_complete h image_fallback;
            (pushed, partial) = tracked_all ds partial
        in case attempt of
          Inr response \<Rightarrow>
            (if list_ex Not (take idx failed) then
               \<lparr>co_result = Inr (response_after response spent), co_pushed = pushed, co_notices = [],
                co_active = active1\<rparr>
             else
               let (ns, active) = notice_on_transition notices idx (hop_name h) cause active1
               in \<lparr>co_result = Inr (response_after response spent), co_pushed = pushed, co_notices = ns,
                   co_active = active\<rparr>)
        | Inl err \<Rightarrow>
            let (err, tried) = into_parts err;
                passed = (image_fallback \<and> rejects_image_input lower err);
                cause = (if \<not> passed \<and> idx = active0 then Some (cause_phrase lower err) else cause);
                failed = (if passed then failed else failed[idx := True]);
                (pushed2, partial) = restart_if_needed partial;
                rest = try_hops lower notices hops active0 active1 order failed cause (Some err) (spent @ tried) partial
            in rest\<lparr>co_pushed := pushed @ pushed2 @ co_pushed rest\<rparr>)"

definition failover_run :: "(ustring \<Rightarrow> ustring) \<Rightarrow> ustring option \<Rightarrow> hop list \<Rightarrow> message list \<Rightarrow> nat \<Rightarrow> nat \<Rightarrow> chain_outcome" where
  "failover_run lower notices hops ms active0 active1 =
     try_hops lower notices hops active0 active1 (attempt_order ms hops)
       (replicate (length hops) False) None None [] False"

definition chain_takes_images :: "hop list \<Rightarrow> bool" where
  "chain_takes_images hops \<longleftrightarrow> list_ex hop_takes_images hops"

definition chain_model_name :: "hop list \<Rightarrow> ustring" where
  "chain_model_name hops = (case hops of h # _ \<Rightarrow> hop_name h | [] \<Rightarrow> lit ''failover(empty)'')"

section \<open>What the consumer sees\<close>

abbreviation blank_screen :: "ustring \<times> ustring" where
  "blank_screen \<equiv> ([], [])"

lemma screen_tracked: "screen (fst (tracked_all ds h)) s = screen ds s"
proof (induction ds arbitrary: h s)
  case (Cons d ds)
  obtain o1 h1 where 1: "tracked_push d h = (o1, h1)" by fastforce
  obtain o2 h2 where 2: "tracked_all ds h1 = (o2, h2)" by fastforce
  have "screen o1 s = screen [d] s"
    using 1 by (cases d) (auto simp: tracked_push_def split: if_splits)
  then show ?case using Cons.IH [of h1 "screen [d] s"] screen_append [of "[d]" ds s]
    by (simp add: 1 2 screen_append)
qed simp

text \<open>A sink that holds nothing has a blank screen.\<close>

lemma tracked_push_blank:
  "\<lbrakk>\<not> h \<longrightarrow> s = blank_screen; \<not> snd (tracked_push d h)\<rbrakk> \<Longrightarrow> screen [d] s = blank_screen"
  by (cases d) (auto simp: tracked_push_def split: if_splits)

lemma tracked_blank:
  "\<lbrakk>\<not> h \<longrightarrow> s = blank_screen; \<not> snd (tracked_all ds h)\<rbrakk> \<Longrightarrow> screen ds s = blank_screen"
proof (induction ds arbitrary: h s)
  case (Cons d ds)
  obtain o1 h1 where 1: "tracked_push d h = (o1, h1)" by fastforce
  obtain o2 h2 where 2: "tracked_all ds h1 = (o2, h2)" by fastforce
  have "\<not> h1 \<longrightarrow> screen [d] s = blank_screen" using tracked_push_blank [OF Cons.prems(1), of d] 1 by simp
  from Cons.IH [OF this] show ?case using Cons.prems(2) screen_append [of "[d]" ds s] by (simp add: 1 2)
qed simp

lemma restart_blank:
  "\<not> h \<longrightarrow> s = blank_screen \<Longrightarrow> screen (fst (restart_if_needed h)) s = blank_screen \<and> \<not> snd (restart_if_needed h)"
  by (cases s) (auto simp: restart_if_needed_def)

section \<open>The guard\<close>

lemma strip_images_Some: "strip_images ms = Some (ms', n) \<Longrightarrow>
    ms' = map strip_message ms \<and> n = sum_list (map (\<lambda>m. length (msg_images m)) ms) \<and> (\<exists>m\<in>set ms. msg_images m \<noteq> [])"
  by (auto simp: strip_images_def Let_def split: if_splits)

lemma strip_images_None: "strip_images ms = None \<longleftrightarrow> (\<forall>m\<in>set ms. msg_images m = [])"
  by (auto simp: strip_images_def Let_def)

lemma strip_message_no_images [simp]: "msg_images (strip_message m) = []"
  by (simp add: strip_message_def Let_def)

lemma stripped_up_front_cases:
  obtains (stripped) n l where "stripped_up_front g learned ms = Some ((map strip_message ms, n), l)"
      "strip_up_front g learned = Some l" "n = sum_list (map (\<lambda>m. length (msg_images m)) ms)"
  | (as_is) "stripped_up_front g learned ms = None" "guard_takes_images g learned \<or> (\<forall>m\<in>set ms. msg_images m = [])"
proof (cases "strip_up_front g learned")
  case None
  show ?thesis by (rule as_is) (simp_all add: stripped_up_front_def guard_takes_images_def None)
next
  case (Some l)
  show ?thesis
  proof (cases "strip_images ms")
    case None
    show ?thesis by (rule as_is) (use None Some strip_images_None [of ms] in \<open>simp_all add: stripped_up_front_def\<close>)
  next
    case s: (Some sn)
    obtain ms' n where sn: "sn = (ms', n)" by fastforce
    have e: "ms' = map strip_message ms" "n = sum_list (map (\<lambda>m. length (msg_images m)) ms)"
      using strip_images_Some [of ms ms' n] s sn by auto
    show ?thesis by (rule stripped [of n l]) (simp_all add: stripped_up_front_def Some s sn e)
  qed
qed

text \<open>The three ways a guarded call goes: without its images from the start, as it is, or as it is
  and then again without its images.\<close>

lemma guard_run_cases:
  obtains (stripped) n l ds r where "send 0 (map strip_message ms) = (ds, r)" "strip_up_front g learned = Some l"
      "n = sum_list (map (\<lambda>m. length (msg_images m)) ms)"
      "guard_run lower g learned send ms image_fallback =
        \<lparr>go_requests = [map strip_message ms], go_pushed = fst (tracked_all ds False),
         go_result = report_omitted g n l r, go_learns = False\<rparr>"
  | (once) ds r l where "send 0 ms = (ds, r)" "guard_takes_images g learned \<or> (\<forall>m\<in>set ms. msg_images m = [])"
      "guard_run lower g learned send ms image_fallback =
        \<lparr>go_requests = [ms], go_pushed = fst (tracked_all ds False), go_result = r, go_learns = l\<rparr>"
      "l \<Longrightarrow> \<exists>err. r = Inl err \<and> rejects_image_input lower err \<and> guard_declared g = Undeclared \<and>
         (\<exists>m\<in>set ms. msg_images m \<noteq> []) \<and> image_fallback"
  | (twice) n ds err ds2 r2 where "send 0 ms = (ds, Inl err)" "send 1 (map strip_message ms) = (ds2, r2)"
      "guard_takes_images g learned" "rejects_image_input lower err" "guard_declared g = Undeclared"
      "\<exists>m\<in>set ms. msg_images m \<noteq> []" "n = sum_list (map (\<lambda>m. length (msg_images m)) ms)"
      "guard_run lower g learned send ms image_fallback =
        \<lparr>go_requests = [ms, map strip_message ms],
         go_pushed = fst (tracked_all ds False) @ fst (restart_if_needed (snd (tracked_all ds False))) @
           fst (tracked_all ds2 False),
         go_result = result_after response_after (report_omitted g n True r2) (error_attempts err),
         go_learns = (\<exists>resp. r2 = Inr resp)\<rparr>"
proof (cases rule: stripped_up_front_cases [of g learned ms])
  case up: (stripped n l)
  obtain ds r where s: "send 0 (map strip_message ms) = (ds, r)" by fastforce
  show ?thesis by (rule stripped [of ds r l n]) (simp_all add: guard_run_def up s)
next
  case as_is
  obtain ds r where s: "send 0 ms = (ds, r)" by fastforce
  obtain o1 h1 where 1: "tracked_all ds False = (o1, h1)" by fastforce
  show ?thesis
  proof (cases "\<exists>err. r = Inl err \<and> guard_declared g = Undeclared \<and> rejects_image_input lower err \<and> strip_images ms \<noteq> None")
    case False
    have "guard_run lower g learned send ms image_fallback = \<lparr>go_requests = [ms], go_pushed = o1, go_result = r, go_learns = False\<rparr>"
      using False by (cases r) (auto simp: guard_run_def as_is s 1 Let_def split: option.split)
    then show ?thesis using once [of ds r False] s as_is(2) 1 by simp
  next
    case True
    then obtain err ms' n where r: "r = Inl err" "guard_declared g = Undeclared" "rejects_image_input lower err"
      and i: "strip_images ms = Some (ms', n)" by auto
    have ms': "ms' = map strip_message ms" "\<exists>m\<in>set ms. msg_images m \<noteq> []"
      "n = sum_list (map (\<lambda>m. length (msg_images m)) ms)" using strip_images_Some [OF i] by auto
    show ?thesis
    proof (cases image_fallback)
      case True
      have "guard_run lower g learned send ms image_fallback = \<lparr>go_requests = [ms], go_pushed = o1, go_result = r, go_learns = True\<rparr>"
        using True by (simp add: guard_run_def as_is s 1 Let_def r i)
      then show ?thesis using once [of ds r True] s as_is(2) 1 r ms'(2) True by simp
    next
      case False
      obtain ds2 r2 where s2: "send (Suc 0) (map strip_message ms) = (ds2, r2)" by fastforce
      have h2: "restart_if_needed h1 = ((if h1 then [Restart] else []), False)" by (simp add: restart_if_needed_def)
      obtain o3 h3 where 3: "tracked_all ds2 False = (o3, h3)" by fastforce
      have learns: "(case result_after response_after (report_omitted g n True r2) (error_attempts err) of
          Inr response \<Rightarrow> True | Inl e \<Rightarrow> False) = (\<exists>resp. r2 = Inr resp)"
        by (cases r2) (simp_all add: result_after_def report_omitted_def)
      have "guard_run lower g learned send ms image_fallback =
        \<lparr>go_requests = [ms, map strip_message ms], go_pushed = o1 @ fst (restart_if_needed h1) @ o3,
         go_result = result_after response_after (report_omitted g n True r2) (error_attempts err),
         go_learns = (\<exists>resp. r2 = Inr resp)\<rparr>"
        unfolding learns [symmetric] using False by (simp add: guard_run_def as_is s 1 Let_def r i ms'(1) s2 3 h2)
      then show ?thesis using twice [of ds err ds2 r2 n] s s2 as_is(2) r ms'(2,3) 1 3 by auto
    qed
  qed
qed

text \<open>Images never reach a model that is known not to take them: when a model was declared
  text-only, or found so, every request sent to it is without images. A call sends at most two requests,
  the request as it is and the request without its images, and a model is remembered as text-only only
  when it was not declared, it turned down a request that had images, and either a later provider takes
  images or the same request without them succeeded.\<close>

theorem guard_keeps_images_away:
  fixes send :: "nat \<Rightarrow> message list \<Rightarrow> stream_delta list \<times> (inference_error + inference_response)"
    and lower g learned ms image_fallback
  defines "out \<equiv> guard_run lower g learned send ms image_fallback"
  shows "(\<not> guard_takes_images g learned \<longrightarrow> (\<forall>req\<in>set (go_requests out). \<forall>m\<in>set req. msg_images m = [])) \<and>
    go_requests out \<in> {[ms], [map strip_message ms], [ms, map strip_message ms]} \<and>
    (go_learns out \<longrightarrow> guard_declared g = Undeclared \<and> (\<exists>m\<in>set ms. msg_images m \<noteq> []) \<and>
       (\<exists>err. snd (send 0 ms) = Inl err \<and> rejects_image_input lower err) \<and>
       (image_fallback \<or> (\<exists>resp. snd (send 1 (map strip_message ms)) = Inr resp)))"
  by (cases rule: guard_run_cases [of send ms g learned lower image_fallback]; force simp: out_def guard_takes_images_def)

lemma guard_keeps_images_away_witness:
  "\<forall>req\<in>set (go_requests (guard_run id (new_guard TextOnly [] []) {} (\<lambda>_ _. ([], Inl (Timeout 1)))
     [user_with_images [] [\<lparr>media_type = [], image_base64 = []\<rparr>]] False)). \<forall>m\<in>set req. msg_images m = []"
  by (rule mp [OF conjunct1 [OF guard_keeps_images_away]])
    (simp_all add: guard_takes_images_def strip_up_front_def new_guard_def)

lemma own_report [simp]: "result_own resp_attempts (report_omitted g n l r) = result_own resp_attempts r"
  by (simp add: result_own_def report_omitted_def split: sum.split)

lemma own_result_after:
  "(\<And>e. r = Inl e \<Longrightarrow> flat_error e) \<Longrightarrow>
     result_own resp_attempts (result_after response_after r es) = es @ result_own resp_attempts r"
  using response_results.own_after [of r es] by (simp add: result_ok_def split: sum.splits)

text \<open>A guarded call accounts for itself: its result lists the attempts of every request it
  sent, in order; the consumer's screen shows the stream of the last request alone; and a reply to a
  request whose images were left out says how many.\<close>

theorem guarded_call_accounts:
  fixes send :: "nat \<Rightarrow> message list \<Rightarrow> stream_delta list \<times> (inference_error + inference_response)"
    and lower g learned ms image_fallback
  assumes "\<And>k req e. snd (send k req) = Inl e \<Longrightarrow> flat_error e"
  defines "out \<equiv> guard_run lower g learned send ms image_fallback"
  defines "n \<equiv> length (go_requests out) - 1"
  shows "result_own resp_attempts (go_result out) =
      concat (map (\<lambda>k. result_own resp_attempts (snd (send k (go_requests out ! k)))) [0..<length (go_requests out)]) \<and>
    screen (go_pushed out) blank_screen = screen (fst (send n (go_requests out ! n))) blank_screen \<and>
    (\<forall>resp. go_result out = Inr resp \<and> go_requests out ! n \<noteq> ms \<longrightarrow>
       resp_images_omitted resp = Some \<lparr>omitted_model = guard_model g,
         omitted_count = sum_list (map (\<lambda>m. length (msg_images m)) ms),
         omitted_learned = (guard_declared g = Undeclared)\<rparr>)"
proof (cases rule: guard_run_cases [of send ms g learned lower image_fallback])
  case (stripped n' l ds r)
  then have "l = (guard_declared g = Undeclared)"
    by (auto simp: strip_up_front_def split: image_input.splits if_splits)
  then show ?thesis using stripped
    by (auto simp: out_def n_def screen_tracked report_omitted_def result_own_def split: sum.splits)
next
  case (once ds r l)
  then show ?thesis by (simp add: out_def n_def screen_tracked)
next
  case (twice n' ds err ds2 r2)
  let ?h = "snd (tracked_all ds False)"
  have "screen (fst (restart_if_needed ?h)) (screen ds blank_screen) = blank_screen"
    using restart_blank [of ?h "screen ds blank_screen"] tracked_blank [of False blank_screen ds] by simp
  then have scr: "screen (go_pushed out) blank_screen = screen ds2 blank_screen"
    by (simp add: out_def twice(8) screen_append screen_tracked)
  have flat: "flat_error e" if "report_omitted g n' True r2 = Inl e" for e
    using assms(1) [of 1 "map strip_message ms" e] twice(2) that by (simp add: report_omitted_def split: sum.splits)
  have own: "result_own resp_attempts (go_result out) = error_attempts err @ result_own resp_attempts r2"
    using own_result_after [of "report_omitted g n' True r2", OF flat] by (simp add: out_def twice(8))
  have omitted: "resp_images_omitted resp = Some \<lparr>omitted_model = guard_model g, omitted_count = n', omitted_learned = True\<rparr>"
    if "go_result out = Inr resp" for resp
    using that by (auto simp: out_def twice(8) result_after_def report_omitted_def response_after_def split: sum.splits)
  show ?thesis using scr own omitted twice(1,2,5,7)
    by (simp add: out_def n_def twice(8) result_own_def)
qed

lemma guarded_call_accounts_witness:
  "screen (go_pushed (guard_run id (new_guard Undeclared [] []) {} (\<lambda>k _. ([TextDelta [k]], Inl (Timeout 1)))
     [user_message []] False)) blank_screen = ([0], [])"
  using guarded_call_accounts [of "\<lambda>k _. ([TextDelta [k]], Inl (Timeout 1))" id "new_guard Undeclared [] []" "{}"
      "[user_message []]" False]
  by (simp add: guard_run_def stripped_up_front_def strip_up_front_def new_guard_def rejects_image_input_def
      underlying_def tracked_push_def split: option.splits)

section \<open>The order of the chain\<close>

lemma rposition_Some: "rposition P xs = Some i \<Longrightarrow> i < length xs \<and> P (xs ! i) \<and> (\<forall>j. i < j \<and> j < length xs \<longrightarrow> \<not> P (xs ! j))"
proof (induction xs arbitrary: i)
  case (Cons x xs)
  show ?case
  proof (cases "rposition P xs")
    case None
    then have "\<forall>y\<in>set xs. \<not> P y" by (induction xs) (auto split: option.splits if_splits)
    then show ?thesis using Cons.prems None by (auto simp: nth_Cons split: if_splits nat.splits)
  next
    case (Some k)
    then show ?thesis using Cons.prems Cons.IH [OF Some] by (auto simp: nth_Cons split: nat.splits)
  qed
qed simp

lemma rposition_None: "rposition P xs = None \<longleftrightarrow> (\<forall>x\<in>set xs. \<not> P x)"
  by (induction xs) (auto split: option.splits)

lemma filter_upt_last:
  assumes "l < n" "P l" "\<forall>j. l < j \<and> j < n \<longrightarrow> \<not> P j"
  defines "a \<equiv> filter P [0..<n]"
  shows "a \<noteq> []" "a ! (length a - 1) = l" "p < length a \<Longrightarrow> a ! p < l \<longleftrightarrow> p < length a - 1"
proof -
  have "[0..<n] = [0..<l] @ [l..<n]" using assms(1) upt_add_eq_append [of 0 l "n - l"] by simp
  then have "[0..<n] = [0..<l] @ l # [Suc l..<n]" using assms(1) upt_conv_Cons [of l n] by simp
  moreover have "filter P [Suc l..<n] = []" using assms(3) by (simp add: filter_empty_conv)
  ultimately have a: "a = filter P [0..<l] @ [l]" using assms(2) by (simp add: a_def)
  show "a \<noteq> []" "a ! (length a - 1) = l" using a by simp_all
  show "a ! p < l \<longleftrightarrow> p < length a - 1" if "p < length a"
  proof (cases "p < length (filter P [0..<l])")
    case True
    then have "filter P [0..<l] ! p \<in> set (filter P [0..<l])" by (rule nth_mem)
    then show ?thesis using True by (simp add: a nth_append)
  next
    case False
    then show ?thesis using that by (simp add: a nth_append)
  qed
qed

text \<open>The flag of an order made of the takers, then the others.\<close>

lemma order_flags:
  assumes "l < n" "takes l" "\<forall>j. l < j \<and> j < n \<longrightarrow> \<not> takes j"
  defines "order \<equiv> map (\<lambda>i. (i, i < l)) (filter takes [0..<n]) @ map (\<lambda>i. (i, False)) (filter (\<lambda>i. \<not> takes i) [0..<n])"
  assumes p: "p < length order"
  shows "snd (order ! p) \<longleftrightarrow> takes (fst (order ! p)) \<and> (\<exists>q. p < q \<and> q < length order \<and> takes (fst (order ! q)))"
proof -
  let ?a = "filter takes [0..<n]" and ?b = "filter (\<lambda>i. \<not> takes i) [0..<n]"
  note a_last = filter_upt_last [where P = takes, OF assms(1-3)]
  have bs: "\<not> takes (fst (order ! q))" if "length ?a \<le> q" "q < length order" for q
    using nth_mem [of "q - length ?a" ?b] that by (simp add: order_def nth_append)
  have flag: "(\<exists>q. p < q \<and> q < length order \<and> takes (fst (order ! q))) \<longleftrightarrow> p < length ?a - 1"
  proof
    assume "\<exists>q. p < q \<and> q < length order \<and> takes (fst (order ! q))"
    then obtain q where q: "p < q" "q < length order" "takes (fst (order ! q))" by blast
    then have "q < length ?a" using bs [of q] by fastforce
    then show "p < length ?a - 1" using q by simp
  next
    assume less: "p < length ?a - 1"
    have "fst (order ! (length ?a - 1)) = l" using a_last(1,2) by (simp add: order_def nth_append)
    then show "\<exists>q. p < q \<and> q < length order \<and> takes (fst (order ! q))"
      using less assms(2) by (intro exI [of _ "length ?a - 1"]) (simp add: order_def)
  qed
  show ?thesis
  proof (cases "p < length ?a")
    case True
    then have "takes (?a ! p)" using nth_mem [of p ?a] by simp
    then show ?thesis using True a_last(3) [OF True] flag by (simp add: order_def nth_append)
  next
    case False
    then have "snd (order ! p) = False" using p by (simp add: order_def nth_append)
    then show ?thesis using bs [of p] False p by simp
  qed
qed

text \<open>A chain tries every provider exactly once. A request with images goes to the providers that
  take images first, and to the text-only ones after them, each group in the configured order; any other
  request, and one no provider takes images for, goes in the configured order. Each provider is told
  truthfully whether one still to come takes the images.\<close>

theorem attempt_order_tries_each_once:
  fixes ms :: "message list" and hops :: "hop list"
  defines "order \<equiv> attempt_order ms hops"
    and "takes \<equiv> (\<lambda>i. (\<exists>m\<in>set ms. msg_images m \<noteq> []) \<and> hop_takes_images (hops ! i))"
  shows "map fst order = filter takes [0..<length hops] @ filter (\<lambda>i. \<not> takes i) [0..<length hops] \<and>
    distinct (map fst order) \<and> set (map fst order) = {0..<length hops} \<and>
    (\<forall>p<length order. snd (order ! p) \<longleftrightarrow>
       takes (fst (order ! p)) \<and> (\<exists>q. p < q \<and> q < length order \<and> takes (fst (order ! q))))"
proof -
  let ?n = "length hops" and ?imgs = "list_ex (\<lambda>m. msg_images m \<noteq> []) ms"
  let ?t = "map (\<lambda>h. ?imgs \<and> hop_takes_images h) hops"
  have nth: "?t ! i = takes i" if "i < ?n" for i using that by (auto simp: takes_def list_ex_iff)
  have flt: "filter (\<lambda>i. ?t ! i) [0..<?n] = filter takes [0..<?n]"
    by (intro filter_cong refl) (use nth in simp)
  have flt': "filter (\<lambda>i. \<not> ?t ! i) [0..<?n] = filter (\<lambda>i. \<not> takes i) [0..<?n]"
    by (intro filter_cong refl) (use nth in simp)
  have "map fst order = filter takes [0..<?n] @ filter (\<lambda>i. \<not> takes i) [0..<?n] \<and>
      (\<forall>p<length order. snd (order ! p) \<longleftrightarrow>
       takes (fst (order ! p)) \<and> (\<exists>q. p < q \<and> q < length order \<and> takes (fst (order ! q))))"
  proof (cases "rposition id ?t")
    case None
    then have none: "\<forall>x\<in>set ?t. \<not> x" by (simp only: rposition_None id_apply not_False_eq_True)
    have no: "\<not> takes i" if "i < ?n" for i
      using nth [OF that] none nth_mem [of i ?t] that by (metis length_map)
    then have "filter takes [0..<?n] = []" "filter (\<lambda>i. \<not> takes i) [0..<?n] = [0..<?n]"
      by (simp_all add: filter_empty_conv)
    moreover have "order = map (\<lambda>i. (i, False)) [0..<?n]" using None by (simp add: order_def attempt_order_def Let_def)
    ultimately show ?thesis using no by (simp add: comp_def)
  next
    case (Some l)
    note r = rposition_Some [OF Some, unfolded id_apply length_map]
    have l: "l < ?n" "takes l" using r nth [of l] by blast+
    have l3: "\<forall>j. l < j \<and> j < ?n \<longrightarrow> \<not> takes j" using r nth by blast
    have "order = map (\<lambda>i. (i, i < l)) (filter takes [0..<?n]) @ map (\<lambda>i. (i, False)) (filter (\<lambda>i. \<not> takes i) [0..<?n])"
      using Some unfolding order_def attempt_order_def by (simp only: Let_def flt flt' option.simps)
    then show ?thesis using order_flags [where takes = takes, OF l l3] by (simp add: comp_def)
  qed
  then show ?thesis by (auto simp: distinct_filter)
qed

section \<open>What a call through the chain comes to\<close>

text \<open>The providers tried: up to the first that answers.\<close>

abbreviation hop_result :: "hop list \<Rightarrow> nat \<times> bool \<Rightarrow> inference_error + inference_response" where
  "hop_result hops e \<equiv> snd (hop_complete (hops ! fst e) (snd e))"

fun hops_tried :: "hop list \<Rightarrow> (nat \<times> bool) list \<Rightarrow> (nat \<times> bool) list" where
  "hops_tried hops [] = []"
| "hops_tried hops (e # order) =
     e # (case hop_result hops e of Inr r \<Rightarrow> [] | Inl err \<Rightarrow> hops_tried hops order)"

definition answering :: "hop list \<Rightarrow> (nat \<times> bool) list \<Rightarrow> (nat \<times> bool) option" where
  "answering hops order = List.find (\<lambda>e. \<exists>r. hop_result hops e = Inr r) order"

lemma answering_simps [simp]:
  "answering hops [] = None"
  "answering hops (e # order) = (case hop_result hops e of Inr r \<Rightarrow> Some e | Inl err \<Rightarrow> answering hops order)"
  by (simp_all add: answering_def split: sum.split)

definition known_hops :: "hop list \<Rightarrow> (nat \<times> bool) list \<Rightarrow> bool" where
  "known_hops hops order \<longleftrightarrow> (\<forall>e\<in>set order. fst e < length hops)"

definition flat_hops :: "hop list \<Rightarrow> bool" where
  "flat_hops hops \<longleftrightarrow> (\<forall>h\<in>set hops. \<forall>b e. snd (hop_complete h b) = Inl e \<longrightarrow> flat_error e)"

text \<open>One step of the loop, for a provider that is there.\<close>

lemma try_hops_answer:
  assumes "idx < length hops" "hop_complete (hops ! idx) b = (ds, Inr response)"
  shows "try_hops lower notices hops active0 active1 ((idx, b) # order) failed cause last_error spent partial =
    (let (ns, active) = (if list_ex Not (take idx failed) then ([], active1)
           else notice_on_transition notices idx (hop_name (hops ! idx)) cause active1)
     in \<lparr>co_result = Inr (response_after response spent), co_pushed = fst (tracked_all ds partial),
         co_notices = ns, co_active = active\<rparr>)"
  using assms by (simp add: Let_def split: prod.split)

lemma try_hops_fail:
  assumes "idx < length hops" "hop_complete (hops ! idx) b = (ds, Inl err)"
  shows "\<exists>cause'. try_hops lower notices hops active0 active1 ((idx, b) # order) failed cause last_error spent partial =
    (let rest = try_hops lower notices hops active0 active1 order
        (if b \<and> rejects_image_input lower (underlying err) then failed else failed[idx := True])
        cause' (Some (underlying err)) (spent @ error_attempts err) False
     in rest\<lparr>co_pushed := fst (tracked_all ds partial) @ fst (restart_if_needed (snd (tracked_all ds partial))) @ co_pushed rest\<rparr>)"
  using assms
  by (intro exI [of _ "if \<not> (b \<and> rejects_image_input lower (underlying err)) \<and> idx = active0 then Some (cause_phrase lower (underlying err)) else cause"])
    (simp add: Let_def into_parts_eq restart_if_needed_def split: prod.split)

declare try_hops.simps(2) [simp del]

lemma try_hops_result:
  assumes "known_hops hops order" "flat_hops hops"
    and "\<And>e. last_error = Some e \<Longrightarrow> underlying e = e \<and> error_attempts e = []"
  shows "result_own resp_attempts (co_result (try_hops lower notices hops active0 active1 order failed cause last_error spent partial)) =
      spent @ concat (map (\<lambda>e. result_own resp_attempts (hop_result hops e)) (hops_tried hops order)) \<and>
    (case answering hops order of
       Some e \<Rightarrow> \<exists>r es. hop_result hops e = Inr r \<and>
         co_result (try_hops lower notices hops active0 active1 order failed cause last_error spent partial) = Inr (response_after r es)
     | None \<Rightarrow> \<exists>err. co_result (try_hops lower notices hops active0 active1 order failed cause last_error spent partial) = Inl err \<and>
         underlying err = (if order = [] then (case last_error of Some e \<Rightarrow> e | None \<Rightarrow> NO_PROVIDERS)
           else underlying (projl (hop_result hops (List.last order)))))"
  using assms
proof (induction order arbitrary: failed cause last_error spent partial)
  case Nil
  let ?e = "case last_error of Some e \<Rightarrow> e | None \<Rightarrow> NO_PROVIDERS"
  have "underlying ?e = ?e \<and> error_attempts ?e = []"
    using Nil.prems(3) by (cases last_error) (auto simp: NO_PROVIDERS_def underlying_def error_attempts_def)
  then show ?case
    by (auto simp: result_own_def error_after_attempts_def into_parts_eq Let_def)
      (simp_all add: error_attempts_def underlying_def)
next
  case (Cons e order)
  obtain idx b where e: "e = (idx, b)" by fastforce
  have idx: "idx < length hops" and ks: "known_hops hops order" using Cons.prems(1) by (simp_all add: known_hops_def e)
  obtain ds r where h: "hop_complete (hops ! idx) b = (ds, r)" by fastforce
  show ?case
  proof (cases r)
    case (Inr response)
    have "co_result (try_hops lower notices hops active0 active1 (e # order) failed cause last_error spent partial)
        = Inr (response_after response spent)"
      unfolding e try_hops_answer [OF idx h [unfolded Inr]] by (simp add: Let_def split: prod.split)
    then show ?thesis using Inr by (simp add: e h result_own_def responses.own_after) blast
  next
    case (Inl err)
    have flat: "flat_error err" using Cons.prems(2) idx h Inl unfolding flat_hops_def by (metis nth_mem snd_conv)
    obtain cause' where step: "try_hops lower notices hops active0 active1 ((idx, b) # order) failed cause last_error spent partial =
      (let rest = try_hops lower notices hops active0 active1 order
          (if b \<and> rejects_image_input lower (underlying err) then failed else failed[idx := True])
          cause' (Some (underlying err)) (spent @ error_attempts err) False
       in rest\<lparr>co_pushed := fst (tracked_all ds partial) @ fst (restart_if_needed (snd (tracked_all ds partial))) @ co_pushed rest\<rparr>)"
      using try_hops_fail [OF idx h [unfolded Inl]] by blast
    have bare: "underlying x = x \<and> error_attempts x = []" if "Some (underlying err) = Some x" for x
      using that underlying_bare [OF flat] by auto
    note ih = Cons.IH [where last_error = "Some (underlying err)", OF ks Cons.prems(2) bare,
        where failed = "if b \<and> rejects_image_input lower (underlying err) then failed else failed[idx := True]"
          and cause = cause' and spent = "spent @ error_attempts err" and partial = False]
    have und: "underlying (underlying err) = underlying err" using underlying_bare [OF flat] by simp
    show ?thesis
    proof (cases "order = []")
      case True
      then show ?thesis using ih und unfolding e step by (simp add: h Inl Let_def result_own_def)
    next
      case False
      then show ?thesis using ih und unfolding e step
        by (auto simp: h Inl Let_def result_own_def split: option.splits)
    qed
  qed
qed

lemma try_hops_screen:
  assumes "known_hops hops order"
  shows "screen (co_pushed (try_hops lower notices hops active0 active1 order failed cause last_error spent False)) blank_screen =
    (case answering hops order of Some e \<Rightarrow> screen (fst (hop_complete (hops ! fst e) (snd e))) blank_screen | None \<Rightarrow> blank_screen)"
  using assms
proof (induction order arbitrary: failed cause last_error spent)
  case (Cons e order)
  obtain idx b where e: "e = (idx, b)" by fastforce
  have idx: "idx < length hops" and ks: "known_hops hops order" using Cons.prems by (simp_all add: known_hops_def e)
  obtain ds r where h: "hop_complete (hops ! idx) b = (ds, r)" by fastforce
  show ?case
  proof (cases r)
    case (Inr response)
    then show ?thesis
      by (simp add: e h try_hops_answer [OF idx h [unfolded Inr]] Let_def screen_tracked split: prod.split)
  next
    case (Inl err)
    obtain cause' where step: "try_hops lower notices hops active0 active1 ((idx, b) # order) failed cause last_error spent False =
      (let rest = try_hops lower notices hops active0 active1 order
          (if b \<and> rejects_image_input lower (underlying err) then failed else failed[idx := True])
          cause' (Some (underlying err)) (spent @ error_attempts err) False
       in rest\<lparr>co_pushed := fst (tracked_all ds False) @ fst (restart_if_needed (snd (tracked_all ds False))) @ co_pushed rest\<rparr>)"
      using try_hops_fail [OF idx h [unfolded Inl]] by blast
    have "screen (fst (restart_if_needed (snd (tracked_all ds False)))) (screen ds blank_screen) = blank_screen"
      using restart_blank [of "snd (tracked_all ds False)" "screen ds blank_screen"] tracked_blank [of False blank_screen ds] by simp
    then show ?thesis using Cons.IH [OF ks] unfolding e step
      by (simp add: h Inl Let_def screen_append screen_tracked)
  qed
qed simp

text \<open>Whether a provider failed in this call for a reason other than the request's images.\<close>

definition really_failed :: "(ustring \<Rightarrow> ustring) \<Rightarrow> hop list \<Rightarrow> (nat \<times> bool) list \<Rightarrow> nat \<Rightarrow> bool" where
  "really_failed lower hops tried j \<longleftrightarrow> (\<exists>b err. (j, b) \<in> set tried \<and> hop_result hops (j, b) = Inl err \<and>
     \<not> (b \<and> rejects_image_input lower err))"

lemma rejects_underlying [simp]: "flat_error e \<Longrightarrow> rejects_image_input lower (underlying e) = rejects_image_input lower e"
  by (simp add: rejects_image_input_def underlying_bare)

lemma try_hops_notices:
  assumes "known_hops hops order" "flat_hops hops" "length failed = length hops"
  shows "case answering hops order of
      None \<Rightarrow> co_notices (try_hops lower notices hops active0 active1 order failed cause last_error spent partial) = [] \<and>
        co_active (try_hops lower notices hops active0 active1 order failed cause last_error spent partial) = active1
    | Some (i, b) \<Rightarrow> \<exists>cause'.
        (co_notices (try_hops lower notices hops active0 active1 order failed cause last_error spent partial),
         co_active (try_hops lower notices hops active0 active1 order failed cause last_error spent partial)) =
        (if \<forall>j<i. failed ! j \<or> really_failed lower hops (hops_tried hops order) j
         then notice_on_transition notices i (hop_name (hops ! i)) cause' active1 else ([], active1))"
  using assms
proof (induction order arbitrary: failed cause last_error spent partial)
  case (Cons e order)
  obtain idx b where e: "e = (idx, b)" by fastforce
  have idx: "idx < length hops" and ks: "known_hops hops order" using Cons.prems(1) by (simp_all add: known_hops_def e)
  obtain ds r where h: "hop_complete (hops ! idx) b = (ds, r)" by fastforce
  show ?case
  proof (cases r)
    case (Inr response)
    have "list_ex Not (take idx failed) \<longleftrightarrow> \<not> (\<forall>j<idx. failed ! j)"
      using idx Cons.prems(3) by (auto simp: list_ex_length min_def)
    moreover have "\<not> really_failed lower hops [(idx, b)] j" for j
      using h Inr by (simp add: really_failed_def)
    ultimately have c: "(\<forall>j<idx. failed ! j \<or> really_failed lower hops [(idx, b)] j) \<longleftrightarrow> \<not> list_ex Not (take idx failed)"
      by simp
    let ?run = "try_hops lower notices hops active0 active1 (e # order) failed cause last_error spent partial"
    have "(co_notices ?run, co_active ?run) =
        (if \<forall>j<idx. failed ! j \<or> really_failed lower hops [(idx, b)] j
         then notice_on_transition notices idx (hop_name (hops ! idx)) cause active1 else ([], active1))"
      unfolding c unfolding e try_hops_answer [OF idx h [unfolded Inr]] Let_def
      by (simp only: if_not_P if_P not_not split: if_split prod.split) auto
    moreover have "answering hops (e # order) = Some (idx, b)" "hops_tried hops (e # order) = [(idx, b)]"
      by (simp_all add: e h Inr)
    ultimately show ?thesis by (simp only: option.case prod.case) blast
  next
    case (Inl err)
    have flat: "flat_error err" using Cons.prems(2) idx h Inl unfolding flat_hops_def by (metis nth_mem snd_conv)
    let ?failed = "if b \<and> rejects_image_input lower (underlying err) then failed else failed[idx := True]"
    obtain cause' where step: "try_hops lower notices hops active0 active1 ((idx, b) # order) failed cause last_error spent partial =
      (let rest = try_hops lower notices hops active0 active1 order ?failed
          cause' (Some (underlying err)) (spent @ error_attempts err) False
       in rest\<lparr>co_pushed := fst (tracked_all ds partial) @ fst (restart_if_needed (snd (tracked_all ds partial))) @ co_pushed rest\<rparr>)"
      using try_hops_fail [OF idx h [unfolded Inl]] by blast
    have len: "length ?failed = length hops" using Cons.prems(3) by simp
    have ht: "hops_tried hops (e # order) = (idx, b) # hops_tried hops order" by (simp add: e h Inl)
    have head: "really_failed lower hops (hops_tried hops (e # order)) j \<longleftrightarrow>
        j = idx \<and> \<not> (b \<and> rejects_image_input lower (underlying err)) \<or> really_failed lower hops (hops_tried hops order) j" for j
    proof -
      have "hop_result hops (idx, b) = Inl err" by (simp add: h Inl)
      then show ?thesis unfolding ht really_failed_def rejects_underlying [OF flat] by (metis Pair_inject set_ConsD list.set_intros sum.inject(1))
    qed
    have mark: "(?failed ! j \<or> really_failed lower hops (hops_tried hops order) j) \<longleftrightarrow>
        (failed ! j \<or> really_failed lower hops (hops_tried hops (e # order)) j)" for j
      using idx unfolding head Cons.prems(3) [symmetric] by (cases "j = idx") simp_all
    let ?rest = "try_hops lower notices hops active0 active1 order ?failed cause' (Some (underlying err))
        (spent @ error_attempts err) False"
    let ?run = "try_hops lower notices hops active0 active1 (e # order) failed cause last_error spent partial"
    have same: "co_notices ?run = co_notices ?rest" "co_active ?run = co_active ?rest"
      "answering hops (e # order) = answering hops order"
      unfolding e step by (simp_all add: Let_def h Inl)
    show ?thesis
      using Cons.IH [OF ks Cons.prems(2) len, where cause = cause' and last_error = "Some (underlying err)"
          and spent = "spent @ error_attempts err" and partial = False]
      unfolding same mark .
  qed
qed simp

lemma order_known: "known_hops hops (attempt_order ms hops)"
  by (auto simp: known_hops_def attempt_order_def Let_def split: option.splits)

text \<open>A call through the chain accounts for itself. It returns the answer of the first provider in
  the order that answers, or the last error when none does; either way it lists the attempts of every
  provider tried, in order. On the consumer's screen stands exactly what the answering provider streamed,
  whatever the ones before it had streamed, and nothing when none answered.\<close>

theorem chain_call_accounts:
  fixes lower notices ms active0 active1 and hops :: "hop list"
  assumes "flat_hops hops"
  defines "order \<equiv> attempt_order ms hops" and "out \<equiv> failover_run lower notices hops ms active0 active1"
  shows "result_own resp_attempts (co_result out) =
      concat (map (\<lambda>e. result_own resp_attempts (hop_result hops e)) (hops_tried hops order)) \<and>
    (case answering hops order of
       Some e \<Rightarrow> (\<exists>r es. hop_result hops e = Inr r \<and> co_result out = Inr (response_after r es)) \<and>
         screen (co_pushed out) blank_screen = screen (fst (hop_complete (hops ! fst e) (snd e))) blank_screen
     | None \<Rightarrow> (\<exists>err. co_result out = Inl err \<and> underlying err =
           (if order = [] then NO_PROVIDERS else underlying (projl (hop_result hops (List.last order))))) \<and>
         screen (co_pushed out) blank_screen = blank_screen)"
proof -
  note result = try_hops_result [where last_error = None, OF order_known assms(1), simplified, of lower notices active0 active1
      ms "replicate (length hops) False" None "[]" False]
  note pushed = try_hops_screen [OF order_known, of lower notices hops active0 active1 ms "replicate (length hops) False" None None "[]"]
  show ?thesis using result pushed unfolding out_def order_def failover_run_def option.case
    by (cases "answering hops (attempt_order ms hops)") (simp_all only: option.case simp_thms, blast+)
qed

lemma chain_call_accounts_witness:
  "screen (co_pushed (failover_run id None [\<lparr>hop_name = [], hop_takes_images = True,
     hop_complete = (\<lambda>_. ([TextDelta [7]], Inr (new_response [7] [])))\<rparr>] [] 0 0)) blank_screen = ([7], [])"
proof -
  let ?hops = "[\<lparr>hop_name = [], hop_takes_images = True, hop_complete = (\<lambda>_. ([TextDelta [7]], Inr (new_response [7] [])))\<rparr>]"
  have o: "answering ?hops (attempt_order [] ?hops) = Some (0, False)" by (simp add: attempt_order_def)
  have f: "flat_hops ?hops" by (simp add: flat_hops_def)
  show ?thesis using chain_call_accounts [OF f, where ms = "[]" and lower = id and notices = None  and ?active0.0 = 0 and ?active1.0 = 0, unfolded o option.case] by simp
qed

text \<open>C35: The user hears of a failover exactly when there is one: a call answered by a provider
  other than the active one, past providers that all really failed, makes that provider the active one
  and tells the user once, if notices are on; a call answered by the active provider, one that passed
  over a provider because of the request's images, and one that nobody answered tell nothing and change
  nothing.\<close>

theorem failover_notices_only_on_transitions:
  fixes lower notices ms active0 active1 and hops :: "hop list"
  assumes "flat_hops hops"
  defines "order \<equiv> attempt_order ms hops" and "out \<equiv> failover_run lower notices hops ms active0 active1"
  shows "case answering hops order of
      Some (i, b) \<Rightarrow>
        if \<forall>j<i. really_failed lower hops (hops_tried hops order) j then
          co_active out = i \<and>
          (case notices of
             Some role_name \<Rightarrow> (if active1 = i then co_notices out = []
               else \<exists>cause. co_notices out = [transition_notice role_name i (hop_name (hops ! i)) cause])
           | None \<Rightarrow> co_notices out = [])
        else co_active out = active1 \<and> co_notices out = []
    | None \<Rightarrow> co_active out = active1 \<and> co_notices out = []"
proof -
  have e: "(\<forall>j<i. replicate (length hops) False ! j \<or> P j) \<longleftrightarrow> (\<forall>j<i. P j)" if "i < length hops" for i P
    using that by auto
  have i: "fst x < length hops" if "answering hops order = Some x" for x
    using that order_known [of hops ms] by (auto simp: answering_def known_hops_def order_def dest: find_Some_iff2)
  show ?thesis
    using try_hops_notices [OF order_known [of hops ms] assms(1) length_replicate [of "length hops" False], of lower notices active0 active1 None None "[]" False] i e
    unfolding out_def failover_run_def order_def [symmetric]
    by (auto simp: notice_on_transition_def split: option.splits prod.splits if_splits)
qed

lemma failover_notices_only_on_transitions_witness:
  "co_active (failover_run id None [\<lparr>hop_name = [], hop_takes_images = True,
     hop_complete = (\<lambda>_. ([], Inr (new_response [7] [])))\<rparr>] [] 0 1) = 0"
proof -
  let ?hops = "[\<lparr>hop_name = [], hop_takes_images = True, hop_complete = (\<lambda>_. ([], Inr (new_response [7] [])))\<rparr>]"
  have o: "answering ?hops (attempt_order [] ?hops) = Some (0, False)" by (simp add: attempt_order_def)
  have f: "flat_hops ?hops" by (simp add: flat_hops_def)
  show ?thesis using failover_notices_only_on_transitions [OF f, where ms = "[]" and lower = id and notices = None  and ?active0.0 = 0 and ?active1.0 = 1, unfolded o option.case prod.case] by simp
qed

end
