(* ===== verification/Inference_Usage.thy ===== *)
theory Inference_Usage
  imports Inference_Attempts Complex_Main
begin

text \<open>
  What a model call costs (\<open>crates/inference/src/pricing.rs\<close>), how each attempt is kept on disk
  (\<open>usage_record.rs\<close>), and what a request log leaves out (\<open>http.rs\<close>).

  Prices and costs are floating-point numbers; they are rationals here, so rounding is not modelled.
  A usage record's JSON line is the argument \<open>ser\<close>, and its parser, serde's, the argument \<open>de\<close>; the
  calendar month of an instant, chrono's, is \<open>year_month\<close>. A directory is what reading its files gives.
\<close>

section \<open>Prices\<close>

record model_price =
  price_input :: rat
  price_output :: rat
  price_cache_read :: rat
  price_cache_write :: rat
  price_cache_write_long :: rat

definition price :: "rat \<Rightarrow> rat \<Rightarrow> rat \<Rightarrow> rat \<Rightarrow> rat \<Rightarrow> model_price" where
  "price i q r w l = \<lparr>price_input = i, price_output = q, price_cache_read = r, price_cache_write = w,
     price_cache_write_long = l\<rparr>"

definition BUILT_IN :: "(ustring \<times> model_price) list" where
  "BUILT_IN = [
    (lit ''anthropic/claude-opus-5-5'', price 4 20 (1 / 5) 5 8),
    (lit ''anthropic/claude-sonnet-5-5'', price 2 10 (1 / 10) (5 / 2) 4),
    (lit ''anthropic/claude-haiku-5-5'', price (1 / 10) (1 / 2) (1 / 100) (1 / 8) (1 / 5)),
    (lit ''anthropic/claude-opus-4-6'', price 5 25 (1 / 2) (25 / 4) 10),
    (lit ''anthropic/claude-sonnet-4-6'', price 3 15 (3 / 10) (15 / 4) 6),
    (lit ''anthropic/claude-haiku-4-5'', price 1 5 (1 / 10) (5 / 4) 2),
    (lit ''openai/gpt-4o'', price (5 / 2) 10 (5 / 4) (5 / 2) (5 / 2)),
    (lit ''openai/gpt-4o-mini'', price (3 / 20) (3 / 5) (3 / 40) (3 / 20) (3 / 20)),
    (lit ''openai/o3'', price 2 8 (1 / 2) 2 2),
    (lit ''openai/gpt-5'', price (5 / 4) 10 (1 / 8) (5 / 4) (5 / 4)),
    (lit ''openai/gpt-5-mini'', price (1 / 4) 2 (1 / 40) (1 / 4) (1 / 4)),
    (lit ''gemini/gemini-2.5-pro'', price (5 / 4) 10 (1 / 8) (5 / 4) (5 / 4)),
    (lit ''gemini/gemini-2.5-flash'', price (3 / 10) (5 / 2) (3 / 100) (3 / 10) (3 / 10)),
    (lit ''gemini/gemini-3.8-flash'', price (3 / 4) (15 / 4) (3 / 40) (3 / 4) (3 / 4)),
    (lit ''gemini/gemini-3.6-flash'', price (3 / 4) (15 / 4) (3 / 40) (3 / 4) (3 / 4)),
    (lit ''gemini/gemini-3-flash-preview'', price (1 / 2) 3 (1 / 20) (1 / 2) (1 / 2)),
    (lit ''gemini/gemini-3.1-pro-preview'', price 2 12 (1 / 5) 2 2),
    (lit ''fireworks/accounts/fireworks/models/kimi-k3'', price 3 15 (3 / 10) 3 3),
    (lit ''fireworks/accounts/fireworks/models/glm-5p3'', price (7 / 5) (22 / 5) (13 / 50) (7 / 5) (7 / 5)),
    (lit ''fireworks/accounts/fireworks/models/glm-5p3-flash'', price (3 / 20) (1 / 2) (3 / 100) (3 / 20) (3 / 20))]"

text \<open>A price table: the built-in entries with the configured ones over them.\<close>

type_synonym price_table = "(ustring, model_price) hmap"

definition new_price_table :: "(ustring, model_price) hmap \<Rightarrow> price_table" where
  "new_price_table overrides = fold (\<lambda>(k, p) t. hm_insert k p t) (BUILT_IN @ overrides) []"

definition cost :: "nat \<Rightarrow> rat \<Rightarrow> rat" where
  "cost tokens usd_per_million = of_nat tokens * usd_per_million / 1000000"

definition table_key :: "ustring \<Rightarrow> ustring \<Rightarrow> ustring" where
  "table_key provider model = provider @ [47] @ model"

definition strip_date_suffix :: "ustring \<Rightarrow> ustring option" where
  "strip_date_suffix model =
     (case rsplit_once 45 model of
        Some (base, date) \<Rightarrow> if length date = 8 \<and> list_all is_ascii_digit date then Some base else None
      | None \<Rightarrow> None)"

definition find_price :: "price_table \<Rightarrow> ustring \<Rightarrow> ustring \<Rightarrow> model_price option" where
  "find_price t provider model =
     (case hm_get t (table_key provider model) of
        Some p \<Rightarrow> Some p
      | None \<Rightarrow> (case strip_date_suffix model of
          Some base \<Rightarrow> hm_get t (table_key provider base)
        | None \<Rightarrow> None))"

definition or_zero :: "nat option \<Rightarrow> nat" where
  "or_zero x = (case x of Some n \<Rightarrow> n | None \<Rightarrow> 0)"

definition priced_at :: "model_price \<Rightarrow> usage \<Rightarrow> rat" where
  "priced_at p u =
     (let write_long = or_zero (cache_write_long_tokens u);
          write_short = or_zero (cache_write_tokens u) - write_long
      in cost (or_zero (uncached_input_tokens u)) (price_input p) +
         cost (or_zero (cache_read_tokens u)) (price_cache_read p) +
         cost write_short (price_cache_write p) +
         cost write_long (price_cache_write_long p) +
         cost (or_zero (output_tokens u)) (price_output p))"

definition estimate :: "price_table \<Rightarrow> ustring \<Rightarrow> ustring \<Rightarrow> usage \<Rightarrow> rat option" where
  "estimate t provider model u = map_option (\<lambda>p. priced_at p u) (find_price t provider model)"

section \<open>Usage records\<close>

datatype usage_component =
  MainTurn | SessionTurn ustring | Observer | Reflector | Subconscious | SystemOne | WebModel

definition component_name :: "usage_component \<Rightarrow> ustring" where
  "component_name c = lit (case c of
     MainTurn \<Rightarrow> ''main'' | SessionTurn k \<Rightarrow> ''session'' | Observer \<Rightarrow> ''observer'' | Reflector \<Rightarrow> ''reflector''
   | Subconscious \<Rightarrow> ''subconscious'' | SystemOne \<Rightarrow> ''system_one'' | WebModel \<Rightarrow> ''web_model'')"

definition COMPONENT_NAMES :: "ustring list" where
  "COMPONENT_NAMES = map lit [''main'', ''session'', ''observer'', ''reflector'', ''subconscious'', ''system_one'', ''web_model'']"

record usage_record =
  recorded_at :: datetime
  rec_component :: usage_component
  rec_conversation :: "ustring option"
  rec_provider :: ustring
  rec_model :: ustring
  rec_outcome :: attempt_outcome
  rec_usage :: "usage option"

text \<open>\<open>{year:04}\<close> and \<open>{month:02}\<close>: zeros up to the width, the sign counting.\<close>

definition zero_padded :: "nat \<Rightarrow> int \<Rightarrow> ustring" where
  "zero_padded w n =
     (if 0 \<le> n then (let d = show_nat (nat n) in replicate (w - length d) 48 @ d)
      else (let d = show_nat (nat (- n)) in 45 # replicate (w - 1 - length d) 48 @ d))"

definition month_file_name :: "int \<Rightarrow> nat \<Rightarrow> ustring" where
  "month_file_name year month = zero_padded 4 year @ lit ''-'' @ zero_padded 2 (int month) @ lit ''.jsonl''"

definition parse_i32 :: "ustring \<Rightarrow> int option" where
  "parse_i32 s =
     (case s of
        c # rest \<Rightarrow>
          if c = 45 then
            (if all_digits rest \<and> digits_value rest \<le> 2 ^ 31 then Some (- int (digits_value rest)) else None)
          else map_option int (parse_unsigned (2 ^ 31 - 1) s)
      | [] \<Rightarrow> None)"

definition parse_month_file_name :: "ustring \<Rightarrow> (int \<times> nat) option" where
  "parse_month_file_name name =
     (case strip_suffix (lit ''.jsonl'') name of
        None \<Rightarrow> None
      | Some stem \<Rightarrow> (case split_once 45 stem of
          None \<Rightarrow> None
        | Some (y, m) \<Rightarrow> (case parse_i32 y of
            None \<Rightarrow> None
          | Some year \<Rightarrow> (case parse_u32 m of
              None \<Rightarrow> None
            | Some month \<Rightarrow>
                if 1 \<le> month \<and> month \<le> 12 \<and> month_file_name year month = name then Some (year, month) else None))))"

definition UNKNOWN_PROVIDER :: ustring where "UNKNOWN_PROVIDER = lit ''unknown''"

definition call_attempts :: "ustring \<Rightarrow> inference_error + inference_response \<Rightarrow> attempt_usage list" where
  "call_attempts model_name r =
     (case r of
        Inr response \<Rightarrow>
          if resp_attempts response = [] then
            [\<lparr>at_provider = UNKNOWN_PROVIDER, at_model = model_name, at_outcome = Succeeded, at_usage = resp_usage response\<rparr>]
          else resp_attempts response
      | Inl e \<Rightarrow> error_attempts e)"

definition record_of :: "datetime \<Rightarrow> usage_component \<Rightarrow> ustring option \<Rightarrow> attempt_usage \<Rightarrow> usage_record" where
  "record_of moment component conversation a =
     \<lparr>recorded_at = moment, rec_component = component, rec_conversation = conversation, rec_provider = at_provider a,
      rec_model = at_model a, rec_outcome = at_outcome a, rec_usage = at_usage a\<rparr>"

text \<open>The bytes of the lines to append; a record that does not serialise is left out.\<close>

definition record_lines :: "(usage_record \<Rightarrow> byte list option) \<Rightarrow> usage_record list \<Rightarrow> byte list" where
  "record_lines ser rs =
     concat (map (\<lambda>r. case ser r of Some line \<Rightarrow> line @ [10] | None \<Rightarrow> []) rs)"

text \<open>Appending to a file, when the file system lets it: a line left without its end is ended first.\<close>

definition append_lines :: "byte list \<Rightarrow> byte list \<Rightarrow> byte list" where
  "append_lines contents new = contents @ (if contents \<noteq> [] \<and> List.last contents \<noteq> 10 then [10] else []) @ new"

definition record_attempts_at :: "(usage_record \<Rightarrow> byte list option) \<Rightarrow> datetime \<Rightarrow> usage_component \<Rightarrow>
    ustring option \<Rightarrow> attempt_usage list \<Rightarrow> byte list \<Rightarrow> byte list" where
  "record_attempts_at ser moment component conversation ats contents =
     (let new = record_lines ser (map (record_of moment component conversation) ats)
      in if new = [] then contents else append_lines contents new)"

text \<open>\<open>slice::split\<close> on line feeds, and \<open>trim_ascii\<close> (space, tab, line feed, form feed, return).\<close>

fun split_bytes :: "byte list \<Rightarrow> byte list list" where
  "split_bytes [] = [[]]"
| "split_bytes (b # bs) =
     (if b = 10 then [] # split_bytes bs
      else (case split_bytes bs of p # ps \<Rightarrow> (b # p) # ps | [] \<Rightarrow> [[b]]))"

definition ascii_space :: "byte \<Rightarrow> bool" where
  "ascii_space b \<longleftrightarrow> b = 32 \<or> b = 9 \<or> b = 10 \<or> b = 12 \<or> b = 13"

definition blank_bytes :: "byte list \<Rightarrow> bool" where
  "blank_bytes l \<longleftrightarrow> list_all ascii_space l"

definition parse_lines :: "(byte list \<Rightarrow> usage_record option) \<Rightarrow> byte list \<Rightarrow> usage_record list" where
  "parse_lines de contents = List.map_filter de (filter (\<lambda>l. \<not> blank_bytes l) (split_bytes contents))"

text \<open>Reading a month's file.\<close>

datatype file_read = FileContents "byte list" | FileMissing | FileError ustring

definition month_le :: "int \<times> nat \<Rightarrow> int \<times> nat \<Rightarrow> bool" where
  "month_le a b \<longleftrightarrow> fst a < fst b \<or> fst a = fst b \<and> snd a \<le> snd b"

fun load_months :: "(byte list \<Rightarrow> usage_record option) \<Rightarrow> (int \<times> nat \<Rightarrow> file_read) \<Rightarrow> datetime \<Rightarrow> datetime \<Rightarrow>
    ustring option \<Rightarrow> (int \<times> nat) list \<Rightarrow> ustring + usage_record list" where
  "load_months de read from to component [] = Inr []"
| "load_months de read from to component (m # ms) =
     (case read m of
        FileMissing \<Rightarrow> load_months de read from to component ms
      | FileError e \<Rightarrow> Inl e
      | FileContents contents \<Rightarrow>
          (case load_months de read from to component ms of
             Inl e \<Rightarrow> Inl e
           | Inr rest \<Rightarrow> Inr (filter (\<lambda>r. from \<le> recorded_at r \<and> recorded_at r < to \<and>
                 (case component of Some name \<Rightarrow> component_name (rec_component r) = name | None \<Rightarrow> True))
               (parse_lines de contents) @ rest)))"

definition insert_month :: "int \<times> nat \<Rightarrow> (int \<times> nat) list \<Rightarrow> (int \<times> nat) list" where
  "insert_month m ms = takeWhile (\<lambda>x. month_le x m) ms @ m # dropWhile (\<lambda>x. month_le x m) ms"

definition sort_months :: "(int \<times> nat) list \<Rightarrow> (int \<times> nat) list" where
  "sort_months ms = foldr insert_month ms []"

text \<open>\<open>months_on_disk\<close>: the directory's entries, those whose name is not UTF-8 being none.\<close>

definition months_on_disk :: "ustring option list \<Rightarrow> (int \<times> nat) list" where
  "months_on_disk entries =
     sort_months (List.map_filter (\<lambda>n. case n of Some name \<Rightarrow> parse_month_file_name name | None \<Rightarrow> None) entries)"

definition load_usage :: "(byte list \<Rightarrow> usage_record option) \<Rightarrow> (datetime \<Rightarrow> int \<times> nat) \<Rightarrow>
    (ustring + ustring option list) \<Rightarrow> (int \<times> nat \<Rightarrow> file_read) \<Rightarrow> datetime \<Rightarrow> datetime \<Rightarrow> ustring option \<Rightarrow>
    ustring + usage_record list" where
  "load_usage de year_month entries read from to component =
     (if to \<le> from then Inr []
      else (case entries of
        Inl e \<Rightarrow> Inl e
      | Inr names \<Rightarrow> load_months de read from to component
          (filter (\<lambda>m. month_le (year_month from) m \<and> month_le m (year_month to)) (months_on_disk names))))"

section \<open>What a request log leaves out\<close>

definition INLINE_MEDIA_MIN_LEN :: nat where "INLINE_MEDIA_MIN_LEN = 256"

definition is_ascii_alphanumeric :: "nat \<Rightarrow> bool" where
  "is_ascii_alphanumeric c \<longleftrightarrow> is_ascii_digit c \<or> is_ascii_upper c \<or> is_ascii_lower c"

definition media_char :: "nat \<Rightarrow> bool" where
  "media_char c \<longleftrightarrow> is_ascii_alphanumeric c \<or> c \<in> {43, 47, 61, 10, 13}"

definition is_inline_media :: "ustring \<Rightarrow> bool" where
  "is_inline_media t \<longleftrightarrow>
     (if utf8_len t < INLINE_MEDIA_MIN_LEN then False
      else case strip_prefix (lit ''data:'') t of
        Some url \<Rightarrow>
          (case split_once_str (lit '';base64,'') url of
             Some (_, data) \<Rightarrow> list_all media_char data
           | None \<Rightarrow> False)
      | None \<Rightarrow> list_all media_char t)"

fun replace_inline_media :: "json \<Rightarrow> json" where
  "replace_inline_media (JString t) =
     (if is_inline_media t then JString (lit ''['' @ show_nat (utf8_len t) @ lit '' bytes of inline media omitted]'')
      else JString t)"
| "replace_inline_media (JArray vs) = JArray (map replace_inline_media vs)"
| "replace_inline_media (JObject fs) = JObject (map (\<lambda>(k, v). (k, replace_inline_media v)) fs)"
| "replace_inline_media v = v"

section \<open>Prices are found\<close>

lemma hm_get_fold_insert:
  "hm_get (fold (\<lambda>(k, p) t. hm_insert k p t) es t) key =
     (case map_of (rev es) key of Some p \<Rightarrow> Some p | None \<Rightarrow> hm_get t key)"
proof (induction es arbitrary: t)
  case (Cons e es)
  obtain k p where e: "e = (k, p)" by fastforce
  show ?case using Cons.IH [of "hm_insert k p t"]
    by (simp add: e map_add_def split: option.split)
qed simp

lemma map_of_rev_distinct: "hm_wf m \<Longrightarrow> map_of (rev m) k = hm_get m k"
proof -
  assume "hm_wf m"
  then have d: "distinct (map fst m)" by (simp add: hm_wf_def)
  then have "map_of (rev m) = map_of m" by (intro map_of_inject_set [THEN iffD2]) (simp_all flip: rev_map)
  then show ?thesis by (simp add: hm_get_def)
qed

lemma price_table_get:
  assumes "hm_wf overrides"
  shows "hm_get (new_price_table overrides) k =
    (case hm_get overrides k of Some p \<Rightarrow> Some p | None \<Rightarrow> map_of (rev BUILT_IN) k)"
  unfolding new_price_table_def hm_get_fold_insert
  by (simp add: map_add_def map_of_rev_distinct [OF assms] split: option.split)

lemma strip_date: "length date = 8 \<Longrightarrow> list_all is_ascii_digit date \<Longrightarrow> strip_date_suffix (base @ 45 # date) = Some base"
proof -
  assume d: "length date = 8" "list_all is_ascii_digit date"
  then have "45 \<notin> set date" by (auto simp: list_all_iff is_ascii_digit_def)
  then have "rsplit_once 45 (base @ 45 # date) = Some (base, date)" by (simp add: rsplit_once_Some)
  then show ?thesis using d by (simp add: strip_date_suffix_def)
qed

text \<open>A call is priced by the configured price of its model when there is one, else by the
  built-in price, and a dated snapshot without a price of its own by its base model's. Every token is priced
  once: at one price for all of them, the estimate is that price times the whole prompt and the output,
  as long as the long cache writes are among the cache writes.\<close>

theorem estimate_prices_every_token_once:
  assumes "hm_wf overrides"
    and "length date = 8" "list_all is_ascii_digit date"
    and "hm_get overrides (table_key provider (base @ 45 # date)) = None"
      "map_of (rev BUILT_IN) (table_key provider (base @ 45 # date)) = None"
    and "or_zero (cache_write_long_tokens u) \<le> or_zero (cache_write_tokens u)"
    and "or_zero (uncached_input_tokens u) + or_zero (cache_read_tokens u) + or_zero (cache_write_tokens u) \<le> u32_max"
  shows "find_price (new_price_table overrides) provider (base @ 45 # date) =
      (case hm_get overrides (table_key provider base) of
         Some p \<Rightarrow> Some p | None \<Rightarrow> map_of (rev BUILT_IN) (table_key provider base)) \<and>
    (hm_get overrides (table_key provider m) = Some p \<longrightarrow>
       estimate (new_price_table overrides) provider m u = Some (priced_at p u)) \<and>
    priced_at (price q q q q q) u = q * of_nat (or_zero (total_input_tokens u) + or_zero (output_tokens u)) / 1000000"
proof (intro conjI impI)
  show "find_price (new_price_table overrides) provider (base @ 45 # date) =
      (case hm_get overrides (table_key provider base) of
         Some p \<Rightarrow> Some p | None \<Rightarrow> map_of (rev BUILT_IN) (table_key provider base))"
    using assms by (simp add: find_price_def price_table_get strip_date)
  show "estimate (new_price_table overrides) provider m u = Some (priced_at p u)"
    if "hm_get overrides (table_key provider m) = Some p"
    using that assms(1) by (simp add: estimate_def find_price_def price_table_get)
  have "or_zero (total_input_tokens u) =
      or_zero (uncached_input_tokens u) + or_zero (cache_read_tokens u) + or_zero (cache_write_tokens u)"
    using assms(7) by (cases "uncached_input_tokens u"; cases "cache_read_tokens u"; cases "cache_write_tokens u")
      (simp_all add: total_input_tokens_def reported_def or_zero_def saturating_add_u32_def)
  then show "priced_at (price q q q q q) u = q * of_nat (or_zero (total_input_tokens u) + or_zero (output_tokens u)) / 1000000"
    using assms(6) by (simp add: priced_at_def cost_def price_def Let_def of_nat_diff field_simps)
qed

lemma estimate_prices_every_token_once_witness:
  "find_price (new_price_table []) (lit ''anthropic'') (lit ''claude-haiku-4-5-20251001'') =
    Some (price 1 5 (1 / 10) (5 / 4) 2)"
proof -
  have k: "map_of (rev BUILT_IN) (table_key (lit ''anthropic'') (lit ''claude-haiku-4-5'')) = Some (price 1 5 (1 / 10) (5 / 4) 2)"
    by (simp add: BUILT_IN_def table_key_def lit_def)
  have n: "map_of (rev BUILT_IN) (table_key (lit ''anthropic'') (lit ''claude-haiku-4-5'' @ 45 # lit ''20251001'')) = None"
    by (simp add: BUILT_IN_def table_key_def lit_def)
  have m: "lit ''claude-haiku-4-5-20251001'' = lit ''claude-haiku-4-5'' @ 45 # lit ''20251001''" by (simp add: lit_def)
  have d: "length (lit ''20251001'') = 8" "list_all is_ascii_digit (lit ''20251001'')"
    by (simp_all add: lit_def is_ascii_digit_def)
  let ?u = "\<lparr>uncached_input_tokens = None, cache_read_tokens = None, cache_write_tokens = None,
    cache_write_long_tokens = None, output_tokens = None, reasoning_tokens = None\<rparr>"
  show ?thesis
    using estimate_prices_every_token_once [of "[]" "lit ''20251001''" "lit ''anthropic''" "lit ''claude-haiku-4-5''" ?u] d n
    unfolding m k by (simp add: or_zero_def)
qed

section \<open>Records survive\<close>

lemma split_bytes_nonempty [simp]: "split_bytes bs \<noteq> []"
  by (induction bs) (auto split: list.split)

lemma split_bytes_append: "split_bytes (a @ 10 # b) = split_bytes a @ split_bytes b"
  by (induction a) (auto split: list.splits)

lemma split_bytes_line: "10 \<notin> set l \<Longrightarrow> split_bytes l = [l]"
  by (induction l) auto

lemma blank_empty [simp]: "blank_bytes []"
  by (simp add: blank_bytes_def)

lemma parse_lines_append: "parse_lines de (a @ 10 # b) = parse_lines de a @ parse_lines de b"
  by (simp add: parse_lines_def split_bytes_append map_filter_def)

lemma parse_lines_Nil [simp]: "parse_lines de [] = []"
  by (simp add: parse_lines_def map_filter_def)

lemma parse_lines_append_lines: "parse_lines de (append_lines contents new) = parse_lines de contents @ parse_lines de new"
proof (cases "contents \<noteq> [] \<and> List.last contents = 10")
  case True
  then obtain c where "contents = c @ [10]" by (metis append_butlast_last_id)
  then show ?thesis using parse_lines_append [of de c new] parse_lines_append [of de c "[]"]
    by (simp add: append_lines_def)
next
  case False
  then show ?thesis using parse_lines_append [of de contents new] by (auto simp: append_lines_def)
qed

lemma parse_record_lines:
  assumes "\<And>r line. ser r = Some line \<Longrightarrow> 10 \<notin> set line \<and> \<not> blank_bytes line \<and> de line = Some r"
  shows "parse_lines de (record_lines ser rs) = filter (\<lambda>r. ser r \<noteq> None) rs"
proof (induction rs)
  case (Cons r rs)
  show ?case
  proof (cases "ser r")
    case (Some line)
    have "parse_lines de line = [r]" using assms [OF Some]
      by (simp add: parse_lines_def split_bytes_line map_filter_def)
    then show ?thesis using Cons Some parse_lines_append [of de line "record_lines ser rs"]
      by (simp add: record_lines_def)
  qed (use Cons in \<open>simp add: record_lines_def\<close>)
qed (simp add: record_lines_def)

text \<open>Usage records are never lost once written: recording a call's attempts leaves every record
  the file already had readable, the last line's newline missing or not, even torn by a crash, and adds
  exactly the records of the attempts, in order.\<close>

theorem usage_records_accumulate:
  assumes "\<And>r line. ser r = Some line \<Longrightarrow> 10 \<notin> set line \<and> \<not> blank_bytes line \<and> de line = Some r"
  shows "parse_lines de (record_attempts_at ser moment component conversation ats contents) =
    parse_lines de contents @ filter (\<lambda>r. ser r \<noteq> None) (map (record_of moment component conversation) ats)"
proof -
  let ?rs = "map (record_of moment component conversation) ats"
  have new: "parse_lines de (record_lines ser ?rs) = filter (\<lambda>r. ser r \<noteq> None) ?rs"
    by (rule parse_record_lines) (rule assms)
  show ?thesis
  proof (cases "record_lines ser ?rs = []")
    case True
    then show ?thesis using new unfolding record_attempts_at_def Let_def by (simp only: simp_thms if_True parse_lines_Nil append_Nil2)
  next
    case False
    then show ?thesis using new unfolding record_attempts_at_def Let_def
      by (simp only: if_False parse_lines_append_lines)
  qed
qed

lemma usage_records_accumulate_witness:
  "parse_lines (\<lambda>_. None) (record_attempts_at (\<lambda>_. None) 0 MainTurn None [] [1, 2]) = []"
  using usage_records_accumulate [of "\<lambda>_. None" "\<lambda>_. None" 0 MainTurn None "[]" "[1, 2]"]
  by (simp add: parse_lines_def map_filter_def)

section \<open>Month files\<close>

lemma digits_value_zeros [simp]: "digits_value (replicate n 48 @ ds) = digits_value ds"
  by (induction n) (simp_all add: digits_value_def)

lemma all_digits_zeros: "all_digits ds \<Longrightarrow> all_digits (replicate n 48 @ ds)"
  by (auto simp: all_digits_def list_all_iff is_ascii_digit_def)

lemma zero_padded_digits: "0 \<le> n \<Longrightarrow> all_digits (zero_padded w n) \<and> digits_value (zero_padded w n) = nat n"
  using show_nat_digits [of "nat n"] show_nat_value [of "nat n"]
  by (simp add: zero_padded_def Let_def all_digits_zeros)

lemma parse_unsigned_digits: "all_digits ds \<Longrightarrow> digits_value ds \<le> mx \<Longrightarrow> parse_unsigned mx ds = Some (digits_value ds)"
  using digits_head by (cases ds) (auto simp: parse_unsigned_def Let_def)

lemma month_name_parses:
  assumes "0 \<le> y" "y < 2 ^ 31" "1 \<le> m" "m \<le> 12"
  shows "parse_month_file_name (month_file_name y m) = Some (y, m)"
proof -
  let ?y = "zero_padded 4 y" and ?m = "zero_padded 2 (int m)"
  have y: "all_digits ?y" "digits_value ?y = nat y" and m: "all_digits ?m" "digits_value ?m = m"
    using zero_padded_digits assms(1) by auto
  have "strip_suffix (lit ''.jsonl'') (month_file_name y m) = Some (?y @ 45 # ?m)"
    by (simp add: month_file_name_def strip_suffix_def ends_with_def starts_with_def lit_def)
  moreover have "split_once 45 (?y @ 45 # ?m) = Some (?y, ?m)"
    using y(1) by (auto simp: split_once_Some all_digits_def list_all_iff is_ascii_digit_def)
  moreover have "parse_i32 ?y = Some y"
    using y assms(1,2) parse_unsigned_digits [OF y(1), of "2 ^ 31 - 1"] digits_head
    by (cases ?y) (auto simp: parse_i32_def all_digits_def)
  moreover have "parse_u32 ?m = Some m"
    using m assms(4) parse_unsigned_digits [OF m(1), of "2 ^ 32 - 1"] by (simp add: parse_u32_def)
  ultimately show ?thesis using assms by (simp add: parse_month_file_name_def)
qed

text \<open>The file names of usage records and the months they hold are one to one: a month's name is
  read back as that month, and every name that is read as a month is exactly that month's name, so no other
  file of the directory is taken for one.\<close>

theorem month_file_roundtrip:
  assumes "0 \<le> y" "y < 2 ^ 31" "1 \<le> m" "m \<le> 12"
  shows "parse_month_file_name (month_file_name y m) = Some (y, m) \<and>
    (parse_month_file_name name = Some (y', m') \<longrightarrow> name = month_file_name y' m' \<and> 1 \<le> m' \<and> m' \<le> 12)"
proof (intro conjI impI)
  show "parse_month_file_name (month_file_name y m) = Some (y, m)" by (rule month_name_parses [OF assms])
qed (auto simp: parse_month_file_name_def split: option.splits prod.splits if_splits)

lemma month_file_roundtrip_witness: "parse_month_file_name (month_file_name 2026 3) = Some (2026, 3)"
  using month_file_roundtrip [of 2026 3] by simp

lemma month_le_trans: "month_le a b \<Longrightarrow> month_le b c \<Longrightarrow> month_le a c"
  by (auto simp: month_le_def)

lemma set_sort_months [simp]: "set (sort_months ms) = set ms"
proof (induction ms)
  case (Cons m ms)
  have "set (insert_month m xs) = insert m (set xs)" for xs
    unfolding insert_month_def by (metis insert_is_Un list.simps(15) set_append takeWhile_dropWhile_id Un_insert_right)
  then show ?case using Cons by (simp add: sort_months_def)
qed (simp add: sort_months_def)

definition records_of :: "(byte list \<Rightarrow> usage_record option) \<Rightarrow> (int \<times> nat \<Rightarrow> file_read) \<Rightarrow> int \<times> nat \<Rightarrow> usage_record list" where
  "records_of de read m = (case read m of FileContents c \<Rightarrow> parse_lines de c | _ \<Rightarrow> [])"

definition wanted :: "datetime \<Rightarrow> datetime \<Rightarrow> ustring option \<Rightarrow> usage_record \<Rightarrow> bool" where
  "wanted from to component r \<longleftrightarrow> from \<le> recorded_at r \<and> recorded_at r < to \<and>
     (\<forall>name. component = Some name \<longrightarrow> component_name (rec_component r) = name)"

lemma load_months_all:
  assumes "\<forall>m\<in>set ms. \<forall>e. read m \<noteq> FileError e"
  shows "load_months de read from to component ms = Inr (filter (wanted from to component) (concat (map (records_of de read) ms)))"
  using assms
proof (induction ms)
  case (Cons m ms)
  have w: "(\<lambda>r. from \<le> recorded_at r \<and> recorded_at r < to \<and>
      (case component of Some name \<Rightarrow> component_name (rec_component r) = name | None \<Rightarrow> True)) = wanted from to component"
    by (intro ext) (auto simp: wanted_def split: option.split)
  show ?case using Cons by (cases "read m") (simp_all add: records_of_def w)
qed simp

lemma filter_concat_some:
  "(\<And>m r. m \<in> set ms \<Longrightarrow> r \<in> set (f m) \<Longrightarrow> P r \<Longrightarrow> Q m) \<Longrightarrow>
     filter P (concat (map f (filter Q ms))) = filter P (concat (map f ms))"
  by (induction ms) (auto simp: filter_empty_conv)

text \<open>Loading usage records returns exactly the records made in the given time, of the given
  component if one is named, of all the files in the directory, oldest month first: leaving out the
  months before and after loses none.\<close>

theorem loading_usage_misses_nothing:
  assumes "\<And>a b. a \<le> b \<Longrightarrow> month_le (year_month a) (year_month b)"
    and "\<forall>m\<in>set (months_on_disk names). \<forall>e. read m \<noteq> FileError e"
    and "\<forall>m\<in>set (months_on_disk names). \<forall>r\<in>set (records_of de read m). year_month (recorded_at r) = m"
  shows "load_usage de year_month (Inr names) read from to component =
    Inr (filter (wanted from to component) (concat (map (records_of de read) (months_on_disk names))))"
proof (cases "to \<le> from")
  case True
  then have "wanted from to component = (\<lambda>_. False)" by (intro ext) (auto simp: wanted_def)
  then show ?thesis using True by (simp add: load_usage_def)
next
  case False
  let ?near = "\<lambda>m. month_le (year_month from) m \<and> month_le m (year_month to)"
  have "filter (wanted from to component) (concat (map (records_of de read) (filter ?near (months_on_disk names))))
      = filter (wanted from to component) (concat (map (records_of de read) (months_on_disk names)))"
  proof (rule filter_concat_some)
    fix m r assume m: "m \<in> set (months_on_disk names)" "r \<in> set (records_of de read m)" "wanted from to component r"
    then have "from \<le> recorded_at r" "recorded_at r \<le> to" "year_month (recorded_at r) = m"
      using assms(3) by (auto simp: wanted_def)
    then show "?near m" using assms(1) by metis
  qed
  moreover have "\<forall>m\<in>set (filter ?near (months_on_disk names)). \<forall>e. read m \<noteq> FileError e" using assms(2) by simp
  ultimately show ?thesis using False by (simp add: load_usage_def load_months_all)
qed

lemma loading_usage_misses_nothing_witness:
  "load_usage (\<lambda>_. None) (\<lambda>_. (0, 1)) (Inr [Some (lit ''2026-03.jsonl''), None]) (\<lambda>_. FileContents [1]) 0 5 None = Inr []"
proof -
  have "records_of (\<lambda>_. None) (\<lambda>_. FileContents [1]) = (\<lambda>_. [])"
    by (intro ext) (simp add: records_of_def parse_lines_def map_filter_def)
  then show ?thesis
    using loading_usage_misses_nothing [of "\<lambda>_. (0, 1)" "[Some (lit ''2026-03.jsonl''), None]" "\<lambda>_. FileContents [1]"
        "\<lambda>_. None" 0 5 None] by (simp add: month_le_def)
qed

section \<open>Nothing inline is logged\<close>

fun texts_of :: "json \<Rightarrow> ustring list" where
  "texts_of (JString t) = [t]"
| "texts_of (JArray vs) = concat (map texts_of vs)"
| "texts_of (JObject fs) = concat (map (\<lambda>(k, v). texts_of v) fs)"
| "texts_of v = []"

definition keeps_text :: "ustring \<Rightarrow> ustring" where
  "keeps_text t = (if is_inline_media t then lit ''['' @ show_nat (utf8_len t) @ lit '' bytes of inline media omitted]'' else t)"

lemma omitted_is_no_media: "\<not> is_inline_media (lit ''['' @ s)"
  by (simp add: is_inline_media_def strip_prefix_def starts_with_def lit_def media_char_def is_ascii_alphanumeric_def
      is_ascii_digit_def is_ascii_upper_def is_ascii_lower_def)

text \<open>A logged request holds no inline media: every string of it that was one is replaced by its
  size, every other string is as it was, nothing else changes, and replacing again changes nothing.\<close>

theorem logged_requests_hold_no_media:
  "texts_of (replace_inline_media v) = map keeps_text (texts_of v) \<and>
   (\<forall>t\<in>set (texts_of (replace_inline_media v)). \<not> is_inline_media t) \<and>
   replace_inline_media (replace_inline_media v) = replace_inline_media v"
proof -
  have 1: "texts_of (replace_inline_media v) = map keeps_text (texts_of v)"
  proof (induction v rule: replace_inline_media.induct)
    case (2 vs)
    then show ?case by (induction vs) auto
  next
    case (3 fs)
    then show ?case by (induction fs) fastforce+
  qed (simp_all add: keeps_text_def)
  have no: "\<not> is_inline_media (keeps_text t)" for t
    using omitted_is_no_media by (simp add: keeps_text_def)
  have 2: "replace_inline_media (replace_inline_media v) = replace_inline_media v"
  proof (induction v rule: replace_inline_media.induct)
    case (1 t)
    show ?case using omitted_is_no_media by simp
  qed auto
  show ?thesis using 1 no 2 by simp
qed

end
