(* ===== verification/Session_Names.thy ===== *)
theory Session_Names
  imports Inference_Types Rust_Numbers
begin

text \<open>
  The vocabulary of agent sessions (\<open>crates/bus/src/session.rs\<close>, \<open>usage.rs\<close>, parts of \<open>events.rs\<close> and
  \<open>origin.rs\<close>, and the addresses of \<open>crates/background/src/registry.rs\<close>): categories, states,
  addresses, and the token totals of a session.

  Random numbers and the time are arguments. A 64-bit total is a natural number; the theorem on the
  totals bounds it.
\<close>

section \<open>Triggers, categories, states\<close>

datatype event_trigger =
  PulseTrigger | ActionTrigger | AgentTrigger | WebhookTrigger ustring | ConversationTrigger | ArtifactTrigger ustring

definition trigger_str :: "event_trigger \<Rightarrow> ustring" where
  "trigger_str t = lit (case t of
     PulseTrigger \<Rightarrow> ''pulse'' | ActionTrigger \<Rightarrow> ''action'' | AgentTrigger \<Rightarrow> ''agent''
   | WebhookTrigger n \<Rightarrow> ''webhook'' | ConversationTrigger \<Rightarrow> ''conversation'' | ArtifactTrigger n \<Rightarrow> ''artifact'')"

definition show_trigger :: "event_trigger \<Rightarrow> ustring" where
  "show_trigger t = (case t of
     WebhookTrigger n \<Rightarrow> lit ''webhook:'' @ n
   | ArtifactTrigger n \<Rightarrow> lit ''artifact:'' @ n
   | other \<Rightarrow> trigger_str other)"

datatype session_category = ScheduledSession | ExternalSession | SpawnedSession | ArtifactSession

fun from_trigger :: "event_trigger \<Rightarrow> session_category" where
  "from_trigger PulseTrigger = ScheduledSession"
| "from_trigger ActionTrigger = ScheduledSession"
| "from_trigger AgentTrigger = SpawnedSession"
| "from_trigger (WebhookTrigger n) = ExternalSession"
| "from_trigger ConversationTrigger = ExternalSession"
| "from_trigger (ArtifactTrigger n) = ArtifactSession"

definition category_str :: "session_category \<Rightarrow> ustring" where
  "category_str c = lit (case c of
     ScheduledSession \<Rightarrow> ''scheduled'' | ExternalSession \<Rightarrow> ''external'' | SpawnedSession \<Rightarrow> ''spawned''
   | ArtifactSession \<Rightarrow> ''artifact'')"

definition category_from_label :: "ustring \<Rightarrow> session_category option" where
  "category_from_label l =
     (if l = lit ''scheduled'' then Some ScheduledSession
      else if l = lit ''external'' then Some ExternalSession
      else if l = lit ''spawned'' then Some SpawnedSession
      else if l = lit ''artifact'' then Some ArtifactSession
      else None)"

datatype session_state = Forking | Queued | Running | Idle | Completing | Completed

definition state_str :: "session_state \<Rightarrow> ustring" where
  "state_str s = lit (case s of
     Forking \<Rightarrow> ''forking'' | Queued \<Rightarrow> ''queued'' | Running \<Rightarrow> ''running'' | Idle \<Rightarrow> ''idle''
   | Completing \<Rightarrow> ''completing'' | Completed \<Rightarrow> ''completed'')"

definition state_from_label :: "ustring \<Rightarrow> session_state option" where
  "state_from_label l =
     (if l = lit ''forking'' then Some Forking
      else if l = lit ''queued'' then Some Queued
      else if l = lit ''running'' then Some Running
      else if l = lit ''idle'' then Some Idle
      else if l = lit ''completing'' then Some Completing
      else if l = lit ''completed'' then Some Completed
      else None)"

lemma category_label_roundtrip: "category_from_label l = Some c \<longleftrightarrow> l = category_str c"
  by (cases c) (auto simp: category_from_label_def category_str_def)

lemma state_label_roundtrip: "state_from_label l = Some s \<longleftrightarrow> l = state_str s"
  by (cases s) (auto simp: state_from_label_def state_str_def)

section \<open>Where a message belongs\<close>

definition BACKGROUND_ENDPOINT :: ustring where "BACKGROUND_ENDPOINT = lit ''background''"

datatype conversation_kind = Personal | GroupChat | ChatChannel

record conversation_context =
  conv_id :: ustring
  conv_kind :: conversation_kind
  conv_is_owner :: bool

record message_origin =
  origin_endpoint :: ustring
  origin_sender :: "message_sender option"
  origin_conversation :: "conversation_context option"
  origin_agent_sender :: "agent_sender option"

definition belongs_to_main :: "message_origin \<Rightarrow> bool" where
  "belongs_to_main m =
     (case origin_conversation m of
        None \<Rightarrow> True
      | Some c \<Rightarrow> conv_kind c = Personal \<and> conv_is_owner c)"

definition is_from_person :: "message_origin \<Rightarrow> bool" where
  "is_from_person m \<longleftrightarrow> origin_endpoint m \<noteq> BACKGROUND_ENDPOINT \<and> origin_agent_sender m = None"

section \<open>Addresses\<close>

definition dash_char :: nat where "dash_char = 45"

definition slug_char :: "nat \<Rightarrow> nat" where
  "slug_char c =
     (if is_ascii_digit c \<or> is_ascii_upper c \<or> is_ascii_lower c then ascii_lower_char c else dash_char)"

text \<open>\<open>str::replace\<close> of two dashes by one, from left to right, without overlap.\<close>

fun replace_dashes :: "ustring \<Rightarrow> ustring" where
  "replace_dashes (x # y # rest) =
     (if x = dash_char \<and> y = dash_char then dash_char # replace_dashes rest
      else x # replace_dashes (y # rest))"
| "replace_dashes s = s"

definition double_dash :: ustring where "double_dash = [dash_char, dash_char]"

lemma length_replace_dashes: "length (replace_dashes s) \<le> length s"
  by (induction s rule: replace_dashes.induct) auto

lemma replace_shortens: "contains_str double_dash s \<Longrightarrow> length (replace_dashes s) < length s"
proof (induction s rule: replace_dashes.induct)
  case (1 x y rest)
  show ?case
  proof (cases "x = dash_char \<and> y = dash_char")
    case True
    then show ?thesis using length_replace_dashes [of rest] by simp
  next
    case False
    then have "contains_str double_dash (y # rest)"
      using "1.prems" by (auto simp: double_dash_def starts_with_def)
    then show ?thesis using "1.IH"(2) [OF False] False by auto
  qed
qed (auto simp: double_dash_def starts_with_def)

function squeeze_dashes :: "ustring \<Rightarrow> ustring" where
  "squeeze_dashes s = (if contains_str double_dash s then squeeze_dashes (replace_dashes s) else s)"
  by pat_completeness auto

termination squeeze_dashes
  by (relation "measure length") (use replace_shortens in auto)

declare squeeze_dashes.simps [simp del]

definition trim_dashes :: "ustring \<Rightarrow> ustring" where
  "trim_dashes s = rev (dropWhile (\<lambda>c. c = dash_char) (rev (dropWhile (\<lambda>c. c = dash_char) s)))"

definition slugify :: "ustring \<Rightarrow> ustring" where
  "slugify s =
     (let slug = squeeze_dashes (take 24 (map slug_char s));
          trimmed = trim_dashes slug
      in if trimmed = [] then lit ''session'' else trimmed)"

text \<open>Zero-padded lower-case hexadecimal, of numbers that fit the width.\<close>

definition hex_char :: "nat \<Rightarrow> nat" where
  "hex_char d = (if d < 10 then 48 + d else 87 + d)"

fun hex_fixed :: "nat \<Rightarrow> nat \<Rightarrow> ustring" where
  "hex_fixed 0 n = []"
| "hex_fixed (Suc w) n = hex_fixed w (n div 16) @ [hex_char (n mod 16)]"

definition generate_run_id :: "int \<Rightarrow> u32 \<Rightarrow> ustring" where
  "generate_run_id timestamp_ms r =
     lit ''run-'' @ (if timestamp_ms < 0 then lit ''-'' else []) @ show_nat (nat \<bar>timestamp_ms\<bar>) @ lit ''-'' @ hex_fixed 8 (unat r)"

definition generate_address :: "event_trigger \<Rightarrow> ustring \<Rightarrow> 16 word \<Rightarrow> ustring" where
  "generate_address t qualifier tag =
     category_str (from_trigger t) @ lit ''-'' @ slugify qualifier @ lit ''-'' @ hex_fixed 4 (unat tag)"

definition MAIN_ADDRESS :: ustring where "MAIN_ADDRESS = lit ''main''"
definition OWNER_ADDRESS :: ustring where "OWNER_ADDRESS = lit ''owner''"
definition ARTIFACT_SENDER_PREFIX :: ustring where "ARTIFACT_SENDER_PREFIX = lit ''artifact:''"
definition TEAMMATE_SENDER_PREFIX :: ustring where "TEAMMATE_SENDER_PREFIX = lit ''agent:''"

definition artifact_sender_address :: "ustring \<Rightarrow> ustring" where
  "artifact_sender_address name = ARTIFACT_SENDER_PREFIX @ name"

text \<open>The bytes of a string: its UTF-8 encoding.\<close>

definition utf8_char :: "nat \<Rightarrow> byte list" where
  "utf8_char c =
     (if c < 128 then [of_nat c]
      else if c < 2048 then [of_nat (192 + c div 64), of_nat (128 + c mod 64)]
      else if c < 65536 then [of_nat (224 + c div 4096), of_nat (128 + c div 64 mod 64), of_nat (128 + c mod 64)]
      else [of_nat (240 + c div 262144), of_nat (128 + c div 4096 mod 64), of_nat (128 + c div 64 mod 64),
        of_nat (128 + c mod 64)])"

definition utf8_bytes :: "ustring \<Rightarrow> byte list" where
  "utf8_bytes s = concat (map utf8_char s)"

definition fnv1a64 :: "byte list \<Rightarrow> u64" where
  "fnv1a64 bs = fold (\<lambda>b h. (xor h (ucast b)) * 0x00000100000001b3) bs 0xcbf29ce484222325"

definition conversation_session_address :: "ustring \<Rightarrow> ustring \<Rightarrow> ustring" where
  "conversation_session_address endpoint conversation =
     lit ''external-'' @ slugify endpoint @ lit ''-'' @
       hex_fixed 16 (unat (fnv1a64 (utf8_bytes endpoint @ [0] @ utf8_bytes conversation)))"

section \<open>Token totals\<close>

record session_totals =
  total_input :: nat
  total_cache_read :: nat
  total_cache_write :: nat
  total_output :: nat
  context_tokens :: "nat option"
  total_tool_calls :: nat

definition no_totals :: session_totals where
  "no_totals = \<lparr>total_input = 0, total_cache_read = 0, total_cache_write = 0, total_output = 0,
     context_tokens = None, total_tool_calls = 0\<rparr>"

definition nat_or_zero :: "nat option \<Rightarrow> nat" where
  "nat_or_zero x = (case x of Some n \<Rightarrow> n | None \<Rightarrow> 0)"

definition accumulate_totals :: "usage option \<Rightarrow> session_totals \<Rightarrow> session_totals" where
  "accumulate_totals u t =
     (case u of
        None \<Rightarrow> t
      | Some u \<Rightarrow>
          let i = total_input_tokens u in
          t\<lparr>total_input := total_input t + nat_or_zero i,
            total_cache_read := total_cache_read t + nat_or_zero (cache_read_tokens u),
            total_cache_write := total_cache_write t + nat_or_zero (cache_write_tokens u),
            total_output := total_output t + nat_or_zero (output_tokens u),
            context_tokens := (if i \<noteq> None then i else context_tokens t)\<rparr>)"

definition record_tool_calls_total :: "nat \<Rightarrow> session_totals \<Rightarrow> session_totals" where
  "record_tool_calls_total n t = t\<lparr>total_tool_calls := total_tool_calls t + n\<rparr>"

section \<open>Slugs are clean\<close>

definition slug_ok :: "nat \<Rightarrow> bool" where
  "slug_ok c \<longleftrightarrow> is_ascii_digit c \<or> is_ascii_lower c \<or> c = dash_char"

lemma slug_char_ok: "slug_ok (slug_char c)"
  by (auto simp: slug_char_def slug_ok_def ascii_lower_char_def is_ascii_upper_def is_ascii_lower_def is_ascii_digit_def)

lemma slug_char_id: "slug_ok c \<Longrightarrow> slug_char c = c"
  by (auto simp: slug_char_def slug_ok_def ascii_lower_char_def is_ascii_upper_def is_ascii_lower_def is_ascii_digit_def
      dash_char_def)

lemma replace_dashes_set: "set (replace_dashes s) \<subseteq> set s"
  by (induction s rule: replace_dashes.induct) auto

lemma squeeze_properties:
  "\<not> contains_str double_dash (squeeze_dashes s) \<and> set (squeeze_dashes s) \<subseteq> set s \<and> length (squeeze_dashes s) \<le> length s"
proof (induction s rule: squeeze_dashes.induct)
  case (1 s)
  show ?case
  proof (cases "contains_str double_dash s")
    case True
    then show ?thesis using 1 replace_dashes_set [of s] length_replace_dashes [of s]
      by (subst (1 2 3) squeeze_dashes.simps) auto
  next
    case False
    then show ?thesis by (subst (1 2 3) squeeze_dashes.simps) simp
  qed
qed

lemma contains_str_mono: "contains_str p s \<Longrightarrow> contains_str p (a @ s @ b)"
proof -
  have app: "contains_str p (s @ b)" if "contains_str p s" for s
    using that
  proof (induction s)
    case Nil
    then show ?case by (cases b) (simp_all add: starts_with_def)
  next
    case (Cons x s)
    then show ?case using starts_with_append [of p "x # s" b] by auto
  qed
  have "contains_str p (a @ t)" if "contains_str p t" for t
    using that by (induction a) auto
  then show "contains_str p s \<Longrightarrow> contains_str p (a @ s @ b)" using app by blast
qed

lemma trim_dashes_parts: "\<exists>a b. s = a @ trim_dashes s @ b"
proof -
  let ?P = "\<lambda>c. c = dash_char"
  obtain a where a: "s = a @ dropWhile ?P s" by (metis takeWhile_dropWhile_id)
  obtain b where b: "rev (dropWhile ?P s) = b @ dropWhile ?P (rev (dropWhile ?P s))" by (metis takeWhile_dropWhile_id)
  then have "dropWhile ?P s = trim_dashes s @ rev b" unfolding trim_dashes_def by (metis rev_append rev_rev_ident)
  then show ?thesis using a by metis
qed

lemma trim_dashes_ends:
  assumes "trim_dashes s \<noteq> []"
  shows "hd (trim_dashes s) \<noteq> dash_char" "List.last (trim_dashes s) \<noteq> dash_char"
proof -
  let ?P = "\<lambda>c. c = dash_char" and ?d = "dropWhile (\<lambda>c. c = dash_char) s"
  have ne: "dropWhile ?P (rev ?d) \<noteq> []" using assms by (simp add: trim_dashes_def)
  show "List.last (trim_dashes s) \<noteq> dash_char"
    using hd_dropWhile [OF ne] by (simp add: trim_dashes_def last_rev)
  obtain b where b: "rev ?d = b @ dropWhile ?P (rev ?d)" by (metis takeWhile_dropWhile_id)
  then have d: "?d = trim_dashes s @ rev b" unfolding trim_dashes_def by (metis rev_append rev_rev_ident)
  then have "hd (trim_dashes s) = hd ?d" "?d \<noteq> []" using assms by auto
  then show "hd (trim_dashes s) \<noteq> dash_char" using hd_dropWhile [of ?P s] by simp
qed

definition clean_slug :: "ustring \<Rightarrow> bool" where
  "clean_slug s \<longleftrightarrow> s \<noteq> [] \<and> length s \<le> 24 \<and> list_all slug_ok s \<and> hd s \<noteq> dash_char \<and> List.last s \<noteq> dash_char \<and>
     \<not> contains_str double_dash s"

lemma slugify_clean: "clean_slug (slugify s)"
proof (cases "trim_dashes (squeeze_dashes (take 24 (map slug_char s))) = []")
  case True
  then show ?thesis by (simp add: slugify_def clean_slug_def lit_def slug_ok_def is_ascii_lower_def dash_char_def
      double_dash_def starts_with_def)
next
  case False
  let ?q = "squeeze_dashes (take 24 (map slug_char s))"
  obtain a b where ab: "?q = a @ trim_dashes ?q @ b" using trim_dashes_parts by blast
  note q = squeeze_properties [of "take 24 (map slug_char s)"]
  have "set (trim_dashes ?q) \<subseteq> set (take 24 (map slug_char s))" using q ab by (metis Un_subset_iff set_append)
  then have ok: "list_all slug_ok (trim_dashes ?q)"
    using slug_char_ok by (fastforce simp: list_all_iff dest: in_set_takeD)
  have "length (trim_dashes ?q) \<le> length ?q" by (subst (2) ab) simp
  then have len: "length (trim_dashes ?q) \<le> 24" using q by simp
  have "\<not> contains_str double_dash (trim_dashes ?q)" using q ab contains_str_mono by metis
  then show ?thesis using False ok len trim_dashes_ends [OF False] by (simp add: slugify_def clean_slug_def Let_def)
qed

lemma slugify_id: "clean_slug s \<Longrightarrow> slugify s = s"
proof -
  assume c: "clean_slug s"
  then have m: "map slug_char s = s" using slug_char_id by (auto simp: clean_slug_def list_all_iff intro: map_idI)
  have "squeeze_dashes s = s" using c by (subst squeeze_dashes.simps) (simp add: clean_slug_def)
  moreover have "trim_dashes s = s"
    using c by (simp add: clean_slug_def trim_dashes_def dropWhile_head hd_rev)
  ultimately show ?thesis using c by (simp add: slugify_def m clean_slug_def)
qed

text \<open>A slug is a clean name: never empty, at most 24 characters, lower-case letters, digits and
  single dashes inside only, and making a slug of a slug changes nothing.\<close>

theorem slugs_are_clean:
  "clean_slug (slugify s) \<and> slugify (slugify s) = slugify s"
  using slugify_clean [of s] slugify_id by blast

section \<open>Addresses do not collide\<close>

lemma length_hex_fixed [simp]: "length (hex_fixed w n) = w"
  by (induction w arbitrary: n) auto

lemma hex_char_inject: "a < 16 \<Longrightarrow> b < 16 \<Longrightarrow> hex_char a = hex_char b \<longleftrightarrow> a = b"
  by (auto simp: hex_char_def)

lemma hex_fixed_inject: "m < 16 ^ w \<Longrightarrow> n < 16 ^ w \<Longrightarrow> hex_fixed w m = hex_fixed w n \<longleftrightarrow> m = n"
proof (induction w arbitrary: m n)
  case (Suc w)
  have "m div 16 < 16 ^ w" "n div 16 < 16 ^ w" using Suc.prems by auto
  then have "hex_fixed w (m div 16) = hex_fixed w (n div 16) \<longleftrightarrow> m div 16 = n div 16" by (rule Suc.IH)
  moreover have "hex_char (m mod 16) = hex_char (n mod 16) \<longleftrightarrow> m mod 16 = n mod 16" by (rule hex_char_inject) simp_all
  moreover have "m = n \<longleftrightarrow> m div 16 = n div 16 \<and> m mod 16 = n mod 16" by (metis div_mult_mod_eq)
  ultimately show ?case by simp
qed simp

lemma hex_fixed_ok: "list_all slug_ok (hex_fixed w n)"
proof (induction w arbitrary: n)
  case (Suc w)
  have "slug_ok (hex_char (n mod 16))"
    by (auto simp: slug_ok_def hex_char_def is_ascii_digit_def is_ascii_lower_def)
  then show ?case using Suc by simp
qed simp

lemma slugify_chars: "list_all slug_ok (slugify s)"
  using slugify_clean [of s] by (simp add: clean_slug_def)

lemma category_str_ok: "list_all slug_ok (category_str c)"
  by (cases c) (simp_all add: category_str_def lit_def slug_ok_def is_ascii_lower_def)

lemma unat_hex_bound: "unat (x :: u64) < 16 ^ 16" "unat (t :: 16 word) < 16 ^ 4"
proof -
  have "unat x < 2 ^ LENGTH(64)" "unat t < 2 ^ LENGTH(16)" by (rule unsigned_less)+
  then show "unat x < 16 ^ 16" "unat t < 16 ^ 4" by simp_all
qed

lemma slug_ok_no_colon: "list_all slug_ok a \<Longrightarrow> 58 \<notin> set a"
  by (auto simp: list_all_iff slug_ok_def is_ascii_digit_def is_ascii_lower_def dash_char_def)

lemma conversation_address_ok: "list_all slug_ok (conversation_session_address e c)"
  using slugify_chars [of e] hex_fixed_ok
  by (simp add: conversation_session_address_def lit_def slug_ok_def is_ascii_lower_def dash_char_def)

lemma generated_address_ok: "list_all slug_ok (generate_address t q r)"
  using slugify_chars [of q] hex_fixed_ok category_str_ok [of "from_trigger t"]
  by (simp add: generate_address_def lit_def slug_ok_def dash_char_def)

text \<open>The address of a session can be nobody else's: it is made of lower-case letters, digits and
  dashes, so it is never the main agent's, the owner's, an artifact's or a teammate's, and two conversations
  have the same address exactly when their endpoints have the same slug and the 64-bit hash of endpoint and
  conversation is the same.\<close>

theorem session_addresses_are_apart:
  "(\<forall>a\<in>{generate_address t q r, conversation_session_address e c}.
     list_all slug_ok a \<and> a \<noteq> MAIN_ADDRESS \<and> a \<noteq> OWNER_ADDRESS \<and>
     \<not> starts_with ARTIFACT_SENDER_PREFIX a \<and> \<not> starts_with TEAMMATE_SENDER_PREFIX a) \<and>
   (conversation_session_address e c = conversation_session_address e' c' \<longleftrightarrow>
     slugify e = slugify e' \<and>
     fnv1a64 (utf8_bytes e @ [0] @ utf8_bytes c) = fnv1a64 (utf8_bytes e' @ [0] @ utf8_bytes c'))"
proof (rule conjI)
  have dash: "45 \<in> set (generate_address t q r)" "45 \<in> set (conversation_session_address e c)"
    by (simp_all add: generate_address_def conversation_session_address_def lit_def)
  have colon: "\<not> starts_with p a" if "list_all slug_ok a" "58 \<in> set p" for p a
    using that slug_ok_no_colon [OF that(1)] unfolding starts_with_def by (metis in_set_takeD)
  have apart: "list_all slug_ok a \<and> a \<noteq> MAIN_ADDRESS \<and> a \<noteq> OWNER_ADDRESS \<and>
     \<not> starts_with ARTIFACT_SENDER_PREFIX a \<and> \<not> starts_with TEAMMATE_SENDER_PREFIX a"
    if "list_all slug_ok a" "45 \<in> set a" for a
  proof -
    have "45 \<notin> set MAIN_ADDRESS" "45 \<notin> set OWNER_ADDRESS"
      by (simp_all add: MAIN_ADDRESS_def OWNER_ADDRESS_def lit_def)
    moreover have "58 \<in> set ARTIFACT_SENDER_PREFIX" "58 \<in> set TEAMMATE_SENDER_PREFIX"
      by (simp_all add: ARTIFACT_SENDER_PREFIX_def TEAMMATE_SENDER_PREFIX_def lit_def)
    ultimately show ?thesis using that colon [OF that(1)] by metis
  qed
  show "\<forall>a\<in>{generate_address t q r, conversation_session_address e c}.
     list_all slug_ok a \<and> a \<noteq> MAIN_ADDRESS \<and> a \<noteq> OWNER_ADDRESS \<and>
     \<not> starts_with ARTIFACT_SENDER_PREFIX a \<and> \<not> starts_with TEAMMATE_SENDER_PREFIX a"
    using apart [OF generated_address_ok dash(1)] apart [OF conversation_address_ok dash(2)] by simp
  let ?h = "\<lambda>e c. fnv1a64 (utf8_bytes e @ [0] @ utf8_bytes c)"
  let ?x = "hex_fixed 16 (unat (?h e c))" and ?y = "hex_fixed 16 (unat (?h e' c'))"
  have "(slugify e @ [45]) @ ?x = (slugify e' @ [45]) @ ?y \<longleftrightarrow> slugify e @ [45] = slugify e' @ [45] \<and> ?x = ?y"
    by (rule append_eq_append_conv) simp
  then have "conversation_session_address e c = conversation_session_address e' c' \<longleftrightarrow> slugify e = slugify e' \<and> ?x = ?y"
    by (simp add: conversation_session_address_def lit_def)
  then show "conversation_session_address e c = conversation_session_address e' c' \<longleftrightarrow>
     slugify e = slugify e' \<and> ?h e c = ?h e' c'"
    using hex_fixed_inject [OF unat_hex_bound(1) unat_hex_bound(1)] by (simp add: word_unat_eq_iff)
qed

section \<open>Totals\<close>

definition fold_usage :: "usage option list \<Rightarrow> session_totals \<Rightarrow> session_totals" where
  "fold_usage us t = fold accumulate_totals us t"

definition input_of :: "usage option \<Rightarrow> nat option" where
  "input_of u = (case u of Some u \<Rightarrow> total_input_tokens u | None \<Rightarrow> None)"

definition output_of :: "usage option \<Rightarrow> nat" where
  "output_of u = (case u of Some u \<Rightarrow> nat_or_zero (output_tokens u) | None \<Rightarrow> 0)"

lemma fold_usage_totals:
  "total_input (fold_usage us t) = total_input t + sum_list (map (\<lambda>u. nat_or_zero (input_of u)) us)"
  "total_output (fold_usage us t) = total_output t + sum_list (map output_of us)"
  "context_tokens (fold_usage us t) =
     (case List.find (\<lambda>u. input_of u \<noteq> None) (rev us) of Some u \<Rightarrow> input_of u | None \<Rightarrow> context_tokens t)"
proof (induction us arbitrary: t)
  case (Cons u us)
  {
    case 1
    show ?case using Cons(1) [of "accumulate_totals u t"]
      by (cases u) (simp_all add: fold_usage_def accumulate_totals_def Let_def input_of_def nat_or_zero_def)
  next
    case 2
    show ?case using Cons(2) [of "accumulate_totals u t"]
      by (cases u) (simp_all add: fold_usage_def accumulate_totals_def Let_def output_of_def)
  next
    case 3
    have find_app: "List.find P (a @ b) = (case List.find P a of Some x \<Rightarrow> Some x | None \<Rightarrow> List.find P b)" for P a and b :: "usage option list"
      by (induction a) auto
    show ?case using Cons(3) [of "accumulate_totals u t"]
      by (cases u) (auto simp: fold_usage_def accumulate_totals_def Let_def input_of_def find_app split: option.splits)
  }
qed (simp_all add: fold_usage_def)

lemma no_totals_sel [simp]:
  "total_input no_totals = 0" "total_output no_totals = 0" "context_tokens no_totals = None"
  by (simp_all add: no_totals_def)

lemma sum_list_bound: "\<forall>x\<in>set xs. f x \<le> b \<Longrightarrow> sum_list (map f xs) \<le> length xs * (b :: nat)"
  by (induction xs) auto

text \<open>A session's totals are the sums of what its calls reported, and its context the prompt of the
  last call that reported one; with fewer than 2^32 calls, each reporting 32-bit counts, no total leaves
  the 64 bits it is kept in.\<close>

theorem session_totals_are_sums:
  assumes "length us < 2 ^ 32" "\<forall>u\<in>set us. nat_or_zero (input_of u) \<le> u32_max \<and> output_of u \<le> u32_max"
  shows "total_input (fold_usage us no_totals) = sum_list (map (\<lambda>u. nat_or_zero (input_of u)) us) \<and>
    total_output (fold_usage us no_totals) = sum_list (map output_of us) \<and>
    context_tokens (fold_usage us no_totals) =
      (case List.find (\<lambda>u. input_of u \<noteq> None) (rev us) of Some u \<Rightarrow> input_of u | None \<Rightarrow> None) \<and>
    total_input (fold_usage us no_totals) < 2 ^ 64 \<and> total_output (fold_usage us no_totals) < 2 ^ 64"
proof -
  have le: "length us * u32_max < 2 ^ 64"
  proof -
    have "length us * u32_max \<le> (2 ^ 32 - 1) * (2 ^ 32 - 1)"
      using assms(1) unfolding u32_max_def by (intro mult_le_mono) simp_all
    then show ?thesis by simp
  qed
  have "sum_list (map (\<lambda>u. nat_or_zero (input_of u)) us) \<le> length us * u32_max" "sum_list (map output_of us) \<le> length us * u32_max"
    using assms(2) by (simp_all add: sum_list_bound)
  then have "sum_list (map (\<lambda>u. nat_or_zero (input_of u)) us) < 2 ^ 64" "sum_list (map output_of us) < 2 ^ 64"
    using le by (auto intro: le_less_trans)
  then show ?thesis using fold_usage_totals [of us no_totals] by (simp split: option.split)
qed

lemma session_totals_are_sums_witness:
  "total_output (fold_usage [None] no_totals) = 0"
  using session_totals_are_sums [of "[None]"] by (simp add: output_of_def input_of_def nat_or_zero_def)

end
