(* ===== verification/Session_Registry.thy ===== *)
theory Session_Registry
  imports Session_Names Pulse_Types "HOL-Library.Multiset"
begin

text \<open>
  The registry of live sessions (\<open>crates/background/src/registry.rs\<close>), the stop tokens of pulse fires
  (\<open>fire_stops.rs\<close>) and the messages that reach a session (\<open>crates/bus/src/interrupt.rs\<close>).

  The maps under the registry's locks are association lists with distinct keys; every operation runs under
  one lock and is one step. An interrupt channel is the list of messages sent and not yet received, with
  whether its receiver still exists. A stop token is only named here: an operation that cancels tokens
  returns them, and whether a token is cancelled is an argument. The serialisation of resume points is an
  argument too.
\<close>

section \<open>What a session is\<close>

record conversation_target =
  target_endpoint :: ustring
  target_conversation :: ustring

record pulse_overlap =
  previous_run :: "ustring option"
  previous_fire :: "ustring option"
  previous_started_at :: datetime

record session_info =
  info_address :: ustring
  info_run_id :: ustring
  info_category :: session_category
  info_trigger :: event_trigger
  info_source_label :: ustring
  info_state :: session_state
  info_spawner :: "ustring option"
  info_depth :: u32
  info_purpose :: ustring
  info_skill :: "ustring option"
  info_model :: model_selector
  info_resolved_model :: "ustring option"
  info_conversation :: "conversation_target option"
  info_started_at :: datetime
  info_usage :: session_totals
  info_overlap :: "pulse_overlap option"

record resume_point =
  point_run_id :: ustring
  point_episode :: "ustring option"
  point_trigger :: event_trigger
  point_source_label :: ustring
  point_skill :: "ustring option"
  point_model :: model_selector
  point_spawner :: "ustring option"
  point_depth :: u32
  point_conversation :: "conversation_target option"
  point_recorded_at :: datetime

record message_event =
  event_id :: ustring
  event_content :: ustring
  event_origin :: message_origin
  event_timestamp :: int
  event_images :: "image_data list"
  event_attachments :: "message_attachment list"
  event_context :: "ustring option"

record agent_message =
  agent_message_id :: ustring
  message_from :: ustring
  message_from_category :: ustring
  agent_message_content :: ustring
  message_hops :: nat

datatype interrupt =
    UserMessage message_event
  | AgentMessage agent_message
  | Subconscious ustring
  | StoppedByUser

section \<open>The state\<close>

record session_entry =
  entry_info :: session_info
  entry_stop :: nat
  entry_channel :: nat

record channel =
  queued :: "interrupt list"
  receiver_alive :: bool

record offered_stop =
  offered_token :: nat
  claimed :: bool

text \<open>\<open>disk\<close> is the file of resume points, when the registry was built with \<open>load\<close>; \<open>removals\<close> counts the
  calls of \<open>notify_waiters\<close>, and \<open>notifying\<close> the removals whose call is still to come.\<close>

record registry =
  sessions :: "(ustring, session_entry) hmap"
  channels :: "channel list"
  resume_points :: "(ustring, resume_point) hmap"
  persists :: bool
  disk :: "ustring option"
  removals :: nat
  notifying :: nat
  fires :: "(ustring, offered_stop) hmap"

definition INTERRUPT_CHANNEL_CAPACITY :: nat where "INTERRUPT_CHANNEL_CAPACITY = 32"

datatype deliver_outcome = Delivered | CompletingRun | ChannelFull | NotLive

definition new_registry :: registry where
  "new_registry = \<lparr>sessions = [], channels = [], resume_points = [], persists = False, disk = None,
     removals = 0, notifying = 0, fires = []\<rparr>"

section \<open>Registering, delivering, removing\<close>

definition registering_error :: "ustring \<Rightarrow> ustring" where
  "registering_error a = lit ''address '' @ a @ lit '' is already registered to a live run''"

definition register :: "session_info \<Rightarrow> nat \<Rightarrow> registry \<Rightarrow> registry \<times> (ustring + nat)" where
  "register info stop r =
     (let a = info_address info in
      if hm_contains (sessions r) a then (r, Inl a)
      else
        (let c = length (channels r) in
         (r\<lparr>channels := channels r @ [\<lparr>queued = [], receiver_alive = True\<rparr>],
            sessions := hm_insert a \<lparr>entry_info = info, entry_stop = stop, entry_channel = c\<rparr> (sessions r)\<rparr>, Inr c)))"

definition tearing_down :: "session_state \<Rightarrow> bool" where
  "tearing_down s \<longleftrightarrow> s = Completing \<or> s = Completed"

text \<open>\<open>channel_try_send\<close> fails when the queue is full and when the receiver is gone.\<close>

definition channel_try_send :: "interrupt \<Rightarrow> channel \<Rightarrow> channel option" where
  "channel_try_send m c =
     (if receiver_alive c \<and> length (queued c) < INTERRUPT_CHANNEL_CAPACITY
      then Some (c\<lparr>queued := queued c @ [m]\<rparr>) else None)"

definition deliver :: "ustring \<Rightarrow> interrupt \<Rightarrow> registry \<Rightarrow> registry \<times> deliver_outcome" where
  "deliver a m r =
     (case hm_get (sessions r) a of
        None \<Rightarrow> (r, NotLive)
      | Some e \<Rightarrow>
          if tearing_down (info_state (entry_info e)) then (r, CompletingRun)
          else
            (case channel_try_send m (channels r ! entry_channel e) of
               Some c \<Rightarrow> (r\<lparr>channels := (channels r)[entry_channel e := c]\<rparr>, Delivered)
             | None \<Rightarrow> (r, ChannelFull)))"

definition map_entry :: "ustring \<Rightarrow> (session_info \<Rightarrow> session_info) \<Rightarrow> registry \<Rightarrow> registry" where
  "map_entry a f r =
     (case hm_get (sessions r) a of
        None \<Rightarrow> r
      | Some e \<Rightarrow> r\<lparr>sessions := hm_insert a (e\<lparr>entry_info := f (entry_info e)\<rparr>) (sessions r)\<rparr>)"

definition set_state :: "ustring \<Rightarrow> session_state \<Rightarrow> registry \<Rightarrow> registry" where
  "set_state a s r = map_entry a (\<lambda>i. i\<lparr>info_state := s\<rparr>) r"

definition get_session :: "ustring \<Rightarrow> registry \<Rightarrow> session_info option" where
  "get_session a r = map_option entry_info (hm_get (sessions r) a)"

definition accumulate_usage :: "ustring \<Rightarrow> usage option \<Rightarrow> registry \<Rightarrow> registry \<times> session_totals option" where
  "accumulate_usage a u r =
     (let r' = map_entry a (\<lambda>i. i\<lparr>info_usage := accumulate_totals u (info_usage i)\<rparr>) r
      in (r', map_option info_usage (get_session a r')))"

definition accumulate_tool_calls :: "ustring \<Rightarrow> nat \<Rightarrow> registry \<Rightarrow> registry \<times> session_totals option" where
  "accumulate_tool_calls a n r =
     (let r' = map_entry a (\<lambda>i. i\<lparr>info_usage := record_tool_calls_total n (info_usage i)\<rparr>) r
      in (r', map_option info_usage (get_session a r')))"

text \<open>A removal takes the entry out under the lock; \<open>notify_removed\<close> is the \<open>notify_waiters\<close> that follows
  once the lock is released.\<close>

definition remove_session :: "ustring \<Rightarrow> ustring \<Rightarrow> registry \<Rightarrow> registry \<times> session_info option" where
  "remove_session a run_id r =
     (case hm_get (sessions r) a of
        None \<Rightarrow> (r, None)
      | Some e \<Rightarrow>
          if info_run_id (entry_info e) \<noteq> run_id then (r, None)
          else (r\<lparr>sessions := hm_remove a (sessions r), notifying := notifying r + 1\<rparr>, Some (entry_info e)))"

definition notify_removed :: "registry \<Rightarrow> registry" where
  "notify_removed r =
     (if notifying r = 0 then r else r\<lparr>notifying := notifying r - 1, removals := removals r + 1\<rparr>)"

section \<open>Stopping\<close>

definition stop_session :: "ustring \<Rightarrow> registry \<Rightarrow> bool \<times> nat list" where
  "stop_session a r =
     (case hm_get (sessions r) a of
        None \<Rightarrow> (False, [])
      | Some e \<Rightarrow>
          if tearing_down (info_state (entry_info e)) then (False, []) else (True, [entry_stop e]))"

definition stop_if_running :: "ustring \<Rightarrow> registry \<Rightarrow> bool \<times> nat list" where
  "stop_if_running a r =
     (case hm_get (sessions r) a of
        None \<Rightarrow> (False, [])
      | Some e \<Rightarrow> if info_state (entry_info e) \<noteq> Running then (False, []) else (True, [entry_stop e]))"

definition stop_all :: "registry \<Rightarrow> nat \<times> nat list" where
  "stop_all r =
     foldl (\<lambda>(n, ts) e. if tearing_down (info_state (entry_info e)) then (n, ts) else (n + 1, ts @ [entry_stop e]))
       (0, []) (map snd (sessions r))"

datatype stop_session_error = StopMain | StopNotLive ustring

definition stop_named_session :: "ustring \<Rightarrow> registry \<Rightarrow> (stop_session_error + unit) \<times> nat list" where
  "stop_named_session a r =
     (if a = MAIN_ADDRESS then (Inl StopMain, [])
      else (case stop_session a r of
          (True, ts) \<Rightarrow> (Inr (), ts)
        | (False, ts) \<Rightarrow> (Inl (StopNotLive a), ts)))"

section \<open>Listing\<close>

definition get_by_run_id :: "ustring \<Rightarrow> registry \<Rightarrow> session_info option" where
  "get_by_run_id run_id r =
     map_option entry_info (List.find (\<lambda>e. info_run_id (entry_info e) = run_id) (map snd (sessions r)))"

definition list_live :: "registry \<Rightarrow> session_info list" where
  "list_live r = sort_key info_started_at (map (\<lambda>(a, e). entry_info e) (sessions r))"

definition subagent_snapshot :: "registry \<Rightarrow> (ustring \<times> ustring) list" where
  "subagent_snapshot r =
     map (\<lambda>i. (info_address i, state_str (info_state i) @ lit '' ('' @ info_source_label i @ lit '')'')) (list_live r)"

section \<open>Resume points\<close>

definition resume_point_at :: "ustring \<Rightarrow> registry \<Rightarrow> resume_point option" where
  "resume_point_at a r = hm_get (resume_points r) a"

text \<open>\<open>to_json\<close> serialises the map (\<open>None\<close> when it fails), \<open>written\<close> tells whether the atomic write succeeds.
  The recording holds \<open>persist_lock\<close> from the snapshot to the write, so it is one step.\<close>

definition persist_resume_points ::
  "((ustring, resume_point) hmap \<Rightarrow> ustring option) \<Rightarrow> bool \<Rightarrow> (ustring, resume_point) hmap \<Rightarrow> ustring option" where
  "persist_resume_points to_json written points = (if written then to_json points else None)"

definition record_resume_point ::
  "((ustring, resume_point) hmap \<Rightarrow> ustring option) \<Rightarrow> bool \<Rightarrow> datetime \<Rightarrow> ustring \<Rightarrow> resume_point \<Rightarrow> registry \<Rightarrow> registry" where
  "record_resume_point to_json written now a p r =
     (let points = hm_insert a (p\<lparr>point_recorded_at := now\<rparr>) (resume_points r);
          r' = r\<lparr>resume_points := points\<rparr>
      in if \<not> persists r then r'
         else (case persist_resume_points to_json written points of
             None \<Rightarrow> r'
           | Some text \<Rightarrow> r'\<lparr>disk := Some text\<rparr>))"

datatype points_file = ReadContents ustring | ReadMissing | ReadFailed

definition load_resume_points ::
  "(ustring \<Rightarrow> (ustring, resume_point) hmap option) \<Rightarrow> points_file \<Rightarrow> (ustring, resume_point) hmap" where
  "load_resume_points parse file =
     (case file of
        ReadMissing \<Rightarrow> []
      | ReadFailed \<Rightarrow> []
      | ReadContents contents \<Rightarrow>
          if trim contents = [] then []
          else (case parse contents of Some points \<Rightarrow> points | None \<Rightarrow> []))"

definition load_registry ::
  "(ustring \<Rightarrow> (ustring, resume_point) hmap option) \<Rightarrow> points_file \<Rightarrow> registry" where
  "load_registry parse file =
     new_registry\<lparr>resume_points := load_resume_points parse file, persists := True,
       disk := (case file of ReadContents c \<Rightarrow> Some c | _ \<Rightarrow> None)\<rparr>"

section \<open>The stop tokens of pulse fires\<close>

definition offer :: "ustring \<Rightarrow> nat \<Rightarrow> registry \<Rightarrow> registry" where
  "offer f t r = r\<lparr>fires := hm_insert f \<lparr>offered_token = t, claimed = False\<rparr> (fires r)\<rparr>"

text \<open>The answer of a claim is the token whose child the session's stop token becomes.\<close>

definition claim :: "(nat \<Rightarrow> bool) \<Rightarrow> ustring \<Rightarrow> registry \<Rightarrow> registry \<times> nat option" where
  "claim is_cancelled f r =
     (case hm_get (fires r) f of
        None \<Rightarrow> (r, None)
      | Some p \<Rightarrow>
          if is_cancelled (offered_token p) then (r, None)
          else (r\<lparr>fires := hm_insert f (p\<lparr>claimed := True\<rparr>) (fires r)\<rparr>, Some (offered_token p)))"

definition withdraw :: "ustring \<Rightarrow> registry \<Rightarrow> registry \<times> bool" where
  "withdraw f r =
     (r\<lparr>fires := hm_remove f (fires r)\<rparr>,
      case hm_get (fires r) f of None \<Rightarrow> False | Some p \<Rightarrow> claimed p)"

section \<open>The registry as a machine\<close>

text \<open>What the rest of the program does to the registry, one call at a time. \<open>Receive\<close> and \<open>DropReceiver\<close> are the
  run's own end of its channel.\<close>

datatype registry_event =
    Register session_info nat
  | Deliver ustring interrupt
  | Receive nat
  | DropReceiver nat
  | SetState ustring session_state
  | AccumulateUsage ustring "usage option"
  | AccumulateTools ustring nat
  | Remove ustring ustring
  | Notify
  | Offer ustring nat
  | Claim ustring "nat \<Rightarrow> bool"
  | Withdraw ustring

datatype registry_out =
    Registered "ustring + nat"
  | DeliverAnswer deliver_outcome
  | Received "interrupt option"
  | Totals "session_totals option"
  | Removed "session_info option"
  | Claimed "nat option"
  | Withdrawn bool
  | Done

text \<open>\<open>try_recv\<close>: the oldest message, if there is one.\<close>

definition try_recv :: "nat \<Rightarrow> registry \<Rightarrow> registry \<times> interrupt option" where
  "try_recv c r =
     (if c < length (channels r) \<and> receiver_alive (channels r ! c) then
        (case queued (channels r ! c) of
           [] \<Rightarrow> (r, None)
         | m # ms \<Rightarrow> (r\<lparr>channels := (channels r)[c := (channels r ! c)\<lparr>queued := ms\<rparr>]\<rparr>, Some m))
      else (r, None))"

text \<open>Dropping the receiver drops what it had not received.\<close>

definition drop_receiver :: "nat \<Rightarrow> registry \<Rightarrow> registry" where
  "drop_receiver c r = r\<lparr>channels := (channels r)[c := \<lparr>queued = [], receiver_alive = False\<rparr>]\<rparr>"

definition registry_step :: "registry \<Rightarrow> registry_event \<Rightarrow> registry \<times> registry_out" where
  "registry_step r ev =
     (case ev of
        Register i t \<Rightarrow> (case register i t r of (r', x) \<Rightarrow> (r', Registered x))
      | Deliver a m \<Rightarrow> (case deliver a m r of (r', x) \<Rightarrow> (r', DeliverAnswer x))
      | Receive c \<Rightarrow> (case try_recv c r of (r', x) \<Rightarrow> (r', Received x))
      | DropReceiver c \<Rightarrow> (drop_receiver c r, Done)
      | SetState a s \<Rightarrow> (set_state a s r, Done)
      | AccumulateUsage a u \<Rightarrow> (case accumulate_usage a u r of (r', x) \<Rightarrow> (r', Totals x))
      | AccumulateTools a n \<Rightarrow> (case accumulate_tool_calls a n r of (r', x) \<Rightarrow> (r', Totals x))
      | Remove a i \<Rightarrow> (case remove_session a i r of (r', x) \<Rightarrow> (r', Removed x))
      | Notify \<Rightarrow> (notify_removed r, Done)
      | Offer f t \<Rightarrow> (offer f t r, Done)
      | Claim f p \<Rightarrow> (case claim p f r of (r', x) \<Rightarrow> (r', Claimed x))
      | Withdraw f \<Rightarrow> (case withdraw f r of (r', x) \<Rightarrow> (r', Withdrawn x)))"

lemmas registry_ops =
  register_def deliver_def try_recv_def drop_receiver_def set_state_def map_entry_def accumulate_usage_def
  accumulate_tool_calls_def remove_session_def notify_removed_def offer_def claim_def withdraw_def Let_def

section \<open>The registry stays well formed\<close>

definition channel_ok :: "channel \<Rightarrow> bool" where
  "channel_ok c \<longleftrightarrow> length (queued c) \<le> INTERRUPT_CHANNEL_CAPACITY \<and> (\<not> receiver_alive c \<longrightarrow> queued c = [])"

text \<open>Each entry stands under its own address and has a channel that exists and is its alone.\<close>

definition entry_ok :: "registry \<Rightarrow> ustring \<Rightarrow> session_entry \<Rightarrow> bool" where
  "entry_ok r a e \<longleftrightarrow>
     info_address (entry_info e) = a \<and> entry_channel e < length (channels r) \<and>
     (\<forall>a' e'. hm_get (sessions r) a' = Some e' \<and> entry_channel e' = entry_channel e \<longrightarrow> a' = a)"

definition registry_ok :: "registry \<Rightarrow> bool" where
  "registry_ok r \<longleftrightarrow>
     hm_wf (sessions r) \<and> hm_wf (fires r) \<and> list_all channel_ok (channels r) \<and>
     (\<forall>a e. hm_get (sessions r) a = Some e \<longrightarrow> entry_ok r a e)"

lemma map_entry_get:
  "hm_get (sessions (map_entry a f r)) a' =
     (if a' = a then map_option (\<lambda>e. e\<lparr>entry_info := f (entry_info e)\<rparr>) (hm_get (sessions r) a)
      else hm_get (sessions r) a')"
  by (simp add: map_entry_def split: option.split)

lemma map_entry_rest [simp]:
  "channels (map_entry a f r) = channels r" "fires (map_entry a f r) = fires r"
  "resume_points (map_entry a f r) = resume_points r" "removals (map_entry a f r) = removals r"
  "notifying (map_entry a f r) = notifying r" "disk (map_entry a f r) = disk r"
  "persists (map_entry a f r) = persists r"
  by (simp_all add: map_entry_def split: option.split)

lemma map_entry_ok:
  assumes "registry_ok r" "\<And>i. info_address (f i) = info_address i"
  shows "registry_ok (map_entry a f r)"
proof -
  have "hm_wf (sessions (map_entry a f r))"
    using assms(1) by (auto simp: map_entry_def registry_ok_def split: option.split)
  then show ?thesis
    using assms by (fastforce simp: registry_ok_def entry_ok_def map_entry_get split: if_splits)
qed

text \<open>A change that leaves the entries alone and keeps the channels within bounds keeps the registry well formed.\<close>

lemma registry_ok_channels:
  assumes "registry_ok r" "sessions r' = sessions r" "fires r' = fires r" "length (channels r') = length (channels r)"
    "list_all channel_ok (channels r')"
  shows "registry_ok r'"
  using assms by (simp add: registry_ok_def entry_ok_def)

lemma list_all_update: "list_all P xs \<Longrightarrow> P x \<Longrightarrow> list_all P (xs[i := x])"
  by (auto simp: list_all_iff dest: set_update_subset_insert [THEN subsetD])

lemma list_all_nth: "list_all P xs \<Longrightarrow> i < length xs \<Longrightarrow> P (xs ! i)"
  by (simp add: list_all_length)

lemma register_ok: "registry_ok r \<Longrightarrow> registry_ok (fst (register i t r))"
  by (fastforce simp: register_def Let_def registry_ok_def entry_ok_def channel_ok_def INTERRUPT_CHANNEL_CAPACITY_def
      split: if_splits)

lemma channel_try_send_ok: "channel_ok c \<Longrightarrow> channel_try_send m c = Some c' \<Longrightarrow> channel_ok c'"
  by (auto simp: channel_try_send_def channel_ok_def split: if_splits)

lemma deliver_ok:
  assumes "registry_ok r"
  shows "registry_ok (fst (deliver a m r))"
proof (cases "\<exists>e c. hm_get (sessions r) a = Some e \<and> \<not> tearing_down (info_state (entry_info e)) \<and>
    channel_try_send m (channels r ! entry_channel e) = Some c")
  case True
  then obtain e c where ec: "hm_get (sessions r) a = Some e" "\<not> tearing_down (info_state (entry_info e))"
    "channel_try_send m (channels r ! entry_channel e) = Some c" by blast
  then have "channel_ok (channels r ! entry_channel e)"
    using assms by (auto simp: registry_ok_def entry_ok_def intro: list_all_nth)
  then have "channel_ok c" using ec(3) by (rule channel_try_send_ok)
  then show ?thesis
    using assms ec by (intro registry_ok_channels [OF assms])
      (auto simp: deliver_def registry_ok_def intro: list_all_update)
next
  case False
  then have "fst (deliver a m r) = r" by (auto simp: deliver_def split: option.split)
  then show ?thesis using assms by simp
qed

lemma try_recv_ok:
  assumes "registry_ok r"
  shows "registry_ok (fst (try_recv c r))"
proof (cases "c < length (channels r) \<and> receiver_alive (channels r ! c) \<and> queued (channels r ! c) \<noteq> []")
  case True
  then have "channel_ok ((channels r ! c)\<lparr>queued := tl (queued (channels r ! c))\<rparr>)"
    using assms list_all_nth [of channel_ok "channels r" c] by (auto simp: registry_ok_def channel_ok_def)
  then show ?thesis
    using assms True by (intro registry_ok_channels [OF assms])
      (auto simp: try_recv_def registry_ok_def neq_Nil_conv intro!: list_all_update split: list.split)
next
  case False
  then have "fst (try_recv c r) = r" by (auto simp: try_recv_def split: list.split)
  then show ?thesis using assms by simp
qed

lemma drop_receiver_ok: "registry_ok r \<Longrightarrow> registry_ok (drop_receiver c r)"
  by (rule registry_ok_channels) (auto simp: drop_receiver_def registry_ok_def channel_ok_def intro!: list_all_update)

lemma remove_session_ok: "registry_ok r \<Longrightarrow> registry_ok (fst (remove_session a i r))"
  by (auto simp: remove_session_def registry_ok_def entry_ok_def split: option.split if_splits)

lemma fires_ok: "registry_ok r \<Longrightarrow> hm_wf fs \<Longrightarrow> registry_ok (r\<lparr>fires := fs\<rparr>)"
  by (simp add: registry_ok_def entry_ok_def)

lemma fire_ops_ok:
  assumes "registry_ok r"
  shows "registry_ok (offer f t r)" "registry_ok (fst (claim p f r))" "registry_ok (fst (withdraw f r))"
proof -
  have "hm_wf (fires r)" using assms by (simp add: registry_ok_def)
  then show "registry_ok (offer f t r)" "registry_ok (fst (claim p f r))" "registry_ok (fst (withdraw f r))"
    using assms by (auto simp: offer_def claim_def withdraw_def intro!: fires_ok split: option.split)
qed

lemma notify_ok: "registry_ok r \<Longrightarrow> registry_ok (notify_removed r)"
  by (simp add: notify_removed_def registry_ok_def entry_ok_def)

lemma registry_step_ok: "registry_ok r \<Longrightarrow> registry_ok (fst (registry_step r ev))"
  by (cases ev)
    (simp_all add: registry_step_def case_prod_unfold accumulate_usage_def accumulate_tool_calls_def Let_def
      set_state_def register_ok deliver_ok try_recv_ok drop_receiver_ok remove_session_ok fire_ops_ok notify_ok map_entry_ok)

interpretation registry_machine: machine registry_step registry_ok
  by unfold_locales (rule registry_step_ok)



section \<open>A live run keeps its address\<close>

definition same_run :: "session_entry \<Rightarrow> session_entry \<Rightarrow> bool" where
  "same_run e e' \<longleftrightarrow>
     info_run_id (entry_info e') = info_run_id (entry_info e) \<and> entry_stop e' = entry_stop e \<and>
     entry_channel e' = entry_channel e"

lemma same_run_refl [simp]: "same_run e e"
  by (simp add: same_run_def)

lemma map_entry_same_run:
  assumes "hm_get (sessions r) a = Some e" "\<And>i. info_run_id (f i) = info_run_id i"
  shows "\<exists>e'. hm_get (sessions (map_entry b f r)) a = Some e' \<and> same_run e e'"
  using assms by (auto simp: map_entry_get same_run_def)

lemma step_keeps_run:
  assumes live: "hm_get (sessions r) a = Some e" and ev: "ev \<noteq> Remove a (info_run_id (entry_info e))"
  shows "\<exists>e'. hm_get (sessions (fst (registry_step r ev))) a = Some e' \<and> same_run e e'"
proof (cases ev)
  case (Register i t)
  then show ?thesis using live by (auto simp: registry_step_def register_def hm_contains_get Let_def)
next
  case (Deliver b m)
  then show ?thesis using live by (auto simp: registry_step_def deliver_def split: option.split)
next
  case (Receive c)
  then show ?thesis using live by (auto simp: registry_step_def try_recv_def split: list.split)
next
  case (Remove b i)
  then show ?thesis using live ev by (auto simp: registry_step_def remove_session_def split: option.split)
next
  case (Claim f p)
  then show ?thesis using live by (auto simp: registry_step_def claim_def split: option.split)
next
  case (SetState b s)
  then show ?thesis using map_entry_same_run [OF live] by (simp add: registry_step_def set_state_def)
next
  case (AccumulateUsage b u)
  then show ?thesis using map_entry_same_run [OF live] by (simp add: registry_step_def accumulate_usage_def Let_def)
next
  case (AccumulateTools b n)
  then show ?thesis using map_entry_same_run [OF live] by (simp add: registry_step_def accumulate_tool_calls_def Let_def)
qed (use live in \<open>simp_all add: registry_step_def drop_receiver_def notify_removed_def offer_def withdraw_def\<close>)

lemma same_run_trans: "same_run e e' \<Longrightarrow> same_run e' e'' \<Longrightarrow> same_run e e''"
  by (simp add: same_run_def)

lemma run_keeps_run:
  "hm_get (sessions r) a = Some e \<Longrightarrow> Remove a (info_run_id (entry_info e)) \<notin> set evs \<Longrightarrow>
   \<exists>e'. hm_get (sessions (fst (run_machine registry_step r evs))) a = Some e' \<and> same_run e e'"
proof (induction evs arbitrary: r e)
  case (Cons ev evs)
  have "ev \<noteq> Remove a (info_run_id (entry_info e))" using Cons.prems(2) by auto
  from step_keeps_run [OF Cons.prems(1) this]
  obtain e' where e': "hm_get (sessions (fst (registry_step r ev))) a = Some e'" "same_run e e'" by blast
  then have "Remove a (info_run_id (entry_info e')) \<notin> set evs" using Cons.prems(2) by (simp add: same_run_def)
  from Cons.IH [OF e'(1) this] e'(2) show ?case using same_run_trans by auto
qed simp

text \<open>A live run is never displaced. As long as nobody removes it under its own run id, its address stays
  its own whatever is called on the registry: the run, its stop token and its channel remain the ones
  registered, and every attempt to register another run there is refused and changes nothing.\<close>

theorem live_run_keeps_its_address:
  assumes "hm_get (sessions r) a = Some e" "Remove a (info_run_id (entry_info e)) \<notin> set evs" "info_address i = a"
  shows "\<exists>e'. hm_get (sessions (fst (run_machine registry_step r evs))) a = Some e' \<and>
    info_run_id (entry_info e') = info_run_id (entry_info e) \<and> entry_stop e' = entry_stop e \<and>
    entry_channel e' = entry_channel e \<and>
    register i t (fst (run_machine registry_step r evs)) = (fst (run_machine registry_step r evs), Inl a)"
  using run_keeps_run [OF assms(1,2)] assms(3) by (auto simp: same_run_def register_def hm_contains_get)

definition sample_info :: "ustring \<Rightarrow> ustring \<Rightarrow> session_info" where
  "sample_info a run_id = \<lparr>info_address = a, info_run_id = run_id, info_category = SpawnedSession,
     info_trigger = AgentTrigger, info_source_label = [], info_state = Running, info_spawner = None,
     info_depth = 1, info_purpose = [], info_skill = None, info_model = Tier Medium, info_resolved_model = None,
     info_conversation = None, info_started_at = 0, info_usage = no_totals, info_overlap = None\<rparr>"

lemma live_run_keeps_its_address_witness:
  "\<exists>r e. hm_get (sessions r) [97] = Some e \<and>
     register (sample_info [97] [50]) 9 (fst (run_machine registry_step r [Remove [97] [51]])) =
       (fst (run_machine registry_step r [Remove [97] [51]]), Inl [97])"
proof -
  define r where "r = fst (register (sample_info [97] [49]) 3 new_registry)"
  have "hm_get (sessions r) [97] = Some \<lparr>entry_info = sample_info [97] [49], entry_stop = 3, entry_channel = 0\<rparr>"
    by (simp add: r_def register_def sample_info_def new_registry_def hm_contains_get)
  moreover from this have "register (sample_info [97] [50]) 9 (fst (run_machine registry_step r [Remove [97] [51]])) =
       (fst (run_machine registry_step r [Remove [97] [51]]), Inl [97])"
    using live_run_keeps_its_address [of r "[97]" _ "[Remove [97] [51]]" "sample_info [97] [50]" 9]
    by (auto simp: sample_info_def)
  ultimately show ?thesis by blast
qed

section \<open>Waiting for an address to clear\<close>

text \<open>A waiter (\<open>wait_until_clear\<close>, \<open>wait_until_empty\<close>) obtains its notification first, then looks, then
  sleeps until a notification came after the one it obtained. \<open>get(address).is_none()\<close> and \<open>is_empty()\<close>
  are the two conditions it looks for.\<close>

datatype waiter = Looping | Captured nat | Asleep nat | Returned

fun wait_step :: "(registry \<Rightarrow> bool) \<Rightarrow> registry \<Rightarrow> waiter \<Rightarrow> waiter" where
  "wait_step clear r Looping = Captured (removals r)"
| "wait_step clear r (Captured n) = (if clear r then Returned else Asleep n)"
| "wait_step clear r (Asleep n) = (if n < removals r then Looping else Asleep n)"
| "wait_step clear r Returned = Returned"

definition address_clear :: "ustring \<Rightarrow> registry \<Rightarrow> bool" where
  "address_clear a r \<longleftrightarrow> get_session a r = None"

definition registry_empty :: "registry \<Rightarrow> bool" where
  "registry_empty r \<longleftrightarrow> sessions r = []"

text \<open>The waiter's steps and the registry's calls in any order; a waiter also wakes when it slept too long.\<close>

inductive waiting :: "(registry \<Rightarrow> bool) \<Rightarrow> registry \<Rightarrow> waiter \<Rightarrow> bool" for clear where
  starts: "waiting clear r Looping"
| called: "waiting clear r w \<Longrightarrow> waiting clear (fst (registry_step r ev)) w"
| steps: "waiting clear r w \<Longrightarrow> waiting clear r (wait_step clear r w)"
| times_out: "waiting clear r (Asleep n) \<Longrightarrow> waiting clear r Looping"

inductive_cases waiting_asleep: "waiting clear r (Asleep n)"

lemma removals_grow:
  "removals r \<le> removals (fst (registry_step r ev)) \<and>
   (removals (fst (registry_step r ev)) = removals r \<longrightarrow> notifying r \<le> notifying (fst (registry_step r ev)))"
  by (cases ev) (auto simp: registry_step_def registry_ops split: option.split list.split)

text \<open>What a condition must satisfy: it comes to hold only by a removal, whose notification is still due.\<close>

locale cleared_by_removal =
  fixes clear :: "registry \<Rightarrow> bool"
  assumes clears: "\<not> clear r \<Longrightarrow> clear (fst (registry_step r ev)) \<Longrightarrow> 0 < notifying (fst (registry_step r ev))"
begin

definition awake_in_time :: "registry \<Rightarrow> waiter \<Rightarrow> bool" where
  "awake_in_time r w \<longleftrightarrow>
     (case w of Asleep n \<Rightarrow> n \<le> removals r \<and> (n = removals r \<and> notifying r = 0 \<longrightarrow> \<not> clear r)
      | Captured n \<Rightarrow> n \<le> removals r
      | _ \<Rightarrow> True)"

lemma waiting_awake: "waiting clear r w \<Longrightarrow> awake_in_time r w"
proof (induction rule: waiting.induct)
  case (called r w ev)
  then show ?case using removals_grow [of r ev] clears [of r ev] by (auto simp: awake_in_time_def split: waiter.splits)
next
  case (steps r w)
  then show ?case by (cases w) (auto simp: awake_in_time_def)
qed (auto simp: awake_in_time_def)

lemma returns:
  assumes "waiting clear r w" "clear r" "notifying r = 0"
  shows "(wait_step clear r ^^ 3) w = Returned"
  using waiting_awake [OF assms(1)] assms(2,3) by (cases w) (auto simp: awake_in_time_def numeral_3_eq_3)

end

lemma address_cleared_by_removal:
  assumes "\<not> address_clear a r" "address_clear a (fst (registry_step r ev))"
  shows "0 < notifying (fst (registry_step r ev))"
proof -
  obtain e where e: "hm_get (sessions r) a = Some e" using assms(1) by (auto simp: address_clear_def get_session_def)
  then have "ev = Remove a (info_run_id (entry_info e))"
    using step_keeps_run [OF e, of ev] assms(2) by (auto simp: address_clear_def get_session_def)
  then show ?thesis using e by (simp add: registry_step_def remove_session_def)
qed

lemma empty_iff_all_clear: "registry_empty r \<longleftrightarrow> (\<forall>a. address_clear a r)"
  by (cases "sessions r") (auto simp: registry_empty_def address_clear_def get_session_def hm_get_None)

interpretation until_clear: cleared_by_removal "address_clear a" for a
  by unfold_locales (rule address_cleared_by_removal)

interpretation until_empty: cleared_by_removal registry_empty
  by unfold_locales (use address_cleared_by_removal in \<open>auto simp: empty_iff_all_clear\<close>)

text \<open>C32: No removal is missed: whatever calls ran in between, once an address is clear (or the registry empty)
  and the last removal has notified, whoever waits for it returns within three steps of its own, and nobody
  returns before it is clear.\<close>

theorem waiters_return_once_clear:
  assumes "waiting (address_clear a) r w" "waiting registry_empty r w'"
  shows "(address_clear a r \<and> notifying r = 0 \<longrightarrow> (wait_step (address_clear a) r ^^ 3) w = Returned) \<and>
    (registry_empty r \<and> notifying r = 0 \<longrightarrow> (wait_step registry_empty r ^^ 3) w' = Returned) \<and>
    (w \<noteq> Returned \<and> wait_step (address_clear a) r w = Returned \<longrightarrow> get_session a r = None) \<and>
    (w' \<noteq> Returned \<and> wait_step registry_empty r w' = Returned \<longrightarrow> sessions r = [])"
  using until_clear.returns [OF assms(1)] until_empty.returns [OF assms(2)]
  by (cases w; cases w') (auto simp: address_clear_def registry_empty_def split: if_splits)

lemma waiters_return_once_clear_witness:
  "(wait_step (address_clear [97]) new_registry ^^ 3) Looping = Returned"
  using waiters_return_once_clear [OF waiting.starts waiting.starts, of "[97]" new_registry]
  by (simp add: new_registry_def address_clear_def get_session_def)

section \<open>What is stopped and listed\<close>

lemma stop_all_signals:
  "stop_all r = (let ts = map entry_stop (filter (\<lambda>e. \<not> tearing_down (info_state (entry_info e))) (map snd (sessions r)))
     in (length ts, ts))"
proof -
  have "foldl (\<lambda>(n, ts) e. if tearing_down (info_state (entry_info e)) then (n, ts) else (n + 1, ts @ [entry_stop e])) (k, us) es =
      (let ts = map entry_stop (filter (\<lambda>e. \<not> tearing_down (info_state (entry_info e))) es) in (k + length ts, us @ ts))"
    for k us es by (induction es arbitrary: k us) (simp_all add: Let_def)
  from this [of 0 "[]" "map snd (sessions r)"] show ?thesis by (simp add: stop_all_def)
qed

text \<open>A stop reaches exactly the sessions that can still be stopped: \<open>stop_all\<close> cancels the token of every
  live session that is not tearing down and of no other and counts them, and a named stop succeeds exactly
  for those, and never for the main agent.\<close>

theorem stops_reach_the_live:
  assumes "registry_ok r"
  shows "(\<forall>t. t \<in> set (snd (stop_all r)) \<longleftrightarrow>
      (\<exists>a e. hm_get (sessions r) a = Some e \<and> \<not> tearing_down (info_state (entry_info e)) \<and> entry_stop e = t)) \<and>
    fst (stop_all r) = length (snd (stop_all r)) \<and>
    (\<forall>a ts. stop_named_session a r = (Inr (), ts) \<longleftrightarrow>
      a \<noteq> MAIN_ADDRESS \<and>
      (\<exists>e. hm_get (sessions r) a = Some e \<and> \<not> tearing_down (info_state (entry_info e)) \<and> ts = [entry_stop e])) \<and>
    (\<forall>a. snd (stop_if_running a r) \<noteq> [] \<longrightarrow> stop_if_running a r = stop_session a r)"
proof (intro conjI allI)
  fix t
  have "hm_wf (sessions r)" using assms by (simp add: registry_ok_def)
  then show "t \<in> set (snd (stop_all r)) \<longleftrightarrow>
      (\<exists>a e. hm_get (sessions r) a = Some e \<and> \<not> tearing_down (info_state (entry_info e)) \<and> entry_stop e = t)"
    unfolding stop_all_signals Let_def using hm_get_wf [of "sessions r"] by force
qed (auto simp: stop_all_signals Let_def stop_named_session_def stop_session_def stop_if_running_def tearing_down_def
    split: option.splits bool.splits if_splits)

lemma stops_reach_the_live_witness: "fst (stop_all new_registry) = length (snd (stop_all new_registry))"
proof -
  have "registry_ok new_registry" by (simp add: new_registry_def registry_ok_def)
  then show ?thesis using stops_reach_the_live by blast
qed

lemma list_live_sorted:
  "sorted (map info_started_at (list_live r)) \<and> mset (list_live r) = mset (map (\<lambda>(a, e). entry_info e) (sessions r))"
  by (simp add: list_live_def)

section \<open>A fire's stop and its session\<close>

definition leaves_fire :: "ustring \<Rightarrow> registry_event \<Rightarrow> bool" where
  "leaves_fire f ev \<longleftrightarrow> (\<forall>t. ev \<noteq> Offer f t) \<and> ev \<noteq> Withdraw f"

lemma fires_other:
  assumes "leaves_fire f ev" "\<forall>p. ev \<noteq> Claim f p"
  shows "hm_get (fires (fst (registry_step r ev))) f = hm_get (fires r) f"
  using assms by (cases ev) (auto simp: registry_step_def registry_ops leaves_fire_def split: option.split list.split)

lemma fire_step:
  assumes "hm_get (fires r) f = Some p" "leaves_fire f ev"
  shows "hm_get (fires (fst (registry_step r ev))) f =
      Some (p\<lparr>claimed := claimed p \<or> (\<exists>c. ev = Claim f c \<and> snd (registry_step r ev) = Claimed (Some (offered_token p)))\<rparr>) \<and>
    (\<forall>c. ev = Claim f c \<longrightarrow>
      snd (registry_step r ev) = Claimed (if c (offered_token p) then None else Some (offered_token p)))"
proof (cases "\<exists>c. ev = Claim f c")
  case True
  then show ?thesis using assms(1) by (cases p) (auto simp: registry_step_def claim_def)
next
  case False
  then show ?thesis using fires_other [OF assms(2)] assms(1) by auto
qed

lemma session_token_unchanged: "offered_token (p\<lparr>claimed := b\<rparr>) = offered_token p"
  by (cases p) simp

text \<open>The calls of a run beside their answers.\<close>

definition call_history :: "registry \<Rightarrow> registry_event list \<Rightarrow> (registry_event \<times> registry_out) list" where
  "call_history r evs = zip evs (snd (run_machine registry_step r evs))"

lemma call_history_Cons [simp]:
  "call_history r [] = []"
  "call_history r (ev # evs) = (ev, snd (registry_step r ev)) # call_history (fst (registry_step r ev)) evs"
  by (simp_all add: call_history_def)

lemma offered_call_history:
  "hm_get (fires r) f = Some p \<Longrightarrow> list_all (leaves_fire f) evs \<Longrightarrow>
   hm_get (fires (fst (run_machine registry_step r evs))) f =
     Some (p\<lparr>claimed := claimed p \<or> (\<exists>c. (Claim f c, Claimed (Some (offered_token p))) \<in> set (call_history r evs))\<rparr>) \<and>
   (\<forall>c out. (Claim f c, out) \<in> set (call_history r evs) \<longrightarrow>
      out = Claimed (if c (offered_token p) then None else Some (offered_token p)))"
proof (induction evs arbitrary: r p)
  case (Cons ev evs)
  let ?b = "\<exists>c. ev = Claim f c \<and> snd (registry_step r ev) = Claimed (Some (offered_token p))"
  have leaves: "leaves_fire f ev" "list_all (leaves_fire f) evs" using Cons.prems(2) by simp_all
  note now = fire_step [OF Cons.prems(1) leaves(1)]
  note later = Cons.IH [OF conjunct1 [OF now] leaves(2)]
  have "\<forall>c out. (Claim f c, out) \<in> set (call_history r (ev # evs)) \<longrightarrow>
      out = Claimed (if c (offered_token p) then None else Some (offered_token p))"
  proof (intro allI impI)
    fix c out assume "(Claim f c, out) \<in> set (call_history r (ev # evs))"
    then consider "ev = Claim f c" "out = snd (registry_step r ev)"
      | "(Claim f c, out) \<in> set (call_history (fst (registry_step r ev)) evs)" by auto
    then show "out = Claimed (if c (offered_token p) then None else Some (offered_token p))"
    proof cases
      case 1
      then show ?thesis using conjunct2 [OF now] by blast
    next
      case 2
      then have "out = Claimed (if c (offered_token (p\<lparr>claimed := claimed p \<or> ?b\<rparr>)) then None
          else Some (offered_token (p\<lparr>claimed := claimed p \<or> ?b\<rparr>)))"
        using conjunct2 [OF later] by blast
      then show ?thesis by (simp only: session_token_unchanged)
    qed
  qed
  moreover have "(\<exists>c. (Claim f c, Claimed (Some (offered_token p))) \<in> set (call_history r (ev # evs))) \<longleftrightarrow>
      ?b \<or> (\<exists>c. (Claim f c, Claimed (Some (offered_token p))) \<in> set (call_history (fst (registry_step r ev)) evs))"
    by (simp add: ex_disj_distrib) metis
  ultimately show ?case using conjunct1 [OF later] by (simp add: disj_assoc)
qed simp

lemma withdrawn_history:
  "hm_get (fires r) f = None \<Longrightarrow> \<forall>t. Offer f t \<notin> set evs \<Longrightarrow> (Claim f c, out) \<in> set (call_history r evs) \<Longrightarrow>
   out = Claimed None"
proof (induction evs arbitrary: r)
  case (Cons ev evs)
  have none: "hm_get (fires (fst (registry_step r ev))) f = None"
    using Cons.prems(1,2) by (cases ev) (auto simp: registry_step_def registry_ops split: option.split list.split)
  have "ev = Claim f c \<Longrightarrow> snd (registry_step r ev) = Claimed None"
    using Cons.prems(1) by (simp add: registry_step_def claim_def)
  then show ?case using Cons.IH [OF none] Cons.prems by auto
qed simp

text \<open>A fire's stop is never lost between the fire and its session. From the moment a fire offers its token
  until it withdraws the offer, a claim is answered with that token exactly when it is not cancelled; the
  withdrawal says whether a session was claimed; and after it no claim succeeds, so a fire told that no
  session was claimed never gets one.\<close>

theorem fire_stop_is_never_lost:
  fixes r :: registry and f :: ustring and t :: nat
  assumes "list_all (leaves_fire f) before" "\<forall>t. Offer f t \<notin> set after"
  defines "r1 \<equiv> fst (registry_step r (Offer f t))"
  defines "r2 \<equiv> fst (run_machine registry_step r1 before)"
  defines "r3 \<equiv> fst (registry_step r2 (Withdraw f))"
  shows "(\<forall>c out. (Claim f c, out) \<in> set (call_history r1 before) \<longrightarrow> out = Claimed (if c t then None else Some t)) \<and>
    snd (registry_step r2 (Withdraw f)) =
      Withdrawn (\<exists>c. (Claim f c, Claimed (Some t)) \<in> set (call_history r1 before)) \<and>
    (\<forall>c out. (Claim f c, out) \<in> set (call_history r3 after) \<longrightarrow> out = Claimed None)"
proof -
  have "hm_get (fires r1) f = Some \<lparr>offered_token = t, claimed = False\<rparr>"
    by (simp add: r1_def registry_step_def offer_def)
  from offered_call_history [OF this assms(1)]
  have one: "\<forall>c out. (Claim f c, out) \<in> set (call_history r1 before) \<longrightarrow> out = Claimed (if c t then None else Some t)"
    and two: "hm_get (fires r2) f =
      Some \<lparr>offered_token = t, claimed = (\<exists>c. (Claim f c, Claimed (Some t)) \<in> set (call_history r1 before))\<rparr>"
    by (auto simp: r2_def split: if_splits)
  have "hm_get (fires r3) f = None" by (simp add: r3_def registry_step_def withdraw_def)
  from withdrawn_history [OF this assms(2)] one two show ?thesis
    by (simp add: registry_step_def withdraw_def)
qed

lemma fire_stop_is_never_lost_witness:
  "snd (registry_step (fst (run_machine registry_step (fst (registry_step new_registry (Offer [49] 7)))
      [Claim [49] (\<lambda>t. False)])) (Withdraw [49])) =
    Withdrawn (\<exists>c. (Claim [49] c, Claimed (Some 7)) \<in>
      set (call_history (fst (registry_step new_registry (Offer [49] 7))) [Claim [49] (\<lambda>t. False)]))"
  by (rule fire_stop_is_never_lost [of "[49]" "[Claim [49] (\<lambda>t. False)]" "[]", THEN conjunct2, THEN conjunct1])
    (simp_all add: leaves_fire_def)

section \<open>Resume points outlive the process\<close>

datatype registry_call = Call registry_event | Record bool datetime ustring resume_point

definition call_step ::
  "((ustring, resume_point) hmap \<Rightarrow> ustring option) \<Rightarrow> registry \<Rightarrow> registry_call \<Rightarrow> registry" where
  "call_step to_json r c =
     (case c of
        Call ev \<Rightarrow> fst (registry_step r ev)
      | Record written now a p \<Rightarrow> record_resume_point to_json written now a p r)"

definition last_recorded :: "ustring \<Rightarrow> registry_call list \<Rightarrow> resume_point option \<Rightarrow> resume_point option" where
  "last_recorded a cs p0 =
     foldl (\<lambda>x c. case c of Record w now b p \<Rightarrow> (if b = a then Some (p\<lparr>point_recorded_at := now\<rparr>) else x) | _ \<Rightarrow> x) p0 cs"

lemma step_keeps_points [simp]:
  "resume_points (fst (registry_step r ev)) = resume_points r" "disk (fst (registry_step r ev)) = disk r"
  "persists (fst (registry_step r ev)) = persists r"
  by (cases ev; auto simp: registry_step_def registry_ops split: option.split list.split)+

lemma record_points:
  "hm_get (resume_points (record_resume_point j w now a p r)) b =
     (if b = a then Some (p\<lparr>point_recorded_at := now\<rparr>) else hm_get (resume_points r) b)"
  "persists (record_resume_point j w now a p r) = persists r"
  by (simp_all add: record_resume_point_def Let_def split: option.split)

lemma calls_points:
  "hm_get (resume_points (foldl (call_step j) r cs)) a = last_recorded a cs (hm_get (resume_points r) a) \<and>
   persists (foldl (call_step j) r cs) = persists r"
  by (induction cs arbitrary: r)
    (simp_all add: last_recorded_def call_step_def record_points split: registry_call.split)

lemma plain_calls: "(\<forall>c\<in>set cs. \<exists>ev. c = Call ev) \<Longrightarrow>
   resume_points (foldl (call_step j) r cs) = resume_points r \<and> disk (foldl (call_step j) r cs) = disk r"
  by (induction cs arbitrary: r) (auto simp: call_step_def)

text \<open>The resume point of an address is the last one recorded there, whatever else happened, and it survives
  a restart: when the latest recording was written, a registry loaded from the file has the same resume
  point at every address. The serialiser is trusted only to be read back as what it wrote.\<close>

theorem resume_points_survive_a_restart:
  assumes json: "\<forall>m s. to_json m = Some s \<longrightarrow> trim s \<noteq> [] \<and> (\<exists>m'. parse s = Some m' \<and> hm_get m' = hm_get m)"
    and persists: "persists r"
    and calls: "cs = cs1 @ Record True now a p # cs2" "\<forall>c\<in>set cs2. \<exists>ev. c = Call ev"
    and written: "to_json (resume_points (foldl (call_step to_json) r cs)) \<noteq> None"
  shows "resume_point_at b (foldl (call_step to_json) r cs) = last_recorded b cs (resume_point_at b r) \<and>
    resume_point_at b (load_registry parse (case disk (foldl (call_step to_json) r cs) of
        Some text \<Rightarrow> ReadContents text | None \<Rightarrow> ReadMissing)) = last_recorded b cs (resume_point_at b r)"
proof -
  let ?r1 = "foldl (call_step to_json) r cs1" and ?r = "foldl (call_step to_json) r cs"
  define r2 where "r2 = record_resume_point to_json True now a p ?r1"
  have r: "?r = foldl (call_step to_json) r2 cs2" by (simp add: calls(1) r2_def call_step_def)
  then have same: "resume_points ?r = resume_points r2" "disk ?r = disk r2" using plain_calls [OF calls(2)] by simp_all
  obtain doc where doc: "to_json (resume_points ?r) = Some doc" using written by auto
  have "persists ?r1" using persists calls_points by blast
  moreover have "resume_points r2 = hm_insert a (p\<lparr>point_recorded_at := now\<rparr>) (resume_points ?r1)"
    by (simp add: r2_def record_resume_point_def Let_def split: option.split)
  ultimately have "disk ?r = Some doc"
    using doc by (simp add: same) (simp add: r2_def record_resume_point_def persist_resume_points_def Let_def)
  moreover obtain m where "trim doc \<noteq> []" "parse doc = Some m" "hm_get m = hm_get (resume_points ?r)"
    using json doc by blast
  moreover have "hm_get (resume_points ?r) b = last_recorded b cs (hm_get (resume_points r) b)"
    using calls_points by blast
  ultimately show ?thesis
    by (simp add: resume_point_at_def load_registry_def load_resume_points_def)
qed

definition sample_point :: resume_point where
  "sample_point = \<lparr>point_run_id = [49], point_episode = None, point_trigger = AgentTrigger, point_source_label = [],
     point_skill = None, point_model = Tier Medium, point_spawner = None, point_depth = 1,
     point_conversation = None, point_recorded_at = 5\<rparr>"

lemma resume_points_survive_a_restart_witness:
  "resume_point_at [97] (foldl (call_step (\<lambda>m. if m = [([97], sample_point)] then Some [98] else None))
      (load_registry (\<lambda>s. Some [([97], sample_point)]) ReadMissing) [Record True 5 [97] sample_point]) = Some sample_point"
proof -
  let ?j = "\<lambda>m. if m = [([97], sample_point)] then Some [98] else None"
  let ?r = "load_registry (\<lambda>s. Some [([97], sample_point)]) ReadMissing"
  have p: "sample_point\<lparr>point_recorded_at := 5\<rparr> = sample_point" by (simp add: sample_point_def)
  have "resume_points (foldl (call_step ?j) ?r [Record True 5 [97] sample_point]) = [([97], sample_point)]"
    by (simp add: call_step_def record_resume_point_def load_registry_def load_resume_points_def new_registry_def
        hm_insert_def persist_resume_points_def p)
  then have "resume_point_at [97] (foldl (call_step ?j) ?r [Record True 5 [97] sample_point]) =
      last_recorded [97] [Record True 5 [97] sample_point] (resume_point_at [97] ?r)"
    by (intro resume_points_survive_a_restart [where parse = "\<lambda>s. Some [([97], sample_point)]" and ?cs1.0 = "[]" and ?cs2.0 = "[]",
          THEN conjunct1])
      (auto simp: load_registry_def trim_def trim_start_def trim_end_def is_whitespace_def)
  then show ?thesis by (simp add: last_recorded_def p)
qed

end
