(* ===== verification/Session_Messaging.thy ===== *)
theory Session_Messaging
  imports Session_Registry
begin

text \<open>
  How a message reaches an agent (\<open>crates/background/src/messaging.rs\<close>), the text it arrives as
  (\<open>crates/bus/src/events.rs\<close>) and the hop counts that end message loops (\<open>crates/agent/src/hop.rs\<close>).

  What a call does besides changing the registry is returned as a list of effects. Whether the bus takes a
  publication, and the fresh id of an event, are arguments. A detached task is an effect naming the message it
  carries; its passes are functions of their own.
\<close>

section \<open>Reading JSON\<close>

text \<open>\<open>Value::get\<close> on an object, and \<open>as_str\<close>.\<close>

definition json_get :: "ustring \<Rightarrow> json \<Rightarrow> json option" where
  "json_get k j = (case j of JObject fs \<Rightarrow> map_of fs k | _ \<Rightarrow> None)"

definition json_str :: "json option \<Rightarrow> ustring option" where
  "json_str j = (case j of Some (JString s) \<Rightarrow> Some s | _ \<Rightarrow> None)"

section \<open>Hop counts\<close>

record hop_limits =
  soft_hops :: nat
  hard_hops :: nat

definition hop_set :: "nat \<Rightarrow> nat \<Rightarrow> nat" where "hop_set v h = v"
definition hop_bump :: "nat \<Rightarrow> nat \<Rightarrow> nat" where "hop_bump c h = max h c"
definition hop_outgoing :: "nat \<Rightarrow> nat" where "hop_outgoing h = h + 1"

text \<open>The hop counts of messages published to main, by event id, and those of messages taken mid-turn.\<close>

record messenger =
  pending_main_hops :: "(ustring, nat) hmap"
  mid_turn_hops :: "(ustring, nat) hmap"

definition take_main_hop :: "ustring \<Rightarrow> messenger \<Rightarrow> messenger \<times> nat" where
  "take_main_hop i g =
     (g\<lparr>pending_main_hops := hm_remove i (pending_main_hops g)\<rparr>, nat_or_zero (hm_get (pending_main_hops g) i))"

definition restore_main_hop :: "ustring \<Rightarrow> nat \<Rightarrow> messenger \<Rightarrow> messenger" where
  "restore_main_hop i h g =
     (if h = 0 then g else g\<lparr>pending_main_hops := hm_insert i h (pending_main_hops g)\<rparr>)"

definition note_mid_turn_hop :: "ustring \<Rightarrow> nat \<Rightarrow> messenger \<Rightarrow> messenger" where
  "note_mid_turn_hop i h g = (if h = 0 then g else g\<lparr>mid_turn_hops := hm_insert i h (mid_turn_hops g)\<rparr>)"

definition mid_turn_hop :: "ustring \<Rightarrow> messenger \<Rightarrow> nat" where
  "mid_turn_hop i g = nat_or_zero (hm_get (mid_turn_hops g) i)"

definition clear_mid_turn_hops :: "messenger \<Rightarrow> messenger" where
  "clear_mid_turn_hops g = g\<lparr>mid_turn_hops := []\<rparr>"

definition forget_main_hop :: "ustring \<Rightarrow> messenger \<Rightarrow> messenger" where
  "forget_main_hop i g = g\<lparr>pending_main_hops := hm_remove i (pending_main_hops g)\<rparr>"

section \<open>What the recipient reads\<close>

definition ARTIFACT_SENDER_CATEGORY :: ustring where "ARTIFACT_SENDER_CATEGORY = lit ''artifact''"
definition TEAMMATE_SENDER_CATEGORY :: ustring where "TEAMMATE_SENDER_CATEGORY = lit ''teammate''"

definition teammate_sender :: "agent_message \<Rightarrow> ustring option" where
  "teammate_sender m =
     (if message_from_category m \<noteq> TEAMMATE_SENDER_CATEGORY then None
      else if starts_with TEAMMATE_SENDER_PREFIX (message_from m) then Some (message_from m) else None)"

definition artifact_sender :: "agent_message \<Rightarrow> ustring option" where
  "artifact_sender m =
     (if message_from_category m \<noteq> ARTIFACT_SENDER_CATEGORY then None
      else strip_prefix ARTIFACT_SENDER_PREFIX (message_from m))"

definition quote_char :: ustring where "quote_char = [34]"

definition format_for_agent :: "agent_message \<Rightarrow> ustring" where
  "format_for_agent m =
     (if message_from m = OWNER_ADDRESS then
        lit ''[Message from the owner via the web UI'' @ em_dash @
        lit ''your response in this turn is shown to them directly]'' @ [10] @ agent_message_content m
      else (case artifact_sender m of
        Some a \<Rightarrow>
          lit ''[Message from the workbench artifact '' @ quote_char @ a @ quote_char @ em_dash @
          lit ''your response in this turn is shown to it directly]'' @ [10] @ agent_message_content m
      | None \<Rightarrow> (case teammate_sender m of
          Some t \<Rightarrow>
            lit ''[Message from teammate '' @ t @ lit '', not the user. Your response in this turn is not shown to them; to reply, call message_agent with to='' @
            quote_char @ t @ quote_char @
            lit ''. In a session for an outside chat it is not posted there either: only send_message reaches that chat.]'' @
            [10] @ agent_message_content m
        | None \<Rightarrow>
            lit ''[Agent Message from '' @ message_from m @ lit '' ('' @ message_from_category m @ lit '')]'' @ [10] @
            agent_message_content m)))"

definition agent_sender_of :: "agent_message \<Rightarrow> agent_sender option" where
  "agent_sender_of m =
     (if message_from m \<noteq> OWNER_ADDRESS \<and> artifact_sender m = None
      then Some \<lparr>agent_address = message_from m, agent_category = message_from_category m, agent_run_id = None\<rparr>
      else None)"

definition to_history_message :: "agent_message \<Rightarrow> message" where
  "to_history_message m =
     (user_message (format_for_agent m))\<lparr>msg_agent_sender := agent_sender_of m, msg_id := Some (agent_message_id m)\<rparr>"

definition from_background :: "ustring \<Rightarrow> int \<Rightarrow> ustring \<Rightarrow> message_event" where
  "from_background fresh now content =
     \<lparr>event_id = lit ''bg-'' @ fresh, event_content = content,
      event_origin = \<lparr>origin_endpoint = lit ''background'', origin_sender = None, origin_conversation = None,
        origin_agent_sender = None\<rparr>,
      event_timestamp = now, event_images = [], event_attachments = [], event_context = None\<rparr>"

definition from_agent :: "ustring \<Rightarrow> int \<Rightarrow> agent_message \<Rightarrow> message_event" where
  "from_agent fresh now m =
     (let e = from_background fresh now (format_for_agent m)
      in e\<lparr>event_origin := (event_origin e)\<lparr>origin_agent_sender := agent_sender_of m\<rparr>\<rparr>)"

definition into_history_messages :: "message_event \<Rightarrow> message list" where
  "into_history_messages e =
     (let user = (if event_images e = [] then user_message (event_content e)
                  else user_with_images (event_content e) (event_images e));
          user = user\<lparr>msg_attachments := event_attachments e, msg_sender := origin_sender (event_origin e),
            msg_agent_sender := origin_agent_sender (event_origin e)\<rparr>
      in (case event_context e of Some c \<Rightarrow> [(system_message c)\<lparr>msg_context := True\<rparr>] | None \<Rightarrow> []) @ [user])"

section \<open>Requests to start a session\<close>

record spawn_request =
  spawn_address :: ustring
  spawn_skill :: "ustring option"
  spawn_source_label :: ustring
  spawn_prompt :: ustring
  spawn_context :: "ustring option"
  spawn_source :: event_trigger
  spawn_model :: model_selector
  spawn_spawner :: "ustring option"
  spawn_depth :: u32
  spawn_hops :: nat
  spawn_sender :: "message_sender option"
  spawn_conversation :: "conversation_target option"
  spawn_inbound :: "message_event option"
  spawn_images :: "image_data list"
  spawn_overlap :: "pulse_overlap option"
  spawn_fire_id :: "ustring option"
  spawn_carried_history :: "message list"
  spawn_messages :: "agent_message list"
  spawn_chat_messages :: "message_event list"

definition kickoff_text :: "spawn_request \<Rightarrow> ustring" where
  "kickoff_text q = (case spawn_context q of Some c \<Rightarrow> c @ [10, 10] @ spawn_prompt q | None \<Rightarrow> spawn_prompt q)"

definition pointer_note :: "resume_point \<Rightarrow> ustring" where
  "pointer_note p =
     lit ''[Resumed session] Your previous run ('' @ point_run_id p @
     (case point_episode p of
        Some e \<Rightarrow> lit '') was merged as episode '' @ e @ em_dash @ lit ''retrieve it with memory_get if useful.''
      | None \<Rightarrow> lit '') produced no episode'' @ em_dash @
          lit ''retrieve its transcript with memory_get using that run id if useful.'')"

datatype pending_input = PendingAgent agent_message | PendingExternal message_event

fun pending_hops :: "pending_input \<Rightarrow> nat" where
  "pending_hops (PendingAgent m) = message_hops m"
| "pending_hops (PendingExternal e) = 0"

fun pending_images :: "pending_input \<Rightarrow> image_data list" where
  "pending_images (PendingAgent m) = []"
| "pending_images (PendingExternal e) = event_images e"

fun conversation_text_for_resume :: "pending_input \<Rightarrow> ustring option" where
  "conversation_text_for_resume (PendingAgent m) = None"
| "conversation_text_for_resume (PendingExternal e) =
     Some (concat_with [10, 10]
       ((case event_context e of Some c \<Rightarrow> [c] | None \<Rightarrow> []) @
        [attributed_content ((user_message (event_content e))\<lparr>msg_sender := origin_sender (event_origin e)\<rparr>)]))"

record resume_opening =
  opening_prompt :: ustring
  opening_hops :: nat
  opening_images :: "image_data list"
  opening_messages :: "agent_message list"
  opening_chat :: "message_event list"

definition opening_agent :: "agent_message \<Rightarrow> resume_opening" where
  "opening_agent m = \<lparr>opening_prompt = [], opening_hops = message_hops m, opening_images = [], opening_messages = [m],
     opening_chat = []\<rparr>"

definition resume_request :: "ustring \<Rightarrow> resume_point \<Rightarrow> resume_opening \<Rightarrow> spawn_request" where
  "resume_request a p q =
     \<lparr>spawn_address = a, spawn_skill = point_skill p, spawn_source_label = point_source_label p,
      spawn_prompt = opening_prompt q, spawn_context = Some (pointer_note p), spawn_source = point_trigger p,
      spawn_model = point_model p, spawn_spawner = point_spawner p, spawn_depth = point_depth p,
      spawn_hops = opening_hops q, spawn_sender = None, spawn_conversation = point_conversation p,
      spawn_inbound = None, spawn_images = opening_images q, spawn_overlap = None, spawn_fire_id = None,
      spawn_carried_history = [], spawn_messages = opening_messages q, spawn_chat_messages = opening_chat q\<rparr>"

fun agent_of :: "pending_input \<Rightarrow> agent_message option" where
  "agent_of (PendingAgent m) = Some m" | "agent_of (PendingExternal e) = None"

fun external_of :: "pending_input \<Rightarrow> message_event option" where
  "external_of (PendingAgent m) = None" | "external_of (PendingExternal e) = Some e"

definition pending_opening :: "pending_input list \<Rightarrow> resume_opening" where
  "pending_opening ps =
     \<lparr>opening_prompt = concat_with [10, 10] (List.map_filter conversation_text_for_resume ps),
      opening_hops = foldl max 0 (map pending_hops ps),
      opening_images = concat (map pending_images ps),
      opening_messages = List.map_filter agent_of ps,
      opening_chat = List.map_filter external_of ps\<rparr>"

record conversation_spawn =
  start_source_label :: ustring
  start_model :: model_selector
  start_skill :: "ustring option"

definition MAIN_DEPTH :: u32 where "MAIN_DEPTH = 0"

text \<open>\<open>None\<close>: the message carries no conversation, an internal inconsistency the code reports.\<close>

definition conversation_spawn_request :: "ustring \<Rightarrow> message_event \<Rightarrow> conversation_spawn \<Rightarrow> spawn_request option" where
  "conversation_spawn_request a e q =
     (case origin_conversation (event_origin e) of
        None \<Rightarrow> None
      | Some c \<Rightarrow> Some
          \<lparr>spawn_address = a, spawn_skill = start_skill q, spawn_source_label = start_source_label q,
           spawn_prompt = event_content e, spawn_context = event_context e, spawn_source = ConversationTrigger,
           spawn_model = start_model q, spawn_spawner = None, spawn_depth = MAIN_DEPTH + 1, spawn_hops = 0,
           spawn_sender = origin_sender (event_origin e),
           spawn_conversation = Some \<lparr>target_endpoint = origin_endpoint (event_origin e), target_conversation = conv_id c\<rparr>,
           spawn_inbound = Some e, spawn_images = event_images e, spawn_overlap = None, spawn_fire_id = None,
           spawn_carried_history = [], spawn_messages = [], spawn_chat_messages = []\<rparr>)"

definition conversation_resume_request :: "ustring \<Rightarrow> resume_point \<Rightarrow> message_event \<Rightarrow> spawn_request" where
  "conversation_resume_request a p e =
     \<lparr>spawn_address = a, spawn_skill = point_skill p, spawn_source_label = point_source_label p,
      spawn_prompt = event_content e,
      spawn_context = Some (case event_context e of Some c \<Rightarrow> pointer_note p @ [10, 10] @ c | None \<Rightarrow> pointer_note p),
      spawn_source = point_trigger p, spawn_model = point_model p, spawn_spawner = point_spawner p,
      spawn_depth = point_depth p, spawn_hops = 0, spawn_sender = origin_sender (event_origin e),
      spawn_conversation = point_conversation p, spawn_inbound = Some e, spawn_images = event_images e,
      spawn_overlap = None, spawn_fire_id = None, spawn_carried_history = [], spawn_messages = [],
      spawn_chat_messages = []\<rparr>"

section \<open>Effects\<close>

datatype effect =
    PublishSpawn spawn_request
  | PublishToMain message_event
  | DeferAgent ustring agent_message
  | DeferConversation ustring message_event conversation_spawn
  | RecordNote ustring ustring \<comment> \<open>the run whose transcript gets the note; the note\<close>

datatype send_error =
    Busy ustring
  | PublishFailed ustring
  | HopLimitExceeded nat nat

datatype send_outcome = ToMain | ToLive ustring | ResumedAt ustring | QueuedFor ustring | UnknownAddress

definition record_note_if_live :: "registry \<Rightarrow> ustring \<Rightarrow> ustring \<Rightarrow> effect list" where
  "record_note_if_live r a note =
     (if a = MAIN_ADDRESS then []
      else (case get_session a r of Some i \<Rightarrow> [RecordNote (info_run_id i) note] | None \<Rightarrow> []))"

section \<open>Sending to an agent\<close>

definition apply_soft_note :: "hop_limits \<Rightarrow> nat \<Rightarrow> ustring \<Rightarrow> ustring" where
  "apply_soft_note l h content =
     (if soft_hops l \<le> h
      then content @ [10, 10] @ lit ''[This exchange has reached '' @ show_nat h @
        lit '' hops. Reply only if a reply is actually needed.]''
      else content)"

definition hop_refusal_note :: "hop_limits \<Rightarrow> ustring \<Rightarrow> ustring \<Rightarrow> nat \<Rightarrow> ustring" where
  "hop_refusal_note l sender to h =
     lit ''[Message Loop Limit] a message from '' @ sender @ lit '' to '' @ to @ lit '' reached the hop limit ('' @
     show_nat h @ lit '' >= '' @ show_nat (hard_hops l) @ lit ''); it was not delivered.''"

definition publish_resume :: "bool \<Rightarrow> ustring \<Rightarrow> resume_point \<Rightarrow> resume_opening \<Rightarrow> effect list \<times> (send_error + unit)" where
  "publish_resume bus a p q =
     (if bus then ([PublishSpawn (resume_request a p q)], Inr ())
      else ([], Inl (PublishFailed (lit ''failed to resume session '' @ a))))"

text \<open>\<open>deliver_to_main\<close>: the hop count is recorded under the event's id, and taken back when the bus refuses.\<close>

definition deliver_to_main ::
  "bool \<Rightarrow> ustring \<Rightarrow> int \<Rightarrow> agent_message \<Rightarrow> registry \<Rightarrow> messenger \<Rightarrow> messenger \<times> effect list \<times> (send_error + unit)" where
  "deliver_to_main bus fresh now m r g =
     (let e = from_agent fresh now m;
          e = (if message_from_category m \<noteq> TEAMMATE_SENDER_CATEGORY
               then e\<lparr>event_origin := (event_origin e)\<lparr>origin_agent_sender :=
                   map_option (\<lambda>s. s\<lparr>agent_run_id := map_option info_run_id (get_session (message_from m) r)\<rparr>)
                     (origin_agent_sender (event_origin e))\<rparr>\<rparr>
               else e);
          g = g\<lparr>pending_main_hops := hm_insert (event_id e) (message_hops m) (pending_main_hops g)\<rparr>
      in if bus then (g, [PublishToMain e], Inr ())
         else (g\<lparr>pending_main_hops := hm_remove (event_id e) (pending_main_hops g)\<rparr>, [],
               Inl (PublishFailed (lit ''failed to deliver message to main''))))"

text \<open>\<open>bus\<close>: whether the bus takes the publication the call comes to make, if it makes one.\<close>

definition send_message ::
  "hop_limits \<Rightarrow> bool \<Rightarrow> ustring \<Rightarrow> int \<Rightarrow> ustring \<Rightarrow> agent_message \<Rightarrow> registry \<Rightarrow> messenger \<Rightarrow>
   registry \<times> messenger \<times> effect list \<times> (send_error + send_outcome)" where
  "send_message l bus fresh now to m r g =
     (let h = message_hops m in
      if hard_hops l \<le> h then
        (let note = hop_refusal_note l (message_from m) to h
         in (r, g, record_note_if_live r (message_from m) note @ record_note_if_live r to note,
             Inl (HopLimitExceeded h (hard_hops l))))
      else
        (let m = m\<lparr>agent_message_content := apply_soft_note l h (agent_message_content m)\<rparr> in
         if to = MAIN_ADDRESS then
           (case deliver_to_main bus fresh now m r g of
              (g', effs, Inl e) \<Rightarrow> (r, g', effs, Inl e)
            | (g', effs, Inr _) \<Rightarrow> (r, g', effs, Inr ToMain))
         else
           (case deliver to (AgentMessage m) r of
              (r', Delivered) \<Rightarrow> (r', g, [], Inr (ToLive to))
            | (r', ChannelFull) \<Rightarrow> (r', g, [], Inl (Busy to))
            | (r', CompletingRun) \<Rightarrow> (r', g, [DeferAgent to m], Inr (QueuedFor to))
            | (r', NotLive) \<Rightarrow>
                (case resume_point_at to r' of
                   None \<Rightarrow> (r', g, [], Inr UnknownAddress)
                 | Some p \<Rightarrow>
                     (case publish_resume bus to p (opening_agent m) of
                        (effs, Inl e) \<Rightarrow> (r', g, effs, Inl e)
                      | (effs, Inr _) \<Rightarrow> (r', g, effs, Inr (ResumedAt to)))))))"

definition resume_with_pending ::
  "bool \<Rightarrow> ustring \<Rightarrow> resume_point \<Rightarrow> pending_input list \<Rightarrow> effect list \<times> (send_error + unit)" where
  "resume_with_pending bus a p ps = publish_resume bus a p (pending_opening ps)"

section \<open>Delivering a conversation's message\<close>

datatype conversation_outcome = LiveSession ustring | StartedSession ustring | ResumedSession ustring | QueuedSession ustring

definition start_or_resume ::
  "bool \<Rightarrow> ustring \<Rightarrow> message_event \<Rightarrow> conversation_spawn \<Rightarrow> registry \<Rightarrow> effect list \<times> (send_error + conversation_outcome)" where
  "start_or_resume bus a e q r =
     (case resume_point_at a r of
        Some p \<Rightarrow>
          if bus then ([PublishSpawn (conversation_resume_request a p e)], Inr (ResumedSession a))
          else ([], Inl (PublishFailed (lit ''failed to resume conversation session '' @ a)))
      | None \<Rightarrow>
          (case conversation_spawn_request a e q of
             None \<Rightarrow> ([], Inl (PublishFailed (lit ''internal error: no conversation context on an external message'')))
           | Some s \<Rightarrow>
               if bus then ([PublishSpawn s], Inr (StartedSession a))
               else ([], Inl (PublishFailed (lit ''failed to start a conversation session'')))))"

definition deliver_conversation ::
  "bool \<Rightarrow> ustring \<Rightarrow> message_event \<Rightarrow> conversation_spawn \<Rightarrow> registry \<Rightarrow>
   registry \<times> effect list \<times> (send_error + conversation_outcome)" where
  "deliver_conversation bus a e q r =
     (case deliver a (UserMessage e) r of
        (r', Delivered) \<Rightarrow> (r', [], Inr (LiveSession a))
      | (r', NotLive) \<Rightarrow> (r', start_or_resume bus a e q r')
      | (r', _) \<Rightarrow> (r', [DeferConversation a e q], Inr (QueuedSession a)))"

text \<open>One pass of the detached task: it is finished, waits a moment and retries, or waits for the address to
  clear. \<open>resume_or_start_conversation_after_clear\<close> retries a full channel in place.\<close>

datatype pass_result = Finished | RetrySoon | WaitForClear

definition deferred_conversation_pass ::
  "bool \<Rightarrow> ustring \<Rightarrow> message_event \<Rightarrow> conversation_spawn \<Rightarrow> registry \<Rightarrow> registry \<times> effect list \<times> pass_result" where
  "deferred_conversation_pass bus a e q r =
     (case deliver a (UserMessage e) r of
        (r', Delivered) \<Rightarrow> (r', [], Finished)
      | (r', CompletingRun) \<Rightarrow> (r', [], WaitForClear)
      | (r', ChannelFull) \<Rightarrow> (r', [], RetrySoon)
      | (r', NotLive) \<Rightarrow> (r', fst (start_or_resume bus a e q r'), Finished))"

definition race_guard_pass ::
  "bool \<Rightarrow> ustring \<Rightarrow> message_event \<Rightarrow> spawn_request \<Rightarrow> registry \<Rightarrow> registry \<times> effect list \<times> pass_result" where
  "race_guard_pass bus a e q r =
     (case deliver a (UserMessage e) r of
        (r', Delivered) \<Rightarrow> (r', [], Finished)
      | (r', CompletingRun) \<Rightarrow> (r', [], WaitForClear)
      | (r', ChannelFull) \<Rightarrow> (r', [], RetrySoon)
      | (r', NotLive) \<Rightarrow> (r', if bus then [PublishSpawn q] else [], Finished))"

definition deferred_failure_note :: "ustring \<Rightarrow> ustring \<Rightarrow> ustring" where
  "deferred_failure_note a reason =
     lit ''[Deferred Delivery Failed] your message to '' @ a @ lit '' could not be delivered: '' @ reason"

definition deferred_agent_pass ::
  "bool \<Rightarrow> ustring \<Rightarrow> agent_message \<Rightarrow> registry \<Rightarrow> registry \<times> effect list \<times> pass_result" where
  "deferred_agent_pass bus a m r =
     (case deliver a (AgentMessage m) r of
        (r', Delivered) \<Rightarrow> (r', [], Finished)
      | (r', CompletingRun) \<Rightarrow> (r', [], WaitForClear)
      | (r', ChannelFull) \<Rightarrow>
          (r', record_note_if_live r' (message_from m)
             (deferred_failure_note a (lit ''the resumed session's interrupt channel is saturated'')), Finished)
      | (r', NotLive) \<Rightarrow>
          (case resume_point_at a r' of
             None \<Rightarrow> (r', record_note_if_live r' (message_from m) (deferred_failure_note a (lit ''no resume point recorded'')),
               Finished)
           | Some p \<Rightarrow>
               (case publish_resume bus a p (opening_agent m) of
                  (effs, Inr _) \<Rightarrow> (r', effs, Finished)
                | (effs, Inl e) \<Rightarrow>
                    (r', effs @ record_note_if_live r' (message_from m)
                       (deferred_failure_note a (lit ''failed to resume session '' @ a)), Finished))))"

text \<open>\<open>deliver_chat_messages_in_order\<close>: messages are delivered until one cannot be; it and the rest are deferred.\<close>

fun deliver_chat_in_order ::
  "ustring \<Rightarrow> message_event list \<Rightarrow> conversation_spawn \<Rightarrow> registry \<Rightarrow> registry \<times> message_event list" where
  "deliver_chat_in_order a [] q r = (r, [])"
| "deliver_chat_in_order a (e # es) q r =
     (case deliver a (UserMessage e) r of
        (r', Delivered) \<Rightarrow> deliver_chat_in_order a es q r'
      | (r', _) \<Rightarrow> (r', e # es))"

section \<open>Where a sent message ends up\<close>

text \<open>The messages waiting in the channel of the session at an address.\<close>

definition queue_of :: "ustring \<Rightarrow> registry \<Rightarrow> interrupt list" where
  "queue_of a r = (case hm_get (sessions r) a of Some e \<Rightarrow> queued (channels r ! entry_channel e) | None \<Rightarrow> [])"

lemma deliver_cases:
  obtains (delivered) r' where "deliver a m r = (r', Delivered)" "sessions r' = sessions r" "resume_points r' = resume_points r"
      "registry_ok r \<Longrightarrow> queue_of a r' = queue_of a r @ [m]"
  | (completing) "deliver a m r = (r, CompletingRun)"
  | (full) "deliver a m r = (r, ChannelFull)"
  | (not_live) "deliver a m r = (r, NotLive)" "get_session a r = None"
proof (cases "hm_get (sessions r) a")
  case None
  then show thesis by (intro not_live) (simp_all add: deliver_def get_session_def)
next
  case (Some e)
  show thesis
  proof (cases "tearing_down (info_state (entry_info e))")
    case True
    then show thesis using Some by (intro completing) (simp add: deliver_def)
  next
    case False
    show thesis
    proof (cases "channel_try_send m (channels r ! entry_channel e)")
      case None
      then show thesis using Some False by (intro full) (simp add: deliver_def)
    next
      fix c assume c: "channel_try_send m (channels r ! entry_channel e) = Some c"
      have "registry_ok r \<Longrightarrow> entry_channel e < length (channels r)" using Some by (auto simp: registry_ok_def entry_ok_def)
      moreover have "queued c = queued (channels r ! entry_channel e) @ [m]" using c by (auto simp: channel_try_send_def split: if_splits)
      ultimately show thesis using Some False c
        by (intro delivered [of "r\<lparr>channels := (channels r)[entry_channel e := c]\<rparr>"]) (simp_all add: deliver_def queue_of_def)
    qed
  qed
qed

text \<open>The message as the recipient gets it: the one sent, with a note on a long exchange.\<close>

definition noted :: "hop_limits \<Rightarrow> agent_message \<Rightarrow> agent_message" where
  "noted l m = m\<lparr>agent_message_content := apply_soft_note l (message_hops m) (agent_message_content m)\<rparr>"


definition sample_agent_message :: "nat \<Rightarrow> agent_message" where
  "sample_agent_message h = \<lparr>agent_message_id = [49], message_from = [97], message_from_category = [], agent_message_content = [104],
     message_hops = h\<rparr>"


section \<open>Message loops end\<close>

text \<open>A chain of messages, each sent from a turn that read the one before it: the turn's hop count is the
  highest among its inputs, and what it sends carries one more.\<close>

definition turn_hops :: "nat list \<Rightarrow> nat" where
  "turn_hops hs = (case hs of [] \<Rightarrow> 0 | h # rest \<Rightarrow> fold hop_bump rest (hop_set h 0))"

lemma fold_hop_bump: "h \<le> fold hop_bump hs h \<and> (\<forall>x\<in>set hs. x \<le> fold hop_bump hs h)"
proof (induction hs arbitrary: h)
  case (Cons x hs)
  from Cons.IH [of "max h x"] show ?case by (simp add: hop_bump_def)
qed simp

lemma turn_hops_ge: "h \<in> set hs \<Longrightarrow> h \<le> turn_hops hs"
  using fold_hop_bump by (cases hs) (auto simp: turn_hops_def hop_set_def)

fun answers_chain :: "agent_message list \<Rightarrow> bool" where
  "answers_chain (m # m' # ms) \<longleftrightarrow>
     (\<exists>hs. message_hops m \<in> set hs \<and> message_hops m' = hop_outgoing (turn_hops hs)) \<and> answers_chain (m' # ms)"
| "answers_chain ms = True"

lemma chain_grows: "answers_chain (m # ms) \<Longrightarrow> i < length (m # ms) \<Longrightarrow> message_hops m + i \<le> message_hops ((m # ms) ! i)"
proof (induction ms arbitrary: m i)
  case (Cons m' ms)
  obtain hs where hs: "message_hops m \<in> set hs" "message_hops m' = hop_outgoing (turn_hops hs)" using Cons.prems(1) by auto
  then have grows: "message_hops m < message_hops m'" using turn_hops_ge by (simp add: hop_outgoing_def less_Suc_eq_le)
  show ?case
  proof (cases i)
    case (Suc j)
    then have "message_hops m' + j \<le> message_hops ((m' # ms) ! j)" using Cons.IH [of m' j] Cons.prems by simp
    then show ?thesis using grows Suc by simp
  qed simp
qed simp

text \<open>Message loops end: in a chain of messages between agents, each sent from a turn that read the one
  before, at most as many as the hard hop limit are delivered before one is refused, whatever the
  registries, the addresses and the other messages those turns read.\<close>

theorem message_loops_end:
  assumes "answers_chain ms"
    and "\<forall>m\<in>set ms. \<exists>bus fresh now to r g. \<forall>h n. snd (snd (snd (send_message l bus fresh now to m r g))) \<noteq> Inl (HopLimitExceeded h n)"
  shows "length ms \<le> hard_hops l"
proof (cases "ms = []")
  case False
  let ?m = "ms ! (length ms - 1)"
  have "?m \<in> set ms" using False by simp
  then obtain bus fresh now to r g where ok: "\<forall>h n. snd (snd (snd (send_message l bus fresh now to ?m r g))) \<noteq> Inl (HopLimitExceeded h n)"
    using assms(2) by blast
  have "message_hops ?m < hard_hops l"
  proof (rule ccontr)
    assume "\<not> ?thesis"
    then show False using ok by (simp add: send_message_def Let_def)
  qed
  moreover have "length ms - 1 \<le> message_hops ?m"
  proof -
    obtain m ms' where ms: "ms = m # ms'" using False by (cases ms) auto
    then show ?thesis using chain_grows [of m ms' "length ms - 1"] assms(1) by simp
  qed
  ultimately show ?thesis by simp
qed simp

lemma message_loops_end_witness:
  "length [sample_agent_message 0, sample_agent_message 1] \<le> hard_hops \<lparr>soft_hops = 1, hard_hops = 2\<rparr>"
proof (rule message_loops_end)
  have "message_hops (sample_agent_message 0) \<in> set [0] \<and> message_hops (sample_agent_message 1) = hop_outgoing (turn_hops [0])"
    by (simp add: sample_agent_message_def hop_outgoing_def turn_hops_def hop_set_def)
  then show "answers_chain [sample_agent_message 0, sample_agent_message 1]" unfolding answers_chain.simps by blast
  have "snd (snd (snd (send_message \<lparr>soft_hops = 1, hard_hops = 2\<rparr> True [] 0 [97] m new_registry
      \<lparr>pending_main_hops = [], mid_turn_hops = []\<rparr>))) = Inr UnknownAddress"
    if "m \<in> set [sample_agent_message 0, sample_agent_message 1]" for m
    using that by (auto simp: send_message_def sample_agent_message_def MAIN_ADDRESS_def lit_def deliver_def new_registry_def
        resume_point_at_def Let_def)
  then show "\<forall>m\<in>set [sample_agent_message 0, sample_agent_message 1]. \<exists>bus fresh now to r g. \<forall>h n.
      snd (snd (snd (send_message \<lparr>soft_hops = 1, hard_hops = 2\<rparr> bus fresh now to m r g))) \<noteq> Inl (HopLimitExceeded h n)"
    by (metis Inr_not_Inl)
qed

section \<open>A person's message is never dropped\<close>

text \<open>A spawn request brings a conversation message when it starts the run with it.\<close>

definition brings :: "message_event \<Rightarrow> effect \<Rightarrow> bool" where
  "brings e x \<longleftrightarrow> (\<exists>q. x = PublishSpawn q \<and> spawn_inbound q = Some e \<and> spawn_prompt q = event_content e)"

lemma start_or_resume_brings:
  assumes "origin_conversation (event_origin e) \<noteq> None"
  shows "\<exists>x. start_or_resume True a e q r = ([x], Inr (case resume_point_at a r of Some p \<Rightarrow> ResumedSession a | None \<Rightarrow> StartedSession a)) \<and>
    brings e x"
  using assms by (auto simp: start_or_resume_def conversation_spawn_request_def conversation_resume_request_def brings_def
      split: option.split)

text \<open>A conversation's message is never dropped for capacity or for a race: while the bus works, delivering
  it puts it into the live session's channel, starts or resumes a session with it, or leaves it to a
  task, and no pass of that task ends before the message is in a channel or in a request to start a
  session; a pass that does not end changes nothing.\<close>

theorem chat_message_is_never_dropped:
  assumes "registry_ok r" "origin_conversation (event_origin e) \<noteq> None"
  shows "(case deliver_conversation True a e q r of
      (r', effs, Inr (LiveSession b)) \<Rightarrow> b = a \<and> effs = [] \<and> queue_of a r' = queue_of a r @ [UserMessage e]
    | (r', effs, Inr (QueuedSession b)) \<Rightarrow> b = a \<and> r' = r \<and> effs = [DeferConversation a e q]
    | (r', effs, Inr _) \<Rightarrow> r' = r \<and> (\<exists>x. effs = [x] \<and> brings e x)
    | (r', effs, Inl _) \<Rightarrow> False) \<and>
    (case deferred_conversation_pass True a e q r of
      (r', effs, Finished) \<Rightarrow> effs = [] \<and> queue_of a r' = queue_of a r @ [UserMessage e] \<or> r' = r \<and> (\<exists>x. effs = [x] \<and> brings e x)
    | (r', effs, _) \<Rightarrow> r' = r \<and> effs = [] \<and> get_session a r \<noteq> None)"
  using start_or_resume_brings [OF assms(2), of a q r]
proof (elim exE conjE)
  fix x assume x: "start_or_resume True a e q r =
      ([x], Inr (case resume_point_at a r of Some p \<Rightarrow> ResumedSession a | None \<Rightarrow> StartedSession a))" "brings e x"
  show ?thesis
  proof (cases rule: deliver_cases [of a "UserMessage e" r])
    case (delivered r')
    then show ?thesis using assms(1) by (simp add: deliver_conversation_def deferred_conversation_pass_def)
  next
    case completing
    then have "get_session a r \<noteq> None" by (auto simp: deliver_def get_session_def split: option.splits)
    then show ?thesis using completing by (simp add: deliver_conversation_def deferred_conversation_pass_def)
  next
    case full
    then have "get_session a r \<noteq> None" by (auto simp: deliver_def get_session_def split: option.splits)
    then show ?thesis using full by (simp add: deliver_conversation_def deferred_conversation_pass_def)
  next
    case not_live
    then show ?thesis using x by (simp add: deliver_conversation_def deferred_conversation_pass_def split: option.split)
  qed
qed

definition sample_event :: message_event where
  "sample_event = \<lparr>event_id = [49], event_content = [104],
     event_origin = \<lparr>origin_endpoint = [100], origin_sender = None,
       origin_conversation = Some \<lparr>conv_id = [99], conv_kind = GroupChat, conv_is_owner = False\<rparr>, origin_agent_sender = None\<rparr>,
     event_timestamp = 0, event_images = [], event_attachments = [], event_context = None\<rparr>"

definition sample_spawn :: conversation_spawn where
  "sample_spawn = \<lparr>start_source_label = [], start_model = Tier Medium, start_skill = None\<rparr>"

lemma chat_message_is_never_dropped_witness:
  "\<exists>x. fst (snd (deliver_conversation True [97] sample_event sample_spawn new_registry)) = [x] \<and> brings sample_event x"
proof -
  have "registry_ok new_registry" "origin_conversation (event_origin sample_event) \<noteq> None"
    by (simp_all add: new_registry_def registry_ok_def sample_event_def)
  moreover have "snd (snd (deliver_conversation True [97] sample_event sample_spawn new_registry)) = Inr (StartedSession [97])"
    by (simp add: deliver_conversation_def deliver_def new_registry_def start_or_resume_def resume_point_at_def
        conversation_spawn_request_def sample_event_def)
  ultimately show ?thesis
    using chat_message_is_never_dropped [of new_registry sample_event "[97]" sample_spawn]
    by (cases "deliver_conversation True [97] sample_event sample_spawn new_registry") auto
qed

lemma chat_in_order:
  "registry_ok r \<Longrightarrow> \<exists>sent. es = sent @ snd (deliver_chat_in_order a es q r) \<and>
     queue_of a (fst (deliver_chat_in_order a es q r)) = queue_of a r @ map UserMessage sent"
proof (induction es arbitrary: r)
  case (Cons e es)
  show ?case
  proof (cases rule: deliver_cases [of a "UserMessage e" r])
    case (delivered r')
    have "registry_ok r'" using deliver_ok [OF Cons.prems, of a "UserMessage e"] delivered by simp
    from Cons.IH [OF this] obtain sent where sent: "es = sent @ snd (deliver_chat_in_order a es q r')"
      "queue_of a (fst (deliver_chat_in_order a es q r')) = queue_of a r' @ map UserMessage sent" by blast
    show ?thesis
      by (rule exI [of _ "e # sent"]) (use delivered sent Cons.prems in \<open>simp flip: sent(1)\<close>)
  qed (auto intro!: exI [of _ "[]"])
qed simp

section \<open>A resumed run opens with everything that was waiting\<close>

lemma foldl_max: "foldl max h hs = Max (insert h (set hs))"
proof -
  have "foldl max h hs = fold max hs h" by (induction hs arbitrary: h) (simp_all add: max.commute)
  then show ?thesis using Max.set_eq_fold [of h hs] by simp
qed

text \<open>A run resumed with the messages its predecessor left behind opens with all of them: its agent
  messages and its chat messages are those waiting, each kind in order, its hop count is the highest among
  them, its images are theirs, and it keeps the address, spawner, depth and conversation of the session.\<close>

theorem resumed_run_opens_with_everything:
  "\<exists>q. resume_with_pending True a p ps = ([PublishSpawn q], Inr ()) \<and>
     map PendingAgent (spawn_messages q) = filter (\<lambda>x. agent_of x \<noteq> None) ps \<and>
     map PendingExternal (spawn_chat_messages q) = filter (\<lambda>x. agent_of x = None) ps \<and>
     spawn_hops q = Max (insert 0 (pending_hops ` set ps)) \<and>
     spawn_images q = concat (map event_images (spawn_chat_messages q)) \<and>
     (spawn_chat_messages q = [] \<longrightarrow> spawn_prompt q = []) \<and>
     spawn_address q = a \<and> spawn_spawner q = point_spawner p \<and> spawn_depth q = point_depth p \<and>
     spawn_conversation q = point_conversation p \<and> spawn_source q = point_trigger p"
proof -
  let ?o = "pending_opening ps"
  have agents: "map PendingAgent (opening_messages ?o) = filter (\<lambda>x. agent_of x \<noteq> None) ps"
    unfolding pending_opening_def by (induction ps) (auto simp: map_filter_simps elim: agent_of.elims)
  have chats: "map PendingExternal (opening_chat ?o) = filter (\<lambda>x. agent_of x = None) ps"
    unfolding pending_opening_def
  proof (induction ps)
    case (Cons x ps)
    then show ?case by (cases x) (simp_all add: map_filter_simps)
  qed (simp add: map_filter_simps)
  have images: "opening_images ?o = concat (map event_images (opening_chat ?o))"
    unfolding pending_opening_def
  proof (induction ps)
    case (Cons x ps)
    then show ?case by (cases x) (simp_all add: map_filter_simps)
  qed (simp add: map_filter_simps)
  have prompt: "opening_chat ?o = [] \<longrightarrow> opening_prompt ?o = []"
  proof
    assume "opening_chat ?o = []"
    then have "filter (\<lambda>x. agent_of x = None) ps = []" using chats by simp
    then have "\<forall>x\<in>set ps. agent_of x \<noteq> None" by (simp add: filter_empty_conv)
    moreover have "conversation_text_for_resume x = None" if "agent_of x \<noteq> None" for x
      using that by (cases x) simp_all
    ultimately have "\<forall>x\<in>set ps. conversation_text_for_resume x = None" by blast
    then have "List.map_filter conversation_text_for_resume ps = []" by (simp add: map_filter_def)
    then show "opening_prompt ?o = []" by (simp add: pending_opening_def concat_with_def)
  qed
  have hops: "opening_hops ?o = Max (insert 0 (pending_hops ` set ps))"
    by (simp add: pending_opening_def foldl_max)
  show ?thesis
    using agents chats images prompt hops by (simp add: resume_with_pending_def publish_resume_def resume_request_def)
qed

lemma resumed_run_opens_with_everything_witness:
  "\<exists>q. resume_with_pending True [97] sample_point [PendingAgent (sample_agent_message 3)] = ([PublishSpawn q], Inr ()) \<and>
     spawn_hops q = 3"
  using resumed_run_opens_with_everything [of "[97]" sample_point "[PendingAgent (sample_agent_message 3)]"]
  by (auto simp: sample_agent_message_def)

end
