(* ===== verification/Session_Run.thy ===== *)
theory Session_Run
  imports Session_Messaging
begin

text \<open>
  One run of a session (\<open>crates/background/src/runtime.rs\<close>): the turn loop of \<open>run_session\<close>, its idle wait,
  the drain of its channel and its teardown, with other tasks delivering messages between any two steps;
  and the small decisions around it (idle timeouts, what is relayed to the spawner, where a chat session's
  output goes).

  A turn itself is opaque: it takes messages out of the channel and ends with a status. Whether the stop
  token is cancelled, a permit is free or a sleep has elapsed is an argument of the step that looks.
\<close>

section \<open>Small decisions\<close>

record idle_timeouts =
  idle_scheduled :: nat
  idle_spawned :: nat
  idle_external :: nat
  idle_artifact :: nat

definition idle_timeout_for :: "idle_timeouts \<Rightarrow> event_trigger \<Rightarrow> nat" where
  "idle_timeout_for ts t =
     (case from_trigger t of
        ScheduledSession \<Rightarrow> idle_scheduled ts
      | SpawnedSession \<Rightarrow> idle_spawned ts
      | ArtifactSession \<Rightarrow> idle_artifact ts
      | ExternalSession \<Rightarrow> (case t of WebhookTrigger n \<Rightarrow> idle_scheduled ts | _ \<Rightarrow> idle_external ts))"

datatype run_status = RunCompleted | RunCancelled | RunFailed ustring "ustring option"

definition resume_point_of :: "datetime \<Rightarrow> session_info \<Rightarrow> ustring option \<Rightarrow> resume_point" where
  "resume_point_of now info episode =
     \<lparr>point_run_id = info_run_id info, point_episode = episode, point_trigger = info_trigger info,
      point_source_label = info_source_label info, point_skill = info_skill info, point_model = info_model info,
      point_spawner = info_spawner info, point_depth = info_depth info,
      point_conversation = info_conversation info, point_recorded_at = now\<rparr>"

text \<open>\<open>show_status\<close> stands for the \<open>Display\<close> of the status.\<close>

definition relay_content :: "(run_status \<Rightarrow> ustring) \<Rightarrow> ustring \<Rightarrow> run_status \<Rightarrow> ustring \<Rightarrow> ustring" where
  "relay_content show_status a status summary =
     (if status = RunCompleted \<and> summary \<noteq> [] then summary
      else lit ''[Session Result] '' @ a @ [32, 8212, 32] @ lit ''status: '' @ show_status status)"

definition relays_to :: "session_info \<Rightarrow> ustring option" where
  "relays_to info = (if info_category info \<noteq> SpawnedSession then None else info_spawner info)"

definition external_chat :: "ustring \<Rightarrow> session_info \<Rightarrow> conversation_target option" where
  "external_chat a2a_endpoint info =
     (case info_conversation info of
        None \<Rightarrow> None
      | Some t \<Rightarrow> if info_category info = ExternalSession \<and> target_endpoint t \<noteq> a2a_endpoint then Some t else None)"

definition calls_of :: "message \<Rightarrow> tool_call list" where
  "calls_of m = (case msg_tool_calls m of Some cs \<Rightarrow> cs | None \<Rightarrow> [])"

definition sent_to_chat :: "message list \<Rightarrow> conversation_target \<Rightarrow> bool" where
  "sent_to_chat ms t \<longleftrightarrow>
     list_ex (\<lambda>c. call_name c = lit ''send_message'' \<and>
         json_str (json_get (lit ''endpoint'') (call_arguments c)) = Some (target_endpoint t) \<and>
         json_str (json_get (lit ''conversation'') (call_arguments c)) = Some (target_conversation t))
       (concat (map calls_of ms))"

datatype chat_outcome =
    NoChat
  | NothingToDeliver
  | StaysInTranscript bool \<comment> \<open>whether the silence towards the chat is logged\<close>
  | Posts conversation_target ustring

definition settle_chat_output ::
  "ustring \<Rightarrow> session_info \<Rightarrow> run_status \<Rightarrow> ustring \<Rightarrow> message list \<Rightarrow> chat_outcome" where
  "settle_chat_output a2a_endpoint info status summary ms =
     (case info_conversation info of
        None \<Rightarrow> NoChat
      | Some t \<Rightarrow>
          if status \<noteq> RunCompleted \<or> summary = [] then NothingToDeliver
          else if info_category info \<noteq> SpawnedSession
            then StaysInTranscript (external_chat a2a_endpoint info \<noteq> None \<and> \<not> sent_to_chat ms t)
          else Posts t (info_address info @ lit '':'' @ [10] @ summary))"

datatype disposition = NormalResult | SilentResult | UrgentResult

text \<open>\<open>silent\<close> and \<open>urgent\<close>: whether the summary ends with the sentinel of the name.\<close>

definition result_disposition :: "bool \<Rightarrow> bool \<Rightarrow> session_info \<Rightarrow> disposition" where
  "result_disposition silent urgent info =
     (if info_trigger info = PulseTrigger \<and> silent then SilentResult
      else if urgent then UrgentResult
      else NormalResult)"

definition turn_end_summary :: "(ustring \<Rightarrow> ustring) \<Rightarrow> run_status \<Rightarrow> ustring \<Rightarrow> ustring" where
  "turn_end_summary preview status summary =
     (case status of
        RunCompleted \<Rightarrow> if summary \<noteq> [] then preview summary else lit ''turn completed''
      | RunCancelled \<Rightarrow> lit ''turn stopped''
      | RunFailed e d \<Rightarrow> lit ''turn failed: '' @ e)"

section \<open>The idle wait and the drain\<close>

datatype idle_outcome =
    IdleStopped
  | IdleTimedOut
  | Woken agent_message
  | WokenExternal message_event

definition woken_by :: "interrupt \<Rightarrow> idle_outcome option" where
  "woken_by m = (case m of AgentMessage a \<Rightarrow> Some (Woken a) | UserMessage e \<Rightarrow> Some (WokenExternal e) | _ \<Rightarrow> None)"

text \<open>One turn of the \<open>select!\<close> of \<open>wait_idle\<close>, biased to the stop, then the sleep, then the channel. \<open>None\<close>: it
  waits on. \<open>senders_gone\<close>: the channel is empty and no sender is left.\<close>

definition wait_idle_poll :: "bool \<Rightarrow> bool \<Rightarrow> bool \<Rightarrow> nat \<Rightarrow> registry \<Rightarrow> registry \<times> interrupt option \<times> idle_outcome option" where
  "wait_idle_poll stopped slept senders_gone c r =
     (if stopped then (r, None, Some IdleStopped)
      else if slept then
        (case try_recv c r of
           (r', Some m) \<Rightarrow> (r', Some m, Some (case woken_by m of Some w \<Rightarrow> w | None \<Rightarrow> IdleTimedOut))
         | (r', None) \<Rightarrow> (r', None, Some IdleTimedOut))
      else
        (case try_recv c r of
           (r', Some m) \<Rightarrow> (r', Some m, woken_by m)
         | (r', None) \<Rightarrow> (r', None, if senders_gone then Some IdleTimedOut else None)))"

definition pending_of :: "interrupt \<Rightarrow> pending_input option" where
  "pending_of m =
     (case m of AgentMessage a \<Rightarrow> Some (PendingAgent a) | UserMessage e \<Rightarrow> Some (PendingExternal e) | _ \<Rightarrow> None)"

text \<open>The loop of \<open>drain_pending_interrupts\<close>; the fuel is the number of messages queued.\<close>

fun drain_loop :: "nat \<Rightarrow> nat \<Rightarrow> registry \<Rightarrow> registry \<times> pending_input list" where
  "drain_loop 0 c r = (r, [])"
| "drain_loop (Suc k) c r =
     (case try_recv c r of
        (r', None) \<Rightarrow> (r', [])
      | (r', Some m) \<Rightarrow>
          (case drain_loop k c r' of
             (r'', ps) \<Rightarrow> (r'', (case pending_of m of Some p \<Rightarrow> [p] | None \<Rightarrow> []) @ ps)))"

definition drain_pending_interrupts :: "nat \<Rightarrow> registry \<Rightarrow> registry \<times> pending_input list" where
  "drain_pending_interrupts c r = drain_loop (Suc (length (queued (channels r ! c)))) c r"

section \<open>The run as a machine\<close>

text \<open>Where \<open>run_session\<close> stands: at the top of its loop, waiting for a permit, in a turn, after a turn, idle,
  out of the loop, drained (about to call \<open>finish_run\<close>), tearing down, gone; or unwound by a panic.\<close>

datatype run_phase =
    LoopTop
  | AwaitingPermit
  | InTurn
  | AfterTurn run_status
  | IdleWait
  | LoopLeft
  | Drained
  | Panicked
  | TearingDown
  | Gone

text \<open>\<open>taken\<close> are the messages the run's turns took, \<open>leftover\<close> what the drain found, \<open>resumed\<close> what was handed to
  \<open>resume_with_pending\<close>. \<open>accepted\<close> records the deliveries that were answered \<open>Delivered\<close>.\<close>

record run_state =
  run_registry :: registry
  run_info :: session_info
  run_channel :: nat
  run_phase :: run_phase
  taken :: "interrupt list"
  leftover :: "pending_input list"
  resumed :: "pending_input list"
  accepted :: "interrupt list"

datatype run_event =
    OtherDelivers interrupt
  | BecomeQueued
  | PermitOrStop bool bool \<comment> \<open>stopped; the semaphore is closed\<close>
  | TakeInterrupt
  | FinishTurn run_status
  | SettleTurn
  | IdlePoll bool bool \<comment> \<open>stopped; the sleep elapsed\<close>
  | DrainChannel
  | BeginTeardown
  | RecordPoint bool datetime "ustring option"
  | LeaveRegistry
  | PanicUnwinds

definition transition_state :: "session_state \<Rightarrow> run_phase \<Rightarrow> run_state \<Rightarrow> run_state" where
  "transition_state st ph s =
     s\<lparr>run_registry := set_state (info_address (run_info s)) st (run_registry s), run_phase := ph\<rparr>"

definition take_interrupt :: "run_state \<Rightarrow> run_state" where
  "take_interrupt s =
     (case try_recv (run_channel s) (run_registry s) of
        (r, None) \<Rightarrow> s
      | (r, Some m) \<Rightarrow> s\<lparr>run_registry := r, taken := taken s @ [m]\<rparr>)"

definition idle_poll :: "bool \<Rightarrow> bool \<Rightarrow> run_state \<Rightarrow> run_state" where
  "idle_poll stopped slept s =
     (case wait_idle_poll stopped slept False (run_channel s) (run_registry s) of
        (r, m, outcome) \<Rightarrow>
          s\<lparr>run_registry := r, taken := taken s @ (case m of Some m \<Rightarrow> [m] | None \<Rightarrow> []),
            run_phase :=
              (case outcome of
                 None \<Rightarrow> IdleWait
               | Some IdleStopped \<Rightarrow> LoopLeft
               | Some IdleTimedOut \<Rightarrow> LoopLeft
               | Some (Woken a) \<Rightarrow> LoopTop
               | Some (WokenExternal e) \<Rightarrow> LoopTop)\<rparr>)"

definition run_step ::
  "((ustring, resume_point) hmap \<Rightarrow> ustring option) \<Rightarrow> run_state \<Rightarrow> run_event \<Rightarrow> run_state" where
  "run_step to_json s ev =
     (case ev of
        OtherDelivers m \<Rightarrow>
          (case deliver (info_address (run_info s)) m (run_registry s) of
             (r, Delivered) \<Rightarrow> s\<lparr>run_registry := r, accepted := accepted s @ [m]\<rparr>
           | (r, _) \<Rightarrow> s\<lparr>run_registry := r\<rparr>)
      | BecomeQueued \<Rightarrow> if run_phase s = LoopTop then transition_state Queued AwaitingPermit s else s
      | PermitOrStop stopped closed \<Rightarrow>
          if run_phase s \<noteq> AwaitingPermit then s
          else if stopped then s\<lparr>run_phase := AfterTurn RunCancelled\<rparr>
          else if closed then s\<lparr>run_phase := AfterTurn (RunFailed (lit ''gateway is shutting down'') None)\<rparr>
          else transition_state Running InTurn s
      | TakeInterrupt \<Rightarrow> if run_phase s = InTurn then take_interrupt s else s
      | FinishTurn st \<Rightarrow> if run_phase s = InTurn then s\<lparr>run_phase := AfterTurn st\<rparr> else s
      | SettleTurn \<Rightarrow>
          (case run_phase s of
             AfterTurn RunCancelled \<Rightarrow> s\<lparr>run_phase := LoopLeft\<rparr>
           | AfterTurn _ \<Rightarrow> transition_state Idle IdleWait s
           | _ \<Rightarrow> s)
      | IdlePoll stopped slept \<Rightarrow> if run_phase s = IdleWait then idle_poll stopped slept s else s
      | DrainChannel \<Rightarrow>
          if run_phase s = LoopLeft then
            (case drain_pending_interrupts (run_channel s) (run_registry s) of
               (r, ps) \<Rightarrow> s\<lparr>run_registry := r, leftover := ps, run_phase := Drained\<rparr>)
          else s
      | BeginTeardown \<Rightarrow>
          if run_phase s = Drained \<or> run_phase s = Panicked then transition_state Completing TearingDown s else s
      | RecordPoint written now episode \<Rightarrow>
          if run_phase s = TearingDown
          then s\<lparr>run_registry := record_resume_point to_json written now (info_address (run_info s))
                 (resume_point_of now (run_info s) episode) (run_registry s)\<rparr>
          else s
      | LeaveRegistry \<Rightarrow>
          if run_phase s = TearingDown then
            (case remove_session (info_address (run_info s)) (info_run_id (run_info s)) (run_registry s) of
               (r, _) \<Rightarrow> s\<lparr>run_registry := drop_receiver (run_channel s) r, run_phase := Gone,
                 resumed := leftover s\<rparr>)
          else s
      | PanicUnwinds \<Rightarrow>
          if run_phase s \<in> {TearingDown, Gone, Panicked} then s
          else s\<lparr>run_registry := drop_receiver (run_channel s) (run_registry s), run_phase := Panicked, leftover := []\<rparr>)"

definition run_all :: "((ustring, resume_point) hmap \<Rightarrow> ustring option) \<Rightarrow> run_state \<Rightarrow> run_event list \<Rightarrow> run_state" where
  "run_all to_json s evs = foldl (run_step to_json) s evs"

text \<open>A run starts when \<open>register\<close> accepted it, in the forking state.\<close>

definition start_run :: "session_info \<Rightarrow> nat \<Rightarrow> registry \<Rightarrow> run_state option" where
  "start_run info stop r =
     (case register (info\<lparr>info_state := Forking, info_usage := no_totals\<rparr>) stop r of
        (r', Inr c) \<Rightarrow> Some \<lparr>run_registry = r', run_info = info\<lparr>info_state := Forking, info_usage := no_totals\<rparr>,
            run_channel = c, run_phase = LoopTop, taken = [], leftover = [], resumed = [], accepted = []\<rparr>
      | (r', Inl _) \<Rightarrow> None)"

section \<open>Every accepted message is read or handed on\<close>

definition inputs :: "interrupt list \<Rightarrow> pending_input list" where
  "inputs ms = List.map_filter pending_of ms"

lemma inputs_simps [simp]:
  "inputs [] = []" "inputs (m # ms) = (case pending_of m of Some p \<Rightarrow> [p] | None \<Rightarrow> []) @ inputs ms"
  "inputs (ms @ ns) = inputs ms @ inputs ns"
  by (simp_all add: inputs_def map_filter_def split: option.split)

definition waiting_in :: "nat \<Rightarrow> registry \<Rightarrow> interrupt list" where
  "waiting_in c r = queued (channels r ! c)"

lemma try_recv_spec:
  assumes "c < length (channels r)" "receiver_alive (channels r ! c)"
  shows "(case try_recv c r of
      (r', None) \<Rightarrow> r' = r \<and> waiting_in c r = []
    | (r', Some m) \<Rightarrow> waiting_in c r = m # waiting_in c r' \<and> sessions r' = sessions r \<and>
        length (channels r') = length (channels r) \<and> receiver_alive (channels r' ! c))"
  using assms by (simp add: try_recv_def waiting_in_def split: list.split)

lemma try_recv_cases:
  assumes "c < length (channels r)" "receiver_alive (channels r ! c)"
  obtains (empty) "try_recv c r = (r, None)" "waiting_in c r = []"
  | (took) r' m where "try_recv c r = (r', Some m)" "waiting_in c r = m # waiting_in c r'" "sessions r' = sessions r"
      "c < length (channels r')" "receiver_alive (channels r' ! c)"
  using try_recv_spec [OF assms] assms(1) by (cases "try_recv c r"; cases "snd (try_recv c r)") auto

lemma drain_loop_spec:
  "c < length (channels r) \<Longrightarrow> receiver_alive (channels r ! c) \<Longrightarrow> length (waiting_in c r) < k \<Longrightarrow>
   snd (drain_loop k c r) = inputs (waiting_in c r) \<and> waiting_in c (fst (drain_loop k c r)) = [] \<and>
   sessions (fst (drain_loop k c r)) = sessions r \<and> c < length (channels (fst (drain_loop k c r))) \<and>
   receiver_alive (channels (fst (drain_loop k c r)) ! c)"
proof (induction k arbitrary: r)
  case (Suc k)
  from Suc.prems(1,2) show ?case
  proof (cases rule: try_recv_cases)
    case empty
    then show ?thesis using Suc.prems by simp
  next
    case (took r' m)
    have "length (waiting_in c r') < k" using Suc.prems(3) took(2) by simp
    from Suc.IH [OF took(4,5) this] show ?thesis by (simp add: took case_prod_unfold)
  qed
qed simp

text \<open>What holds of a run at each point, when no delivery fell between the drain and the teardown.\<close>

definition own_entry :: "run_state \<Rightarrow> (session_entry \<Rightarrow> bool) \<Rightarrow> bool" where
  "own_entry s P \<longleftrightarrow>
     (\<exists>e. hm_get (sessions (run_registry s)) (info_address (run_info s)) = Some e \<and> entry_channel e = run_channel s \<and>
        info_run_id (entry_info e) = info_run_id (run_info s) \<and> P e)"

definition run_ok :: "run_state \<Rightarrow> bool" where
  "run_ok s \<longleftrightarrow>
     (case run_phase s of
        Panicked \<Rightarrow> False
      | Gone \<Rightarrow> hm_get (sessions (run_registry s)) (info_address (run_info s)) = None \<and>
          inputs (accepted s) = inputs (taken s) @ leftover s \<and> resumed s = leftover s
      | TearingDown \<Rightarrow> own_entry s (\<lambda>e. info_state (entry_info e) = Completing) \<and>
          inputs (accepted s) = inputs (taken s) @ leftover s
      | Drained \<Rightarrow> own_entry s (\<lambda>_. True) \<and> inputs (accepted s) = inputs (taken s) @ leftover s
      | _ \<Rightarrow> own_entry s (\<lambda>_. True) \<and> run_channel s < length (channels (run_registry s)) \<and>
          receiver_alive (channels (run_registry s) ! run_channel s) \<and>
          accepted s = taken s @ waiting_in (run_channel s) (run_registry s))"

fun undisturbed :: "((ustring, resume_point) hmap \<Rightarrow> ustring option) \<Rightarrow> run_state \<Rightarrow> run_event list \<Rightarrow> bool" where
  "undisturbed j s [] = True"
| "undisturbed j s (ev # evs) \<longleftrightarrow>
     ev \<noteq> PanicUnwinds \<and> \<not> (run_phase s = Drained \<and> (\<exists>m. ev = OtherDelivers m)) \<and> undisturbed j (run_step j s ev) evs"

definition in_loop :: "run_phase \<Rightarrow> bool" where
  "in_loop p \<longleftrightarrow> p \<notin> {Panicked, Gone, TearingDown, Drained}"

lemma run_ok_in_loop:
  "in_loop (run_phase s) \<Longrightarrow> run_ok s \<longleftrightarrow>
     own_entry s (\<lambda>_. True) \<and> run_channel s < length (channels (run_registry s)) \<and>
     receiver_alive (channels (run_registry s) ! run_channel s) \<and>
     accepted s = taken s @ waiting_in (run_channel s) (run_registry s)"
  by (cases "run_phase s") (auto simp: in_loop_def run_ok_def)

lemma own_entry_set_state:
  assumes "own_entry s (\<lambda>_. True)"
  shows "own_entry (transition_state st ph s) (\<lambda>e. info_state (entry_info e) = st)"
  using assms by (auto simp: own_entry_def transition_state_def set_state_def map_entry_get)

lemma transition_in_loop:
  assumes "run_ok s" "in_loop (run_phase s)" "in_loop ph"
  shows "run_ok (transition_state st ph s)"
proof -
  have "own_entry (transition_state st ph s) (\<lambda>_. True)"
    using own_entry_set_state [of s st ph] assms(1,2) run_ok_in_loop by (auto simp: own_entry_def)
  then show ?thesis
    using assms run_ok_in_loop [of s] run_ok_in_loop [of "transition_state st ph s"]
    by (simp add: transition_state_def set_state_def waiting_in_def)
qed

lemma rephase_in_loop:
  assumes "run_ok s" "in_loop (run_phase s)" "in_loop ph"
  shows "run_ok (s\<lparr>run_phase := ph\<rparr>)"
  using assms run_ok_in_loop [of s] run_ok_in_loop [of "s\<lparr>run_phase := ph\<rparr>"] by (simp add: own_entry_def)

lemma take_in_loop:
  assumes "run_ok s" "in_loop (run_phase s)" "in_loop ph"
    "try_recv (run_channel s) (run_registry s) = (r, Some m)"
  shows "run_ok (s\<lparr>run_registry := r, taken := taken s @ [m], run_phase := ph\<rparr>)"
proof -
  have s: "run_channel s < length (channels (run_registry s))" "receiver_alive (channels (run_registry s) ! run_channel s)"
    "accepted s = taken s @ waiting_in (run_channel s) (run_registry s)" "own_entry s (\<lambda>_. True)"
    using assms(1,2) run_ok_in_loop by auto
  from s(1,2) show ?thesis
  proof (cases rule: try_recv_cases)
    case (took r' m')
    then have "r' = r" "m' = m" using assms(4) by simp_all
    then show ?thesis
      using took s(3,4) assms(3) run_ok_in_loop [of "s\<lparr>run_registry := r, taken := taken s @ [m], run_phase := ph\<rparr>"]
      by (simp add: own_entry_def)
  qed (use assms(4) in simp)
qed

lemma deliver_in_loop:
  assumes "run_ok s" "in_loop (run_phase s)"
  shows "run_ok (run_step j s (OtherDelivers m))"
proof -
  have s: "run_channel s < length (channels (run_registry s))" "receiver_alive (channels (run_registry s) ! run_channel s)"
    "accepted s = taken s @ waiting_in (run_channel s) (run_registry s)" "own_entry s (\<lambda>_. True)"
    using assms(1,2) run_ok_in_loop by auto
  show ?thesis
  proof (cases "snd (deliver (info_address (run_info s)) m (run_registry s)) = Delivered")
    case True
    then have "fst (deliver (info_address (run_info s)) m (run_registry s)) = (run_registry s)\<lparr>channels :=
        (channels (run_registry s))[run_channel s := (channels (run_registry s) ! run_channel s)
          \<lparr>queued := queued (channels (run_registry s) ! run_channel s) @ [m]\<rparr>]\<rparr>"
      using s(4) by (auto simp: own_entry_def deliver_def channel_try_send_def split: if_splits)
    then show ?thesis
      using True s assms(2) by (simp add: run_step_def case_prod_unfold run_ok_in_loop own_entry_def waiting_in_def)
  next
    case False
    then have "fst (deliver (info_address (run_info s)) m (run_registry s)) = run_registry s"
      using s(4) by (auto simp: own_entry_def deliver_def split: option.splits)
    then have "run_step j s (OtherDelivers m) = s"
      using False by (simp add: run_step_def case_prod_unfold split: deliver_outcome.split)
    then show ?thesis using assms by simp
  qed
qed

lemma deliver_refused:
  assumes "run_ok s" "run_phase s = TearingDown \<or> run_phase s = Gone"
  shows "run_step j s (OtherDelivers m) = s"
proof -
  have "fst (deliver (info_address (run_info s)) m (run_registry s)) = run_registry s \<and>
      snd (deliver (info_address (run_info s)) m (run_registry s)) \<in> {CompletingRun, NotLive}"
    using assms by (auto simp: run_ok_def own_entry_def deliver_def tearing_down_def)
  then show ?thesis by (auto simp: run_step_def case_prod_unfold)
qed

lemma idle_poll_ok:
  assumes "run_ok s" "run_phase s = IdleWait"
  shows "run_ok (idle_poll stopped slept s)"
proof -
  have loop: "in_loop (run_phase s)" using assms(2) by (simp add: in_loop_def)
  have s: "run_channel s < length (channels (run_registry s))" "receiver_alive (channels (run_registry s) ! run_channel s)"
    using assms(1) loop run_ok_in_loop by auto
  show ?thesis
  proof (cases stopped)
    case True
    then show ?thesis using rephase_in_loop [OF assms(1) loop, of LoopLeft]
      by (simp add: idle_poll_def wait_idle_poll_def in_loop_def)
  next
    case False
    from s show ?thesis
    proof (cases rule: try_recv_cases)
      case empty
      have "run_ok (s\<lparr>run_phase := IdleWait\<rparr>)" "run_ok (s\<lparr>run_phase := LoopLeft\<rparr>)"
        by (rule rephase_in_loop [OF assms(1) loop], simp add: in_loop_def)+
      then show ?thesis using False empty by (simp add: idle_poll_def wait_idle_poll_def)
    next
      case (took r m)
      have "run_ok (s\<lparr>run_registry := r, taken := taken s @ [m], run_phase := ph\<rparr>)" if "ph \<in> {IdleWait, LoopLeft, LoopTop}" for ph
        using that by (intro take_in_loop [OF assms(1) loop _ took(1)]) (auto simp: in_loop_def)
      then show ?thesis using False took(1)
        by (cases m) (simp_all add: idle_poll_def wait_idle_poll_def woken_by_def)
    qed
  qed
qed

lemma drain_ok:
  assumes "run_ok s" "run_phase s = LoopLeft"
  shows "run_ok (run_step j s DrainChannel)"
proof -
  have "in_loop (run_phase s)" using assms(2) by (simp add: in_loop_def)
  then have s: "run_channel s < length (channels (run_registry s))" "receiver_alive (channels (run_registry s) ! run_channel s)"
    "accepted s = taken s @ waiting_in (run_channel s) (run_registry s)" "own_entry s (\<lambda>_. True)"
    using assms(1) run_ok_in_loop by auto
  have "length (waiting_in (run_channel s) (run_registry s)) < Suc (length (queued (channels (run_registry s) ! run_channel s)))"
    by (simp add: waiting_in_def)
  from drain_loop_spec [OF s(1,2) this] show ?thesis
    using s(3,4) assms(2) by (auto simp: run_step_def drain_pending_interrupts_def case_prod_unfold run_ok_def own_entry_def)
qed

lemma run_step_ok:
  assumes ok: "run_ok s" and ev: "ev \<noteq> PanicUnwinds" "\<not> (run_phase s = Drained \<and> (\<exists>m. ev = OtherDelivers m))"
  shows "run_ok (run_step j s ev)"
proof (cases ev)
  case (OtherDelivers m)
  then consider "in_loop (run_phase s)" | "run_phase s = TearingDown \<or> run_phase s = Gone"
    using ok ev by (cases "run_phase s") (auto simp: in_loop_def run_ok_def)
  then show ?thesis using OtherDelivers ok deliver_in_loop deliver_refused by cases auto
next
  case TakeInterrupt
  show ?thesis
  proof (cases "run_phase s = InTurn")
    case True
    then have loop: "in_loop (run_phase s)" by (simp add: in_loop_def)
    then have "run_channel s < length (channels (run_registry s))" "receiver_alive (channels (run_registry s) ! run_channel s)"
      using ok run_ok_in_loop by auto
    then show ?thesis
    proof (cases rule: try_recv_cases)
      case empty
      then show ?thesis using TakeInterrupt True ok by (simp add: run_step_def take_interrupt_def)
    next
      case (took r m)
      have eq: "s\<lparr>run_registry := r, taken := taken s @ [m], run_phase := InTurn\<rparr> = s\<lparr>run_registry := r, taken := taken s @ [m]\<rparr>"
        using True by simp
      have "run_ok (s\<lparr>run_registry := r, taken := taken s @ [m], run_phase := InTurn\<rparr>)"
        by (rule take_in_loop [OF ok loop _ took(1)]) (simp add: in_loop_def)
      then have "run_ok (s\<lparr>run_registry := r, taken := taken s @ [m]\<rparr>)" by (simp only: eq)
      then show ?thesis using TakeInterrupt True took(1) by (simp add: run_step_def take_interrupt_def)
    qed
  qed (use TakeInterrupt ok in \<open>simp add: run_step_def\<close>)
next
  case BecomeQueued
  then show ?thesis using ok transition_in_loop [OF ok] by (simp add: run_step_def in_loop_def)
next
  case (PermitOrStop x y)
  then show ?thesis using ok transition_in_loop [OF ok] rephase_in_loop [OF ok] by (simp add: run_step_def in_loop_def)
next
  case (FinishTurn st)
  then show ?thesis using ok rephase_in_loop [OF ok] by (simp add: run_step_def in_loop_def)
next
  case SettleTurn
  then show ?thesis using ok transition_in_loop [OF ok] rephase_in_loop [OF ok]
    by (simp add: run_step_def in_loop_def split: run_phase.split run_status.split)
next
  case (IdlePoll x y)
  then show ?thesis using ok idle_poll_ok by (simp add: run_step_def)
next
  case DrainChannel
  then show ?thesis using ok drain_ok [OF ok] by (cases "run_phase s = LoopLeft") (auto simp: run_step_def)
next
  case BeginTeardown
  show ?thesis
  proof (cases "run_phase s = Drained")
    case True
    then have "own_entry (transition_state Completing TearingDown s) (\<lambda>e. info_state (entry_info e) = Completing)"
      using ok own_entry_set_state by (simp add: run_ok_def)
    then show ?thesis using BeginTeardown True ok by (simp add: run_step_def run_ok_def transition_state_def)
  qed (use BeginTeardown ok in \<open>auto simp: run_step_def run_ok_def\<close>)
next
  case (RecordPoint w now p)
  then show ?thesis using ok
    by (auto simp: run_step_def run_ok_def own_entry_def record_resume_point_def Let_def split: option.split)
next
  case LeaveRegistry
  then show ?thesis using ok
    by (auto simp: run_step_def run_ok_def own_entry_def remove_session_def drop_receiver_def)
qed (use ev in simp)

lemma run_all_ok: "run_ok s \<Longrightarrow> undisturbed j s evs \<Longrightarrow> run_ok (run_all j s evs)"
  by (induction evs arbitrary: s) (auto simp: run_all_def run_step_ok)

lemma start_run_ok: "start_run info stop r = Some s \<Longrightarrow> run_ok s"
  by (auto simp: start_run_def register_def Let_def run_ok_def own_entry_def waiting_in_def split: if_splits)


definition sample_message :: agent_message where
  "sample_message = \<lparr>agent_message_id = [49], message_from = [97], message_from_category = [], agent_message_content = [104],
     message_hops = 1\<rparr>"


text \<open>A message can still be lost: \<open>run_session\<close> drains the channel before \<open>finish_run\<close> marks the run
  \<open>completing\<close>, so a message delivered between the two is answered \<open>Delivered\<close> and then dropped with the
  channel; and a panic drops every message still queued.\<close>

theorem message_lost_at_teardown:
  fixes m :: interrupt and to_json :: "(ustring, resume_point) hmap \<Rightarrow> ustring option"
  defines "s0 \<equiv> the (start_run (sample_info [97] [49]) 0 new_registry)"
  defines "s \<equiv> run_all to_json s0 [BecomeQueued, PermitOrStop False False, FinishTurn RunCompleted, SettleTurn,
      IdlePoll False True, DrainChannel, OtherDelivers m, BeginTeardown, LeaveRegistry]"
  defines "t \<equiv> run_all to_json s0 [BecomeQueued, PermitOrStop False False, OtherDelivers m, PanicUnwinds,
      BeginTeardown, LeaveRegistry]"
  shows "run_phase s = Gone \<and> accepted s = [m] \<and> taken s = [] \<and> resumed s = [] \<and>
    run_phase t = Gone \<and> accepted t = [m] \<and> taken t = [] \<and> resumed t = []"
proof -
  note defs = start_run_def register_def sample_info_def new_registry_def hm_contains_get run_step_def transition_state_def
    set_state_def map_entry_def deliver_def channel_try_send_def tearing_down_def INTERRUPT_CHANNEL_CAPACITY_def
    drain_pending_interrupts_def try_recv_def remove_session_def drop_receiver_def run_all_def idle_poll_def
    wait_idle_poll_def
  have "run_phase s = Gone \<and> accepted s = [m] \<and> taken s = [] \<and> resumed s = []" unfolding s_def s0_def by (simp add: defs)
  moreover have "run_phase t = Gone \<and> accepted t = [m] \<and> taken t = [] \<and> resumed t = []" unfolding t_def s0_def by (simp add: defs)
  ultimately show ?thesis by blast
qed

end
