(* ===== verification/Action_Store.thy ===== *)
theory Action_Store
  imports Session_Messaging Pulse_Scheduler
begin

text \<open>
  Scheduled one-off actions: the store (\<open>crates/proactivity/src/actions/store.rs\<close>, \<open>types.rs\<close>), the tick that
  starts the due ones (\<open>crates/gateway/src/actions.rs\<close>) and the tools that schedule, list and cancel them
  (\<open>crates/tools/src/actions.rs\<close>).

  Whether the bus takes a request, whether the file can be written, the parser of the file, the parsers of a
  time and the model catalog's resolver are arguments. Random ids are arguments too.
\<close>

section \<open>The store\<close>

record scheduled_action =
  action_id :: ustring
  action_name :: ustring
  action_prompt :: ustring
  run_at :: datetime
  action_agent :: "ustring option"
  action_model_tier :: "ustring option"
  created_at :: datetime

record action_store =
  actions :: "scheduled_action list"
  model_problems :: "(ustring, ustring) hmap"

definition generate_action_id :: "u32 \<Rightarrow> ustring" where
  "generate_action_id r = lit ''action-'' @ hex_fixed 8 (unat r)"

definition action_model_of :: "scheduled_action \<Rightarrow> ustring + model_selector" where
  "action_model_of a = (case action_model_tier a of None \<Rightarrow> Inr (Tier Medium) | Some t \<Rightarrow> parse_selector t)"

definition new_empty_store :: action_store where
  "new_empty_store = \<lparr>actions = [], model_problems = []\<rparr>"

definition add_action :: "scheduled_action \<Rightarrow> action_store \<Rightarrow> action_store" where
  "add_action a s = s\<lparr>actions := actions s @ [a]\<rparr>"

definition remove_action :: "ustring \<Rightarrow> action_store \<Rightarrow> action_store \<times> bool" where
  "remove_action i s =
     (let kept = filter (\<lambda>a. action_id a \<noteq> i) (actions s)
      in (s\<lparr>actions := kept\<rparr>, length kept < length (actions s)))"

definition take_due :: "datetime \<Rightarrow> action_store \<Rightarrow> action_store \<times> scheduled_action list" where
  "take_due now s = (s\<lparr>actions := filter (\<lambda>a. now < run_at a) (actions s)\<rparr>, filter (\<lambda>a. run_at a \<le> now) (actions s))"

definition due_actions :: "datetime \<Rightarrow> action_store \<Rightarrow> scheduled_action list" where
  "due_actions now s = filter (\<lambda>a. run_at a \<le> now) (actions s)"

definition action_named :: "ustring \<Rightarrow> action_store \<Rightarrow> scheduled_action option" where
  "action_named i s = List.find (\<lambda>a. action_id a = i) (actions s)"

definition record_model_problems ::
  "(ustring, ustring) hmap \<Rightarrow> action_store \<Rightarrow> action_store \<times> (ustring \<times> ustring \<times> ustring) list" where
  "record_model_problems problems s =
     (s\<lparr>model_problems := problems\<rparr>,
      List.map_filter (\<lambda>(i, reason). map_option (\<lambda>a. (action_name a, i, reason)) (action_named i s))
        (filter (\<lambda>(i, reason). hm_get (model_problems s) i \<noteq> Some reason) problems))"

definition model_problem :: "ustring \<Rightarrow> action_store \<Rightarrow> ustring option" where
  "model_problem i s = hm_get (model_problems s) i"

section \<open>Loading\<close>

definition uses_removed_main_routing :: "scheduled_action \<Rightarrow> bool" where
  "uses_removed_main_routing a =
     (case action_agent a of Some g \<Rightarrow> eq_ignore_ascii_case g (lit ''main'') | None \<Rightarrow> False)"

record rejected_action =
  rejected_id :: ustring
  rejected_name :: ustring

definition reject_agent_main :: "scheduled_action list \<Rightarrow> scheduled_action list \<times> rejected_action list" where
  "reject_agent_main as =
     (filter (\<lambda>a. \<not> uses_removed_main_routing a) as,
      map (\<lambda>a. \<lparr>rejected_id = action_id a, rejected_name = action_name a\<rparr>) (filter uses_removed_main_routing as))"

text \<open>What a load leaves: the store, what it dropped, and where the damaged file was moved (\<open>moved\<close> is the path, when
  the rename succeeds). \<open>Inl\<close>: the file is untouched and nothing is loaded.\<close>

definition load_store ::
  "(ustring \<Rightarrow> scheduled_action list option) \<Rightarrow> ustring option \<Rightarrow> points_file \<Rightarrow>
   unit + (action_store \<times> rejected_action list \<times> ustring option)" where
  "load_store parse moved file =
     (case file of
        ReadContents c \<Rightarrow>
          (case parse c of
             Some as \<Rightarrow>
               (case reject_agent_main as of
                  (kept, rejected) \<Rightarrow> Inr (\<lparr>actions = kept, model_problems = []\<rparr>, rejected, None))
           | None \<Rightarrow>
               (case moved of Some p \<Rightarrow> Inr (new_empty_store, [], Some p) | None \<Rightarrow> Inl ()))
      | ReadMissing \<Rightarrow> Inr (new_empty_store, [], None)
      | ReadFailed \<Rightarrow> Inl ())"

definition read_pending ::
  "(ustring \<Rightarrow> scheduled_action list option) \<Rightarrow> points_file \<Rightarrow> unit + scheduled_action list" where
  "read_pending parse file =
     (case file of
        ReadMissing \<Rightarrow> Inr []
      | ReadFailed \<Rightarrow> Inl ()
      | ReadContents c \<Rightarrow>
          (case parse c of
             None \<Rightarrow> Inl ()
           | Some as \<Rightarrow> Inr (filter (\<lambda>a. \<not> uses_removed_main_routing a) as)))"

definition rejected_actions_notice :: "rejected_action list \<Rightarrow> ustring" where
  "rejected_actions_notice rs =
     lit ''Dropped '' @ show_nat (length rs) @ lit '' scheduled action'' @ (if length rs = 1 then [] else lit ''s'') @
     lit '' using the removed agent: '' @ quote_char @ lit ''main'' @ quote_char @
     lit '' routing (every session now carries the main agent's identity automatically, so this option is gone):'' @ [10] @
     concat_with [10] (map (\<lambda>a. lit ''- '' @ quote_char @ rejected_name a @ quote_char @ lit '' (id '' @ rejected_id a @ lit '')'') rs) @
     [10] @ lit ''Re-create with a skill name, or without agent_name, if still needed. See '' @ MIGRATION_GUIDE_URL @ lit ''.''"

definition corrupt_actions_notice :: "ustring \<Rightarrow> ustring" where
  "corrupt_actions_notice p =
     lit ''Your scheduled reminders file was damaged and couldn't be read, so I moved it aside to '' @
     quote_char @ p @ quote_char @ lit '' and started fresh'' @ em_dash @
     lit ''new scheduled reminders and actions will work normally. '' @
     lit ''Anything that was scheduled before this happened will not run automatically anymore; '' @
     lit ''you can look inside that file if you want to recreate any of it by hand.''"

section \<open>The tick\<close>

record held_model =
  held_reason :: ustring
  fixable_by_provider :: bool

definition remedy :: "held_model \<Rightarrow> ustring" where
  "remedy h =
     (if fixable_by_provider h then
        lit ''It stays scheduled and starts as soon as its model works'' @ em_dash @
        lit ''add the provider to providers.toml, or cancel the action and schedule it again with a different model.''
      else
        lit ''It won't run as scheduled'' @ em_dash @
        lit ''cancel it in the Schedule place and schedule it again with a tier (small, medium, or large) or a provider/model id.'')"

definition action_model :: "(ustring \<Rightarrow> ustring + unit) \<Rightarrow> scheduled_action \<Rightarrow> held_model + model_selector" where
  "action_model resolve a =
     (case action_model_of a of
        Inl e \<Rightarrow> Inl \<lparr>held_reason = e, fixable_by_provider = False\<rparr>
      | Inr m \<Rightarrow>
          (case catalog_check resolve m of
             Inl e \<Rightarrow> Inl \<lparr>held_reason = e, fixable_by_provider = True\<rparr>
           | Inr _ \<Rightarrow> Inr m))"

definition action_spawn :: "16 word \<Rightarrow> scheduled_action \<Rightarrow> model_selector \<Rightarrow> spawn_request" where
  "action_spawn tag a m =
     \<lparr>spawn_address = generate_address ActionTrigger (action_name a) tag, spawn_skill = action_agent a,
      spawn_source_label = lit ''action:'' @ action_name a, spawn_prompt = action_prompt a, spawn_context = None,
      spawn_source = ActionTrigger, spawn_model = m, spawn_spawner = None, spawn_depth = MAIN_DEPTH + 1, spawn_hops = 0,
      spawn_sender = None, spawn_conversation = None, spawn_inbound = None, spawn_images = [], spawn_overlap = None,
      spawn_fire_id = None, spawn_carried_history = [], spawn_messages = [], spawn_chat_messages = []\<rparr>"

definition held_notice :: "ustring \<times> ustring \<times> ustring \<Rightarrow> (ustring, ustring) hmap \<Rightarrow> ustring" where
  "held_notice p remedies =
     (case p of (name, i, reason) \<Rightarrow>
       lit ''The scheduled action '' @ quote_char @ name @ quote_char @ lit '' (id '' @ i @ lit '') can't run: '' @ reason @
       lit ''. '' @ (case hm_get remedies i of Some r \<Rightarrow> r | None \<Rightarrow> []))"

text \<open>The three maps the tick fills while it goes through the pending actions, in their order.\<close>

fun sort_actions ::
  "(ustring \<Rightarrow> ustring + unit) \<Rightarrow> scheduled_action list \<Rightarrow>
   (ustring, model_selector) hmap \<times> (ustring, ustring) hmap \<times> (ustring, ustring) hmap \<Rightarrow>
   (ustring, model_selector) hmap \<times> (ustring, ustring) hmap \<times> (ustring, ustring) hmap" where
  "sort_actions resolve [] maps = maps"
| "sort_actions resolve (a # as) (runnable, problems, remedies) =
     sort_actions resolve as
       (case action_model resolve a of
          Inr m \<Rightarrow> (hm_insert (action_id a) m runnable, problems, remedies)
        | Inl h \<Rightarrow> (runnable, hm_insert (action_id a) (held_reason h) problems, hm_insert (action_id a) (remedy h) remedies))"

text \<open>The due actions that can run: \<open>runnable.remove\<close> hands each model out once.\<close>

fun claim_runnable ::
  "(ustring, model_selector) hmap \<Rightarrow> scheduled_action list \<Rightarrow> (scheduled_action \<times> model_selector) list" where
  "claim_runnable runnable [] = []"
| "claim_runnable runnable (a # as) =
     (case hm_get runnable (action_id a) of
        None \<Rightarrow> claim_runnable runnable as
      | Some m \<Rightarrow> (a, m) # claim_runnable (hm_remove (action_id a) runnable) as)"

record tick_result =
  tick_store :: action_store
  notices :: "ustring list"
  requests :: "(scheduled_action \<times> spawn_request) list" \<comment> \<open>the requests the bus took, and for which action\<close>
  saves :: bool

definition remove_started :: "action_store \<Rightarrow> scheduled_action \<times> spawn_request \<Rightarrow> action_store" where
  "remove_started s p = fst (remove_action (action_id (fst p)) s)"

definition spawn_due_actions ::
  "(ustring \<Rightarrow> ustring + unit) \<Rightarrow> (spawn_request \<Rightarrow> bool) \<Rightarrow> (scheduled_action \<Rightarrow> 16 word) \<Rightarrow> datetime \<Rightarrow> action_store \<Rightarrow> tick_result" where
  "spawn_due_actions resolve bus tag now s =
     (case sort_actions resolve (actions s) ([], [], []) of
        (runnable, problems, remedies) \<Rightarrow>
          (case record_model_problems problems s of
             (s1, fresh) \<Rightarrow>
               (let due = claim_runnable runnable (due_actions now s1);
                    started = filter (\<lambda>(a, q). bus q) (map (\<lambda>(a, m). (a, action_spawn (tag a) a m)) due);
                    s2 = foldl remove_started s1 started
                in \<lparr>tick_store = s2, notices = map (\<lambda>p. held_notice p remedies) fresh, requests = started,
                    saves = (started \<noteq> [])\<rparr>)))"

section \<open>The tools\<close>

datatype tool_error = InvalidArguments ustring | ExecutionError ustring

record time_parsers =
  parse_rfc3339 :: "ustring \<Rightarrow> datetime option"
  parse_naive_seconds :: "ustring \<Rightarrow> datetime option"
  parse_naive_minutes :: "ustring \<Rightarrow> datetime option"
  show_naive :: "datetime \<Rightarrow> ustring"
  zone_name :: ustring

definition single_quoted :: "ustring \<Rightarrow> ustring" where "single_quoted s = [39] @ s @ [39]"

definition naive_to_utc :: "time_parsers \<Rightarrow> timezone \<Rightarrow> datetime \<Rightarrow> tool_error + datetime" where
  "naive_to_utc ps tz l =
     (case from_local tz l of
        SingleTime i \<Rightarrow> Inr i
      | AmbiguousTime i _ \<Rightarrow> Inr i
      | NoSuchTime \<Rightarrow> Inl (InvalidArguments (lit ''datetime '' @ single_quoted (show_naive ps l) @
          lit '' does not exist in timezone '' @ zone_name ps @ lit '' (DST gap)'')))"

definition parse_run_at :: "time_parsers \<Rightarrow> timezone \<Rightarrow> ustring \<Rightarrow> tool_error + datetime" where
  "parse_run_at ps tz s =
     (case parse_rfc3339 ps s of
        Some i \<Rightarrow> Inr i
      | None \<Rightarrow>
          (case parse_naive_seconds ps s of
             Some l \<Rightarrow> naive_to_utc ps tz l
           | None \<Rightarrow>
               (case parse_naive_minutes ps s of
                  Some l \<Rightarrow> naive_to_utc ps tz l
                | None \<Rightarrow> Inl (InvalidArguments (lit ''invalid run_at datetime '' @ single_quoted s @
                    lit '': expected ISO 8601 (e.g. '' @ single_quoted (lit ''2026-03-01T09:00:00'') @ lit '' or '' @
                    single_quoted (lit ''2026-03-01T09:00:00Z'') @ lit '')'')))))"

text \<open>The arguments of \<open>schedule_action\<close>, each a JSON value when the call has it.\<close>

definition require_str :: "ustring \<Rightarrow> json \<Rightarrow> tool_error + ustring" where
  "require_str k j =
     (case json_str (json_get k j) of Some s \<Rightarrow> Inr s | None \<Rightarrow> Inl (InvalidArguments (k @ lit '' is required'')))"

definition checked_tier :: "(ustring \<Rightarrow> ustring + unit) \<Rightarrow> json \<Rightarrow> tool_error + ustring option" where
  "checked_tier resolve j =
     (case json_str (json_get (lit ''model_tier'') j) of
        None \<Rightarrow> Inr None
      | Some raw \<Rightarrow>
          (case parse_selector raw of
             Inl e \<Rightarrow> Inl (InvalidArguments e)
           | Inr m \<Rightarrow>
               (case catalog_check resolve m of
                  Inl e \<Rightarrow> Inl (InvalidArguments e)
                | Inr _ \<Rightarrow> Inr (Some (show_selector m)))))"

definition names_main :: "ustring option \<Rightarrow> bool" where
  "names_main g = (case g of Some g \<Rightarrow> eq_ignore_ascii_case g (lit ''main'') | None \<Rightarrow> False)"

text \<open>What a tool leaves: the store, whether the file was written, whether the loop is woken, and its answer.\<close>

definition schedule_action ::
  "time_parsers \<Rightarrow> timezone \<Rightarrow> (ustring \<Rightarrow> ustring + unit) \<Rightarrow> bool \<Rightarrow> datetime \<Rightarrow> u32 \<Rightarrow> json \<Rightarrow> action_store \<Rightarrow>
   action_store \<times> bool \<times> (tool_error + ustring)" where
  "schedule_action ps tz resolve written now r j s =
     (case bind_result (require_str (lit ''name'') j) (\<lambda>name.
           bind_result (require_str (lit ''prompt'') j) (\<lambda>p.
           bind_result (require_str (lit ''run_at'') j) (\<lambda>at_text.
           bind_result (parse_run_at ps tz at_text) (\<lambda>t.
           if t \<le> now then Inl (InvalidArguments (lit ''run_at must be in the future''))
           else
             (let g = json_str (json_get (lit ''agent_name'') j) in
              if names_main g then
                Inl (InvalidArguments (lit ''main is not a valid agent_name; every session fork already carries the main agent's identity and memory snapshot, so name a skill instead, or omit agent_name to run on the prompt alone.''))
              else
                bind_result (checked_tier resolve j) (\<lambda>tier.
                  Inr \<lparr>action_id = generate_action_id r, action_name = name, action_prompt = p, run_at = t,
                    action_agent = g, action_model_tier = tier, created_at = now\<rparr>)))))) of
        Inl e \<Rightarrow> (s, False, Inl e)
      | Inr a \<Rightarrow>
          if written then (add_action a s, True, Inr (action_id a))
          else (add_action a s, False, Inl (ExecutionError (lit ''failed to save action store''))))"

datatype cancel_answer = NotFound | CancelledAction | SaveFailed

definition cancel_action :: "bool \<Rightarrow> ustring \<Rightarrow> action_store \<Rightarrow> action_store \<times> bool \<times> cancel_answer" where
  "cancel_action written i s =
     (case remove_action i s of
        (s', False) \<Rightarrow> (s', False, NotFound)
      | (s', True) \<Rightarrow> if written then (s', True, CancelledAction) else (s', False, SaveFailed))"

definition list_line :: "(datetime \<Rightarrow> ustring) \<Rightarrow> action_store \<Rightarrow> scheduled_action \<Rightarrow> ustring" where
  "list_line show_local s a =
     lit ''  '' @ action_name a @ lit '' ('' @ action_id a @ lit '')'' @ em_dash @ lit ''fires: '' @ show_local (run_at a) @
     (case action_agent a of Some g \<Rightarrow> lit '' [skill: '' @ g @ lit '']'' | None \<Rightarrow> []) @
     (case action_model_tier a of Some m \<Rightarrow> lit '' [model: '' @ m @ lit '']'' | None \<Rightarrow> []) @
     (case model_problem (action_id a) s of Some r \<Rightarrow> em_dash @ lit ''held, not running: '' @ r | None \<Rightarrow> [])"

definition list_actions :: "(datetime \<Rightarrow> ustring) \<Rightarrow> action_store \<Rightarrow> ustring" where
  "list_actions show_local s =
     (if actions s = [] then lit ''No pending scheduled actions.''
      else concat_with [10] ((show_nat (length (actions s)) @ lit '' action(s):'') # map (list_line show_local s) (actions s)))"

section \<open>What a tick starts\<close>

lemma find_id: "distinct (map action_id as) \<Longrightarrow> a \<in> set as \<Longrightarrow> List.find (\<lambda>b. action_id b = action_id a) as = Some a"
  by (induction as) auto

lemma find_id_None: "List.find (\<lambda>b. action_id b = i) as = None \<longleftrightarrow> i \<notin> action_id ` set as"
  by (induction as) auto

lemma sort_runnable:
  "distinct (map action_id as) \<Longrightarrow>
   hm_get (fst (sort_actions resolve as (R, P, M))) i =
     (case List.find (\<lambda>a. action_id a = i) as of
        Some a \<Rightarrow> (case action_model resolve a of Inr m \<Rightarrow> Some m | Inl _ \<Rightarrow> hm_get R i)
      | None \<Rightarrow> hm_get R i)"
proof (induction as arbitrary: R P M)
  case (Cons a as)
  have "i = action_id a \<Longrightarrow> List.find (\<lambda>a. action_id a = i) as = None" using Cons.prems find_id_None by force
  then show ?case using Cons by (auto split: sum.split option.split)
qed simp

lemma sort_problems_get:
  "distinct (map action_id as) \<Longrightarrow>
   hm_get (fst (snd (sort_actions resolve as (R, P, M)))) i =
     (case List.find (\<lambda>a. action_id a = i) as of
        Some a \<Rightarrow> (case action_model resolve a of Inl h \<Rightarrow> Some (held_reason h) | Inr _ \<Rightarrow> hm_get P i)
      | None \<Rightarrow> hm_get P i)"
proof (induction as arbitrary: R P M)
  case (Cons a as)
  have "i = action_id a \<Longrightarrow> List.find (\<lambda>a. action_id a = i) as = None" using Cons.prems find_id_None by force
  then show ?case using Cons by (auto split: sum.split option.split)
qed simp

lemma sort_problems_wf: "hm_wf P \<Longrightarrow> hm_wf (fst (snd (sort_actions resolve as (R, P, M))))"
  by (induction as arbitrary: R P M) (auto split: sum.split)

lemma claim_runnable_eq:
  "distinct (map action_id as) \<Longrightarrow>
   claim_runnable R as = List.map_filter (\<lambda>a. map_option (Pair a) (hm_get R (action_id a))) as"
proof (induction as arbitrary: R)
  case (Cons a as)
  have same: "List.map_filter (\<lambda>a. map_option (Pair a) (hm_get (hm_remove (action_id a') R) (action_id a))) as =
      List.map_filter (\<lambda>a. map_option (Pair a) (hm_get R (action_id a))) as" if "action_id a' \<notin> action_id ` set as" for a'
    using that by (induction as) (auto simp: map_filter_simps split: option.split)
  have "action_id a \<notin> action_id ` set as" "distinct (map action_id as)" using Cons.prems by auto
  then show ?case using same [of a] by (simp add: Cons.IH map_filter_simps split: option.split)
qed (simp add: map_filter_simps)

lemma remove_all:
  "actions (foldl remove_started s ps) = filter (\<lambda>a. action_id a \<notin> (action_id \<circ> fst) ` set ps) (actions s) \<and>
   model_problems (foldl remove_started s ps) = model_problems s"
proof (induction ps arbitrary: s)
  case (Cons p ps)
  have "actions (remove_started s p) = filter (\<lambda>a. action_id a \<noteq> action_id (fst p)) (actions s)"
    "model_problems (remove_started s p) = model_problems s"
    by (simp_all add: remove_started_def remove_action_def Let_def)
  then show ?case using Cons [of "remove_started s p"] by (auto intro: filter_cong)
qed simp

text \<open>Whether this tick starts an action: it is due, its model runs, and the bus takes its request.\<close>

definition starts ::
  "(ustring \<Rightarrow> ustring + unit) \<Rightarrow> (spawn_request \<Rightarrow> bool) \<Rightarrow> (scheduled_action \<Rightarrow> 16 word) \<Rightarrow> datetime \<Rightarrow> scheduled_action \<Rightarrow> bool" where
  "starts resolve bus tag now a \<longleftrightarrow>
     run_at a \<le> now \<and> (case action_model resolve a of Inr m \<Rightarrow> bus (action_spawn (tag a) a m) | Inl _ \<Rightarrow> False)"

definition runnable_request ::
  "(ustring \<Rightarrow> ustring + unit) \<Rightarrow> (scheduled_action \<Rightarrow> 16 word) \<Rightarrow> scheduled_action \<Rightarrow> (scheduled_action \<times> spawn_request) option" where
  "runnable_request resolve tag a =
     (case action_model resolve a of Inr m \<Rightarrow> Some (a, action_spawn (tag a) a m) | Inl _ \<Rightarrow> None)"

lemma taken_requests:
  "filter (\<lambda>(a, q). bus q) (List.map_filter (runnable_request resolve tag) (filter (\<lambda>a. run_at a \<le> now) as)) =
   List.map_filter (runnable_request resolve tag) (filter (starts resolve bus tag now) as)"
  by (induction as) (auto simp: map_filter_simps starts_def runnable_request_def split: sum.splits)

lemma tick_requests:
  assumes "distinct (map action_id (actions s))"
  shows "requests (spawn_due_actions resolve bus tag now s) =
      List.map_filter (runnable_request resolve tag) (filter (starts resolve bus tag now) (actions s))"
proof -
  let ?R = "fst (sort_actions resolve (actions s) ([], [], []))"
  have R: "hm_get ?R (action_id a) = (case action_model resolve a of Inr m \<Rightarrow> Some m | Inl _ \<Rightarrow> None)" if "a \<in> set (actions s)" for a
    using sort_runnable [OF assms, of resolve "[]" "[]" "[]" "action_id a"] find_id [OF assms that] by (simp split: sum.split)
  have due: "distinct (map action_id (due_actions now s))"
    using assms by (simp add: due_actions_def distinct_map_filter)
  have claimed: "map (\<lambda>(a, m). (a, action_spawn (tag a) a m)) (claim_runnable ?R (due_actions now s)) =
      List.map_filter (runnable_request resolve tag) (due_actions now s)"
  proof -
    have "map (\<lambda>(a, m). (a, action_spawn (tag a) a m)) (List.map_filter (\<lambda>a. map_option (Pair a) (hm_get ?R (action_id a))) as) =
        List.map_filter (runnable_request resolve tag) as" if "set as \<subseteq> set (actions s)" for as
      using that by (induction as) (auto simp: map_filter_simps R runnable_request_def split: sum.split)
    moreover have "set (due_actions now s) \<subseteq> set (actions s)" by (auto simp: due_actions_def)
    ultimately show ?thesis by (simp add: claim_runnable_eq [OF due])
  qed
  have "filter (\<lambda>(a, q). bus q) (List.map_filter (runnable_request resolve tag) (due_actions now s)) =
      List.map_filter (runnable_request resolve tag) (filter (starts resolve bus tag now) (actions s))"
    unfolding due_actions_def by (rule taken_requests)
  then show ?thesis
    using claimed by (simp add: spawn_due_actions_def case_prod_unfold record_model_problems_def Let_def due_actions_def)
qed

lemma started_actions: "map fst (List.map_filter (runnable_request resolve tag) (filter (starts resolve bus tag now) as)) =
    filter (starts resolve bus tag now) as"
  by (induction as) (auto simp: map_filter_simps starts_def runnable_request_def split: sum.splits)

lemma tick_leaves:
  assumes "distinct (map action_id (actions s))"
  shows "actions (tick_store (spawn_due_actions resolve bus tag now s)) =
      filter (\<lambda>a. \<not> starts resolve bus tag now a) (actions s)"
proof -
  let ?ps = "requests (spawn_due_actions resolve bus tag now s)"
  have "actions (tick_store (spawn_due_actions resolve bus tag now s)) =
      filter (\<lambda>a. action_id a \<notin> (action_id \<circ> fst) ` set ?ps) (actions s)"
    by (simp add: spawn_due_actions_def case_prod_unfold record_model_problems_def Let_def remove_all)
  moreover have "(action_id \<circ> fst) ` set ?ps = action_id ` set (filter (starts resolve bus tag now) (actions s))"
    using arg_cong [OF started_actions, of set] tick_requests [OF assms] by (metis image_comp set_map)
  moreover have "action_id a \<in> action_id ` set (filter (starts resolve bus tag now) (actions s)) \<longleftrightarrow> starts resolve bus tag now a"
    if "a \<in> set (actions s)" for a
    using that assms by (auto simp: distinct_map inj_on_def)
  ultimately show ?thesis by (auto intro: filter_cong)
qed

text \<open>A tick starts exactly the actions that are due, whose model runs and whose request the bus takes, in
  their order and each with a request for its own prompt, skill and model; exactly those leave the store,
  and every other action stays as it was, to be considered again.\<close>

theorem tick_starts_exactly_the_runnable:
  assumes "distinct (map action_id (actions s))"
  shows "map fst (requests (spawn_due_actions resolve bus tag now s)) = filter (starts resolve bus tag now) (actions s) \<and>
    (\<forall>(a, q)\<in>set (requests (spawn_due_actions resolve bus tag now s)).
       \<exists>m. action_model resolve a = Inr m \<and> q = action_spawn (tag a) a m \<and> bus q) \<and>
    actions (tick_store (spawn_due_actions resolve bus tag now s)) =
      filter (\<lambda>a. \<not> starts resolve bus tag now a) (actions s) \<and>
    (saves (spawn_due_actions resolve bus tag now s) \<longleftrightarrow> (\<exists>a\<in>set (actions s). starts resolve bus tag now a))"
proof (intro conjI)
  show "map fst (requests (spawn_due_actions resolve bus tag now s)) = filter (starts resolve bus tag now) (actions s)"
    unfolding tick_requests [OF assms] by (rule started_actions)
  then have "requests (spawn_due_actions resolve bus tag now s) \<noteq> [] \<longleftrightarrow> (\<exists>a\<in>set (actions s). starts resolve bus tag now a)"
    by (metis filter_empty_conv map_is_Nil_conv)
  then show "saves (spawn_due_actions resolve bus tag now s) \<longleftrightarrow> (\<exists>a\<in>set (actions s). starts resolve bus tag now a)"
    by (simp add: spawn_due_actions_def case_prod_unfold record_model_problems_def Let_def)
  show "\<forall>(a, q)\<in>set (requests (spawn_due_actions resolve bus tag now s)).
      \<exists>m. action_model resolve a = Inr m \<and> q = action_spawn (tag a) a m \<and> bus q"
    unfolding tick_requests [OF assms]
    by (auto simp: map_filter_def starts_def runnable_request_def split: sum.splits)
qed (rule tick_leaves [OF assms])

definition sample_action :: "nat \<Rightarrow> datetime \<Rightarrow> scheduled_action" where
  "sample_action k t = \<lparr>action_id = [k], action_name = [97], action_prompt = [112], run_at = t, action_agent = None,
     action_model_tier = None, created_at = 0\<rparr>"

lemma tick_starts_exactly_the_runnable_witness:
  "map fst (requests (spawn_due_actions (\<lambda>_. Inr ()) (\<lambda>_. True) (\<lambda>_. 0) 5
      \<lparr>actions = [sample_action 1 4, sample_action 2 6], model_problems = []\<rparr>)) = [sample_action 1 4]"
proof -
  have d: "distinct (map action_id (actions \<lparr>actions = [sample_action 1 4, sample_action 2 6], model_problems = []\<rparr>))"
    by (simp add: sample_action_def)
  show ?thesis
    unfolding tick_starts_exactly_the_runnable [OF d, THEN conjunct1]
    by (simp add: starts_def action_model_def action_model_of_def catalog_check_def sample_action_def)
qed

section \<open>Every action runs once\<close>

datatype action_op =
    TickAt datetime "ustring \<Rightarrow> ustring + unit" "spawn_request \<Rightarrow> bool" "scheduled_action \<Rightarrow> 16 word"
  | ScheduleNew scheduled_action
  | CancelId ustring

datatype action_out = StartedNow "scheduled_action list" | Scheduled | CancelledNow "scheduled_action list"

definition action_step :: "action_store \<Rightarrow> action_op \<Rightarrow> action_store \<times> action_out" where
  "action_step s op =
     (case op of
        TickAt now resolve bus tag \<Rightarrow>
          (let t = spawn_due_actions resolve bus tag now s in (tick_store t, StartedNow (map fst (requests t))))
      | ScheduleNew a \<Rightarrow> (add_action a s, Scheduled)
      | CancelId i \<Rightarrow> (fst (remove_action i s), CancelledNow (filter (\<lambda>a. action_id a = i) (actions s))))"

fun op_adds :: "action_op \<Rightarrow> scheduled_action list" where
  "op_adds (ScheduleNew a) = [a]" | "op_adds _ = []"

fun out_started :: "action_out \<Rightarrow> scheduled_action list" where
  "out_started (StartedNow as) = as" | "out_started _ = []"

fun out_cancelled :: "action_out \<Rightarrow> scheduled_action list" where
  "out_cancelled (CancelledNow as) = as" | "out_cancelled _ = []"

lemma mset_split: "mset as = mset (filter P as) + mset (filter (\<lambda>a. \<not> P a) as)"
  by (induction as) auto

lemma action_step_conserves:
  assumes "distinct (map action_id (actions s))"
  shows "mset (actions s) + mset (op_adds op) =
      mset (actions (fst (action_step s op))) + mset (out_started (snd (action_step s op))) +
      mset (out_cancelled (snd (action_step s op)))"
proof (cases op)
  case (TickAt now resolve bus tag)
  have "actions (fst (action_step s op)) = filter (\<lambda>a. \<not> starts resolve bus tag now a) (actions s)"
    using tick_leaves [OF assms] by (simp add: TickAt action_step_def Let_def)
  moreover have "out_started (snd (action_step s op)) = filter (starts resolve bus tag now) (actions s)"
    using tick_requests [OF assms] started_actions by (simp add: TickAt action_step_def Let_def)
  moreover have "op_adds op = []" "out_cancelled (snd (action_step s op)) = []"
    by (simp_all add: TickAt action_step_def Let_def)
  ultimately show ?thesis
    using mset_split [of "actions s" "starts resolve bus tag now"] by (simp only: mset.simps add_0_right add.commute)
next
  case (CancelId i)
  have "actions (fst (action_step s op)) = filter (\<lambda>a. action_id a \<noteq> i) (actions s)"
    "out_cancelled (snd (action_step s op)) = filter (\<lambda>a. action_id a = i) (actions s)"
    "op_adds op = []" "out_started (snd (action_step s op)) = []"
    by (simp_all add: CancelId action_step_def remove_action_def Let_def)
  then show ?thesis
    using mset_split [of "actions s" "\<lambda>a. action_id a = i"] by (simp only: mset.simps add_0_right add_0 add.commute)
qed (simp add: action_step_def add_action_def)

lemma step_distinct:
  assumes "distinct (map action_id (actions s @ op_adds op @ as))"
  shows "distinct (map action_id (actions (fst (action_step s op)) @ as))"
proof -
  let ?s = "fst (action_step s op)" and ?o = "snd (action_step s op)"
  have "distinct (map action_id (actions s))" using assms by simp
  have "mset (actions s @ op_adds op @ as) = (mset (actions s) + mset (op_adds op)) + mset as" by simp
  also have "\<dots> = mset (actions ?s @ as @ out_started ?o @ out_cancelled ?o)"
    unfolding action_step_conserves [OF \<open>distinct (map action_id (actions s))\<close>, of op] by simp
  finally have "mset (map action_id (actions s @ op_adds op @ as)) =
      mset (map action_id (actions ?s @ as @ out_started ?o @ out_cancelled ?o))" by (metis mset_map)
  from mset_eq_imp_distinct_iff [OF this] assms show ?thesis by (simp add: Int_Un_distrib)
qed

lemma run_conserves:
  "distinct (map action_id (actions s @ concat (map op_adds ops))) \<Longrightarrow>
   mset (actions s) + mset (concat (map op_adds ops)) =
     mset (actions (fst (run_machine action_step s ops))) +
     mset (concat (map out_started (snd (run_machine action_step s ops)))) +
     mset (concat (map out_cancelled (snd (run_machine action_step s ops))))"
proof (induction ops arbitrary: s)
  case (Cons op ops)
  have d: "distinct (map action_id (actions s))" using Cons.prems by simp
  have "distinct (map action_id (actions (fst (action_step s op)) @ concat (map op_adds ops)))"
    using Cons.prems by (intro step_distinct) simp
  note IH = Cons.IH [OF this]
  have "mset (actions s) + mset (concat (map op_adds (op # ops))) =
      (mset (actions s) + mset (op_adds op)) + mset (concat (map op_adds ops))" by simp
  also have "\<dots> = (mset (actions (fst (action_step s op))) + mset (concat (map op_adds ops))) +
      mset (out_started (snd (action_step s op))) + mset (out_cancelled (snd (action_step s op)))"
    unfolding action_step_conserves [OF d, of op] by simp
  finally show ?case unfolding IH by simp
qed simp

lemma run_starts_in_time:
  "distinct (map action_id (actions s @ concat (map op_adds ops))) \<Longrightarrow>
   \<forall>(op, out)\<in>set (zip ops (snd (run_machine action_step s ops))).
     \<forall>now resolve bus tag. op = TickAt now resolve bus tag \<longrightarrow>
       (\<forall>a\<in>set (out_started out). run_at a \<le> now \<and> (\<exists>m. action_model resolve a = Inr m))"
proof (induction ops arbitrary: s)
  case (Cons op ops)
  have d: "distinct (map action_id (actions s))" using Cons.prems by simp
  have "distinct (map action_id (actions (fst (action_step s op)) @ concat (map op_adds ops)))"
    using Cons.prems by (intro step_distinct) simp
  note IH = Cons.IH [OF this]
  have "run_at a \<le> now \<and> (\<exists>m. action_model resolve a = Inr m)"
    if "op = TickAt now resolve bus tag" "a \<in> set (out_started (snd (action_step s op)))" for now resolve bus tag a
  proof -
    have "a \<in> set (filter (starts resolve bus tag now) (actions s))"
      using that tick_requests [OF d] started_actions by (simp add: action_step_def Let_def del: set_filter)
    then show ?thesis by (auto simp: starts_def split: sum.splits)
  qed
  then show ?case using IH by auto
qed simp



text \<open>Two pending actions with one id: the tick starts the first and removes both, so the second never runs.\<close>

lemma same_id_is_dropped_unrun:
  assumes "action_id a = action_id b" "run_at a \<le> now" "run_at b \<le> now"
    "action_model resolve a = Inr m" "action_model resolve b = Inr n"
  shows "length (requests (spawn_due_actions resolve (\<lambda>_. True) tag now \<lparr>actions = [a, b], model_problems = []\<rparr>)) = 1 \<and>
    actions (tick_store (spawn_due_actions resolve (\<lambda>_. True) tag now \<lparr>actions = [a, b], model_problems = []\<rparr>)) = []"
  using assms by (simp add: spawn_due_actions_def record_model_problems_def due_actions_def remove_started_def
      remove_action_def Let_def)

section \<open>A held action is reported once\<close>

lemma held_problems:
  assumes "distinct (map action_id (actions s))"
  shows "model_problem i (tick_store (spawn_due_actions resolve bus tag now s)) =
    (case action_named i s of Some a \<Rightarrow> (case action_model resolve a of Inl h \<Rightarrow> Some (held_reason h) | Inr _ \<Rightarrow> None) | None \<Rightarrow> None)"
  using sort_problems_get [OF assms, of resolve "[]" "[]" "[]" i]
  by (simp add: spawn_due_actions_def case_prod_unfold record_model_problems_def Let_def remove_all model_problem_def
      action_named_def split: option.split sum.split)

text \<open>An action whose model can't run is never started; the tick remembers its reason, and the owner hears of
  it once: the next tick gives notice only of problems that are new or have another reason, so none while
  nothing changes.\<close>

theorem held_action_is_reported_once:
  fixes s :: action_store and resolve :: "ustring \<Rightarrow> ustring + unit" and bus :: "spawn_request \<Rightarrow> bool"
    and tag :: "scheduled_action \<Rightarrow> 16 word" and now :: datetime
  assumes "distinct (map action_id (actions s))"
  defines "t \<equiv> spawn_due_actions resolve bus tag now s"
  shows "(\<forall>a\<in>set (actions s). \<forall>h. action_model resolve a = Inl h \<longrightarrow>
      a \<in> set (actions (tick_store t)) \<and> model_problem (action_id a) (tick_store t) = Some (held_reason h)) \<and>
    (\<forall>bus' tag' now'. notices (spawn_due_actions resolve bus' tag' now' (tick_store t)) = [])"
proof (intro conjI ballI allI impI)
  fix a h assume a: "a \<in> set (actions s)" "action_model resolve a = Inl h"
  then show "a \<in> set (actions (tick_store t))" unfolding t_def tick_leaves [OF assms(1)] by (simp add: starts_def)
  have "action_named (action_id a) s = Some a" using find_id [OF assms(1) a(1)] by (simp add: action_named_def)
  then show "model_problem (action_id a) (tick_store t) = Some (held_reason h)"
    using a(2) by (simp add: t_def held_problems [OF assms(1)])
next
  fix bus' tag' now'
  let ?s = "tick_store t"
  let ?P = "fst (snd (sort_actions resolve (actions ?s) ([], [], [])))"
  have d: "distinct (map action_id (actions ?s))"
    unfolding t_def tick_leaves [OF assms(1)] using assms(1) by (simp add: distinct_map_filter)
  have "hm_get (model_problems ?s) i = Some reason" if "(i, reason) \<in> set ?P" for i reason
  proof -
    have "hm_get ?P i = Some reason" using that sort_problems_wf [of "[]"] hm_get_wf by fastforce
    then obtain a h where a: "List.find (\<lambda>a. action_id a = i) (actions ?s) = Some a" "action_model resolve a = Inl h"
      "reason = held_reason h"
      unfolding sort_problems_get [OF d] by (auto split: option.splits sum.splits)
    have "a \<in> set (actions ?s)" "action_id a = i" using find_Some_iff2 [OF a(1)] by auto
    then have "a \<in> set (actions s)" unfolding t_def tick_leaves [OF assms(1)] by auto
    then have "action_named i s = Some a" using find_id [OF assms(1)] \<open>action_id a = i\<close> by (auto simp: action_named_def)
    then show ?thesis using held_problems [OF assms(1), of i resolve bus tag now] a(2,3)
      by (simp add: t_def model_problem_def)
  qed
  then have "filter (\<lambda>(i, reason). hm_get (model_problems ?s) i \<noteq> Some reason) ?P = []"
    by (auto simp: filter_empty_conv)
  then show "notices (spawn_due_actions resolve bus' tag' now' ?s) = []"
    by (simp add: spawn_due_actions_def case_prod_unfold record_model_problems_def Let_def map_filter_simps)
qed

lemma held_action_is_reported_once_witness:
  "notices (spawn_due_actions (\<lambda>_. Inr ()) (\<lambda>_. True) (\<lambda>_. 0) 9 (tick_store
     (spawn_due_actions (\<lambda>_. Inr ()) (\<lambda>_. True) (\<lambda>_. 0) 5
       \<lparr>actions = [(sample_action 1 4)\<lparr>action_model_tier := Some [33]\<rparr>], model_problems = []\<rparr>))) = []"
proof -
  have "distinct (map action_id (actions \<lparr>actions = [(sample_action 1 4)\<lparr>action_model_tier := Some [33]\<rparr>], model_problems = []\<rparr>))"
    by simp
  then show ?thesis using held_action_is_reported_once by blast
qed

section \<open>Loading drops nothing silently\<close>

text \<open>Loading accounts for every stored action: it is in the store or named among the rejected, exactly those
  routed to the removed main agent being rejected; a file that cannot be read or moved aside loads nothing
  and a damaged one is started afresh only once it was moved; and the read-only view of the same file shows
  the same actions.\<close>

theorem loading_accounts_for_every_action:
  "(case load_store parse moved contents of
      Inr (s, rejected, None) \<Rightarrow>
        (\<exists>as. mset as = mset (actions s) + mset (filter uses_removed_main_routing as) \<and>
          map rejected_id rejected = map action_id (filter uses_removed_main_routing as) \<and>
          (as = [] \<and> contents = ReadMissing \<or> (\<exists>c. contents = ReadContents c \<and> parse c = Some as))) \<and>
        read_pending parse contents = Inr (actions s) \<and> model_problems s = []
    | Inr (s, rejected, Some p) \<Rightarrow> moved = Some p \<and> actions s = [] \<and> (\<exists>c. contents = ReadContents c \<and> parse c = None)
    | Inl _ \<Rightarrow> contents = ReadFailed \<or> moved = None \<and> (\<exists>c. contents = ReadContents c \<and> parse c = None)) \<and>
   (\<forall>s rejected x. load_store parse moved contents = Inr (s, rejected, x) \<longrightarrow> list_all (\<lambda>a. \<not> uses_removed_main_routing a) (actions s))"
proof (cases contents)
  case (ReadContents c)
  show ?thesis
  proof (cases "parse c")
    case None
    then show ?thesis using ReadContents by (cases moved) (simp_all add: load_store_def new_empty_store_def)
  next
    case (Some as)
    have "mset as = mset (filter (\<lambda>a. \<not> uses_removed_main_routing a) as) + mset (filter uses_removed_main_routing as)"
      using mset_split [of as uses_removed_main_routing] by (simp add: add.commute)
    then show ?thesis using ReadContents Some
      by (auto simp: load_store_def reject_agent_main_def read_pending_def list_all_iff comp_def intro!: exI [of _ as])
  qed
qed (simp_all add: load_store_def new_empty_store_def read_pending_def)

lemma loading_accounts_for_every_action_witness:
  "\<exists>s. load_store (\<lambda>_. Some [sample_action 1 4]) None (ReadContents [91]) = Inr (s, [], None) \<and>
     list_all (\<lambda>a. \<not> uses_removed_main_routing a) (actions s)"
proof -
  have "load_store (\<lambda>_. Some [sample_action 1 4]) None (ReadContents [91]) =
      Inr (\<lparr>actions = [sample_action 1 4], model_problems = []\<rparr>, [], None)"
    by (simp add: load_store_def reject_agent_main_def uses_removed_main_routing_def sample_action_def)
  then show ?thesis
    using loading_accounts_for_every_action [where parse = "\<lambda>_. Some [sample_action 1 4]" and moved = None
        and contents = "ReadContents [91]"] by blast
qed

end
