(* ===== verification/Recent_Messages.thy ===== *)
theory Recent_Messages
  imports Session_Names
begin

text \<open>
  The buffer of recent messages (\<open>crates/agent/src/recent_messages.rs\<close>) and the watch over the requests built
  from it (\<open>prefix_watch.rs\<close>).

  The clock is an argument. The fingerprint of a tool and of a message (a hash of its JSON, or nothing when it
  does not serialise) are arguments. Offsets in the system prompt count bytes, as the code does.
\<close>

section \<open>What a watch compares\<close>

datatype cause =
    ToolSetChanged
  | ToolOrderChanged
  | ToolDefinitionChanged
  | ToolDefinitionChangedMidTurn
  | SystemChanged
  | SystemChangedWithHistory
  | SystemChangedMidTurn
  | HistoryRewritten
  | HistoryChanged

datatype log_level = DebugLevel | InfoLevel | WarnLevel

definition cause_part :: "cause \<Rightarrow> ustring" where
  "cause_part c =
     (if c \<in> {ToolSetChanged, ToolOrderChanged, ToolDefinitionChanged, ToolDefinitionChangedMidTurn} then lit ''tools''
      else if c \<in> {SystemChanged, SystemChangedWithHistory, SystemChangedMidTurn} then lit ''system''
      else lit ''messages'')"

fun cause_level :: "cause \<Rightarrow> log_level" where
  "cause_level SystemChangedWithHistory = DebugLevel"
| "cause_level HistoryRewritten = DebugLevel"
| "cause_level ToolSetChanged = InfoLevel"
| "cause_level ToolDefinitionChanged = InfoLevel"
| "cause_level SystemChanged = InfoLevel"
| "cause_level ToolOrderChanged = WarnLevel"
| "cause_level ToolDefinitionChangedMidTurn = WarnLevel"
| "cause_level SystemChangedMidTurn = WarnLevel"
| "cause_level HistoryChanged = WarnLevel"

record divergence =
  div_cause :: cause
  div_index :: nat
  div_section :: "ustring option"
  div_level :: log_level

record sent_parts =
  sent_tools :: "(ustring \<times> u64) list"
  sent_system :: ustring
  sent_history :: "u64 list"

record prefix_watch =
  last_sent :: "sent_parts option"
  rewrite_pending :: bool
  reported_causes :: "cause set"

definition new_watch :: prefix_watch where
  "new_watch = \<lparr>last_sent = None, rewrite_pending = False, reported_causes = {}\<rparr>"

record tool_definition =
  tool_name :: ustring
  tool_description :: ustring
  tool_parameters :: json

record model_request =
  request_messages :: "message list"
  request_tools :: "tool_definition list"

fun collect_some :: "'a option list \<Rightarrow> 'a list option" where
  "collect_some [] = Some []"
| "collect_some (x # xs) =
     (case x of None \<Rightarrow> None | Some a \<Rightarrow> (case collect_some xs of None \<Rightarrow> None | Some as \<Rightarrow> Some (a # as)))"

definition split_system :: "message list \<Rightarrow> ustring \<times> message list" where
  "split_system ms =
     (case ms of
        m # rest \<Rightarrow> if msg_role m = SystemRole then (msg_content m, rest) else ([], ms)
      | [] \<Rightarrow> ([], []))"

definition parts_of ::
  "(tool_definition \<Rightarrow> u64 option) \<Rightarrow> (message \<Rightarrow> u64 option) \<Rightarrow> model_request \<Rightarrow> sent_parts option" where
  "parts_of fp_tool fp_message q =
     (case collect_some (map (\<lambda>t. map_option (Pair (tool_name t)) (fp_tool t)) (request_tools q)) of
        None \<Rightarrow> None
      | Some tools \<Rightarrow>
          (case split_system (request_messages q) of
             (system, rest) \<Rightarrow>
               (case collect_some (map fp_message rest) of
                  None \<Rightarrow> None
                | Some hist \<Rightarrow> Some \<lparr>sent_tools = tools, sent_system = system, sent_history = hist\<rparr>)))"

section \<open>Finding the first difference\<close>

fun first_difference :: "'a list \<Rightarrow> 'a list \<Rightarrow> nat" where
  "first_difference (x # xs) (y # ys) = (if x \<noteq> y then 0 else Suc (first_difference xs ys))"
| "first_difference _ _ = 0"

definition first_missing :: "u64 list \<Rightarrow> u64 list \<Rightarrow> nat option" where
  "first_missing last_h sent_h = (let i = first_difference last_h sent_h in if i < length last_h then Some i else None)"

definition tools_change :: "(ustring \<times> u64) list \<Rightarrow> (ustring \<times> u64) list \<Rightarrow> bool \<Rightarrow> (cause \<times> nat) option" where
  "tools_change old new within_turn =
     (if map fst old \<noteq> map fst new then
        Some (if set (map fst old) = set (map fst new) then ToolOrderChanged else ToolSetChanged,
          first_difference (map fst old) (map fst new))
      else if old = new then None
      else Some (if within_turn then ToolDefinitionChangedMidTurn else ToolDefinitionChanged, first_difference old new))"

text \<open>The bytes two strings share, rounded down to a character: the bytes of the characters they share.\<close>

definition common_prefix_len :: "ustring \<Rightarrow> ustring \<Rightarrow> nat" where
  "common_prefix_len a b = utf8_len (take (first_difference a b) b)"

text \<open>The longest prefix of whole characters within so many bytes.\<close>

fun take_bytes :: "nat \<Rightarrow> ustring \<Rightarrow> ustring" where
  "take_bytes n [] = []"
| "take_bytes n (c # cs) = (if utf8_len_char c \<le> n then c # take_bytes (n - utf8_len_char c) cs else [])"

text \<open>\<open>rfind\<close> of a pattern: the last position it starts at.\<close>

fun rfind_str :: "ustring \<Rightarrow> ustring \<Rightarrow> nat option" where
  "rfind_str p [] = (if p = [] then Some 0 else None)"
| "rfind_str p (c # cs) =
     (case rfind_str p cs of Some i \<Rightarrow> Some (Suc i) | None \<Rightarrow> if starts_with p (c # cs) then Some 0 else None)"

definition tag_char :: "nat \<Rightarrow> bool" where
  "tag_char c \<longleftrightarrow> is_ascii_digit c \<or> is_ascii_lower c \<or> is_ascii_upper c \<or> c = 95 \<or> c = 46"

definition section_at :: "ustring \<Rightarrow> nat \<Rightarrow> ustring option" where
  "section_at system offset =
     (let head = take_bytes (min (offset + 3) (utf8_len system)) system;
          start = (case rfind_str [10, 10, 60] head of Some at \<Rightarrow> at + 2 | None \<Rightarrow> 0)
      in case strip_prefix [60] (drop start system) of
           None \<Rightarrow> None
         | Some tag \<Rightarrow>
             (case position (\<lambda>c. c = 62) tag of
                None \<Rightarrow> None
              | Some k \<Rightarrow>
                  let tag = take k tag in if tag \<noteq> [] \<and> list_all tag_char tag then Some tag else None))"

definition diff_parts :: "sent_parts \<Rightarrow> sent_parts \<Rightarrow> bool \<Rightarrow> bool \<Rightarrow> (cause \<times> nat \<times> ustring option) list" where
  "diff_parts old new within_turn rewritten =
     (case tools_change (sent_tools old) (sent_tools new) within_turn of Some (c, i) \<Rightarrow> [(c, i, None)] | None \<Rightarrow> []) @
     (if sent_system old \<noteq> sent_system new then
        (let i = common_prefix_len (sent_system old) (sent_system new)
         in [(if within_turn then SystemChangedMidTurn
              else if rewritten then SystemChangedWithHistory else SystemChanged, i, section_at (sent_system new) i)])
      else []) @
     (case first_missing (sent_history old) (sent_history new) of
        Some p \<Rightarrow> [(if rewritten then HistoryRewritten else HistoryChanged, p + 1, None)]
      | None \<Rightarrow> [])"

definition level_for :: "cause \<Rightarrow> cause set \<Rightarrow> cause set \<times> log_level" where
  "level_for c seen =
     (let l = cause_level c in
      if l = DebugLevel then (seen, DebugLevel)
      else if c \<in> seen then (seen, DebugLevel)
      else (insert c seen, l))"

fun report_all :: "(cause \<times> nat \<times> ustring option) list \<Rightarrow> cause set \<Rightarrow> cause set \<times> divergence list" where
  "report_all [] seen = (seen, [])"
| "report_all ((c, i, sec) # found) seen =
     (case level_for c seen of
        (seen', l) \<Rightarrow>
          (case report_all found seen' of
             (seen'', ds) \<Rightarrow> (seen'', \<lparr>div_cause = c, div_index = i, div_section = sec, div_level = l\<rparr> # ds)))"

definition compare_request ::
  "(tool_definition \<Rightarrow> u64 option) \<Rightarrow> (message \<Rightarrow> u64 option) \<Rightarrow> model_request \<Rightarrow> bool \<Rightarrow> prefix_watch \<Rightarrow>
   prefix_watch \<times> divergence list" where
  "compare_request fp_tool fp_message q within_turn w =
     (let rewritten = rewrite_pending w; w = w\<lparr>rewrite_pending := False\<rparr> in
      case parts_of fp_tool fp_message q of
        None \<Rightarrow> (w\<lparr>last_sent := None\<rparr>, [])
      | Some sent \<Rightarrow>
          (let found = (case last_sent w of Some old \<Rightarrow> diff_parts old sent within_turn rewritten | None \<Rightarrow> [])
           in case report_all found (reported_causes w) of
                (seen, ds) \<Rightarrow> (w\<lparr>last_sent := Some sent, reported_causes := seen\<rparr>, ds)))"

definition history_rewritten :: "prefix_watch \<Rightarrow> prefix_watch" where
  "history_rewritten w = w\<lparr>rewrite_pending := True\<rparr>"

section \<open>The buffer\<close>

record recent =
  recent_msgs :: "message list"
  recorded_at :: "datetime list"
  watch :: prefix_watch

definition new_recent :: recent where
  "new_recent = \<lparr>recent_msgs = [], recorded_at = [], watch = new_watch\<rparr>"

definition push_message :: "datetime \<Rightarrow> message \<Rightarrow> recent \<Rightarrow> recent" where
  "push_message now m b = b\<lparr>recent_msgs := recent_msgs b @ [m], recorded_at := recorded_at b @ [now]\<rparr>"

definition messages_since :: "nat \<Rightarrow> recent \<Rightarrow> message list" where
  "messages_since i b = (if i \<le> length (recent_msgs b) then drop i (recent_msgs b) else [])"

definition recorded_at_since :: "nat \<Rightarrow> recent \<Rightarrow> datetime list" where
  "recorded_at_since i b = (if i \<le> length (recorded_at b) then drop i (recorded_at b) else [])"

definition extend_messages :: "datetime \<Rightarrow> message list \<Rightarrow> recent \<Rightarrow> recent" where
  "extend_messages now ms b =
     b\<lparr>recorded_at := recorded_at b @ replicate (length ms) now, recent_msgs := recent_msgs b @ ms\<rparr>"

definition clear_messages :: "recent \<Rightarrow> recent" where
  "clear_messages b = b\<lparr>recent_msgs := [], recorded_at := [], watch := history_rewritten (watch b)\<rparr>"

definition prepend_messages :: "datetime \<Rightarrow> message list \<Rightarrow> recent \<Rightarrow> recent" where
  "prepend_messages now ms b =
     (if ms = [] then b
      else b\<lparr>recorded_at := replicate (length ms) now @ recorded_at b, recent_msgs := ms @ recent_msgs b,
             watch := history_rewritten (watch b)\<rparr>)"

definition watch_request ::
  "(tool_definition \<Rightarrow> u64 option) \<Rightarrow> (message \<Rightarrow> u64 option) \<Rightarrow> model_request \<Rightarrow> bool \<Rightarrow> recent \<Rightarrow> recent \<times> divergence list" where
  "watch_request fp_tool fp_message q within_turn b =
     (case compare_request fp_tool fp_message q within_turn (watch b) of (w, ds) \<Rightarrow> (b\<lparr>watch := w\<rparr>, ds))"

text \<open>The two nested loops of \<open>last_exchanges\<close>: the inner one walks back from \<open>j\<close> to the user message an answer
  belongs to; the outer one walks back over the answers.\<close>

definition is_text_answer :: "message \<Rightarrow> bool" where
  "is_text_answer m \<longleftrightarrow> msg_role m = AssistantRole \<and> msg_content m \<noteq> [] \<and> msg_tool_calls m = None"

definition is_user_text :: "message \<Rightarrow> bool" where
  "is_user_text m \<longleftrightarrow> msg_role m = UserRole \<and> msg_content m \<noteq> []"

definition is_mid_chain :: "message \<Rightarrow> bool" where
  "is_mid_chain m \<longleftrightarrow> msg_role m = ToolRole \<or> msg_role m = AssistantRole \<and> msg_tool_calls m \<noteq> None"

fun preceding_user :: "message list \<Rightarrow> nat \<Rightarrow> nat option" where
  "preceding_user ms 0 = None"
| "preceding_user ms (Suc j) =
     (if is_user_text (ms ! j) then Some j
      else if is_mid_chain (ms ! j) then preceding_user ms j
      else None)"

lemma preceding_user_less: "preceding_user ms i = Some j \<Longrightarrow> j < i"
  by (induction i) (auto split: if_splits simp: less_Suc_eq)

function (sequential) scan_exchanges :: "nat \<Rightarrow> message list \<Rightarrow> nat \<Rightarrow> (message \<times> message) list \<Rightarrow> (message \<times> message) list" where
  "scan_exchanges n ms 0 pairs = pairs"
| "scan_exchanges n ms (Suc i) pairs =
     (if n \<le> length pairs then pairs
      else if \<not> is_text_answer (ms ! i) then scan_exchanges n ms i pairs
      else (case preceding_user ms i of
          None \<Rightarrow> scan_exchanges n ms i pairs
        | Some j \<Rightarrow> scan_exchanges n ms j (pairs @ [(ms ! j, ms ! i)])))"
  by pat_completeness auto

termination scan_exchanges
  by (relation "measure (\<lambda>(n, ms, i, pairs). i)") (auto dest: preceding_user_less)

definition last_exchanges :: "nat \<Rightarrow> recent \<Rightarrow> message list" where
  "last_exchanges n b =
     (if n = 0 then []
      else concat (map (\<lambda>(u, a). [u, a]) (rev (scan_exchanges n (recent_msgs b) (length (recent_msgs b)) []))))"

section \<open>The last exchanges, read forwards\<close>

text \<open>The same exchanges by one pass over the conversation: the user message waiting for its answer, and the
  exchanges complete so far.\<close>

fun exchange_step :: "message option \<times> (message \<times> message) list \<Rightarrow> message \<Rightarrow> message option \<times> (message \<times> message) list" where
  "exchange_step (open_user, done) m =
     (if is_user_text m then (Some m, done)
      else if is_mid_chain m then (open_user, done)
      else if is_text_answer m then (None, done @ (case open_user of Some u \<Rightarrow> [(u, m)] | None \<Rightarrow> []))
      else (None, done))"

definition exchanges :: "message list \<Rightarrow> message option \<times> (message \<times> message) list" where
  "exchanges ms = foldl exchange_step (None, []) ms"

lemma exchanges_snoc: "exchanges (ms @ [m]) = exchange_step (exchanges ms) m"
  by (simp add: exchanges_def)

lemma take_Suc_snoc: "i < length ms \<Longrightarrow> take (Suc i) ms = take i ms @ [ms ! i]"
  by (simp add: take_Suc_conv_app_nth)

lemma exclusive:
  "is_text_answer m \<Longrightarrow> \<not> is_user_text m" "is_text_answer m \<Longrightarrow> \<not> is_mid_chain m" "is_user_text m \<Longrightarrow> \<not> is_mid_chain m"
  by (auto simp: is_text_answer_def is_user_text_def is_mid_chain_def)

lemma open_user_is_preceding:
  "i \<le> length ms \<Longrightarrow> fst (exchanges (take i ms)) = map_option (\<lambda>j. ms ! j) (preceding_user ms i)"
proof (induction i)
  case (Suc i)
  then show ?case
    by (cases "exchanges (take i ms)") (auto simp: take_Suc_snoc exchanges_snoc exclusive)
qed (simp add: exchanges_def)

lemma pairs_before_user:
  "i \<le> length ms \<Longrightarrow> preceding_user ms i = Some j \<Longrightarrow> snd (exchanges (take i ms)) = snd (exchanges (take j ms))"
proof (induction i)
  case (Suc i)
  then show ?case
    by (cases "exchanges (take i ms)") (auto simp: take_Suc_snoc exchanges_snoc split: if_splits)
qed simp

lemma scan_exchanges_eq:
  "i \<le> length ms \<Longrightarrow> length pairs \<le> n \<Longrightarrow>
   scan_exchanges n ms i pairs = pairs @ take (n - length pairs) (rev (snd (exchanges (take i ms))))"
proof (induction n ms i pairs rule: scan_exchanges.induct)
  case (2 n ms i pairs)
  obtain u d where ud: "exchanges (take i ms) = (u, d)" by (cases "exchanges (take i ms)")
  have split: "exchanges (take (Suc i) ms) = exchange_step (u, d) (ms ! i)"
    using "2.prems" ud by (simp add: take_Suc_snoc exchanges_snoc)
  have u: "u = map_option (\<lambda>j. ms ! j) (preceding_user ms i)" using open_user_is_preceding [of i ms] "2.prems" ud by simp
  show ?case
  proof (cases "n \<le> length pairs")
    case False
    show ?thesis
    proof (cases "is_text_answer (ms ! i)")
      case no: False
      then have "snd (exchanges (take (Suc i) ms)) = d" unfolding split by simp
      then show ?thesis using False no "2.IH"(1) [OF False no] "2.prems" ud by simp
    next
      case yes: True
      show ?thesis
      proof (cases "preceding_user ms i")
        case None
        then have "snd (exchanges (take (Suc i) ms)) = d" unfolding split using u yes by simp
        then show ?thesis using False yes None "2.IH"(2) [OF False _ None] "2.prems" ud by simp
      next
        case (Some j)
        then have "snd (exchanges (take (Suc i) ms)) = d @ [(ms ! j, ms ! i)]"
          unfolding split using u yes exclusive [of "ms ! i"] by simp
        moreover have "d = snd (exchanges (take j ms))" using pairs_before_user [OF _ Some] "2.prems" ud by simp
        moreover have "j \<le> length ms" using preceding_user_less [OF Some] "2.prems" by simp
        moreover obtain k where "n - length pairs = Suc k" "n - Suc (length pairs) = k" using False by (metis Suc_diff_Suc not_le)
        ultimately show ?thesis using False yes Some "2.IH"(3) [OF False _ Some] by simp
      qed
    qed
  qed simp
qed (simp add: exchanges_def)

text \<open>The last \<open>n\<close> exchanges are those of a plain pass over the conversation: every user message with the
  first text answer that follows it over nothing but tool calls and their results makes one exchange, and
  the buffer returns the last \<open>n\<close> of them, oldest first.\<close>

theorem last_exchanges_are_the_last:
  "last_exchanges n b =
     (let done = snd (exchanges (recent_msgs b))
      in concat (map (\<lambda>(u, a). [u, a]) (drop (length done - n) done)))"
  by (simp add: last_exchanges_def scan_exchanges_eq Let_def rev_take rev_map)

section \<open>Messages and times stay together\<close>

datatype recent_op =
    PushMessage datetime message
  | ExtendMessages datetime "message list"
  | PrependMessages datetime "message list"
  | ClearMessages
  | WatchRequest model_request bool

definition recent_step ::
  "(tool_definition \<Rightarrow> u64 option) \<Rightarrow> (message \<Rightarrow> u64 option) \<Rightarrow> recent \<Rightarrow> recent_op \<Rightarrow> recent \<times> divergence list" where
  "recent_step fp_tool fp_message b op =
     (case op of
        PushMessage now m \<Rightarrow> (push_message now m b, [])
      | ExtendMessages now ms \<Rightarrow> (extend_messages now ms b, [])
      | PrependMessages now ms \<Rightarrow> (prepend_messages now ms b, [])
      | ClearMessages \<Rightarrow> (clear_messages b, [])
      | WatchRequest q within_turn \<Rightarrow> watch_request fp_tool fp_message q within_turn b)"

definition timed_messages :: "recent \<Rightarrow> (message \<times> datetime) list" where
  "timed_messages b = zip (recent_msgs b) (recorded_at b)"

text \<open>What the operations do to the list of messages with their times.\<close>

fun timed_step :: "(message \<times> datetime) list \<Rightarrow> recent_op \<Rightarrow> (message \<times> datetime) list" where
  "timed_step ts (PushMessage now m) = ts @ [(m, now)]"
| "timed_step ts (ExtendMessages now ms) = ts @ map (\<lambda>m. (m, now)) ms"
| "timed_step ts (PrependMessages now ms) = map (\<lambda>m. (m, now)) ms @ ts"
| "timed_step ts ClearMessages = []"
| "timed_step ts (WatchRequest q w) = ts"

lemma zip_replicate_map: "zip ms (replicate (length ms) x) = map (\<lambda>m. (m, x)) ms"
  by (induction ms) auto

lemma watch_request_rest [simp]:
  "recent_msgs (fst (watch_request f g q w b)) = recent_msgs b" "recorded_at (fst (watch_request f g q w b)) = recorded_at b"
  by (simp_all add: watch_request_def case_prod_unfold)

lemma recent_step_timed:
  assumes "length (recorded_at b) = length (recent_msgs b)"
  shows "length (recorded_at (fst (recent_step f g b op))) = length (recent_msgs (fst (recent_step f g b op))) \<and>
    timed_messages (fst (recent_step f g b op)) = timed_step (timed_messages b) op"
  using assms
  by (cases op) (simp_all add: recent_step_def timed_messages_def push_message_def extend_messages_def prepend_messages_def
      clear_messages_def zip_replicate_map)

text \<open>Every message keeps the time it entered the buffer with: the two lists the buffer keeps are one list of
  messages with their times, on which pushing and extending append, prepending puts in front and clearing
  empties, so the messages and the times from any index on belong together.\<close>

theorem messages_keep_their_times:
  fixes fp_tool :: "tool_definition \<Rightarrow> u64 option" and fp_message :: "message \<Rightarrow> u64 option" and ops :: "recent_op list"
  defines "b \<equiv> fst (run_machine (recent_step fp_tool fp_message) new_recent ops)"
  shows "timed_messages b = foldl timed_step [] ops \<and> map fst (timed_messages b) = recent_msgs b \<and>
    map snd (timed_messages b) = recorded_at b \<and>
    zip (messages_since i b) (recorded_at_since i b) = drop i (timed_messages b)"
proof -
  have run: "length (recorded_at (fst (run_machine (recent_step fp_tool fp_message) b ops))) =
        length (recent_msgs (fst (run_machine (recent_step fp_tool fp_message) b ops))) \<and>
      timed_messages (fst (run_machine (recent_step fp_tool fp_message) b ops)) = foldl timed_step (timed_messages b) ops"
    if "length (recorded_at b) = length (recent_msgs b)" for b
    using that
  proof (induction ops arbitrary: b)
    case (Cons op ops)
    show ?case using recent_step_timed [OF Cons.prems, of fp_tool fp_message op] Cons.IH by simp
  qed simp
  note run = run [of new_recent]
  have "length (recorded_at b) = length (recent_msgs b)" "timed_messages b = foldl timed_step [] ops"
    using run unfolding b_def by (simp_all add: new_recent_def timed_messages_def)
  moreover from this(1) have "zip (messages_since i b) (recorded_at_since i b) = drop i (timed_messages b)"
    by (simp add: timed_messages_def messages_since_def recorded_at_since_def drop_zip)
  moreover have "map fst (timed_messages b) = recent_msgs b" "map snd (timed_messages b) = recorded_at b"
    using calculation(1) by (simp_all add: timed_messages_def)
  ultimately show ?thesis by blast
qed

section \<open>What the watch reports\<close>

lemma first_difference_spec:
  "take (first_difference a b) a = take (first_difference a b) b \<and> first_difference a b \<le> length a \<and>
   first_difference a b \<le> length b \<and>
   (first_difference a b < length a \<and> first_difference a b < length b \<longrightarrow>
     a ! first_difference a b \<noteq> b ! first_difference a b)"
  by (induction a b rule: first_difference.induct) auto

lemma first_missing_None: "first_missing old new = None \<longleftrightarrow> (\<exists>more. new = old @ more)"
proof
  assume "first_missing old new = None"
  then have "first_difference old new = length old"
    using first_difference_spec [of old new] by (auto simp: first_missing_def Let_def split: if_splits)
  then have "new = old @ drop (length old) new" using first_difference_spec [of old new] by (metis append_take_drop_id take_all_iff order_refl)
  then show "\<exists>more. new = old @ more" by blast
next
  assume "\<exists>more. new = old @ more"
  then obtain more where "new = old @ more" by blast
  moreover have "first_difference old (old @ more) = length old"
  proof (induction old)
    case Nil
    show ?case by (cases more) simp_all
  qed simp
  ultimately have "first_difference old new = length old" by simp
  then show "first_missing old new = None" by (simp add: first_missing_def)
qed

lemma tools_change_None: "tools_change old new w = None \<longleftrightarrow> old = new"
  by (cases "old = new") (simp_all add: tools_change_def)

text \<open>A watch is silent exactly when a request only adds to the one before: with the fingerprints taken, it
  reports nothing if and only if the tools and the system prompt are those sent before and the messages sent
  before open the new ones; and where the messages do not, it names the first that differs, counting the
  system prompt as message 0.\<close>

theorem silent_exactly_on_appends:
  assumes "last_sent w = Some old" "parts_of fp_tool fp_message q = Some new"
  shows "(snd (compare_request fp_tool fp_message q within_turn w) = [] \<longleftrightarrow>
      sent_tools new = sent_tools old \<and> sent_system new = sent_system old \<and>
      (\<exists>more. sent_history new = sent_history old @ more)) \<and>
    last_sent (fst (compare_request fp_tool fp_message q within_turn w)) = Some new \<and>
    (\<forall>d\<in>set (snd (compare_request fp_tool fp_message q within_turn w)). div_cause d \<in> {HistoryRewritten, HistoryChanged} \<longrightarrow>
      (div_cause d = HistoryRewritten \<longleftrightarrow> rewrite_pending w) \<and>
      div_index d \<noteq> 0 \<and> div_index d - 1 < length (sent_history old) \<and>
      take (div_index d - 1) (sent_history new) = take (div_index d - 1) (sent_history old) \<and>
      (div_index d - 1 < length (sent_history new) \<longrightarrow>
        sent_history new ! (div_index d - 1) \<noteq> sent_history old ! (div_index d - 1)))"
proof -
  let ?found = "diff_parts old new within_turn (rewrite_pending w)"
  have compare: "snd (compare_request fp_tool fp_message q within_turn w) = snd (report_all ?found (reported_causes w))"
    "last_sent (fst (compare_request fp_tool fp_message q within_turn w)) = Some new"
    using assms by (simp_all add: compare_request_def Let_def case_prod_unfold)
  have report: "map (\<lambda>d. (div_cause d, div_index d, div_section d)) (snd (report_all found seen)) = found" for found seen
  proof (induction found arbitrary: seen)
    case (Cons x found)
    then show ?case by (cases x) (simp add: case_prod_unfold)
  qed simp
  have silent: "snd (report_all ?found (reported_causes w)) = [] \<longleftrightarrow> ?found = []" by (metis report map_is_Nil_conv)
  have found: "?found = [] \<longleftrightarrow> sent_tools new = sent_tools old \<and> sent_system new = sent_system old \<and>
      (\<exists>more. sent_history new = sent_history old @ more)"
  proof -
    have "(case x of Some (c, i) \<Rightarrow> [(c, i, None)] | None \<Rightarrow> []) = [] \<longleftrightarrow> x = None" for x :: "(cause \<times> nat) option"
      by (cases x) auto
    moreover have "(case x of Some p \<Rightarrow> [f p] | None \<Rightarrow> []) = [] \<longleftrightarrow> x = None" for x :: "nat option" and f :: "nat \<Rightarrow> cause \<times> nat \<times> ustring option"
      by (cases x) auto
    moreover have "(if b then [x] else []) = [] \<longleftrightarrow> \<not> b" for b and x :: "cause \<times> nat \<times> ustring option" by simp
    ultimately show ?thesis
      unfolding diff_parts_def Let_def append_is_Nil_conv first_missing_None [symmetric] tools_change_None [symmetric, of _ _ within_turn]
      by (metis tools_change_None)
  qed
  have "(div_cause d = HistoryRewritten \<longleftrightarrow> rewrite_pending w) \<and>
      div_index d \<noteq> 0 \<and> div_index d - 1 < length (sent_history old) \<and>
      take (div_index d - 1) (sent_history new) = take (div_index d - 1) (sent_history old) \<and>
      (div_index d - 1 < length (sent_history new) \<longrightarrow>
        sent_history new ! (div_index d - 1) \<noteq> sent_history old ! (div_index d - 1))"
    if "d \<in> set (snd (report_all ?found (reported_causes w)))" "div_cause d \<in> {HistoryRewritten, HistoryChanged}" for d
  proof -
    note is_history = that(2)
    have d: "(div_cause d, div_index d, div_section d) \<in> set ?found"
      using that(1) report [of ?found "reported_causes w"] by (metis (mono_tags, lifting) image_eqI list.set_map)
    have tools: "tools_change a b wt \<noteq> Some (HistoryRewritten, i)" "tools_change a b wt \<noteq> Some (HistoryChanged, i)" for a b wt i
      by (simp_all add: tools_change_def)
    have "\<exists>p. first_missing (sent_history old) (sent_history new) = Some p \<and> div_index d = p + 1 \<and>
      div_cause d = (if rewrite_pending w then HistoryRewritten else HistoryChanged)"
      using d is_history tools tools [THEN not_sym] by (auto simp: diff_parts_def Let_def split: option.splits if_splits)
    then obtain p where p: "first_missing (sent_history old) (sent_history new) = Some p" "div_index d = p + 1"
      "div_cause d = (if rewrite_pending w then HistoryRewritten else HistoryChanged)"
      by blast
    have "p = first_difference (sent_history old) (sent_history new)" "p < length (sent_history old)"
      using p(1) by (auto simp: first_missing_def Let_def split: if_splits)
    then show ?thesis using p(2,3) first_difference_spec [of "sent_history old" "sent_history new"] by simp metis
  qed
  then show ?thesis using compare silent found by simp
qed

definition plain_request :: "ustring \<Rightarrow> model_request" where
  "plain_request s = \<lparr>request_messages = [system_message s], request_tools = []\<rparr>"

lemma silent_exactly_on_appends_witness:
  "snd (compare_request (\<lambda>_. Some 0) (\<lambda>_. Some 0) (plain_request [97]) True
     (new_watch\<lparr>last_sent := Some \<lparr>sent_tools = [], sent_system = [97], sent_history = []\<rparr>\<rparr>)) = []"
proof -
  have "parts_of (\<lambda>_. Some 0) (\<lambda>_. Some 0) (plain_request [97]) = Some \<lparr>sent_tools = [], sent_system = [97], sent_history = []\<rparr>"
    by (simp add: parts_of_def plain_request_def split_system_def system_message_def plain_message_def)
  from silent_exactly_on_appends [OF _ this, THEN conjunct1] show ?thesis by simp
qed

lemma report_all_loud:
  "length (filter (\<lambda>d. div_cause d = c \<and> div_level d \<noteq> DebugLevel) (snd (report_all found seen))) +
     (if c \<in> seen then 1 else 0) \<le> (if c \<in> fst (report_all found seen) then 1 else 0) \<and>
   seen \<subseteq> fst (report_all found seen)"
proof (induction found seen rule: report_all.induct)
  case (2 c' i sec found seen)
  obtain seen' l where level: "level_for c' seen = (seen', l)" by (cases "level_for c' seen")
  note IH = 2 [OF level [symmetric]]
  from level have "seen \<subseteq> seen'" "l \<noteq> DebugLevel \<Longrightarrow> c' \<notin> seen \<and> seen' = insert c' seen" "l = DebugLevel \<Longrightarrow> seen' = seen"
    by (auto simp: level_for_def Let_def split: if_splits)
  then show ?case using IH level
    by (cases "l = DebugLevel"; cases "c = c'") (auto simp: case_prod_unfold split: if_splits)
qed simp

lemma compare_loud:
  "length (filter (\<lambda>d. div_cause d = c \<and> div_level d \<noteq> DebugLevel) (snd (compare_request f g q wt w))) +
     (if c \<in> reported_causes w then 1 else 0) \<le> (if c \<in> reported_causes (fst (compare_request f g q wt w)) then 1 else 0)"
proof (cases "parts_of f g q")
  case (Some sent)
  let ?found = "case last_sent w of Some old \<Rightarrow> diff_parts old sent wt (rewrite_pending w) | None \<Rightarrow> []"
  have "snd (compare_request f g q wt w) = snd (report_all ?found (reported_causes w))"
    "reported_causes (fst (compare_request f g q wt w)) = fst (report_all ?found (reported_causes w))"
    using Some by (simp_all add: compare_request_def Let_def case_prod_unfold)
  then show ?thesis using report_all_loud [of c ?found "reported_causes w"] by simp
qed (simp add: compare_request_def Let_def)

text \<open>A change that keeps recurring is loud once: over any run of the buffer, whatever it sends, at most one
  report with a given cause is logged above \<open>debug\<close>.\<close>

theorem each_cause_is_loud_once:
  "length (filter (\<lambda>d. div_cause d = c \<and> div_level d \<noteq> DebugLevel)
     (concat (snd (run_machine (recent_step fp_tool fp_message) new_recent ops)))) \<le> 1"
proof -
  let ?loud = "\<lambda>ds. length (filter (\<lambda>d. div_cause d = c \<and> div_level d \<noteq> DebugLevel) ds)"
  have step: "?loud (snd (recent_step fp_tool fp_message b op)) + (if c \<in> reported_causes (watch b) then 1 else 0) \<le>
      (if c \<in> reported_causes (watch (fst (recent_step fp_tool fp_message b op))) then 1 else 0)" for b op
  proof (cases op)
    case (WatchRequest q wt)
    then show ?thesis using compare_loud [of c fp_tool fp_message q wt "watch b"]
      by (simp add: recent_step_def watch_request_def case_prod_unfold)
  qed (simp_all add: recent_step_def push_message_def extend_messages_def prepend_messages_def clear_messages_def history_rewritten_def)
  have "?loud (concat (snd (run_machine (recent_step fp_tool fp_message) b ops))) +
      (if c \<in> reported_causes (watch b) then 1 else 0) \<le> 1" for b
  proof (induction ops arbitrary: b)
    case (Cons op ops)
    show ?case using step [of b op] Cons [of "fst (recent_step fp_tool fp_message b op)"] by (simp split: if_splits)
  qed simp
  from this [of new_recent] show ?thesis by simp
qed

end
