(* ===== verification/Event_Bus.thy ===== *)
theory Event_Bus
  imports Session_Names "HOL-Library.Sublist"
begin

text \<open>
  The event bus: its broker (\<open>crates/bus/src/broker.rs\<close>), the handles that publish and subscribe
  (\<open>handle.rs\<close>), the routes and what may be dropped on them (\<open>topics.rs\<close>, \<open>types.rs\<close>), and the directory of
  conversations (\<open>conversations.rs\<close>).

  A channel is the list of events sent and not yet received, with whether its receiver exists; the broker's
  command channel is such a list too. The depth a lossless sender reports is a counter both ends keep: the
  broker alone sends and reads it after its own increment, so it reads the length of the queue. An event is
  of any type; the type it is published as is part of its route.
\<close>

section \<open>Routes\<close>

datatype topic_id =
    Endpoint ustring
  | MainConversation
  | Background
  | Sessions
  | UserMessageTopic
  | Notification ustring
  | Inbox
  | UserInbox
  | Workbench
  | Workspace
  | A2aTaskSignal

definition show_topic :: "topic_id \<Rightarrow> ustring" where
  "show_topic t =
     (case t of
        Endpoint n \<Rightarrow> lit ''endpoint:'' @ n
      | MainConversation \<Rightarrow> lit ''main:conversation''
      | Background \<Rightarrow> lit ''background''
      | Sessions \<Rightarrow> lit ''sessions''
      | UserMessageTopic \<Rightarrow> lit ''user:message''
      | Notification n \<Rightarrow> lit ''notification:'' @ n
      | Inbox \<Rightarrow> lit ''inbox''
      | UserInbox \<Rightarrow> lit ''user:inbox''
      | Workbench \<Rightarrow> lit ''workbench''
      | Workspace \<Rightarrow> lit ''workspace''
      | A2aTaskSignal \<Rightarrow> lit ''a2a:task-signal'')"

datatype event_type =
    ResponseEvent | TurnLifecycleEvent | IntermediateEvent | SessionResponseEvent | ConversationTypingEvent | ErrorEvent
  | MainConversationEvent | AgentResultEvent | SpawnRequestEvent | SessionEvent | SessionStartFailedEvent | MessageEvent
  | NotificationEvent | NoticeEvent | InlineOutputEvent | OutboundA2aTaskEvent | PulseFireEvent | PostTurnActivityEvent
  | UserInboxAddedEvent | A2aTaskSignalEvent | WorkbenchEvent | WorkspaceEvent

datatype delivery_mode = Lossless | Lossy

text \<open>The \<open>Carries\<close> implementations: which events a topic carries, and how.\<close>

fun carries :: "topic_id \<Rightarrow> event_type \<Rightarrow> delivery_mode option" where
  "carries (Endpoint n) e =
     (if e \<in> {ResponseEvent, TurnLifecycleEvent, IntermediateEvent, SessionResponseEvent, ConversationTypingEvent, ErrorEvent}
      then Some Lossless else None)"
| "carries MainConversation e = (if e = MainConversationEvent then Some Lossless else None)"
| "carries Background e = (if e \<in> {AgentResultEvent, SpawnRequestEvent} then Some Lossless else None)"
| "carries Sessions e = (if e \<in> {SessionEvent, SessionStartFailedEvent} then Some Lossless else None)"
| "carries UserMessageTopic e = (if e = MessageEvent then Some Lossless else None)"
| "carries (Notification n) e =
     (if e \<in> {NotificationEvent, NoticeEvent, InlineOutputEvent, ErrorEvent, OutboundA2aTaskEvent, PulseFireEvent,
        PostTurnActivityEvent} then Some Lossless else None)"
| "carries Inbox e = (if e = NotificationEvent then Some Lossless else None)"
| "carries UserInbox e = (if e = UserInboxAddedEvent then Some Lossless else None)"
| "carries A2aTaskSignal e = (if e = A2aTaskSignalEvent then Some Lossless else None)"
| "carries Workbench e = (if e = WorkbenchEvent then Some Lossy else None)"
| "carries Workspace e = (if e = WorkspaceEvent then Some Lossy else None)"

type_synonym route_key = "topic_id \<times> event_type"

section \<open>Channels and commands\<close>

definition BROKER_COMMAND_CAPACITY :: nat where "BROKER_COMMAND_CAPACITY = 256"
definition LOSSY_SUBSCRIBER_CAPACITY :: nat where "LOSSY_SUBSCRIBER_CAPACITY = 1024"
definition LOSSLESS_BACKLOG_WARN_THRESHOLD :: nat where "LOSSLESS_BACKLOG_WARN_THRESHOLD = 10000"

record 'e subchan =
  sub_mode :: delivery_mode
  sub_queue :: "'e list"
  sub_alive :: bool

datatype 'e command =
    Publish route_key 'e
  | Subscribe nat route_key delivery_mode
  | Unsubscribe nat route_key

datatype send_result = SentOk | DroppedFull | ReceiverGone

definition send_event :: "'e \<Rightarrow> 'e subchan \<Rightarrow> 'e subchan \<times> send_result" where
  "send_event e c =
     (if \<not> sub_alive c then (c, ReceiverGone)
      else (case sub_mode c of
          Lossless \<Rightarrow> (c\<lparr>sub_queue := sub_queue c @ [e]\<rparr>, SentOk)
        | Lossy \<Rightarrow>
            if length (sub_queue c) < LOSSY_SUBSCRIBER_CAPACITY then (c\<lparr>sub_queue := sub_queue c @ [e]\<rparr>, SentOk)
            else (c, DroppedFull)))"

definition sender_len :: "'e subchan \<Rightarrow> nat" where
  "sender_len c = length (sub_queue c)"

section \<open>Bookkeeping of drops and backlogs\<close>

datatype drop_transition = DropStarted | DropStopped nat

definition record_drop_outcome ::
  "nat \<Rightarrow> send_result \<Rightarrow> (nat, nat) hmap \<Rightarrow> (nat, nat) hmap \<times> drop_transition option" where
  "record_drop_outcome i out dropping =
     (case out of
        SentOk \<Rightarrow> (hm_remove i dropping, map_option DropStopped (hm_get dropping i))
      | DroppedFull \<Rightarrow>
          (let count = nat_or_zero (hm_get dropping i) + 1
           in (hm_insert i count dropping, if count = 1 then Some DropStarted else None))
      | ReceiverGone \<Rightarrow> (hm_remove i dropping, None))"

definition record_backlog_len :: "nat \<Rightarrow> nat \<Rightarrow> nat set \<Rightarrow> nat set \<times> bool" where
  "record_backlog_len i n large =
     (if LOSSLESS_BACKLOG_WARN_THRESHOLD \<le> n then (insert i large, i \<notin> large) else (large - {i}, False))"

datatype bus_log = LogDrop nat drop_transition | LogBacklog nat nat

section \<open>The broker\<close>

record 'e bus =
  commands :: "'e command list"
  next_id :: nat
  subscriptions :: "(route_key, nat list) hmap"
  dropping_runs :: "(nat, nat) hmap"
  large_backlogs :: "nat set"
  chans :: "(nat, 'e subchan) hmap"

definition new_bus :: "'e bus" where
  "new_bus = \<lparr>commands = [], next_id = 0, subscriptions = [], dropping_runs = [], large_backlogs = {}, chans = []\<rparr>"

text \<open>One subscriber of the \<open>retain\<close> of a publication: the event is sent, the outcome recorded and logged, and
  the subscriber kept unless its receiver is gone.\<close>

definition publish_one :: "'e \<Rightarrow> nat \<Rightarrow> 'e bus \<Rightarrow> 'e bus \<times> bus_log list \<times> bool" where
  "publish_one e i b =
     (case hm_get (chans b) i of
        None \<Rightarrow> (b, [], False)
      | Some c \<Rightarrow>
          (case send_event e c of
             (c', out) \<Rightarrow>
               (case record_drop_outcome i out (dropping_runs b) of
                  (dropping, tr) \<Rightarrow>
                    (let b' = b\<lparr>chans := hm_insert i c' (chans b), dropping_runs := dropping\<rparr>;
                         drop_log = (case tr of Some t \<Rightarrow> [LogDrop i t] | None \<Rightarrow> [])
                     in case out of
                          SentOk \<Rightarrow>
                            (case record_backlog_len i (sender_len c') (large_backlogs b) of
                               (large, warn) \<Rightarrow>
                                 (b'\<lparr>large_backlogs := large\<rparr>,
                                  drop_log @ (if warn then [LogBacklog i (sender_len c')] else []), True))
                        | DroppedFull \<Rightarrow> (b', drop_log, True)
                        | ReceiverGone \<Rightarrow> (b'\<lparr>large_backlogs := large_backlogs b - {i}\<rparr>, drop_log, False)))))"

fun publish_loop :: "'e \<Rightarrow> nat list \<Rightarrow> 'e bus \<Rightarrow> 'e bus \<times> bus_log list \<times> nat list" where
  "publish_loop e [] b = (b, [], [])"
| "publish_loop e (i # ids) b =
     (case publish_one e i b of
        (b', l, keep) \<Rightarrow>
          (case publish_loop e ids b' of (b'', ls, kept) \<Rightarrow> (b'', l @ ls, if keep then i # kept else kept)))"

definition set_subscribers :: "route_key \<Rightarrow> nat list \<Rightarrow> (route_key, nat list) hmap \<Rightarrow> (route_key, nat list) hmap" where
  "set_subscribers k ids m = (if ids = [] then hm_remove k m else hm_insert k ids m)"

definition broker_command :: "'e command \<Rightarrow> 'e bus \<Rightarrow> 'e bus \<times> bus_log list" where
  "broker_command cmd b =
     (case cmd of
        Publish k e \<Rightarrow>
          (case hm_get (subscriptions b) k of
             None \<Rightarrow> (b, [])
           | Some ids \<Rightarrow>
               (case publish_loop e ids b of
                  (b', l, kept) \<Rightarrow> (b'\<lparr>subscriptions := set_subscribers k kept (subscriptions b')\<rparr>, l)))
      | Subscribe i k m \<Rightarrow>
          (b\<lparr>subscriptions := hm_insert k ((case hm_get (subscriptions b) k of Some ids \<Rightarrow> ids | None \<Rightarrow> []) @ [i])
               (subscriptions b)\<rparr>, [])
      | Unsubscribe i k \<Rightarrow>
          (let b' = b\<lparr>dropping_runs := hm_remove i (dropping_runs b), large_backlogs := large_backlogs b - {i}\<rparr>
           in (case hm_get (subscriptions b) k of
                 None \<Rightarrow> b'
               | Some ids \<Rightarrow> b'\<lparr>subscriptions := set_subscribers k (filter (\<lambda>j. j \<noteq> i) ids) (subscriptions b)\<rparr>, [])))"

text \<open>\<open>run_broker\<close> takes the oldest command; with none it waits.\<close>

definition broker_turn :: "'e bus \<Rightarrow> 'e bus \<times> bus_log list" where
  "broker_turn b = (case commands b of [] \<Rightarrow> (b, []) | cmd # rest \<Rightarrow> broker_command cmd (b\<lparr>commands := rest\<rparr>))"

section \<open>The handles\<close>

text \<open>A publish or subscribe waits for room in the command channel; here it happens once there is room. The
  subscriber of a route the topic does not carry does not compile: it is no step.\<close>

definition has_room :: "'e bus \<Rightarrow> bool" where
  "has_room b \<longleftrightarrow> length (commands b) < BROKER_COMMAND_CAPACITY"

definition publish :: "route_key \<Rightarrow> 'e \<Rightarrow> 'e bus \<Rightarrow> 'e bus" where
  "publish k e b = (if has_room b then b\<lparr>commands := commands b @ [Publish k e]\<rparr> else b)"

definition subscribe :: "route_key \<Rightarrow> 'e bus \<Rightarrow> 'e bus \<times> nat option" where
  "subscribe k b =
     (case carries (fst k) (snd k) of
        None \<Rightarrow> (b, None)
      | Some m \<Rightarrow>
          if has_room b then
            (b\<lparr>next_id := next_id b + 1,
               chans := hm_insert (next_id b) \<lparr>sub_mode = m, sub_queue = [], sub_alive = True\<rparr> (chans b),
               commands := commands b @ [Subscribe (next_id b) k m]\<rparr>, Some (next_id b))
          else (b, None))"

text \<open>Receiving the next event, and dropping the subscriber: its channel closes at once, its command to the broker is
  sent only if there is room.\<close>

definition receive :: "nat \<Rightarrow> 'e bus \<Rightarrow> 'e bus \<times> 'e option" where
  "receive i b =
     (case hm_get (chans b) i of
        Some c \<Rightarrow>
          (case (sub_alive c, sub_queue c) of
             (True, e # rest) \<Rightarrow> (b\<lparr>chans := hm_insert i (c\<lparr>sub_queue := rest\<rparr>) (chans b)\<rparr>, Some e)
           | _ \<Rightarrow> (b, None))
      | None \<Rightarrow> (b, None))"

definition drain :: "nat \<Rightarrow> 'e bus \<Rightarrow> 'e bus \<times> 'e list" where
  "drain i b =
     (case hm_get (chans b) i of
        Some c \<Rightarrow> (b\<lparr>chans := hm_insert i (c\<lparr>sub_queue := []\<rparr>) (chans b)\<rparr>, sub_queue c)
      | None \<Rightarrow> (b, []))"

definition drop_subscriber :: "nat \<Rightarrow> route_key \<Rightarrow> 'e bus \<Rightarrow> 'e bus" where
  "drop_subscriber i k b =
     (case hm_get (chans b) i of
        None \<Rightarrow> b
      | Some c \<Rightarrow>
          (let b' = b\<lparr>chans := hm_insert i (c\<lparr>sub_queue := [], sub_alive := False\<rparr>) (chans b)\<rparr>
           in if has_room b then b'\<lparr>commands := commands b @ [Unsubscribe i k]\<rparr> else b'))"

section \<open>The bus as a machine\<close>

datatype 'e bus_event =
    DoPublish route_key 'e
  | DoSubscribe route_key
  | DoReceive nat
  | DoDrain nat
  | DoDrop nat route_key
  | BrokerTurn

datatype 'e bus_out =
    Accepted "'e command option"
  | Got nat "'e list"
  | Logged "bus_log list"

definition bus_step :: "'e bus \<Rightarrow> 'e bus_event \<Rightarrow> 'e bus \<times> 'e bus_out" where
  "bus_step b ev =
     (case ev of
        DoPublish k e \<Rightarrow> (publish k e b, Accepted (if has_room b then Some (Publish k e) else None))
      | DoSubscribe k \<Rightarrow> (fst (subscribe k b), Accepted None)
      | DoReceive i \<Rightarrow> (case receive i b of (b', r) \<Rightarrow> (b', Got i (case r of Some e \<Rightarrow> [e] | None \<Rightarrow> [])))
      | DoDrain i \<Rightarrow> (case drain i b of (b', es) \<Rightarrow> (b', Got i es))
      | DoDrop i k \<Rightarrow> (drop_subscriber i k b, Accepted None)
      | BrokerTurn \<Rightarrow> (case broker_turn b of (b', l) \<Rightarrow> (b', Logged l)))"

text \<open>What a run shows of one subscriber and its route: the events published, those received, and the drops that
  ended.\<close>

fun published_on :: "route_key \<Rightarrow> 'e bus_out \<Rightarrow> 'e list" where
  "published_on k (Accepted (Some (Publish k' e))) = (if k' = k then [e] else [])"
| "published_on k r = []"

fun received_by :: "nat \<Rightarrow> 'e bus_out \<Rightarrow> 'e list" where
  "received_by i (Got j es) = (if j = i then es else [])"
| "received_by i r = []"

fun drops_ended :: "nat \<Rightarrow> bus_log list \<Rightarrow> nat" where
  "drops_ended i [] = 0"
| "drops_ended i (LogDrop j (DropStopped n) # ls) = (if j = i then n else 0) + drops_ended i ls"
| "drops_ended i (l # ls) = drops_ended i ls"

fun drops_reported :: "nat \<Rightarrow> 'e bus_out \<Rightarrow> nat" where
  "drops_reported i (Logged ls) = drops_ended i ls"
| "drops_reported i r = 0"

text \<open>Where the events of a route are that a subscriber is still to receive: in its queue, or in the commands the
  broker has not taken, after the subscription if that is among them.\<close>

definition queue_of :: "nat \<Rightarrow> 'e bus \<Rightarrow> 'e list" where
  "queue_of i b = (case hm_get (chans b) i of Some c \<Rightarrow> sub_queue c | None \<Rightarrow> [])"

fun events_on :: "route_key \<Rightarrow> 'e command list \<Rightarrow> 'e list" where
  "events_on k [] = []"
| "events_on k (Publish k' e # cs) = (if k' = k then e # events_on k cs else events_on k cs)"
| "events_on k (c # cs) = events_on k cs"

fun is_sub :: "nat \<Rightarrow> route_key \<Rightarrow> 'e command \<Rightarrow> bool" where
  "is_sub i k (Subscribe j k' m) \<longleftrightarrow> j = i \<and> k' = k"
| "is_sub i k c \<longleftrightarrow> False"

fun is_unsub :: "nat \<Rightarrow> 'e command \<Rightarrow> bool" where
  "is_unsub i (Unsubscribe j k) \<longleftrightarrow> j = i"
| "is_unsub i c \<longleftrightarrow> False"

definition ids_on :: "route_key \<Rightarrow> 'e bus \<Rightarrow> nat list" where
  "ids_on k b = (case hm_get (subscriptions b) k of Some ids \<Rightarrow> ids | None \<Rightarrow> [])"

definition waiting_events :: "nat \<Rightarrow> route_key \<Rightarrow> 'e bus \<Rightarrow> 'e list" where
  "waiting_events i k b =
     (if i \<in> set (ids_on k b) then events_on k (commands b)
      else events_on k (dropWhile (\<lambda>c. \<not> is_sub i k c) (commands b)))"

definition in_flight :: "nat \<Rightarrow> route_key \<Rightarrow> 'e bus \<Rightarrow> 'e list" where
  "in_flight i k b = queue_of i b @ waiting_events i k b"

definition current_drops :: "nat \<Rightarrow> 'e bus \<Rightarrow> nat" where
  "current_drops i b = nat_or_zero (hm_get (dropping_runs b) i)"

text \<open>A subscription that is in force, or on its way to the broker.\<close>

definition copies :: "nat \<Rightarrow> route_key \<Rightarrow> 'e bus \<Rightarrow> nat" where
  "copies i k b = count_list (ids_on k b) i + length (filter (is_sub i k) (commands b))"

definition has_channel :: "nat \<Rightarrow> delivery_mode \<Rightarrow> 'e bus \<Rightarrow> bool" where
  "has_channel i m b \<longleftrightarrow>
     (case hm_get (chans b) i of
        None \<Rightarrow> False
      | Some c \<Rightarrow> sub_alive c \<and> sub_mode c = m \<and> (m = Lossy \<longrightarrow> length (sub_queue c) \<le> LOSSY_SUBSCRIBER_CAPACITY)) \<and>
     (m = Lossless \<longrightarrow> hm_get (dropping_runs b) i = None)"

definition subscribed :: "nat \<Rightarrow> route_key \<Rightarrow> delivery_mode \<Rightarrow> 'e bus \<Rightarrow> bool" where
  "subscribed i k m b \<longleftrightarrow>
     has_channel i m b \<and> i < next_id b \<and> (\<forall>c\<in>set (commands b). \<not> is_unsub i c) \<and>
     (\<forall>k'. copies i k' b = (if k' = k then 1 else 0))"

text \<open>Every id in use was given out.\<close>

fun command_id :: "'e command \<Rightarrow> nat option" where
  "command_id (Publish k e) = None"
| "command_id (Subscribe i k m) = Some i"
| "command_id (Unsubscribe i k) = Some i"

definition ids_given :: "'e bus \<Rightarrow> bool" where
  "ids_given b \<longleftrightarrow>
     (\<forall>i\<ge>next_id b. hm_get (chans b) i = None \<and> hm_get (dropping_runs b) i = None \<and>
        (\<forall>k. i \<notin> set (ids_on k b)) \<and> (\<forall>c\<in>set (commands b). command_id c \<noteq> Some i))"

section \<open>One publication\<close>

lemma drops_ended_append: "drops_ended i (xs @ ys) = drops_ended i xs + drops_ended i ys"
  by (induction i xs rule: drops_ended.induct) auto

lemma publish_one_other:
  assumes "publish_one e j b = (b', l, keep)" "i \<noteq> j"
  shows "hm_get (chans b') i = hm_get (chans b) i \<and> hm_get (dropping_runs b') i = hm_get (dropping_runs b) i \<and>
         drops_ended i l = 0"
  using assms
  by (auto simp: publish_one_def record_drop_outcome_def Let_def
      split: option.splits prod.splits send_result.splits if_splits)

lemma publish_one_frame:
  assumes "publish_one e j b = (b', l, keep)"
  shows "commands b' = commands b \<and> next_id b' = next_id b \<and> subscriptions b' = subscriptions b"
  using assms by (auto simp: publish_one_def Let_def split: option.splits prod.splits send_result.splits)

text \<open>A live subscriber is kept, and its event is queued, or dropped and counted.\<close>

lemma publish_one_self:
  assumes "publish_one e i b = (b', l, keep)" "has_channel i m b"
  shows "keep \<and> has_channel i m b' \<and>
         (queue_of i b' = queue_of i b @ [e] \<and> drops_ended i l + current_drops i b' = current_drops i b \<or>
          m = Lossy \<and> queue_of i b' = queue_of i b \<and> drops_ended i l = 0 \<and> current_drops i b' = Suc (current_drops i b))"
proof -
  obtain c where c: "hm_get (chans b) i = Some c" "sub_alive c" "sub_mode c = m"
    using assms(2) by (auto simp: has_channel_def split: option.splits)
  show ?thesis
    using assms c
    by (cases m)
      (auto simp: publish_one_def send_event_def record_drop_outcome_def has_channel_def queue_of_def
        current_drops_def nat_or_zero_def Let_def split: if_splits option.splits prod.splits)
qed

lemma publish_loop_frame:
  "publish_loop e ids b = (b', l, kept) \<Longrightarrow>
     commands b' = commands b \<and> next_id b' = next_id b \<and> subscriptions b' = subscriptions b"
proof (induction ids arbitrary: b b' l kept)
  case (Cons j ids)
  obtain b1 l1 keep where one: "publish_one e j b = (b1, l1, keep)" by (cases "publish_one e j b") auto
  obtain b2 l2 kept2 where rest: "publish_loop e ids b1 = (b2, l2, kept2)" by (cases "publish_loop e ids b1") auto
  from Cons.prems one rest have "b' = b2" by simp
  with Cons.IH [OF rest] publish_one_frame [OF one] show ?case by simp
qed simp

lemma publish_loop_other:
  "publish_loop e ids b = (b', l, kept) \<Longrightarrow> i \<notin> set ids \<Longrightarrow>
     hm_get (chans b') i = hm_get (chans b) i \<and> hm_get (dropping_runs b') i = hm_get (dropping_runs b) i \<and>
     drops_ended i l = 0 \<and> count_list kept i = 0"
proof (induction ids arbitrary: b b' l kept)
  case (Cons j ids)
  obtain b1 l1 keep where one: "publish_one e j b = (b1, l1, keep)" by (cases "publish_one e j b") auto
  obtain b2 l2 kept2 where rest: "publish_loop e ids b1 = (b2, l2, kept2)" by (cases "publish_loop e ids b1") auto
  show ?case
    using Cons.prems one rest Cons.IH [OF rest] publish_one_other [OF one, of i]
    by (auto simp: drops_ended_append)
qed simp

text \<open>The whole publication does to a live subscriber what its own turn does.\<close>

definition took_event :: "'e \<Rightarrow> nat \<Rightarrow> delivery_mode \<Rightarrow> 'e bus \<Rightarrow> 'e bus \<Rightarrow> bus_log list \<Rightarrow> bool" where
  "took_event e i m b b' l \<longleftrightarrow>
     has_channel i m b' \<and>
     (queue_of i b' = queue_of i b @ [e] \<and> drops_ended i l + current_drops i b' = current_drops i b \<or>
      m = Lossy \<and> queue_of i b' = queue_of i b \<and> drops_ended i l = 0 \<and> current_drops i b' = Suc (current_drops i b))"

lemma has_channel_cong:
  "hm_get (chans b') i = hm_get (chans b) i \<Longrightarrow> hm_get (dropping_runs b') i = hm_get (dropping_runs b) i \<Longrightarrow>
     has_channel i m b' = has_channel i m b \<and> queue_of i b' = queue_of i b \<and> current_drops i b' = current_drops i b"
  by (simp add: has_channel_def queue_of_def current_drops_def)

lemma publish_loop_self:
  "publish_loop e ids b = (b', l, kept) \<Longrightarrow> count_list ids i = 1 \<Longrightarrow> has_channel i m b \<Longrightarrow>
     took_event e i m b b' l \<and> count_list kept i = 1"
proof (induction ids arbitrary: b b' l kept)
  case (Cons j ids)
  obtain b1 l1 keep where one: "publish_one e j b = (b1, l1, keep)" by (cases "publish_one e j b") auto
  obtain b2 l2 kept2 where rest: "publish_loop e ids b1 = (b2, l2, kept2)" by (cases "publish_loop e ids b1") auto
  have b': "b' = b2" "l = l1 @ l2" "kept = (if keep then j # kept2 else kept2)" using Cons.prems(1) one rest by auto
  show ?case
  proof (cases "j = i")
    case True
    then have "i \<notin> set ids" using Cons.prems(2) by (simp add: count_list_0_iff)
    with publish_loop_other [OF rest] have o: "hm_get (chans b2) i = hm_get (chans b1) i"
      "hm_get (dropping_runs b2) i = hm_get (dropping_runs b1) i" "drops_ended i l2 = 0" "count_list kept2 i = 0"
      by auto
    note s = publish_one_self [OF one [unfolded True] Cons.prems(3)]
    show ?thesis using s o(3,4) has_channel_cong [OF o(1,2), of m] b' True
      by (auto simp: took_event_def drops_ended_append)
  next
    case False
    then have o: "hm_get (chans b1) i = hm_get (chans b) i" "hm_get (dropping_runs b1) i = hm_get (dropping_runs b) i"
      "drops_ended i l1 = 0" using publish_one_other [OF one, of i] by auto
    note c = has_channel_cong [OF o(1,2), of m]
    have "took_event e i m b1 b2 l2 \<and> count_list kept2 i = 1"
      using Cons.IH [OF rest] Cons.prems(2,3) False c by simp
    then show ?thesis using b' c o(3) False by (auto simp: took_event_def drops_ended_append)
  qed
qed simp

section \<open>One turn of the broker\<close>

lemma ids_on_set [simp]:
  "ids_on k (b\<lparr>subscriptions := set_subscribers k' ids (subscriptions b0)\<rparr>) =
     (if k = k' then ids else ids_on k (b\<lparr>subscriptions := subscriptions b0\<rparr>))"
  by (simp add: ids_on_def set_subscribers_def)

lemma ids_on_frame:
  "subscriptions b' = subscriptions b \<Longrightarrow> ids_on k b' = ids_on k b"
  by (simp add: ids_on_def)

lemma subscribed_parts:
  assumes "subscribed i k m b"
  shows "has_channel i m b" "i < next_id b" "\<forall>c\<in>set (commands b). \<not> is_unsub i c"
    "copies i k b = 1" "k' \<noteq> k \<Longrightarrow> copies i k' b = 0"
  using assms by (simp_all add: subscribed_def del: split_paired_All)

lemma registered_once:
  assumes "subscribed i k m b" "i \<in> set (ids_on k b)"
  shows "count_list (ids_on k b) i = 1 \<and> filter (is_sub i k) (commands b) = []"
proof -
  have "0 < count_list (ids_on k b) i" using assms(2) by (metis count_list_0_iff gr0I)
  with subscribed_parts(4) [OF assms(1)] show ?thesis by (auto simp: copies_def simp flip: length_0_conv)
qed

lemma elsewhere_absent:
  assumes "subscribed i k m b" "k' \<noteq> k"
  shows "i \<notin> set (ids_on k' b)" "\<forall>c\<in>set (commands b). \<not> is_sub i k' c"
  using subscribed_parts(5) [OF assms] by (auto simp: copies_def count_list_0_iff filter_empty_conv)

lemma subseq_skip [simp]: "subseq (xs @ ys) (xs @ e # ys)"
  by (induction xs) auto

text \<open>What any step does to a live subscription: it stays, nothing is reordered or duplicated, and what is missing
  has been counted.\<close>

definition flows ::
  "nat \<Rightarrow> route_key \<Rightarrow> delivery_mode \<Rightarrow> 'e list \<Rightarrow> 'e bus \<Rightarrow> 'e list \<Rightarrow> 'e bus \<Rightarrow> nat \<Rightarrow> bool" where
  "flows i k m taken b given b' n \<longleftrightarrow>
     subscribed i k m b' \<and> subseq (given @ in_flight i k b') (in_flight i k b @ taken) \<and>
     length given + length (in_flight i k b') + n + current_drops i b' =
       length (in_flight i k b) + length taken + current_drops i b \<and>
     (m = Lossless \<longrightarrow> n = 0)"

lemma flows_quiet:
  assumes s: "subscribed i k m b"
    and same: "hm_get (chans b') i = hm_get (chans b) i" "hm_get (dropping_runs b') i = hm_get (dropping_runs b) i"
      "next_id b' = next_id b" "\<And>k'. count_list (ids_on k' b') i = count_list (ids_on k' b) i"
    and cmds: "\<forall>c\<in>set (commands b'). \<not> is_unsub i c" "\<And>k'. filter (is_sub i k') (commands b') = filter (is_sub i k') (commands b)"
    and w: "waiting_events i k b' = waiting_events i k b @ taken"
  shows "flows i k m taken b [] b' 0"
  using s has_channel_cong [OF same(1,2), of m] same cmds w
  by (simp add: flows_def subscribed_def copies_def in_flight_def)

lemma count_list_eq_mem: "count_list xs i = count_list ys i \<Longrightarrow> i \<in> set xs \<longleftrightarrow> i \<in> set ys"
  by (metis count_list_0_iff)

lemma publish_turn:
  assumes s: "subscribed i k m b" and c: "commands b = Publish k' e # rest"
    and r: "broker_command (Publish k' e) (b\<lparr>commands := rest\<rparr>) = (b', l)"
  shows "flows i k m [] b [] b' (drops_ended i l)"
proof (cases "hm_get (subscriptions b) k'")
  case None
  then have b': "b' = b\<lparr>commands := rest\<rparr>" "l = []" using r by (auto simp: broker_command_def)
  have "k' = k \<Longrightarrow> i \<notin> set (ids_on k b)" using None by (simp add: ids_on_def)
  then have "waiting_events i k b' = waiting_events i k b" unfolding b' by (auto simp: waiting_events_def c ids_on_def)
  with s c have "flows i k m [] b [] b' 0"
    by (intro flows_quiet) (auto simp: b' ids_on_def subscribed_def)
  then show ?thesis by (simp add: b')
next
  case (Some ids)
  let ?b = "b\<lparr>commands := rest\<rparr>"
  obtain b1 l1 kept where loop: "publish_loop e ids ?b = (b1, l1, kept)" by (cases "publish_loop e ids ?b") auto
  have b': "b' = b1\<lparr>subscriptions := set_subscribers k' kept (subscriptions b1)\<rparr>" "l = l1"
    using r Some loop by (auto simp: broker_command_def)
  note frame = publish_loop_frame [OF loop]
  have ids: "ids_on k' b = ids" using Some by (simp add: ids_on_def)
  have ids': "ids_on k'' b' = (if k'' = k' then kept else ids_on k'' b)" for k''
    using frame by (simp add: b' ids_on_def set_subscribers_def)
  have rest: "commands b' = rest" "next_id b' = next_id b" using frame by (simp_all add: b')
  show ?thesis
  proof (cases "i \<in> set ids")
    case False
    note o = publish_loop_other [OF loop False]
    have cnt: "count_list (ids_on k'' b') i = count_list (ids_on k'' b) i" for k''
      using o False ids by (auto simp: ids' count_list_0_iff)
    have "i \<in> set (ids_on k b') \<longleftrightarrow> i \<in> set (ids_on k b)" using cnt [of k] by (rule count_list_eq_mem)
    moreover have "i \<in> set (ids_on k b) \<Longrightarrow> k' \<noteq> k" using ids False by auto
    ultimately have "waiting_events i k b' = waiting_events i k b" by (auto simp: waiting_events_def rest c)
    with s c o frame have "flows i k m [] b [] b' 0"
      by (intro flows_quiet cnt) (simp_all add: subscribed_def b')
    with o show ?thesis by (simp add: b')
  next
    case True
    then have k: "k' = k" using elsewhere_absent(1) [OF s, of k'] ids by auto
    have one: "count_list ids i = 1" using registered_once [OF s] True ids k by simp
    have h: "has_channel i m ?b" "queue_of i ?b = queue_of i b" "current_drops i ?b = current_drops i b"
      using s by (simp_all add: subscribed_def has_channel_def queue_of_def current_drops_def)
    note t = publish_loop_self [OF loop one h(1)]
    have b1: "has_channel i m b' = has_channel i m b1" "queue_of i b' = queue_of i b1" "current_drops i b' = current_drops i b1"
      by (simp_all add: b' has_channel_def queue_of_def current_drops_def)
    have "i \<in> set kept" using t by (metis count_list_0_iff zero_neq_one)
    then have w: "waiting_events i k b = e # waiting_events i k b'"
      using True ids k by (simp add: waiting_events_def rest c ids')
    have "copies i k'' b' = copies i k'' b" for k''
      using t one ids by (simp add: copies_def rest c ids')
    then have sub: "subscribed i k m b'"
      using s t c by (simp add: subscribed_def b1 rest took_event_def)
    have z: "m = Lossless \<Longrightarrow> drops_ended i l1 = 0" using t h(3) s
      by (auto simp: took_event_def current_drops_def has_channel_def subscribed_def nat_or_zero_def)
    show ?thesis using t sub z h(2,3) by (auto simp: flows_def in_flight_def w b1 took_event_def b'(2))
  qed
qed

lemma subscribe_turn:
  assumes s: "subscribed i k m b" and c: "commands b = Subscribe j k' m' # rest"
    and r: "broker_command (Subscribe j k' m') (b\<lparr>commands := rest\<rparr>) = (b', l)"
  shows "flows i k m [] b [] b' (drops_ended i l)"
proof -
  have b': "l = []" "commands b' = rest" "chans b' = chans b" "dropping_runs b' = dropping_runs b" "next_id b' = next_id b"
    using r by (auto simp: broker_command_def)
  have ids': "ids_on k'' b' = ids_on k'' b @ (if k'' = k' then [j] else [])" for k''
    using r by (auto simp: broker_command_def ids_on_def split: option.splits)
  show ?thesis
  proof (cases "j = i")
    case True
    then have k: "k' = k" using elsewhere_absent(2) [OF s, of k'] c by auto
    have "copies i k b = 1" by (rule subscribed_parts(4) [OF s])
    then have n: "i \<notin> set (ids_on k b)" "filter (is_sub i k) rest = []"
      by (auto simp: copies_def c True k count_list_0_iff)
    have w: "waiting_events i k b' = waiting_events i k b"
      using n by (simp add: waiting_events_def b' ids' c True k)
    have "copies i k'' b' = copies i k'' b" for k''
      using n by (auto simp: copies_def b' ids' c True k)
    with s w c show ?thesis
      by (simp add: flows_def subscribed_def has_channel_def in_flight_def queue_of_def current_drops_def b')
  next
    case False
    have "waiting_events i k b' = waiting_events i k b" using False by (auto simp: waiting_events_def b' ids' c)
    with s c have "flows i k m [] b [] b' 0"
      using False by (intro flows_quiet) (auto simp: b' ids' subscribed_def)
    then show ?thesis by (simp add: b')
  qed
qed

lemma unsubscribe_turn:
  assumes s: "subscribed i k m b" and c: "commands b = Unsubscribe j k' # rest"
    and r: "broker_command (Unsubscribe j k') (b\<lparr>commands := rest\<rparr>) = (b', l)"
  shows "flows i k m [] b [] b' (drops_ended i l)"
proof -
  have j: "i \<noteq> j" using subscribed_parts(3) [OF s] c by auto
  have b': "l = []" "commands b' = rest" "chans b' = chans b" "hm_get (dropping_runs b') i = hm_get (dropping_runs b) i"
    "next_id b' = next_id b"
    using r j by (auto simp: broker_command_def Let_def split: option.splits)
  have ids': "ids_on k'' b' = (if k'' = k' then filter (\<lambda>x. x \<noteq> j) (ids_on k'' b) else ids_on k'' b)" for k''
    using r by (cases "hm_get (subscriptions b) k'") (auto simp: broker_command_def Let_def ids_on_def set_subscribers_def)
  have f: "count_list (filter (\<lambda>x. x \<noteq> j) xs) i = count_list xs i" for xs using j by (induction xs) auto
  have "waiting_events i k b' = waiting_events i k b" using j by (auto simp: waiting_events_def b' ids' c)
  with s c j have "flows i k m [] b [] b' 0"
    by (intro flows_quiet) (auto simp: b' ids' f subscribed_def)
  then show ?thesis by (simp add: b')
qed

lemma flows_refl: "subscribed i k m b \<Longrightarrow> flows i k m [] b [] b 0"
  by (simp add: flows_def)

lemma broker_flows:
  assumes "subscribed i k m b" "broker_turn b = (b', l)"
  shows "flows i k m [] b [] b' (drops_ended i l)"
proof (cases "commands b")
  case Nil
  with assms show ?thesis by (simp add: broker_turn_def flows_refl)
next
  case (Cons cmd rest)
  with assms(2) have r: "broker_command cmd (b\<lparr>commands := rest\<rparr>) = (b', l)" by (simp add: broker_turn_def)
  show ?thesis
    using Cons r publish_turn [OF assms(1)] subscribe_turn [OF assms(1)] unsubscribe_turn [OF assms(1)]
    by (cases cmd) auto
qed

section \<open>The steps of the handles\<close>

lemma events_on_append [simp]: "events_on k (xs @ ys) = events_on k xs @ events_on k ys"
  by (induction k xs rule: events_on.induct) auto

lemma waiting_append:
  assumes "subscribed i k m b" "commands b' = commands b @ cs" "ids_on k b' = ids_on k b"
  shows "waiting_events i k b' = waiting_events i k b @ events_on k cs"
proof (cases "i \<in> set (ids_on k b)")
  case True
  then show ?thesis using assms by (simp add: waiting_events_def)
next
  case False
  then have "filter (is_sub i k) (commands b) \<noteq> []"
    using subscribed_parts(4) [OF assms(1)] by (auto simp: copies_def count_list_0_iff)
  then obtain c where "c \<in> set (commands b)" "is_sub i k c" by (auto simp: filter_empty_conv)
  then have "dropWhile (\<lambda>c. \<not> is_sub i k c) (commands b @ cs) = dropWhile (\<lambda>c. \<not> is_sub i k c) (commands b) @ cs"
    by (intro dropWhile_append1) auto
  then show ?thesis using assms False by (simp add: waiting_events_def)
qed

lemma publish_flows:
  assumes "subscribed i k m b"
  shows "flows i k m (if has_room b \<and> k' = k then [e] else []) b [] (publish k' e b) 0"
proof (cases "has_room b")
  case True
  let ?b = "publish k' e b"
  have c: "commands ?b = commands b @ [Publish k' e]" "ids_on k'' ?b = ids_on k'' b" for k''
    using True by (simp_all add: publish_def ids_on_def)
  show ?thesis
    using assms True waiting_append [OF assms c(1) c(2)]
    by (intro flows_quiet) (auto simp: c publish_def subscribed_def ids_on_def)
next
  case False
  then show ?thesis using assms by (simp add: publish_def flows_refl)
qed

lemma subscribe_flows:
  assumes "subscribed i k m b"
  shows "flows i k m [] b [] (fst (subscribe k' b)) 0"
proof (cases "carries (fst k') (snd k') = None \<or> \<not> has_room b")
  case True
  then show ?thesis using assms by (auto simp: subscribe_def flows_refl split: option.splits)
next
  case False
  then obtain m' where m': "carries (fst k') (snd k') = Some m'" "has_room b" by auto
  let ?b = "fst (subscribe k' b)"
  have i: "i < next_id b" using assms by (rule subscribed_parts(2))
  have b: "commands ?b = commands b @ [Subscribe (next_id b) k' m']" "\<And>k''. ids_on k'' ?b = ids_on k'' b"
    "next_id ?b = Suc (next_id b)" "dropping_runs ?b = dropping_runs b" "hm_get (chans ?b) i = hm_get (chans b) i"
    using m' i by (simp_all add: subscribe_def ids_on_def)
  have "copies i k'' ?b = copies i k'' b" for k'' using i by (auto simp: copies_def b)
  then have "subscribed i k m ?b"
    using assms i has_channel_cong [OF b(5), of m] by (simp add: subscribed_def b)
  then show ?thesis
    using waiting_append [OF assms b(1) b(2)] has_channel_cong [OF b(5), of m] by (simp add: flows_def in_flight_def b)
qed

text \<open>Giving out what is at the head of the queue.\<close>

lemma take_flows:
  assumes s: "subscribed i k m b" and c: "hm_get (chans b) i = Some c" "sub_queue c = es @ rest"
    and b': "b' = b\<lparr>chans := hm_insert i (c\<lparr>sub_queue := rest\<rparr>) (chans b)\<rparr>"
  shows "flows i k m [] b es b' 0"
proof -
  have "ids_on k'' b' = ids_on k'' b" for k'' by (simp add: b' ids_on_def)
  then have w: "waiting_events i k b' = waiting_events i k b" "\<And>k''. copies i k'' b' = copies i k'' b"
    by (simp_all add: waiting_events_def copies_def b')
  then show ?thesis using s c
    by (auto simp: flows_def subscribed_def has_channel_def in_flight_def queue_of_def current_drops_def b')
qed

lemma chan_other_flows:
  assumes s: "subscribed i k m b" and j: "j \<noteq> i"
    and b': "chans b' = hm_insert j c (chans b)" "next_id b' = next_id b" "subscriptions b' = subscriptions b"
      "dropping_runs b' = dropping_runs b" "commands b' = commands b @ cs"
    and cs: "cs = [] \<or> cs = [Unsubscribe j k']"
  shows "flows i k m [] b [] b' 0"
proof -
  have ids: "\<And>k''. ids_on k'' b' = ids_on k'' b" by (simp add: b' ids_on_def)
  show ?thesis using s j cs waiting_append [OF s b'(5) ids]
    by (intro flows_quiet) (auto simp: b' ids subscribed_def)
qed

lemma receive_flows:
  assumes s: "subscribed i k m b" and r: "receive j b = (b', x)"
  shows "flows i k m [] b (if j = i then (case x of Some e \<Rightarrow> [e] | None \<Rightarrow> []) else []) b' 0"
proof (cases "j = i")
  case True
  then show ?thesis
    using r flows_refl [OF s]
    by (auto simp: receive_def split: option.splits bool.splits list.splits intro!: take_flows [OF s])
next
  case False
  then show ?thesis
    using r flows_refl [OF s]
    by (auto simp: receive_def split: option.splits bool.splits list.splits intro!: chan_other_flows [OF s, where j = j and cs = "[]"])
qed

lemma drain_flows:
  assumes s: "subscribed i k m b" and r: "drain j b = (b', es)"
  shows "flows i k m [] b (if j = i then es else []) b' 0"
proof (cases "j = i")
  case True
  then show ?thesis
    using r flows_refl [OF s] by (auto simp: drain_def split: option.splits intro!: take_flows [OF s])
next
  case False
  then show ?thesis
    using r flows_refl [OF s]
    by (auto simp: drain_def split: option.splits intro!: chan_other_flows [OF s, where j = j and cs = "[]"])
qed

lemma drop_flows:
  assumes s: "subscribed i k m b" and j: "j \<noteq> i"
  shows "flows i k m [] b [] (drop_subscriber j k' b) 0"
  using flows_refl [OF s] j
  by (auto simp: drop_subscriber_def Let_def split: option.splits
      intro: chan_other_flows [OF s, where j = j and cs = "[]"]
        chan_other_flows [OF s, where j = j and cs = "[Unsubscribe j k']" and k' = k'])

definition keeps_subscriber :: "nat \<Rightarrow> 'e bus_event \<Rightarrow> bool" where
  "keeps_subscriber i ev \<longleftrightarrow> (case ev of DoDrop j k \<Rightarrow> j \<noteq> i | _ \<Rightarrow> True)"

lemma step_flows:
  assumes "subscribed i k m b" "keeps_subscriber i ev"
  shows "flows i k m (published_on k (snd (bus_step b ev))) b (received_by i (snd (bus_step b ev)))
           (fst (bus_step b ev)) (drops_reported i (snd (bus_step b ev)))"
proof (cases ev)
  case (DoPublish k' e)
  then show ?thesis using publish_flows [OF assms(1), of k' e] by (auto simp: bus_step_def split: if_splits)
next
  case (DoSubscribe k')
  then show ?thesis using subscribe_flows [OF assms(1), of k'] by (simp add: bus_step_def)
next
  case (DoReceive j)
  then show ?thesis using receive_flows [OF assms(1), of j] by (auto simp: bus_step_def split: prod.split)
next
  case (DoDrain j)
  then show ?thesis using drain_flows [OF assms(1), of j] by (auto simp: bus_step_def split: prod.split)
next
  case (DoDrop j k')
  then show ?thesis using drop_flows [OF assms(1), of j k'] assms(2) by (simp add: bus_step_def keeps_subscriber_def)
next
  case BrokerTurn
  then show ?thesis using broker_flows [OF assms(1)] by (auto simp: bus_step_def split: prod.split)
qed

section \<open>Ids are given out once\<close>

lemma ids_given_cong:
  assumes "ids_given b" "next_id b \<le> next_id b'"
    "\<And>j. next_id b' \<le> j \<Longrightarrow> hm_get (chans b) j = None \<Longrightarrow> hm_get (chans b') j = None"
    "\<And>j. next_id b' \<le> j \<Longrightarrow> hm_get (chans b) j = None \<Longrightarrow> hm_get (dropping_runs b) j = None \<Longrightarrow> hm_get (dropping_runs b') j = None"
    "\<And>k j. j \<in> set (ids_on k b') \<Longrightarrow> j \<in> set (ids_on k b) \<or> j < next_id b'"
    "\<And>c j. c \<in> set (commands b') \<Longrightarrow> c \<in> set (commands b) \<or> (\<forall>j. command_id c = Some j \<longrightarrow> j < next_id b')"
  shows "ids_given b'"
  unfolding ids_given_def
proof (intro allI impI)
  fix j assume j: "next_id b' \<le> j"
  then have old: "hm_get (chans b) j = None" "hm_get (dropping_runs b) j = None"
    "\<And>k. j \<notin> set (ids_on k b)" "\<And>c. c \<in> set (commands b) \<Longrightarrow> command_id c \<noteq> Some j"
    using assms(1,2) by (auto simp: ids_given_def simp del: split_paired_All)
  show "hm_get (chans b') j = None \<and> hm_get (dropping_runs b') j = None \<and>
    (\<forall>k. j \<notin> set (ids_on k b')) \<and> (\<forall>c\<in>set (commands b'). command_id c \<noteq> Some j)"
  proof (intro conjI allI ballI)
    show "j \<notin> set (ids_on k b')" for k using assms(5) [of j k] old(3) [of k] j by auto
    show "command_id c \<noteq> Some j" if "c \<in> set (commands b')" for c
      using assms(6) [OF that] old(4) [of c] j by auto
  qed (use assms(3,4) old j in auto)
qed

lemma publish_one_ids:
  assumes "publish_one e i b = (b', l, keep)" "hm_get (chans b) j = None"
  shows "hm_get (chans b') j = None \<and> (hm_get (dropping_runs b) j = None \<longrightarrow> hm_get (dropping_runs b') j = None)"
  using assms
  by (auto simp: publish_one_def record_drop_outcome_def Let_def
      split: option.splits prod.splits send_result.splits if_splits)

lemma publish_loop_ids:
  "publish_loop e ids b = (b', l, kept) \<Longrightarrow>
     set kept \<subseteq> set ids \<and>
     (hm_get (chans b) j = None \<longrightarrow> hm_get (chans b') j = None \<and>
        (hm_get (dropping_runs b) j = None \<longrightarrow> hm_get (dropping_runs b') j = None))"
proof (induction ids arbitrary: b b' l kept)
  case (Cons i ids)
  obtain b1 l1 keep where one: "publish_one e i b = (b1, l1, keep)" by (cases "publish_one e i b") auto
  obtain b2 l2 kept2 where rest: "publish_loop e ids b1 = (b2, l2, kept2)" by (cases "publish_loop e ids b1") auto
  show ?case using Cons.prems one rest Cons.IH [OF rest] publish_one_ids [OF one, of j] by (auto split: if_splits)
qed simp

lemma ids_on_commands [simp]: "ids_on k (b\<lparr>commands := cs\<rparr>) = ids_on k b"
  by (simp add: ids_on_def)

lemma turn_ids: "ids_given b \<Longrightarrow> ids_given (fst (broker_turn b))"
proof (cases "commands b")
  case (Cons cmd rest)
  assume g: "ids_given b"
  obtain b' l where r: "broker_command cmd (b\<lparr>commands := rest\<rparr>) = (b', l)"
    by (cases "broker_command cmd (b\<lparr>commands := rest\<rparr>)") auto
  have "ids_given b'"
  proof (cases cmd)
    case (Publish k e)
    show ?thesis
    proof (cases "hm_get (subscriptions b) k")
      case None
      then have "b' = b\<lparr>commands := rest\<rparr>" using r Publish by (simp add: broker_command_def)
      then show ?thesis by (intro ids_given_cong [OF g]) (auto simp: Cons)
    next
      case (Some ids)
      obtain b1 l1 kept where loop: "publish_loop e ids (b\<lparr>commands := rest\<rparr>) = (b1, l1, kept)"
        by (cases "publish_loop e ids (b\<lparr>commands := rest\<rparr>)") auto
      have b': "b' = b1\<lparr>subscriptions := set_subscribers k kept (subscriptions b1)\<rparr>"
        using r Some loop Publish by (auto simp: broker_command_def)
      note frame = publish_loop_frame [OF loop] and ids = publish_loop_ids [OF loop]
      have "ids_on k'' b' = (if k'' = k then kept else ids_on k'' b)" for k''
        using frame by (simp add: b' ids_on_def set_subscribers_def)
      moreover have "ids_on k b = ids" using Some by (simp add: ids_on_def)
      ultimately show ?thesis using frame ids Cons by (intro ids_given_cong [OF g]) (auto simp: b' split: if_splits)
    qed
  next
    case (Subscribe i k m)
    then have i: "i < next_id b" using g Cons by (auto simp: ids_given_def not_le [symmetric] simp del: split_paired_All)
    have "ids_on k'' b' = ids_on k'' b @ (if k'' = k then [i] else [])" for k''
      using r Subscribe by (auto simp: broker_command_def ids_on_def split: option.splits)
    then show ?thesis using i r Subscribe Cons
      by (intro ids_given_cong [OF g]) (auto simp: broker_command_def split: if_splits)
  next
    case (Unsubscribe i k)
    have "ids_on k'' b' = (if k'' = k then filter (\<lambda>x. x \<noteq> i) (ids_on k'' b) else ids_on k'' b)" for k''
      using r Unsubscribe
      by (cases "hm_get (subscriptions b) k") (auto simp: broker_command_def Let_def ids_on_def set_subscribers_def)
    then show ?thesis using r Unsubscribe Cons
      by (intro ids_given_cong [OF g]) (auto simp: broker_command_def Let_def split: if_splits option.splits)
  qed
  with r Cons show ?thesis by (simp add: broker_turn_def)
qed (simp add: broker_turn_def)

lemma step_ids: "ids_given b \<Longrightarrow> ids_given (fst (bus_step b ev))"
proof (cases ev)
  case BrokerTurn
  assume "ids_given b"
  with turn_ids [of b] BrokerTurn show ?thesis by (auto simp: bus_step_def split: prod.split)
next
  case (DoPublish k e)
  assume g: "ids_given b"
  then show ?thesis using DoPublish
    by (auto simp: bus_step_def publish_def ids_on_def intro!: ids_given_cong [OF g])
next
  case (DoSubscribe k)
  assume g: "ids_given b"
  then show ?thesis using DoSubscribe
    by (auto simp: bus_step_def subscribe_def ids_on_def intro!: ids_given_cong [OF g] split: option.splits)
next
  case (DoReceive i)
  assume g: "ids_given b"
  then show ?thesis using DoReceive
    by (auto simp: bus_step_def receive_def ids_on_def intro!: ids_given_cong [OF g]
        split: option.splits prod.splits bool.splits list.splits)
next
  case (DoDrain i)
  assume g: "ids_given b"
  then show ?thesis using DoDrain
    by (auto simp: bus_step_def drain_def ids_on_def intro!: ids_given_cong [OF g] split: option.splits prod.splits)
next
  case (DoDrop i k)
  assume g: "ids_given b"
  have "hm_get (chans b) i = Some c \<Longrightarrow> i < next_id b" for c
    using g by (auto simp: ids_given_def not_le [symmetric] simp del: split_paired_All)
  then show ?thesis using DoDrop g
    by (auto simp: bus_step_def drop_subscriber_def Let_def ids_on_def intro!: ids_given_cong [OF g] split: option.splits)
qed

interpretation bus_machine: machine bus_step ids_given
  by unfold_locales (rule step_ids)

lemma new_bus_ids: "ids_given new_bus"
  by (simp add: ids_given_def new_bus_def ids_on_def)

text \<open>A subscription just made is on its way to the broker, with nothing in flight.\<close>

lemma new_subscription:
  assumes "ids_given b0" "subscribe k b0 = (b, Some i)" "carries (fst k) (snd k) = Some m"
  shows "subscribed i k m b \<and> in_flight i k b = [] \<and> current_drops i b = 0"
proof -
  have room: "has_room b0" and i: "i = next_id b0" using assms(2,3) by (auto simp: subscribe_def split: if_splits)
  have b: "b = b0\<lparr>next_id := next_id b0 + 1, chans := hm_insert i \<lparr>sub_mode = m, sub_queue = [], sub_alive = True\<rparr> (chans b0),
      commands := commands b0 @ [Subscribe i k m]\<rparr>"
    using assms(2,3) room i by (simp add: subscribe_def)
  have g: "hm_get (dropping_runs b0) i = None" "\<And>k. i \<notin> set (ids_on k b0)"
    "\<And>c. c \<in> set (commands b0) \<Longrightarrow> command_id c \<noteq> Some i"
    using assms(1) i by (auto simp: ids_given_def simp del: split_paired_All)
  have n: "\<not> is_sub i k' c \<and> \<not> is_unsub i c" if "c \<in> set (commands b0)" for c k'
    using g(3) [OF that] by (cases c) auto
  then have f: "filter (is_sub i k') (commands b0) = []" for k' by (simp add: filter_empty_conv)
  have ids: "ids_on k' b = ids_on k' b0" for k' by (simp add: b ids_on_def)
  have "dropWhile (\<lambda>c. \<not> is_sub i k c) (commands b0 @ [Subscribe i k m]) = [Subscribe i k m]"
    using n by (subst dropWhile_append2) auto
  then have "in_flight i k b = []" using g(2) by (simp add: in_flight_def queue_of_def waiting_events_def ids) (simp add: b)
  moreover have "copies i k' b = (if k' = k then 1 else 0)" for k'
    using g(2) f by (simp add: copies_def ids count_list_0_iff) (simp add: b f)
  moreover have "has_channel i m b" "current_drops i b = 0" "i < next_id b" "\<forall>c\<in>set (commands b). \<not> is_unsub i c"
    using g(1) n i by (auto simp: b has_channel_def current_drops_def nat_or_zero_def)
  ultimately show ?thesis by (simp add: subscribed_def)
qed

section \<open>A pipe that may lose, and counts what it loses\<close>

locale leaky_pipe =
  fixes step :: "'s \<Rightarrow> 'e \<Rightarrow> 's \<times> 'o"
    and inv :: "'s \<Rightarrow> bool"
    and allowed :: "'e \<Rightarrow> bool"
    and content :: "'s \<Rightarrow> 'd list"
    and taken :: "'o \<Rightarrow> 'd list"
    and given :: "'o \<Rightarrow> 'd list"
    and lost :: "'o \<Rightarrow> nat"
    and missing :: "'s \<Rightarrow> nat"
  assumes keeps: "inv s \<Longrightarrow> allowed e \<Longrightarrow> inv (fst (step s e))"
    and in_order: "inv s \<Longrightarrow> allowed e \<Longrightarrow>
      subseq (given (snd (step s e)) @ content (fst (step s e))) (content s @ taken (snd (step s e)))"
    and counted: "inv s \<Longrightarrow> allowed e \<Longrightarrow>
      length (given (snd (step s e))) + length (content (fst (step s e))) + lost (snd (step s e)) + missing (fst (step s e)) =
      length (content s) + length (taken (snd (step s e))) + missing s"
begin

lemma run_leaky:
  "inv s \<Longrightarrow> \<forall>e\<in>set es. allowed e \<Longrightarrow>
     inv (fst (run_machine step s es)) \<and>
     subseq (concat (map given (snd (run_machine step s es))) @ content (fst (run_machine step s es)))
       (content s @ concat (map taken (snd (run_machine step s es)))) \<and>
     length (concat (map given (snd (run_machine step s es)))) + length (content (fst (run_machine step s es))) +
       sum_list (map lost (snd (run_machine step s es))) + missing (fst (run_machine step s es)) =
     length (content s) + length (concat (map taken (snd (run_machine step s es)))) + missing s"
proof (induction es arbitrary: s)
  case (Cons e es)
  let ?s1 = "fst (step s e)" and ?o1 = "snd (step s e)"
  have e: "allowed e" and es: "\<forall>e\<in>set es. allowed e" using Cons.prems(2) by auto
  note ih = Cons.IH [OF keeps [OF Cons.prems(1) e] es]
  let ?gs = "concat (map given (snd (run_machine step ?s1 es)))" and ?ts = "concat (map taken (snd (run_machine step ?s1 es)))"
  have "subseq (?gs @ content (fst (run_machine step ?s1 es))) (content ?s1 @ ?ts)" using ih by blast
  then have "subseq (given ?o1 @ ?gs @ content (fst (run_machine step ?s1 es))) (given ?o1 @ content ?s1 @ ?ts)"
    by (intro list_emb_append_mono [OF subseq_order.refl])
  also have "given ?o1 @ content ?s1 @ ?ts = (given ?o1 @ content ?s1) @ ?ts" by simp
  also have "subseq ((given ?o1 @ content ?s1) @ ?ts) ((content s @ taken ?o1) @ ?ts)"
    by (rule list_emb_append_mono [OF in_order [OF Cons.prems(1) e] subseq_order.refl])
  finally (subseq_order.trans) show ?case using ih counted [OF Cons.prems(1) e] by simp
qed simp

lemma run_without_loss:
  assumes "inv s" "\<forall>e\<in>set es. allowed e"
    and "sum_list (map lost (snd (run_machine step s es))) + missing (fst (run_machine step s es)) = missing s"
  shows "concat (map given (snd (run_machine step s es))) @ content (fst (run_machine step s es)) =
         content s @ concat (map taken (snd (run_machine step s es)))"
  using run_leaky [OF assms(1,2)] assms(3) by (intro subseq_same_length) auto

end

interpretation bus_pipe: leaky_pipe bus_step "subscribed i k m" "keeps_subscriber i" "in_flight i k"
  "published_on k" "received_by i" "drops_reported i" "current_drops i" for i k m
proof unfold_locales
  fix b :: "'e bus" and ev :: "'e bus_event"
  assume "subscribed i k m b" "keeps_subscriber i ev"
  note f = step_flows [OF this, unfolded flows_def]
  show "subscribed i k m (fst (bus_step b ev))"
    and "subseq (received_by i (snd (bus_step b ev)) @ in_flight i k (fst (bus_step b ev)))
      (in_flight i k b @ published_on k (snd (bus_step b ev)))"
    and "length (received_by i (snd (bus_step b ev))) + length (in_flight i k (fst (bus_step b ev))) +
        drops_reported i (snd (bus_step b ev)) + current_drops i (fst (bus_step b ev)) =
      length (in_flight i k b) + length (published_on k (snd (bus_step b ev))) + current_drops i b"
    using f by blast+
qed

lemma lossless_never_drops:
  "subscribed i k Lossless b \<Longrightarrow> \<forall>ev\<in>set es. keeps_subscriber i ev \<Longrightarrow>
     sum_list (map (drops_reported i) (snd (run_machine bus_step b es))) = 0 \<and>
     current_drops i (fst (run_machine bus_step b es)) = 0"
proof (induction es arbitrary: b)
  case Nil
  then show ?case
    by (simp add: subscribed_def has_channel_def current_drops_def nat_or_zero_def del: split_paired_All)
next
  case (Cons ev es)
  then have "flows i k Lossless (published_on k (snd (bus_step b ev))) b (received_by i (snd (bus_step b ev)))
      (fst (bus_step b ev)) (drops_reported i (snd (bus_step b ev)))" by (intro step_flows) auto
  with Cons show ?case by (auto simp: flows_def)
qed

definition bus_after :: "'e bus_event list \<Rightarrow> 'e bus" where
  "bus_after es = fst (run_machine bus_step new_bus es)"

lemma subscription_starts:
  assumes "subscribe k (bus_after es0) = (b, Some i)" "carries (fst k) (snd k) = Some m"
  shows "subscribed i k m b" "in_flight i k b = []" "current_drops i b = 0"
  using new_subscription [OF _ assms] bus_machine.run_inv [OF new_bus_ids, of es0] by (auto simp: bus_after_def)

section \<open>What the bus promises\<close>

text \<open>C10: On a lossless route the bus neither loses, nor reorders, nor duplicates, nor misroutes an event: at any
  moment after a subscription is made, whatever other subscribers do, what the subscriber has received followed by what is on
  its way to it is exactly what was published on its route since then.
\<close>

theorem lossless_route_loses_nothing:
  assumes "carries (fst k) (snd k) = Some Lossless"
    and "subscribe k (bus_after es0) = (b, Some i)"
    and "\<forall>ev\<in>set es. keeps_subscriber i ev"
  shows "concat (map (received_by i) (snd (run_machine bus_step b es))) @ in_flight i k (fst (run_machine bus_step b es)) =
         concat (map (published_on k) (snd (run_machine bus_step b es)))"
proof -
  note s = subscription_starts [OF assms(2,1)]
  show ?thesis using bus_pipe.run_without_loss [OF s(1) assms(3)] lossless_never_drops [OF s(1) assms(3)] s(2,3) by simp
qed

lemma lossless_route_loses_nothing_witness:
  "concat (map (received_by 0) (snd (run_machine bus_step (fst (subscribe (Inbox, NotificationEvent) (bus_after ([]::nat bus_event list))))
       [DoPublish (Inbox, NotificationEvent) 7, BrokerTurn, DoPublish (Inbox, NotificationEvent) 8, BrokerTurn, DoReceive 0]))) @
     in_flight 0 (Inbox, NotificationEvent)
       (fst (run_machine bus_step (fst (subscribe (Inbox, NotificationEvent) (bus_after ([]::nat bus_event list))))
         [DoPublish (Inbox, NotificationEvent) 7, BrokerTurn, DoPublish (Inbox, NotificationEvent) 8, BrokerTurn, DoReceive 0])) =
   [7, 8]"
proof -
  let ?k = "(Inbox, NotificationEvent)"
  let ?b0 = "bus_after ([]::nat bus_event list)"
  have room: "has_room ?b0" by (simp add: bus_after_def new_bus_def has_room_def BROKER_COMMAND_CAPACITY_def)
  have s: "subscribe ?k ?b0 = (fst (subscribe ?k ?b0), Some 0)"
    using room by (simp add: subscribe_def bus_after_def new_bus_def)
  show ?thesis
    by (subst lossless_route_loses_nothing [OF _ s])
      (simp_all add: keeps_subscriber_def bus_step_def subscribe_def publish_def has_room_def bus_after_def new_bus_def
        BROKER_COMMAND_CAPACITY_def broker_turn_def broker_command_def receive_def split: prod.split)
qed

text \<open>C36: On a lossy route a slow subscriber costs only itself and the loss is bounded and accounted for: it gets a
  subsequence of what was published, in order, at most the channel's capacity waits in its queue, and the drops
  reported when a run of drops ended, with those of the run going on, are exactly the events it misses.
\<close>

theorem lossy_route_counts_its_losses:
  assumes "carries (fst k) (snd k) = Some Lossy"
    and "subscribe k (bus_after es0) = (b, Some i)"
    and "\<forall>ev\<in>set es. keeps_subscriber i ev"
  shows "subseq (concat (map (received_by i) (snd (run_machine bus_step b es))) @ in_flight i k (fst (run_machine bus_step b es)))
           (concat (map (published_on k) (snd (run_machine bus_step b es)))) \<and>
         length (concat (map (received_by i) (snd (run_machine bus_step b es)))) +
           length (in_flight i k (fst (run_machine bus_step b es))) +
           sum_list (map (drops_reported i) (snd (run_machine bus_step b es))) + current_drops i (fst (run_machine bus_step b es)) =
         length (concat (map (published_on k) (snd (run_machine bus_step b es)))) \<and>
         length (queue_of i (fst (run_machine bus_step b es))) \<le> LOSSY_SUBSCRIBER_CAPACITY"
proof -
  note s = subscription_starts [OF assms(2,1)]
  note r = bus_pipe.run_leaky [OF s(1) assms(3)]
  then have "has_channel i Lossy (fst (run_machine bus_step b es))" by (auto simp: subscribed_def simp del: split_paired_All)
  then have "length (queue_of i (fst (run_machine bus_step b es))) \<le> LOSSY_SUBSCRIBER_CAPACITY"
    by (auto simp: has_channel_def queue_of_def split: option.splits)
  with r s(2,3) show ?thesis by simp
qed

lemma lossy_route_counts_its_losses_witness:
  "subseq (concat (map (received_by 0) (snd (run_machine bus_step (fst (subscribe (Workspace, WorkspaceEvent) (bus_after ([]::nat bus_event list))))
       [DoPublish (Workspace, WorkspaceEvent) 7, BrokerTurn, BrokerTurn, DoReceive 0]))) @
     in_flight 0 (Workspace, WorkspaceEvent)
       (fst (run_machine bus_step (fst (subscribe (Workspace, WorkspaceEvent) (bus_after ([]::nat bus_event list))))
         [DoPublish (Workspace, WorkspaceEvent) 7, BrokerTurn, BrokerTurn, DoReceive 0]))) [7]"
proof -
  let ?k = "(Workspace, WorkspaceEvent)"
  let ?b0 = "bus_after ([]::nat bus_event list)"
  let ?es = "[DoPublish ?k 7, BrokerTurn, BrokerTurn, DoReceive 0]"
  have room: "has_room ?b0" by (simp add: bus_after_def new_bus_def has_room_def BROKER_COMMAND_CAPACITY_def)
  have s: "subscribe ?k ?b0 = (fst (subscribe ?k ?b0), Some 0)"
    using room by (simp add: subscribe_def bus_after_def new_bus_def)
  have "concat (map (published_on ?k) (snd (run_machine bus_step (fst (subscribe ?k ?b0)) ?es))) = [7]"
    by (simp add: bus_step_def subscribe_def publish_def has_room_def bus_after_def new_bus_def
        BROKER_COMMAND_CAPACITY_def broker_turn_def broker_command_def receive_def split: prod.split)
  with lossy_route_counts_its_losses [OF _ s, of ?es] show ?thesis by (simp add: keeps_subscriber_def)
qed

text \<open>The broker's backlog of commands shrinks with every turn, and an empty one leaves only the queue.\<close>

lemma broker_turn_commands: "commands (fst (broker_turn b)) = tl (commands b)"
proof (cases "commands b")
  case (Cons cmd rest)
  have "commands (fst (broker_command cmd (b\<lparr>commands := rest\<rparr>))) = rest"
  proof (cases cmd)
    case (Publish k e)
    then show ?thesis
      by (auto simp: broker_command_def dest: publish_loop_frame split: option.splits prod.splits)
  qed (auto simp: broker_command_def Let_def split: option.splits)
  with Cons show ?thesis by (simp add: broker_turn_def)
qed (simp add: broker_turn_def)

lemma broker_turns_commands:
  "commands (fst (run_machine bus_step b (replicate n BrokerTurn))) = drop n (commands b)"
proof (induction n arbitrary: b)
  case (Suc n)
  have "fst (bus_step b BrokerTurn) = fst (broker_turn b)" by (simp add: bus_step_def split: prod.split)
  with Suc show ?case by (simp add: broker_turn_commands drop_Suc)
qed simp

lemma waiting_none: "commands b = [] \<Longrightarrow> waiting_events i k b = []"
  by (simp add: waiting_events_def)

text \<open>Nothing published on a lossless route stays on its way for ever: once the broker has taken as many turns as
  there are commands and the subscriber has drained its queue, it has received everything published on its route since
  it subscribed, in order.
\<close>

theorem lossless_route_delivers_everything:
  assumes "carries (fst k) (snd k) = Some Lossless"
    and "subscribe k (bus_after es0) = (b, Some i)"
    and "\<forall>ev\<in>set es. keeps_subscriber i ev"
    and "length (commands (fst (run_machine bus_step b es))) \<le> n"
  shows "concat (map (received_by i) (snd (run_machine bus_step b (es @ replicate n BrokerTurn @ [DoDrain i])))) =
         concat (map (published_on k) (snd (run_machine bus_step b es)))"
proof -
  let ?b1 = "fst (run_machine bus_step b es)"
  let ?b2 = "fst (run_machine bus_step ?b1 (replicate n BrokerTurn))"
  let ?all = "es @ replicate n BrokerTurn @ [DoDrain i]"
  note s = subscription_starts [OF assms(2,1)]
  have ok: "\<forall>ev\<in>set ?all. keeps_subscriber i ev" using assms(3) by (auto simp: keeps_subscriber_def)
  note eq = bus_pipe.run_without_loss [OF s(1) ok] and z = lossless_never_drops [OF s(1) ok]
  have fin: "fst (run_machine bus_step b ?all) = fst (drain i ?b2)"
    by (simp add: run_machine_append split_def Let_def bus_step_def)
  have "commands ?b2 = []" using assms(4) by (simp add: broker_turns_commands)
  then have "in_flight i k (fst (drain i ?b2)) = []"
    by (auto simp: in_flight_def drain_def queue_of_def waiting_none split: option.splits)
  moreover have "concat (map (published_on k) (snd (run_machine bus_step b' (replicate n BrokerTurn)))) = []" for b'
  proof (induction n arbitrary: b')
    case (Suc n)
    then show ?case by (simp add: bus_step_def split: prod.split)
  qed simp
  then have "concat (map (published_on k) (snd (run_machine bus_step b ?all))) =
      concat (map (published_on k) (snd (run_machine bus_step b es)))"
    by (simp add: run_machine_append split_def Let_def bus_step_def)
  ultimately show ?thesis using eq z s(2,3) fin by simp
qed

lemma lossless_route_delivers_everything_witness:
  "concat (map (received_by 0) (snd (run_machine bus_step (fst (subscribe (Inbox, NotificationEvent) (bus_after ([]::nat bus_event list))))
     ([DoPublish (Inbox, NotificationEvent) 7, DoPublish (Inbox, AgentResultEvent) 9, DoPublish (Inbox, NotificationEvent) 8] @
      replicate 4 BrokerTurn @ [DoDrain 0])))) = [7, 8]"
proof -
  let ?k = "(Inbox, NotificationEvent)"
  let ?b0 = "bus_after ([]::nat bus_event list)"
  have room: "has_room ?b0" by (simp add: bus_after_def new_bus_def has_room_def BROKER_COMMAND_CAPACITY_def)
  have s: "subscribe ?k ?b0 = (fst (subscribe ?k ?b0), Some 0)"
    using room by (simp add: subscribe_def bus_after_def new_bus_def)
  show ?thesis
    by (subst lossless_route_delivers_everything [OF _ s])
      (simp_all add: keeps_subscriber_def bus_step_def subscribe_def publish_def has_room_def bus_after_def new_bus_def
        BROKER_COMMAND_CAPACITY_def)
qed

section \<open>The directory of conversations\<close>

text \<open>
  A source is an interface's object, known by its address. Registering gives a guard that holds the endpoint and the
  source; dropping the guard removes the registration only if the source is still its own.
\<close>

record known_conversation =
  kc_id :: ustring
  kc_kind :: conversation_kind
  kc_label :: ustring

datatype find_error = NoSource ustring | ListFailed ustring ustring | NoConversation ustring ustring

type_synonym directory = "(ustring, nat) hmap"

definition dir_register :: "ustring \<Rightarrow> nat \<Rightarrow> directory \<Rightarrow> directory" where
  "dir_register endpoint source d = hm_insert endpoint source d"

definition drop_registration :: "ustring \<Rightarrow> nat \<Rightarrow> directory \<Rightarrow> directory" where
  "drop_registration endpoint source d =
     (if hm_get d endpoint = Some source then hm_remove endpoint d else d)"

definition dir_source :: "ustring \<Rightarrow> directory \<Rightarrow> nat option" where
  "dir_source endpoint d = hm_get d endpoint"

text \<open>\<open>find\<close>: \<open>list\<close> is what a source answers when asked for its conversations.\<close>

definition dir_find ::
  "(nat \<Rightarrow> ustring + known_conversation list) \<Rightarrow> ustring \<Rightarrow> ustring \<Rightarrow> directory \<Rightarrow> find_error + known_conversation" where
  "dir_find list endpoint i d =
     (case dir_source endpoint d of
        None \<Rightarrow> Inl (NoSource endpoint)
      | Some s \<Rightarrow>
          (case list s of
             Inl e \<Rightarrow> Inl (ListFailed endpoint e)
           | Inr cs \<Rightarrow>
               (case find (\<lambda>c. kc_id c = i) cs of
                  None \<Rightarrow> Inl (NoConversation i endpoint)
                | Some c \<Rightarrow> Inr c)))"

text \<open>Adapters come and go: each life registers one source, and its guard is dropped at most once, later.\<close>

datatype dir_event = Start ustring nat | Stop ustring nat

definition dir_step :: "directory \<Rightarrow> dir_event \<Rightarrow> directory" where
  "dir_step d ev = (case ev of Start n s \<Rightarrow> dir_register n s d | Stop n s \<Rightarrow> drop_registration n s d)"

lemma not_stopped_stays:
  "hm_get d n = Some s \<Longrightarrow> (\<And>s'. Start n s' \<notin> set evs) \<Longrightarrow> Stop n s \<notin> set evs \<Longrightarrow>
     hm_get (foldl dir_step d evs) n = Some s"
proof (induction evs arbitrary: d)
  case (Cons ev evs)
  then have "hm_get (dir_step d ev) n = Some s"
    by (cases ev) (auto simp: dir_step_def dir_register_def drop_registration_def)
  with Cons show ?case by simp
qed simp

text \<open>A restarted chat adapter keeps its registration: whatever guards of earlier lives, or of other endpoints, are dropped
  after it started, the endpoint resolves to the newest source until its own guard is dropped, and from then on to none.
\<close>

theorem newest_registration_survives:
  assumes "\<And>s'. Start n s' \<notin> set evs" "Stop n s \<notin> set evs"
  shows "dir_source n (foldl dir_step d (Start n s # evs)) = Some s \<and>
         dir_source n (foldl dir_step d (Start n s # evs @ [Stop n s])) = None"
proof -
  have "hm_get (foldl dir_step (dir_step d (Start n s)) evs) n = Some s"
    using assms by (intro not_stopped_stays) (auto simp: dir_step_def dir_register_def)
  then show ?thesis by (simp add: dir_source_def) (simp add: dir_step_def drop_registration_def)
qed

lemma newest_registration_survives_witness:
  "dir_source (lit ''teams'') (foldl dir_step [(lit ''teams'', 1)] (Start (lit ''teams'') 2 # [Stop (lit ''teams'') 1])) = Some 2"
  using newest_registration_survives [of "lit ''teams''" "[Stop (lit ''teams'') 1]" 2 "[(lit ''teams'', 1)]"] by simp

end
