(* ===== verification/Turn_Stream.thy ===== *)
theory Turn_Stream
  imports Stream_Decoding
begin

text \<open>
  The streamed output of one model call on its way to the main conversation (\<open>crates/agent/src/stream.rs\<close>, and the
  part of \<open>call_model\<close> in \<open>turn.rs\<close> that publishes it): deltas of one kind are gathered for about 50 milliseconds and
  published as one piece.
\<close>

section \<open>Gathering deltas\<close>

definition FLUSH_INTERVAL :: int where "FLUSH_INTERVAL = 50 * 1000000"

datatype stream_piece = PieceText ustring | PieceThinking ustring | PieceRestart

datatype pending_kind = TextKind | ThinkingKind

record pending_piece =
  pend_kind :: pending_kind
  pend_text :: ustring
  pend_flush_at :: int

type_synonym coalescer = "pending_piece option"

definition into_piece :: "pending_piece \<Rightarrow> stream_piece" where
  "into_piece p = (case pend_kind p of TextKind \<Rightarrow> PieceText (pend_text p) | ThinkingKind \<Rightarrow> PieceThinking (pend_text p))"

definition take_pending :: "coalescer \<Rightarrow> stream_piece list \<times> coalescer" where
  "take_pending c = (case c of Some p \<Rightarrow> [into_piece p] | None \<Rightarrow> [], None)"

definition append_delta :: "pending_kind \<Rightarrow> ustring \<Rightarrow> int \<Rightarrow> coalescer \<Rightarrow> stream_piece list \<times> coalescer" where
  "append_delta k t now c =
     (if t = [] then ([], c)
      else
        let fresh = (case take_pending c of
              (ready, _) \<Rightarrow> (ready, Some \<lparr>pend_kind = k, pend_text = t, pend_flush_at = now + FLUSH_INTERVAL\<rparr>))
        in case c of
             Some p \<Rightarrow> if pend_kind p = k then ([], Some (p\<lparr>pend_text := pend_text p @ t\<rparr>)) else fresh
           | None \<Rightarrow> fresh)"

definition coalesce :: "stream_delta \<Rightarrow> int \<Rightarrow> coalescer \<Rightarrow> stream_piece list \<times> coalescer" where
  "coalesce d now c =
     (let (ready, c) = (case d of
          TextDelta t \<Rightarrow> append_delta TextKind t now c
        | ThinkingDelta t \<Rightarrow> append_delta ThinkingKind t now c
        | Restart \<Rightarrow> ([PieceRestart], None))
      in case c of
           Some p \<Rightarrow> if pend_flush_at p \<le> now then (ready @ fst (take_pending c), None) else (ready, c)
         | None \<Rightarrow> (ready, c))"

section \<open>Publishing while the call runs\<close>

text \<open>What wakes the loop of \<open>call_model\<close>: a delta, or the deadline of what is buffered. \<open>streamed\<close> says whether
  something stands on the page that a discarded response must void.\<close>

datatype call_moment = DeltaArrives stream_delta int | FlushDue

definition publish_pieces :: "stream_piece list \<Rightarrow> bool \<Rightarrow> bool" where
  "publish_pieces ps streamed = foldl (\<lambda>_ p. p \<noteq> PieceRestart) streamed ps"

definition call_moment_step :: "call_moment \<Rightarrow> coalescer \<Rightarrow> stream_piece list \<times> coalescer" where
  "call_moment_step m c = (case m of DeltaArrives d now \<Rightarrow> coalesce d now c | FlushDue \<Rightarrow> take_pending c)"

fun stream_loop :: "call_moment list \<Rightarrow> coalescer \<Rightarrow> bool \<Rightarrow> stream_piece list \<times> coalescer \<times> bool" where
  "stream_loop [] c streamed = ([], c, streamed)"
| "stream_loop (m # ms) c streamed =
     (case call_moment_step m c of
        (ps, c') \<Rightarrow>
          (case stream_loop ms c' (publish_pieces ps streamed) of
             (qs, c'', streamed') \<Rightarrow> (ps @ qs, c'', streamed')))"

text \<open>The loop, then the deltas still queued when the call ended (at \<open>now\<close>), then what is buffered.\<close>

definition stream_call :: "call_moment list \<Rightarrow> stream_delta list \<Rightarrow> int \<Rightarrow> stream_piece list \<times> bool" where
  "stream_call moments queued now =
     (case stream_loop (moments @ map (\<lambda>d. DeltaArrives d now) queued) None False of
        (ps, c, streamed) \<Rightarrow>
          (case take_pending c of (last_ps, _) \<Rightarrow> (ps @ last_ps, publish_pieces last_ps streamed)))"

section \<open>What is shown\<close>

fun piece_delta :: "stream_piece \<Rightarrow> stream_delta" where
  "piece_delta (PieceText t) = TextDelta t"
| "piece_delta (PieceThinking t) = ThinkingDelta t"
| "piece_delta PieceRestart = Restart"

fun moment_deltas :: "call_moment \<Rightarrow> stream_delta list" where
  "moment_deltas (DeltaArrives d now) = [d]"
| "moment_deltas FlushDue = []"

definition buffered :: "coalescer \<Rightarrow> stream_delta list" where
  "buffered c = map piece_delta (fst (take_pending c))"

definition coalescer_ok :: "coalescer \<Rightarrow> bool" where
  "coalescer_ok c \<longleftrightarrow> (case c of Some p \<Rightarrow> pend_text p \<noteq> [] | None \<Rightarrow> True)"

lemma buffered_None [simp]: "buffered None = []"
  by (simp add: buffered_def take_pending_def)

lemma take_pending_screen:
  "take_pending c = (ps, c') \<Longrightarrow> c' = None \<and> map piece_delta ps = buffered c"
  by (auto simp: take_pending_def buffered_def)

lemma append_screen:
  assumes "append_delta k t now c = (ps, c')"
  shows "screen (map piece_delta ps @ buffered c') s =
      screen (buffered c @ [case k of TextKind \<Rightarrow> TextDelta t | ThinkingKind \<Rightarrow> ThinkingDelta t]) s"
  using assms
  by (cases c; cases k; cases "t = []"; cases s)
    (auto simp: append_delta_def take_pending_def buffered_def into_piece_def screen_append
      split: if_splits pending_kind.splits)

lemma coalesce_screen:
  assumes "coalesce d now c = (ps, c')"
  shows "screen (map piece_delta ps @ buffered c') s = screen (buffered c @ [d]) s"
proof -
  obtain ready c1 where mid: "(case d of TextDelta t \<Rightarrow> append_delta TextKind t now c
        | ThinkingDelta t \<Rightarrow> append_delta ThinkingKind t now c | Restart \<Rightarrow> ([PieceRestart], None)) = (ready, c1)"
    by (metis surj_pair)
  have "screen (map piece_delta ready @ buffered c1) s = screen (buffered c @ [d]) s"
  proof (cases d)
    case (TextDelta t)
    then show ?thesis using mid append_screen [of TextKind t now c ready c1 s] by simp
  next
    case (ThinkingDelta t)
    then show ?thesis using mid append_screen [of ThinkingKind t now c ready c1 s] by simp
  next
    case Restart
    then show ?thesis using mid by (auto simp: screen_append)
  qed
  moreover have "map piece_delta ps @ buffered c' = map piece_delta ready @ buffered c1"
    using assms mid by (auto simp: coalesce_def buffered_def take_pending_def split: option.splits if_splits)
  ultimately show ?thesis by simp
qed

lemma moment_screen:
  assumes "call_moment_step m c = (ps, c')"
  shows "screen (map piece_delta ps @ buffered c') s = screen (buffered c @ moment_deltas m) s"
  using assms by (cases m) (auto simp: call_moment_step_def screen_append dest: take_pending_screen intro: coalesce_screen [unfolded screen_append])

lemma stream_loop_screen:
  "stream_loop ms c b = (ps, c', b') \<Longrightarrow>
     screen (map piece_delta ps @ buffered c') s = screen (buffered c @ concat (map moment_deltas ms)) s"
proof (induction ms arbitrary: c b ps s)
  case (Cons m ms)
  obtain qs c1 where one: "call_moment_step m c = (qs, c1)" by (cases "call_moment_step m c") auto
  obtain rs c2 b2 where rest: "stream_loop ms c1 (publish_pieces qs b) = (rs, c2, b2)"
    by (cases "stream_loop ms c1 (publish_pieces qs b)") auto
  have p: "ps = qs @ rs" "c' = c2" "b' = b2" using Cons.prems one rest by auto
  have "screen (map piece_delta ps @ buffered c') s = screen (map piece_delta rs @ buffered c2) (screen (map piece_delta qs) s)"
    by (simp add: p screen_append)
  also have "\<dots> = screen (concat (map moment_deltas ms)) (screen (map piece_delta qs @ buffered c1) s)"
    using Cons.IH [of c1 "publish_pieces qs b" rs "screen (map piece_delta qs) s"] rest p(2,3)
    by (simp add: screen_append)
  finally show ?case using moment_screen [OF one] by (simp add: screen_append)
qed simp

text \<open>Something stands on the page exactly when the last piece published is not a restart, since no piece is empty.\<close>

definition solid :: "stream_piece \<Rightarrow> bool" where
  "solid p \<longleftrightarrow> p \<noteq> PieceText [] \<and> p \<noteq> PieceThinking []"

lemma coalesce_solid:
  assumes "coalesce d now c = (ps, c')" "coalescer_ok c"
  shows "coalescer_ok c' \<and> list_all solid ps"
  using assms
  by (cases d; cases c)
    (auto simp: coalesce_def append_delta_def take_pending_def coalescer_ok_def into_piece_def solid_def Let_def
      split: if_splits pending_kind.splits option.splits)

lemma take_pending_solid: "coalescer_ok c \<Longrightarrow> list_all solid (fst (take_pending c))"
  by (auto simp: take_pending_def coalescer_ok_def solid_def into_piece_def split: option.splits pending_kind.splits)

lemma stream_loop_solid:
  "stream_loop ms c b = (ps, c', b') \<Longrightarrow> coalescer_ok c \<Longrightarrow>
     coalescer_ok c' \<and> list_all solid ps \<and> b' = publish_pieces ps b"
proof (induction ms arbitrary: c b ps)
  case (Cons m ms)
  obtain qs c1 where one: "call_moment_step m c = (qs, c1)" by (cases "call_moment_step m c") auto
  obtain rs c2 b2 where rest: "stream_loop ms c1 (publish_pieces qs b) = (rs, c2, b2)"
    by (cases "stream_loop ms c1 (publish_pieces qs b)") auto
  have "coalescer_ok c1 \<and> list_all solid qs"
    using one Cons.prems(2) coalesce_solid take_pending_solid [of c]
    by (cases m) (auto simp: call_moment_step_def take_pending_def coalescer_ok_def)
  with Cons.IH [OF _ , of c1 "publish_pieces qs b" rs] rest Cons.prems one
  show ?case by (auto simp: publish_pieces_def)
qed (simp add: publish_pieces_def)

lemma on_page_solid:
  "list_all solid ps \<Longrightarrow> publish_pieces ps False \<longleftrightarrow> screen (map piece_delta ps) ([], []) \<noteq> ([], [])"
proof (induction ps rule: rev_induct)
  case (snoc p ps)
  have "screen (map piece_delta (ps @ [p])) ([], []) = screen [piece_delta p] (screen (map piece_delta ps) ([], []))"
    by (simp add: screen_append)
  then show ?case using snoc.prems
    by (cases p; cases "screen (map piece_delta ps) ([], [])") (auto simp: publish_pieces_def solid_def)
qed (simp add: publish_pieces_def)

text \<open>Batching never changes what the reader sees. Whenever the deltas of a call arrive and whenever the buffer is
  flushed, the pieces published show exactly the text and the reasoning of the deltas, restarts included; and the call knows
  exactly whether something of it stands on the page.\<close>

theorem batching_keeps_the_screen:
  "case stream_call moments queued now of (ps, streamed) \<Rightarrow>
     screen (map piece_delta ps) s = screen (concat (map moment_deltas moments) @ queued) s \<and>
     (streamed \<longleftrightarrow> screen (map piece_delta ps) ([], []) \<noteq> ([], []))"
proof -
  let ?ms = "moments @ map (\<lambda>d. DeltaArrives d now) queued"
  obtain ps c b where loop: "stream_loop ?ms None False = (ps, c, b)" by (cases "stream_loop ?ms None False") auto
  obtain qs c' where tail: "take_pending c = (qs, c')" by (cases "take_pending c") auto
  have d: "concat (map moment_deltas ?ms) = concat (map moment_deltas moments) @ queued" by (simp add: comp_def)
  have sc: "screen (map piece_delta (ps @ qs)) s = screen (concat (map moment_deltas moments) @ queued) s"
    using stream_loop_screen [OF loop, of s] take_pending_screen [OF tail] d by (simp add: screen_append)
  note sol = stream_loop_solid [OF loop]
  have "list_all solid (ps @ qs)" using sol take_pending_solid [of c] tail by (simp add: coalescer_ok_def)
  moreover have "publish_pieces qs b = publish_pieces (ps @ qs) False" using sol by (simp add: coalescer_ok_def publish_pieces_def)
  ultimately show ?thesis using on_page_solid [of "ps @ qs"] sc loop tail by (simp add: stream_call_def)
qed

end
