(* ===== verification/Tool_Results.thy ===== *)
theory Tool_Results
  imports Inference_Types Rust_Numbers "HOL-Library.Sublist"
begin

text \<open>
  What happens to the output of a tool before anyone sees it: the values of the agent's keys are replaced
  (\<open>crates/config/src/agent_keys/redact.rs\<close>), and a result too long for the history is saved to a file and
  replaced by its head and its tail (\<open>crates/agent/src/tool_result_store.rs\<close>). The base64 encodings of a value are a
  parameter; so is the path a result was saved to, \<open>None\<close> when it could not be.
\<close>

section \<open>Redaction\<close>

definition marker_for :: "ustring \<Rightarrow> ustring" where
  "marker_for name = lit ''[agent-key:'' @ name @ lit '']''"

definition hex_upper :: "nat \<Rightarrow> nat" where
  "hex_upper d = (if d < 10 then 48 + d else 55 + d)"

definition unreserved :: "nat \<Rightarrow> bool" where
  "unreserved b \<longleftrightarrow> is_ascii_digit b \<or> is_ascii_upper b \<or> is_ascii_lower b \<or> b \<in> {45, 46, 95, 126}"

definition percent_encode :: "nat list \<Rightarrow> ustring" where
  "percent_encode bs = concat (map (\<lambda>b. if unreserved b then [b] else [37, hex_upper (b div 16), hex_upper (b mod 16)]) bs)"

definition add_new :: "'a list \<Rightarrow> 'a \<Rightarrow> 'a list" where
  "add_new out x = (if x \<in> set out then out else out @ [x])"

definition encodings :: "(ustring \<Rightarrow> ustring list) \<Rightarrow> (ustring \<Rightarrow> nat list) \<Rightarrow> ustring \<Rightarrow> ustring list" where
  "encodings b64s bytes v = foldl add_new [v] (b64s v @ [percent_encode (bytes v)])"

type_synonym redactor = "(ustring \<times> ustring) list"

definition add_pattern :: "redactor \<Rightarrow> ustring \<times> ustring \<Rightarrow> redactor" where
  "add_pattern ps p = (if fst p \<in> fst ` set ps then ps else ps @ [p])"

definition sort_patterns :: "redactor \<Rightarrow> redactor" where
  "sort_patterns ps = rev (sort_key (\<lambda>p. utf8_len (fst p)) (rev ps))"

definition from_entries :: "(ustring \<Rightarrow> ustring list) \<Rightarrow> (ustring \<times> ustring) list \<Rightarrow> redactor" where
  "from_entries enc es =
     sort_patterns (foldl add_pattern []
       (concat (map (\<lambda>(name, v). if v = [] then [] else map (\<lambda>n. (n, marker_for name)) (enc v)) es)))"

definition with_entry :: "(ustring \<Rightarrow> ustring list) \<Rightarrow> ustring \<Rightarrow> ustring \<Rightarrow> redactor \<Rightarrow> redactor" where
  "with_entry enc name v r = sort_patterns (foldl add_pattern r (from_entries enc [(name, v)]))"

text \<open>\<open>str::replace\<close>: the leftmost occurrence, then the next one after it. The pattern is not empty.\<close>

function replace_str :: "ustring \<Rightarrow> ustring \<Rightarrow> ustring \<Rightarrow> ustring" where
  "replace_str p m [] = []"
| "replace_str p m (c # cs) =
     (if p \<noteq> [] \<and> prefix p (c # cs) then m @ replace_str p m (drop (length p) (c # cs)) else c # replace_str p m cs)"
  by pat_completeness auto
termination
  by (relation "measure (\<lambda>(p, m, s). length s)") (auto simp: Suc_le_eq)

definition redact :: "redactor \<Rightarrow> ustring \<Rightarrow> ustring" where
  "redact ps s = foldl (\<lambda>out (p, m). if sublist p out then replace_str p m out else out) s ps"

section \<open>Nothing secret is left\<close>

lemma no_overlap:
  assumes "sublist q (m @ ys)" "m \<noteq> []" "q \<noteq> []" "last m \<notin> set q"
  shows "sublist q m \<or> sublist q ys"
proof -
  consider "sublist q m" | "sublist q ys" | a b where "q = a @ b" "suffix a m" "prefix b ys"
    using assms(1) by (auto simp: sublist_append)
  then show ?thesis
  proof cases
    case 3
    show ?thesis
    proof (cases "a = []")
      case True
      with 3 show ?thesis by (auto intro: prefix_imp_sublist)
    next
      case False
      with 3(2) have "last a = last m" by (auto simp: suffix_def)
      with False 3(1) assms(4) last_in_set [OF False] show ?thesis by auto
    qed
  qed auto
qed

lemma replace_prefix:
  "m \<noteq> [] \<Longrightarrow> hd m \<notin> set q \<Longrightarrow> prefix q (replace_str p m s) \<Longrightarrow> prefix q s"
proof (induction p m s arbitrary: q rule: replace_str.induct)
  case (2 p m c cs)
  show ?case
  proof (cases "p \<noteq> [] \<and> prefix p (c # cs)")
    case True
    with 2 have "prefix q (m @ replace_str p m (drop (length p) (c # cs)))" by (simp del: drop_Suc_Cons)
    with 2(3,4) have "q = []" by (cases m; cases q) auto
    then show ?thesis by simp
  next
    case False
    with 2(5) have "prefix q (c # replace_str p m cs)" by auto
    then show ?thesis using 2(2) [OF False 2(3)] 2(4) by (cases q) auto
  qed
qed simp

lemma replace_clean:
  assumes "m \<noteq> []" "q \<noteq> []" "hd m \<notin> set q" "last m \<notin> set q" "\<not> sublist q m"
  shows "q = p \<or> \<not> sublist q s \<Longrightarrow> \<not> sublist q (replace_str p m s)"
  using assms
proof (induction p m s rule: replace_str.induct)
  case (1 p m)
  then show ?case by simp
next
  case (2 p m c cs)
  show ?case
  proof (cases "p \<noteq> [] \<and> prefix p (c # cs)")
    case True
    have "q = p \<or> \<not> sublist q (drop (length p) (c # cs))"
      using 2(3) by (metis sublist_order.order_trans sublist_drop)
    with 2(1) [OF True] 2(4-) have "\<not> sublist q (replace_str p m (drop (length p) (c # cs)))" by blast
    then have "\<not> sublist q (m @ replace_str p m (drop (length p) (c # cs)))"
      using no_overlap 2(4-) by blast
    with True show ?thesis by (simp del: drop_Suc_Cons)
  next
    case False
    have "\<not> prefix q (c # cs)" using 2(3,5) False by (auto intro: prefix_imp_sublist)
    then have "\<not> prefix q (c # replace_str p m cs)"
      using replace_prefix [of m "tl q" p cs] 2(4-) by (cases q) auto
    moreover have "\<not> sublist q (replace_str p m cs)"
      using 2(2) [OF False] 2(3-) by (auto simp: sublist_Cons_right)
    ultimately show ?thesis using False by (auto simp: sublist_Cons_right)
  qed
qed

text \<open>Markers that hold no value, and values without the markers' brackets.\<close>

definition marker_like :: "ustring \<Rightarrow> bool" where
  "marker_like m \<longleftrightarrow> m \<noteq> [] \<and> hd m = 91 \<and> last m = 93"

definition secret_ok :: "ustring set \<Rightarrow> ustring \<Rightarrow> bool" where
  "secret_ok ms q \<longleftrightarrow> q \<noteq> [] \<and> 91 \<notin> set q \<and> 93 \<notin> set q \<and> (\<forall>m\<in>ms. \<not> sublist q m)"

lemma redact_clean:
  "\<forall>(p, m)\<in>set ps. marker_like m \<and> m \<in> ms \<Longrightarrow> secret_ok ms q \<Longrightarrow>
     q \<in> fst ` set ps \<or> \<not> sublist q s \<Longrightarrow> \<not> sublist q (redact ps s)"
proof (induction ps arbitrary: s)
  case Nil
  then show ?case by (simp add: redact_def)
next
  case (Cons x ps)
  obtain p m where x: "x = (p, m)" by (cases x)
  let ?s = "if sublist p s then replace_str p m s else s"
  have "q = p \<or> \<not> sublist q s \<Longrightarrow> \<not> sublist q ?s"
    using Cons.prems(1,2) replace_clean [of m q p s] by (auto simp: x marker_like_def secret_ok_def)
  then have "q \<in> fst ` set ps \<or> \<not> sublist q ?s" using Cons.prems(3) by (auto simp: x)
  with Cons.IH [of ?s] Cons.prems(1,2) show ?case by (simp add: redact_def x)
qed

lemma marker_like_marker: "marker_like (marker_for name)"
  by (simp add: marker_like_def marker_for_def lit_def)

lemma add_patterns_set:
  "set (foldl add_pattern ps qs) \<subseteq> set ps \<union> set qs \<and>
   fst ` set (foldl add_pattern ps qs) = fst ` set ps \<union> fst ` set qs"
proof (induction qs arbitrary: ps)
  case (Cons q qs)
  have "set (add_pattern ps q) \<subseteq> insert q (set ps)" "fst ` set (add_pattern ps q) = insert (fst q) (fst ` set ps)"
    by (auto simp: add_pattern_def)
  with Cons [of "add_pattern ps q"] show ?case by auto
qed simp



section \<open>Results too long for the history\<close>

definition HISTORY_RESULT_MAX_CHARS :: nat where "HISTORY_RESULT_MAX_CHARS = 32000"
definition HEAD_CHARS :: nat where "HEAD_CHARS = 8000"
definition TAIL_CHARS :: nat where "TAIL_CHARS = 4000"

text \<open>The last and the first position of a character.\<close>

definition rfind_char :: "nat \<Rightarrow> ustring \<Rightarrow> nat option" where
  "rfind_char c s = map_option (\<lambda>i. length s - 1 - i) (position (\<lambda>x. x = c) (rev s))"

text \<open>Positions are counted in characters; where the code compares bytes, so does the model.\<close>

definition head_end :: "ustring \<Rightarrow> nat" where
  "head_end output =
     (let cut = min HEAD_CHARS (length output); head = take cut output
      in case rfind_char 10 head of
           Some nl \<Rightarrow> if utf8_len head div 2 \<le> utf8_len (take nl head) then nl + 1 else cut
         | None \<Rightarrow> cut)"

definition tail_start :: "ustring \<Rightarrow> nat" where
  "tail_start output =
     (let cut = length output - TAIL_CHARS; tail = drop cut output
      in case position (\<lambda>c. c = 10) tail of
           Some nl \<Rightarrow> if utf8_len (take nl tail) < utf8_len tail div 2 then cut + nl + 1 else cut
         | None \<Rightarrow> cut)"

definition newlines :: "ustring \<Rightarrow> nat" where
  "newlines s = count_list s 10"

definition line_count :: "ustring \<Rightarrow> nat" where
  "line_count s = newlines s + (if s \<noteq> [] \<and> last s \<noteq> 10 then 1 else 0)"

definition how_to_read :: "nat \<Rightarrow> nat \<Rightarrow> ustring" where
  "how_to_read first_omitted last_omitted =
     (if last_omitted \<le> first_omitted then
        lit ''Part of line '' @ show_nat first_omitted @
        lit '' is left out here; read it with exec (for example cut -c or head -c), since read_file cuts long lines.''
      else
        lit ''Lines '' @ show_nat first_omitted @ lit ''-'' @ show_nat last_omitted @
        lit '' are left out here; read them with read_file starting at offset '' @ show_nat (first_omitted - 1) @
        lit '', a page at a time (each page names the next offset), or search the file with exec.'')"

definition first_omitted_line :: "ustring \<Rightarrow> nat" where
  "first_omitted_line output = newlines (take (head_end output) output) + 1"

definition tail_from :: "ustring \<Rightarrow> nat" where
  "tail_from output = max (tail_start output) (head_end output)"

definition last_omitted_line :: "ustring \<Rightarrow> nat" where
  "last_omitted_line output =
     (let before_tail = take (tail_from output) output; n = newlines before_tail
      in if before_tail \<noteq> [] \<and> last before_tail = 10 then n else n + 1)"

definition excerpt_note :: "ustring \<Rightarrow> ustring \<Rightarrow> ustring" where
  "excerpt_note output path =
     lit ''[Output too long to keep in full: '' @ show_nat (length output) @ lit '' characters, '' @
     show_nat (line_count output) @ lit '' lines. The full output is saved at '' @ path @ lit ''. '' @
     how_to_read (first_omitted_line output) (last_omitted_line output) @ lit '']''"

definition excerpt :: "ustring \<Rightarrow> ustring \<Rightarrow> ustring" where
  "excerpt output path =
     trim_end_char 10 (take (head_end output) output) @ [10, 10] @ excerpt_note output path @ [10, 10] @
     drop (tail_from output) output"

definition keep_for_history :: "(ustring \<Rightarrow> ustring option) \<Rightarrow> ustring \<Rightarrow> ustring" where
  "keep_for_history save output =
     (if utf8_len output \<le> HISTORY_RESULT_MAX_CHARS \<or> length output \<le> HISTORY_RESULT_MAX_CHARS then output
      else (case save output of Some path \<Rightarrow> excerpt output path | None \<Rightarrow> output))"

definition file_name_part :: "ustring \<Rightarrow> ustring" where
  "file_name_part part =
     take 48 (filter (\<lambda>c. is_ascii_digit c \<or> is_ascii_upper c \<or> is_ascii_lower c \<or> c = 45 \<or> c = 95) part)"

section \<open>What an excerpt leaves out\<close>

lemma position_Some_less: "position P xs = Some i \<Longrightarrow> i < length xs"
  using position_Some by blast

lemma head_end_bounds: "head_end s \<le> HEAD_CHARS \<and> head_end s \<le> length s"
proof -
  have "rfind_char 10 h = Some nl \<Longrightarrow> nl < length h" for h nl
    by (auto simp: rfind_char_def dest!: position_Some_less)
  then show ?thesis by (fastforce simp: head_end_def Let_def split: option.splits)
qed

lemma tail_start_bounds: "length s - TAIL_CHARS \<le> tail_start s \<and> tail_start s \<le> length s"
  by (auto simp: tail_start_def Let_def split: option.splits dest!: position_Some_less)

lemma tail_from_long:
  assumes "HISTORY_RESULT_MAX_CHARS < length s"
  shows "tail_from s = tail_start s \<and> head_end s < tail_from s"
  using assms head_end_bounds [of s] tail_start_bounds [of s]
  by (auto simp: tail_from_def HISTORY_RESULT_MAX_CHARS_def HEAD_CHARS_def TAIL_CHARS_def)

text \<open>The number of the line a character stands in, from 1.\<close>

definition line_of :: "nat \<Rightarrow> ustring \<Rightarrow> nat" where
  "line_of i s = newlines (take i s) + 1"

lemma line_of_mono: "i \<le> j \<Longrightarrow> line_of i s \<le> line_of j s"
proof -
  assume "i \<le> j"
  then have "take j s = take i s @ take (j - i) (drop i s)" by (metis le_add_diff_inverse take_add)
  then show ?thesis by (simp add: line_of_def newlines_def)
qed

lemma last_omitted_is_line:
  assumes "0 < tail_from s" "tail_from s \<le> length s"
  shows "last_omitted_line s = line_of (tail_from s - 1) s"
proof -
  obtain k where k: "tail_from s = Suc k" using assms(1) by (cases "tail_from s") auto
  have "take (Suc k) s = take k s @ [s ! k]" using assms(2) k by (simp add: take_Suc_conv_app_nth)
  then show ?thesis by (auto simp: last_omitted_line_def line_of_def k newlines_def Let_def)
qed

text \<open>A result too long for the history loses nothing that is not said. What stays are its first characters, at
  most 8000, less the line ends before the note, and its last, at most 4000; the note names the file with the
  whole output, and the characters left out stand exactly in the lines it names, the first and the last of them included.
  A result that is short enough, or that could not be saved, stays whole.\<close>

theorem excerpt_names_what_it_omits:
  assumes "save output = Some path" "HISTORY_RESULT_MAX_CHARS < length output"
  shows "(\<exists>head middle tail. output = head @ middle @ tail \<and> middle \<noteq> [] \<and>
      length head \<le> HEAD_CHARS \<and> length tail \<le> TAIL_CHARS \<and>
      keep_for_history save output =
        trim_end_char 10 head @ [10, 10] @ excerpt_note output path @ [10, 10] @ tail \<and>
      line_of (length head) output = first_omitted_line output \<and>
      line_of (length head + length middle - 1) output = last_omitted_line output \<and>
      (\<forall>i. length head \<le> i \<and> i < length head + length middle \<longrightarrow>
         first_omitted_line output \<le> line_of i output \<and> line_of i output \<le> last_omitted_line output)) \<and>
    keep_for_history (\<lambda>_. None) output = output \<and>
    (\<forall>s. length s \<le> HISTORY_RESULT_MAX_CHARS \<longrightarrow> keep_for_history save s = s)"
proof -
  let ?h = "head_end output" and ?t = "tail_from output"
  let ?head = "take ?h output" and ?middle = "drop ?h (take ?t output)" and ?tail = "drop ?t output"
  note long = tail_from_long [OF assms(2)] and hb = head_end_bounds [of "output"] and tb = tail_start_bounds [of "output"]
  have t: "?t \<le> length output" using long tb by simp
  have "length s \<le> utf8_len s" for s by (induction s) (auto simp: utf8_len_def utf8_len_char_def)
  then have "\<not> utf8_len output \<le> HISTORY_RESULT_MAX_CHARS" using assms(2) by (metis leD le_trans)
  then have kept: "keep_for_history save output = excerpt output path" "keep_for_history (\<lambda>_. None) output = output"
    using assms by (simp_all add: keep_for_history_def)
  have lens: "length ?head = ?h" "length ?middle = ?t - ?h" "length ?tail \<le> TAIL_CHARS"
    using hb t long tb by auto
  have parts: "output = ?head @ ?middle @ ?tail"
    using long by (metis append.assoc append_take_drop_id drop_take less_imp_le take_add le_add_diff_inverse)
  have first: "line_of ?h output = first_omitted_line output" by (simp add: line_of_def first_omitted_line_def)
  have end_line: "line_of (?t - 1) output = last_omitted_line output" using last_omitted_is_line [of "output"] long t by simp
  have "first_omitted_line output \<le> line_of i output \<and> line_of i output \<le> last_omitted_line output"
    if "?h \<le> i" "i < ?t" for i
    using line_of_mono [OF that(1), of "output"] line_of_mono [of i "?t - 1" "output"] that(2) first end_line by simp
  moreover have "?middle \<noteq> []" using lens(2) long by (metis length_0_conv zero_less_diff less_not_refl3)
  ultimately have "\<exists>head middle tail. output = head @ middle @ tail \<and> middle \<noteq> [] \<and>
      length head \<le> HEAD_CHARS \<and> length tail \<le> TAIL_CHARS \<and>
      keep_for_history save output =
        trim_end_char 10 head @ [10, 10] @ excerpt_note output path @ [10, 10] @ tail \<and>
      line_of (length head) output = first_omitted_line output \<and>
      line_of (length head + length middle - 1) output = last_omitted_line output \<and>
      (\<forall>i. length head \<le> i \<and> i < length head + length middle \<longrightarrow>
         first_omitted_line output \<le> line_of i output \<and> line_of i output \<le> last_omitted_line output)"
    using parts lens hb kept(1) first end_line long
    by (intro exI [of _ ?head] exI [of _ ?middle] exI [of _ ?tail]) (simp add: excerpt_def)
  then show ?thesis using kept(2) by (simp add: keep_for_history_def)
qed

lemma excerpt_names_what_it_omits_witness:
  "\<exists>head middle tail. replicate 32001 (97 :: nat) = head @ middle @ tail \<and> middle \<noteq> [] \<and>
     length head \<le> HEAD_CHARS \<and> length tail \<le> TAIL_CHARS"
proof -
  have long: "HISTORY_RESULT_MAX_CHARS < length (replicate 32001 (97 :: nat))"
    unfolding length_replicate HISTORY_RESULT_MAX_CHARS_def by simp
  note ex = conjunct1 [OF excerpt_names_what_it_omits [where save = "\<lambda>_. Some (lit ''/saved'')", OF refl long]]
  show ?thesis by (rule exE [OF ex], elim exE conjE) (intro exI conjI, assumption+)
qed

end
