(* ===== verification/Agent_Turn.thy ===== *)
theory Agent_Turn
  imports Turn_Stream Tool_Results Recent_Messages Session_Messaging Inference_Errors
begin

text \<open>
  One turn of an agent: the loop that asks the model and runs the tools it calls (\<open>crates/agent/src/turn.rs\<close>), with the
  tool registry (\<open>tool.rs\<close>), the status lines (\<open>context/status.rs\<close>), think tags (\<open>think_tags.rs\<close>) and the counts of a turn
  (\<open>usage.rs\<close>).

  What a turn meets is the environment \<open>turn_env\<close> over a world: the interrupts queued at a checkpoint, whether the turn was
  asked to stop, the model's answers, what a tool does. The world moves in those calls only. What the
  turn does is its state: the history, the durable transcript, and the list of effects, in order (events
  published, model requests, tools run).
\<close>

section \<open>Status lines\<close>

definition plural :: "int \<Rightarrow> string \<Rightarrow> string \<Rightarrow> ustring" where
  "plural n one many = (if n = 1 then lit one else lit many)"

definition relative_time :: "int \<Rightarrow> ustring" where
  "relative_time delta =
     (let secs = (if delta < 0 then - (- delta div 1000000000) else delta div 1000000000);
          mins = secs div 60; hours = mins div 60; days = hours div 24;
          ago = (\<lambda>n one many. show_nat (nat n) @ lit '' '' @ plural n one many @ lit '' ago'')
      in if secs < 0 then lit ''just now''
         else if secs < 60 then lit ''just now''
         else if mins < 60 then ago mins ''min'' ''mins''
         else if hours < 24 then ago hours ''hour'' ''hours''
         else ago days ''day'' ''days'')"

definition render_status_line :: "(datetime \<Rightarrow> ustring) \<Rightarrow> datetime \<Rightarrow> datetime option \<Rightarrow> ustring option \<Rightarrow> ustring" where
  "render_status_line show_time now prev source =
     lit ''[Received: '' @ show_time now @ lit '']'' @
     (case prev of Some p \<Rightarrow> lit ''[Last Message: '' @ relative_time (now - p) @ lit '']'' | None \<Rightarrow> []) @
     (case source of
        Some s \<Rightarrow> lit ''[Message Source: '' @ (if s = lit ''ws'' then lit ''web'' else s) @ lit '']''
      | None \<Rightarrow> [])"

record status_clock =
  last_message_at :: "datetime option"

definition stamp :: "(datetime \<Rightarrow> ustring) \<Rightarrow> datetime \<Rightarrow> ustring option \<Rightarrow> message \<Rightarrow> status_clock \<Rightarrow> message \<times> status_clock" where
  "stamp show_time now source m k =
     (m\<lparr>msg_status_line := Some (render_status_line show_time now (last_message_at k) source)\<rparr>,
      k\<lparr>last_message_at := Some now\<rparr>)"

definition admit :: "(datetime \<Rightarrow> ustring) \<Rightarrow> datetime \<Rightarrow> message_event \<Rightarrow> status_clock \<Rightarrow> message list \<times> status_clock" where
  "admit show_time now e k =
     (let entries = into_history_messages e
      in case position (\<lambda>m. msg_role m = UserRole) (rev entries) of
           None \<Rightarrow> (entries, k)
         | Some j \<Rightarrow>
             (let i = length entries - 1 - j
              in case stamp show_time now (Some (origin_endpoint (event_origin e))) (entries ! i) k of
                   (m, k') \<Rightarrow> (entries[i := m], k')))"

section \<open>Think tags\<close>

lemma split_once_shorter: "split_once_str p s = Some (a, b) \<Longrightarrow> p \<noteq> [] \<Longrightarrow> length b < length s"
  using split_once_str_Some by fastforce

function strip_tags :: "ustring \<Rightarrow> ustring" where
  "strip_tags remaining =
     (case split_once_str OPEN_TAG remaining of
        None \<Rightarrow> remaining
      | Some (before, after) \<Rightarrow>
          (case split_once_str CLOSE_TAG after of
             None \<Rightarrow> before
           | Some (_, rest) \<Rightarrow> before @ strip_tags rest))"
  by pat_completeness auto
termination
proof (relation "measure length")
  fix remaining p before after q inner rest
  assume "split_once_str OPEN_TAG remaining = Some p" "(before, after) = p"
    and "split_once_str CLOSE_TAG after = Some q" "(inner, rest) = q"
  then have "length after < length remaining" "length rest < length after"
    using split_once_shorter by (auto simp: OPEN_TAG_def CLOSE_TAG_def)
  then show "(rest, remaining) \<in> measure length" by simp
qed simp

declare strip_tags.simps [simp del]

definition strip_think_tags :: "ustring \<Rightarrow> ustring" where
  "strip_think_tags content = trim_start (strip_tags content)"

section \<open>Tools\<close>

datatype tool_error = ToolNotFound ustring | ToolFailed ustring | ToolArguments ustring | MalformedName ustring

definition show_tool_error :: "tool_error \<Rightarrow> ustring" where
  "show_tool_error e =
     (case e of
        ToolNotFound n \<Rightarrow> lit ''unknown tool: '' @ n
      | ToolFailed m \<Rightarrow> lit ''tool execution failed: '' @ m
      | ToolArguments m \<Rightarrow> lit ''invalid arguments: '' @ m
      | MalformedName n \<Rightarrow> lit ''malformed tool name '' @ [39] @ n @ [39] @
          lit '': the provider likely failed to parse your tool-call syntax into structured JSON; retry using the exact tool name as plain text with arguments as a JSON object'')"

record tool_result =
  result_output :: ustring
  result_is_error :: bool
  result_images :: "image_data list"

definition cancelled_result :: "ustring \<Rightarrow> tool_result" where
  "cancelled_result t = \<lparr>result_output = t, result_is_error = False, result_images = []\<rparr>"

definition CANCELLED_WHILE_RUNNING :: ustring where
  "CANCELLED_WHILE_RUNNING = lit ''cancelled: the turn was stopped while this tool was running''"

definition CANCELLED_BEFORE_START :: ustring where
  "CANCELLED_BEFORE_START = lit ''cancelled: the turn was stopped before this tool call started''"

definition is_plausible_tool_name :: "ustring \<Rightarrow> bool" where
  "is_plausible_tool_name name \<longleftrightarrow> name \<noteq> [] \<and> utf8_len name \<le> 64 \<and>
     list_all (\<lambda>c. is_ascii_digit c \<or> is_ascii_upper c \<or> is_ascii_lower c \<or> c = 95 \<or> c = 45) name"

definition truncate_tool_name :: "ustring \<Rightarrow> ustring" where
  "truncate_tool_name name = (if length name \<le> 80 then name else take 80 name @ lit ''...'')"

text \<open>A tool as the registry holds it; \<open>tool_run\<close> is its \<open>execute_cancellable\<close>. The trait's own implementation races the
  execution against the stop: an execution that the stop overtook is \<open>None\<close>.\<close>

record 'w tool =
  tool_def :: tool_definition
  tool_run :: "json \<Rightarrow> 'w \<Rightarrow> (tool_error + tool_result) \<times> 'w"

definition default_cancellable ::
  "('w \<Rightarrow> bool) \<Rightarrow> (json \<Rightarrow> 'w \<Rightarrow> (tool_error + tool_result) option \<times> 'w) \<Rightarrow> json \<Rightarrow> 'w \<Rightarrow>
   (tool_error + tool_result) \<times> 'w" where
  "default_cancellable stopped execute args w =
     (if stopped w then (Inr (cancelled_result CANCELLED_WHILE_RUNNING), w)
      else (case execute args w of
          (None, w') \<Rightarrow> (Inr (cancelled_result CANCELLED_WHILE_RUNNING), w')
        | (Some r, w') \<Rightarrow> (r, w')))"

definition named :: "ustring \<Rightarrow> 'w tool \<Rightarrow> bool" where
  "named n t \<longleftrightarrow> tool_name (tool_def t) = n"

definition register_tool :: "'w tool \<Rightarrow> 'w tool list \<Rightarrow> 'w tool list" where
  "register_tool t ts =
     (case position (named (tool_name (tool_def t))) ts of Some i \<Rightarrow> ts[i := t] | None \<Rightarrow> ts @ [t])"

definition remove_tool :: "ustring \<Rightarrow> 'w tool list \<Rightarrow> 'w tool list \<times> bool" where
  "remove_tool n ts = (let ts' = filter (\<lambda>t. \<not> named n t) ts in (ts', length ts' \<noteq> length ts))"

definition execute_cancellable :: "'w tool list \<Rightarrow> ustring \<Rightarrow> json \<Rightarrow> 'w \<Rightarrow> (tool_error + tool_result) \<times> 'w" where
  "execute_cancellable ts n args w =
     (case find (named n) ts of None \<Rightarrow> (Inl (ToolNotFound n), w) | Some t \<Rightarrow> tool_run t args w)"

section \<open>The environment of a turn\<close>

datatype auto_decision = AutoAllowed | AutoBlocked | AutoUnchecked

text \<open>The probability is kept as the per cent text the code renders.\<close>

record auto_verdict =
  verdict_decision :: auto_decision
  verdict_rule :: "ustring option"
  verdict_percent :: "ustring option"

definition blocked_message :: "auto_verdict \<Rightarrow> ustring" where
  "blocked_message v =
     lit ''Auto Mode blocked this call, so it did not run: it matches the rule '' @ [34] @
     (case verdict_rule v of Some r \<Rightarrow> r | None \<Rightarrow> lit ''one of the deny rules'') @ [34] @
     (case verdict_percent v of Some p \<Rightarrow> lit '' ('' @ p @ lit ''% sure)'' | None \<Rightarrow> []) @
     lit ''. Try a different approach that the rule allows, or ask the user to do it or to change the rule.''"

definition latest_user_request :: "message list \<Rightarrow> ustring option" where
  "latest_user_request ms =
     map_option msg_content (find (\<lambda>m. msg_role m = UserRole \<and> trim (msg_content m) \<noteq> []) (rev ms))"

datatype call_end = CallStopped | CallReturned "inference_error + inference_response"

record model_call =
  call_moments :: "call_moment list"
  call_queued :: "stream_delta list"
  call_now :: int
  call_end :: call_end

record 'w turn_env =
  env_now :: "'w \<Rightarrow> datetime"
  env_local_now :: "'w \<Rightarrow> datetime"
  env_show_time :: "datetime \<Rightarrow> ustring"
  env_interrupts :: "'w \<Rightarrow> interrupt list \<times> 'w"
  env_stopped :: "'w \<Rightarrow> bool"
  env_output :: "'w \<Rightarrow> ustring option" \<comment> \<open>where a main turn delivers now\<close>
  env_assemble :: "recent \<Rightarrow> 'w \<Rightarrow> message list"
  env_mcp_tools :: "'w \<Rightarrow> tool_definition list"
  env_complete :: "model_request \<Rightarrow> 'w \<Rightarrow> model_call \<times> 'w"
  env_server :: "ustring \<Rightarrow> 'w \<Rightarrow> ustring option"
  env_tools :: "'w tool list"
  env_mcp_resolve :: "ustring \<Rightarrow> 'w \<Rightarrow> tool_error option"
  env_mcp_call :: "ustring \<Rightarrow> json \<Rightarrow> 'w \<Rightarrow> (tool_error + tool_result) option \<times> 'w"
  env_auto :: "(tool_call \<Rightarrow> ustring option \<Rightarrow> 'w \<Rightarrow> auto_verdict option \<times> 'w) option"
  env_redactor :: "'w \<Rightarrow> redactor"
  env_save :: "('w \<Rightarrow> tool_call \<Rightarrow> ustring \<Rightarrow> ustring option) option" \<comment> \<open>the file the text was written to\<close>
  env_fp_tool :: "tool_definition \<Rightarrow> u64 option"
  env_fp_message :: "message \<Rightarrow> u64 option"

datatype turn_target = MainTurn | SessionTurn

record turn_config =
  cfg_target :: turn_target
  cfg_conversation :: "(ustring \<times> ustring) option" \<comment> \<open>endpoint and conversation of a conversation session\<close>
  cfg_audience :: bool
  cfg_max_iterations :: "nat option"
  cfg_guard :: bool
  cfg_steer_after :: nat
  cfg_stop_after :: nat
  cfg_max_tokens :: "nat option"
  cfg_transcript :: bool
  cfg_usage_sink :: bool
  cfg_subconscious :: bool

section \<open>The state of a turn\<close>

record tool_outcome =
  to_call_id :: ustring
  to_name :: ustring
  to_output :: ustring
  to_is_error :: bool
  to_auto :: "auto_verdict option"

record turn_usage =
  u_output_tokens :: nat
  u_has_usage :: bool
  u_tool_calls :: nat

definition accumulate_turn :: "usage option \<Rightarrow> turn_usage \<Rightarrow> turn_usage" where
  "accumulate_turn u t =
     (case u of
        None \<Rightarrow> t
      | Some u \<Rightarrow> t\<lparr>u_has_usage := True, u_output_tokens := u_output_tokens t + nat_or_zero (output_tokens u)\<rparr>)"

definition record_turn_tool_calls :: "nat \<Rightarrow> turn_usage \<Rightarrow> turn_usage" where
  "record_turn_tool_calls n t = t\<lparr>u_tool_calls := u_tool_calls t + n\<rparr>"

text \<open>What a turn shows, by topic: the main conversation, a chat interface, a session's stream, a session's own
  conversation, the system channel.\<close>

datatype main_event =
    McUserMessage message_event
  | McToolCall nat tool_call
  | McToolResult tool_outcome
  | McPiece nat stream_piece
  | McThinking nat ustring
  | McIntermediate nat ustring
  | McResponse "nat option" ustring ustring
  | McTurnUsage turn_usage "session_totals option"

datatype session_event =
    SeToolCall tool_call
  | SeToolResult tool_outcome
  | SeIntermediate ustring
  | SeTurnUsage turn_usage "session_totals option"
  | SeMessageRead agent_message

datatype turn_effect =
    OnMain main_event
  | OnChat ustring ustring
  | OnSession session_event
  | OnConversation ustring ustring ustring
  | OnSystem ustring
  | AudienceTold
  | Watched nat "message list"
  | AskedModel model_request
  | CallRecorded "inference_error + inference_response"
  | Executing tool_call
  | Dispatched tool_call

record repeat_guard =
  guard_last :: "(ustring \<times> json) option"
  guard_consecutive :: nat

definition new_guard_state :: repeat_guard where
  "new_guard_state = \<lparr>guard_last = None, guard_consecutive = 0\<rparr>"

definition record_call :: "ustring \<Rightarrow> json \<Rightarrow> repeat_guard \<Rightarrow> repeat_guard" where
  "record_call name args g =
     (if guard_last g = Some (name, args) then g\<lparr>guard_consecutive := guard_consecutive g + 1\<rparr>
      else \<lparr>guard_last = Some (name, args), guard_consecutive = 1\<rparr>)"

record 'w turn =
  world :: 'w
  history :: recent
  transcript :: "message list"
  effects :: "turn_effect list"
  hop_counter :: nat
  status :: "status_clock option"
  totals :: session_totals
  empty_retries :: nat
  turn_used :: turn_usage
  guard :: repeat_guard
  images_noticed :: bool
  drop_noticed :: bool
  iteration :: nat

section \<open>Publishing\<close>

definition emit_effect :: "turn_effect \<Rightarrow> 'w turn \<Rightarrow> 'w turn" where
  "emit_effect x s = s\<lparr>effects := effects s @ [x]\<rparr>"

definition publish_main :: "turn_config \<Rightarrow> main_event \<Rightarrow> 'w turn \<Rightarrow> 'w turn" where
  "publish_main C e s = (if cfg_target C = MainTurn then emit_effect (OnMain e) s else s)"

text \<open>\<open>chat_interface_endpoint\<close>: every endpoint but the web UI's.\<close>

definition chat_interface_endpoint :: "ustring option \<Rightarrow> ustring option" where
  "chat_interface_endpoint e = (case e of Some n \<Rightarrow> if n \<noteq> lit ''ws'' then Some n else None | None \<Rightarrow> None)"

definition publish_tool_call :: "turn_config \<Rightarrow> tool_call \<Rightarrow> nat \<Rightarrow> 'w turn \<Rightarrow> 'w turn" where
  "publish_tool_call C tc call s =
     (case cfg_target C of
        MainTurn \<Rightarrow> publish_main C (McToolCall call tc) s
      | SessionTurn \<Rightarrow> emit_effect (OnSession (SeToolCall tc)) s)"

definition publish_tool_result :: "turn_config \<Rightarrow> tool_outcome \<Rightarrow> 'w turn \<Rightarrow> 'w turn" where
  "publish_tool_result C r s =
     (case cfg_target C of
        MainTurn \<Rightarrow> publish_main C (McToolResult r) s
      | SessionTurn \<Rightarrow> emit_effect (OnSession (SeToolResult r)) s)"

definition publish_intermediate :: "'w turn_env \<Rightarrow> turn_config \<Rightarrow> ustring \<Rightarrow> nat \<Rightarrow> 'w turn \<Rightarrow> 'w turn" where
  "publish_intermediate E C content call s =
     (let s = (case cfg_target C of
            MainTurn \<Rightarrow>
              (let s = publish_main C (McIntermediate call content) s
               in case chat_interface_endpoint (env_output E (world s)) of
                    Some ep \<Rightarrow> emit_effect (OnChat ep content) s
                  | None \<Rightarrow> s)
          | SessionTurn \<Rightarrow> emit_effect (OnSession (SeIntermediate content)) s)
      in case cfg_conversation C of
           Some (ep, conv) \<Rightarrow> emit_effect (OnConversation ep conv content) s
         | None \<Rightarrow> s)"

definition publish_reply :: "'w turn_env \<Rightarrow> turn_config \<Rightarrow> nat option \<Rightarrow> ustring \<Rightarrow> 'w turn \<Rightarrow> 'w turn" where
  "publish_reply E C call content s =
     (let endpoint = (case cfg_target C of
            MainTurn \<Rightarrow> (case env_output E (world s) of Some ep \<Rightarrow> ep | None \<Rightarrow> [])
          | SessionTurn \<Rightarrow> []);
          s = publish_main C (McResponse call endpoint content) s
      in if endpoint \<noteq> [] \<and> cfg_audience C then emit_effect AudienceTold s else s)"

definition publish_user_message :: "turn_config \<Rightarrow> message_event \<Rightarrow> 'w turn \<Rightarrow> 'w turn" where
  "publish_user_message C e s =
     (if is_from_person (event_origin e) \<or> origin_agent_sender (event_origin e) \<noteq> None
      then publish_main C (McUserMessage e) s else s)"

definition publish_message_read :: "turn_config \<Rightarrow> agent_message \<Rightarrow> 'w turn \<Rightarrow> 'w turn" where
  "publish_message_read C m s = (if cfg_target C = SessionTurn then emit_effect (OnSession (SeMessageRead m)) s else s)"

definition publish_usage :: "turn_config \<Rightarrow> session_totals option \<Rightarrow> 'w turn \<Rightarrow> 'w turn" where
  "publish_usage C ts s =
     (case cfg_target C of
        MainTurn \<Rightarrow> publish_main C (McTurnUsage (turn_used s) ts) s
      | SessionTurn \<Rightarrow> emit_effect (OnSession (SeTurnUsage (turn_used s) ts)) s)"

definition publish_stream_pieces :: "turn_config \<Rightarrow> nat \<Rightarrow> stream_piece list \<Rightarrow> 'w turn \<Rightarrow> 'w turn" where
  "publish_stream_pieces C call ps s = fold (\<lambda>p. publish_main C (McPiece call p)) ps s"

section \<open>The history\<close>

text \<open>The one place every message of a turn goes through: the history and, with a sink, the durable transcript.\<close>

definition push_and_record :: "'w turn_env \<Rightarrow> turn_config \<Rightarrow> message \<Rightarrow> 'w turn \<Rightarrow> 'w turn" where
  "push_and_record E C m s =
     s\<lparr>history := push_message (env_now E (world s)) m (history s),
       transcript := (if cfg_transcript C then transcript s @ [m] else transcript s)\<rparr>"

definition push_and_record_many :: "'w turn_env \<Rightarrow> turn_config \<Rightarrow> message list \<Rightarrow> 'w turn \<Rightarrow> 'w turn" where
  "push_and_record_many E C ms s =
     s\<lparr>transcript := (if cfg_transcript C then transcript s @ ms else transcript s),
       history := extend_messages (env_now E (world s)) ms (history s)\<rparr>"

definition STOP_NOTE :: ustring where
  "STOP_NOTE = lit ''[Stopped] the user stopped this turn before it finished; review what'' @ [39] @
     lit ''s already been done above before continuing or repeating any of it.''"

definition record_stop :: "'w turn_env \<Rightarrow> turn_config \<Rightarrow> 'w turn \<Rightarrow> 'w turn" where
  "record_stop E C s = push_and_record E C (system_message STOP_NOTE) s"

definition limit_description :: "turn_config \<Rightarrow> ustring" where
  "limit_description C =
     (case cfg_max_tokens C of
        None \<Rightarrow> lit ''its configured output-token limit''
      | Some n \<Rightarrow> lit ''the '' @ show_nat n @ lit ''-token output limit'')"

definition handle_output_truncated :: "'w turn_env \<Rightarrow> turn_config \<Rightarrow> 'w turn \<Rightarrow> 'w turn" where
  "handle_output_truncated E C s =
     push_and_record E C (system_message (lit ''[Truncated] your previous response was cut off at '' @ limit_description C @
         lit ''; it may be incomplete. Continue from where it left off if that'' @ [39] @ lit ''s still useful, or start fresh.''))
       (emit_effect (OnSystem (lit ''The response was cut off at '' @ limit_description C @ lit ''.'')) s)"

definition images_omitted_notice :: "images_omitted \<Rightarrow> nat \<Rightarrow> ustring" where
  "images_omitted_notice om n =
     (let count = (if n = 1 then lit ''1 image was'' else show_nat n @ lit '' images were'');
          notice = lit ''This model can'' @ [39] @ lit ''t see images, so '' @ count @ lit '' left out of the request.''
      in if \<not> omitted_learned om then notice
         else notice @ lit '' Its provider turned images down, so they'' @ [39] @
           lit ''re left out until Residuum restarts. To skip that failed first try, mark '' @ omitted_model om @
           lit '' as text only under its provider in Settings '' @ [8594] @ lit '' Model.'')"

definition notice_images_omitted :: "inference_response \<Rightarrow> message list \<Rightarrow> 'w turn \<Rightarrow> 'w turn" where
  "notice_images_omitted r turn_messages s =
     (case resp_images_omitted r of
        None \<Rightarrow> s
      | Some om \<Rightarrow>
          (let n = sum_list (map (\<lambda>m. length (msg_images m)) turn_messages)
           in if n = 0 \<or> images_noticed s then s
              else emit_effect (OnSystem (images_omitted_notice om n)) (s\<lparr>images_noticed := True\<rparr>)))"

definition THINKING_DROPPED_NOTICE :: ustring where
  "THINKING_DROPPED_NOTICE = lit ''Some of the model'' @ [39] @ lit ''s earlier reasoning couldn'' @ [39] @
     lit ''t be reused, so it continued without it.''"

definition notice_thinking_dropped :: "inference_response \<Rightarrow> 'w turn \<Rightarrow> 'w turn" where
  "notice_thinking_dropped r s =
     (if resp_thinking_dropped r = 0 \<or> drop_noticed s then s
      else emit_effect (OnSystem THINKING_DROPPED_NOTICE) (s\<lparr>drop_noticed := True\<rparr>))"

section \<open>Checkpoints\<close>

text \<open>One interrupt of the drain. Only a stop ends the turn; the rest of what is queued is drained all the same.\<close>

definition fold_in :: "'w turn_env \<Rightarrow> turn_config \<Rightarrow> interrupt \<Rightarrow> 'w turn \<times> bool \<Rightarrow> 'w turn \<times> bool" where
  "fold_in E C i st =
     (case st of (s, stopped) \<Rightarrow>
        (case i of
           UserMessage e \<Rightarrow>
             (let s = publish_user_message C e s
              in case status s of
                   Some k \<Rightarrow>
                     (case admit (env_show_time E) (env_local_now E (world s)) e k of
                        (entries, k') \<Rightarrow> (push_and_record_many E C entries (s\<lparr>status := Some k'\<rparr>), stopped))
                 | None \<Rightarrow> (push_and_record_many E C (into_history_messages e) s, stopped))
         | AgentMessage m \<Rightarrow>
             (let s = s\<lparr>hop_counter := hop_bump (hop_counter s) (message_hops m)\<rparr>;
                  (entry, s) = (case status s of
                     Some k \<Rightarrow>
                       (case stamp (env_show_time E) (env_local_now E (world s)) None (to_history_message m) k of
                          (e, k') \<Rightarrow> (e, s\<lparr>status := Some k'\<rparr>))
                   | None \<Rightarrow> (to_history_message m, s))
              in (publish_message_read C m (push_and_record E C entry s), stopped))
         | Subconscious content \<Rightarrow> (push_and_record E C (system_message content) s, stopped)
         | StoppedByUser \<Rightarrow> (push_and_record E C (system_message STOP_NOTE) s, True)))"

definition drain_interrupts :: "'w turn_env \<Rightarrow> turn_config \<Rightarrow> 'w turn \<Rightarrow> 'w turn \<times> bool" where
  "drain_interrupts E C s =
     (case env_interrupts E (world s) of (is, w) \<Rightarrow> fold (fold_in E C) is (s\<lparr>world := w\<rparr>, False))"

definition check_interrupts_and_stop :: "'w turn_env \<Rightarrow> turn_config \<Rightarrow> 'w turn \<Rightarrow> 'w turn \<times> bool" where
  "check_interrupts_and_stop E C s =
     (case drain_interrupts E C s of (s, stopped) \<Rightarrow>
        if \<not> stopped \<and> env_stopped E (world s) then (record_stop E C s, True) else (s, stopped))"

definition limit_notice :: "nat \<Rightarrow> ustring" where
  "limit_notice limit =
     lit ''I stopped after '' @ show_nat limit @ lit '' tool calls '' @ [8212] @
     lit '' the limit set by `max_tool_iterations` in your Residuum config. Raise or remove that setting (under `[agent]` in config.toml, or in Settings '' @
     [8594] @ lit '' Advanced '' @ [8594] @ lit '' Runtime) to allow longer turns.''"

text \<open>A notice as the turn's last message, and its whole result.\<close>

definition finish_with_notice :: "'w turn_env \<Rightarrow> turn_config \<Rightarrow> ustring \<Rightarrow> 'w turn \<Rightarrow> 'w turn" where
  "finish_with_notice E C notice s =
     publish_reply E C None notice (push_and_record E C (assistant_message notice None) s)"

definition check_tool_iteration_limit :: "'w turn_env \<Rightarrow> turn_config \<Rightarrow> 'w turn \<Rightarrow> ('w turn \<times> ustring) option" where
  "check_tool_iteration_limit E C s =
     (case cfg_max_iterations C of
        None \<Rightarrow> None
      | Some limit \<Rightarrow>
          if iteration s < limit then None
          else Some (finish_with_notice E C (limit_notice limit) s, limit_notice limit))"

section \<open>Asking the model\<close>

definition build_model_request :: "'w turn_env \<Rightarrow> recent \<Rightarrow> 'w \<Rightarrow> model_request" where
  "build_model_request E b w =
     \<lparr>request_messages = env_assemble E b w, request_tools = map tool_def (env_tools E) @ env_mcp_tools E w\<rparr>"

datatype 'w call_outcome =
    ModelStopped "'w turn"
  | ModelFailed inference_error "'w turn"
  | ModelCompleted inference_response bool "'w turn"

text \<open>A stop that came first is taken before the call starts (the select is biased). A main turn's stream is published
  while the call runs.\<close>

definition call_model :: "'w turn_env \<Rightarrow> turn_config \<Rightarrow> model_request \<Rightarrow> nat \<Rightarrow> 'w turn \<Rightarrow> 'w call_outcome" where
  "call_model E C q call s =
     (if env_stopped E (world s) then ModelStopped s
      else
        case env_complete E q (world s) of (mc, w) \<Rightarrow>
          (let (ps, streamed) = (if cfg_target C = MainTurn then stream_call (call_moments mc) (call_queued mc) (call_now mc)
                                 else ([], False));
               s = publish_stream_pieces C call ps (emit_effect (AskedModel q) (s\<lparr>world := w\<rparr>))
           in case call_end mc of
                CallStopped \<Rightarrow> ModelStopped s
              | CallReturned result \<Rightarrow>
                  (let s = (if cfg_usage_sink C then emit_effect (CallRecorded result) s else s)
                   in case result of Inl e \<Rightarrow> ModelFailed e s | Inr r \<Rightarrow> ModelCompleted r streamed s)))"

definition request_model_response :: "'w turn_env \<Rightarrow> turn_config \<Rightarrow> nat \<Rightarrow> 'w turn \<Rightarrow> 'w call_outcome" where
  "request_model_response E C call s =
     (let q = build_model_request E (history s) (world s);
          s = s\<lparr>history := fst (watch_request (env_fp_tool E) (env_fp_message E) q (0 < call) (history s))\<rparr>
      in case call_model E C q call s of
           ModelStopped s \<Rightarrow> ModelStopped (record_stop E C s)
         | out \<Rightarrow> out)"

definition settle_response :: "turn_config \<Rightarrow> inference_response \<Rightarrow> nat \<Rightarrow> 'w turn \<Rightarrow> inference_response \<times> 'w turn" where
  "settle_response C r call s =
     (let r = r\<lparr>resp_content := strip_think_tags (resp_content r)\<rparr>
      in if resp_tool_calls r = [] \<and> resp_content r = [] then (r, s)
         else case joined_thinking_text (resp_thinking r) of
                Some t \<Rightarrow> (r, publish_main C (McThinking call t) s)
              | None \<Rightarrow> (r, s))"

definition MAX_EMPTY_RESPONSE_RETRIES :: nat where "MAX_EMPTY_RESPONSE_RETRIES = 2"

definition retry_empty_response :: "turn_config \<Rightarrow> bool \<Rightarrow> nat \<Rightarrow> 'w turn \<Rightarrow> 'w turn \<times> bool" where
  "retry_empty_response C streamed call s =
     (let s = (if streamed then publish_main C (McPiece call PieceRestart) s else s)
      in if MAX_EMPTY_RESPONSE_RETRIES \<le> empty_retries s then (s, False)
         else (s\<lparr>empty_retries := empty_retries s + 1\<rparr>, True))"

definition update_and_publish_usage :: "turn_config \<Rightarrow> inference_response \<Rightarrow> nat \<Rightarrow> 'w turn \<Rightarrow> 'w turn" where
  "update_and_publish_usage C r executed s =
     (let s = s\<lparr>turn_used := record_turn_tool_calls executed (accumulate_turn (resp_usage r) (turn_used s))\<rparr>
      in if cfg_usage_sink C then
           (let t = accumulate_totals (resp_usage r) (totals s);
                t = (if 0 < executed then record_tool_calls_total executed t else t)
            in publish_usage C (Some t) (s\<lparr>totals := t\<rparr>))
         else publish_usage C None s)"

section \<open>Running tools\<close>

definition annotate_servers :: "'w turn_env \<Rightarrow> 'w \<Rightarrow> tool_call list \<Rightarrow> tool_call list" where
  "annotate_servers E w tcs = map (\<lambda>tc. tc\<lparr>call_server := env_server E (call_name tc) w\<rparr>) tcs"

text \<open>A tool of an MCP server: resolved first, then raced against the stop.\<close>

definition execute_mcp_tool :: "'w turn_env \<Rightarrow> tool_call \<Rightarrow> 'w \<Rightarrow> (tool_error + tool_result) \<times> 'w" where
  "execute_mcp_tool E tc w =
     (case env_mcp_resolve E (call_name tc) w of
        Some e \<Rightarrow> (Inl e, w)
      | None \<Rightarrow>
          if env_stopped E w then (Inr (cancelled_result CANCELLED_WHILE_RUNNING), w)
          else (case env_mcp_call E (call_name tc) (call_arguments tc) w of
              (None, w') \<Rightarrow> (Inr (cancelled_result CANCELLED_WHILE_RUNNING), w')
            | (Some r, w') \<Rightarrow> (r, w')))"

definition dispatch_tool_call :: "'w turn_env \<Rightarrow> tool_call \<Rightarrow> 'w \<Rightarrow> (tool_error + tool_result) \<times> 'w" where
  "dispatch_tool_call E tc w =
     (if \<not> is_plausible_tool_name (call_name tc) then (Inl (MalformedName (truncate_tool_name (call_name tc))), w)
      else (case execute_cancellable (env_tools E) (call_name tc) (call_arguments tc) w of
          (Inl (ToolNotFound n), w') \<Rightarrow> execute_mcp_tool E tc w'
        | other \<Rightarrow> other))"

definition run_dispatched :: "'w turn_env \<Rightarrow> tool_call \<Rightarrow> 'w \<Rightarrow> (ustring \<times> bool \<times> image_data list) \<times> 'w" where
  "run_dispatched E tc w =
     (case dispatch_tool_call E tc w of
        (Inr r, w') \<Rightarrow> ((result_output r, result_is_error r, result_images r), w')
      | (Inl e, w') \<Rightarrow> ((show_tool_error e, True, []), w'))"

definition tool_answer :: "ustring \<Rightarrow> ustring \<Rightarrow> image_data list \<Rightarrow> message" where
  "tool_answer text i images = (if images = [] then tool_message text i else tool_with_images text i images)"

text \<open>Everything downstream sees the same text: redacted, then cut for the history, then the guard's note.\<close>

definition settle_output :: "'w turn_env \<Rightarrow> 'w \<Rightarrow> tool_call \<Rightarrow> ustring option \<Rightarrow> ustring \<Rightarrow> ustring" where
  "settle_output E w tc note text =
     (let text = redact (env_redactor E w) text;
          text = (case env_save E of Some save \<Rightarrow> keep_for_history (save w tc) text | None \<Rightarrow> text)
      in case note of Some n \<Rightarrow> text @ [10, 10] @ n | None \<Rightarrow> text)"

definition execute_tool :: "'w turn_env \<Rightarrow> turn_config \<Rightarrow> nat \<Rightarrow> ustring option \<Rightarrow> tool_call \<Rightarrow> 'w turn \<Rightarrow> 'w turn" where
  "execute_tool E C call note tc s =
     (let s = publish_tool_call C tc call (emit_effect (Executing tc) s);
          (auto, w) = (case env_auto E of
             Some gate \<Rightarrow> gate tc (latest_user_request (recent_msgs (history s))) (world s)
           | None \<Rightarrow> (None, world s));
          s = s\<lparr>world := w\<rparr>;
          ((text, is_error, images), s) =
            (case auto of
               Some v \<Rightarrow>
                 if verdict_decision v = AutoBlocked then ((blocked_message v, True, []), s)
                 else (case run_dispatched E tc (world s) of (r, w) \<Rightarrow> (r, emit_effect (Dispatched tc) (s\<lparr>world := w\<rparr>)))
             | None \<Rightarrow> (case run_dispatched E tc (world s) of (r, w) \<Rightarrow> (r, emit_effect (Dispatched tc) (s\<lparr>world := w\<rparr>))));
          text = settle_output E (world s) tc note text;
          s = publish_tool_result C \<lparr>to_call_id = call_id tc, to_name = call_name tc, to_output = text,
                to_is_error = is_error, to_auto = auto\<rparr> s
      in push_and_record E C (tool_answer text (call_id tc) images) s)"

definition record_cancelled :: "'w turn_env \<Rightarrow> turn_config \<Rightarrow> nat \<Rightarrow> ustring \<Rightarrow> tool_call \<Rightarrow> 'w turn \<Rightarrow> 'w turn" where
  "record_cancelled E C call text tc s =
     (let s = publish_tool_call C tc call s; r = cancelled_result text;
          s = publish_tool_result C \<lparr>to_call_id = call_id tc, to_name = call_name tc, to_output = result_output r,
                to_is_error = result_is_error r, to_auto = None\<rparr> s
      in push_and_record E C (tool_message (result_output r) (call_id tc)) s)"

definition repeated_output :: "nat \<Rightarrow> ustring" where
  "repeated_output n =
     lit ''cancelled: this exact call (same tool, same arguments) was made '' @ show_nat n @
     lit '' times in a row; the turn was stopped instead of running it again because the result cannot change '' @ [8212] @
     lit '' try a different approach or report back instead''"

definition steering_note :: "nat \<Rightarrow> ustring" where
  "steering_note n =
     lit ''You'' @ [39] @ lit ''ve made this exact call '' @ show_nat n @
     lit '' times in a row with the same arguments; the result won'' @ [39] @
     lit ''t change. Try something different or finish.''"

text \<open>The batch of one response: the state, how many calls ran, and the call that tripped the guard.\<close>

fun run_tool_call_batch ::
  "'w turn_env \<Rightarrow> turn_config \<Rightarrow> nat \<Rightarrow> tool_call list \<Rightarrow> (ustring \<times> nat) option \<Rightarrow> 'w turn \<Rightarrow>
   'w turn \<times> nat \<times> (ustring \<times> nat) option" where
  "run_tool_call_batch E C call [] tripped s = (s, 0, tripped)"
| "run_tool_call_batch E C call (tc # tcs) tripped s =
     (if env_stopped E (world s) \<or> tripped \<noteq> None then
        run_tool_call_batch E C call tcs tripped (record_cancelled E C call CANCELLED_BEFORE_START tc s)
      else
        (let g = (if cfg_guard C then record_call (call_name tc) (call_arguments tc) (guard s) else guard s);
             s = s\<lparr>guard := g\<rparr>; n = guard_consecutive g
         in if cfg_guard C \<and> cfg_stop_after C \<le> n then
              run_tool_call_batch E C call tcs (Some (call_name tc, n)) (record_cancelled E C call (repeated_output n) tc s)
            else
              (let note = (if cfg_guard C \<and> cfg_steer_after C \<le> n then Some (steering_note n) else None)
               in case run_tool_call_batch E C call tcs tripped (execute_tool E C call note tc s) of
                    (s', k, t) \<Rightarrow> (s', Suc k, t))))"

definition repeat_notice :: "ustring \<Rightarrow> nat \<Rightarrow> ustring" where
  "repeat_notice name n =
     lit ''I stopped this turn because I called `'' @ name @ lit ''` with the exact same arguments '' @ show_nat n @
     lit '' times in a row '' @ [8212] @ lit '' the result can'' @ [39] @
     lit ''t change by calling it again. Adjust `repeat_call_stop_after` under `[agent]` in your Residuum config (or in Settings '' @
     [8594] @ lit '' Advanced '' @ [8594] @
     lit '' Runtime) if this is expected, or let me know what you'' @ [39] @ lit ''d like me to try instead.''"

definition handle_tool_call_response ::
  "'w turn_env \<Rightarrow> turn_config \<Rightarrow> nat \<Rightarrow> nat \<Rightarrow> inference_response \<Rightarrow> 'w turn \<Rightarrow> 'w turn \<times> nat \<times> ustring option" where
  "handle_tool_call_response E C turn_start call r s =
     (let s = (if resp_content r \<noteq> [] then publish_intermediate E C (resp_content r) call s else s);
          tcs = annotate_servers E (world s) (resp_tool_calls r);
          s = push_and_record E C ((assistant_message (resp_content r) (Some tcs))\<lparr>msg_thinking := resp_thinking r\<rparr>) s;
          s = (if cfg_subconscious C then emit_effect (Watched (iteration s) (messages_since turn_start (history s))) s else s)
      in case run_tool_call_batch E C call tcs None s of
           (s, executed, tripped) \<Rightarrow> (s, executed, map_option (\<lambda>(name, n). repeat_notice name n) tripped))"

definition process_tool_call_batch ::
  "'w turn_env \<Rightarrow> turn_config \<Rightarrow> nat \<Rightarrow> nat \<Rightarrow> inference_response \<Rightarrow> 'w turn \<Rightarrow> 'w turn \<times> ustring option" where
  "process_tool_call_batch E C turn_start call r s =
     (case handle_tool_call_response E C turn_start call r s of
        (s, executed, notice) \<Rightarrow> (update_and_publish_usage C r executed s, notice))"

section \<open>The loop\<close>

datatype turn_error = ModelCallFailed inference_error | EmptyResponses

datatype 'w turn_step = Continue "'w turn" | Done "'w turn" "turn_error + ustring list"

text \<open>One pass of the loop.\<close>

definition after_response :: "'w turn_env \<Rightarrow> turn_config \<Rightarrow> nat \<Rightarrow> nat \<Rightarrow> inference_response \<Rightarrow> bool \<Rightarrow> 'w turn \<Rightarrow> 'w turn_step" where
  "after_response E C turn_start call r0 streamed s =
     (let (r, s) = settle_response C r0 call s;
          s = notice_images_omitted r (messages_since turn_start (history s)) s;
          s = notice_thinking_dropped r s;
          s = (if was_truncated r then handle_output_truncated E C s else s)
      in if resp_tool_calls r = [] then
           (let s = update_and_publish_usage C r 0 s
            in if resp_content r = [] then
                 (case retry_empty_response C streamed call s of
                    (s, True) \<Rightarrow> Continue s
                  | (s, False) \<Rightarrow> Done s (Inl EmptyResponses))
               else
                 (let s = push_and_record E C ((assistant_message (resp_content r) None)\<lparr>msg_thinking := resp_thinking r\<rparr>) s
                  in Done (publish_reply E C (Some call) (resp_content r) s) (Inr [resp_content r])))
         else
           (case process_tool_call_batch E C turn_start call r s of
              (s, Some notice) \<Rightarrow> Done (finish_with_notice E C notice s) (Inr [notice])
            | (s, None) \<Rightarrow> Continue (s\<lparr>iteration := iteration s + 1\<rparr>)))"

text \<open>\<open>u32::try_from(iteration).unwrap_or(u32::MAX)\<close>.\<close>

definition call_number :: "nat \<Rightarrow> nat" where
  "call_number n = min n 4294967295"

definition turn_step :: "'w turn_env \<Rightarrow> turn_config \<Rightarrow> nat \<Rightarrow> 'w turn \<Rightarrow> 'w turn_step" where
  "turn_step E C turn_start s =
     (case check_tool_iteration_limit E C s of
        Some (s, notice) \<Rightarrow> Done s (Inr [notice])
      | None \<Rightarrow>
          (case check_interrupts_and_stop E C s of
             (s, True) \<Rightarrow> Done s (Inr [])
           | (s, False) \<Rightarrow>
               (let call = call_number (iteration s)
                in case request_model_response E C call s of
                     ModelStopped s \<Rightarrow> Done s (Inr [])
                   | ModelFailed e s \<Rightarrow> Done s (Inl (ModelCallFailed e))
                   | ModelCompleted r streamed s \<Rightarrow> after_response E C turn_start call r streamed s)))"

partial_function (option) execute_turn ::
  "'w turn_env \<Rightarrow> turn_config \<Rightarrow> nat \<Rightarrow> 'w turn \<Rightarrow> ('w turn \<times> (turn_error + ustring list)) option" where
  "execute_turn E C turn_start s =
     (case turn_step E C turn_start s of
        Continue s' \<Rightarrow> execute_turn E C turn_start s'
      | Done s' r \<Rightarrow> Some (s', r))"

definition start_turn :: "'w \<Rightarrow> recent \<Rightarrow> nat \<Rightarrow> status_clock option \<Rightarrow> session_totals \<Rightarrow> 'w turn" where
  "start_turn w b hops k ts =
     \<lparr>world = w, history = b, transcript = [], effects = [], hop_counter = hops, status = k, totals = ts,
      empty_retries = 0, turn_used = \<lparr>u_output_tokens = 0, u_has_usage = False, u_tool_calls = 0\<rparr>,
      guard = new_guard_state, images_noticed = False, drop_noticed = False, iteration = 0\<rparr>"

end
