(* ===== verification/Turn_History.thy ===== *)
theory Turn_History
  imports Agent_Turn
begin

text \<open>
  What a turn leaves behind: its operations only add to the history and to the effects, every tool call it records is
  answered in place, and what a main turn shows is what its history keeps.
\<close>

section \<open>Publishing only adds effects\<close>

definition emits :: "turn_effect list \<Rightarrow> 'w turn \<Rightarrow> 'w turn" where
  "emits es s = s\<lparr>effects := effects s @ es\<rparr>"

lemma emits_fields [simp]:
  "history (emits es s) = history s" "transcript (emits es s) = transcript s" "world (emits es s) = world s"
  "effects (emits es s) = effects s @ es" "guard (emits es s) = guard s" "iteration (emits es s) = iteration s"
  "empty_retries (emits es s) = empty_retries s" "turn_used (emits es s) = turn_used s" "totals (emits es s) = totals s"
  "status (emits es s) = status s" "images_noticed (emits es s) = images_noticed s"
  "hop_counter (emits es s) = hop_counter s"
  by (simp_all add: emits_def)

lemma emits_emits [simp]: "emits bs (emits as s) = emits (as @ bs) s"
  by (simp add: emits_def)

lemma emits_Nil [simp]: "emits [] s = s"
  by (simp add: emits_def)

definition on_main :: "turn_config \<Rightarrow> main_event \<Rightarrow> turn_effect list" where
  "on_main C e = (if cfg_target C = MainTurn then [OnMain e] else [])"

definition call_effect :: "turn_config \<Rightarrow> nat \<Rightarrow> tool_call \<Rightarrow> turn_effect" where
  "call_effect C call tc = (case cfg_target C of MainTurn \<Rightarrow> OnMain (McToolCall call tc) | SessionTurn \<Rightarrow> OnSession (SeToolCall tc))"

definition result_effect :: "turn_config \<Rightarrow> tool_outcome \<Rightarrow> turn_effect" where
  "result_effect C r = (case cfg_target C of MainTurn \<Rightarrow> OnMain (McToolResult r) | SessionTurn \<Rightarrow> OnSession (SeToolResult r))"

lemma emit_emits: "emit_effect x s = emits [x] s"
  by (simp add: emit_effect_def emits_def)

lemma publish_main_emits: "publish_main C e s = emits (on_main C e) s"
  by (simp add: publish_main_def on_main_def emit_emits)

lemma publish_tool_call_emits: "publish_tool_call C tc call s = emits [call_effect C call tc] s"
  by (simp add: publish_tool_call_def call_effect_def publish_main_emits on_main_def emit_emits split: turn_target.split)

lemma publish_tool_result_emits: "publish_tool_result C r s = emits [result_effect C r] s"
  by (simp add: publish_tool_result_def result_effect_def publish_main_emits on_main_def emit_emits split: turn_target.split)

text \<open>What stands in the history and what is shown of it: the agent's words and the results of its tools.\<close>

datatype shown = Said ustring | Returned ustring ustring

fun kept_of :: "message \<Rightarrow> shown list" where
  "kept_of m =
     (case msg_role m of
        AssistantRole \<Rightarrow> if msg_content m = [] then [] else [Said (msg_content m)]
      | ToolRole \<Rightarrow> (case msg_tool_call_id m of Some i \<Rightarrow> [Returned i (msg_content m)] | None \<Rightarrow> [])
      | _ \<Rightarrow> [])"

fun shown_of :: "turn_effect \<Rightarrow> shown list" where
  "shown_of (OnMain (McIntermediate call c)) = [Said c]"
| "shown_of (OnMain (McResponse call ep c)) = [Said c]"
| "shown_of (OnMain (McToolResult r)) = [Returned (to_call_id r) (to_output r)]"
| "shown_of x = []"

fun executed_of :: "turn_effect \<Rightarrow> (ustring \<times> json) list" where
  "executed_of (Executing tc) = [(call_name tc, call_arguments tc)]"
| "executed_of x = []"

abbreviation shown_in :: "turn_effect list \<Rightarrow> shown list" where "shown_in es \<equiv> concat (map shown_of es)"
abbreviation kept_in :: "message list \<Rightarrow> shown list" where "kept_in ms \<equiv> concat (map kept_of ms)"
abbreviation executed_in :: "turn_effect list \<Rightarrow> (ustring \<times> json) list" where "executed_in es \<equiv> concat (map executed_of es)"

text \<open>How one operation extends a turn: messages, effects and nothing else of the history.\<close>

definition grows :: "turn_config \<Rightarrow> 'w turn \<Rightarrow> 'w turn \<Rightarrow> message list \<Rightarrow> turn_effect list \<Rightarrow> bool" where
  "grows C s s' ms es \<longleftrightarrow>
     recent_msgs (history s') = recent_msgs (history s) @ ms \<and>
     transcript s' = transcript s @ (if cfg_transcript C then ms else []) \<and>
     effects s' = effects s @ es \<and>
     (cfg_target C = MainTurn \<longrightarrow> shown_in es = kept_in ms)"

lemma grows_refl: "grows C s s [] []"
  by (simp add: grows_def)

lemma grows_trans: "grows C s s' ms es \<Longrightarrow> grows C s' s'' ms' es' \<Longrightarrow> grows C s s'' (ms @ ms') (es @ es')"
  by (simp add: grows_def)

lemma grows_same:
  "recent_msgs (history s') = recent_msgs (history s) \<Longrightarrow> transcript s' = transcript s \<Longrightarrow> effects s' = effects s \<Longrightarrow>
     grows C s s' [] []"
  by (simp add: grows_def)

lemma grows_emits: "(cfg_target C = MainTurn \<Longrightarrow> shown_in es = []) \<Longrightarrow> grows C s (emits es s) [] es"
  by (simp add: grows_def)

lemma push_history [simp]:
  "recent_msgs (history (push_and_record E C m s)) = recent_msgs (history s) @ [m]"
  "transcript (push_and_record E C m s) = transcript s @ (if cfg_transcript C then [m] else [])"
  "effects (push_and_record E C m s) = effects s" "world (push_and_record E C m s) = world s"
  "guard (push_and_record E C m s) = guard s" "iteration (push_and_record E C m s) = iteration s"
  "empty_retries (push_and_record E C m s) = empty_retries s" "turn_used (push_and_record E C m s) = turn_used s"
  "totals (push_and_record E C m s) = totals s" "status (push_and_record E C m s) = status s"
  by (simp_all add: push_and_record_def push_message_def)

lemma grows_push: "(cfg_target C = MainTurn \<Longrightarrow> kept_of m = []) \<Longrightarrow> grows C s (push_and_record E C m s) [m] []"
  by (simp add: grows_def)

lemma push_many_history [simp]:
  "recent_msgs (history (push_and_record_many E C ms s)) = recent_msgs (history s) @ ms"
  "transcript (push_and_record_many E C ms s) = transcript s @ (if cfg_transcript C then ms else [])"
  "effects (push_and_record_many E C ms s) = effects s" "world (push_and_record_many E C ms s) = world s"
  "guard (push_and_record_many E C ms s) = guard s" "iteration (push_and_record_many E C ms s) = iteration s"
  "empty_retries (push_and_record_many E C ms s) = empty_retries s"
  by (simp_all add: push_and_record_many_def extend_messages_def)

section \<open>Histories a provider accepts\<close>

text \<open>Every tool call is answered, right behind the message that made it and in its order, and no answer stands alone.\<close>

inductive well_paired :: "message list \<Rightarrow> bool" where
  empty: "well_paired []"
| plain: "msg_role m \<noteq> ToolRole \<Longrightarrow> msg_tool_calls m = None \<Longrightarrow> well_paired ms \<Longrightarrow> well_paired (m # ms)"
| called: "msg_role m = AssistantRole \<Longrightarrow> msg_tool_calls m = Some tcs \<Longrightarrow>
    map (\<lambda>r. (msg_role r, msg_tool_calls r, msg_tool_call_id r)) answers = map (\<lambda>tc. (ToolRole, None, Some (call_id tc))) tcs \<Longrightarrow>
    well_paired ms \<Longrightarrow> well_paired (m # answers @ ms)"

lemma well_paired_append: "well_paired xs \<Longrightarrow> well_paired ys \<Longrightarrow> well_paired (xs @ ys)"
  by (induction rule: well_paired.induct) (auto intro: well_paired.intros)

lemma well_paired_plain: "list_all (\<lambda>m. msg_role m \<noteq> ToolRole \<and> msg_tool_calls m = None) ms \<Longrightarrow> well_paired ms"
  by (induction ms) (auto intro: well_paired.intros)

definition answer_key :: "message \<Rightarrow> role \<times> tool_call list option \<times> ustring option" where
  "answer_key r = (msg_role r, msg_tool_calls r, msg_tool_call_id r)"

lemma answers_tool [simp]:
  "answer_key (tool_message t i) = (ToolRole, None, Some i)" "answer_key (tool_answer t i images) = (ToolRole, None, Some i)"
  "kept_of (tool_message t i) = [Returned i t]" "kept_of (tool_answer t i images) = [Returned i t]"
  by (simp_all add: answer_key_def tool_answer_def tool_message_def tool_with_images_def plain_message_def)

declare kept_of.simps [simp del]

lemma kept_other [simp]:
  "kept_of (system_message c) = []" "kept_of (user_message c) = []"
  "kept_of (assistant_message c tcs) = (if c = [] then [] else [Said c])"
  "kept_of ((assistant_message c tcs)\<lparr>msg_thinking := bs\<rparr>) = (if c = [] then [] else [Said c])"
  by (simp_all add: kept_of.simps system_message_def user_message_def assistant_message_def plain_message_def)

section \<open>A batch answers every call\<close>

lemma emits_world: "(emits es s)\<lparr>world := w\<rparr> = emits es (s\<lparr>world := w\<rparr>)"
  by (simp add: emits_def)

lemma execute_tool_form:
  "\<exists>w body images r extra. execute_tool E C call note tc s =
     push_and_record E C (tool_answer body (call_id tc) images)
       (emits (Executing tc # call_effect C call tc # extra @ [result_effect C r]) (s\<lparr>world := w\<rparr>)) \<and>
     to_call_id r = call_id tc \<and> to_output r = body \<and> extra \<in> {[], [Dispatched tc]}"
proof -
  let ?s1 = "emits [Executing tc, call_effect C call tc] s"
  obtain auto w where a: "(case env_auto E of None \<Rightarrow> (None, world ?s1)
      | Some gate \<Rightarrow> gate tc (latest_user_request (recent_msgs (history ?s1))) (world ?s1)) = (auto, w)"
    by (meson surj_pair)
  obtain body is_error images w' where d: "run_dispatched E tc w = ((body, is_error, images), w')"
    by (metis surj_pair)
  show ?thesis
  proof (cases "\<exists>v. auto = Some v \<and> verdict_decision v = AutoBlocked")
    case True
    then obtain v where v: "auto = Some v" "verdict_decision v = AutoBlocked" by blast
    show ?thesis
      by (intro exI [of _ w] exI [of _ "settle_output E w tc note (blocked_message v)"] exI [of _ "[]"]
          exI [of _ "\<lparr>to_call_id = call_id tc, to_name = call_name tc, to_output = settle_output E w tc note (blocked_message v),
            to_is_error = True, to_auto = auto\<rparr>"])
        (simp add: execute_tool_def Let_def a v emit_emits publish_tool_call_emits publish_tool_result_emits emits_world)
  next
    case False
    have "execute_tool E C call note tc s =
      push_and_record E C (tool_answer (settle_output E w' tc note body) (call_id tc) images)
        (emits (Executing tc # call_effect C call tc # [Dispatched tc] @ [result_effect C
          \<lparr>to_call_id = call_id tc, to_name = call_name tc, to_output = settle_output E w' tc note body,
            to_is_error = is_error, to_auto = auto\<rparr>]) (s\<lparr>world := w'\<rparr>))"
      using False
      by (simp add: execute_tool_def Let_def a d emit_emits publish_tool_call_emits publish_tool_result_emits emits_world split: option.split)
    then show ?thesis by (metis (no_types, lifting) insertI1 insertI2 tool_outcome.select_convs(1,3))
  qed
qed

lemma shown_effects [simp]:
  "shown_of (call_effect C call tc) = []" "executed_of (call_effect C call tc) = []" "executed_of (result_effect C r) = []"
  "cfg_target C = MainTurn \<Longrightarrow> shown_of (result_effect C r) = [Returned (to_call_id r) (to_output r)]"
  by (auto simp: call_effect_def result_effect_def split: turn_target.split)

lemma execute_tool_grows:
  "\<exists>es body images. grows C s (execute_tool E C call note tc s) [tool_answer body (call_id tc) images] es \<and>
     executed_in es = [(call_name tc, call_arguments tc)]"
  "guard (execute_tool E C call note tc s) = guard s" "iteration (execute_tool E C call note tc s) = iteration s"
  "empty_retries (execute_tool E C call note tc s) = empty_retries s"
proof -
  obtain w body images r extra where form: "execute_tool E C call note tc s =
     push_and_record E C (tool_answer body (call_id tc) images)
       (emits (Executing tc # call_effect C call tc # extra @ [result_effect C r]) (s\<lparr>world := w\<rparr>))"
    and r: "to_call_id r = call_id tc" "to_output r = body" and extra: "extra \<in> {[], [Dispatched tc]}"
    using execute_tool_form [of E C call "note" tc s] by blast
  have "grows C s (execute_tool E C call note tc s) [tool_answer body (call_id tc) images]
      (Executing tc # call_effect C call tc # extra @ [result_effect C r])"
    using r extra by (auto simp: form grows_def)
  moreover have "executed_in (Executing tc # call_effect C call tc # extra @ [result_effect C r]) = [(call_name tc, call_arguments tc)]"
    using extra by auto
  ultimately show "\<exists>es body images. grows C s (execute_tool E C call note tc s) [tool_answer body (call_id tc) images] es \<and>
     executed_in es = [(call_name tc, call_arguments tc)]" by blast
qed (use execute_tool_form [of E C call "note" tc s] in auto)

lemma record_cancelled_grows:
  "grows C s (record_cancelled E C call body tc s) [tool_message body (call_id tc)]
     [call_effect C call tc, result_effect C \<lparr>to_call_id = call_id tc, to_name = call_name tc, to_output = body,
        to_is_error = False, to_auto = None\<rparr>]"
  "world (record_cancelled E C call body tc s) = world s" "guard (record_cancelled E C call body tc s) = guard s"
  "iteration (record_cancelled E C call body tc s) = iteration s"
  "empty_retries (record_cancelled E C call body tc s) = empty_retries s"
  by (auto simp: record_cancelled_def Let_def publish_tool_call_emits publish_tool_result_emits grows_def cancelled_result_def)

definition recorded :: "turn_config \<Rightarrow> tool_call \<Rightarrow> 'w turn \<Rightarrow> 'w turn" where
  "recorded C tc s = s\<lparr>guard := (if cfg_guard C then record_call (call_name tc) (call_arguments tc) (guard s) else guard s)\<rparr>"

definition trips :: "turn_config \<Rightarrow> tool_call \<Rightarrow> 'w turn \<Rightarrow> bool" where
  "trips C tc s \<longleftrightarrow> cfg_guard C \<and> cfg_stop_after C \<le> guard_consecutive (guard (recorded C tc s))"

definition steering :: "turn_config \<Rightarrow> nat \<Rightarrow> ustring option" where
  "steering C n = (if cfg_guard C \<and> cfg_steer_after C \<le> n then Some (steering_note n) else None)"

lemma batch_Cons:
  "run_tool_call_batch E C call (tc # tcs) tripped s =
     (if env_stopped E (world s) \<or> tripped \<noteq> None then
        run_tool_call_batch E C call tcs tripped (record_cancelled E C call CANCELLED_BEFORE_START tc s)
      else let s1 = recorded C tc s; n = guard_consecutive (guard s1) in
        if trips C tc s then
          run_tool_call_batch E C call tcs (Some (call_name tc, n)) (record_cancelled E C call (repeated_output n) tc s1)
        else (case run_tool_call_batch E C call tcs tripped (execute_tool E C call (steering C n) tc s1) of
            (s', k, t) \<Rightarrow> (s', Suc k, t)))"
  by (simp add: Let_def recorded_def trips_def steering_def)

declare run_tool_call_batch.simps(2) [simp del]

lemma recorded_fields [simp]:
  "history (recorded C tc s) = history s" "transcript (recorded C tc s) = transcript s" "effects (recorded C tc s) = effects s"
  "world (recorded C tc s) = world s" "iteration (recorded C tc s) = iteration s"
  "empty_retries (recorded C tc s) = empty_retries s"
  by (simp_all add: recorded_def)

lemma batch_grows:
  "run_tool_call_batch E C call tcs tripped s = (s', k, t) \<Longrightarrow>
     (\<exists>ms es. grows C s s' ms es \<and> map answer_key ms = map (\<lambda>tc. (ToolRole, None, Some (call_id tc))) tcs \<and>
        k = length (executed_in es)) \<and>
     iteration s' = iteration s \<and> empty_retries s' = empty_retries s"
proof (induction tcs arbitrary: tripped s k)
  case Nil
  then show ?case by (auto simp: intro!: exI [of _ "[]"] grows_refl)
next
  case (Cons tc tcs)
  let ?s = "recorded C tc s"
  let ?n = "guard_consecutive (guard ?s)"
  have step: ?case if rest: "run_tool_call_batch E C call tcs tripped' s1 = (s', k', t)"
    and one: "grows C s s1 [m] es" "answer_key m = (ToolRole, None, Some (call_id tc))" "k = length (executed_in es) + k'"
      "iteration s1 = iteration s" "empty_retries s1 = empty_retries s" for tripped' s1 k' m es
  proof -
    obtain ms es' where ih: "grows C s1 s' ms es'" "map answer_key ms = map (\<lambda>tc. (ToolRole, None, Some (call_id tc))) tcs"
        "k' = length (executed_in es')" "iteration s' = iteration s1" "empty_retries s' = empty_retries s1"
      using Cons.IH [OF rest] by blast
    show ?thesis
      using grows_trans [OF one(1) ih(1)] one ih by (intro conjI exI [of _ "m # ms"] exI [of _ "es @ es'"]) (auto)
  qed
  have same: "grows C ?s s1 ms es \<Longrightarrow> grows C s s1 ms es" for s1 ms es by (simp add: grows_def)
  consider "env_stopped E (world s) \<or> tripped \<noteq> None" | "\<not> (env_stopped E (world s) \<or> tripped \<noteq> None)" "trips C tc s"
    | "\<not> (env_stopped E (world s) \<or> tripped \<noteq> None)" "\<not> trips C tc s" by blast
  then show ?case
  proof cases
    case 1
    then show ?thesis using Cons.prems
      by (intro step [OF _ record_cancelled_grows(1)]) (auto simp: record_cancelled_grows batch_Cons)
  next
    case 2
    then show ?thesis using Cons.prems
      by (intro step [OF _ same [OF record_cancelled_grows(1)]]) (auto simp: record_cancelled_grows batch_Cons Let_def)
  next
    case 3
    obtain k' where rest: "run_tool_call_batch E C call tcs tripped (execute_tool E C call (steering C ?n) tc ?s) = (s', k', t)"
        "k = Suc k'"
      using Cons.prems 3 by (auto simp: batch_Cons Let_def split: prod.splits)
    obtain es body images where g: "grows C ?s (execute_tool E C call (steering C ?n) tc ?s) [tool_answer body (call_id tc) images] es"
        "executed_in es = [(call_name tc, call_arguments tc)]"
      using execute_tool_grows(1) by blast
    show ?thesis by (rule step [OF rest(1) same [OF g(1)]]) (simp_all add: rest(2) g(2) execute_tool_grows)
  qed
qed

section \<open>Quiet operations\<close>

text \<open>What adds only messages that are not the agent's, runs no tool and leaves the loop's counts alone.\<close>

definition plain_entry :: "message \<Rightarrow> bool" where
  "plain_entry m \<longleftrightarrow> msg_role m \<in> {UserRole, SystemRole} \<and> msg_tool_calls m = None"

lemma plain_kept: "plain_entry m \<Longrightarrow> kept_of m = []"
  by (auto simp: plain_entry_def kept_of.simps)

lemma plain_paired: "list_all plain_entry ms \<Longrightarrow> well_paired ms"
  by (rule well_paired_plain) (auto simp: list_all_iff plain_entry_def)

definition quiet :: "turn_config \<Rightarrow> 'w turn \<Rightarrow> 'w turn \<Rightarrow> bool" where
  "quiet C s s' \<longleftrightarrow>
     (\<exists>ms es. grows C s s' ms es \<and> list_all plain_entry ms \<and> executed_in es = []) \<and>
     iteration s' = iteration s \<and> empty_retries s' = empty_retries s \<and> guard s' = guard s"

lemma quiet_refl [simp]: "quiet C s s"
  using grows_refl by (force simp: quiet_def)

lemma quiet_trans: "quiet C s s' \<Longrightarrow> quiet C s' s'' \<Longrightarrow> quiet C s s''"
proof -
  assume a: "quiet C s s'" "quiet C s' s''"
  then obtain ms es ms' es' where g: "grows C s s' ms es" "list_all plain_entry ms" "executed_in es = []"
      "grows C s' s'' ms' es'" "list_all plain_entry ms'" "executed_in es' = []" by (auto simp: quiet_def)
  have "grows C s s'' (ms @ ms') (es @ es')" by (rule grows_trans [OF g(1,4)])
  moreover have "list_all plain_entry (ms @ ms')" "executed_in (es @ es') = []" using g by auto
  ultimately have "\<exists>ms es. grows C s s'' ms es \<and> list_all plain_entry ms \<and> executed_in es = []" by blast
  with a show ?thesis by (simp add: quiet_def)
qed

lemma quiet_fields:
  "history s' = history s \<Longrightarrow> transcript s' = transcript s \<Longrightarrow> effects s' = effects s \<Longrightarrow> iteration s' = iteration s \<Longrightarrow>
     empty_retries s' = empty_retries s \<Longrightarrow> guard s' = guard s \<Longrightarrow> quiet C s s'"
  using grows_same [of s' s C] by (force simp: quiet_def)

lemma quiet_emits: "(cfg_target C = MainTurn \<Longrightarrow> shown_in es = []) \<Longrightarrow> executed_in es = [] \<Longrightarrow> quiet C s (emits es s)"
  using grows_emits [of C es s] by (force simp: quiet_def)

lemma quiet_push: "plain_entry m \<Longrightarrow> quiet C s (push_and_record E C m s)"
  using grows_push [of C m s E] plain_kept [of m] by (force simp: quiet_def)

lemma quiet_push_many:
  assumes "list_all plain_entry ms"
  shows "quiet C s (push_and_record_many E C ms s)"
proof -
  have "kept_in ms = []" using assms by (induction ms) (auto simp: plain_kept)
  then have "grows C s (push_and_record_many E C ms s) ms []" by (simp add: grows_def)
  with assms show ?thesis by (force simp: quiet_def)
qed

lemma plain_notes [simp]: "plain_entry (system_message c)" "plain_entry (to_history_message m)"
  by (simp_all add: plain_entry_def system_message_def plain_message_def to_history_message_def user_message_def)

lemma plain_into_history: "list_all plain_entry (into_history_messages e)"
  by (auto simp: into_history_messages_def plain_entry_def system_message_def user_message_def user_with_images_def
      plain_message_def Let_def split: option.split)

lemma plain_stamp: "stamp sh now src m k = (m', k') \<Longrightarrow> plain_entry m \<Longrightarrow> plain_entry m'"
  by (auto simp: stamp_def plain_entry_def)

lemma plain_admit:
  assumes "admit sh now e k = (ms, k')"
  shows "list_all plain_entry ms"
proof (cases "position (\<lambda>m. msg_role m = UserRole) (rev (into_history_messages e))")
  case None
  then show ?thesis using assms plain_into_history [of e] by (simp add: admit_def)
next
  case (Some j)
  let ?es = "into_history_messages e"
  have j: "j < length ?es" using position_Some_less [OF Some] by simp
  obtain m k1 where st: "stamp sh now (Some (origin_endpoint (event_origin e))) (?es ! (length ?es - 1 - j)) k = (m, k1)"
    by (meson surj_pair)
  have "plain_entry (?es ! (length ?es - 1 - j))" using plain_into_history [of e] j by (auto simp: list_all_length)
  then have "plain_entry m" by (rule plain_stamp [OF st])
  moreover have "ms = ?es[length ?es - 1 - j := m]" using assms Some st by (simp add: admit_def Let_def)
  ultimately show ?thesis using plain_into_history [of e] by (auto simp: list_all_iff dest!: set_update_subset_insert [THEN subsetD])
qed

lemma on_main_quiet [simp]:
  "executed_in (on_main C e) = []" "shown_of (OnMain e) = [] \<Longrightarrow> shown_in (on_main C e) = []"
  by (simp_all add: on_main_def)

lemma fold_in_quiet: "fold_in E C i (s, b) = (s', b') \<Longrightarrow> quiet C s s' \<and> (b \<longrightarrow> b')"
proof (cases i)
  case (UserMessage e)
  assume a: "fold_in E C i (s, b) = (s', b')"
  let ?s = "publish_user_message C e s"
  have q: "quiet C s ?s" by (simp add: publish_user_message_def publish_main_emits quiet_emits)
  show ?thesis
  proof (cases "status ?s")
    case None
    with a UserMessage have "s' = push_and_record_many E C (into_history_messages e) ?s" "b' = b"
      by (auto simp: fold_in_def Let_def)
    then show ?thesis using q quiet_trans [OF q] quiet_push_many [OF plain_into_history] by blast
  next
    case (Some k)
    obtain ms k' where ad: "admit (env_show_time E) (env_local_now E (world ?s)) e k = (ms, k')" by (meson surj_pair)
    with a UserMessage Some have s': "s' = push_and_record_many E C ms (?s\<lparr>status := Some k'\<rparr>)" "b' = b"
      by (auto simp: fold_in_def Let_def)
    have "quiet C ?s (?s\<lparr>status := Some k'\<rparr>)" by (rule quiet_fields) simp_all
    then show ?thesis using s' quiet_trans [OF q] quiet_trans quiet_push_many [OF plain_admit [OF ad]] by blast
  qed
next
  case (AgentMessage m)
  assume a: "fold_in E C i (s, b) = (s', b')"
  let ?s = "s\<lparr>hop_counter := hop_bump (hop_counter s) (message_hops m)\<rparr>"
  have q: "quiet C s ?s" by (rule quiet_fields) simp_all
  have r: "quiet C s (publish_message_read C m s)" for s :: "'w turn"
    by (simp add: publish_message_read_def emit_emits quiet_emits)
  show ?thesis
  proof (cases "status ?s")
    case None
    with a AgentMessage have "s' = publish_message_read C m (push_and_record E C (to_history_message m) ?s)" "b' = b"
      by (auto simp: fold_in_def Let_def)
    then show ?thesis using q quiet_trans r quiet_push [OF plain_notes(2)] by blast
  next
    case (Some k)
    obtain e k' where st: "stamp (env_show_time E) (env_local_now E (world ?s)) None (to_history_message m) k = (e, k')"
      by (meson surj_pair)
    with a AgentMessage Some have s': "s' = publish_message_read C m (push_and_record E C e (?s\<lparr>status := Some k'\<rparr>))" "b' = b"
      by (auto simp: fold_in_def Let_def)
    have "quiet C ?s (?s\<lparr>status := Some k'\<rparr>)" by (rule quiet_fields) simp_all
    then show ?thesis using s' q quiet_trans r quiet_push [OF plain_stamp [OF st plain_notes(2)]] by blast
  qed
qed (auto simp: fold_in_def quiet_push)

lemma fold_fold_in_quiet: "fold (fold_in E C) is (s, b) = (s', b') \<Longrightarrow> quiet C s s' \<and> (b \<longrightarrow> b')"
proof (induction "is" arbitrary: s b)
  case (Cons i "is")
  obtain s1 b1 where one: "fold_in E C i (s, b) = (s1, b1)" by (meson surj_pair)
  with Cons.prems have "fold (fold_in E C) is (s1, b1) = (s', b')" by simp
  with Cons.IH fold_in_quiet [OF one] quiet_trans show ?case by blast
qed simp

lemma checkpoint_quiet:
  assumes "check_interrupts_and_stop E C s = (s', b)"
  shows "quiet C s s'"
proof -
  obtain ints w where i: "env_interrupts E (world s) = (ints, w)" by (meson surj_pair)
  obtain s1 b1 where d: "fold (fold_in E C) ints (s\<lparr>world := w\<rparr>, False) = (s1, b1)" by (meson surj_pair)
  have "quiet C s (s\<lparr>world := w\<rparr>)" by (rule quiet_fields) simp_all
  with fold_fold_in_quiet [OF d] have "quiet C s s1" using quiet_trans by blast
  moreover have "s' = s1 \<or> s' = record_stop E C s1"
    using assms i d by (auto simp: check_interrupts_and_stop_def drain_interrupts_def split: if_splits)
  moreover have "quiet C s1 (record_stop E C s1)" by (simp add: record_stop_def quiet_push)
  ultimately show ?thesis using quiet_trans by blast
qed

lemma publish_pieces_emits: "publish_stream_pieces C call ps s = emits (concat (map (\<lambda>p. on_main C (McPiece call p)) ps)) s"
  by (induction ps arbitrary: s) (simp_all add: publish_stream_pieces_def publish_main_emits)

lemma pieces_silent [simp]:
  "shown_in (concat (map (\<lambda>p. on_main C (McPiece call p)) ps)) = []"
  "executed_in (concat (map (\<lambda>p. on_main C (McPiece call p)) ps)) = []"
  by (induction ps) simp_all

lemma call_model_quiet:
  "case call_model E C q call s of ModelStopped s' \<Rightarrow> quiet C s s' | ModelFailed e s' \<Rightarrow> quiet C s s'
   | ModelCompleted r streamed s' \<Rightarrow> quiet C s s'"
proof (cases "env_stopped E (world s)")
  case False
  obtain mc w where mc: "env_complete E q (world s) = (mc, w)" by (meson surj_pair)
  obtain ps streamed where ps: "(if cfg_target C = MainTurn then stream_call (call_moments mc) (call_queued mc) (call_now mc)
      else ([], False)) = (ps, streamed)" by (meson surj_pair)
  let ?s = "publish_stream_pieces C call ps (emit_effect (AskedModel q) (s\<lparr>world := w\<rparr>))"
  have "quiet C s (s\<lparr>world := w\<rparr>)" by (rule quiet_fields) simp_all
  moreover have "quiet C (s\<lparr>world := w\<rparr>) ?s" by (simp add: publish_pieces_emits emit_emits quiet_emits)
  ultimately have q: "quiet C s ?s" by (rule quiet_trans)
  moreover have "quiet C ?s (emit_effect (CallRecorded r) ?s)" for r by (simp add: emit_emits quiet_emits)
  ultimately have "quiet C s (emit_effect (CallRecorded r) ?s)" for r by (rule quiet_trans)
  with q show ?thesis using False mc ps by (simp add: call_model_def Let_def split: call_end.split sum.split)
qed (simp add: call_model_def)

lemma request_quiet:
  "case request_model_response E C call s of ModelStopped s' \<Rightarrow> quiet C s s' | ModelFailed e s' \<Rightarrow> quiet C s s'
   | ModelCompleted r streamed s' \<Rightarrow> quiet C s s'"
proof -
  let ?q = "build_model_request E (history s) (world s)"
  let ?s = "s\<lparr>history := fst (watch_request (env_fp_tool E) (env_fp_message E) ?q (0 < call) (history s))\<rparr>"
  have "recent_msgs (history ?s) = recent_msgs (history s)" by (simp add: watch_request_def split: prod.split)
  then have q: "quiet C s ?s" using grows_same [of ?s s C] by (force simp: quiet_def)
  have r: "quiet C s' (record_stop E C s')" for s' :: "'a turn" by (simp add: record_stop_def quiet_push)
  show ?thesis
  proof (cases "call_model E C ?q call ?s")
    case (ModelStopped s')
    with call_model_quiet [where E = E and C = C and q = ?q and call = call and s = ?s] have "quiet C ?s s'" by simp
    with quiet_trans [OF quiet_trans [OF q] r] ModelStopped show ?thesis by (simp add: request_model_response_def Let_def)
  qed (use call_model_quiet [where E = E and C = C and q = ?q and call = call and s = ?s] quiet_trans [OF q] in
    \<open>simp_all add: request_model_response_def Let_def\<close>)
qed

lemma settle_quiet: "settle_response C r call s = (r', s') \<Longrightarrow> quiet C s s'"
  by (auto simp: settle_response_def Let_def publish_main_emits quiet_emits split: if_splits option.splits)

lemma images_quiet: "quiet C s (notice_images_omitted r ms s)"
proof -
  have "quiet C s (s\<lparr>images_noticed := True\<rparr>)" by (rule quiet_fields) simp_all
  moreover have "quiet C s (emits [OnSystem n] s)" for s :: "'a turn" and n by (simp add: quiet_emits)
  ultimately show ?thesis
    by (auto simp: notice_images_omitted_def Let_def emit_emits split: option.split intro: quiet_trans)
qed

lemma drop_quiet: "quiet C s (notice_thinking_dropped r s)"
proof -
  have "quiet C s (s\<lparr>drop_noticed := True\<rparr>)" by (rule quiet_fields) simp_all
  moreover have "quiet C s (emits [OnSystem n] s)" for s :: "'a turn" and n by (simp add: quiet_emits)
  ultimately show ?thesis by (auto simp: notice_thinking_dropped_def emit_emits intro: quiet_trans)
qed

lemma truncated_quiet: "quiet C s (handle_output_truncated E C s)"
  by (simp add: handle_output_truncated_def emit_emits) (rule quiet_trans [OF quiet_emits quiet_push]; simp)

lemma usage_quiet: "quiet C s (update_and_publish_usage C r n s)"
proof -
  have p: "quiet C s (publish_usage C ts s)" for s :: "'a turn" and ts
    by (simp add: publish_usage_def publish_main_emits emit_emits quiet_emits split: turn_target.split)
  have f: "quiet C s (s\<lparr>turn_used := u\<rparr>)" "quiet C s (s\<lparr>turn_used := u, totals := t\<rparr>)" for u t
    by (rule quiet_fields; simp)+
  show ?thesis
    by (cases "cfg_usage_sink C")
      (simp_all add: update_and_publish_usage_def Let_def quiet_trans [OF f(1) p] quiet_trans [OF f(2) p])
qed

section \<open>One pass of the loop\<close>

text \<open>A pass extends the history by a well-paired stretch.\<close>

definition extends :: "turn_config \<Rightarrow> 'w turn \<Rightarrow> 'w turn \<Rightarrow> bool" where
  "extends C s s' \<longleftrightarrow> (\<exists>ms es. grows C s s' ms es \<and> well_paired ms)"

lemma extends_trans: "extends C s s' \<Longrightarrow> extends C s' s'' \<Longrightarrow> extends C s s''"
  using grows_trans well_paired_append by (fastforce simp: extends_def)

lemma quiet_extends: "quiet C s s' \<Longrightarrow> extends C s s'"
  using plain_paired by (auto simp: quiet_def extends_def)

definition intermediate_effects :: "'w turn_env \<Rightarrow> turn_config \<Rightarrow> ustring \<Rightarrow> nat \<Rightarrow> 'w \<Rightarrow> turn_effect list" where
  "intermediate_effects E C c call w =
     (case cfg_target C of
        MainTurn \<Rightarrow> OnMain (McIntermediate call c) #
          (case chat_interface_endpoint (env_output E w) of Some ep \<Rightarrow> [OnChat ep c] | None \<Rightarrow> [])
      | SessionTurn \<Rightarrow> [OnSession (SeIntermediate c)]) @
     (case cfg_conversation C of Some (ep, conv) \<Rightarrow> [OnConversation ep conv c] | None \<Rightarrow> [])"

lemma intermediate_form: "publish_intermediate E C c call s = emits (intermediate_effects E C c call (world s)) s"
  by (simp add: publish_intermediate_def intermediate_effects_def Let_def publish_main_emits emit_emits on_main_def
      split: turn_target.split option.split prod.split)

lemma intermediate_emits:
  "\<exists>es. publish_intermediate E C c call s = emits es s \<and> (cfg_target C = MainTurn \<longrightarrow> shown_in es = [Said c]) \<and> executed_in es = []"
proof (intro exI conjI)
  show "publish_intermediate E C c call s = emits (intermediate_effects E C c call (world s)) s" by (rule intermediate_form)
qed (auto simp: intermediate_effects_def split: turn_target.split option.split prod.split)

lemma reply_emits:
  "\<exists>es. publish_reply E C call c s = emits es s \<and> (cfg_target C = MainTurn \<longrightarrow> shown_in es = [Said c]) \<and> executed_in es = []"
proof (cases "cfg_target C")
  case MainTurn
  then show ?thesis
    by (simp add: publish_reply_def Let_def publish_main_emits emit_emits on_main_def)
      (intro conjI impI; rule exI, rule conjI, rule refl, simp)
next
  case SessionTurn
  then have "publish_reply E C call c s = emits [] s" by (simp add: publish_reply_def publish_main_def)
  with SessionTurn show ?thesis by fastforce
qed

text \<open>A message of the agent's, shown and pushed.\<close>

lemma reply_extends:
  assumes "c \<noteq> []" "m = (assistant_message c None)\<lparr>msg_thinking := bs\<rparr>"
  shows "extends C s (publish_reply E C call c (push_and_record E C m s))"
proof -
  obtain es where es: "publish_reply E C call c (push_and_record E C m s) = emits es (push_and_record E C m s)"
      "cfg_target C = MainTurn \<longrightarrow> shown_in es = [Said c]" using reply_emits by blast
  have "grows C s (emits es (push_and_record E C m s)) [m] es" using es(2) assms by (simp add: grows_def)
  moreover have "well_paired [m]"
    by (rule well_paired_plain) (simp add: assms(2) assistant_message_def plain_message_def)
  ultimately show ?thesis using es(1) by (auto simp: extends_def)
qed

lemma notice_extends: "notice \<noteq> [] \<Longrightarrow> extends C s (finish_with_notice E C notice s)"
  using reply_extends [of notice "(assistant_message notice None)\<lparr>msg_thinking := []\<rparr>" "[]" C s E None]
  by (simp add: finish_with_notice_def assistant_message_def plain_message_def)

lemma response_extends:
  assumes "handle_tool_call_response E C turn_start call r s = (s', k, notice)"
  shows "extends C s s' \<and> iteration s' = iteration s \<and> empty_retries s' = empty_retries s"
proof -
  let ?s1 = "if resp_content r \<noteq> [] then publish_intermediate E C (resp_content r) call s else s"
  let ?tcs = "annotate_servers E (world ?s1) (resp_tool_calls r)"
  let ?m = "(assistant_message (resp_content r) (Some ?tcs))\<lparr>msg_thinking := resp_thinking r\<rparr>"
  let ?s2 = "push_and_record E C ?m ?s1"
  let ?s3 = "if cfg_subconscious C then emit_effect (Watched (iteration ?s2) (messages_since turn_start (history ?s2))) ?s2 else ?s2"
  obtain tripped where b: "run_tool_call_batch E C call ?tcs None ?s3 = (s', k, tripped)"
    using assms by (auto simp: handle_tool_call_response_def Let_def split: prod.splits)
  obtain es where es: "?s1 = emits es s" "cfg_target C = MainTurn \<longrightarrow> shown_in es = kept_of ?m" "executed_in es = []"
  proof (cases "resp_content r = []")
    case True
    then show ?thesis using that [of "[]"] by simp
  next
    case False
    then show ?thesis using intermediate_emits [of E C "resp_content r" call s] that by auto
  qed
  have g: "grows C s ?s2 [?m] es" using es by (simp add: grows_def)
  have g3: "\<exists>es3. grows C s ?s3 [?m] es3"
    using g grows_trans [OF g grows_emits, of "[Watched (iteration ?s2) (messages_since turn_start (history ?s2))]"]
    by (auto simp: emit_emits)
  obtain ms es' where batch: "grows C ?s3 s' ms es'" "map answer_key ms = map (\<lambda>tc. (ToolRole, None, Some (call_id tc))) ?tcs"
      "iteration s' = iteration ?s3" "empty_retries s' = empty_retries ?s3"
    using batch_grows [OF b] by blast
  from g3 obtain es3 where "grows C s s' ([?m] @ ms) (es3 @ es')" using grows_trans [OF _ batch(1)] by blast
  moreover have "well_paired (?m # ms @ [])"
    using batch(2) by (intro well_paired.called [of _ ?tcs]) (auto simp: answer_key_def [abs_def] assistant_message_def plain_message_def intro: well_paired.empty)
  ultimately have "extends C s s'" by (auto simp: extends_def)
  then show ?thesis using batch(3,4) es(1) by (auto simp: emit_emits)
qed

lemma limit_notice_nonempty: "limit_notice n \<noteq> []" "repeat_notice a n \<noteq> []"
  by (simp_all add: limit_notice_def repeat_notice_def)

lemma after_response_extends:
  "case after_response E C turn_start call resp streamed s of
     Continue s' \<Rightarrow> extends C s s' \<and>
       (iteration s' = Suc (iteration s) \<and> empty_retries s' = empty_retries s \<or>
        iteration s' = iteration s \<and> empty_retries s' = Suc (empty_retries s) \<and> empty_retries s < MAX_EMPTY_RESPONSE_RETRIES)
   | Done s' res \<Rightarrow> extends C s s'"
proof -
  obtain r s1 where set: "settle_response C resp call s = (r, s1)" by (meson surj_pair)
  let ?s2 = "notice_thinking_dropped r (notice_images_omitted r (messages_since turn_start (history s1)) s1)"
  let ?s3 = "if was_truncated r then handle_output_truncated E C ?s2 else ?s2"
  have "quiet C s ?s2" by (rule quiet_trans [OF quiet_trans [OF settle_quiet [OF set] images_quiet] drop_quiet])
  then have q: "quiet C s ?s3" by (cases "was_truncated r") (auto intro: quiet_trans truncated_quiet)
  then have e: "extends C s ?s3" and n: "iteration ?s3 = iteration s" "empty_retries ?s3 = empty_retries s"
    by (auto simp: quiet_extends) (auto simp: quiet_def)
  show ?thesis
  proof (cases "resp_tool_calls r = []")
    case True
    let ?s4 = "update_and_publish_usage C r 0 ?s3"
    have q4: "quiet C ?s3 ?s4" by (rule usage_quiet)
    then have e4: "extends C s ?s4" and n4: "iteration ?s4 = iteration s" "empty_retries ?s4 = empty_retries s"
      using extends_trans [OF e quiet_extends] n by (auto simp: quiet_def)
    show ?thesis
    proof (cases "resp_content r = []")
      case empty: True
      let ?s5 = "if streamed then publish_main C (McPiece call PieceRestart) ?s4 else ?s4"
      have q5: "quiet C ?s4 ?s5" by (simp add: publish_main_emits quiet_emits)
      then have e5: "extends C s ?s5" and n5: "iteration ?s5 = iteration s" "empty_retries ?s5 = empty_retries s"
        using extends_trans [OF e4 quiet_extends] n4 by (auto simp: quiet_def)
      have e6: "extends C s (?s5\<lparr>empty_retries := k\<rparr>)" for k
        using e5 by (auto simp: extends_def grows_def)
      show ?thesis using True empty e5 e6 n5 set
        by (simp add: after_response_def Let_def retry_empty_response_def)
    next
      case False
      then have "extends C ?s4 (publish_reply E C (Some call) (resp_content r)
          (push_and_record E C ((assistant_message (resp_content r) None)\<lparr>msg_thinking := resp_thinking r\<rparr>) ?s4))"
        by (intro reply_extends) auto
      with e4 have "extends C s (publish_reply E C (Some call) (resp_content r)
          (push_and_record E C ((assistant_message (resp_content r) None)\<lparr>msg_thinking := resp_thinking r\<rparr>) ?s4))"
        by (rule extends_trans)
      then show ?thesis using True False set by (simp add: after_response_def Let_def)
    qed
  next
    case False
    obtain s4 k notice where h: "handle_tool_call_response E C turn_start call r ?s3 = (s4, k, notice)"
      using prod_cases3 by blast
    note e4 = response_extends [OF h]
    let ?s5 = "update_and_publish_usage C r k s4"
    have q5: "quiet C s4 ?s5" by (rule usage_quiet)
    have e5: "extends C s ?s5" using extends_trans [OF e] e4 extends_trans quiet_extends [OF q5] by blast
    have n5: "iteration ?s5 = iteration s" "empty_retries ?s5 = empty_retries s"
      using q5 e4 n by (auto simp: quiet_def)
    have e6: "extends C s (?s5\<lparr>iteration := i\<rparr>)" for i using e5 by (auto simp: extends_def grows_def)
    have notice: "notice = Some x \<Longrightarrow> x \<noteq> []" for x
      using h by (auto simp: handle_tool_call_response_def Let_def limit_notice_nonempty split: prod.splits)
    have e7: "notice = Some x \<Longrightarrow> extends C s (finish_with_notice E C x ?s5)" for x
      using extends_trans [OF e5 notice_extends] notice by blast
    show ?thesis using False set h e6 e7 n5
      by (cases notice) (simp_all add: after_response_def Let_def process_tool_call_batch_def)
  qed
qed


lemma step_extends:
  "case turn_step E C turn_start s of
     Continue s' \<Rightarrow> extends C s s' \<and> (\<forall>n. cfg_max_iterations C = Some n \<longrightarrow> iteration s < n) \<and>
       (iteration s' = Suc (iteration s) \<and> empty_retries s' = empty_retries s \<or>
        iteration s' = iteration s \<and> empty_retries s' = Suc (empty_retries s) \<and> empty_retries s < MAX_EMPTY_RESPONSE_RETRIES)
   | Done s' res \<Rightarrow> extends C s s'"
proof (cases "check_tool_iteration_limit E C s")
  case (Some p)
  then obtain n where "p = (finish_with_notice E C (limit_notice n) s, limit_notice n)"
    by (auto simp: check_tool_iteration_limit_def split: option.splits if_splits)
  then show ?thesis by (simp add: turn_step_def Some notice_extends limit_notice_nonempty)
next
  case None
  then have limit: "\<forall>n. cfg_max_iterations C = Some n \<longrightarrow> iteration s < n"
    by (auto simp: check_tool_iteration_limit_def split: if_splits)
  obtain s1 b where c: "check_interrupts_and_stop E C s = (s1, b)" by (meson surj_pair)
  note q1 = checkpoint_quiet [OF c]
  note q2 = request_quiet [where E = E and C = C and call = "call_number (iteration s1)" and s = s1]
  show ?thesis
  proof (cases b)
    case True
    then show ?thesis by (simp add: turn_step_def None c quiet_extends [OF q1])
  next
    case False
    show ?thesis
    proof (cases "request_model_response E C (call_number (iteration s1)) s1")
      case (ModelCompleted r streamed s2)
      with q2 have q: "quiet C s s2" using quiet_trans [OF q1] by simp
      note n = quiet_extends [OF q] q [unfolded quiet_def]
      have "turn_step E C turn_start s = after_response E C turn_start (call_number (iteration s1)) r streamed s2"
        by (simp add: turn_step_def None c False ModelCompleted)
      then show ?thesis
        using after_response_extends [where E = E and C = C and turn_start = turn_start and call = "call_number (iteration s1)" and resp = r
            and streamed = streamed and s = s2] n limit
        by (auto split: turn_step.splits intro: extends_trans)
    next
      case (ModelStopped s2)
      with q2 have "quiet C s s2" using quiet_trans [OF q1] by simp
      then show ?thesis by (simp add: turn_step_def None c False ModelStopped quiet_extends)
    next
      case (ModelFailed e s2)
      with q2 have "quiet C s s2" using quiet_trans [OF q1] by simp
      then show ?thesis by (simp add: turn_step_def None c False ModelFailed quiet_extends)
    qed
  qed
qed

section \<open>The whole turn\<close>

lemma turn_invariant:
  assumes "execute_turn E C turn_start s = Some y" "Q s"
    and "\<And>s s'. Q s \<Longrightarrow> turn_step E C turn_start s = Continue s' \<Longrightarrow> Q s'"
    and "\<And>s s' r. Q s \<Longrightarrow> turn_step E C turn_start s = Done s' r \<Longrightarrow> D s' r"
  shows "D (fst y) (snd y)"
proof -
  have "Q s' \<longrightarrow> (\<forall>s s'. Q s \<longrightarrow> turn_step E' C' ts s = Continue s' \<longrightarrow> Q s') \<longrightarrow>
      (\<forall>s s' r. Q s \<longrightarrow> turn_step E' C' ts s = Done s' r \<longrightarrow> D s' r) \<longrightarrow> D (fst y) (snd y)"
    if "execute_turn E' C' ts s' = Some y" for E' C' ts s'
    using that
  proof (rule execute_turn.raw_induct [rotated])
    fix turn E' C' ts s y
    assume ih: "\<And>E C ts s' y. turn E C ts s' = Some y \<Longrightarrow> Q s' \<longrightarrow> (\<forall>s s'. Q s \<longrightarrow> turn_step E C ts s = Continue s' \<longrightarrow> Q s') \<longrightarrow>
        (\<forall>s s' r. Q s \<longrightarrow> turn_step E C ts s = Done s' r \<longrightarrow> D s' r) \<longrightarrow> D (fst y) (snd y)"
      and body: "(case turn_step E' C' ts s of Continue s' \<Rightarrow> turn E' C' ts s' | Done s' r \<Rightarrow> Some (s', r)) = Some y"
    show "Q s \<longrightarrow> (\<forall>s s'. Q s \<longrightarrow> turn_step E' C' ts s = Continue s' \<longrightarrow> Q s') \<longrightarrow>
        (\<forall>s s' r. Q s \<longrightarrow> turn_step E' C' ts s = Done s' r \<longrightarrow> D s' r) \<longrightarrow> D (fst y) (snd y)"
    proof (intro impI)
      assume q: "Q s" and next_q: "\<forall>s s'. Q s \<longrightarrow> turn_step E' C' ts s = Continue s' \<longrightarrow> Q s'"
        and done_d: "\<forall>s s' r. Q s \<longrightarrow> turn_step E' C' ts s = Done s' r \<longrightarrow> D s' r"
      show "D (fst y) (snd y)"
      proof (cases "turn_step E' C' ts s")
        case (Continue s2)
        with body have "turn E' C' ts s2 = Some y" by simp
        from ih [OF this] Continue q next_q done_d show ?thesis by blast
      next
        case (Done s2 r)
        with body q done_d show ?thesis by force
      qed
    qed
  qed
  then show ?thesis using assms by blast
qed

lemma turn_extends:
  assumes "execute_turn E C turn_start s = Some (s', res)"
  shows "extends C s s'"
proof -
  have "extends C s (fst (s', res))"
  proof (rule turn_invariant [OF assms, where Q = "extends C s" and D = "\<lambda>s' r. extends C s s'"])
    show "extends C s s" by (rule quiet_extends) simp
  next
    fix s1 s2
    assume "extends C s s1" "turn_step E C turn_start s1 = Continue s2"
    then show "extends C s s2" using step_extends [where E = E and C = C and turn_start = turn_start and s = s1] extends_trans [where C = C and s = s and s' = s1 and s'' = s2] by simp
  next
    fix s1 s2 r
    assume "extends C s s1" "turn_step E C turn_start s1 = Done s2 r"
    then show "extends C s s2" using step_extends [where E = E and C = C and turn_start = turn_start and s = s1] extends_trans [where C = C and s = s and s' = s1 and s'' = s2] by simp
  qed
  then show ?thesis by simp
qed

end
