(* ===== verification/Whole_Turn.thy ===== *)
theory Whole_Turn
  imports Turn_History
begin

text \<open>
  The properties of a whole turn (\<open>execute_turn\<close>, any number of passes): the history it leaves, what it shows, that it ends when its passes are
  limited, that a stop ends it, and that the guard keeps a call from being repeated.
\<close>

section \<open>What the turn leaves in the history\<close>

text \<open>C3: A turn only appends to the history. What it appended is a stretch a provider accepts: each tool call the agent made
  is answered, in place and in order, cancelled or not, and no answer stands alone. The durable transcript holds the same messages.\<close>

theorem turn_history_well_paired:
  assumes "execute_turn E C turn_start s = Some (s', r)"
  shows "\<exists>ms. recent_msgs (history s') = recent_msgs (history s) @ ms \<and> well_paired ms \<and>
    transcript s' = transcript s @ (if cfg_transcript C then ms else [])"
  using turn_extends [OF assms] by (auto simp: extends_def grows_def)



section \<open>How often the model is asked\<close>

fun is_ask :: "turn_effect \<Rightarrow> bool" where
  "is_ask (AskedModel q) = True"
| "is_ask x = False"

abbreviation asks :: "'w turn \<Rightarrow> nat" where "asks s \<equiv> length (filter is_ask (effects s))"

lemma is_ask_effects [simp]:
  "filter is_ask (on_main C e) = []" "\<not> is_ask (call_effect C call tc)" "\<not> is_ask (result_effect C r)"
  by (simp_all add: on_main_def call_effect_def result_effect_def split: turn_target.split)

lemma asks_publish [simp]:
  "asks (publish_user_message C e s) = asks s" "asks (publish_message_read C m s) = asks s"
  "asks (publish_usage C ts s) = asks s" "asks (publish_intermediate E C c call s) = asks s"
  "asks (publish_reply E C k c s) = asks s" "asks (publish_main C v s) = asks s"
  by (auto simp: publish_user_message_def publish_message_read_def publish_usage_def intermediate_form intermediate_effects_def
      publish_reply_def Let_def publish_main_emits emit_emits split: turn_target.split option.split)

lemma asks_pieces [simp]: "asks (publish_stream_pieces C call ps s) = asks s"
  by (induction ps arbitrary: s) (simp_all add: publish_stream_pieces_def publish_main_emits)

lemma asks_notices [simp]:
  "asks (notice_images_omitted r ms s) = asks s" "asks (notice_thinking_dropped r s) = asks s"
  "asks (handle_output_truncated E C s) = asks s" "asks (record_stop E C s) = asks s"
  "asks (finish_with_notice E C c s) = asks s" "asks (update_and_publish_usage C r n s) = asks s"
  by (auto simp: notice_images_omitted_def notice_thinking_dropped_def handle_output_truncated_def record_stop_def
      finish_with_notice_def update_and_publish_usage_def Let_def emit_emits split: option.split)

lemma asks_settle: "settle_response C r call s = (r', s') \<Longrightarrow> asks s' = asks s"
  by (auto simp: settle_response_def Let_def split: if_splits option.splits)

lemma asks_fold_in: "fold_in E C i (s, b) = (s', b') \<Longrightarrow> asks s' = asks s"
  by (auto simp: fold_in_def Let_def split: interrupt.splits option.splits prod.splits)

lemma asks_fold: "fold (fold_in E C) is (s, b) = (s', b') \<Longrightarrow> asks s' = asks s"
proof (induction "is" arbitrary: s b)
  case (Cons i "is")
  obtain s1 b1 where one: "fold_in E C i (s, b) = (s1, b1)" by (meson surj_pair)
  with Cons show ?case using asks_fold_in [OF one] by force
qed simp

lemma asks_checkpoint: "check_interrupts_and_stop E C s = (s', b) \<Longrightarrow> asks s' = asks s"
proof -
  assume a: "check_interrupts_and_stop E C s = (s', b)"
  obtain ints w where i: "env_interrupts E (world s) = (ints, w)" by (meson surj_pair)
  obtain s1 b1 where d: "fold (fold_in E C) ints (s\<lparr>world := w\<rparr>, False) = (s1, b1)" by (meson surj_pair)
  from a i d asks_fold [OF d] show ?thesis
    by (auto simp: check_interrupts_and_stop_def drain_interrupts_def split: if_splits)
qed

lemma asks_batch: "run_tool_call_batch E C call tcs tripped s = (s', k, t) \<Longrightarrow> asks s' = asks s"
proof (induction tcs arbitrary: tripped s k)
  case (Cons tc tcs)
  have c: "asks (record_cancelled E C call body tc s) = asks s" for body and s :: "'a turn"
    by (simp add: record_cancelled_def Let_def publish_tool_call_emits publish_tool_result_emits)
  have x: "asks (execute_tool E C call n tc s) = asks s" for n and s :: "'a turn"
    using execute_tool_form [of E C call n tc s] by auto
  from Cons.prems Cons.IH show ?case
    by (auto simp: batch_Cons Let_def c x split: if_splits prod.splits)
qed simp

lemma asks_response:
  assumes "handle_tool_call_response E C turn_start call r s = (s', k, notice)"
  shows "asks s' = asks s"
proof -
  obtain s2 tcs tripped where b: "run_tool_call_batch E C call tcs None s2 = (s', k, tripped)" and "asks s2 = asks s"
    using assms by (auto simp: handle_tool_call_response_def Let_def emit_emits split: prod.splits if_splits)
  then show ?thesis using asks_batch [OF b] by simp
qed

lemma asks_after:
  "case after_response E C turn_start call resp streamed s of Continue s' \<Rightarrow> asks s' = asks s | Done s' res \<Rightarrow> asks s' = asks s"
proof -
  obtain r s1 where set: "settle_response C resp call s = (r, s1)" by (meson surj_pair)
  let ?s3 = "if was_truncated r then handle_output_truncated E C (notice_thinking_dropped r (notice_images_omitted r (messages_since turn_start (history s1)) s1))
    else notice_thinking_dropped r (notice_images_omitted r (messages_since turn_start (history s1)) s1)"
  have s3: "asks ?s3 = asks s" using asks_settle [OF set] by simp
  obtain s4 k notice where h: "handle_tool_call_response E C turn_start call r ?s3 = (s4, k, notice)"
    using prod_cases3 by blast
  have s4: "asks s4 = asks s" using asks_response [OF h] s3 by simp
  show ?thesis
    using s3 s4 by (auto simp: after_response_def set Let_def retry_empty_response_def process_tool_call_batch_def h
        split: turn_step.splits if_splits option.splits)
qed

lemma asks_call:
  "case request_model_response E C call s of ModelStopped s' \<Rightarrow> asks s' \<le> Suc (asks s) | ModelFailed e s' \<Rightarrow> asks s' \<le> Suc (asks s)
   | ModelCompleted r streamed s' \<Rightarrow> asks s' \<le> Suc (asks s)"
  by (auto simp: request_model_response_def call_model_def Let_def emit_emits split: call_outcome.splits prod.splits
      call_end.splits sum.splits if_splits)

lemma asks_step:
  "case turn_step E C turn_start s of Continue s' \<Rightarrow> asks s' \<le> Suc (asks s)
   | Done s' res \<Rightarrow> asks s' \<le> (if check_tool_iteration_limit E C s = None then Suc (asks s) else asks s)"
proof (cases "check_tool_iteration_limit E C s")
  case (Some p)
  then show ?thesis by (auto simp: turn_step_def check_tool_iteration_limit_def split: option.splits if_splits)
next
  case None
  obtain s1 b where c: "check_interrupts_and_stop E C s = (s1, b)" by (meson surj_pair)
  note a = asks_checkpoint [OF c] asks_call [where E = E and C = C and call = "call_number (iteration s1)" and s = s1]
  show ?thesis
  proof (cases "request_model_response E C (call_number (iteration s1)) s1")
    case (ModelCompleted r streamed s2)
    then show ?thesis using a
        asks_after [where E = E and C = C and turn_start = turn_start and call = "call_number (iteration s1)" and resp = r
          and streamed = streamed and s = s2]
      by (auto simp: turn_step_def None c split: bool.split turn_step.splits)
  qed (use a in \<open>auto simp: turn_step_def None c split: bool.split\<close>)
qed

section \<open>A limited turn ends\<close>

lemma limited_turn:
  "cfg_max_iterations C = Some n \<Longrightarrow>
     \<exists>s' r. execute_turn E C turn_start s = Some (s', r) \<and>
       asks s' \<le> asks s + (n - iteration s) + (MAX_EMPTY_RESPONSE_RETRIES - empty_retries s)"
proof (induction "(n - iteration s) + (MAX_EMPTY_RESPONSE_RETRIES - empty_retries s)" arbitrary: s rule: less_induct)
  case less
  note pass = step_extends [where E = E and C = C and turn_start = turn_start and s = s]
  note cost = asks_step [where E = E and C = C and turn_start = turn_start and s = s]
  show ?case
  proof (cases "turn_step E C turn_start s")
    case (Continue s1)
    with pass less.prems have lower: "(n - iteration s1) + (MAX_EMPTY_RESPONSE_RETRIES - empty_retries s1)
        < (n - iteration s) + (MAX_EMPTY_RESPONSE_RETRIES - empty_retries s)" by auto
    from less.hyps [OF this less.prems] obtain s' r where rest: "execute_turn E C turn_start s1 = Some (s', r)"
        "asks s' \<le> asks s1 + (n - iteration s1) + (MAX_EMPTY_RESPONSE_RETRIES - empty_retries s1)" by blast
    moreover have "asks s1 \<le> Suc (asks s)" using cost Continue by simp
    ultimately have "asks s' \<le> asks s + (n - iteration s) + (MAX_EMPTY_RESPONSE_RETRIES - empty_retries s)"
      using lower by linarith
    with rest(1) show ?thesis by (subst execute_turn.simps) (simp add: Continue)
  next
    case (Done s1 r)
    then have "asks s1 \<le> asks s + (n - iteration s)"
      using cost less.prems by (auto simp: check_tool_iteration_limit_def split: if_splits)
    then show ?thesis by (subst execute_turn.simps) (simp add: Done)
  qed
qed

text \<open>C23: A turn with an iteration limit always ends, after at most two model calls more than the limit: the two
  retries of an empty answer are not counted against it.\<close>

theorem limited_turn_ends:
  assumes "cfg_max_iterations C = Some n"
  shows "\<exists>s' r. execute_turn E C turn_start (start_turn w b hops k ts) = Some (s', r) \<and> asks s' \<le> n + 2"
  using limited_turn [OF assms, of E turn_start "start_turn w b hops k ts"]
  by (simp add: start_turn_def MAX_EMPTY_RESPONSE_RETRIES_def)

section \<open>A stopped turn\<close>

lemma fold_in_keeps:
  "fold_in E C i (s, b) = (s', b') \<Longrightarrow> world s' = world s \<and> (b' \<longleftrightarrow> b \<or> i = StoppedByUser) \<and>
     (i = StoppedByUser \<longrightarrow> system_message STOP_NOTE \<in> set (recent_msgs (history s')))"
  by (cases i) (auto simp: fold_in_def Let_def publish_user_message_def publish_main_emits publish_message_read_def emit_emits
      split: option.splits prod.splits)

lemma fold_fold_in_keeps:
  "fold (fold_in E C) is (s, b) = (s', b') \<Longrightarrow> (b \<Longrightarrow> system_message STOP_NOTE \<in> set (recent_msgs (history s))) \<Longrightarrow>
     world s' = world s \<and> (b' \<longrightarrow> system_message STOP_NOTE \<in> set (recent_msgs (history s')))"
proof (induction "is" arbitrary: s b)
  case (Cons i "is")
  obtain s1 b1 where one: "fold_in E C i (s, b) = (s1, b1)" by (meson surj_pair)
  obtain ms es where "recent_msgs (history s1) = recent_msgs (history s) @ ms"
    using fold_in_quiet [OF one] by (auto simp: quiet_def grows_def)
  with Cons.prems(2) fold_in_keeps [OF one] have "b1 \<Longrightarrow> system_message STOP_NOTE \<in> set (recent_msgs (history s1))" by auto
  moreover have "fold (fold_in E C) is (s1, b1) = (s', b')" using Cons.prems(1) one by simp
  ultimately have "world s' = world s1 \<and> (b' \<longrightarrow> system_message STOP_NOTE \<in> set (recent_msgs (history s')))"
    using Cons.IH [of s1 b1] by blast
  then show ?case using fold_in_keeps [OF one] by simp
qed simp

lemma stopped_checkpoint:
  assumes "env_stopped E (world s)" "\<And>is w. env_interrupts E (world s) = (is, w) \<Longrightarrow> env_stopped E w"
  shows "\<exists>s'. check_interrupts_and_stop E C s = (s', True) \<and> system_message STOP_NOTE \<in> set (recent_msgs (history s')) \<and>
    env_stopped E (world s')"
proof -
  obtain ints w where i: "env_interrupts E (world s) = (ints, w)" by (meson surj_pair)
  obtain s1 b1 where d: "fold (fold_in E C) ints (s\<lparr>world := w\<rparr>, False) = (s1, b1)" by (meson surj_pair)
  have k: "world s1 = w" "b1 \<Longrightarrow> system_message STOP_NOTE \<in> set (recent_msgs (history s1))"
    using fold_fold_in_keeps [OF d] by auto
  have "env_stopped E w" by (rule assms(2) [OF i])
  with k show ?thesis
    by (cases b1) (simp_all add: check_interrupts_and_stop_def drain_interrupts_def i d record_stop_def)
qed


text \<open>C25: A stop in the middle of a batch: every call that has not started is answered, in order, as cancelled, and none runs.\<close>

theorem stopped_batch_cancels_the_rest:
  assumes "env_stopped E (world s)"
  shows "\<exists>s'. run_tool_call_batch E C call tcs None s = (s', 0, None) \<and> world s' = world s \<and>
    recent_msgs (history s') = recent_msgs (history s) @ map (\<lambda>tc. tool_message CANCELLED_BEFORE_START (call_id tc)) tcs"
  using assms
proof (induction tcs arbitrary: s)
  case (Cons tc tcs)
  let ?s = "record_cancelled E C call CANCELLED_BEFORE_START tc s"
  have "recent_msgs (history ?s) = recent_msgs (history s) @ [tool_message CANCELLED_BEFORE_START (call_id tc)]"
    using record_cancelled_grows(1) [of C s E call CANCELLED_BEFORE_START tc] by (simp add: grows_def)
  moreover have "env_stopped E (world ?s)" using Cons.prems by (simp add: record_cancelled_grows)
  ultimately show ?case using Cons.IH [of ?s] Cons.prems by (auto simp: batch_Cons record_cancelled_grows(2))
qed simp

section \<open>Calls that repeat\<close>

text \<open>How often the last element of a list stands at its end.\<close>

definition tail_run :: "'a list \<Rightarrow> nat" where
  "tail_run xs = length (takeWhile (\<lambda>x. x = last xs) (rev xs))"

lemma tail_run_snoc: "tail_run (xs @ [x]) = (if xs \<noteq> [] \<and> last xs = x then Suc (tail_run xs) else 1)"
  by (cases xs rule: rev_cases) (auto simp: tail_run_def)

lemma tail_run_replicate: "tail_run (ys @ replicate n x) \<ge> n"
proof (induction n)
  case (Suc n)
  have "tail_run (ys @ replicate (Suc n) x) = tail_run ((ys @ replicate n x) @ [x])" by (simp add: replicate_append_same)
  also have "\<dots> \<ge> Suc n" using Suc tail_run_snoc [of "ys @ replicate n x" x] by (cases n) auto
  finally show ?case by simp
qed simp

text \<open>No element stands \<open>k\<close> times in a row.\<close>

definition no_run :: "nat \<Rightarrow> 'a list \<Rightarrow> bool" where
  "no_run k xs \<longleftrightarrow> (\<forall>ys x zs. xs \<noteq> ys @ replicate k x @ zs)"

lemma no_run_snoc:
  assumes "no_run k xs" "tail_run (xs @ [x]) < k"
  shows "no_run k (xs @ [x])"
  unfolding no_run_def
proof (intro allI notI)
  fix ys y zs
  assume eq: "xs @ [x] = ys @ replicate k y @ zs"
  show False
  proof (cases zs rule: rev_cases)
    case Nil
    then have "tail_run (xs @ [x]) \<ge> k" using eq tail_run_replicate [of k ys y] by simp
    with assms(2) show False by simp
  next
    case (snoc zs' z)
    with eq have "xs = ys @ replicate k y @ zs'" by simp
    with assms(1) show False by (auto simp: no_run_def)
  qed
qed

definition guard_follows :: "(ustring \<times> json) list \<Rightarrow> repeat_guard \<Rightarrow> bool" where
  "guard_follows xs g \<longleftrightarrow>
     (if xs = [] then guard_last g = None else guard_last g = Some (last xs) \<and> guard_consecutive g = tail_run xs)"

lemma record_call_follows: "guard_follows xs g \<Longrightarrow> guard_follows (xs @ [(n, a)]) (record_call n a g)"
  by (auto simp: guard_follows_def record_call_def tail_run_snoc split: if_splits)

lemma tail_run_one: "xs \<noteq> [] \<Longrightarrow> 0 < tail_run xs"
  by (cases xs rule: rev_cases) (auto simp: tail_run_snoc)

definition no_repeats :: "turn_config \<Rightarrow> 'w turn \<Rightarrow> bool" where
  "no_repeats C s \<longleftrightarrow> no_run (cfg_stop_after C) (executed_in (effects s))"

definition guarded :: "turn_config \<Rightarrow> 'w turn \<Rightarrow> bool" where
  "guarded C s \<longleftrightarrow> no_repeats C s \<and> guard_follows (executed_in (effects s)) (guard s)"

lemma quiet_guarded: "quiet C s s' \<Longrightarrow> (guarded C s' \<longleftrightarrow> guarded C s) \<and> (no_repeats C s' \<longleftrightarrow> no_repeats C s)"
proof -
  assume "quiet C s s'"
  then have "executed_in (effects s') = executed_in (effects s)" "guard s' = guard s"
    by (auto simp: quiet_def grows_def simp del: concat_eq_Nil_conv)
  then show ?thesis by (simp add: guarded_def no_repeats_def)
qed

lemma tripped_batch:
  "run_tool_call_batch E C call tcs (Some p) s = (s', k, t) \<Longrightarrow>
     t = Some p \<and> executed_in (effects s') = executed_in (effects s)"
proof (induction tcs arbitrary: s)
  case (Cons tc tcs)
  let ?s = "record_cancelled E C call CANCELLED_BEFORE_START tc s"
  have "executed_in (effects ?s) = executed_in (effects s)"
    using record_cancelled_grows(1) [of C s E call CANCELLED_BEFORE_START tc] by (auto simp: grows_def)
  with Cons.IH [of ?s] Cons.prems show ?case by (simp add: batch_Cons)
qed simp

lemma batch_guarded:
  "run_tool_call_batch E C call tcs None s = (s', k, t) \<Longrightarrow> guarded C s \<Longrightarrow> cfg_guard C \<Longrightarrow>
     no_repeats C s' \<and> (t = None \<longrightarrow> guarded C s')"
proof (induction tcs arbitrary: s k)
  case (Cons tc tcs)
  let ?s = "recorded C tc s"
  let ?xs = "executed_in (effects s)"
  let ?n = "guard_consecutive (guard ?s)"
  have follows: "guard_follows (?xs @ [(call_name tc, call_arguments tc)]) (guard ?s)"
    using Cons.prems(2,3) record_call_follows by (simp add: recorded_def guarded_def)
  have same: "executed_in (effects (record_cancelled E C call body tc u)) = executed_in (effects u)" for body and u :: "'a turn"
    using record_cancelled_grows(1) [of C u E call body tc] by (auto simp: grows_def)
  consider "env_stopped E (world s)" | "\<not> env_stopped E (world s)" "trips C tc s" | "\<not> env_stopped E (world s)" "\<not> trips C tc s"
    by blast
  then show ?case
  proof cases
    case 1
    let ?u = "record_cancelled E C call CANCELLED_BEFORE_START tc s"
    have "guarded C ?u" using Cons.prems(2) by (simp add: guarded_def no_repeats_def same record_cancelled_grows)
    then show ?thesis using Cons.IH [of ?u] Cons.prems 1 by (simp add: batch_Cons)
  next
    case 2
    then have "run_tool_call_batch E C call tcs (Some (call_name tc, ?n)) (record_cancelled E C call (repeated_output ?n) tc ?s) = (s', k, t)"
      using Cons.prems(1) by (simp add: batch_Cons Let_def)
    from tripped_batch [OF this] show ?thesis using Cons.prems(2) by (simp add: same no_repeats_def guarded_def)
  next
    case 3
    let ?u = "execute_tool E C call (steering C ?n) tc ?s"
    obtain k' where rest: "run_tool_call_batch E C call tcs None ?u = (s', k', t)"
      using Cons.prems(1) 3 by (auto simp: batch_Cons Let_def split: prod.splits)
    have ran: "executed_in (effects ?u) = ?xs @ [(call_name tc, call_arguments tc)]"
      using execute_tool_grows(1) [of C ?s E call "steering C ?n" tc] by (auto simp: grows_def)
    have "?n < cfg_stop_after C" using 3 Cons.prems(3) by (simp add: trips_def)
    then have "no_run (cfg_stop_after C) (?xs @ [(call_name tc, call_arguments tc)])"
      using follows Cons.prems(2) by (intro no_run_snoc) (auto simp: guard_follows_def guarded_def no_repeats_def)
    then have "guarded C ?u" using follows by (simp add: guarded_def no_repeats_def ran execute_tool_grows)
    then show ?thesis using Cons.IH [OF rest] Cons.prems(3) by blast
  qed
qed (simp add: guarded_def)

lemma guarded_same:
  "executed_in (effects s') = executed_in (effects s) \<Longrightarrow> no_repeats C s' = no_repeats C s"
  "executed_in (effects s') = executed_in (effects s) \<Longrightarrow> guard s' = guard s \<Longrightarrow> guarded C s' = guarded C s"
  by (simp_all add: guarded_def no_repeats_def)

lemma executed_reply:
  "executed_in (effects (publish_reply E C k c s)) = executed_in (effects s)"
  "executed_in (effects (publish_intermediate E C c call s)) = executed_in (effects s)"
  "guard (publish_reply E C k c s) = guard s" "guard (publish_intermediate E C c call s) = guard s"
  using reply_emits [of E C k c s] intermediate_emits [of E C c call s] by (auto simp del: concat_eq_Nil_conv)

lemma response_guarded:
  assumes "handle_tool_call_response E C turn_start call r s = (s', k, notice)" "guarded C s" "cfg_guard C"
  shows "no_repeats C s' \<and> (notice = None \<longrightarrow> guarded C s')"
proof -
  let ?s1 = "if resp_content r \<noteq> [] then publish_intermediate E C (resp_content r) call s else s"
  let ?tcs = "annotate_servers E (world ?s1) (resp_tool_calls r)"
  let ?m = "(assistant_message (resp_content r) (Some ?tcs))\<lparr>msg_thinking := resp_thinking r\<rparr>"
  let ?s2 = "push_and_record E C ?m ?s1"
  let ?s3 = "if cfg_subconscious C then emit_effect (Watched (iteration ?s2) (messages_since turn_start (history ?s2))) ?s2 else ?s2"
  obtain tripped where b: "run_tool_call_batch E C call ?tcs None ?s3 = (s', k, tripped)" "notice = None \<longleftrightarrow> tripped = None"
    using assms(1) by (auto simp: handle_tool_call_response_def Let_def split: prod.splits)
  have "executed_in (effects ?s3) = executed_in (effects s)" "guard ?s3 = guard s"
    by (auto simp: emit_emits executed_reply)
  from guarded_same(2) [OF this] assms(2) have "guarded C ?s3" by iprover
  then show ?thesis using batch_guarded [OF b(1) _ assms(3)] b(2) by blast
qed

lemma after_response_guarded:
  assumes "guarded C s" "cfg_guard C"
  shows "case after_response E C turn_start call resp streamed s of Continue s' \<Rightarrow> guarded C s' | Done s' res \<Rightarrow> no_repeats C s'"
proof -
  obtain r s1 where set: "settle_response C resp call s = (r, s1)" by (meson surj_pair)
  let ?s2 = "notice_thinking_dropped r (notice_images_omitted r (messages_since turn_start (history s1)) s1)"
  let ?s3 = "if was_truncated r then handle_output_truncated E C ?s2 else ?s2"
  have "quiet C s ?s2" by (rule quiet_trans [OF quiet_trans [OF settle_quiet [OF set] images_quiet] drop_quiet])
  then have "quiet C s ?s3" by (cases "was_truncated r") (auto intro: quiet_trans truncated_quiet)
  then have g3: "guarded C ?s3" using quiet_guarded assms(1) by blast
  show ?thesis
  proof (cases "resp_tool_calls r = []")
    case True
    let ?s4 = "update_and_publish_usage C r 0 ?s3"
    have g4: "guarded C ?s4" using g3 quiet_guarded [OF usage_quiet] by blast
    show ?thesis
    proof (cases "resp_content r = []")
      case empty: True
      let ?s5 = "if streamed then publish_main C (McPiece call PieceRestart) ?s4 else ?s4"
      have "quiet C ?s4 ?s5" by (simp add: publish_main_emits quiet_emits)
      then have g5: "guarded C ?s5" using g4 quiet_guarded by blast
      then have "guarded C (?s5\<lparr>empty_retries := n\<rparr>)" "no_repeats C ?s5" for n by (simp_all add: guarded_def no_repeats_def)
      then show ?thesis using True empty set by (simp add: after_response_def Let_def retry_empty_response_def)
    next
      case False
      have "no_repeats C ?s4" using g4 by (simp add: guarded_def)
      then have "no_repeats C (publish_reply E C (Some call) (resp_content r)
          (push_and_record E C ((assistant_message (resp_content r) None)\<lparr>msg_thinking := resp_thinking r\<rparr>) ?s4))"
        by (simp add: no_repeats_def executed_reply)
      then show ?thesis using True False set by (simp add: after_response_def Let_def)
    qed
  next
    case False
    obtain s4 k notice where h: "handle_tool_call_response E C turn_start call r ?s3 = (s4, k, notice)"
      using prod_cases3 by blast
    let ?s5 = "update_and_publish_usage C r k s4"
    have "no_repeats C s4 \<and> (notice = None \<longrightarrow> guarded C s4)" by (rule response_guarded [OF h g3 assms(2)])
    then have g5: "no_repeats C ?s5" "notice = None \<Longrightarrow> guarded C ?s5" using quiet_guarded [OF usage_quiet] by blast+
    have g6: "no_repeats C (finish_with_notice E C x ?s5)" for x
      using g5(1) by (simp add: no_repeats_def finish_with_notice_def executed_reply)
    have g7: "notice = None \<Longrightarrow> guarded C (?s5\<lparr>iteration := i\<rparr>)" for i using g5(2) by (simp add: guarded_def no_repeats_def)
    show ?thesis using False set h g6 g7
      by (cases notice) (simp_all add: after_response_def Let_def process_tool_call_batch_def)
  qed
qed

lemma step_guarded:
  assumes "guarded C s" "cfg_guard C"
  shows "case turn_step E C turn_start s of Continue s' \<Rightarrow> guarded C s' | Done s' res \<Rightarrow> no_repeats C s'"
proof (cases "check_tool_iteration_limit E C s")
  case (Some p)
  then obtain n where "p = (finish_with_notice E C (limit_notice n) s, limit_notice n)"
    by (auto simp: check_tool_iteration_limit_def split: option.splits if_splits)
  then show ?thesis using assms(1) Some
    by (simp add: turn_step_def no_repeats_def guarded_def finish_with_notice_def executed_reply)
next
  case None
  obtain s1 b where c: "check_interrupts_and_stop E C s = (s1, b)" by (meson surj_pair)
  have g1: "guarded C s1" "no_repeats C s1" using quiet_guarded [OF checkpoint_quiet [OF c]] assms(1) by (auto simp: guarded_def)
  note q2 = request_quiet [where E = E and C = C and call = "call_number (iteration s1)" and s = s1]
  show ?thesis
  proof (cases "request_model_response E C (call_number (iteration s1)) s1")
    case (ModelStopped s2)
    with q2 g1 have "no_repeats C s2" using quiet_guarded [of C s1 s2] by simp
    then show ?thesis using g1 by (simp add: turn_step_def None c ModelStopped split: bool.split)
  next
    case (ModelFailed e s2)
    with q2 g1 have "no_repeats C s2" using quiet_guarded [of C s1 s2] by simp
    then show ?thesis using g1 by (simp add: turn_step_def None c ModelFailed split: bool.split)
  next
    case (ModelCompleted r streamed s2)
    with q2 g1 have "guarded C s2" using quiet_guarded [of C s1 s2] by simp
    then show ?thesis using g1 after_response_guarded [of C s2 E turn_start "call_number (iteration s1)" r streamed] assms(2)
      by (simp add: turn_step_def None c ModelCompleted split: bool.split)
  qed
qed

text \<open>With the guard on, a turn never runs the same call, with the same arguments, as often in a row as the guard allows.\<close>

theorem guard_stops_repeats:
  assumes "execute_turn E C turn_start (start_turn w b hops k ts) = Some (s', r)" "cfg_guard C" "0 < cfg_stop_after C"
  shows "executed_in (effects s') \<noteq> before @ replicate (cfg_stop_after C) call @ after"
proof -
  have "no_repeats C (fst (s', r))"
  proof (rule turn_invariant [OF assms(1), where Q = "guarded C" and D = "\<lambda>s r. no_repeats C s"])
    show "guarded C (start_turn w b hops k ts)"
      using assms(3) by (simp add: guarded_def no_repeats_def no_run_def guard_follows_def start_turn_def new_guard_state_def)
  next
    fix s1 s2
    assume "guarded C s1" "turn_step E C turn_start s1 = Continue s2"
    then show "guarded C s2" using step_guarded [of C s1 E turn_start] assms(2) by simp
  next
    fix s1 s2 r
    assume "guarded C s1" "turn_step E C turn_start s1 = Done s2 r"
    then show "no_repeats C s2" using step_guarded [of C s1 E turn_start] assms(2) by simp
  qed
  then show ?thesis unfolding no_repeats_def no_run_def fst_conv by blast
qed

section \<open>A turn that runs\<close>

text \<open>A model that asks for the same lookup until it is stopped; the world counts the calls.\<close>

definition lookup_call :: tool_call where
  "lookup_call = \<lparr>call_id = lit ''c'', call_name = lit ''lookup'', call_arguments = JNull, call_server = None\<rparr>"

definition lookup_tool :: "nat tool" where
  "lookup_tool = \<lparr>tool_def = \<lparr>tool_name = lit ''lookup'', tool_description = [], tool_parameters = JNull\<rparr>,
     tool_run = (\<lambda>args w. (Inr (cancelled_result (lit ''done'')), w))\<rparr>"

definition lookup_env :: "nat turn_env" where
  "lookup_env = \<lparr>env_now = (\<lambda>w. 0), env_local_now = (\<lambda>w. 0), env_show_time = (\<lambda>t. []), env_interrupts = (\<lambda>w. ([], w)),
     env_stopped = (\<lambda>w. 5 \<le> w), env_output = (\<lambda>w. None), env_assemble = (\<lambda>b w. recent_msgs b), env_mcp_tools = (\<lambda>w. []),
     env_complete = (\<lambda>q w. (\<lparr>call_moments = [], call_queued = [], call_now = 0,
        call_end = CallReturned (Inr (new_response (lit ''wait'') [lookup_call]))\<rparr>, Suc w)),
     env_server = (\<lambda>n w. None), env_tools = [lookup_tool], env_mcp_resolve = (\<lambda>n w. Some (ToolNotFound n)),
     env_mcp_call = (\<lambda>n a w. (None, w)), env_auto = None, env_redactor = (\<lambda>w. []), env_save = None,
     env_fp_tool = (\<lambda>t. None), env_fp_message = (\<lambda>m. None)\<rparr>"

definition lookup_config :: turn_config where
  "lookup_config = \<lparr>cfg_target = MainTurn, cfg_conversation = None, cfg_audience = False, cfg_max_iterations = Some 9,
     cfg_guard = True, cfg_steer_after = 2, cfg_stop_after = 3, cfg_max_tokens = None, cfg_transcript = True,
     cfg_usage_sink = True, cfg_subconscious = False\<rparr>"

definition lookup_start :: "nat turn" where
  "lookup_start = start_turn 0 new_recent 0 None no_totals"

lemma lookup_ends: "\<exists>s' r. execute_turn lookup_env lookup_config 0 lookup_start = Some (s', r)"
  using limited_turn [of lookup_config 9 lookup_env 0 lookup_start] by (auto simp: lookup_config_def)

theorem turn_history_well_paired_witness:
  "\<exists>s' r. execute_turn lookup_env lookup_config 0 lookup_start = Some (s', r) \<and> well_paired (recent_msgs (history s'))"
proof -
  obtain s' r where run: "execute_turn lookup_env lookup_config 0 lookup_start = Some (s', r)" using lookup_ends by blast
  from turn_history_well_paired [OF run] run show ?thesis by (auto simp: lookup_start_def start_turn_def new_recent_def)
qed


theorem limited_turn_ends_witness:
  "\<exists>s' r. execute_turn lookup_env lookup_config 0 (start_turn 0 new_recent 0 None no_totals) = Some (s', r) \<and> asks s' \<le> 11"
  using limited_turn_ends [of lookup_config 9 lookup_env 0 0 new_recent 0 None no_totals] by (simp add: lookup_config_def)


theorem stopped_batch_cancels_the_rest_witness:
  "\<exists>s'. run_tool_call_batch lookup_env lookup_config 0 [lookup_call] None (lookup_start\<lparr>world := 5\<rparr>) = (s', 0, None) \<and>
     recent_msgs (history s') = [tool_message CANCELLED_BEFORE_START (lit ''c'')]"
  using stopped_batch_cancels_the_rest [of lookup_env "lookup_start\<lparr>world := 5\<rparr>" lookup_config 0 "[lookup_call]"]
  by (auto simp: lookup_env_def lookup_start_def lookup_call_def start_turn_def new_recent_def)

theorem guard_stops_repeats_witness:
  "\<exists>s' r. execute_turn lookup_env lookup_config 0 (start_turn 0 new_recent 0 None no_totals) = Some (s', r) \<and>
     executed_in (effects s') \<noteq> replicate 3 (lit ''lookup'', JNull)"
proof -
  obtain s' r where run: "execute_turn lookup_env lookup_config 0 (start_turn 0 new_recent 0 None no_totals) = Some (s', r)"
    using lookup_ends by (auto simp: lookup_start_def)
  have "cfg_guard lookup_config" "0 < cfg_stop_after lookup_config" by (simp_all add: lookup_config_def)
  from guard_stops_repeats [OF run this, of "[]" "(lit ''lookup'', JNull)" "[]"] run show ?thesis
    by (auto simp: lookup_config_def)
qed

end
