(* ===== verification/Turn_Journal.thy ===== *)
theory Turn_Journal
  imports Agent_Turn
begin

text \<open>
  The main conversation as its pages see it: its events (\<open>bus/src/events.rs\<close>), the journal that keeps the turn in flight and the
  waiting messages and relays every event, numbered (\<open>gateway/src/turn_journal.rs\<close>), and the part of a web connection that reads
  it (\<open>gateway/src/websocket/subscriber.rs\<close>).
\<close>

section \<open>Events of the main conversation\<close>

datatype visibility = VisibleToUser | InBackground

record turn_origin =
  to_endpoint :: ustring
  to_sender :: "message_sender option"
  to_visibility :: visibility

definition turn_origin_of :: "message_origin \<Rightarrow> visibility \<Rightarrow> turn_origin" where
  "turn_origin_of g v = \<lparr>to_endpoint = origin_endpoint g, to_sender = origin_sender g, to_visibility = v\<rparr>"

text \<open>What an event of a message carries of it.\<close>

record queued_message =
  queued_id :: ustring
  queued_content :: ustring
  queued_images :: "image_data list"
  queued_attachments :: "message_attachment list"
  queued_sender :: "message_sender option"
  queued_endpoint :: ustring

definition queued_of :: "message_event \<Rightarrow> queued_message" where
  "queued_of m = \<lparr>queued_id = event_id m, queued_content = event_content m, queued_images = event_images m,
     queued_attachments = event_attachments m, queued_sender = origin_sender (event_origin m),
     queued_endpoint = origin_endpoint (event_origin m)\<rparr>"

datatype conversation_event =
    TurnStarted ustring turn_origin
  | TurnEnded ustring
  | UserMessageRead ustring queued_message "agent_sender option"
  | MessageQueued queued_message
  | MessageWithdrawn ustring
  | ToolCalled nat ustring tool_call
  | ToolReturned ustring tool_outcome
  | CallText ustring nat ustring
  | CallThinking ustring nat ustring
  | CallRestart ustring nat
  | CallThought ustring nat ustring
  | CallIntermediate ustring nat ustring
  | CallResponse ustring "nat option" ustring ustring
  | UsageProgress ustring turn_usage "session_totals option"

definition user_message_event :: "message_event \<Rightarrow> ustring \<Rightarrow> conversation_event option" where
  "user_message_event m turn =
     (if is_from_person (event_origin m) \<or> origin_agent_sender (event_origin m) \<noteq> None
      then Some (UserMessageRead turn (queued_of m) (origin_agent_sender (event_origin m))) else None)"

definition message_queued_event :: "message_event \<Rightarrow> conversation_event option" where
  "message_queued_event m = (if is_from_person (event_origin m) then Some (MessageQueued (queued_of m)) else None)"

section \<open>The journal\<close>

fun turn_of_event :: "conversation_event \<Rightarrow> ustring option" where
  "turn_of_event (TurnStarted t g) = Some t"
| "turn_of_event (TurnEnded t) = Some t"
| "turn_of_event (UserMessageRead t m a) = Some t"
| "turn_of_event (MessageQueued m) = None"
| "turn_of_event (MessageWithdrawn i) = None"
| "turn_of_event (ToolCalled c t tc) = Some t"
| "turn_of_event (ToolReturned t r) = Some t"
| "turn_of_event (CallText t c s) = Some t"
| "turn_of_event (CallThinking t c s) = Some t"
| "turn_of_event (CallRestart t c) = Some t"
| "turn_of_event (CallThought t c s) = Some t"
| "turn_of_event (CallIntermediate t c s) = Some t"
| "turn_of_event (CallResponse t c e s) = Some t"
| "turn_of_event (UsageProgress t u ts) = Some t"

text \<open>\<open>Some\<close> the first with the second added, when both are pieces of one call's stream.\<close>

definition merge_piece :: "conversation_event \<Rightarrow> conversation_event \<Rightarrow> conversation_event option" where
  "merge_piece a b =
     (case (a, b) of
        (CallText t c s, CallText t' c' s') \<Rightarrow> if c = c' then Some (CallText t c (s @ s')) else None
      | (CallThinking t c s, CallThinking t' c' s') \<Rightarrow> if c = c' then Some (CallThinking t c (s @ s')) else None
      | _ \<Rightarrow> None)"

definition is_usage :: "conversation_event \<Rightarrow> bool" where
  "is_usage e = (case e of UsageProgress t u ts \<Rightarrow> True | _ \<Rightarrow> False)"

record turn_entry =
  entry_at :: int
  entry_event :: conversation_event

record turn_record =
  rec_turn :: ustring
  rec_started_at :: int
  rec_entries :: "turn_entry list"

definition add_entry :: "conversation_event \<Rightarrow> int \<Rightarrow> turn_entry list \<Rightarrow> turn_entry list" where
  "add_entry e at xs =
     (let xs = (if is_usage e then filter (\<lambda>x. \<not> is_usage (entry_event x)) xs else xs)
      in case (if xs = [] then None else merge_piece (entry_event (List.last xs)) e) of
           Some m \<Rightarrow> butlast xs @ [(List.last xs)\<lparr>entry_event := m\<rparr>]
         | None \<Rightarrow> xs @ [\<lparr>entry_at = at, entry_event = e\<rparr>])"

record journaled =
  je_seq :: nat
  je_event :: conversation_event

text \<open>A follower is a channel without bound; \<open>fo_gone\<close> says its receiver was dropped.\<close>

record follower =
  fo_queue :: "journaled list"
  fo_gone :: bool

record journal =
  j_seq :: nat
  j_turn :: "turn_record option"
  j_queued :: "queued_message list"
  j_followers :: "nat list"
  j_closed :: bool
  j_channels :: "follower list"

definition record_turn :: "conversation_event \<Rightarrow> int \<Rightarrow> turn_record option \<Rightarrow> turn_record option" where
  "record_turn e at t =
     (case turn_of_event e of
        None \<Rightarrow> t
      | Some i \<Rightarrow>
          (case e of
             TurnEnded _ \<Rightarrow> (case t of Some r \<Rightarrow> if rec_turn r = i then None else t | None \<Rightarrow> None)
           | _ \<Rightarrow>
             (let r = (case t of
                  Some r \<Rightarrow> if rec_turn r = i then r else \<lparr>rec_turn = i, rec_started_at = at, rec_entries = []\<rparr>
                | None \<Rightarrow> \<lparr>rec_turn = i, rec_started_at = at, rec_entries = []\<rparr>)
              in Some (r\<lparr>rec_entries := add_entry e at (rec_entries r)\<rparr>))))"

definition record_queued :: "conversation_event \<Rightarrow> queued_message list \<Rightarrow> queued_message list" where
  "record_queued e qs =
     (case e of
        MessageQueued m \<Rightarrow> if list_ex (\<lambda>q. queued_id q = queued_id m) qs then qs else qs @ [m]
      | MessageWithdrawn i \<Rightarrow> filter (\<lambda>q. queued_id q \<noteq> i) qs
      | UserMessageRead t m a \<Rightarrow> filter (\<lambda>q. queued_id q \<noteq> queued_id m) qs
      | _ \<Rightarrow> qs)"

definition record_event :: "conversation_event \<Rightarrow> int \<Rightarrow> journal \<Rightarrow> journal" where
  "record_event e at j = j\<lparr>j_turn := record_turn e at (j_turn j), j_queued := record_queued e (j_queued j)\<rparr>"

definition new_journal :: journal where
  "new_journal = \<lparr>j_seq = 0, j_turn = None, j_queued = [], j_followers = [], j_closed = False, j_channels = []\<rparr>"

definition relay :: "journaled \<Rightarrow> nat list \<Rightarrow> follower list \<Rightarrow> follower list" where
  "relay x fs cs = fold (\<lambda>i cs. cs[i := (cs ! i)\<lparr>fo_queue := fo_queue (cs ! i) @ [x]\<rparr>]) fs cs"

definition observe :: "conversation_event \<Rightarrow> int \<Rightarrow> journal \<Rightarrow> journal" where
  "observe e at j =
     (let j = record_event e at (j\<lparr>j_seq := j_seq j + 1\<rparr>);
          live = filter (\<lambda>i. \<not> fo_gone (j_channels j ! i)) (j_followers j)
      in j\<lparr>j_channels := relay \<lparr>je_seq = j_seq j, je_event = e\<rparr> live (j_channels j), j_followers := live\<rparr>)"

definition follow :: "journal \<Rightarrow> journal \<times> nat" where
  "follow j =
     (let i = length (j_channels j)
      in (j\<lparr>j_channels := j_channels j @ [\<lparr>fo_queue = [], fo_gone = False\<rparr>],
            j_followers := (if j_closed j then j_followers j else j_followers j @ [i])\<rparr>, i))"

definition close_journal :: "journal \<Rightarrow> journal" where
  "close_journal j = j\<lparr>j_closed := True, j_followers := []\<rparr>"

record turn_snapshot =
  snap_through :: nat
  snap_turn :: "turn_record option"
  snap_queued :: "queued_message list"

definition snapshot :: "journal \<Rightarrow> turn_snapshot" where
  "snapshot j = \<lparr>snap_through = j_seq j, snap_turn = j_turn j, snap_queued = j_queued j\<rparr>"

section \<open>A web connection\<close>

datatype ws_frame = EventFrame conversation_event | SnapshotFrame turn_snapshot | StreamClosed

record ws_subscriber =
  ws_main :: nat
  covered_through :: nat

text \<open>The arms of \<open>recv\<close> that concern the conversation; a relayed event that is covered makes no frame.\<close>

definition ws_snapshot :: "ws_subscriber \<Rightarrow> journal \<Rightarrow> ws_subscriber \<times> ws_frame" where
  "ws_snapshot w j = (let s = snapshot j in (w\<lparr>covered_through := snap_through s\<rparr>, SnapshotFrame s))"

definition ws_recv_main :: "ws_subscriber \<Rightarrow> journal \<Rightarrow> journal \<times> ws_frame list" where
  "ws_recv_main w j =
     (let c = j_channels j ! ws_main w
      in case fo_queue c of
           x # q \<Rightarrow>
             (j\<lparr>j_channels := (j_channels j)[ws_main w := c\<lparr>fo_queue := q\<rparr>]\<rparr>,
              if je_seq x \<le> covered_through w then [] else [EventFrame (je_event x)])
         | [] \<Rightarrow> (j, if ws_main w \<in> set (j_followers j) then [] else [StreamClosed]))"

definition connect :: "journal \<Rightarrow> journal \<times> ws_subscriber" where
  "connect j = (case follow j of (j, i) \<Rightarrow> (j, \<lparr>ws_main = i, covered_through = 0\<rparr>))"

section \<open>The turn in flight\<close>

text \<open>The journal's record taken apart to characters: merging pieces changes none of it.\<close>

datatype atom = TextChar nat nat | ThinkingChar nat nat | Whole conversation_event

fun atoms :: "conversation_event \<Rightarrow> atom list" where
  "atoms (CallText t c s) = map (TextChar c) s"
| "atoms (CallThinking t c s) = map (ThinkingChar c) s"
| "atoms e = [Whole e]"

abbreviation atoms_in :: "conversation_event list \<Rightarrow> atom list" where "atoms_in es \<equiv> concat (map atoms es)"

text \<open>The events of the turn in flight, none merged or left out.\<close>

definition turn_event :: "conversation_event \<Rightarrow> (ustring \<times> conversation_event list) option \<Rightarrow> (ustring \<times> conversation_event list) option" where
  "turn_event e t =
     (case turn_of_event e of
        None \<Rightarrow> t
      | Some i \<Rightarrow>
          if e = TurnEnded i then (if map_option fst t = Some i then None else t)
          else (case t of Some (k, es) \<Rightarrow> if k = i then Some (i, es @ [e]) else Some (i, [e]) | None \<Rightarrow> Some (i, [e])))"

definition in_flight :: "conversation_event list \<Rightarrow> (ustring \<times> conversation_event list) option" where
  "in_flight es = fold turn_event es None"

text \<open>Of the usage counts, which carry running totals, only the newest.\<close>

fun newest_usage :: "conversation_event list \<Rightarrow> conversation_event list" where
  "newest_usage [] = []"
| "newest_usage (e # es) = (if is_usage e \<and> list_ex is_usage es then newest_usage es else e # newest_usage es)"

lemma newest_usage_snoc:
  "newest_usage (es @ [e]) = (if is_usage e then filter (\<lambda>x. \<not> is_usage x) (newest_usage es) else newest_usage es) @ [e]"
proof (induction es)
  case (Cons a es)
  have "filter (\<lambda>x. \<not> is_usage x) (newest_usage es) = newest_usage es" if "\<not> list_ex is_usage es"
    using that by (induction es) auto
  then show ?case using Cons by auto
qed simp

lemma usage_whole: "is_usage e \<Longrightarrow> atoms e = [Whole e]"
  by (cases e) (simp_all add: is_usage_def)

definition usage_atom :: "atom \<Rightarrow> bool" where
  "usage_atom a = (case a of Whole e \<Rightarrow> is_usage e | _ \<Rightarrow> False)"

lemma atoms_no_usage: "atoms_in (filter (\<lambda>x. \<not> is_usage x) es) = filter (\<lambda>a. \<not> usage_atom a) (atoms_in es)"
proof (induction es)
  case (Cons e es)
  then show ?case by (cases e) (simp_all add: is_usage_def usage_atom_def filter_map comp_def)
qed simp

lemma merge_piece_atoms: "merge_piece a b = Some m \<Longrightarrow> atoms m = atoms a @ atoms b \<and> is_usage m = is_usage a \<and> \<not> is_usage b"
  by (cases a; simp add: merge_piece_def; cases b) (auto simp: is_usage_def split: if_splits)

lemma split_last_entry:
  "ys \<noteq> [] \<Longrightarrow> atoms_in (map entry_event ys) = atoms_in (map entry_event (butlast ys)) @ atoms (entry_event (List.last ys))"
  by (cases ys rule: rev_cases) simp_all

lemma add_entry_atoms:
  "atoms_in (map entry_event (add_entry e at xs)) =
     (if is_usage e then filter (\<lambda>a. \<not> usage_atom a) (atoms_in (map entry_event xs)) else atoms_in (map entry_event xs)) @ atoms e"
proof -
  have filtered: "map entry_event (filter (\<lambda>x. \<not> is_usage (entry_event x)) xs) = filter (\<lambda>x. \<not> is_usage x) (map entry_event xs)"
    by (simp add: filter_map comp_def)
  let ?ys = "if is_usage e then filter (\<lambda>x. \<not> is_usage (entry_event x)) xs else xs"
  have ys: "atoms_in (map entry_event ?ys) =
      (if is_usage e then filter (\<lambda>a. \<not> usage_atom a) (atoms_in (map entry_event xs)) else atoms_in (map entry_event xs))"
    by (simp add: filtered atoms_no_usage del: map_map)
  have "atoms_in (map entry_event (add_entry e at xs)) = atoms_in (map entry_event ?ys) @ atoms e"
  proof (cases "if ?ys = [] then None else merge_piece (entry_event (List.last ?ys)) e")
    case None
    then show ?thesis by (simp add: add_entry_def Let_def)
  next
    case (Some m)
    then have ne: "?ys \<noteq> []" and m: "merge_piece (entry_event (List.last ?ys)) e = Some m" by (auto split: if_splits)
    note split_last_entry [OF ne]
    moreover have "add_entry e at xs = butlast ?ys @ [(List.last ?ys)\<lparr>entry_event := m\<rparr>]"
      using Some by (simp add: add_entry_def Let_def del: if_split_asm)
    ultimately show ?thesis using merge_piece_atoms [OF m] by simp
  qed
  then show ?thesis using ys by simp
qed

definition matches :: "turn_record option \<Rightarrow> (ustring \<times> conversation_event list) option \<Rightarrow> bool" where
  "matches t f \<longleftrightarrow>
     (case f of None \<Rightarrow> t = None
      | Some (i, es) \<Rightarrow> (case t of None \<Rightarrow> False
          | Some r \<Rightarrow> rec_turn r = i \<and> atoms_in (map entry_event (rec_entries r)) = atoms_in (newest_usage es)))"

lemma record_turn_matches: "matches t f \<Longrightarrow> matches (record_turn e at t) (turn_event e f)"
proof (cases "turn_of_event e")
  case None
  then show "matches t f \<Longrightarrow> ?thesis" by (simp add: record_turn_def turn_event_def)
next
  case (Some i)
  assume m: "matches t f"
  have new: "matches (Some \<lparr>rec_turn = i, rec_started_at = at, rec_entries = add_entry e at []\<rparr>) (Some (i, [e]))"
    by (simp add: matches_def add_entry_atoms del: map_map)
  have more: "matches (Some (r\<lparr>rec_entries := add_entry e at (rec_entries r)\<rparr>)) (Some (i, es @ [e]))"
    if "rec_turn r = i" "matches (Some r) (Some (i, es))" for r es
    using that by (simp add: matches_def add_entry_atoms newest_usage_snoc atoms_no_usage del: map_map)
  show ?thesis
  proof (cases "e = TurnEnded i")
    case True
    then show ?thesis using m by (auto simp: record_turn_def turn_event_def matches_def split: option.splits prod.splits)
  next
    case False
    then have "record_turn e at t = (let r = (case t of
          Some r \<Rightarrow> if rec_turn r = i then r else \<lparr>rec_turn = i, rec_started_at = at, rec_entries = []\<rparr>
        | None \<Rightarrow> \<lparr>rec_turn = i, rec_started_at = at, rec_entries = []\<rparr>)
        in Some (r\<lparr>rec_entries := add_entry e at (rec_entries r)\<rparr>))"
      using Some by (cases e) (simp_all add: record_turn_def)
    then show ?thesis using m new more False Some
      by (cases t; cases f) (auto simp: turn_event_def Let_def matches_def split: if_splits)
  qed
qed

lemma observe_turn [simp]:
  "j_turn (observe e at j) = record_turn e at (j_turn j)" "j_queued (observe e at j) = record_queued e (j_queued j)"
  "j_seq (observe e at j) = Suc (j_seq j)"
  by (simp_all add: observe_def record_event_def Let_def)

definition observe_all :: "(conversation_event \<times> int) list \<Rightarrow> journal \<Rightarrow> journal" where
  "observe_all es j = fold (\<lambda>(e, at). observe e at) es j"


section \<open>A connection misses nothing\<close>

definition journal_ok :: "journal \<Rightarrow> bool" where
  "journal_ok j \<longleftrightarrow> distinct (j_followers j) \<and> list_all (\<lambda>i. i < length (j_channels j)) (j_followers j)"

lemma relay_nth:
  "distinct fs \<Longrightarrow> list_all (\<lambda>i. i < length cs) fs \<Longrightarrow>
     length (relay x fs cs) = length cs \<and>
     (k < length cs \<longrightarrow> relay x fs cs ! k = (if k \<in> set fs then (cs ! k)\<lparr>fo_queue := fo_queue (cs ! k) @ [x]\<rparr> else cs ! k))"
proof (induction fs arbitrary: cs)
  case (Cons i fs)
  then show ?case
    using Cons.IH [of "cs[i := (cs ! i)\<lparr>fo_queue := fo_queue (cs ! i) @ [x]\<rparr>]"]
    by (auto simp: relay_def nth_list_update)
qed (simp add: relay_def)

text \<open>What happens while one connection is open: events, the connection's own reads and requests for a snapshot, and other
  connections that come and go.\<close>

datatype conn_event = JObserve conversation_event int | JConnects | JGone nat | JRecv | JResync

fun conn_step :: "journal \<times> ws_subscriber \<Rightarrow> conn_event \<Rightarrow> (journal \<times> ws_subscriber) \<times> ws_frame list" where
  "conn_step (j, w) (JObserve e at) = ((observe e at j, w), [])"
| "conn_step (j, w) JConnects = ((fst (follow j), w), [])"
| "conn_step (j, w) (JGone i) =
     (if i = ws_main w then ((j, w), [])
      else ((j\<lparr>j_channels := (j_channels j)[i := (j_channels j ! i)\<lparr>fo_gone := True\<rparr>]\<rparr>, w), []))"
| "conn_step (j, w) JRecv = (case ws_recv_main w j of (j', fs) \<Rightarrow> ((j', w), fs))"
| "conn_step (j, w) JResync = (case ws_snapshot w j of (w', f) \<Rightarrow> ((j, w'), [f]))"

fun seen_events :: "conn_event list \<Rightarrow> (conversation_event \<times> int) list" where
  "seen_events [] = []"
| "seen_events (JObserve e at # es) = (e, at) # seen_events es"
| "seen_events (_ # es) = seen_events es"

definition my_queue :: "journal \<times> ws_subscriber \<Rightarrow> journaled list" where
  "my_queue s = fo_queue (j_channels (fst s) ! ws_main (snd s))"

definition connected :: "journal \<times> ws_subscriber \<Rightarrow> bool" where
  "connected s \<longleftrightarrow> journal_ok (fst s) \<and> ws_main (snd s) \<in> set (j_followers (fst s)) \<and>
     ws_main (snd s) < length (j_channels (fst s)) \<and> \<not> fo_gone (j_channels (fst s) ! ws_main (snd s)) \<and>
     covered_through (snd s) \<le> j_seq (fst s) \<and> list_all (\<lambda>x. je_seq x \<le> j_seq (fst s)) (my_queue s)"

text \<open>What is queued for the connection and not covered by its snapshot.\<close>

definition uncovered :: "journal \<times> ws_subscriber \<Rightarrow> conversation_event list" where
  "uncovered s = map je_event (filter (\<lambda>x. covered_through (snd s) < je_seq x) (my_queue s))"

lemma observe_channel:
  assumes "connected (j, w)"
  shows "connected (observe e at j, w) \<and> my_queue (observe e at j, w) = my_queue (j, w) @ [\<lparr>je_seq = Suc (j_seq j), je_event = e\<rparr>]"
proof -
  let ?i = "ws_main w"
  let ?live = "filter (\<lambda>i. \<not> fo_gone (j_channels j ! i)) (j_followers j)"
  have ok: "distinct ?live" "list_all (\<lambda>i. i < length (j_channels j)) ?live" "?i \<in> set ?live" "?i < length (j_channels j)"
    using assms by (auto simp: connected_def journal_ok_def list_all_iff)
  have form: "observe e at j = (record_event e at (j\<lparr>j_seq := j_seq j + 1\<rparr>))\<lparr>j_channels := relay \<lparr>je_seq = Suc (j_seq j), je_event = e\<rparr> ?live (j_channels j), j_followers := ?live\<rparr>"
    by (simp add: observe_def record_event_def Let_def)
  note r = relay_nth [OF ok(1,2), of "\<lparr>je_seq = Suc (j_seq j), je_event = e\<rparr>"]
  have q: "my_queue (observe e at j, w) = my_queue (j, w) @ [\<lparr>je_seq = Suc (j_seq j), je_event = e\<rparr>]"
    using r [of ?i] ok(3,4) by (simp add: my_queue_def form)
  have "connected (observe e at j, w)"
    unfolding connected_def q
    using assms r [of ?i] ok by (auto simp: form connected_def journal_ok_def record_event_def list_all_iff le_SucI)
  with q show ?thesis by blast
qed

lemma conn_step_connected:
  assumes "connected s"
  shows "connected (fst (conn_step s e)) \<and> ws_main (snd (fst (conn_step s e))) = ws_main (snd s) \<and>
    (e \<noteq> JResync \<longrightarrow> snd (conn_step s e) @ map EventFrame (uncovered (fst (conn_step s e)))
      = map EventFrame (uncovered s) @ map (EventFrame \<circ> fst) (seen_events [e])) \<and>
    (e = JResync \<longrightarrow> uncovered (fst (conn_step s e)) = [] \<and> snd (conn_step s e) = [SnapshotFrame (snapshot (fst s))]) \<and>
    j_turn (fst (fst (conn_step s e))) = j_turn (observe_all (seen_events [e]) (fst s)) \<and>
    j_queued (fst (fst (conn_step s e))) = j_queued (observe_all (seen_events [e]) (fst s))"
proof (cases s)
  case (Pair j w)
  note c = assms [unfolded Pair]
  show ?thesis
  proof (cases e)
    case (JObserve ev at)
    have "covered_through w < Suc (j_seq j)" using c by (simp add: connected_def less_Suc_eq_le)
    then show ?thesis using observe_channel [OF c, of ev at]
      by (simp add: Pair JObserve uncovered_def observe_all_def)
  next
    case JConnects
    then show ?thesis using c
      by (auto simp: Pair follow_def Let_def connected_def journal_ok_def my_queue_def uncovered_def nth_append list_all_iff observe_all_def)
  next
    case (JGone i)
    then show ?thesis using c
      by (auto simp: Pair connected_def journal_ok_def my_queue_def uncovered_def list_all_iff observe_all_def)
  next
    case JRecv
    show ?thesis
    proof (cases "my_queue (j, w)")
      case Nil
      then show ?thesis using c by (simp add: Pair JRecv ws_recv_main_def my_queue_def Let_def connected_def uncovered_def observe_all_def)
    next
      case (Cons x q)
      then show ?thesis using c
        by (simp add: Pair JRecv ws_recv_main_def my_queue_def Let_def connected_def uncovered_def journal_ok_def observe_all_def
            linorder_not_less [symmetric])
    qed
  next
    case JResync
    have "filter (\<lambda>x. j_seq j < je_seq x) (my_queue (j, w)) = []"
      using c by (auto simp: connected_def filter_empty_conv list_all_iff)
    then show ?thesis using c
      by (simp add: Pair JResync ws_snapshot_def Let_def uncovered_def connected_def snapshot_def my_queue_def observe_all_def)
  qed
qed

lemma seen_events_append: "seen_events (xs @ ys) = seen_events xs @ seen_events ys"
  by (induction xs rule: seen_events.induct) simp_all

lemma observe_all_append: "observe_all (xs @ ys) j = observe_all ys (observe_all xs j)"
  by (simp add: observe_all_def)

lemma conn_run:
  "connected s \<Longrightarrow>
     connected (fst (run_machine conn_step s es)) \<and>
     (JResync \<notin> set es \<longrightarrow> concat (snd (run_machine conn_step s es)) @ map EventFrame (uncovered (fst (run_machine conn_step s es)))
        = map EventFrame (uncovered s) @ map (EventFrame \<circ> fst) (seen_events es))"
proof (induction es arbitrary: s)
  case (Cons e es)
  note one = conn_step_connected [OF Cons.prems, of e]
  note rest = Cons.IH [of "fst (conn_step s e)"]
  have "seen_events (e # es) = seen_events [e] @ seen_events es" using seen_events_append [of "[e]" es] by simp
  then show ?case using one rest by (auto simp: case_prod_unfold Let_def)
qed simp

definition turn_after :: "(conversation_event \<times> int) list \<Rightarrow> turn_record option \<Rightarrow> turn_record option" where
  "turn_after es t = fold (\<lambda>(e, at). record_turn e at) es t"

definition queued_after :: "(conversation_event \<times> int) list \<Rightarrow> queued_message list \<Rightarrow> queued_message list" where
  "queued_after es qs = fold (\<lambda>(e, at). record_queued e) es qs"

lemma observe_all_after:
  "j_turn (observe_all es j) = turn_after es (j_turn j)" "j_queued (observe_all es j) = queued_after es (j_queued j)"
  by (induction es arbitrary: j) (auto simp: observe_all_def turn_after_def queued_after_def)

lemma conn_run_record:
  "connected s \<Longrightarrow>
     j_turn (fst (fst (run_machine conn_step s es))) = turn_after (seen_events es) (j_turn (fst s)) \<and>
     j_queued (fst (fst (run_machine conn_step s es))) = queued_after (seen_events es) (j_queued (fst s))"
proof (induction es arbitrary: s)
  case (Cons e es)
  note one = conn_step_connected [OF Cons.prems, of e]
  have "seen_events (e # es) = seen_events [e] @ seen_events es" using seen_events_append [of "[e]" es] by simp
  then show ?case using one Cons.IH [of "fst (conn_step s e)"]
    by (simp add: observe_all_after turn_after_def queued_after_def)
qed (simp add: turn_after_def queued_after_def)

lemma connect_connected:
  assumes "journal_ok j" "\<not> j_closed j"
  shows "connected (connect j)"
  using assms
  by (auto simp: connect_def follow_def Let_def connected_def journal_ok_def my_queue_def list_all_iff nth_append)

text \<open>C8: A page that opens in the middle of a turn: the snapshot it asked for shows the turn and the waiting messages as of that
  moment, and the frames after it, with what is still queued for it, are exactly the events from then on,
  none missing, none twice, in their order, whatever other connections do.\<close>

theorem page_misses_nothing:
  assumes "journal_ok j" "\<not> j_closed j" "JResync \<notin> set later"
    and "run_machine conn_step (connect j) (earlier @ JResync # later) = (s, out)"
  shows "\<exists>shown shot frames. concat out = shown @ SnapshotFrame shot # frames \<and>
      snap_turn shot = turn_after (seen_events earlier) (j_turn j) \<and>
      snap_queued shot = queued_after (seen_events earlier) (j_queued j) \<and>
      frames @ map EventFrame (uncovered s) = map (EventFrame \<circ> fst) (seen_events later)"
proof -
  let ?r1 = "run_machine conn_step (connect j) earlier"
  let ?r2 = "conn_step (fst ?r1) JResync"
  let ?r3 = "run_machine conn_step (fst ?r2) later"
  note c0 = connect_connected [OF assms(1,2)]
  note c1 = conn_run [OF c0, of earlier, THEN conjunct1]
  note two = conn_step_connected [OF c1, of JResync]
  have c2: "connected (fst ?r2)" using two by blast
  have out: "concat out = concat (snd ?r1) @ SnapshotFrame (snapshot (fst (fst ?r1))) # concat (snd ?r3)" "s = fst ?r3"
    using assms(4) two by (auto simp: run_machine_append case_prod_unfold Let_def)
  have "concat (snd ?r3) @ map EventFrame (uncovered s) = map (EventFrame \<circ> fst) (seen_events later)"
    using conn_run [OF c2, of later] assms(3) two out(2) by simp
  moreover have "j_turn (fst (connect j)) = j_turn j" "j_queued (fst (connect j)) = j_queued j"
    by (simp_all add: connect_def follow_def Let_def)
  ultimately show ?thesis
    using conn_run_record [OF c0, of earlier] by - (intro exI conjI, rule out(1), simp_all add: snapshot_def)
qed

theorem page_misses_nothing_witness:
  "\<exists>shown shot frames. concat (snd (run_machine conn_step (connect new_journal)
       ([JObserve (CallText (lit ''t'') 0 (lit ''he'')) 1] @ JResync #
        [JRecv, JObserve (CallText (lit ''t'') 0 (lit ''llo'')) 2, JRecv]))) = shown @ SnapshotFrame shot # frames \<and>
     frames = [EventFrame (CallText (lit ''t'') 0 (lit ''llo''))]"
proof -
  let ?es = "[JRecv, JObserve (CallText (lit ''t'') 0 (lit ''llo'')) 2, JRecv]"
  let ?run = "run_machine conn_step (connect new_journal) ([JObserve (CallText (lit ''t'') 0 (lit ''he'')) 1] @ JResync # ?es)"
  have start: "journal_ok new_journal" "\<not> j_closed new_journal" "JResync \<notin> set ?es"
    by (simp_all add: journal_ok_def new_journal_def)
  have "uncovered (fst ?run) = []" by code_simp
  with page_misses_nothing [OF start prod.collapse [symmetric], of "[JObserve (CallText (lit ''t'') 0 (lit ''he'')) 1]"]
  show ?thesis by force
qed

end
