(* ===== verification/Waiting_Messages.thy ===== *)
theory Waiting_Messages
  imports Turn_Journal "HOL-Library.Multiset"
begin

text \<open>
  People's messages that wait for the main agent: the list that says what may still happen to each (\<open>gateway/src/queued_messages.rs\<close>),
  the main turn's interrupt channel, the messages left over by a turn and those that start the next (\<open>event_loop/turns.rs\<close>,
  \<open>event_loop/run_loop.rs\<close>), and a page's requests to withdraw one or send it now (\<open>ws.rs\<close>).

  The event loop is one task, the pages' requests come from others, so \<open>room_step\<close> cuts the loop where it awaits and lets
  requests in between. The fields from \<open>taken\<close> on are a ledger of what happened, which the code does not keep.
\<close>

section \<open>What may still happen to a message\<close>

datatype waiting = Queued | SendNow | Withdrawn

datatype checkpoint_take = TakeDeliver | TakeHold | TakeDrop

type_synonym queued_messages = "(ustring \<times> waiting) list"

definition entry_index :: "ustring \<Rightarrow> queued_messages \<Rightarrow> nat option" where
  "entry_index i q = position (\<lambda>e. fst e = i) q"

definition enqueue :: "ustring \<Rightarrow> queued_messages \<Rightarrow> queued_messages" where
  "enqueue i q = (if list_ex (\<lambda>e. fst e = i) q then q else q @ [(i, Queued)])"

definition take_at_checkpoint :: "ustring \<Rightarrow> queued_messages \<Rightarrow> checkpoint_take \<times> queued_messages" where
  "take_at_checkpoint i q =
     (case entry_index i q of
        None \<Rightarrow> (TakeDeliver, q)
      | Some k \<Rightarrow>
          (case snd (q ! k) of
             Queued \<Rightarrow> (TakeDeliver, remove_at k q)
           | SendNow \<Rightarrow> (TakeHold, q)
           | Withdrawn \<Rightarrow> (TakeDrop, remove_at k q)))"

definition keep_after_turn :: "ustring \<Rightarrow> queued_messages \<Rightarrow> bool \<times> queued_messages" where
  "keep_after_turn i q =
     (case position (\<lambda>e. fst e = i \<and> snd e = Withdrawn) q of Some k \<Rightarrow> (False, remove_at k q) | None \<Rightarrow> (True, q))"

definition claim_turn_start :: "ustring \<Rightarrow> queued_messages \<Rightarrow> bool \<times> queued_messages" where
  "claim_turn_start i q =
     (case entry_index i q of None \<Rightarrow> (True, q) | Some k \<Rightarrow> (snd (q ! k) \<noteq> Withdrawn, remove_at k q))"

definition is_send_now :: "ustring \<Rightarrow> queued_messages \<Rightarrow> bool" where
  "is_send_now i q = list_ex (\<lambda>e. fst e = i \<and> snd e = SendNow) q"

definition send_now :: "ustring \<Rightarrow> queued_messages \<Rightarrow> queued_messages \<times> bool" where
  "send_now i q =
     (case entry_index i q of
        Some k \<Rightarrow> if snd (q ! k) \<noteq> Withdrawn then (q[k := (fst (q ! k), SendNow)], True) else (q, False)
      | None \<Rightarrow> (q, False))"

definition withdraw_queued :: "ustring \<Rightarrow> queued_messages \<Rightarrow> queued_messages \<times> bool" where
  "withdraw_queued i q =
     (case entry_index i q of
        Some k \<Rightarrow> if snd (q ! k) \<noteq> Withdrawn then (q[k := (fst (q ! k), Withdrawn)], True) else (q, False)
      | None \<Rightarrow> (q, False))"

section \<open>The room\<close>

text \<open>A turn runs, or has ended and its leftovers are not yet sorted. A message that arrives in a turn is tracked, announced,
  and only then on the turn's channel.\<close>

datatype phase = AtRest | Running ustring | Ended ustring

record room =
  tracked :: queued_messages
  phase :: phase
  arriving :: "(message_event \<times> nat \<times> bool) option"
  turn_channel :: "interrupt list"
  held_back :: "message_event list"
  leftover :: "interrupt list"
  deferred :: "message_event list"
  messenger :: messenger
  room_hops :: nat
  published :: "conversation_event list"
  unannounced :: "ustring list" \<comment> \<open>withdrawals whose event is still to be published\<close>
  findings :: "ustring list"
  routed :: "message_event list"
  taken :: "message_event list"
  read_messages :: "message_event list"
  dropped :: "message_event list"
  recorded_at_stop :: "message_event list"
  withdrawn :: "ustring list"
  carried :: "ustring \<Rightarrow> nat"

definition say :: "conversation_event option \<Rightarrow> room \<Rightarrow> room" where
  "say e s = (case e of Some e \<Rightarrow> s\<lparr>published := published s @ [e]\<rparr> | None \<Rightarrow> s)"

text \<open>\<open>MainInterrupts::try_recv\<close>: what it returns, and the channel, the tracked entries and the held messages after it,
  with the messages it dropped.\<close>

fun main_try_recv ::
  "interrupt list \<Rightarrow> queued_messages \<Rightarrow> message_event list \<Rightarrow> message_event list \<Rightarrow>
   interrupt option \<times> interrupt list \<times> queued_messages \<times> message_event list \<times> message_event list" where
  "main_try_recv [] q h d = (None, [], q, h, d)"
| "main_try_recv (UserMessage m # is) q h d =
     (case take_at_checkpoint (event_id m) q of
        (TakeDeliver, q) \<Rightarrow> (Some (UserMessage m), is, q, h, d)
      | (TakeHold, q) \<Rightarrow> main_try_recv is q (h @ [m]) d
      | (TakeDrop, q) \<Rightarrow> main_try_recv is q h (d @ [m]))"
| "main_try_recv (i # is) q h d = (Some i, is, q, h, d)"

lemma main_try_recv_shorter: "main_try_recv is q h d = (Some i, is', q', h', d') \<Longrightarrow> length is' < length is"
  by (induction "is" q h d rule: main_try_recv.induct) (auto split: prod.splits checkpoint_take.splits)

text \<open>A checkpoint drains the channel (\<open>drain_interrupts\<close> of the agent's turn asks until it is empty).\<close>

function drain_channel ::
  "interrupt list \<Rightarrow> queued_messages \<Rightarrow> message_event list \<Rightarrow> message_event list \<Rightarrow>
   interrupt list \<times> queued_messages \<times> message_event list \<times> message_event list" where
  "drain_channel is q h d =
     (case main_try_recv is q h d of
        (None, _, q, h, d) \<Rightarrow> ([], q, h, d)
      | (Some i, is, q, h, d) \<Rightarrow> (case drain_channel is q h d of (js, r) \<Rightarrow> (i # js, r)))"
  by pat_completeness auto
termination
  by (relation "measure (\<lambda>(is, q, h, d). length is)") (auto dest: main_try_recv_shorter [OF sym])

declare drain_channel.simps [simp del]

definition messages_of :: "interrupt list \<Rightarrow> message_event list" where
  "messages_of is = concat (map (\<lambda>i. case i of UserMessage m \<Rightarrow> [m] | _ \<Rightarrow> []) is)"

text \<open>\<open>into_leftovers\<close>: the held messages first, unasked, then the channel less what was withdrawn.\<close>

fun sift_leftovers :: "interrupt list \<Rightarrow> queued_messages \<Rightarrow> interrupt list \<times> queued_messages \<times> message_event list" where
  "sift_leftovers [] q = ([], q, [])"
| "sift_leftovers (UserMessage m # is) q =
     (case keep_after_turn (event_id m) q of
        (True, q) \<Rightarrow> (case sift_leftovers is q of (js, q, d) \<Rightarrow> (UserMessage m # js, q, d))
      | (False, q) \<Rightarrow> (case sift_leftovers is q of (js, q, d) \<Rightarrow> (js, q, m # d)))"
| "sift_leftovers (i # is) q = (case sift_leftovers is q of (js, q, d) \<Rightarrow> (i # js, q, d))"

definition into_leftovers :: "room \<Rightarrow> room" where
  "into_leftovers s =
     (case sift_leftovers (turn_channel s) (tracked s) of (js, q, d) \<Rightarrow>
        s\<lparr>leftover := map UserMessage (held_back s) @ js, held_back := [], turn_channel := [], tracked := q,
          dropped := dropped s @ d\<rparr>)"

text \<open>One leftover: a message goes on with the hop count it carried, a finding becomes a note. An agent's message becomes an
  event under a fresh id.\<close>

type_synonym fresh_ids = "agent_message \<Rightarrow> ustring \<times> int"

definition sort_leftover :: "fresh_ids \<Rightarrow> interrupt \<Rightarrow> messenger \<times> message_event list \<times> ustring list \<Rightarrow> messenger \<times> message_event list \<times> ustring list" where
  "sort_leftover fresh i st =
     (case st of (g, late, fs) \<Rightarrow>
        (case i of
           UserMessage m \<Rightarrow> (restore_main_hop (event_id m) (mid_turn_hop (event_id m) g) g, late @ [m], fs)
         | AgentMessage a \<Rightarrow> (let m = from_agent (fst (fresh a)) (snd (fresh a)) a in (restore_main_hop (event_id m) (message_hops a) g, late @ [m], fs))
         | Subconscious c \<Rightarrow> (g, late, fs @ [c])
         | StoppedByUser \<Rightarrow> (g, late, fs)))"

definition process_leftover_interrupts :: "fresh_ids \<Rightarrow> room \<Rightarrow> room \<times> message_event list" where
  "process_leftover_interrupts fresh s =
     (case fold (sort_leftover fresh) (leftover s) (messenger s, [], findings s) of (g, late, fs) \<Rightarrow>
        (s\<lparr>leftover := [], messenger := clear_mid_turn_hops g, room_hops := 0, findings := fs\<rparr>, late))"

definition inject_undelivered :: "message_event list \<Rightarrow> room \<Rightarrow> room" where
  "inject_undelivered ms s =
     s\<lparr>messenger := fold (\<lambda>m g. forget_main_hop (event_id m) g) ms (messenger s),
       recorded_at_stop := recorded_at_stop s @ ms\<rparr>"

definition defer_late_messages :: "fresh_ids \<Rightarrow> bool \<Rightarrow> room \<Rightarrow> room" where
  "defer_late_messages fresh stopping s =
     (case process_leftover_interrupts fresh s of (s, late) \<Rightarrow>
        if stopping then inject_undelivered late s else s\<lparr>deferred := deferred s @ late\<rparr>)"

text \<open>\<open>next_deferred_message\<close>: the first to be sent now, else the oldest; withdrawn ones are dropped on the way.\<close>

definition next_index :: "message_event list \<Rightarrow> queued_messages \<Rightarrow> nat" where
  "next_index ms q = (case position (\<lambda>m. is_send_now (event_id m) q) ms of Some k \<Rightarrow> k | None \<Rightarrow> 0)"

function next_deferred ::
  "message_event list \<Rightarrow> queued_messages \<Rightarrow> message_event option \<times> message_event list \<times> queued_messages \<times> message_event list" where
  "next_deferred ms q =
     (if ms = [] then (None, [], q, [])
      else
        (let k = next_index ms q; m = ms ! k in
         case claim_turn_start (event_id m) q of
           (True, q) \<Rightarrow> (Some m, remove_at k ms, q, [])
         | (False, q) \<Rightarrow> (case next_deferred (remove_at k ms) q of (r, ms, q, d) \<Rightarrow> (r, ms, q, m # d))))"
  by pat_completeness auto

termination
proof (relation "measure (\<lambda>(ms, q). length ms)")
  fix ms :: "message_event list" and q k m r q'
  assume ne: "ms \<noteq> []" and k: "k = next_index ms q"
  have "k < length ms" using ne k position_Some [of "\<lambda>m. is_send_now (event_id m) q" ms]
    by (auto simp: next_index_def split: option.split)
  then show "((remove_at k ms, q'), ms, q) \<in> measure (\<lambda>(ms, q). length ms)" using ne by (simp add: length_remove_at)
qed simp

declare next_deferred.simps [simp del]

section \<open>The steps\<close>

text \<open>The turn \<open>m\<close> opens: its message is announced as read, its hop count joins the counter.\<close>

definition open_turn :: "message_event \<Rightarrow> room \<Rightarrow> room" where
  "open_turn m s =
     (let v = (if origin_endpoint (event_origin m) = BACKGROUND_ENDPOINT then InBackground else VisibleToUser);
          s = say (Some (TurnStarted (event_id m) (turn_origin_of (event_origin m) v))) (say (user_message_event m (event_id m)) s);
          (g, h) = take_main_hop (event_id m) (messenger s)
      in s\<lparr>messenger := g, room_hops := hop_bump (room_hops s) h, phase := Running (event_id m),
           read_messages := read_messages s @ [m]\<rparr>)"

definition handle_idle_message :: "message_event \<Rightarrow> room \<Rightarrow> room" where
  "handle_idle_message m s =
     (if belongs_to_main (event_origin m)
      then open_turn m (s\<lparr>taken := taken s @ [m],
             carried := (carried s)(event_id m := snd (take_main_hop (event_id m) (messenger s)))\<rparr>)
      else s\<lparr>routed := routed s @ [m]\<rparr>)"

text \<open>The first part of \<open>handle_mid_turn_message\<close>, up to the announcement.\<close>

definition handle_mid_turn_message :: "message_event \<Rightarrow> room \<Rightarrow> room" where
  "handle_mid_turn_message m s =
     (if belongs_to_main (event_origin m) then
        (let (g, h) = take_main_hop (event_id m) (messenger s);
             q = (if message_queued_event m \<noteq> None then enqueue (event_id m) (tracked s) else tracked s)
         in s\<lparr>messenger := g, tracked := q, arriving := Some (m, h, False),
              taken := taken s @ [m], carried := (carried s)(event_id m := h)\<rparr>)
      else s\<lparr>routed := routed s @ [m]\<rparr>)"

definition announce_arriving :: "room \<Rightarrow> room" where
  "announce_arriving s =
     (case arriving s of
        Some (m, h, False) \<Rightarrow> (say (message_queued_event m) s)\<lparr>arriving := Some (m, h, True)\<rparr>
      | _ \<Rightarrow> s)"

text \<open>The channel is open while the turn runs, so the send succeeds.\<close>

definition send_arriving :: "room \<Rightarrow> room" where
  "send_arriving s =
     (case arriving s of
        Some (m, h, True) \<Rightarrow>
          s\<lparr>turn_channel := turn_channel s @ [UserMessage m], arriving := None, room_hops := hop_bump (room_hops s) h,
            messenger := note_mid_turn_hop (event_id m) h (messenger s)\<rparr>
      | _ \<Rightarrow> s)"

definition checkpoint :: "ustring \<Rightarrow> room \<Rightarrow> room" where
  "checkpoint turn s =
     (case drain_channel (turn_channel s) (tracked s) (held_back s) [] of (is, q, h, d) \<Rightarrow>
        fold (\<lambda>m. say (user_message_event m turn)) (messages_of is)
          (s\<lparr>turn_channel := [], tracked := q, held_back := h, dropped := dropped s @ d,
             read_messages := read_messages s @ messages_of is\<rparr>))"

definition start_next :: "room \<Rightarrow> room" where
  "start_next s =
     (case next_deferred (deferred s) (tracked s) of (r, ms, q, d) \<Rightarrow>
        (let s = s\<lparr>deferred := ms, tracked := q, dropped := dropped s @ d\<rparr>
         in case r of Some m \<Rightarrow> open_turn m s | None \<Rightarrow> s))"

text \<open>\<open>graceful_shutdown\<close>: what is deferred and not withdrawn, then what is still on the bus.\<close>

fun claim_all :: "message_event list \<Rightarrow> queued_messages \<Rightarrow> message_event list \<times> queued_messages \<times> message_event list" where
  "claim_all [] q = ([], q, [])"
| "claim_all (m # ms) q =
     (case claim_turn_start (event_id m) q of (b, q) \<Rightarrow>
        (case claim_all ms q of (ks, q, d) \<Rightarrow> if b then (m # ks, q, d) else (ks, q, m # d)))"

definition shutdown :: "message_event list \<Rightarrow> room \<Rightarrow> room" where
  "shutdown bus s =
     (case claim_all (deferred s) (tracked s) of (ks, q, d) \<Rightarrow>
        inject_undelivered (ks @ bus) (s\<lparr>deferred := [], tracked := q, dropped := dropped s @ d, taken := taken s @ bus\<rparr>))"

datatype room_event =
    BusMessage message_event
  | Announced
  | Sent
  | FindingQueued ustring
  | StopQueued
  | Checkpoint
  | TurnBreaks
  | Sorted bool
  | StartNext
  | Rerun ustring
  | AskWithdraw ustring
  | SayWithdrawn
  | AskSendNow ustring
  | HopNoted ustring nat
  | Shutdown "message_event list"

definition turn_runs :: "room \<Rightarrow> bool" where
  "turn_runs s \<longleftrightarrow> (\<exists>t. phase s = Running t) \<and> arriving s = None"

text \<open>A step the code cannot take in this state leaves it alone. The answer is that of a request.\<close>

fun room_step :: "fresh_ids \<Rightarrow> room \<Rightarrow> room_event \<Rightarrow> room \<times> bool option" where
  "room_step fresh s (BusMessage m) =
     (case phase s of
        AtRest \<Rightarrow> (if deferred s = [] then handle_idle_message m s else s, None)
      | Running t \<Rightarrow> (if arriving s = None then handle_mid_turn_message m s else s, None)
      | Ended t \<Rightarrow> (s, None))"
| "room_step fresh s Announced = (announce_arriving s, None)"
| "room_step fresh s Sent = (send_arriving s, None)"
| "room_step fresh s (FindingQueued c) =
     (case phase s of Running t \<Rightarrow> (s\<lparr>turn_channel := turn_channel s @ [Subconscious c]\<rparr>, None) | _ \<Rightarrow> (s, None))"
| "room_step fresh s StopQueued =
     (case phase s of
        Running t \<Rightarrow> (if arriving s = None then s\<lparr>turn_channel := turn_channel s @ [StoppedByUser]\<rparr> else s, None)
      | _ \<Rightarrow> (s, None))"
| "room_step fresh s Checkpoint =
     (case phase s of Running t \<Rightarrow> (if arriving s = None then checkpoint t s else s, None) | _ \<Rightarrow> (s, None))"
| "room_step fresh s TurnBreaks =
     (case phase s of
        Running t \<Rightarrow> (if arriving s = None then (into_leftovers s)\<lparr>phase := Ended t\<rparr> else s, None)
      | _ \<Rightarrow> (s, None))"
| "room_step fresh s (Sorted stopping) =
     (case phase s of
        Ended t \<Rightarrow> ((defer_late_messages fresh stopping (say (Some (TurnEnded t)) s))\<lparr>phase := AtRest\<rparr>, None)
      | _ \<Rightarrow> (s, None))"
| "room_step fresh s StartNext = (if phase s = AtRest then start_next s else s, None)"
| "room_step fresh s (Rerun t) = (if phase s = AtRest \<and> deferred s = [] then s\<lparr>phase := Running t\<rparr> else s, None)"
| "room_step fresh s (AskWithdraw i) =
     (case withdraw_queued i (tracked s) of (q, b) \<Rightarrow>
        (if b then s\<lparr>tracked := q, withdrawn := withdrawn s @ [i], unannounced := unannounced s @ [i]\<rparr> else s, Some b))"
| "room_step fresh s SayWithdrawn =
     (case unannounced s of
        i # is \<Rightarrow> ((say (Some (MessageWithdrawn i)) s)\<lparr>unannounced := is\<rparr>, None)
      | [] \<Rightarrow> (s, None))"
| "room_step fresh s (AskSendNow i) = (case send_now i (tracked s) of (q, b) \<Rightarrow> (s\<lparr>tracked := q\<rparr>, Some b))"
| "room_step fresh s (HopNoted i h) =
     (if i \<in> event_id ` set (taken s) then s else s\<lparr>messenger := (messenger s)\<lparr>pending_main_hops := hm_insert i h (pending_main_hops (messenger s))\<rparr>\<rparr>, None)"
| "room_step fresh s (Shutdown bus) = (if phase s = AtRest then shutdown bus s else s, None)"

definition empty_room :: room where
  "empty_room = \<lparr>tracked = [], phase = AtRest, arriving = None, turn_channel = [], held_back = [], leftover = [], deferred = [],
     messenger = \<lparr>pending_main_hops = [], mid_turn_hops = []\<rparr>, room_hops = 0, published = [], unannounced = [], findings = [],
     routed = [], taken = [], read_messages = [], dropped = [], recorded_at_stop = [], withdrawn = [], carried = (\<lambda>i. 0)\<rparr>"

section \<open>The list of waiting messages as a map\<close>

lemma entry_index_None: "entry_index i q = None \<longleftrightarrow> map_of q i = None"
  by (auto simp: entry_index_def position_None map_of_eq_None_iff)

lemma map_of_split: "i \<notin> fst ` set xs \<Longrightarrow> map_of (xs @ (i, w) # ys) i = Some w"
  by (induction xs) auto

lemma entry_index_Some:
  assumes "entry_index i q = Some k" "distinct (map fst q)"
  shows "map_of q i = Some (snd (q ! k))" "map_of (remove_at k q) = (map_of q)(i := None)"
    "map_of (q[k := (fst (q ! k), w)]) = (map_of q)(i \<mapsto> w)" "map fst (q[k := (fst (q ! k), w)]) = map fst q"
    "distinct (map fst (remove_at k q))"
proof -
  have k: "k < length q" "fst (q ! k) = i" using position_Some assms(1) by (auto simp: entry_index_def)
  obtain xs v ys where q: "q = xs @ (i, v) # ys" "length xs = k"
    using id_take_nth_drop [OF k(1)] k by (metis length_take min.absorb2 less_imp_le prod.collapse)
  have fresh: "i \<notin> fst ` set xs" "i \<notin> fst ` set ys" using assms(2) by (auto simp: q)
  have none: "map_of xs i = None" "map_of ys i = None" using fresh by (simp_all add: map_of_eq_None_iff)
  show "map_of q i = Some (snd (q ! k))" using none by (simp add: q(1) q(2) [symmetric] nth_append map_add_def)
  show "map_of (remove_at k q) = (map_of q)(i := None)"
    using none by (auto simp: q(1) q(2) [symmetric] remove_at_def map_add_def fun_eq_iff split: option.split)
  show "map_of (q[k := (fst (q ! k), w)]) = (map_of q)(i \<mapsto> w)"
    using none by (auto simp: q(1) q(2) [symmetric] list_update_append nth_append map_add_def fun_eq_iff split: option.split)
  show "map fst (q[k := (fst (q ! k), w)]) = map fst q" 
    using k(1) by (simp add: map_update) (metis list_update_id nth_map)
  show "distinct (map fst (remove_at k q))" by (rule distinct_remove_at [OF assms(2)])
qed

lemma take_at_checkpoint_spec:
  assumes "take_at_checkpoint i q = (t, q')" "distinct (map fst q)"
  shows "distinct (map fst q') \<and>
    (case t of
       TakeDeliver \<Rightarrow> map_of q i \<noteq> Some Withdrawn \<and> map_of q' = (map_of q)(i := None)
     | TakeHold \<Rightarrow> q' = q
     | TakeDrop \<Rightarrow> map_of q i = Some Withdrawn \<and> map_of q' = (map_of q)(i := None))"
proof (cases "entry_index i q")
  case None
  then show ?thesis using assms None [unfolded entry_index_None] by (auto simp: take_at_checkpoint_def)
next
  case (Some k)
  then show ?thesis using assms entry_index_Some [OF Some assms(2)]
    by (cases "snd (q ! k)") (auto simp: take_at_checkpoint_def)
qed

lemma claim_turn_start_spec:
  assumes "claim_turn_start i q = (b, q')" "distinct (map fst q)"
  shows "distinct (map fst q') \<and> (b \<longleftrightarrow> map_of q i \<noteq> Some Withdrawn) \<and> map_of q' = (map_of q)(i := None)"
proof (cases "entry_index i q")
  case None
  then show ?thesis using assms None [unfolded entry_index_None] by (auto simp: claim_turn_start_def)
next
  case (Some k)
  then show ?thesis using assms entry_index_Some [OF Some assms(2)] by (auto simp: claim_turn_start_def)
qed

lemma position_eq: "(\<And>x. x \<in> set xs \<Longrightarrow> P x \<longleftrightarrow> Q x) \<Longrightarrow> position P xs = position Q xs"
  by (induction xs) auto

lemma keep_after_turn_spec:
  assumes "keep_after_turn i q = (b, q')" "distinct (map fst q)"
  shows "distinct (map fst q') \<and> (b \<longleftrightarrow> map_of q i \<noteq> Some Withdrawn) \<and>
    map_of q' = (if b then map_of q else (map_of q)(i := None))"
proof (cases "map_of q i = Some Withdrawn")
  case True
  have "position (\<lambda>e. fst e = i \<and> snd e = Withdrawn) q = entry_index i q"
    unfolding entry_index_def
  proof (rule position_eq)
    fix e assume "e \<in> set q"
    then have "map_of q (fst e) = Some (snd e)" using assms(2) by (simp add: map_of_eq_Some_iff)
    then show "fst e = i \<and> snd e = Withdrawn \<longleftrightarrow> fst e = i" using True by auto
  qed
  moreover obtain k where k: "entry_index i q = Some k" using True entry_index_None by (cases "entry_index i q") auto
  ultimately show ?thesis using assms entry_index_Some [OF k assms(2)] True by (auto simp: keep_after_turn_def)
next
  case False
  then have "position (\<lambda>e. fst e = i \<and> snd e = Withdrawn) q = None"
    using assms(2) by (auto simp: position_None)
  then show ?thesis using assms False by (simp add: keep_after_turn_def)
qed

lemma withdraw_spec:
  assumes "withdraw_queued i q = (q', b)" "distinct (map fst q)"
  shows "distinct (map fst q') \<and> (b \<longleftrightarrow> map_of q i \<noteq> None \<and> map_of q i \<noteq> Some Withdrawn) \<and>
    map_of q' = (if b then (map_of q)(i \<mapsto> Withdrawn) else map_of q)"
proof (cases "entry_index i q")
  case None
  then show ?thesis using assms None [unfolded entry_index_None] by (auto simp: withdraw_queued_def)
next
  case (Some k)
  then show ?thesis using assms entry_index_Some [OF Some assms(2)]
    by (auto simp: withdraw_queued_def split: if_splits)
qed

lemma send_now_spec:
  assumes "send_now i q = (q', b)" "distinct (map fst q)"
  shows "distinct (map fst q') \<and> (b \<longleftrightarrow> map_of q i \<noteq> None \<and> map_of q i \<noteq> Some Withdrawn) \<and>
    map_of q' = (if b then (map_of q)(i \<mapsto> SendNow) else map_of q)"
proof (cases "entry_index i q")
  case None
  then show ?thesis using assms None [unfolded entry_index_None] by (auto simp: send_now_def)
next
  case (Some k)
  then show ?thesis using assms entry_index_Some [OF Some assms(2)] by (auto simp: send_now_def split: if_splits)
qed

lemma enqueue_spec:
  assumes "distinct (map fst q)" "map_of q i = None"
  shows "distinct (map fst (enqueue i q)) \<and> map_of (enqueue i q) = (map_of q)(i \<mapsto> Queued)"
proof -
  have "enqueue i q = q @ [(i, Queued)]" using assms(2) by (auto simp: enqueue_def list_ex_iff map_of_eq_None_iff)
  moreover have "map_of (q @ [(i, Queued)]) = (map_of q)(i \<mapsto> Queued)"
    using assms(2) by (auto simp: fun_eq_iff map_add_def split: option.split)
  ultimately show ?thesis using assms by (auto simp: map_of_eq_None_iff)
qed

section \<open>What the room promises\<close>

text \<open>The room without its queues: what waits, what is known of it, and where messages ended.\<close>

record ledger =
  lg_waiting :: "message_event multiset"
  lg_entries :: "ustring \<Rightarrow> waiting option"
  lg_read :: "message_event multiset"
  lg_dropped :: "message_event multiset"
  lg_withdrawn :: "ustring set"
  lg_taken :: "ustring set"

inductive moves :: "ledger \<Rightarrow> ledger \<Rightarrow> bool" where
  arrives: "event_id m \<notin> lg_taken a \<Longrightarrow>
    moves a (a\<lparr>lg_waiting := add_mset m (lg_waiting a), lg_taken := insert (event_id m) (lg_taken a),
      lg_entries := (if is_from_person (event_origin m) then (lg_entries a)(event_id m \<mapsto> Queued) else lg_entries a)\<rparr>)"
| is_read: "m \<in># lg_waiting a \<Longrightarrow> lg_entries a (event_id m) \<noteq> Some Withdrawn \<Longrightarrow>
    moves a (a\<lparr>lg_waiting := lg_waiting a - {#m#}, lg_read := add_mset m (lg_read a),
      lg_entries := (lg_entries a)(event_id m := None)\<rparr>)"
| is_dropped: "m \<in># lg_waiting a \<Longrightarrow> lg_entries a (event_id m) = Some Withdrawn \<Longrightarrow>
    moves a (a\<lparr>lg_waiting := lg_waiting a - {#m#}, lg_dropped := add_mset m (lg_dropped a),
      lg_entries := (lg_entries a)(event_id m := None)\<rparr>)"
| is_withdrawn: "lg_entries a i = Some w \<Longrightarrow> w \<noteq> Withdrawn \<Longrightarrow>
    moves a (a\<lparr>lg_entries := (lg_entries a)(i \<mapsto> Withdrawn), lg_withdrawn := insert i (lg_withdrawn a)\<rparr>)"
| is_hurried: "lg_entries a i = Some w \<Longrightarrow> w \<noteq> Withdrawn \<Longrightarrow>
    moves a (a\<lparr>lg_entries := (lg_entries a)(i \<mapsto> SendNow)\<rparr>)"

definition ledger_ok :: "ledger \<Rightarrow> bool" where
  "ledger_ok a \<longleftrightarrow>
     (let everywhere = lg_waiting a + lg_read a + lg_dropped a in
      (\<forall>i. size (filter_mset (\<lambda>m. event_id m = i) everywhere) = (if i \<in> lg_taken a then 1 else 0)) \<and>
      (\<forall>i. lg_entries a i \<noteq> None \<longrightarrow> (\<exists>m. m \<in># lg_waiting a \<and> event_id m = i \<and> is_from_person (event_origin m))) \<and>
      (\<forall>m. m \<in># lg_waiting a \<longrightarrow> is_from_person (event_origin m) \<longrightarrow> lg_entries a (event_id m) \<noteq> None) \<and>
      (\<forall>i. i \<in> lg_withdrawn a \<longleftrightarrow> lg_entries a i = Some Withdrawn \<or> (\<exists>m. m \<in># lg_dropped a \<and> event_id m = i)))"

lemma two_of_a_kind:
  assumes "m \<in># A" "m' \<in># A - {#m#}" "event_id m' = event_id m"
  shows "2 \<le> size (filter_mset (\<lambda>x. event_id x = event_id m) A)"
proof -
  obtain B where A: "A = add_mset m (add_mset m' B)" using assms(1,2) by (metis insert_DiffM)
  then show ?thesis using assms(3) by simp
qed

definition everywhere :: "ledger \<Rightarrow> message_event multiset" where
  "everywhere a = lg_waiting a + lg_read a + lg_dropped a"

lemma ledger_ok_parts:
  "ledger_ok a \<longleftrightarrow>
     (\<forall>i. size (filter_mset (\<lambda>m. event_id m = i) (everywhere a)) = (if i \<in> lg_taken a then 1 else 0)) \<and>
     (\<forall>i. lg_entries a i \<noteq> None \<longrightarrow> (\<exists>m. m \<in># lg_waiting a \<and> event_id m = i \<and> is_from_person (event_origin m))) \<and>
     (\<forall>m. m \<in># lg_waiting a \<longrightarrow> is_from_person (event_origin m) \<longrightarrow> lg_entries a (event_id m) \<noteq> None) \<and>
     (\<forall>i. i \<in> lg_withdrawn a \<longleftrightarrow> lg_entries a i = Some Withdrawn \<or> (\<exists>m. m \<in># lg_dropped a \<and> event_id m = i))"
  by (simp add: ledger_ok_def everywhere_def Let_def)

lemma one_place:
  assumes "ledger_ok a" "m \<in># everywhere a"
  shows "m' \<in># everywhere a - {#m#} \<Longrightarrow> event_id m' \<noteq> event_id m"
proof
  assume "m' \<in># everywhere a - {#m#}" "event_id m' = event_id m"
  from two_of_a_kind [OF assms(2) this] assms(1) show False
    by (auto simp: ledger_ok_parts dest: spec [of _ "event_id m"] split: if_splits)
qed

lemma taken_everywhere: "ledger_ok a \<Longrightarrow> m \<in># everywhere a \<Longrightarrow> event_id m \<in> lg_taken a"
proof (rule ccontr)
  assume a: "ledger_ok a" "m \<in># everywhere a" "event_id m \<notin> lg_taken a"
  then have "size (filter_mset (\<lambda>x. event_id x = event_id m) (everywhere a)) = 0"
    by (simp only: ledger_ok_parts) simp
  then have "filter_mset (\<lambda>x. event_id x = event_id m) (everywhere a) = {#}" by (simp only: size_eq_0_iff_empty)
  moreover have "m \<in># filter_mset (\<lambda>x. event_id x = event_id m) (everywhere a)" using a(2) by simp
  ultimately show False by (metis empty_iff set_mset_empty)
qed

lemma elsewhere:
  assumes "ledger_ok a" "m \<in># lg_waiting a"
  shows "m' \<in># lg_waiting a - {#m#} \<Longrightarrow> event_id m' \<noteq> event_id m"
    "m' \<in># lg_dropped a \<Longrightarrow> event_id m' \<noteq> event_id m" "m' \<in># lg_read a \<Longrightarrow> event_id m' \<noteq> event_id m"
proof -
  have "m \<in># everywhere a" using assms(2) by (simp add: everywhere_def)
  moreover have "everywhere a - {#m#} = (lg_waiting a - {#m#}) + lg_read a + lg_dropped a"
    using assms(2) by (simp add: everywhere_def)
  ultimately show "m' \<in># lg_waiting a - {#m#} \<Longrightarrow> event_id m' \<noteq> event_id m"
    "m' \<in># lg_dropped a \<Longrightarrow> event_id m' \<noteq> event_id m" "m' \<in># lg_read a \<Longrightarrow> event_id m' \<noteq> event_id m"
    using one_place [OF assms(1), of m m'] by auto
qed

lemma moves_ok: "moves a b \<Longrightarrow> ledger_ok a \<Longrightarrow> ledger_ok b"
proof (induction rule: moves.induct)
  case (arrives m a)
  have fresh: "m' \<in># everywhere a \<Longrightarrow> event_id m' \<noteq> event_id m" for m'
    using taken_everywhere [OF arrives(2), of m'] arrives(1) by auto
  then have none: "lg_entries a (event_id m) = None" "event_id m \<notin> lg_withdrawn a"
    using arrives(2) by (auto simp: ledger_ok_parts everywhere_def)
  let ?b = "a\<lparr>lg_waiting := add_mset m (lg_waiting a), lg_taken := insert (event_id m) (lg_taken a),
      lg_entries := (if is_from_person (event_origin m) then (lg_entries a)(event_id m \<mapsto> Queued) else lg_entries a)\<rparr>"
  have every: "everywhere ?b = add_mset m (everywhere a)" by (simp add: everywhere_def)
  have ok: "\<forall>i. size (filter_mset (\<lambda>x. event_id x = i) (everywhere a)) = (if i \<in> lg_taken a then 1 else 0)"
    "\<forall>i. lg_entries a i \<noteq> None \<longrightarrow> (\<exists>m. m \<in># lg_waiting a \<and> event_id m = i \<and> is_from_person (event_origin m))"
    "\<forall>m. m \<in># lg_waiting a \<longrightarrow> is_from_person (event_origin m) \<longrightarrow> lg_entries a (event_id m) \<noteq> None"
    "\<forall>i. i \<in> lg_withdrawn a \<longleftrightarrow> lg_entries a i = Some Withdrawn \<or> (\<exists>m. m \<in># lg_dropped a \<and> event_id m = i)"
    using arrives(2) unfolding ledger_ok_parts by blast+
  have "\<forall>i. size (filter_mset (\<lambda>x. event_id x = i) (everywhere ?b)) = (if i \<in> lg_taken ?b then 1 else 0)"
    unfolding every
  proof
    fix i
    show "size (filter_mset (\<lambda>x. event_id x = i) (add_mset m (everywhere a))) = (if i \<in> lg_taken ?b then 1 else 0)"
      using ok(1) [rule_format, of i] arrives(1) by (auto split: if_splits)
  qed
  moreover have "\<forall>i. lg_entries ?b i \<noteq> None \<longrightarrow> (\<exists>m. m \<in># lg_waiting ?b \<and> event_id m = i \<and> is_from_person (event_origin m))"
    using ok(2) by auto
  moreover have "\<forall>m. m \<in># lg_waiting ?b \<longrightarrow> is_from_person (event_origin m) \<longrightarrow> lg_entries ?b (event_id m) \<noteq> None"
    using ok(3) by auto
  moreover have "\<forall>i. i \<in> lg_withdrawn ?b \<longleftrightarrow> lg_entries ?b i = Some Withdrawn \<or> (\<exists>m. m \<in># lg_dropped ?b \<and> event_id m = i)"
    using ok(4) none by auto
  ultimately show ?case unfolding ledger_ok_parts by blast
next
  case (is_read m a)
  note other = elsewhere [OF is_read(3,1)]
  have "everywhere (a\<lparr>lg_waiting := lg_waiting a - {#m#}, lg_read := add_mset m (lg_read a),
      lg_entries := (lg_entries a)(event_id m := None)\<rparr>) = everywhere a" using is_read(1) by (simp add: everywhere_def)
  then show ?case using is_read other
    by (auto simp: ledger_ok_parts in_diff_count dest: in_diffD) (metis insert_DiffM insert_noteq_member)
next
  case (is_dropped m a)
  note other = elsewhere [OF is_dropped(3,1)]
  have "everywhere (a\<lparr>lg_waiting := lg_waiting a - {#m#}, lg_dropped := add_mset m (lg_dropped a),
      lg_entries := (lg_entries a)(event_id m := None)\<rparr>) = everywhere a" using is_dropped(1) by (simp add: everywhere_def)
  then show ?case using is_dropped other
    by (auto simp: ledger_ok_parts in_diff_count dest: in_diffD) (metis insert_DiffM insert_noteq_member)
next
  case (is_withdrawn a i w)
  then show ?case by (auto simp: ledger_ok_parts everywhere_def)
next
  case (is_hurried a i w)
  then show ?case by (auto simp: ledger_ok_parts everywhere_def)
qed

lemma moves_star_ok: "moves\<^sup>*\<^sup>* a b \<Longrightarrow> ledger_ok a \<Longrightarrow> ledger_ok b"
  by (induction rule: rtranclp_induct) (auto intro: moves_ok)

text \<open>A withdrawn message is never read, a message is in one place, and a request finds exactly what still waits.\<close>

lemma withdrawn_not_read: "ledger_ok a \<Longrightarrow> m \<in># lg_read a \<Longrightarrow> event_id m \<notin> lg_withdrawn a"
proof
  assume a: "ledger_ok a" "m \<in># lg_read a" "event_id m \<in> lg_withdrawn a"
  then consider "lg_entries a (event_id m) = Some Withdrawn" | "\<exists>m'. m' \<in># lg_dropped a \<and> event_id m' = event_id m"
    by (auto simp: ledger_ok_parts)
  then obtain m' where "m' \<in># lg_waiting a \<or> m' \<in># lg_dropped a" "event_id m' = event_id m"
  proof cases
    case 1
    then have "lg_entries a (event_id m) \<noteq> None" by simp
    with a(1) that show ?thesis unfolding ledger_ok_parts by blast
  qed (use that in blast)
  moreover have "m \<in># everywhere a" using a(2) by (simp add: everywhere_def)
  moreover have "everywhere a - {#m#} = lg_waiting a + (lg_read a - {#m#}) + lg_dropped a"
    using a(2) by (simp add: everywhere_def)
  ultimately show False using one_place [OF a(1), of m m'] by auto
qed

section \<open>The room keeps the ledger\<close>

definition led ::
  "ustring set \<Rightarrow> ustring set \<Rightarrow> message_event multiset \<Rightarrow> (ustring \<Rightarrow> waiting option) \<Rightarrow> message_event multiset \<Rightarrow>
   message_event multiset \<Rightarrow> ledger" where
  "led W T ws e R D = \<lparr>lg_waiting = ws, lg_entries = e, lg_read = R, lg_dropped = D, lg_withdrawn = W, lg_taken = T\<rparr>"

lemma led_read:
  "e (event_id m) \<noteq> Some Withdrawn \<Longrightarrow> e' = e(event_id m := None) \<Longrightarrow>
     moves (led W T (add_mset m ws) e R D) (led W T ws e' (add_mset m R) D)"
  using is_read [of m "led W T (add_mset m ws) e R D"] by (simp add: led_def)

lemma led_dropped:
  "e (event_id m) = Some Withdrawn \<Longrightarrow> e' = e(event_id m := None) \<Longrightarrow>
     moves (led W T (add_mset m ws) e R D) (led W T ws e' R (add_mset m D))"
  using is_dropped [of m "led W T (add_mset m ws) e R D"] by (simp add: led_def)

lemma messages_of_simps [simp]:
  "messages_of [] = []" "messages_of (UserMessage m # is) = m # messages_of is" "messages_of (Subconscious c # is) = messages_of is"
  "messages_of (StoppedByUser # is) = messages_of is" "messages_of (AgentMessage a # is) = messages_of is"
  "messages_of (is @ js) = messages_of is @ messages_of js" "messages_of (map UserMessage ms) = ms"
  by (simp_all add: messages_of_def comp_def)

definition no_agents :: "interrupt list \<Rightarrow> bool" where
  "no_agents is \<longleftrightarrow> list_all (\<lambda>i. case i of AgentMessage a \<Rightarrow> False | _ \<Rightarrow> True) is"

lemma no_agents_simps [simp]:
  "no_agents []" "no_agents (UserMessage m # is) = no_agents is" "no_agents (Subconscious c # is) = no_agents is"
  "no_agents (StoppedByUser # is) = no_agents is" "\<not> no_agents (AgentMessage a # is)"
  "no_agents (is @ js) = (no_agents is \<and> no_agents js)" "no_agents (map UserMessage ms)"
  by (auto simp: no_agents_def list_all_iff)

definition received :: "interrupt option \<Rightarrow> interrupt list" where
  "received r = (case r of Some i \<Rightarrow> [i] | None \<Rightarrow> [])"

lemma try_recv_moves:
  "main_try_recv is q h d = (r, is', q', h', d') \<Longrightarrow> distinct (map fst q) \<Longrightarrow>
     moves\<^sup>*\<^sup>* (led W T (mset (messages_of is) + mset h + ws) (map_of q) R (mset d + D))
       (led W T (mset (messages_of is') + mset h' + ws) (map_of q') (R + mset (messages_of (received r))) (mset d' + D)) \<and>
     distinct (map fst q') \<and> (r = None \<longrightarrow> is' = [])"
proof (induction "is" q h d arbitrary: q' rule: main_try_recv.induct)
  case (2 m "is" q h d)
  obtain t q1 where t: "take_at_checkpoint (event_id m) q = (t, q1)" by (meson surj_pair)
  note spec = take_at_checkpoint_spec [OF t 2(4)]
  show ?case
  proof (cases t)
    case TakeDeliver
    then have r: "r = Some (UserMessage m)" "is' = is" "q' = q1" "h' = h" "d' = d" using 2(3) t by auto
    have "moves (led W T (add_mset m (mset (messages_of is) + mset h + ws)) (map_of q) R (mset d + D))
        (led W T (mset (messages_of is) + mset h + ws) (map_of q1) (add_mset m R) (mset d + D))"
      using spec TakeDeliver by (intro led_read) auto
    then have "moves\<^sup>*\<^sup>* (led W T (add_mset m (mset (messages_of is) + mset h + ws)) (map_of q) R (mset d + D))
        (led W T (mset (messages_of is) + mset h + ws) (map_of q1) (add_mset m R) (mset d + D))" by (rule r_into_rtranclp)
    moreover have "distinct (map fst q1)" using spec by blast
    ultimately show ?thesis by (simp add: r received_def)
  next
    case TakeHold
    then show ?thesis using 2(1) [OF t [symmetric]] 2(3,4) t spec by (auto simp: add.assoc)
  next
    case TakeDrop
    have one: "moves (led W T (add_mset m (mset (messages_of is) + mset h + ws)) (map_of q) R (mset d + D))
        (led W T (mset (messages_of is) + mset h + ws) (map_of q1) R (add_mset m (mset d + D)))"
      using spec TakeDrop by (intro led_dropped) auto
    have "main_try_recv is q1 h (d @ [m]) = (r, is', q', h', d')" "distinct (map fst q1)" using 2(3) t TakeDrop spec by auto
    from 2(2) [OF t [symmetric] TakeDrop this] one show ?thesis
      by (auto intro: converse_rtranclp_into_rtranclp)
  qed
qed (auto simp: received_def)

lemma drain_moves:
  "drain_channel is q h d = (js, q', h', d') \<Longrightarrow> distinct (map fst q) \<Longrightarrow>
     moves\<^sup>*\<^sup>* (led W T (mset (messages_of is) + mset h + ws) (map_of q) R (mset d + D))
       (led W T (mset h' + ws) (map_of q') (R + mset (messages_of js)) (mset d' + D)) \<and> distinct (map fst q')"
proof (induction "is" q h d arbitrary: js q' R rule: drain_channel.induct)
  case (1 "is" q h d)
  obtain r is1 q1 h1 d1 where t: "main_try_recv is q h d = (r, is1, q1, h1, d1)" by (metis prod_cases5)
  note one = try_recv_moves [OF t 1(3), of W T ws R D]
  show ?case
  proof (cases r)
    case None
    then have "js = []" "q' = q1" "h' = h1" "d' = d1" using 1(2) t by (auto simp: drain_channel.simps)
    then show ?thesis using one None by (auto simp: received_def)
  next
    case (Some i)
    obtain js1 where rest: "drain_channel is1 q1 h1 d1 = (js1, q', h', d')" "js = i # js1"
      using 1(2) t Some by (auto simp: drain_channel.simps [of "is"] split: prod.splits)
    have "messages_of (i # js1) = messages_of (received r) @ messages_of js1"
      by (cases i) (simp_all add: Some received_def)
    then show ?thesis
      using 1(1) [OF t [symmetric] Some refl refl refl rest(1), of "R + mset (messages_of (received r))"] one rest(2)
      by (auto simp: add.assoc)
  qed
qed

lemma sift_moves:
  "sift_leftovers is q = (js, q', d) \<Longrightarrow> distinct (map fst q) \<Longrightarrow>
     moves\<^sup>*\<^sup>* (led W T (mset (messages_of is) + ws) (map_of q) R D)
       (led W T (mset (messages_of js) + ws) (map_of q') R (mset d + D)) \<and> distinct (map fst q') \<and>
     (no_agents is \<longrightarrow> no_agents js)"
proof (induction "is" q arbitrary: js q' d ws D rule: sift_leftovers.induct)
  case (2 m "is" q)
  obtain b q1 where t: "keep_after_turn (event_id m) q = (b, q1)" by (meson surj_pair)
  note spec = keep_after_turn_spec [OF t 2(4)]
  have dist: "distinct (map fst q1)" using spec by blast
  obtain js1 q2 d2 where rest: "sift_leftovers is q1 = (js1, q2, d2)" by (metis prod_cases3)
  show ?case
  proof (cases b)
    case True
    then have "js = UserMessage m # js1" "q' = q2" "d = d2" using 2(3) t rest by auto
    then show ?thesis using 2(1) [OF t [symmetric] _ rest, of "add_mset m ws" D] spec True by auto
  next
    case False
    then have j: "js = js1" "q' = q2" "d = m # d2" using 2(3) t rest by auto
    have "moves (led W T (add_mset m (mset (messages_of is) + ws)) (map_of q) R D)
        (led W T (mset (messages_of is) + ws) (map_of q1) R (add_mset m D))"
      using spec False by (intro led_dropped) auto
    moreover have "moves\<^sup>*\<^sup>* (led W T (mset (messages_of is) + ws) (map_of q1) R (add_mset m D))
        (led W T (mset (messages_of js1) + ws) (map_of q2) R (mset d2 + add_mset m D)) \<and> distinct (map fst q2) \<and>
        (no_agents is \<longrightarrow> no_agents js1)"
      using 2(2) [OF t [symmetric] _ rest, of ws "add_mset m D"] dist False by auto
    ultimately show ?thesis by (auto simp: j intro: converse_rtranclp_into_rtranclp)
  qed
qed (auto split: prod.splits)

lemma mset_remove_at: "k < length xs \<Longrightarrow> mset xs = add_mset (xs ! k) (mset (remove_at k xs))"
  by (subst id_take_nth_drop [of k xs]) (simp_all add: remove_at_def)

lemma next_index_less: "ms \<noteq> [] \<Longrightarrow> next_index ms q < length ms"
  using position_Some [of "\<lambda>m. is_send_now (event_id m) q" ms] by (auto simp: next_index_def split: option.split)

lemma next_deferred_Some:
  "ms \<noteq> [] \<Longrightarrow> next_deferred ms q =
     (case claim_turn_start (event_id (ms ! next_index ms q)) q of
        (True, q1) \<Rightarrow> (Some (ms ! next_index ms q), remove_at (next_index ms q) ms, q1, [])
      | (False, q1) \<Rightarrow> (case next_deferred (remove_at (next_index ms q) ms) q1 of (r, ms1, q2, d) \<Rightarrow> (r, ms1, q2, ms ! next_index ms q # d)))"
  by (subst next_deferred.simps) (simp add: Let_def)

definition opt_list :: "message_event option \<Rightarrow> message_event list" where
  "opt_list r = (case r of Some m \<Rightarrow> [m] | None \<Rightarrow> [])"

lemma next_deferred_moves:
  "next_deferred ms q = (r, ms', q', d) \<Longrightarrow> distinct (map fst q) \<Longrightarrow>
     moves\<^sup>*\<^sup>* (led W T (mset ms + ws) (map_of q) R D)
       (led W T (mset ms' + ws) (map_of q') (R + mset (opt_list r)) (mset d + D)) \<and> distinct (map fst q') \<and>
     (r = None \<longrightarrow> ms' = [])"
proof (induction ms q arbitrary: r ms' q' d D rule: next_deferred.induct)
  case (1 ms q)
  show ?case
  proof (cases "ms = []")
    case True
    then show ?thesis using 1(2,3) by (simp add: next_deferred.simps opt_list_def)
  next
    case False
    let ?k = "next_index ms q"
    let ?m = "ms ! ?k"
    obtain b q1 where t: "claim_turn_start (event_id ?m) q = (b, q1)" by (meson surj_pair)
    note spec = claim_turn_start_spec [OF t 1(3)]
    have dist: "distinct (map fst q1)" using spec by blast
    have ms: "mset ms = add_mset ?m (mset (remove_at ?k ms))" by (rule mset_remove_at [OF next_index_less [OF False]])
    show ?thesis
    proof (cases b)
      case True
      then have r: "r = Some ?m" "ms' = remove_at ?k ms" "q' = q1" "d = []" using 1(2) t by (auto simp: next_deferred_Some [OF False])
      have "moves (led W T (add_mset ?m (mset (remove_at ?k ms) + ws)) (map_of q) R D)
          (led W T (mset (remove_at ?k ms) + ws) (map_of q1) (add_mset ?m R) D)"
        using spec True by (intro led_read) auto
      then have "moves\<^sup>*\<^sup>* (led W T (add_mset ?m (mset (remove_at ?k ms) + ws)) (map_of q) R D)
          (led W T (mset (remove_at ?k ms) + ws) (map_of q1) (add_mset ?m R) D)" by (rule r_into_rtranclp)
      then show ?thesis using dist by (simp add: r ms opt_list_def)
    next
      case no: False
      obtain r1 ms1 q2 d2 where rest: "next_deferred (remove_at ?k ms) q1 = (r1, ms1, q2, d2)" by (metis prod_cases4)
      have r: "r = r1" "ms' = ms1" "q' = q2" "d = ?m # d2" using 1(2) t rest no by (auto simp: next_deferred_Some [OF False])
      have "moves (led W T (add_mset ?m (mset (remove_at ?k ms) + ws)) (map_of q) R D)
          (led W T (mset (remove_at ?k ms) + ws) (map_of q1) R (add_mset ?m D))"
        using spec no by (intro led_dropped) auto
      moreover have "moves\<^sup>*\<^sup>* (led W T (mset (remove_at ?k ms) + ws) (map_of q1) R (add_mset ?m D))
          (led W T (mset ms1 + ws) (map_of q2) (R + mset (opt_list r1)) (mset d2 + add_mset ?m D)) \<and> distinct (map fst q2) \<and>
          (r1 = None \<longrightarrow> ms1 = [])"
        using 1(1) [OF False refl refl t [symmetric] _ rest dist, of "add_mset ?m D"] no by auto
      ultimately show ?thesis by (auto simp: r ms intro: converse_rtranclp_into_rtranclp)
    qed
  qed
qed

definition waiting_in :: "room \<Rightarrow> message_event list" where
  "waiting_in s =
     (case arriving s of Some (m, h, b) \<Rightarrow> [m] | None \<Rightarrow> []) @ messages_of (turn_channel s) @ held_back s @
     messages_of (leftover s) @ deferred s"

definition ledger_of :: "room \<Rightarrow> ledger" where
  "ledger_of s = led (set (withdrawn s)) (event_id ` set (taken s)) (mset (waiting_in s)) (map_of (tracked s))
     (mset (read_messages s)) (mset (dropped s))"

definition room_ok :: "room \<Rightarrow> bool" where
  "room_ok s \<longleftrightarrow> distinct (map fst (tracked s)) \<and> no_agents (turn_channel s) \<and> no_agents (leftover s) \<and> ledger_ok (ledger_of s) \<and>
     (case phase s of Ended t \<Rightarrow> True | _ \<Rightarrow> leftover s = [])"

lemma say_fields [simp]:
  "tracked (say e s) = tracked s" "arriving (say e s) = arriving s" "turn_channel (say e s) = turn_channel s"
  "held_back (say e s) = held_back s" "leftover (say e s) = leftover s" "deferred (say e s) = deferred s"
  "messenger (say e s) = messenger s" "room_hops (say e s) = room_hops s" "withdrawn (say e s) = withdrawn s"
  "taken (say e s) = taken s" "read_messages (say e s) = read_messages s" "dropped (say e s) = dropped s"
  "recorded_at_stop (say e s) = recorded_at_stop s" "unannounced (say e s) = unannounced s" "findings (say e s) = findings s"
  "carried (say e s) = carried s" "phase (say e s) = phase s"
  by (simp_all add: say_def split: option.split)

lemma fold_say_fields [simp]:
  "tracked (fold (\<lambda>m. say (f m)) ms s) = tracked s" "arriving (fold (\<lambda>m. say (f m)) ms s) = arriving s"
  "turn_channel (fold (\<lambda>m. say (f m)) ms s) = turn_channel s" "held_back (fold (\<lambda>m. say (f m)) ms s) = held_back s"
  "leftover (fold (\<lambda>m. say (f m)) ms s) = leftover s" "deferred (fold (\<lambda>m. say (f m)) ms s) = deferred s"
  "messenger (fold (\<lambda>m. say (f m)) ms s) = messenger s" "withdrawn (fold (\<lambda>m. say (f m)) ms s) = withdrawn s"
  "taken (fold (\<lambda>m. say (f m)) ms s) = taken s" "read_messages (fold (\<lambda>m. say (f m)) ms s) = read_messages s"
  "dropped (fold (\<lambda>m. say (f m)) ms s) = dropped s" "carried (fold (\<lambda>m. say (f m)) ms s) = carried s"
  "recorded_at_stop (fold (\<lambda>m. say (f m)) ms s) = recorded_at_stop s" "room_hops (fold (\<lambda>m. say (f m)) ms s) = room_hops s"
  "phase (fold (\<lambda>m. say (f m)) ms s) = phase s" "unannounced (fold (\<lambda>m. say (f m)) ms s) = unannounced s"
  by (induction ms arbitrary: s) simp_all

lemma checkpoint_moves:
  assumes "room_ok s"
  shows "moves\<^sup>*\<^sup>* (ledger_of s) (ledger_of (checkpoint t s)) \<and> distinct (map fst (tracked (checkpoint t s))) \<and>
    no_agents (turn_channel (checkpoint t s)) \<and> no_agents (leftover (checkpoint t s))"
proof -
  obtain js q h d where t: "drain_channel (turn_channel s) (tracked s) (held_back s) [] = (js, q, h, d)" by (metis prod_cases4)
  let ?ws = "mset (case arriving s of Some (m, h, b) \<Rightarrow> [m] | None \<Rightarrow> []) + mset (messages_of (leftover s)) + mset (deferred s)"
  have dist: "distinct (map fst (tracked s))" using assms by (simp add: room_ok_def)
  from drain_moves [OF t dist, of "set (withdrawn s)" "event_id ` set (taken s)" ?ws "mset (read_messages s)" "mset (dropped s)"]
  show ?thesis using assms t
    by (simp add: checkpoint_def ledger_of_def waiting_in_def room_ok_def ac_simps)
qed

lemma room_okI:
  "room_ok s \<Longrightarrow> moves\<^sup>*\<^sup>* (ledger_of s) (ledger_of s') \<Longrightarrow> distinct (map fst (tracked s')) \<Longrightarrow>
     no_agents (turn_channel s') \<Longrightarrow> no_agents (leftover s') \<Longrightarrow> (case phase s' of Ended t \<Rightarrow> True | _ \<Rightarrow> leftover s' = []) \<Longrightarrow> room_ok s'"
  by (simp add: room_ok_def moves_star_ok)

lemma unknown_id:
  assumes "ledger_ok (ledger_of s)" "event_id m \<notin> event_id ` set (taken s)"
  shows "map_of (tracked s) (event_id m) = None"
proof (rule ccontr)
  assume "map_of (tracked s) (event_id m) \<noteq> None"
  then obtain m' where "m' \<in># lg_waiting (ledger_of s)" "event_id m' = event_id m"
    using assms(1) unfolding ledger_ok_parts by (auto simp: ledger_of_def led_def)
  then show False using taken_everywhere [OF assms(1), of m'] assms(2) by (simp add: everywhere_def ledger_of_def led_def)
qed

lemma led_arrives:
  "event_id m \<notin> T \<Longrightarrow> T' = insert (event_id m) T \<Longrightarrow> e' = (if is_from_person (event_origin m) then e(event_id m \<mapsto> Queued) else e) \<Longrightarrow>
     moves (led W T ws e R D) (led W T' (add_mset m ws) e' R D)"
  using arrives [of m "led W T ws e R D"] by (cases "is_from_person (event_origin m)") (simp_all add: led_def)

lemma open_turn_fields [simp]:
  "tracked (open_turn m s) = tracked s" "arriving (open_turn m s) = arriving s" "turn_channel (open_turn m s) = turn_channel s"
  "held_back (open_turn m s) = held_back s" "leftover (open_turn m s) = leftover s" "deferred (open_turn m s) = deferred s"
  "withdrawn (open_turn m s) = withdrawn s" "taken (open_turn m s) = taken s" "dropped (open_turn m s) = dropped s"
  "read_messages (open_turn m s) = read_messages s @ [m]" "phase (open_turn m s) = Running (event_id m)"
  "recorded_at_stop (open_turn m s) = recorded_at_stop s" "carried (open_turn m s) = carried s"
  "unannounced (open_turn m s) = unannounced s"
  by (simp_all add: open_turn_def Let_def case_prod_unfold)

lemma idle_message_moves:
  assumes "room_ok s" "event_id m \<notin> event_id ` set (taken s)" "phase s = AtRest"
  shows "moves\<^sup>*\<^sup>* (ledger_of s) (ledger_of (handle_idle_message m s)) \<and> room_ok (handle_idle_message m s)"
proof (cases "belongs_to_main (event_origin m)")
  case True
  let ?e = "map_of (tracked s)"
  let ?e1 = "if is_from_person (event_origin m) then ?e(event_id m \<mapsto> Queued) else ?e"
  have none: "?e (event_id m) = None" using unknown_id [of s m] assms by (simp add: room_ok_def)
  let ?T = "event_id ` set (taken s)"
  have "moves (ledger_of s) (led (set (withdrawn s)) (insert (event_id m) ?T) (add_mset m (mset (waiting_in s))) ?e1
      (mset (read_messages s)) (mset (dropped s)))"
    unfolding ledger_of_def by (rule led_arrives) (use assms(2) in auto)
  moreover have "moves (led (set (withdrawn s)) (insert (event_id m) ?T) (add_mset m (mset (waiting_in s))) ?e1
      (mset (read_messages s)) (mset (dropped s))) (led (set (withdrawn s)) (insert (event_id m) ?T) (mset (waiting_in s)) ?e
      (add_mset m (mset (read_messages s))) (mset (dropped s)))"
    by (rule led_read) (auto simp: none fun_upd_idem)
  moreover have "ledger_of (handle_idle_message m s) = led (set (withdrawn s)) (insert (event_id m) ?T) (mset (waiting_in s)) ?e
      (add_mset m (mset (read_messages s))) (mset (dropped s))"
    by (simp add: handle_idle_message_def True ledger_of_def waiting_in_def)
  ultimately have m: "moves\<^sup>*\<^sup>* (ledger_of s) (ledger_of (handle_idle_message m s))" by (metis converse_rtranclp_into_rtranclp rtranclp.rtrancl_refl)
  have "room_ok (handle_idle_message m s)"
    by (rule room_okI [OF assms(1) m]) (use assms(1,3) in \<open>simp_all add: handle_idle_message_def True room_ok_def\<close>)
  with m show ?thesis by blast
next
  case False
  then have "ledger_of (handle_idle_message m s) = ledger_of s" by (simp add: handle_idle_message_def ledger_of_def waiting_in_def)
  then show ?thesis using assms(1) False by (simp add: room_ok_def handle_idle_message_def split: phase.splits)
qed

lemma mid_turn_message_moves:
  assumes "room_ok s" "event_id m \<notin> event_id ` set (taken s)" "arriving s = None" "phase s = Running turn"
  shows "moves\<^sup>*\<^sup>* (ledger_of s) (ledger_of (handle_mid_turn_message m s)) \<and> room_ok (handle_mid_turn_message m s)"
proof (cases "belongs_to_main (event_origin m)")
  case True
  let ?e = "map_of (tracked s)"
  let ?s = "handle_mid_turn_message m s"
  have none: "?e (event_id m) = None" using unknown_id [of s m] assms by (simp add: room_ok_def)
  have dist: "distinct (map fst (tracked s))" using assms(1) by (simp add: room_ok_def)
  have q: "tracked ?s = (if is_from_person (event_origin m) then enqueue (event_id m) (tracked s) else tracked s)"
    by (simp add: handle_mid_turn_message_def True Let_def case_prod_unfold message_queued_event_def)
  have "moves (ledger_of s) (led (set (withdrawn s)) (insert (event_id m) (event_id ` set (taken s))) (add_mset m (mset (waiting_in s)))
      (map_of (tracked ?s)) (mset (read_messages s)) (mset (dropped s)))"
    unfolding ledger_of_def
    by (rule led_arrives) (use assms(2) enqueue_spec [OF dist none] in \<open>auto simp: q\<close>)
  moreover have "ledger_of ?s = led (set (withdrawn s)) (insert (event_id m) (event_id ` set (taken s))) (add_mset m (mset (waiting_in s)))
      (map_of (tracked ?s)) (mset (read_messages s)) (mset (dropped s))"
    unfolding ledger_of_def waiting_in_def
    using assms(3) by (simp add: handle_mid_turn_message_def True Let_def case_prod_unfold)
  ultimately have m: "moves\<^sup>*\<^sup>* (ledger_of s) (ledger_of ?s)" by simp
  have "room_ok ?s"
  proof (rule room_okI [OF assms(1) m])
    show "distinct (map fst (tracked ?s))" using enqueue_spec [OF dist none] dist by (simp add: q)
  qed (use assms(1,4) in \<open>simp_all add: handle_mid_turn_message_def True Let_def case_prod_unfold room_ok_def\<close>)
  with m show ?thesis by blast
next
  case False
  then have "ledger_of (handle_mid_turn_message m s) = ledger_of s" by (simp add: handle_mid_turn_message_def ledger_of_def waiting_in_def)
  then show ?thesis using assms(1) False by (simp add: room_ok_def handle_mid_turn_message_def split: phase.splits)
qed

lemma leftovers_moves:
  assumes "room_ok s" "phase s = Running turn"
  shows "moves\<^sup>*\<^sup>* (ledger_of s) (ledger_of ((into_leftovers s)\<lparr>phase := Ended turn\<rparr>)) \<and> room_ok ((into_leftovers s)\<lparr>phase := Ended turn\<rparr>)"
proof -
  obtain js q d where t: "sift_leftovers (turn_channel s) (tracked s) = (js, q, d)" by (metis prod_cases3)
  have dist: "distinct (map fst (tracked s))" using assms by (simp add: room_ok_def)
  have empty: "leftover s = []" using assms by (simp add: room_ok_def)
  let ?ws = "mset (case arriving s of Some (m, h, b) \<Rightarrow> [m] | None \<Rightarrow> []) + mset (held_back s) + mset (deferred s)"
  note sift = sift_moves [OF t dist, of "set (withdrawn s)" "event_id ` set (taken s)" ?ws "mset (read_messages s)" "mset (dropped s)"]
  have m: "moves\<^sup>*\<^sup>* (ledger_of s) (ledger_of ((into_leftovers s)\<lparr>phase := Ended turn\<rparr>))"
    using sift t empty by (simp add: into_leftovers_def ledger_of_def waiting_in_def ac_simps)
  have "room_ok ((into_leftovers s)\<lparr>phase := Ended turn\<rparr>)"
    by (rule room_okI [OF assms(1) m]) (use sift t assms(1) in \<open>auto simp: into_leftovers_def room_ok_def\<close>)
  with m show ?thesis by blast
qed

lemma sort_leftover_simps:
  "sort_leftover fresh (UserMessage m) (g, late, fs) = (restore_main_hop (event_id m) (mid_turn_hop (event_id m) g) g, late @ [m], fs)"
  "sort_leftover fresh (Subconscious c) (g, late, fs) = (g, late, fs @ [c])"
  "sort_leftover fresh StoppedByUser (g, late, fs) = (g, late, fs)"
  by (simp_all add: sort_leftover_def)

lemma fold_sort_leftover:
  "no_agents is \<Longrightarrow> fold (sort_leftover fresh) is (g, late, fs) = (g', late', fs') \<Longrightarrow> late' = late @ messages_of is"
proof (induction "is" arbitrary: g late fs)
  case (Cons i "is")
  show ?case
  proof (cases i)
    case (UserMessage m)
    with Cons.prems Cons.IH [of _ "late @ [m]"] show ?thesis by (simp add: sort_leftover_simps)
  qed (use Cons in \<open>auto simp: sort_leftover_simps\<close>)
qed simp

lemma sorted_moves:
  assumes "room_ok s"
  shows "ledger_of ((defer_late_messages fresh False s)\<lparr>phase := AtRest\<rparr>) = ledger_of s \<and>
    room_ok ((defer_late_messages fresh False s)\<lparr>phase := AtRest\<rparr>)"
proof -
  obtain g late fs where t: "fold (sort_leftover fresh) (leftover s) (messenger s, [], findings s) = (g, late, fs)" by (metis prod_cases3)
  have late: "late = messages_of (leftover s)" using fold_sort_leftover [OF _ t] assms by (simp add: room_ok_def)
  have same: "ledger_of ((defer_late_messages fresh False s)\<lparr>phase := AtRest\<rparr>) = ledger_of s"
    using t late by (simp add: defer_late_messages_def process_leftover_interrupts_def ledger_of_def waiting_in_def ac_simps)
  then show ?thesis using assms t
    by (simp add: room_ok_def) (simp add: defer_late_messages_def process_leftover_interrupts_def)
qed

lemma start_next_moves:
  assumes "room_ok s" "phase s = AtRest"
  shows "moves\<^sup>*\<^sup>* (ledger_of s) (ledger_of (start_next s)) \<and> room_ok (start_next s)"
proof -
  obtain r ms q d where t: "next_deferred (deferred s) (tracked s) = (r, ms, q, d)" by (metis prod_cases4)
  have dist: "distinct (map fst (tracked s))" using assms by (simp add: room_ok_def)
  let ?ws = "mset (case arriving s of Some (m, h, b) \<Rightarrow> [m] | None \<Rightarrow> []) + mset (messages_of (turn_channel s)) + mset (held_back s) +
    mset (messages_of (leftover s))"
  note next_m = next_deferred_moves [OF t dist, of "set (withdrawn s)" "event_id ` set (taken s)" ?ws "mset (read_messages s)" "mset (dropped s)"]
  have m: "moves\<^sup>*\<^sup>* (ledger_of s) (ledger_of (start_next s))"
  proof (cases r)
    case None
    with next_m have ms: "ms = []" by simp
    show ?thesis using next_m t unfolding None ms
      by (simp add: start_next_def Let_def ledger_of_def waiting_in_def opt_list_def ac_simps)
  next
    case (Some m)
    then show ?thesis using next_m t
      by (simp add: start_next_def Let_def ledger_of_def waiting_in_def opt_list_def ac_simps)
  qed
  have "room_ok (start_next s)"
    by (rule room_okI [OF assms(1) m])
      (use next_m t assms in \<open>auto simp: start_next_def Let_def room_ok_def split: option.splits\<close>)
  with m show ?thesis by blast
qed

definition arrivals :: "room_event \<Rightarrow> message_event list" where
  "arrivals e = (case e of BusMessage m \<Rightarrow> [m] | Shutdown ms \<Rightarrow> ms | _ \<Rightarrow> [])"

definition goes_on :: "room_event \<Rightarrow> bool" where
  "goes_on e = (case e of Sorted stopping \<Rightarrow> \<not> stopping | Shutdown ms \<Rightarrow> False | _ \<Rightarrow> True)"

lemma ledger_same:
  "waiting_in s' = waiting_in s \<Longrightarrow> tracked s' = tracked s \<Longrightarrow> read_messages s' = read_messages s \<Longrightarrow> dropped s' = dropped s \<Longrightarrow>
     withdrawn s' = withdrawn s \<Longrightarrow> taken s' = taken s \<Longrightarrow> ledger_of s' = ledger_of s"
  by (simp add: ledger_of_def)

text \<open>A step that changes neither the ledger nor the channel's kinds.\<close>

lemma room_ok_same:
  "room_ok s \<Longrightarrow> ledger_of s' = ledger_of s \<Longrightarrow> tracked s' = tracked s \<Longrightarrow> no_agents (turn_channel s') \<Longrightarrow> leftover s' = leftover s \<Longrightarrow>
     (case phase s' of Ended t \<Rightarrow> True | _ \<Rightarrow> leftover s' = []) \<Longrightarrow> moves\<^sup>*\<^sup>* (ledger_of s) (ledger_of s') \<and> room_ok s'"
  by (simp add: room_ok_def)

lemma led_requests:
  "e i \<noteq> None \<Longrightarrow> e i \<noteq> Some Withdrawn \<Longrightarrow> moves (led W T ws e R D) (led (insert i W) T ws (e(i \<mapsto> Withdrawn)) R D)"
  "e i \<noteq> None \<Longrightarrow> e i \<noteq> Some Withdrawn \<Longrightarrow> moves (led W T ws e R D) (led W T ws (e(i \<mapsto> SendNow)) R D)"
  using is_withdrawn [of "led W T ws e R D" i] is_hurried [of "led W T ws e R D" i] by (auto simp: led_def)

lemma step_moves:
  assumes "room_ok s" "goes_on e" "list_all (\<lambda>m. event_id m \<notin> event_id ` set (taken s)) (arrivals e)"
  shows "moves\<^sup>*\<^sup>* (ledger_of s) (ledger_of (fst (room_step fresh s e))) \<and> room_ok (fst (room_step fresh s e))"
proof (cases e)
  case (BusMessage m)
  have id: "event_id m \<notin> event_id ` set (taken s)" using assms(3) by (simp add: BusMessage arrivals_def)
  show ?thesis
  proof (cases "phase s")
    case AtRest
    then show ?thesis using idle_message_moves [OF assms(1) id] assms(1) by (simp add: BusMessage)
  next
    case (Running t)
    then show ?thesis using mid_turn_message_moves [OF assms(1) id] assms(1) by (simp add: BusMessage)
  qed (use assms(1) in \<open>simp add: BusMessage\<close>)
next
  case Announced
  have "ledger_of (announce_arriving s) = ledger_of s"
    by (rule ledger_same) (auto simp: announce_arriving_def waiting_in_def split: option.split prod.split bool.split)
  then show ?thesis unfolding Announced room_step.simps fst_conv
    by (intro room_ok_same [OF assms(1)])
      (use assms(1) in \<open>auto simp: announce_arriving_def room_ok_def split: option.split prod.split bool.split phase.splits\<close>)
next
  case Sent
  have "ledger_of (send_arriving s) = ledger_of s"
    by (auto simp: send_arriving_def waiting_in_def ledger_of_def split: option.split prod.split bool.split)
  then show ?thesis unfolding Sent room_step.simps fst_conv
    by (intro room_ok_same [OF assms(1)])
      (use assms(1) in \<open>auto simp: send_arriving_def room_ok_def split: option.split prod.split bool.split phase.splits\<close>)
next
  case (FindingQueued c)
  have "ledger_of (fst (room_step fresh s e)) = ledger_of s"
    by (rule ledger_same) (auto simp: FindingQueued waiting_in_def split: phase.split)
  then show ?thesis
    by (intro room_ok_same [OF assms(1)]) (use assms(1) in \<open>auto simp: FindingQueued room_ok_def split: phase.splits\<close>)
next
  case StopQueued
  have "ledger_of (fst (room_step fresh s e)) = ledger_of s"
    by (rule ledger_same) (auto simp: StopQueued waiting_in_def split: phase.split)
  then show ?thesis
    by (intro room_ok_same [OF assms(1)]) (use assms(1) in \<open>auto simp: StopQueued room_ok_def split: phase.splits\<close>)
next
  case Checkpoint
  show ?thesis
  proof (cases "phase s")
    case (Running t)
    have "room_ok (checkpoint t s)"
      by (rule room_okI [OF assms(1)]) (use checkpoint_moves [OF assms(1)] assms(1) Running in \<open>auto simp: checkpoint_def room_ok_def split: prod.split\<close>)
    then show ?thesis using checkpoint_moves [OF assms(1)] assms(1) by (simp add: Checkpoint Running)
  qed (use assms(1) in \<open>simp_all add: Checkpoint\<close>)
next
  case TurnBreaks
  show ?thesis using leftovers_moves [OF assms(1)] assms(1) by (cases "phase s") (simp_all add: TurnBreaks)
next
  case (Sorted stopping)
  then have no: "\<not> stopping" using assms(2) by (simp add: goes_on_def)
  show ?thesis
  proof (cases "phase s")
    case (Ended t)
    have "ledger_of (say (Some (TurnEnded t)) s) = ledger_of s" by (rule ledger_same) (simp_all add: waiting_in_def)
    moreover from this have "room_ok (say (Some (TurnEnded t)) s)" using assms(1) by (simp add: room_ok_def Ended)
    ultimately show ?thesis using sorted_moves [of "say (Some (TurnEnded t)) s" fresh] no by (simp add: Sorted Ended)
  qed (use assms(1) in \<open>simp_all add: Sorted\<close>)
next
  case StartNext
  then show ?thesis using start_next_moves [OF assms(1)] assms(1) by simp
next
  case (Rerun t)
  have "ledger_of (fst (room_step fresh s e)) = ledger_of s" by (rule ledger_same) (auto simp: Rerun waiting_in_def)
  then show ?thesis
    by (intro room_ok_same [OF assms(1)]) (use assms(1) in \<open>auto simp: Rerun room_ok_def split: phase.splits\<close>)
next
  case (AskWithdraw i)
  obtain q b where t: "withdraw_queued i (tracked s) = (q, b)" by (meson surj_pair)
  have spec: "distinct (map fst q)" "b \<longleftrightarrow> map_of (tracked s) i \<noteq> None \<and> map_of (tracked s) i \<noteq> Some Withdrawn"
      "map_of q = (if b then (map_of (tracked s))(i \<mapsto> Withdrawn) else map_of (tracked s))"
    using withdraw_spec [OF t] assms(1) by (simp_all add: room_ok_def)
  show ?thesis
  proof (cases b)
    case True
    have "moves (ledger_of s) (ledger_of (fst (room_step fresh s e)))"
      using led_requests(1) [of "map_of (tracked s)" i] spec True
      by (simp add: AskWithdraw t ledger_of_def waiting_in_def)
    then have m: "moves\<^sup>*\<^sup>* (ledger_of s) (ledger_of (fst (room_step fresh s e)))" by (rule r_into_rtranclp)
    have "room_ok (fst (room_step fresh s e))"
      by (rule room_okI [OF assms(1) m]) (use assms(1) spec True in \<open>auto simp: AskWithdraw t room_ok_def split: phase.splits\<close>)
    with m show ?thesis by blast
  qed (use assms(1) t in \<open>simp add: AskWithdraw\<close>)
next
  case SayWithdrawn
  have "ledger_of (fst (room_step fresh s e)) = ledger_of s"
    by (rule ledger_same) (auto simp: SayWithdrawn waiting_in_def split: list.split)
  then show ?thesis
    by (intro room_ok_same [OF assms(1)]) (use assms(1) in \<open>auto simp: SayWithdrawn room_ok_def split: list.split phase.splits\<close>)
next
  case (AskSendNow i)
  obtain q b where t: "send_now i (tracked s) = (q, b)" by (meson surj_pair)
  have spec: "distinct (map fst q)" "b \<longleftrightarrow> map_of (tracked s) i \<noteq> None \<and> map_of (tracked s) i \<noteq> Some Withdrawn"
      "map_of q = (if b then (map_of (tracked s))(i \<mapsto> SendNow) else map_of (tracked s))"
    using send_now_spec [OF t] assms(1) by (simp_all add: room_ok_def)
  have m: "moves\<^sup>*\<^sup>* (ledger_of s) (ledger_of (fst (room_step fresh s e)))"
    using led_requests(2) [of "map_of (tracked s)" i] spec
    by (cases b) (auto simp: AskSendNow t ledger_of_def waiting_in_def)
  have "room_ok (fst (room_step fresh s e))"
    by (rule room_okI [OF assms(1) m]) (use assms(1) spec in \<open>auto simp: AskSendNow t room_ok_def split: phase.splits\<close>)
  with m show ?thesis by blast
next
  case (HopNoted i h)
  have "ledger_of (fst (room_step fresh s e)) = ledger_of s" by (rule ledger_same) (auto simp: HopNoted waiting_in_def)
  then show ?thesis
    by (intro room_ok_same [OF assms(1)]) (use assms(1) in \<open>auto simp: HopNoted room_ok_def split: phase.splits\<close>)
qed (use assms(2) in \<open>simp add: goes_on_def\<close>)

end
