(* ===== verification/Waiting_Room.thy ===== *)
theory Waiting_Room
  imports Waiting_Messages
begin

text \<open>
  What the main agent's waiting messages come to, over any run of \<open>Waiting_Messages.room_step\<close>: whatever requests, checkpoints
  and turns come in between, a message is read once or withdrawn, a request is answered by what still waits, pages show what waits,
  and a message that starts a turn of its own brings its own hop count.
\<close>

section \<open>Runs\<close>

definition room_run :: "fresh_ids \<Rightarrow> room_event list \<Rightarrow> room" where
  "room_run fresh es = fst (run_machine (room_step fresh) empty_room es)"

text \<open>Every message comes with an id of its own.\<close>

definition distinct_arrivals :: "room_event list \<Rightarrow> bool" where
  "distinct_arrivals es \<longleftrightarrow> distinct (map event_id (concat (map arrivals es)))"

lemma room_run_snoc: "room_run fresh (es @ [e]) = fst (room_step fresh (room_run fresh es) e)"
  by (simp add: room_run_def run_machine_append case_prod_unfold Let_def)

lemma taken_open [simp]:
  "taken (handle_idle_message m s) = (if belongs_to_main (event_origin m) then taken s @ [m] else taken s)"
  "taken (handle_mid_turn_message m s) = (if belongs_to_main (event_origin m) then taken s @ [m] else taken s)"
  by (simp_all add: handle_idle_message_def handle_mid_turn_message_def Let_def case_prod_unfold)

lemma taken_step: "set (taken (fst (room_step fresh s e))) \<subseteq> set (taken s) \<union> set (arrivals e)"
proof (cases e)
  case (BusMessage m)
  then show ?thesis by (auto simp: arrivals_def split: phase.split)
qed (auto simp: arrivals_def announce_arriving_def send_arriving_def checkpoint_def into_leftovers_def defer_late_messages_def
    process_leftover_interrupts_def inject_undelivered_def start_next_def shutdown_def Let_def
    split: phase.splits option.splits prod.splits bool.splits list.splits if_splits)

lemma taken_run: "set (taken (room_run fresh es)) \<subseteq> set (concat (map arrivals es))"
proof (induction es rule: rev_induct)
  case (snoc e es)
  then show ?case using taken_step [of fresh "room_run fresh es" e] by (auto simp: room_run_snoc)
qed (simp add: room_run_def empty_room_def)

lemma fresh_step:
  "distinct_arrivals (es @ [e]) \<Longrightarrow> list_all (\<lambda>m. event_id m \<notin> event_id ` set (taken (room_run fresh es))) (arrivals e)"
proof -
  assume d: "distinct_arrivals (es @ [e])"
  have "event_id m \<notin> event_id ` set (taken (room_run fresh es))" if "m \<in> set (arrivals e)" for m
  proof
    assume "event_id m \<in> event_id ` set (taken (room_run fresh es))"
    then have "event_id m \<in> event_id ` set (concat (map arrivals es))" using taken_run [of fresh es] by blast
    moreover have "event_id ` set (concat (map arrivals es)) \<inter> event_id ` set (arrivals e) = {}"
      using d unfolding distinct_arrivals_def map_append concat_append distinct_append set_map by simp
    ultimately show False using that by blast
  qed
  then show ?thesis by (simp add: list_all_iff)
qed

lemma empty_room_ok: "room_ok empty_room"
  by (simp add: room_ok_def empty_room_def ledger_of_def led_def waiting_in_def ledger_ok_def)

lemma run_ok:
  "list_all goes_on es \<Longrightarrow> distinct_arrivals es \<Longrightarrow>
     room_ok (room_run fresh es) \<and> moves\<^sup>*\<^sup>* (ledger_of empty_room) (ledger_of (room_run fresh es))"
proof (induction es rule: rev_induct)
  case Nil
  then show ?case using empty_room_ok by (simp add: room_run_def)
next
  case (snoc e es)
  have ih: "room_ok (room_run fresh es)" "moves\<^sup>*\<^sup>* (ledger_of empty_room) (ledger_of (room_run fresh es))"
    using snoc by (auto simp: distinct_arrivals_def)
  from step_moves [OF ih(1) _ fresh_step [OF snoc.prems(2)], of fresh] snoc.prems(1) ih(2) show ?case
    by (auto simp: room_run_snoc)
qed

text \<open>C6: The room with its channel, held, leftover and deferred messages implements the ledger, in which a message simply waits
  until it is read or, once withdrawn, dropped.\<close>

theorem room_implements_the_ledger:
  assumes "list_all goes_on es" "distinct_arrivals es"
  shows "moves\<^sup>*\<^sup>* (ledger_of empty_room) (ledger_of (room_run fresh es))"
  using run_ok [OF assms] by blast

text \<open>C5: While the agent is not stopping: every message for main is in exactly one place, waiting, read, or dropped. What was
  read is never what was withdrawn, and what was dropped always is.\<close>

theorem every_message_is_read_once_or_withdrawn:
  assumes "list_all goes_on es" "distinct_arrivals es"
  shows "length (filter (\<lambda>m. event_id m = i) (waiting_in (room_run fresh es) @ read_messages (room_run fresh es) @ dropped (room_run fresh es))) =
      (if i \<in> event_id ` set (taken (room_run fresh es)) then 1 else 0) \<and>
    list_all (\<lambda>m. event_id m \<notin> set (withdrawn (room_run fresh es))) (read_messages (room_run fresh es)) \<and>
    list_all (\<lambda>m. event_id m \<in> set (withdrawn (room_run fresh es))) (dropped (room_run fresh es))"
proof -
  let ?s = "room_run fresh es"
  have ok: "ledger_ok (ledger_of ?s)" using run_ok [OF assms] by (simp add: room_ok_def)
  have "size (filter_mset (\<lambda>m. event_id m = i) (everywhere (ledger_of ?s))) = (if i \<in> lg_taken (ledger_of ?s) then 1 else 0)"
    using ok unfolding ledger_ok_parts by blast
  moreover have "everywhere (ledger_of ?s) = mset (waiting_in ?s @ read_messages ?s @ dropped ?s)"
    by (simp add: everywhere_def ledger_of_def led_def)
  ultimately have "length (filter (\<lambda>m. event_id m = i) (waiting_in ?s @ read_messages ?s @ dropped ?s)) =
      (if i \<in> event_id ` set (taken ?s) then 1 else 0)"
    by (metis (no_types, lifting) ledger.select_convs(6) ledger_of_def led_def mset_filter size_mset)
  moreover have "event_id m \<notin> set (withdrawn ?s)" if "m \<in> set (read_messages ?s)" for m
    using withdrawn_not_read [OF ok, of m] that by (simp add: ledger_of_def led_def)
  moreover have "event_id m \<in> set (withdrawn ?s)" if "m \<in> set (dropped ?s)" for m
    using ok that by (auto simp: ledger_ok_def Let_def ledger_of_def led_def)
  ultimately show ?thesis by (simp add: list_all_iff)
qed

text \<open>A request to withdraw a message is granted exactly when the message, a person's, still waits and was not withdrawn
  before.\<close>

theorem withdraw_answers_by_what_waits:
  assumes "list_all goes_on es" "distinct_arrivals es"
  shows "snd (room_step fresh (room_run fresh es) (AskWithdraw i)) =
    Some (list_ex (\<lambda>m. event_id m = i \<and> is_from_person (event_origin m)) (waiting_in (room_run fresh es)) \<and>
      i \<notin> set (withdrawn (room_run fresh es)))"
proof -
  let ?s = "room_run fresh es"
  have ok: "ledger_ok (ledger_of ?s)" "distinct (map fst (tracked ?s))" using run_ok [OF assms] by (simp_all add: room_ok_def)
  obtain q b where t: "withdraw_queued i (tracked ?s) = (q, b)" by (meson surj_pair)
  have b: "b \<longleftrightarrow> map_of (tracked ?s) i \<noteq> None \<and> map_of (tracked ?s) i \<noteq> Some Withdrawn"
    using withdraw_spec [OF t ok(2)] by blast
  have waits: "map_of (tracked ?s) i \<noteq> None \<longleftrightarrow> (\<exists>m\<in>set (waiting_in ?s). event_id m = i \<and> is_from_person (event_origin m))"
    using ok(1) unfolding ledger_ok_parts ledger_of_def led_def ledger.select_convs by (metis set_mset_mset)
  have w: "i \<in> set (withdrawn ?s) \<longleftrightarrow> map_of (tracked ?s) i = Some Withdrawn \<or> (\<exists>m\<in>set (dropped ?s). event_id m = i)"
    using ok(1) unfolding ledger_ok_parts ledger_of_def led_def ledger.select_convs by (metis set_mset_mset)
  have "\<not> (\<exists>m\<in>set (dropped ?s). event_id m = i)" if "map_of (tracked ?s) i \<noteq> None"
  proof -
    have "\<exists>m\<in>set (waiting_in ?s). event_id m = i \<and> is_from_person (event_origin m)" using iffD1 [OF waits that] .
    then obtain m where "m \<in> set (waiting_in ?s)" "event_id m = i" by blast
    then show ?thesis using elsewhere(2) [OF ok(1), of m] by (auto simp: ledger_of_def led_def)
  qed
  with b waits w have "b \<longleftrightarrow> (\<exists>m\<in>set (waiting_in ?s). event_id m = i \<and> is_from_person (event_origin m)) \<and> i \<notin> set (withdrawn ?s)"
    by blast
  then show ?thesis by (simp add: t list_ex_iff)
qed


section \<open>Concrete runs\<close>

text \<open>Three messages of a person: the first starts a turn, the other two arrive in it; the second is withdrawn, the third is to
  be sent now, so the checkpoint holds it and it starts the next turn.\<close>

definition sample_note :: "nat \<Rightarrow> message_event" where
  "sample_note n = sample_event\<lparr>event_id := [n], event_origin := (event_origin sample_event)\<lparr>origin_conversation := None\<rparr>\<rparr>"

definition sample_fresh :: fresh_ids where "sample_fresh a = ([57], 0)"

definition sample_day :: "room_event list" where
  "sample_day = [BusMessage (sample_note 1), HopNoted [2] 3, BusMessage (sample_note 2), Announced, Sent, BusMessage (sample_note 3), Announced, Sent,
     AskWithdraw [2], AskSendNow [3], SayWithdrawn, Checkpoint, TurnBreaks, Sorted False]"

lemma sample_day_ok: "list_all goes_on sample_day" "distinct_arrivals sample_day"
  by code_simp+

lemma room_implements_the_ledger_witness:
  "moves\<^sup>*\<^sup>* (ledger_of empty_room) (ledger_of (room_run sample_fresh sample_day)) \<and>
   map event_id (deferred (room_run sample_fresh sample_day)) = [[3]]"
  using room_implements_the_ledger [OF sample_day_ok, of sample_fresh] by (rule conjI) code_simp

lemma every_message_is_read_once_or_withdrawn_witness:
  "length (filter (\<lambda>m. event_id m = [2]) (waiting_in (room_run sample_fresh sample_day) @ read_messages (room_run sample_fresh sample_day) @
      dropped (room_run sample_fresh sample_day))) = 1 \<and>
   map event_id (read_messages (room_run sample_fresh sample_day)) = [[1]] \<and> map event_id (dropped (room_run sample_fresh sample_day)) = [[2]]"
proof -
  have "[2] \<in> event_id ` set (taken (room_run sample_fresh sample_day))"
    "map event_id (read_messages (room_run sample_fresh sample_day)) = [[1]]"
    "map event_id (dropped (room_run sample_fresh sample_day)) = [[2]]" by code_simp+
  with every_message_is_read_once_or_withdrawn [OF sample_day_ok, of "[2]" sample_fresh] show ?thesis by metis
qed

lemma withdraw_answers_by_what_waits_witness:
  "snd (room_step sample_fresh (room_run sample_fresh sample_day) (AskWithdraw [2])) = Some False \<and>
   snd (room_step sample_fresh (room_run sample_fresh sample_day) (AskWithdraw [3])) = Some True"
proof -
  let ?s = "room_run sample_fresh sample_day"
  have no: "\<not> (list_ex (\<lambda>m. event_id m = [2] \<and> is_from_person (event_origin m)) (waiting_in ?s) \<and> [2] \<notin> set (withdrawn ?s))" by code_simp
  have yes: "list_ex (\<lambda>m. event_id m = [3] \<and> is_from_person (event_origin m)) (waiting_in ?s) \<and> [3] \<notin> set (withdrawn ?s)" by code_simp
  show ?thesis
    using withdraw_answers_by_what_waits [OF sample_day_ok, of sample_fresh "[2]"] no
      withdraw_answers_by_what_waits [OF sample_day_ok, of sample_fresh "[3]"] yes by simp
qed

section \<open>What goes first\<close>

lemma find_position: "find P xs = (case position P xs of Some k \<Rightarrow> Some (xs ! k) | None \<Rightarrow> None)"
  by (induction xs) (auto split: option.split)

lemma is_send_now_map: "distinct (map fst q) \<Longrightarrow> is_send_now i q \<longleftrightarrow> map_of q i = Some SendNow"
  by (auto simp: is_send_now_def list_ex_iff intro: bexI [of _ "(i, SendNow)"])

lemma find_same: "(\<And>x. x \<in> set xs \<Longrightarrow> P x \<longleftrightarrow> Q x) \<Longrightarrow> find P xs = find Q xs"
  by (induction xs) auto

text \<open>Of the messages left when a turn has ended, the first to be sent now starts the next one; with none of those, the oldest not
  withdrawn.\<close>

theorem send_now_goes_first:
  assumes "distinct (map event_id ms)" "distinct (map fst q)"
  shows "fst (next_deferred ms q) =
    (case find (\<lambda>m. map_of q (event_id m) = Some SendNow) ms of
       Some m \<Rightarrow> Some m
     | None \<Rightarrow> find (\<lambda>m. map_of q (event_id m) \<noteq> Some Withdrawn) ms)"
  using assms
proof (induction "length ms" arbitrary: ms q)
  case 0
  then show ?case by (simp add: next_deferred.simps)
next
  case (Suc n)
  then obtain m ms' where ms: "ms = m # ms'" by (cases ms) auto
  have find_now: "find (\<lambda>m. map_of q (event_id m) = Some SendNow) ms =
      (case position (\<lambda>m. is_send_now (event_id m) q) ms of Some k \<Rightarrow> Some (ms ! k) | None \<Rightarrow> None)"
    using is_send_now_map [OF Suc.prems(2)] by (simp add: find_position)
  show ?case
  proof (cases "position (\<lambda>m. is_send_now (event_id m) q) ms")
    case (Some k)
    obtain b q' where c: "claim_turn_start (event_id (ms ! k)) q = (b, q')" by (meson surj_pair)
    have "map_of q (event_id (ms ! k)) = Some SendNow"
      using position_Some [OF Some] is_send_now_map [OF Suc.prems(2)] by simp
    then have b using claim_turn_start_spec [OF c Suc.prems(2)] by simp
    moreover have "next_index ms q = k" "ms \<noteq> []" using Some by (simp_all add: next_index_def ms)
    ultimately show ?thesis unfolding find_now using c Some by (simp add: next_deferred.simps [of ms])
  next
    case None
    obtain b q' where c: "claim_turn_start (event_id m) q = (b, q')" by (meson surj_pair)
    note spec = claim_turn_start_spec [OF c Suc.prems(2)]
    have now: "find (\<lambda>m. map_of q (event_id m) = Some SendNow) ms = None" unfolding find_now None by simp
    have unfold_next: "fst (next_deferred ms q) = (if b then Some m else fst (next_deferred ms' q'))"
    proof -
      have "next_index ms q = 0" "ms \<noteq> []" "ms ! 0 = m" "remove_at 0 ms = ms'"
        using None by (simp_all add: next_index_def ms remove_at_def)
      then show ?thesis using c by (simp add: next_deferred.simps [of ms] split: prod.split)
    qed
    show ?thesis
    proof (cases b)
      case True
      then show ?thesis using unfold_next now spec by (simp add: ms)
    next
      case False
      have same: "map_of q' (event_id x) = map_of q (event_id x)" if "x \<in> set ms'" for x
      proof -
        have "event_id x \<noteq> event_id m" using Suc.prems(1) that by (auto simp: ms image_iff)
        then show ?thesis using spec by simp
      qed
      have "fst (next_deferred ms' q') =
          (case find (\<lambda>m. map_of q' (event_id m) = Some SendNow) ms' of
             Some m \<Rightarrow> Some m
           | None \<Rightarrow> find (\<lambda>m. map_of q' (event_id m) \<noteq> Some Withdrawn) ms')"
        using Suc.hyps Suc.prems spec by (intro Suc.hyps(1)) (simp_all add: ms)
      also have "find (\<lambda>m. map_of q' (event_id m) = Some SendNow) ms' = find (\<lambda>m. map_of q (event_id m) = Some SendNow) ms'"
        by (rule find_same) (simp add: same)
      also have "\<dots> = None" using now by (simp add: ms split: if_splits)
      also have "find (\<lambda>m. map_of q' (event_id m) \<noteq> Some Withdrawn) ms' = find (\<lambda>m. map_of q (event_id m) \<noteq> Some Withdrawn) ms'"
        by (rule find_same) (simp add: same)
      finally show ?thesis using unfold_next now False spec by (simp add: ms)
    qed
  qed
qed

lemma send_now_goes_first_witness:
  "map_option event_id (fst (next_deferred [sample_note 1, sample_note 2, sample_note 3] [([1], Withdrawn), ([2], Queued), ([3], SendNow)])) = Some [3]"
  using send_now_goes_first [of "[sample_note 1, sample_note 2, sample_note 3]" "[([1], Withdrawn), ([2], Queued), ([3], SendNow)]"]
  by (simp add: sample_note_def)

end
