(* ===== verification/Waiting_Pages.thy ===== *)
theory Waiting_Pages
  imports Waiting_Room
begin

text \<open>
  What the pages show of the waiting messages: the journal (\<open>Turn_Journal\<close>) fed with the events the room publishes
  (\<open>Waiting_Room\<close>) lists the messages that wait and are not withdrawn, so long as no message is withdrawn before it was announced.
\<close>

section \<open>The list a page sees\<close>

definition listed :: "room \<Rightarrow> ustring set" where
  "listed s = queued_id ` set (fold record_queued (published s) [])"

definition relisted :: "conversation_event option \<Rightarrow> ustring set \<Rightarrow> ustring set" where
  "relisted e S =
     (case e of
        Some (MessageQueued m) \<Rightarrow> insert (queued_id m) S
      | Some (MessageWithdrawn i) \<Rightarrow> S - {i}
      | Some (UserMessageRead t m a) \<Rightarrow> S - {queued_id m}
      | _ \<Rightarrow> S)"

lemma relisted_simps [simp]:
  "relisted None S = S" "relisted (Some (MessageWithdrawn i)) S = S - {i}" "relisted (Some (TurnStarted t g)) S = S"
  "relisted (Some (TurnEnded t)) S = S"
  by (simp_all add: relisted_def)

lemma listed_say [simp]: "listed (say e s) = relisted e (listed s)"
  by (auto simp: listed_def relisted_def say_def record_queued_def list_ex_iff split: option.split conversation_event.split
    intro: rev_image_eqI)

lemma listed_same: "published s' = published s \<Longrightarrow> listed s' = listed s"
  by (simp add: listed_def)

text \<open>Reading takes a person's message off the list, announcing puts it on.\<close>

definition from_people :: "message_event list \<Rightarrow> ustring set" where
  "from_people ms = {event_id m | m. m \<in> set ms \<and> is_from_person (event_origin m)}"

lemma from_people_simps [simp]:
  "from_people [] = {}" "from_people (ms @ ms') = from_people ms \<union> from_people ms'"
  "from_people (m # ms) = (if is_from_person (event_origin m) then insert (event_id m) (from_people ms) else from_people ms)"
  by (auto simp: from_people_def)

lemma relisted_read:
  "\<not> is_from_person (event_origin m) \<longrightarrow> event_id m \<notin> S \<Longrightarrow> relisted (user_message_event m t) S = S - {event_id m}"
  by (auto simp: user_message_event_def relisted_def queued_of_def)

lemma listed_reads:
  "\<forall>m\<in>set ms. \<not> is_from_person (event_origin m) \<longrightarrow> event_id m \<notin> listed s \<Longrightarrow>
     listed (fold (\<lambda>m. say (user_message_event m t)) ms s) = listed s - event_id ` set ms"
proof (induction ms arbitrary: s)
  case (Cons m ms)
  then have "listed (say (user_message_event m t) s) = listed s - {event_id m}" by (simp add: relisted_read)
  with Cons show ?case by auto
qed simp

lemma relisted_announced:
  "relisted (message_queued_event m) S = (if is_from_person (event_origin m) then insert (event_id m) S else S)"
  by (simp add: message_queued_event_def relisted_def queued_of_def)

section \<open>The list and the room\<close>

text \<open>Every message for main so far, and the one tracked but not yet announced.\<close>

definition messages_seen :: "room \<Rightarrow> message_event list" where
  "messages_seen s = waiting_in s @ read_messages s @ dropped s"

definition unsaid :: "room \<Rightarrow> ustring set" where
  "unsaid s = (case arriving s of Some (m, h, False) \<Rightarrow> {event_id m} | _ \<Rightarrow> {})"

definition pages_ok :: "room \<Rightarrow> bool" where
  "pages_ok s \<longleftrightarrow>
     listed s = (from_people (messages_seen s) - event_id ` set (read_messages s) - set (withdrawn s) - unsaid s) \<union> set (unannounced s) \<and>
     set (unannounced s) \<subseteq> set (withdrawn s) \<and> distinct (unannounced s) \<and> unsaid s \<inter> set (withdrawn s) = {}"

lemma everywhere_seen: "everywhere (ledger_of s) = mset (messages_seen s)"
  by (simp add: everywhere_def ledger_of_def led_def messages_seen_def)

lemma moves_everywhere:
  "moves a b \<Longrightarrow> ledger_ok a \<Longrightarrow> everywhere b = everywhere a \<and> lg_taken b = lg_taken a \<or> lg_taken a \<subset> lg_taken b"
  by (induction rule: moves.induct) (auto simp: everywhere_def)

lemma moves_star_everywhere:
  "moves\<^sup>*\<^sup>* a b \<Longrightarrow> ledger_ok a \<Longrightarrow> everywhere b = everywhere a \<and> lg_taken b = lg_taken a \<or> lg_taken a \<subset> lg_taken b"
proof (induction rule: rtranclp_induct)
  case (step b c)
  then show ?case using moves_everywhere [OF step.hyps(2)] moves_star_ok [OF step.hyps(1)] by auto
qed simp

lemma same_messages:
  assumes "room_ok s" "goes_on e" "arrivals e = []" "taken (fst (room_step fresh s e)) = taken s"
  shows "set (messages_seen (fst (room_step fresh s e))) = set (messages_seen s)"
proof -
  have "moves\<^sup>*\<^sup>* (ledger_of s) (ledger_of (fst (room_step fresh s e)))"
    using step_moves [OF assms(1,2), of fresh] assms(3) by simp
  from moves_star_everywhere [OF this] assms(1,4) have "everywhere (ledger_of (fst (room_step fresh s e))) = everywhere (ledger_of s)"
    by (simp add: room_ok_def ledger_of_def led_def)
  then show ?thesis unfolding everywhere_seen by (rule mset_eq_setD)
qed

lemma from_people_set: "set ms = set ms' \<Longrightarrow> from_people ms = from_people ms'"
  by (simp add: from_people_def)

text \<open>A message that was read is on no list: it was not withdrawn, and no other has its id.\<close>

lemma read_not_withdrawn: "room_ok s \<Longrightarrow> m \<in> set (read_messages s) \<Longrightarrow> event_id m \<notin> set (withdrawn s)"
  using withdrawn_not_read [of "ledger_of s" m] by (simp add: room_ok_def ledger_of_def led_def)

lemma same_id_same_message:
  assumes "room_ok s" "m \<in> set (messages_seen s)" "m' \<in> set (messages_seen s)" "event_id m = event_id m'"
  shows "m = m'"
proof (rule ccontr)
  assume ne: "m \<noteq> m'"
  have "m \<in># everywhere (ledger_of s)" "m' \<in># everywhere (ledger_of s) - {#m#}"
    using assms(2,3) ne by (simp_all add: everywhere_seen in_diff_count)
  then show False using one_place [of "ledger_of s" m m'] assms(1,4) by (simp add: room_ok_def)
qed

lemma agents_not_listed:
  assumes "room_ok s'" "m \<in> set (read_messages s')" "\<not> is_from_person (event_origin m)" "set (messages_seen s') = set (messages_seen s)"
    "withdrawn s' = withdrawn s" "pages_ok s"
  shows "event_id m \<notin> listed s"
proof
  assume "event_id m \<in> listed s"
  then have "event_id m \<in> from_people (messages_seen s') \<union> set (withdrawn s')"
    using assms(4,5,6) from_people_set [OF assms(4)] unfolding pages_ok_def by auto
  then obtain m' where "m' \<in> set (messages_seen s')" "event_id m' = event_id m" "is_from_person (event_origin m')"
    using read_not_withdrawn [OF assms(1,2)] by (auto simp: from_people_def)
  moreover have "m \<in> set (messages_seen s')" using assms(2) by (simp add: messages_seen_def)
  ultimately show False using same_id_same_message [OF assms(1), of m m'] assms(3) by simp
qed

text \<open>A step that reads the messages \<open>ms\<close> and changes no request keeps the pages right.\<close>

lemma reading_keeps_pages:
  assumes "pages_ok s" "room_ok s'" "set (messages_seen s') = set (messages_seen s)" "read_messages s' = read_messages s @ ms"
    and "withdrawn s' = withdrawn s" "unannounced s' = unannounced s" "unsaid s' = unsaid s"
    and "(\<forall>m\<in>set ms. \<not> is_from_person (event_origin m) \<longrightarrow> event_id m \<notin> listed s) \<Longrightarrow> listed s' = listed s - event_id ` set ms"
  shows "pages_ok s'"
proof -
  have "listed s' = listed s - event_id ` set ms"
    using agents_not_listed [OF assms(2) _ _ assms(3,5,1)] assms(4) by (intro assms(8)) auto
  moreover have "event_id ` set ms \<inter> set (unannounced s) = {}"
    using read_not_withdrawn [OF assms(2)] assms(1,4,5) by (fastforce simp: pages_ok_def)
  ultimately show ?thesis using assms(1) from_people_set [OF assms(3)] by (auto simp: pages_ok_def assms(4-7))
qed


lemma pages_ok_same:
  "pages_ok s \<Longrightarrow> published s' = published s \<Longrightarrow> set (messages_seen s') = set (messages_seen s) \<Longrightarrow> read_messages s' = read_messages s \<Longrightarrow>
     withdrawn s' = withdrawn s \<Longrightarrow> unannounced s' = unannounced s \<Longrightarrow> unsaid s' = unsaid s \<Longrightarrow> pages_ok s'"
  using listed_same [of s' s] from_people_set [of "messages_seen s'" "messages_seen s"] by (simp add: pages_ok_def)

lemma fresh_id:
  assumes "room_ok s" "event_id m \<notin> event_id ` set (taken s)"
  shows "event_id m \<notin> event_id ` set (messages_seen s)" "event_id m \<notin> set (withdrawn s)"
proof -
  have ok: "ledger_ok (ledger_of s)" using assms(1) by (simp add: room_ok_def)
  have "event_id m' \<in> event_id ` set (taken s)" if "m' \<in> set (messages_seen s)" for m'
    using taken_everywhere [OF ok, of m'] that unfolding everywhere_seen by (simp add: ledger_of_def led_def)
  then show seen: "event_id m \<notin> event_id ` set (messages_seen s)" using assms(2) by force
  show "event_id m \<notin> set (withdrawn s)"
  proof
    assume "event_id m \<in> set (withdrawn s)"
    then have "map_of (tracked s) (event_id m) = Some Withdrawn \<or> (\<exists>m'\<in>set (dropped s). event_id m' = event_id m)"
      using ok unfolding ledger_ok_parts ledger_of_def led_def ledger.select_convs by (metis set_mset_mset)
    then show False using unknown_id [OF ok assms(2)] seen by (force simp: messages_seen_def)
  qed
qed

lemma fresh_not_listed:
  assumes "room_ok s" "pages_ok s" "event_id m \<notin> event_id ` set (taken s)"
  shows "event_id m \<notin> listed s" "event_id m \<notin> from_people (messages_seen s)"
  using fresh_id [OF assms(1,3)] assms(2) by (auto simp: pages_ok_def from_people_def)

lemma listed_open: "listed (open_turn m s) = relisted (user_message_event m (event_id m)) (listed s)"
proof -
  have "listed (open_turn m s) =
    listed (say (Some (TurnStarted (event_id m) (turn_origin_of (event_origin m)
      (if origin_endpoint (event_origin m) = BACKGROUND_ENDPOINT then InBackground else VisibleToUser))))
      (say (user_message_event m (event_id m)) s))"
    by (rule listed_same) (simp add: open_turn_def Let_def case_prod_unfold)
  then show ?thesis by simp
qed

lemma unannounced_say [simp]: "unannounced (say e s) = unannounced s"
  by (simp add: say_def split: option.split)

lemma open_fields [simp]:
  "waiting_in (open_turn m s) = waiting_in s" "read_messages (open_turn m s) = read_messages s @ [m]" "dropped (open_turn m s) = dropped s"
  "withdrawn (open_turn m s) = withdrawn s" "unannounced (open_turn m s) = unannounced s" "arriving (open_turn m s) = arriving s"
  by (simp_all add: open_turn_def Let_def case_prod_unfold waiting_in_def)

lemma idle_message_pages:
  assumes "room_ok s" "pages_ok s" "event_id m \<notin> event_id ` set (taken s)"
  shows "pages_ok (handle_idle_message m s)"
proof (cases "belongs_to_main (event_origin m)")
  case True
  let ?s = "s\<lparr>taken := taken s @ [m], carried := (carried s)(event_id m := snd (take_main_hop (event_id m) (messenger s)))\<rparr>"
  have "listed ?s = listed s" by (rule listed_same) simp
  then have "listed (handle_idle_message m s) = listed s"
    using fresh_not_listed(1) [OF assms] by (simp add: handle_idle_message_def True listed_open relisted_read)
  moreover have "waiting_in ?s = waiting_in s" "unsaid (open_turn m ?s) = unsaid s"
    by (simp_all add: waiting_in_def unsaid_def)
  ultimately show ?thesis
    using assms(2) fresh_not_listed [OF assms] by (auto simp: pages_ok_def handle_idle_message_def True messages_seen_def)
next
  case False
  have "handle_idle_message m s = s\<lparr>routed := routed s @ [m]\<rparr>" using False by (simp add: handle_idle_message_def)
  then show ?thesis using assms(2) by (intro pages_ok_same [OF assms(2)]) (simp_all add: messages_seen_def waiting_in_def unsaid_def)
qed

lemma mid_turn_message_pages:
  assumes "room_ok s" "pages_ok s" "event_id m \<notin> event_id ` set (taken s)" "arriving s = None"
  shows "pages_ok (handle_mid_turn_message m s)"
proof (cases "belongs_to_main (event_origin m)")
  case True
  let ?s = "handle_mid_turn_message m s"
  have "listed ?s = listed s"
    by (rule listed_same) (simp add: handle_mid_turn_message_def True Let_def case_prod_unfold)
  moreover have "from_people (messages_seen ?s) = from_people [m] \<union> from_people (messages_seen s)" "unsaid ?s = {event_id m}" "unsaid s = {}"
    "read_messages ?s = read_messages s" "withdrawn ?s = withdrawn s" "unannounced ?s = unannounced s"
    using assms(4) by (auto simp: handle_mid_turn_message_def True Let_def case_prod_unfold messages_seen_def waiting_in_def unsaid_def)
  ultimately show ?thesis using assms(2) fresh_not_listed [OF assms(1-3)] fresh_id(2) [OF assms(1,3)] by (auto simp: pages_ok_def)
next
  case False
  have "handle_mid_turn_message m s = s\<lparr>routed := routed s @ [m]\<rparr>" using False by (simp add: handle_mid_turn_message_def)
  then show ?thesis using assms(2) by (intro pages_ok_same [OF assms(2)]) (simp_all add: messages_seen_def waiting_in_def unsaid_def)
qed

lemma start_next_pages:
  assumes "room_ok s" "pages_ok s" "phase s = AtRest"
  shows "pages_ok (start_next s)"
proof -
  obtain r ms q d where t: "next_deferred (deferred s) (tracked s) = (r, ms, q, d)" by (metis prod_cases4)
  let ?s = "s\<lparr>deferred := ms, tracked := q, dropped := dropped s @ d\<rparr>"
  have start: "start_next s = (case r of Some m \<Rightarrow> open_turn m ?s | None \<Rightarrow> ?s)" by (simp add: start_next_def t Let_def)
  have seen: "set (messages_seen (start_next s)) = set (messages_seen s)"
    using same_messages [OF assms(1), of StartNext] assms(3) start by (auto simp: goes_on_def arrivals_def open_turn_def Let_def case_prod_unfold split: option.splits)
  have ok: "room_ok (start_next s)" using start_next_moves [OF assms(1,3)] by blast
  have same: "listed ?s = listed s" by (rule listed_same) simp
  show ?thesis
  proof (rule reading_keeps_pages [OF assms(2) ok seen, of "opt_list r"])
    assume unlisted: "\<forall>m\<in>set (opt_list r). \<not> is_from_person (event_origin m) \<longrightarrow> event_id m \<notin> listed s"
    then show "listed (start_next s) = listed s - event_id ` set (opt_list r)"
      using same by (cases r) (auto simp: start opt_list_def listed_open relisted_read)
  qed (cases r; simp add: start opt_list_def unsaid_def)+
qed

lemma checkpoint_pages:
  assumes "room_ok s" "pages_ok s" "phase s = Running t" "arriving s = None"
  shows "pages_ok (checkpoint t s)"
proof -
  obtain js q h d where d: "drain_channel (turn_channel s) (tracked s) (held_back s) [] = (js, q, h, d)" by (metis prod_cases4)
  let ?s = "s\<lparr>turn_channel := [], tracked := q, held_back := h, dropped := dropped s @ d, read_messages := read_messages s @ messages_of js\<rparr>"
  have c: "checkpoint t s = fold (\<lambda>m. say (user_message_event m t)) (messages_of js) ?s" by (simp add: checkpoint_def d)
  have step: "fst (room_step fresh s Checkpoint) = checkpoint t s" for fresh using assms(3,4) by simp
  have seen: "set (messages_seen (checkpoint t s)) = set (messages_seen s)"
    using same_messages [OF assms(1), of Checkpoint] step by (simp add: goes_on_def arrivals_def c)
  have ok: "room_ok (checkpoint t s)"
    using step_moves [OF assms(1), of Checkpoint] step by (simp add: goes_on_def arrivals_def)
  have same: "listed ?s = listed s" by (rule listed_same) simp
  show ?thesis
  proof (rule reading_keeps_pages [OF assms(2) ok seen, of "messages_of js"])
    assume "\<forall>m\<in>set (messages_of js). \<not> is_from_person (event_origin m) \<longrightarrow> event_id m \<notin> listed s"
    then show "listed (checkpoint t s) = listed s - event_id ` set (messages_of js)"
      using listed_reads [of "messages_of js" ?s t] same by (simp add: c)
  qed (simp_all add: c unsaid_def)
qed


section \<open>Every step keeps the pages right\<close>

text \<open>A page can ask for a message only once it was announced.\<close>

definition asks_after_announcement :: "room \<Rightarrow> room_event \<Rightarrow> bool" where
  "asks_after_announcement s e = (case e of AskWithdraw i \<Rightarrow> i \<notin> unsaid s | _ \<Rightarrow> True)"

lemma announced_pages:
  assumes "room_ok s" "pages_ok s"
  shows "pages_ok (announce_arriving s)"
proof (cases "\<exists>m h. arriving s = Some (m, h, False)")
  case True
  then obtain m h where a: "arriving s = Some (m, h, False)" by blast
  let ?s = "announce_arriving s"
  have s': "?s = (say (message_queued_event m) s)\<lparr>arriving := Some (m, h, True)\<rparr>" by (simp add: announce_arriving_def a)
  have "listed ?s = listed (say (message_queued_event m) s)" by (rule listed_same) (simp add: s')
  then have listed: "listed ?s = (if is_from_person (event_origin m) then insert (event_id m) (listed s) else listed s)"
    by (simp add: relisted_announced)
  have waits: "m \<in> set (waiting_in s)" by (simp add: waiting_in_def a)
  have ok: "ledger_ok (ledger_of s)" using assms(1) by (simp add: room_ok_def)
  have "event_id m \<notin> event_id ` set (read_messages s)"
    using elsewhere(3) [OF ok, of m] waits by (force simp: ledger_of_def led_def)
  moreover have "m \<in> set (messages_seen s)" using waits by (simp add: messages_seen_def)
  then have "event_id m \<in> from_people (messages_seen s) \<longleftrightarrow> is_from_person (event_origin m)"
    using same_id_same_message [OF assms(1), of m] by (auto simp: from_people_def)
  moreover have "messages_seen ?s = messages_seen s" "read_messages ?s = read_messages s" "withdrawn ?s = withdrawn s"
    "unannounced ?s = unannounced s" "unsaid ?s = {}" "unsaid s = {event_id m}"
    by (simp_all add: s' messages_seen_def waiting_in_def a unsaid_def)
  ultimately show ?thesis using assms(2) listed by (auto simp: pages_ok_def)
next
  case False
  then have "announce_arriving s = s" by (auto simp: announce_arriving_def split: option.split prod.split bool.split)
  then show ?thesis using assms(2) by simp
qed

lemma ask_withdraw_pages:
  assumes "room_ok s" "pages_ok s" "i \<notin> unsaid s"
  shows "pages_ok (fst (room_step fresh s (AskWithdraw i)))"
proof -
  obtain q b where t: "withdraw_queued i (tracked s) = (q, b)" by (meson surj_pair)
  show ?thesis
  proof (cases b)
    case False
    then show ?thesis using assms(2) by (simp add: t)
  next
    case True
    let ?s = "fst (room_step fresh s (AskWithdraw i))"
    have s': "?s = s\<lparr>tracked := q, withdrawn := withdrawn s @ [i], unannounced := unannounced s @ [i]\<rparr>" using True by (simp add: t)
    have ok: "ledger_ok (ledger_of s)" "distinct (map fst (tracked s))" using assms(1) by (simp_all add: room_ok_def)
    have e: "map_of (tracked s) i \<noteq> None" "map_of (tracked s) i \<noteq> Some Withdrawn" using withdraw_spec [OF t ok(2)] True by simp_all
    have "\<exists>m\<in>set (waiting_in s). event_id m = i \<and> is_from_person (event_origin m)"
      using e(1) ok(1) unfolding ledger_ok_parts ledger_of_def led_def ledger.select_convs by (metis set_mset_mset)
    then obtain m where m: "m \<in> set (waiting_in s)" "event_id m = i" "is_from_person (event_origin m)" by blast
    have other: "i \<notin> event_id ` set (read_messages s)" "i \<notin> event_id ` set (dropped s)"
      using elsewhere(2,3) [OF ok(1), of m] m by (force simp: ledger_of_def led_def)+
    have "i \<notin> set (withdrawn s)"
    proof
      assume "i \<in> set (withdrawn s)"
      then have "map_of (tracked s) i = Some Withdrawn \<or> (\<exists>m'\<in>set (dropped s). event_id m' = i)"
        using ok(1) unfolding ledger_ok_parts ledger_of_def led_def ledger.select_convs by (metis set_mset_mset)
      then show False using e(2) other(2) by force
    qed
    moreover have "i \<in> from_people (messages_seen s)" using m by (auto simp: from_people_def messages_seen_def)
    moreover have "listed ?s = listed s" unfolding s' by (rule listed_same) simp
    moreover have "messages_seen ?s = messages_seen s" "unsaid ?s = unsaid s" "read_messages ?s = read_messages s"
      "withdrawn ?s = withdrawn s @ [i]" "unannounced ?s = unannounced s @ [i]"
      unfolding s' by (simp_all add: messages_seen_def waiting_in_def unsaid_def)
    ultimately show ?thesis using assms(2,3) other(1) by (auto simp: pages_ok_def)
  qed
qed

lemma say_withdrawn_pages:
  assumes "pages_ok s"
  shows "pages_ok (fst (room_step fresh s SayWithdrawn))"
proof (cases "unannounced s")
  case (Cons i "is")
  let ?s = "fst (room_step fresh s SayWithdrawn)"
  have s': "?s = (say (Some (MessageWithdrawn i)) s)\<lparr>unannounced := is\<rparr>" by (simp add: Cons)
  have "listed ?s = listed (say (Some (MessageWithdrawn i)) s)" unfolding s' by (rule listed_same) simp
  moreover have "messages_seen ?s = messages_seen s" "unsaid ?s = unsaid s" "read_messages ?s = read_messages s"
      "withdrawn ?s = withdrawn s" "unannounced ?s = is"
    unfolding s' by (simp_all add: messages_seen_def waiting_in_def unsaid_def)
  ultimately show ?thesis using assms Cons by (auto simp: pages_ok_def)
qed (use assms in simp)

lemma pages_step:
  assumes "room_ok s" "pages_ok s" "goes_on e" "asks_after_announcement s e"
    "list_all (\<lambda>m. event_id m \<notin> event_id ` set (taken s)) (arrivals e)"
  shows "pages_ok (fst (room_step fresh s e))"
proof -
  have quiet: ?thesis if "arrivals e = []" "taken (fst (room_step fresh s e)) = taken s" "published (fst (room_step fresh s e)) = published s"
    "read_messages (fst (room_step fresh s e)) = read_messages s" "withdrawn (fst (room_step fresh s e)) = withdrawn s"
    "unannounced (fst (room_step fresh s e)) = unannounced s" "unsaid (fst (room_step fresh s e)) = unsaid s"
    by (rule pages_ok_same [OF assms(2) that(3) same_messages [OF assms(1,3) that(1,2)] that(4-7)])
  show ?thesis
  proof (cases e)
    case (BusMessage m)
    then have "event_id m \<notin> event_id ` set (taken s)" using assms(5) by (simp add: arrivals_def)
    then show ?thesis using idle_message_pages [OF assms(1,2)] mid_turn_message_pages [OF assms(1,2)] assms(2)
      by (simp add: BusMessage split: phase.split)
  next
    case Announced
    then show ?thesis using announced_pages [OF assms(1,2)] by simp
  next
    case Sent
    show ?thesis by (rule quiet)
      (auto simp: Sent arrivals_def send_arriving_def unsaid_def split: option.split prod.split bool.split)
  next
    case (FindingQueued c)
    show ?thesis by (rule quiet) (auto simp: FindingQueued arrivals_def unsaid_def split: phase.split)
  next
    case StopQueued
    show ?thesis by (rule quiet) (auto simp: StopQueued arrivals_def unsaid_def split: phase.split)
  next
    case Checkpoint
    then show ?thesis using checkpoint_pages [OF assms(1,2)] assms(2) by (simp split: phase.split)
  next
    case TurnBreaks
    show ?thesis by (rule quiet)
      (auto simp: TurnBreaks arrivals_def unsaid_def into_leftovers_def split: phase.split prod.split)
  next
    case (Sorted stopping)
    let ?s = "fst (room_step fresh s e)"
    have no: "\<not> stopping" using assms(3) by (simp add: Sorted goes_on_def)
    have "taken ?s = taken s"
      by (simp add: Sorted no defer_late_messages_def process_leftover_interrupts_def split: phase.split prod.split)
    from same_messages [OF assms(1,3) _ this] have seen: "set (messages_seen ?s) = set (messages_seen s)"
      by (simp add: Sorted arrivals_def)
    have "read_messages ?s = read_messages s" "withdrawn ?s = withdrawn s" "unannounced ?s = unannounced s" "unsaid ?s = unsaid s"
      by (simp_all add: Sorted no defer_late_messages_def process_leftover_interrupts_def unsaid_def split: phase.split prod.split)
    moreover have "listed ?s = listed s"
    proof (cases "phase s")
      case (Ended t)
      have "listed ?s = listed (say (Some (TurnEnded t)) s)"
        by (rule listed_same)
          (simp add: Sorted Ended no defer_late_messages_def process_leftover_interrupts_def split: prod.split)
      then show ?thesis by simp
    qed (simp_all add: Sorted)
    ultimately show ?thesis using assms(2) from_people_set [OF seen] by (simp add: pages_ok_def)
  next
    case StartNext
    then show ?thesis using start_next_pages [OF assms(1,2)] assms(2) by simp
  next
    case (Rerun t)
    show ?thesis by (rule quiet) (auto simp: Rerun arrivals_def unsaid_def)
  next
    case (AskWithdraw i)
    then show ?thesis using ask_withdraw_pages [OF assms(1,2)] assms(4) unfolding AskWithdraw by (simp add: asks_after_announcement_def)
  next
    case SayWithdrawn
    then show ?thesis using say_withdrawn_pages [OF assms(2), of fresh] by simp
  next
    case (AskSendNow i)
    show ?thesis by (rule quiet) (auto simp: AskSendNow arrivals_def unsaid_def split: prod.split)
  next
    case (HopNoted i h)
    show ?thesis by (rule quiet) (auto simp: HopNoted arrivals_def unsaid_def)
  qed (use assms(3) in \<open>simp add: goes_on_def\<close>)
qed

section \<open>What a page is shown\<close>

definition asked_after_announcement :: "fresh_ids \<Rightarrow> room_event list \<Rightarrow> bool" where
  "asked_after_announcement fresh es \<longleftrightarrow>
     list_all (\<lambda>k. asks_after_announcement (room_run fresh (take k es)) (es ! k)) [0..<length es]"

lemma asked_snoc:
  "asked_after_announcement fresh (es @ [e]) \<longleftrightarrow>
     asked_after_announcement fresh es \<and> asks_after_announcement (room_run fresh es) e"
  by (auto simp: asked_after_announcement_def list_all_iff nth_append less_Suc_eq)

lemma pages_run:
  "list_all goes_on es \<Longrightarrow> distinct_arrivals es \<Longrightarrow> asked_after_announcement fresh es \<Longrightarrow> pages_ok (room_run fresh es)"
proof (induction es rule: rev_induct)
  case Nil
  then show ?case
    by (simp add: room_run_def empty_room_def pages_ok_def listed_def messages_seen_def waiting_in_def unsaid_def)
next
  case (snoc e es)
  have d: "list_all goes_on es" "distinct_arrivals es" "asked_after_announcement fresh es" "asks_after_announcement (room_run fresh es) e" "goes_on e"
    using snoc.prems by (auto simp: distinct_arrivals_def asked_snoc)
  from pages_step [OF conjunct1 [OF run_ok [OF d(1,2)]] snoc.IH [OF d(1-3)] d(5,4) fresh_step [OF snoc.prems(2)]]
  show ?case by (simp add: room_run_snoc)
qed



section \<open>Where the promises end\<close>

text \<open>A message held at a checkpoint to be sent now, then withdrawn: a turn that ends with the agent stopping still records it.\<close>

lemma withdrawn_message_recorded_at_stop:
  "let s = room_run sample_fresh
      [BusMessage (sample_note 1), BusMessage (sample_note 2), Announced, Sent, AskSendNow [2], Checkpoint, AskWithdraw [2], TurnBreaks, Sorted True]
   in withdrawn s = [[2]] \<and> map event_id (recorded_at_stop s) = [[2]]"
  by code_simp

text \<open>A message withdrawn while its announcement is on its way: the announcement comes second, and the pages show the message as
  waiting although it was dropped.\<close>

lemma withdrawn_before_announced_stays_listed:
  "let s = room_run sample_fresh
      [BusMessage (sample_note 1), BusMessage (sample_note 2), AskWithdraw [2], SayWithdrawn, Announced, Sent, Checkpoint]
   in map event_id (dropped s) = [[2]] \<and> waiting_in s = [] \<and> map queued_id (fold record_queued (published s) []) = [[2]]"
  by code_simp

text \<open>A shutdown records what is still on the bus, a group's message with it, which no turn of main would have taken.\<close>

lemma shutdown_records_a_groups_message:
  "let s = room_run sample_fresh [Shutdown [sample_event]]
   in recorded_at_stop s = [sample_event] \<and> \<not> belongs_to_main (event_origin sample_event)"
  by code_simp

end
