(* ===== verification/Text_Edits.thy ===== *)
theory Text_Edits
  imports Tool_Results "HOL-Library.Product_Lexorder"
begin

text \<open>
  Find-and-replace edits of a file's text (\<open>crates/tools/src/edit.rs\<close>). Texts are code points and offsets count them, where the
  code counts the bytes of their UTF-8 form: a search finds the same places in either.
\<close>

section \<open>Requests\<close>

record edit_request =
  old_string :: ustring
  new_string :: ustring
  replace_all :: bool

datatype edit_problem = MissingString nat ustring | EmptyOldString nat | NothingToChange nat | NoEdits

definition parse_edit_request :: "nat \<Rightarrow> ustring option \<Rightarrow> ustring option \<Rightarrow> bool option \<Rightarrow> edit_problem + edit_request" where
  "parse_edit_request n old new every =
     (case old of
        None \<Rightarrow> Inl (MissingString n (lit ''old_string''))
      | Some s \<Rightarrow>
          (case new of
             None \<Rightarrow> Inl (MissingString n (lit ''new_string''))
           | Some t \<Rightarrow>
               if s = [] then Inl (EmptyOldString n)
               else if s = t then Inl (NothingToChange n)
               else Inr \<lparr>old_string = s, new_string = t, replace_all = (case every of Some b \<Rightarrow> b | None \<Rightarrow> False)\<rparr>))"

fun parse_edits :: "nat \<Rightarrow> (ustring option \<times> ustring option \<times> bool option) list \<Rightarrow> edit_problem + edit_request list" where
  "parse_edits n [] = Inr []"
| "parse_edits n ((old, new, every) # raws) =
     (case parse_edit_request n old new every of
        Inl e \<Rightarrow> Inl e
      | Inr r \<Rightarrow> (case parse_edits (n + 1) raws of Inl e \<Rightarrow> Inl e | Inr rs \<Rightarrow> Inr (r # rs)))"

definition parse_edit_args :: "(ustring option \<times> ustring option \<times> bool option) list \<Rightarrow> edit_problem + edit_request list" where
  "parse_edit_args raws = (if raws = [] then Inl NoEdits else parse_edits 1 raws)"

section \<open>Line breaks and lines\<close>

definition LF :: nat where "LF = 10"
definition CR :: nat where "CR = 13"

definition CRLF :: ustring where "CRLF = [CR, LF]"

text \<open>\<open>match_indices\<close>: from the left, none overlapping the one before.\<close>

function match_from :: "ustring \<Rightarrow> nat \<Rightarrow> ustring \<Rightarrow> (nat \<times> nat) list" where
  "match_from p i [] = []"
| "match_from p i (c # cs) =
     (if p \<noteq> [] \<and> prefix p (c # cs) then (i, i + length p) # match_from p (i + length p) (drop (length p) (c # cs))
      else match_from p (i + 1) cs)"
  by pat_completeness auto
termination by (relation "measure (\<lambda>(p, i, s). length s)") auto

definition match_indices :: "ustring \<Rightarrow> ustring \<Rightarrow> (nat \<times> nat) list" where
  "match_indices p s = match_from p 0 s"

definition dominant_line_ending :: "ustring \<Rightarrow> ustring" where
  "dominant_line_ending s =
     (let crlf = length (match_indices CRLF s);
          lf_only = length (match_indices [LF] s) - crlf
      in if crlf > lf_only then CRLF else [LF])"

definition normalize_line_endings :: "ustring \<Rightarrow> ustring \<Rightarrow> ustring" where
  "normalize_line_endings s eol =
     (let lf = replace_str CRLF [LF] s in if eol = [LF] then lf else replace_str [LF] eol lf)"

definition line_number_at :: "ustring \<Rightarrow> nat \<Rightarrow> nat" where
  "line_number_at s i = length (filter (\<lambda>c. c = LF) (take i s)) + 1"

fun split_inclusive :: "ustring \<Rightarrow> ustring list" where
  "split_inclusive [] = []"
| "split_inclusive (c # cs) =
     (if c = LF then [c] # split_inclusive cs
      else (case split_inclusive cs of l # ls \<Rightarrow> (c # l) # ls | [] \<Rightarrow> [[c]]))"

definition line_content :: "ustring \<Rightarrow> ustring" where
  "line_content raw =
     (case strip_suffix [LF] raw of
        None \<Rightarrow> raw
      | Some s \<Rightarrow> (case strip_suffix [CR] s of Some t \<Rightarrow> t | None \<Rightarrow> s))"

record file_line =
  line_start :: nat
  content :: ustring
  line_end :: nat

fun lines_from :: "nat \<Rightarrow> ustring list \<Rightarrow> file_line list" where
  "lines_from i [] = []"
| "lines_from i (raw # raws) =
     \<lparr>line_start = i, content = line_content raw, line_end = i + length raw\<rparr> # lines_from (i + length raw) raws"

definition file_lines :: "ustring \<Rightarrow> file_line list" where
  "file_lines s = lines_from 0 (split_inclusive s)"

text \<open>\<open>str::lines\<close>.\<close>

definition str_lines :: "ustring \<Rightarrow> ustring list" where
  "str_lines s = map line_content (split_inclusive s)"

definition has_read_prefix :: "ustring \<Rightarrow> bool" where
  "has_read_prefix s =
     list_ex (\<lambda>l. let t = trim_start l; n = length (takeWhile is_ascii_digit t) in n > 0 \<and> starts_with [9] (drop n t)) (str_lines s)"

section \<open>Finding the place\<close>

fun windows :: "nat \<Rightarrow> 'a list \<Rightarrow> 'a list list" where
  "windows n [] = []"
| "windows n (x # xs) = (if n \<le> length (x # xs) then take n (x # xs) # windows n xs else [])"

definition trim_breaks :: "ustring \<Rightarrow> ustring" where
  "trim_breaks s = rev (dropWhile (\<lambda>c. c = CR \<or> c = LF) (rev s))"

definition whitespace_insensitive_matches :: "ustring \<Rightarrow> ustring \<Rightarrow> (nat \<times> nat) list" where
  "whitespace_insensitive_matches s old =
     (let wanted = map trim (split_on LF (trim_breaks old))
      in if list_all (\<lambda>l. l = []) wanted then []
         else map (\<lambda>w. (line_start (hd w),
                        if ends_with [LF] old then line_end (last w) else line_start (last w) + length (content (last w))))
                (filter (\<lambda>w. map (\<lambda>l. trim (content l)) w = wanted) (windows (length wanted) (file_lines s))))"

datatype match_kind = Exact | IgnoringWhitespace

text \<open>The errors name the lines of up to ten matches.\<close>

definition MAX_LISTED_MATCHES :: nat where "MAX_LISTED_MATCHES = 10"

definition describe_match_lines :: "ustring \<Rightarrow> (nat \<times> nat) list \<Rightarrow> ustring" where
  "describe_match_lines s rs =
     concat_with (lit '', '')
       (map (\<lambda>r. show_nat (line_number_at s (fst r))) (take MAX_LISTED_MATCHES rs) @
        (if length rs > MAX_LISTED_MATCHES then [lit ''and '' @ show_nat (length rs - MAX_LISTED_MATCHES) @ lit '' more''] else []))"

datatype no_match = ManyPlaces nat ustring | WithReadPrefix | NotFoundInFile | ManyLoosePlaces nat ustring

definition find_matches :: "ustring \<Rightarrow> ustring \<Rightarrow> bool \<Rightarrow> no_match + (nat \<times> nat) list \<times> match_kind" where
  "find_matches s old every =
     (let exact = match_indices old s in
      if length exact = 1 \<or> length exact > 1 \<and> every then Inr (exact, Exact)
      else if length exact > 1 then Inl (ManyPlaces (length exact) (describe_match_lines s exact))
      else
        (let loose = whitespace_insensitive_matches s old in
         if length loose = 1 then Inr (loose, IgnoringWhitespace)
         else if loose = [] then (if has_read_prefix old then Inl WithReadPrefix else Inl NotFoundInFile)
         else Inl (ManyLoosePlaces (length loose) (describe_match_lines s loose))))"

section \<open>Applying edits\<close>

definition replace_range :: "ustring \<Rightarrow> nat \<times> nat \<Rightarrow> ustring \<Rightarrow> ustring" where
  "replace_range s r new = take (fst r) s @ new @ drop (snd r) s"

definition moved_span :: "nat \<times> nat \<Rightarrow> nat \<Rightarrow> nat \<times> nat \<Rightarrow> nat \<times> nat" where
  "moved_span r n sp =
     (let removed = snd r - fst r; new_end = fst r + n in
      if fst sp \<ge> snd r then (fst sp - removed + n, snd sp - removed + n)
      else if snd sp > fst r then
        (min (fst sp) (fst r), max (if snd sp > snd r then snd sp - removed + n else new_end) new_end)
      else sp)"

definition record_replacement :: "(nat \<times> nat) list \<Rightarrow> nat \<times> nat \<Rightarrow> nat \<Rightarrow> (nat \<times> nat) list" where
  "record_replacement spans r n = map (moved_span r n) spans @ [(fst r, fst r + n)]"

record batch_outcome =
  out_text :: ustring
  changed_spans :: "(nat \<times> nat) list"
  replacements :: nat
  whitespace_matched :: "nat list"

definition replace_ranges :: "(nat \<times> nat) list \<Rightarrow> ustring \<Rightarrow> ustring \<times> (nat \<times> nat) list \<Rightarrow> ustring \<times> (nat \<times> nat) list" where
  "replace_ranges rs new st =
     foldr (\<lambda>r (s, spans). (replace_range s r new, record_replacement spans r (length new))) rs st"

fun apply_from :: "nat \<Rightarrow> ustring \<Rightarrow> edit_request list \<Rightarrow> batch_outcome \<Rightarrow> (nat \<times> no_match) + batch_outcome" where
  "apply_from n eol [] b = Inr b"
| "apply_from n eol (e # es) b =
     (let old = normalize_line_endings (old_string e) eol; new = normalize_line_endings (new_string e) eol in
      case find_matches (out_text b) old (replace_all e) of
        Inl reason \<Rightarrow> Inl (n, reason)
      | Inr (rs, kind) \<Rightarrow>
          (case replace_ranges rs new (out_text b, changed_spans b) of (s, spans) \<Rightarrow>
             apply_from (n + 1) eol es
               \<lparr>out_text = s, changed_spans = spans, replacements = replacements b + length rs,
                whitespace_matched = whitespace_matched b @ (if kind = IgnoringWhitespace then [n] else [])\<rparr>))"

definition apply_edits :: "ustring \<Rightarrow> edit_request list \<Rightarrow> (nat \<times> no_match) + batch_outcome" where
  "apply_edits s es =
     apply_from 1 (dominant_line_ending s) es \<lparr>out_text = s, changed_spans = [], replacements = 0, whitespace_matched = []\<rparr>"


section \<open>What the model is shown\<close>

definition PREVIEW_CONTEXT_LINES :: nat where "PREVIEW_CONTEXT_LINES = 2"
definition MAX_PREVIEW_LINES :: nat where "MAX_PREVIEW_LINES = 60"

definition preview_window :: "ustring \<Rightarrow> nat \<Rightarrow> nat \<times> nat \<Rightarrow> nat \<times> nat" where
  "preview_window s n sp =
     (let first = line_number_at s (fst sp);
          final = (if snd sp > fst sp then line_number_at s (snd sp - 1) else first)
      in (max (first - PREVIEW_CONTEXT_LINES) 1, min (final + PREVIEW_CONTEXT_LINES) n))"

fun merge_windows :: "(nat \<times> nat) list \<Rightarrow> (nat \<times> nat) list \<Rightarrow> (nat \<times> nat) list" where
  "merge_windows merged [] = rev merged"
| "merge_windows [] (w # ws) = merge_windows [w] ws"
| "merge_windows (m # merged) (w # ws) =
     (if fst w \<le> snd m + 1 then merge_windows ((fst m, max (snd m) (snd w)) # merged) ws else merge_windows (w # m # merged) ws)"

text \<open>A line as \<open>read_file\<close> shows it is an argument.\<close>

definition render_preview :: "(nat \<Rightarrow> ustring \<Rightarrow> ustring) \<Rightarrow> ustring \<Rightarrow> (nat \<times> nat) list \<Rightarrow> ustring" where
  "render_preview numbered s spans =
     (let ls = str_lines s in
      if ls = [] then lit ''(the file is now empty)''
      else
        (let merged = merge_windows [] (sort (map (preview_window s (length ls)) spans));
             shown = map (\<lambda>w. map (\<lambda>k. numbered k (if k - 1 < length ls then ls ! (k - 1) else [])) [fst w..<snd w + 1]) merged;
             rendered = (case shown of [] \<Rightarrow> [] | w # ws \<Rightarrow> w @ concat (map (\<lambda>v. (lit ''   '' @ [8230]) # v) ws))
         in concat_with [LF]
              (if length rendered > MAX_PREVIEW_LINES
               then take MAX_PREVIEW_LINES rendered @ [lit ''   '' @ [8230] @ lit '' (preview truncated; use read_file to see the rest)'']
               else rendered)))"

definition format_success :: "(nat \<Rightarrow> ustring \<Rightarrow> ustring) \<Rightarrow> ustring \<Rightarrow> batch_outcome \<Rightarrow> ustring" where
  "format_success numbered path b =
     concat_with [LF]
       ((lit ''edited '' @ path @ lit '' ('' @ show_nat (replacements b) @ lit '' replacement'' @ (if replacements b = 1 then [] else lit ''s'') @ lit '')'') #
        map (\<lambda>n. lit ''note: edit '' @ show_nat n @
          lit '' matched only after ignoring whitespace differences; its new_string was written exactly as given, so check the indentation below'')
          (whitespace_matched b)) @
     [LF, LF] @ render_preview numbered (out_text b) (changed_spans b)"

section \<open>Exact edits are replacements\<close>

lemma replace_matches:
  "p \<noteq> [] \<Longrightarrow> length pre = i \<Longrightarrow> foldr (\<lambda>r u. replace_range u r new) (match_from p i s) (pre @ s) = pre @ replace_str p new s"
proof (induction p i s arbitrary: pre rule: match_from.induct)
  case (2 p i c cs)
  show ?case
  proof (cases "prefix p (c # cs)")
    case True
    let ?l = "length p"
    have split: "c # cs = p @ drop ?l (c # cs)" using True by (auto simp: prefix_def)
    have "foldr (\<lambda>r u. replace_range u r new) (match_from p (i + ?l) (drop ?l (c # cs))) ((pre @ p) @ drop ?l (c # cs)) =
        (pre @ p) @ replace_str p new (drop ?l (c # cs))"
      using 2 True by (intro "2.IH"(1)) auto
    moreover have "(pre @ p) @ drop ?l (c # cs) = pre @ c # cs" using split by simp
    moreover have "match_from p i (c # cs) = (i, i + ?l) # match_from p (i + ?l) (drop ?l (c # cs))"
      "replace_str p new (c # cs) = new @ replace_str p new (drop ?l (c # cs))" using 2 True by simp_all
    ultimately show ?thesis using 2 by (simp only: foldr_Cons comp_apply) (simp add: replace_range_def)
  next
    case False
    have "foldr (\<lambda>r u. replace_range u r new) (match_from p (i + 1) cs) ((pre @ [c]) @ cs) = (pre @ [c]) @ replace_str p new cs"
      using 2 False by (intro "2.IH"(2)) auto
    then show ?thesis using False by simp
  qed
qed simp

lemma fst_replace_ranges: "fst (replace_ranges rs new (s, spans)) = foldr (\<lambda>r u. replace_range u r new) rs s"
  unfolding replace_ranges_def by (induction rs) (auto simp: case_prod_unfold)

text \<open>Where the text was found as it stands, the result is that of \<open>str::replace\<close>, whichever way the ranges are taken.\<close>

theorem exact_edit_is_replace:
  assumes "old \<noteq> []" "find_matches s old every = Inr (rs, Exact)"
  shows "fst (replace_ranges rs new (s, spans)) = replace_str old new s"
proof -
  have "rs = match_indices old s"
    using assms(2) by (auto simp: find_matches_def Let_def split: if_splits)
  then show ?thesis using replace_matches [OF assms(1), of "[]" 0 new s]
    by (simp add: fst_replace_ranges match_indices_def)
qed

section \<open>The spans cover what changed\<close>

text \<open>What is outside all spans.\<close>

definition outside :: "(nat \<times> nat) list \<Rightarrow> nat set" where
  "outside spans = {i. \<forall>sp\<in>set spans. i < fst sp \<or> snd sp \<le> i}"

definition untouched :: "(nat \<times> nat) list \<Rightarrow> ustring \<Rightarrow> ustring" where
  "untouched spans s = nths s (outside spans)"

lemma subseq_nths_mono: "A \<subseteq> B \<Longrightarrow> subseq (nths xs A) (nths xs B)"
proof (induction xs arbitrary: A B)
  case (Cons x xs)
  have "subseq (nths xs {j. Suc j \<in> A}) (nths xs {j. Suc j \<in> B})" using Cons.prems by (intro Cons.IH) auto
  then show ?case using Cons.prems by (auto simp: nths_Cons)
qed simp

lemma outside_before:
  assumes "i \<in> outside (record_replacement spans (a, b) n)" "i < a" "a \<le> b"
  shows "i \<in> outside spans"
proof -
  have "i < fst sp \<or> snd sp \<le> i" if sp: "sp \<in> set spans" for sp
  proof -
    have "i < fst (moved_span (a, b) n sp) \<or> snd (moved_span (a, b) n sp) \<le> i"
      using assms(1) sp by (auto simp: outside_def record_replacement_def)
    then show ?thesis using assms(2,3) by (auto simp: moved_span_def Let_def split: if_splits)
  qed
  then show ?thesis by (auto simp: outside_def)
qed

lemma outside_after:
  assumes "i + (a + n) \<in> outside (record_replacement spans (a, b) n)" "a \<le> b"
  shows "i + b \<in> outside spans"
proof -
  have "i + b < fst sp \<or> snd sp \<le> i + b" if sp: "sp \<in> set spans" for sp
  proof -
    have "i + (a + n) < fst (moved_span (a, b) n sp) \<or> snd (moved_span (a, b) n sp) \<le> i + (a + n)"
      using assms(1) sp by (auto simp: outside_def record_replacement_def)
    then show ?thesis using assms(2) by (auto simp: moved_span_def Let_def split: if_splits)
  qed
  then show ?thesis by (auto simp: outside_def)
qed

lemma outside_new: "i + a \<in> outside (record_replacement spans (a, b) n) \<Longrightarrow> n \<le> i"
  by (auto simp: outside_def record_replacement_def)

lemma untouched_step:
  assumes "a \<le> b" "b \<le> length s"
  shows "subseq (untouched (record_replacement spans (a, b) (length new)) (replace_range s (a, b) new)) (untouched spans s)"
proof -
  let ?A = "outside (record_replacement spans (a, b) (length new))" and ?O = "outside spans"
  have la: "length (take a s) = a" using assms by simp
  have one: "untouched (record_replacement spans (a, b) (length new)) (replace_range s (a, b) new) =
      nths (take a s) ?A @ nths new {j. j + a \<in> ?A} @ nths (drop b s) {j. j + (a + length new) \<in> ?A}"
    unfolding untouched_def replace_range_def fst_conv snd_conv
    by (simp only: nths_append la mem_Collect_eq add.assoc add.commute [of "length new" a])
  have none: "nths new {j. j + a \<in> ?A} = []"
    by (auto simp: nths_def filter_empty_conv set_zip dest: outside_new)
  have len: "length (take b s) = b" using assms by simp
  have mid: "take b s = take a s @ drop a (take b s)"
    using append_take_drop_id [of a "take b s"] assms(1) by (simp add: min_def)
  have "nths (take b s @ drop b s) ?O = nths (take b s) ?O @ nths (drop b s) {j. j + b \<in> ?O}"
    by (simp only: nths_append len)
  moreover have "nths (take b s) ?O = nths (take a s) ?O @ nths (drop a (take b s)) {j. j + a \<in> ?O}"
    by (subst mid) (simp only: nths_append la)
  ultimately have two: "untouched spans s = nths (take a s) ?O @ nths (drop a (take b s)) {j. j + a \<in> ?O} @ nths (drop b s) {j. j + b \<in> ?O}"
    by (simp add: untouched_def)
  have "subseq (nths (take a s) ?A) (nths (take a s) ?O)"
  proof -
    have "nths (take a s) ?A = nths (take a s) (?A \<inter> {..<a})"
      by (simp add: nths_def) (rule arg_cong [where f = "map fst"], rule filter_cong, auto simp: set_zip)
    then show ?thesis using subseq_nths_mono [of "?A \<inter> {..<a}" ?O "take a s"] outside_before [of _ spans a b "length new"] assms(1) by auto
  qed
  moreover have "subseq (nths (drop b s) {j. j + (a + length new) \<in> ?A}) (nths (drop b s) {j. j + b \<in> ?O})"
    using outside_after assms(1) by (intro subseq_nths_mono) auto
  ultimately show ?thesis unfolding one two none by (simp add: list_emb_append_mono subseq_rev_drop_many list_emb_append2)
qed


text \<open>Ranges in order, none into the next, within the text: applied back to front each is still in place.\<close>

fun ordered_ranges :: "nat \<Rightarrow> (nat \<times> nat) list \<Rightarrow> nat \<Rightarrow> bool" where
  "ordered_ranges lo [] n \<longleftrightarrow> lo \<le> n"
| "ordered_ranges lo (r # rs) n \<longleftrightarrow> lo \<le> fst r \<and> fst r \<le> snd r \<and> ordered_ranges (snd r) rs n"

lemma ordered_bound: "ordered_ranges lo rs n \<Longrightarrow> lo \<le> n"
  by (induction rs arbitrary: lo) (auto intro: le_trans)

lemma ordered_weaken: "ordered_ranges lo rs n \<Longrightarrow> lo' \<le> lo \<Longrightarrow> ordered_ranges lo' rs n"
  by (cases rs) auto

lemma replace_ranges_Cons:
  "replace_ranges (r # rs) new st =
     (replace_range (fst (replace_ranges rs new st)) r new, record_replacement (snd (replace_ranges rs new st)) r (length new))"
  by (simp add: replace_ranges_def case_prod_unfold)

lemma replace_ranges_untouched:
  "ordered_ranges lo rs (length s) \<Longrightarrow> replace_ranges rs new (s, spans) = (s', spans') \<Longrightarrow>
     lo \<le> length s' \<and> subseq (untouched spans' s') (untouched spans s)"
proof (induction rs arbitrary: lo s' spans')
  case Nil
  then show ?case by (simp add: replace_ranges_def)
next
  case (Cons r rs)
  obtain s1 spans1 where one: "replace_ranges rs new (s, spans) = (s1, spans1)" by (meson surj_pair)
  have ih: "snd r \<le> length s1" "subseq (untouched spans1 s1) (untouched spans s)"
    using Cons.IH [OF _ one, of "snd r"] Cons.prems(1) by simp_all
  have s': "s' = replace_range s1 r new" "spans' = record_replacement spans1 r (length new)"
    using Cons.prems(2) by (simp_all add: replace_ranges_Cons one)
  have "subseq (untouched spans' s') (untouched spans1 s1)"
    using untouched_step [of "fst r" "snd r" s1 spans1 new] Cons.prems(1) ih(1) by (simp add: s')
  moreover have "length s' = fst r + length new + (length s1 - snd r)" "lo \<le> fst r"
    using Cons.prems(1) ih(1) by (simp_all add: s' replace_range_def)
  ultimately show ?case using ih(2) subseq_order.trans [of "untouched spans' s'"] by simp
qed

lemma match_from_ordered: "ordered_ranges i (match_from p i s) (i + length s)"
proof (induction p i s rule: match_from.induct)
  case (2 p i c cs)
  show ?case
  proof (cases "p \<noteq> [] \<and> prefix p (c # cs)")
    case True
    then have "length p \<le> Suc (length cs)" using prefix_length_le [of p "c # cs"] by simp
    then show ?thesis using 2 True by (simp add: Suc_diff_le)
  next
    case False
    then show ?thesis using 2(2) ordered_weaken [of "i + 1"] by auto
  qed
qed simp

lemma concat_split_inclusive: "concat (split_inclusive s) = s"
  by (induction s) (auto split: list.split)

lemma line_content_length: "length (line_content l) \<le> length l"
  by (auto simp: line_content_def strip_suffix_def split: option.split)

text \<open>Lines follow one another, and a window of them is a range.\<close>

lemma lines_from_ok:
  "w \<in> set (windows n (lines_from i raws)) \<Longrightarrow> 0 < n \<Longrightarrow>
     i \<le> line_start (hd w) \<and> line_start (hd w) \<le> line_start (last w) \<and>
     line_start (last w) + length (content (last w)) \<le> line_end (last w) \<and> line_end (last w) \<le> i + length (concat raws)"
proof (induction raws arbitrary: i)
  case (Cons raw raws)
  let ?l = "\<lparr>line_start = i, content = line_content raw, line_end = i + length raw\<rparr>"
  have later: "l \<in> set (lines_from j rs) \<Longrightarrow> j \<le> line_start l \<and> line_start l + length (content l) \<le> line_end l \<and> line_end l \<le> j + length (concat rs)" for l j rs
    by (induction rs arbitrary: j) (use line_content_length in \<open>fastforce+\<close>)
  show ?case
  proof (cases "w = take n (?l # lines_from (i + length raw) raws)")
    case True
    have "last w \<in> set (lines_from i (raw # raws))"
      using True Cons.prems(2) by (metis in_set_takeD last_in_set lines_from.simps(2) list.distinct(1) take_eq_Nil2 not_gr_zero)
    moreover have "hd w = ?l" using True Cons.prems(2) by (simp add: hd_take)
    ultimately show ?thesis using later [of "last w" i "raw # raws"] by auto
  next
    case False
    then have "w \<in> set (windows n (lines_from (i + length raw) raws))" using Cons.prems(1) by (auto split: if_splits)
    from Cons.IH [OF this Cons.prems(2)] show ?thesis by auto
  qed
qed simp

lemma loose_match_ordered:
  assumes "whitespace_insensitive_matches s old = [r]"
  shows "ordered_ranges 0 [r] (length s)"
proof -
  let ?wanted = "map trim (split_on LF (trim_breaks old))"
  have "r \<in> set (whitespace_insensitive_matches s old)" using assms by simp
  then have "\<exists>w\<in>set (windows (length ?wanted) (file_lines s)).
      r = (line_start (hd w), if ends_with [LF] old then line_end (last w) else line_start (last w) + length (content (last w)))"
    by (auto simp: whitespace_insensitive_matches_def Let_def split: if_splits)
  then obtain w where w: "w \<in> set (windows (length ?wanted) (file_lines s))"
    "r = (line_start (hd w), if ends_with [LF] old then line_end (last w) else line_start (last w) + length (content (last w)))"
    by blast
  have "0 < length ?wanted" by simp
  from lines_from_ok [OF w(1) [unfolded file_lines_def] this] show ?thesis
    by (auto simp: w(2) concat_split_inclusive)
qed

lemma find_matches_ordered:
  "find_matches s old every = Inr (rs, kind) \<Longrightarrow> ordered_ranges 0 rs (length s)"
proof -
  assume "find_matches s old every = Inr (rs, kind)"
  then have "rs = match_indices old s \<or> rs = whitespace_insensitive_matches s old \<and> length rs = 1"
    by (auto simp: find_matches_def Let_def split: if_splits)
  then show ?thesis
  proof
    assume loose: "rs = whitespace_insensitive_matches s old \<and> length rs = 1"
    then have "rs = [hd rs]" by (cases rs) auto
    with loose show ?thesis using loose_match_ordered [of s old "hd rs"] by metis
  qed (use match_from_ordered [of 0 old s] in \<open>simp add: match_indices_def\<close>)
qed

text \<open>Outside the spans it reports, the text a batch of edits leaves is the file's own, in its order: the preview shows the model
  all that its edits wrote.\<close>

lemma apply_from_untouched:
  "apply_from n eol es b = Inr b' \<Longrightarrow> subseq (untouched (changed_spans b') (out_text b')) (untouched (changed_spans b) (out_text b))"
proof (induction n eol es b rule: apply_from.induct)
  case (2 n eol e es b)
  let ?old = "normalize_line_endings (old_string e) eol" and ?new = "normalize_line_endings (new_string e) eol"
  obtain rs kind where f: "find_matches (out_text b) ?old (replace_all e) = Inr (rs, kind)"
    using 2(2) by (auto simp: Let_def split: sum.splits)
  obtain s spans where r: "replace_ranges rs ?new (out_text b, changed_spans b) = (s, spans)" by (meson surj_pair)
  let ?b = "\<lparr>out_text = s, changed_spans = spans, replacements = replacements b + length rs,
      whitespace_matched = whitespace_matched b @ (if kind = IgnoringWhitespace then [n] else [])\<rparr>"
  have next_step: "apply_from (n + 1) eol es ?b = Inr b'" using 2(2) f r by (simp add: Let_def)
  have "subseq (untouched (changed_spans b') (out_text b')) (untouched spans s)"
    using "2.IH" [OF refl refl f refl r [symmetric] next_step] by simp
  moreover have "subseq (untouched spans s) (untouched (changed_spans b) (out_text b))"
    using replace_ranges_untouched [OF find_matches_ordered [OF f] r] by blast
  ultimately show ?case using subseq_order.trans by blast
qed simp

text \<open>What the edited text holds outside the spans reported as changed stands, in this order, in the original: every change an edit
  makes lies in a span whose lines the preview shows.\<close>

theorem edits_change_what_they_show:
  assumes "apply_edits s es = Inr b"
  shows "subseq (untouched (changed_spans b) (out_text b)) s"
  using apply_from_untouched [OF assms [unfolded apply_edits_def]] by (simp add: untouched_def outside_def nths_all)


section \<open>Examples\<close>

definition sample_text :: ustring where
  "sample_text = lit ''one'' @ [LF] @ lit ''  two'' @ [LF] @ lit ''one'' @ [LF]"

definition sample_requests :: "edit_request list" where
  "sample_requests =
     [\<lparr>old_string = lit ''one'', new_string = lit ''three'', replace_all = True\<rparr>,
      \<lparr>old_string = lit ''  two'' @ [LF] @ lit ''three'', new_string = lit ''four'', replace_all = False\<rparr>]"

lemma exact_edit_is_replace_witness:
  "fst (replace_ranges (match_indices (lit ''one'') sample_text) (lit ''three'') (sample_text, [])) =
     lit ''three'' @ [LF] @ lit ''  two'' @ [LF] @ lit ''three'' @ [LF]"
proof -
  have "find_matches sample_text (lit ''one'') True = Inr (match_indices (lit ''one'') sample_text, Exact)" by code_simp
  from exact_edit_is_replace [OF _ this, of "lit ''three''" "[]"]
  have "fst (replace_ranges (match_indices (lit ''one'') sample_text) (lit ''three'') (sample_text, [])) =
      replace_str (lit ''one'') (lit ''three'') sample_text" by (simp add: lit_def)
  also have "\<dots> = lit ''three'' @ [LF] @ lit ''  two'' @ [LF] @ lit ''three'' @ [LF]" by code_simp
  finally show ?thesis .
qed

lemma edits_change_what_they_show_witness:
  "\<exists>b. apply_edits sample_text sample_requests = Inr b \<and> out_text b = lit ''three'' @ [LF] @ lit ''four'' @ [LF] \<and>
     subseq (untouched (changed_spans b) (out_text b)) sample_text"
proof -
  have "case apply_edits sample_text sample_requests of Inr b \<Rightarrow> out_text b = lit ''three'' @ [LF] @ lit ''four'' @ [LF] | Inl e \<Rightarrow> False"
    by code_simp
  then obtain b where "apply_edits sample_text sample_requests = Inr b" "out_text b = lit ''three'' @ [LF] @ lit ''four'' @ [LF]"
    by (auto split: sum.splits)
  with edits_change_what_they_show [OF this(1)] show ?thesis by blast
qed

text \<open>Matches are counted without overlaps, so a text that stands in two places which overlap counts as one, and the first is
  changed.\<close>

lemma overlapping_places_count_once:
  "let block = lit ''}'' @ [LF] @ lit ''}'' @ [LF]
   in find_matches (lit ''}'' @ [LF] @ block) block False = Inr ([(0, 4)], Exact) \<and> prefix block (drop 2 (lit ''}'' @ [LF] @ block))"
  by code_simp

end
