(* ===== verification/Edit_Line_Endings.thy ===== *)
theory Edit_Line_Endings
  imports Text_Edits
begin

text \<open>
  Edits (\<open>Text_Edits\<close>) do the same to a file whatever its line breaks are: on a file with CR LF breaks a batch gives what it gives on
  the same file with LF breaks, put back into CR LF, with the same replacements, notes and errors.
\<close>

section \<open>The same text with the other breaks\<close>

definition crlf :: "ustring \<Rightarrow> ustring" where
  "crlf t = concat (map (\<lambda>c. if c = LF then CRLF else [c]) t)"

definition no_cr :: "ustring \<Rightarrow> bool" where
  "no_cr t \<longleftrightarrow> CR \<notin> set t"

lemma crlf_simps [simp]: "crlf [] = []" "crlf (c # t) = (if c = LF then CR # LF # crlf t else c # crlf t)"
  "crlf (s @ t) = crlf s @ crlf t"
  by (simp_all add: crlf_def CRLF_def)

lemma no_cr_simps [simp]: "no_cr []" "no_cr (c # t) \<longleftrightarrow> c \<noteq> CR \<and> no_cr t" "no_cr (s @ t) \<longleftrightarrow> no_cr s \<and> no_cr t"
  by (auto simp: no_cr_def)

lemma CR_LF [simp]: "CR \<noteq> LF" "LF \<noteq> CR"
  by (simp_all add: CR_def LF_def)

lemma crlf_no_break: "LF \<notin> set t \<Longrightarrow> crlf t = t"
  by (induction t) auto

lemma crlf_Nil [simp]: "crlf t = [] \<longleftrightarrow> t = []"
  by (cases t) auto

lemma replace_lf: "replace_str [LF] CRLF t = crlf t"
  by (induction t) (auto simp: CRLF_def)

lemma replace_no_cr: "no_cr t \<Longrightarrow> replace_str CRLF [LF] t = t"
  by (induction t) (auto simp: CRLF_def)

text \<open>A request's text may have either kind of break; a carriage return on its own it has not.\<close>

definition lf :: "ustring \<Rightarrow> ustring" where
  "lf s = replace_str CRLF [LF] s"

lemma normalize_lf: "normalize_line_endings s [LF] = lf s" "normalize_line_endings s CRLF = crlf (lf s)"
  by (simp_all add: normalize_line_endings_def lf_def Let_def replace_lf) (simp add: CRLF_def)

section \<open>Places\<close>

definition pos :: "ustring \<Rightarrow> nat \<Rightarrow> nat" where
  "pos t i = length (crlf (take i t))"

definition pos_range :: "ustring \<Rightarrow> nat \<times> nat \<Rightarrow> nat \<times> nat" where
  "pos_range t r = (pos t (fst r), pos t (snd r))"

lemma crlf_take: "take (pos t i) (crlf t) = crlf (take i t)"
  by (metis append_eq_conv_conj append_take_drop_id crlf_simps(3) pos_def)

lemma crlf_drop: "drop (pos t i) (crlf t) = crlf (drop i t)"
  by (metis append_eq_conv_conj append_take_drop_id crlf_simps(3) pos_def)

lemma line_number_pos: "line_number_at (crlf t) (pos t i) = line_number_at t i"
proof -
  have "length (filter (\<lambda>c. c = LF) (crlf s)) = length (filter (\<lambda>c. c = LF) s)" for s
    by (induction s) auto
  then show ?thesis by (simp add: line_number_at_def crlf_take)
qed

lemma describe_pos: "describe_match_lines (crlf t) (map (pos_range t) rs) = describe_match_lines t rs"
  by (simp add: describe_match_lines_def take_map comp_def pos_range_def line_number_pos)

lemma crlf_prefix: "no_cr p \<Longrightarrow> no_cr t \<Longrightarrow> prefix (crlf p) (crlf t) \<longleftrightarrow> prefix p t"
proof (induction p arbitrary: t)
  case (Cons c p)
  then show ?case by (cases t) auto
qed simp

lemma crlf_starts: "no_cr p \<Longrightarrow> p \<noteq> [] \<Longrightarrow> \<not> prefix (crlf p) (LF # s)"
  by (cases p) auto

lemma match_pos:
  "no_cr p \<Longrightarrow> no_cr t \<Longrightarrow> p \<noteq> [] \<Longrightarrow> i = length pre \<Longrightarrow>
     match_from (crlf p) (length (crlf pre)) (crlf t) = map (pos_range (pre @ t)) (match_from p i t)"
proof (induction p i t arbitrary: pre rule: match_from.induct)
  case (2 p i c cs)
  show ?case
  proof (cases "prefix p (c # cs)")
    case True
    then obtain rest where t: "c # cs = p @ rest" by (auto simp: prefix_def)
    have rest: "drop (length p) (c # cs) = rest" "no_cr rest" using 2(4) by (simp_all add: t del: no_cr_simps(2)) (simp add: t [symmetric])?
    have ih: "match_from (crlf p) (length (crlf (pre @ p))) (crlf rest) = map (pos_range ((pre @ p) @ rest)) (match_from p (i + length p) rest)"
      using 2(1) [of "pre @ p"] 2 True rest by simp
    have here: "pos_range (pre @ c # cs) (i, i + length p) = (length (crlf pre), length (crlf pre) + length (crlf p))"
      using 2(6) by (simp add: pos_range_def pos_def t)
    obtain d ds where d: "crlf (c # cs) = d # ds" using crlf_Nil [of "c # cs"] neq_Nil_conv [of "crlf (c # cs)"] by blast
    have "prefix (crlf p) (crlf (c # cs))" using True crlf_prefix [of p "c # cs"] 2 by blast
    then have "match_from (crlf p) (length (crlf pre)) (crlf (c # cs)) =
        (length (crlf pre), length (crlf pre) + length (crlf p)) #
          match_from (crlf p) (length (crlf pre) + length (crlf p)) (drop (length (crlf p)) (crlf (c # cs)))"
      using 2(5) unfolding d by simp
    moreover have "drop (length (crlf p)) (crlf (c # cs)) = crlf rest" by (simp only: t crlf_simps(3) append_eq_conv_conj [symmetric]) simp
    moreover have "match_from p i (c # cs) = (i, i + length p) # match_from p (i + length p) rest"
      using True 2(5) rest(1) by (simp del: drop_Suc_Cons)
    moreover have "(pre @ p) @ rest = pre @ c # cs" by (simp add: t)
    moreover have "length (crlf (pre @ p)) = length (crlf pre) + length (crlf p)" by simp
    ultimately show ?thesis using ih here by (simp only: list.map)
  next
    case False
    have no: "\<not> prefix (crlf p) (crlf (c # cs))" using False crlf_prefix [of p "c # cs"] 2 by blast
    have ih: "match_from (crlf p) (length (crlf (pre @ [c]))) (crlf cs) = map (pos_range ((pre @ [c]) @ cs)) (match_from p (i + 1) cs)"
      using 2(2) [of "pre @ [c]"] 2 False by simp
    show ?thesis
    proof (cases "c = LF")
      case True
      then show ?thesis using no ih False crlf_starts [of p "crlf cs"] 2 by (simp add: numeral_2_eq_2)
    next
      case ne: False
      then show ?thesis using no ih False by simp
    qed
  qed
qed simp

lemma match_indices_pos:
  "no_cr p \<Longrightarrow> no_cr t \<Longrightarrow> p \<noteq> [] \<Longrightarrow> match_indices (crlf p) (crlf t) = map (pos_range t) (match_indices p t)"
  using match_pos [of p t 0 "[]"] by (simp add: match_indices_def)


section \<open>Lines\<close>

lemma split_inclusive_crlf: "no_cr t \<Longrightarrow> split_inclusive (crlf t) = map crlf (split_inclusive t)"
  by (induction t) (auto split: list.split)

lemma line_shape: "l \<in> set (split_inclusive t) \<Longrightarrow> LF \<notin> set l \<or> (\<exists>m. l = m @ [LF] \<and> LF \<notin> set m)"
proof (induction t arbitrary: l)
  case (Cons c t)
  show ?case
  proof (cases "c = LF")
    case True
    then show ?thesis using Cons by (auto intro: exI [of _ "[]"])
  next
    case False
    show ?thesis
    proof (cases "split_inclusive t")
      case Nil
      then show ?thesis using Cons.prems False by auto
    next
      case (Cons k ks)
      then have "l = c # k \<or> l \<in> set ks" using Cons.prems False by auto
      moreover have "LF \<notin> set (c # k) \<or> (\<exists>m. c # k = m @ [LF] \<and> LF \<notin> set m)"
        using Cons.IH [of k] Cons False by (auto intro: exI [of _ "c # _"])
      ultimately show ?thesis using Cons.IH [of l] Cons by auto
    qed
  qed
qed simp

lemma no_cr_lines: "no_cr t \<Longrightarrow> l \<in> set (split_inclusive t) \<Longrightarrow> no_cr l"
  using concat_split_inclusive [of t] unfolding no_cr_def by (metis UN_I set_concat)

lemma line_content_break: "line_content (m @ [LF]) = (case strip_suffix [CR] m of Some t \<Rightarrow> t | None \<Rightarrow> m)"
  by (simp add: line_content_def strip_suffix_def ends_with_def starts_with_def)

lemma no_cr_end: "no_cr m \<Longrightarrow> strip_suffix [CR] m = None"
  by (cases m rule: rev_cases) (auto simp: strip_suffix_def ends_with_def starts_with_def)

lemma no_break_end: "LF \<notin> set m \<Longrightarrow> line_content m = m"
  by (cases m rule: rev_cases) (auto simp: line_content_def strip_suffix_def ends_with_def starts_with_def)

lemma line_content_crlf:
  assumes "no_cr t" "l \<in> set (split_inclusive t)"
  shows "line_content (crlf l) = line_content l" "\<exists>rest. l = line_content l @ rest" "LF \<notin> set (line_content l)"
proof -
  have l: "no_cr l" using no_cr_lines assms by blast
  from line_shape [OF assms(2)] have "line_content (crlf l) = line_content l \<and> (\<exists>rest. l = line_content l @ rest) \<and> LF \<notin> set (line_content l)"
  proof
    assume "\<exists>m. l = m @ [LF] \<and> LF \<notin> set m"
    then obtain m where m: "l = m @ [LF]" "LF \<notin> set m" by blast
    then have "no_cr m" using l by simp
    have "crlf l = (m @ [CR]) @ [LF]" using m by (simp add: crlf_no_break)
    moreover have "strip_suffix [CR] (m @ [CR]) = Some m" by (simp add: strip_suffix_def ends_with_def starts_with_def)
    ultimately show ?thesis using m no_cr_end [OF \<open>no_cr m\<close>] line_content_break [of m] line_content_break [of "m @ [CR]"] by simp
  qed (simp add: crlf_no_break no_break_end)
  then show "line_content (crlf l) = line_content l" "\<exists>rest. l = line_content l @ rest" "LF \<notin> set (line_content l)" by blast+
qed

lemma str_lines_crlf: "no_cr t \<Longrightarrow> str_lines (crlf t) = str_lines t"
  by (simp add: str_lines_def split_inclusive_crlf line_content_crlf)

lemma has_read_prefix_crlf: "no_cr t \<Longrightarrow> has_read_prefix (crlf t) = has_read_prefix t"
  by (simp add: has_read_prefix_def str_lines_crlf)

definition pos_line :: "ustring \<Rightarrow> file_line \<Rightarrow> file_line" where
  "pos_line t l = l\<lparr>line_start := pos t (line_start l), line_end := pos t (line_end l)\<rparr>"

lemma lines_pos:
  "no_cr t \<Longrightarrow> set raws \<subseteq> set (split_inclusive t) \<Longrightarrow> i = length pre \<Longrightarrow>
     lines_from (length (crlf pre)) (map crlf raws) = map (pos_line (pre @ concat raws)) (lines_from i raws)"
proof (induction raws arbitrary: i pre)
  case (Cons raw raws)
  have "lines_from (length (crlf (pre @ raw))) (map crlf raws) = map (pos_line ((pre @ raw) @ concat raws)) (lines_from (i + length raw) raws)"
    using Cons by (intro Cons.IH) auto
  then show ?case using Cons.prems line_content_crlf(1) [of t raw]
    by (simp add: pos_line_def pos_def)
qed simp

lemma file_lines_pos: "no_cr t \<Longrightarrow> file_lines (crlf t) = map (pos_line t) (file_lines t)"
  using lines_pos [of t "split_inclusive t" 0 "[]"] by (simp add: file_lines_def split_inclusive_crlf concat_split_inclusive)

lemma windows_map: "windows n (map f xs) = map (map f) (windows n xs)"
  by (induction xs) (auto simp: take_map [symmetric])

text \<open>Where the content of a line ends.\<close>

lemma content_pos:
  "no_cr t \<Longrightarrow> set raws \<subseteq> set (split_inclusive t) \<Longrightarrow> l \<in> set (lines_from (length pre) raws) \<Longrightarrow>
     pos (pre @ concat raws) (line_start l + length (content l)) = pos (pre @ concat raws) (line_start l) + length (content l)"
proof (induction raws arbitrary: pre)
  case (Cons raw raws)
  show ?case
  proof (cases "l \<in> set (lines_from (length (pre @ raw)) raws)")
    case True
    then show ?thesis using Cons.IH [of "pre @ raw"] Cons.prems by simp
  next
    case False
    then have l: "l = \<lparr>line_start = length pre, content = line_content raw, line_end = length pre + length raw\<rparr>"
      using Cons.prems(3) by simp
    obtain rest where "raw = line_content raw @ rest" "LF \<notin> set (line_content raw)"
      using line_content_crlf [of t raw] Cons.prems by auto
    then have "take (length pre + length (line_content raw)) (pre @ raw @ concat raws) = pre @ line_content raw"
      by (metis append.assoc append_eq_conv_conj length_append)
    then show ?thesis using \<open>LF \<notin> _\<close> by (simp add: l pos_def crlf_no_break)
  qed
qed simp


section \<open>Loose matches\<close>

lemma dropWhile_breaks:
  "no_cr s \<Longrightarrow> dropWhile (\<lambda>c. c = CR \<or> c = LF) (rev (crlf s)) = rev (crlf (rev (dropWhile (\<lambda>c. c = CR \<or> c = LF) (rev s))))"
  by (induction s rule: rev_induct) auto

lemma trim_breaks_crlf: "no_cr s \<Longrightarrow> trim_breaks (crlf s) = crlf (trim_breaks s)"
  by (simp add: trim_breaks_def dropWhile_breaks)

lemma no_cr_trim_breaks: "no_cr s \<Longrightarrow> no_cr (trim_breaks s)"
  using set_dropWhileD [of _ "\<lambda>c. c = CR \<or> c = LF" "rev s"] by (auto simp: no_cr_def trim_breaks_def)

lemma trim_snoc: "is_whitespace c \<Longrightarrow> trim (s @ [c]) = trim s"
proof (cases "\<forall>x\<in>set s. is_whitespace x")
  case True
  then show "is_whitespace c \<Longrightarrow> ?thesis" by (simp add: trim_def trim_start_def dropWhile_eq_Nil_conv [THEN iffD2])
next
  case False
  then have "dropWhile is_whitespace (s @ [c]) = dropWhile is_whitespace s @ [c]" by (auto simp: dropWhile_append)
  then show "is_whitespace c \<Longrightarrow> ?thesis" by (simp add: trim_def trim_start_def trim_end_def)
qed

lemma CR_white: "is_whitespace CR"
  by (simp add: CR_def is_whitespace_def)

lemma same_trimmed:
  "xs \<noteq> [] \<Longrightarrow> ys \<noteq> [] \<Longrightarrow> hd xs = hd ys \<or> hd xs = hd ys @ [CR] \<Longrightarrow> map trim (tl xs) = map trim (tl ys) \<Longrightarrow> map trim xs = map trim ys"
  by (cases xs; cases ys) (auto simp: trim_snoc [OF CR_white])

lemma split_crlf:
  "no_cr s \<Longrightarrow> (hd (split_on LF (crlf s)) = hd (split_on LF s) \<or> hd (split_on LF (crlf s)) = hd (split_on LF s) @ [CR]) \<and>
     map trim (tl (split_on LF (crlf s))) = map trim (tl (split_on LF s))"
proof (induction s)
  case (Cons c s)
  note ih = Cons.IH
  show ?case
  proof (cases "c = LF")
    case True
    have "map trim (split_on LF (crlf s)) = map trim (split_on LF s)" 
      using same_trimmed [OF split_on_nonempty split_on_nonempty conjunct1 [OF ih] conjunct2 [OF ih]] Cons.prems by simp
    then show ?thesis using True by simp
  next
    case False
    then show ?thesis using ih Cons.prems by (auto split: list.split)
  qed
qed simp

lemma trim_split_crlf: "no_cr s \<Longrightarrow> map trim (split_on LF (crlf s)) = map trim (split_on LF s)"
  using same_trimmed [OF split_on_nonempty split_on_nonempty conjunct1 [OF split_crlf] conjunct2 [OF split_crlf]] .

lemma ends_crlf: "no_cr s \<Longrightarrow> ends_with [LF] (crlf s) = ends_with [LF] s"
  by (cases s rule: rev_cases) (auto simp: ends_with_def starts_with_def)

lemma windows_subset: "w \<in> set (windows n xs) \<Longrightarrow> set w \<subseteq> set xs \<and> length w = n"
  by (induction xs) (auto split: if_splits dest: in_set_takeD)

lemma loose_pos:
  assumes "no_cr old" "no_cr t"
  shows "whitespace_insensitive_matches (crlf t) (crlf old) = map (pos_range t) (whitespace_insensitive_matches t old)"
proof -
  let ?w = "map trim (split_on LF (trim_breaks old))"
  let ?ok = "\<lambda>w. map (\<lambda>l. trim (content l)) w = ?w"
  have wanted: "map trim (split_on LF (trim_breaks (crlf old))) = ?w"
    using trim_split_crlf [OF no_cr_trim_breaks [OF assms(1)]] by (simp add: trim_breaks_crlf [OF assms(1)])
  have range: "(line_start (hd (map (pos_line t) w)),
        if ends_with [LF] old then line_end (last (map (pos_line t) w))
        else line_start (last (map (pos_line t) w)) + length (content (last (map (pos_line t) w)))) =
      pos_range t (line_start (hd w), if ends_with [LF] old then line_end (last w) else line_start (last w) + length (content (last w)))"
    if "w \<in> set (windows (length ?w) (file_lines t))" for w
  proof -
    have w: "set w \<subseteq> set (file_lines t)" "w \<noteq> []" using windows_subset [OF that] by auto
    then have "last w \<in> set (lines_from (length ([]::ustring)) (split_inclusive t))" by (auto simp: file_lines_def)
    from content_pos [OF assms(2) _ this] have "pos t (line_start (last w) + length (content (last w))) = pos t (line_start (last w)) + length (content (last w))"
      by (simp add: concat_split_inclusive)
    then show ?thesis using w(2) by (simp add: hd_map last_map pos_range_def pos_line_def)
  qed
  have "filter ?ok (map (map (pos_line t)) (windows (length ?w) (file_lines t))) = map (map (pos_line t)) (filter ?ok (windows (length ?w) (file_lines t)))"
    by (simp add: filter_map comp_def pos_line_def)
  then show ?thesis unfolding whitespace_insensitive_matches_def Let_def wanted file_lines_pos [OF assms(2)] ends_crlf [OF assms(1)] windows_map
    using range by (simp add: comp_def)
qed


section \<open>Whole batches\<close>

lemma find_matches_pos:
  assumes "no_cr old" "no_cr t" "old \<noteq> []"
  shows "find_matches (crlf t) (crlf old) every =
    (case find_matches t old every of Inl e \<Rightarrow> Inl e | Inr (rs, kind) \<Rightarrow> Inr (map (pos_range t) rs, kind))"
  unfolding find_matches_def Let_def match_indices_pos [OF assms] loose_pos [OF assms(1,2)] describe_pos has_read_prefix_crlf [OF assms(1)]
  by simp

lemma replace_ranges_pos:
  "ordered_ranges lo rs (length t) \<Longrightarrow>
     foldr (\<lambda>r u. replace_range u r (crlf new)) (map (pos_range t) rs) (crlf t) = crlf (foldr (\<lambda>r u. replace_range u r new) rs t) \<and>
     take lo (foldr (\<lambda>r u. replace_range u r new) rs t) = take lo t"
proof (induction rs arbitrary: lo)
  case (Cons r rs)
  let ?u = "foldr (\<lambda>r u. replace_range u r new) rs t"
  have r: "lo \<le> fst r" "fst r \<le> snd r" "ordered_ranges (snd r) rs (length t)" using Cons.prems by simp_all
  note ih = Cons.IH [OF r(3)]
  have same: "take (snd r) ?u = take (snd r) t" using ih by blast
  from arg_cong [OF same, of "take (fst r)"] have same_fst: "take (fst r) ?u = take (fst r) t"
    unfolding take_take min_absorb1 [OF r(2)] .
  have at: "pos t (fst r) = pos ?u (fst r)" "pos t (snd r) = pos ?u (snd r)" unfolding pos_def same same_fst by (rule refl)+
  have "replace_range (crlf ?u) (pos_range t r) (crlf new) = crlf (replace_range ?u r new)"
    by (simp add: replace_range_def pos_range_def at crlf_take crlf_drop)
  moreover have "take lo (replace_range ?u r new) = take lo t"
  proof -
    have "length (take (fst r) ?u) = fst r"
      unfolding same_fst using ordered_bound [OF r(3)] r(2) by simp
    then have "take lo (replace_range ?u r new) = take lo (take (fst r) ?u)" using r(1) by (simp add: replace_range_def)
    then show ?thesis using r(1) by (simp add: same_fst min_def)
  qed
  ultimately show ?case using ih by simp
qed simp

lemma no_cr_replaced: "no_cr new \<Longrightarrow> no_cr t \<Longrightarrow> no_cr (foldr (\<lambda>r u. replace_range u r new) rs t)"
  by (induction rs) (auto simp: no_cr_def replace_range_def dest: in_set_takeD in_set_dropD)

definition request_ok :: "edit_request \<Rightarrow> bool" where
  "request_ok e \<longleftrightarrow> old_string e \<noteq> [] \<and> no_cr (lf (old_string e)) \<and> no_cr (lf (new_string e))"

definition same_outcome :: "batch_outcome \<Rightarrow> batch_outcome \<Rightarrow> bool" where
  "same_outcome b b' \<longleftrightarrow>
     out_text b' = crlf (out_text b) \<and> replacements b' = replacements b \<and> whitespace_matched b' = whitespace_matched b"

definition same_result :: "(nat \<times> no_match) + batch_outcome \<Rightarrow> (nat \<times> no_match) + batch_outcome \<Rightarrow> bool" where
  "same_result x y = (case (x, y) of (Inl e, Inl e') \<Rightarrow> e = e' | (Inr b, Inr b') \<Rightarrow> same_outcome b b' | _ \<Rightarrow> False)"

lemma lf_nonempty: "s \<noteq> [] \<Longrightarrow> lf s \<noteq> []"
  by (cases s) (auto simp: lf_def)

lemma apply_from_crlf:
  "list_all request_ok es \<Longrightarrow> no_cr (out_text b) \<Longrightarrow> same_outcome b b' \<Longrightarrow>
     same_result (apply_from n [LF] es b) (apply_from n CRLF es b')"
proof (induction es arbitrary: n b b')
  case (Cons e es)
  let ?old = "lf (old_string e)" and ?new = "lf (new_string e)"
  have ok: "no_cr ?old" "no_cr ?new" "?old \<noteq> []" using Cons.prems(1) lf_nonempty by (simp_all add: request_ok_def)
  have b': "out_text b' = crlf (out_text b)" "replacements b' = replacements b" "whitespace_matched b' = whitespace_matched b"
    using Cons.prems(3) by (simp_all add: same_outcome_def)
  note found = find_matches_pos [OF ok(1) Cons.prems(2) ok(3), of "replace_all e"]
  show ?case
  proof (cases "find_matches (out_text b) ?old (replace_all e)")
    case (Inl reason)
    then show ?thesis using found by (simp add: normalize_lf b' same_result_def)
  next
    case (Inr r)
    then obtain rs kind where f: "find_matches (out_text b) ?old (replace_all e) = Inr (rs, kind)" by (cases r) auto
    obtain s spans where one: "replace_ranges rs ?new (out_text b, changed_spans b) = (s, spans)" by (meson surj_pair)
    obtain s' spans' where two: "replace_ranges (map (pos_range (out_text b)) rs) (crlf ?new) (crlf (out_text b), changed_spans b') = (s', spans')"
      by (meson surj_pair)
    have s: "s = foldr (\<lambda>r u. replace_range u r ?new) rs (out_text b)"
      using fst_replace_ranges [of rs ?new "out_text b" "changed_spans b"] one by simp
    have "s' = foldr (\<lambda>r u. replace_range u r (crlf ?new)) (map (pos_range (out_text b)) rs) (crlf (out_text b))"
      using fst_replace_ranges [of "map (pos_range (out_text b)) rs" "crlf ?new" "crlf (out_text b)" "changed_spans b'"] two by simp
    then have s': "s' = crlf s" using replace_ranges_pos [OF find_matches_ordered [OF f]] s by simp
    have "no_cr s" unfolding s by (rule no_cr_replaced [OF ok(2) Cons.prems(2)])
    then show ?thesis using f found one two Cons.prems(1)
      by (simp add: normalize_lf b') (intro conjI impI; rule Cons.IH; simp add: same_outcome_def s' b')
  qed
qed (simp add: same_result_def)

lemma match_one: "length (match_from [c] i s) = length (filter (\<lambda>x. x = c) s)"
  by (induction s arbitrary: i) auto

lemma dominant_lf: "no_cr t \<Longrightarrow> dominant_line_ending t = [LF]"
proof -
  have "match_from CRLF i t = []" if "no_cr t" for i
    using that by (induction t arbitrary: i) (auto simp: CRLF_def)
  then show "no_cr t \<Longrightarrow> ?thesis" by (simp add: dominant_line_ending_def match_indices_def)
qed

lemma dominant_crlf: "no_cr t \<Longrightarrow> LF \<in> set t \<Longrightarrow> dominant_line_ending (crlf t) = CRLF"
proof -
  assume t: "no_cr t" "LF \<in> set t"
  have count: "length (filter (\<lambda>x. x = LF) (crlf t)) = length (filter (\<lambda>x. x = LF) t)" by (induction t) auto
  have "match_indices CRLF (crlf t) = map (pos_range t) (match_indices [LF] t)"
    using match_indices_pos [of "[LF]" t] t(1) by (simp add: CRLF_def)
  then have "length (match_indices CRLF (crlf t)) = length (match_indices [LF] (crlf t))"
    by (simp add: match_indices_def match_one count)
  moreover have "length (match_indices [LF] (crlf t)) \<noteq> 0"
    using t(2) by (simp add: match_indices_def match_one count filter_empty_conv)
  ultimately show ?thesis by (simp add: dominant_line_ending_def Let_def)
qed

text \<open>C14: Editing a file whose lines end with CRLF does what editing the same file with LF does: the same edits succeed or fail, for the same
  reason and counts, with texts that differ in the line ends only. The requests may use either line end.\<close>

theorem line_endings_do_not_matter:
  assumes "no_cr t" "LF \<in> set t" "list_all request_ok es"
  shows "same_result (apply_edits t es) (apply_edits (crlf t) es)"
  unfolding apply_edits_def dominant_lf [OF assms(1)] dominant_crlf [OF assms(1,2)]
  by (rule apply_from_crlf [OF assms(3)]) (simp_all add: assms(1) same_outcome_def)


lemma line_endings_do_not_matter_witness:
  "\<exists>b. apply_edits (crlf sample_text) sample_requests = Inr b \<and> out_text b = crlf (lit ''three'' @ [LF] @ lit ''four'' @ [LF])"
proof -
  have start: "no_cr sample_text" "LF \<in> set sample_text" "list_all request_ok sample_requests"
    unfolding no_cr_def by code_simp+
  have "case apply_edits sample_text sample_requests of Inr b \<Rightarrow> out_text b = lit ''three'' @ [LF] @ lit ''four'' @ [LF] | Inl e \<Rightarrow> False"
    by code_simp
  then show ?thesis using line_endings_do_not_matter [OF start] by (auto simp: same_result_def same_outcome_def split: sum.splits)
qed

end
