(* ===== verification/File_Paths.thy ===== *)
theory File_Paths
  imports Rust_Text
begin

text \<open>
  Paths as the standard library takes them apart (\<open>std::path\<close>), a file system with symbolic links and the calls the file tools
  make on it, and the two ways the program makes a path canonical: that of the write policy
  (\<open>canonicalize_for_check\<close> in \<open>crates/tools/src/path_policy.rs\<close>) and that of the team files (\<open>canonical_key\<close> in
  \<open>crates/workspace/src/team_files.rs\<close>).
\<close>

section \<open>Paths\<close>

datatype component = RootDir | CurDir | ParentDir | Normal ustring

type_synonym path = "component list"

definition is_absolute :: "path \<Rightarrow> bool" where
  "is_absolute p \<longleftrightarrow> p \<noteq> [] \<and> hd p = RootDir"

text \<open>\<open>Path::components\<close>: repeated separators and inner \<open>.\<close> vanish.\<close>

definition component_of :: "ustring \<Rightarrow> component list" where
  "component_of s = (if s = [] \<or> s = lit ''.'' then [] else if s = lit ''..'' then [ParentDir] else [Normal s])"

definition components_of :: "ustring \<Rightarrow> path" where
  "components_of s =
     (let parts = split_on (ch CHR ''/'') s;
          rest = concat (map component_of parts)
      in if s = [] then [] else if hd parts = [] then RootDir # rest else if hd parts = lit ''.'' then CurDir # rest else rest)"

definition join_path :: "path \<Rightarrow> path \<Rightarrow> path" where
  "join_path b p = (if is_absolute p \<or> b = [] then p else b @ filter (\<lambda>c. c \<noteq> CurDir) p)"

definition file_name :: "path \<Rightarrow> ustring option" where
  "file_name p = (if p = [] then None else case last p of Normal x \<Rightarrow> Some x | _ \<Rightarrow> None)"

definition parent :: "path \<Rightarrow> path option" where
  "parent p = (if p = [] \<or> last p = RootDir then None else Some (butlast p))"

lemma parent_shorter: "parent p = Some d \<Longrightarrow> length d < length p"
  by (auto simp: parent_def split: if_splits)

function ancestors :: "path \<Rightarrow> path list" where
  "ancestors p = p # (case parent p of Some d \<Rightarrow> ancestors d | None \<Rightarrow> [])"
  by pat_completeness auto
termination by (relation "measure length") (auto dest: parent_shorter)

declare ancestors.simps [simp del]

definition path_starts_with :: "path \<Rightarrow> path \<Rightarrow> bool" where
  "path_starts_with p q \<longleftrightarrow> take (length q) p = q"

section \<open>The file system\<close>

text \<open>A name in the tree is the list of components from the root, none of them a link. A link holds a path, which may be
  relative to its directory. A file has its bytes and the time of its last change.\<close>

datatype node = Directory | RegularFile "nat list" int | Link path

record fsys =
  nodes :: "ustring list \<Rightarrow> node option"
  cwd :: "ustring list"

datatype fs_error = NotFound | NotADirectory | TooManyLinks | AlreadyExists | IsADirectory

text \<open>The kernel's walk along a path, following links, 40 of them at most. With \<open>create\<close> the last component need not exist.\<close>

function walk :: "fsys \<Rightarrow> bool \<Rightarrow> nat \<Rightarrow> ustring list \<Rightarrow> path \<Rightarrow> fs_error + ustring list" where
  "walk fs create n cur [] = Inr cur"
| "walk fs create n cur (RootDir # p) = walk fs create n [] p"
| "walk fs create n cur (CurDir # p) = walk fs create n cur p"
| "walk fs create n cur (ParentDir # p) = walk fs create n (butlast cur) p"
| "walk fs create n cur (Normal x # p) =
     (case nodes fs (cur @ [x]) of
        None \<Rightarrow> if create \<and> p = [] then Inr (cur @ [x]) else Inl NotFound
      | Some Directory \<Rightarrow> walk fs create n (cur @ [x]) p
      | Some (RegularFile b t) \<Rightarrow> if p = [] then Inr (cur @ [x]) else Inl NotADirectory
      | Some (Link l) \<Rightarrow> if n = 0 then Inl TooManyLinks else walk fs create (n - 1) cur (l @ p))"
  by pat_completeness auto
termination
  by (relation "measures [\<lambda>(fs, create, n, cur, p). n, \<lambda>(fs, create, n, cur, p). length p]") auto

definition MAX_LINKS :: nat where "MAX_LINKS = 40"

definition resolve_in :: "fsys \<Rightarrow> bool \<Rightarrow> path \<Rightarrow> fs_error + ustring list" where
  "resolve_in fs create p = (if p = [] then Inl NotFound else walk fs create MAX_LINKS (cwd fs) p)"

definition path_of_name :: "ustring list \<Rightarrow> path" where
  "path_of_name r = RootDir # map Normal r"

definition canonicalize :: "fsys \<Rightarrow> path \<Rightarrow> path option" where
  "canonicalize fs p = (case resolve_in fs False p of Inr r \<Rightarrow> Some (path_of_name r) | Inl e \<Rightarrow> None)"

definition path_exists :: "fsys \<Rightarrow> path \<Rightarrow> bool" where
  "path_exists fs p \<longleftrightarrow> canonicalize fs p \<noteq> None"

definition node_at :: "fsys \<Rightarrow> path \<Rightarrow> node option" where
  "node_at fs p = (case resolve_in fs False p of Inr r \<Rightarrow> nodes fs r | Inl e \<Rightarrow> None)"

definition is_dir :: "fsys \<Rightarrow> path \<Rightarrow> bool" where
  "is_dir fs p \<longleftrightarrow> node_at fs p = Some Directory"

definition set_node :: "ustring list \<Rightarrow> node \<Rightarrow> fsys \<Rightarrow> fsys" where
  "set_node r v fs = fs\<lparr>nodes := (nodes fs)(r \<mapsto> v)\<rparr>"

text \<open>\<open>mkdir\<close> does not follow a link in the last place.\<close>

definition make_dir :: "fsys \<Rightarrow> path \<Rightarrow> fs_error + fsys" where
  "make_dir fs p =
     (case parent p of
        None \<Rightarrow> Inl (if p = [] then NotFound else AlreadyExists)
      | Some d \<Rightarrow>
          (case walk fs False MAX_LINKS (cwd fs) d of
             Inl e \<Rightarrow> Inl e
           | Inr cur \<Rightarrow>
               if nodes fs cur \<noteq> Some Directory then Inl NotADirectory
               else (case file_name p of
                       None \<Rightarrow> Inl AlreadyExists
                     | Some x \<Rightarrow> if nodes fs (cur @ [x]) = None then Inr (set_node (cur @ [x]) Directory fs) else Inl AlreadyExists)))"

text \<open>\<open>create_dir_all\<close>: parents first, when the directory cannot be made for want of one.\<close>

function create_dir_all :: "fsys \<Rightarrow> path \<Rightarrow> fs_error + fsys" where
  "create_dir_all fs p =
     (if p = [] then Inr fs
      else case make_dir fs p of
             Inr fs \<Rightarrow> Inr fs
           | Inl e \<Rightarrow>
               if e \<noteq> NotFound then (if is_dir fs p then Inr fs else Inl e)
               else (case parent p of
                       None \<Rightarrow> Inl e
                     | Some d \<Rightarrow>
                         (case create_dir_all fs d of
                            Inl e \<Rightarrow> Inl e
                          | Inr fs \<Rightarrow>
                              (case make_dir fs p of
                                 Inr fs \<Rightarrow> Inr fs
                               | Inl e \<Rightarrow> if is_dir fs p then Inr fs else Inl e))))"
  by pat_completeness auto
termination by (relation "measure (\<lambda>(fs, p). length p)") (auto dest: parent_shorter)

declare create_dir_all.simps [simp del]

text \<open>\<open>fs::write\<close> follows links to the last, also to a file that does not exist yet.\<close>

definition write_bytes :: "fsys \<Rightarrow> path \<Rightarrow> nat list \<Rightarrow> int \<Rightarrow> fs_error + fsys" where
  "write_bytes fs p b t =
     (case resolve_in fs True p of
        Inl e \<Rightarrow> Inl e
      | Inr r \<Rightarrow> if nodes fs r = Some Directory then Inl IsADirectory else Inr (set_node r (RegularFile b t) fs))"

section \<open>Making a path canonical\<close>

text \<open>Both climb to the nearest ancestor that exists and put what is missing behind its canonical form.\<close>

function climb :: "fsys \<Rightarrow> path \<Rightarrow> path \<Rightarrow> ustring list \<Rightarrow> path" where
  "climb fs whole e missing =
     (if path_exists fs e then (case canonicalize fs e of Some c \<Rightarrow> c | None \<Rightarrow> e) @ map Normal missing
      else case file_name e of
             None \<Rightarrow> whole
           | Some x \<Rightarrow> (case parent e of None \<Rightarrow> whole | Some d \<Rightarrow> climb fs whole d (x # missing)))"
  by pat_completeness auto
termination by (relation "measure (\<lambda>(fs, whole, e, missing). length e)") (auto dest: parent_shorter)

declare climb.simps [simp del]

definition canonicalize_for_check :: "fsys \<Rightarrow> path \<Rightarrow> path" where
  "canonicalize_for_check fs p = (case canonicalize fs p of Some c \<Rightarrow> c | None \<Rightarrow> climb fs p p [])"

definition normalize :: "path \<Rightarrow> path" where
  "normalize p =
     fold (\<lambda>c n. case c of CurDir \<Rightarrow> n | ParentDir \<Rightarrow> (case parent n of Some d \<Rightarrow> d | None \<Rightarrow> n) | _ \<Rightarrow> join_path n [c]) p []"

definition canonical_key :: "fsys \<Rightarrow> path \<Rightarrow> path" where
  "canonical_key fs p = climb fs (normalize p) (normalize p) []"

end
