(* ===== verification/Write_Policy.thy ===== *)
theory Write_Policy
  imports File_Paths
begin

text \<open>
  The policy the file tools ask before every write (\<open>crates/tools/src/path_policy.rs\<close>), over the file system of
  \<open>File_Paths\<close>: what is blocked, that the path it judges is the path a write reaches, and where that fails.
\<close>

section \<open>The policy\<close>

record write_config =
  config_dir :: path
  modify_mcp :: bool
  modify_channels :: bool

definition in_dir :: "path \<Rightarrow> string \<Rightarrow> path" where
  "in_dir d s = join_path d (components_of (lit s))"

definition always_blocked_paths :: "path \<Rightarrow> path \<Rightarrow> path list" where
  "always_blocked_paths conf hub =
     map (in_dir hub)
       [''secrets.toml.enc'', ''secrets.key'', ''agent-keys.toml.enc'', ''agent-keys.key'', ''agent-keys.lock'', ''a2a-keys.toml'',
        ''a2a-keys.lock'', ''push-vapid.key'', ''push-devices.json'', ''remote-access.json'', ''remote-access''] @
     map (in_dir conf) [''config.example.toml'', ''providers.example.toml'']"

definition blocked_write_paths :: "write_config \<Rightarrow> path \<Rightarrow> path \<Rightarrow> path list" where
  "blocked_write_paths cfg root hub =
     always_blocked_paths (config_dir cfg) hub @
     (if modify_mcp cfg then [] else [in_dir root ''config/mcp.json'']) @
     (if modify_channels cfg then [] else [in_dir root ''config/channels.toml''])"

definition REGENERATED_TEMPLATE_NAMES :: "ustring list" where
  "REGENERATED_TEMPLATE_NAMES = [lit ''config.example.toml'', lit ''providers.example.toml'']"

record path_policy =
  blocked_paths :: "path list"

definition new_policy :: path_policy where
  "new_policy = \<lparr>blocked_paths = []\<rparr>"

definition with_blocked_paths :: "fsys \<Rightarrow> path list \<Rightarrow> path_policy" where
  "with_blocked_paths fs ps = \<lparr>blocked_paths = map (canonicalize_for_check fs) ps\<rparr>"

definition set_blocked_paths :: "fsys \<Rightarrow> path list \<Rightarrow> path_policy \<Rightarrow> path_policy" where
  "set_blocked_paths fs ps pol = pol\<lparr>blocked_paths := map (canonicalize_for_check fs) ps\<rparr>"

datatype write_refusal = RegeneratedTemplate path | UserManaged path

definition check_write :: "fsys \<Rightarrow> path_policy \<Rightarrow> path \<Rightarrow> write_refusal option" where
  "check_write fs pol p =
     (if list_ex (\<lambda>a. a \<in> set (blocked_paths pol)) (ancestors (canonicalize_for_check fs p))
      then Some (case file_name p of
                   Some n \<Rightarrow> if n \<in> set REGENERATED_TEMPLATE_NAMES then RegeneratedTemplate p else UserManaged p
                 | None \<Rightarrow> UserManaged p)
      else None)"

text \<open>The write the tools make once it passed: \<open>WriteTool\<close> first makes the directories above.\<close>

definition write_through :: "fsys \<Rightarrow> path \<Rightarrow> nat list \<Rightarrow> int \<Rightarrow> fs_error + fsys" where
  "write_through fs p b t =
     (case parent p of
        Some d \<Rightarrow> (case create_dir_all fs d of Inl e \<Rightarrow> Inl e | Inr fs \<Rightarrow> write_bytes fs p b t)
      | None \<Rightarrow> write_bytes fs p b t)"

section \<open>Walking\<close>

lemma walk_fuel: "walk fs c n cur p = Inr r \<Longrightarrow> n \<le> m \<Longrightarrow> walk fs c m cur p = Inr r"
proof (induction fs c n cur p arbitrary: m rule: walk.induct)
  case (5 fs c n cur x p)
  show ?case
  proof (cases "nodes fs (cur @ [x])")
    case (Some v)
    show ?thesis
    proof (cases v)
      case (Link l)
      then have "n \<noteq> 0" "walk fs c (n - 1) cur (l @ p) = Inr r" using 5(3) Some by (simp_all split: if_splits)
      then show ?thesis using 5(2) [OF Some Link, of "m - 1"] 5(4) Some Link by simp
    qed (use 5(1) [OF Some] 5(3,4) Some in \<open>simp_all split: if_splits\<close>)
  qed (use 5 in simp)
qed simp_all

lemma walk_create: "walk fs False n cur p = Inr r \<Longrightarrow> walk fs c n cur p = Inr r"
proof (induction fs False n cur p rule: walk.induct)
  case (5 fs n cur x p)
  show ?case
  proof (cases "nodes fs (cur @ [x])")
    case (Some v)
    then show ?thesis using 5 by (cases v) (simp_all split: if_splits)
  qed (use 5 in simp)
qed simp_all

text \<open>A walk that gets through passes by where its first part leads, and goes on from there.\<close>

lemma walk_prefix:
  "walk fs c n cur (p @ q) = Inr r \<Longrightarrow> q \<noteq> [] \<Longrightarrow> \<exists>m cur'. m \<le> n \<and> walk fs False n cur p = Inr cur' \<and> walk fs c m cur' q = Inr r"
proof (induction fs False n cur p rule: walk.induct)
  case (5 fs n cur x p)
  show ?case
  proof (cases "nodes fs (cur @ [x])")
    case (Some v)
    then show ?thesis using 5 by (cases v) (auto split: if_splits intro: le_trans [OF _ diff_le_self])
  qed (use 5 in auto)
qed auto

lemma walk_split:
  "walk fs False n cur p = Inr cur' \<Longrightarrow> nodes fs cur' = Some Directory \<Longrightarrow> \<exists>m\<le>n. walk fs c n cur (p @ q) = walk fs c m cur' q"
proof (induction fs False n cur p rule: walk.induct)
  case (5 fs n cur x p)
  show ?case
  proof (cases "nodes fs (cur @ [x])")
    case (Some v)
    then show ?thesis using 5 by (cases v) (auto split: if_splits intro: le_trans [OF _ diff_le_self])
  qed (use 5 in auto)
qed auto

text \<open>Directories added where nothing was.\<close>

definition adds_dirs :: "fsys \<Rightarrow> fsys \<Rightarrow> bool" where
  "adds_dirs fs fs' \<longleftrightarrow> cwd fs' = cwd fs \<and> (\<forall>q. nodes fs' q = nodes fs q \<or> nodes fs q = None \<and> nodes fs' q = Some Directory)"

lemma adds_dirs_refl [simp]: "adds_dirs fs fs"
  by (simp add: adds_dirs_def)

lemma adds_dirs_trans: "adds_dirs fs fs' \<Longrightarrow> adds_dirs fs' fs'' \<Longrightarrow> adds_dirs fs fs''"
  unfolding adds_dirs_def by metis

lemma adds_dirs_keeps: "adds_dirs fs fs' \<Longrightarrow> nodes fs q = Some v \<Longrightarrow> nodes fs' q = Some v"
  unfolding adds_dirs_def by (metis option.distinct(1))

lemma walk_adds_dirs: "adds_dirs fs fs' \<Longrightarrow> walk fs False n cur p = Inr r \<Longrightarrow> walk fs' False n cur p = Inr r"
proof (induction fs False n cur p rule: walk.induct)
  case (5 fs n cur x p)
  show ?case
  proof (cases "nodes fs (cur @ [x])")
    case (Some v)
    then show ?thesis using 5 adds_dirs_keeps [OF 5(3) Some] by (cases v) (auto split: if_splits)
  qed (use 5 in auto)
qed auto

definition fs_ok :: "fsys \<Rightarrow> bool" where
  "fs_ok fs \<longleftrightarrow> nodes fs [] = Some Directory \<and> (\<forall>q x. nodes fs (q @ [x]) \<noteq> None \<longrightarrow> nodes fs q = Some Directory)"

lemma fs_ok_below: "fs_ok fs \<Longrightarrow> nodes fs q = None \<Longrightarrow> nodes fs (q @ ys) = None"
proof (induction ys rule: rev_induct)
  case (snoc y ys)
  then show ?case unfolding fs_ok_def by (metis append_assoc option.distinct(1))
qed simp


section \<open>Plain paths\<close>

text \<open>An absolute path of names only. Where it exists no further, the policy puts the rest behind what it resolved.\<close>

lemma parent_plain: "parent (path_of_name xs) = (if xs = [] then None else Some (path_of_name (butlast xs)))"
  by (cases xs rule: rev_cases) (auto simp: parent_def path_of_name_def)

lemma file_name_plain: "xs \<noteq> [] \<Longrightarrow> file_name (path_of_name xs) = Some (last xs)"
  by (cases xs rule: rev_cases) (auto simp: file_name_def path_of_name_def)

lemma path_of_name_ne [simp]: "path_of_name xs \<noteq> []"
  by (simp add: path_of_name_def)

lemma path_of_name_append: "path_of_name (xs @ ys) = path_of_name xs @ map Normal ys"
  by (simp add: path_of_name_def)

lemma root_exists: "path_exists fs (path_of_name [])"
  by (simp add: path_exists_def canonicalize_def resolve_in_def path_of_name_def)

lemma climb_plain:
  "\<exists>k\<le>length xs. \<exists>cur. canonicalize fs (path_of_name (take k xs)) = Some (path_of_name cur) \<and>
     climb fs whole (path_of_name xs) m = path_of_name (cur @ drop k xs @ m) \<and>
     (k < length xs \<longrightarrow> \<not> path_exists fs (path_of_name (take (Suc k) xs)))"
proof (induction xs arbitrary: m rule: rev_induct)
  case Nil
  have "canonicalize fs (path_of_name []) = Some (path_of_name [])"
    by (simp add: canonicalize_def resolve_in_def path_of_name_def)
  then show ?case using root_exists [of fs] by (simp add: climb.simps) (simp add: path_of_name_def)
next
  case (snoc x xs)
  show ?case
  proof (cases "canonicalize fs (path_of_name (xs @ [x]))")
    case (Some c)
    then obtain cur where "c = path_of_name cur" by (auto simp: canonicalize_def split: sum.splits)
    with Some show ?thesis
      by (intro exI [of _ "length (xs @ [x])"]) (auto simp: climb.simps path_exists_def path_of_name_append)
  next
    case None
    from snoc.IH [of "x # m"] obtain k cur where k: "k \<le> length xs"
      "canonicalize fs (path_of_name (take k xs)) = Some (path_of_name cur)"
      "climb fs whole (path_of_name xs) (x # m) = path_of_name (cur @ drop k xs @ x # m)"
      "k < length xs \<longrightarrow> \<not> path_exists fs (path_of_name (take (Suc k) xs))" by blast
    have step: "climb fs whole (path_of_name (xs @ [x])) m = climb fs whole (path_of_name xs) (x # m)"
      using None by (subst climb.simps) (simp add: path_exists_def parent_plain file_name_plain)
    have "\<not> path_exists fs (path_of_name (take (Suc k) (xs @ [x])))"
    proof (cases "k < length xs")
      case False
      then show ?thesis using k(1) None by (simp add: path_exists_def)
    qed (use k(4) in simp)
    then show ?thesis using k step by (intro exI [of _ k]) (auto intro!: exI [of _ cur])
  qed
qed

lemma check_climbs: "canonicalize_for_check fs p = climb fs p p []"
  by (cases "canonicalize fs p") (simp_all add: canonicalize_for_check_def climb.simps [of fs p p "[]"] path_exists_def)

text \<open>A link that leads nowhere counts as missing; \<open>lstat\<close> would see it.\<close>

definition is_symlink :: "fsys \<Rightarrow> path \<Rightarrow> bool" where
  "is_symlink fs p =
     (case (parent p, file_name p) of
        (Some d, Some x) \<Rightarrow>
          (case walk fs False MAX_LINKS (cwd fs) d of
             Inr cur \<Rightarrow> (case nodes fs (cur @ [x]) of Some (Link l) \<Rightarrow> True | _ \<Rightarrow> False)
           | Inl e \<Rightarrow> False)
      | _ \<Rightarrow> False)"

definition no_dead_links :: "fsys \<Rightarrow> path \<Rightarrow> bool" where
  "no_dead_links fs p \<longleftrightarrow> list_all (\<lambda>a. is_symlink fs a \<longrightarrow> path_exists fs a) (ancestors p)"

lemma ancestors_plain: "set (ancestors (path_of_name xs)) = {path_of_name (take k xs) | k. k \<le> length xs}"
proof (induction xs rule: rev_induct)
  case Nil
  then show ?case by (subst ancestors.simps) (simp add: parent_plain)
next
  case (snoc x xs)
  have "set (ancestors (path_of_name (xs @ [x]))) = insert (path_of_name (xs @ [x])) (set (ancestors (path_of_name xs)))"
    by (subst ancestors.simps) (simp add: parent_plain)
  also have "\<dots> = {path_of_name (take k (xs @ [x])) | k. k \<le> length (xs @ [x])}"
    unfolding snoc.IH
  proof (intro set_eqI iffI)
    fix q assume "q \<in> {path_of_name (take k (xs @ [x])) | k. k \<le> length (xs @ [x])}"
    then obtain k where "q = path_of_name (take k (xs @ [x]))" "k \<le> Suc (length xs)" by auto
    then show "q \<in> insert (path_of_name (xs @ [x])) {path_of_name (take k xs) | k. k \<le> length xs}"
      by (cases "k = Suc (length xs)") auto
  next
    fix q assume "q \<in> insert (path_of_name (xs @ [x])) {path_of_name (take k xs) | k. k \<le> length xs}"
    then consider "q = path_of_name (xs @ [x])" | k where "q = path_of_name (take k xs)" "k \<le> length xs" by auto
    then show "q \<in> {path_of_name (take k (xs @ [x])) | k. k \<le> length (xs @ [x])}"
    proof cases
      case 1
      then show ?thesis by (intro CollectI exI [of _ "Suc (length xs)"]) simp
    next
      case 2
      then show ?thesis by (intro CollectI exI [of _ k]) simp
    qed
  qed
  finally show ?case .
qed


section \<open>The path that is judged is the path that is written\<close>

lemma write_site:
  assumes "fs_ok fs" "no_dead_links fs (path_of_name xs)"
  shows "\<exists>k\<le>length xs. \<exists>cur. walk fs False MAX_LINKS (cwd fs) (path_of_name (take k xs)) = Inr cur \<and>
    canonicalize_for_check fs (path_of_name xs) = path_of_name (cur @ drop k xs) \<and>
    (k < length xs \<longrightarrow> nodes fs (cur @ [xs ! k]) = None)"
proof -
  obtain k cur where k: "k \<le> length xs" "canonicalize fs (path_of_name (take k xs)) = Some (path_of_name cur)"
    "canonicalize_for_check fs (path_of_name xs) = path_of_name (cur @ drop k xs)"
    "k < length xs \<longrightarrow> \<not> path_exists fs (path_of_name (take (Suc k) xs))"
    using climb_plain [of xs fs "path_of_name xs" "[]"] unfolding check_climbs by auto
  have walk: "walk fs False MAX_LINKS (cwd fs) (path_of_name (take k xs)) = Inr cur"
    using k(2) by (auto simp: canonicalize_def resolve_in_def path_of_name_def inj_map_eq_map inj_def split: sum.splits)
  have "nodes fs (cur @ [xs ! k]) = None" if less: "k < length xs"
  proof (rule ccontr)
    assume some: "nodes fs (cur @ [xs ! k]) \<noteq> None"
    then have dir: "nodes fs cur = Some Directory" using assms(1) unfolding fs_ok_def by blast
    have next_path: "path_of_name (take (Suc k) xs) = path_of_name (take k xs) @ [Normal (xs ! k)]"
      using less by (simp add: take_Suc_conv_app_nth path_of_name_append)
    obtain m where m: "walk fs False MAX_LINKS (cwd fs) (path_of_name (take (Suc k) xs)) = walk fs False m cur [Normal (xs ! k)]"
      using walk_split [OF walk dir] unfolding next_path by blast
    have gone: "\<not> path_exists fs (path_of_name (take (Suc k) xs))" using k(4) less by blast
    obtain v where v: "nodes fs (cur @ [xs ! k]) = Some v" using some by blast
    show False
    proof (cases v)
      case (Link l)
      have "parent (path_of_name (take (Suc k) xs)) = Some (path_of_name (take k xs))"
        "file_name (path_of_name (take (Suc k) xs)) = Some (xs ! k)"
        using less by (auto simp: parent_plain file_name_plain take_Suc_conv_app_nth)
      then have "is_symlink fs (path_of_name (take (Suc k) xs))" by (simp add: is_symlink_def walk v Link)
      moreover have "path_of_name (take (Suc k) xs) \<in> set (ancestors (path_of_name xs))"
        using less unfolding ancestors_plain by (auto intro: exI [of _ "Suc k"])
      ultimately show False using assms(2) gone by (simp add: no_dead_links_def list_all_iff)
    qed (use m gone v in \<open>simp_all add: path_exists_def canonicalize_def resolve_in_def\<close>)
  qed
  with k(1,3) walk show ?thesis by blast
qed

lemma walk_fresh:
  "\<forall>i<length ys. nodes fs (cur @ take (Suc i) ys) \<in> {None, Some Directory} \<Longrightarrow> walk fs c m cur (map Normal ys) = Inr q \<Longrightarrow> q = cur @ ys"
proof (induction ys arbitrary: cur)
  case (Cons y ys)
  have first: "nodes fs (cur @ [y]) \<in> {None, Some Directory}" using Cons.prems(1) [rule_format, of 0] by simp
  show ?case
  proof (cases "nodes fs (cur @ [y])")
    case None
    then show ?thesis using Cons.prems(2) by (simp split: if_splits)
  next
    case (Some v)
    then have v: "v = Directory" using first by simp
    have "\<forall>i<length ys. nodes fs ((cur @ [y]) @ take (Suc i) ys) \<in> {None, Some Directory}"
      using Cons.prems(1) by (metis Suc_less_eq append.assoc append_Cons append_Nil length_Cons take_Suc_Cons)
    moreover have "walk fs c m (cur @ [y]) (map Normal ys) = Inr q" using Cons.prems(2) Some v by simp
    ultimately show ?thesis using Cons.IH [of "cur @ [y]"] by simp
  qed
qed simp

lemma added_below:
  assumes "fs_ok fs" "adds_dirs fs fs'" "nodes fs (cur @ [x]) = None"
  shows "nodes fs' (cur @ x # ys) \<in> {None, Some Directory}"
proof -
  have "nodes fs (cur @ x # ys) = None" using fs_ok_below [OF assms(1,3), of ys] by simp
  then show ?thesis using assms(2) unfolding adds_dirs_def by (metis insertCI)
qed

lemma walk_beyond:
  assumes "fs_ok fs" "adds_dirs fs fs'" "walk fs False MAX_LINKS (cwd fs) (path_of_name (take k xs)) = Inr cur"
    and "k < length xs \<longrightarrow> nodes fs (cur @ [xs ! k]) = None" "k \<le> i" "i \<le> length xs"
    and "walk fs' c MAX_LINKS (cwd fs') (path_of_name (take i xs)) = Inr q"
  shows "q = cur @ take (i - k) (drop k xs)"
proof (cases "i = k")
  case True
  have "walk fs' c MAX_LINKS (cwd fs') (path_of_name (take k xs)) = Inr cur"
    using walk_create [OF walk_adds_dirs [OF assms(2,3)]] assms(2) by (simp add: adds_dirs_def)
  then show ?thesis using assms(7) True by simp
next
  case False
  then have less: "k < i" using assms(5) by simp
  let ?ys = "take (i - k) (drop k xs)"
  have ys: "?ys = xs ! k # take (i - Suc k) (drop (Suc k) xs)"
    using less assms(6) by (simp add: Cons_nth_drop_Suc [symmetric] take_Cons' Suc_diff_Suc)
  have "take i xs = take k xs @ ?ys" using less by (metis le_add_diff_inverse less_or_eq_imp_le take_add)
  then have p: "path_of_name (take i xs) = path_of_name (take k xs) @ map Normal ?ys" by (simp add: path_of_name_append)
  obtain m cur' where m: "walk fs' False MAX_LINKS (cwd fs') (path_of_name (take k xs)) = Inr cur'"
    "walk fs' c m cur' (map Normal ?ys) = Inr q"
    using walk_prefix [of fs' c MAX_LINKS "cwd fs'" "path_of_name (take k xs)" "map Normal ?ys" q] assms(7) ys unfolding p by auto
  have "cur' = cur" using m(1) walk_adds_dirs [OF assms(2,3)] assms(2) by (simp add: adds_dirs_def)
  moreover have "\<forall>j<length ?ys. nodes fs' (cur @ take (Suc j) ?ys) \<in> {None, Some Directory}"
    using added_below [OF assms(1,2)] assms(4) less assms(6) unfolding ys take_Suc_Cons by auto
  ultimately show ?thesis using walk_fresh m(2) by blast
qed


text \<open>The directories made on the way are the missing ones, and no others.\<close>

definition fills :: "ustring list \<Rightarrow> ustring list \<Rightarrow> nat \<Rightarrow> fsys \<Rightarrow> fsys \<Rightarrow> bool" where
  "fills cur ys n fs fs' \<longleftrightarrow>
     adds_dirs fs fs' \<and> (\<forall>q. nodes fs' q \<noteq> nodes fs q \<longrightarrow> (\<exists>i. 0 < i \<and> i \<le> n \<and> q = cur @ take i ys))"

lemma fills_refl: "fills cur ys n fs fs"
  by (simp add: fills_def)

lemma fills_trans: "fills cur ys n fs fs' \<Longrightarrow> fills cur ys n fs' fs'' \<Longrightarrow> fills cur ys n fs fs''"
  unfolding fills_def using adds_dirs_trans by metis

lemma fills_mono: "fills cur ys n fs fs' \<Longrightarrow> n \<le> n' \<Longrightarrow> fills cur ys n' fs fs'"
  unfolding fills_def by (meson le_trans)

lemma make_dir_fills:
  assumes "fs_ok fs" "adds_dirs fs fs'" "walk fs False MAX_LINKS (cwd fs) (path_of_name (take k xs)) = Inr cur"
    and "k < length xs \<longrightarrow> nodes fs (cur @ [xs ! k]) = None" "j \<le> length xs"
    and "make_dir fs' (path_of_name (take j xs)) = Inr fs''"
  shows "fills cur (drop k xs) (j - k) fs' fs''"
proof -
  have j: "0 < j" using assms(6) by (cases j) (simp_all add: make_dir_def parent_plain)
  then have take_j: "take j xs = take (j - 1) xs @ [xs ! (j - 1)]"
    using assms(5) by (cases j) (simp_all add: take_Suc_conv_app_nth)
  have up: "parent (path_of_name (take j xs)) = Some (path_of_name (take (j - 1) xs))"
    "file_name (path_of_name (take j xs)) = Some (xs ! (j - 1))"
    unfolding take_j by (simp_all add: parent_plain file_name_plain)
  obtain c where c: "walk fs' False MAX_LINKS (cwd fs') (path_of_name (take (j - 1) xs)) = Inr c" "nodes fs' c = Some Directory"
    "nodes fs' (c @ [xs ! (j - 1)]) = None" "fs'' = set_node (c @ [xs ! (j - 1)]) Directory fs'"
    using assms(6) up by (auto simp: make_dir_def split: sum.splits if_splits)
  have beyond: "k < j"
  proof (rule ccontr)
    assume "\<not> k < j"
    then have "\<exists>r. walk fs False MAX_LINKS (cwd fs) (path_of_name (take j xs)) = Inr r"
    proof (cases "j = k")
      case False
      let ?ys = "take (k - j) (drop j xs)"
      have "take k xs = take j xs @ ?ys" using take_add [of j "k - j" xs] \<open>\<not> k < j\<close> by simp
      then have p: "path_of_name (take k xs) = path_of_name (take j xs) @ map Normal ?ys" by (metis path_of_name_append)
      show ?thesis
      proof (cases "?ys = []")
        case True
        have "path_of_name (take k xs) = path_of_name (take j xs)" using p unfolding True by simp
        then show ?thesis using assms(3) by metis
      next
        case False
        then show ?thesis using walk_prefix [of fs False MAX_LINKS "cwd fs" "path_of_name (take j xs)" "map Normal ?ys" cur] assms(3)
          unfolding p by auto
      qed
    qed (use assms(3) in blast)
    then obtain r where "walk fs' False MAX_LINKS (cwd fs') (path_of_name (take j xs)) = Inr r"
      using walk_adds_dirs [OF assms(2)] assms(2) by (fastforce simp: adds_dirs_def)
    then show False using walk_split [OF c(1,2), of False "[Normal (xs ! (j - 1))]"] c(3) unfolding take_j path_of_name_append by auto
  qed
  have "c = cur @ take (j - 1 - k) (drop k xs)"
    using walk_beyond [OF assms(1-4) _ _ c(1)] beyond assms(5) by simp
  then have "c @ [xs ! (j - 1)] = cur @ take (j - k) (drop k xs)"
  proof -
    have "take (j - k) (drop k xs) = take (j - 1 - k) (drop k xs) @ [drop k xs ! (j - 1 - k)]"
    proof -
      have "j - k = Suc (j - 1 - k)" "j - 1 - k < length (drop k xs)" using beyond assms(5) by simp_all
      then show ?thesis using take_Suc_conv_app_nth by metis
    qed
    then show ?thesis using \<open>c = _\<close> beyond assms(5) by simp
  qed
  moreover have "adds_dirs fs' fs''" using c(3) by (auto simp: adds_dirs_def c(4) set_node_def)
  ultimately show ?thesis using beyond by (auto simp: fills_def c(4) set_node_def intro!: exI [of _ "j - k"])
qed

lemma create_dirs_fills:
  assumes "fs_ok fs" "walk fs False MAX_LINKS (cwd fs) (path_of_name (take k xs)) = Inr cur"
    and "k < length xs \<longrightarrow> nodes fs (cur @ [xs ! k]) = None"
  shows "adds_dirs fs fs' \<Longrightarrow> j \<le> length xs \<Longrightarrow> create_dir_all fs' (path_of_name (take j xs)) = Inr fs'' \<Longrightarrow> fills cur (drop k xs) (j - k) fs' fs''"
proof (induction j arbitrary: fs' fs'')
  case 0
  then show ?case by (auto simp: create_dir_all.simps make_dir_def parent_plain fills_refl split: if_splits)
next
  case (Suc j)
  note made = make_dir_fills [OF assms(1) _ assms(2,3) Suc.prems(2)]
  let ?p = "path_of_name (take (Suc j) xs)"
  have up: "parent ?p = Some (path_of_name (take j xs))" using Suc.prems(2) by (auto simp: parent_plain take_Suc_conv_app_nth)
  show ?case
  proof (cases "make_dir fs' ?p")
    case (Inr fs1)
    then have "fs'' = fs1" using Suc.prems(3) by (simp add: create_dir_all.simps [of fs'])
    then show ?thesis using made [OF Suc.prems(1)] Inr by simp
  next
    case (Inl e)
    show ?thesis
    proof (cases "e = NotFound")
      case False
      then show ?thesis using Suc.prems(3) Inl by (simp add: create_dir_all.simps [of fs'] fills_refl split: if_splits)
    next
      case True
      then obtain fs1 where one: "create_dir_all fs' (path_of_name (take j xs)) = Inr fs1"
        and two: "(case make_dir fs1 ?p of Inr fs2 \<Rightarrow> Inr fs2 | Inl e \<Rightarrow> if is_dir fs1 ?p then Inr fs1 else Inl e) = Inr fs''"
        using Suc.prems(3) Inl up by (auto simp: create_dir_all.simps [of fs' ?p] split: sum.splits)
      have f1: "fills cur (drop k xs) (j - k) fs' fs1" using Suc.IH [OF Suc.prems(1) _ one] Suc.prems(2) by simp
      then have f1': "fills cur (drop k xs) (Suc j - k) fs' fs1" by (rule fills_mono) simp
      have "adds_dirs fs fs1" using f1 Suc.prems(1) adds_dirs_trans unfolding fills_def by blast
      then have "fills cur (drop k xs) (Suc j - k) fs1 fs''"
        using made two by (cases "make_dir fs1 ?p") (auto simp: fills_refl split: if_splits)
      then show ?thesis by (rule fills_trans [OF f1'])
    qed
  qed
qed


lemma write_outcome:
  assumes "fs_ok fs" "no_dead_links fs (path_of_name xs)" "xs \<noteq> []"
    and "write_through fs (path_of_name xs) b t = Inr fs'"
  shows "\<exists>r. canonicalize_for_check fs (path_of_name xs) = path_of_name r \<and> nodes fs' r = Some (RegularFile b t) \<and>
    (\<forall>q. q \<noteq> r \<longrightarrow> nodes fs' q = nodes fs q \<or>
       nodes fs q = None \<and> nodes fs' q = Some Directory \<and> (\<exists>ys. ys \<noteq> [] \<and> r = q @ ys))"
proof -
  obtain k cur where k: "k \<le> length xs" "walk fs False MAX_LINKS (cwd fs) (path_of_name (take k xs)) = Inr cur"
    "canonicalize_for_check fs (path_of_name xs) = path_of_name (cur @ drop k xs)"
    "k < length xs \<longrightarrow> nodes fs (cur @ [xs ! k]) = None"
    using write_site [OF assms(1,2)] by blast
  let ?n = "length xs - 1"
  have up: "parent (path_of_name xs) = Some (path_of_name (take ?n xs))" using assms(3) by (simp add: parent_plain butlast_conv_take)
  obtain fs1 where fs1: "create_dir_all fs (path_of_name (take ?n xs)) = Inr fs1" "write_bytes fs1 (path_of_name xs) b t = Inr fs'"
    using assms(4) up by (auto simp: write_through_def split: sum.splits)
  have fills: "fills cur (drop k xs) (?n - k) fs fs1"
    by (rule create_dirs_fills [OF assms(1) k(2,4) adds_dirs_refl _ fs1(1)]) simp
  then have adds: "adds_dirs fs fs1" by (simp add: fills_def)
  obtain r where r: "walk fs1 True MAX_LINKS (cwd fs1) (path_of_name xs) = Inr r" "fs' = set_node r (RegularFile b t) fs1"
    using fs1(2) by (auto simp: write_bytes_def resolve_in_def split: sum.splits if_splits)
  have "r = cur @ drop k xs"
    using walk_beyond [OF assms(1) adds k(2,4) k(1) order_refl, of True r] r(1) by simp
  moreover have "nodes fs' q = nodes fs q \<or> nodes fs q = None \<and> nodes fs' q = Some Directory \<and> (\<exists>ys. ys \<noteq> [] \<and> r = q @ ys)"
    if ne: "q \<noteq> r" for q
  proof (cases "nodes fs1 q = nodes fs q")
    case False
    then have "nodes fs q = None" "nodes fs1 q = Some Directory" using adds unfolding adds_dirs_def by metis+
    moreover obtain i where i: "0 < i" "i \<le> ?n - k" "q = cur @ take i (drop k xs)" using fills False unfolding fills_def by blast
    moreover have "drop i (drop k xs) \<noteq> []" using i(1,2) by auto
    moreover have "r = q @ drop i (drop k xs)" using \<open>r = _\<close> i(3) by (simp only: append_assoc append_take_drop_id)
    ultimately show ?thesis using ne by (auto simp: r(2) set_node_def)
  qed (use ne in \<open>simp add: r(2) set_node_def\<close>)
  ultimately show ?thesis using k(3) by (auto simp: r(2) set_node_def)
qed


lemma refused_below: "check_write fs pol p = None \<Longrightarrow> canonicalize_for_check fs p = path_of_name (bn @ ys) \<Longrightarrow> path_of_name bn \<notin> set (blocked_paths pol)"
proof
  assume a: "check_write fs pol p = None" "canonicalize_for_check fs p = path_of_name (bn @ ys)" "path_of_name bn \<in> set (blocked_paths pol)"
  have "path_of_name bn \<in> set (ancestors (path_of_name (bn @ ys)))"
    unfolding ancestors_plain by (intro CollectI exI [of _ "length bn"]) simp
  then show False using a by (auto simp: check_write_def list_ex_iff split: if_splits)
qed

text \<open>For a plain path without a dead link on it, the file that is written is the one the policy judged, and all else that
  changes are the missing directories above it.\<close>

theorem judged_path_is_written:
  assumes "fs_ok fs" "no_dead_links fs (path_of_name xs)" "xs \<noteq> []"
    and "write_through fs (path_of_name xs) b t = Inr fs'"
  shows "\<exists>r. canonicalize_for_check fs (path_of_name xs) = path_of_name r \<and> nodes fs' r = Some (RegularFile b t) \<and>
    (\<forall>q. q \<noteq> r \<longrightarrow> nodes fs' q = nodes fs q \<or>
       nodes fs q = None \<and> nodes fs' q = Some Directory \<and> (\<exists>ys. ys \<noteq> [] \<and> r = q @ ys))"
  by (rule write_outcome [OF assms])


section \<open>A small tree\<close>

definition sample_fs :: fsys where
  "sample_fs = \<lparr>nodes = map_of
     [([], Directory), ([lit ''hub''], Directory), ([lit ''ws''], Directory),
      ([lit ''hub'', lit ''secrets.key''], RegularFile [1, 2, 3] 0),
      ([lit ''ws'', lit ''link''], Link (components_of (lit ''/hub/push-vapid.key'')))], cwd = [lit ''ws'']\<rparr>"

definition sample_policy :: path_policy where
  "sample_policy = with_blocked_paths sample_fs
     (blocked_write_paths \<lparr>config_dir = components_of (lit ''/ws/config''), modify_mcp = False, modify_channels = True\<rparr>
       (components_of (lit ''/ws'')) (components_of (lit ''/hub'')))"

lemma sample_fs_ok: "fs_ok sample_fs"
  unfolding fs_ok_def
proof (intro conjI allI impI)
  fix q x assume "nodes sample_fs (q @ [x]) \<noteq> None"
  then have "q = [] \<or> q = [lit ''hub''] \<or> q = [lit ''ws'']"
    by (auto simp: sample_fs_def append_eq_Cons_conv split: if_splits)
  then show "nodes sample_fs q = Some Directory" by (elim disjE) (simp_all add: sample_fs_def)
qed (simp add: sample_fs_def)

definition sample_names :: "ustring list" where
  "sample_names = [lit ''ws'', lit ''notes'', lit ''a.md'']"

lemma sample_write:
  "\<exists>fs'. write_through sample_fs (path_of_name sample_names) [7] 1 = Inr fs'"
proof -
  have "case write_through sample_fs (path_of_name sample_names) [7] 1 of Inr fs' \<Rightarrow> True | Inl e \<Rightarrow> False" by code_simp
  then show ?thesis by (auto split: sum.splits)
qed

lemma sample_links: "no_dead_links sample_fs (path_of_name sample_names)" "sample_names \<noteq> []"
  "check_write sample_fs sample_policy (path_of_name sample_names) = None"
  "path_of_name [lit ''hub'', lit ''secrets.key''] \<in> set (blocked_paths sample_policy)"
  by code_simp+

lemma judged_path_is_written_witness:
  "\<exists>fs' r. write_through sample_fs (path_of_name sample_names) [7] 1 = Inr fs' \<and>
     canonicalize_for_check sample_fs (path_of_name sample_names) = path_of_name r \<and> nodes fs' r = Some (RegularFile [7] 1)"
proof -
  obtain fs' where w: "write_through sample_fs (path_of_name sample_names) [7] 1 = Inr fs'" using sample_write by blast
  from judged_path_is_written [OF sample_fs_ok sample_links(1,2) w] w show ?thesis by blast
qed


section \<open>Two ways around the policy\<close>

definition written_at :: "ustring list \<Rightarrow> fs_error + fsys \<Rightarrow> node option" where
  "written_at q r = (case r of Inr fs \<Rightarrow> nodes fs q | Inl e \<Rightarrow> None)"

text \<open>A path that goes through a directory that does not exist and out of it again is judged as it stands; the directory is
  made before the write, and the write overwrites a credential store.\<close>

lemma missing_directory_hides_the_target:
  "let p = components_of (lit ''/ws/x/../../hub/secrets.key'')
   in check_write sample_fs sample_policy p = None \<and> \<not> path_exists sample_fs p \<and>
      written_at [lit ''hub'', lit ''secrets.key''] (write_through sample_fs p [7] 1) = Some (RegularFile [7] 1)"
  by code_simp

text \<open>A link to a blocked file that does not exist yet counts as missing, so it is judged by its own name; the write makes the
  blocked file.\<close>

lemma dead_link_hides_the_target:
  "let p = components_of (lit ''/ws/link'')
   in check_write sample_fs sample_policy p = None \<and>
      written_at [lit ''hub'', lit ''push-vapid.key''] (write_through sample_fs p [7] 1) = Some (RegularFile [7] 1)"
  by code_simp

text \<open>Both ways of making a path canonical differ where a link is followed by \<open>..\<close>: the team files' way takes the name
  before it off, the kernel the directory the link leads to.\<close>

definition linked_fs :: fsys where
  "linked_fs = \<lparr>nodes = map_of
     [([], Directory), ([lit ''ws''], Directory), ([lit ''team''], Directory), ([lit ''team'', lit ''wiki''], Directory),
      ([lit ''ws'', lit ''w''], Link (components_of (lit ''/team/wiki'')))], cwd = [lit ''ws'']\<rparr>"

lemma key_and_kernel_disagree:
  "let p = components_of (lit ''/ws/w/../plan.md'')
   in canonical_key linked_fs p = path_of_name [lit ''ws'', lit ''plan.md''] \<and>
      written_at [lit ''team'', lit ''plan.md''] (write_through linked_fs p [7] 1) = Some (RegularFile [7] 1)"
  by code_simp

end
