(* ===== verification/Team_Files.thy ===== *)
theory Team_Files
  imports Write_Policy Text_Edits "HOL-Library.List_Lexorder"
begin

text \<open>
  The shared team directory (\<open>crates/workspace/src/team_files.rs\<close>): how a tool's path finds its place in it, the coordinator that
  keeps a record of the last write of each file and a lock for it, what a tool set remembers of the files it read
  (\<open>crates/tools/src/file_tracker.rs\<close>), and the calls of \<open>read_file\<close>, \<open>write_file\<close> and \<open>edit_file\<close> on team files as steps that others'
  may come between.
\<close>

section \<open>The namespace\<close>

definition TEAM_PREFIX :: ustring where "TEAM_PREFIX = lit ''team''"

datatype team_writer = AgentWriter ustring | UserWriter

definition writer_label :: "team_writer \<Rightarrow> ustring" where
  "writer_label w = (case w of AgentWriter n \<Rightarrow> lit ''agent:'' @ n | UserWriter \<Rightarrow> lit ''user'')"

record team_view =
  team_root :: path
  view_writer :: team_writer
  agent_dir :: path

definition team_relative_path :: "path \<Rightarrow> path option" where
  "team_relative_path p =
     (if is_absolute p then None
      else (case dropWhile (\<lambda>c. c = CurDir) p of
              Normal x # rest \<Rightarrow> if x = TEAM_PREFIX then Some rest else None
            | _ \<Rightarrow> None))"

definition locate :: "team_view \<Rightarrow> path \<Rightarrow> path \<times> path" where
  "locate v p = (case team_relative_path p of Some rest \<Rightarrow> (team_root v, rest) | None \<Rightarrow> (agent_dir v, p))"

definition resolve_path :: "team_view \<Rightarrow> path \<Rightarrow> path" where
  "resolve_path v p = (case locate v p of (b, rest) \<Rightarrow> join_path b rest)"

definition is_team_path :: "fsys \<Rightarrow> team_view \<Rightarrow> path \<Rightarrow> bool" where
  "is_team_path fs v p \<longleftrightarrow> path_starts_with (canonical_key fs p) (canonical_key fs (team_root v))"

definition check_no_agent_team_entry :: "fsys \<Rightarrow> team_view \<Rightarrow> path \<Rightarrow> bool" where
  "check_no_agent_team_entry fs v p \<longleftrightarrow>
     \<not> path_starts_with (canonical_key fs p) (canonical_key fs (join_path (agent_dir v) [Normal TEAM_PREFIX]))"

section \<open>The coordinator\<close>

text \<open>A version is the time and the size of a file.\<close>

type_synonym version = "(int \<times> nat) option"

record file_stamp =
  stamp_version :: version
  stamp_generation :: nat

record path_record =
  record_generation :: nat
  record_last :: "(team_writer \<times> version) option"

record coordinator =
  records :: "(path, path_record) hmap"
  removed_trees :: "(path, team_writer) hmap"

definition new_coordinator :: coordinator where
  "new_coordinator = \<lparr>records = [], removed_trees = []\<rparr>"

definition generation_at :: "coordinator \<Rightarrow> path \<Rightarrow> nat" where
  "generation_at c k = (case hm_get (records c) k of Some r \<Rightarrow> record_generation r | None \<Rightarrow> 0)"

definition take_stamp :: "coordinator \<Rightarrow> path \<Rightarrow> version \<Rightarrow> file_stamp" where
  "take_stamp c k v = \<lparr>stamp_version = v, stamp_generation = generation_at c k\<rparr>"

definition last_writer :: "coordinator \<Rightarrow> path \<Rightarrow> file_stamp \<Rightarrow> team_writer option" where
  "last_writer c k cur =
     (let recorded = (case hm_get (records c) k of
                        Some r \<Rightarrow> (case record_last r of Some (w, v) \<Rightarrow> if v = stamp_version cur then Some w else None | None \<Rightarrow> None)
                      | None \<Rightarrow> None)
      in if recorded \<noteq> None \<or> stamp_version cur \<noteq> None then recorded
         else map_option snd (find (\<lambda>t. path_starts_with k (fst t)) (removed_trees c)))"

record team_conflict =
  changed_by :: "team_writer option"
  missing :: bool

definition check_stamp :: "coordinator \<Rightarrow> path \<Rightarrow> version \<Rightarrow> file_stamp option \<Rightarrow> team_conflict option" where
  "check_stamp c k v expected =
     (let cur = take_stamp c k v;
          unchanged = (case expected of Some seen \<Rightarrow> seen = cur | None \<Rightarrow> v = None)
      in if unchanged then None else Some \<lparr>changed_by = last_writer c k cur, missing = (v = None)\<rparr>)"

definition record_write :: "coordinator \<Rightarrow> path \<Rightarrow> team_writer \<Rightarrow> version \<Rightarrow> coordinator \<times> file_stamp" where
  "record_write c k w v =
     (let g = generation_at c k + 1
      in (c\<lparr>records := hm_insert k \<lparr>record_generation = g, record_last = Some (w, v)\<rparr> (records c)\<rparr>,
          \<lparr>stamp_version = v, stamp_generation = g\<rparr>))"

definition record_removed :: "coordinator \<Rightarrow> path \<Rightarrow> team_writer \<Rightarrow> coordinator" where
  "record_removed c k w = fst (record_write c k w None)"

definition TREE_MARKER_LIMIT :: nat where "TREE_MARKER_LIMIT = 256"

definition record_tree_removed :: "coordinator \<Rightarrow> path \<Rightarrow> team_writer \<Rightarrow> coordinator" where
  "record_tree_removed c k w =
     c\<lparr>removed_trees := hm_insert k w (if length (removed_trees c) \<ge> TREE_MARKER_LIMIT then [] else removed_trees c)\<rparr>"

datatype conflict_who = OwnOtherSession | Teammate ustring | TheUser | UnknownWriter

definition conflict_message :: "team_writer \<Rightarrow> team_conflict \<Rightarrow> conflict_who \<times> bool" where
  "conflict_message self x =
     (case changed_by x of
        Some w \<Rightarrow> if w = self then OwnOtherSession else (case w of AgentWriter n \<Rightarrow> Teammate n | UserWriter \<Rightarrow> TheUser)
      | None \<Rightarrow> UnknownWriter, missing x)"

section \<open>What a tool set remembers\<close>

record file_tracker =
  read_paths :: "path list"
  team_stamps :: "(path, file_stamp) hmap"

definition new_tracker :: file_tracker where
  "new_tracker = \<lparr>read_paths = [], team_stamps = []\<rparr>"

definition record_read :: "path \<Rightarrow> file_tracker \<Rightarrow> file_tracker" where
  "record_read k t = t\<lparr>read_paths := List.insert k (read_paths t)\<rparr>"

definition record_team_read :: "path \<Rightarrow> file_stamp option \<Rightarrow> file_tracker \<Rightarrow> file_tracker" where
  "record_team_read k st t =
     (let t = record_read k t
      in t\<lparr>team_stamps := (case st of Some s \<Rightarrow> hm_insert k s (team_stamps t) | None \<Rightarrow> hm_remove k (team_stamps t))\<rparr>)"

definition team_stamp :: "path \<Rightarrow> file_tracker \<Rightarrow> file_stamp option" where
  "team_stamp k t = hm_get (team_stamps t) k"

definition has_been_read :: "path \<Rightarrow> file_tracker \<Rightarrow> bool" where
  "has_been_read k t \<longleftrightarrow> k \<in> set (read_paths t)"


section \<open>Calls on team files\<close>

text \<open>Files are named by their key. A tool set has one call at a time: \<open>read_file\<close> takes the file's generation, then its version, and
  then reads; \<open>write_file\<close> and \<open>edit_file\<close> wait for the file's lock, check under it, and write. The write and its record are one
  step: a reader that comes between them gets what one gets that took the generation before the step and the rest after it. \<open>issued\<close>
  and \<open>seen\<close> are ledgers: every stamp given out, and what the tool set last saw of a file. The content of a file is its text.\<close>

datatype job = WriteBytes "nat list" | EditFile "edit_request list"

datatype call_phase = NoCall | Stamping path nat | Reading path file_stamp | AwaitLock path job | Checked path job

record team_world =
  disk :: "path \<Rightarrow> (nat list \<times> int) option"
  coord :: coordinator
  lock_holder :: "path \<Rightarrow> nat option"
  trackers :: "nat \<Rightarrow> file_tracker"
  phases :: "nat \<Rightarrow> call_phase"
  writers :: "nat \<Rightarrow> team_writer"
  issued :: "(path \<times> file_stamp) list"
  seen :: "nat \<Rightarrow> path \<Rightarrow> nat list option"

definition disk_version :: "team_world \<Rightarrow> path \<Rightarrow> version" where
  "disk_version w k = map_option (\<lambda>(b, t). (t, length b)) (disk w k)"

definition disk_content :: "team_world \<Rightarrow> path \<Rightarrow> nat list option" where
  "disk_content w k = map_option fst (disk w k)"

definition stamp_now :: "team_world \<Rightarrow> path \<Rightarrow> file_stamp" where
  "stamp_now w k = take_stamp (coord w) k (disk_version w k)"

datatype team_event =
    TakesGeneration nat path
  | TakesVersion nat
  | Reads nat
  | Calls nat path job
  | TakesLock nat
  | Finishes nat int
  | Outside path "(nat list \<times> int) option"

datatype call_result = ReadOk "nat list" | ReadMissing | NotRead | DoesNotExist | Refused "conflict_who \<times> bool" | EditFailed | Written

definition remember :: "nat \<Rightarrow> path \<Rightarrow> file_stamp \<Rightarrow> nat list option \<Rightarrow> team_world \<Rightarrow> team_world" where
  "remember i k st b w =
     w\<lparr>trackers := (trackers w)(i := record_team_read k (Some st) (trackers w i)), seen := (seen w)(i := (seen w i)(k := b))\<rparr>"

definition set_phase :: "nat \<Rightarrow> call_phase \<Rightarrow> team_world \<Rightarrow> team_world" where
  "set_phase i p w = w\<lparr>phases := (phases w)(i := p)\<rparr>"

text \<open>\<open>TeamPathGuard::commit\<close>, and \<open>commit_team_write\<close> around it.\<close>

definition commit_team_write :: "nat \<Rightarrow> path \<Rightarrow> nat list \<Rightarrow> int \<Rightarrow> team_world \<Rightarrow> team_world" where
  "commit_team_write i k b t w =
     (case record_write (coord w) k (writers w i) (Some (t, length b)) of (c, st) \<Rightarrow>
        remember i k st (Some b) (w\<lparr>disk := (disk w)(k \<mapsto> (b, t)), coord := c, issued := (k, st) # issued w\<rparr>))"

definition job_result :: "job \<Rightarrow> nat list option \<Rightarrow> nat list option" where
  "job_result j original =
     (case j of
        WriteBytes b \<Rightarrow> Some b
      | EditFile es \<Rightarrow>
          (case original of
             Some s \<Rightarrow> (case apply_edits s es of Inr b \<Rightarrow> Some (out_text b) | Inl e \<Rightarrow> None)
           | None \<Rightarrow> None))"

fun team_step :: "team_world \<Rightarrow> team_event \<Rightarrow> team_world \<times> call_result option" where
  "team_step w (TakesGeneration i k) =
     (if phases w i = NoCall then (set_phase i (Stamping k (generation_at (coord w) k)) w, None) else (w, None))"
| "team_step w (TakesVersion i) =
     (case phases w i of
        Stamping k g \<Rightarrow>
          (let st = \<lparr>stamp_version = disk_version w k, stamp_generation = g\<rparr>
           in (set_phase i (Reading k st) (w\<lparr>issued := (k, st) # issued w\<rparr>), None))
      | _ \<Rightarrow> (w, None))"
| "team_step w (Reads i) =
     (case phases w i of
        Reading k st \<Rightarrow>
          (case disk_content w k of
             Some b \<Rightarrow> (set_phase i NoCall (remember i k st (Some b) w), Some (ReadOk b))
           | None \<Rightarrow> (set_phase i NoCall (if stamp_version st = None then remember i k st None w else w), Some ReadMissing))
      | _ \<Rightarrow> (w, None))"
| "team_step w (Calls i k j) =
     (if phases w i \<noteq> NoCall then (w, None)
      else (case j of
              WriteBytes b \<Rightarrow>
                if disk w k \<noteq> None \<and> \<not> has_been_read k (trackers w i) then (w, Some NotRead) else (set_phase i (AwaitLock k j) w, None)
            | EditFile es \<Rightarrow>
                if disk w k = None then (w, Some DoesNotExist)
                else if \<not> has_been_read k (trackers w i) then (w, Some NotRead)
                else (set_phase i (AwaitLock k j) w, None)))"
| "team_step w (TakesLock i) =
     (case phases w i of
        AwaitLock k j \<Rightarrow>
          if lock_holder w k \<noteq> None then (w, None)
          else (case check_stamp (coord w) k (disk_version w k) (team_stamp k (trackers w i)) of
                  Some x \<Rightarrow> (set_phase i NoCall w, Some (Refused (conflict_message (writers w i) x)))
                | None \<Rightarrow> (set_phase i (Checked k j) (w\<lparr>lock_holder := (lock_holder w)(k := Some i)\<rparr>), None))
      | _ \<Rightarrow> (w, None))"
| "team_step w (Finishes i t) =
     (case phases w i of
        Checked k j \<Rightarrow>
          (let w = set_phase i NoCall (w\<lparr>lock_holder := (lock_holder w)(k := None)\<rparr>) in
           case job_result j (disk_content w k) of
             Some b \<Rightarrow> (commit_team_write i k b t w, Some Written)
           | None \<Rightarrow> (w, Some EditFailed))
      | _ \<Rightarrow> (w, None))"
| "team_step w (Outside k f) = (w\<lparr>disk := (disk w)(k := f)\<rparr>, None)"

definition start_world :: "(path \<Rightarrow> (nat list \<times> int) option) \<Rightarrow> (nat \<Rightarrow> team_writer) \<Rightarrow> team_world" where
  "start_world d ws = \<lparr>disk = d, coord = new_coordinator, lock_holder = (\<lambda>k. None), trackers = (\<lambda>i. new_tracker),
     phases = (\<lambda>i. NoCall), writers = ws, issued = [], seen = (\<lambda>i k. None)\<rparr>"

definition team_run :: "team_world \<Rightarrow> team_event list \<Rightarrow> team_world" where
  "team_run w es = fst (run_machine team_step w es)"

lemma team_run_snoc: "team_run w (es @ [e]) = fst (team_step (team_run w es) e)"
  by (simp add: team_run_def run_machine_append case_prod_unfold Let_def)

section \<open>No update is lost\<close>

text \<open>A change made outside Residuum is noticed when the file's time or size says so, and not between the check and the write.\<close>

definition change_shows :: "team_world \<Rightarrow> team_event \<Rightarrow> bool" where
  "change_shows w e =
     (case e of
        Outside k f \<Rightarrow>
          lock_holder w k = None \<and>
          list_all (\<lambda>(k', st). k' = k \<longrightarrow> stamp_version st \<noteq> map_option (\<lambda>(b, t). (t, length b)) f) (issued w)
      | _ \<Rightarrow> True)"

definition changes_show :: "team_world \<Rightarrow> team_event list \<Rightarrow> bool" where
  "changes_show w es \<longleftrightarrow> list_all (\<lambda>n. change_shows (team_run w (take n es)) (es ! n)) [0..<length es]"

lemma changes_show_snoc: "changes_show w (es @ [e]) \<longleftrightarrow> changes_show w es \<and> change_shows (team_run w es) e"
  by (auto simp: changes_show_def list_all_iff nth_append less_Suc_eq)

definition team_ok :: "team_world \<Rightarrow> bool" where
  "team_ok w \<longleftrightarrow>
     (\<forall>(k, st)\<in>set (issued w). stamp_generation st \<le> generation_at (coord w) k) \<and>
     (\<forall>i k st. team_stamp k (trackers w i) = Some st \<longrightarrow>
        (k, st) \<in> set (issued w) \<and> (st = stamp_now w k \<longrightarrow> seen w i k = disk_content w k)) \<and>
     (\<forall>i k. team_stamp k (trackers w i) = None \<longrightarrow> seen w i k = None) \<and>
     (\<forall>i k g. phases w i = Stamping k g \<longrightarrow> g \<le> generation_at (coord w) k) \<and>
     (\<forall>i k st. phases w i = Reading k st \<longrightarrow> (k, st) \<in> set (issued w)) \<and>
     (\<forall>i k j. phases w i = Checked k j \<longrightarrow>
        lock_holder w k = Some i \<and> check_stamp (coord w) k (disk_version w k) (team_stamp k (trackers w i)) = None)"

lemma team_stamp_read [simp]:
  "team_stamp k (record_team_read k' (Some st) t) = (if k' = k then Some st else team_stamp k t)"
  by (simp add: team_stamp_def record_team_read_def record_read_def Let_def)

lemma check_passes:
  "check_stamp c k v (Some st) = None \<longleftrightarrow> st = take_stamp c k v" "check_stamp c k v None = None \<longleftrightarrow> v = None"
  by (simp_all add: check_stamp_def Let_def)

lemma no_version: "disk_version w k = None \<longleftrightarrow> disk_content w k = None"
  by (simp add: disk_version_def disk_content_def)

text \<open>What a tool set about to write last saw of the file is what the file holds.\<close>

lemma checked_saw: "team_ok w \<Longrightarrow> phases w i = Checked k j \<Longrightarrow> disk_content w k = seen w i k"
proof -
  assume ok: "team_ok w" "phases w i = Checked k j"
  then have c: "check_stamp (coord w) k (disk_version w k) (team_stamp k (trackers w i)) = None" by (auto simp: team_ok_def)
  show ?thesis
  proof (cases "team_stamp k (trackers w i)")
    case None
    then show ?thesis using ok c by (auto simp: team_ok_def check_passes no_version)
  next
    case (Some st)
    then have "st = stamp_now w k" using c by (simp add: check_passes stamp_now_def)
    then show ?thesis using ok(1) Some unfolding team_ok_def by metis
  qed
qed


lemma set_phase_fields [simp]:
  "disk (set_phase i p w) = disk w" "coord (set_phase i p w) = coord w" "lock_holder (set_phase i p w) = lock_holder w"
  "trackers (set_phase i p w) = trackers w" "issued (set_phase i p w) = issued w" "seen (set_phase i p w) = seen w"
  "phases (set_phase i p w) i' = (if i' = i then p else phases w i')" "writers (set_phase i p w) = writers w"
  by (simp_all add: set_phase_def)

lemma remember_fields [simp]:
  "disk (remember i k st b w) = disk w" "coord (remember i k st b w) = coord w" "lock_holder (remember i k st b w) = lock_holder w"
  "phases (remember i k st b w) = phases w" "issued (remember i k st b w) = issued w"
  "trackers (remember i k st b w) i' = (if i' = i then record_team_read k (Some st) (trackers w i) else trackers w i')"
  "seen (remember i k st b w) i' k' = (if i' = i \<and> k' = k then b else seen w i' k')"
  by (simp_all add: remember_def)

lemma same_disk [simp]:
  "disk_version (w\<lparr>issued := x\<rparr>) = disk_version w" "disk_content (w\<lparr>issued := x\<rparr>) = disk_content w"
  "stamp_now (w\<lparr>issued := x\<rparr>) = stamp_now w"
  "disk_version (w\<lparr>lock_holder := h\<rparr>) = disk_version w" "disk_content (w\<lparr>lock_holder := h\<rparr>) = disk_content w"
  "stamp_now (w\<lparr>lock_holder := h\<rparr>) = stamp_now w"
  "disk_version (set_phase i p w) = disk_version w" "disk_content (set_phase i p w) = disk_content w"
  "stamp_now (set_phase i p w) = stamp_now w"
  "disk_version (remember i k st b w) = disk_version w" "disk_content (remember i k st b w) = disk_content w"
  "stamp_now (remember i k st b w) = stamp_now w"
  by (simp_all add: fun_eq_iff disk_version_def disk_content_def stamp_now_def)

lemma stamp_now_generation [simp]: "stamp_generation (stamp_now w k) = generation_at (coord w) k"
  by (simp add: stamp_now_def take_stamp_def)

lemma generation_record [simp]: "generation_at (fst (record_write c k w v)) k' = (if k' = k then generation_at c k + 1 else generation_at c k')"
  by (simp add: record_write_def Let_def generation_at_def)

lemma team_okI:
  assumes "\<And>k st. (k, st) \<in> set (issued w) \<Longrightarrow> stamp_generation st \<le> generation_at (coord w) k"
    and "\<And>i k st. team_stamp k (trackers w i) = Some st \<Longrightarrow> (k, st) \<in> set (issued w)"
    and "\<And>i k. team_stamp k (trackers w i) = Some (stamp_now w k) \<Longrightarrow> seen w i k = disk_content w k"
    and "\<And>i k. team_stamp k (trackers w i) = None \<Longrightarrow> seen w i k = None"
    and "\<And>i k g. phases w i = Stamping k g \<Longrightarrow> g \<le> generation_at (coord w) k"
    and "\<And>i k st. phases w i = Reading k st \<Longrightarrow> (k, st) \<in> set (issued w)"
    and "\<And>i k j. phases w i = Checked k j \<Longrightarrow>
        lock_holder w k = Some i \<and> check_stamp (coord w) k (disk_version w k) (team_stamp k (trackers w i)) = None"
  shows "team_ok w"
  unfolding team_ok_def using assms by blast

lemma team_okD:
  assumes "team_ok w"
  shows "(k, st) \<in> set (issued w) \<Longrightarrow> stamp_generation st \<le> generation_at (coord w) k"
    and "team_stamp k (trackers w i) = Some st \<Longrightarrow> (k, st) \<in> set (issued w)"
    and "team_stamp k (trackers w i) = Some (stamp_now w k) \<Longrightarrow> seen w i k = disk_content w k"
    and "team_stamp k (trackers w i) = None \<Longrightarrow> seen w i k = None"
    and "phases w i = Reading k st \<Longrightarrow> (k, st) \<in> set (issued w)"
    and "phases w i = Checked k j \<Longrightarrow> lock_holder w k = Some i"
    and "phases w i = Checked k j \<Longrightarrow> check_stamp (coord w) k (disk_version w k) (team_stamp k (trackers w i)) = None"
    and "phases w i = Stamping k g \<Longrightarrow> g \<le> generation_at (coord w) k"
  using assms unfolding team_ok_def by blast+

lemma phase_keeps_ok:
  "team_ok w \<Longrightarrow> (\<And>k st. p = Reading k st \<Longrightarrow> (k, st) \<in> set (issued w)) \<Longrightarrow>
    (\<And>k g. p = Stamping k g \<Longrightarrow> g \<le> generation_at (coord w) k) \<Longrightarrow> (\<And>k j. p \<noteq> Checked k j) \<Longrightarrow> team_ok (set_phase i p w)"
  by (rule team_okI) (auto dest: team_okD split: if_splits)

lemma takes_generation_ok: "team_ok w \<Longrightarrow> team_ok (fst (team_step w (TakesGeneration i k)))"
  by (auto intro: phase_keeps_ok)

lemma takes_version_ok:
  assumes "team_ok w"
  shows "team_ok (fst (team_step w (TakesVersion i)))"
proof (cases "phases w i")
  case (Stamping k g)
  let ?w = "w\<lparr>issued := (k, \<lparr>stamp_version = disk_version w k, stamp_generation = g\<rparr>) # issued w\<rparr>"
  have "team_ok ?w"
    by (rule team_okI) (use team_okD [OF assms] Stamping in \<open>auto simp: Let_def\<close>)
  then show ?thesis by (auto simp: Let_def Stamping intro: phase_keeps_ok)
qed (use assms in simp_all)

lemma remember_ok:
  assumes "team_ok w" "(k, st) \<in> set (issued w)" "phases w i = Reading k' st'"
  shows "team_ok (remember i k st (disk_content w k) w)"
  by (rule team_okI)
    (use team_okD [OF assms(1)] assms(2,3) in \<open>auto split: if_splits\<close>)

lemma reads_ok:
  assumes "team_ok w"
  shows "team_ok (fst (team_step w (Reads i)))"
proof (cases "phases w i")
  case (Reading k st)
  have "team_ok (remember i k st (disk_content w k) w)"
    using remember_ok [OF assms team_okD(5) [OF assms Reading] Reading] .
  then have "team_ok (set_phase i NoCall (remember i k st (disk_content w k) w))" "team_ok (set_phase i NoCall w)"
    using assms by (auto intro: phase_keeps_ok)
  then show ?thesis by (auto simp: Reading split: option.split)
qed (use assms in simp_all)

lemma calls_ok: "team_ok w \<Longrightarrow> team_ok (fst (team_step w (Calls i k j)))"
  by (auto intro: phase_keeps_ok split: job.split)

lemma takes_lock_ok:
  assumes "team_ok w"
  shows "team_ok (fst (team_step w (TakesLock i)))"
proof (cases "phases w i")
  case (AwaitLock k j)
  show ?thesis
  proof (cases "lock_holder w k = None \<and> check_stamp (coord w) k (disk_version w k) (team_stamp k (trackers w i)) = None")
    case True
    let ?w = "set_phase i (Checked k j) (w\<lparr>lock_holder := (lock_holder w)(k := Some i)\<rparr>)"
    have "team_ok ?w"
    proof (rule team_okI)
      fix i' k' j' assume p: "phases ?w i' = Checked k' j'"
      show "lock_holder ?w k' = Some i' \<and> check_stamp (coord ?w) k' (disk_version ?w k') (team_stamp k' (trackers ?w i')) = None"
      proof (cases "i' = i")
        case False
        then have old: "phases w i' = Checked k' j'" using p by (simp add: set_phase_def)
        then have "k' \<noteq> k" using team_okD(6) [OF assms old] True by auto
        then show ?thesis using team_okD(6,7) [OF assms old] by simp
      qed (use p True in \<open>simp\<close>)
    qed (use team_okD [OF assms] in \<open>auto split: if_splits\<close>)
    then show ?thesis using True by (simp add: AwaitLock)
  next
    case False
    then show ?thesis using assms by (auto simp: AwaitLock intro: phase_keeps_ok split: option.split)
  qed
qed (use assms in simp_all)

lemma outside_ok:
  assumes "team_ok w" "change_shows w (Outside k f)"
  shows "team_ok (fst (team_step w (Outside k f)))"
proof -
  let ?w = "w\<lparr>disk := (disk w)(k := f)\<rparr>"
  have other: "disk_version ?w k' = disk_version w k'" "disk_content ?w k' = disk_content w k'" "stamp_now ?w k' = stamp_now w k'" if "k' \<noteq> k" for k'
    using that by (simp_all add: disk_version_def disk_content_def stamp_now_def)
  have fresh: "st \<noteq> stamp_now ?w k" if "(k, st) \<in> set (issued w)" for st
    using assms(2) that by (auto simp: change_shows_def list_all_iff stamp_now_def take_stamp_def disk_version_def)
  have "team_ok ?w"
  proof (rule team_okI)
    fix i k' assume t: "team_stamp k' (trackers ?w i) = Some (stamp_now ?w k')"
    then have "k' \<noteq> k" using fresh team_okD(2) [OF assms(1), of k i] by auto
    then show "seen ?w i k' = disk_content ?w k'" using t team_okD(3) [OF assms(1), of k' i] other by simp
  next
    fix i k' j assume "phases ?w i = Checked k' j"
    then have p: "phases w i = Checked k' j" by simp
    then have "k' \<noteq> k" using team_okD(6) [OF assms(1) p] assms(2) by (auto simp: change_shows_def)
    then show "lock_holder ?w k' = Some i \<and> check_stamp (coord ?w) k' (disk_version ?w k') (team_stamp k' (trackers ?w i)) = None"
      using team_okD(6,7) [OF assms(1) p] other by simp
  qed (use team_okD [OF assms(1)] in auto)
  then show ?thesis by simp
qed

lemma commit_ok:
  assumes "team_ok w" "phases w i = Checked k j"
  defines "u \<equiv> set_phase i NoCall (w\<lparr>lock_holder := (lock_holder w)(k := None)\<rparr>)"
  shows "team_ok u" "team_ok (commit_team_write i k b t u)"
proof -
  have later: "k' \<noteq> k" if "phases u i' = Checked k' j'" for i' k' j'
    using that team_okD(6) [OF assms(1), of i' k' j'] team_okD(6) [OF assms(1,2)] by (auto simp: u_def split: if_splits)
  show u: "team_ok u"
  proof (rule team_okI)
    fix i' k' j' assume p: "phases u i' = Checked k' j'"
    then have "phases w i' = Checked k' j'" by (auto simp: u_def split: if_splits)
    from team_okD(6,7) [OF assms(1) this] later [OF p]
    show "lock_holder u k' = Some i' \<and> check_stamp (coord u) k' (disk_version u k') (team_stamp k' (trackers u i')) = None"
      by (simp add: u_def)
  qed (use team_okD [OF assms(1)] in \<open>auto simp: u_def split: if_splits\<close>)
  let ?st = "snd (record_write (coord u) k (writers u i) (Some (t, length b)))"
  let ?v = "commit_team_write i k b t u"
  have v: "coord ?v = fst (record_write (coord u) k (writers u i) (Some (t, length b)))" "disk ?v = (disk u)(k \<mapsto> (b, t))"
    "issued ?v = (k, ?st) # issued u" "phases ?v = phases u" "lock_holder ?v = lock_holder u"
    "\<And>i'. trackers ?v i' = (if i' = i then record_team_read k (Some ?st) (trackers u i) else trackers u i')"
    "\<And>i' k'. seen ?v i' k' = (if i' = i \<and> k' = k then Some b else seen u i' k')"
    by (simp_all add: commit_team_write_def case_prod_unfold)
  have st: "?st = stamp_now ?v k" "stamp_generation ?st = Suc (generation_at (coord u) k)"
    by (simp_all add: record_write_def Let_def stamp_now_def take_stamp_def v disk_version_def generation_at_def)
  have other: "disk_version ?v k' = disk_version u k'" "disk_content ?v k' = disk_content u k'" "stamp_now ?v k' = stamp_now u k'"
    "check_stamp (coord ?v) k' x y = None \<longleftrightarrow> check_stamp (coord u) k' x y = None" if "k' \<noteq> k" for k' x y
    using that by (simp_all add: disk_version_def disk_content_def stamp_now_def take_stamp_def v check_stamp_def Let_def split: option.split)
  have old: "s \<noteq> stamp_now ?v k" if "(k, s) \<in> set (issued u)" for s
    using team_okD(1) [OF u that] st by auto
  show "team_ok ?v"
  proof (rule team_okI)
    fix i' k' assume a: "team_stamp k' (trackers ?v i') = Some (stamp_now ?v k')"
    show "seen ?v i' k' = disk_content ?v k'"
    proof (cases "k' = k")
      case True
      then have "i' = i" using a old team_okD(2) [OF u, of k i'] by (auto simp: v(6) split: if_splits)
      then show ?thesis using True by (simp add: v disk_content_def)
    next
      case False
      then have "team_stamp k' (trackers u i') = Some (stamp_now u k')" using a other by (auto simp: v(6) split: if_splits)
      then show ?thesis using team_okD(3) [OF u] False other by (simp add: v(7))
    qed
  next
    fix i' k' j' assume "phases ?v i' = Checked k' j'"
    then have p: "phases u i' = Checked k' j'" by (simp add: v(4))
    have ne: "k' \<noteq> k" "i' \<noteq> i" using later [OF p] p by (auto simp: u_def)
    then show "lock_holder ?v k' = Some i' \<and> check_stamp (coord ?v) k' (disk_version ?v k') (team_stamp k' (trackers ?v i')) = None"
      using team_okD(6,7) [OF u p] other by (simp add: v(5,6))
  next
    fix k' s assume "(k', s) \<in> set (issued ?v)"
    then show "stamp_generation s \<le> generation_at (coord ?v) k'"
      using team_okD(1) [OF u, of k' s] st(2) by (auto simp: v(1,3) le_SucI)
  next
    fix i' k' g assume "phases ?v i' = Stamping k' g"
    then show "g \<le> generation_at (coord ?v) k'"
      using team_okD(8) [OF u, of i' k' g] by (auto simp: v(1,4) le_SucI)
  qed (use team_okD [OF u] in \<open>auto simp: v(3,4,6,7) split: if_splits\<close>)
qed

lemma finishes_ok: "team_ok w \<Longrightarrow> team_ok (fst (team_step w (Finishes i t)))"
  by (auto simp: Let_def commit_ok split: call_phase.split option.split)

lemma team_ok_step: "team_ok w \<Longrightarrow> change_shows w e \<Longrightarrow> team_ok (fst (team_step w e))"
  by (cases e) (simp_all only: takes_generation_ok takes_version_ok reads_ok calls_ok takes_lock_ok finishes_ok outside_ok)

lemma team_ok_start: "team_ok (start_world d ws)"
  by (rule team_okI) (simp_all add: start_world_def team_stamp_def new_tracker_def)

lemma team_ok_run: "changes_show w es \<Longrightarrow> team_ok w \<Longrightarrow> team_ok (team_run w es)"
  by (induction es rule: rev_induct) (simp_all add: team_run_def [of w "[]"] team_run_snoc changes_show_snoc team_ok_step)



text \<open>The marker of a removed directory is kept when the directory comes back: a file a teammate made in it since, and that a program
  outside Residuum then deletes, is said to be changed by the writer that removed the directory.\<close>

lemma outside_deletion_blamed_on_an_old_removal:
  "let dir = [RootDir, Normal [1]]; f = dir @ [Normal [2]]; a = AgentWriter [65]; b = AgentWriter [66];
       c = record_tree_removed new_coordinator dir a;
       (c, st) = record_write c f b (Some (0, 5))
   in check_stamp c f None (Some st) = Some \<lparr>changed_by = Some a, missing = True\<rparr>"
  by code_simp

end
