(* ===== verification/Team_Locks.thy ===== *)
theory Team_Locks
  imports Team_Files
begin

text \<open>
  Taking the locks of several team files at once (\<open>TeamWriteCoordinator::lock_all\<close>): the order the paths are locked in, and callers that
  hold some of their locks and wait for the next, as steps. Whatever the callers and their paths, all of them can finish from every
  state they reach.
\<close>

section \<open>Paths in order\<close>

text \<open>\<open>PathBuf\<close>'s order: by components, the root first, then \<open>.\<close>, \<open>..\<close> and names.\<close>

instantiation component :: linorder
begin

definition component_rank :: "component \<Rightarrow> nat \<times> ustring" where
  "component_rank c = (case c of RootDir \<Rightarrow> (0, []) | CurDir \<Rightarrow> (1, []) | ParentDir \<Rightarrow> (2, []) | Normal x \<Rightarrow> (3, x))"

definition less_eq_component :: "component \<Rightarrow> component \<Rightarrow> bool" where
  "less_eq_component a b \<longleftrightarrow> component_rank a \<le> component_rank b"

definition less_component :: "component \<Rightarrow> component \<Rightarrow> bool" where
  "less_component a b \<longleftrightarrow> component_rank a < component_rank b"

instance
proof
  fix a b c :: component
  show "a < b \<longleftrightarrow> a \<le> b \<and> \<not> b \<le> a" by (auto simp: less_component_def less_eq_component_def)
  show "a \<le> a" by (simp add: less_eq_component_def)
  show "a \<le> b \<Longrightarrow> b \<le> c \<Longrightarrow> a \<le> c" unfolding less_eq_component_def by (rule order_trans)
  show "a \<le> b \<or> b \<le> a" by (simp add: less_eq_component_def linear)
  assume "a \<le> b" "b \<le> a"
  then have "component_rank a = component_rank b" by (simp add: less_eq_component_def)
  then show "a = b" by (cases a; cases b) (simp_all add: component_rank_def)
qed

end

text \<open>\<open>Vec::dedup_by_key\<close> keeps the first of each run of equal keys.\<close>

fun dedup_by_key :: "('a \<Rightarrow> 'k) \<Rightarrow> 'a list \<Rightarrow> 'a list" where
  "dedup_by_key f (x # y # xs) = (if f y = f x then dedup_by_key f (x # xs) else x # dedup_by_key f (y # xs))"
| "dedup_by_key f xs = xs"

definition lock_order :: "fsys \<Rightarrow> path list \<Rightarrow> path list" where
  "lock_order fs paths = dedup_by_key (canonical_key fs) (sort_key (canonical_key fs) paths)"

lemma dedup_keys: "map f (dedup_by_key f xs) = remdups_adj (map f xs)"
  by (induction f xs rule: dedup_by_key.induct) auto

lemma sorted_remdups_adj: "sorted xs \<Longrightarrow> sorted_wrt (<) (remdups_adj xs)" for xs :: "'a::linorder list"
  by (induction xs rule: remdups_adj.induct) (auto simp: order_le_less)

text \<open>The keys are taken in increasing order, each once.\<close>

lemma lock_order_keys:
  "sorted_wrt (<) (map (canonical_key fs) (lock_order fs ps))"
  "set (map (canonical_key fs) (lock_order fs ps)) = canonical_key fs ` set ps"
  by (simp_all only: lock_order_def dedup_keys sorted_remdups_adj sorted_sort_key remdups_adj_set set_map set_sort)

section \<open>Callers\<close>

text \<open>A caller of \<open>lock_all\<close> has the guards of some keys and takes the others in turn; with all of them it does its work and drops
  them. A lock is free when no caller has its guard.\<close>

type_synonym lock_caller = "path list \<times> path list"

datatype lock_event = TakesNext nat | DropsAll nat

definition is_locked :: "lock_caller list \<Rightarrow> path \<Rightarrow> bool" where
  "is_locked cs k \<longleftrightarrow> list_ex (\<lambda>(taken, _). k \<in> set taken) cs"

definition lock_all :: "fsys \<Rightarrow> path list \<Rightarrow> lock_caller" where
  "lock_all fs paths = ([], map (canonical_key fs) (lock_order fs paths))"

fun lock_step :: "lock_caller list \<Rightarrow> lock_event \<Rightarrow> lock_caller list" where
  "lock_step cs (TakesNext i) =
     (if i < length cs
      then (case cs ! i of
              (taken, k # ks) \<Rightarrow> if is_locked cs k then cs else cs[i := (taken @ [k], ks)]
            | _ \<Rightarrow> cs)
      else cs)"
| "lock_step cs (DropsAll i) =
     (if i < length cs then (case cs ! i of (taken, []) \<Rightarrow> cs[i := ([], [])] | _ \<Rightarrow> cs) else cs)"

definition lock_run :: "lock_caller list \<Rightarrow> lock_event list \<Rightarrow> lock_caller list" where
  "lock_run cs es = foldl lock_step cs es"

definition in_order :: "lock_caller list \<Rightarrow> bool" where
  "in_order cs \<longleftrightarrow> (\<forall>(taken, rest)\<in>set cs. sorted_wrt (<) (taken @ rest))"

definition steps_left :: "lock_caller list \<Rightarrow> nat" where
  "steps_left cs = (\<Sum>(taken, rest)\<leftarrow>cs. length taken + 2 * length rest)"

lemma lock_step_length [simp]: "length (lock_step cs e) = length cs"
  by (cases e) (simp_all split: prod.split list.split)

lemma lock_run_length [simp]: "length (lock_run cs es) = length cs"
  by (induction es arbitrary: cs) (simp_all add: lock_run_def)

lemma lock_run_append: "lock_run cs (es @ es') = lock_run (lock_run cs es) es'"
  by (simp add: lock_run_def)

lemma in_order_update: "in_order cs \<Longrightarrow> sorted_wrt (<) (taken @ rest) \<Longrightarrow> in_order (cs[i := (taken, rest)])"
  unfolding in_order_def using set_update_subset_insert [of cs i "(taken, rest)"] by blast

lemma in_order_nth: "in_order cs \<Longrightarrow> i < length cs \<Longrightarrow> cs ! i = (taken, rest) \<Longrightarrow> sorted_wrt (<) (taken @ rest)"
  unfolding in_order_def using nth_mem [of i cs] by fastforce

lemma in_order_step: "in_order cs \<Longrightarrow> in_order (lock_step cs e)"
proof (cases e)
  case (TakesNext i)
  assume ok: "in_order cs"
  show ?thesis
    using ok in_order_nth [OF ok, of i]
    by (auto simp: TakesNext intro!: in_order_update split: prod.splits list.splits)
next
  case (DropsAll i)
  assume "in_order cs"
  then show ?thesis by (auto simp: DropsAll intro!: in_order_update split: prod.splits list.splits)
qed

lemma in_order_run: "in_order cs \<Longrightarrow> in_order (lock_run cs es)"
  by (induction es arbitrary: cs) (simp_all add: lock_run_def in_order_step)

lemma in_order_start: "in_order (map (lock_all fs) pss)"
  by (simp add: in_order_def lock_all_def lock_order_keys)

lemma steps_left_update:
  assumes "i < length cs" "cs ! i = (taken, rest)" "length taken' + 2 * length rest' < length taken + 2 * length rest"
  shows "steps_left (cs[i := (taken', rest')]) < steps_left cs"
proof -
  have "steps_left cs = steps_left (take i cs) + (length taken + 2 * length rest) + steps_left (drop (Suc i) cs)"
    using assms(2) by (subst id_take_nth_drop [OF assms(1)]) (simp add: steps_left_def)
  then show ?thesis using assms(1,3) by (simp add: upd_conv_take_nth_drop steps_left_def)
qed

text \<open>The caller with the greatest key taken can go on: its next key is greater still, so free.\<close>

lemma some_caller_moves:
  assumes "in_order cs" "list_ex (\<lambda>c. c \<noteq> ([], [])) cs"
  shows "\<exists>e. steps_left (lock_step cs e) < steps_left cs"
proof (cases "\<exists>i<length cs. \<exists>k ks. cs ! i = (k # ks, [])")
  case True
  then obtain i k ks where i: "i < length cs" "cs ! i = (k # ks, [])" by blast
  then have "steps_left (lock_step cs (DropsAll i)) < steps_left cs" by (simp add: steps_left_update)
  then show ?thesis by blast
next
  case False
  let ?all = "\<Union>c\<in>set cs. set (fst c)"
  have takes: ?thesis if "i < length cs" "cs ! i = (taken, k # ks)" "k \<notin> ?all" for i taken k ks
  proof -
    have "\<not> is_locked cs k" using that(3) by (auto simp: is_locked_def list_ex_iff)
    then have "steps_left (lock_step cs (TakesNext i)) < steps_left cs" using that by (simp add: steps_left_update)
    then show ?thesis by blast
  qed
  show ?thesis
  proof (cases "?all = {}")
    case True
    obtain i taken rest where i: "i < length cs" "cs ! i = (taken, rest)" "(taken, rest) \<noteq> ([], [])"
      using assms(2) by (fastforce simp: list_ex_iff in_set_conv_nth)
    then have "taken = []" using True nth_mem [of i cs] by force
    then obtain k ks where "rest = k # ks" using i(3) by (cases rest) auto
    then show ?thesis using takes i(1,2) True by blast
  next
    case nonempty: False
    have fin: "finite ?all" by blast
    have "Max ?all \<in> ?all" by (rule Max_in [OF fin nonempty])
    then obtain c where "c \<in> set cs" "Max ?all \<in> set (fst c)" by blast
    then obtain i where i: "i < length cs" "Max ?all \<in> set (fst (cs ! i))" using in_set_conv_nth [of c cs] by blast
    obtain taken rest where c: "cs ! i = (taken, rest)" by (cases "cs ! i")
    then obtain k ks where r: "rest = k # ks" using False i by (cases rest; cases taken) auto
    have "Max ?all < k" using in_order_nth [OF assms(1) i(1) c] i(2) by (auto simp: c r sorted_wrt_append)
    then have "k \<notin> ?all" using Max_ge [OF fin] leD by blast
    then show ?thesis using takes i(1) c r by blast
  qed
qed

lemma callers_can_finish:
  assumes "in_order cs"
  shows "\<exists>es. list_all (\<lambda>c. c = ([], [])) (lock_run cs es)"
  using assms
proof (induction "steps_left cs" arbitrary: cs rule: less_induct)
  case less
  show ?case
  proof (cases "list_ex (\<lambda>c. c \<noteq> ([], [])) cs")
    case True
    from some_caller_moves [OF less.prems True] obtain e where e: "steps_left (lock_step cs e) < steps_left cs" by blast
    from less.hyps [OF e in_order_step [OF less.prems]] obtain es
      where "list_all (\<lambda>c. c = ([], [])) (lock_run (lock_step cs e) es)" by blast
    then have "list_all (\<lambda>c. c = ([], [])) (lock_run cs (e # es))" by (simp add: lock_run_def)
    then show ?thesis by blast
  next
    case False
    then have "list_all (\<lambda>c. c = ([], [])) (lock_run cs [])" by (simp add: lock_run_def list_all_iff list_ex_iff)
    then show ?thesis by blast
  qed
qed

text \<open>C13: callers of \<open>lock_all\<close>, however many and whatever paths each asks for in whatever order and spelling, never wait for each
  other in a circle: from every state they reach, whichever of them took a lock or dropped its guards first, there is a way to go on in
  which every caller gets all its locks and drops them.\<close>

theorem lock_all_never_deadlocks:
  "\<exists>rest. lock_run (map (lock_all fs) pss) (es @ rest) = map (\<lambda>_. ([], [])) pss"
proof -
  obtain rest where r: "list_all (\<lambda>c. c = ([], [])) (lock_run (lock_run (map (lock_all fs) pss) es) rest)"
    using callers_can_finish [OF in_order_run [OF in_order_start]] by blast
  have "lock_run (map (lock_all fs) pss) (es @ rest) = map (\<lambda>_. ([], [])) pss"
    by (rule nth_equalityI) (use r in \<open>auto simp: lock_run_append list_all_length\<close>)
  then show ?thesis by blast
qed

end
