(* ===== verification/Chat_Chunks.thy ===== *)
theory Chat_Chunks
  imports Recent_Messages Text_Edits
begin

text \<open>
  Cutting a reply into messages a chat platform takes (\<open>crates/interfaces/src/chunking.rs\<close>): what is cut, that nothing is lost, that
  every message closes the code blocks it opens, and how long the messages get.

  A text is its code points, and lengths are in bytes of UTF-8 as in the code.
\<close>

definition FENCE :: ustring where "FENCE = lit ''```''"

section \<open>Fences\<close>

definition fence_line :: "bool \<times> ustring \<Rightarrow> ustring \<Rightarrow> bool \<times> ustring" where
  "fence_line st line =
     (let t = trim line in
      if starts_with FENCE t then (if fst st then (False, []) else (True, t)) else st)"

definition update_fence_state :: "ustring \<Rightarrow> bool \<times> ustring \<Rightarrow> bool \<times> ustring" where
  "update_fence_state s st = foldl fence_line st (str_lines s)"

section \<open>Where to cut\<close>

definition rfind_by :: "(nat \<Rightarrow> bool) \<Rightarrow> ustring \<Rightarrow> nat option" where
  "rfind_by P s = map_option (\<lambda>i. length s - 1 - i) (position P (rev s))"

text \<open>The number of characters before the cut.\<close>

definition find_split_point :: "ustring \<Rightarrow> nat \<Rightarrow> nat" where
  "find_split_point s max_bytes =
     (if utf8_len s \<le> max_bytes then length s
      else
        (let region = take_bytes max_bytes s in
         if region = [] then 1
         else (case rfind_by (\<lambda>c. c = LF) region of
                 Some (Suc n) \<Rightarrow> Suc n
               | _ \<Rightarrow> (case rfind_by is_whitespace region of Some (Suc n) \<Rightarrow> Suc n | _ \<Rightarrow> length region))))"

definition skip_newline :: "ustring \<Rightarrow> ustring" where
  "skip_newline s = (case strip_prefix [LF] s of Some r \<Rightarrow> r | None \<Rightarrow> (case strip_prefix CRLF s of Some r \<Rightarrow> r | None \<Rightarrow> s))"

definition reopened :: "bool \<times> ustring \<Rightarrow> ustring" where
  "reopened st = (if fst st then snd st @ [LF] else [])"

definition closed_if :: "bool \<Rightarrow> ustring" where
  "closed_if open_fence = (if open_fence then LF # FENCE else [])"

definition chunk_budget :: "nat \<Rightarrow> bool \<times> ustring \<Rightarrow> nat" where
  "chunk_budget max_bytes st = max_bytes - utf8_len (reopened st) - (if fst st then 4 else 0)"

text \<open>A cut takes at least one character.\<close>

lemma find_split_point_pos: "s \<noteq> [] \<Longrightarrow> 0 < find_split_point s n"
  by (auto simp: find_split_point_def Let_def split: option.split nat.split)

lemma skip_newline_length: "length (skip_newline s) \<le> length s"
  by (auto simp: skip_newline_def strip_prefix_def split: if_splits)

function chunk_from :: "nat \<Rightarrow> bool \<times> ustring \<Rightarrow> ustring \<Rightarrow> ustring list" where
  "chunk_from max_bytes st s =
     (if s = [] then []
      else
        (let budget = chunk_budget max_bytes st in
         if budget = 0 then []
         else if utf8_len s \<le> budget then [reopened st @ s @ closed_if (fst (update_fence_state s st))]
         else
           (let k = find_split_point s budget; st' = update_fence_state (take k s) st
            in (reopened st @ take k s @ closed_if (fst st')) # chunk_from max_bytes st' (skip_newline (drop k s)))))"
  by pat_completeness auto
termination
proof (relation "measure (\<lambda>(n, st, s). length s)", simp)
  fix max_bytes :: nat and st :: "bool \<times> ustring" and s budget k st'
  assume a: "s \<noteq> []" "k = find_split_point s budget"
  have "length (skip_newline (drop k s)) \<le> length s - k" using skip_newline_length [of "drop k s"] by simp
  also have "\<dots> < length s" using a find_split_point_pos [OF a(1)] by simp
  finally show "((max_bytes, st', skip_newline (drop k s)), max_bytes, st, s) \<in> measure (\<lambda>(n, st, s). length s)" by simp
qed

declare chunk_from.simps [simp del]

definition chunk_text :: "ustring \<Rightarrow> nat \<Rightarrow> ustring list" where
  "chunk_text s max_bytes =
     (if s = [] \<or> max_bytes = 0 then []
      else if utf8_len s \<le> max_bytes then [s]
      else chunk_from max_bytes (False, []) s)"

section \<open>Lengths\<close>

lemma utf8_len_append [simp]: "utf8_len (s @ t) = utf8_len s + utf8_len t"
  by (simp add: utf8_len_def)

lemma utf8_len_Cons [simp]: "utf8_len (c # s) = utf8_len_char c + utf8_len s"
  by (simp add: utf8_len_def)

lemma utf8_len_Nil [simp]: "utf8_len [] = 0"
  by (simp add: utf8_len_def)

lemma utf8_len_char_bounds: "1 \<le> utf8_len_char c" "utf8_len_char c \<le> 4"
  by (simp_all add: utf8_len_char_def)

lemma closed_if_len: "utf8_len (closed_if b) \<le> 4"
  by (simp add: closed_if_def FENCE_def LF_def lit_def utf8_len_char_def)

lemma take_bytes_prefix: "\<exists>t. s = take_bytes n s @ t"
  by (induction n s rule: take_bytes.induct) auto

lemma take_bytes_len: "utf8_len (take_bytes n s) \<le> n"
  by (induction n s rule: take_bytes.induct) auto

lemma take_region: "take (length (take_bytes n s)) s = take_bytes n s"
  using take_bytes_prefix [of s n] by (metis append_eq_conv_conj)

lemma utf8_len_take: "utf8_len (take k s) \<le> utf8_len s"
  by (metis append_take_drop_id le_add1 utf8_len_append)

lemma rfind_by_bound: "rfind_by P s = Some i \<Longrightarrow> i < length s"
  unfolding rfind_by_def by (cases s) auto

lemma split_in_region:
  assumes "n < utf8_len s" "take_bytes n s \<noteq> []"
  shows "find_split_point s n \<le> length (take_bytes n s)"
  using assms by (auto simp: find_split_point_def Let_def dest!: rfind_by_bound split: option.split nat.split)

lemma split_len:
  assumes "4 \<le> n \<or> n < utf8_len s" "s \<noteq> []"
  shows "utf8_len (take (find_split_point s n) s) \<le> max n 4"
proof (cases "utf8_len s \<le> n")
  case False
  show ?thesis
  proof (cases "take_bytes n s = []")
    case True
    then have "find_split_point s n = 1" using False by (simp add: find_split_point_def Let_def)
    then show ?thesis using assms(2) utf8_len_char_bounds(2) by (cases s) (auto simp: le_max_iff_disj)
  next
    case nonempty: False
    let ?r = "take_bytes n s"
    have "take (find_split_point s n) s = take (find_split_point s n) ?r"
      using split_in_region [OF _ nonempty] False take_region [of n s]
      by (metis linorder_not_le min.absorb1 take_take)
    then have "utf8_len (take (find_split_point s n) s) \<le> utf8_len ?r" using utf8_len_take by simp
    then show ?thesis using take_bytes_len [of n s] by simp
  qed
next
  case True
  then show ?thesis using utf8_len_take [of "find_split_point s n" s] by simp
qed

text \<open>No message is longer than the limit by more than the four bytes of a closing fence nothing was kept for.\<close>

lemma chunk_from_bound: "4 \<le> max_bytes \<Longrightarrow> list_all (\<lambda>c. utf8_len c \<le> max_bytes + 4) (chunk_from max_bytes st s)"
proof (induction max_bytes st s rule: chunk_from.induct)
  case (1 max_bytes st s)
  let ?budget = "chunk_budget max_bytes st" and ?p = "reopened st"
  have fits: "utf8_len (?p @ x @ closed_if b) \<le> max_bytes + 4"
    if "?budget \<noteq> 0" "utf8_len x \<le> max ?budget 4" for x b
    using that closed_if_len [of b] "1.prems"
    by (cases "fst st") (auto simp: chunk_budget_def reopened_def LF_def utf8_len_char_def max_def split: if_splits)
  show ?case
  proof (cases "s = [] \<or> ?budget = 0 \<or> utf8_len s \<le> ?budget")
    case True
    then show ?thesis using fits [of s] by (subst chunk_from.simps) (auto simp: Let_def le_max_iff_disj)
  next
    case False
    let ?k = "find_split_point s ?budget"
    let ?st = "update_fence_state (take ?k s) st"
    have "utf8_len (take ?k s) \<le> max ?budget 4" using False by (intro split_len) auto
    then have "utf8_len (?p @ take ?k s @ closed_if (fst ?st)) \<le> max_bytes + 4" using fits False by blast
    moreover have "list_all (\<lambda>c. utf8_len c \<le> max_bytes + 4) (chunk_from max_bytes ?st (skip_newline (drop ?k s)))"
      by (rule "1.IH" [OF _ refl _ _ refl refl]) (use False "1.prems" in auto)
    ultimately show ?thesis using False by (subst chunk_from.simps) (simp add: Let_def)
  qed
qed

text \<open>every message is at most four bytes longer than the platform's limit (the limit being at least four): the code keeps room for
  the fence that closes a code block reopened in this message, and none for one that closes a block the message itself opens.\<close>

theorem chunks_are_bounded:
  assumes "4 \<le> max_bytes"
  shows "list_all (\<lambda>c. utf8_len c \<le> max_bytes + 4) (chunk_text s max_bytes)"
  using chunk_from_bound [OF assms] by (simp add: chunk_text_def)

section \<open>Every message closes its code blocks\<close>

lemma trim_snoc_space: "is_whitespace c \<Longrightarrow> trim (s @ [c]) = trim s"
proof (cases "\<forall>x\<in>set s. is_whitespace x")
  case True
  moreover assume "is_whitespace c"
  ultimately have "dropWhile is_whitespace (s @ [c]) = []" "dropWhile is_whitespace s = []" by simp_all
  then show ?thesis by (simp only: trim_def trim_start_def)
next
  case False
  moreover assume "is_whitespace c"
  ultimately show ?thesis by (auto simp: trim_def trim_start_def trim_end_def dropWhile_append)
qed

lemma whitespace_ends [simp]: "is_whitespace LF" "is_whitespace CR"
  by (simp_all add: is_whitespace_def LF_def CR_def)

lemma strip_suffix_single: "strip_suffix [c] s = Some t \<longleftrightarrow> s = t @ [c]"
  by (cases s rule: rev_cases) (auto simp: strip_suffix_def ends_with_def starts_with_def)

lemma trim_line_content: "trim (line_content l) = trim l"
  by (auto simp: line_content_def strip_suffix_single trim_snoc_space split: option.split)

lemma fence_line_content [simp]: "fence_line st (line_content l) = fence_line st l"
  by (simp add: fence_line_def trim_line_content)

lemma update_fence_lines: "update_fence_state s st = foldl fence_line st (split_inclusive s)"
  unfolding update_fence_state_def str_lines_def foldl_map by simp

lemma split_inclusive_Nil [simp]: "split_inclusive s = [] \<longleftrightarrow> s = []"
  by (cases s) (auto split: list.split)

lemma split_inclusive_append: "split_inclusive (s @ LF # t) = split_inclusive (s @ [LF]) @ split_inclusive t"
  by (induction s) (auto split: list.split)

lemma split_inclusive_snoc:
  "split_inclusive (s @ [LF]) =
     (if s = [] \<or> last s = LF then split_inclusive s @ [[LF]] else butlast (split_inclusive s) @ [last (split_inclusive s) @ [LF]])"
proof (induction s)
  case (Cons c s)
  show ?case
  proof (cases "s = []")
    case False
    then obtain l ls where "split_inclusive s = l # ls" by (cases "split_inclusive s") auto
    then show ?thesis using Cons False by (cases ls) auto
  qed simp
qed simp

lemma fence_line_snoc [simp]: "fence_line st (l @ [LF]) = fence_line st l" "fence_line st [LF] = st"
  using trim_snoc_space [of LF "[]"] by (simp_all add: fence_line_def trim_snoc_space) (simp add: FENCE_def lit_def trim_def trim_start_def trim_end_def starts_with_def)

lemma update_fence_line_end: "update_fence_state (s @ [LF]) st = update_fence_state s st"
proof (cases "s = [] \<or> last s = LF")
  case False
  have "foldl fence_line st (butlast (split_inclusive s) @ [last (split_inclusive s)]) = foldl fence_line st (split_inclusive s)"
    using False by simp
  then show ?thesis using False by (simp add: update_fence_lines split_inclusive_snoc)
qed (auto simp: update_fence_lines split_inclusive_snoc)

lemma update_fence_append: "update_fence_state (s @ LF # t) st = update_fence_state t (update_fence_state s st)"
  using update_fence_line_end [of s st] by (simp add: update_fence_lines split_inclusive_append [of s t])

lemma split_inclusive_line: "LF \<notin> set s \<Longrightarrow> s \<noteq> [] \<Longrightarrow> split_inclusive s = [s]"
proof (induction s)
  case (Cons c s)
  then show ?case by (cases "s = []") auto
qed simp

text \<open>What is kept of an open block is its trimmed first line.\<close>

definition fence_ok :: "bool \<times> ustring \<Rightarrow> bool" where
  "fence_ok st \<longleftrightarrow> (if fst st then LF \<notin> set (snd st) \<and> trim (snd st) = snd st \<and> starts_with FENCE (snd st) else snd st = [])"

lemma no_LF_lines: "l \<in> set (split_inclusive s) \<Longrightarrow> LF \<notin> set (butlast l)"
proof (induction s arbitrary: l)
  case (Cons c s)
  show ?case
  proof (cases "split_inclusive s")
    case Nil
    then show ?thesis using Cons.prems by (auto split: if_splits)
  next
    case parts: (Cons x xs)
    then show ?thesis using Cons.prems Cons.IH [of l] Cons.IH [of x] by (auto split: if_splits)
  qed
qed simp

lemma trim_no_LF:
  assumes "LF \<notin> set (butlast l)" shows "LF \<notin> set (trim l)"
proof (cases l rule: rev_cases)
  case (snoc xs x)
  then show ?thesis using assms set_trim [of xs] set_trim [of l] by (cases "x = LF") (auto simp: trim_snoc_space)
qed (simp add: trim_def trim_start_def trim_end_def)

lemma fence_ok_line: "fence_ok st \<Longrightarrow> LF \<notin> set (butlast l) \<Longrightarrow> fence_ok (fence_line st l)"
  using trim_no_LF [of l] trim_trimmed [OF trimmed_trim [of l]] by (simp add: fence_ok_def fence_line_def Let_def)

lemma fence_ok_update: "fence_ok st \<Longrightarrow> fence_ok (update_fence_state s st)"
proof -
  have "fence_ok st \<Longrightarrow> (\<And>l. l \<in> set ls \<Longrightarrow> LF \<notin> set (butlast l)) \<Longrightarrow> fence_ok (foldl fence_line st ls)" for ls st
    by (induction ls arbitrary: st) (simp_all add: fence_ok_line)
  then show "fence_ok st \<Longrightarrow> ?thesis" using no_LF_lines [of _ s] by (simp add: update_fence_lines)
qed

lemma reopened_state: "fence_ok st \<Longrightarrow> update_fence_state (reopened st @ s) (False, []) = update_fence_state s st"
proof (cases "fst st")
  case True
  assume ok: "fence_ok st"
  then have "snd st \<noteq> []" "LF \<notin> set (snd st)" using True by (auto simp: fence_ok_def FENCE_def lit_def starts_with_def)
  then have "update_fence_state (snd st) (False, []) = st"
    using ok True by (cases st) (simp add: update_fence_lines split_inclusive_line fence_line_def fence_ok_def Let_def)
  then show ?thesis using True update_fence_append [of "snd st" s "(False, [])"] by (simp add: reopened_def)
next
  case False
  assume "fence_ok st"
  then have "st = (False, [])" using False by (cases st) (simp add: fence_ok_def)
  then show ?thesis by (simp add: reopened_def)
qed

lemma closed_state:
  assumes "fence_ok st" "b = fst (update_fence_state s st)"
  shows "\<not> fst (update_fence_state (reopened st @ s @ closed_if b) (False, []))"
proof (cases b)
  case True
  have "fst (update_fence_state FENCE x) = (\<not> fst x)" for x
    by (cases x) (simp add: update_fence_lines split_inclusive_line FENCE_def lit_def LF_def fence_line_def trim_def trim_start_def trim_end_def
        is_whitespace_def starts_with_def Let_def ch_def)
  then show ?thesis using True assms update_fence_append [of s FENCE st] reopened_state [OF assms(1), of "s @ LF # FENCE"]
    by (simp add: closed_if_def)
next
  case False
  then show ?thesis using assms reopened_state [OF assms(1), of s] by (simp add: closed_if_def)
qed

lemma chunk_from_balanced:
  "fence_ok st \<Longrightarrow> list_all (\<lambda>c. \<not> fst (update_fence_state c (False, []))) (chunk_from n st s)"
proof (induction n st s rule: chunk_from.induct)
  case (1 n st s)
  let ?budget = "chunk_budget n st"
  show ?case
  proof (cases "s = [] \<or> ?budget = 0 \<or> utf8_len s \<le> ?budget")
    case True
    then show ?thesis using closed_state [OF "1.prems" refl, of s] by (subst chunk_from.simps) (auto simp: Let_def)
  next
    case False
    let ?k = "find_split_point s ?budget"
    let ?st = "update_fence_state (take ?k s) st"
    have "list_all (\<lambda>c. \<not> fst (update_fence_state c (False, []))) (chunk_from n ?st (skip_newline (drop ?k s)))"
      by (rule "1.IH" [OF _ refl _ _ refl refl fence_ok_update [OF "1.prems"]]) (use False in auto)
    then show ?thesis using False closed_state [OF "1.prems" refl, of "take ?k s"] by (subst chunk_from.simps) (simp add: Let_def)
  qed
qed

text \<open>C19: a reply that has to be cut is cut into messages that each close the code blocks they open: read on its own, as the platform
  reads it, no message ends inside a block.\<close>

theorem chunks_close_their_code_blocks:
  assumes "max_bytes < utf8_len s"
  shows "list_all (\<lambda>c. \<not> fst (update_fence_state c (False, []))) (chunk_text s max_bytes)"
  using assms chunk_from_balanced [of "(False, [])" max_bytes s] by (simp add: chunk_text_def fence_ok_def)

section \<open>Nothing is lost\<close>

text \<open>What the messages carry: each a piece of the text, after the first line of the block it goes on with and before the fence that closes
  the block; a line end between two pieces may be left out.\<close>

inductive carry :: "ustring list \<Rightarrow> ustring \<Rightarrow> bool" where
  carry_nothing: "carry [] []"
| carry_piece:
    "carry cs rest \<Longrightarrow> piece \<noteq> [] \<Longrightarrow> b = [] \<or> starts_with FENCE b \<and> LF \<notin> set b \<Longrightarrow> gap \<in> {[], [LF], CRLF} \<Longrightarrow>
     carry (((if b = [] then [] else b @ [LF]) @ piece @ closed_if open_fence) # cs) (piece @ gap @ rest)"

text \<open>The first line of a block, from its fence on, and the two fences around a piece leave room for the piece.\<close>

definition fences_fit :: "nat \<Rightarrow> ustring \<Rightarrow> bool" where
  "fences_fit n s \<longleftrightarrow> list_all (\<lambda>t. starts_with FENCE t \<longrightarrow> utf8_len (takeWhile (\<lambda>c. c \<noteq> LF) t) + 6 \<le> n) (suffixes s)"

lemma fences_fit_suffix: "fences_fit n (a @ s) \<Longrightarrow> fences_fit n s"
  by (auto simp: fences_fit_def list_all_iff suffix_def)

lemma starts_with_iff: "starts_with p s \<longleftrightarrow> (\<exists>t. s = p @ t)"
  unfolding starts_with_def by (metis append_eq_conv_conj append_take_drop_id)

lemma fences_fitD:
  assumes "fences_fit n (a @ h @ b)" "starts_with FENCE h" "LF \<notin> set h"
  shows "utf8_len h + 6 \<le> n"
proof -
  have "starts_with FENCE (h @ b)" using assms(2) by (auto simp: starts_with_iff)
  moreover have "h @ b \<in> set (suffixes (a @ h @ b))" by (auto simp: suffix_def)
  ultimately have "utf8_len (takeWhile (\<lambda>c. c \<noteq> LF) (h @ b)) + 6 \<le> n" using assms(1) by (auto simp: fences_fit_def list_all_iff)
  moreover have "takeWhile (\<lambda>c. c \<noteq> LF) (h @ b) = h @ takeWhile (\<lambda>c. c \<noteq> LF) b"
    by (rule takeWhile_append2) (use assms(3) in auto)
  ultimately show ?thesis by simp
qed

definition fence_fits :: "nat \<Rightarrow> bool \<times> ustring \<Rightarrow> bool" where
  "fence_fits n st \<longleftrightarrow> fence_ok st \<and> (fst st \<longrightarrow> utf8_len (snd st) + 6 \<le> n)"

lemma line_of_text: "l \<in> set (split_inclusive s) \<Longrightarrow> \<exists>a b. s = a @ l @ b"
proof (induction s arbitrary: l)
  case (Cons c s)
  have "concat (split_inclusive t) = t" for t by (induction t) (auto split: list.split)
  then show ?case using split_list [OF Cons.prems] by (metis concat.simps(2) concat_append)
qed simp

lemma trim_part: "\<exists>a b. s = a @ trim s @ b"
proof -
  have start: "s = takeWhile is_whitespace s @ trim_start s" by (simp add: trim_start_def)
  have "trim_start s = trim s @ rev (takeWhile is_whitespace (rev (trim_start s)))"
    unfolding trim_def trim_end_def by (metis rev_append rev_rev_ident takeWhile_dropWhile_id)
  then show ?thesis using start by metis
qed

lemma fence_fits_line:
  assumes "fence_fits n st" "fences_fit n s" "l \<in> set (split_inclusive s)"
  shows "fence_fits n (fence_line st l)"
proof -
  obtain a b where s: "s = a @ trim l @ b"
    using line_of_text [OF assms(3)] trim_part [of l] by (metis append.assoc)
  show ?thesis
    using assms(1) fence_ok_line [of st l] no_LF_lines [OF assms(3)] trim_no_LF [of l] fences_fitD [of n a "trim l" b] assms(2) s
    by (auto simp: fence_fits_def fence_line_def Let_def split: if_splits)
qed

lemma fence_fits_update: "fence_fits n st \<Longrightarrow> fences_fit n s \<Longrightarrow> fence_fits n (update_fence_state s st)"
proof -
  have "fence_fits n st \<Longrightarrow> (\<And>st l. l \<in> set ls \<Longrightarrow> fence_fits n st \<Longrightarrow> fence_fits n (fence_line st l)) \<Longrightarrow> fence_fits n (foldl fence_line st ls)" for ls st
    by (induction ls arbitrary: st) simp_all
  moreover assume "fence_fits n st" "fences_fit n s"
  ultimately show ?thesis using fence_fits_line [of n _ s] by (simp add: update_fence_lines)
qed

lemma fences_fit_take: "fences_fit n s \<Longrightarrow> fences_fit n (take k s)"
proof -
  assume fit: "fences_fit n s"
  have "utf8_len (takeWhile (\<lambda>c. c \<noteq> LF) t) + 6 \<le> n" if "suffix t (take k s)" "starts_with FENCE t" for t
  proof -
    obtain a where a: "take k s = a @ t" using \<open>suffix t (take k s)\<close> by (auto simp: suffix_def)
    let ?h = "takeWhile (\<lambda>c. c \<noteq> LF) t"
    have "s = a @ ?h @ (dropWhile (\<lambda>c. c \<noteq> LF) t @ drop k s)" using a by (metis append.assoc append_take_drop_id takeWhile_dropWhile_id)
    moreover have "starts_with FENCE ?h"
      using that(2) by (cases t; cases "tl t"; cases "tl (tl t)") (auto simp: starts_with_def FENCE_def lit_def LF_def ch_def)
    moreover have "LF \<notin> set ?h" by (auto dest: set_takeWhileD)
    ultimately show ?thesis using fences_fitD fit by metis
  qed
  then show ?thesis by (auto simp: fences_fit_def list_all_iff)
qed

lemma skip_newline_end: "\<exists>e \<in> {[], [LF], CRLF}. s = e @ skip_newline s"
  by (auto simp: skip_newline_def strip_prefix_def starts_with_iff)

lemma chunk_from_carries: "fence_fits n st \<Longrightarrow> fences_fit n s \<Longrightarrow> 0 < n \<Longrightarrow> carry (chunk_from n st s) s"
proof (induction n st s rule: chunk_from.induct)
  case (1 n st s)
  let ?budget = "chunk_budget n st"
  define b where "b = snd st"
  have b: "reopened st = (if b = [] then [] else b @ [LF])" "b = [] \<or> starts_with FENCE b \<and> LF \<notin> set b"
    using "1.prems"(1) by (auto simp: b_def fence_fits_def fence_ok_def reopened_def FENCE_def lit_def starts_with_def split: if_splits)
  have room: "?budget \<noteq> 0"
    using "1.prems" by (cases "fst st") (auto simp: fence_fits_def chunk_budget_def reopened_def LF_def utf8_len_char_def)
  have piece: "carry ((reopened st @ x @ closed_if q) # cs) (x @ e @ rest)"
    if "carry cs rest" "x \<noteq> []" "e \<in> {[], [LF], CRLF}" for x e rest cs q
    using carry_piece [OF that(1,2) b(2) that(3), of q] by (simp add: b(1))
  show ?case
  proof (cases "s = [] \<or> utf8_len s \<le> ?budget")
    case True
    then show ?thesis using room piece [OF carry_nothing, of s "[]"] by (subst chunk_from.simps) (auto simp: Let_def carry_nothing)
  next
    case False
    let ?k = "find_split_point s ?budget"
    let ?st = "update_fence_state (take ?k s) st"
    obtain e where e: "e \<in> {[], [LF], CRLF}" "drop ?k s = e @ skip_newline (drop ?k s)" using skip_newline_end [of "drop ?k s"] by blast
    have whole: "s = take ?k s @ e @ skip_newline (drop ?k s)" using e(2) by (metis append_take_drop_id)
    have "fences_fit n (skip_newline (drop ?k s))"
      using "1.prems"(2) fences_fit_suffix [of n "take ?k s @ e"] whole by (metis append.assoc)
    then have "carry (chunk_from n ?st (skip_newline (drop ?k s))) (skip_newline (drop ?k s))"
      by (intro "1.IH" [OF _ refl _ _ refl refl] fence_fits_update fences_fit_take) (use False room "1.prems" in auto)
    then have "carry ((reopened st @ take ?k s @ closed_if (fst ?st)) # chunk_from n ?st (skip_newline (drop ?k s)))
        (take ?k s @ e @ skip_newline (drop ?k s))"
      by (rule piece) (use e(1) False find_split_point_pos [of s ?budget] in auto)
    then show ?thesis using False room whole by (subst chunk_from.simps) (auto simp: Let_def)
  qed
qed


section \<open>Examples\<close>

lemma FENCE_bytes: "FENCE = [96, 96, 96]"
  by (simp add: FENCE_def lit_def ch_def)

lemmas chunk_eval = chunk_text_def chunk_from.simps chunk_budget_def reopened_def closed_if_def find_split_point_def skip_newline_def
  strip_prefix_def rfind_by_def update_fence_state_def fence_line_def str_lines_def line_content_def strip_suffix_def ends_with_def
  starts_with_def FENCE_bytes trim_def trim_start_def trim_end_def is_whitespace_def utf8_len_char_def Let_def LF_def CR_def CRLF_def

definition sample_reply :: ustring where
  "sample_reply = FENCE @ [LF, 97, 97, 97, 97, LF, 98, 98, LF] @ FENCE @ [LF, 99]"

lemma chunks_are_bounded_witness: "list_all (\<lambda>c. utf8_len c \<le> 18) (chunk_text sample_reply 14)"
  using chunks_are_bounded [of 14 sample_reply] by simp

lemma chunks_close_their_code_blocks_witness:
  "utf8_len sample_reply = 17 \<and> list_all (\<lambda>c. \<not> fst (update_fence_state c (False, []))) (chunk_text sample_reply 14)"
proof -
  have "utf8_len sample_reply = 17" by (simp add: sample_reply_def chunk_eval)
  then show ?thesis using chunks_close_their_code_blocks [of 14 sample_reply] by simp
qed


text \<open>The first message opens the block and is longer than the limit.\<close>

lemma first_block_overruns: "map utf8_len (chunk_text (FENCE @ [LF, 97, 97, 97, 97, 97, LF, 98, 98]) 10) = [13, 10]"
  by (simp add: chunk_eval)

text \<open>A first line of a block as long as the limit swallows the rest of the reply.\<close>

lemma long_first_line_swallows_the_rest:
  "chunk_text (FENCE @ [97, 97, 97, 97, 97, 97, 97, 97, 97, LF, 98, 98]) 10 = [FENCE @ [97, 97, 97, 97, 97, 97, 97, LF] @ FENCE]"
  by (simp add: chunk_eval)

end
