(* ===== verification/Chat_State.thy ===== *)
theory Chat_State
  imports Session_Names
begin

text \<open>
  What a chat interface remembers (\<open>crates/interfaces/src\<close>): its owner and conversations, kept in a file (\<open>chat_state.rs\<close>), the chat
  each turn in flight answers in (\<open>reply_targets.rs\<close>), the messages of a group nobody addressed to the bot (\<open>context_buffer.rs\<close>), and
  the retries of the first connection (\<open>boot_retry.rs\<close>).

  Whether a save succeeds is an argument; what the file holds then is the state. Moments are integers of nanoseconds.
\<close>

section \<open>The owner and the conversations\<close>

record chat_ref =
  ref_kind :: conversation_kind
  ref_label :: ustring

definition direct_message_label :: "ustring \<Rightarrow> ustring" where
  "direct_message_label person = lit ''direct message with '' @ person"

definition direct_message :: "ustring \<Rightarrow> chat_ref" where
  "direct_message person = \<lparr>ref_kind = Personal, ref_label = direct_message_label person\<rparr>"

record owner =
  owner_user_id :: ustring
  owner_name :: ustring
  dm_conversation_id :: ustring

datatype standing = OwnerStanding | OtherStanding "owner option"

definition refusal :: "standing \<Rightarrow> ustring option" where
  "refusal s =
     (case s of
        OwnerStanding \<Rightarrow> None
      | OtherStanding (Some o') \<Rightarrow> Some (lit ''I only take requests from '' @ owner_name o' @ lit ''.'')
      | OtherStanding None \<Rightarrow> Some (lit ''I'' @ [39] @ lit ''m not set up yet. My owner needs to send me a direct message first.''))"

record 'c stored_state =
  stored_owner :: "owner option"
  conversations :: "(ustring, 'c) hmap"

definition empty_state :: "'c stored_state" where
  "empty_state = \<lparr>stored_owner = None, conversations = []\<rparr>"

record 'c chat_store =
  in_memory :: "'c stored_state"
  in_file :: "'c stored_state option"

text \<open>A file is missing, cannot be parsed, cannot be read, or holds a state.\<close>

datatype 'c chat_file = MissingFile | CorruptFile | UnreadableFile | StateFile "'c stored_state"

text \<open>The store and whether there is something to tell; a corrupt file is moved aside when that works.\<close>

definition load_chat_state :: "'c chat_file \<Rightarrow> bool \<Rightarrow> ('c chat_store \<times> bool) option" where
  "load_chat_state f moved =
     (case f of
        StateFile s \<Rightarrow> Some (\<lparr>in_memory = s, in_file = Some s\<rparr>, False)
      | CorruptFile \<Rightarrow> Some (\<lparr>in_memory = empty_state, in_file = None\<rparr>, True)
      | MissingFile \<Rightarrow> Some (\<lparr>in_memory = empty_state, in_file = None\<rparr>, False)
      | UnreadableFile \<Rightarrow> None)"

definition standing_of :: "'c chat_store \<Rightarrow> ustring option \<Rightarrow> standing" where
  "standing_of st sender =
     (case (stored_owner (in_memory st), sender) of
        (Some o', Some i) \<Rightarrow> if owner_user_id o' = i then OwnerStanding else OtherStanding (Some o')
      | (ow, _) \<Rightarrow> OtherStanding ow)"

definition admit_sender :: "'c chat_store \<Rightarrow> ustring option \<Rightarrow> bool \<Rightarrow> ustring + standing" where
  "admit_sender st sender respond_to_others =
     (let s = standing_of st sender in
      case refusal s of
        Some r \<Rightarrow> if \<not> respond_to_others then Inl r else Inr s
      | None \<Rightarrow> Inr s)"

definition persist :: "bool \<Rightarrow> 'c chat_store \<Rightarrow> 'c chat_store" where
  "persist ok st = (if ok then st\<lparr>in_file := Some (in_memory st)\<rparr> else st)"

text \<open>The answer is whether this call set the owner, or nothing for an error.\<close>

definition claim_owner :: "owner \<Rightarrow> bool \<Rightarrow> 'c chat_store \<Rightarrow> 'c chat_store \<times> bool option" where
  "claim_owner ow ok st =
     (if stored_owner (in_memory st) \<noteq> None then (st, Some False)
      else (persist ok (st\<lparr>in_memory := (in_memory st)\<lparr>stored_owner := Some ow\<rparr>\<rparr>), if ok then Some True else None))"

definition remember_chat :: "ustring \<Rightarrow> 'c \<Rightarrow> bool \<Rightarrow> 'c chat_store \<Rightarrow> 'c chat_store \<times> bool" where
  "remember_chat i c ok st =
     (if hm_get (conversations (in_memory st)) i = Some c then (st, True)
      else (persist ok (st\<lparr>in_memory := (in_memory st)\<lparr>conversations := hm_insert i c (conversations (in_memory st))\<rparr>\<rparr>), ok))"

definition forget_chat :: "ustring \<Rightarrow> bool \<Rightarrow> 'c chat_store \<Rightarrow> 'c chat_store \<times> bool" where
  "forget_chat i ok st =
     (if hm_get (conversations (in_memory st)) i = None then (st, True)
      else (persist ok (st\<lparr>in_memory := (in_memory st)\<lparr>conversations := hm_remove i (conversations (in_memory st))\<rparr>\<rparr>), ok))"

definition known_conversations :: "chat_ref chat_store \<Rightarrow> (ustring \<times> conversation_kind \<times> ustring) list" where
  "known_conversations st = map (\<lambda>(i, c). (i, ref_kind c, ref_label c)) (conversations (in_memory st))"

datatype 'c store_event = Claims owner bool | Remembers ustring 'c bool | Forgets ustring bool

definition store_step :: "'c chat_store \<Rightarrow> 'c store_event \<Rightarrow> 'c chat_store" where
  "store_step st e =
     (case e of
        Claims ow ok \<Rightarrow> fst (claim_owner ow ok st)
      | Remembers i c ok \<Rightarrow> fst (remember_chat i c ok st)
      | Forgets i ok \<Rightarrow> fst (forget_chat i ok st))"

definition saves :: "'c store_event \<Rightarrow> bool" where
  "saves e = (case e of Claims ow ok \<Rightarrow> ok | Remembers i c ok \<Rightarrow> ok | Forgets i ok \<Rightarrow> ok)"

lemma persist_fields [simp]: "in_memory (persist ok st) = in_memory st" "in_file (persist ok st) = (if ok then Some (in_memory st) else in_file st)"
  by (simp_all add: persist_def)

lemma owner_stays_step: "stored_owner (in_memory st) = Some ow \<Longrightarrow> stored_owner (in_memory (store_step st e)) = Some ow"
  by (cases e) (simp_all add: store_step_def claim_owner_def remember_chat_def forget_chat_def)

text \<open>the first person to claim the bot owns it: whatever is claimed, remembered and forgotten afterwards, and whichever saves fail,
  the owner of a store stays who it is, and no other sender passes as the owner.\<close>

theorem owner_is_kept:
  assumes "stored_owner (in_memory st) = Some ow"
  shows "stored_owner (in_memory (foldl store_step st es)) = Some ow \<and>
    (standing_of (foldl store_step st es) sender = OwnerStanding \<longleftrightarrow> sender = Some (owner_user_id ow))"
proof -
  have "stored_owner (in_memory (foldl store_step st es)) = Some ow"
    using assms by (induction es arbitrary: st) (simp_all add: owner_stays_step)
  then show ?thesis by (auto simp: standing_of_def split: option.split)
qed

definition in_step :: "'c chat_store \<Rightarrow> bool" where
  "in_step st \<longleftrightarrow> (in_file st = Some (in_memory st) \<or> in_file st = None \<and> in_memory st = empty_state)"

lemma in_step_step: "in_step st \<Longrightarrow> saves e \<Longrightarrow> in_step (store_step st e)"
  by (cases e) (simp_all add: store_step_def saves_def claim_owner_def remember_chat_def forget_chat_def in_step_def)

text \<open>a store whose saves succeed comes back from its file as it was.\<close>

theorem chat_state_survives_a_restart:
  assumes "load_chat_state f moved = Some (st, told)" "list_all saves es"
  shows "\<exists>st'. load_chat_state (case in_file (foldl store_step st es) of Some s \<Rightarrow> StateFile s | None \<Rightarrow> MissingFile) moved' = Some (st', False) \<and>
    in_memory st' = in_memory (foldl store_step st es)"
proof -
  have "in_step st" using assms(1) by (auto simp: load_chat_state_def in_step_def split: chat_file.splits)
  then have "in_step (foldl store_step st es)"
    using assms(2) by (induction es arbitrary: st) (simp_all add: in_step_step)
  then show ?thesis by (auto simp: in_step_def load_chat_state_def)
qed

text \<open>A conversation whose save failed counts as known: remembering it again writes nothing and reports success, so a restart forgets it.
  The same goes for an owner whose save failed.\<close>

lemma failed_save_is_not_repeated:
  "\<exists>s1. remember_chat i c False \<lparr>in_memory = empty_state, in_file = None\<rparr> = (s1, False) \<and>
    remember_chat i c True s1 = (s1, True) \<and> in_file s1 = None"
  by (simp add: remember_chat_def empty_state_def)

lemma failed_claim_is_not_repeated:
  "\<exists>s1. claim_owner ow False \<lparr>in_memory = empty_state, in_file = None\<rparr> = (s1, None) \<and> claim_owner ow True s1 = (s1, Some False) \<and> in_file s1 = None"
  by (simp add: claim_owner_def empty_state_def)

section \<open>Where a turn answers\<close>

definition REPLY_TARGET_TTL :: int where "REPLY_TARGET_TTL = dur_hours 1"

type_synonym 't reply_targets = "(ustring, 't \<times> int) hmap"

definition track :: "int \<Rightarrow> ustring \<Rightarrow> 't \<Rightarrow> 't reply_targets \<Rightarrow> 't reply_targets" where
  "track now i t m = hm_insert i (t, now) (hm_retain (\<lambda>_ (_, at). now - at < REPLY_TARGET_TTL) m)"

definition get_target :: "'t reply_targets \<Rightarrow> ustring \<Rightarrow> 't option" where
  "get_target m i = map_option fst (hm_get m i)"

definition release :: "ustring \<Rightarrow> 't reply_targets \<Rightarrow> 't reply_targets" where
  "release i m = hm_remove i m"

datatype 't reply_event = Tracks int ustring 't | Releases ustring

definition reply_step :: "'t reply_targets \<Rightarrow> 't reply_event \<Rightarrow> 't reply_targets" where
  "reply_step m e = (case e of Tracks now i t \<Rightarrow> track now i t m | Releases i \<Rightarrow> release i m)"

definition leaves_alone :: "int \<Rightarrow> ustring \<Rightarrow> 't reply_event \<Rightarrow> bool" where
  "leaves_alone since i e = (case e of Tracks now i' t \<Rightarrow> i' \<noteq> i \<and> now - since < REPLY_TARGET_TTL | Releases i' \<Rightarrow> i' \<noteq> i)"

lemma hm_wf_track [simp]: "hm_wf m \<Longrightarrow> hm_wf (track now i t m)"
  by (simp add: track_def)

text \<open>A chat is kept until the turn ends, for an hour at least, whatever other messages come.\<close>

lemma target_lasts:
  assumes "hm_wf m" "list_all (leaves_alone now i) es"
  shows "get_target (foldl reply_step (track now i t m) es) i = Some t"
proof -
  have "hm_wf m \<Longrightarrow> hm_get m i = Some (t, now) \<Longrightarrow> list_all (leaves_alone now i) es \<Longrightarrow>
      hm_get (foldl reply_step m es) i = Some (t, now)" for m
  proof (induction es arbitrary: m)
    case (Cons e es)
    have "hm_wf (reply_step m e) \<and> hm_get (reply_step m e) i = Some (t, now)"
      using Cons.prems by (cases e) (auto simp: reply_step_def release_def leaves_alone_def track_def hm_get_retain)
    then show ?case using Cons by simp
  qed simp
  then show ?thesis using assms by (simp add: get_target_def track_def)
qed

section \<open>Messages not addressed to the bot\<close>

record 'time buffered_message =
  said_by :: ustring
  said :: ustring
  said_at :: 'time

record 'm conversation_buffer =
  messages :: "'m list"
  last_recorded :: nat

record 'm context_buffer =
  capacity :: nat
  max_conversations :: nat
  buffered :: "(ustring, 'm conversation_buffer) hmap"
  buffer_clock :: nat

definition MAX_BUFFERED_CONVERSATIONS :: nat where "MAX_BUFFERED_CONVERSATIONS = 256"

definition with_conversation_limit :: "nat \<Rightarrow> nat \<Rightarrow> 'm context_buffer" where
  "with_conversation_limit cap n = \<lparr>capacity = cap, max_conversations = n, buffered = [], buffer_clock = 0\<rparr>"

definition new_context_buffer :: "nat \<Rightarrow> 'm context_buffer" where
  "new_context_buffer cap = with_conversation_limit cap MAX_BUFFERED_CONVERSATIONS"

text \<open>\<open>Iterator::min_by_key\<close> gives the first of several least elements.\<close>

fun min_by_key :: "('a \<Rightarrow> nat) \<Rightarrow> 'a list \<Rightarrow> 'a option" where
  "min_by_key f [] = None"
| "min_by_key f (x # xs) = (case min_by_key f xs of Some y \<Rightarrow> if f y < f x then Some y else Some x | None \<Rightarrow> Some x)"

definition evict_least_recent :: "(ustring, 'm conversation_buffer) hmap \<Rightarrow> (ustring, 'm conversation_buffer) hmap" where
  "evict_least_recent m = (case min_by_key (\<lambda>e. last_recorded (snd e)) m of Some (i, _) \<Rightarrow> hm_remove i m | None \<Rightarrow> m)"

definition record_message :: "ustring \<Rightarrow> 'm \<Rightarrow> 'm context_buffer \<Rightarrow> 'm context_buffer" where
  "record_message i x st =
     (if capacity st = 0 \<or> max_conversations st = 0 then st
      else
        (let now = buffer_clock st + 1;
             m = (if \<not> hm_contains (buffered st) i \<and> length (buffered st) \<ge> max_conversations st
                  then evict_least_recent (buffered st) else buffered st);
             b = (case hm_get m i of Some b \<Rightarrow> messages b | None \<Rightarrow> []);
             b = (if length b = capacity st then tl b else b)
         in st\<lparr>buffer_clock := now, buffered := hm_insert i \<lparr>messages = b @ [x], last_recorded = now\<rparr> m\<rparr>))"

definition drain_messages :: "ustring \<Rightarrow> 'm context_buffer \<Rightarrow> 'm context_buffer \<times> 'm list" where
  "drain_messages i st =
     (st\<lparr>buffered := hm_remove i (buffered st)\<rparr>, case hm_get (buffered st) i of Some b \<Rightarrow> messages b | None \<Rightarrow> [])"

definition render_context :: "('time \<Rightarrow> ustring) \<Rightarrow> ustring \<Rightarrow> 'time buffered_message list \<Rightarrow> ustring option" where
  "render_context fmt location ms =
     (if ms = [] then None
      else Some (trim_end (lit ''Previous conversation in '' @ location @ lit '' since you were last mentioned there. '' @
        lit ''This is background only; the message that mentions you follows.'' @ [10] @
        concat (map (\<lambda>m. lit ''['' @ fmt (said_at m) @ lit ''] '' @ said_by m @ lit '': '' @ said m @ [10]) ms))))"

datatype 'm buffer_event = RecordsMessage ustring 'm | Drains ustring

fun buffer_step :: "'m context_buffer \<Rightarrow> 'm buffer_event \<Rightarrow> 'm context_buffer \<times> 'm list option" where
  "buffer_step st (RecordsMessage i x) = (record_message i x st, None)"
| "buffer_step st (Drains i) = (case drain_messages i st of (st', ms) \<Rightarrow> (st', Some ms))"

text \<open>What the buffer is meant to be: the conversations by how recently one was heard from, each with its last messages.\<close>

definition last_of :: "nat \<Rightarrow> 'a list \<Rightarrow> 'a list" where
  "last_of n xs = drop (length xs - n) xs"

type_synonym 'm recency = "(ustring \<times> 'm list) list"

definition said_in :: "ustring \<Rightarrow> 'm recency \<Rightarrow> 'm list" where
  "said_in i l = (case map_of l i of Some ms \<Rightarrow> ms | None \<Rightarrow> [])"

fun recency_step :: "nat \<Rightarrow> nat \<Rightarrow> 'm recency \<Rightarrow> 'm buffer_event \<Rightarrow> 'm recency \<times> 'm list option" where
  "recency_step cap n l (RecordsMessage i x) =
     (if cap = 0 then l else take n ((i, last_of cap (said_in i l @ [x])) # filter (\<lambda>e. fst e \<noteq> i) l), None)"
| "recency_step cap n l (Drains i) = (filter (\<lambda>e. fst e \<noteq> i) l, Some (said_in i l))"

text \<open>The buffers in order, the latest first, are the list.\<close>

definition in_recency_order :: "(ustring \<times> 'm conversation_buffer) list \<Rightarrow> bool" where
  "in_recency_order l \<longleftrightarrow> sorted_wrt (\<lambda>a b. last_recorded (snd b) < last_recorded (snd a)) l"

definition buffer_rel :: "'m context_buffer \<Rightarrow> 'm recency \<Rightarrow> bool" where
  "buffer_rel st l \<longleftrightarrow>
     (\<exists>bs. l = map (\<lambda>(i, b). (i, messages b)) bs \<and> hm_wf (buffered st) \<and> distinct (map fst bs) \<and> set bs = set (buffered st) \<and>
       in_recency_order bs \<and> length bs \<le> max_conversations st \<and>
       (\<forall>(i, b)\<in>set bs. last_recorded b \<le> buffer_clock st \<and> length (messages b) \<le> capacity st))"

lemma set_hm_insert: "hm_wf m \<Longrightarrow> set (hm_insert k v m) = insert (k, v) {e \<in> set m. fst e \<noteq> k}"
proof -
  assume wf: "hm_wf m"
  have "(k', v') \<in> set (hm_insert k v m) \<longleftrightarrow> (k', v') \<in> insert (k, v) {e \<in> set m. fst e \<noteq> k}" for k' v'
    using hm_get_wf [OF hm_wf_insert [OF wf], of k v k' v'] hm_get_wf [OF wf, of k' v'] by (auto split: if_splits)
  then show ?thesis by (meson equalityI subrelI)
qed

lemma min_by_key_least:
  "distinct (map f xs) \<Longrightarrow> x \<in> set xs \<Longrightarrow> (\<And>y. y \<in> set xs \<Longrightarrow> f x \<le> f y) \<Longrightarrow> min_by_key f xs = Some x"
proof (induction xs)
  case (Cons a xs)
  show ?case
  proof (cases "x = a")
    case True
    have "\<not> f y < f a" if "min_by_key f xs = Some y" for y
    proof -
      have "min_by_key f zs = Some y \<Longrightarrow> y \<in> set zs" for zs
        by (induction zs) (auto split: option.splits if_splits)
      then show ?thesis using Cons.prems(3) [of y] True that by fastforce
    qed
    then show ?thesis using True by (auto split: option.split)
  next
    case False
    then have "x \<in> set xs" using Cons.prems(2) by simp
    moreover from this have "f x \<noteq> f a" using Cons.prems(1) by (auto simp: image_iff)
    moreover have "f x \<le> f a" using Cons.prems(3) by simp
    moreover have "min_by_key f xs = Some x" using Cons.prems calculation(1) by (intro Cons.IH) auto
    ultimately show ?thesis by simp
  qed
qed simp

lemma same_lookup:
  "hm_wf m \<Longrightarrow> distinct (map fst bs) \<Longrightarrow> set bs = set m \<Longrightarrow> hm_get m i = map_of bs i"
  using map_of_inject_set [of m bs] by (simp add: hm_wf_def hm_get_def)

lemma same_size: "hm_wf m \<Longrightarrow> distinct (map fst bs) \<Longrightarrow> set bs = set m \<Longrightarrow> length m = length bs"
  using distinct_card [of m] distinct_card [of bs] by (simp add: hm_wf_def distinct_map)

lemma said_in_map: "said_in i (map (\<lambda>(i, b). (i, messages b)) bs) = (case map_of bs i of Some b \<Rightarrow> messages b | None \<Rightarrow> [])"
  by (induction bs) (auto simp: said_in_def)

lemma filter_other_map: "filter (\<lambda>e. fst e \<noteq> i) (map (\<lambda>(i, b). (i, messages b)) bs) = map (\<lambda>(i, b). (i, messages b)) (filter (\<lambda>e. fst e \<noteq> i) bs)"
  by (induction bs) auto

lemma sorted_wrt_inj: "sorted_wrt (\<lambda>a b. f b < f a) xs \<Longrightarrow> inj_on f (set xs)" for f :: "'a \<Rightarrow> nat"
proof (induction xs)
  case (Cons a xs)
  then have "f a \<notin> f ` set xs" by (fastforce simp: image_iff)
  then show ?case using Cons by (auto simp: inj_on_insert)
qed simp

lemma in_recency_order_butlast: "in_recency_order bs \<Longrightarrow> in_recency_order (butlast bs)"
  by (simp add: in_recency_order_def butlast_conv_take sorted_wrt_take)

lemma last_of_append: "0 < n \<Longrightarrow> length xs \<le> n \<Longrightarrow> last_of n (xs @ [x]) = (if length xs = n then tl xs else xs) @ [x]"
  by (auto simp: last_of_def drop_Suc Suc_diff_le)

text \<open>The conversation that is dropped is the last in the order.\<close>

lemma evict_last:
  assumes "hm_wf m" "distinct (map fst bs)" "set bs = set m" "in_recency_order bs" "bs \<noteq> []"
  shows "evict_least_recent m = hm_remove (fst (last bs)) m" "set (butlast bs) = set (evict_least_recent m)"
proof -
  let ?f = "\<lambda>e. last_recorded (snd e)"
  have split: "bs = butlast bs @ [last bs]" using assms(5) by simp
  have order: "sorted_wrt (\<lambda>a b. ?f b < ?f a) (butlast bs @ [last bs])" using assms(4) split by (simp add: in_recency_order_def)
  have least: "?f (last bs) \<le> ?f y" if "y \<in> set bs" for y
    using that order split by (metis (no_types, lifting) Un_iff empty_iff insert_iff less_imp_le list.set(1) list.simps(15) order_refl set_append sorted_wrt_append)
  have inj: "inj_on ?f (set bs)"
    by (rule sorted_wrt_inj) (use assms(4) in \<open>simp add: in_recency_order_def\<close>)
  have "distinct (map ?f m)" using inj assms(1,3) by (simp add: distinct_map hm_wf_def)
  then have min: "min_by_key ?f m = Some (last bs)"
    using min_by_key_least [of ?f m "last bs"] least assms(3) last_in_set [OF assms(5)] by blast
  then show evict: "evict_least_recent m = hm_remove (fst (last bs)) m" by (simp add: evict_least_recent_def split: prod.split)
  have "distinct (map fst (butlast bs @ [last bs]))" using assms(2) split by simp
  then have "fst (last bs) \<notin> fst ` set (butlast bs)" by simp
  moreover have "set bs = insert (last bs) (set (butlast bs))" using split by (metis Un_insert_right list.set(2) set_append sup_bot.right_neutral list.set(1))
  ultimately show "set (butlast bs) = set (evict_least_recent m)"
    using evict assms(3) by (auto simp: hm_remove_def image_iff)
qed

lemma heard_from:
  fixes i :: ustring
  assumes "hm_wf m" "distinct (map fst bs)" "set bs = set m" "in_recency_order bs"
    and "\<forall>(i, b)\<in>set bs. last_recorded b \<le> clock \<and> length (messages b) \<le> cap" "last_recorded b > clock" "length (messages b) \<le> cap"
  defines "bs' \<equiv> (i, b) # filter (\<lambda>e. fst e \<noteq> i) bs"
  shows "hm_wf (hm_insert i b m)" "distinct (map fst bs')" "set bs' = set (hm_insert i b m)" "in_recency_order bs'"
    "\<forall>(i, b')\<in>set bs'. last_recorded b' \<le> last_recorded b \<and> length (messages b') \<le> cap"
  using assms(1-7) by (auto simp: bs'_def set_hm_insert in_recency_order_def sorted_wrt_filter distinct_map_filter)

lemma buffer_step_rel:
  assumes "buffer_rel st l" "0 < max_conversations st"
  shows "buffer_rel (fst (buffer_step st e)) (fst (recency_step (capacity st) (max_conversations st) l e)) \<and>
    snd (buffer_step st e) = snd (recency_step (capacity st) (max_conversations st) l e)"
proof -
  obtain bs where bs: "l = map (\<lambda>(i, b). (i, messages b)) bs" "hm_wf (buffered st)" "distinct (map fst bs)" "set bs = set (buffered st)"
    "in_recency_order bs" "length bs \<le> max_conversations st"
    "\<forall>(i, b)\<in>set bs. last_recorded b \<le> buffer_clock st \<and> length (messages b) \<le> capacity st"
    using assms(1) unfolding buffer_rel_def by blast
  note look = same_lookup [OF bs(2-4)] and size = same_size [OF bs(2-4)]
  show ?thesis
  proof (cases e)
    case (Drains i)
    have "buffer_rel (st\<lparr>buffered := hm_remove i (buffered st)\<rparr>) (filter (\<lambda>e. fst e \<noteq> i) l)"
      unfolding buffer_rel_def
      by (rule exI [of _ "filter (\<lambda>e. fst e \<noteq> i) bs"])
        (use bs in \<open>auto simp: filter_other_map hm_remove_def in_recency_order_def sorted_wrt_filter distinct_map_filter hm_wf_def
          intro: le_trans [OF length_filter_le]\<close>)
    then show ?thesis by (simp add: Drains drain_messages_def said_in_map bs(1) look)
  next
    case (RecordsMessage i x)
    show ?thesis
    proof (cases "capacity st = 0")
      case True
      then show ?thesis using assms by (simp add: RecordsMessage record_message_def)
    next
      case cap: False
      let ?full = "\<not> hm_contains (buffered st) i \<and> max_conversations st \<le> length (buffered st)"
      define m where "m = (if ?full then evict_least_recent (buffered st) else buffered st)"
      define cs where "cs = (if ?full then butlast bs else bs)"
      define old where "old = (case hm_get m i of Some b \<Rightarrow> messages b | None \<Rightarrow> [])"
      define b where "b = \<lparr>messages = (if length old = capacity st then tl old else old) @ [x], last_recorded = buffer_clock st + 1\<rparr>"
      have rec: "record_message i x st = st\<lparr>buffer_clock := buffer_clock st + 1, buffered := hm_insert i b m\<rparr>"
        using cap assms(2) by (simp add: record_message_def Let_def m_def old_def b_def)
      have "bs \<noteq> []" if ?full using that size assms(2) by auto
      note evict = evict_last [OF bs(2-5) this]
      have m: "hm_wf m" "distinct (map fst cs)" "set cs = set m" "in_recency_order cs"
        using bs evict by (auto simp: m_def cs_def map_butlast distinct_butlast in_recency_order_butlast)
      have "set cs \<subseteq> set bs" by (auto simp: cs_def dest: in_set_butlastD)
      then have small: "\<forall>(i, b)\<in>set cs. last_recorded b \<le> buffer_clock st \<and> length (messages b) \<le> capacity st" using bs(7) by blast
      have old_len: "length old \<le> capacity st"
        using small m(3) by (auto simp: old_def dest!: hm_get_mem split: option.split)
      have b_len: "length (messages b) \<le> capacity st" using old_len cap by (auto simp: b_def)
      have new: "messages b = last_of (capacity st) (old @ [x])" using last_of_append [of "capacity st" old x] old_len cap by (simp add: b_def)
      have absent: "i \<notin> fst ` set bs" "hm_get m i = None" if ?full
        using that evict(1) [OF that] bs(4) by (auto simp: hm_contains_get hm_get_None m_def)
      have said: "said_in i l = old"
        using absent by (auto simp: old_def bs(1) said_in_map m_def look hm_contains_get split: option.split)
      let ?cs = "(i, b) # filter (\<lambda>e. fst e \<noteq> i) cs"
      note ins = heard_from [OF m small, of b i]
      have short: "length ?cs \<le> max_conversations st"
      proof (cases ?full)
        case True
        then have "Suc (length cs) = length bs" using \<open>?full \<Longrightarrow> bs \<noteq> []\<close> by (simp add: cs_def)
        then have "Suc (length (filter (\<lambda>e. fst e \<noteq> i) cs)) \<le> length bs"
          using length_filter_le [of "\<lambda>e. fst e \<noteq> i" cs] by linarith
        then show ?thesis using bs(6) by simp
      next
        case False
        show ?thesis
        proof (cases "hm_contains (buffered st) i")
          case True
          then obtain y where "y \<in> set bs" "fst y = i" by (auto simp: hm_contains_get hm_get_None bs(4) image_iff)
          then have "length (filter (\<lambda>e. fst e \<noteq> i) bs) < length bs" by (intro length_filter_less) auto
          then show ?thesis using False bs(6) by (auto simp: cs_def)
        next
          case absent': False
          then have "length cs < max_conversations st" using False size by (simp add: cs_def)
          then have "length (filter (\<lambda>e. fst e \<noteq> i) cs) < max_conversations st" by (rule le_less_trans [OF length_filter_le])
          then show ?thesis by simp
        qed
      qed
      have spec: "take (max_conversations st) ((i, last_of (capacity st) (said_in i l @ [x])) # filter (\<lambda>e. fst e \<noteq> i) l) =
          map (\<lambda>(i, b). (i, messages b)) ?cs"
      proof (cases ?full)
        case True
        then have "filter (\<lambda>e. fst e \<noteq> i) bs = bs" "filter (\<lambda>e. fst e \<noteq> i) cs = cs" "length bs = max_conversations st"
          using absent(1) bs(6) size by (auto simp: cs_def image_iff intro!: filter_True dest: in_set_butlastD)
        then show ?thesis using True assms(2)
          by (cases "max_conversations st") (simp_all add: new said [unfolded bs(1)] bs(1) filter_other_map cs_def take_map butlast_conv_take)
      next
        case False
        then have "cs = bs" unfolding cs_def by (rule if_not_P)
        then show ?thesis using short by (simp add: new said [unfolded bs(1)] bs(1) filter_other_map take_all)
      qed
      have "buffer_rel (record_message i x st) (map (\<lambda>(i, b). (i, messages b)) ?cs)"
        unfolding buffer_rel_def rec
        by (rule exI [of _ ?cs]) (use ins short b_len in \<open>simp add: b_def\<close>)
      then show ?thesis using cap by (simp add: RecordsMessage spec)
    qed
  qed
qed

lemma buffer_step_limits [simp]:
  "capacity (fst (buffer_step st e)) = capacity st" "max_conversations (fst (buffer_step st e)) = max_conversations st"
  by (cases e; simp add: record_message_def drain_messages_def Let_def)+

text \<open>C20: the buffer of messages not addressed to the bot implements the list of conversations by how recently one was heard from: at
  each mention it hands over the last messages said in that conversation since the one before, each once, for as long as no more
  conversations than the limit were heard from since.\<close>

theorem buffer_keeps_the_most_recent:
  fixes es :: "'m buffer_event list"
  assumes "0 < n"
  shows "snd (run_machine buffer_step (with_conversation_limit cap n) es) = snd (run_machine (recency_step cap n) [] es)"
proof -
  have "buffer_rel st l \<Longrightarrow> capacity st = cap \<Longrightarrow> max_conversations st = n \<Longrightarrow>
      snd (run_machine buffer_step st es) = snd (run_machine (recency_step cap n) l es)" for st :: "'m context_buffer" and l
  proof (induction es arbitrary: st l)
    case (Cons e es)
    then show ?case using buffer_step_rel [of st l e] assms by simp
  qed simp
  moreover have "buffer_rel (with_conversation_limit cap n) ([] :: 'm recency)"
    by (simp add: buffer_rel_def with_conversation_limit_def in_recency_order_def)
  ultimately show ?thesis by (simp add: with_conversation_limit_def)
qed

theorem buffer_keeps_the_most_recent_witness:
  "snd (run_machine buffer_step (with_conversation_limit 2 2)
      [RecordsMessage [1] (1::nat), RecordsMessage [2] 2, RecordsMessage [1] 3, RecordsMessage [1] 4, RecordsMessage [3] 5,
       Drains [1], Drains [2], Drains [1]]) = [None, None, None, None, None, Some [3, 4], Some [], Some []]"
  using buffer_keeps_the_most_recent [of 2 2
      "[RecordsMessage [1] (1::nat), RecordsMessage [2] 2, RecordsMessage [1] 3, RecordsMessage [1] 4, RecordsMessage [3] 5,
        Drains [1], Drains [2], Drains [1]]"]
  by (simp add: last_of_def said_in_def)

definition sample_owner :: owner where
  "sample_owner = \<lparr>owner_user_id = [1], owner_name = [2], dm_conversation_id = [3]\<rparr>"

definition sample_store :: "chat_ref chat_store" where
  "sample_store = \<lparr>in_memory = \<lparr>stored_owner = Some sample_owner, conversations = []\<rparr>, in_file = None\<rparr>"

lemma owner_is_kept_witness:
  "stored_owner (in_memory (foldl store_step sample_store [Claims (sample_owner\<lparr>owner_user_id := [4]\<rparr>) True, Forgets [3] False])) =
     Some sample_owner"
proof -
  have "stored_owner (in_memory sample_store) = Some sample_owner" by (simp add: sample_store_def)
  from owner_is_kept [OF this] show ?thesis by blast
qed

lemma chat_state_survives_a_restart_witness:
  "\<exists>st'. load_chat_state (case in_file (foldl store_step sample_store [Remembers [1] (direct_message [2]) True]) of
      Some s \<Rightarrow> StateFile s | None \<Rightarrow> MissingFile) True = Some (st', False) \<and>
    hm_get (conversations (in_memory st')) [1] = Some (direct_message [2])"
proof -
  have l: "load_chat_state (StateFile (in_memory sample_store)) True = Some (sample_store\<lparr>in_file := Some (in_memory sample_store)\<rparr>, False)"
    by (simp add: load_chat_state_def sample_store_def)
  have s: "list_all saves [Remembers [1] (direct_message [2]) True]" by (simp add: saves_def)
  have m: "hm_get (conversations (in_memory (foldl store_step (sample_store\<lparr>in_file := Some (in_memory sample_store)\<rparr>)
      [Remembers [1] (direct_message [2]) True]))) [1] = Some (direct_message [2])"
    by (simp add: store_step_def remember_chat_def sample_store_def)
  have "in_file (foldl store_step (sample_store\<lparr>in_file := Some (in_memory sample_store)\<rparr>) [Remembers [1] (direct_message [2]) True]) =
      in_file (foldl store_step sample_store [Remembers [1] (direct_message [2]) True])"
    by (simp add: store_step_def remember_chat_def sample_store_def)
  then show ?thesis using chat_state_survives_a_restart [OF l s, of True] m by auto
qed

section \<open>The first connection\<close>

definition BASE_BACKOFF :: int where "BASE_BACKOFF = dur_secs 2"
definition CONNECT_MAX_BACKOFF :: int where "CONNECT_MAX_BACKOFF = dur_secs 30"
definition MAX_ATTEMPTS :: nat where "MAX_ATTEMPTS = 10"

datatype 'e connect_notice = Reconnected nat | CouldNotConnect 'e | GaveUp nat 'e

text \<open>What the \<open>n\<close>-th tries gives is the argument; the result comes with the notices and the waits.\<close>

function retry_connect :: "(nat \<Rightarrow> 'e + 'a) \<Rightarrow> nat \<Rightarrow> 'a option \<times> 'e connect_notice list \<times> int list" where
  "retry_connect tries attempt =
     (case tries attempt of
        Inr v \<Rightarrow> (Some v, if attempt > 0 then [Reconnected attempt] else [], [])
      | Inl e \<Rightarrow>
          (let attempt = attempt + 1;
               told = (if attempt = 1 then [CouldNotConnect e] else [])
           in if attempt \<ge> MAX_ATTEMPTS then (None, told @ [GaveUp attempt e], [])
              else
                (let wait = min (BASE_BACKOFF * int (min (2 ^ (attempt - 1)) (2 ^ 32 - 1))) CONNECT_MAX_BACKOFF;
                     (r, later, waits) = retry_connect tries attempt
                 in (r, told @ later, wait # waits))))"
  by pat_completeness auto
termination by (relation "measure (\<lambda>(tries, attempt). MAX_ATTEMPTS - attempt)") auto

declare retry_connect.simps [simp del]

lemma retry_waits: "list_all (\<lambda>d. d \<le> CONNECT_MAX_BACKOFF) (snd (snd (retry_connect tries attempt)))"
  by (induction tries attempt rule: retry_connect.induct)
    (subst retry_connect.simps, auto simp: Let_def split: sum.split prod.split)

lemma retry_gives_first:
  "attempt \<le> k \<Longrightarrow> k < MAX_ATTEMPTS \<Longrightarrow> (\<And>j. attempt \<le> j \<Longrightarrow> j < k \<Longrightarrow> \<exists>e. tries j = Inl e) \<Longrightarrow> tries k = Inr v \<Longrightarrow>
   fst (retry_connect tries attempt) = Some v \<and> length (snd (snd (retry_connect tries attempt))) = k - attempt"
proof (induction "k - attempt" arbitrary: attempt)
  case 0
  then show ?case by (subst (1 2) retry_connect.simps) simp
next
  case (Suc n)
  then obtain e where e: "tries attempt = Inl e" by fastforce
  have "fst (retry_connect tries (attempt + 1)) = Some v \<and> length (snd (snd (retry_connect tries (attempt + 1)))) = k - (attempt + 1)"
    by (rule Suc.hyps(1)) (use Suc.hyps(2) Suc.prems in auto)
  then show ?case using Suc.hyps(2) Suc.prems(2) e
    by (subst (1 2) retry_connect.simps) (auto simp: Let_def split: prod.split)
qed

end
