(* ===== verification/Chat_Outbound.thy ===== *)
theory Chat_Outbound
  imports Chat_State
begin

text \<open>
  The loop that sends what agents say to a chat platform (\<open>crates/interfaces/src/outbound.rs\<close>): where each output goes, what is
  reported when it does not get there, and the typing indicators. The platform is a record of functions over the state of its
  interface, which others change between the events; whether a send is refused, and why, comes with the event.
\<close>

record ('s, 't) chat_platform =
  display_name :: ustring
  delivers_intermediate :: bool
  explain_failure :: "ustring \<Rightarrow> ustring option"
  unknown_conversation_reason :: ustring
  reply_target_of :: "'s \<Rightarrow> ustring \<Rightarrow> 't option"
  conversation_target :: "'s \<Rightarrow> ustring \<Rightarrow> 't option"
  describe_place :: "'s \<Rightarrow> ustring \<Rightarrow> 't \<Rightarrow> ustring"

datatype ('t, 'f) chat_output =
    SendsOut 't ustring "'f option"
  | ShowsError ustring "ustring option"
  | ShowsNotice ustring
  | TellsMain ustring
  | ReleasesReply ustring

record delivery_health =
  failures_in_a_row :: nat
  no_owner_reported :: bool

definition healthy :: delivery_health where
  "healthy = \<lparr>failures_in_a_row = 0, no_owner_reported = False\<rparr>"

section \<open>What is reported\<close>

definition next_step_for :: "('s, 't) chat_platform \<Rightarrow> ustring \<Rightarrow> ustring" where
  "next_step_for C reason =
     (case explain_failure C reason of
        Some fix \<Rightarrow> fix
      | None \<Rightarrow> lit ''Check the '' @ display_name C @ lit '' connection in this agent's Settings, under Connections; the details show what '' @
          display_name C @ lit '' reported.'')"

definition tell_main :: "ustring \<Rightarrow> ('t, 'f) chat_output" where
  "tell_main text' = TellsMain (lit ''[Delivery Failed] '' @ text')"

definition fix_note :: "('s, 't) chat_platform \<Rightarrow> ustring \<Rightarrow> ustring" where
  "fix_note C reason = (case explain_failure C reason of Some fix \<Rightarrow> lit '' '' @ fix | None \<Rightarrow> [])"

definition report_failing_replies :: "('s, 't) chat_platform \<Rightarrow> ustring \<Rightarrow> ('t, 'f) chat_output list" where
  "report_failing_replies C reason =
     [ShowsError (lit ''Replies to '' @ display_name C @ lit '' aren't getting through, so messages there look unanswered. '' @
        lit ''The replies are still here in the web UI. '' @ next_step_for C reason) (Some reason),
      tell_main (lit ''Your replies on '' @ display_name C @ lit '' aren't reaching the chat: '' @ reason @ lit ''.'' @ fix_note C reason @
        lit '' The user has been told in the web UI. Further failures on '' @ display_name C @
        lit '' won't be reported until a reply gets through again.'')]"

definition report_no_owner :: "('s, 't) chat_platform \<Rightarrow> ('t, 'f) chat_output list" where
  "report_no_owner C =
     [ShowsNotice (lit ''The agent tried to send you something on '' @ display_name C @ lit '', but you haven't messaged the bot there yet, '' @
        lit ''so it doesn't know where to reach you. Send the bot a direct message on '' @ display_name C @
        lit '' once. Until then, what it sends there only shows here in the web UI.''),
      tell_main (lit ''Your output to '' @ display_name C @ lit '' went nowhere: the user hasn't messaged the bot there yet, '' @
        lit ''so it has no owner to send to. The user has been told in the web UI. This won't be reported again until '' @
        lit ''something is delivered on '' @ display_name C @ lit ''.'')]"

datatype undelivered_cause = UnknownConversation | RefusedSend ustring

definition report_undelivered_message :: "('s, 't) chat_platform \<Rightarrow> ustring \<Rightarrow> undelivered_cause \<Rightarrow> ('t, 'f) chat_output list" where
  "report_undelivered_message C place cause =
     (let what = lit ''A message the agent sent to '' @ place @ lit '' on '' @ display_name C @ lit '' didn't go out'';
          (message, details, reason) =
            (case cause of
               UnknownConversation \<Rightarrow> (what @ lit '': '' @ unknown_conversation_reason C @ lit ''.'', None, unknown_conversation_reason C)
             | RefusedSend r \<Rightarrow> (what @ lit ''. '' @ next_step_for C r, Some r, r))
      in [ShowsError message details,
          tell_main (lit ''Your message to '' @ place @ lit '' on '' @ display_name C @ lit '' didn't go out: '' @ reason @ lit ''.'' @
            fix_note C reason @ lit '' The user has been told in the web UI.'')])"

text \<open>\<open>notify_main_of_undeliverable_session_output\<close> of \<open>lib.rs\<close>.\<close>

definition notify_main_of_undeliverable :: "ustring \<Rightarrow> ustring \<Rightarrow> ustring \<Rightarrow> ('t, 'f) chat_output" where
  "notify_main_of_undeliverable address conversation reason =
     TellsMain (lit ''[Delivery Failed] session '' @ address @ lit '''s reply to conversation '' @ conversation @
       lit '' could not be delivered: '' @ reason)"

section \<open>Delivery\<close>

text \<open>\<open>failures_in_a_row\<close> is a \<open>u32\<close> counted up saturating.\<close>

definition health_delivered :: "delivery_health \<Rightarrow> delivery_health" where
  "health_delivered h = h\<lparr>no_owner_reported := False, failures_in_a_row := 0\<rparr>"

definition health_no_owner :: "('s, 't) chat_platform \<Rightarrow> delivery_health \<Rightarrow> delivery_health \<times> ('t, 'f) chat_output list" where
  "health_no_owner C h =
     (if \<not> no_owner_reported h then (h\<lparr>no_owner_reported := True\<rparr>, report_no_owner C) else (h, []))"

definition health_failed :: "('s, 't) chat_platform \<Rightarrow> ustring \<Rightarrow> delivery_health \<Rightarrow> delivery_health \<times> ('t, 'f) chat_output list" where
  "health_failed C reason h =
     (let h = h\<lparr>failures_in_a_row := min (failures_in_a_row h + 1) (2 ^ 32 - 1)\<rparr>
      in (h, if failures_in_a_row h = 1 then report_failing_replies C reason else []))"

definition find_reply_target ::
    "('s, 't) chat_platform \<Rightarrow> 's \<Rightarrow> delivery_health \<Rightarrow> ustring \<Rightarrow> (delivery_health \<times> ('t, 'f) chat_output list) \<times> 't option" where
  "find_reply_target C w h correlation =
     (case reply_target_of C w correlation of Some t \<Rightarrow> ((h, []), Some t) | None \<Rightarrow> (health_no_owner C h, None))"

text \<open>The outcome of a send is nothing, or the reason it was refused.\<close>

definition send_reply ::
    "('s, 't) chat_platform \<Rightarrow> 's \<Rightarrow> delivery_health \<Rightarrow> ustring \<Rightarrow> ustring \<Rightarrow> 'f option \<Rightarrow> ustring option \<Rightarrow>
      delivery_health \<times> ('t, 'f) chat_output list" where
  "send_reply C w h correlation content attachment refused =
     (case find_reply_target C w h correlation of
        ((h, outs), None) \<Rightarrow> (h, outs)
      | ((h, outs), Some t) \<Rightarrow>
          (case refused of
             None \<Rightarrow> (health_delivered h, outs @ [SendsOut t content attachment])
           | Some reason \<Rightarrow> (case health_failed C reason h of (h, reports) \<Rightarrow> (h, outs @ [SendsOut t content attachment] @ reports))))"

definition deliver_intermediate ::
    "('s, 't) chat_platform \<Rightarrow> 's \<Rightarrow> delivery_health \<Rightarrow> ustring \<Rightarrow> ustring \<Rightarrow> ustring option \<Rightarrow>
      delivery_health \<times> ('t, 'f) chat_output list" where
  "deliver_intermediate C w h correlation content refused =
     (if \<not> delivers_intermediate C then (h, []) else send_reply C w h correlation content None refused)"

record 'f chat_response =
  response_correlation :: ustring
  response_content :: ustring
  response_attachment :: "'f option"
  response_conversation :: "ustring option"

definition deliver_main ::
    "('s, 't) chat_platform \<Rightarrow> 's \<Rightarrow> delivery_health \<Rightarrow> 'f chat_response \<Rightarrow> ustring option \<Rightarrow>
      delivery_health \<times> ('t, 'f) chat_output list" where
  "deliver_main C w h r refused =
     (case response_conversation r of
        None \<Rightarrow> send_reply C w h (response_correlation r) (response_content r) (response_attachment r) refused
      | Some i \<Rightarrow>
          (case conversation_target C w i of
             None \<Rightarrow> (h, report_undelivered_message C i UnknownConversation)
           | Some t \<Rightarrow>
               (let out = SendsOut t (response_content r) (response_attachment r) in
                case refused of
                  None \<Rightarrow> (health_delivered h, [out])
                | Some reason \<Rightarrow> (h, out # report_undelivered_message C (describe_place C w i t) (RefusedSend reason)))))"

record 'f session_response =
  session_address :: ustring
  session_conversation :: ustring
  session_content :: ustring
  session_attachment :: "'f option"
  session_is_final :: bool

definition deliver_session ::
    "('s, 't) chat_platform \<Rightarrow> 's \<Rightarrow> delivery_health \<Rightarrow> 'f session_response \<Rightarrow> ustring option \<Rightarrow>
      delivery_health \<times> ('t, 'f) chat_output list" where
  "deliver_session C w h r refused =
     (if \<not> session_is_final r \<and> \<not> delivers_intermediate C then (h, [])
      else
        (case conversation_target C w (session_conversation r) of
           None \<Rightarrow> (h, [notify_main_of_undeliverable (session_address r) (session_conversation r) (unknown_conversation_reason C)])
         | Some t \<Rightarrow>
             (let out = SendsOut t (session_content r) (session_attachment r) in
              case refused of
                None \<Rightarrow> (health_delivered h, [out])
              | Some reason \<Rightarrow> (h, [out, notify_main_of_undeliverable (session_address r) (session_conversation r) reason]))))"

definition deliver_turn_error ::
    "('s, 't) chat_platform \<Rightarrow> 's \<Rightarrow> delivery_health \<Rightarrow> ustring \<Rightarrow> ustring \<Rightarrow> ustring option \<Rightarrow>
      delivery_health \<times> ('t, 'f) chat_output list" where
  "deliver_turn_error C w h correlation message refused =
     send_reply C w h correlation (lit ''**Error:** '' @ message) None refused"

section \<open>The loop\<close>

datatype 'f out_event =
    TurnStarts ustring
  | TurnEnds ustring
  | TypingChanges ustring bool
  | Responds "'f chat_response" "ustring option"
  | SessionResponds "'f session_response" "ustring option"
  | IntermediateText ustring ustring "ustring option"
  | TurnFails ustring ustring "ustring option"
  | SubscriptionEnds bool

text \<open>A typing indicator runs while its entry is in the map; the loop that ends drops them all.\<close>

record 't outbound =
  typing :: "(ustring, 't) hmap"
  conversation_typing :: "(ustring, 't) hmap"
  health :: delivery_health
  clean_exit :: "bool option"

definition new_outbound :: "'t outbound" where
  "new_outbound = \<lparr>typing = [], conversation_typing = [], health = healthy, clean_exit = None\<rparr>"

fun outbound_event ::
    "('s, 't) chat_platform \<Rightarrow> 's \<Rightarrow> 't outbound \<Rightarrow> 'f out_event \<Rightarrow> 't outbound \<times> ('t, 'f) chat_output list" where
  "outbound_event C w st (TurnStarts c) =
     (case reply_target_of C w c of Some t \<Rightarrow> (st\<lparr>typing := hm_insert c t (typing st)\<rparr>, []) | None \<Rightarrow> (st, []))"
| "outbound_event C w st (TurnEnds c) = (st\<lparr>typing := hm_remove c (typing st)\<rparr>, [ReleasesReply c])"
| "outbound_event C w st (TypingChanges i active) =
     (if active
      then (case conversation_target C w i of
              Some t \<Rightarrow> (st\<lparr>conversation_typing := hm_insert i t (conversation_typing st)\<rparr>, [])
            | None \<Rightarrow> (st, []))
      else (st\<lparr>conversation_typing := hm_remove i (conversation_typing st)\<rparr>, []))"
| "outbound_event C w st (Responds r refused) =
     (case deliver_main C w (health st) r refused of (h, outs) \<Rightarrow> (st\<lparr>health := h\<rparr>, outs))"
| "outbound_event C w st (SessionResponds r refused) =
     (case deliver_session C w (health st) r refused of (h, outs) \<Rightarrow> (st\<lparr>health := h\<rparr>, outs))"
| "outbound_event C w st (IntermediateText c content refused) =
     (case deliver_intermediate C w (health st) c content refused of (h, outs) \<Rightarrow> (st\<lparr>health := h\<rparr>, outs))"
| "outbound_event C w st (TurnFails c message refused) =
     (case deliver_turn_error C w (health st) c message refused of (h, outs) \<Rightarrow> (st\<lparr>health := h\<rparr>, outs))"
| "outbound_event C w st (SubscriptionEnds clean) = (st\<lparr>typing := [], conversation_typing := [], clean_exit := Some clean\<rparr>, [])"

definition outbound_step ::
    "('s, 't) chat_platform \<Rightarrow> 't outbound \<Rightarrow> 's \<times> 'f out_event \<Rightarrow> 't outbound \<times> ('t, 'f) chat_output list" where
  "outbound_step C st we = (if clean_exit st \<noteq> None then (st, []) else outbound_event C (fst we) st (snd we))"

section \<open>Failures are reported once\<close>

text \<open>How an event fares.\<close>

datatype delivery = Delivered | ReplyFailed | NoOwner | OtherDelivery

definition reply_delivery :: "('s, 't) chat_platform \<Rightarrow> 's \<Rightarrow> ustring \<Rightarrow> ustring option \<Rightarrow> delivery" where
  "reply_delivery C w c refused =
     (if reply_target_of C w c = None then NoOwner else if refused = None then Delivered else ReplyFailed)"

definition conversation_delivery :: "('s, 't) chat_platform \<Rightarrow> 's \<Rightarrow> ustring \<Rightarrow> ustring option \<Rightarrow> delivery" where
  "conversation_delivery C w i refused = (if conversation_target C w i \<noteq> None \<and> refused = None then Delivered else OtherDelivery)"

fun delivery_of :: "('s, 't) chat_platform \<Rightarrow> 's \<times> 'f out_event \<Rightarrow> delivery" where
  "delivery_of C (w, Responds r refused) =
     (case response_conversation r of
        None \<Rightarrow> reply_delivery C w (response_correlation r) refused
      | Some i \<Rightarrow> conversation_delivery C w i refused)"
| "delivery_of C (w, SessionResponds r refused) =
     (if session_is_final r \<or> delivers_intermediate C then conversation_delivery C w (session_conversation r) refused else OtherDelivery)"
| "delivery_of C (w, IntermediateText c content refused) =
     (if delivers_intermediate C then reply_delivery C w c refused else OtherDelivery)"
| "delivery_of C (w, TurnFails c message refused) = reply_delivery C w c refused"
| "delivery_of C (w, e) = OtherDelivery"

definition keeps_running :: "'s \<times> 'f out_event \<Rightarrow> bool" where
  "keeps_running we = (case snd we of SubscriptionEnds clean \<Rightarrow> False | _ \<Rightarrow> True)"

text \<open>What happened since a send last got through.\<close>

definition since_delivered :: "delivery list \<Rightarrow> delivery list" where
  "since_delivered ds = takeWhile (\<lambda>d. d \<noteq> Delivered) (rev ds)"

definition tells_replies_fail :: "('s, 't) chat_platform \<Rightarrow> ('t, 'f) chat_output list \<Rightarrow> bool" where
  "tells_replies_fail C outs \<longleftrightarrow> (\<exists>reason. set (report_failing_replies C reason) \<subseteq> set outs)"

definition tells_no_owner :: "('s, 't) chat_platform \<Rightarrow> ('t, 'f) chat_output list \<Rightarrow> bool" where
  "tells_no_owner C outs \<longleftrightarrow> set (report_no_owner C) \<subseteq> set outs"

text \<open>The health after a history.\<close>

definition health_after :: "delivery list \<Rightarrow> delivery_health" where
  "health_after ds =
     \<lparr>failures_in_a_row = min (length (filter (\<lambda>d. d = ReplyFailed) (since_delivered ds))) (2 ^ 32 - 1),
      no_owner_reported = list_ex (\<lambda>d. d = NoOwner) (since_delivered ds)\<rparr>"

lemma since_delivered_snoc: "since_delivered (ds @ [d]) = (if d = Delivered then [] else d # since_delivered ds)"
  by (simp add: since_delivered_def)

lemma health_after_snoc:
  "health_after (ds @ [d]) =
     (case d of
        Delivered \<Rightarrow> health_delivered (health_after ds)
      | ReplyFailed \<Rightarrow> (health_after ds)\<lparr>failures_in_a_row := min (failures_in_a_row (health_after ds) + 1) (2 ^ 32 - 1)\<rparr>
      | NoOwner \<Rightarrow> (health_after ds)\<lparr>no_owner_reported := True\<rparr>
      | OtherDelivery \<Rightarrow> health_after ds)"
  by (cases d) (simp_all add: health_after_def since_delivered_snoc health_delivered_def)

lemma outbound_health:
  assumes "clean_exit st = None" "health st = health_after ds" "keeps_running we"
  shows "health (fst (outbound_step C st we)) = health_after (ds @ [delivery_of C we]) \<and> clean_exit (fst (outbound_step C st we)) = None"
proof -
  obtain w e where we: "we = (w, e)" by (cases we)
  show ?thesis
    using assms
    by (cases e)
      (auto simp: we outbound_step_def keeps_running_def health_after_snoc deliver_main_def deliver_session_def deliver_intermediate_def
        deliver_turn_error_def send_reply_def find_reply_target_def reply_delivery_def conversation_delivery_def health_no_owner_def
        health_failed_def Let_def split: option.split)
qed

lemma other_reports:
  "\<not> set (report_failing_replies C reason) \<subseteq> set (report_undelivered_message C place cause)"
  "\<not> set (report_failing_replies C reason) \<subseteq> set (SendsOut t x a # report_undelivered_message C place cause)"
  "\<not> set (report_failing_replies C reason) \<subseteq> set (report_no_owner C)"
  "\<not> set (report_no_owner C) \<subseteq> set (report_failing_replies C reason)"
  "\<not> set (report_no_owner C) \<subseteq> set (SendsOut t x a # report_failing_replies C reason)"
  "\<not> set (report_no_owner C) \<subseteq> set (report_undelivered_message C place cause)"
  "\<not> set (report_no_owner C) \<subseteq> set (SendsOut t x a # report_undelivered_message C place cause)"
  by (simp_all add: report_failing_replies_def report_undelivered_message_def report_no_owner_def tell_main_def Let_def lit_def
      split: undelivered_cause.split)

lemma few_reports:
  "\<not> tells_replies_fail C []" "\<not> tells_replies_fail C [SendsOut t x a]" "\<not> tells_replies_fail C [ReleasesReply c]"
  "\<not> tells_no_owner C []" "\<not> tells_no_owner C [SendsOut t x a]" "\<not> tells_no_owner C [ReleasesReply c]"
  "\<not> tells_replies_fail C [notify_main_of_undeliverable p q r]" "\<not> tells_no_owner C [notify_main_of_undeliverable p q r]"
  "\<not> tells_replies_fail C [SendsOut t x a, notify_main_of_undeliverable p q r]"
  "\<not> tells_no_owner C [SendsOut t x a, notify_main_of_undeliverable p q r]"
  "tells_no_owner C (report_no_owner C)" "tells_replies_fail C (report_failing_replies C reason)"
  "tells_replies_fail C (SendsOut t x a # report_failing_replies C reason)"
  by (auto simp: tells_replies_fail_def tells_no_owner_def report_failing_replies_def report_no_owner_def tell_main_def
      notify_main_of_undeliverable_def)

lemmas report_facts = other_reports [folded tells_no_owner_def] few_reports

lemma not_failing:
  "\<not> tells_replies_fail C (report_undelivered_message C place cause)"
  "\<not> tells_replies_fail C (SendsOut t x a # report_undelivered_message C place cause)"
  "\<not> tells_replies_fail C (report_no_owner C)"
  by (simp_all only: tells_replies_fail_def other_reports simp_thms not_False_eq_True)

lemma count_one: "min (min n (2 ^ 32 - 1) + 1) (2 ^ 32 - 1) = 1 \<longleftrightarrow> n = 0" for n :: nat
  by (auto simp: min_def)

lemma outbound_reports:
  assumes "clean_exit st = None" "health st = health_after ds"
  shows "tells_replies_fail C (snd (outbound_step C st we)) \<longleftrightarrow> delivery_of C we = ReplyFailed \<and> ReplyFailed \<notin> set (since_delivered ds)"
    and "tells_no_owner C (snd (outbound_step C st we)) \<longleftrightarrow> delivery_of C we = NoOwner \<and> NoOwner \<notin> set (since_delivered ds)"
proof -
  have first: "min (failures_in_a_row (health_after ds) + 1) (2 ^ 32 - 1) = 1 \<longleftrightarrow> ReplyFailed \<notin> set (since_delivered ds)"
    using count_one [of "length (filter (\<lambda>d. d = ReplyFailed) (since_delivered ds))"] by (auto simp: health_after_def filter_empty_conv)
  have owner: "no_owner_reported (health_after ds) \<longleftrightarrow> NoOwner \<in> set (since_delivered ds)"
    by (auto simp: health_after_def list_ex_iff)
  obtain w e where we: "we = (w, e)" by (cases we)
  note defs = we outbound_step_def deliver_main_def deliver_session_def deliver_intermediate_def deliver_turn_error_def send_reply_def
    find_reply_target_def reply_delivery_def conversation_delivery_def health_no_owner_def health_failed_def Let_def
  show "tells_replies_fail C (snd (outbound_step C st we)) \<longleftrightarrow> delivery_of C we = ReplyFailed \<and> ReplyFailed \<notin> set (since_delivered ds)"
    using assms first by (cases e) (auto simp: defs few_reports not_failing split: option.split)
  show "tells_no_owner C (snd (outbound_step C st we)) \<longleftrightarrow> delivery_of C we = NoOwner \<and> NoOwner \<notin> set (since_delivered ds)"
    using assms owner by (cases e) (auto simp: defs report_facts split: option.split)
qed

lemma outbound_run_health:
  "list_all keeps_running es \<Longrightarrow>
   health (fst (run_machine (outbound_step C) new_outbound es)) = health_after (map (delivery_of C) es) \<and>
   clean_exit (fst (run_machine (outbound_step C) new_outbound es)) = None"
proof (induction es rule: rev_induct)
  case Nil
  then show ?case by (simp add: new_outbound_def health_after_def since_delivered_def healthy_def)
next
  case (snoc we es)
  then show ?case
    using outbound_health [of "fst (run_machine (outbound_step C) new_outbound es)" "map (delivery_of C) es" we C]
    by (simp add: run_machine_append case_prod_unfold Let_def)
qed

text \<open>C17: the owner and main are told that replies do not get through exactly when a reply fails and none has failed since a send last got
  through, and that nobody has messaged the bot exactly when output has no owner to go to and none went nowhere since: once per run of
  failures, whatever else is sent, refused or addressed to conversations in between.\<close>

theorem failures_are_reported_once:
  fixes C :: "('s, 't) chat_platform"
  assumes "list_all keeps_running es"
  defines "st \<equiv> fst (run_machine (outbound_step C) new_outbound es)" and "past \<equiv> since_delivered (map (delivery_of C) es)"
  shows "(tells_replies_fail C (snd (outbound_step C st we)) \<longleftrightarrow> delivery_of C we = ReplyFailed \<and> ReplyFailed \<notin> set past) \<and>
    (tells_no_owner C (snd (outbound_step C st we)) \<longleftrightarrow> delivery_of C we = NoOwner \<and> NoOwner \<notin> set past)"
  using outbound_reports [of st "map (delivery_of C) es" C we] outbound_run_health [OF assms(1), of C] by (simp add: st_def past_def)

section \<open>Outputs go where they belong\<close>

definition belongs_at :: "('s, 't) chat_platform \<Rightarrow> 's \<Rightarrow> 'f out_event \<Rightarrow> 't \<Rightarrow> bool" where
  "belongs_at C w e t =
     (case e of
        Responds r refused \<Rightarrow>
          (case response_conversation r of
             None \<Rightarrow> reply_target_of C w (response_correlation r) = Some t
           | Some i \<Rightarrow> conversation_target C w i = Some t)
      | SessionResponds r refused \<Rightarrow> conversation_target C w (session_conversation r) = Some t
      | IntermediateText c content refused \<Rightarrow> delivers_intermediate C \<and> reply_target_of C w c = Some t
      | TurnFails c message refused \<Rightarrow> reply_target_of C w c = Some t
      | _ \<Rightarrow> False)"

lemma reports_send_nothing [simp]:
  "SendsOut t x a \<notin> set (report_failing_replies C reason)" "SendsOut t x a \<notin> set (report_no_owner C)"
  "SendsOut t x a \<notin> set (report_undelivered_message C place cause)" "SendsOut t x a \<noteq> notify_main_of_undeliverable p q r"
  by (auto simp: report_failing_replies_def report_no_owner_def report_undelivered_message_def tell_main_def
      notify_main_of_undeliverable_def Let_def split: undelivered_cause.splits)

lemma sends_belong:
  "SendsOut t x a \<in> set (snd (outbound_step C st (w, e))) \<Longrightarrow> belongs_at C w e t"
  by (cases e) (auto simp: outbound_step_def belongs_at_def deliver_main_def deliver_session_def deliver_intermediate_def
      deliver_turn_error_def send_reply_def find_reply_target_def health_no_owner_def health_failed_def Let_def split: option.splits if_splits)

section \<open>Typing stops with the turn\<close>

lemma typing_step:
  "hm_get (typing (fst (outbound_step C st (w, e)))) c \<noteq> None \<Longrightarrow> e \<noteq> TurnStarts c \<Longrightarrow>
   hm_get (typing st) c \<noteq> None \<and> (clean_exit st = None \<longrightarrow> e \<noteq> TurnEnds c)"
  by (cases e) (auto simp: outbound_step_def split: if_splits option.splits prod.splits)

lemma typing_not_started:
  "hm_get (typing st) c = None \<Longrightarrow> list_all (\<lambda>we. snd we \<noteq> TurnStarts c) es \<Longrightarrow>
   hm_get (typing (fst (run_machine (outbound_step C) st es))) c = None"
proof (induction es arbitrary: st)
  case (Cons we es)
  have "hm_get (typing (fst (outbound_step C st we))) c = None"
  proof (rule ccontr)
    assume "hm_get (typing (fst (outbound_step C st we))) c \<noteq> None"
    then show False using typing_step [of C st "fst we" "snd we" c] Cons.prems by simp
  qed
  then show ?case using Cons by simp
qed simp

text \<open>once a turn has ended no typing indicator runs for it, and none runs once the loop has ended.\<close>

theorem typing_stops_with_the_turn:
  assumes "list_all (\<lambda>we. snd we \<noteq> TurnStarts c) es'"
  shows "hm_get (typing (fst (run_machine (outbound_step C) new_outbound (es @ (w, TurnEnds c) # es')))) c = None"
proof -
  let ?st = "fst (run_machine (outbound_step C) new_outbound es)"
  have ended: "clean_exit st \<noteq> None \<longrightarrow> typing st = [] \<Longrightarrow> clean_exit (fst (outbound_step C st we)) \<noteq> None \<longrightarrow> typing (fst (outbound_step C st we)) = []"
    for st we
    by (cases "snd we") (auto simp: outbound_step_def split: option.split prod.split)
  have "clean_exit (fst (run_machine (outbound_step C) new_outbound es)) \<noteq> None \<longrightarrow> typing (fst (run_machine (outbound_step C) new_outbound es)) = []"
  proof (induction es rule: rev_induct)
    case (snoc we es)
    then show ?case using ended by (simp add: run_machine_append case_prod_unfold Let_def)
  qed (simp add: new_outbound_def)
  then have "hm_get (typing (fst (outbound_step C ?st (w, TurnEnds c)))) c = None" by (auto simp: outbound_step_def)
  from typing_not_started [OF this assms] show ?thesis by (simp add: run_machine_append case_prod_unfold Let_def)
qed

section \<open>Examples\<close>

definition sample_platform :: "(unit, nat) chat_platform" where
  "sample_platform = \<lparr>display_name = [67], delivers_intermediate = False, explain_failure = (\<lambda>_. None), unknown_conversation_reason = [],
     reply_target_of = (\<lambda>_ _. Some 1), conversation_target = (\<lambda>_ _. None), describe_place = (\<lambda>_ _ _. [])\<rparr>"

definition sample_error :: "ustring option \<Rightarrow> unit \<times> unit out_event" where
  "sample_error refused = ((), TurnFails [1] [2] refused)"

lemma failures_are_reported_once_witness:
  "tells_replies_fail sample_platform (snd (outbound_step sample_platform
      (fst (run_machine (outbound_step sample_platform) new_outbound [sample_error None])) (sample_error (Some [3])))) \<and>
   \<not> tells_replies_fail sample_platform (snd (outbound_step sample_platform
      (fst (run_machine (outbound_step sample_platform) new_outbound [sample_error (Some [3])])) (sample_error (Some [3]))))"
proof -
  have on: "list_all keeps_running [sample_error r]" for r by (simp add: keeps_running_def sample_error_def)
  have d: "delivery_of sample_platform (sample_error None) = Delivered" "delivery_of sample_platform (sample_error (Some [3])) = ReplyFailed"
    by (simp_all add: sample_error_def reply_delivery_def sample_platform_def)
  show ?thesis
    using failures_are_reported_once [OF on [of None], of sample_platform "sample_error (Some [3])"]
      failures_are_reported_once [OF on [of "Some [3]"], of sample_platform "sample_error (Some [3])"]
    by (simp add: d since_delivered_def)
qed

lemma typing_stops_with_the_turn_witness:
  "hm_get (typing (fst (run_machine (outbound_step sample_platform) new_outbound
      ([((), TurnStarts [1] :: unit out_event)] @ ((), TurnEnds [1]) # [((), TurnStarts [2])])))) [1] = None"
  by (rule typing_stops_with_the_turn) simp

end
