(* ===== verification/Telegram_Chat.thy ===== *)
theory Telegram_Chat
  imports Session_Registry Text_Edits Chat_Outbound
begin

text \<open>
  The Telegram interface (\<open>crates/interfaces/src/telegram\<close>): which messages of a group are for the bot (\<open>groups.rs\<close>), what becomes of
  an update (\<open>handler.rs\<close>), where output goes (\<open>mod.rs\<close>, \<open>subscriber.rs\<close>), over the state of \<open>Chat_State\<close> and the loop of
  \<open>Chat_Outbound\<close>. What the platform sends and answers, the clock and the outcome of saves come with the events; what
  \<open>process_attachments\<close> adds to a message is part of it.
\<close>

section \<open>Is it for the bot?\<close>

definition group_label :: "ustring option \<Rightarrow> ustring" where
  "group_label title =
     (case title of Some t \<Rightarrow> if t \<noteq> [] then lit ''group '' @ [34] @ t @ [34] else lit ''group'' | None \<Rightarrow> lit ''group'')"

definition name_char :: "nat \<Rightarrow> bool" where
  "name_char c \<longleftrightarrow> is_ascii_digit c \<or> is_ascii_upper c \<or> is_ascii_lower c \<or> c = 95"

definition mention_ranges :: "ustring \<Rightarrow> ustring \<Rightarrow> (nat \<times> nat) list" where
  "mention_ranges s username =
     (let needle = 64 # to_ascii_lowercase username; haystack = to_ascii_lowercase s
      in filter (\<lambda>r. \<not> (case drop (snd r) haystack of c # _ \<Rightarrow> name_char c | [] \<Rightarrow> False)) (match_indices needle haystack))"

fun outside_ranges :: "nat \<Rightarrow> (nat \<times> nat) list \<Rightarrow> ustring \<Rightarrow> ustring" where
  "outside_ranges from [] s = drop from s"
| "outside_ranges from ((a, b) # rs) s = take (a - from) (drop from s) @ outside_ranges b rs s"

definition without_ranges :: "ustring \<Rightarrow> (nat \<times> nat) list \<Rightarrow> ustring" where
  "without_ranges s rs = trim (outside_ranges 0 rs s)"

definition first_word :: "ustring \<Rightarrow> ustring" where
  "first_word s = takeWhile (\<lambda>c. \<not> is_whitespace c) (dropWhile is_whitespace s)"

definition addressed_text :: "ustring \<Rightarrow> ustring \<Rightarrow> bool \<Rightarrow> ustring option" where
  "addressed_text s username replies_to_bot =
     (let mentions = mention_ranges s username in
      case strip_prefix [47] s of
        Some command \<Rightarrow>
          (case split_once 64 (first_word command) of
             Some (_, target) \<Rightarrow> if \<not> eq_ignore_ascii_case target username then None else Some (without_ranges s mentions)
           | None \<Rightarrow> Some (without_ranges s mentions))
      | None \<Rightarrow> if mentions = [] \<and> \<not> replies_to_bot then None else Some (without_ranges s mentions))"

section \<open>State and updates\<close>

record file_attachment =
  file_path :: ustring
  file_label :: ustring
  mime_type :: ustring
  file_size :: nat

record tg_config =
  respond_to_others :: bool
  deliver_intermediate_text :: bool
  bot_username :: ustring
  bot_id :: nat

record telegram =
  tg_store :: "chat_ref chat_store"
  tg_targets :: "int reply_targets"
  tg_context :: "int buffered_message context_buffer"
  tg_outbound :: "int outbound"

definition show_i64 :: "int \<Rightarrow> ustring" where
  "show_i64 i = (if i < 0 then 45 # show_nat (nat (- i)) else show_nat (nat i))"

definition owner_dm :: "telegram \<Rightarrow> int option" where
  "owner_dm st = (case stored_owner (in_memory (tg_store st)) of Some ow \<Rightarrow> parse_i64 (dm_conversation_id ow) | None \<Rightarrow> None)"

definition target_for :: "telegram \<Rightarrow> ustring \<Rightarrow> int option" where
  "target_for st c = (case get_target (tg_targets st) c of Some t \<Rightarrow> Some t | None \<Rightarrow> owner_dm st)"

definition telegram_platform :: "tg_config \<Rightarrow> (telegram, int) chat_platform" where
  "telegram_platform cfg =
     \<lparr>display_name = lit ''Telegram'', delivers_intermediate = deliver_intermediate_text cfg, explain_failure = (\<lambda>_. None),
      unknown_conversation_reason = lit ''that is not a Telegram chat ID'', reply_target_of = target_for,
      conversation_target = (\<lambda>_. parse_i64),
      describe_place = (\<lambda>st i _. case hm_get (conversations (in_memory (tg_store st))) i of
         Some c \<Rightarrow> ref_label c | None \<Rightarrow> lit ''chat '' @ i)\<rparr>"

datatype tg_chat_type = PrivateChat | BasicGroup | Supergroup | BroadcastChannel

record tg_chat =
  tg_chat_id :: int
  tg_chat_type :: tg_chat_type
  tg_chat_title :: "ustring option"

record tg_user =
  tg_user_id :: nat
  first_name :: ustring
  last_name :: "ustring option"
  is_bot :: bool

record tg_message =
  tg_message_id :: int
  tg_message_chat :: tg_chat
  migrate_to_chat :: "int option"
  tg_from :: "tg_user option"
  tg_text :: "ustring option"
  tg_caption :: "ustring option"
  replied_to_user :: "nat option"
  attachment_lines :: ustring
  attached_images :: "image_data list"
  attached_files :: "message_attachment list"

datatype tg_update = MyChatMember tg_chat bool | TgMessage tg_message | OtherUpdate

record tg_env =
  tg_now :: int
  remember_saves :: bool
  claim_saves :: bool
  publishes :: bool

datatype tg_output =
    Publishes message_event
  | BotSays int ustring
  | RunsCommand ustring "ustring option" conversation_context
  | Outbound "(int, file_attachment) chat_output"

section \<open>Handling an update\<close>

definition build_sender_name :: "tg_user \<Rightarrow> ustring" where
  "build_sender_name u = (case last_name u of Some l \<Rightarrow> first_name u @ lit '' '' @ l | None \<Rightarrow> first_name u)"

definition is_group_chat :: "tg_chat \<Rightarrow> bool" where
  "is_group_chat c \<longleftrightarrow> tg_chat_type c = BasicGroup \<or> tg_chat_type c = Supergroup"

definition track_group_membership :: "tg_env \<Rightarrow> tg_chat \<Rightarrow> bool \<Rightarrow> telegram \<Rightarrow> telegram" where
  "track_group_membership E c present st =
     (if \<not> is_group_chat c then st
      else if present
      then st\<lparr>tg_store := fst (remember_chat (show_i64 (tg_chat_id c)) \<lparr>ref_kind = GroupChat, ref_label = group_label (tg_chat_title c)\<rparr>
             (remember_saves E) (tg_store st))\<rparr>
      else st\<lparr>tg_store := fst (forget_chat (show_i64 (tg_chat_id c)) (remember_saves E) (tg_store st))\<rparr>)"

definition forget_migrated_group :: "tg_env \<Rightarrow> int \<Rightarrow> telegram \<Rightarrow> telegram" where
  "forget_migrated_group E old st = st\<lparr>tg_store := fst (forget_chat (show_i64 old) (remember_saves E) (tg_store st))\<rparr>"

definition claim_owner_if_unset :: "tg_env \<Rightarrow> tg_user \<Rightarrow> ustring \<Rightarrow> telegram \<Rightarrow> telegram" where
  "claim_owner_if_unset E u dm st =
     st\<lparr>tg_store := fst (claim_owner \<lparr>owner_user_id = show_nat (tg_user_id u), owner_name = build_sender_name u, dm_conversation_id = dm\<rparr>
          (claim_saves E) (tg_store st))\<rparr>"

definition buffer_unmentioned :: "tg_env \<Rightarrow> ustring \<Rightarrow> tg_user \<Rightarrow> ustring \<Rightarrow> telegram \<Rightarrow> telegram" where
  "buffer_unmentioned E chat u s st =
     (if trim s = [] then st
      else st\<lparr>tg_context := record_message chat \<lparr>said_by = build_sender_name u, said = s, said_at = tg_now E\<rparr> (tg_context st)\<rparr>)"

record addressed =
  location :: ustring
  addressed_words :: ustring
  addressed_conversation :: ustring
  addressed_kind :: conversation_kind
  addressed_context :: "ustring option"

definition message_words :: "tg_message \<Rightarrow> ustring" where
  "message_words m = (case tg_text m of Some t \<Rightarrow> t | None \<Rightarrow> (case tg_caption m of Some t \<Rightarrow> t | None \<Rightarrow> []))"

text \<open>\<open>fmt\<close> shows the hour and minute of a moment.\<close>

definition addressed_to_agent ::
    "(int \<Rightarrow> ustring) \<Rightarrow> tg_config \<Rightarrow> tg_env \<Rightarrow> tg_message \<Rightarrow> tg_user \<Rightarrow> telegram \<Rightarrow> telegram \<times> addressed option" where
  "addressed_to_agent fmt cfg E m u st =
     (let chat = tg_message_chat m; s = message_words m; key = show_i64 (tg_chat_id chat) in
      if tg_chat_type chat = PrivateChat then
        (let st = st\<lparr>tg_store := fst (remember_chat key (direct_message (build_sender_name u)) (remember_saves E) (tg_store st))\<rparr>;
             st = claim_owner_if_unset E u key st
         in (st, Some \<lparr>location = lit ''direct message'', addressed_words = s, addressed_conversation = key, addressed_kind = Personal,
                  addressed_context = None\<rparr>))
      else if is_group_chat chat then
        (case addressed_text s (bot_username cfg) (replied_to_user m = Some (bot_id cfg)) of
           None \<Rightarrow> (buffer_unmentioned E key u s st, None)
         | Some s \<Rightarrow>
             (let label = group_label (tg_chat_title chat);
                  st = st\<lparr>tg_store := fst (remember_chat key \<lparr>ref_kind = GroupChat, ref_label = label\<rparr> (remember_saves E) (tg_store st))\<rparr>;
                  (buffer, drained) = drain_messages key (tg_context st)
              in (st\<lparr>tg_context := buffer\<rparr>, Some \<lparr>location = label, addressed_words = s, addressed_conversation = key,
                    addressed_kind = GroupChat, addressed_context = render_context fmt label drained\<rparr>)))
      else (st, None))"

definition correlation_of :: "tg_message \<Rightarrow> ustring" where
  "correlation_of m = lit ''telegram-'' @ show_i64 (tg_chat_id (tg_message_chat m)) @ lit ''-'' @ show_i64 (tg_message_id m)"

definition publish_message ::
    "tg_env \<Rightarrow> tg_message \<Rightarrow> tg_user \<Rightarrow> addressed \<Rightarrow> standing \<Rightarrow> telegram \<Rightarrow> telegram \<times> tg_output list" where
  "publish_message E m u a who st =
     (let content = addressed_words a @ attachment_lines m; chat = tg_chat_id (tg_message_chat m) in
      if content = [] then (st, [])
      else
        (st\<lparr>tg_targets := track (tg_now E) (correlation_of m) chat (tg_targets st)\<rparr>,
         if publishes E
         then [Publishes \<lparr>event_id = correlation_of m, event_content = content,
                 event_origin = \<lparr>origin_endpoint = lit ''telegram'',
                   origin_sender = Some \<lparr>sender_name = build_sender_name u, sender_id = show_nat (tg_user_id u),
                     sender_interface = lit ''telegram'', sender_location = Some (location a)\<rparr>,
                   origin_conversation = Some \<lparr>conv_id = addressed_conversation a, conv_kind = addressed_kind a,
                     conv_is_owner = (who = OwnerStanding)\<rparr>,
                   origin_agent_sender = None\<rparr>,
                 event_timestamp = tg_now E, event_images = attached_images m, event_attachments = attached_files m,
                 event_context = addressed_context a\<rparr>]
         else [BotSays chat (lit ''Something went wrong handing your message to the agent. Please try again.'')]))"

definition dispatch_message ::
    "(int \<Rightarrow> ustring) \<Rightarrow> tg_config \<Rightarrow> tg_env \<Rightarrow> tg_message \<Rightarrow> tg_user \<Rightarrow> telegram \<Rightarrow> telegram \<times> tg_output list" where
  "dispatch_message fmt cfg E m u st =
     (case addressed_to_agent fmt cfg E m u st of
        (st, None) \<Rightarrow> (st, [])
      | (st, Some a) \<Rightarrow>
          (let chat = tg_chat_id (tg_message_chat m) in
           case admit_sender (tg_store st) (Some (show_nat (tg_user_id u))) (respond_to_others cfg) of
             Inl reason \<Rightarrow> (st, [BotSays chat reason])
           | Inr who \<Rightarrow>
               (case strip_prefix [47] (addressed_words a) of
                  Some command \<Rightarrow>
                    (let (name, args) = (case split_once 32 command of Some (n, x) \<Rightarrow> (n, Some x) | None \<Rightarrow> (command, None));
                         name = (case split_once 64 name of Some (n, _) \<Rightarrow> n | None \<Rightarrow> name)
                     in if who = OwnerStanding
                        then (st, [RunsCommand name args \<lparr>conv_id = addressed_conversation a, conv_kind = addressed_kind a,
                                     conv_is_owner = True\<rparr>])
                        else (st, [BotSays chat (lit ''Only my owner can run commands.'')]))
                | None \<Rightarrow> publish_message E m u a who st)))"

definition handle_update :: "(int \<Rightarrow> ustring) \<Rightarrow> tg_config \<Rightarrow> tg_env \<Rightarrow> tg_update \<Rightarrow> telegram \<Rightarrow> telegram \<times> tg_output list" where
  "handle_update fmt cfg E x st =
     (case x of
        MyChatMember c present \<Rightarrow> (track_group_membership E c present st, [])
      | TgMessage m \<Rightarrow>
          (if migrate_to_chat m \<noteq> None then (forget_migrated_group E (tg_chat_id (tg_message_chat m)) st, [])
           else
             (case tg_from m of
                None \<Rightarrow> (st, [])
              | Some u \<Rightarrow> if is_bot u then (st, []) else dispatch_message fmt cfg E m u st))
      | OtherUpdate \<Rightarrow> (st, []))"

section \<open>The interface as a machine\<close>

datatype tg_event = Update tg_env tg_update | FromBus "file_attachment out_event"

definition released :: "(int, file_attachment) chat_output list \<Rightarrow> int reply_targets \<Rightarrow> int reply_targets" where
  "released outs ts = fold (\<lambda>x ts. case x of ReleasesReply c \<Rightarrow> release c ts | _ \<Rightarrow> ts) outs ts"

fun telegram_step :: "(int \<Rightarrow> ustring) \<Rightarrow> tg_config \<Rightarrow> telegram \<Rightarrow> tg_event \<Rightarrow> telegram \<times> tg_output list" where
  "telegram_step fmt cfg st (Update E x) = handle_update fmt cfg E x st"
| "telegram_step fmt cfg st (FromBus e) =
     (case outbound_step (telegram_platform cfg) (tg_outbound st) (st, e) of
        (ob, outs) \<Rightarrow> (st\<lparr>tg_outbound := ob, tg_targets := released outs (tg_targets st)\<rparr>, map Outbound outs))"

definition telegram_start :: "nat \<Rightarrow> chat_ref chat_store \<Rightarrow> telegram" where
  "telegram_start cap store = \<lparr>tg_store = store, tg_targets = [], tg_context = new_context_buffer cap, tg_outbound = new_outbound\<rparr>"

definition telegram_run :: "(int \<Rightarrow> ustring) \<Rightarrow> tg_config \<Rightarrow> nat \<Rightarrow> chat_ref chat_store \<Rightarrow> tg_event list \<Rightarrow> telegram" where
  "telegram_run fmt cfg cap store es = fst (run_machine (telegram_step fmt cfg) (telegram_start cap store) es)"

section \<open>Who is heard\<close>

definition the_owner :: "telegram \<Rightarrow> owner option" where
  "the_owner st = stored_owner (in_memory (tg_store st))"

lemma chat_store_owner [simp]:
  "stored_owner (in_memory (fst (remember_chat i c ok st))) = stored_owner (in_memory st)"
  "stored_owner (in_memory (fst (forget_chat i ok st))) = stored_owner (in_memory st)"
  by (simp_all add: remember_chat_def forget_chat_def)

lemma claim_keeps_owner: "stored_owner (in_memory st) = Some ow \<Longrightarrow> stored_owner (in_memory (fst (claim_owner ow' ok st))) = Some ow"
  by (simp add: claim_owner_def)

lemma addressed_owner: "the_owner st = Some ow \<Longrightarrow> the_owner (fst (addressed_to_agent fmt cfg E m u st)) = Some ow"
  by (simp add: the_owner_def addressed_to_agent_def claim_owner_if_unset_def buffer_unmentioned_def claim_keeps_owner Let_def
      split: option.split prod.split)

lemma addressed_targets: "tg_targets (fst (addressed_to_agent fmt cfg E m u st)) = tg_targets st"
  by (simp add: addressed_to_agent_def claim_owner_if_unset_def buffer_unmentioned_def Let_def split: option.split prod.split)

lemma publish_store: "tg_store (fst (publish_message E m u a who st)) = tg_store st"
  by (simp add: publish_message_def Let_def)

lemma publish_targets:
  "tg_targets (fst (publish_message E m u a who st)) = tg_targets st \<or>
   tg_targets (fst (publish_message E m u a who st)) = track (tg_now E) (correlation_of m) (tg_chat_id (tg_message_chat m)) (tg_targets st)"
  by (simp add: publish_message_def Let_def)

text \<open>What dispatching leaves is what addressing leaves, or what publishing makes of it.\<close>

lemma dispatch_state:
  "fst (dispatch_message fmt cfg E m u st) = fst (addressed_to_agent fmt cfg E m u st) \<or>
   (\<exists>a who. fst (dispatch_message fmt cfg E m u st) = fst (publish_message E m u a who (fst (addressed_to_agent fmt cfg E m u st))))"
proof -
  obtain st' a where a: "addressed_to_agent fmt cfg E m u st = (st', a)" by fastforce
  show ?thesis
  proof (cases a)
    case (Some a)
    then show ?thesis unfolding dispatch_message_def a
      by (cases "admit_sender (tg_store st') (Some (show_nat (tg_user_id u))) (respond_to_others cfg)"; cases "strip_prefix [47] (addressed_words a)")
        (auto simp: Let_def split: prod.split)
  qed (simp add: dispatch_message_def a)
qed

lemma owner_stays_update:
  assumes "the_owner st = Some ow" shows "the_owner (fst (handle_update fmt cfg E x st)) = Some ow"
proof -
  have d: "the_owner (fst (dispatch_message fmt cfg E m u st)) = Some ow" for m u
    using dispatch_state [of fmt cfg E m u st] addressed_owner [OF assms] by (auto simp: the_owner_def publish_store)
  show ?thesis
    using assms d by (simp add: handle_update_def the_owner_def track_group_membership_def forget_migrated_group_def
        split: tg_update.split option.split)
qed

lemma owner_stays_telegram: "the_owner st = Some ow \<Longrightarrow> the_owner (fst (telegram_step fmt cfg st e)) = Some ow"
  by (cases e) (simp_all add: owner_stays_update, simp add: the_owner_def split: prod.split)

lemma owner_stays_run: "the_owner st = Some ow \<Longrightarrow> the_owner (fst (run_machine (telegram_step fmt cfg) st es)) = Some ow"
  by (induction es arbitrary: st) (simp_all add: owner_stays_telegram)

definition heard :: "tg_config \<Rightarrow> tg_output \<Rightarrow> bool" where
  "heard cfg x = (case x of Publishes m \<Rightarrow> \<not> respond_to_others cfg | RunsCommand n a c \<Rightarrow> True | _ \<Rightarrow> False)"

lemma standing_owner: "standing_of st (Some i) = OwnerStanding \<longleftrightarrow> (\<exists>ow. stored_owner (in_memory st) = Some ow \<and> owner_user_id ow = i)"
  by (auto simp: standing_of_def split: option.split)

lemma refusal_None: "refusal s = None \<longleftrightarrow> s = OwnerStanding"
  by (auto simp: refusal_def split: standing.split option.split)

lemma admit_owner: "admit_sender st who False = Inr s \<Longrightarrow> s = OwnerStanding \<and> standing_of st who = OwnerStanding"
  by (auto simp: admit_sender_def Let_def refusal_None split: option.splits)

lemma admit_standing: "admit_sender st who r = Inr s \<Longrightarrow> s = standing_of st who"
  by (auto simp: admit_sender_def Let_def split: option.splits if_splits)

lemma dispatch_heard:
  assumes "x \<in> set (snd (dispatch_message fmt cfg E m u st))" "heard cfg x"
  shows "\<exists>ow. the_owner (fst (dispatch_message fmt cfg E m u st)) = Some ow \<and> owner_user_id ow = show_nat (tg_user_id u)"
proof -
  obtain st' a' where a: "addressed_to_agent fmt cfg E m u st = (st', a')" by fastforce
  then obtain a where a': "a' = Some a" using assms by (cases a') (auto simp: dispatch_message_def)
  obtain who where who: "admit_sender (tg_store st') (Some (show_nat (tg_user_id u))) (respond_to_others cfg) = Inr who"
    using assms a a' by (cases "admit_sender (tg_store st') (Some (show_nat (tg_user_id u))) (respond_to_others cfg)")
      (auto simp: dispatch_message_def heard_def)
  have "standing_of (tg_store st') (Some (show_nat (tg_user_id u))) = OwnerStanding"
  proof (cases "respond_to_others cfg")
    case True
    then have "\<not> heard cfg x" if "x \<in> set (snd (publish_message E m u a who st'))"
      using that by (auto simp: publish_message_def heard_def Let_def split: if_splits)
    then have "who = OwnerStanding" using assms a a' who
      by (auto simp: dispatch_message_def heard_def Let_def split: option.splits prod.splits if_splits)
    then show ?thesis using admit_standing [OF who] by simp
  next
    case False
    then show ?thesis using admit_owner who by fastforce
  qed
  then obtain ow where "the_owner st' = Some ow" "owner_user_id ow = show_nat (tg_user_id u)"
    by (auto simp: standing_owner the_owner_def)
  moreover have "tg_store (fst (dispatch_message fmt cfg E m u st)) = tg_store st'"
    using a a' who by (simp add: dispatch_message_def publish_store Let_def split: option.split prod.split)
  ultimately show ?thesis by (simp add: the_owner_def)
qed

text \<open>C15: with answers to others turned off, every message that reaches the agent in a run, and with answers on or off every command that
  is run, comes from one and the same person: the owner the interface has at the end of the run.\<close>

theorem only_the_owner_is_heard:
  assumes "x \<in> set (snd (telegram_step fmt cfg (fst (run_machine (telegram_step fmt cfg) st es)) (Update E (TgMessage m))))" "heard cfg x"
  shows "\<exists>u ow. tg_from m = Some u \<and> owner_user_id ow = show_nat (tg_user_id u) \<and>
    the_owner (fst (run_machine (telegram_step fmt cfg) st (es @ Update E (TgMessage m) # es'))) = Some ow"
proof -
  let ?st = "fst (run_machine (telegram_step fmt cfg) st es)"
  obtain u where u: "tg_from m = Some u" "handle_update fmt cfg E (TgMessage m) ?st = dispatch_message fmt cfg E m u ?st"
    using assms(1) by (auto simp: handle_update_def split: option.splits if_splits)
  obtain ow where ow: "the_owner (fst (telegram_step fmt cfg ?st (Update E (TgMessage m)))) = Some ow"
    "owner_user_id ow = show_nat (tg_user_id u)"
    using dispatch_heard [of x fmt cfg E m u ?st] assms u by auto
  have "the_owner (fst (run_machine (telegram_step fmt cfg) st (es @ Update E (TgMessage m) # es'))) = Some ow"
    using owner_stays_run [OF ow(1)] by (simp add: run_machine_append case_prod_unfold Let_def)
  then show ?thesis using u(1) ow(2) by blast
qed

section \<open>Where a reply goes\<close>

lemma parse_show_i64: "- (2 ^ 63) \<le> i \<Longrightarrow> i < 2 ^ 63 \<Longrightarrow> parse_i64 (show_i64 i) = Some i"
proof (cases "i < 0")
  case True
  moreover assume "- (2 ^ 63) \<le> i"
  ultimately show ?thesis using show_nat_digits [of "nat (- i)"] show_nat_value [of "nat (- i)"] by (simp add: show_i64_def parse_i64_def)
next
  case False
  moreover assume "i < 2 ^ 63"
  ultimately show ?thesis using parse_i64_show [of "nat i"] by (simp add: show_i64_def)
qed

definition other_message :: "int \<Rightarrow> ustring \<Rightarrow> tg_event \<Rightarrow> bool" where
  "other_message since c e =
     (case e of
        Update E (TgMessage m) \<Rightarrow> correlation_of m \<noteq> c \<and> tg_now E - since < REPLY_TARGET_TTL
      | FromBus x \<Rightarrow> x \<noteq> TurnEnds c
      | _ \<Rightarrow> True)"

lemma dispatch_targets:
  "tg_targets (fst (dispatch_message fmt cfg E m u st)) = tg_targets st \<or>
   tg_targets (fst (dispatch_message fmt cfg E m u st)) = track (tg_now E) (correlation_of m) (tg_chat_id (tg_message_chat m)) (tg_targets st)"
proof (cases "fst (dispatch_message fmt cfg E m u st) = fst (addressed_to_agent fmt cfg E m u st)")
  case False
  then obtain a who where "fst (dispatch_message fmt cfg E m u st) = fst (publish_message E m u a who (fst (addressed_to_agent fmt cfg E m u st)))"
    using dispatch_state by blast
  then show ?thesis using publish_targets [of E m u a who "fst (addressed_to_agent fmt cfg E m u st)"] by (simp add: addressed_targets)
qed (simp add: addressed_targets)

lemma update_targets:
  "tg_targets (fst (handle_update fmt cfg E x st)) = tg_targets st \<or>
   (\<exists>m. x = TgMessage m \<and>
     tg_targets (fst (handle_update fmt cfg E x st)) = track (tg_now E) (correlation_of m) (tg_chat_id (tg_message_chat m)) (tg_targets st))"
proof (cases x)
  case (TgMessage m)
  then show ?thesis
    using dispatch_targets [of fmt cfg E m _ st] by (simp add: handle_update_def forget_migrated_group_def split: option.split)
qed (simp_all add: handle_update_def track_group_membership_def)

lemma released_get: "get_target (released outs ts) c = (if ReleasesReply c \<in> set outs then None else get_target ts c)"
  unfolding released_def by (induction outs arbitrary: ts) (auto simp: get_target_def release_def split: chat_output.split)

lemma releases_on_end: "ReleasesReply c \<in> set (snd (outbound_step C st (w, e))) \<Longrightarrow> e = TurnEnds c"
  by (cases e) (auto simp: outbound_step_def deliver_main_def deliver_session_def deliver_intermediate_def deliver_turn_error_def
      send_reply_def find_reply_target_def health_no_owner_def health_failed_def report_no_owner_def report_failing_replies_def
      report_undelivered_message_def tell_main_def notify_main_of_undeliverable_def Let_def
      split: option.splits if_splits undelivered_cause.splits)

lemma released_lookup: "hm_get (released outs ts) c = (if ReleasesReply c \<in> set outs then None else hm_get ts c)"
  unfolding released_def by (induction outs arbitrary: ts) (auto simp: release_def split: chat_output.split)

lemma released_wf: "hm_wf ts \<Longrightarrow> hm_wf (released outs ts)"
  unfolding released_def by (induction outs arbitrary: ts) (auto simp: release_def split: chat_output.split)

lemma targets_wf: "hm_wf (tg_targets st) \<Longrightarrow> hm_wf (tg_targets (fst (telegram_step fmt cfg st e)))"
proof (cases e)
  case (Update E x)
  then show "hm_wf (tg_targets st) \<Longrightarrow> ?thesis" using update_targets [of fmt cfg E x st] by auto
qed (simp add: released_wf split: prod.split)

lemma targets_wf_run: "hm_wf (tg_targets st) \<Longrightarrow> hm_wf (tg_targets (fst (run_machine (telegram_step fmt cfg) st es)))"
  by (induction es arbitrary: st) (simp_all add: targets_wf)

lemma target_kept:
  assumes "hm_wf (tg_targets st)" "hm_get (tg_targets st) c = Some (k, since)" "other_message since c e"
  shows "hm_get (tg_targets (fst (telegram_step fmt cfg st e))) c = Some (k, since)"
proof (cases e)
  case (Update E x)
  then show ?thesis
    using update_targets [of fmt cfg E x st] assms by (auto simp: other_message_def track_def hm_get_retain)
next
  case (FromBus x)
  then have "x \<noteq> TurnEnds c" using assms(3) by (simp add: other_message_def)
  then show ?thesis
    using assms(2) releases_on_end [of c "telegram_platform cfg" "tg_outbound st" st x]
    by (auto simp: FromBus released_lookup split: prod.split)
qed

lemma target_kept_run:
  "hm_wf (tg_targets st) \<Longrightarrow> hm_get (tg_targets st) c = Some (k, since) \<Longrightarrow> list_all (other_message since c) es \<Longrightarrow>
   hm_get (tg_targets (fst (run_machine (telegram_step fmt cfg) st es))) c = Some (k, since)"
  by (induction es arbitrary: st) (simp_all add: targets_wf target_kept)

lemma published_is_tracked:
  assumes "Publishes ev \<in> set (snd (handle_update fmt cfg E (TgMessage m) st))"
  shows "event_id ev = correlation_of m \<and>
    hm_get (tg_targets (fst (handle_update fmt cfg E (TgMessage m) st))) (event_id ev) = Some (tg_chat_id (tg_message_chat m), tg_now E)"
proof -
  obtain u where u: "handle_update fmt cfg E (TgMessage m) st = dispatch_message fmt cfg E m u st"
    using assms by (auto simp: handle_update_def split: option.splits if_splits)
  obtain st' a where a: "addressed_to_agent fmt cfg E m u st = (st', a)" by fastforce
  then obtain a' who where "dispatch_message fmt cfg E m u st = publish_message E m u a' who st'"
    using assms u
    by (cases a; cases "admit_sender (tg_store st') (Some (show_nat (tg_user_id u))) (respond_to_others cfg)";
        cases "strip_prefix [47] (addressed_words (the a))")
      (auto simp: dispatch_message_def Let_def split: prod.splits if_splits)
  then show ?thesis using assms u by (auto simp: publish_message_def Let_def track_def split: if_splits)
qed

text \<open>C16: the reply of the turn a message started goes to the chat the message came from and nowhere else, whatever the interface received
  and sent in between, until the turn's end is announced or for an hour.\<close>

theorem replies_go_back_to_their_chat:
  assumes "Publishes ev \<in> set (snd (telegram_step fmt cfg (telegram_run fmt cfg cap store before) (Update E (TgMessage m))))"
    and "list_all (other_message (tg_now E) (event_id ev)) after"
    and "response_correlation r = event_id ev" "response_conversation r = None"
    and "clean_exit (tg_outbound (telegram_run fmt cfg cap store (before @ Update E (TgMessage m) # after))) = None"
  shows "filter (\<lambda>x. case x of Outbound (SendsOut t c a) \<Rightarrow> True | _ \<Rightarrow> False)
      (snd (telegram_step fmt cfg (telegram_run fmt cfg cap store (before @ Update E (TgMessage m) # after)) (FromBus (Responds r refused)))) =
    [Outbound (SendsOut (tg_chat_id (tg_message_chat m)) (response_content r) (response_attachment r))]"
proof -
  let ?st = "telegram_run fmt cfg cap store (before @ Update E (TgMessage m) # after)"
  have wf: "hm_wf (tg_targets (telegram_run fmt cfg cap store before))" unfolding telegram_run_def by (rule targets_wf_run) (simp add: telegram_start_def)
  let ?next = "fst (telegram_step fmt cfg (telegram_run fmt cfg cap store before) (Update E (TgMessage m)))"
  have "Publishes ev \<in> set (snd (handle_update fmt cfg E (TgMessage m) (telegram_run fmt cfg cap store before)))"
    using assms(1) by simp
  from published_is_tracked [OF this]
  have "hm_get (tg_targets ?next) (event_id ev) = Some (tg_chat_id (tg_message_chat m), tg_now E)"
    unfolding telegram_step.simps by (rule conjunct2)
  from target_kept_run [OF targets_wf [OF wf] this assms(2)]
  have "hm_get (tg_targets ?st) (event_id ev) = Some (tg_chat_id (tg_message_chat m), tg_now E)"
    by (simp add: telegram_run_def run_machine_append case_prod_unfold Let_def)
  then have "target_for ?st (event_id ev) = Some (tg_chat_id (tg_message_chat m))" by (simp add: target_for_def get_target_def)
  then show ?thesis
    using assms(3-5)
    by (cases refused) (simp_all add: outbound_step_def deliver_main_def send_reply_def find_reply_target_def telegram_platform_def
        health_failed_def report_failing_replies_def tell_main_def Let_def)
qed

text \<open>A session's output goes to the chat of its conversation, never to the owner's.\<close>

lemma session_output_stays_in_its_chat:
  assumes "- (2 ^ 63) \<le> k" "k < 2 ^ 63" "session_conversation r = show_i64 k"
    and "Outbound (SendsOut t x a) \<in> set (snd (telegram_step fmt cfg st (FromBus (SessionResponds r refused))))"
  shows "t = k"
proof -
  have "SendsOut t x a \<in> set (snd (outbound_step (telegram_platform cfg) (tg_outbound st) (st, SessionResponds r refused)))"
    using assms(4) by (auto split: prod.splits)
  from sends_belong [OF this] show ?thesis
    using parse_show_i64 [OF assms(1,2)] assms(3) by (simp add: belongs_at_def telegram_platform_def)
qed

section \<open>Examples\<close>

definition sample_config :: tg_config where
  "sample_config = \<lparr>respond_to_others = False, deliver_intermediate_text = False, bot_username = [98], bot_id = 1\<rparr>"

definition sample_env :: "int \<Rightarrow> tg_env" where
  "sample_env now = \<lparr>tg_now = now, remember_saves = True, claim_saves = True, publishes = True\<rparr>"

definition sample_user :: "nat \<Rightarrow> tg_user" where
  "sample_user i = \<lparr>tg_user_id = i, first_name = [97], last_name = None, is_bot = False\<rparr>"

definition sample_tg_message :: "tg_chat \<Rightarrow> nat \<Rightarrow> ustring \<Rightarrow> tg_message" where
  "sample_tg_message c i t = \<lparr>tg_message_id = 3, tg_message_chat = c, migrate_to_chat = None, tg_from = Some (sample_user i), tg_text = Some t,
     tg_caption = None, replied_to_user = None, attachment_lines = [], attached_images = [], attached_files = []\<rparr>"

definition sample_dm :: tg_chat where "sample_dm = \<lparr>tg_chat_id = 5, tg_chat_type = PrivateChat, tg_chat_title = None\<rparr>"
definition sample_group :: tg_chat where "sample_group = \<lparr>tg_chat_id = 6, tg_chat_type = BasicGroup, tg_chat_title = None\<rparr>"

definition no_store :: "chat_ref chat_store" where "no_store = \<lparr>in_memory = empty_state, in_file = None\<rparr>"

lemmas telegram_eval = handle_update_def dispatch_message_def addressed_to_agent_def publish_message_def claim_owner_if_unset_def
  remember_chat_def claim_owner_def persist_def admit_sender_def standing_of_def refusal_def telegram_start_def message_words_def
  sample_config_def sample_env_def sample_user_def sample_tg_message_def sample_dm_def sample_group_def no_store_def empty_state_def
  strip_prefix_def starts_with_def Let_def is_group_chat_def

lemma sample_published:
  "\<exists>ev. Publishes ev \<in> set (snd (telegram_step (\<lambda>_. []) sample_config (telegram_start 5 no_store)
      (Update (sample_env 0) (TgMessage (sample_tg_message sample_dm 7 [104]))))) \<and>
    event_id ev = correlation_of (sample_tg_message sample_dm 7 [104])"
  by (simp add: telegram_eval)

lemma only_the_owner_is_heard_witness:
  "\<exists>u ow. tg_from (sample_tg_message sample_dm 7 [104]) = Some u \<and> owner_user_id ow = show_nat (tg_user_id u) \<and>
    the_owner (fst (run_machine (telegram_step (\<lambda>_. []) sample_config) (telegram_start 5 no_store)
      [Update (sample_env 0) (TgMessage (sample_tg_message sample_dm 7 [104])),
       Update (sample_env 1) (TgMessage (sample_tg_message sample_dm 8 [104]))])) = Some ow"
proof -
  obtain ev where ev: "Publishes ev \<in> set (snd (telegram_step (\<lambda>_. []) sample_config (telegram_start 5 no_store)
      (Update (sample_env 0) (TgMessage (sample_tg_message sample_dm 7 [104])))))" using sample_published by blast
  have h: "heard sample_config (Publishes ev)" by (simp add: heard_def sample_config_def)
  show ?thesis
    using only_the_owner_is_heard [of "Publishes ev" "\<lambda>_. []" sample_config "telegram_start 5 no_store" "[]" "sample_env 0"
        "sample_tg_message sample_dm 7 [104]" "[Update (sample_env 1) (TgMessage (sample_tg_message sample_dm 8 [104]))]"] ev h
    by simp
qed

definition sample_reply_to :: "ustring \<Rightarrow> file_attachment chat_response" where
  "sample_reply_to c = \<lparr>response_correlation = c, response_content = [106], response_attachment = None, response_conversation = None\<rparr>"

lemma replies_go_back_to_their_chat_witness:
  "\<exists>st c. filter (\<lambda>x. case x of Outbound (SendsOut t c a) \<Rightarrow> True | _ \<Rightarrow> False)
      (snd (telegram_step (\<lambda>_. []) sample_config st (FromBus (Responds (sample_reply_to c) None)))) =
    [Outbound (SendsOut 5 [106] None)]"
proof -
  obtain ev where ev: "Publishes ev \<in> set (snd (telegram_step (\<lambda>_. []) sample_config (telegram_start 5 no_store)
      (Update (sample_env 0) (TgMessage (sample_tg_message sample_dm 7 [104])))))" using sample_published by blast
  have alive: "clean_exit (tg_outbound (fst (telegram_step (\<lambda>_. []) sample_config (telegram_start 5 no_store)
      (Update (sample_env 0) (TgMessage (sample_tg_message sample_dm 7 [104])))))) = None"
    by (simp add: telegram_eval new_outbound_def)
  let ?m = "sample_tg_message sample_dm 7 [104]" and ?r = "sample_reply_to (event_id ev)"
  have fields: "tg_chat_id (tg_message_chat ?m) = 5" "response_content ?r = [106]" "response_attachment ?r = None"
    "response_correlation ?r = event_id ev" "response_conversation ?r = None"
    by (simp_all add: sample_tg_message_def sample_dm_def sample_reply_to_def)
  have "filter (\<lambda>x. case x of Outbound (SendsOut t c a) \<Rightarrow> True | _ \<Rightarrow> False)
      (snd (telegram_step (\<lambda>_. []) sample_config (telegram_run (\<lambda>_. []) sample_config 5 no_store ([] @ Update (sample_env 0) (TgMessage ?m) # []))
        (FromBus (Responds ?r None)))) =
    [Outbound (SendsOut (tg_chat_id (tg_message_chat ?m)) (response_content ?r) (response_attachment ?r))]"
    by (rule replies_go_back_to_their_chat) (use ev alive fields in \<open>simp_all add: telegram_run_def\<close>)
  then show ?thesis unfolding fields by blast
qed

text \<open>A message that mentions the bot takes what was said in the group since, also when its sender is refused: the owner's next mention comes
  without it.\<close>

definition chatter :: telegram where
  "chatter = (telegram_start 5 no_store)
     \<lparr>tg_store := \<lparr>in_memory = \<lparr>stored_owner = Some sample_owner, conversations = []\<rparr>, in_file = None\<rparr>,
      tg_context := record_message (show_i64 6) \<lparr>said_by = [97], said = [104], said_at = 0\<rparr> (new_context_buffer 5)\<rparr>"

lemma refused_mention_empties_the_context:
  "let (st, outs) = telegram_step (\<lambda>_. []) sample_config chatter (Update (sample_env 0) (TgMessage (sample_tg_message sample_group 8 [64, 98])))
   in list_all (\<lambda>x. case x of BotSays c t \<Rightarrow> True | _ \<Rightarrow> False) outs \<and> length (snd (drain_messages (show_i64 6) (tg_context chatter))) = 1 \<and>
      snd (drain_messages (show_i64 6) (tg_context st)) = []"
  by (simp add: chatter_def telegram_eval addressed_text_def mention_ranges_def match_indices_def to_ascii_lowercase_def ascii_lower_char_def
      is_ascii_upper_def record_message_def new_context_buffer_def with_conversation_limit_def MAX_BUFFERED_CONVERSATIONS_def
      drain_messages_def sample_owner_def show_i64_def hm_contains_get without_ranges_def trim_def trim_start_def trim_end_def
      show_nat.simps lit_def)

end
