(* ===== verification/Chat_Commands.thy ===== *)
theory Chat_Commands
  imports Telegram_Chat
begin

text \<open>
  The slash commands of the chat interfaces (\<open>crates/interfaces/src/commands.rs\<close>) and where \<open>/stop\<close> aims (\<open>lib.rs\<close>). What a
  command does beyond its answer is a value the interface carries out.
\<close>

datatype side_effect =
    ReloadEffect
  | InboxAdd ustring
  | ServerCommand ustring "ustring option"
  | StopTurn
  | StopSession ustring
  | ListSessions
  | Multitask ustring

record command_result =
  command_response :: ustring
  command_effect :: "side_effect option"

datatype command_kind = HelpCommand | StatusCommand | ReloadCommand | OnServer ustring | StopCommand | SessionsCommand | MultitaskCommand | InboxCommand

record command_def =
  command_names :: "ustring list"
  command_help :: ustring
  takes_arg :: bool
  arg_required :: bool
  command_kind :: command_kind

definition COMMANDS :: "command_def list" where
  "COMMANDS =
     [\<lparr>command_names = [lit ''help'', lit ''h''], command_help = lit ''show this help'', takes_arg = False, arg_required = False,
       command_kind = HelpCommand\<rparr>,
      \<lparr>command_names = [lit ''status''], command_help = lit ''show connection info'', takes_arg = False, arg_required = False,
       command_kind = StatusCommand\<rparr>,
      \<lparr>command_names = [lit ''reload'', lit ''r''], command_help = lit ''reload server configuration'', takes_arg = False, arg_required = False,
       command_kind = ReloadCommand\<rparr>,
      \<lparr>command_names = [lit ''observe'', lit ''obs''], command_help = lit ''force a memory observation cycle'', takes_arg = False,
       arg_required = False, command_kind = OnServer (lit ''observe'')\<rparr>,
      \<lparr>command_names = [lit ''reflect'', lit ''ref''], command_help = lit ''force a reflection cycle'', takes_arg = False,
       arg_required = False, command_kind = OnServer (lit ''reflect'')\<rparr>,
      \<lparr>command_names = [lit ''context'', lit ''ctx''], command_help = lit ''show context token usage'', takes_arg = False,
       arg_required = False, command_kind = OnServer (lit ''context'')\<rparr>,
      \<lparr>command_names = [lit ''stop''], command_help = lit ''stop the current turn, or a named session (/stop <name>)'', takes_arg = True,
       arg_required = False, command_kind = StopCommand\<rparr>,
      \<lparr>command_names = [lit ''sessions'', lit ''ls''], command_help = lit ''list running sessions'', takes_arg = False, arg_required = False,
       command_kind = SessionsCommand\<rparr>,
      \<lparr>command_names = [lit ''multitask''],
       command_help = lit ''fork this conversation into a session that works on a task (/multitask <task>)'', takes_arg = True,
       arg_required = True, command_kind = MultitaskCommand\<rparr>,
      \<lparr>command_names = [lit ''inbox''], command_help = lit ''add a message to the agent's inbox'', takes_arg = True, arg_required = True,
       command_kind = InboxCommand\<rparr>]"

text \<open>A hint is padded to fourteen characters.\<close>

definition pad_to :: "nat \<Rightarrow> ustring \<Rightarrow> ustring" where
  "pad_to n s = s @ replicate (n - length s) 32"

definition help_line :: "command_def \<Rightarrow> ustring" where
  "help_line d =
     (let hint = (if \<not> takes_arg d then [] else if arg_required d then lit '' <text>'' else lit '' [name]'')
      in lit ''  /'' @ concat_with (lit '', /'') (command_names d) @ pad_to 14 hint @ [8212, 32] @ command_help d)"

definition help_text :: ustring where
  "help_text = concat_with [10] (lit ''Available commands:'' # map help_line COMMANDS)"

definition status_text :: "ustring \<Rightarrow> bool \<Rightarrow> ustring" where
  "status_text url verbose =
     lit ''connected to: '' @ url @ [10] @ lit ''verbose: '' @ (if verbose then lit ''on'' else lit ''off'')"

definition command_outcome :: "command_kind \<Rightarrow> ustring option \<Rightarrow> ustring \<Rightarrow> bool \<Rightarrow> command_result" where
  "command_outcome k arg url verbose =
     (case k of
        HelpCommand \<Rightarrow> \<lparr>command_response = help_text, command_effect = None\<rparr>
      | StatusCommand \<Rightarrow> \<lparr>command_response = status_text url verbose, command_effect = None\<rparr>
      | ReloadCommand \<Rightarrow> \<lparr>command_response = lit ''Reloading configuration...'', command_effect = Some ReloadEffect\<rparr>
      | OnServer name \<Rightarrow> \<lparr>command_response = name @ lit '' triggered.'', command_effect = Some (ServerCommand name None)\<rparr>
      | StopCommand \<Rightarrow>
          (case arg of
             Some (c # cs) \<Rightarrow> \<lparr>command_response = lit ''stopping session '' @ [39] @ (c # cs) @ [39, 8230],
                               command_effect = Some (StopSession (c # cs))\<rparr>
           | _ \<Rightarrow> \<lparr>command_response = lit ''stopping the current turn'' @ [8230], command_effect = Some StopTurn\<rparr>)
      | SessionsCommand \<Rightarrow> \<lparr>command_response = [], command_effect = Some ListSessions\<rparr>
      | MultitaskCommand \<Rightarrow>
          (case map_option trim arg of
             Some (c # cs) \<Rightarrow> \<lparr>command_response = [], command_effect = Some (Multitask (c # cs))\<rparr>
           | _ \<Rightarrow> \<lparr>command_response = lit ''usage: /multitask <task>'', command_effect = None\<rparr>)
      | InboxCommand \<Rightarrow>
          (case arg of
             Some (c # cs) \<Rightarrow> \<lparr>command_response = lit ''Item added to inbox.'', command_effect = Some (InboxAdd (c # cs))\<rparr>
           | _ \<Rightarrow> \<lparr>command_response = lit ''usage: /inbox <text>'', command_effect = None\<rparr>))"

definition execute_command :: "ustring \<Rightarrow> ustring option \<Rightarrow> ustring \<Rightarrow> bool \<Rightarrow> command_result" where
  "execute_command name arg url verbose =
     (case find (\<lambda>d. name \<in> set (command_names d)) COMMANDS of
        Some d \<Rightarrow> command_outcome (command_kind d) arg url verbose
      | None \<Rightarrow> \<lparr>command_response = lit ''unknown command: /'' @ name @ lit '' (try /help)'', command_effect = None\<rparr>)"

text \<open>Every name belongs to one command.\<close>

lemma command_names_distinct: "distinct (concat (map command_names COMMANDS))"
  by code_simp

datatype stop_target = StopMain | StopConversation ustring

definition resolve_stop_target :: "ustring \<Rightarrow> conversation_context option \<Rightarrow> stop_target" where
  "resolve_stop_target endpoint conversation =
     (case conversation of
        Some c \<Rightarrow>
          if \<not> (conv_kind c = Personal \<and> conv_is_owner c) then StopConversation (conversation_session_address endpoint (conv_id c)) else StopMain
      | None \<Rightarrow> StopMain)"

text \<open>\<open>/stop\<close> aims at main exactly where a message of the same conversation goes to main, and otherwise at the address of the session
  that answers the conversation.\<close>

theorem stop_aims_where_messages_go:
  "resolve_stop_target (origin_endpoint m) (origin_conversation m) =
     (if belongs_to_main m then StopMain
      else StopConversation (conversation_session_address (origin_endpoint m) (conv_id (the (origin_conversation m)))))"
  by (simp add: resolve_stop_target_def belongs_to_main_def split: option.split)

text \<open>\<open>num_minutes\<close> of a span of nanoseconds cuts towards zero; negative spans show as none.\<close>

definition format_elapsed :: "int \<Rightarrow> ustring" where
  "format_elapsed elapsed =
     (let total = nat (max (elapsed div dur_minutes 1) 0); hours = total div 60; mins = total mod 60
      in if hours > 0 then show_nat hours @ lit ''h '' @ show_nat mins @ lit ''m'' else show_nat mins @ lit ''m'')"

end
