(* ===== verification/Spec2Isabelle.thy ===== *)
theory Spec2Isabelle
  imports Tunnel_Connection Hostnames Pairing_Service Pulse_Scheduler Stream_Decoding Inference_Failover Inference_Usage
    Session_Run Action_Store Recent_Messages Event_Bus Whole_Turn Waiting_Pages Edit_Line_Endings Team_Locks
    Chat_Chunks Chat_Commands
begin

text \<open>
  Residuum runs personal agents: a gateway that owns an agent's conversation and its sessions, an event bus between
  its parts, providers of language models behind a retrying and failing-over client, pulses and scheduled actions
  that start work on their own, and a hub that reaches the agents from outside through a tunnel, for devices
  that were paired. This library models the parts that carry the program's own logic and proves what they promise.
  It is read from \<open>Prelude\<close> upwards; every theory opens with what it holds.

  \<^bold>\<open>Prelude.\<close> Rust's collections and numbers as they are used here: \<open>hmap\<close> is a \<open>HashMap\<close> as an association list
  (\<open>keyed_store\<close> is its contract), a \<open>Duration\<close> is an integer of nanoseconds, fallible code returns a sum whose left is the
  error. A component with state is a step function run over a list of operations by \<open>run_machine\<close>; the locales
  \<open>machine\<close>, \<open>budget_machine\<close> and \<open>pipe_machine\<close> carry the inductions over runs and are interpreted on the components.
  \<open>Rust_Text\<close> and \<open>Rust_Numbers\<close> hold what the code uses of \<open>str\<close> and of number parsing.

  \<^bold>\<open>The tunnel\<close> (\<open>crates/net/src/tunnel\<close>). \<open>Tunnel_Frames\<close> are the messages; \<open>Tunnel_Stream\<close> one stream with its flow control
  and wakers; \<open>Tunnel_Link\<close> the pending grants and claims; \<open>Tunnel_Session\<close> the table of streams, every frame handler
  and the session loop; \<open>Tunnel_Connection\<close> the writer's two queues and the reconnecting client. Shown: bytes arrive in order
  and within the window, nothing is served before acceptance, at most 256 streams and 64 MiB, every end
  releases everything and wakes everyone. \<open>Hostnames\<close> derives and recognises the instance's names.

  \<^bold>\<open>Pairing\<close> (\<open>crates/net/src/pairing\<close>). \<open>Pairing_Limits\<close> is the attempt limiter, refined against the full history;
  \<open>Pairing_State\<close> the tokens, requests, codes and devices; \<open>Pairing_Service\<close> the operations with their saves, and the
  gate every remote request passes. Shown: no device without an authorisation, revoked devices stay
  out, codes work once, every store is bounded. The hash and the random source are parameters.

  \<^bold>\<open>Pulses and actions\<close> (\<open>crates/proactivity\<close>, \<open>gateway/src/actions.rs\<close>, \<open>tools/src/actions.rs\<close>). \<open>Pulse_Types\<close> loads and checks
  \<open>HEARTBEAT.yml\<close>, \<open>Pulse_Scheduler\<close> decides what is due and predicts the next run, \<open>Action_Store\<close> runs
  one-off actions. Shown: what is due is exactly what fires, the prediction agrees with the scheduler, no
  action is lost or runs twice. The YAML and JSON parsers and the time zone database are parameters.

  \<^bold>\<open>Inference\<close> (\<open>crates/inference\<close>). \<open>Stream_Decoding\<close> reads a provider's stream and assembles the reply; \<open>Inference_Types\<close>,
  \<open>Inference_Errors\<close> the messages and the classification of failures; \<open>Inference_Attempts\<close> the retry loop;
  \<open>Inference_Failover\<close> the chain of providers and the image guard; \<open>Inference_Usage\<close> prices and monthly records.
  Providers are given by their outcomes. Shown: chunks and cuts do not matter, retries stop, every attempt is
  accounted for, notices are told on transitions only, written records are never lost.

  \<^bold>\<open>Sessions\<close> (\<open>crates/background\<close>, \<open>crates/bus/src/session.rs\<close>, \<open>events.rs\<close>). \<open>Session_Names\<close> the vocabulary and addresses;
  \<open>Session_Registry\<close> live sessions, their channels, resume points and fire stops; \<open>Session_Messaging\<close>
  delivery of messages, with hop limits and the waits for completing sessions; \<open>Session_Run\<close> one run from its start to its
  teardown. Shown: a message ends in exactly one place, loops of messages end, waiters return, stops are not lost, what a run accepted
  is read by it or by its successor (and where that fails).

  \<^bold>\<open>The bus\<close> (\<open>crates/bus/src/broker.rs\<close>, \<open>handle.rs\<close>, \<open>topics.rs\<close>, \<open>conversations.rs\<close>): \<open>Event_Bus\<close>. Shown: lossless routes lose and
  reorder nothing, lossy ones count what they lose. \<open>Recent_Messages\<close> (\<open>crates/agent\<close>) is the list of messages of the
  conversation and the watch that says when a request stops extending the last one.

  \<^bold>\<open>An agent's turn\<close> (\<open>crates/agent\<close>). \<open>Tool_Results\<close> holds the redaction of known secrets and the excerpt kept of a long
  result; \<open>Turn_Stream\<close> the batching of streamed output; \<open>Agent_Turn\<close> the whole loop of \<open>turn.rs\<close>: checkpoints, the
  model call, the settling of its answer, the batch of tool calls with its stop and its guard, notices, usage and what is
  published of all that. What the turn meets (interrupts, the stop, the model, tools) is the record
  \<open>turn_env\<close> over a world of its own. \<open>Turn_History\<close> shows of each operation that it only adds to the history and the effects,
  \<open>Whole_Turn\<close> the properties of \<open>execute_turn\<close>, a partial function, since a turn without a limit may go on for ever: every
  tool call is answered in place, the screen shows what the history keeps, limited turns end, stops end a turn, calls
  do not repeat beyond the guard.

  \<^bold>\<open>The main conversation\<close> (\<open>crates/gateway\<close>). \<open>Turn_Journal\<close> holds the events of \<open>crates/bus/src/events.rs\<close>, the journal
  that keeps the turn in flight (\<open>turn_journal.rs\<close>) and a web connection's place in it; \<open>Waiting_Messages\<close> the list of messages
  that wait (\<open>queued_messages.rs\<close>), the interrupt channel of the main turn, its leftovers and the messages that start the next turn
  (\<open>event_loop/turns.rs\<close>, \<open>run_loop.rs\<close>), as \<open>room_step\<close>. Its specification is the ledger \<open>moves\<close>, in which a message
  simply waits, is read, or is withdrawn and dropped; \<open>Waiting_Room\<close> shows that every run implements it, \<open>Waiting_Pages\<close>
  that the journal fed with what the room publishes shows the pages what waits. A page that opens mid-turn misses nothing.

  \<^bold>\<open>File tools and the team directory\<close> (\<open>crates/tools/src\<close>: \<open>path_policy.rs\<close>, \<open>write.rs\<close>, \<open>edit.rs\<close>, \<open>read.rs\<close>, \<open>file_tracker.rs\<close>;
  \<open>crates/workspace/src/team_files.rs\<close>). \<open>File_Paths\<close> is a file system of directories, files and links, with the calls of \<open>std::fs\<close>
  the code makes, and the two ways the code names a file; \<open>Write_Policy\<close> decides what an agent may write, \<open>Text_Edits\<close> is the
  edit of a text, \<open>Team_Files\<close> the record of who wrote a shared file last and the tool calls as steps others come between,
  \<open>Team_Locks\<close> the taking of several locks. Shown: blocked files do not change (and the paths that get around the policy),
  an edit changes what it shows and nothing else, line ends do not matter to it, no update of a team file is lost, no deadlock.
  A path goes through at most 40 links, as in Linux; a text is its code points, and in \<open>Team_Files\<close> a file is named by its key.

  \<^bold>\<open>Chat interfaces\<close> (\<open>crates/interfaces/src\<close>). \<open>Chat_Chunks\<close> cuts replies into messages; \<open>Chat_State\<close> holds the owner and the
  conversations with their file, the chats that turns answer in, the buffer of messages nobody addressed to the bot, and the first
  connection; \<open>Chat_Outbound\<close> is the delivery loop over any platform, \<open>Telegram_Chat\<close> its instance with the handling of updates,
  \<open>Chat_Commands\<close> the slash commands. Shown: a cut reply loses nothing (and when it does) and closes its code blocks, only the owner
  is heard, replies go back where they belong, failures are reported once, the buffer is the list of recent conversations.

  \<^bold>\<open>How concurrency is modelled.\<close> Tasks are steps of a machine in any order, cut where the code awaits or takes a lock; what the
  environment decides (a frame, a failed save, a full channel) is an argument of the step.

  \<^bold>\<open>Fuel and termination.\<close> Loops are structural recursion or have a measure. The only fuel is that of
  \<open>drain_loop\<close> in \<open>Session_Run\<close>, one more than the messages in the channel, and each pass takes one.

  \<^bold>\<open>Not modelled.\<close> Sockets, processes and rendering (\<open>mcp\<close>, \<open>notify\<close>, the hub's web server, the
  web and native front ends), JSON and YAML codecs (serde), the providers' wire formats, and the loading of agents
  and their prompts from files.
\<close>

end
